(* ===== verification/Prelude.thy ===== *)
theory Prelude
  imports Main "HOL-Library.Word" "HOL-Library.Monad_Syntax"
begin

unbundle bit_operations_syntax

section \<open>Shared vocabulary of the model\<close>

text \<open>
  Machine integers of the client are modelled at their width where their bits matter: a byte of a
  packet is an 8-bit word, a packed index word and a network runtime id are 32-bit words.
  Coordinates (\<^verbatim>\<open>i32\<close>) are integers with every checked, wrapping or saturating operation
  written out below; sizes (\<^verbatim>\<open>usize\<close>) are natural numbers.  A panic of the source is the
  value \<open>None\<close> of an option; a \<^verbatim>\<open>Result\<close> is a sum with the error on the left.
\<close>

type_synonym u8 = "8 word"
type_synonym u32 = "32 word"
type_synonym u64 = "64 word"
type_synonym i32 = int
type_synonym usize = nat

named_theorems bounds_simps
  \<open>unfolds the bounds of machine integers\<close>

named_theorems result_simps
  \<open>unfolds the plumbing of fallible operations\<close>

subsection \<open>Fallible operations\<close>

text \<open>Rust's \<^verbatim>\<open>?\<close> on a \<^verbatim>\<open>Result\<close>: stop at the first error.\<close>

definition and_then :: "'e + 'a \<Rightarrow> ('a \<Rightarrow> 'e + 'b) \<Rightarrow> 'e + 'b" where
  "and_then m f = (case m of Inl e \<Rightarrow> Inl e | Inr x \<Rightarrow> f x)"

lemma and_then_simps [simp]:
  "and_then (Inl e) f = Inl e"
  "and_then (Inr x) f = f x"
  by (simp_all add: and_then_def)

lemma and_then_Inr_iff [result_simps]:
  "and_then m f = Inr y \<longleftrightarrow> (\<exists>x. m = Inr x \<and> f x = Inr y)"
  by (cases m) auto

lemma and_then_Inl_iff [result_simps]:
  "and_then m f = Inl e \<longleftrightarrow> m = Inl e \<or> (\<exists>x. m = Inr x \<and> f x = Inl e)"
  by (cases m) auto

lemma and_then_cong [fundef_cong]:
  "m = m' \<Longrightarrow> (\<And>x. m' = Inr x \<Longrightarrow> f x = g x) \<Longrightarrow> and_then m f = and_then m' g"
  by (cases m') auto

definition map_err :: "('e \<Rightarrow> 'f) \<Rightarrow> 'e + 'a \<Rightarrow> 'f + 'a" where
  "map_err g m = (case m of Inl e \<Rightarrow> Inl (g e) | Inr x \<Rightarrow> Inr x)"

lemma map_err_simps [simp]:
  "map_err g (Inl e) = Inl (g e)"
  "map_err g (Inr x) = Inr x"
  by (simp_all add: map_err_def)

lemma map_err_Inr_iff [result_simps]: "map_err g m = Inr x \<longleftrightarrow> m = Inr x"
  by (cases m) auto

text \<open>A panic (\<open>None\<close>) stops the caller as an early return does; these are its inversions.\<close>

lemma bind_Some_iff [result_simps]:
  "m \<bind> f = Some y \<longleftrightarrow> (\<exists>x. m = Some x \<and> f x = Some y)"
  by (cases m) auto

subsection \<open>Signed 32-bit coordinates\<close>

definition in_i32 :: "int \<Rightarrow> bool" where
  "in_i32 n \<longleftrightarrow> - 2147483648 \<le> n \<and> n \<le> 2147483647"

definition checked_i32 :: "int \<Rightarrow> i32 option" where
  "checked_i32 n = (if in_i32 n then Some n else None)"

definition checked_add_i32 :: "i32 \<Rightarrow> i32 \<Rightarrow> i32 option" where
  "checked_add_i32 a b = checked_i32 (a + b)"

definition checked_sub_i32 :: "i32 \<Rightarrow> i32 \<Rightarrow> i32 option" where
  "checked_sub_i32 a b = checked_i32 (a - b)"

definition clamp_i32 :: "int \<Rightarrow> i32" where
  "clamp_i32 n = max (- 2147483648) (min 2147483647 n)"

definition saturating_add_i32 :: "i32 \<Rightarrow> i32 \<Rightarrow> i32" where
  "saturating_add_i32 a b = clamp_i32 (a + b)"

definition saturating_mul_i32 :: "i32 \<Rightarrow> i32 \<Rightarrow> i32" where
  "saturating_mul_i32 a b = clamp_i32 (a * b)"

definition wrap_i32 :: "int \<Rightarrow> i32" where
  "wrap_i32 n = (n + 2147483648) mod 4294967296 - 2147483648"

lemma checked_i32_Some_iff [bounds_simps]: "checked_i32 n = Some m \<longleftrightarrow> m = n \<and> in_i32 n"
  by (auto simp: checked_i32_def)

lemma checked_i32_None_iff [bounds_simps]: "checked_i32 n = None \<longleftrightarrow> \<not> in_i32 n"
  by (auto simp: checked_i32_def)

lemma in_i32_clamp [simp]: "in_i32 (clamp_i32 n)"
  by (simp add: in_i32_def clamp_i32_def)

lemma clamp_i32_id: "in_i32 n \<Longrightarrow> clamp_i32 n = n"
  by (simp add: in_i32_def clamp_i32_def)

lemma in_i32_wrap [simp]: "in_i32 (wrap_i32 n)"
  unfolding in_i32_def wrap_i32_def by (smt (verit) pos_mod_bound pos_mod_sign)

lemma wrap_i32_id: "in_i32 n \<Longrightarrow> wrap_i32 n = n"
  by (simp add: in_i32_def wrap_i32_def)

text \<open>The truncating cast of a size to \<^verbatim>\<open>u16\<close>.\<close>

definition as_u16 :: "usize \<Rightarrow> nat" where
  "as_u16 n = n mod 65536"

lemma as_u16_id [bounds_simps]: "n < 65536 \<Longrightarrow> as_u16 n = n"
  by (simp add: as_u16_def)

subsection \<open>Lists\<close>

lemma fold_invariant:
  assumes "\<And>x s. x \<in> set xs \<Longrightarrow> P s \<Longrightarrow> P (f x s)" and "P s"
  shows "P (fold f xs s)"
  using assms by (induction xs arbitrary: s) auto

lemma map_of_Some_in_set: "map_of xs k = Some v \<Longrightarrow> (k, v) \<in> set xs"
  by (rule map_of_SomeD)

text \<open>A counting loop over the cells below \<open>n\<close> counts the set of the cells it selects.\<close>

lemma length_filter_upt: "length (filter P [0..<n]) = card {i. i < n \<and> P i}"
proof -
  have "length (filter P [0..<n]) = card (set (filter P [0..<n]))"
    by (subst distinct_card) simp_all
  also have "set (filter P [0..<n]) = {i. i < n \<and> P i}" by auto
  finally show ?thesis .
qed

subsection \<open>Loops that may panic\<close>

text \<open>A \<^verbatim>\<open>for\<close> loop whose body may panic: the loop panics at the first body that does.\<close>

fun try_fold :: "('a \<Rightarrow> 's \<Rightarrow> 's option) \<Rightarrow> 'a list \<Rightarrow> 's \<Rightarrow> 's option" where
  "try_fold f [] s = Some s"
| "try_fold f (x # xs) s = (case f x s of None \<Rightarrow> None | Some s' \<Rightarrow> try_fold f xs s')"

lemma try_fold_append:
  "try_fold f (xs @ ys) s = (case try_fold f xs s of None \<Rightarrow> None | Some s' \<Rightarrow> try_fold f ys s')"
  by (induction xs arbitrary: s) (auto split: option.splits)

text \<open>The rule of such a loop over the indices below \<open>n\<close>: a body that never panics from the
  loop invariant gives a loop that returns, with the invariant at \<open>n\<close>.\<close>

lemma try_fold_upt:
  assumes "\<And>i s. i < n \<Longrightarrow> P i s \<Longrightarrow> \<exists>s'. f i s = Some s' \<and> P (Suc i) s'" and "P 0 s"
  shows "\<exists>s'. try_fold f [0..<n] s = Some s' \<and> P n s'"
  using assms
proof (induction n)
  case 0
  then show ?case by simp
next
  case (Suc n)
  then obtain s' where s': "try_fold f [0..<n] s = Some s'" "P n s'"
    by (metis less_SucI)
  with Suc.prems(1)[of n s'] obtain t where "f n s' = Some t" "P (Suc n) t" by blast
  with s' show ?case by (simp add: try_fold_append)
qed

lemma try_fold_total:
  assumes "\<And>x s. x \<in> set xs \<Longrightarrow> f x s = Some (g x s)"
  shows "try_fold f xs s = Some (fold g xs s)"
  using assms by (induction xs arbitrary: s) auto

end
