(* ===== verification/Packed_Words.thy ===== *)
theory Packed_Words
  imports Prelude
begin

section \<open>Packed palette indices\<close>

text \<open>
  The packed index words of \<^verbatim>\<open>crates/world/src/palette.rs\<close>: 4,096 cells of a sub-chunk, each an
  index of a fixed width, packed into 32-bit words that never split an index over two words (the
  top bits of a word are padding when the width does not divide 32).
\<close>

definition SUB_CHUNK_SIDE :: usize where
  "SUB_CHUNK_SIDE = 16"

definition BLOCKS_PER_SUB_CHUNK :: usize where
  "BLOCKS_PER_SUB_CHUNK = SUB_CHUNK_SIDE * SUB_CHUNK_SIDE * SUB_CHUNK_SIDE"

definition SUPPORTED_BITS :: "nat list" where
  "SUPPORTED_BITS = [0, 1, 2, 3, 4, 5, 6, 8, 16]"

definition PACKED_BITS :: "nat list" where
  "PACKED_BITS = [1, 2, 3, 4, 5, 6, 8, 16]"

definition div_ceil :: "usize \<Rightarrow> usize \<Rightarrow> usize" where
  "div_ceil a b = (if a mod b = 0 then a div b else a div b + 1)"

definition word_count :: "nat \<Rightarrow> usize" where
  "word_count bits_per_index =
     (if bits_per_index = 0 then 0
      else let values_per_word = 32 div bits_per_index
           in div_ceil BLOCKS_PER_SUB_CHUNK values_per_word)"

text \<open>The search always succeeds, since it accepts the width 16 whatever the length.\<close>

definition bits_for_palette_len :: "usize \<Rightarrow> nat" where
  "bits_for_palette_len palette_len =
     the (List.find (\<lambda>bits. bits = 16 \<or> palette_len \<le> 2 ^ bits) SUPPORTED_BITS)"

definition index_mask :: "nat \<Rightarrow> u32" where
  "index_mask bits = push_bit bits 1 - 1"

text \<open>The read of one packed index of a positive width; \<open>None\<close> where the word is missing.\<close>

definition read_packed :: "u32 list \<Rightarrow> nat \<Rightarrow> usize \<Rightarrow> usize option" where
  "read_packed words bits linear =
     (let values_per_word = 32 div bits;
          shift = (linear mod values_per_word) * bits
      in if linear div values_per_word < length words
         then Some (unat (drop_bit shift (words ! (linear div values_per_word)) AND index_mask bits))
         else None)"

text \<open>Writing outside the words is the panic of the slice index.\<close>

definition write_palette_index :: "u32 list \<Rightarrow> nat \<Rightarrow> usize \<Rightarrow> usize \<Rightarrow> u32 list option" where
  "write_palette_index words bits_per_index linear index =
     (if bits_per_index = 0 then Some words
      else let values_per_word = 32 div bits_per_index;
               shift = (linear mod values_per_word) * bits_per_index;
               mask = push_bit shift (index_mask bits_per_index);
               at = linear div values_per_word
           in if at < length words
              then Some (words[at := (words ! at AND NOT mask)
                                     OR (push_bit shift (word_of_nat index) AND mask)])
              else None)"

text \<open>Packing one index per cell into fresh zero words, the loop shared by every repacking.\<close>

definition pack_cells :: "nat \<Rightarrow> (usize \<Rightarrow> usize option) \<Rightarrow> u32 list \<Rightarrow> u32 list option" where
  "pack_cells bits cell words =
     try_fold (\<lambda>linear ws. cell linear \<bind> write_palette_index ws bits linear)
       [0..<BLOCKS_PER_SUB_CHUNK] words"

definition zero_padded :: "u32 list \<Rightarrow> nat \<Rightarrow> bool" where
  "zero_padded words bits \<longleftrightarrow>
     (let per_word = 32 div bits
      in list_all (\<lambda>(index, word).
           let slots = min (BLOCKS_PER_SUB_CHUNK - index * per_word) per_word;
               used_bits = slots * bits
           in used_bits = 32 \<or> drop_bit used_bits word = 0) (enumerate 0 words))"

subsection \<open>Widths\<close>

lemma blocks_per_sub_chunk [bounds_simps]: "BLOCKS_PER_SUB_CHUNK = 4096"
  by (simp add: BLOCKS_PER_SUB_CHUNK_def SUB_CHUNK_SIDE_def)

lemma packed_bits_cases:
  assumes "b \<in> set PACKED_BITS"
  obtains "b = 1" | "b = 2" | "b = 3" | "b = 4" | "b = 5" | "b = 6" | "b = 8" | "b = 16"
  using assms by (auto simp: PACKED_BITS_def)

lemma packed_bits_bounds [simp]:
  "b \<in> set PACKED_BITS \<Longrightarrow> 0 < b" "b \<in> set PACKED_BITS \<Longrightarrow> b \<le> 16"
  by (auto simp: PACKED_BITS_def)

lemma supported_bits_iff: "b \<in> set SUPPORTED_BITS \<longleftrightarrow> b = 0 \<or> b \<in> set PACKED_BITS"
  by (auto simp: SUPPORTED_BITS_def PACKED_BITS_def)

lemma word_count_values:
  "word_count 0 = 0" "word_count 1 = 128" "word_count 2 = 256" "word_count 3 = 410"
  "word_count 4 = 512" "word_count 5 = 683" "word_count 6 = 820" "word_count 8 = 1024"
  "word_count 16 = 2048"
  by (simp_all add: word_count_def div_ceil_def bounds_simps)

lemma cell_in_words:
  assumes "b \<in> set PACKED_BITS" "linear < BLOCKS_PER_SUB_CHUNK"
  shows "linear div (32 div b) < word_count b"
  using assms by (elim packed_bits_cases)
    (simp_all add: word_count_values [simplified] bounds_simps)

lemma bits_for_palette_len_eq:
  "bits_for_palette_len n =
     (if n \<le> 1 then 0 else if n \<le> 2 then 1 else if n \<le> 4 then 2 else if n \<le> 8 then 3
      else if n \<le> 16 then 4 else if n \<le> 32 then 5 else if n \<le> 64 then 6
      else if n \<le> 256 then 8 else 16)"
  by (simp add: bits_for_palette_len_def SUPPORTED_BITS_def)

lemma bits_for_palette_len_supported [simp]: "bits_for_palette_len n \<in> set SUPPORTED_BITS"
  by (simp add: bits_for_palette_len_eq SUPPORTED_BITS_def)

lemma bits_for_palette_len_fits:
  assumes "n \<le> BLOCKS_PER_SUB_CHUNK" shows "n \<le> 2 ^ bits_for_palette_len n"
  using assms by (simp add: bits_for_palette_len_eq bounds_simps)

lemma bits_for_palette_len_le:
  assumes "n \<le> 2 ^ b" "b \<in> set SUPPORTED_BITS" shows "bits_for_palette_len n \<le> b"
  using assms by (auto simp: bits_for_palette_len_eq SUPPORTED_BITS_def)

lemma bits_for_palette_len_mono: "m \<le> n \<Longrightarrow> bits_for_palette_len m \<le> bits_for_palette_len n"
  by (simp add: bits_for_palette_len_eq)

lemma bits_for_palette_len_0_iff: "bits_for_palette_len n = 0 \<longleftrightarrow> n \<le> 1"
  by (simp add: bits_for_palette_len_eq)

subsection \<open>One word\<close>

lemma index_mask_mask: "b \<le> 16 \<Longrightarrow> index_mask b = mask b"
  by (simp add: index_mask_def mask_eq_exp_minus_1 push_bit_eq_mult)

lemma slot_disjoint:
  fixes b k k' n :: nat
  assumes "n < b"
  shows "(k * b \<le> k' * b + n \<and> k' * b + n - k * b < b) \<longleftrightarrow> k = k'"
proof
  assume A: "k * b \<le> k' * b + n \<and> k' * b + n - k * b < b"
  have "k * b < Suc k' * b" using A assms by (simp only: mult_Suc) linarith
  moreover have "k' * b < Suc k * b" using A by (simp only: mult_Suc) linarith
  ultimately show "k = k'" by (metis mult_less_cancel2 less_Suc_eq_le order_antisym)
qed (use assms in simp)

lemma slot_end:
  fixes b k :: nat
  assumes "0 < b" "k < 32 div b" shows "k * b + b \<le> 32"
proof -
  have "Suc k * b \<le> 32 div b * b" using assms(2) by (intro mult_right_mono) auto
  also have "\<dots> \<le> 32" by simp
  finally show ?thesis by simp
qed

lemma word_read_write:
  fixes w :: u32
  assumes b: "0 < b" "b \<le> 16" and k: "k < 32 div b" and k': "k' < 32 div b"
  shows "drop_bit (k' * b) ((w AND NOT (push_bit (k * b) (mask b)))
            OR (push_bit (k * b) i AND push_bit (k * b) (mask b))) AND mask b
         = (if k' = k then take_bit b i else drop_bit (k' * b) w AND mask b)"
proof (rule bit_word_eqI)
  fix n
  assume n: "n < LENGTH(32)"
  have e: "k' * b + b \<le> 32" using slot_end b k' by blast
  show "bit (drop_bit (k' * b) ((w AND NOT (push_bit (k * b) (mask b)))
            OR (push_bit (k * b) i AND push_bit (k * b) (mask b))) AND mask b) n
        = bit (if k' = k then take_bit b i else drop_bit (k' * b) w AND mask b) n"
  proof (cases "n < b")
    case True
    note d = slot_disjoint[OF True, of k k']
    have lt: "k' * b + n < 32" using e True by simp
    show ?thesis
      using True lt d by (cases "k' = k")
        (auto simp: bit_simps n simp del: mult_cancel2)
  next
    case False
    then show ?thesis by (simp add: bit_simps)
  qed
qed

subsection \<open>The interface of packed cells\<close>

text \<open>
  What the palette relies on: a write of an index that fits returns, is read back at its cell and
  leaves every other cell alone.  \<open>rd\<close> and \<open>wr\<close> are the read and the write, \<open>fits\<close> says which
  indices the width can hold, \<open>invar\<close> which words are well formed, \<open>cells\<close> how many cells there
  are.
\<close>

locale packed_cells =
  fixes rd :: "'w \<Rightarrow> usize \<Rightarrow> usize option"
    and wr :: "'w \<Rightarrow> usize \<Rightarrow> usize \<Rightarrow> 'w option"
    and fits :: "usize \<Rightarrow> bool"
    and invar :: "'w \<Rightarrow> bool"
    and cells :: usize
  assumes rd_total: "invar w \<Longrightarrow> l < cells \<Longrightarrow> \<exists>i. rd w l = Some i \<and> fits i"
    and wr_total: "invar w \<Longrightarrow> l < cells \<Longrightarrow> \<exists>w'. wr w l i = Some w'"
    and wr_invar: "invar w \<Longrightarrow> l < cells \<Longrightarrow> wr w l i = Some w' \<Longrightarrow> invar w'"
    and rd_wr: "invar w \<Longrightarrow> l < cells \<Longrightarrow> fits i \<Longrightarrow> wr w l i = Some w' \<Longrightarrow> l' < cells \<Longrightarrow>
      rd w' l' = (if l' = l then Some i else rd w l')"
begin

definition fill :: "(usize \<Rightarrow> usize option) \<Rightarrow> 'w \<Rightarrow> 'w option" where
  "fill cell w = try_fold (\<lambda>l w. cell l \<bind> wr w l) [0..<cells] w"

text \<open>Writing one index per cell gives words that read back exactly these indices.\<close>

lemma fill_reads:
  assumes "invar w" and g: "\<And>l. l < cells \<Longrightarrow> cell l = Some (g l) \<and> fits (g l)"
  shows "\<exists>w'. fill cell w = Some w' \<and> invar w' \<and> (\<forall>l<cells. rd w' l = Some (g l))"
proof -
  let ?P = "\<lambda>n w'. invar w' \<and> (\<forall>l<n. rd w' l = Some (g l))"
  have "\<exists>w'. try_fold (\<lambda>l w. cell l \<bind> wr w l) [0..<cells] w = Some w' \<and> ?P cells w'"
  proof (rule try_fold_upt)
    fix l v
    assume l: "l < cells" and P: "?P l v"
    then obtain v' where v': "wr v l (g l) = Some v'" using wr_total by blast
    have "?P (Suc l) v'"
      using P l v' g wr_invar rd_wr [of v l "g l" v'] by (auto simp: less_Suc_eq)
    then show "\<exists>s'. (cell l \<bind> wr v l) = Some s' \<and> ?P (Suc l) s'"
      using v' g [OF l] by auto
  qed (use assms(1) in simp)
  then show ?thesis by (auto simp: fill_def)
qed

end

subsection \<open>The packed words provide it\<close>

lemma index_fits_word: "b \<le> 16 \<Longrightarrow> i < 2 ^ b \<Longrightarrow> unat (take_bit b (word_of_nat i :: u32)) = i"
proof -
  assume b: "b \<le> 16" and i: "i < 2 ^ b"
  have "(2::nat) ^ b \<le> 2 ^ 16" using b by (intro power_increasing) auto
  then have "i < 2 ^ LENGTH(32)" using i by simp
  then have "unat (word_of_nat i :: u32) = i" by (simp add: unsigned_of_nat take_bit_nat_eq_self)
  then show ?thesis
    using i by (simp add: unsigned_take_bit_eq take_bit_nat_eq_self)
qed

lemma read_packed_bound:
  assumes "b \<le> 16" "read_packed ws b l = Some i" shows "i < 2 ^ b"
proof -
  obtain w :: u32 where "i = unat (w AND mask b)"
    using assms by (auto simp: read_packed_def Let_def index_mask_mask split: if_splits)
  then have "i = take_bit b (unat w)"
    by (simp add: take_bit_eq_mask [symmetric] unsigned_take_bit_eq)
  then show ?thesis by simp
qed

lemma read_packed_total:
  assumes "b \<in> set PACKED_BITS" "length ws = word_count b" "l < BLOCKS_PER_SUB_CHUNK"
  shows "\<exists>i. read_packed ws b l = Some i \<and> i < 2 ^ b"
  using cell_in_words [OF assms(1,3)] assms read_packed_bound [of b ws l]
  by (auto simp: read_packed_def Let_def)

lemma write_total:
  assumes "b \<in> set PACKED_BITS" "length ws = word_count b" "l < BLOCKS_PER_SUB_CHUNK"
  shows "\<exists>ws'. write_palette_index ws b l i = Some ws' \<and> length ws' = word_count b"
  using cell_in_words [OF assms(1,3)] assms by (auto simp: write_palette_index_def Let_def)

lemma write_length: "write_palette_index ws b l i = Some ws' \<Longrightarrow> length ws' = length ws"
  by (auto simp: write_palette_index_def Let_def split: if_splits)

lemma read_write:
  assumes b: "b \<in> set PACKED_BITS" and i: "i < 2 ^ b"
    and w: "write_palette_index ws b l i = Some ws'"
  shows "read_packed ws' b l' = (if l' = l then Some i else read_packed ws b l')"
proof -
  let ?v = "32 div b"
  let ?k = "l mod ?v" and ?k' = "l' mod ?v"
  have b0: "0 < b" "b \<le> 16" using b by auto
  have v: "0 < ?v" using b0 by (simp add: div_greater_zero_iff)
  then have k: "?k < ?v" "?k' < ?v" by simp_all
  have len: "l div ?v < length ws"
    using w b0 by (auto simp: write_palette_index_def Let_def split: if_splits)
  have ws': "ws' = ws[l div ?v := (ws ! (l div ?v) AND NOT (push_bit (?k * b) (mask b)))
                OR (push_bit (?k * b) (word_of_nat i) AND push_bit (?k * b) (mask b))]"
    using w b0 len by (simp add: write_palette_index_def Let_def index_mask_mask)
  show ?thesis
  proof (cases "l' div ?v = l div ?v")
    case True
    have eq: "l' = l \<longleftrightarrow> ?k' = ?k"
      using True by (metis div_mult_mod_eq)
    show ?thesis
      using word_read_write [OF b0 k(1) k(2), of "ws ! (l div ?v)" "word_of_nat i"] len True eq b0 i
      by (auto simp: read_packed_def Let_def index_mask_mask ws' index_fits_word)
  next
    case False
    then show ?thesis by (auto simp: read_packed_def Let_def ws')
  qed
qed

definition packed_invar :: "nat \<Rightarrow> u32 list \<Rightarrow> bool" where
  "packed_invar b ws \<longleftrightarrow> b \<in> set PACKED_BITS \<and> length ws = word_count b"

interpretation words: packed_cells "\<lambda>ws. read_packed ws b" "\<lambda>ws. write_palette_index ws b"
  "\<lambda>i. i < 2 ^ b" "packed_invar b" BLOCKS_PER_SUB_CHUNK for b
proof (unfold_locales, goal_cases)
  case (1 w l)
  then show ?case using read_packed_total by (simp add: packed_invar_def)
next
  case (2 w l i)
  then show ?case using write_total [of b w l i] by (auto simp: packed_invar_def)
next
  case (3 w l i w')
  then show ?case using write_length by (auto simp: packed_invar_def)
next
  case (4 w l i w' l')
  then show ?case using read_write by (simp add: packed_invar_def)
qed

lemma pack_cells_fill: "pack_cells b cell ws = words.fill b cell ws"
  by (simp add: pack_cells_def words.fill_def)

subsection \<open>Padding\<close>

text \<open>The bits of word \<open>j\<close> that belong to cells.\<close>

definition used_bits :: "nat \<Rightarrow> usize \<Rightarrow> nat" where
  "used_bits b j = min (BLOCKS_PER_SUB_CHUNK - j * (32 div b)) (32 div b) * b"

lemma zero_padded_iff:
  "zero_padded ws b \<longleftrightarrow>
     (\<forall>j<length ws. \<forall>n. used_bits b j \<le> n \<longrightarrow> \<not> bit (ws ! j) n)"
proof -
  have le: "used_bits b j \<le> 32" for j
    by (simp add: used_bits_def) (metis div_times_less_eq_dividend min.cobounded2 mult_le_mono1 order_trans)
  have "(used_bits b j = 32 \<or> drop_bit (used_bits b j) (ws ! j) = 0) \<longleftrightarrow>
      (\<forall>n. used_bits b j \<le> n \<longrightarrow> \<not> bit (ws ! j) n)" for j
  proof
    assume A: "used_bits b j = 32 \<or> drop_bit (used_bits b j) (ws ! j) = 0"
    show "\<forall>n. used_bits b j \<le> n \<longrightarrow> \<not> bit (ws ! j) n"
    proof (intro allI impI notI)
      fix n assume n: "used_bits b j \<le> n" and bt: "bit (ws ! j) n"
      have "n < 32" using bt by (simp add: bit_imp_le_length [of "ws ! j" n, simplified])
      then have "drop_bit (used_bits b j) (ws ! j) = 0" using A n by auto
      then have "\<not> bit (drop_bit (used_bits b j) (ws ! j)) (n - used_bits b j)" by simp
      then show False using n bt by (simp add: bit_simps)
    qed
  next
    assume "\<forall>n. used_bits b j \<le> n \<longrightarrow> \<not> bit (ws ! j) n"
    then have "drop_bit (used_bits b j) (ws ! j) = 0"
      by (intro bit_eqI) (simp add: bit_simps)
    then show "used_bits b j = 32 \<or> drop_bit (used_bits b j) (ws ! j) = 0" by simp
  qed
  then show ?thesis
    by (simp add: zero_padded_def Let_def list_all_length used_bits_def nth_enumerate_eq)
qed

lemma zero_padded_zero: "zero_padded (replicate n 0) b"
  by (simp add: zero_padded_iff)

lemma cell_in_used:
  assumes "b \<in> set PACKED_BITS" "l < BLOCKS_PER_SUB_CHUNK"
  shows "(l mod (32 div b)) * b + b \<le> used_bits b (l div (32 div b))"
proof -
  let ?v = "32 div b"
  have v: "0 < ?v" using assms(1) by (auto simp: div_greater_zero_iff PACKED_BITS_def)
  have "l = l div ?v * ?v + l mod ?v" by (rule div_mult_mod_eq [symmetric])
  then have "Suc (l mod ?v) \<le> BLOCKS_PER_SUB_CHUNK - l div ?v * ?v" using assms(2) by linarith
  moreover have "Suc (l mod ?v) \<le> ?v" using v by (simp add: Suc_leI)
  ultimately have "Suc (l mod ?v) * b \<le> used_bits b (l div ?v)"
    unfolding used_bits_def by (intro mult_right_mono) auto
  then show ?thesis by (simp add: add.commute)
qed

lemma zero_padded_write:
  assumes b: "b \<in> set PACKED_BITS" and l: "l < BLOCKS_PER_SUB_CHUNK"
    and z: "zero_padded ws b" and w: "write_palette_index ws b l i = Some ws'"
  shows "zero_padded ws' b"
proof -
  let ?v = "32 div b" and ?k = "l mod (32 div b)"
  have b0: "0 < b" "b \<le> 16" using b by auto
  have ws': "ws' = ws[l div ?v := (ws ! (l div ?v) AND NOT (push_bit (?k * b) (mask b)))
                OR (push_bit (?k * b) (word_of_nat i) AND push_bit (?k * b) (mask b))]"
    and len: "l div ?v < length ws"
    using w b0 by (auto simp: write_palette_index_def Let_def index_mask_mask split: if_splits)
  show ?thesis unfolding zero_padded_iff
  proof (intro allI impI)
    fix j n assume j: "j < length ws'" and n: "used_bits b j \<le> n"
    show "\<not> bit (ws' ! j) n"
    proof (cases "j = l div ?v")
      case True
      have "?k * b + b \<le> n" using cell_in_used [OF b l] n True by simp
      moreover have "\<not> bit (ws ! j) n" using z j n by (simp add: zero_padded_iff ws')
      ultimately show ?thesis using True len by (auto simp: ws' bit_simps)
    next
      case False
      then show ?thesis using z j n by (simp add: zero_padded_iff ws')
    qed
  qed
qed

text \<open>Padded words of the right length are determined by the indices they hold.\<close>

lemma padded_words_unique:
  assumes b: "b \<in> set PACKED_BITS"
    and len: "length ws = word_count b" "length ws' = word_count b"
    and pad: "zero_padded ws b" "zero_padded ws' b"
    and rd: "\<And>l. l < BLOCKS_PER_SUB_CHUNK \<Longrightarrow> read_packed ws b l = read_packed ws' b l"
  shows "ws = ws'"
proof (rule nth_equalityI)
  show "length ws = length ws'" using len by simp
next
  fix j assume j: "j < length ws"
  let ?v = "32 div b"
  have b0: "0 < b" "b \<le> 16" using b by auto
  have v: "0 < ?v" using b0 by (simp add: div_greater_zero_iff)
  show "ws ! j = ws' ! j"
  proof (rule bit_eqI)
    fix n
    show "bit (ws ! j) n \<longleftrightarrow> bit (ws' ! j) n"
    proof (cases "used_bits b j \<le> n")
      case True
      then show ?thesis using pad j len by (simp add: zero_padded_iff)
    next
      case False
      let ?k = "n div b"
      have "?k < min (BLOCKS_PER_SUB_CHUNK - j * ?v) ?v"
        using False by (intro less_mult_imp_div_less) (simp add: used_bits_def)
      then have k: "?k < ?v" and l: "j * ?v + ?k < BLOCKS_PER_SUB_CHUNK" by auto
      have dm: "(j * ?v + ?k) div ?v = j" "(j * ?v + ?k) mod ?v = ?k"
        using k by simp_all
      have "drop_bit (?k * b) (ws ! j) AND index_mask b = drop_bit (?k * b) (ws' ! j) AND index_mask b"
        using rd [OF l] j len dm
        by (simp add: read_packed_def Let_def unsigned_word_eqI)
      then have "bit (drop_bit (?k * b) (ws ! j) AND mask b) (n mod b)
                 = bit (drop_bit (?k * b) (ws' ! j) AND mask b) (n mod b)"
        using b0 by (simp add: index_mask_mask)
      moreover have "n mod b < b" using b0 by simp
      ultimately show ?thesis using b0 by (auto simp: bit_simps)
    qed
  qed
qed

text \<open>Fresh zero words packed with one fitting index per cell.\<close>

lemma pack_cells_fresh:
  assumes b: "b \<in> set PACKED_BITS"
    and g: "\<And>l. l < BLOCKS_PER_SUB_CHUNK \<Longrightarrow> cell l = Some (g l) \<and> g l < 2 ^ b"
  obtains ws where "pack_cells b cell (replicate (word_count b) 0) = Some ws"
    and "length ws = word_count b" and "zero_padded ws b"
    and "\<And>l. l < BLOCKS_PER_SUB_CHUNK \<Longrightarrow> read_packed ws b l = Some (g l)"
proof -
  let ?ws0 = "replicate (word_count b) (0 :: u32)"
  obtain ws where ws: "words.fill b cell ?ws0 = Some ws" "packed_invar b ws"
    "\<forall>l<BLOCKS_PER_SUB_CHUNK. read_packed ws b l = Some (g l)"
    using words.fill_reads [of b ?ws0 cell g] b g by (auto simp: packed_invar_def)
  have "\<exists>ws'. try_fold (\<lambda>l ws. cell l \<bind> write_palette_index ws b l) [0..<BLOCKS_PER_SUB_CHUNK] ?ws0
      = Some ws' \<and> (length ws' = word_count b \<and> zero_padded ws' b)"
  proof (rule try_fold_upt [where P = "\<lambda>_ ws. length ws = word_count b \<and> zero_padded ws b"])
    fix l v assume l: "l < BLOCKS_PER_SUB_CHUNK" and v: "length v = word_count b \<and> zero_padded v b"
    then obtain v' where "write_palette_index v b l (g l) = Some v'" "length v' = word_count b"
      using write_total [OF b] by blast
    then show "\<exists>s'. (cell l \<bind> write_palette_index v b l) = Some s' \<and>
        length s' = word_count b \<and> zero_padded s' b"
      using g [OF l] l v zero_padded_write [OF b l] by auto
  qed (simp add: zero_padded_zero)
  then have "zero_padded ws b" using ws(1) by (simp add: words.fill_def)
  then show ?thesis using that ws by (simp add: pack_cells_fill packed_invar_def)
qed

end
