(* ===== verification/Palette.thy ===== *)
theory Palette
  imports Packed_Words
begin

section \<open>Paletted block storage\<close>

text \<open>
  \<^verbatim>\<open>PalettedStorage\<close> of \<^verbatim>\<open>crates/world/src/palette.rs\<close> and \<^verbatim>\<open>palette/edits.rs\<close>: one block layer of a
  sub-chunk as packed palette indices.  A decoded storage has no edit bookkeeping; the first real
  edit of a canonical one adopts stable physical slots (\<open>palette_edits\<close>) so that later edits change
  one packed word, and the canonical words are packed again only when somebody reads them (a cache).
  Results of type \<open>option\<close> are \<open>None\<close> where the code panics (\<^verbatim>\<open>expect\<close>, \<^verbatim>\<open>unwrap\<close>, slice indexing).
\<close>

subsection \<open>Data\<close>

record palette_slot =
  slot_palette_index :: nat
  slot_count :: nat

record palette_edits =
  slots :: "palette_slot list"
  direct :: bool
  canonical_words :: "u32 list option"

record paletted_storage =
  physical_bits :: nat
  physical_words :: "u32 list"
  palette :: "u32 list"
  edits :: "palette_edits option"

definition palette_get :: "u32 list \<Rightarrow> usize \<Rightarrow> u32 option" where
  "palette_get values index = (if index < length values then Some (values ! index) else None)"

definition new_storage :: "nat \<Rightarrow> u32 list \<Rightarrow> u32 list \<Rightarrow> paletted_storage" where
  "new_storage bits_per_index words values =
     \<lparr>physical_bits = bits_per_index, physical_words = words, palette = values, edits = None\<rparr>"

definition uniform :: "u32 \<Rightarrow> paletted_storage" where
  "uniform runtime_id = new_storage 0 [] [runtime_id]"

subsection \<open>Reading\<close>

definition bits_per_index :: "paletted_storage \<Rightarrow> nat" where
  "bits_per_index s =
     (if edits s \<noteq> None then bits_for_palette_len (length (palette s)) else physical_bits s)"

definition physical_index :: "paletted_storage \<Rightarrow> usize \<Rightarrow> usize option" where
  "physical_index s linear =
     (if linear \<ge> BLOCKS_PER_SUB_CHUNK then None
      else if physical_bits s = 0 then Some 0
      else read_packed (physical_words s) (physical_bits s) linear)"

definition live_slot :: "palette_slot list \<Rightarrow> usize \<Rightarrow> bool" where
  "live_slot sl k \<longleftrightarrow> k < length sl \<and> slot_count (sl ! k) \<noteq> 0"

definition palette_index :: "paletted_storage \<Rightarrow> usize \<Rightarrow> usize option" where
  "palette_index s linear =
     (case physical_index s linear of None \<Rightarrow> None
      | Some slot \<Rightarrow> (case edits s of
          Some e \<Rightarrow> (if live_slot (slots e) slot then Some (slot_palette_index (slots e ! slot)) else None)
        | None \<Rightarrow> Some slot))"

text \<open>The words of the canonical representation, as \<^verbatim>\<open>words()\<close> packs them on demand.\<close>

definition canonical_packing :: "paletted_storage \<Rightarrow> u32 list option" where
  "canonical_packing s =
     (let bits = bits_per_index s
      in if bits = 0 then Some []
         else pack_cells bits (palette_index s) (replicate (word_count bits) 0))"

text \<open>
  \<^verbatim>\<open>words()\<close> returns the words and fills the cache of an edited, indirect storage; the second
  component is the storage after the call.
\<close>

definition words_of :: "paletted_storage \<Rightarrow> (u32 list \<times> paletted_storage) option" where
  "words_of s =
     (case edits s of
        Some e \<Rightarrow>
          (if \<not> direct e then
             (case canonical_words e of
                Some ws \<Rightarrow> Some (ws, s)
              | None \<Rightarrow> (case canonical_packing s of None \<Rightarrow> None
                        | Some ws \<Rightarrow> Some (ws, s\<lparr>edits := Some (e\<lparr>canonical_words := Some ws\<rparr>)\<rparr>)))
           else Some (physical_words s, s))
      | None \<Rightarrow> Some (physical_words s, s))"

definition observed_words :: "paletted_storage \<Rightarrow> u32 list option" where
  "observed_words s = map_option fst (words_of s)"

text \<open>\<^verbatim>\<open>PartialEq\<close>: the exact packed representation, whatever the bookkeeping behind it.\<close>

definition storage_eq :: "paletted_storage \<Rightarrow> paletted_storage \<Rightarrow> bool" where
  "storage_eq s t \<longleftrightarrow>
     bits_per_index s = bits_per_index t \<and> palette s = palette t \<and> observed_words s = observed_words t"

definition is_uniform :: "paletted_storage \<Rightarrow> bool" where
  "is_uniform s \<longleftrightarrow> bits_per_index s = 0"

definition uniform_runtime_id :: "paletted_storage \<Rightarrow> u32 option" where
  "uniform_runtime_id s = (if is_uniform s then palette_get (palette s) 0 else None)"

definition linear_index :: "nat \<Rightarrow> nat \<Rightarrow> nat \<Rightarrow> usize" where
  "linear_index x y z = push_bit 8 x OR push_bit 4 z OR y"

definition runtime_id :: "paletted_storage \<Rightarrow> nat \<Rightarrow> nat \<Rightarrow> nat \<Rightarrow> u32 option" where
  "runtime_id s x y z =
     (if x \<ge> 16 \<or> y \<ge> 16 \<or> z \<ge> 16 then None
      else palette_index s (linear_index x y z) \<bind> palette_get (palette s))"

text \<open>The value behind one cell by its linear index, the lookup every batch loop performs.\<close>

definition cell_value :: "paletted_storage \<Rightarrow> usize \<Rightarrow> u32 option" where
  "cell_value s linear = palette_index s linear \<bind> palette_get (palette s)"

text \<open>
  Column reads walk the words with a cursor instead of dividing for every cell; \<open>65535\<close> marks a
  cell whose word is missing.  \<open>None\<close> is the panic of the assertion on \<open>x\<close> and \<open>z\<close>.
\<close>

fun column_cursor :: "u32 list \<Rightarrow> nat \<Rightarrow> usize \<Rightarrow> usize \<Rightarrow> nat \<Rightarrow> nat list" where
  "column_cursor words bits word slot 0 = []"
| "column_cursor words bits word slot (Suc n) =
     (if word < length words
      then as_u16 (unat (drop_bit (slot * bits) (words ! word) AND index_mask bits)) else 65535)
     # (if Suc slot = 32 div bits then column_cursor words bits (Suc word) 0 n
        else column_cursor words bits word (Suc slot) n)"

definition column_palette_indices :: "paletted_storage \<Rightarrow> nat \<Rightarrow> nat \<Rightarrow> nat list option" where
  "column_palette_indices s x z =
     (if \<not> (x < SUB_CHUNK_SIDE \<and> z < SUB_CHUNK_SIDE) then None
      else let first = push_bit 8 x OR push_bit 4 z in
        if edits s \<noteq> None then
          Some (map (\<lambda>y. case palette_index s (first + y) of None \<Rightarrow> 65535 | Some i \<Rightarrow> as_u16 i)
                  [0..<SUB_CHUNK_SIDE])
        else if physical_bits s = 0 then Some (replicate SUB_CHUNK_SIDE 0)
        else let per_word = 32 div physical_bits s in
          Some (column_cursor (physical_words s) (physical_bits s) (first div per_word)
                  (first mod per_word) SUB_CHUNK_SIDE))"

subsection \<open>Retained heap\<close>

definition canonical_heap_bytes :: "usize \<Rightarrow> usize" where
  "canonical_heap_bytes words = 8 * div_ceil (words * 4 + 2 * 8) 8"

definition MAX_RETAINED_HEAP_BYTES :: usize where
  "MAX_RETAINED_HEAP_BYTES =
     word_count (SUPPORTED_BITS ! (length SUPPORTED_BITS - 1)) * 4
     + BLOCKS_PER_SUB_CHUNK * (4 + 4)
     + canonical_heap_bytes (word_count (SUPPORTED_BITS ! (length SUPPORTED_BITS - 1)))"

definition working_heap_bytes :: "paletted_storage \<Rightarrow> usize" where
  "working_heap_bytes s =
     length (physical_words s) * 4 + length (palette s) * 4
     + (case edits s of None \<Rightarrow> 0 | Some e \<Rightarrow> length (slots e) * 4)"

definition retained_heap_bytes :: "paletted_storage \<Rightarrow> usize" where
  "retained_heap_bytes s =
     working_heap_bytes s
     + (case edits s of None \<Rightarrow> 0
        | Some e \<Rightarrow> (case canonical_words e of None \<Rightarrow> 0
                    | Some ws \<Rightarrow> canonical_heap_bytes (length ws)))"

definition retained_heap_bytes_bound :: "paletted_storage \<Rightarrow> usize" where
  "retained_heap_bytes_bound s =
     working_heap_bytes s
     + (case edits s of None \<Rightarrow> 0
        | Some e \<Rightarrow> (if direct e then 0 else canonical_heap_bytes (word_count (bits_per_index s))))"

subsection \<open>Edit bookkeeping\<close>

primrec position :: "('a \<Rightarrow> bool) \<Rightarrow> 'a list \<Rightarrow> usize option" where
  "position P [] = None"
| "position P (x # xs) = (if P x then Some 0 else map_option Suc (position P xs))"

definition new_edits :: "nat list \<Rightarrow> palette_edits" where
  "new_edits counts =
     \<lparr>slots = map (\<lambda>(index, count). \<lparr>slot_palette_index = as_u16 index, slot_count = count\<rparr>)
                (enumerate 0 counts),
      direct = True, canonical_words = None\<rparr>"

text \<open>\<^verbatim>\<open>PaletteEdits::allocate\<close>; \<open>None\<close> is the failing assertion on the number of slots.\<close>

definition allocate_slot :: "palette_slot list \<Rightarrow> usize \<Rightarrow> (palette_slot list \<times> usize) option" where
  "allocate_slot sl index =
     (let fresh = \<lparr>slot_palette_index = as_u16 index, slot_count = 0\<rparr>
      in case position (\<lambda>slot. slot_count slot = 0) sl of
           Some k \<Rightarrow> Some (sl[k := fresh], k)
         | None \<Rightarrow> (if length sl < BLOCKS_PER_SUB_CHUNK
                   then Some (sl @ [fresh], length sl) else None))"

text \<open>The slot that already holds the new value, if the palette holds it.\<close>

definition destination_slot :: "palette_slot list \<Rightarrow> u32 list \<Rightarrow> u32 \<Rightarrow> usize option option" where
  "destination_slot sl values runtime =
     (case position (\<lambda>value. value = runtime) values of
        None \<Rightarrow> Some None
      | Some index \<Rightarrow>
          map_option Some (position (\<lambda>slot. slot_count slot \<noteq> 0 \<and> slot_palette_index slot = index) sl))"

definition drop_slot_count :: "palette_slot list \<Rightarrow> usize \<Rightarrow> palette_slot list" where
  "drop_slot_count sl k = sl[k := (sl ! k)\<lparr>slot_count := slot_count (sl ! k) - 1\<rparr>]"

definition raise_slot_count :: "palette_slot list \<Rightarrow> usize \<Rightarrow> palette_slot list" where
  "raise_slot_count sl k = sl[k := (sl ! k)\<lparr>slot_count := slot_count (sl ! k) + 1\<rparr>]"

definition close_palette_gap :: "palette_slot list \<Rightarrow> usize \<Rightarrow> palette_slot list" where
  "close_palette_gap sl source_index =
     map (\<lambda>slot. if slot_count slot \<noteq> 0 \<and> slot_palette_index slot > source_index
                 then slot\<lparr>slot_palette_index := slot_palette_index slot - 1\<rparr> else slot) sl"

text \<open>The palette and slots once the source slot has lost the cell.\<close>

definition retire_value ::
  "u32 list \<Rightarrow> palette_slot list \<Rightarrow> bool \<Rightarrow> usize \<Rightarrow> u32 option \<Rightarrow> u32 list \<times> palette_slot list" where
  "retire_value values sl removed source_index added =
     (let (kept, sl) =
        (if removed
         then let kept = take source_index values @ drop (Suc source_index) values
              in (kept, if source_index < length kept then close_palette_gap sl source_index else sl)
         else (values, sl))
      in (case added of None \<Rightarrow> kept | Some runtime \<Rightarrow> kept @ [runtime], sl))"

definition grown_words :: "paletted_storage \<Rightarrow> nat \<Rightarrow> u32 list option" where
  "grown_words s bits =
     (let fresh = replicate (word_count bits) 0
      in if physical_bits s \<noteq> 0 then pack_cells bits (physical_index s) fresh else Some fresh)"

definition direct_slots :: "palette_slot list \<Rightarrow> bool" where
  "direct_slots sl \<longleftrightarrow>
     list_all (\<lambda>(index, slot). slot_count slot = 0 \<or> index = slot_palette_index slot) (enumerate 0 sl)"

text \<open>
  The bookkeeping half of \<^verbatim>\<open>patch_edit\<close>: move one cell from its slot to the slot of the new value,
  retiring the old value when this was its last cell.  The first component says whether palette or
  slots were restructured, the last is the slot the cell goes to.
\<close>

definition patch_slots ::
  "palette_slot list \<Rightarrow> u32 list \<Rightarrow> usize \<Rightarrow> u32 \<Rightarrow> (bool \<times> palette_slot list \<times> u32 list \<times> usize) option"
where
  "patch_slots sl values source runtime = do {
     source_slot \<leftarrow> (if source < length sl then Some (sl ! source) else None);
     destination \<leftarrow> destination_slot sl values runtime;
     sl \<leftarrow> (if slot_count source_slot = 0 then None else Some (drop_slot_count sl source));
     let removed = (slot_count (sl ! source) = 0);
     let source_index = slot_palette_index source_slot;
     (if removed \<and> source_index \<ge> length values then None else Some ());
     let (values, sl) = retire_value values sl removed source_index
                          (if destination = None then Some runtime else None);
     (sl, slot) \<leftarrow> (case destination of Some k \<Rightarrow> Some (sl, k)
                    | None \<Rightarrow> allocate_slot sl (length values - 1));
     Some (removed \<or> destination = None, raise_slot_count sl slot, values, slot)
   }"

text \<open>
  \<^verbatim>\<open>patch_edit\<close>: the bookkeeping, then one packed word, after widening the packed words when the
  slots outgrow their width.  The cached canonical words are dropped.
\<close>

definition patch_edit :: "paletted_storage \<Rightarrow> usize \<Rightarrow> u32 \<Rightarrow> paletted_storage option" where
  "patch_edit s linear runtime = do {
     source \<leftarrow> physical_index s linear;
     e \<leftarrow> edits s;
     (restructured, sl, values, slot) \<leftarrow> patch_slots (slots e) (palette s) source runtime;
     let bits = bits_for_palette_len (length sl);
     (bits', words) \<leftarrow> (if bits > physical_bits s
                        then map_option (Pair bits) (grown_words s bits)
                        else Some (physical_bits s, physical_words s));
     words' \<leftarrow> write_palette_index words bits' linear slot;
     let direct' = (if restructured
                    then bits' = bits_for_palette_len (length values) \<and> direct_slots sl
                    else direct e);
     Some \<lparr>physical_bits = bits', physical_words = words', palette = values,
           edits = Some \<lparr>slots = sl, direct = direct', canonical_words = None\<rparr>\<rparr>
   }"

subsection \<open>Batches\<close>

definition zero_indices_at_or_above :: "paletted_storage \<Rightarrow> usize \<Rightarrow> paletted_storage option" where
  "zero_indices_at_or_above s palette_len = do {
     s \<leftarrow> (if edits s \<noteq> None
           then map_option (\<lambda>ws. new_storage (bits_per_index s) ws (palette s)) (observed_words s)
           else Some s);
     (if physical_bits s = 0 \<or> palette_len \<ge> 2 ^ physical_bits s then Some s
      else map_option (\<lambda>ws. s\<lparr>physical_words := ws\<rparr>)
        (try_fold (\<lambda>linear ws.
             case palette_index (s\<lparr>physical_words := ws\<rparr>) linear of
               Some index \<Rightarrow> (if index \<ge> palette_len
                             then write_palette_index ws (physical_bits s) linear 0 else Some ws)
             | None \<Rightarrow> Some ws)
           [0..<BLOCKS_PER_SUB_CHUNK] (physical_words s)))
   }"

definition final_updates :: "(usize \<times> u32) list \<Rightarrow> (usize \<rightharpoonup> u32)" where
  "final_updates updates = fold (\<lambda>(linear, runtime) m. m(linear \<mapsto> runtime)) updates Map.empty"

definition updated_value :: "paletted_storage \<Rightarrow> (usize \<rightharpoonup> u32) \<Rightarrow> usize \<Rightarrow> u32 option" where
  "updated_value s final linear =
     map_option (\<lambda>current. case final linear of Some value \<Rightarrow> value | None \<Rightarrow> current)
       (cell_value s linear)"

text \<open>The first pass: whether a cell changes, and the values the cells use afterwards.\<close>

definition scan_updates :: "paletted_storage \<Rightarrow> (usize \<rightharpoonup> u32) \<Rightarrow> (bool \<times> u32 set) option" where
  "scan_updates s final =
     try_fold (\<lambda>linear (changed, used). do {
         current \<leftarrow> cell_value s linear;
         value \<leftarrow> updated_value s final linear;
         Some (changed \<or> value \<noteq> current, insert value used) })
       [0..<BLOCKS_PER_SUB_CHUNK] (False, {})"

type_synonym indexed_values = "u32 list \<times> (u32 \<rightharpoonup> usize)"

definition push_value :: "u32 \<Rightarrow> indexed_values \<Rightarrow> indexed_values" where
  "push_value value vs =
     (case vs of (values, value_indices) \<Rightarrow>
        if value_indices value = None
        then (values @ [value], value_indices(value \<mapsto> length values)) else vs)"

text \<open>Survivors in palette order, then new values in update order.\<close>

definition batch_values ::
  "u32 list \<Rightarrow> u32 set \<Rightarrow> (usize \<times> u32) list \<Rightarrow> (usize \<rightharpoonup> u32) \<Rightarrow> indexed_values" where
  "batch_values old used updates final =
     fold (\<lambda>(linear, value) vs. if final linear = Some value then push_value value vs else vs) updates
       (fold (\<lambda>value vs. if value \<in> used then push_value value vs else vs) old ([], Map.empty))"

definition apply_runtime_updates ::
  "paletted_storage \<Rightarrow> (usize \<times> u32) list \<Rightarrow> (bool \<times> paletted_storage) option" where
  "apply_runtime_updates s updates = do {
     let final = final_updates updates;
     (changed, used) \<leftarrow> scan_updates s final;
     (if \<not> changed then Some (False, s)
      else do {
        let (values, value_indices) = batch_values (palette s) used updates final;
        let bits = bits_for_palette_len (length values);
        (words, counts) \<leftarrow>
          try_fold (\<lambda>linear (words, counts). do {
              value \<leftarrow> updated_value s final linear;
              index \<leftarrow> value_indices value;
              counts' \<leftarrow> (if index < length counts
                          then Some (counts[index := counts ! index + 1]) else None);
              words' \<leftarrow> write_palette_index words bits linear index;
              Some (words', counts') })
            [0..<BLOCKS_PER_SUB_CHUNK] (replicate (word_count bits) 0, replicate (length values) 0);
        Some (True,
          \<lparr>physical_bits = bits, physical_words = words, palette = values,
           edits = (if list_all (\<lambda>count. count \<noteq> 0) counts
                    then Some (new_edits counts) else None)\<rparr>)
      })
   }"

text \<open>Only an exact canonical representation is admitted to stable slots.\<close>

definition has_zero_padding :: "paletted_storage \<Rightarrow> bool" where
  "has_zero_padding s \<longleftrightarrow>
     length (physical_words s) = word_count (physical_bits s) \<and>
     (physical_bits s = 0 \<or> zero_padded (physical_words s) (physical_bits s))"

definition count_cells :: "paletted_storage \<Rightarrow> nat list \<times> bool" where
  "count_cells s =
     fold (\<lambda>linear (counts, valid).
         case palette_index s linear of
           Some index \<Rightarrow> (if index < length counts
                         then (counts[index := counts ! index + 1], valid) else (counts, False))
         | None \<Rightarrow> (counts, False))
       [0..<BLOCKS_PER_SUB_CHUNK] (replicate (length (palette s)) 0, True)"

definition canonical_counts :: "paletted_storage \<Rightarrow> nat list option" where
  "canonical_counts s =
     (if physical_bits s = 0
      then (if length (palette s) = 1 \<and> physical_words s = []
            then Some [as_u16 BLOCKS_PER_SUB_CHUNK] else None)
      else let (counts, valid) = count_cells s;
               canonical = (valid
                 \<and> 1 \<le> length (palette s) \<and> length (palette s) \<le> BLOCKS_PER_SUB_CHUNK
                 \<and> list_all (\<lambda>count. count \<noteq> 0) counts
                 \<and> distinct (palette s)
                 \<and> bits_for_palette_len (length (palette s)) = physical_bits s
                 \<and> has_zero_padding s)
           in if canonical then Some counts else None)"

text \<open>The single-cell edit: no-op, patched slots, or the batch path for noncanonical storages.\<close>

definition apply_runtime_update ::
  "paletted_storage \<Rightarrow> usize \<Rightarrow> u32 \<Rightarrow> (bool \<times> paletted_storage) option" where
  "apply_runtime_update s linear runtime =
     (case palette_index s linear of
        None \<Rightarrow> apply_runtime_updates s [(linear, runtime)]
      | Some updated_index \<Rightarrow>
          if \<not> updated_index < length (palette s) then apply_runtime_updates s [(linear, runtime)]
          else if palette s ! updated_index = runtime then Some (False, s)
          else (case edits s of
                  Some _ \<Rightarrow> map_option (Pair True) (patch_edit s linear runtime)
                | None \<Rightarrow> (case canonical_counts s of
                      None \<Rightarrow> apply_runtime_updates s [(linear, runtime)]
                    | Some counts \<Rightarrow>
                        map_option (Pair True)
                          (patch_edit (s\<lparr>edits := Some (new_edits counts)\<rparr>) linear runtime))))"

definition contains_only :: "paletted_storage \<Rightarrow> u32 \<Rightarrow> bool" where
  "contains_only s runtime =
     (if edits s \<noteq> None then palette s = [runtime]
      else list_all (\<lambda>linear. cell_value s linear = Some runtime) [0..<BLOCKS_PER_SUB_CHUNK])"

text \<open>\<^verbatim>\<open>palette_indices\<close>: every cell's index, \<^verbatim>\<open>u32::MAX\<close> where a word is missing.\<close>

definition slot_range :: "usize \<Rightarrow> nat \<Rightarrow> nat list" where
  "slot_range word_index per_word =
     [0..<min per_word (BLOCKS_PER_SUB_CHUNK - word_index * per_word)]"

fun unpack_words :: "u32 list \<Rightarrow> nat \<Rightarrow> usize \<Rightarrow> nat \<Rightarrow> u32 list" where
  "unpack_words words bits word_index 0 = []"
| "unpack_words words bits word_index (Suc chunks) =
     (let per_word = 32 div bits in
      if word_index < length words
      then map (\<lambda>slot. drop_bit (slot * bits) (words ! word_index) AND index_mask bits)
             (slot_range word_index per_word)
           @ unpack_words words bits (Suc word_index) chunks
      else replicate (BLOCKS_PER_SUB_CHUNK - word_index * per_word) (- 1))"

definition palette_indices :: "paletted_storage \<Rightarrow> u32 list" where
  "palette_indices s =
     (if edits s \<noteq> None
      then map (\<lambda>linear. case palette_index s linear of None \<Rightarrow> - 1 | Some i \<Rightarrow> word_of_nat i)
             [0..<BLOCKS_PER_SUB_CHUNK]
      else if physical_bits s = 0 then replicate BLOCKS_PER_SUB_CHUNK 0
      else unpack_words (physical_words s) (physical_bits s) 0
             (div_ceil BLOCKS_PER_SUB_CHUNK (32 div physical_bits s)))"

end
