(* ===== verification/Palette_Slots.thy ===== *)
theory Palette_Slots
  imports Palette
begin

section \<open>The edit bookkeeping is right\<close>

text \<open>
  Well-formedness of paletted storages, and the bookkeeping half of a single-cell edit
  (\<open>patch_slots\<close>): it never panics on a well-formed storage, moves exactly one cell to the new
  value, and keeps live slots and palette entries in bijection.
\<close>

subsection \<open>Well-formed storages\<close>

text \<open>
  How physical slots, logical palette and cells agree: slot \<open>k\<close> counts the cells that hold it, and
  the live slots are in bijection with the distinct palette entries.  \<open>ph\<close> is the slot of each cell;
  \<open>hole\<close> removes cells from the count, so that the same predicate describes the bookkeeping in
  the middle of an edit.
\<close>

definition cells_in :: "usize set \<Rightarrow> (usize \<Rightarrow> usize) \<Rightarrow> usize \<Rightarrow> usize set" where
  "cells_in hole ph k = {l. l < BLOCKS_PER_SUB_CHUNK \<and> l \<notin> hole \<and> ph l = k}"

definition slots_inv :: "usize set \<Rightarrow> (usize \<Rightarrow> usize) \<Rightarrow> palette_slot list \<Rightarrow> u32 list \<Rightarrow> bool" where
  "slots_inv hole ph sl vals \<longleftrightarrow>
     (\<forall>l<BLOCKS_PER_SUB_CHUNK. l \<notin> hole \<longrightarrow> ph l < length sl) \<and>
     (\<forall>k<length sl. slot_count (sl ! k) = card (cells_in hole ph k)) \<and>
     bij_betw (\<lambda>k. slot_palette_index (sl ! k)) {k. live_slot sl k} {..<length vals} \<and>
     distinct vals"

definition slot_value :: "palette_slot list \<Rightarrow> u32 list \<Rightarrow> usize \<Rightarrow> u32" where
  "slot_value sl vals k = vals ! slot_palette_index (sl ! k)"

definition edited_wf :: "paletted_storage \<Rightarrow> palette_edits \<Rightarrow> bool" where
  "edited_wf s e \<longleftrightarrow>
     physical_bits s \<in> set SUPPORTED_BITS \<and> has_zero_padding s \<and>
     length (slots e) \<le> BLOCKS_PER_SUB_CHUNK \<and> length (slots e) \<le> 2 ^ physical_bits s \<and>
     (\<forall>l<BLOCKS_PER_SUB_CHUNK. physical_index s l \<noteq> None) \<and>
     slots_inv {} (\<lambda>l. the (physical_index s l)) (slots e) (palette s) \<and>
     (direct e \<longrightarrow> physical_bits s = bits_for_palette_len (length (palette s)) \<and> direct_slots (slots e) \<and>
       canonical_words e = None) \<and>
     (\<forall>ws. canonical_words e = Some ws \<longrightarrow> canonical_packing s = Some ws)"

definition decoded_wf :: "paletted_storage \<Rightarrow> bool" where
  "decoded_wf s \<longleftrightarrow>
     physical_bits s \<in> set SUPPORTED_BITS \<and>
     length (physical_words s) = word_count (physical_bits s) \<and>
     1 \<le> length (palette s) \<and> length (palette s) \<le> BLOCKS_PER_SUB_CHUNK \<and>
     (\<forall>l<BLOCKS_PER_SUB_CHUNK. \<exists>i<length (palette s). physical_index s l = Some i)"

definition storage_wf :: "paletted_storage \<Rightarrow> bool" where
  "storage_wf s \<longleftrightarrow> (case edits s of None \<Rightarrow> decoded_wf s | Some e \<Rightarrow> edited_wf s e)"

subsection \<open>Counting slots\<close>

lemma finite_cells_in [simp]: "finite (cells_in hole ph k)"
  unfolding cells_in_def by (rule finite_subset [of _ "{..<BLOCKS_PER_SUB_CHUNK}"]) auto

lemma card_cells_in_0: "card (cells_in hole ph k) = 0 \<longleftrightarrow> cells_in hole ph k = {}"
  by simp

lemma slots_inv_index:
  assumes "slots_inv hole ph sl vals" "live_slot sl k"
  shows "slot_palette_index (sl ! k) < length vals"
proof -
  have "(\<lambda>k. slot_palette_index (sl ! k)) ` {k. live_slot sl k} = {..<length vals}"
    using assms(1) by (simp add: slots_inv_def bij_betw_def)
  then show ?thesis using assms(2) by blast
qed

lemma slots_inv_live:
  assumes "slots_inv hole ph sl vals" "l < BLOCKS_PER_SUB_CHUNK" "l \<notin> hole"
  shows "live_slot sl (ph l)" "slot_palette_index (sl ! ph l) < length vals"
proof -
  have k: "ph l < length sl" using assms by (simp add: slots_inv_def)
  have "l \<in> cells_in hole ph (ph l)" using assms by (simp add: cells_in_def)
  then have "slot_count (sl ! ph l) \<noteq> 0"
    using assms(1) k unfolding slots_inv_def by (metis card_cells_in_0 empty_iff)
  then show live: "live_slot sl (ph l)" using k by (simp add: live_slot_def)
  then show "slot_palette_index (sl ! ph l) < length vals"
    by (rule slots_inv_index [OF assms(1)])
qed

lemma slots_inv_live_cell:
  assumes "slots_inv hole ph sl vals" "live_slot sl k"
  obtains l where "l < BLOCKS_PER_SUB_CHUNK" "l \<notin> hole" "ph l = k"
proof -
  have "cells_in hole ph k \<noteq> {}"
    using assms unfolding slots_inv_def live_slot_def by (metis card_cells_in_0)
  then show ?thesis using that by (auto simp: cells_in_def)
qed

lemma slots_inv_palette_slot:
  assumes "slots_inv hole ph sl vals" "i < length vals"
  obtains k where "live_slot sl k" "slot_palette_index (sl ! k) = i"
proof -
  have "i \<in> (\<lambda>k. slot_palette_index (sl ! k)) ` {k. live_slot sl k}"
    using assms by (simp add: slots_inv_def bij_betw_def)
  then show ?thesis using that by blast
qed

lemma slots_inv_inj:
  "slots_inv hole ph sl vals \<Longrightarrow> live_slot sl k \<Longrightarrow> live_slot sl k' \<Longrightarrow>
    slot_palette_index (sl ! k) = slot_palette_index (sl ! k') \<Longrightarrow> k = k'"
  unfolding slots_inv_def bij_betw_def inj_on_def by blast

text \<open>Every live slot needs a cell of its own, so there are never more palette entries than
  counted cells, and with a hole there is room for one more slot.\<close>

lemma live_slots_le_cells:
  assumes "slots_inv hole ph sl vals"
  shows "card {k. live_slot sl k} \<le> card ({..<BLOCKS_PER_SUB_CHUNK} - hole)"
proof -
  have "{k. live_slot sl k} \<subseteq> ph ` ({..<BLOCKS_PER_SUB_CHUNK} - hole)"
  proof
    fix k assume "k \<in> {k. live_slot sl k}"
    then have "live_slot sl k" by simp
    then obtain i where "i < BLOCKS_PER_SUB_CHUNK" "i \<notin> hole" "ph i = k" by (rule slots_inv_live_cell [OF assms])
    then show "k \<in> ph ` ({..<BLOCKS_PER_SUB_CHUNK} - hole)" by blast
  qed
  then show ?thesis by (rule surj_card_le [rotated]) simp
qed

lemma palette_le_cells:
  assumes "slots_inv hole ph sl vals"
  shows "length vals \<le> card ({..<BLOCKS_PER_SUB_CHUNK} - hole)"
proof -
  have "card {k. live_slot sl k} = length vals"
    using assms unfolding slots_inv_def by (metis bij_betw_same_card card_lessThan)
  then show ?thesis using live_slots_le_cells [OF assms] by simp
qed

lemma slots_le_cells:
  assumes "slots_inv hole ph sl vals" "\<forall>slot\<in>set sl. slot_count slot \<noteq> 0"
  shows "length sl \<le> card ({..<BLOCKS_PER_SUB_CHUNK} - hole)"
proof -
  have "{k. live_slot sl k} = {..<length sl}" using assms(2) by (auto simp: live_slot_def)
  then show ?thesis using live_slots_le_cells [OF assms(1)] by simp
qed

lemma palette_nonempty:
  assumes "slots_inv {} ph sl vals" shows "0 < length vals"
  using slots_inv_live(2) [OF assms, of 0] by (cases vals) (auto simp: bounds_simps)

text \<open>The cells of a slot, with the edited cell taken out or put in.\<close>

lemma cells_in_hole:
  "h < BLOCKS_PER_SUB_CHUNK \<Longrightarrow>
    card (cells_in {h} ph k) = card (cells_in {} ph k) - (if ph h = k then 1 else 0)"
proof -
  assume h: "h < BLOCKS_PER_SUB_CHUNK"
  have "cells_in {h} ph k = cells_in {} ph k - {h}" by (auto simp: cells_in_def)
  moreover have "h \<in> cells_in {} ph k \<longleftrightarrow> ph h = k" using h by (simp add: cells_in_def)
  ultimately show ?thesis by (simp add: card_Diff_singleton_if)
qed

lemma cells_in_fill:
  "h < BLOCKS_PER_SUB_CHUNK \<Longrightarrow>
    card (cells_in {} (ph(h := k')) k) = card (cells_in {h} ph k) + (if k = k' then 1 else 0)"
proof -
  assume h: "h < BLOCKS_PER_SUB_CHUNK"
  have "cells_in {} (ph(h := k')) k = (if k = k' then insert h (cells_in {h} ph k) else cells_in {h} ph k)"
    using h by (auto simp: cells_in_def)
  moreover have "h \<notin> cells_in {h} ph k" by (simp add: cells_in_def)
  ultimately show ?thesis by (cases "k = k'") simp_all
qed

text \<open>What the slot updates leave at each slot.\<close>

lemma length_slot_updates [simp]:
  "length (drop_slot_count sl k) = length sl" "length (raise_slot_count sl k) = length sl"
  "length (close_palette_gap sl i) = length sl"
  by (simp_all add: drop_slot_count_def raise_slot_count_def close_palette_gap_def)

lemma slot_updates_count [simp]:
  "k < length sl \<Longrightarrow> slot_count (drop_slot_count sl k' ! k) = slot_count (sl ! k) - (if k = k' then 1 else 0)"
  "k < length sl \<Longrightarrow> slot_count (raise_slot_count sl k' ! k) = slot_count (sl ! k) + (if k = k' then 1 else 0)"
  "k < length sl \<Longrightarrow> slot_count (close_palette_gap sl i ! k) = slot_count (sl ! k)"
  by (auto simp: drop_slot_count_def raise_slot_count_def close_palette_gap_def nth_list_update)

lemma slot_updates_index [simp]:
  "k < length sl \<Longrightarrow> slot_palette_index (drop_slot_count sl k' ! k) = slot_palette_index (sl ! k)"
  "k < length sl \<Longrightarrow> slot_palette_index (raise_slot_count sl k' ! k) = slot_palette_index (sl ! k)"
  "k < length sl \<Longrightarrow> slot_palette_index (close_palette_gap sl i ! k) =
     slot_palette_index (sl ! k)
       - (if slot_count (sl ! k) \<noteq> 0 \<and> slot_palette_index (sl ! k) > i then 1 else 0)"
  by (cases "k = k'"; simp add: drop_slot_count_def raise_slot_count_def close_palette_gap_def)+

text \<open>The source slot loses the edited cell.\<close>

lemma slots_inv_drop_keep:
  assumes inv: "slots_inv {} ph sl vals" and h: "h < BLOCKS_PER_SUB_CHUNK"
    and more: "slot_count (sl ! ph h) \<noteq> 1"
  shows "slots_inv {h} ph (drop_slot_count sl (ph h)) vals"
proof -
  let ?sl = "drop_slot_count sl (ph h)"
  have live: "{k. live_slot ?sl k} = {k. live_slot sl k}"
    using slots_inv_live(1) [OF inv h] more by (auto simp: live_slot_def)
  have bij: "bij_betw (\<lambda>k. slot_palette_index (?sl ! k)) {k. live_slot sl k} {..<length vals}
      = bij_betw (\<lambda>k. slot_palette_index (sl ! k)) {k. live_slot sl k} {..<length vals}"
    by (rule bij_betw_cong) (simp add: live_slot_def)
  have cnt: "slot_count (?sl ! k) = card (cells_in {h} ph k)" if "k < length sl" for k
    using that inv cells_in_hole [OF h, of ph k] by (auto simp: slots_inv_def)
  show ?thesis
    using inv cnt unfolding slots_inv_def live bij length_slot_updates by simp
qed

text \<open>The slots and the palette when the last cell of a value is gone.\<close>

lemma slots_inv_drop_removed:
  fixes sl :: "palette_slot list" and vals :: "u32 list"
  assumes inv: "slots_inv {} ph sl vals" and h: "h < BLOCKS_PER_SUB_CHUNK"
    and one: "slot_count (sl ! ph h) = 1"
    and si: "si = slot_palette_index (sl ! ph h)"
    and sl': "sl' = close_palette_gap (drop_slot_count sl (ph h)) si"
    and vals': "vals' = take si vals @ drop (Suc si) vals"
  shows "slots_inv {h} ph sl' vals'"
    and "\<And>k. live_slot sl' k \<Longrightarrow> slot_value sl' vals' k = slot_value sl vals k"
proof -
  have ph: "live_slot sl (ph h)" and si_lt: "si < length vals"
    using slots_inv_live [OF inv h] si by auto
  then have ph_len: "ph h < length sl" by (simp add: live_slot_def)
  have len: "length sl' = length sl" "length vals' = length vals - 1"
    using si_lt by (auto simp: sl' vals' close_palette_gap_def drop_slot_count_def)
  have cnt: "slot_count (sl' ! k) = card (cells_in {h} ph k)" if "k < length sl" for k
    using that inv cells_in_hole [OF h, of ph k] one
    by (auto simp: sl' slots_inv_def)
  have live: "live_slot sl' k \<longleftrightarrow> live_slot sl k \<and> k \<noteq> ph h" for k
    using one ph_len
    by (auto simp: live_slot_def len sl' split: if_splits)
  have idx_ne: "slot_palette_index (sl ! k) \<noteq> si" if "live_slot sl' k" for k
    using slots_inv_inj [OF inv _ ph] that live si by auto
  have idx: "slot_palette_index (sl' ! k)
      = slot_palette_index (sl ! k) - (if slot_palette_index (sl ! k) > si then 1 else 0)"
    if "live_slot sl' k" for k
    using that live [of k] idx_ne [OF that]
    by (auto simp: sl' live_slot_def)
  have lt: "slot_palette_index (sl ! k) < length vals" if "live_slot sl' k" for k
    using slots_inv_index [OF inv] live [of k] that by simp
  have bij: "bij_betw (\<lambda>k. slot_palette_index (sl' ! k)) {k. live_slot sl' k} {..<length vals'}"
  proof (rule bij_betwI')
    fix k k' assume "k \<in> {k. live_slot sl' k}" "k' \<in> {k. live_slot sl' k}"
    then have a: "live_slot sl' k" "live_slot sl' k'" by auto
    have "slot_palette_index (sl' ! k) = slot_palette_index (sl' ! k') \<longleftrightarrow>
        slot_palette_index (sl ! k) = slot_palette_index (sl ! k')"
      using idx [OF a(1)] idx [OF a(2)] idx_ne [OF a(1)] idx_ne [OF a(2)] by auto
    also have "\<dots> \<longleftrightarrow> k = k'" using slots_inv_inj [OF inv] a live by auto
    finally show "(slot_palette_index (sl' ! k) = slot_palette_index (sl' ! k')) = (k = k')" .
  next
    fix k assume "k \<in> {k. live_slot sl' k}"
    then show "slot_palette_index (sl' ! k) \<in> {..<length vals'}"
      using idx [of k] idx_ne [of k] lt [of k] len si_lt by auto
  next
    fix i assume i: "i \<in> {..<length vals'}"
    define j where "j = (if i < si then i else Suc i)"
    have "j < length vals" "j \<noteq> si" using i len by (auto simp: j_def)
    then obtain k where k: "live_slot sl k" "slot_palette_index (sl ! k) = j"
      using slots_inv_palette_slot [OF inv] by metis
    have "live_slot sl' k" using k live \<open>j \<noteq> si\<close> si by auto
    then show "\<exists>k\<in>{k. live_slot sl' k}. i = slot_palette_index (sl' ! k)"
      using idx [of k] k by (intro bexI [of _ k]) (auto simp: j_def)
  qed
  have "distinct vals" using inv by (simp add: slots_inv_def)
  then have dist: "distinct vals'"
    by (simp add: vals' set_take_disj_set_drop_if_distinct)
  show "slots_inv {h} ph sl' vals'"
    using inv bij dist cnt by (simp add: slots_inv_def len)
  show "slot_value sl' vals' k = slot_value sl vals k" if "live_slot sl' k" for k
    using idx [OF that] idx_ne [OF that] lt [OF that] si_lt
    by (auto simp: slot_value_def vals' nth_append min_def)
qed

lemma position_Some: "position P xs = Some k \<Longrightarrow> k < length xs \<and> P (xs ! k)"
  by (induction xs arbitrary: k) (auto split: if_splits)

lemma position_None: "position P xs = None \<longleftrightarrow> (\<forall>x\<in>set xs. \<not> P x)"
  by (induction xs) auto

lemma position_nth_distinct:
  "distinct xs \<Longrightarrow> i < length xs \<Longrightarrow> position (\<lambda>x. x = xs ! i) xs = Some i"
proof -
  assume d: "distinct xs" and i: "i < length xs"
  then obtain k where k: "position (\<lambda>x. x = xs ! i) xs = Some k"
    using position_None [of "\<lambda>x. x = xs ! i" xs] by (metis nth_mem option.exhaust)
  then show ?thesis using position_Some [OF k] d i nth_eq_iff_index_eq [OF d, of k i] by auto
qed

text \<open>Allocation finds a dead slot or appends one, and touches no live slot.\<close>

lemma allocate_slot_shape:
  assumes "allocate_slot sl i = Some (sl', k)"
  shows "k < length sl'" and "\<not> live_slot sl k" and "k \<le> length sl"
    and "length sl' = max (length sl) (Suc k)"
    and "slot_count (sl' ! k) = 0" and "slot_palette_index (sl' ! k) = as_u16 i"
    and "\<And>k'. k' < length sl \<Longrightarrow> k' \<noteq> k \<Longrightarrow> sl' ! k' = sl ! k'"
proof -
  show "k < length sl'" "\<not> live_slot sl k" "k \<le> length sl" "length sl' = max (length sl) (Suc k)"
    "slot_count (sl' ! k) = 0" "slot_palette_index (sl' ! k) = as_u16 i"
    "\<And>k'. k' < length sl \<Longrightarrow> k' \<noteq> k \<Longrightarrow> sl' ! k' = sl ! k'"
    using assms
    by (auto simp: allocate_slot_def Let_def live_slot_def nth_append dest: position_Some
        split: option.splits if_splits)
qed

lemma allocate_slot_total:
  assumes "slots_inv {h} ph sl vals" "h < BLOCKS_PER_SUB_CHUNK"
  shows "\<exists>sl' k. allocate_slot sl i = Some (sl', k)"
proof (cases "position (\<lambda>slot. slot_count slot = 0) sl")
  case None
  then have "length sl \<le> card ({..<BLOCKS_PER_SUB_CHUNK} - {h})"
    using slots_le_cells [OF assms(1)] position_None [of "\<lambda>slot. slot_count slot = 0" sl] by auto
  then have "length sl < BLOCKS_PER_SUB_CHUNK" using assms(2) by (simp add: bounds_simps)
  then show ?thesis using None by (simp add: allocate_slot_def)
qed (simp add: allocate_slot_def Let_def)

lemma slots_inv_add:
  assumes inv: "slots_inv {h} ph sl vals" and h: "h < BLOCKS_PER_SUB_CHUNK"
    and fresh: "rid \<notin> set vals" and alloc: "allocate_slot sl (length vals) = Some (sl', k)"
  shows "slots_inv {} (ph(h := k)) (raise_slot_count sl' k) (vals @ [rid])"
    and "slot_value (raise_slot_count sl' k) (vals @ [rid]) k = rid"
    and "\<And>k'. live_slot sl k' \<Longrightarrow>
      slot_value (raise_slot_count sl' k) (vals @ [rid]) k' = slot_value sl vals k'"
proof -
  note shape = allocate_slot_shape [OF alloc]
  have "length vals < 65536"
    using palette_le_cells [OF inv] h by (simp add: bounds_simps)
  then have new_idx: "slot_palette_index (sl' ! k) = length vals"
    using shape(6) by (simp add: as_u16_id)
  have dead: "cells_in {h} ph k = {}"
  proof (cases "k < length sl")
    case True
    then have "slot_count (sl ! k) = 0" using shape(2) by (simp add: live_slot_def)
    then show ?thesis using inv True by (simp add: slots_inv_def)
  next
    case False
    then show ?thesis using inv by (auto simp: slots_inv_def cells_in_def)
  qed
  have same: "k' \<noteq> k \<Longrightarrow> k' < length sl' \<Longrightarrow> k' < length sl \<and> sl' ! k' = sl ! k'" for k'
    using shape(3,4,7) by (auto simp: max_def split: if_splits)
  have live: "live_slot (raise_slot_count sl' k) k' \<longleftrightarrow> k' = k \<or> live_slot sl k'" for k'
    using shape(1,2,4) same [of k'] by (auto simp: live_slot_def)
  have cnt: "slot_count (raise_slot_count sl' k ! k') = card (cells_in {} (ph(h := k)) k')"
    if "k' < length sl'" for k'
    using that same [of k'] inv cells_in_fill [OF h, of ph k k'] dead shape(5)
    by (cases "k' = k") (auto simp: slots_inv_def)
  have lt: "slot_palette_index (sl ! k') < length vals" if "live_slot sl k'" for k'
    using slots_inv_index [OF inv that] .
  have idx: "slot_palette_index (raise_slot_count sl' k ! k') =
      (if k' = k then length vals else slot_palette_index (sl ! k'))"
    if "k' = k \<or> live_slot sl k'" for k'
    using that shape(1,4) same [of k'] new_idx by (auto simp: live_slot_def)
  have bij: "bij_betw (\<lambda>k'. slot_palette_index (raise_slot_count sl' k ! k'))
      {k'. live_slot (raise_slot_count sl' k) k'} {..<length (vals @ [rid])}"
  proof (rule bij_betwI')
    fix a b assume "a \<in> {k'. live_slot (raise_slot_count sl' k) k'}"
      "b \<in> {k'. live_slot (raise_slot_count sl' k) k'}"
    then show "(slot_palette_index (raise_slot_count sl' k ! a)
        = slot_palette_index (raise_slot_count sl' k ! b)) = (a = b)"
      using idx [of a] idx [of b] lt [of a] lt [of b] slots_inv_inj [OF inv, of a b]
      by (auto simp: live)
  next
    fix a assume "a \<in> {k'. live_slot (raise_slot_count sl' k) k'}"
    then show "slot_palette_index (raise_slot_count sl' k ! a) \<in> {..<length (vals @ [rid])}"
      using idx [of a] lt [of a] by (auto simp: live)
  next
    fix i assume "i \<in> {..<length (vals @ [rid])}"
    then consider "i = length vals" | "i < length vals" by force
    then show "\<exists>a\<in>{k'. live_slot (raise_slot_count sl' k) k'}.
        i = slot_palette_index (raise_slot_count sl' k ! a)"
    proof cases
      case 1
      then show ?thesis using idx [of k] by (intro bexI [of _ k]) (auto simp: live)
    next
      case 2
      then obtain a where a: "live_slot sl a" "slot_palette_index (sl ! a) = i"
        using slots_inv_palette_slot [OF inv] by metis
      then have "a \<noteq> k" using shape(2) by auto
      then show ?thesis using idx [of a] a by (intro bexI [of _ a]) (auto simp: live)
    qed
  qed
  have "(ph(h := k)) l < length sl'" if "l < BLOCKS_PER_SUB_CHUNK" for l
  proof (cases "l = h")
    case True then show ?thesis using shape(1) by simp
  next
    case False
    then have "ph l < length sl" using inv that by (simp add: slots_inv_def)
    then show ?thesis using False shape(4) by simp
  qed
  then show "slots_inv {} (ph(h := k)) (raise_slot_count sl' k) (vals @ [rid])"
    using bij cnt fresh inv unfolding slots_inv_def by simp
  show "slot_value (raise_slot_count sl' k) (vals @ [rid]) k = rid"
    using idx [of k] by (simp add: slot_value_def)
  show "slot_value (raise_slot_count sl' k) (vals @ [rid]) k' = slot_value sl vals k'"
    if "live_slot sl k'" for k'
    using idx [of k'] lt [of k'] that shape(2) by (auto simp: slot_value_def nth_append)
qed

lemma slots_inv_join:
  assumes inv: "slots_inv {h} ph sl vals" and h: "h < BLOCKS_PER_SUB_CHUNK"
    and k: "live_slot sl k"
  shows "slots_inv {} (ph(h := k)) (raise_slot_count sl k) vals"
    and "\<And>k'. live_slot sl k' \<Longrightarrow> slot_value (raise_slot_count sl k) vals k' = slot_value sl vals k'"
proof -
  have live: "{k'. live_slot (raise_slot_count sl k) k'} = {k'. live_slot sl k'}"
    using k by (auto simp: live_slot_def split: if_splits)
  have bij: "bij_betw (\<lambda>k'. slot_palette_index (raise_slot_count sl k ! k')) {k'. live_slot sl k'} S
      = bij_betw (\<lambda>k'. slot_palette_index (sl ! k')) {k'. live_slot sl k'} S" for S
    by (rule bij_betw_cong) (simp add: live_slot_def)
  have cnt: "slot_count (raise_slot_count sl k ! k') = card (cells_in {} (ph(h := k)) k')"
    if "k' < length sl" for k'
    using that inv cells_in_fill [OF h, of ph k k'] by (auto simp: slots_inv_def)
  have "k < length sl" using k by (simp add: live_slot_def)
  then have "(ph(h := k)) l < length sl" if "l < BLOCKS_PER_SUB_CHUNK" for l
    using inv that by (auto simp: slots_inv_def)
  then show "slots_inv {} (ph(h := k)) (raise_slot_count sl k) vals"
    using inv cnt unfolding slots_inv_def live bij length_slot_updates by simp
  show "slot_value (raise_slot_count sl k) vals k' = slot_value sl vals k'" if "live_slot sl k'" for k'
    using that by (simp add: slot_value_def live_slot_def)
qed

text \<open>Which slot a value already in the palette leads to.\<close>

lemma destination_slot_None:
  "rid \<notin> set vals \<Longrightarrow> destination_slot sl vals rid = Some None"
  by (simp add: destination_slot_def position_None split: option.split) (metis position_Some nth_mem)

lemma destination_slot_Some:
  assumes inv: "slots_inv hole ph sl vals" and rid: "rid \<in> set vals"
  shows "\<exists>k. destination_slot sl vals rid = Some (Some k) \<and> live_slot sl k \<and> slot_value sl vals k = rid"
proof -
  obtain i where i: "position (\<lambda>v. v = rid) vals = Some i"
    using rid position_None [of "\<lambda>v. v = rid" vals] by (metis option.exhaust)
  note i' = position_Some [OF i]
  obtain k where k: "live_slot sl k" "slot_palette_index (sl ! k) = i"
    using slots_inv_palette_slot [OF inv] i' by metis
  then have "\<exists>slot\<in>set sl. slot_count slot \<noteq> 0 \<and> slot_palette_index slot = i"
    by (intro bexI [of _ "sl ! k"]) (auto simp: live_slot_def)
  then obtain k' where k': "position (\<lambda>slot. slot_count slot \<noteq> 0 \<and> slot_palette_index slot = i) sl = Some k'"
    by (metis (mono_tags, lifting) not_None_eq position_None)
  note k'' = position_Some [OF k']
  then have "live_slot sl k'" "slot_value sl vals k' = rid"
    using i' by (auto simp: live_slot_def slot_value_def)
  then show ?thesis using i k' by (auto simp: destination_slot_def)
qed

lemma remove_nth_filter:
  assumes "distinct xs" "i < length xs"
  shows "take i xs @ drop (Suc i) xs = filter (\<lambda>x. x \<noteq> xs ! i) xs"
proof -
  have split: "xs = take i xs @ xs ! i # drop (Suc i) xs" using assms(2) by (rule id_take_nth_drop)
  have "xs ! i \<notin> set (take i xs) \<union> set (drop (Suc i) xs)"
    using assms by (metis Un_iff distinct_append distinct.simps(2) disjoint_insert(1) list.simps(15) split)
  then have "filter (\<lambda>x. x \<noteq> xs ! i) (take i xs) = take i xs"
    "filter (\<lambda>x. x \<noteq> xs ! i) (drop (Suc i) xs) = drop (Suc i) xs"
    by (auto intro: filter_True)
  then show ?thesis by (subst (3) split) simp
qed

text \<open>The result of an edit on the palette: survivors in order, then the value if it is new.\<close>

definition survivors :: "u32 list \<Rightarrow> u32 set \<Rightarrow> u32 \<Rightarrow> u32 list" where
  "survivors vals used rid = filter (\<lambda>v. v \<in> used) vals @ (if rid \<in> set vals then [] else [rid])"

definition patched ::
  "(usize \<Rightarrow> usize) \<Rightarrow> palette_slot list \<Rightarrow> u32 list \<Rightarrow> usize \<Rightarrow> u32 \<Rightarrow>
   bool \<Rightarrow> palette_slot list \<Rightarrow> u32 list \<Rightarrow> usize \<Rightarrow> bool" where
  "patched ph sl vals h rid restructured sl' vals' k \<longleftrightarrow>
     slots_inv {} (ph(h := k)) sl' vals' \<and> slot_value sl' vals' k = rid \<and>
     (\<forall>l<BLOCKS_PER_SUB_CHUNK. l \<noteq> h \<longrightarrow> slot_value sl' vals' (ph l) = slot_value sl vals (ph l)) \<and>
     vals' = survivors vals (set vals') rid \<and>
     (length sl \<le> BLOCKS_PER_SUB_CHUNK \<longrightarrow> length sl' \<le> BLOCKS_PER_SUB_CHUNK) \<and>
     (\<not> restructured \<longrightarrow> vals' = vals \<and> length sl' = length sl \<and> (direct_slots sl \<longrightarrow> direct_slots sl'))"

lemma direct_slots_iff:
  "direct_slots sl \<longleftrightarrow> (\<forall>k<length sl. slot_count (sl ! k) = 0 \<or> k = slot_palette_index (sl ! k))"
  by (simp add: direct_slots_def list_all_length nth_enumerate_eq)

lemma slot_value_drop:
  "live_slot sl k \<Longrightarrow> slot_value (drop_slot_count sl k') vals k = slot_value sl vals k"
  by (simp add: slot_value_def live_slot_def)

lemma survivors_same:
  "rid \<in> set vals \<Longrightarrow> survivors vals (set vals) rid = vals"
  by (simp add: survivors_def)

lemma survivors_add:
  "rid \<notin> set vals \<Longrightarrow> survivors vals (set (vals @ [rid])) rid = vals @ [rid]"
  by (simp add: survivors_def)

lemma survivors_removed:
  assumes "distinct vals" "i < length vals" "vals ! i \<noteq> rid"
  defines "kept \<equiv> take i vals @ drop (Suc i) vals"
  shows "rid \<in> set vals \<Longrightarrow> survivors vals (set kept) rid = kept"
    and "rid \<notin> set vals \<Longrightarrow> survivors vals (set (kept @ [rid])) rid = kept @ [rid]"
    and "set kept = set vals - {vals ! i}"
proof -
  have kept: "kept = filter (\<lambda>x. x \<noteq> vals ! i) vals"
    unfolding kept_def by (rule remove_nth_filter [OF assms(1,2)])
  then show set: "set kept = set vals - {vals ! i}" by auto
  show "survivors vals (set kept) rid = kept" if "rid \<in> set vals"
    using that by (auto simp: survivors_def set) (auto simp: kept intro: filter_cong)
  show "survivors vals (set (kept @ [rid])) rid = kept @ [rid]" if "rid \<notin> set vals"
    using that by (auto simp: survivors_def set) (auto simp: kept intro!: filter_cong)
qed

lemma patch_slots_keep:
  assumes inv: "slots_inv {} ph sl vals" and h: "h < BLOCKS_PER_SUB_CHUNK"
    and differs: "slot_value sl vals (ph h) \<noteq> rid" and more: "slot_count (sl ! ph h) \<noteq> 1"
  shows "\<exists>r sl' vals' k. patch_slots sl vals (ph h) rid = Some (r, sl', vals', k) \<and>
     patched ph sl vals h rid r sl' vals' k"
proof -
  let ?sl = "drop_slot_count sl (ph h)"
  have live: "live_slot sl (ph h)" using slots_inv_live [OF inv h] by simp
  then have ph: "ph h < length sl" "slot_count (sl ! ph h) \<noteq> 0" by (auto simp: live_slot_def)
  then have not_removed: "slot_count (?sl ! ph h) \<noteq> 0" using more by simp
  have inv': "slots_inv {h} ph ?sl vals" by (rule slots_inv_drop_keep [OF inv h more])
  have lives: "live_slot ?sl k \<longleftrightarrow> live_slot sl k" for k
    using ph more by (auto simp: live_slot_def)
  have old: "live_slot sl (ph l)" if "l < BLOCKS_PER_SUB_CHUNK" for l
    using slots_inv_live [OF inv that] by simp
  show ?thesis
  proof (cases "rid \<in> set vals")
    case True
    obtain k where k: "destination_slot sl vals rid = Some (Some k)" "live_slot sl k"
      "slot_value sl vals k = rid" using destination_slot_Some [OF inv True] by blast
    note join = slots_inv_join [OF inv' h, of k]
    have "direct_slots (raise_slot_count ?sl k)" if d: "direct_slots sl"
      unfolding direct_slots_iff
    proof (intro allI impI)
      fix j assume "j < length (raise_slot_count ?sl k)"
      then have j: "j < length sl" by simp
      show "slot_count (raise_slot_count ?sl k ! j) = 0 \<or> j = slot_palette_index (raise_slot_count ?sl k ! j)"
        using d j k(2) by (cases "slot_count (sl ! j) = 0") (auto simp: direct_slots_iff live_slot_def)
    qed
    then have "patched ph sl vals h rid False (raise_slot_count ?sl k) vals k"
      using join k lives old by (auto simp: patched_def slot_value_drop survivors_same True)
    moreover have "patch_slots sl vals (ph h) rid = Some (False, raise_slot_count ?sl k, vals, k)"
      using k ph not_removed by (simp add: patch_slots_def retire_value_def)
    ultimately show ?thesis by blast
  next
    case False
    obtain sl' k where alloc: "allocate_slot ?sl (length vals) = Some (sl', k)"
      using allocate_slot_total [OF inv' h] by blast
    note add = slots_inv_add [OF inv' h False alloc]
    have "length sl' \<le> BLOCKS_PER_SUB_CHUNK" if "length sl \<le> BLOCKS_PER_SUB_CHUNK"
      using that alloc by (auto simp: allocate_slot_def Let_def split: option.splits if_splits)
    then have "patched ph sl vals h rid True (raise_slot_count sl' k) (vals @ [rid]) k"
      using add lives old by (auto simp: patched_def slot_value_drop survivors_add [OF False, simplified])
    moreover have "patch_slots sl vals (ph h) rid = Some (True, raise_slot_count sl' k, vals @ [rid], k)"
      using alloc ph not_removed False
      by (simp add: patch_slots_def retire_value_def destination_slot_None)
    ultimately show ?thesis by blast
  qed
qed

lemma patch_slots_removed:
  assumes inv: "slots_inv {} ph sl vals" and h: "h < BLOCKS_PER_SUB_CHUNK"
    and differs: "slot_value sl vals (ph h) \<noteq> rid" and one: "slot_count (sl ! ph h) = 1"
  shows "\<exists>r sl' vals' k. patch_slots sl vals (ph h) rid = Some (r, sl', vals', k) \<and>
     patched ph sl vals h rid r sl' vals' k"
proof -
  define si where "si = slot_palette_index (sl ! ph h)"
  define kept where "kept = take si vals @ drop (Suc si) vals"
  define sl1 where "sl1 = close_palette_gap (drop_slot_count sl (ph h)) si"
  have live: "live_slot sl (ph h)" and si: "si < length vals"
    using slots_inv_live [OF inv h] by (auto simp: si_def)
  then have ph: "ph h < length sl" by (auto simp: live_slot_def)
  have removed: "slot_count (drop_slot_count sl (ph h) ! ph h) = 0" using one ph by simp
  have dist: "distinct vals" using inv by (simp add: slots_inv_def)
  have differs': "vals ! si \<noteq> rid" using differs by (simp add: slot_value_def si_def)
  note gap = slots_inv_drop_removed [OF inv h one si_def sl1_def kept_def]
  note surv = survivors_removed [OF dist si differs', folded kept_def]
  have no_gap: "close_palette_gap (drop_slot_count sl (ph h)) si = drop_slot_count sl (ph h)"
    if "\<not> si < length kept"
  proof (rule nth_equalityI)
    fix k assume "k < length (close_palette_gap (drop_slot_count sl (ph h)) si)"
    then have k: "k < length sl" by simp
    have "length kept = length vals - 1" using si by (simp add: kept_def)
    moreover have "slot_palette_index (sl ! k) < length vals" if "slot_count (sl ! k) \<noteq> 0"
      using slots_inv_index [OF inv] that k by (simp add: live_slot_def)
    ultimately have "\<not> (slot_count (drop_slot_count sl (ph h) ! k) \<noteq> 0 \<and>
        slot_palette_index (drop_slot_count sl (ph h) ! k) > si)"
      using \<open>\<not> si < length kept\<close> k by auto
    then show "close_palette_gap (drop_slot_count sl (ph h)) si ! k = drop_slot_count sl (ph h) ! k"
      using k by (auto simp: close_palette_gap_def)
  qed simp
  have lives: "live_slot sl1 k \<longleftrightarrow> live_slot sl k \<and> k \<noteq> ph h" for k
    using one ph by (auto simp: live_slot_def sl1_def split: if_splits)
  have others: "live_slot sl1 (ph l)" if "l < BLOCKS_PER_SUB_CHUNK" "l \<noteq> h" for l
    using slots_inv_live(1) [OF gap(1)] that by auto
  have retire: "retire_value vals (drop_slot_count sl (ph h)) True si added =
      (case added of None \<Rightarrow> kept | Some v \<Rightarrow> kept @ [v], sl1)" for added
  proof (cases "si < length kept")
    case True
    then show ?thesis
      by (simp add: retire_value_def Let_def kept_def [symmetric] sl1_def del: length_append)
  next
    case False
    then show ?thesis
      using no_gap by (simp add: retire_value_def Let_def kept_def [symmetric] sl1_def del: length_append)
  qed
  have len1: "length sl1 = length sl" by (simp add: sl1_def)
  show ?thesis
  proof (cases "rid \<in> set vals")
    case True
    obtain k where k: "destination_slot sl vals rid = Some (Some k)" "live_slot sl k"
      "slot_value sl vals k = rid" using destination_slot_Some [OF inv True] by blast
    have "k \<noteq> ph h" using k differs by auto
    then have k1: "live_slot sl1 k" using lives k by simp
    note join = slots_inv_join [OF gap(1) h k1]
    have "patched ph sl vals h rid True (raise_slot_count sl1 k) kept k"
      using join k k1 others gap(2) surv(1) [OF True] by (auto simp: patched_def len1)
    moreover have "patch_slots sl vals (ph h) rid = Some (True, raise_slot_count sl1 k, kept, k)"
      using k ph one si removed retire by (simp add: patch_slots_def si_def)
    ultimately show ?thesis by blast
  next
    case False
    have fresh: "rid \<notin> set kept" using False surv(3) by simp
    obtain sl' k where alloc: "allocate_slot sl1 (length kept) = Some (sl', k)"
      using allocate_slot_total [OF gap(1) h] by blast
    note add = slots_inv_add [OF gap(1) h fresh alloc]
    have "length sl' \<le> BLOCKS_PER_SUB_CHUNK" if "length sl \<le> BLOCKS_PER_SUB_CHUNK"
      using that alloc len1 by (auto simp: allocate_slot_def Let_def split: option.splits if_splits)
    then have "patched ph sl vals h rid True (raise_slot_count sl' k) (kept @ [rid]) k"
      using add others gap(2) surv(2) [OF False] by (auto simp: patched_def)
    moreover have "patch_slots sl vals (ph h) rid = Some (True, raise_slot_count sl' k, kept @ [rid], k)"
      using alloc ph one si removed retire False
      by (simp add: patch_slots_def si_def destination_slot_None)
    ultimately show ?thesis by blast
  qed
qed

lemma patch_slots_correct:
  assumes "slots_inv {} ph sl vals" "h < BLOCKS_PER_SUB_CHUNK" "slot_value sl vals (ph h) \<noteq> rid"
  shows "\<exists>r sl' vals' k. patch_slots sl vals (ph h) rid = Some (r, sl', vals', k) \<and>
     patched ph sl vals h rid r sl' vals' k"
  using patch_slots_keep [OF assms] patch_slots_removed [OF assms] by blast

end
