(* ===== verification/Palette_Edit.thy ===== *)
theory Palette_Edit
  imports Palette_Slots
begin

section \<open>Edits of paletted storages are right\<close>

text \<open>
  The packed words of an edit, the canonical words an edited storage shows its readers, the batch
  path, and the agreement of the single-cell edit with the batch.
\<close>

subsection \<open>The packed words of an edit\<close>

lemma physical_index_bound:
  assumes "physical_bits s \<in> set SUPPORTED_BITS" "physical_index s l = Some i"
  shows "i < 2 ^ physical_bits s"
proof -
  have "physical_bits s \<le> 16" using assms(1) by (auto simp: SUPPORTED_BITS_def)
  then show ?thesis
    using assms(2) read_packed_bound [of "physical_bits s" "physical_words s" l i]
    by (auto simp: physical_index_def split: if_splits)
qed

lemma read_packed_zero:
  assumes "b \<in> set PACKED_BITS" "l < BLOCKS_PER_SUB_CHUNK"
  shows "read_packed (replicate (word_count b) 0) b l = Some 0"
  using cell_in_words [OF assms] by (simp add: read_packed_def Let_def)

text \<open>Widening keeps every physical index.\<close>

lemma grown_words_reads:
  assumes bits: "physical_bits s \<in> set SUPPORTED_BITS"
    and total: "\<forall>l<BLOCKS_PER_SUB_CHUNK. physical_index s l \<noteq> None"
    and b: "b \<in> set PACKED_BITS" "physical_bits s \<le> b"
  shows "\<exists>ws. grown_words s b = Some ws \<and> length ws = word_count b \<and> zero_padded ws b \<and>
    (\<forall>l<BLOCKS_PER_SUB_CHUNK. read_packed ws b l = physical_index s l)"
proof (cases "physical_bits s = 0")
  case True
  then show ?thesis
    using b(1) by (auto simp: grown_words_def zero_padded_zero read_packed_zero physical_index_def)
next
  case False
  let ?g = "\<lambda>l. the (physical_index s l)"
  have "physical_index s l = Some (?g l) \<and> ?g l < 2 ^ b" if "l < BLOCKS_PER_SUB_CHUNK" for l
  proof -
    have i: "physical_index s l = Some (?g l)" using total that by auto
    have "?g l < 2 ^ physical_bits s" by (rule physical_index_bound [OF bits i])
    also have "(2::nat) ^ physical_bits s \<le> 2 ^ b" using b(2) by (intro power_increasing) auto
    finally show ?thesis using i by simp
  qed
  then obtain ws where "pack_cells b (physical_index s) (replicate (word_count b) 0) = Some ws"
    "length ws = word_count b" "zero_padded ws b"
    "\<And>l. l < BLOCKS_PER_SUB_CHUNK \<Longrightarrow> read_packed ws b l = Some (?g l)"
    using pack_cells_fresh [OF b(1), of "physical_index s" ?g] by metis
  then show ?thesis using False total by (auto simp: grown_words_def)
qed

lemma slots_inv_cong:
  assumes "\<And>l. l < BLOCKS_PER_SUB_CHUNK \<Longrightarrow> ph l = ph' l"
  shows "slots_inv hole ph sl vals \<longleftrightarrow> slots_inv hole ph' sl vals"
proof -
  have "cells_in hole ph k = cells_in hole ph' k" for k using assms by (auto simp: cells_in_def)
  then show ?thesis using assms by (auto simp: slots_inv_def)
qed

text \<open>The words after an edit: wide enough for the slots, and only the edited cell is rewritten.\<close>

definition edit_words ::
  "paletted_storage \<Rightarrow> usize \<Rightarrow> usize \<Rightarrow> usize \<Rightarrow> (nat \<times> u32 list) option" where
  "edit_words s slot_len linear slot = do {
     let bits = bits_for_palette_len slot_len;
     (bits', words) \<leftarrow> (if bits > physical_bits s
                        then map_option (Pair bits) (grown_words s bits)
                        else Some (physical_bits s, physical_words s));
     words' \<leftarrow> write_palette_index words bits' linear slot;
     Some (bits', words')
   }"

lemma edit_words_correct:
  assumes bits: "physical_bits s \<in> set SUPPORTED_BITS" and pad: "has_zero_padding s"
    and total: "\<forall>l<BLOCKS_PER_SUB_CHUNK. physical_index s l \<noteq> None"
    and l: "l < BLOCKS_PER_SUB_CHUNK" and k: "k < n" and n: "n \<le> BLOCKS_PER_SUB_CHUNK"
  shows "\<exists>b ws. edit_words s n l k = Some (b, ws) \<and> b \<in> set SUPPORTED_BITS \<and>
    b = max (physical_bits s) (bits_for_palette_len n) \<and> n \<le> 2 ^ b \<and>
    has_zero_padding (s\<lparr>physical_bits := b, physical_words := ws\<rparr>) \<and>
    (\<forall>l'<BLOCKS_PER_SUB_CHUNK. physical_index (s\<lparr>physical_bits := b, physical_words := ws\<rparr>) l' =
       (if l' = l then Some k else physical_index s l'))"
proof -
  define b where "b = max (physical_bits s) (bits_for_palette_len n)"
  have b: "b \<in> set SUPPORTED_BITS" using bits by (simp add: b_def max_def)
  have "(2::nat) ^ bits_for_palette_len n \<le> 2 ^ b" by (intro power_increasing) (auto simp: b_def)
  then have nb: "n \<le> 2 ^ b" using bits_for_palette_len_fits [OF n] by linarith
  obtain ws0 where ws0: "(if bits_for_palette_len n > physical_bits s
      then map_option (Pair (bits_for_palette_len n)) (grown_words s (bits_for_palette_len n))
      else Some (physical_bits s, physical_words s)) = Some (b, ws0)"
    and len: "length ws0 = word_count b" and z: "b = 0 \<or> zero_padded ws0 b"
    and rd: "\<And>l'. l' < BLOCKS_PER_SUB_CHUNK \<Longrightarrow>
      (if b = 0 then Some 0 else read_packed ws0 b l') = physical_index s l'"
  proof (cases "bits_for_palette_len n > physical_bits s")
    case True
    then have "bits_for_palette_len n \<in> set PACKED_BITS"
      using bits_for_palette_len_supported [of n] unfolding supported_bits_iff by auto
    moreover have "b = bits_for_palette_len n" using True by (simp add: b_def)
    ultimately show ?thesis
      using grown_words_reads [OF bits total, of b] that True by auto
  next
    case False
    then have "b = physical_bits s" by (simp add: b_def)
    then show ?thesis
      using that False pad by (auto simp: has_zero_padding_def physical_index_def)
  qed
  show ?thesis
  proof (cases "b = 0")
    case True
    then have "edit_words s n l k = Some (b, ws0)"
      using ws0 by (simp add: edit_words_def Let_def write_palette_index_def)
    moreover have "k = 0" using nb k True by simp
    ultimately show ?thesis
      using True b nb len rd by (intro exI [of _ b] exI [of _ ws0] conjI b_def)
        (simp_all add: has_zero_padding_def physical_index_def)
  next
    case False
    then have pb: "b \<in> set PACKED_BITS" using b by (simp add: supported_bits_iff)
    obtain ws where ws: "write_palette_index ws0 b l k = Some ws" "length ws = word_count b"
      using write_total [OF pb len l] by blast
    have run: "edit_words s n l k = Some (b, ws)"
      using ws0 ws by (simp add: edit_words_def)
    have "k < 2 ^ b" using k nb by simp
    have zero: "zero_padded ws b" using zero_padded_write [OF pb l _ ws(1)] z False by simp
    have "read_packed ws b l' = (if l' = l then Some k else read_packed ws0 b l')" for l'
      using read_write [OF pb \<open>k < 2 ^ b\<close> ws(1)] .
    then have reads: "physical_index (s\<lparr>physical_bits := b, physical_words := ws\<rparr>) l' =
        (if l' = l then Some k else physical_index s l')" if "l' < BLOCKS_PER_SUB_CHUNK" for l'
      using that False rd [OF that] by (simp add: physical_index_def [of "s\<lparr>physical_bits := b, physical_words := ws\<rparr>"])
    have "has_zero_padding (s\<lparr>physical_bits := b, physical_words := ws\<rparr>)"
      using ws(2) zero by (simp add: has_zero_padding_def)
    with run reads show ?thesis using b nb b_def by blast
  qed
qed

text \<open>Reading a cell of an edited storage through its slot.\<close>

lemma edited_cell_value:
  assumes wf: "edited_wf s e" and e: "edits s = Some e" and l: "l < BLOCKS_PER_SUB_CHUNK"
  shows "palette_index s l = Some (slot_palette_index (slots e ! the (physical_index s l)))"
    and "slot_palette_index (slots e ! the (physical_index s l)) < length (palette s)"
    and "cell_value s l = Some (slot_value (slots e) (palette s) (the (physical_index s l)))"
proof -
  have inv: "slots_inv {} (\<lambda>l. the (physical_index s l)) (slots e) (palette s)"
    using wf by (auto simp: edited_wf_def)
  obtain i where i: "physical_index s l = Some i" using wf l by (auto simp: edited_wf_def)
  note live = slots_inv_live [OF inv l, simplified]
  show "palette_index s l = Some (slot_palette_index (slots e ! the (physical_index s l)))"
    using live(1) i e by (simp add: palette_index_def)
  then show "cell_value s l = Some (slot_value (slots e) (palette s) (the (physical_index s l)))"
    using live(2) by (simp add: cell_value_def palette_get_def slot_value_def)
  show "slot_palette_index (slots e ! the (physical_index s l)) < length (palette s)"
    by (rule live(2))
qed

lemma patch_edit_words:
  "patch_edit s l rid = do {
     source \<leftarrow> physical_index s l;
     e \<leftarrow> edits s;
     (r, sl, vals, k) \<leftarrow> patch_slots (slots e) (palette s) source rid;
     (b, ws) \<leftarrow> edit_words s (length sl) l k;
     Some \<lparr>physical_bits = b, physical_words = ws, palette = vals,
           edits = Some \<lparr>slots = sl,
             direct = (if r then b = bits_for_palette_len (length vals) \<and> direct_slots sl else direct e),
             canonical_words = None\<rparr>\<rparr> }"
  by (simp add: patch_edit_def edit_words_def Let_def split: prod.splits)
    (auto split: Option.bind_splits prod.splits if_splits)

lemma patch_edit_correct:
  assumes wf: "edited_wf s e" and e: "edits s = Some e" and l: "l < BLOCKS_PER_SUB_CHUNK"
    and differs: "cell_value s l \<noteq> Some rid"
  shows "\<exists>s' e'. patch_edit s l rid = Some s' \<and> edits s' = Some e' \<and> edited_wf s' e' \<and>
    (\<forall>l'<BLOCKS_PER_SUB_CHUNK. cell_value s' l' = (if l' = l then Some rid else cell_value s l')) \<and>
    palette s' = survivors (palette s) (set (palette s')) rid"
proof -
  define ph where "ph = (\<lambda>l. the (physical_index s l))"
  have inv: "slots_inv {} ph (slots e) (palette s)"
    and bits: "physical_bits s \<in> set SUPPORTED_BITS" and pad: "has_zero_padding s"
    and total: "\<forall>l<BLOCKS_PER_SUB_CHUNK. physical_index s l \<noteq> None"
    and room: "length (slots e) \<le> BLOCKS_PER_SUB_CHUNK" "length (slots e) \<le> 2 ^ physical_bits s"
    using wf by (auto simp: edited_wf_def ph_def)
  have val: "cell_value s l' = Some (slot_value (slots e) (palette s) (ph l'))"
    if "l' < BLOCKS_PER_SUB_CHUNK" for l'
    using edited_cell_value(3) [OF wf e that] by (simp add: ph_def)
  have "slot_value (slots e) (palette s) (ph l) \<noteq> rid" using differs val [OF l] by simp
  then obtain r sl vals k where patch: "patch_slots (slots e) (palette s) (ph l) rid = Some (r, sl, vals, k)"
    and patched: "patched ph (slots e) (palette s) l rid r sl vals k"
    using patch_slots_correct [OF inv l] by blast
  have inv': "slots_inv {} (ph(l := k)) sl vals" using patched by (simp add: patched_def)
  have "k < length sl" using slots_inv_live(1) [OF inv' l] by (simp add: live_slot_def)
  moreover have len: "length sl \<le> BLOCKS_PER_SUB_CHUNK" using patched room by (simp add: patched_def)
  ultimately obtain b ws where ws: "edit_words s (length sl) l k = Some (b, ws)"
    and b: "b \<in> set SUPPORTED_BITS" "b = max (physical_bits s) (bits_for_palette_len (length sl))"
      "length sl \<le> 2 ^ b"
    and pad': "has_zero_padding (s\<lparr>physical_bits := b, physical_words := ws\<rparr>)"
    and rd: "\<forall>l'<BLOCKS_PER_SUB_CHUNK. physical_index (s\<lparr>physical_bits := b, physical_words := ws\<rparr>) l' =
       (if l' = l then Some k else physical_index s l')"
    using edit_words_correct [OF bits pad total l] by blast
  define d where "d = (if r then b = bits_for_palette_len (length vals) \<and> direct_slots sl else direct e)"
  define e' where "e' = \<lparr>slots = sl, direct = d, canonical_words = None\<rparr>"
  define s' where "s' = \<lparr>physical_bits = b, physical_words = ws, palette = vals, edits = Some e'\<rparr>"
  have e': "edits s' = Some e'" by (simp add: s'_def)
  have run: "patch_edit s l rid = Some s'"
  proof -
    have "physical_index s l = Some (ph l)" using total l by (auto simp: ph_def)
    then show ?thesis
      using e patch ws by (simp add: patch_edit_words s'_def e'_def d_def)
  qed
  have rd': "physical_index s' l' = Some ((ph(l := k)) l')" if "l' < BLOCKS_PER_SUB_CHUNK" for l'
  proof -
    have "physical_index s' l' = physical_index (s\<lparr>physical_bits := b, physical_words := ws\<rparr>) l'"
      by (simp add: physical_index_def s'_def)
    then show ?thesis using rd that total by (auto simp: ph_def)
  qed
  have direct: "b = bits_for_palette_len (length vals) \<and> direct_slots sl" if d
  proof (cases r)
    case True then show ?thesis using that by (simp add: d_def)
  next
    case False
    then have same: "vals = palette s" "length sl = length (slots e)"
      and "direct_slots (slots e) \<longrightarrow> direct_slots sl" using patched by (auto simp: patched_def)
    moreover have "direct e" using that False by (simp add: d_def)
    moreover have "b = physical_bits s"
      using b(2) same room bits_for_palette_len_le [OF room(2) bits] by simp
    ultimately show ?thesis using wf by (auto simp: edited_wf_def)
  qed
  have wf': "edited_wf s' e'"
  proof -
    have "slots_inv {} (\<lambda>l. the (physical_index s' l)) sl vals"
      using inv' slots_inv_cong [of "\<lambda>l. the (physical_index s' l)" "ph(l := k)"] rd' by simp
    moreover have "has_zero_padding s'" using pad' by (simp add: has_zero_padding_def s'_def)
    ultimately show ?thesis
      using b len rd' direct unfolding edited_wf_def by (simp add: s'_def e'_def)
  qed
  have "cell_value s' l' = (if l' = l then Some rid else cell_value s l')"
    if "l' < BLOCKS_PER_SUB_CHUNK" for l'
    using edited_cell_value(3) [OF wf' e' that] rd' [OF that] patched that val [OF that]
    by (auto simp: s'_def e'_def patched_def)
  moreover have "palette s' = survivors (palette s) (set (palette s')) rid"
    using patched by (simp add: s'_def patched_def)
  ultimately show ?thesis using run e' wf' by blast
qed

subsection \<open>The words a reader sees\<close>

lemma edited_palette_bound:
  assumes "edited_wf s e" shows "0 < length (palette s)" "length (palette s) \<le> BLOCKS_PER_SUB_CHUNK"
  using assms palette_nonempty palette_le_cells [of "{}"] by (fastforce simp: edited_wf_def)+

lemma edited_bits:
  "edits s = Some e \<Longrightarrow> bits_per_index s = bits_for_palette_len (length (palette s))"
  by (simp add: bits_per_index_def)

lemma direct_palette_index:
  assumes wf: "edited_wf s e" and e: "edits s = Some e" and d: "direct e" and l: "l < BLOCKS_PER_SUB_CHUNK"
  shows "palette_index s l = physical_index s l"
proof -
  have inv: "slots_inv {} (\<lambda>l. the (physical_index s l)) (slots e) (palette s)" and dir: "direct_slots (slots e)"
    using wf d by (auto simp: edited_wf_def)
  obtain i where i: "physical_index s l = Some i" using wf l by (auto simp: edited_wf_def)
  have "live_slot (slots e) i" using slots_inv_live(1) [OF inv l] i by simp
  then have "slot_palette_index (slots e ! i) = i" using dir by (auto simp: direct_slots_iff live_slot_def)
  then show ?thesis using edited_cell_value(1) [OF wf e l] i by simp
qed

text \<open>The canonical packing of an edited storage is total, padded and reads back its indices.\<close>

lemma canonical_packing_reads:
  assumes wf: "edited_wf s e" and e: "edits s = Some e"
  shows "\<exists>ws. canonical_packing s = Some ws \<and> length ws = word_count (bits_per_index s) \<and>
    (bits_per_index s = 0 \<or> zero_padded ws (bits_per_index s)) \<and>
    (\<forall>l<BLOCKS_PER_SUB_CHUNK. (if bits_per_index s = 0 then Some 0
       else read_packed ws (bits_per_index s) l) = palette_index s l)"
proof -
  let ?b = "bits_per_index s" and ?g = "\<lambda>l. slot_palette_index (slots e ! the (physical_index s l))"
  have idx: "palette_index s l = Some (?g l)" "?g l < length (palette s)" if "l < BLOCKS_PER_SUB_CHUNK" for l
    using edited_cell_value(1,2) [OF wf e that] by auto
  have "length (palette s) \<le> 2 ^ ?b"
    using bits_for_palette_len_fits [OF edited_palette_bound(2) [OF wf]] by (simp add: edited_bits [OF e])
  then have fits: "?g l < 2 ^ ?b" if "l < BLOCKS_PER_SUB_CHUNK" for l using idx(2) [OF that] by simp
  show ?thesis
  proof (cases "?b = 0")
    case True
    then have "length (palette s) \<le> 1" using e by (simp add: bits_per_index_def bits_for_palette_len_0_iff)
    then have "?g l = 0" if "l < BLOCKS_PER_SUB_CHUNK" for l using idx(2) [OF that] by simp
    then show ?thesis using True idx by (simp add: canonical_packing_def word_count_values)
  next
    case False
    then have "?b \<in> set PACKED_BITS"
      using bits_for_palette_len_supported [of "length (palette s)"] e
      by (simp add: bits_per_index_def supported_bits_iff)
    then obtain ws where "pack_cells ?b (palette_index s) (replicate (word_count ?b) 0) = Some ws"
      "length ws = word_count ?b" "zero_padded ws ?b"
      "\<And>l. l < BLOCKS_PER_SUB_CHUNK \<Longrightarrow> read_packed ws ?b l = Some (?g l)"
      using pack_cells_fresh [of ?b "palette_index s" ?g] idx(1) fits by metis
    then show ?thesis using False idx(1) by (simp add: canonical_packing_def Let_def)
  qed
qed

text \<open>
  Whether they come from the direct words, from the cache or from a fresh packing, the words of
  an edited storage are the padded words of its palette indices.
\<close>

definition shows_indices :: "nat \<Rightarrow> (usize \<Rightarrow> usize option) \<Rightarrow> u32 list \<Rightarrow> bool" where
  "shows_indices b idx ws \<longleftrightarrow>
     length ws = word_count b \<and> (b = 0 \<or> zero_padded ws b) \<and>
     (\<forall>l<BLOCKS_PER_SUB_CHUNK. (if b = 0 then Some 0 else read_packed ws b l) = idx l)"

lemma shows_indices_unique:
  assumes "b \<in> set SUPPORTED_BITS" "shows_indices b idx ws" "shows_indices b idx' ws'"
    and "\<And>l. l < BLOCKS_PER_SUB_CHUNK \<Longrightarrow> idx l = idx' l"
  shows "ws = ws'"
proof (cases "b = 0")
  case True
  then show ?thesis using assms by (simp add: shows_indices_def word_count_values)
next
  case False
  then show ?thesis
    using assms padded_words_unique [of b ws ws'] by (simp add: shows_indices_def supported_bits_iff)
qed

lemma observed_words_shows:
  assumes wf: "edited_wf s e" and e: "edits s = Some e"
  shows "\<exists>ws. observed_words s = Some ws \<and> shows_indices (bits_per_index s) (palette_index s) ws"
proof (cases "direct e")
  case True
  have "bits_per_index s = physical_bits s"
    using wf True e by (simp add: edited_bits edited_wf_def)
  moreover have "has_zero_padding s" using wf by (simp add: edited_wf_def)
  ultimately have "shows_indices (bits_per_index s) (palette_index s) (physical_words s)"
    using direct_palette_index [OF wf e True]
    by (auto simp: shows_indices_def has_zero_padding_def physical_index_def)
  then show ?thesis using True e by (simp add: observed_words_def words_of_def)
next
  case False
  obtain ws where ws: "canonical_packing s = Some ws" "shows_indices (bits_per_index s) (palette_index s) ws"
    using canonical_packing_reads [OF wf e] by (auto simp: shows_indices_def)
  moreover have "canonical_words e = Some ws' \<Longrightarrow> ws' = ws" for ws'
    using wf ws(1) by (auto simp: edited_wf_def)
  ultimately show ?thesis
    using False e by (auto simp: observed_words_def words_of_def split: option.splits)
qed

text \<open>Filling the cache is invisible: the storage after \<^verbatim>\<open>words()\<close> is well formed and reads the same.\<close>

lemma words_of_invisible:
  assumes wf: "edited_wf s e" and e: "edits s = Some e" and w: "words_of s = Some (ws, s')"
  shows "\<exists>e'. edits s' = Some e' \<and> edited_wf s' e' \<and> palette s' = palette s \<and>
    observed_words s' = Some ws \<and> (\<forall>l. palette_index s' l = palette_index s l)"
proof (cases "direct e \<or> canonical_words e \<noteq> None")
  case True
  then have "s' = s" using w e by (auto simp: words_of_def split: option.splits if_splits)
  then show ?thesis using wf e w by (simp add: observed_words_def)
next
  case False
  then obtain ws0 where cp: "canonical_packing s = Some ws0" and "ws0 = ws"
    and s': "s' = s\<lparr>edits := Some (e\<lparr>canonical_words := Some ws\<rparr>)\<rparr>"
    using w e by (auto simp: words_of_def split: option.splits if_splits)
  have same: "physical_index s' = physical_index s" "palette_index s' = palette_index s"
    "bits_per_index s' = bits_per_index s"
    by (auto simp: fun_eq_iff s' physical_index_def palette_index_def bits_per_index_def e
        split: option.split)
  then have "canonical_packing s' = canonical_packing s" by (simp only: canonical_packing_def)
  then have "edited_wf s' (e\<lparr>canonical_words := Some ws\<rparr>)"
    using wf same cp \<open>ws0 = ws\<close> False by (simp add: edited_wf_def s' has_zero_padding_def)
  then show ?thesis using same False e by (simp add: s' observed_words_def words_of_def)
qed

subsection \<open>Admitting canonical storages to stable slots\<close>

lemma new_edits_slots [simp]:
  "length (slots (new_edits counts)) = length counts"
  "direct (new_edits counts)" "canonical_words (new_edits counts) = None"
  by (simp_all add: new_edits_def)

lemma new_edits_nth:
  "k < length counts \<Longrightarrow>
    slots (new_edits counts) ! k = \<lparr>slot_palette_index = as_u16 k, slot_count = counts ! k\<rparr>"
  by (simp add: new_edits_def nth_enumerate_eq)

text \<open>A packed storage all of whose entries are used, with the counts of its cells, is well formed.\<close>

lemma new_edits_wf:
  fixes s :: paletted_storage
  assumes bits: "physical_bits s = bits_for_palette_len (length (palette s))" and pad: "has_zero_padding s"
    and dist: "distinct (palette s)" and short: "length (palette s) \<le> BLOCKS_PER_SUB_CHUNK"
    and idx: "\<And>l. l < BLOCKS_PER_SUB_CHUNK \<Longrightarrow> physical_index s l = Some (g l) \<and> g l < length (palette s)"
    and cnt: "length counts = length (palette s)"
      "\<And>k. k < length counts \<Longrightarrow> counts ! k = card (cells_in {} g k)"
    and used: "list_all (\<lambda>count. count \<noteq> 0) counts"
    and ed: "edits s = Some (new_edits counts)"
  shows "edited_wf s (new_edits counts)"
    and "\<And>l. l < BLOCKS_PER_SUB_CHUNK \<Longrightarrow> cell_value s l = Some (palette s ! g l)"
proof -
  let ?sl = "slots (new_edits counts)"
  have small: "k < length counts \<Longrightarrow> as_u16 k = k" for k
    using short cnt(1) by (simp add: bounds_simps)
  have live: "live_slot ?sl k \<longleftrightarrow> k < length counts" for k
    using used by (auto simp: live_slot_def new_edits_nth list_all_length)
  have "bij_betw (\<lambda>k. slot_palette_index (?sl ! k)) {k. live_slot ?sl k} {..<length (palette s)}"
    by (rule bij_betwI') (auto simp: live new_edits_nth small cnt(1))
  moreover have "cells_in {} (\<lambda>l. the (physical_index s l)) k = cells_in {} g k" for k
    using idx by (auto simp: cells_in_def)
  ultimately have inv: "slots_inv {} (\<lambda>l. the (physical_index s l)) ?sl (palette s)"
    using idx dist cnt by (simp add: slots_inv_def new_edits_nth)
  have "direct_slots ?sl" by (auto simp: direct_slots_iff new_edits_nth small)
  moreover have "length (palette s) \<le> 2 ^ physical_bits s"
    using bits_for_palette_len_fits [OF short] by (simp add: bits)
  ultimately show wf: "edited_wf s (new_edits counts)"
    using bits pad inv idx cnt(1) short by (simp add: edited_wf_def)
  show "cell_value s l = Some (palette s ! g l)" if "l < BLOCKS_PER_SUB_CHUNK" for l
    using edited_cell_value(3) [OF wf ed that] idx [OF that] cnt(1)
    by (simp add: slot_value_def new_edits_nth small)
qed

text \<open>Counting cells: the loop adds one for every cell at its index.\<close>

definition counted :: "usize \<Rightarrow> (usize \<Rightarrow> usize) \<Rightarrow> usize \<Rightarrow> nat list" where
  "counted n g len = map (\<lambda>k. card {l. l < n \<and> g l = k}) [0..<len]"

lemma counted_0: "counted 0 g len = replicate len 0"
  by (simp add: counted_def map_replicate_const)

lemma counted_Suc:
  assumes "g n < len"
  shows "counted (Suc n) g len = (counted n g len)[g n := counted n g len ! g n + 1]"
proof (rule nth_equalityI)
  fix k assume "k < length (counted (Suc n) g len)"
  then have k: "k < len" by (simp add: counted_def)
  have "{l. l < Suc n \<and> g l = k} = (if g n = k then insert n {l. l < n \<and> g l = k} else {l. l < n \<and> g l = k})"
    by (auto simp: less_Suc_eq)
  then show "counted (Suc n) g len ! k = (counted n g len)[g n := counted n g len ! g n + 1] ! k"
    using k assms by (auto simp: counted_def nth_list_update)
qed (simp add: counted_def)

lemma counted_cells:
  "length (counted BLOCKS_PER_SUB_CHUNK g len) = len"
  "k < len \<Longrightarrow> counted BLOCKS_PER_SUB_CHUNK g len ! k = card (cells_in {} g k)"
  by (simp_all add: counted_def cells_in_def)

lemma counted_nonzero:
  assumes "\<And>k. k < len \<Longrightarrow> \<exists>l<BLOCKS_PER_SUB_CHUNK. g l = k"
  shows "list_all (\<lambda>count. count \<noteq> 0) (counted BLOCKS_PER_SUB_CHUNK g len)"
proof -
  have "cells_in {} g k \<noteq> {}" if "k < len" for k using assms [OF that] by (auto simp: cells_in_def)
  then show ?thesis by (simp add: list_all_length counted_cells card_gt_0_iff)
qed

text \<open>The count of a packed storage's cells; the flag is false when a cell has no palette entry.\<close>

lemma count_cells_valid:
  assumes "count_cells s = (counts, True)"
  shows "\<exists>g. (\<forall>l<BLOCKS_PER_SUB_CHUNK. palette_index s l = Some (g l) \<and> g l < length (palette s)) \<and>
    counts = counted BLOCKS_PER_SUB_CHUNK g (length (palette s))"
proof -
  let ?n = "length (palette s)"
  define g where "g = (\<lambda>l. the (palette_index s l))"
  define step where "step = (\<lambda>linear (counts, valid). case palette_index s linear of
       Some index \<Rightarrow> if index < length counts then (counts[index := counts ! index + 1], valid) else (counts, False)
     | None \<Rightarrow> (counts :: nat list, False))"
  have main: "snd (fold step [0..<m] (replicate ?n 0, True)) \<longrightarrow>
      (\<forall>l<m. palette_index s l = Some (g l) \<and> g l < ?n) \<and>
      fst (fold step [0..<m] (replicate ?n 0, True)) = counted m g ?n" for m
  proof (induction m)
    case 0
    then show ?case by (simp add: counted_0)
  next
    case (Suc m)
    obtain c v where cv: "fold step [0..<m] (replicate ?n 0, True) = (c, v)" by fastforce
    have next_step: "fold step [0..<Suc m] (replicate ?n 0, True) = step m (c, v)" using cv by simp
    show ?case
    proof (intro impI)
      assume "snd (fold step [0..<Suc m] (replicate ?n 0, True))"
      then obtain i where i: "palette_index s m = Some i" "i < length c" v
        unfolding next_step by (auto simp: step_def split: option.splits if_splits)
      then have old: "\<forall>l<m. palette_index s l = Some (g l) \<and> g l < ?n" "c = counted m g ?n"
        using Suc.IH cv by auto
      have gm: "g m = i" using i by (simp add: g_def)
      then have "i < ?n" using i(2) old(2) by (simp add: counted_def)
      then show "(\<forall>l<Suc m. palette_index s l = Some (g l) \<and> g l < ?n) \<and>
          fst (fold step [0..<Suc m] (replicate ?n 0, True)) = counted (Suc m) g ?n"
        unfolding next_step using i old gm counted_Suc [of g m ?n]
        by (auto simp: step_def less_Suc_eq)
    qed
  qed
  have "count_cells s = fold step [0..<BLOCKS_PER_SUB_CHUNK] (replicate ?n 0, True)"
    by (simp add: count_cells_def step_def)
  then show ?thesis
    using main [of BLOCKS_PER_SUB_CHUNK] assms by (intro exI [of _ g]) (metis fst_conv snd_conv)
qed

text \<open>A storage that passes \<^verbatim>\<open>canonical_counts\<close> becomes a well-formed edited storage, reading the same.\<close>

lemma canonical_counts_adopt:
  assumes e: "edits s = None" and bits: "physical_bits s \<in> set SUPPORTED_BITS"
    and c: "canonical_counts s = Some counts"
  defines "s' \<equiv> s\<lparr>edits := Some (new_edits counts)\<rparr>"
  shows "edited_wf s' (new_edits counts)"
    and "\<And>l. l < BLOCKS_PER_SUB_CHUNK \<Longrightarrow> cell_value s' l = cell_value s l"
proof -
  have phys: "physical_index s' = physical_index s" by (auto simp: fun_eq_iff s'_def physical_index_def)
  have pad: "has_zero_padding s' = has_zero_padding s" by (simp add: has_zero_padding_def s'_def)
  have plain: "palette_index s l = physical_index s l" for l
    using e by (simp add: palette_index_def split: option.split)
  obtain g where g: "\<forall>l<BLOCKS_PER_SUB_CHUNK. palette_index s l = Some (g l) \<and> g l < length (palette s)"
    and cnt: "counts = counted BLOCKS_PER_SUB_CHUNK g (length (palette s))"
    and canon: "list_all (\<lambda>count. count \<noteq> 0) counts" "distinct (palette s)"
      "bits_for_palette_len (length (palette s)) = physical_bits s" "has_zero_padding s"
      "length (palette s) \<le> BLOCKS_PER_SUB_CHUNK"
  proof (cases "physical_bits s = 0")
    case True
    then have one: "length (palette s) = 1" "physical_words s = []" "counts = [as_u16 BLOCKS_PER_SUB_CHUNK]"
      using c by (auto simp: canonical_counts_def split: if_splits)
    have "counts = counted BLOCKS_PER_SUB_CHUNK (\<lambda>_. 0) 1" and "list_all (\<lambda>count. count \<noteq> 0) counts"
      using one by (simp_all add: counted_def bounds_simps)
    moreover have "physical_index s l = Some 0" if "l < BLOCKS_PER_SUB_CHUNK" for l
      using that True by (simp add: physical_index_def)
    moreover have "distinct (palette s)" using one(1) by (cases "palette s") auto
    ultimately show ?thesis
      using one True that [of "\<lambda>_. 0"]
      by (simp add: plain bits_for_palette_len_0_iff has_zero_padding_def word_count_values bounds_simps)
  next
    case False
    then obtain counts' where cc: "count_cells s = (counts', True)" "counts' = counts"
      and rest: "list_all (\<lambda>count. count \<noteq> 0) counts" "distinct (palette s)"
      "bits_for_palette_len (length (palette s)) = physical_bits s" "has_zero_padding s"
      "length (palette s) \<le> BLOCKS_PER_SUB_CHUNK"
      using c by (auto simp: canonical_counts_def Let_def split: prod.splits if_splits)
    show ?thesis using count_cells_valid [OF cc(1)] cc(2) rest that by blast
  qed
  note wf = new_edits_wf [of s' g counts]
  have same: "physical_bits s' = physical_bits s" "palette s' = palette s" "edits s' = Some (new_edits counts)"
    by (simp_all add: s'_def)
  have idx: "physical_index s' l = Some (g l) \<and> g l < length (palette s)" if "l < BLOCKS_PER_SUB_CHUNK" for l
    using g that by (simp add: phys plain)
  show "edited_wf s' (new_edits counts)"
    using wf(1) canon idx pad cnt by (simp add: counted_cells same)
  show "cell_value s' l = cell_value s l" if "l < BLOCKS_PER_SUB_CHUNK" for l
    using wf(2) canon idx pad cnt g that
    by (simp add: counted_cells same) (simp add: cell_value_def palette_get_def plain)
qed

subsection \<open>Batches\<close>

lemma storage_cell_total:
  assumes "storage_wf s" "l < BLOCKS_PER_SUB_CHUNK"
  shows "\<exists>v. cell_value s l = Some v \<and> v \<in> set (palette s)"
proof (cases "edits s")
  case None
  then obtain i where "physical_index s l = Some i" "i < length (palette s)"
    using assms by (auto simp: storage_wf_def decoded_wf_def)
  then show ?thesis using None by (auto simp: cell_value_def palette_index_def palette_get_def)
next
  case (Some e)
  then have wf: "edited_wf s e" using assms(1) by (simp add: storage_wf_def)
  show ?thesis using edited_cell_value(2,3) [OF wf Some assms(2)] by (auto simp: slot_value_def)
qed

definition new_value :: "paletted_storage \<Rightarrow> (usize \<rightharpoonup> u32) \<Rightarrow> usize \<Rightarrow> u32" where
  "new_value s final l = (case final l of Some v \<Rightarrow> v | None \<Rightarrow> the (cell_value s l))"

lemma updated_value_total:
  assumes "storage_wf s" "l < BLOCKS_PER_SUB_CHUNK"
  shows "updated_value s final l = Some (new_value s final l)"
  using storage_cell_total [OF assms] by (auto simp: updated_value_def new_value_def split: option.split)

text \<open>The first pass never panics: it finds whether a cell changes and which values remain.\<close>

lemma scan_updates_total:
  assumes wf: "storage_wf s"
  shows "scan_updates s final = Some
    (\<exists>l<BLOCKS_PER_SUB_CHUNK. cell_value s l \<noteq> Some (new_value s final l),
     new_value s final ` {..<BLOCKS_PER_SUB_CHUNK})"
proof -
  let ?P = "\<lambda>n (r :: bool \<times> u32 set). r = (\<exists>l<n. cell_value s l \<noteq> Some (new_value s final l),
      new_value s final ` {..<n})"
  have "\<exists>r. scan_updates s final = Some r \<and> ?P BLOCKS_PER_SUB_CHUNK r"
    unfolding scan_updates_def
  proof (rule try_fold_upt [where P = ?P])
    fix l r assume l: "l < BLOCKS_PER_SUB_CHUNK" and P: "?P l r"
    obtain v where v: "cell_value s l = Some v" using storage_cell_total [OF wf l] by blast
    show "\<exists>r'. (case r of (changed, used) \<Rightarrow> do {
         current \<leftarrow> cell_value s l;
         value \<leftarrow> updated_value s final l;
         Some (changed \<or> value \<noteq> current, insert value used) }) = Some r' \<and> ?P (Suc l) r'"
      using P v by (auto simp: updated_value_total [OF wf l] lessThan_Suc less_Suc_eq)
  qed simp
  then show ?thesis by simp
qed

lemma final_updates_Some:
  "final_updates us l = Some v \<Longrightarrow> (l, v) \<in> set us"
proof -
  have "fold (\<lambda>(l, r) m. m(l \<mapsto> r)) us m l = Some v \<Longrightarrow> (l, v) \<in> set us \<or> m l = Some v" for m
  proof (induction us arbitrary: m)
    case (Cons u us)
    obtain k r where u: "u = (k, r)" by fastforce
    then show ?case using Cons.IH [of "m(k \<mapsto> r)"] Cons.prems by (auto split: if_splits)
  qed simp
  then show "final_updates us l = Some v \<Longrightarrow> (l, v) \<in> set us" by (force simp: final_updates_def)
qed

text \<open>The map of indices always is the map of the values pushed so far.\<close>

definition indexes :: "indexed_values \<Rightarrow> bool" where
  "indexes vs \<longleftrightarrow> distinct (fst vs) \<and> (\<forall>v i. snd vs v = Some i \<longleftrightarrow> i < length (fst vs) \<and> fst vs ! i = v)"

lemma indexes_dom: "indexes vs \<Longrightarrow> snd vs v \<noteq> None \<longleftrightarrow> v \<in> set (fst vs)"
  unfolding indexes_def in_set_conv_nth by auto

lemma indexes_push:
  assumes "indexes vs" shows "indexes (push_value v vs)"
proof (cases "snd vs v")
  case None
  obtain xs m where vs: "vs = (xs, m)" by fastforce
  have v: "v \<notin> set xs" using indexes_dom [OF assms, of v] None vs by simp
  have "(m(v \<mapsto> length xs)) u = Some i \<longleftrightarrow> i < Suc (length xs) \<and> (xs @ [v]) ! i = u" for u i
  proof (cases "i < length xs")
    case True
    then have "xs ! i \<noteq> v" using v by auto
    then show ?thesis using assms True vs None by (auto simp: indexes_def nth_append)
  next
    case False
    then show ?thesis using assms vs by (auto simp: indexes_def nth_append less_Suc_eq)
  qed
  then show ?thesis
    using assms None v vs by (simp add: indexes_def push_value_def)
qed (use assms in \<open>auto simp: push_value_def split: prod.split\<close>)

lemma fst_push_value:
  "indexes vs \<Longrightarrow> fst (push_value v vs) = (if v \<in> set (fst vs) then fst vs else fst vs @ [v])"
  using indexes_dom [of vs v] by (auto simp: push_value_def split: prod.splits)

lemma fold_push_survivors:
  assumes "indexes vs" "distinct old" "set old \<inter> set (fst vs) = {}"
  shows "indexes (fold (\<lambda>v vs. if v \<in> used then push_value v vs else vs) old vs) \<and>
    fst (fold (\<lambda>v vs. if v \<in> used then push_value v vs else vs) old vs) = fst vs @ filter (\<lambda>v. v \<in> used) old"
  using assms
proof (induction old arbitrary: vs)
  case (Cons v old)
  have "indexes (push_value v vs)" by (rule indexes_push [OF Cons.prems(1)])
  moreover have "fst (push_value v vs) = fst vs @ [v]"
    using Cons.prems by (simp add: fst_push_value)
  ultimately show ?case using Cons.prems Cons.IH [of "push_value v vs"] Cons.IH [of vs] by auto
qed simp

lemma fold_push_set:
  assumes "indexes vs"
  shows "indexes (fold (\<lambda>x vs. if P x then push_value (f x) vs else vs) xs vs) \<and>
    set (fst (fold (\<lambda>x vs. if P x then push_value (f x) vs else vs) xs vs)) =
      set (fst vs) \<union> f ` {x \<in> set xs. P x}"
  using assms
  by (induction xs arbitrary: vs) (auto simp: indexes_push fst_push_value)

lemma batch_values_correct:
  "indexes (batch_values old used us final)"
  "set (fst (batch_values old used us final)) =
     (set old \<inter> used) \<union> {v. \<exists>l. (l, v) \<in> set us \<and> final l = Some v}"
proof -
  define start where "start = fold (\<lambda>v vs. if v \<in> used then push_value v vs else vs) old ([], Map.empty)"
  have "indexes ([], Map.empty)" by (simp add: indexes_def)
  from fold_push_set [OF this, of "\<lambda>v. v \<in> used" "\<lambda>v. v" old]
  have start: "indexes start" "set (fst start) = set old \<inter> used" by (auto simp: start_def)
  have eq: "batch_values old used us final =
      fold (\<lambda>x vs. if final (fst x) = Some (snd x) then push_value (snd x) vs else vs) us start"
    by (simp add: batch_values_def start_def case_prod_unfold)
  note run = fold_push_set [OF start(1), of "\<lambda>x. final (fst x) = Some (snd x)" snd us, folded eq]
  show "indexes (batch_values old used us final)" using run by simp
  show "set (fst (batch_values old used us final)) =
     (set old \<inter> used) \<union> {v. \<exists>l. (l, v) \<in> set us \<and> final l = Some v}"
  proof -
    have "snd ` {x \<in> set us. final (fst x) = Some (snd x)} = {v. \<exists>l. (l, v) \<in> set us \<and> final l = Some v}"
    proof (intro set_eqI iffI)
      fix v assume "v \<in> {v. \<exists>l. (l, v) \<in> set us \<and> final l = Some v}"
      then obtain l where "(l, v) \<in> set us" "final l = Some v" by blast
      then show "v \<in> snd ` {x \<in> set us. final (fst x) = Some (snd x)}" by (intro image_eqI [of v snd "(l, v)"]) simp_all
    qed auto
    then show ?thesis using run start(2) by simp
  qed
qed

text \<open>The packing loop of a batch: the words and the counts of the same indices.\<close>

lemma batch_pack:
  assumes bits: "b \<in> set SUPPORTED_BITS" and n: "n \<le> 2 ^ b"
    and g: "\<And>l. l < BLOCKS_PER_SUB_CHUNK \<Longrightarrow> val l = Some (v l) \<and> idx (v l) = Some (g l) \<and> g l < n"
  shows "\<exists>ws. try_fold (\<lambda>linear (words, counts). do {
              value \<leftarrow> val linear;
              index \<leftarrow> idx value;
              counts' \<leftarrow> (if index < length counts
                          then Some (counts[index := counts ! index + 1]) else None);
              words' \<leftarrow> write_palette_index words b linear index;
              Some (words', counts') })
            [0..<BLOCKS_PER_SUB_CHUNK] (replicate (word_count b) 0, replicate n 0)
        = Some (ws, counted BLOCKS_PER_SUB_CHUNK g n) \<and> shows_indices b (\<lambda>l. Some (g l)) ws"
    (is "\<exists>ws. try_fold ?step _ ?start = _ \<and> _")
proof -
  let ?ws0 = "replicate (word_count b) (0 :: u32)"
  obtain ws where pack: "try_fold (\<lambda>l ws. Some (g l) \<bind> write_palette_index ws b l) [0..<BLOCKS_PER_SUB_CHUNK] ?ws0 = Some ws"
    and shown: "shows_indices b (\<lambda>l. Some (g l)) ws"
  proof (cases "b = 0")
    case True
    then have "g l = 0" if "l < BLOCKS_PER_SUB_CHUNK" for l using g [OF that] n by simp
    moreover have "try_fold (\<lambda>l ws. Some (g l) \<bind> write_palette_index ws b l) xs ?ws0 = Some ?ws0" for xs
      using True by (induction xs) (auto simp: write_palette_index_def)
    ultimately show ?thesis using that True by (auto simp: shows_indices_def word_count_values)
  next
    case False
    then have pb: "b \<in> set PACKED_BITS" using bits by (simp add: supported_bits_iff)
    have fits: "Some (g l) = Some (g l) \<and> g l < 2 ^ b" if "l < BLOCKS_PER_SUB_CHUNK" for l
      using g [OF that] n by simp
    obtain ws where "pack_cells b (\<lambda>l. Some (g l)) ?ws0 = Some ws" "length ws = word_count b"
      "zero_padded ws b" and rd: "\<And>l. l < BLOCKS_PER_SUB_CHUNK \<Longrightarrow> read_packed ws b l = Some (g l)"
      by (rule pack_cells_fresh [OF pb, of "\<lambda>l. Some (g l)" g]) (use fits in auto)
    then show ?thesis using that False by (simp add: pack_cells_def shows_indices_def)
  qed
  have loop: "m \<le> BLOCKS_PER_SUB_CHUNK \<Longrightarrow> try_fold ?step [0..<m] ?start =
      map_option (\<lambda>ws. (ws, counted m g n))
        (try_fold (\<lambda>l ws. Some (g l) \<bind> write_palette_index ws b l) [0..<m] ?ws0)" for m
  proof (induction m)
    case 0
    then show ?case by (simp add: counted_0)
  next
    case (Suc m)
    then have gm: "val m = Some (v m)" "idx (v m) = Some (g m)" "g m < n" using g [of m] by auto
    show ?case
      using Suc gm by (simp add: try_fold_append counted_Suc [of g m n])
        (auto simp: counted_def split: option.split)
  qed
  show ?thesis using loop [of BLOCKS_PER_SUB_CHUNK] pack shown by auto
qed

text \<open>The values of a batch are exactly the values some cell has afterwards.\<close>

lemma batch_values_used:
  assumes wf: "storage_wf s" and range: "\<forall>(l, v) \<in> set us. l < BLOCKS_PER_SUB_CHUNK"
  defines "used \<equiv> new_value s (final_updates us) ` {..<BLOCKS_PER_SUB_CHUNK}"
  shows "set (fst (batch_values (palette s) used us (final_updates us))) = used"
proof -
  let ?final = "final_updates us"
  have "v \<in> used" if "(l, v) \<in> set us" "?final l = Some v" for l v
    using range that by (auto simp: used_def new_value_def intro!: image_eqI [of _ _ l])
  moreover have "v \<in> set (palette s) \<union> {v. \<exists>l. (l, v) \<in> set us \<and> ?final l = Some v}" if v: "v \<in> used" for v
  proof -
    obtain l where l: "l < BLOCKS_PER_SUB_CHUNK" "v = new_value s ?final l" using v by (auto simp: used_def)
    show ?thesis
    proof (cases "?final l")
      case None
      then show ?thesis using storage_cell_total [OF wf l(1)] l(2) by (auto simp: new_value_def)
    next
      case (Some u)
      then show ?thesis using final_updates_Some [OF Some] l(2) by (auto simp: new_value_def)
    qed
  qed
  ultimately show ?thesis unfolding batch_values_correct(2) by blast
qed

text \<open>The index of every cell in the values of a batch; every value has a cell.\<close>

lemma batch_indices:
  assumes indexes: "indexes (vals, idx)" and same: "set vals = val ` {..<BLOCKS_PER_SUB_CHUNK}"
  obtains g where "\<And>l. l < BLOCKS_PER_SUB_CHUNK \<Longrightarrow>
      idx (val l) = Some (g l) \<and> g l < length vals \<and> vals ! g l = val l"
    and "\<And>k. k < length vals \<Longrightarrow> \<exists>l<BLOCKS_PER_SUB_CHUNK. g l = k"
    and "distinct vals" and "length vals \<le> BLOCKS_PER_SUB_CHUNK"
proof
  define g where "g = (\<lambda>l. the (idx (val l)))"
  show g: "idx (val l) = Some (g l) \<and> g l < length vals \<and> vals ! g l = val l"
    if "l < BLOCKS_PER_SUB_CHUNK" for l
  proof -
    have "val l \<in> set vals" using same that by auto
    then have "idx (val l) = Some (g l)"
      using indexes_dom [OF indexes, of "val l"] by (auto simp: g_def)
    then show ?thesis using indexes by (auto simp: indexes_def)
  qed
  show dist: "distinct vals" using indexes by (simp add: indexes_def)
  show hit: "\<exists>l<BLOCKS_PER_SUB_CHUNK. g l = k" if k: "k < length vals" for k
  proof -
    obtain l where l: "l < BLOCKS_PER_SUB_CHUNK" "vals ! k = val l"
      using k same nth_mem [OF k] by auto
    then have "g l = k" using g [OF l(1)] nth_eq_iff_index_eq [OF dist, of "g l" k] k by simp
    then show ?thesis using l by blast
  qed
  have "{..<length vals} \<subseteq> g ` {..<BLOCKS_PER_SUB_CHUNK}" using hit by force
  then show "length vals \<le> BLOCKS_PER_SUB_CHUNK"
    using surj_card_le [of "{..<BLOCKS_PER_SUB_CHUNK}" "{..<length vals}" g] by simp
qed

text \<open>
  The batch: it never panics on a well-formed storage, and its result is an edited storage whose
  cells hold the last value an update gave them.
\<close>

lemma apply_runtime_updates_changed:
  assumes wf: "storage_wf s" and range: "\<forall>(l, v) \<in> set us. l < BLOCKS_PER_SUB_CHUNK"
    and changes: "\<exists>l<BLOCKS_PER_SUB_CHUNK. cell_value s l \<noteq> Some (new_value s (final_updates us) l)"
  shows "\<exists>s' e'. apply_runtime_updates s us = Some (True, s') \<and> edits s' = Some e' \<and> edited_wf s' e' \<and>
      (\<forall>l<BLOCKS_PER_SUB_CHUNK. cell_value s' l = Some (new_value s (final_updates us) l)) \<and>
      palette s' = fst (batch_values (palette s)
        (new_value s (final_updates us) ` {..<BLOCKS_PER_SUB_CHUNK}) us (final_updates us))"
proof -
  define final where "final = final_updates us"
  let ?used = "new_value s final ` {..<BLOCKS_PER_SUB_CHUNK}"
  obtain vals idx where vi: "batch_values (palette s) ?used us final = (vals, idx)" by fastforce
  have indexes: "indexes (vals, idx)" using batch_values_correct(1) [of "palette s" ?used us final] vi by simp
  have "set vals = ?used" using batch_values_used [OF wf range] vi by (simp add: final_def)
  then obtain g where g: "\<And>l. l < BLOCKS_PER_SUB_CHUNK \<Longrightarrow>
      idx (new_value s final l) = Some (g l) \<and> g l < length vals \<and> vals ! g l = new_value s final l"
    and hit: "\<And>k. k < length vals \<Longrightarrow> \<exists>l<BLOCKS_PER_SUB_CHUNK. g l = k"
    and dist: "distinct vals" and short: "length vals \<le> BLOCKS_PER_SUB_CHUNK"
    using batch_indices [OF indexes] by blast
  let ?b = "bits_for_palette_len (length vals)" and ?c = "counted BLOCKS_PER_SUB_CHUNK g (length vals)"
  note pack = batch_pack [of ?b "length vals" "updated_value s final" "new_value s final" idx g]
  obtain ws where ws: "try_fold (\<lambda>linear (words, counts). do {
              value \<leftarrow> updated_value s final linear;
              index \<leftarrow> idx value;
              counts' \<leftarrow> (if index < length counts
                          then Some (counts[index := counts ! index + 1]) else None);
              words' \<leftarrow> write_palette_index words ?b linear index;
              Some (words', counts') })
            [0..<BLOCKS_PER_SUB_CHUNK] (replicate (word_count ?b) 0, replicate (length vals) 0)
        = Some (ws, ?c)" and shown: "shows_indices ?b (\<lambda>l. Some (g l)) ws"
    using pack bits_for_palette_len_fits [OF short] g updated_value_total [OF wf] by auto
  have nonzero: "list_all (\<lambda>count. count \<noteq> 0) ?c" by (rule counted_nonzero [OF hit])
  define s' where "s' = \<lparr>physical_bits = ?b, physical_words = ws, palette = vals, edits = Some (new_edits ?c)\<rparr>"
  have run: "apply_runtime_updates s us = Some (True, s')"
    using ws nonzero changes scan_updates_total [OF wf, of final]
    by (simp add: apply_runtime_updates_def Let_def final_def [symmetric] vi s'_def)
  have phys: "physical_index s' l = Some (g l) \<and> g l < length (palette s')" if "l < BLOCKS_PER_SUB_CHUNK" for l
    using shown g [OF that] that by (auto simp: s'_def physical_index_def shows_indices_def)
  have "has_zero_padding s'" using shown by (simp add: s'_def has_zero_padding_def shows_indices_def)
  note good = new_edits_wf [of s' g ?c, OF _ this _ _ phys]
  have "edited_wf s' (new_edits ?c)"
    by (rule good(1)) (use dist short nonzero in \<open>simp_all add: s'_def counted_cells\<close>)
  moreover have "cell_value s' l = Some (palette s' ! g l)" if l: "l < BLOCKS_PER_SUB_CHUNK" for l
    by (rule good(2)) (use dist short nonzero l in \<open>simp_all add: s'_def counted_cells\<close>)
  ultimately show ?thesis
    unfolding final_def [symmetric] vi using run g by (auto simp: s'_def)
qed

lemma apply_runtime_updates_unchanged:
  assumes "storage_wf s" "\<forall>l<BLOCKS_PER_SUB_CHUNK. cell_value s l = Some (new_value s (final_updates us) l)"
  shows "apply_runtime_updates s us = Some (False, s)"
  using scan_updates_total [OF assms(1), of "final_updates us"] assms(2)
  by (auto simp: apply_runtime_updates_def Let_def)

subsection \<open>The single-cell edit agrees with the batch\<close>

lemma decoded_bits: "storage_wf s \<Longrightarrow> physical_bits s \<in> set SUPPORTED_BITS"
  by (auto simp: storage_wf_def decoded_wf_def edited_wf_def split: option.splits)

lemma cell_value_Some_iff:
  assumes "storage_wf s" "l < BLOCKS_PER_SUB_CHUNK"
  shows "\<exists>i. palette_index s l = Some i \<and> i < length (palette s) \<and> cell_value s l = Some (palette s ! i)"
  using storage_cell_total [OF assms]
  by (auto simp: cell_value_def palette_get_def split: Option.bind_splits if_splits)

text \<open>
  A real edit of a storage the code admits to stable slots, whichever way it was admitted.
\<close>

lemma apply_runtime_update_patch:
  assumes wf: "storage_wf s" and l: "l < BLOCKS_PER_SUB_CHUNK" and differs: "cell_value s l \<noteq> Some rid"
  shows "apply_runtime_update s l rid = apply_runtime_updates s [(l, rid)] \<or>
    (\<exists>s' e'. apply_runtime_update s l rid = Some (True, s') \<and> edits s' = Some e' \<and> edited_wf s' e' \<and>
      (\<forall>l'<BLOCKS_PER_SUB_CHUNK. cell_value s' l' = (if l' = l then Some rid else cell_value s l')) \<and>
      distinct (palette s) \<and> palette s' = survivors (palette s) (set (palette s')) rid)"
proof -
  obtain i where i: "palette_index s l = Some i" "i < length (palette s)" "palette s ! i \<noteq> rid"
    using cell_value_Some_iff [OF wf l] differs by auto
  show ?thesis
  proof (cases "edits s")
    case (Some e)
    then have "edited_wf s e" using wf by (simp add: storage_wf_def)
    moreover from this have "distinct (palette s)" by (simp add: edited_wf_def slots_inv_def)
    ultimately show ?thesis
      using patch_edit_correct [OF _ Some l differs] i Some by (auto simp: apply_runtime_update_def)
  next
    case None
    show ?thesis
    proof (cases "canonical_counts s")
      case None
      then show ?thesis using i \<open>edits s = None\<close> by (simp add: apply_runtime_update_def)
    next
      case (Some counts)
      let ?s = "s\<lparr>edits := Some (new_edits counts)\<rparr>"
      note adopt = canonical_counts_adopt [OF None decoded_bits [OF wf] Some]
      have "cell_value ?s l \<noteq> Some rid" using adopt(2) [OF l] differs by simp
      moreover have "distinct (palette s)" using adopt(1) by (simp add: edited_wf_def slots_inv_def)
      ultimately show ?thesis
        using patch_edit_correct [OF adopt(1) _ l, of rid] adopt(2) i None Some by (auto simp: apply_runtime_update_def)
    qed
  qed
qed

lemma edited_palette_used:
  assumes wf: "edited_wf s e" and e: "edits s = Some e"
  shows "set (palette s) = {v. \<exists>l<BLOCKS_PER_SUB_CHUNK. cell_value s l = Some v}"
proof -
  have inv: "slots_inv {} (\<lambda>l. the (physical_index s l)) (slots e) (palette s)"
    using wf by (simp add: edited_wf_def)
  have "\<exists>l<BLOCKS_PER_SUB_CHUNK. cell_value s l = Some v" if v: "v \<in> set (palette s)" for v
  proof -
    obtain i where i: "i < length (palette s)" "palette s ! i = v" using v by (auto simp: in_set_conv_nth)
    obtain k where k: "live_slot (slots e) k" "slot_palette_index (slots e ! k) = i"
      using slots_inv_palette_slot [OF inv i(1)] by blast
    obtain l where "l < BLOCKS_PER_SUB_CHUNK" "the (physical_index s l) = k"
      using slots_inv_live_cell [OF inv k(1)] by metis
    then show ?thesis using edited_cell_value(3) [OF wf e, of l] k(2) i(2) by (auto simp: slot_value_def)
  qed
  then show ?thesis using edited_cell_value(2,3) [OF wf e] by (auto simp: slot_value_def)
qed

text \<open>Two edited storages with the same palette and the same cells are the same exact representation.\<close>

lemma edited_storage_eq:
  assumes a: "edited_wf s e" "edits s = Some e" and b: "edited_wf t f" "edits t = Some f"
    and pal: "palette s = palette t" and cells: "\<And>l. l < BLOCKS_PER_SUB_CHUNK \<Longrightarrow> cell_value s l = cell_value t l"
  shows "storage_eq s t"
proof -
  have bits: "bits_per_index s = bits_per_index t" using a b pal by (simp add: bits_per_index_def)
  have dist: "distinct (palette t)" using b by (simp add: edited_wf_def slots_inv_def)
  have "palette_index s l = palette_index t l" if l: "l < BLOCKS_PER_SUB_CHUNK" for l
    using cell_value_Some_iff [of s l] cell_value_Some_iff [of t l] cells [OF l] l a b pal dist
    by (auto simp: storage_wf_def nth_eq_iff_index_eq)
  then show ?thesis
    using observed_words_shows [OF a] observed_words_shows [OF b] bits pal
      shows_indices_unique [of "bits_per_index s" "palette_index s" _ "palette_index t"]
      a(2) by (auto simp: storage_eq_def bits_per_index_def)
qed

lemma batch_single_palette:
  assumes "distinct old" "rid \<in> used"
  shows "fst (batch_values old used [(l, rid)] (final_updates [(l, rid)])) = survivors old used rid"
proof -
  define start where "start = fold (\<lambda>v vs. if v \<in> used then push_value v vs else vs) old ([], Map.empty)"
  have "indexes ([], Map.empty)" by (simp add: indexes_def)
  from fold_push_survivors [OF this assms(1)] have start: "indexes start" "fst start = filter (\<lambda>v. v \<in> used) old"
    by (auto simp: start_def)
  have "batch_values old used [(l, rid)] (final_updates [(l, rid)]) = push_value rid start"
    by (simp add: batch_values_def start_def final_updates_def)
  then show ?thesis using fst_push_value [OF start(1), of rid] start(2) assms by (simp add: survivors_def)
qed

lemma storage_eq_refl: "storage_eq s s"
  by (simp add: storage_eq_def)

lemma apply_runtime_update_no_change:
  assumes "storage_wf s" "l < BLOCKS_PER_SUB_CHUNK" "cell_value s l = Some rid"
  shows "apply_runtime_update s l rid = Some (False, s)"
  using cell_value_Some_iff [OF assms(1,2)] assms(3) by (auto simp: apply_runtime_update_def)

lemma apply_runtime_update_eq_batch:
  assumes wf: "storage_wf s" and l: "l < BLOCKS_PER_SUB_CHUNK"
  shows "\<exists>s1 s2. apply_runtime_update s l rid = Some (cell_value s l \<noteq> Some rid, s1) \<and>
    apply_runtime_updates s [(l, rid)] = Some (cell_value s l \<noteq> Some rid, s2) \<and>
    storage_wf s1 \<and> storage_wf s2 \<and> storage_eq s1 s2 \<and>
    (\<forall>l'<BLOCKS_PER_SUB_CHUNK. cell_value s1 l' = (if l' = l then Some rid else cell_value s l'))"
proof (cases "cell_value s l = Some rid")
  case True
  have "cell_value s l' = Some (new_value s (final_updates [(l, rid)]) l')" if "l' < BLOCKS_PER_SUB_CHUNK" for l'
    using storage_cell_total [OF wf that] True by (auto simp: new_value_def final_updates_def)
  then have "apply_runtime_updates s [(l, rid)] = Some (False, s)"
    by (intro apply_runtime_updates_unchanged [OF wf]) auto
  then show ?thesis
    using apply_runtime_update_no_change [OF wf l True] True wf by (auto simp: storage_eq_refl)
next
  case False
  let ?final = "final_updates [(l, rid)]" and ?cell = "\<lambda>l'. if l' = l then Some rid else cell_value s l'"
  have new: "Some (new_value s ?final l') = ?cell l'" if "l' < BLOCKS_PER_SUB_CHUNK" for l'
    using storage_cell_total [OF wf that] by (auto simp: new_value_def final_updates_def)
  have "\<exists>l'<BLOCKS_PER_SUB_CHUNK. cell_value s l' \<noteq> Some (new_value s ?final l')"
    using new [OF l] False l by auto
  then obtain s2 e2 where s2: "apply_runtime_updates s [(l, rid)] = Some (True, s2)" "edits s2 = Some e2"
      "edited_wf s2 e2" "\<forall>l'<BLOCKS_PER_SUB_CHUNK. cell_value s2 l' = Some (new_value s ?final l')"
    and p2: "palette s2 = fst (batch_values (palette s) (new_value s ?final ` {..<BLOCKS_PER_SUB_CHUNK})
        [(l, rid)] ?final)"
    using apply_runtime_updates_changed [OF wf, of "[(l, rid)]"] l by auto
  have c2: "cell_value s2 l' = ?cell l'" if "l' < BLOCKS_PER_SUB_CHUNK" for l'
    using s2(4) new [OF that] that by simp
  have wf2: "storage_wf s2" using s2 by (simp add: storage_wf_def)
  from apply_runtime_update_patch [OF wf l False] show ?thesis
  proof
    assume "apply_runtime_update s l rid = apply_runtime_updates s [(l, rid)]"
    then show ?thesis using s2(1) wf2 c2 False by (auto simp: storage_eq_refl)
  next
    assume "\<exists>s1 e1. apply_runtime_update s l rid = Some (True, s1) \<and> edits s1 = Some e1 \<and> edited_wf s1 e1 \<and>
      (\<forall>l'<BLOCKS_PER_SUB_CHUNK. cell_value s1 l' = ?cell l') \<and>
      distinct (palette s) \<and> palette s1 = survivors (palette s) (set (palette s1)) rid"
    then obtain s1 e1 where s1: "apply_runtime_update s l rid = Some (True, s1)" "edits s1 = Some e1"
      "edited_wf s1 e1" "\<forall>l'<BLOCKS_PER_SUB_CHUNK. cell_value s1 l' = ?cell l'"
      and dist: "distinct (palette s)" and p1: "palette s1 = survivors (palette s) (set (palette s1)) rid"
      by blast
    have used: "set (palette s1) = new_value s ?final ` {..<BLOCKS_PER_SUB_CHUNK}"
    proof -
      have "cell_value s1 l' = Some (new_value s ?final l')" if "l' < BLOCKS_PER_SUB_CHUNK" for l'
        using s1(4) new [OF that] that by simp
      then show ?thesis unfolding edited_palette_used [OF s1(3,2)] by auto
    qed
    moreover have "rid \<in> new_value s ?final ` {..<BLOCKS_PER_SUB_CHUNK}"
      using new [OF l] l by (auto intro!: image_eqI [of _ _ l])
    ultimately have "palette s2 = palette s1"
      using batch_single_palette [OF dist, of rid _ l] p1 p2 by simp
    then have "storage_eq s1 s2" using edited_storage_eq [OF s1(3,2) s2(3,2)] s1(4) c2 by simp
    then show ?thesis using s1 s2(1) wf2 False by (auto simp: storage_wf_def)
  qed
qed

end
