(* ===== verification/Palette_Reads.thy ===== *)
theory Palette_Reads
  imports Palette_Edit
begin

section \<open>Reads of paletted storages\<close>

text \<open>
  Column reads, whole-storage unpacking, uniformity tests, heap accounting and the index repair of
  decoded storages, each against the one-cell read.
\<close>

subsection \<open>Reading whole columns and storages\<close>

text \<open>Cell order: \<open>x\<close> major, then \<open>z\<close>, then \<open>y\<close>.\<close>

lemma or_disjoint_add:
  fixes a b :: nat
  assumes "b < 2 ^ n" shows "push_bit n a OR b = a * 2 ^ n + b"
proof -
  have b: "take_bit n b = b" using assms by (simp add: take_bit_nat_eq_self)
  have "push_bit n a AND take_bit n b = 0"
    by (rule bit_eqI) (auto simp: bit_simps)
  then show ?thesis unfolding b by (simp add: disjunctive_add_eq_or [symmetric] push_bit_eq_mult)
qed

lemma linear_index_eq:
  assumes "y < 16" "z < 16"
  shows "linear_index x y z = 256 * x + 16 * z + y"
proof -
  have "linear_index x y z = push_bit 8 x OR (push_bit 4 z OR y)"
    by (simp add: linear_index_def or.assoc)
  also have "push_bit 4 z OR y = z * 2 ^ 4 + y" using assms by (intro or_disjoint_add) simp
  also have "push_bit 8 x OR (z * 2 ^ 4 + y) = x * 2 ^ 8 + (z * 2 ^ 4 + y)"
    using assms by (intro or_disjoint_add) simp
  finally show ?thesis by simp
qed

lemma linear_index_bound:
  "x < 16 \<Longrightarrow> y < 16 \<Longrightarrow> z < 16 \<Longrightarrow> linear_index x y z < BLOCKS_PER_SUB_CHUNK"
  by (simp add: linear_index_eq bounds_simps)

lemma column_first:
  assumes "z < 16" shows "push_bit 8 x OR push_bit 4 z = 256 * x + 16 * (z :: nat)"
  using linear_index_eq [of 0 z x] assms by (simp add: linear_index_def)

text \<open>The column cursor visits consecutive cells, crossing to the next word at the right slot.\<close>

lemma column_cursor_reads:
  assumes "b \<in> set PACKED_BITS"
  shows "slot < 32 div b \<Longrightarrow> column_cursor ws b word slot n =
    map (\<lambda>i. case read_packed ws b (word * (32 div b) + slot + i) of None \<Rightarrow> 65535 | Some v \<Rightarrow> as_u16 v) [0..<n]"
proof (induction n arbitrary: word slot)
  case (Suc n)
  let ?p = "32 div b"
  let ?read = "\<lambda>l. case read_packed ws b l of None \<Rightarrow> 65535 | Some v \<Rightarrow> as_u16 v"
  have p: "0 < ?p" using assms by (auto simp: PACKED_BITS_def)
  have head: "?read (word * ?p + slot) = (if word < length ws
      then as_u16 (unat (drop_bit (slot * b) (ws ! word) AND index_mask b)) else 65535)"
    using Suc.prems by (simp add: read_packed_def Let_def)
  have tail: "map (\<lambda>i. ?read (word * ?p + slot + i)) [0..<Suc n] =
      ?read (word * ?p + slot) # map (\<lambda>i. ?read (word * ?p + Suc slot + i)) [0..<n]"
    by (simp add: map_upt_Suc del: upt_Suc)
  show ?case
  proof (cases "Suc slot = ?p")
    case True
    then have "word * ?p + Suc slot = Suc word * ?p + 0" by simp
    then show ?thesis
      using Suc.IH [of 0 "Suc word"] p True head unfolding tail by (simp add: add.commute)
  next
    case False
    then show ?thesis using Suc.IH [of "Suc slot" word] Suc.prems head unfolding tail by simp
  qed
qed simp

lemma column_palette_indices_correct:
  assumes wf: "storage_wf s" and x: "x < 16" and z: "z < 16"
  shows "column_palette_indices s x z = Some (map (\<lambda>y. as_u16 (the (palette_index s (linear_index x y z)))) [0..<16])"
proof -
  let ?first = "256 * x + 16 * z"
  have idx: "\<exists>i. palette_index s (?first + y) = Some i" if "y < 16" for y
    using cell_value_Some_iff [OF wf, of "?first + y"] x z that by (auto simp: bounds_simps)
  have lin: "linear_index x y z = ?first + y" if "y < 16" for y
    using linear_index_eq [OF that z] by simp
  have goal: "map (\<lambda>y. case palette_index s (?first + y) of None \<Rightarrow> 65535 | Some i \<Rightarrow> as_u16 i) [0..<16]
      = map (\<lambda>y. as_u16 (the (palette_index s (linear_index x y z)))) [0..<16]"
  proof (intro map_cong refl)
    fix y assume "y \<in> set [0..<16 :: nat]"
    then have "y < 16" by simp
    then show "(case palette_index s (?first + y) of None \<Rightarrow> 65535 | Some i \<Rightarrow> as_u16 i) =
        as_u16 (the (palette_index s (linear_index x y z)))" using idx [of y] lin [of y] by auto
  qed
  have side: "x < SUB_CHUNK_SIDE \<and> z < SUB_CHUNK_SIDE" "SUB_CHUNK_SIDE = 16"
    using x z by (simp_all add: SUB_CHUNK_SIDE_def)
  show ?thesis
  proof (cases "edits s = None \<and> physical_bits s \<noteq> 0")
    case True
    then have b: "physical_bits s \<in> set PACKED_BITS"
      using decoded_bits [OF wf] by (simp add: supported_bits_iff)
    let ?p = "32 div physical_bits s"
    have p: "0 < ?p" using b by (auto simp: PACKED_BITS_def)
    have pi: "palette_index s (?first + y) = read_packed (physical_words s) (physical_bits s) (?first + y)"
      if "y < 16" for y
      using True that x z by (simp add: palette_index_def physical_index_def bounds_simps split: option.split)
    have "column_palette_indices s x z =
        Some (column_cursor (physical_words s) (physical_bits s) (?first div ?p) (?first mod ?p) 16)"
      using True side column_first [OF z, of x] by (simp add: column_palette_indices_def Let_def)
    also have "\<dots> = Some (map (\<lambda>y. case palette_index s (?first + y) of None \<Rightarrow> 65535 | Some i \<Rightarrow> as_u16 i) [0..<16])"
      using column_cursor_reads [OF b, of "?first mod ?p" "physical_words s" "?first div ?p" 16] p pi
      by (simp add: div_mult_mod_eq del: upt_rec_numeral cong: map_cong)
    finally show ?thesis unfolding goal .
  next
    case False
    show ?thesis
    proof (cases "edits s")
      case (Some e)
      then show ?thesis
        using side column_first [OF z, of x] goal by (simp add: column_palette_indices_def Let_def del: upt_rec_numeral)
    next
      case None
      then have "physical_bits s = 0" using False by simp
      then have "palette_index s (linear_index x y z) = Some 0" if "y < 16" for y
        using None that linear_index_bound [OF x that z]
        by (simp add: palette_index_def physical_index_def)
      then have "map (\<lambda>y. as_u16 (the (palette_index s (linear_index x y z)))) [0..<16] = map (\<lambda>y. 0) [0..<16]"
        by (intro map_cong) (auto simp: as_u16_def)
      then show ?thesis
        using None \<open>physical_bits s = 0\<close> side by (simp add: column_palette_indices_def map_replicate_const)
    qed
  qed
qed

text \<open>Unpacking whole words gives the same indices as reading the cells one by one.\<close>

definition index_or_missing :: "usize option \<Rightarrow> u32" where
  "index_or_missing i = (case i of None \<Rightarrow> - 1 | Some i \<Rightarrow> word_of_nat i)"

lemma below_div_ceil: "0 < p \<Longrightarrow> w < div_ceil a p \<longleftrightarrow> w * p < (a :: nat)"
proof -
  assume p: "0 < p"
  have a: "a = a div p * p + a mod p" "a mod p < p" using p by simp_all
  have "w < div_ceil a p \<longleftrightarrow> w < a div p \<or> w = a div p \<and> a mod p \<noteq> 0"
    by (auto simp: div_ceil_def)
  also have "\<dots> \<longleftrightarrow> w * p < a"
  proof (cases w "a div p" rule: linorder_cases)
    case less
    then have "Suc w * p \<le> a div p * p" by (intro mult_right_mono) auto
    then have "p + w * p \<le> a div p * p" by simp
    then have "p + w * p \<le> a" using a by linarith
    then have "w * p < a" using p by simp
    then show ?thesis using less by simp
  next
    case equal
    then have "w * p + a mod p = a" by simp
    then have "w * p < a \<longleftrightarrow> a mod p \<noteq> 0" by linarith
    then show ?thesis using equal by simp
  next
    case greater
    then have "Suc (a div p) * p \<le> w * p" by (intro mult_right_mono) auto
    then have "a div p * p + p \<le> w * p" by simp
    then have "a < w * p" using a by linarith
    then show ?thesis using greater by simp
  qed
  finally show ?thesis .
qed

lemma unpack_words_reads:
  assumes b: "b \<in> set PACKED_BITS"
  shows "n = div_ceil BLOCKS_PER_SUB_CHUNK (32 div b) - word \<Longrightarrow>
    unpack_words ws b word n =
      map (\<lambda>l. index_or_missing (read_packed ws b l)) [word * (32 div b)..<BLOCKS_PER_SUB_CHUNK]"
proof (induction n arbitrary: word)
  case 0
  have "0 < 32 div b" using b by (auto simp: PACKED_BITS_def)
  then have "\<not> word * (32 div b) < BLOCKS_PER_SUB_CHUNK"
    using 0 below_div_ceil [of "32 div b" word BLOCKS_PER_SUB_CHUNK] by simp
  then show ?case by simp
next
  case (Suc n)
  let ?p = "32 div b"
  let ?read = "\<lambda>l. index_or_missing (read_packed ws b l)"
  have p: "0 < ?p" using b by (auto simp: PACKED_BITS_def)
  have room: "word * ?p < BLOCKS_PER_SUB_CHUNK"
    using Suc.prems unfolding below_div_ceil [OF p, symmetric] by linarith
  have IH: "unpack_words ws b (Suc word) n = map ?read [Suc word * ?p..<BLOCKS_PER_SUB_CHUNK]"
    using Suc.prems by (intro Suc.IH) simp
  show ?case
  proof (cases "word < length ws")
    case True
    define m where "m = min ?p (BLOCKS_PER_SUB_CHUNK - word * ?p)"
    have "[word * ?p..<BLOCKS_PER_SUB_CHUNK] = [word * ?p..<word * ?p + m] @ [word * ?p + m..<BLOCKS_PER_SUB_CHUNK]"
      using room upt_add_eq_append [of "word * ?p" "word * ?p + m" "BLOCKS_PER_SUB_CHUNK - (word * ?p + m)"]
      by (simp add: m_def)
    also have "[word * ?p + m..<BLOCKS_PER_SUB_CHUNK] = [Suc word * ?p..<BLOCKS_PER_SUB_CHUNK]"
      by (auto simp: m_def min_def add.commute)
    finally have split: "[word * ?p..<BLOCKS_PER_SUB_CHUNK] =
        map (\<lambda>i. word * ?p + i) [0..<m] @ [Suc word * ?p..<BLOCKS_PER_SUB_CHUNK]"
      by (simp add: map_add_upt add.commute)
    have "?read (word * ?p + i) = drop_bit (i * b) (ws ! word) AND index_mask b" if "i < m" for i
    proof -
      have "i < ?p" using that by (simp add: m_def)
      then show ?thesis using True by (simp add: read_packed_def Let_def index_or_missing_def)
    qed
    then show ?thesis
      using True IH unfolding split
      by (simp add: slot_range_def m_def [symmetric] Let_def)
  next
    case False
    have "read_packed ws b l = None" if "word * ?p \<le> l" for l
    proof -
      have "word \<le> l div ?p" using that p by (simp add: less_eq_div_iff_mult_less_eq)
      then show ?thesis using False by (simp add: read_packed_def Let_def)
    qed
    then have "map ?read [word * ?p..<BLOCKS_PER_SUB_CHUNK] = map (\<lambda>_. - 1) [word * ?p..<BLOCKS_PER_SUB_CHUNK]"
      by (intro map_cong) (auto simp: index_or_missing_def)
    then show ?thesis using False by (simp add: Let_def map_replicate_const)
  qed
qed

lemma palette_indices_correct:
  assumes bits: "physical_bits s \<in> set SUPPORTED_BITS"
  shows "palette_indices s = map (\<lambda>l. index_or_missing (palette_index s l)) [0..<BLOCKS_PER_SUB_CHUNK]"
proof (cases "edits s")
  case (Some e)
  then show ?thesis by (simp add: palette_indices_def index_or_missing_def)
next
  case None
  show ?thesis
  proof (cases "physical_bits s = 0")
    case True
    have "map (\<lambda>l. index_or_missing (palette_index s l)) [0..<BLOCKS_PER_SUB_CHUNK] = map (\<lambda>_. 0) [0..<BLOCKS_PER_SUB_CHUNK]"
      using None True by (intro map_cong) (auto simp: palette_index_def physical_index_def index_or_missing_def)
    then show ?thesis using None True by (simp add: palette_indices_def map_replicate_const)
  next
    case False
    then have "map (\<lambda>l. index_or_missing (palette_index s l)) [0..<BLOCKS_PER_SUB_CHUNK] =
        map (\<lambda>l. index_or_missing (read_packed (physical_words s) (physical_bits s) l)) [0..<BLOCKS_PER_SUB_CHUNK]"
      using None by (intro map_cong)
        (auto simp: palette_index_def physical_index_def split: option.split)
    moreover have "palette_indices s = unpack_words (physical_words s) (physical_bits s) 0
        (div_ceil BLOCKS_PER_SUB_CHUNK (32 div physical_bits s))"
      using None False by (simp add: palette_indices_def)
    moreover have "physical_bits s \<in> set PACKED_BITS" using bits False by (simp add: supported_bits_iff)
    ultimately show ?thesis using unpack_words_reads [of "physical_bits s" _ 0] by simp
  qed
qed

subsection \<open>Whole-storage tests, heap bounds and index repair\<close>

lemma contains_only_correct:
  assumes wf: "storage_wf s"
  shows "contains_only s rid \<longleftrightarrow> (\<forall>l<BLOCKS_PER_SUB_CHUNK. cell_value s l = Some rid)"
proof (cases "edits s")
  case None
  then show ?thesis by (auto simp: contains_only_def list_all_iff)
next
  case (Some e)
  then have e: "edited_wf s e" using wf by (simp add: storage_wf_def)
  have dist: "distinct (palette s)" using e by (simp add: edited_wf_def slots_inv_def)
  have "palette s = [rid] \<longleftrightarrow> set (palette s) = {rid}"
  proof
    assume "set (palette s) = {rid}"
    then have "length (palette s) = 1" using distinct_card [OF dist] by simp
    then show "palette s = [rid]" using \<open>set (palette s) = {rid}\<close> by (cases "palette s") auto
  qed simp
  also have "\<dots> \<longleftrightarrow> (\<forall>l<BLOCKS_PER_SUB_CHUNK. cell_value s l = Some rid)"
  proof
    assume A: "set (palette s) = {rid}"
    show "\<forall>l<BLOCKS_PER_SUB_CHUNK. cell_value s l = Some rid"
      using storage_cell_total [OF wf] A by fastforce
  next
    assume A: "\<forall>l<BLOCKS_PER_SUB_CHUNK. cell_value s l = Some rid"
    have "0 < BLOCKS_PER_SUB_CHUNK" by (simp add: bounds_simps)
    then show "set (palette s) = {rid}" unfolding edited_palette_used [OF e Some] using A by fastforce
  qed
  finally show ?thesis using Some by (simp add: contains_only_def)
qed

lemma word_count_max: "b \<in> set SUPPORTED_BITS \<Longrightarrow> word_count b \<le> 2048"
  by (auto simp: SUPPORTED_BITS_def word_count_values [simplified])

lemma canonical_heap_mono: "m \<le> n \<Longrightarrow> canonical_heap_bytes m \<le> canonical_heap_bytes n"
proof -
  assume "m \<le> n"
  have "div_ceil (m * 4 + 16) 8 \<le> div_ceil (n * 4 + 16) 8"
  proof (rule ccontr)
    assume "\<not> ?thesis"
    then have "div_ceil (n * 4 + 16) 8 * 8 < m * 4 + 16" using below_div_ceil [of 8] by (simp add: not_le)
    also have "\<dots> \<le> n * 4 + 16" using \<open>m \<le> n\<close> by simp
    finally show False using below_div_ceil [of 8 "div_ceil (n * 4 + 16) 8" "n * 4 + 16"] by simp
  qed
  then show ?thesis by (simp add: canonical_heap_bytes_def)
qed

lemma retained_heap_correct:
  assumes wf: "storage_wf s"
  shows "retained_heap_bytes s \<le> retained_heap_bytes_bound s"
    and "retained_heap_bytes_bound s \<le> MAX_RETAINED_HEAP_BYTES"
proof -
  have MAX: "MAX_RETAINED_HEAP_BYTES = 2048 * 4 + 4096 * 8 + canonical_heap_bytes 2048"
    by (simp add: MAX_RETAINED_HEAP_BYTES_def SUPPORTED_BITS_def word_count_values bounds_simps)
  show "retained_heap_bytes s \<le> retained_heap_bytes_bound s"
  proof (cases "edits s")
    case (Some e)
    then have e: "edited_wf s e" using wf by (simp add: storage_wf_def)
    have "\<not> direct e \<and> length ws = word_count (bits_per_index s)" if "canonical_words e = Some ws" for ws
      using e that canonical_packing_reads [OF e Some] by (auto simp: edited_wf_def)
    then show ?thesis
      using Some by (auto simp: retained_heap_bytes_def retained_heap_bytes_bound_def split: option.split)
  qed (simp add: retained_heap_bytes_def retained_heap_bytes_bound_def)
  show "retained_heap_bytes_bound s \<le> MAX_RETAINED_HEAP_BYTES"
  proof (cases "edits s")
    case None
    then show ?thesis using wf word_count_max [of "physical_bits s"]
      by (auto simp: storage_wf_def decoded_wf_def retained_heap_bytes_bound_def working_heap_bytes_def MAX bounds_simps)
  next
    case (Some e)
    then have e: "edited_wf s e" using wf by (simp add: storage_wf_def)
    have "canonical_heap_bytes (word_count (bits_per_index s)) \<le> canonical_heap_bytes 2048"
      using Some by (intro canonical_heap_mono word_count_max) (simp add: bits_per_index_def)
    moreover have "length (physical_words s) \<le> 2048" "length (slots e) \<le> 4096"
      using e word_count_max [of "physical_bits s"] by (auto simp: edited_wf_def has_zero_padding_def bounds_simps)
    moreover have "length (palette s) \<le> 4096" using edited_palette_bound(2) [OF e] by (simp add: bounds_simps)
    ultimately show ?thesis using Some by (simp add: retained_heap_bytes_bound_def working_heap_bytes_def MAX)
  qed
qed

text \<open>
  Repairing the indices of a decoded storage: afterwards every cell has an index below the given
  palette length, and cells that had one keep it.
\<close>

lemma zero_indices_correct:
  assumes e: "edits s = None" and bits: "physical_bits s \<in> set SUPPORTED_BITS"
    and len: "length (physical_words s) = word_count (physical_bits s)" and n: "0 < n"
  shows "\<exists>s'. zero_indices_at_or_above s n = Some s' \<and> edits s' = None \<and> palette s' = palette s \<and>
    physical_bits s' = physical_bits s \<and> length (physical_words s') = word_count (physical_bits s) \<and>
    (\<forall>l<BLOCKS_PER_SUB_CHUNK. \<exists>i. palette_index s l = Some i \<and>
       palette_index s' l = Some (if i < n then i else 0))"
proof (cases "physical_bits s = 0")
  case True
  then show ?thesis using e len n
    by (auto simp: zero_indices_at_or_above_def palette_index_def physical_index_def)
next
  case False
  let ?b = "physical_bits s"
  have b: "?b \<in> set PACKED_BITS" using bits False by (simp add: supported_bits_iff)
  have idx: "palette_index (s\<lparr>physical_words := ws\<rparr>) l = read_packed ws ?b l"
    if "l < BLOCKS_PER_SUB_CHUNK" for ws l
    using that e False by (simp add: palette_index_def physical_index_def split: option.split)
  have idx_s: "palette_index s l = read_packed (physical_words s) ?b l" if "l < BLOCKS_PER_SUB_CHUNK" for l
    using idx [OF that, of "physical_words s"] by simp
  have total: "\<exists>i. read_packed ws ?b l = Some i \<and> i < 2 ^ ?b"
    if "l < BLOCKS_PER_SUB_CHUNK" "length ws = word_count ?b" for ws l
    using read_packed_total [OF b that(2,1)] .
  show ?thesis
  proof (cases "n \<ge> 2 ^ ?b")
    case True
    then show ?thesis using e len idx_s total [OF _ len]
      by (fastforce simp: zero_indices_at_or_above_def)
  next
    case False
    let ?P = "\<lambda>m ws. length ws = word_count ?b \<and> (\<forall>l<BLOCKS_PER_SUB_CHUNK. \<exists>i.
      read_packed (physical_words s) ?b l = Some i \<and>
      read_packed ws ?b l = Some (if l < m \<and> \<not> i < n then 0 else i))"
    have "\<exists>ws. try_fold (\<lambda>linear ws.
             case palette_index (s\<lparr>physical_words := ws\<rparr>) linear of
               Some index \<Rightarrow> (if index \<ge> n then write_palette_index ws ?b linear 0 else Some ws)
             | None \<Rightarrow> Some ws) [0..<BLOCKS_PER_SUB_CHUNK] (physical_words s) = Some ws \<and> ?P BLOCKS_PER_SUB_CHUNK ws"
    proof (rule try_fold_upt [where P = ?P])
      show "?P 0 (physical_words s)" using len total [OF _ len] by auto
    next
      fix m ws assume m: "m < BLOCKS_PER_SUB_CHUNK" and P: "?P m ws"
      obtain i where i: "read_packed (physical_words s) ?b m = Some i" "read_packed ws ?b m = Some i"
        using P m by auto
      show "\<exists>ws'. (case palette_index (s\<lparr>physical_words := ws\<rparr>) m of
               Some index \<Rightarrow> (if index \<ge> n then write_palette_index ws ?b m 0 else Some ws)
             | None \<Rightarrow> Some ws) = Some ws' \<and> ?P (Suc m) ws'"
      proof (cases "i < n")
        case True
        then show ?thesis using P i m by (fastforce simp: idx [OF m] less_Suc_eq)
      next
        case False
        obtain ws' where ws': "write_palette_index ws ?b m 0 = Some ws'" "length ws' = word_count ?b"
          using write_total [OF b _ m, of ws 0] P by auto
        have "read_packed ws' ?b l = (if l = m then Some 0 else read_packed ws ?b l)" for l
          using read_write [OF b _ ws'(1)] by simp
        then show ?thesis using P i ws' False by (fastforce simp: idx [OF m] less_Suc_eq)
      qed
    qed
    then obtain ws where ws: "try_fold (\<lambda>linear ws.
             case palette_index (s\<lparr>physical_words := ws\<rparr>) linear of
               Some index \<Rightarrow> (if index \<ge> n then write_palette_index ws ?b linear 0 else Some ws)
             | None \<Rightarrow> Some ws) [0..<BLOCKS_PER_SUB_CHUNK] (physical_words s) = Some ws"
      and P: "?P BLOCKS_PER_SUB_CHUNK ws" by blast
    have "zero_indices_at_or_above s n = Some (s\<lparr>physical_words := ws\<rparr>)"
      using ws e False \<open>?b \<noteq> 0\<close> by (simp add: zero_indices_at_or_above_def)
    then show ?thesis using e P idx idx_s by fastforce
  qed
qed

end
