(* ===== verification/Palette_Spec.thy ===== *)
theory Palette_Spec
  imports Palette_Reads
begin

section \<open>What paletted storages promise\<close>

text \<open>
  The properties of \<^verbatim>\<open>PalettedStorage\<close> the rest of the world model rests on.  \<open>storage_wf\<close> is the
  invariant: decoding establishes it and every operation keeps it.
\<close>

lemma final_updates_last: "final_updates us = map_of (rev us)"
proof -
  have "fold (\<lambda>(l, r) m. m(l \<mapsto> r)) us m = m ++ map_of (rev us)" for m
  proof (induction us arbitrary: m)
    case (Cons u us)
    then show ?case by (cases u) (auto simp: map_add_def fun_eq_iff split: option.split)
  qed simp
  then show ?thesis by (simp add: final_updates_def)
qed

lemma new_value_cell:
  assumes "storage_wf s" "l < BLOCKS_PER_SUB_CHUNK"
  shows "Some (new_value s final l) = (case final l of Some v \<Rightarrow> Some v | None \<Rightarrow> cell_value s l)"
  using storage_cell_total [OF assms] by (auto simp: new_value_def split: option.split)

lemma uniform_wf: "storage_wf (uniform rid)"
  by (simp add: storage_wf_def decoded_wf_def uniform_def new_storage_def physical_index_def
      word_count_values SUPPORTED_BITS_def bounds_simps)

lemma uniform_cell: "l < BLOCKS_PER_SUB_CHUNK \<Longrightarrow> cell_value (uniform rid) l = Some rid"
  by (simp add: uniform_def new_storage_def cell_value_def palette_index_def physical_index_def palette_get_def)

lemma batch_edit_total:
  assumes wf: "storage_wf s" and range: "\<forall>(l, v) \<in> set us. l < BLOCKS_PER_SUB_CHUNK"
  shows "\<exists>changed s'. apply_runtime_updates s us = Some (changed, s') \<and> storage_wf s' \<and>
    (\<forall>l<BLOCKS_PER_SUB_CHUNK. cell_value s' l =
       (case map_of (rev us) l of Some v \<Rightarrow> Some v | None \<Rightarrow> cell_value s l)) \<and>
    changed = (\<exists>l<BLOCKS_PER_SUB_CHUNK. cell_value s' l \<noteq> cell_value s l) \<and>
    (if changed then set (palette s') = {v. \<exists>l<BLOCKS_PER_SUB_CHUNK. cell_value s' l = Some v} else s' = s)"
proof (cases "\<forall>l<BLOCKS_PER_SUB_CHUNK. cell_value s l = Some (new_value s (final_updates us) l)")
  case True
  then show ?thesis
    using apply_runtime_updates_unchanged [OF wf True] wf new_value_cell [OF wf, of _ "final_updates us"]
    by (auto simp: final_updates_last)
next
  case False
  have some: "\<exists>l<BLOCKS_PER_SUB_CHUNK. cell_value s l \<noteq> Some (new_value s (final_updates us) l)"
    using False by blast
  obtain s' e' where s': "apply_runtime_updates s us = Some (True, s')" "edits s' = Some e'" "edited_wf s' e'"
    "\<forall>l<BLOCKS_PER_SUB_CHUNK. cell_value s' l = Some (new_value s (final_updates us) l)"
    using apply_runtime_updates_changed [OF wf range some] by blast
  then have "\<exists>l<BLOCKS_PER_SUB_CHUNK. cell_value s' l \<noteq> cell_value s l" using False by auto
  then show ?thesis
    using s' edited_palette_used [OF s'(3,2)] new_value_cell [OF wf, of _ "final_updates us"]
    by (intro exI [of _ True] exI [of _ s']) (auto simp: storage_wf_def final_updates_last)
qed

text \<open>
  C21.  The single-cell edit agrees with the batch of one update: neither panics, both report the
  same change, and the patched slots and the repacked words are the same exact representation to
  every reader, with exactly the addressed cell replaced.
\<close>

theorem single_edit_matches_batch:
  assumes "storage_wf s" "l < BLOCKS_PER_SUB_CHUNK"
  shows "\<exists>s1 s2. apply_runtime_update s l rid = Some (cell_value s l \<noteq> Some rid, s1) \<and>
    apply_runtime_updates s [(l, rid)] = Some (cell_value s l \<noteq> Some rid, s2) \<and>
    storage_wf s1 \<and> storage_wf s2 \<and> storage_eq s1 s2 \<and>
    (\<forall>l'<BLOCKS_PER_SUB_CHUNK. cell_value s1 l' = (if l' = l then Some rid else cell_value s l'))"
  by (rule apply_runtime_update_eq_batch [OF assms])

lemma single_edit_matches_batch_witness:
  "\<exists>s1 s2. apply_runtime_update (uniform 7) 5 9 = Some (True, s1) \<and>
    apply_runtime_updates (uniform 7) [(5, 9)] = Some (True, s2) \<and> storage_eq s1 s2 \<and>
    cell_value s1 5 = Some 9 \<and> cell_value s1 6 = Some 7"
  using single_edit_matches_batch [OF uniform_wf, of 5 7 9]
  by (force simp: uniform_cell bounds_simps)

text \<open>
  C20.  A batch of in-range updates never panics: afterwards every cell holds the last value an
  update gave it, a change is reported exactly when some cell's value changed, the palette of a
  changed storage lists exactly the values its cells have, and an unchanged storage is returned
  as it was.
\<close>

theorem batch_edit_correct:
  assumes wf: "storage_wf s" and range: "\<forall>(l, v) \<in> set us. l < BLOCKS_PER_SUB_CHUNK"
  shows "\<exists>changed s'. apply_runtime_updates s us = Some (changed, s') \<and> storage_wf s' \<and>
    (\<forall>l<BLOCKS_PER_SUB_CHUNK. cell_value s' l =
       (case map_of (rev us) l of Some v \<Rightarrow> Some v | None \<Rightarrow> cell_value s l)) \<and>
    changed = (\<exists>l<BLOCKS_PER_SUB_CHUNK. cell_value s' l \<noteq> cell_value s l) \<and>
    (if changed then set (palette s') = {v. \<exists>l<BLOCKS_PER_SUB_CHUNK. cell_value s' l = Some v} else s' = s)"
  by (rule batch_edit_total [OF assms])

lemma batch_edit_correct_witness:
  "\<exists>changed s'. apply_runtime_updates (uniform 7) [(3, 8), (4, 9), (3, 7)] = Some (changed, s') \<and>
    cell_value s' 3 = Some 7 \<and> cell_value s' 4 = Some 9 \<and> cell_value s' 5 = Some 7 \<and> changed"
proof -
  obtain changed s' where r: "apply_runtime_updates (uniform 7) [(3, 8), (4, 9), (3, 7)] = Some (changed, s')"
    "\<forall>l<BLOCKS_PER_SUB_CHUNK. cell_value s' l =
       (case map_of (rev [(3, 8), (4, 9), (3, 7)]) l of Some v \<Rightarrow> Some v | None \<Rightarrow> cell_value (uniform 7) l)"
    "changed = (\<exists>l<BLOCKS_PER_SUB_CHUNK. cell_value s' l \<noteq> cell_value (uniform 7) l)"
    using batch_edit_correct [OF uniform_wf, of "[(3, 8), (4, 9), (3, 7)]" 7] by (auto simp: bounds_simps)
  have in_range: "(3::nat) < BLOCKS_PER_SUB_CHUNK" "(4::nat) < BLOCKS_PER_SUB_CHUNK" "(5::nat) < BLOCKS_PER_SUB_CHUNK"
    by (simp_all add: bounds_simps)
  then have cells: "cell_value s' 3 = Some 7" "cell_value s' 4 = Some 9" "cell_value s' 5 = Some 7"
    using r(2) by (simp_all add: uniform_cell)
  then have changed using r(3) in_range(2) uniform_cell [of 4 7] by auto
  then show ?thesis using r(1) cells by blast
qed

lemma decoded_words:
  assumes "storage_wf s" "edits s = None"
  shows "length (physical_words s) = word_count (bits_per_index s)"
    "l < BLOCKS_PER_SUB_CHUNK \<Longrightarrow>
      (if bits_per_index s = 0 then Some 0 else read_packed (physical_words s) (bits_per_index s) l) = palette_index s l"
  using assms by (simp_all add: storage_wf_def decoded_wf_def bits_per_index_def palette_index_def physical_index_def split: option.split)

lemma edited_sample:
  "\<exists>s. apply_runtime_updates (uniform 7) [(5, 9)] = Some (True, s) \<and> storage_wf s \<and> edits s \<noteq> None \<and>
    cell_value s 5 = Some 9 \<and> cell_value s 6 = Some 7"
proof -
  have in_range: "5 < BLOCKS_PER_SUB_CHUNK" "6 < BLOCKS_PER_SUB_CHUNK" by (simp_all add: bounds_simps)
  have new: "new_value (uniform 7) (final_updates [(5, 9)]) 5 = 9" "new_value (uniform 7) (final_updates [(5, 9)]) 6 = 7"
    using uniform_cell [OF in_range(2), of 7] by (simp_all add: new_value_def final_updates_def)
  have some: "\<exists>l<BLOCKS_PER_SUB_CHUNK. cell_value (uniform 7) l \<noteq> Some (new_value (uniform 7) (final_updates [(5, 9)]) l)"
    using in_range(1) uniform_cell [OF in_range(1), of 7] new(1) by auto
  have valid: "\<forall>(l, v)\<in>set [(5, 9)]. l < BLOCKS_PER_SUB_CHUNK" using in_range(1) by simp
  obtain s e where "apply_runtime_updates (uniform 7) [(5, 9)] = Some (True, s)" "edits s = Some e" "edited_wf s e"
      "\<forall>l<BLOCKS_PER_SUB_CHUNK. cell_value s l = Some (new_value (uniform 7) (final_updates [(5, 9)]) l)"
    using apply_runtime_updates_changed [OF uniform_wf valid some] by blast
  then show ?thesis using in_range new by (auto simp: storage_wf_def)
qed

text \<open>
  C38.  Reading the words of a well-formed storage never panics and is invisible: the storage after
  the read (with its cache filled) is well formed, equal to the one before, shows every cell as
  before and answers the next read with the same words.  There are as many words as the storage's
  width needs, and unpacked at that width they are the palette index of every cell.  A storage that
  was never edited gives back the words it was decoded from; an edited one pads its words with zeros.
\<close>

theorem words_read_invisible:
  assumes "storage_wf s"
  shows "\<exists>ws s'. words_of s = Some (ws, s') \<and> storage_wf s' \<and> storage_eq s' s \<and>
    words_of s' = Some (ws, s') \<and> (\<forall>l. cell_value s' l = cell_value s l) \<and>
    length ws = word_count (bits_per_index s) \<and>
    (\<forall>l<BLOCKS_PER_SUB_CHUNK.
      (if bits_per_index s = 0 then Some 0 else read_packed ws (bits_per_index s) l) = palette_index s l) \<and>
    (if edits s = None then ws = physical_words s else bits_per_index s = 0 \<or> zero_padded ws (bits_per_index s))"
proof (cases "edits s")
  case None
  then show ?thesis using assms decoded_words [OF assms None] by (simp add: words_of_def storage_eq_refl)
next
  case (Some e)
  then have wf: "edited_wf s e" using assms by (simp add: storage_wf_def)
  obtain ws where ws: "observed_words s = Some ws" "shows_indices (bits_per_index s) (palette_index s) ws"
    using observed_words_shows [OF wf Some] by blast
  then obtain s' where s': "words_of s = Some (ws, s')" by (auto simp: observed_words_def)
  obtain e' where e': "edits s' = Some e'" "edited_wf s' e'" "palette s' = palette s"
    "observed_words s' = Some ws" "\<forall>l. palette_index s' l = palette_index s l"
    using words_of_invisible [OF wf Some s'] by blast
  have "words_of s' = Some (ws, s')"
    using s' Some by (auto simp: words_of_def split: option.splits if_splits)
  moreover have "storage_eq s' s" using e' ws(1) Some by (simp add: storage_eq_def bits_per_index_def)
  ultimately show ?thesis
    using s' e' ws(2) Some by (auto simp: storage_wf_def cell_value_def shows_indices_def)
qed

lemma words_read_invisible_witness:
  "\<exists>s ws s'. apply_runtime_updates (uniform 7) [(5, 9)] = Some (True, s) \<and> words_of s = Some (ws, s') \<and>
    zero_padded ws (bits_per_index s) \<and> read_packed ws (bits_per_index s) 5 = palette_index s 5 \<and> cell_value s' 5 = Some 9"
proof -
  obtain s where s: "apply_runtime_updates (uniform 7) [(5, 9)] = Some (True, s)" "storage_wf s" "edits s \<noteq> None"
      "cell_value s 5 = Some 9" "cell_value s 6 = Some 7" using edited_sample by blast
  obtain ws s' where r: "words_of s = Some (ws, s')" "\<forall>l. cell_value s' l = cell_value s l"
      "\<And>l. l < BLOCKS_PER_SUB_CHUNK \<Longrightarrow> (if bits_per_index s = 0 then Some 0 else read_packed ws (bits_per_index s) l) = palette_index s l"
      "bits_per_index s = 0 \<or> zero_padded ws (bits_per_index s)"
    using words_read_invisible [OF s(2)] s(3) by auto
  have reads: "(if bits_per_index s = 0 then Some 0 else read_packed ws (bits_per_index s) 5) = palette_index s 5"
      "(if bits_per_index s = 0 then Some 0 else read_packed ws (bits_per_index s) 6) = palette_index s 6"
    by (rule r(3), simp add: bounds_simps)+
  have "bits_per_index s \<noteq> 0" using reads s(4,5) by (auto simp: cell_value_def split: option.splits if_splits)
  then show ?thesis using s(1,4) r(1,2,4) reads(1) by (intro exI [of _ s] exI [of _ ws] exI [of _ s'] conjI) simp_all
qed

text \<open>
  C39.  The two batched readers agree with the one-cell read: a column read, whose cursor walks
  the packed words without dividing, and the unpacking of a whole storage word by word.
\<close>

theorem batched_reads_agree:
  assumes "storage_wf s" "x < 16" "z < 16"
  shows "column_palette_indices s x z =
      Some (map (\<lambda>y. as_u16 (the (palette_index s (linear_index x y z)))) [0..<16]) \<and>
    palette_indices s = map (\<lambda>l. word_of_nat (the (palette_index s l))) [0..<BLOCKS_PER_SUB_CHUNK]"
proof -
  have "index_or_missing (palette_index s l) = word_of_nat (the (palette_index s l))"
    if "l < BLOCKS_PER_SUB_CHUNK" for l
    using cell_value_Some_iff [OF assms(1) that] by (auto simp: index_or_missing_def)
  then show ?thesis
    using column_palette_indices_correct [OF assms] palette_indices_correct [OF decoded_bits [OF assms(1)]]
    by simp
qed

lemma batched_reads_agree_witness:
  "column_palette_indices (uniform 7) 3 4 = Some (replicate 16 0)"
proof -
  have "the (palette_index (uniform 7) (linear_index 3 y 4)) = 0" if "y < 16" for y
    using linear_index_bound [of 3 y 4] that
    by (simp add: uniform_def new_storage_def palette_index_def physical_index_def)
  then have "map (\<lambda>y. as_u16 (the (palette_index (uniform 7) (linear_index 3 y 4)))) [0..<16] = map (\<lambda>_. 0) [0..<16]"
    by (intro map_cong) (auto simp: as_u16_def)
  then show ?thesis
    using batched_reads_agree [OF uniform_wf, of 3 4 7] by (simp add: map_replicate_const)
qed

text \<open>
  C40.  The heap accounting is safe: what a well-formed storage retains never exceeds the bound it
  declares before its cache is filled, and that bound never exceeds the constant of the crate.
\<close>

theorem retained_heap_bounded:
  assumes "storage_wf s"
  shows "retained_heap_bytes s \<le> retained_heap_bytes_bound s \<and>
    retained_heap_bytes_bound s \<le> MAX_RETAINED_HEAP_BYTES"
  using retained_heap_correct [OF assms] by simp

lemma retained_heap_bounded_witness: "retained_heap_bytes (uniform 7) \<le> MAX_RETAINED_HEAP_BYTES"
  using retained_heap_bounded [OF uniform_wf, of 7] by simp

end
