(* ===== verification/Bytes.thy ===== *)
theory Bytes
  imports Prelude "HOL-Library.List_Lexorder"
begin

section \<open>Bytes, text and variable-length integers\<close>

text \<open>
  What the decoders and encoders of \<^verbatim>\<open>crates/world\<close> share: byte strings, the UTF-8 check of
  \<^verbatim>\<open>std::str::from_utf8\<close>, little-endian words, zigzag and base-128 integers, and a cursor over an
  input.  A string of the source is the list of its UTF-8 bytes.
\<close>

type_synonym bytes = "u8 list"

subsection \<open>UTF-8\<close>

definition byte_in :: "nat \<Rightarrow> nat \<Rightarrow> u8 \<Rightarrow> bool" where
  "byte_in lo hi b \<longleftrightarrow> lo \<le> unat b \<and> unat b \<le> hi"

text \<open>Well-formed sequences only: no overlong forms, no surrogates, nothing above U+10FFFF.\<close>

fun valid_utf8 :: "bytes \<Rightarrow> bool" where
  "valid_utf8 [] \<longleftrightarrow> True"
| "valid_utf8 (a # bs) \<longleftrightarrow>
     (if byte_in 0 0x7F a then valid_utf8 bs
      else (case bs of
        [] \<Rightarrow> False
      | b # cs \<Rightarrow>
          if byte_in 0xC2 0xDF a then byte_in 0x80 0xBF b \<and> valid_utf8 cs
          else (case cs of
            [] \<Rightarrow> False
          | c # ds \<Rightarrow>
              if byte_in 0xE0 0xEF a then
                byte_in (if a = 0xE0 then 0xA0 else 0x80) (if a = 0xED then 0x9F else 0xBF) b
                \<and> byte_in 0x80 0xBF c \<and> valid_utf8 ds
              else (case ds of
                [] \<Rightarrow> False
              | d # es \<Rightarrow>
                  byte_in 0xF0 0xF4 a
                  \<and> byte_in (if a = 0xF0 then 0x90 else 0x80) (if a = 0xF4 then 0x8F else 0xBF) b
                  \<and> byte_in 0x80 0xBF c \<and> byte_in 0x80 0xBF d \<and> valid_utf8 es))))"

text \<open>The bytes of an ASCII literal of the source.\<close>

definition str :: "string \<Rightarrow> bytes" where
  "str s = map (\<lambda>c. word_of_nat (of_char c)) s"

subsection \<open>Little-endian words\<close>

fun from_le_bytes :: "bytes \<Rightarrow> nat" where
  "from_le_bytes [] = 0"
| "from_le_bytes (b # bs) = unat b + 256 * from_le_bytes bs"

fun to_le_bytes :: "nat \<Rightarrow> nat \<Rightarrow> bytes" where
  "to_le_bytes 0 n = []"
| "to_le_bytes (Suc k) n = word_of_nat (n mod 256) # to_le_bytes k (n div 256)"

lemma length_to_le_bytes [simp]: "length (to_le_bytes k n) = k"
  by (induction k arbitrary: n) auto

lemma from_to_le_bytes: "from_le_bytes (to_le_bytes k n) = n mod 256 ^ k"
proof (induction k arbitrary: n)
  case (Suc k)
  have "unat (word_of_nat (n mod 256) :: u8) = n mod 256"
    by (simp add: unsigned_of_nat take_bit_eq_mod)
  then show ?case using Suc by (simp add: mod_mult2_eq)
qed simp

subsection \<open>Zigzag\<close>

text \<open>The shifts and exclusive-or of the source, on words of any width.\<close>

definition unzigzag :: "'a::len word \<Rightarrow> 'a word" where
  "unzigzag v = drop_bit 1 v XOR - (v AND 1)"

definition zigzag :: "'a::len word \<Rightarrow> 'a word" where
  "zigzag v = push_bit 1 v XOR signed_drop_bit (LENGTH('a) - 1) v"

definition zigzag_decode :: "'a::len word \<Rightarrow> int" where
  "zigzag_decode v = sint (unzigzag v)"

lemma and_1_word: "(v :: 'a::len word) AND 1 = of_bool (odd v)"
  by (simp add: and_one_eq odd_iff_mod_2_eq_one)

lemma zigzag_roundtrip: "unzigzag (zigzag v) = (v :: 'a::len word)"
proof -
  let ?L = "LENGTH('a)"
  let ?s = "signed_drop_bit (?L - 1) v" and ?p = "push_bit 1 v"
  have s: "?s = (if bit v (?L - 1) then - 1 else 0)"
  proof (rule bit_word_eqI)
    fix n assume "n < LENGTH('a)"
    then show "bit ?s n \<longleftrightarrow> bit (if bit v (?L - 1) then - 1 else 0 :: 'a word) n"
      by (cases "n = 0") (auto simp: bit_signed_drop_bit_iff)
  qed
  have odd: "odd (?p XOR ?s) \<longleftrightarrow> bit v (?L - 1)"
    unfolding s by (simp add: even_xor_iff)
  have "drop_bit 1 (?p XOR ?s) XOR - ((?p XOR ?s) AND 1) = v"
  proof (rule bit_word_eqI)
    fix n assume n: "n < ?L"
    have low: "bit (- ((?p XOR ?s) AND 1)) n \<longleftrightarrow> bit v (?L - 1)"
      using odd n unfolding and_1_word by (cases "bit v (?L - 1)") simp_all
    have high: "bit (drop_bit 1 (?p XOR ?s)) n \<longleftrightarrow> Suc n < ?L \<and> (bit v n \<noteq> bit v (?L - 1))"
    proof -
      have "bit (push_bit 1 v) (Suc n) \<longleftrightarrow> Suc n < ?L \<and> bit v n"
        unfolding bit_push_bit_iff by auto
      moreover have "bit ?s (Suc n) \<longleftrightarrow> Suc n < ?L \<and> bit v (?L - 1)" unfolding s by simp
      moreover have "bit (drop_bit 1 (?p XOR ?s)) n \<longleftrightarrow> bit ?p (Suc n) \<noteq> bit ?s (Suc n)"
        unfolding bit_drop_bit_eq comp_def bit_xor_iff by simp
      ultimately show ?thesis by blast
    qed
    have "Suc n < ?L \<or> n = ?L - 1" using n by linarith
    then show "bit (drop_bit 1 (?p XOR ?s) XOR - ((?p XOR ?s) AND 1)) n \<longleftrightarrow> bit v n"
      unfolding bit_xor_iff low high by auto
  qed
  then show ?thesis by (simp add: unzigzag_def zigzag_def)
qed

subsection \<open>Base-128 integers\<close>

text \<open>\<^verbatim>\<open>write_var_u64\<close>: seven bits a byte, least significant first, the high bit set but on the last.\<close>

function write_var :: "nat \<Rightarrow> bytes" where
  "write_var v =
     (if v div 128 = 0 then [word_of_nat (v mod 128)]
      else word_of_nat (v mod 128 + 128) # write_var (v div 128))"
  by auto
termination by (relation "measure id") auto

declare write_var.simps [simp del]

lemma write_var_nonempty [simp]: "write_var v \<noteq> []"
  by (subst write_var.simps) simp

lemma length_write_var: "v < 128 ^ k \<Longrightarrow> 0 < k \<Longrightarrow> length (write_var v) \<le> k"
proof (induction k arbitrary: v)
  case (Suc k)
  show ?case
  proof (cases "v div 128 = 0")
    case True
    then show ?thesis by (subst write_var.simps) simp
  next
    case False
    then have "k \<noteq> 0" using Suc.prems by (cases k) auto
    have "v div 128 < 128 ^ k" using Suc.prems(1) by (simp add: less_mult_imp_div_less mult.commute)
    then have "length (write_var (v div 128)) \<le> k" using Suc.IH \<open>k \<noteq> 0\<close> by simp
    then show ?thesis using False by (subst write_var.simps) simp
  qed
qed simp

subsection \<open>Cursors\<close>

record cursor =
  input :: bytes
  position :: usize

definition rest :: "cursor \<Rightarrow> bytes" where
  "rest r = drop (position r) (input r)"

definition advance :: "cursor \<Rightarrow> usize \<Rightarrow> cursor" where
  "advance r n = r\<lparr>position := position r + n\<rparr>"

lemma advance_simps [simp]:
  "input (advance r n) = input r" "position (advance r n) = position r + n"
  "rest (advance r n) = drop n (rest r)" "advance (advance r m) n = advance r (m + n)"
  "advance r 0 = r"
  by (simp_all add: advance_def rest_def add.commute add.assoc)

lemma length_rest [simp]: "length (rest r) = length (input r) - position r"
  by (simp add: rest_def)

subsection \<open>Local reads\<close>

text \<open>
  A read is local when its success depends only on the bytes it consumes: any other input that
  holds the same bytes at the same position gives the same value.  \<open>local_at\<close> says so of one
  starting point; reads compose.
\<close>

definition local_at :: "(cursor \<Rightarrow> 'e + ('a \<times> cursor)) \<Rightarrow> cursor \<Rightarrow> bool" where
  "local_at f r \<longleftrightarrow> (\<forall>x r'. f r = Inr (x, r') \<longrightarrow>
     (\<exists>n\<le>length (rest r). r' = advance r n \<and>
       (\<forall>s. position s = position r \<longrightarrow> take n (rest s) = take n (rest r) \<longrightarrow> f s = Inr (x, advance s n))))"

definition local_read :: "(cursor \<Rightarrow> 'e + ('a \<times> cursor)) \<Rightarrow> bool" where
  "local_read f \<longleftrightarrow> (\<forall>r. local_at f r)"

named_theorems local_intros \<open>rules that compose local reads\<close>

lemma local_atD:
  assumes "local_at f r" "f r = Inr (x, r')"
  obtains n where "n \<le> length (rest r)" "r' = advance r n"
    "\<And>s. position s = position r \<Longrightarrow> take n (rest s) = take n (rest r) \<Longrightarrow> f s = Inr (x, advance s n)"
  using assms unfolding local_at_def by blast

lemma local_readD: "local_read f \<Longrightarrow> local_at f r"
  by (simp add: local_read_def)

lemma local_return [local_intros]: "local_at (\<lambda>r. Inr (x, r)) r"
  unfolding local_at_def by (auto intro!: exI [of _ 0])

lemma local_error [local_intros]: "local_at (\<lambda>r. Inl (e r)) r"
  by (simp add: local_at_def)

lemma local_if [local_intros]:
  "(b \<Longrightarrow> local_at f r) \<Longrightarrow> (\<not> b \<Longrightarrow> local_at g r) \<Longrightarrow> local_at (\<lambda>r. if b then f r else g r) r"
  by (cases b) simp_all

lemma take_add_split:
  assumes "take (n + m) xs = take (n + m) ys"
  shows "take n xs = take n ys" "take m (drop n xs) = take m (drop n ys)"
proof -
  show "take n xs = take n ys" using arg_cong [OF assms, of "take n"] by simp
  show "take m (drop n xs) = take m (drop n ys)"
    using arg_cong [OF assms, of "drop n"] by (simp add: drop_take)
qed

lemma local_bind [local_intros]:
  assumes f: "local_at f r" and g: "\<And>x r1. f r = Inr (x, r1) \<Longrightarrow> local_at (g x) r1"
  shows "local_at (\<lambda>r. and_then (f r) (\<lambda>(x, r). g x r)) r"
  unfolding local_at_def
proof (intro allI impI)
  fix y r' assume "and_then (f r) (\<lambda>(x, r). g x r) = Inr (y, r')"
  then obtain x r1 where x: "f r = Inr (x, r1)" and y: "g x r1 = Inr (y, r')"
    by (auto simp: and_then_Inr_iff)
  obtain n where n: "n \<le> length (rest r)" "r1 = advance r n"
    "\<And>s. position s = position r \<Longrightarrow> take n (rest s) = take n (rest r) \<Longrightarrow> f s = Inr (x, advance s n)"
    using local_atD [OF f x] by blast
  obtain m where m: "m \<le> length (rest r1)" "r' = advance r1 m"
    "\<And>s. position s = position r1 \<Longrightarrow> take m (rest s) = take m (rest r1) \<Longrightarrow> g x s = Inr (y, advance s m)"
    using local_atD [OF g [OF x] y] by blast
  have "and_then (f s) (\<lambda>(x, r). g x r) = Inr (y, advance s (n + m))"
    if s: "position s = position r" "take (n + m) (rest s) = take (n + m) (rest r)" for s
    using n(3) [OF s(1) take_add_split(1) [OF s(2)]] m(3) [of "advance s n"]
      take_add_split(2) [OF s(2)] s(1) n(2) by simp
  then show "\<exists>k\<le>length (rest r). r' = advance r k \<and>
      (\<forall>s. position s = position r \<longrightarrow> take k (rest s) = take k (rest r) \<longrightarrow>
        and_then (f s) (\<lambda>(x, r). g x r) = Inr (y, advance s k))"
    using n m by (intro exI [of _ "n + m"]) auto
qed

text \<open>Only the successful results matter.\<close>

lemma local_at_weaken:
  assumes "local_at f r" "\<And>x r'. g r = Inr (x, r') \<Longrightarrow> f r = Inr (x, r')"
    "\<And>s x r'. position s = position r \<Longrightarrow> f s = Inr (x, r') \<Longrightarrow> (\<exists>x r'. g r = Inr (x, r')) \<Longrightarrow> g s = Inr (x, r')"
  shows "local_at g r"
  unfolding local_at_def
proof (intro allI impI)
  fix x r' assume g: "g r = Inr (x, r')"
  obtain n where "n \<le> length (rest r)" "r' = advance r n"
    "\<And>s. position s = position r \<Longrightarrow> take n (rest s) = take n (rest r) \<Longrightarrow> f s = Inr (x, advance s n)"
    using local_atD [OF assms(1) assms(2) [OF g]] by blast
  then show "\<exists>n\<le>length (rest r). r' = advance r n \<and>
      (\<forall>s. position s = position r \<longrightarrow> take n (rest s) = take n (rest r) \<longrightarrow> g s = Inr (x, advance s n))"
    using assms(3) g by blast
qed

end
