(* ===== verification/Nbt_Scan.thy ===== *)
theory Nbt_Scan
  imports Bytes
begin

section \<open>Scanning NBT\<close>

text \<open>
  The strict NBT scanner of \<^verbatim>\<open>crates/world/src/block_entity.rs\<close>: it walks one network NBT value
  within the limits on depth, tags, lengths and bytes, and says what is wrong with it otherwise.
  A failed operation drops the reader, as every caller of the source does.
\<close>

definition MAX_BLOCK_ENTITY_NBT_BYTES :: usize where "MAX_BLOCK_ENTITY_NBT_BYTES = 1024 * 1024"
definition MAX_NBT_DEPTH :: usize where "MAX_NBT_DEPTH = 64"
definition MAX_NBT_COLLECTION_LENGTH :: usize where "MAX_NBT_COLLECTION_LENGTH = 16384"
definition MAX_NBT_STRING_BYTES :: usize where "MAX_NBT_STRING_BYTES = 64 * 1024"
definition MAX_NBT_TAGS :: usize where "MAX_NBT_TAGS = 16384"

datatype nbt_error =
    Root_Not_Compound u8
  | Unknown_Tag u8
  | Unexpected_Eof string usize usize
  | Var_Int_Too_Long
  | Var_Int_Overflow
  | Var_Long_Too_Long
  | Var_Long_Overflow
  | Negative_Length i32
  | Collection_Too_Long usize usize
  | String_Too_Long usize usize
  | Invalid_Utf8
  | Depth_Exceeded usize
  | Too_Many_Tags usize
  | Too_Many_Bytes usize
  | Non_Empty_End_List
  | Duplicate_Root_Field string
  | Invalid_Root_Field_Type string u8 u8
  | Partial_Position

text \<open>\<^verbatim>\<open>wire_error_reason\<close>: only malformed bytes, no policy limit and no semantic error.\<close>

definition wire_error :: "nbt_error \<Rightarrow> bool" where
  "wire_error e =
     (case e of
        Unknown_Tag _ \<Rightarrow> True | Unexpected_Eof _ _ _ \<Rightarrow> True | Var_Int_Too_Long \<Rightarrow> True
      | Var_Int_Overflow \<Rightarrow> True | Var_Long_Too_Long \<Rightarrow> True | Var_Long_Overflow \<Rightarrow> True
      | Negative_Length _ \<Rightarrow> True | Invalid_Utf8 \<Rightarrow> True | Non_Empty_End_List \<Rightarrow> True
      | _ \<Rightarrow> False)"

subsection \<open>The reader\<close>

definition require_remaining :: "cursor \<Rightarrow> usize \<Rightarrow> string \<Rightarrow> nbt_error + unit" where
  "require_remaining r len ctx =
     (let remaining = length (input r) - position r
      in if remaining < len then Inl (Unexpected_Eof ctx len remaining) else Inr ())"

definition read_exact :: "cursor \<Rightarrow> usize \<Rightarrow> string \<Rightarrow> nbt_error + (bytes \<times> cursor)" where
  "read_exact r len ctx =
     and_then (require_remaining r len ctx) (\<lambda>_.
       if position r + len > MAX_BLOCK_ENTITY_NBT_BYTES then Inl (Too_Many_Bytes MAX_BLOCK_ENTITY_NBT_BYTES)
       else Inr (take len (rest r), advance r len))"

definition read_u8 :: "cursor \<Rightarrow> string \<Rightarrow> nbt_error + (u8 \<times> cursor)" where
  "read_u8 r ctx = and_then (read_exact r 1 ctx) (\<lambda>(bs, r). Inr (hd bs, r))"

definition skip :: "cursor \<Rightarrow> usize \<Rightarrow> string \<Rightarrow> nbt_error + (unit \<times> cursor)" where
  "skip r len ctx = and_then (read_exact r len ctx) (\<lambda>(_, r). Inr ((), r))"

text \<open>The limit on elements applies only when the input holds the bytes they need at least.\<close>

definition check_collection_limit :: "cursor \<Rightarrow> usize \<Rightarrow> usize \<Rightarrow> string \<Rightarrow> nbt_error + unit" where
  "check_collection_limit r len minimum_element_bytes ctx =
     (if len \<le> MAX_NBT_COLLECTION_LENGTH then Inr ()
      else and_then (require_remaining r (min (2 ^ 64 - 1) (len * minimum_element_bytes)) ctx)
             (\<lambda>_. Inl (Collection_Too_Long len MAX_NBT_COLLECTION_LENGTH)))"

fun var_u32_loop :: "nat list \<Rightarrow> u32 \<Rightarrow> cursor \<Rightarrow> string \<Rightarrow> nbt_error + (u32 \<times> cursor)" where
  "var_u32_loop [] acc r ctx = Inl Var_Int_Too_Long"
| "var_u32_loop (i # is) acc r ctx =
     and_then (read_u8 r ctx) (\<lambda>(byte, r).
       if i = 4 \<and> byte AND 0x80 \<noteq> 0 then Inl Var_Int_Too_Long
       else if i = 4 \<and> byte AND 0x70 \<noteq> 0 then Inl Var_Int_Overflow
       else let acc = acc OR push_bit (i * 7) (ucast (byte AND 0x7F))
            in if byte AND 0x80 = 0 then Inr (acc, r) else var_u32_loop is acc r ctx)"

definition read_var_u32 :: "cursor \<Rightarrow> string \<Rightarrow> nbt_error + (u32 \<times> cursor)" where
  "read_var_u32 r ctx = var_u32_loop [0..<5] 0 r ctx"

definition read_zigzag_i32 :: "cursor \<Rightarrow> string \<Rightarrow> nbt_error + (i32 \<times> cursor)" where
  "read_zigzag_i32 r ctx = and_then (read_var_u32 r ctx) (\<lambda>(v, r). Inr (zigzag_decode v, r))"

definition skip_zigzag_i32 :: "cursor \<Rightarrow> string \<Rightarrow> nbt_error + (unit \<times> cursor)" where
  "skip_zigzag_i32 r ctx = and_then (read_zigzag_i32 r ctx) (\<lambda>(_, r). Inr ((), r))"

fun skip_i64_loop :: "nat list \<Rightarrow> cursor \<Rightarrow> string \<Rightarrow> nbt_error + (unit \<times> cursor)" where
  "skip_i64_loop [] r ctx = Inl Var_Long_Too_Long"
| "skip_i64_loop (i # is) r ctx =
     and_then (read_u8 r ctx) (\<lambda>(byte, r).
       if i = 9 \<and> byte AND 0x80 \<noteq> 0 then Inl Var_Long_Too_Long
       else if i = 9 \<and> byte AND 0x7E \<noteq> 0 then Inl Var_Long_Overflow
       else if byte AND 0x80 = 0 then Inr ((), r) else skip_i64_loop is r ctx)"

definition skip_zigzag_i64 :: "cursor \<Rightarrow> string \<Rightarrow> nbt_error + (unit \<times> cursor)" where
  "skip_zigzag_i64 r ctx = skip_i64_loop [0..<10] r ctx"

definition read_collection_length :: "cursor \<Rightarrow> string \<Rightarrow> nbt_error + (usize \<times> cursor)" where
  "read_collection_length r ctx =
     and_then (read_zigzag_i32 r ctx) (\<lambda>(value, r).
       if value < 0 then Inl (Negative_Length value) else Inr (nat value, r))"

definition read_string :: "cursor \<Rightarrow> string \<Rightarrow> nbt_error + (bytes \<times> cursor)" where
  "read_string r ctx =
     and_then (read_var_u32 r ctx) (\<lambda>(v, r).
       let len = unat v
       in and_then (require_remaining r len ctx) (\<lambda>_.
            if len > MAX_NBT_STRING_BYTES then Inl (String_Too_Long len MAX_NBT_STRING_BYTES)
            else and_then (read_exact r len ctx) (\<lambda>(bs, r).
              if valid_utf8 bs then Inr (bs, r) else Inl Invalid_Utf8)))"

subsection \<open>The scan\<close>

definition visit_tag :: "usize \<Rightarrow> nbt_error + usize" where
  "visit_tag tags = (if tags + 1 > MAX_NBT_TAGS then Inl (Too_Many_Tags MAX_NBT_TAGS) else Inr (tags + 1))"

definition enter_container :: "usize \<Rightarrow> nbt_error + usize" where
  "enter_container depth = (if depth \<ge> MAX_NBT_DEPTH then Inl (Depth_Exceeded MAX_NBT_DEPTH) else Inr (depth + 1))"

definition minimum_payload_size :: "u8 \<Rightarrow> nbt_error + usize" where
  "minimum_payload_size tag =
     (if tag = 1 then Inr 1 else if tag = 2 then Inr 2
      else if tag \<in> {3, 4, 7, 8, 10, 11, 12} then Inr 1
      else if tag = 5 then Inr 4 else if tag = 6 then Inr 8 else if tag = 9 then Inr 2
      else Inl (Unknown_Tag tag))"

fun repeat_skip :: "nat \<Rightarrow> (cursor \<Rightarrow> nbt_error + (unit \<times> cursor)) \<Rightarrow> cursor \<Rightarrow> nbt_error + (unit \<times> cursor)" where
  "repeat_skip 0 f r = Inr ((), r)"
| "repeat_skip (Suc n) f r = and_then (f r) (\<lambda>(_, r). repeat_skip n f r)"

text \<open>The arms of the match on a tag that hold no further tags; \<open>None\<close> for the others.\<close>

definition scan_scalar :: "u8 \<Rightarrow> cursor \<Rightarrow> (nbt_error + (unit \<times> cursor)) option" where
  "scan_scalar tag r =
     (if tag = 1 then Some (skip r 1 ''byte'')
      else if tag = 2 then Some (skip r 2 ''short'')
      else if tag = 3 then Some (skip_zigzag_i32 r ''int'')
      else if tag = 4 then Some (skip_zigzag_i64 r ''long'')
      else if tag = 5 then Some (skip r 4 ''float'')
      else if tag = 6 then Some (skip r 8 ''double'')
      else if tag = 7 then
        Some (and_then (read_collection_length r ''byte array'') (\<lambda>(len, r). skip r len ''byte array''))
      else if tag = 8 then Some (and_then (read_string r ''string'') (\<lambda>(_, r). Inr ((), r)))
      else if tag = 11 then
        Some (and_then (read_collection_length r ''int array'') (\<lambda>(len, r).
          and_then (check_collection_limit r len 1 ''int array elements'') (\<lambda>_.
            repeat_skip len (\<lambda>r. skip_zigzag_i32 r ''int array element'') r)))
      else if tag = 12 then
        Some (and_then (read_collection_length r ''long array'') (\<lambda>(len, r).
          and_then (check_collection_limit r len 1 ''long array elements'') (\<lambda>_.
            repeat_skip len (\<lambda>r. skip_zigzag_i64 r ''long array element'') r)))
      else None)"

text \<open>
  \<^verbatim>\<open>scan_payload\<close> with its two loops: the elements of a list and the members of a compound.  The
  state is the number of tags visited and the reader.
\<close>

datatype scan_task = Payload u8 | Elements usize u8 | Members

function scan :: "scan_task \<Rightarrow> usize \<Rightarrow> usize \<times> cursor \<Rightarrow> nbt_error + (usize \<times> cursor)" where
  "scan (Payload tag) depth (tags, r) =
     (case scan_scalar tag r of
        Some res \<Rightarrow> and_then res (\<lambda>(_, r). Inr (tags, r))
      | None \<Rightarrow>
          if tag = 9 then
            and_then (enter_container depth) (\<lambda>nested.
              and_then (read_u8 r ''list element tag'') (\<lambda>(element_tag, r).
                and_then (read_collection_length r ''list'') (\<lambda>(len, r).
                  if element_tag = 0 \<and> len \<noteq> 0 then Inl Non_Empty_End_List
                  else and_then (if len \<noteq> 0
                      then and_then (minimum_payload_size element_tag) (\<lambda>size.
                        check_collection_limit r len size ''list elements'') else Inr ()) (\<lambda>_.
                    scan (Elements len element_tag) nested (tags, r)))))
          else if tag = 10 then
            and_then (enter_container depth) (\<lambda>nested. scan Members nested (tags, r))
          else Inl (Unknown_Tag tag))"
| "scan (Elements 0 tag) depth (tags, r) = Inr (tags, r)"
| "scan (Elements (Suc n) tag) depth (tags, r) =
     and_then (visit_tag tags) (\<lambda>tags.
       and_then (scan (Payload tag) depth (tags, r)) (\<lambda>(tags, r). scan (Elements n tag) depth (tags, r)))"
| "scan Members depth (tags, r) =
     and_then (read_u8 r ''compound tag'') (\<lambda>(child_tag, r).
       if child_tag = 0 then Inr (tags, r)
       else and_then (visit_tag tags) (\<lambda>tags.
         and_then (read_string r ''tag name'') (\<lambda>(_, r).
           and_then (scan (Payload child_tag) depth (tags, r)) (\<lambda>(tags, r). scan Members depth (tags, r)))))"
  by pat_completeness auto

text \<open>Termination: a scan never forgets a visited tag, and members are bounded by the tag limit.\<close>

lemma visit_tag_Inr: "visit_tag tags = Inr tags' \<longleftrightarrow> tags' = tags + 1 \<and> tags < MAX_NBT_TAGS"
  by (auto simp: visit_tag_def)

lemma enter_container_Inr: "enter_container d = Inr d' \<longleftrightarrow> d' = d + 1 \<and> d < MAX_NBT_DEPTH"
  by (auto simp: enter_container_def)

lemma scan_tags_mono:
  "scan_dom (task, depth, st) \<Longrightarrow> scan task depth st = Inr st' \<Longrightarrow> fst st \<le> fst st'"
proof (induction task depth st arbitrary: st' rule: scan.pinduct)
  case (1 tag depth tags r)
  note unfold = scan.psimps(1) [OF 1(1)]
  show ?case
  proof (cases "scan_scalar tag r")
    case None
    show ?thesis
    proof (cases "tag = 9")
      case True
      obtain nested element r1 len r2 where steps: "enter_container depth = Inr nested"
          "read_u8 r ''list element tag'' = Inr (element, r1)"
          "read_collection_length r1 ''list'' = Inr (len, r2)" "\<not> (element = 0 \<and> len \<noteq> 0)"
          "(if len \<noteq> 0 then and_then (minimum_payload_size element) (\<lambda>size.
              check_collection_limit r2 len size ''list elements'') else Inr ()) = Inr ()"
        and rec: "scan (Elements len element) nested (tags, r2) = Inr st'"
        using 1(4) None True unfolding unfold
        by (auto simp: and_then_Inr_iff split: if_splits)
      show ?thesis using 1(2) [OF None True steps(1,2) _ steps(3) _ steps(4,5) rec] by simp
    next
      case False
      then obtain nested where "tag = 10" "enter_container depth = Inr nested"
        and "scan Members nested (tags, r) = Inr st'"
        using 1(4) None unfolding unfold by (auto simp: and_then_Inr_iff split: if_splits)
      then show ?thesis using 1(3) [OF None False] by simp
    qed
  next
    case (Some res)
    then show ?thesis using 1(4) unfolding unfold by (auto simp: and_then_Inr_iff)
  qed
next
  case (3 n tag depth tags r)
  obtain t r1 t1 where "visit_tag tags = Inr t" "scan (Payload tag) depth (t, r) = Inr (t1, r1)"
    and "scan (Elements n tag) depth (t1, r1) = Inr st'"
    using 3(4) unfolding scan.psimps(3) [OF 3(1)] by (auto simp: and_then_Inr_iff)
  then show ?case using 3(2) [of t "(t1, r1)"] 3(3) [of t "(t1, r1)" t1 r1] by (simp add: visit_tag_Inr)
next
  case (4 depth tags r)
  obtain child r1 where child: "read_u8 r ''compound tag'' = Inr (child, r1)"
    and body: "(if child = 0 then Inr (tags, r1)
       else and_then (visit_tag tags) (\<lambda>tags. and_then (read_string r1 ''tag name'') (\<lambda>(_, r).
         and_then (scan (Payload child) depth (tags, r)) (\<lambda>(tags, r). scan Members depth (tags, r))))) = Inr st'"
    using 4(4) unfolding scan.psimps(4) [OF 4(1)] by (auto simp: and_then_Inr_iff)
  show ?case
  proof (cases "child = 0")
    case False
    then obtain t name r2 r3 t3 where "visit_tag tags = Inr t" "read_string r1 ''tag name'' = Inr (name, r2)"
      "scan (Payload child) depth (t, r2) = Inr (t3, r3)" "scan Members depth (t3, r3) = Inr st'"
      using body by (auto simp: and_then_Inr_iff)
    then show ?thesis
      using 4(2) [OF child refl False, of t "(name, r2)" name r2 "(t3, r3)"]
        4(3) [OF child refl False, of t "(name, r2)" name r2 "(t3, r3)" t3 r3] by (simp add: visit_tag_Inr)
  qed (use body in auto)
qed (simp add: scan.psimps)

fun scan_measure :: "scan_task \<times> usize \<times> usize \<times> cursor \<Rightarrow> nat \<times> nat \<times> nat" where
  "scan_measure (Payload tag, depth, tags, r) = (MAX_NBT_DEPTH - depth, 0, 0)"
| "scan_measure (Elements n tag, depth, tags, r) = (MAX_NBT_DEPTH - depth, 1, n)"
| "scan_measure (Members, depth, tags, r) = (MAX_NBT_DEPTH - depth, 1, MAX_NBT_TAGS - tags)"

termination scan
  by (relation "inv_image (less_than <*lex*> less_than <*lex*> less_than) scan_measure")
    (auto simp: enter_container_Inr visit_tag_Inr dest!: scan_tags_mono)

subsection \<open>Scans are local\<close>

lemma local_read_exact [local_intros]: "local_at (\<lambda>r. read_exact r len ctx) r"
  unfolding local_at_def
proof (intro allI impI)
  fix x r' assume "read_exact r len ctx = Inr (x, r')"
  then have ok: "len \<le> length (rest r)" "position r + len \<le> MAX_BLOCK_ENTITY_NBT_BYTES"
    "x = take len (rest r)" "r' = advance r len"
    by (auto simp: read_exact_def require_remaining_def result_simps Let_def split: if_splits)
  have "read_exact s len ctx = Inr (x, advance s len)"
    if "position s = position r" "take len (rest s) = take len (rest r)" for s
  proof -
    have "length (take len (rest s)) = len" using that(2) ok(1) by simp
    then have "len \<le> length (rest s)" by simp
    then show ?thesis using that ok by (simp add: read_exact_def require_remaining_def Let_def)
  qed
  then show "\<exists>n\<le>length (rest r). r' = advance r n \<and> (\<forall>s. position s = position r \<longrightarrow>
      take n (rest s) = take n (rest r) \<longrightarrow> read_exact s len ctx = Inr (x, advance s n))"
    using ok by blast
qed

lemma local_read_u8 [local_intros]: "local_at (\<lambda>r. read_u8 r ctx) r"
  unfolding read_u8_def by (intro local_intros)

lemma local_skip [local_intros]: "local_at (\<lambda>r. skip r len ctx) r"
  unfolding skip_def by (intro local_intros)

lemma local_var_u32_loop: "local_at (\<lambda>r. var_u32_loop is acc r ctx) r"
  by (induction "is" arbitrary: acc r) (auto intro!: local_intros simp: Let_def)

lemma local_read_var_u32 [local_intros]: "local_at (\<lambda>r. read_var_u32 r ctx) r"
  unfolding read_var_u32_def by (rule local_var_u32_loop)

lemma local_read_zigzag [local_intros]: "local_at (\<lambda>r. read_zigzag_i32 r ctx) r"
  unfolding read_zigzag_i32_def by (intro local_intros)

lemma local_skip_zigzag [local_intros]: "local_at (\<lambda>r. skip_zigzag_i32 r ctx) r"
  unfolding skip_zigzag_i32_def by (intro local_intros)

lemma local_skip_i64_loop: "local_at (\<lambda>r. skip_i64_loop is r ctx) r"
  by (induction "is" arbitrary: r) (auto intro!: local_intros)

lemma local_skip_i64 [local_intros]: "local_at (\<lambda>r. skip_zigzag_i64 r ctx) r"
  unfolding skip_zigzag_i64_def by (rule local_skip_i64_loop)

lemma local_collection_length [local_intros]: "local_at (\<lambda>r. read_collection_length r ctx) r"
  unfolding read_collection_length_def by (intro local_intros)

lemma local_read_string [local_intros]: "local_at (\<lambda>r. read_string r ctx) r"
  unfolding read_string_def
proof (rule local_bind)
  fix v r
  let ?tail = "\<lambda>r. if unat v > MAX_NBT_STRING_BYTES
      then Inl (String_Too_Long (unat v) MAX_NBT_STRING_BYTES)
      else and_then (read_exact r (unat v) ctx) (\<lambda>(bs, r). if valid_utf8 bs then Inr (bs, r) else Inl Invalid_Utf8)"
  have "local_at ?tail r" by (intro local_intros)
  then show "local_at (\<lambda>r. let len = unat v in and_then (require_remaining r len ctx) (\<lambda>_.
            if len > MAX_NBT_STRING_BYTES then Inl (String_Too_Long len MAX_NBT_STRING_BYTES)
            else and_then (read_exact r len ctx) (\<lambda>(bs, r). if valid_utf8 bs then Inr (bs, r) else Inl Invalid_Utf8))) r"
    by (rule local_at_weaken) (auto simp: Let_def result_simps read_exact_def split: if_splits)
qed (rule local_read_var_u32)

lemma local_check [local_intros]:
  assumes "local_at g r"
  shows "local_at (\<lambda>r. and_then (check_collection_limit r len least ctx) (\<lambda>_. g r)) r"
  by (rule local_at_weaken [OF assms])
    (auto simp: check_collection_limit_def result_simps split: if_splits)

lemma local_repeat [local_intros]:
  assumes "\<And>r. local_at f r" shows "local_at (\<lambda>r. repeat_skip n f r) r"
proof (induction n arbitrary: r)
  case 0
  have "repeat_skip 0 f = (\<lambda>r. Inr ((), r))" by (rule ext) simp
  then show ?case by (simp add: local_return)
next
  case (Suc n)
  have "repeat_skip (Suc n) f = (\<lambda>r. and_then (f r) (\<lambda>(_, r). repeat_skip n f r))" by (rule ext) simp
  then show ?case using local_bind [OF assms Suc] by simp
qed

lemma local_scan_scalar:
  assumes "scan_scalar tag r = Some res"
  shows "local_at (\<lambda>r. the (scan_scalar tag r)) r"
proof -
  consider "tag = 1" | "tag = 2" | "tag = 3" | "tag = 4" | "tag = 5" | "tag = 6" | "tag = 7" | "tag = 8"
    | "tag = 11" | "tag = 12"
    using assms by (auto simp: scan_scalar_def split: if_splits)
  then show ?thesis
    by cases (simp add: scan_scalar_def, intro local_intros)+
qed

lemma local_scan: "local_at (\<lambda>r. scan task depth (tags, r)) r"
proof (induction task depth "(tags, r)" arbitrary: tags r rule: scan.induct)
  case (1 tag depth tags r)
  show ?case
  proof (cases "\<exists>res. scan_scalar tag r = Some res")
    case True
    then have some: "scan_scalar tag s \<noteq> None" for s by (auto simp: scan_scalar_def split: if_splits)
    define f where "f = (\<lambda>s. the (scan_scalar tag s))"
    have f: "scan_scalar tag s = Some (f s)" for s using some [of s] by (simp add: f_def)
    have "local_at f r" using local_scan_scalar [OF f] by (simp add: f)
    then have "local_at (\<lambda>r. and_then (f r) (\<lambda>(_, r). Inr (tags, r))) r" by (intro local_intros)
    then show ?thesis by (simp add: f)
  next
    case False
    then have none: "scan_scalar tag s = None" for s
      by (auto simp: scan_scalar_def split: if_splits)
    show ?thesis
    proof (cases "tag = 9")
      case True
      show ?thesis
      proof (cases "enter_container depth")
        case (Inl e)
        then show ?thesis using none True by (simp add: local_error)
      next
        case (Inr nested)
        have "local_at (\<lambda>r. and_then (read_u8 r ''list element tag'') (\<lambda>(element_tag, r).
                and_then (read_collection_length r ''list'') (\<lambda>(len, r).
                  if element_tag = 0 \<and> len \<noteq> 0 then Inl Non_Empty_End_List
                  else and_then (if len \<noteq> 0
                      then and_then (minimum_payload_size element_tag) (\<lambda>size.
                        check_collection_limit r len size ''list elements'') else Inr ()) (\<lambda>_.
                    scan (Elements len element_tag) nested (tags, r))))) r"
        proof (intro local_bind local_read_u8 local_collection_length local_if local_error)
          fix element r1 len r2
          assume steps: "read_u8 r ''list element tag'' = Inr (element, r1)"
            "read_collection_length r1 ''list'' = Inr (len, r2)" "\<not> (element = 0 \<and> len \<noteq> 0)"
          let ?check = "\<lambda>r. if len \<noteq> 0 then and_then (minimum_payload_size element) (\<lambda>size.
              check_collection_limit r len size ''list elements'') else Inr ()"
          have independent: "?check r2 = Inr u \<Longrightarrow> ?check s = Inr u" for s u
            by (auto simp: result_simps check_collection_limit_def split: if_splits)
          show "local_at (\<lambda>r. and_then (?check r) (\<lambda>_. scan (Elements len element) nested (tags, r))) r2"
          proof (cases "?check r2")
            case (Inr u)
            have "local_at (\<lambda>r. scan (Elements len element) nested (tags, r)) r2"
              using 1(1) none True \<open>enter_container depth = Inr nested\<close> steps Inr by auto
            then show ?thesis
              by (rule local_at_weaken) (use Inr independent in \<open>auto simp: and_then_Inr_iff\<close>)
          qed (simp add: local_at_def)
        qed
        then show ?thesis using none True Inr by simp
      qed
    next
      case False
      then show ?thesis
        using 1(2) none by (cases "tag = 10"; cases "enter_container depth") (auto simp: local_error)
    qed
  qed
next
  case (2 tag depth tags r)
  then show ?case by (simp add: local_return)
next
  case (3 n tag depth tags r)
  show ?case
  proof (cases "visit_tag tags")
    case (Inr t)
    have "local_at (\<lambda>r. and_then (scan (Payload tag) depth (t, r)) (\<lambda>(tags, r). scan (Elements n tag) depth (tags, r))) r"
      using 3 Inr by (intro local_bind) auto
    then show ?thesis using Inr by simp
  qed (simp add: local_error)
next
  case (4 depth tags r)
  have "local_at (\<lambda>r. and_then (read_u8 r ''compound tag'') (\<lambda>(child_tag, r).
       if child_tag = 0 then Inr (tags, r)
       else and_then (visit_tag tags) (\<lambda>tags.
         and_then (read_string r ''tag name'') (\<lambda>(_, r).
           and_then (scan (Payload child_tag) depth (tags, r)) (\<lambda>(tags, r). scan Members depth (tags, r)))))) r"
  proof (intro local_bind local_read_u8 local_if local_return)
    fix child r1 assume child: "read_u8 r ''compound tag'' = Inr (child, r1)" "child \<noteq> 0"
    show "local_at (\<lambda>r. and_then (visit_tag tags) (\<lambda>tags.
         and_then (read_string r ''tag name'') (\<lambda>(_, r).
           and_then (scan (Payload child) depth (tags, r)) (\<lambda>(tags, r). scan Members depth (tags, r))))) r1"
    proof (cases "visit_tag tags")
      case (Inr t)
      have "local_at (\<lambda>r. and_then (read_string r ''tag name'') (\<lambda>(_, r).
           and_then (scan (Payload child) depth (t, r)) (\<lambda>(tags, r). scan Members depth (tags, r)))) r1"
        using 4 Inr child by (intro local_bind local_read_string) auto
      then show ?thesis using Inr by simp
    qed (simp add: local_error)
  qed
  then show ?case by simp
qed

declare scan.simps [simp del]

end
