(* ===== verification/Ordered_Map.thy ===== *)
theory Ordered_Map
  imports Prelude
begin

section \<open>Ordered maps\<close>

text \<open>
  Rust's \<^verbatim>\<open>BTreeMap\<close> as the world model uses it: a list of key/value pairs strictly ordered by key.
  \<open>ordered_map\<close> is the interface the chunk store relies on, interpreted below on these lists; an
  \<^verbatim>\<open>Arc\<close> of a map is the map, since the store never reads a map through two handles that differ.
\<close>

type_synonym ('k, 'v) btree_map = "('k \<times> 'v) list"

definition bt_empty :: "('k, 'v) btree_map" where
  "bt_empty = []"

definition bt_get :: "('k, 'v) btree_map \<Rightarrow> 'k \<Rightarrow> 'v option" where
  "bt_get m k = map_of m k"

definition bt_contains :: "('k, 'v) btree_map \<Rightarrow> 'k \<Rightarrow> bool" where
  "bt_contains m k \<longleftrightarrow> bt_get m k \<noteq> None"

fun bt_insert :: "'k::linorder \<Rightarrow> 'v \<Rightarrow> ('k, 'v) btree_map \<Rightarrow> ('k, 'v) btree_map" where
  "bt_insert k v [] = [(k, v)]"
| "bt_insert k v ((k', v') # m) =
     (if k < k' then (k, v) # (k', v') # m
      else if k = k' then (k, v) # m else (k', v') # bt_insert k v m)"

definition bt_remove :: "'k \<Rightarrow> ('k, 'v) btree_map \<Rightarrow> ('k, 'v) btree_map" where
  "bt_remove k m = filter (\<lambda>(k', v). k' \<noteq> k) m"

definition bt_retain :: "('k \<Rightarrow> 'v \<Rightarrow> bool) \<Rightarrow> ('k, 'v) btree_map \<Rightarrow> ('k, 'v) btree_map" where
  "bt_retain P m = filter (\<lambda>(k, v). P k v) m"

definition bt_extend :: "('k::linorder, 'v) btree_map \<Rightarrow> ('k \<times> 'v) list \<Rightarrow> ('k, 'v) btree_map" where
  "bt_extend m kvs = fold (\<lambda>(k, v). bt_insert k v) kvs m"

definition bt_keys :: "('k, 'v) btree_map \<Rightarrow> 'k list" where
  "bt_keys m = map fst m"

definition bt_values :: "('k, 'v) btree_map \<Rightarrow> 'v list" where
  "bt_values m = map snd m"

definition bt_map_values :: "('k \<Rightarrow> 'v \<Rightarrow> 'w) \<Rightarrow> ('k, 'v) btree_map \<Rightarrow> ('k, 'w) btree_map" where
  "bt_map_values f m = map (\<lambda>(k, v). (k, f k v)) m"

definition bt_invar :: "('k::linorder, 'v) btree_map \<Rightarrow> bool" where
  "bt_invar m \<longleftrightarrow> sorted_wrt (<) (bt_keys m)"

text \<open>\<^verbatim>\<open>BTreeSet\<close>: the sorted list of its elements.\<close>

definition bt_set :: "'k::linorder list \<Rightarrow> 'k list" where
  "bt_set ks = sort (remdups ks)"

lemma bt_set_facts [simp]: "set (bt_set ks) = set ks" "sorted (bt_set ks)" "distinct (bt_set ks)"
  by (simp_all add: bt_set_def)

lemma bt_set_eq_iff: "bt_set ks = bt_set ls \<longleftrightarrow> set ks = set ls"
  by (metis bt_set_facts sorted_distinct_set_unique)

lemma bt_set_id: "sorted ks \<Longrightarrow> distinct ks \<Longrightarrow> bt_set ks = ks"
  by (simp add: bt_set_def distinct_remdups_id sorted_sort_id)

lemma bt_set_empty_iff [simp]: "bt_set ks = [] \<longleftrightarrow> ks = []"
  using bt_set_facts(1) [of ks] by (metis set_empty)

subsection \<open>The interface\<close>

locale ordered_map =
  fixes empty :: 'm
    and lookup :: "'m \<Rightarrow> 'k::linorder \<Rightarrow> 'v option"
    and insert :: "'k \<Rightarrow> 'v \<Rightarrow> 'm \<Rightarrow> 'm"
    and remove :: "'k \<Rightarrow> 'm \<Rightarrow> 'm"
    and keys :: "'m \<Rightarrow> 'k list"
    and invar :: "'m \<Rightarrow> bool"
  assumes invar_empty: "invar empty"
    and invar_insert: "invar m \<Longrightarrow> invar (insert k v m)"
    and invar_remove: "invar m \<Longrightarrow> invar (remove k m)"
    and lookup_empty: "lookup empty k = None"
    and lookup_insert: "invar m \<Longrightarrow> lookup (insert k v m) k' = (if k' = k then Some v else lookup m k')"
    and lookup_remove: "invar m \<Longrightarrow> lookup (remove k m) k' = (if k' = k then None else lookup m k')"
    and keys_sorted: "invar m \<Longrightarrow> sorted_wrt (<) (keys m)"
    and keys_lookup: "invar m \<Longrightarrow> k \<in> set (keys m) \<longleftrightarrow> lookup m k \<noteq> None"
    and lookup_ext: "invar m \<Longrightarrow> invar n \<Longrightarrow> (\<And>k. lookup m k = lookup n k) \<Longrightarrow> m = n"
begin

lemma keys_distinct: "invar m \<Longrightarrow> distinct (keys m)"
  using keys_sorted by (simp add: strict_sorted_iff)

lemma remove_absent: "invar m \<Longrightarrow> lookup m k = None \<Longrightarrow> remove k m = m"
  by (rule lookup_ext) (auto simp: invar_remove lookup_remove)

lemma insert_same: "invar m \<Longrightarrow> lookup m k = Some v \<Longrightarrow> insert k v m = m"
  by (rule lookup_ext) (auto simp: invar_insert lookup_insert)

lemma remove_insert: "invar m \<Longrightarrow> lookup m k = None \<Longrightarrow> remove k (insert k v m) = m"
  by (rule lookup_ext) (auto simp: invar_insert invar_remove lookup_insert lookup_remove)

lemma keys_insert:
  "invar m \<Longrightarrow> set (keys (insert k v m)) = Set.insert k (set (keys m))"
  using keys_lookup [OF invar_insert] keys_lookup lookup_insert by (auto split: if_splits)

lemma keys_remove: "invar m \<Longrightarrow> set (keys (remove k m)) = set (keys m) - {k}"
  using keys_lookup [OF invar_remove] keys_lookup lookup_remove by (auto split: if_splits)

lemma empty_iff: "invar m \<Longrightarrow> keys m = [] \<longleftrightarrow> m = empty"
proof
  assume m: "invar m" and k: "keys m = []"
  show "m = empty"
    by (rule lookup_ext [OF m invar_empty]) (metis k keys_lookup [OF m] lookup_empty empty_iff empty_set)
next
  assume m: "invar m" and "m = empty"
  then show "keys m = []" using keys_lookup [OF m] lookup_empty by (metis list.set_intros(1) neq_Nil_conv)
qed

end

subsection \<open>Sorted association lists provide it\<close>

lemma bt_keys_insert: "set (bt_keys (bt_insert k v m)) = insert k (set (bt_keys m))"
  by (induction k v m rule: bt_insert.induct) (auto simp: bt_keys_def)

lemma bt_invar_Cons:
  "bt_invar ((k, v) # m) \<longleftrightarrow> (\<forall>k'\<in>set (bt_keys m). k < k') \<and> bt_invar m"
  by (simp add: bt_invar_def bt_keys_def)

lemma bt_invar_insert: "bt_invar m \<Longrightarrow> bt_invar (bt_insert k v m)"
proof (induction k v m rule: bt_insert.induct)
  case (2 k v k' v' m)
  then show ?case using bt_keys_insert [of k v m] by (auto simp: bt_invar_Cons) (auto simp: bt_keys_def)
qed (simp add: bt_invar_def bt_keys_def)

lemma bt_get_insert: "bt_invar m \<Longrightarrow> bt_get (bt_insert k v m) k' = (if k' = k then Some v else bt_get m k')"
  by (induction k v m rule: bt_insert.induct) (auto simp: bt_get_def bt_invar_Cons)

lemma bt_invar_filter: "bt_invar m \<Longrightarrow> bt_invar (filter P m)"
  by (induction m) (auto simp: bt_invar_def bt_keys_def)

lemma bt_get_filter:
  "bt_invar m \<Longrightarrow> bt_get (filter (\<lambda>(k, v). P k v) m) k =
     (case bt_get m k of None \<Rightarrow> None | Some v \<Rightarrow> if P k v then Some v else None)"
proof (induction m)
  case (Cons x m)
  obtain k' v' where x: "x = (k', v')" by fastforce
  have "bt_get (filter (\<lambda>(k, v). P k v) m) k' = None" if "k = k'"
  proof -
    have "k' \<notin> fst ` set m" using Cons.prems by (auto simp: x bt_invar_Cons bt_keys_def)
    then show ?thesis by (auto simp: bt_get_def map_of_eq_None_iff)
  qed
  then show ?case using Cons by (auto simp: x bt_get_def bt_invar_Cons)
qed (simp add: bt_get_def)

lemma bt_get_keys: "k \<in> set (bt_keys m) \<longleftrightarrow> bt_get m k \<noteq> None"
  by (auto simp: bt_keys_def bt_get_def map_of_eq_None_iff)

lemma bt_get_in: "bt_invar m \<Longrightarrow> bt_get m k = Some v \<longleftrightarrow> (k, v) \<in> set m"
  by (induction m) (force simp: bt_get_def bt_invar_def bt_keys_def)+

lemma bt_ext:
  assumes "bt_invar m" "bt_invar n" "\<And>k. bt_get m k = bt_get n k" shows "m = n"
proof -
  have "distinct m" "distinct n" using assms(1,2)
    by (auto simp: bt_invar_def bt_keys_def strict_sorted_iff distinct_map)
  have "set m = set n" using assms bt_get_in by (metis subset_antisym subrelI)
  moreover have "sorted (map fst m)" "sorted (map fst n)" "distinct (map fst m)" "distinct (map fst n)"
    using assms(1,2) by (auto simp: bt_invar_def bt_keys_def strict_sorted_iff)
  ultimately show ?thesis by (metis map_sorted_distinct_set_unique inj_onI distinct_map inj_on_def Un_absorb)
qed

interpretation bt: ordered_map bt_empty bt_get bt_insert bt_remove bt_keys bt_invar
proof (unfold_locales, goal_cases)
  case (3 m k)
  then show ?case by (simp add: bt_remove_def bt_invar_filter)
next
  case (6 m k k')
  then show ?case using bt_get_filter [of m "\<lambda>k' v. k' \<noteq> k" k'] by (auto simp: bt_remove_def split: option.split)
next
  case (8 m k)
  show ?case by (rule bt_get_keys)
next
  case (9 m n)
  then show ?case by (rule bt_ext)
qed (auto simp: bt_empty_def bt_get_def bt_invar_def bt_keys_def bt_invar_insert [unfolded bt_invar_def bt_keys_def]
      bt_get_insert [unfolded bt_get_def bt_invar_def bt_keys_def])

lemmas bt_simps [simp] = bt.invar_empty bt.invar_insert bt.invar_remove bt.lookup_empty

subsection \<open>Retaining, extending, mapping values\<close>

lemma bt_invar_retain [simp]: "bt_invar m \<Longrightarrow> bt_invar (bt_retain P m)"
  by (simp add: bt_retain_def bt_invar_filter)

lemma bt_get_retain:
  "bt_invar m \<Longrightarrow> bt_get (bt_retain P m) k =
     (case bt_get m k of None \<Rightarrow> None | Some v \<Rightarrow> if P k v then Some v else None)"
  by (simp add: bt_retain_def bt_get_filter)

lemma bt_invar_extend [simp]: "bt_invar m \<Longrightarrow> bt_invar (bt_extend m kvs)"
  unfolding bt_extend_def by (rule fold_invariant) (auto simp: bt.invar_insert)

lemma bt_get_extend:
  "bt_invar m \<Longrightarrow> bt_invar n \<Longrightarrow>
    bt_get (bt_extend m n) k = (case bt_get n k of None \<Rightarrow> bt_get m k | Some v \<Rightarrow> Some v)"
proof (induction n arbitrary: m)
  case (Cons x n)
  obtain k' v' where x: "x = (k', v')" by fastforce
  have n: "bt_invar n" and k': "k' \<notin> fst ` set n"
    using Cons.prems(2) by (auto simp: x bt_invar_Cons bt_keys_def)
  have "bt_extend m (x # n) = bt_extend (bt_insert k' v' m) n" by (simp add: bt_extend_def x)
  then show ?case
    using Cons.IH [OF bt_invar_insert [OF Cons.prems(1)] n, of k' v'] bt_get_insert [OF Cons.prems(1), of k' v' k]
      k' map_of_eq_None_iff [of n k']
    by (cases "k = k'") (auto simp: x bt_get_def split: option.splits)
qed (simp add: bt_extend_def bt_get_def)

lemma bt_keys_map_values [simp]: "bt_keys (bt_map_values f m) = bt_keys m"
  by (simp add: bt_keys_def bt_map_values_def case_prod_unfold)

lemma bt_invar_map_values [simp]: "bt_invar (bt_map_values f m) \<longleftrightarrow> bt_invar m"
  by (simp add: bt_invar_def)

lemma bt_get_map_values: "bt_get (bt_map_values f m) k = map_option (f k) (bt_get m k)"
  by (induction m) (auto simp: bt_get_def bt_map_values_def)

text \<open>A total over the values of a map, as an entry comes or goes.\<close>

lemma bt_total_insert:
  fixes f :: "'v \<Rightarrow> nat"
  assumes "bt_invar m"
  shows "sum_list (map f (bt_values (bt_insert k v m))) +
      (case bt_get m k of None \<Rightarrow> 0 | Some u \<Rightarrow> f u) = sum_list (map f (bt_values m)) + f v"
  using assms
proof (induction k v m rule: bt_insert.induct)
  case (2 k v k' v' m)
  have "map_of m k = None" if "k \<le> k'"
  proof -
    have "k \<notin> fst ` set m" using 2(2) that by (fastforce simp: bt_invar_Cons bt_keys_def)
    then show ?thesis by (simp add: map_of_eq_None_iff)
  qed
  then show ?case using 2 by (auto simp: bt_values_def bt_get_def bt_invar_Cons split: option.splits)
qed (simp add: bt_values_def bt_get_def)

lemma bt_total_retain:
  fixes f :: "'v \<Rightarrow> nat"
  shows "sum_list (map f (bt_values m)) =
      sum_list (map f (bt_values (bt_retain P m))) + sum_list (map f (bt_values (bt_retain (\<lambda>k v. \<not> P k v) m)))"
  by (induction m) (auto simp: bt_values_def bt_retain_def)

lemma bt_length_retain:
  "length m = length (bt_retain P m) + length (bt_retain (\<lambda>k v. \<not> P k v) m)"
  by (induction m) (auto simp: bt_retain_def)

lemma bt_length_insert:
  "bt_invar m \<Longrightarrow> length (bt_insert k v m) = length m + (if bt_contains m k then 0 else 1)"
  by (induction k v m rule: bt_insert.induct)
    (auto simp: bt_contains_def bt_get_def bt_invar_Cons bt_keys_def map_of_eq_None_iff)

end
