(* ===== verification/Nbt_Tree.thy ===== *)
theory Nbt_Tree
  imports Nbt_Scan Ordered_Map
begin

section \<open>NBT trees\<close>

text \<open>
  The owned NBT tree of \<^verbatim>\<open>crates/world/src/nbt_tree.rs\<close>, its encoder and its parser.  Integers are
  words of their width; a float is its raw bits, since the code only moves them.
\<close>

datatype nbt_value =
    Nbt_Byte "8 word"
  | Nbt_Short "16 word"
  | Nbt_Int "32 word"
  | Nbt_Long "64 word"
  | Nbt_Float "32 word"
  | Nbt_Double "64 word"
  | Nbt_Byte_Array bytes
  | Nbt_String bytes
  | Nbt_List "nbt_value list"
  | Nbt_Compound "(bytes \<times> nbt_value) list"
  | Nbt_Int_Array "32 word list"
  | Nbt_Long_Array "64 word list"

type_synonym nbt_compound = "(bytes, nbt_value) btree_map"

subsection \<open>Lenient accessors\<close>

definition nbt_integer :: "nbt_compound \<Rightarrow> bytes \<Rightarrow> int option" where
  "nbt_integer c key =
     (case bt_get c key of
        Some (Nbt_Byte v) \<Rightarrow> Some (sint v)
      | Some (Nbt_Short v) \<Rightarrow> Some (sint v)
      | Some (Nbt_Int v) \<Rightarrow> Some (sint v)
      | Some (Nbt_Long v) \<Rightarrow> Some (sint v)
      | _ \<Rightarrow> None)"

definition nbt_boolean :: "nbt_compound \<Rightarrow> bytes \<Rightarrow> bool option" where
  "nbt_boolean c key = map_option (\<lambda>v. v \<noteq> 0) (nbt_integer c key)"

definition nbt_string :: "nbt_compound \<Rightarrow> bytes \<Rightarrow> bytes option" where
  "nbt_string c key = (case bt_get c key of Some (Nbt_String v) \<Rightarrow> Some v | _ \<Rightarrow> None)"

definition nbt_compound_at :: "nbt_compound \<Rightarrow> bytes \<Rightarrow> nbt_compound option" where
  "nbt_compound_at c key = (case bt_get c key of Some (Nbt_Compound v) \<Rightarrow> Some v | _ \<Rightarrow> None)"

definition nbt_list :: "nbt_compound \<Rightarrow> bytes \<Rightarrow> nbt_value list option" where
  "nbt_list c key = (case bt_get c key of Some (Nbt_List v) \<Rightarrow> Some v | _ \<Rightarrow> None)"

definition nbt_insert :: "bytes \<Rightarrow> nbt_value \<Rightarrow> nbt_compound \<Rightarrow> nbt_compound" where
  "nbt_insert key v c = bt_insert key v c"

subsection \<open>Encoding\<close>

definition nbt_tag :: "nbt_value \<Rightarrow> u8" where
  "nbt_tag v =
     (case v of
        Nbt_Byte _ \<Rightarrow> 1 | Nbt_Short _ \<Rightarrow> 2 | Nbt_Int _ \<Rightarrow> 3 | Nbt_Long _ \<Rightarrow> 4 | Nbt_Float _ \<Rightarrow> 5
      | Nbt_Double _ \<Rightarrow> 6 | Nbt_Byte_Array _ \<Rightarrow> 7 | Nbt_String _ \<Rightarrow> 8 | Nbt_List _ \<Rightarrow> 9
      | Nbt_Compound _ \<Rightarrow> 10 | Nbt_Int_Array _ \<Rightarrow> 11 | Nbt_Long_Array _ \<Rightarrow> 12)"

datatype encode_error = Encoding_Too_Deep | Mixed_List

fun validate_value :: "usize \<Rightarrow> nbt_value \<Rightarrow> encode_error + unit"
  and validate_values :: "usize \<Rightarrow> nbt_value list \<Rightarrow> encode_error + unit"
  and validate_members :: "usize \<Rightarrow> (bytes \<times> nbt_value) list \<Rightarrow> encode_error + unit"
where
  "validate_value depth v =
     (if depth > MAX_NBT_DEPTH \<or> (depth \<ge> MAX_NBT_DEPTH \<and> (nbt_tag v = 9 \<or> nbt_tag v = 10))
      then Inl Encoding_Too_Deep
      else (case v of
        Nbt_List items \<Rightarrow>
          if items \<noteq> [] \<and> (\<exists>item\<in>set items. nbt_tag item \<noteq> nbt_tag (hd items)) then Inl Mixed_List
          else validate_values (depth + 1) items
      | Nbt_Compound members \<Rightarrow> validate_members (depth + 1) members
      | _ \<Rightarrow> Inr ()))"
| "validate_values depth [] = Inr ()"
| "validate_values depth (v # vs) = and_then (validate_value depth v) (\<lambda>_. validate_values depth vs)"
| "validate_members depth [] = Inr ()"
| "validate_members depth ((name, v) # ms) = and_then (validate_value depth v) (\<lambda>_. validate_members depth ms)"

definition write_string :: "bytes \<Rightarrow> bytes" where
  "write_string text = write_var (length text) @ text"

text \<open>\<^verbatim>\<open>len() as i32\<close>, zigzag encoded.\<close>

definition write_length :: "nat \<Rightarrow> bytes" where
  "write_length n = write_var (unat (zigzag (word_of_nat n :: 32 word)))"

definition write_int :: "32 word \<Rightarrow> bytes" where
  "write_int v = write_var (unat (zigzag v))"

definition write_long :: "64 word \<Rightarrow> bytes" where
  "write_long v = write_var (unat (zigzag v))"

fun write_payload :: "nbt_value \<Rightarrow> bytes"
  and write_items :: "nbt_value list \<Rightarrow> bytes"
  and write_members :: "(bytes \<times> nbt_value) list \<Rightarrow> bytes"
where
  "write_payload (Nbt_Byte v) = [v]"
| "write_payload (Nbt_Short v) = to_le_bytes 2 (unat v)"
| "write_payload (Nbt_Int v) = write_int v"
| "write_payload (Nbt_Long v) = write_long v"
| "write_payload (Nbt_Float v) = to_le_bytes 4 (unat v)"
| "write_payload (Nbt_Double v) = to_le_bytes 8 (unat v)"
| "write_payload (Nbt_Byte_Array bs) = write_length (length bs) @ bs"
| "write_payload (Nbt_String text) = write_string text"
| "write_payload (Nbt_List items) =
     (case items of [] \<Rightarrow> 0 | item # _ \<Rightarrow> nbt_tag item) # write_length (length items) @ write_items items"
| "write_payload (Nbt_Compound members) = write_members members"
| "write_payload (Nbt_Int_Array items) = write_length (length items) @ concat (map write_int items)"
| "write_payload (Nbt_Long_Array items) = write_length (length items) @ concat (map write_long items)"
| "write_items [] = []"
| "write_items (v # vs) = write_payload v @ write_items vs"
| "write_members [] = [0]"
| "write_members ((name, v) # ms) = nbt_tag v # write_string name @ write_payload v @ write_members ms"

definition encode_root :: "nbt_compound \<Rightarrow> encode_error + bytes" where
  "encode_root c = and_then (validate_members 1 c) (\<lambda>_. Inr (10 # write_string [] @ write_members c))"

subsection \<open>Parsing\<close>

definition cur_take :: "cursor \<Rightarrow> usize \<Rightarrow> (bytes \<times> cursor) option" where
  "cur_take r n = (if n \<le> length (rest r) then Some (take n (rest r), advance r n) else None)"

definition cur_byte :: "cursor \<Rightarrow> (u8 \<times> cursor) option" where
  "cur_byte r = do { (bs, r) \<leftarrow> cur_take r 1; Some (hd bs, r) }"

fun var_u64_loop :: "nat list \<Rightarrow> 64 word \<Rightarrow> cursor \<Rightarrow> (64 word \<times> cursor) option" where
  "var_u64_loop [] acc r = None"
| "var_u64_loop (i # is) acc r = do {
     (byte, r) \<leftarrow> cur_byte r;
     let acc = acc OR push_bit (i * 7) (ucast (byte AND 0x7F));
     (if byte AND 0x80 = 0 then Some (acc, r) else var_u64_loop is acc r) }"

definition var_u64 :: "usize \<Rightarrow> cursor \<Rightarrow> (64 word \<times> cursor) option" where
  "var_u64 max_bytes r = var_u64_loop [0..<max_bytes] 0 r"

definition cur_zigzag_i32 :: "cursor \<Rightarrow> (32 word \<times> cursor) option" where
  "cur_zigzag_i32 r = do { (v, r) \<leftarrow> var_u64 5 r; Some (unzigzag (ucast v), r) }"

definition cur_zigzag_i64 :: "cursor \<Rightarrow> (64 word \<times> cursor) option" where
  "cur_zigzag_i64 r = do { (v, r) \<leftarrow> var_u64 10 r; Some (unzigzag v, r) }"

definition cur_length :: "cursor \<Rightarrow> (usize \<times> cursor) option" where
  "cur_length r = do { (v, r) \<leftarrow> cur_zigzag_i32 r; (if sint v < 0 then None else Some (nat (sint v), r)) }"

definition cur_string :: "cursor \<Rightarrow> (bytes \<times> cursor) option" where
  "cur_string r = do {
     (v, r) \<leftarrow> var_u64 5 r;
     (bs, r) \<leftarrow> cur_take r (unat v);
     (if valid_utf8 bs then Some (bs, r) else None) }"

fun cur_repeat :: "nat \<Rightarrow> (cursor \<Rightarrow> ('a \<times> cursor) option) \<Rightarrow> cursor \<Rightarrow> ('a list \<times> cursor) option" where
  "cur_repeat 0 f r = Some ([], r)"
| "cur_repeat (Suc n) f r = do { (x, r) \<leftarrow> f r; (xs, r) \<leftarrow> cur_repeat n f r; Some (x # xs, r) }"

text \<open>The arms of \<^verbatim>\<open>value\<close> that hold no further values.\<close>

definition parse_scalar :: "u8 \<Rightarrow> cursor \<Rightarrow> (nbt_value \<times> cursor) option" where
  "parse_scalar tag r =
     (if tag = 1 then do { (b, r) \<leftarrow> cur_byte r; Some (Nbt_Byte b, r) }
      else if tag = 2 then do { (bs, r) \<leftarrow> cur_take r 2; Some (Nbt_Short (word_of_nat (from_le_bytes bs)), r) }
      else if tag = 3 then do { (v, r) \<leftarrow> cur_zigzag_i32 r; Some (Nbt_Int v, r) }
      else if tag = 4 then do { (v, r) \<leftarrow> cur_zigzag_i64 r; Some (Nbt_Long v, r) }
      else if tag = 5 then do { (bs, r) \<leftarrow> cur_take r 4; Some (Nbt_Float (word_of_nat (from_le_bytes bs)), r) }
      else if tag = 6 then do { (bs, r) \<leftarrow> cur_take r 8; Some (Nbt_Double (word_of_nat (from_le_bytes bs)), r) }
      else if tag = 7 then do {
        (n, r) \<leftarrow> cur_length r; (bs, r) \<leftarrow> cur_take r n; Some (Nbt_Byte_Array bs, r) }
      else if tag = 8 then do { (text, r) \<leftarrow> cur_string r; Some (Nbt_String text, r) }
      else if tag = 11 then do {
        (n, r) \<leftarrow> cur_length r;
        (if n > length (input r) then None
         else do { (items, r) \<leftarrow> cur_repeat n cur_zigzag_i32 r; Some (Nbt_Int_Array items, r) }) }
      else if tag = 12 then do {
        (n, r) \<leftarrow> cur_length r;
        (if n > length (input r) then None
         else do { (items, r) \<leftarrow> cur_repeat n cur_zigzag_i64 r; Some (Nbt_Long_Array items, r) }) }
      else None)"

function parse_value :: "u8 \<Rightarrow> usize \<Rightarrow> cursor \<Rightarrow> (nbt_value \<times> cursor) option"
  and parse_items :: "nat \<Rightarrow> u8 \<Rightarrow> usize \<Rightarrow> cursor \<Rightarrow> (nbt_value list \<times> cursor) option"
  and parse_members :: "usize \<Rightarrow> nbt_compound \<Rightarrow> cursor \<Rightarrow> (nbt_compound \<times> cursor) option"
where
  "parse_value tag depth r =
     (if tag = 9 then do {
        (element, r) \<leftarrow> cur_byte r;
        (n, r) \<leftarrow> cur_length r;
        (if depth + 1 > MAX_NBT_DEPTH \<or> n > length (input r) then None
         else do { (items, r) \<leftarrow> parse_items n element (depth + 1) r; Some (Nbt_List items, r) }) }
      else if tag = 10 then
        (if depth + 1 > MAX_NBT_DEPTH then None
         else do { (members, r) \<leftarrow> parse_members (depth + 1) bt_empty r; Some (Nbt_Compound members, r) })
      else parse_scalar tag r)"
| "parse_items 0 tag depth r = Some ([], r)"
| "parse_items (Suc n) tag depth r = do {
     (v, r) \<leftarrow> parse_value tag depth r;
     (vs, r) \<leftarrow> parse_items n tag depth r;
     Some (v # vs, r) }"
| "parse_members depth entries r = do {
     (tag, r) \<leftarrow> cur_byte r;
     (if tag = 0 then Some (entries, r)
      else do {
        (name, r) \<leftarrow> cur_string r;
        (v, r) \<leftarrow> parse_value tag depth r;
        parse_members depth (bt_insert name v entries) r }) }"
  by pat_completeness auto

text \<open>Termination: a parsed value never moves the cursor back.\<close>

definition moves_on :: "(cursor \<Rightarrow> ('a \<times> cursor) option) \<Rightarrow> cursor \<Rightarrow> bool" where
  "moves_on f r \<longleftrightarrow> (\<forall>x r'. f r = Some (x, r') \<longrightarrow> input r' = input r \<and> position r \<le> position r')"

named_theorems moves_intros \<open>rules for reads that never move the cursor back\<close>

lemma moves_return [moves_intros]: "moves_on (\<lambda>r. Some (x, r)) r"
  by (simp add: moves_on_def)

lemma moves_none [moves_intros]: "moves_on (\<lambda>r. None) r"
  by (simp add: moves_on_def)

lemma moves_if [moves_intros]: "moves_on f r \<Longrightarrow> moves_on g r \<Longrightarrow> moves_on (\<lambda>r. if b r then f r else g r) r"
  unfolding moves_on_def by (cases "b r") metis+

lemma moves_bind [moves_intros]:
  assumes "moves_on f r" "\<And>x r1. f r = Some (x, r1) \<Longrightarrow> moves_on (g x) r1"
  shows "moves_on (\<lambda>r. f r \<bind> (\<lambda>(x, r). g x r)) r"
  unfolding moves_on_def
proof (intro allI impI)
  fix y r' assume "f r \<bind> (\<lambda>(x, r). g x r) = Some (y, r')"
  then obtain x r1 where x: "f r = Some (x, r1)" "g x r1 = Some (y, r')" by (auto simp: bind_Some_iff)
  have "input r1 = input r \<and> position r \<le> position r1" using assms(1) x(1) by (simp add: moves_on_def)
  moreover have "input r' = input r1 \<and> position r1 \<le> position r'"
    using assms(2) [OF x(1)] x(2) by (simp add: moves_on_def)
  ultimately show "input r' = input r \<and> position r \<le> position r'" by simp
qed

lemma moves_take [moves_intros]: "moves_on (\<lambda>r. cur_take r n) r"
  unfolding moves_on_def cur_take_def
proof (intro allI impI)
  fix x r' assume "(if n \<le> length (rest r) then Some (take n (rest r), advance r n) else None) = Some (x, r')"
  then have "r' = advance r n" by (cases "n \<le> length (rest r)") simp_all
  then show "input r' = input r \<and> position r \<le> position r'" by simp
qed

lemma moves_byte [moves_intros]: "moves_on cur_byte r"
  unfolding cur_byte_def [abs_def] by (intro moves_intros)

lemma cur_byte_Some: "cur_byte r = Some (b, r') \<Longrightarrow> r' = advance r 1 \<and> position r < length (input r)"
  by (auto simp: cur_byte_def cur_take_def split: if_splits)

lemma moves_var_loop: "moves_on (var_u64_loop is acc) r"
proof (induction "is" arbitrary: acc r)
  case (Cons i "is")
  have "var_u64_loop (i # is) acc = (\<lambda>r. cur_byte r \<bind> (\<lambda>(byte, r).
      if byte AND 0x80 = 0 then Some (acc OR push_bit (i * 7) (ucast (byte AND 0x7F)), r)
      else var_u64_loop is (acc OR push_bit (i * 7) (ucast (byte AND 0x7F))) r))"
    by (rule ext) (simp add: Let_def)
  moreover have "moves_on \<dots> r" for r using Cons by (intro moves_intros)
  ultimately show ?case by simp
qed (simp add: moves_on_def)

lemma moves_var [moves_intros]: "moves_on (var_u64 n) r"
  unfolding var_u64_def [abs_def] by (rule moves_var_loop)

lemma moves_i32 [moves_intros]: "moves_on cur_zigzag_i32 r"
  unfolding cur_zigzag_i32_def [abs_def] by (intro moves_intros)

lemma moves_i64 [moves_intros]: "moves_on cur_zigzag_i64 r"
  unfolding cur_zigzag_i64_def [abs_def] by (intro moves_intros)

lemma moves_length [moves_intros]: "moves_on cur_length r"
  unfolding cur_length_def [abs_def] by (intro moves_intros)

lemma moves_string [moves_intros]: "moves_on cur_string r"
  unfolding cur_string_def [abs_def] by (intro moves_intros)

lemma moves_repeat [moves_intros]:
  assumes "\<And>r. moves_on f r" shows "moves_on (cur_repeat n f) r"
proof (induction n arbitrary: r)
  case (Suc n)
  have "cur_repeat (Suc n) f = (\<lambda>r. f r \<bind> (\<lambda>(x, r). cur_repeat n f r \<bind> (\<lambda>(xs, r). Some (x # xs, r))))"
    by (rule ext) simp
  moreover have "moves_on \<dots> r" for r using assms Suc by (intro moves_intros)
  ultimately show ?case by simp
qed (simp add: moves_on_def)

lemma moves_scalar [moves_intros]: "moves_on (parse_scalar tag) r"
  unfolding parse_scalar_def [abs_def] by (intro moves_intros)

lemma parse_moves_on:
  "parse_value_parse_items_parse_members_dom (Inl (tag, depth, r)) \<Longrightarrow>
    parse_value tag depth r = Some (v, r') \<Longrightarrow> input r' = input r \<and> position r \<le> position r'"
  "parse_value_parse_items_parse_members_dom (Inr (Inl (n, tag, depth, r))) \<Longrightarrow>
    parse_items n tag depth r = Some (vs, r') \<Longrightarrow> input r' = input r \<and> position r \<le> position r'"
  "parse_value_parse_items_parse_members_dom (Inr (Inr (depth, entries, r))) \<Longrightarrow>
    parse_members depth entries r = Some (ms, r') \<Longrightarrow> input r' = input r \<and> position r \<le> position r'"
proof (induction tag depth r and n tag depth r and depth entries r arbitrary: v r' and vs r' and ms r'
    rule: parse_value_parse_items_parse_members.pinduct)
  case (1 tag depth r)
  note unfold = parse_value.psimps [OF 1(1)]
  consider "tag = 9" | "tag = 10" | "tag \<noteq> 9" "tag \<noteq> 10" by blast
  then show ?case
  proof cases
    case nine: 1
    obtain element r1 n r2 items where s: "cur_byte r = Some (element, r1)" "cur_length r1 = Some (n, r2)"
      "\<not> (depth + 1 > MAX_NBT_DEPTH \<or> n > length (input r2))"
      "parse_items n element (depth + 1) r2 = Some (items, r')"
      using 1(4) nine unfolding unfold by (auto simp: bind_Some_iff split: if_splits)
    have "input r1 = input r \<and> position r \<le> position r1" "input r2 = input r1 \<and> position r1 \<le> position r2"
      using moves_byte [of r] moves_length [of r1] s(1,2) by (simp_all add: moves_on_def)
    moreover have "input r' = input r2 \<and> position r2 \<le> position r'"
      using 1(2) [OF nine s(1) refl s(2) refl s(3,4)] .
    ultimately show ?thesis by simp
  next
    case ten: 2
    obtain members where s: "\<not> depth + 1 > MAX_NBT_DEPTH" "parse_members (depth + 1) bt_empty r = Some (members, r')"
      using 1(4) ten unfolding unfold by (auto simp: bind_Some_iff split: if_splits)
    show ?thesis using 1(3) [OF _ ten s] ten by simp
  next
    case other: 3
    then show ?thesis using 1(4) moves_scalar [of tag r] unfolding unfold by (simp add: moves_on_def)
  qed
next
  case (2 tag depth r)
  then show ?case by (simp add: parse_items.psimps)
next
  case (3 n tag depth r)
  obtain x r1 xs where x: "parse_value tag depth r = Some (x, r1)"
      "parse_items n tag depth r1 = Some (xs, r')"
    using 3(4) unfolding parse_items.psimps(2) [OF 3(1)] by (auto simp: bind_Some_iff)
  show ?case using 3(2) [OF x(1)] 3(3) [OF x(1) refl x(2)] by simp
next
  case (4 depth entries r)
  obtain tag r1 where s: "cur_byte r = Some (tag, r1)"
    and body: "(if tag = 0 then Some (entries, r1) else do {
        (name, r) \<leftarrow> cur_string r1; (v, r) \<leftarrow> parse_value tag depth r;
        parse_members depth (bt_insert name v entries) r }) = Some (ms, r')"
    using 4(4) unfolding parse_members.psimps [OF 4(1)] by (auto simp: bind_Some_iff)
  have r1: "input r1 = input r \<and> position r \<le> position r1"
    using moves_byte [of r] s by (simp add: moves_on_def)
  show ?case
  proof (cases "tag = 0")
    case False
    then obtain name r2 v r3 where t: "cur_string r1 = Some (name, r2)" "parse_value tag depth r2 = Some (v, r3)"
      "parse_members depth (bt_insert name v entries) r3 = Some (ms, r')"
      using body by (auto simp: bind_Some_iff)
    have "input r2 = input r1 \<and> position r1 \<le> position r2"
      using moves_string [of r1] t(1) by (simp add: moves_on_def)
    moreover have "input r3 = input r2 \<and> position r2 \<le> position r3"
      using 4(2) [OF s refl False t(1) refl t(2)] .
    moreover have "input r' = input r3 \<and> position r3 \<le> position r'"
      using 4(3) [OF s refl False t(1) refl t(2) refl t(3)] .
    ultimately show ?thesis using r1 by simp
  qed (use body r1 in auto)
qed

fun parse_measure :: "u8 \<times> usize \<times> cursor + (nat \<times> u8 \<times> usize \<times> cursor) + (usize \<times> nbt_compound \<times> cursor)
    \<Rightarrow> nat \<times> nat \<times> nat" where
  "parse_measure (Inl (tag, depth, r)) = (MAX_NBT_DEPTH - depth, 0, 0)"
| "parse_measure (Inr (Inl (n, tag, depth, r))) = (MAX_NBT_DEPTH - depth, 1, n)"
| "parse_measure (Inr (Inr (depth, entries, r))) = (MAX_NBT_DEPTH - depth, 1, length (input r) - position r)"

termination parse_value
proof (relation "inv_image (less_than <*lex*> less_than <*lex*> less_than) parse_measure", goal_cases)
  case (7 depth entries r x tag r1 y name r2 z v r3)
  have "input r2 = input r1 \<and> position r1 \<le> position r2"
    using moves_string [of r1] 7 by (auto simp: moves_on_def)
  moreover have "input r3 = input r2 \<and> position r2 \<le> position r3"
    using parse_moves_on(1) 7 by blast
  moreover have "r1 = advance r 1" "position r < length (input r)" using cur_byte_Some 7 by blast+
  ultimately show ?case by auto
qed auto

subsection \<open>Whole documents\<close>

text \<open>\<^verbatim>\<open>BlockEntityNbt::parse\<close> on the bytes a block entity retains.\<close>

definition nbt_parse :: "bytes \<Rightarrow> nbt_compound option" where
  "nbt_parse bs = do {
     (tag, r) \<leftarrow> cur_byte \<lparr>input = bs, position = 0\<rparr>;
     (if tag \<noteq> 10 then None
      else do {
        (name, r) \<leftarrow> cur_string r;
        (root, r) \<leftarrow> parse_members 0 bt_empty r;
        Some root }) }"

declare parse_value.simps [simp del] parse_members.simps [simp del]

end
