(* ===== verification/Keys.thy ===== *)
theory Keys
  imports Ordered_Map "HOL-Library.Product_Lexorder"
begin

section \<open>Keys of columns, sub-chunks and block entities\<close>

text \<open>
  \<^verbatim>\<open>ChunkKey\<close> and \<^verbatim>\<open>SubChunkKey\<close> of \<^verbatim>\<open>crates/world/src/chunk.rs\<close>, \<^verbatim>\<open>BlockEntityKey\<close> of
  \<^verbatim>\<open>block_entity.rs\<close>, with the derived field-by-field order, and the meshes that depend on a
  sub-chunk.  Coordinates are \<^verbatim>\<open>i32\<close>: neighbours beyond its range are omitted.
\<close>

datatype chunk_key = Chunk_Key (ck_dimension: i32) (ck_x: i32) (ck_z: i32)

datatype sub_chunk_key = Sub_Chunk_Key (sk_dimension: i32) (sk_x: i32) (sk_y: i32) (sk_z: i32)

datatype block_entity_key = Block_Entity_Key (be_dimension: i32) (be_x: i32) (be_y: i32) (be_z: i32)

text \<open>The derived \<^verbatim>\<open>Ord\<close> compares the fields in declaration order.\<close>

definition ck_tuple :: "chunk_key \<Rightarrow> int \<times> int \<times> int" where
  "ck_tuple k = (ck_dimension k, ck_x k, ck_z k)"

definition sk_tuple :: "sub_chunk_key \<Rightarrow> int \<times> int \<times> int \<times> int" where
  "sk_tuple k = (sk_dimension k, sk_x k, sk_y k, sk_z k)"

definition be_tuple :: "block_entity_key \<Rightarrow> int \<times> int \<times> int \<times> int" where
  "be_tuple k = (be_dimension k, be_x k, be_y k, be_z k)"

lemma ck_tuple_inj: "ck_tuple a = ck_tuple b \<Longrightarrow> a = b"
  by (cases a; cases b) (simp add: ck_tuple_def)

lemma sk_tuple_inj: "sk_tuple a = sk_tuple b \<Longrightarrow> a = b"
  by (cases a; cases b) (simp add: sk_tuple_def)

lemma be_tuple_inj: "be_tuple a = be_tuple b \<Longrightarrow> a = b"
  by (cases a; cases b) (simp add: be_tuple_def)

instantiation chunk_key :: linorder
begin
definition "less_eq_chunk_key a b \<longleftrightarrow> ck_tuple a \<le> ck_tuple b"
definition "less_chunk_key a b \<longleftrightarrow> ck_tuple a < ck_tuple b"
instance by standard (auto simp: less_eq_chunk_key_def less_chunk_key_def intro: ck_tuple_inj)
end

instantiation sub_chunk_key :: linorder
begin
definition "less_eq_sub_chunk_key a b \<longleftrightarrow> sk_tuple a \<le> sk_tuple b"
definition "less_sub_chunk_key a b \<longleftrightarrow> sk_tuple a < sk_tuple b"
instance by standard (auto simp: less_eq_sub_chunk_key_def less_sub_chunk_key_def intro: sk_tuple_inj)
end

instantiation block_entity_key :: linorder
begin
definition "less_eq_block_entity_key a b \<longleftrightarrow> be_tuple a \<le> be_tuple b"
definition "less_block_entity_key a b \<longleftrightarrow> be_tuple a < be_tuple b"
instance by standard (auto simp: less_eq_block_entity_key_def less_block_entity_key_def intro: be_tuple_inj)
end

definition ck_in_i32 :: "chunk_key \<Rightarrow> bool" where
  "ck_in_i32 k \<longleftrightarrow> in_i32 (ck_dimension k) \<and> in_i32 (ck_x k) \<and> in_i32 (ck_z k)"

definition sk_in_i32 :: "sub_chunk_key \<Rightarrow> bool" where
  "sk_in_i32 k \<longleftrightarrow> in_i32 (sk_dimension k) \<and> in_i32 (sk_x k) \<and> in_i32 (sk_y k) \<and> in_i32 (sk_z k)"

subsection \<open>Conversions\<close>

definition from_chunk :: "chunk_key \<Rightarrow> i32 \<Rightarrow> sub_chunk_key" where
  "from_chunk chunk y = Sub_Chunk_Key (ck_dimension chunk) (ck_x chunk) y (ck_z chunk)"

definition sk_chunk :: "sub_chunk_key \<Rightarrow> chunk_key" where
  "sk_chunk k = Chunk_Key (sk_dimension k) (sk_x k) (sk_z k)"

definition be_position :: "block_entity_key \<Rightarrow> i32 \<times> i32 \<times> i32" where
  "be_position k = (be_x k, be_y k, be_z k)"

text \<open>Euclidean division by 16 is HOL's \<open>div\<close>, which rounds down for a positive divisor.\<close>

definition be_chunk :: "block_entity_key \<Rightarrow> chunk_key" where
  "be_chunk k = Chunk_Key (be_dimension k) (be_x k div 16) (be_z k div 16)"

definition be_sub_chunk :: "block_entity_key \<Rightarrow> sub_chunk_key" where
  "be_sub_chunk k = Sub_Chunk_Key (be_dimension k) (be_x k div 16) (be_y k div 16) (be_z k div 16)"

lemma key_conversions [simp]:
  "sk_chunk (from_chunk c y) = c" "sk_y (from_chunk c y) = y"
  "from_chunk (sk_chunk k) (sk_y k) = k" "sk_chunk (be_sub_chunk e) = be_chunk e"
  by (cases c; cases k; simp add: sk_chunk_def from_chunk_def be_sub_chunk_def be_chunk_def)+

subsection \<open>Mesh dependents\<close>

text \<open>An option per candidate, with the candidates that overflow dropped.\<close>

definition flatten :: "'a option list \<Rightarrow> 'a list" where
  "flatten os = List.map_filter (\<lambda>o'. o') os"

definition mesh_dependents :: "sub_chunk_key \<Rightarrow> sub_chunk_key list" where
  "mesh_dependents k =
     (let d = sk_dimension k; x = sk_x k; y = sk_y k; z = sk_z k
      in flatten
        [Some k,
         map_option (\<lambda>x. Sub_Chunk_Key d x y z) (checked_sub_i32 x 1),
         map_option (\<lambda>x. Sub_Chunk_Key d x y z) (checked_add_i32 x 1),
         map_option (\<lambda>y. Sub_Chunk_Key d x y z) (checked_sub_i32 y 1),
         map_option (\<lambda>y. Sub_Chunk_Key d x y z) (checked_add_i32 y 1),
         map_option (\<lambda>z. Sub_Chunk_Key d x y z) (checked_sub_i32 z 1),
         map_option (\<lambda>z. Sub_Chunk_Key d x y z) (checked_add_i32 z 1)])"

definition shifted_key :: "(i32 \<Rightarrow> i32 \<Rightarrow> i32 option) \<Rightarrow> sub_chunk_key \<Rightarrow> i32 \<times> i32 \<times> i32 \<Rightarrow> sub_chunk_key option" where
  "shifted_key op k offset =
     (case offset of (dx, dy, dz) \<Rightarrow> do {
        x \<leftarrow> op (sk_x k) dx;
        y \<leftarrow> op (sk_y k) dy;
        z \<leftarrow> op (sk_z k) dz;
        Some (Sub_Chunk_Key (sk_dimension k) x y z) })"

definition mesh_neighbourhood_dependents :: "sub_chunk_key \<Rightarrow> sub_chunk_key list" where
  "mesh_neighbourhood_dependents k =
     concat (map (\<lambda>dx. concat (map (\<lambda>dy.
       List.map_filter (\<lambda>dz. shifted_key checked_add_i32 k (dx, dy, dz)) [-1, 0, 1]) [-1, 0, 1])) [-1, 0, 1])"

definition biome_mesh_dependents :: "sub_chunk_key \<Rightarrow> sub_chunk_key list" where
  "biome_mesh_dependents k = mesh_neighbourhood_dependents k"

definition LIQUID_SAMPLE_OFFSETS :: "(i32 \<times> i32 \<times> i32) list" where
  "LIQUID_SAMPLE_OFFSETS =
    [(0, -1, 0), (-1, -1, 0), (1, -1, 0), (0, -1, -1), (0, -1, 1),
     (-1, 0, -1), (-1, 0, 0), (-1, 0, 1), (0, 0, -1), (0, 0, 0), (0, 0, 1), (1, 0, -1), (1, 0, 0), (1, 0, 1),
     (-1, 1, -1), (-1, 1, 0), (-1, 1, 1), (0, 1, -1), (0, 1, 0), (0, 1, 1), (1, 1, -1), (1, 1, 0), (1, 1, 1)]"

definition liquid_mesh_dependents :: "sub_chunk_key \<Rightarrow> sub_chunk_key list" where
  "liquid_mesh_dependents k = List.map_filter (shifted_key checked_sub_i32 k) LIQUID_SAMPLE_OFFSETS"

definition expand_mesh_dependents :: "sub_chunk_key list \<Rightarrow> sub_chunk_key list" where
  "expand_mesh_dependents changed = bt_set (concat (map mesh_dependents changed))"

definition expand_biome_mesh_dependents :: "sub_chunk_key list \<Rightarrow> sub_chunk_key list" where
  "expand_biome_mesh_dependents changed = bt_set (concat (map biome_mesh_dependents changed))"

subsection \<open>Which meshes these are\<close>

text \<open>The offset from one key to another, when both are in the same dimension.\<close>

definition key_offset :: "sub_chunk_key \<Rightarrow> sub_chunk_key \<Rightarrow> int \<times> int \<times> int" where
  "key_offset a b = (sk_x b - sk_x a, sk_y b - sk_y a, sk_z b - sk_z a)"

lemma shifted_add_iff:
  "shifted_key checked_add_i32 k (dx, dy, dz) = Some k' \<longleftrightarrow>
     sk_dimension k' = sk_dimension k \<and> key_offset k k' = (dx, dy, dz) \<and>
     in_i32 (sk_x k') \<and> in_i32 (sk_y k') \<and> in_i32 (sk_z k')"
  by (cases k'; auto simp: shifted_key_def checked_add_i32_def key_offset_def bounds_simps split: Option.bind_splits)

lemma shifted_sub_iff:
  "shifted_key checked_sub_i32 k (dx, dy, dz) = Some k' \<longleftrightarrow>
     sk_dimension k' = sk_dimension k \<and> key_offset k' k = (dx, dy, dz) \<and>
     in_i32 (sk_x k') \<and> in_i32 (sk_y k') \<and> in_i32 (sk_z k')"
  by (cases k'; auto simp: shifted_key_def checked_sub_i32_def key_offset_def bounds_simps split: Option.bind_splits)

lemma in_map_filter: "y \<in> set (List.map_filter f xs) \<longleftrightarrow> (\<exists>x\<in>set xs. f x = Some y)"
  by (force simp: List.map_filter_def)

definition face_offsets :: "(int \<times> int \<times> int) set" where
  "face_offsets = {(0, 0, 0), (-1, 0, 0), (1, 0, 0), (0, -1, 0), (0, 1, 0), (0, 0, -1), (0, 0, 1)}"

definition cube_offsets :: "(int \<times> int \<times> int) set" where
  "cube_offsets = {-1, 0, 1} \<times> {-1, 0, 1} \<times> {-1, 0, 1}"

lemma in_flatten: "y \<in> set (flatten os) \<longleftrightarrow> Some y \<in> set os"
  by (auto simp: flatten_def in_map_filter)

lemma axis_neighbours:
  assumes "sk_in_i32 k'"
  shows "Some k' = map_option (\<lambda>x. Sub_Chunk_Key (sk_dimension k) x (sk_y k) (sk_z k)) (checked_i32 n)
      \<longleftrightarrow> sk_dimension k' = sk_dimension k \<and> key_offset k k' = (n - sk_x k, 0, 0)"
    "Some k' = map_option (\<lambda>y. Sub_Chunk_Key (sk_dimension k) (sk_x k) y (sk_z k)) (checked_i32 n)
      \<longleftrightarrow> sk_dimension k' = sk_dimension k \<and> key_offset k k' = (0, n - sk_y k, 0)"
    "Some k' = map_option (\<lambda>z. Sub_Chunk_Key (sk_dimension k) (sk_x k) (sk_y k) z) (checked_i32 n)
      \<longleftrightarrow> sk_dimension k' = sk_dimension k \<and> key_offset k k' = (0, 0, n - sk_z k)"
    "k' = k \<longleftrightarrow> sk_dimension k' = sk_dimension k \<and> key_offset k k' = (0, 0, 0)"
  using assms by (cases k'; auto simp: checked_i32_def key_offset_def sk_in_i32_def sub_chunk_key.expand)+

lemma mesh_dependents_iff:
  assumes "sk_in_i32 k'"
  shows "k' \<in> set (mesh_dependents k) \<longleftrightarrow>
    sk_dimension k' = sk_dimension k \<and> key_offset k k' \<in> face_offsets"
proof -
  have "k' \<in> set (mesh_dependents k) \<longleftrightarrow> sk_dimension k' = sk_dimension k \<and>
      (key_offset k k' = (0, 0, 0) \<or> key_offset k k' = (-1, 0, 0) \<or> key_offset k k' = (1, 0, 0) \<or>
       key_offset k k' = (0, -1, 0) \<or> key_offset k k' = (0, 1, 0) \<or> key_offset k k' = (0, 0, -1) \<or>
       key_offset k k' = (0, 0, 1))"
    unfolding mesh_dependents_def Let_def in_flatten checked_add_i32_def checked_sub_i32_def
    by (simp add: axis_neighbours [OF assms, of k]) blast
  then show ?thesis by (simp add: face_offsets_def)
qed

lemma mesh_neighbourhood_dependents_iff:
  assumes "sk_in_i32 k'"
  shows "k' \<in> set (mesh_neighbourhood_dependents k) \<longleftrightarrow>
    sk_dimension k' = sk_dimension k \<and> key_offset k k' \<in> cube_offsets"
proof -
  have "k' \<in> set (mesh_neighbourhood_dependents k) \<longleftrightarrow> (\<exists>dx\<in>{-1, 0, 1}. \<exists>dy\<in>{-1, 0, 1}. \<exists>dz\<in>{-1, 0, 1}.
      shifted_key checked_add_i32 k (dx, dy, dz) = Some k')"
    by (simp add: mesh_neighbourhood_dependents_def in_map_filter del: List.map_filter_simps)
  also have "\<dots> \<longleftrightarrow> sk_dimension k' = sk_dimension k \<and>
      (\<exists>dx\<in>{-1, 0, 1}. \<exists>dy\<in>{-1, 0, 1}. \<exists>dz\<in>{-1, 0, 1}. key_offset k k' = (dx, dy, dz))"
    using assms unfolding shifted_add_iff sk_in_i32_def by blast
  also have "\<dots> \<longleftrightarrow> sk_dimension k' = sk_dimension k \<and> key_offset k k' \<in> cube_offsets"
  proof -
    have "(\<exists>x\<in>S. \<exists>y\<in>S. \<exists>z\<in>S. p = (x, y, z)) \<longleftrightarrow> p \<in> S \<times> S \<times> S" for p and S :: "int set" by auto
    then show ?thesis unfolding cube_offsets_def by blast
  qed
  finally show ?thesis .
qed

lemma liquid_mesh_dependents_iff:
  assumes "sk_in_i32 k'"
  shows "k' \<in> set (liquid_mesh_dependents k) \<longleftrightarrow>
    sk_dimension k' = sk_dimension k \<and> key_offset k' k \<in> set LIQUID_SAMPLE_OFFSETS"
proof -
  have "k' \<in> set (liquid_mesh_dependents k) \<longleftrightarrow>
      (\<exists>dx dy dz. (dx, dy, dz) \<in> set LIQUID_SAMPLE_OFFSETS \<and> shifted_key checked_sub_i32 k (dx, dy, dz) = Some k')"
    by (auto simp: liquid_mesh_dependents_def in_map_filter)
  then show ?thesis
    using assms by (cases "key_offset k' k") (auto simp: shifted_sub_iff sk_in_i32_def)
qed

lemma key_offset_minus: "key_offset b a = (case key_offset a b of (x, y, z) \<Rightarrow> (- x, - y, - z))"
  by (simp add: key_offset_def)

lemma mesh_dependents_sym:
  assumes "sk_in_i32 a" "sk_in_i32 b" shows "b \<in> set (mesh_dependents a) \<longleftrightarrow> a \<in> set (mesh_dependents b)"
  unfolding mesh_dependents_iff [OF assms(1)] mesh_dependents_iff [OF assms(2)] key_offset_minus [of b a]
  by (auto simp: face_offsets_def split: prod.splits)

end
