(* ===== verification/Lenient_Reader.thy ===== *)
theory Lenient_Reader
  imports Bytes
begin

section \<open>The lenient reader\<close>

text \<open>
  \<^verbatim>\<open>sub_chunk.rs\<close>'s \<^verbatim>\<open>Reader\<close>: a read past the end yields zero, parks the cursor at the end and sets
  \<^verbatim>\<open>failed_read\<close>; nothing fails.  An operation returns its value with the reader it leaves.
\<close>

record reader =
  stream :: bytes
  offset :: usize
  failed_read :: bool

definition new_reader :: "bytes \<Rightarrow> reader" where
  "new_reader bs = \<lparr>stream = bs, offset = 0, failed_read = False\<rparr>"

definition is_at_end :: "reader \<Rightarrow> bool" where
  "is_at_end r \<longleftrightarrow> offset r \<ge> length (stream r)"

definition skip_to_end :: "reader \<Rightarrow> reader" where
  "skip_to_end r = r\<lparr>offset := length (stream r)\<rparr>"

definition remaining :: "reader \<Rightarrow> bytes" where
  "remaining r = drop (offset r) (stream r)"

definition take_u8 :: "reader \<Rightarrow> u8 \<times> reader" where
  "take_u8 r =
     (if offset r < length (stream r) then (stream r ! offset r, r\<lparr>offset := offset r + 1\<rparr>)
      else (0, r\<lparr>failed_read := True\<rparr>))"

definition take_exact :: "usize \<Rightarrow> reader \<Rightarrow> bytes option \<times> reader" where
  "take_exact n r =
     (if n \<le> length (remaining r) then (Some (take n (remaining r)), r\<lparr>offset := offset r + n\<rparr>)
      else (None, skip_to_end (r\<lparr>failed_read := True\<rparr>)))"

text \<open>Bits past 32 are dropped; an unterminated fifth byte yields zero without failing the read.\<close>

fun var_i32_loop :: "nat list \<Rightarrow> u32 \<Rightarrow> reader \<Rightarrow> 32 word \<times> reader" where
  "var_i32_loop [] encoded r = (0, r)"
| "var_i32_loop (i # is) encoded r =
     (if is_at_end r then (0, r\<lparr>failed_read := True\<rparr>)
      else let (byte, r) = take_u8 r;
               encoded = encoded OR push_bit (i * 7) (ucast (byte AND 0x7F))
           in if byte AND 0x80 = 0 then (unzigzag encoded, r) else var_i32_loop is encoded r)"

definition take_var_i32 :: "reader \<Rightarrow> 32 word \<times> reader" where
  "take_var_i32 r = var_i32_loop [0..<5] 0 r"

subsection \<open>A read that does not fail is local\<close>

text \<open>
  \<open>steady f\<close>: on a reader inside its bytes, \<open>f\<close> stays inside, never goes back and never clears
  the failure flag; and when it leaves the flag unset, its value depends only on the bytes it has read, so
  whatever follows them, it reads the same.
\<close>

definition inside :: "reader \<Rightarrow> bool" where
  "inside r \<longleftrightarrow> offset r \<le> length (stream r)"

definition same_upto :: "usize \<Rightarrow> reader \<Rightarrow> reader \<Rightarrow> bool" where
  "same_upto n r s \<longleftrightarrow> inside s \<and> take n (remaining s) = take n (remaining r) \<and>
     n \<le> length (remaining s)"

definition forward :: "usize \<Rightarrow> reader \<Rightarrow> reader" where
  "forward n r = r\<lparr>offset := offset r + n\<rparr>"

definition steady_at :: "(reader \<Rightarrow> 'a \<times> reader) \<Rightarrow> reader \<Rightarrow> bool" where
  "steady_at f r \<longleftrightarrow> (inside r \<longrightarrow>
     (\<exists>n\<le>length (remaining r). \<exists>failed.
        snd (f r) = (forward n r)\<lparr>failed_read := failed\<rparr> \<and> (failed_read r \<longrightarrow> failed) \<and>
        (\<not> failed \<longrightarrow> (\<forall>s. same_upto n r s \<longrightarrow> f s = (fst (f r), forward n s)))))"

named_theorems steady_intros \<open>rules that compose steady reads\<close>

lemma forward_simps [simp]:
  "stream (forward n r) = stream r" "offset (forward n r) = offset r + n" "failed_read (forward n r) = failed_read r"
  "forward m (forward n r) = forward (n + m) r" "forward 0 r = r"
  "remaining (forward n r) = drop n (remaining r)"
  by (simp_all add: forward_def remaining_def add.commute add.assoc)

lemma remaining_failed [simp]: "remaining (r\<lparr>failed_read := b\<rparr>) = remaining r"
  by (simp add: remaining_def)

lemma forward_failed [simp]:
  "forward n (r\<lparr>failed_read := b\<rparr>) = (forward n r)\<lparr>failed_read := b\<rparr>"
  by (simp add: forward_def)

lemma length_remaining [simp]: "length (remaining r) = length (stream r) - offset r"
  by (simp add: remaining_def)

lemma inside_forward: "inside r \<Longrightarrow> n \<le> length (remaining r) \<Longrightarrow> inside (forward n r)"
  by (simp add: inside_def)

lemma inside_failed [simp]: "inside (r\<lparr>failed_read := b\<rparr>) \<longleftrightarrow> inside r"
  by (simp add: inside_def)

lemma inside_new [simp]: "inside (new_reader bs)"
  by (simp add: inside_def new_reader_def)

lemma new_reader_simps [simp]:
  "stream (new_reader bs) = bs" "offset (new_reader bs) = 0" "\<not> failed_read (new_reader bs)"
  "remaining (new_reader bs) = bs"
  by (simp_all add: new_reader_def remaining_def)

lemma steady_atD:
  assumes "steady_at f r" "inside r"
  obtains n failed where "n \<le> length (remaining r)" "snd (f r) = (forward n r)\<lparr>failed_read := failed\<rparr>"
    "failed_read r \<Longrightarrow> failed"
    "\<And>s. \<not> failed \<Longrightarrow> same_upto n r s \<Longrightarrow> f s = (fst (f r), forward n s)"
  using assms unfolding steady_at_def by blast

lemma steady_inside: "steady_at f r \<Longrightarrow> inside r \<Longrightarrow> inside (snd (f r))"
  by (erule (1) steady_atD) (simp add: inside_def)

lemma steady_offset:
  assumes "steady_at f r" "inside r" shows "offset r \<le> offset (snd (f r))" "stream (snd (f r)) = stream r"
  using assms by (auto elim!: steady_atD)

lemma steady_return [steady_intros]: "steady_at (\<lambda>r. (x, r)) r"
  unfolding steady_at_def by (auto intro!: exI [of _ "0::nat"] exI [of _ "failed_read r"])

lemma same_upto_le: "same_upto n r s \<Longrightarrow> m \<le> n \<Longrightarrow> same_upto m r s"
proof -
  assume same: "same_upto n r s" and m: "m \<le> n"
  have "take m (take n (remaining s)) = take m (take n (remaining r))" using same by (simp add: same_upto_def)
  then show ?thesis using same m by (simp add: same_upto_def min_absorb1)
qed

lemma same_upto_forward:
  assumes "same_upto (n + m) r s" shows "same_upto m (forward n r) (forward n s)"
proof -
  have "drop n (take (n + m) (remaining s)) = drop n (take (n + m) (remaining r))"
    using assms by (simp add: same_upto_def)
  moreover have "offset s + n + m \<le> length (stream s)"
    using assms unfolding same_upto_def inside_def length_remaining by arith
  ultimately show ?thesis using assms by (simp add: same_upto_def drop_take inside_def)
qed

lemma steady_bind [steady_intros]:
  assumes f: "steady_at f r" and g: "\<And>x r1. inside r1 \<Longrightarrow> f r = (x, r1) \<Longrightarrow> steady_at (g x) r1"
  shows "steady_at (\<lambda>r. let (x, r) = f r in g x r) r"
  unfolding steady_at_def
proof
  assume r: "inside r"
  obtain x r1 where x: "f r = (x, r1)" by fastforce
  obtain n failed where n: "n \<le> length (remaining r)" "r1 = (forward n r)\<lparr>failed_read := failed\<rparr>"
      "failed_read r \<Longrightarrow> failed" "\<And>s. \<not> failed \<Longrightarrow> same_upto n r s \<Longrightarrow> f s = (x, forward n s)"
    using steady_atD [OF f r] x by (metis fst_conv snd_conv)
  have r1: "inside r1" using steady_inside [OF f r] x by simp
  obtain y r2 where y: "g x r1 = (y, r2)" by fastforce
  obtain m failed' where m: "m \<le> length (remaining r1)" "r2 = (forward m r1)\<lparr>failed_read := failed'\<rparr>"
      "failed_read r1 \<Longrightarrow> failed'" "\<And>s. \<not> failed' \<Longrightarrow> same_upto m r1 s \<Longrightarrow> g x s = (y, forward m s)"
    using steady_atD [OF g [OF r1 x] r1] y by (metis fst_conv snd_conv)
  have "(let (x, r) = f s in g x r) = (y, forward (n + m) s)"
    if ok: "\<not> failed'" "same_upto (n + m) r s" for s
  proof -
    have "\<not> failed" using ok(1) m(3) n(2) by auto
    then have "f s = (x, forward n s)" using n(4) same_upto_le [OF ok(2)] by simp
    moreover have "same_upto m r1 (forward n s)"
      using same_upto_forward [OF ok(2)] n(2) by (simp add: same_upto_def)
    then have "g x (forward n s) = (y, forward (n + m) s)" using m(4) ok(1) by simp
    ultimately show ?thesis by simp
  qed
  moreover have "snd (let (x, r) = f r in g x r) = (forward (n + m) r)\<lparr>failed_read := failed'\<rparr>"
    using x y n(2) m(2) by simp
  moreover have "fst (let (x, r) = f r in g x r) = y" using x y by simp
  moreover have "n + m \<le> length (remaining r)" using n(1,2) m(1) by simp
  moreover have "failed_read r \<longrightarrow> failed'" using n(2,3) m(3) by auto
  ultimately show "\<exists>k\<le>length (remaining r). \<exists>failed.
      snd (let (x, r) = f r in g x r) = (forward k r)\<lparr>failed_read := failed\<rparr> \<and> (failed_read r \<longrightarrow> failed) \<and>
      (\<not> failed \<longrightarrow> (\<forall>s. same_upto k r s \<longrightarrow>
        (let (x, r) = f s in g x r) = (fst (let (x, r) = f r in g x r), forward k s)))"
    by blast
qed

lemma steady_if [steady_intros]:
  "(b \<Longrightarrow> steady_at f r) \<Longrightarrow> (\<not> b \<Longrightarrow> steady_at g r) \<Longrightarrow> steady_at (\<lambda>r. if b then f r else g r) r"
  by (cases b) simp_all

text \<open>A branch on a read that has just failed.\<close>

lemma steady_failing:
  assumes "n \<le> length (remaining r)" "snd (f r) = (forward n r)\<lparr>failed_read := True\<rparr>"
  shows "steady_at f r"
  using assms unfolding steady_at_def by blast

lemma steady_u8 [steady_intros]: "steady_at take_u8 r"
proof (cases "offset r < length (stream r)")
  case True
  have "take_u8 s = (stream r ! offset r, forward 1 s)" if "same_upto 1 r s" for s
  proof -
    have "take 1 (remaining s) = [stream r ! offset r]" "1 \<le> length (remaining s)"
      using that True unfolding same_upto_def remaining_def by (simp_all add: take_Suc hd_drop_conv_nth)
    then have "stream s ! offset s = stream r ! offset r" "offset s < length (stream s)"
      unfolding remaining_def by (simp_all add: take_Suc hd_drop_conv_nth split: if_splits)
    then show ?thesis by (simp add: take_u8_def forward_def)
  qed
  moreover have "take_u8 r = (stream r ! offset r, forward 1 r)" using True by (simp add: take_u8_def forward_def)
  ultimately show ?thesis using True unfolding steady_at_def
    by (auto intro!: exI [of _ "1::nat"] exI [of _ "failed_read r"])
next
  case False
  then show ?thesis by (intro steady_failing [of 0]) (simp_all add: take_u8_def)
qed

lemma steady_exact [steady_intros]: "steady_at (take_exact n) r"
proof (cases "n \<le> length (remaining r)")
  case True
  have "take_exact n s = (Some (take n (remaining r)), forward n s)" if "same_upto n r s" for s
    using that by (simp add: same_upto_def take_exact_def forward_def)
  moreover have "take_exact n r = (Some (take n (remaining r)), forward n r)"
    using True by (simp add: take_exact_def forward_def)
  ultimately show ?thesis using True unfolding steady_at_def
    by (auto intro!: exI [of _ n] exI [of _ "failed_read r"])
next
  case False
  show ?thesis
  proof (cases "inside r")
    case True
    then show ?thesis using False
      by (intro steady_failing [of "length (remaining r)"])
        (simp_all add: take_exact_def skip_to_end_def forward_def inside_def)
  qed (simp add: steady_at_def)
qed

lemma steady_var_loop: "steady_at (var_i32_loop is encoded) r"
proof (induction "is" arbitrary: encoded r)
  case (Nil encoded r)
  have "var_i32_loop [] encoded = (\<lambda>r. (0, r))" by (rule ext) simp
  then show ?case by (simp add: steady_return)
next
  case (Cons i "is" encoded r)
  show ?case
  proof (cases "is_at_end r")
    case True
    then have "var_i32_loop (i # is) encoded r = (0, r\<lparr>failed_read := True\<rparr>)" by simp
    then have "snd (var_i32_loop (i # is) encoded r) = (forward 0 r)\<lparr>failed_read := True\<rparr>"
      by (simp del: var_i32_loop.simps)
    then show ?thesis by (rule steady_failing [of 0 r, rotated]) simp
  next
    case False
    let ?e = "\<lambda>byte. encoded OR push_bit (i * 7) (ucast (byte AND 0x7F))"
    let ?f = "\<lambda>r. let (byte, r) = take_u8 r in
        if byte AND 0x80 = 0 then (unzigzag (?e byte), r) else var_i32_loop is (?e byte) r"
    have eq: "\<not> is_at_end s \<Longrightarrow> var_i32_loop (i # is) encoded s = ?f s" for s
      by (simp add: Let_def)
    have f: "steady_at ?f r" using Cons by (intro steady_intros)
    show ?thesis unfolding steady_at_def
    proof
      assume r: "inside r"
      obtain n failed where n: "n \<le> length (remaining r)" "snd (?f r) = (forward n r)\<lparr>failed_read := failed\<rparr>"
          "failed_read r \<Longrightarrow> failed" "\<And>s. \<not> failed \<Longrightarrow> same_upto n r s \<Longrightarrow> ?f s = (fst (?f r), forward n s)"
        using steady_atD [OF f r] by blast
      have "n > 0"
      proof -
        obtain byte r1 where b: "take_u8 r = (byte, r1)" "offset r1 = offset r + 1"
          using False by (simp add: take_u8_def is_at_end_def)
        have "steady_at (\<lambda>r. if byte AND 0x80 = 0 then (unzigzag (?e byte), r) else var_i32_loop is (?e byte) r) r1"
          using Cons by (intro steady_intros)
        moreover have "inside r1" using b(1) False by (auto simp: take_u8_def is_at_end_def inside_def)
        ultimately have "offset r1 \<le> offset (snd (?f r))"
          using steady_offset(1) b(1) by fastforce
        then show ?thesis using n(2) b(2) by simp
      qed
      then have inner: "\<not> is_at_end s" if "same_upto n r s" for s
        using that unfolding same_upto_def is_at_end_def length_remaining by linarith
      have "var_i32_loop (i # is) encoded s = (fst (?f r), forward n s)" if "\<not> failed" "same_upto n r s" for s
        unfolding eq [OF inner [OF that(2)]] using n(4) [OF that] .
      then show "\<exists>n\<le>length (remaining r). \<exists>failed.
        snd (var_i32_loop (i # is) encoded r) = (forward n r)\<lparr>failed_read := failed\<rparr> \<and> (failed_read r \<longrightarrow> failed) \<and>
        (\<not> failed \<longrightarrow> (\<forall>s. same_upto n r s \<longrightarrow>
          var_i32_loop (i # is) encoded s = (fst (var_i32_loop (i # is) encoded r), forward n s)))"
        unfolding eq [OF False] using n(1-3) by blast
    qed
  qed
qed

lemma steady_var [steady_intros]: "steady_at take_var_i32 r"
  unfolding take_var_i32_def [abs_def] by (rule steady_var_loop)

end
