(* ===== verification/Block_Entity.thy ===== *)
theory Block_Entity
  imports Nbt_Tree Keys Lenient_Reader
begin

section \<open>Block entities\<close>

text \<open>
  \<^verbatim>\<open>crates/world/src/block_entity.rs\<close> above its scanner: the validated NBT blob retained for one block
  entity, the geometry-bearing facts derived from it (\<^verbatim>\<open>block_entity/shape_actor.rs\<close>,
  \<^verbatim>\<open>block_state_identity.rs\<close>), and the decoders of a chunk's, a sub-chunk's and a live block entity.
  SHA-256 (the crate \<^verbatim>\<open>sha2\<close>) is the parameter \<open>sha\<close> of the definitions that need it.
\<close>

definition MAX_BLOCK_ENTITY_TAIL_BYTES :: usize where "MAX_BLOCK_ENTITY_TAIL_BYTES = 8 * 1024 * 1024"
definition MAX_BLOCK_ENTITY_BYTES_PER_CHUNK :: usize where
  "MAX_BLOCK_ENTITY_BYTES_PER_CHUNK = MAX_BLOCK_ENTITY_TAIL_BYTES"
definition MAX_BLOCK_ENTITIES_PER_CHUNK :: usize where "MAX_BLOCK_ENTITIES_PER_CHUNK = 16384"
definition MAX_BLOCK_ENTITIES_PER_SUB_CHUNK :: usize where "MAX_BLOCK_ENTITIES_PER_SUB_CHUNK = 4096"
definition COMPOUND_TAG :: u8 where "COMPOUND_TAG = 10"

type_synonym position3 = "i32 \<times> i32 \<times> i32"

subsection \<open>Geometry inputs\<close>

datatype state_value = State_Byte u8 | State_Int "32 word" | State_String bytes

definition write_text :: "bytes \<Rightarrow> bytes" where
  "write_text value = to_le_bytes 8 (length value) @ value"

definition state_value_bytes :: "state_value \<Rightarrow> bytes" where
  "state_value_bytes v =
     (case v of
        State_Byte b \<Rightarrow> [1, b]
      | State_Int i \<Rightarrow> [3] @ to_le_bytes 4 (unat i)
      | State_String s \<Rightarrow> [8] @ write_text s)"

text \<open>The bytes fed to the digest, in one piece.\<close>

definition state_identity :: "(bytes \<Rightarrow> bytes) \<Rightarrow> bytes \<Rightarrow> (bytes \<times> state_value) list \<Rightarrow> bytes" where
  "state_identity sha name states =
     sha (write_text name @ concat (map (\<lambda>(key, v). write_text key @ state_value_bytes v) states))"

datatype shape_actor =
    Shape_None
  | Piston (progress_bits: "32 word")
  | Moving (moving_identity: bytes) (moving_piston: position3) (expanding: bool)

text \<open>
  \<^verbatim>\<open>is_finite() && (0.0..=1.0).contains(..)\<close> on the bits of an \<^verbatim>\<open>f32\<close>: the floats from 0 to 1 are the bit
  patterns up to that of 1, and negative zero.
\<close>

definition unit_interval_bits :: "32 word \<Rightarrow> bool" where
  "unit_interval_bits b \<longleftrightarrow> b \<le> 0x3F800000 \<or> b = 0x80000000"

fun collect_some :: "'a option list \<Rightarrow> 'a list option" where
  "collect_some [] = Some []"
| "collect_some (x # xs) = do { y \<leftarrow> x; ys \<leftarrow> collect_some xs; Some (y # ys) }"

definition state_entry :: "bytes \<times> nbt_value \<Rightarrow> (bytes \<times> state_value) option" where
  "state_entry kv =
     (case snd kv of
        Nbt_Byte v \<Rightarrow> Some (fst kv, State_Byte v)
      | Nbt_Int v \<Rightarrow> Some (fst kv, State_Int v)
      | Nbt_String v \<Rightarrow> Some (fst kv, State_String v)
      | _ \<Rightarrow> None)"

definition int_field :: "nbt_compound \<Rightarrow> bytes \<Rightarrow> i32" where
  "int_field root key = (case bt_get root key of Some (Nbt_Int v) \<Rightarrow> sint v | _ \<Rightarrow> 0)"

definition moving_actor :: "(bytes \<Rightarrow> bytes) \<Rightarrow> nbt_compound \<Rightarrow> shape_actor" where
  "moving_actor sha root =
     (case nbt_compound_at root (str ''movingBlock'') of
        None \<Rightarrow> Shape_None
      | Some block \<Rightarrow>
          (case (nbt_string block (str ''name''), nbt_compound_at block (str ''states'')) of
             (Some name, Some states) \<Rightarrow>
               (case collect_some (map state_entry states) of
                  None \<Rightarrow> Shape_None
                | Some vals \<Rightarrow>
                    Moving (state_identity sha name vals)
                      (int_field root (str ''pistonPosX''), int_field root (str ''pistonPosY''),
                       int_field root (str ''pistonPosZ''))
                      (case bt_get root (str ''expanding'') of Some (Nbt_Byte v) \<Rightarrow> v \<noteq> 0 | _ \<Rightarrow> False))
           | _ \<Rightarrow> Shape_None))"

definition shape_actor_from_nbt :: "(bytes \<Rightarrow> bytes) \<Rightarrow> bytes option \<Rightarrow> bytes \<Rightarrow> shape_actor" where
  "shape_actor_from_nbt sha name bs =
     (if name \<noteq> Some (str ''PistonArm'') \<and> name \<noteq> Some (str ''MovingBlock'') then Shape_None
      else (case nbt_parse bs of
        None \<Rightarrow> Shape_None
      | Some root \<Rightarrow>
          if name = Some (str ''PistonArm'') then
            (let progress = (case bt_get root (str ''Progress'') of Some (Nbt_Float v) \<Rightarrow> v | _ \<Rightarrow> 0)
             in if unit_interval_bits progress then Piston progress else Shape_None)
          else moving_actor sha root))"

subsection \<open>The scan of one root\<close>

datatype root_byte = Absent | Root_Value u8 | Invalid

record block_entity_nbt =
  nbt_bytes :: bytes
  nbt_id :: "bytes option"
  embedded_position :: "position3 option"
  note_candidate :: root_byte
  powered_candidate :: root_byte
  nbt_shape :: shape_actor

text \<open>What the loop over the root's fields gathers; \<^verbatim>\<open>semantic_error\<close> is the first deferred error.\<close>

record root_scan =
  rs_id :: "bytes option"
  rs_x :: "i32 option"
  rs_y :: "i32 option"
  rs_z :: "i32 option"
  rs_note :: root_byte
  rs_powered :: root_byte
  semantic_error :: "nbt_error option"

definition empty_root_scan :: root_scan where
  "empty_root_scan = \<lparr>rs_id = None, rs_x = None, rs_y = None, rs_z = None, rs_note = Absent,
     rs_powered = Absent, semantic_error = None\<rparr>"

definition prefer_wire_or_first_semantic :: "nbt_error + 'a \<Rightarrow> nbt_error option \<Rightarrow> nbt_error + 'a" where
  "prefer_wire_or_first_semantic res semantic =
     map_err (\<lambda>e. if wire_error e then e else (case semantic of None \<Rightarrow> e | Some s \<Rightarrow> s)) res"

definition defer_error :: "nbt_error \<Rightarrow> root_scan \<Rightarrow> root_scan" where
  "defer_error e st =
     st\<lparr>semantic_error := Some (case semantic_error st of None \<Rightarrow> e | Some s \<Rightarrow> s)\<rparr>"

definition scan_root_byte_candidate ::
  "root_byte \<Rightarrow> u8 \<Rightarrow> usize \<Rightarrow> cursor \<Rightarrow> nbt_error + ((root_byte \<times> usize) \<times> cursor)" where
  "scan_root_byte_candidate candidate tag tags r =
     (if tag = 1 then
        and_then (read_u8 r ''root byte candidate'') (\<lambda>(v, r).
          Inr ((if candidate = Absent then Root_Value v else Invalid, tags), r))
      else and_then (scan (Payload tag) 1 (tags, r)) (\<lambda>(tags, r). Inr ((Invalid, tags), r)))"

text \<open>A root field of the wrong type is scanned like any other, after its error is deferred.\<close>

definition skip_field :: "u8 \<Rightarrow> root_scan \<Rightarrow> usize \<Rightarrow> cursor \<Rightarrow> nbt_error + ((root_scan \<times> usize) \<times> cursor)" where
  "skip_field tag st tags r =
     and_then (prefer_wire_or_first_semantic (scan (Payload tag) 1 (tags, r)) (semantic_error st))
       (\<lambda>(tags, r). Inr ((st, tags), r))"

definition id_field :: "u8 \<Rightarrow> root_scan \<Rightarrow> usize \<Rightarrow> cursor \<Rightarrow> nbt_error + ((root_scan \<times> usize) \<times> cursor)" where
  "id_field tag st tags r =
     (if tag \<noteq> 8 then skip_field tag (defer_error (Invalid_Root_Field_Type ''id'' 8 tag) st) tags r
      else and_then (prefer_wire_or_first_semantic (read_string r ''id value'') (semantic_error st)) (\<lambda>(v, r).
        Inr ((if rs_id st \<noteq> None then defer_error (Duplicate_Root_Field ''id'') st else st\<lparr>rs_id := Some v\<rparr>, tags), r)))"

definition coordinate_field ::
  "string \<Rightarrow> (root_scan \<Rightarrow> i32 option) \<Rightarrow> (i32 \<Rightarrow> root_scan \<Rightarrow> root_scan) \<Rightarrow> u8 \<Rightarrow> root_scan \<Rightarrow> usize \<Rightarrow> cursor
    \<Rightarrow> nbt_error + ((root_scan \<times> usize) \<times> cursor)" where
  "coordinate_field field slot set_slot tag st tags r =
     (if tag \<noteq> 3 then skip_field tag (defer_error (Invalid_Root_Field_Type field 3 tag) st) tags r
      else and_then (prefer_wire_or_first_semantic (read_zigzag_i32 r ''position'') (semantic_error st)) (\<lambda>(v, r).
        Inr ((if slot st \<noteq> None then defer_error (Duplicate_Root_Field field) st else set_slot v st, tags), r)))"

definition root_byte_field ::
  "(root_scan \<Rightarrow> root_byte) \<Rightarrow> (root_byte \<Rightarrow> root_scan \<Rightarrow> root_scan) \<Rightarrow> u8 \<Rightarrow> root_scan \<Rightarrow> usize \<Rightarrow> cursor
    \<Rightarrow> nbt_error + ((root_scan \<times> usize) \<times> cursor)" where
  "root_byte_field slot set_slot tag st tags r =
     and_then (prefer_wire_or_first_semantic (scan_root_byte_candidate (slot st) tag tags r) (semantic_error st))
       (\<lambda>((c, tags), r). Inr ((set_slot c st, tags), r))"

definition root_field ::
  "bytes \<Rightarrow> u8 \<Rightarrow> root_scan \<Rightarrow> usize \<Rightarrow> cursor \<Rightarrow> nbt_error + ((root_scan \<times> usize) \<times> cursor)" where
  "root_field name tag st tags r =
     (if name = str ''id'' then id_field tag st tags r
      else if name = str ''x'' then coordinate_field ''x'' rs_x (\<lambda>v st. st\<lparr>rs_x := Some v\<rparr>) tag st tags r
      else if name = str ''y'' then coordinate_field ''y'' rs_y (\<lambda>v st. st\<lparr>rs_y := Some v\<rparr>) tag st tags r
      else if name = str ''z'' then coordinate_field ''z'' rs_z (\<lambda>v st. st\<lparr>rs_z := Some v\<rparr>) tag st tags r
      else if name = str ''note'' then root_byte_field rs_note (\<lambda>c st. st\<lparr>rs_note := c\<rparr>) tag st tags r
      else if name = str ''powered'' then root_byte_field rs_powered (\<lambda>c st. st\<lparr>rs_powered := c\<rparr>) tag st tags r
      else skip_field tag st tags r)"

lemma prefer_wire_Inr [simp, result_simps]: "prefer_wire_or_first_semantic res e = Inr x \<longleftrightarrow> res = Inr x"
  by (simp add: prefer_wire_or_first_semantic_def map_err_Inr_iff)

lemma scan_total: "scan_dom x"
proof -
  have "All scan_dom"
    by (rule "scan.termination" [where R = "inv_image (less_than <*lex*> less_than <*lex*> less_than) scan_measure"])
      (auto simp: enter_container_Inr visit_tag_Inr dest!: scan_tags_mono)
  then show ?thesis ..
qed

lemma scan_tags: "scan task depth st = Inr st' \<Longrightarrow> fst st \<le> fst st'"
  using scan_tags_mono [OF scan_total] .

lemma skip_field_tags: "skip_field tag st tags r = Inr ((st', tags'), r') \<Longrightarrow> tags \<le> tags'"
  by (auto simp: skip_field_def result_simps dest: scan_tags)

lemma id_field_tags: "id_field tag st tags r = Inr ((st', tags'), r') \<Longrightarrow> tags \<le> tags'"
  unfolding id_field_def by (cases "tag = 8") (auto simp: result_simps dest: skip_field_tags)

lemma coordinate_field_tags: "coordinate_field f g s tag st tags r = Inr ((st', tags'), r') \<Longrightarrow> tags \<le> tags'"
  unfolding coordinate_field_def by (cases "tag = 3") (auto simp: result_simps dest: skip_field_tags)

lemma root_byte_field_tags: "root_byte_field g s tag st tags r = Inr ((st', tags'), r') \<Longrightarrow> tags \<le> tags'"
  unfolding root_byte_field_def scan_root_byte_candidate_def
  by (cases "tag = 1") (auto simp: result_simps dest: scan_tags)

lemma root_field_tags: "root_field name tag st tags r = Inr ((st', tags'), r') \<Longrightarrow> tags \<le> tags'"
  using skip_field_tags [of tag st tags r] id_field_tags [of tag st tags r] coordinate_field_tags [of _ _ _ tag st tags r]
    root_byte_field_tags [of _ _ tag st tags r]
  unfolding root_field_def by (simp split: if_split_asm)

text \<open>The loop over the root's fields: every turn visits a tag, of which there are boundedly many.\<close>

function root_fields :: "root_scan \<Rightarrow> usize \<Rightarrow> cursor \<Rightarrow> nbt_error + (root_scan \<times> cursor)" where
  "root_fields st tags r =
     and_then (prefer_wire_or_first_semantic (read_u8 r ''compound tag'') (semantic_error st)) (\<lambda>(tag, r).
       if tag = 0 then Inr (st, r)
       else and_then (prefer_wire_or_first_semantic (visit_tag tags) (semantic_error st)) (\<lambda>tags.
         and_then (prefer_wire_or_first_semantic (read_string r ''tag name'') (semantic_error st)) (\<lambda>(name, r).
           and_then (root_field name tag st tags r) (\<lambda>((st, tags), r). root_fields st tags r))))"
  by pat_completeness auto

termination root_fields
  by (relation "measure (\<lambda>(st, tags, r). MAX_NBT_TAGS - tags)") (auto simp: visit_tag_Inr dest!: root_field_tags)

declare root_fields.simps [simp del]

definition root_position :: "root_scan \<Rightarrow> position3 option" where
  "root_position st =
     (case (rs_x st, rs_y st, rs_z st) of (Some x, Some y, Some z) \<Rightarrow> Some (x, y, z) | _ \<Rightarrow> None)"

definition finish_position :: "root_scan \<Rightarrow> root_scan" where
  "finish_position st =
     (case (rs_x st, rs_y st, rs_z st) of
        (None, None, None) \<Rightarrow> st
      | (Some _, Some _, Some _) \<Rightarrow> st
      | _ \<Rightarrow> defer_error Partial_Position st)"

text \<open>The scan up to the end of the root, apart from the bytes it keeps.\<close>

definition scan_root :: "cursor \<Rightarrow> nbt_error + (root_scan \<times> cursor)" where
  "scan_root r =
     and_then (read_u8 r ''root tag'') (\<lambda>(root, r).
       and_then (read_string r ''root name'') (\<lambda>(_, r).
         and_then (visit_tag 0) (\<lambda>tags.
           if root \<noteq> COMPOUND_TAG then
             and_then (prefer_wire_or_first_semantic (scan (Payload root) 0 (tags, r)) (Some (Root_Not_Compound root)))
               (\<lambda>(_, r). Inr (defer_error (Root_Not_Compound root) empty_root_scan, r))
           else and_then (enter_container 0) (\<lambda>_.
             and_then (root_fields empty_root_scan tags r) (\<lambda>(st, r). Inr (finish_position st, r))))))"

definition scan_prefix ::
  "(bytes \<Rightarrow> bytes) \<Rightarrow> bytes \<Rightarrow> nbt_error + (block_entity_nbt \<times> usize \<times> nbt_error option)" where
  "scan_prefix sha bs =
     and_then (scan_root \<lparr>input = bs, position = 0\<rparr>) (\<lambda>(st, r).
       let consumed = position r; kept = take consumed bs in
       Inr (\<lparr>nbt_bytes = kept, nbt_id = rs_id st, embedded_position = root_position st,
              note_candidate = rs_note st, powered_candidate = rs_powered st,
              nbt_shape = (if semantic_error st = None then shape_actor_from_nbt sha (rs_id st) kept else Shape_None)\<rparr>,
            consumed, semantic_error st))"

definition decode_prefix :: "(bytes \<Rightarrow> bytes) \<Rightarrow> bytes \<Rightarrow> nbt_error + (block_entity_nbt \<times> usize)" where
  "decode_prefix sha bs =
     and_then (scan_prefix sha bs) (\<lambda>(nbt, consumed, semantic).
       case semantic of Some e \<Rightarrow> Inl e | None \<Rightarrow> Inr (nbt, consumed))"

definition lenient_nbt_len :: "(bytes \<Rightarrow> bytes) \<Rightarrow> bytes \<Rightarrow> usize" where
  "lenient_nbt_len sha bs =
     (case bs of
        [] \<Rightarrow> 0
      | b # _ \<Rightarrow>
          if b = COMPOUND_TAG then
            (case scan_prefix sha bs of Inl _ \<Rightarrow> length bs | Inr (_, consumed, _) \<Rightarrow> consumed)
          else 1)"

subsection \<open>The scan is local\<close>

lemma local_prefer [local_intros]: "local_at f r \<Longrightarrow> local_at (\<lambda>r. prefer_wire_or_first_semantic (f r) e) r"
  unfolding local_at_def by simp

lemma local_scan_pair [local_intros]: "local_at (\<lambda>r. scan task depth (tags, r)) r"
  by (rule local_scan)

lemma local_skip_field [local_intros]: "local_at (\<lambda>r. skip_field tag st tags r) r"
  unfolding skip_field_def by (intro local_intros)

lemma local_id_field [local_intros]: "local_at (\<lambda>r. id_field tag st tags r) r"
  unfolding id_field_def by (intro local_intros)

lemma local_coordinate_field [local_intros]: "local_at (\<lambda>r. coordinate_field f g s tag st tags r) r"
  unfolding coordinate_field_def by (intro local_intros)

lemma local_candidate [local_intros]: "local_at (\<lambda>r. scan_root_byte_candidate c tag tags r) r"
  unfolding scan_root_byte_candidate_def by (intro local_intros)

lemma local_bind_pair [local_intros]:
  assumes "local_at f r" "\<And>x y r1. f r = Inr ((x, y), r1) \<Longrightarrow> local_at (g x y) r1"
  shows "local_at (\<lambda>r. and_then (f r) (\<lambda>((x, y), r). g x y r)) r"
  using local_bind [OF assms(1), of "\<lambda>(x, y). g x y"] assms(2) by (auto simp: case_prod_unfold)

lemma local_root_byte_field [local_intros]: "local_at (\<lambda>r. root_byte_field g s tag st tags r) r"
  unfolding root_byte_field_def by (intro local_intros)

lemma local_root_field [local_intros]: "local_at (\<lambda>r. root_field name tag st tags r) r"
  unfolding root_field_def by (intro local_intros)

text \<open>A step that does not read, between two that do.\<close>

lemma local_pure [local_intros]:
  assumes "\<And>x. m = Inr x \<Longrightarrow> local_at (g x) r" shows "local_at (\<lambda>r. and_then m (\<lambda>x. g x r)) r"
  using assms by (cases m) (simp_all add: local_error)

lemma local_root_fields [local_intros]: "local_at (\<lambda>r. root_fields st tags r) r"
proof (induction st tags r rule: root_fields.induct)
  case (1 st tags r)
  have eq: "root_fields st tags = (\<lambda>r.
     and_then (prefer_wire_or_first_semantic (read_u8 r ''compound tag'') (semantic_error st)) (\<lambda>(tag, r).
       if tag = 0 then Inr (st, r)
       else and_then (prefer_wire_or_first_semantic (visit_tag tags) (semantic_error st)) (\<lambda>tags.
         and_then (prefer_wire_or_first_semantic (read_string r ''tag name'') (semantic_error st)) (\<lambda>(name, r).
           and_then (root_field name tag st tags r) (\<lambda>((st, tags), r). root_fields st tags r)))))"
    by (rule ext) (rule root_fields.simps)
  show ?case unfolding eq
    by (intro local_intros) (auto intro!: 1)
qed

lemma local_scan_root: "local_at scan_root r"
  unfolding scan_root_def [abs_def] by (intro local_intros)

end
