(* ===== verification/Revision.thy ===== *)
theory Revision
  imports Prelude
begin

section \<open>Collision revisions\<close>

text \<open>
  \<^verbatim>\<open>CollisionRevisionAllocator\<close> of \<^verbatim>\<open>crates/world/src/collision_revision.rs\<close>: identities for the
  collision contents of chunk columns, shared by every store of the process.  The allocator keeps
  the next identity in an atomic 64-bit word, where 0 says that the identities are exhausted.  The
  sequential behaviour of a request is \<open>allocate_batch\<close>; the compare-exchange loop that several
  threads run at once is the step relation \<open>alloc_step\<close>.
\<close>

datatype collision_revision_error = Exhausted

definition u64_bound :: nat where
  "u64_bound = 2 ^ 64"

definition checked_add_u64 :: "nat \<Rightarrow> nat \<Rightarrow> nat option" where
  "checked_add_u64 a b = (if a + b < u64_bound then Some (a + b) else None)"

subsection \<open>One request\<close>

text \<open>The reservation the loop tries: the last identity and what it leaves in the shared word.\<close>

definition reservation :: "nat \<Rightarrow> nat \<Rightarrow> collision_revision_error + (nat \<times> nat)" where
  "reservation next_revision count =
     (if next_revision = 0 then Inl Exhausted
      else case checked_add_u64 next_revision (count - 1) of
             None \<Rightarrow> Inl Exhausted
           | Some final \<Rightarrow> Inr (final, case checked_add_u64 final 1 of None \<Rightarrow> 0 | Some n \<Rightarrow> n))"

text \<open>A request that no other thread disturbs, with the allocator's state before and after.\<close>

definition allocate_batch :: "nat \<Rightarrow> usize \<Rightarrow> (collision_revision_error + nat list) \<times> nat" where
  "allocate_batch next_revision count =
     (if count = 0 then (Inr [], next_revision)
      else if count \<ge> u64_bound then (Inl Exhausted, next_revision)
      else case reservation next_revision count of
             Inl e \<Rightarrow> (Inl e, next_revision)
           | Inr (final, replacement) \<Rightarrow> (Inr [next_revision..<Suc final], replacement))"

text \<open>\<^verbatim>\<open>expect\<close> of the first element: \<open>None\<close> is its panic.\<close>

definition allocate :: "nat \<Rightarrow> (collision_revision_error + nat) option \<times> nat" where
  "allocate next_revision =
     (case allocate_batch next_revision 1 of
        (Inl e, n) \<Rightarrow> (Some (Inl e), n)
      | (Inr (r # _), n) \<Rightarrow> (Some (Inr r), n)
      | (Inr [], n) \<Rightarrow> (None, n))"

text \<open>What \<^verbatim>\<open>allocate\<close> comes to, since its \<^verbatim>\<open>expect\<close> cannot fail.\<close>

definition take_revision :: "nat \<Rightarrow> (collision_revision_error + nat) \<times> nat" where
  "take_revision n =
     (if n = 0 then (Inl Exhausted, 0) else (Inr n, if Suc n < u64_bound then Suc n else 0))"

lemma allocate_take:
  assumes "n < u64_bound" shows "allocate n = (Some (fst (take_revision n)), snd (take_revision n))"
proof -
  have "1 < u64_bound" by (simp add: u64_bound_def)
  then show ?thesis
    using assms by (simp add: allocate_def allocate_batch_def reservation_def checked_add_u64_def take_revision_def)
qed

subsection \<open>The interface a store relies on\<close>

text \<open>
  What callers need of a source of identities: a request is answered with as many fresh identities
  as asked for, above a mark that only grows, or fails and changes nothing.  \<open>below s r\<close> says that
  identity \<open>r\<close> may have been handed out before state \<open>s\<close>.
\<close>

locale revision_source =
  fixes alloc :: "'s \<Rightarrow> usize \<Rightarrow> ('e + nat list) \<times> 's"
    and invar :: "'s \<Rightarrow> bool"
    and below :: "'s \<Rightarrow> nat \<Rightarrow> bool"
  assumes alloc_invar: "invar s \<Longrightarrow> invar (snd (alloc s n))"
    and alloc_error: "invar s \<Longrightarrow> alloc s n = (Inl e, s') \<Longrightarrow> s' = s"
    and alloc_count: "invar s \<Longrightarrow> alloc s n = (Inr rs, s') \<Longrightarrow> length rs = n \<and> sorted_wrt (<) rs"
    and alloc_fresh: "invar s \<Longrightarrow> alloc s n = (Inr rs, s') \<Longrightarrow> r \<in> set rs \<Longrightarrow> \<not> below s r \<and> below s' r"
    and alloc_mono: "invar s \<Longrightarrow> below s r \<Longrightarrow> below (snd (alloc s n)) r"
begin

text \<open>A run of requests, and the identities it handed out.\<close>

fun serve :: "'s \<Rightarrow> usize list \<Rightarrow> nat list \<times> 's" where
  "serve s [] = ([], s)"
| "serve s (n # ns) =
     (case alloc s n of
        (Inl e, s') \<Rightarrow> serve s' ns
      | (Inr rs, s') \<Rightarrow> (rs @ fst (serve s' ns), snd (serve s' ns)))"

lemma serve_invar: "invar s \<Longrightarrow> invar (snd (serve s ns))"
proof (induction ns arbitrary: s)
  case (Cons n ns)
  obtain r s' where a: "alloc s n = (r, s')" by (rule prod.exhaust)
  have "invar s'" using alloc_invar [OF Cons.prems, of n] by (simp add: a)
  then show ?case using Cons.IH by (cases r) (simp_all add: a)
qed simp

text \<open>No identity is handed out twice, whatever requests are made and whichever fail.\<close>

lemma serve_distinct:
  "invar s \<Longrightarrow> distinct (fst (serve s ns)) \<and> (\<forall>r\<in>set (fst (serve s ns)). \<not> below s r)"
proof (induction ns arbitrary: s)
  case (Cons n ns)
  obtain a s' where a: "alloc s n = (a, s')" by fastforce
  have inv: "invar s'" using alloc_invar [OF Cons.prems, of n] a by simp
  have mono: "below s r \<Longrightarrow> below s' r" for r using alloc_mono [OF Cons.prems, of r n] a by simp
  note IH = Cons.IH [OF inv]
  show ?case
  proof (cases a)
    case (Inl e)
    then show ?thesis using a IH alloc_error [OF Cons.prems, of n e s'] by simp
  next
    case (Inr rs)
    then have rs: "alloc s n = (Inr rs, s')" using a by simp
    have "distinct rs"
      using alloc_count [OF Cons.prems rs] by (simp add: strict_sorted_iff)
    moreover have "\<not> below s r \<and> below s' r" if "r \<in> set rs" for r
      using alloc_fresh [OF Cons.prems rs that] .
    ultimately show ?thesis using IH mono Inr a by (auto 0 3)
  qed
qed simp

end

text \<open>The allocator provides it; 0 stands above every identity.\<close>

definition revision_below :: "nat \<Rightarrow> nat \<Rightarrow> bool" where
  "revision_below n r \<longleftrightarrow> (r < u64_bound \<and> (n = 0 \<or> r < n))"

definition revision_invar :: "nat \<Rightarrow> bool" where
  "revision_invar n \<longleftrightarrow> n < u64_bound"

lemma reservation_Inr:
  assumes "reservation n c = Inr (final, n')"
  shows "0 < n" "final = n + (c - 1)" "final < u64_bound" "n' < u64_bound"
    "n' = (if Suc final < u64_bound then Suc final else 0)"
  using assms by (auto simp: reservation_def checked_add_u64_def u64_bound_def split: if_splits)

lemma allocate_batch_Inr:
  assumes "allocate_batch n c = (Inr rs, n')" "revision_invar n"
  shows "rs = [n..<n + c]" and "c = 0 \<and> n' = n \<or> 0 < n \<and> n + c \<le> u64_bound \<and> n' = (n + c) mod u64_bound"
proof -
  have "rs = [n..<n + c] \<and> (c = 0 \<and> n' = n \<or> 0 < n \<and> n + c \<le> u64_bound \<and> n' = (n + c) mod u64_bound)"
  proof (cases "c = 0")
    case True
    then show ?thesis using assms by (simp add: allocate_batch_def)
  next
    case False
    then obtain final where r: "reservation n c = Inr (final, n')" and rs: "rs = [n..<Suc final]"
      using assms(1) by (auto simp: allocate_batch_def split: if_splits sum.splits)
    note facts = reservation_Inr [OF r]
    have "Suc final = n + c" using facts(2) False by simp
    then have "n' = (n + c) mod u64_bound"
    proof (cases "n + c < u64_bound")
      case False
      then have "n + c = u64_bound" using facts(3) \<open>Suc final = n + c\<close> by simp
      then show ?thesis using facts(5) \<open>Suc final = n + c\<close> by simp
    qed (use facts(5) \<open>Suc final = n + c\<close> in simp)
    then show ?thesis using facts(1,3) rs \<open>Suc final = n + c\<close> by simp
  qed
  then show "rs = [n..<n + c]" and "c = 0 \<and> n' = n \<or> 0 < n \<and> n + c \<le> u64_bound \<and> n' = (n + c) mod u64_bound"
    by auto
qed

lemma allocate_batch_Inl: "allocate_batch n c = (Inl e, n') \<Longrightarrow> n' = n"
  by (auto simp: allocate_batch_def split: if_splits sum.splits)

interpretation revisions: revision_source allocate_batch revision_invar revision_below
proof (unfold_locales, goal_cases)
  case (1 s n)
  obtain a s' where a: "allocate_batch s n = (a, s')" by fastforce
  show ?case
  proof (cases a)
    case (Inr rs)
    then show ?thesis using allocate_batch_Inr(2) [of s n rs s'] a 1 by (auto simp: revision_invar_def)
  qed (use allocate_batch_Inl [of s n _ s'] a 1 in auto)
next
  case (2 s n e s')
  then show ?case using allocate_batch_Inl by blast
next
  case (3 s n rs s')
  then show ?case using allocate_batch_Inr(1) [of s n rs s'] by (simp add: sorted_wrt_upt)
next
  case (4 s n rs s' r)
  note facts = allocate_batch_Inr [OF 4(2,1)]
  show ?case
  proof (cases "s + n < u64_bound")
    case True
    then show ?thesis using facts 4(3) by (auto simp: revision_below_def)
  next
    case False
    then show ?thesis using facts 4(3) by (auto simp: revision_below_def revision_invar_def)
  qed
next
  case (5 s r n)
  obtain a s' where a: "allocate_batch s n = (a, s')" by fastforce
  show ?case
  proof (cases a)
    case (Inl e)
    then show ?thesis using allocate_batch_Inl [of s n e s'] a 5 by simp
  next
    case (Inr rs)
    then have "n = 0 \<and> s' = s \<or> 0 < s \<and> s + n \<le> u64_bound \<and> s' = (s + n) mod u64_bound"
      using allocate_batch_Inr(2) [of s n rs s'] a 5 by simp
    then show ?thesis
      using 5(2) a by (cases "s + n < u64_bound") (auto simp: revision_below_def)
  qed
qed

lemma take_revision_Inr:
  assumes "take_revision n = (Inr r, n')" "n < u64_bound"
  shows "r = n" "0 < r" "n' < u64_bound" "n' = 0 \<or> r < n'" "r < u64_bound"
  using assms by (auto simp: take_revision_def split: if_splits)

subsection \<open>Several threads\<close>

text \<open>
  A thread asks for a batch, loads the shared word, and then either publishes its reservation with
  a compare-exchange that sees the loaded value, or (the word changed, or the weak exchange failed
  spuriously) takes the value it observed and tries again.
\<close>

datatype alloc_thread =
    Requesting usize
  | Looping usize nat
  | Finished "collision_revision_error + nat list"

record alloc_state =
  shared_next :: nat
  threads :: "nat \<Rightarrow> alloc_thread"

inductive alloc_step :: "alloc_state \<Rightarrow> alloc_state \<Rightarrow> bool" where
  empty: "threads s t = Requesting 0 \<Longrightarrow>
    alloc_step s (s\<lparr>threads := (threads s)(t := Finished (Inr []))\<rparr>)"
| too_many: "threads s t = Requesting count \<Longrightarrow> count \<ge> u64_bound \<Longrightarrow>
    alloc_step s (s\<lparr>threads := (threads s)(t := Finished (Inl Exhausted))\<rparr>)"
| load: "threads s t = Requesting count \<Longrightarrow> 0 < count \<Longrightarrow> count < u64_bound \<Longrightarrow>
    alloc_step s (s\<lparr>threads := (threads s)(t := Looping count (shared_next s))\<rparr>)"
| give_up: "threads s t = Looping count seen \<Longrightarrow> reservation seen count = Inl e \<Longrightarrow>
    alloc_step s (s\<lparr>threads := (threads s)(t := Finished (Inl e))\<rparr>)"
| exchange: "threads s t = Looping count seen \<Longrightarrow> reservation seen count = Inr (final, replacement) \<Longrightarrow>
    shared_next s = seen \<Longrightarrow>
    alloc_step s (s\<lparr>shared_next := replacement,
      threads := (threads s)(t := Finished (Inr [seen..<Suc final]))\<rparr>)"
| retry: "threads s t = Looping count seen \<Longrightarrow> reservation seen count = Inr (final, replacement) \<Longrightarrow>
    alloc_step s (s\<lparr>threads := (threads s)(t := Looping count (shared_next s))\<rparr>)"

definition handed_out :: "alloc_state \<Rightarrow> nat \<Rightarrow> nat set" where
  "handed_out s t = (case threads s t of Finished (Inr rs) \<Rightarrow> set rs | _ \<Rightarrow> {})"

definition alloc_start :: "nat \<Rightarrow> alloc_state \<Rightarrow> bool" where
  "alloc_start first s \<longleftrightarrow> shared_next s = first \<and> (\<forall>t. \<exists>count. threads s t = Requesting count)"

text \<open>The invariant: identities handed out lie below the shared word, and no two threads share one.\<close>

definition alloc_invar :: "alloc_state \<Rightarrow> bool" where
  "alloc_invar s \<longleftrightarrow>
     shared_next s < u64_bound \<and>
     (\<forall>t count seen. threads s t = Looping count seen \<longrightarrow> 0 < count \<and> count < u64_bound \<and> seen < u64_bound) \<and>
     (\<forall>t. \<forall>r\<in>handed_out s t. 0 < r \<and> revision_below (shared_next s) r) \<and>
     (\<forall>t t'. t \<noteq> t' \<longrightarrow> handed_out s t \<inter> handed_out s t' = {})"

lemma alloc_invar_quiet:
  assumes inv: "alloc_invar s" and old: "handed_out s t = {}"
    and new: "\<And>c n. v = Looping c n \<Longrightarrow> 0 < c \<and> c < u64_bound \<and> n < u64_bound"
      "\<And>rs. v = Finished (Inr rs) \<Longrightarrow> rs = []"
  shows "alloc_invar (s\<lparr>threads := (threads s)(t := v)\<rparr>)"
proof -
  have "handed_out (s\<lparr>threads := (threads s)(t := v)\<rparr>) t' = handed_out s t'" for t'
    using old new(2) by (auto simp: handed_out_def split: alloc_thread.splits sum.splits)
  then show ?thesis using inv new(1) by (auto simp: alloc_invar_def)
qed

lemma alloc_invar_exchange:
  assumes inv: "alloc_invar s" and t: "threads s t = Looping count (shared_next s)"
    and res: "reservation (shared_next s) count = Inr (final, replacement)"
  shows "alloc_invar (s\<lparr>shared_next := replacement,
      threads := (threads s)(t := Finished (Inr [shared_next s..<Suc final]))\<rparr>)" (is "alloc_invar ?s")
proof -
  note r = reservation_Inr [OF res]
  have new: "handed_out ?s t = {shared_next s..final}" by (auto simp: handed_out_def)
  have same: "handed_out ?s t' = handed_out s t'" if "t' \<noteq> t" for t'
    using that by (simp add: handed_out_def)
  have bound: "0 < x \<and> x < shared_next s" if "x \<in> handed_out s t'" for x t'
    using inv that r(1) by (auto simp: alloc_invar_def revision_below_def)
  have apart: "handed_out ?s a \<inter> handed_out ?s b = {}" if ab: "a \<noteq> b" for a b
  proof -
    have "handed_out s a \<inter> handed_out s b = {}" using inv ab by (simp add: alloc_invar_def)
    moreover have "x \<notin> {shared_next s..final}" if "x \<in> handed_out s c" for x c using bound [OF that] by simp
    ultimately show ?thesis using same new ab by (cases "a = t"; cases "b = t") auto
  qed
  have "0 < x \<and> revision_below (shared_next ?s) x" if "x \<in> handed_out ?s t'" for x t'
  proof (cases "t' = t")
    case True
    then show ?thesis using that new r by (auto simp: revision_below_def)
  next
    case False
    have "shared_next s \<le> final" using r(2) by simp
    then show ?thesis
      using bound [of x t'] same [OF False] that r by (auto simp: revision_below_def)
  qed
  then show ?thesis using inv apart r(4) by (auto simp: alloc_invar_def)
qed

lemma alloc_invar_step: "alloc_step s s' \<Longrightarrow> alloc_invar s \<Longrightarrow> alloc_invar s'"
proof (induction rule: alloc_step.induct)
  case (exchange s t count seen final replacement)
  then show ?case using alloc_invar_exchange [of s t count final replacement] by (simp del: upt_Suc)
next
  case (load s t count)
  then show ?case by (intro alloc_invar_quiet) (auto simp: handed_out_def alloc_invar_def)
next
  case (retry s t count seen final replacement)
  then show ?case by (intro alloc_invar_quiet) (auto simp: handed_out_def alloc_invar_def)
qed (intro alloc_invar_quiet; auto simp: handed_out_def)+

lemma alloc_invar_reachable:
  assumes "alloc_step\<^sup>*\<^sup>* s s'" "alloc_start first s" "first < u64_bound"
  shows "alloc_invar s'"
  using assms(1)
proof (induction rule: rtranclp_induct)
  case base
  have "\<exists>count. threads s t = Requesting count" for t using assms(2) by (simp add: alloc_start_def)
  then have "handed_out s t = {} \<and> (\<forall>c n. threads s t \<noteq> Looping c n)" for t
    by (metis alloc_thread.distinct(1) alloc_thread.simps(10) handed_out_def)
  then show ?case using assms(2,3) by (simp add: alloc_invar_def alloc_start_def)
qed (rule alloc_invar_step)

text \<open>Every thread is answered for what it asked.\<close>

definition answers :: "usize \<Rightarrow> alloc_thread \<Rightarrow> bool" where
  "answers count v =
     (case v of Requesting c \<Rightarrow> c = count | Looping c seen \<Rightarrow> c = count
      | Finished (Inl e) \<Rightarrow> True | Finished (Inr rs) \<Rightarrow> \<exists>n. rs = [n..<n + count])"

lemma answers_step: "alloc_step s s' \<Longrightarrow> alloc_invar s \<Longrightarrow> answers count (threads s t) \<Longrightarrow> answers count (threads s' t)"
proof (induction rule: alloc_step.induct)
  case (exchange s t' c seen final replacement)
  have "0 < c" using exchange.hyps(1) exchange.prems(1) by (auto simp: alloc_invar_def)
  then have "Suc final = seen + c" using reservation_Inr(2) [OF exchange.hyps(2)] by simp
  then show ?case using exchange by (cases "t = t'") (auto simp: answers_def simp del: upt_Suc)
qed (auto simp: answers_def)

lemma answers_reachable:
  assumes "alloc_step\<^sup>*\<^sup>* s s'" "alloc_start first s" "first < u64_bound" "threads s t = Requesting count"
  shows "answers count (threads s' t)"
  using assms(1)
proof (induction rule: rtranclp_induct)
  case base
  then show ?case using assms(4) by (simp add: answers_def)
next
  case (step y z)
  then show ?case using answers_step alloc_invar_reachable [OF step.hyps(1) assms(2,3)] by blast
qed

text \<open>
  C27.  However the requests of concurrent threads interleave, and whatever compare-exchanges fail,
  no collision revision is handed out twice, none is 0, and a thread that is answered gets as many
  consecutive revisions as it asked for.
\<close>

theorem concurrent_revisions_unique:
  assumes "alloc_step\<^sup>*\<^sup>* s s'" "alloc_start first s" "first < u64_bound"
  shows "(\<forall>t t'. t \<noteq> t' \<longrightarrow> handed_out s' t \<inter> handed_out s' t' = {}) \<and>
    (\<forall>t. 0 \<notin> handed_out s' t \<and> (\<forall>r\<in>handed_out s' t. r < u64_bound)) \<and>
    (\<forall>t count rs. threads s t = Requesting count \<longrightarrow> threads s' t = Finished (Inr rs) \<longrightarrow>
       (\<exists>n. rs = [n..<n + count]))"
proof -
  have "alloc_invar s'" by (rule alloc_invar_reachable [OF assms])
  moreover have "\<exists>n. rs = [n..<n + count]"
    if "threads s t = Requesting count" "threads s' t = Finished (Inr rs)" for t count rs
    using answers_reachable [OF assms that(1)] that(2) by (simp add: answers_def)
  ultimately show ?thesis by (auto simp: alloc_invar_def revision_below_def)
qed

definition two_requests :: alloc_state where
  "two_requests = \<lparr>shared_next = 1, threads = (\<lambda>t. Requesting (if t = 0 then 2 else 1))\<rparr>"

lemma concurrent_revisions_unique_witness:
  "\<exists>s'. alloc_step\<^sup>*\<^sup>* two_requests s' \<and> handed_out s' 0 = {2, 3} \<and> handed_out s' 1 = {1} \<and>
    handed_out s' 0 \<inter> handed_out s' 1 = {}"
proof -
  let ?a = "two_requests\<lparr>threads := (threads two_requests)(0 := Looping 2 1)\<rparr>"
  let ?b = "?a\<lparr>threads := (threads ?a)(1 := Looping 1 1)\<rparr>"
  let ?c = "?b\<lparr>shared_next := 2, threads := (threads ?b)(1 := Finished (Inr [1..<Suc 1]))\<rparr>"
  let ?d = "?c\<lparr>threads := (threads ?c)(0 := Looping 2 2)\<rparr>"
  let ?e = "?d\<lparr>shared_next := 4, threads := (threads ?d)(0 := Finished (Inr [2..<Suc 3]))\<rparr>"
  have "alloc_step two_requests ?a" using alloc_step.load [of two_requests 0 2]
    by (simp add: two_requests_def u64_bound_def)
  moreover have "alloc_step ?a ?b" using alloc_step.load [of ?a 1 1]
    by (simp add: two_requests_def u64_bound_def)
  moreover have "alloc_step ?b ?c" using alloc_step.exchange [of ?b 1 1 1 1 2]
    by (simp add: two_requests_def u64_bound_def reservation_def checked_add_u64_def)
  moreover have "alloc_step ?c ?d" using alloc_step.retry [of ?c 0 2 1 2 3]
    by (simp add: two_requests_def u64_bound_def reservation_def checked_add_u64_def)
  moreover have "alloc_step ?d ?e" using alloc_step.exchange [of ?d 0 2 2 3 4]
    by (simp add: two_requests_def u64_bound_def reservation_def checked_add_u64_def)
  ultimately have steps: "alloc_step\<^sup>*\<^sup>* two_requests ?e"
    by (meson rtranclp.rtrancl_refl rtranclp.rtrancl_into_rtrancl)
  have start: "alloc_start 1 two_requests" by (simp add: alloc_start_def two_requests_def)
  have disjoint: "handed_out ?e 0 \<inter> handed_out ?e 1 = {}"
    using concurrent_revisions_unique [OF steps start] by (simp add: u64_bound_def del: upt_Suc)
  have "handed_out ?e 0 = {2, 3}" "handed_out ?e 1 = {1}" by (auto simp: handed_out_def)
  then show ?thesis using steps disjoint by blast
qed

end
