(* ===== verification/Block_Entity_Decode.thy ===== *)
theory Block_Entity_Decode
  imports Block_Entity Revision
begin

section \<open>Decoding block entities\<close>

text \<open>
  The decoders of \<^verbatim>\<open>block_entity.rs\<close> above \<^verbatim>\<open>scan_prefix\<close>: the entities of a chunk tail or a sub-chunk
  tail, which skip what the client would not place, and a live update, which rejects it.
\<close>

datatype block_entity_error =
    Revision_Error collision_revision_error
  | Nbt_Error nbt_error
  | Too_Many_Entities usize
  | Chunk_Entity_Bytes_Too_Large usize usize
  | Position_Mismatch position3 position3
  | Trailing_Bytes usize

record decoded_block_entities =
  entities :: "(block_entity_key, block_entity_nbt) btree_map"
  entity_bytes_consumed :: usize

datatype block_entity_scope =
    Chunk_Scope chunk_key i32 i32
  | Sub_Chunk_Scope sub_chunk_key

text \<open>The key of an entity at a position and whether the scope holds it; \<open>x >> 4\<close> rounds down.\<close>

definition scoped_key :: "block_entity_scope \<Rightarrow> position3 \<Rightarrow> block_entity_key \<times> bool" where
  "scoped_key scope p =
     (case p of (x, y, z) \<Rightarrow>
       (case scope of
          Chunk_Scope chunk lo hi \<Rightarrow>
            (Block_Entity_Key (ck_dimension chunk) x y z,
             Chunk_Key (ck_dimension chunk) (x div 16) (z div 16) = chunk \<and> lo \<le> y \<and> y < hi)
        | Sub_Chunk_Scope key \<Rightarrow>
            (Block_Entity_Key (sk_dimension key) x y z,
             be_sub_chunk (Block_Entity_Key (sk_dimension key) x y z) = key)))"

text \<open>One entity that scanned without an error: kept if in scope, not yet there and within the byte budget.\<close>

definition place_entity ::
  "block_entity_scope \<Rightarrow> block_entity_nbt \<Rightarrow> (block_entity_key, block_entity_nbt) btree_map \<times> usize
    \<Rightarrow> (block_entity_key, block_entity_nbt) btree_map \<times> usize" where
  "place_entity scope nbt acc =
     (case embedded_position nbt of
        None \<Rightarrow> acc
      | Some p \<Rightarrow>
          (let (es, retained) = acc; (key, in_scope) = scoped_key scope p in
           if in_scope \<and> \<not> bt_contains es key then
             (let total = retained + length (nbt_bytes nbt) in
              if total \<le> MAX_BLOCK_ENTITY_BYTES_PER_CHUNK then (bt_insert key nbt es, total) else acc)
           else acc))"

lemma prefer_wire_ok [simp]: "prefer_wire_or_first_semantic (Inr x) e = Inr x"
  by (simp add: prefer_wire_or_first_semantic_def)

lemma local_scan_root_used:
  assumes "scan_root \<lparr>input = bs, position = 0\<rparr> = Inr (st, r)"
  shows "0 < position r" "position r \<le> length bs" "r = \<lparr>input = bs, position = position r\<rparr>"
    "scan_root \<lparr>input = take (position r) bs @ ys, position = 0\<rparr> =
       Inr (st, \<lparr>input = take (position r) bs @ ys, position = position r\<rparr>)"
proof -
  let ?c = "\<lparr>input = bs, position = 0\<rparr>"
  obtain n where n: "n \<le> length (rest ?c)" "r = advance ?c n"
    "\<And>s. position s = position ?c \<Longrightarrow> take n (rest s) = take n (rest ?c) \<Longrightarrow> scan_root s = Inr (st, advance s n)"
    using local_atD [OF local_scan_root assms] by blast
  have pos: "position r = n" and len: "n \<le> length bs" using n(1,2) by (simp_all add: rest_def)
  show "position r \<le> length bs" using pos len by simp
  show "r = \<lparr>input = bs, position = position r\<rparr>" using n(2) pos by (simp add: advance_def)
  let ?s = "\<lparr>input = take n bs @ ys, position = 0\<rparr>"
  have "scan_root ?s = Inr (st, advance ?s n)" using n(3) [of ?s] len by (simp add: rest_def min_absorb2)
  then show "scan_root \<lparr>input = take (position r) bs @ ys, position = 0\<rparr> =
       Inr (st, \<lparr>input = take (position r) bs @ ys, position = position r\<rparr>)"
    by (simp add: pos advance_def)
  show "0 < position r"
  proof (rule ccontr)
    assume "\<not> 0 < position r"
    then have "n = 0" using pos by simp
    then have "scan_root \<lparr>input = [], position = 0\<rparr> = Inr (st, \<lparr>input = [], position = 0\<rparr>)"
      using n(3) [of "\<lparr>input = [], position = 0\<rparr>"] by (simp add: rest_def)
    then show False
      by (auto simp: scan_root_def read_u8_def read_exact_def require_remaining_def result_simps)
  qed
qed

lemma scan_prefix_Inr:
  assumes "scan_prefix sha bs = Inr (nbt, used, e)"
  shows "0 < used" "used \<le> length bs" "nbt_bytes nbt = take used bs"
    "scan_prefix sha (take used bs @ ys) = Inr (nbt, used, e)"
proof -
  obtain st r where r: "scan_root \<lparr>input = bs, position = 0\<rparr> = Inr (st, r)" "used = position r"
      and nbt: "nbt_bytes nbt = take used bs"
    using assms by (auto simp: scan_prefix_def result_simps Let_def)
  note scan = local_scan_root_used(1-3) [OF r(1)] local_scan_root_used(4) [OF r(1), of ys]
  show "0 < used" "used \<le> length bs" "nbt_bytes nbt = take used bs" using scan(1,2) r(2) nbt by auto
  have "take used (take used bs @ ys) = take used bs" using scan(2) r(2) by (simp add: min_absorb2)
  then show "scan_prefix sha (take used bs @ ys) = Inr (nbt, used, e)"
    using assms scan(4) r by (auto simp: scan_prefix_def Let_def)
qed

text \<open>The loop over a tail.\<close>

function scoped_loop ::
  "(bytes \<Rightarrow> bytes) \<Rightarrow> block_entity_scope \<Rightarrow> usize \<Rightarrow> bytes \<Rightarrow> usize
    \<Rightarrow> (block_entity_key, block_entity_nbt) btree_map \<times> usize \<Rightarrow> (block_entity_key, block_entity_nbt) btree_map \<times> usize"
where
  "scoped_loop sha scope max_entities payload consumed acc =
     (if consumed < length payload \<and> length (fst acc) < max_entities then
        (let bs = drop consumed payload in
         if hd bs \<noteq> COMPOUND_TAG then scoped_loop sha scope max_entities payload (consumed + 1) acc
         else (case scan_prefix sha bs of
             Inl _ \<Rightarrow> acc
           | Inr (nbt, used, semantic) \<Rightarrow>
               scoped_loop sha scope max_entities payload (consumed + used)
                 (if semantic \<noteq> None then acc else place_entity scope nbt acc)))
      else acc)"
  by pat_completeness auto

termination scoped_loop
  by (relation "measure (\<lambda>(sha, scope, max_entities, payload, consumed, acc). length payload - consumed)")
    (auto dest: scan_prefix_Inr(1))

declare scoped_loop.simps [simp del]

definition decode_scoped_entities ::
  "(bytes \<Rightarrow> bytes) \<Rightarrow> block_entity_scope \<Rightarrow> bytes \<Rightarrow> usize \<Rightarrow> decoded_block_entities" where
  "decode_scoped_entities sha scope payload max_entities =
     \<lparr>entities = fst (scoped_loop sha scope max_entities payload 0 (bt_empty, 0)),
      entity_bytes_consumed = length payload\<rparr>"

definition decode_level_chunk_tail ::
  "(bytes \<Rightarrow> bytes) \<Rightarrow> chunk_key \<Rightarrow> i32 \<Rightarrow> i32 \<Rightarrow> bytes \<Rightarrow> decoded_block_entities" where
  "decode_level_chunk_tail sha chunk lo hi payload =
     (let (border, r) = take_u8 (new_reader payload);
          (_, r) = take_exact (unat border) r;
          decoded = decode_scoped_entities sha (Chunk_Scope chunk lo hi) (remaining r) MAX_BLOCK_ENTITIES_PER_CHUNK
      in decoded\<lparr>entity_bytes_consumed := length payload\<rparr>)"

definition decode_sub_chunk_tail :: "(bytes \<Rightarrow> bytes) \<Rightarrow> sub_chunk_key \<Rightarrow> bytes \<Rightarrow> decoded_block_entities" where
  "decode_sub_chunk_tail sha key payload =
     decode_scoped_entities sha (Sub_Chunk_Scope key) payload MAX_BLOCK_ENTITIES_PER_SUB_CHUNK"

definition decode_live ::
  "(bytes \<Rightarrow> bytes) \<Rightarrow> block_entity_key \<Rightarrow> bytes \<Rightarrow> block_entity_error + block_entity_nbt" where
  "decode_live sha key payload =
     and_then (map_err Nbt_Error (scan_prefix sha payload)) (\<lambda>(nbt, consumed, semantic).
       if consumed \<noteq> length payload then Inl (Trailing_Bytes (length payload - consumed))
       else (case semantic of
           Some e \<Rightarrow> Inl (Nbt_Error e)
         | None \<Rightarrow>
             (case embedded_position nbt of
                Some actual \<Rightarrow>
                  if actual \<noteq> be_position key then Inl (Position_Mismatch (be_position key) actual) else Inr nbt
              | None \<Rightarrow> Inr nbt)))"

definition decoded_get :: "decoded_block_entities \<Rightarrow> block_entity_key \<Rightarrow> block_entity_nbt option" where
  "decoded_get d key = bt_get (entities d) key"

subsection \<open>What an entity of the decoders is\<close>

text \<open>
  A sound entity is what \<^verbatim>\<open>decode_prefix\<close> makes of its own bytes: every derived field is a function
  of them, so the comparison by bytes in \<^verbatim>\<open>PartialEq\<close> is equality.
\<close>

definition sound_entity :: "(bytes \<Rightarrow> bytes) \<Rightarrow> block_entity_nbt \<Rightarrow> bool" where
  "sound_entity sha nbt \<longleftrightarrow>
     decode_prefix sha (nbt_bytes nbt) = Inr (nbt, length (nbt_bytes nbt)) \<and>
     length (nbt_bytes nbt) \<le> MAX_BLOCK_ENTITY_NBT_BYTES"

lemma sound_entity_eq: "sound_entity sha m \<Longrightarrow> sound_entity sha n \<Longrightarrow> nbt_bytes m = nbt_bytes n \<Longrightarrow> m = n"
  by (auto simp: sound_entity_def)

lemma read_u8_limit: "read_u8 r ctx = Inr (b, r') \<Longrightarrow> position r' \<le> MAX_BLOCK_ENTITY_NBT_BYTES"
  by (auto simp: read_u8_def read_exact_def result_simps split: if_splits)

lemma root_fields_limit: "root_fields st tags r = Inr (st', r') \<Longrightarrow> position r' \<le> MAX_BLOCK_ENTITY_NBT_BYTES"
proof (induction st tags r rule: root_fields.induct)
  case (1 st tags r)
  obtain tag r1 where tag: "read_u8 r ''compound tag'' = Inr (tag, r1)"
    using 1(2) by (subst (asm) root_fields.simps) (auto simp: result_simps)
  show ?case
  proof (cases "tag = 0")
    case True
    then show ?thesis using 1(2) tag by (subst (asm) root_fields.simps) (auto dest: read_u8_limit)
  next
    case False
    obtain tags1 name r2 st3 tags3 r3 where s: "visit_tag tags = Inr tags1" "read_string r1 ''tag name'' = Inr (name, r2)"
      "root_field name tag st tags1 r2 = Inr ((st3, tags3), r3)" "root_fields st3 tags3 r3 = Inr (st', r')"
      using 1(2) tag False by (subst (asm) root_fields.simps) (auto simp: result_simps)
    show ?thesis
      using 1(1) [of "(tag, r1)" tag r1 tags1 "(name, r2)" name r2 "((st3, tags3), r3)" "(st3, tags3)" r3 st3 tags3] s(4)
      by (simp add: tag s(1-3) False)
  qed
qed

lemma scan_root_limit:
  assumes "scan_root r = Inr (st, r')" "semantic_error st = None"
  shows "position r' \<le> MAX_BLOCK_ENTITY_NBT_BYTES"
proof -
  obtain root r1 where "read_u8 r ''root tag'' = Inr (root, r1)"
    using assms(1) by (auto simp: scan_root_def result_simps)
  show ?thesis
    using assms by (auto simp: scan_root_def result_simps defer_error_def split: if_splits dest: root_fields_limit)
qed

lemma scan_prefix_sound:
  assumes "scan_prefix sha bs = Inr (nbt, used, None)" shows "sound_entity sha nbt"
proof -
  note p = scan_prefix_Inr [OF assms]
  have "length (nbt_bytes nbt) = used" using p(2,3) by simp
  moreover have "decode_prefix sha (nbt_bytes nbt) = Inr (nbt, used)"
    using p(4) [of "[]"] p(3) by (simp add: decode_prefix_def)
  moreover have "used \<le> MAX_BLOCK_ENTITY_NBT_BYTES"
    using assms by (auto simp: scan_prefix_def result_simps Let_def dest: scan_root_limit)
  ultimately show ?thesis by (simp add: sound_entity_def)
qed

lemma decode_prefix_scan: "decode_prefix sha bs = Inr (nbt, used) \<longleftrightarrow> scan_prefix sha bs = Inr (nbt, used, None)"
  by (auto simp: decode_prefix_def result_simps split: option.splits)

subsection \<open>What a tail decodes to\<close>

definition in_scope :: "block_entity_scope \<Rightarrow> block_entity_key \<Rightarrow> bool" where
  "in_scope scope k \<longleftrightarrow>
     (case scope of
        Chunk_Scope chunk lo hi \<Rightarrow> be_chunk k = chunk \<and> lo \<le> be_y k \<and> be_y k < hi
      | Sub_Chunk_Scope key \<Rightarrow> be_sub_chunk k = key)"

definition entity_total :: "('k, block_entity_nbt) btree_map \<Rightarrow> nat" where
  "entity_total es = sum_list (map (\<lambda>e. length (nbt_bytes e)) (bt_values es))"

definition scoped_entities ::
  "(bytes \<Rightarrow> bytes) \<Rightarrow> block_entity_scope \<Rightarrow> (block_entity_key, block_entity_nbt) btree_map \<Rightarrow> bool" where
  "scoped_entities sha scope es \<longleftrightarrow> bt_invar es \<and>
     (\<forall>k e. bt_get es k = Some e \<longrightarrow>
        in_scope scope k \<and> embedded_position e = Some (be_position k) \<and> sound_entity sha e)"

lemma scoped_key_scope:
  "scoped_key scope p = (k, in_sc) \<Longrightarrow> be_position k = p \<and> (in_sc \<longrightarrow> in_scope scope k)"
  by (auto simp: scoped_key_def in_scope_def be_position_def be_chunk_def split: prod.splits block_entity_scope.splits)

lemma place_entity_inv:
  assumes "scoped_entities sha scope (fst acc)" "snd acc = entity_total (fst acc)"
    "snd acc \<le> MAX_BLOCK_ENTITY_BYTES_PER_CHUNK" "sound_entity sha nbt"
  shows "scoped_entities sha scope (fst (place_entity scope nbt acc))"
    "snd (place_entity scope nbt acc) = entity_total (fst (place_entity scope nbt acc))"
    "snd (place_entity scope nbt acc) \<le> MAX_BLOCK_ENTITY_BYTES_PER_CHUNK"
    "length (fst (place_entity scope nbt acc)) \<le> Suc (length (fst acc))"
proof -
  obtain es retained where acc: "acc = (es, retained)" by fastforce
  consider "place_entity scope nbt acc = acc"
    | p key where "embedded_position nbt = Some p" "scoped_key scope p = (key, True)" "\<not> bt_contains es key"
      "place_entity scope nbt acc = (bt_insert key nbt es, retained + length (nbt_bytes nbt))"
      "retained + length (nbt_bytes nbt) \<le> MAX_BLOCK_ENTITY_BYTES_PER_CHUNK"
  proof (cases "embedded_position nbt")
    case None
    then show ?thesis using that(1) by (simp add: place_entity_def)
  next
    case (Some p)
    obtain key ok where k: "scoped_key scope p = (key, ok)" by fastforce
    show ?thesis
    proof (cases "ok \<and> \<not> bt_contains es key \<and> retained + length (nbt_bytes nbt) \<le> MAX_BLOCK_ENTITY_BYTES_PER_CHUNK")
      case True
      then show ?thesis using that(2) [OF Some] Some k by (simp add: place_entity_def acc)
    next
      case False
      then have "place_entity scope nbt acc = acc" using Some k by (auto simp: place_entity_def acc Let_def)
      then show ?thesis by (rule that(1))
    qed
  qed
  then have "scoped_entities sha scope (fst (place_entity scope nbt acc)) \<and>
    snd (place_entity scope nbt acc) = entity_total (fst (place_entity scope nbt acc)) \<and>
    snd (place_entity scope nbt acc) \<le> MAX_BLOCK_ENTITY_BYTES_PER_CHUNK \<and>
    length (fst (place_entity scope nbt acc)) \<le> Suc (length (fst acc))"
  proof cases
    case 1
    then show ?thesis using assms by simp
  next
    case (2 p key)
    have es: "bt_invar es" using assms(1) by (simp add: scoped_entities_def acc)
    have "entity_total (bt_insert key nbt es) = entity_total es + length (nbt_bytes nbt)"
      using bt_total_insert [OF es, of "\<lambda>e. length (nbt_bytes e)" key nbt] 2(3)
      by (simp add: entity_total_def bt_contains_def)
    moreover have "scoped_entities sha scope (bt_insert key nbt es)"
      using assms(1,4) scoped_key_scope [OF 2(2)] 2(1) es
      by (auto simp: scoped_entities_def acc bt.lookup_insert)
    ultimately show ?thesis using 2(3-5) assms(2) bt_length_insert [OF es, of key nbt] by (simp add: acc)
  qed
  then show "scoped_entities sha scope (fst (place_entity scope nbt acc))"
    "snd (place_entity scope nbt acc) = entity_total (fst (place_entity scope nbt acc))"
    "snd (place_entity scope nbt acc) \<le> MAX_BLOCK_ENTITY_BYTES_PER_CHUNK"
    "length (fst (place_entity scope nbt acc)) \<le> Suc (length (fst acc))" by auto
qed

lemma scoped_loop_inv:
  assumes "scoped_entities sha scope (fst acc)" "snd acc = entity_total (fst acc)"
    "snd acc \<le> MAX_BLOCK_ENTITY_BYTES_PER_CHUNK" "length (fst acc) \<le> max_entities"
  shows "scoped_entities sha scope (fst (scoped_loop sha scope max_entities payload consumed acc)) \<and>
     entity_total (fst (scoped_loop sha scope max_entities payload consumed acc)) \<le> MAX_BLOCK_ENTITY_BYTES_PER_CHUNK \<and>
     length (fst (scoped_loop sha scope max_entities payload consumed acc)) \<le> max_entities"
  using assms
proof (induction sha scope max_entities payload consumed acc rule: scoped_loop.induct)
  case (1 sha scope max_entities payload consumed acc)
  have stop: ?case if "scoped_loop sha scope max_entities payload consumed acc = acc"
    using 1(3-6) that by simp
  show ?case
  proof (cases "consumed < length payload \<and> length (fst acc) < max_entities")
    case run: True
    let ?bs = "drop consumed payload"
    show ?thesis
    proof (cases "hd ?bs = COMPOUND_TAG")
      case False
      then have "scoped_loop sha scope max_entities payload consumed acc =
          scoped_loop sha scope max_entities payload (consumed + 1) acc"
        using run by (subst scoped_loop.simps) simp
      then show ?thesis using 1(1) [OF run refl False] 1(3-6) by simp
    next
      case True
      show ?thesis
      proof (cases "scan_prefix sha ?bs")
        case (Inl e)
        then have "scoped_loop sha scope max_entities payload consumed acc = acc"
          using run True by (subst scoped_loop.simps) simp
        then show ?thesis by (rule stop)
      next
        case (Inr x)
        obtain nbt used semantic where x: "x = (nbt, used, semantic)" by (cases x) auto
        let ?acc = "if semantic \<noteq> None then acc else place_entity scope nbt acc"
        have "scoped_loop sha scope max_entities payload consumed acc =
            scoped_loop sha scope max_entities payload (consumed + used) ?acc"
          using run True Inr x by (subst scoped_loop.simps) simp
        moreover have "scoped_entities sha scope (fst ?acc) \<and> snd ?acc = entity_total (fst ?acc) \<and>
            snd ?acc \<le> MAX_BLOCK_ENTITY_BYTES_PER_CHUNK \<and> length (fst ?acc) \<le> max_entities"
        proof (cases semantic)
          case None
          then have "sound_entity sha nbt" using scan_prefix_sound Inr x by simp
          note p = place_entity_inv [OF 1(3-5) this]
          have "length (fst (place_entity scope nbt acc)) \<le> max_entities" using p(4) run by linarith
          then show ?thesis using p(1-3) None by simp
        qed (use 1(3-6) in simp)
        ultimately show ?thesis using 1(2) [OF run refl _ Inr, of nbt "(used, semantic)" used semantic] True x by simp
      qed
    qed
  next
    case False
    have "scoped_loop sha scope max_entities payload consumed acc = acc"
      by (subst scoped_loop.simps) (simp only: False if_False)
    then show ?thesis by (rule stop)
  qed
qed

lemma decode_scoped_entities_inv:
  "scoped_entities sha scope (entities (decode_scoped_entities sha scope payload max_entities)) \<and>
   entity_total (entities (decode_scoped_entities sha scope payload max_entities)) \<le> MAX_BLOCK_ENTITY_BYTES_PER_CHUNK \<and>
   length (entities (decode_scoped_entities sha scope payload max_entities)) \<le> max_entities"
proof -
  have "scoped_entities sha scope (fst (bt_empty, 0))" by (simp add: scoped_entities_def)
  moreover have "entity_total bt_empty = 0" by (simp add: entity_total_def bt_empty_def bt_values_def)
  ultimately show ?thesis
    using scoped_loop_inv [of sha scope "(bt_empty, 0)" max_entities payload 0]
    by (simp add: decode_scoped_entities_def bt_empty_def)
qed

end
