(* ===== verification/Mutation.thy ===== *)
theory Mutation
  imports Revision
begin

section \<open>Block updates and their reach\<close>

text \<open>
  \<^verbatim>\<open>BlockUpdate\<close> and \<^verbatim>\<open>NeighbourReach\<close> of \<^verbatim>\<open>crates/world/src/mutation.rs\<close>, and the errors of a mutation:
  which updates are admitted, and which of the 26 neighbouring sub-chunks a changed cell can
  affect, kept as one bit per neighbour.
\<close>

definition MAX_STORAGE_COUNT :: usize where
  "MAX_STORAGE_COUNT = 16"

record block_update =
  upd_x :: nat
  upd_y :: nat
  upd_z :: nat
  upd_layer :: nat
  upd_runtime_id :: u32

definition new_update :: "nat \<Rightarrow> nat \<Rightarrow> nat \<Rightarrow> nat \<Rightarrow> u32 \<Rightarrow> block_update" where
  "new_update x y z layer runtime_id =
     \<lparr>upd_x = x, upd_y = y, upd_z = z, upd_layer = layer, upd_runtime_id = runtime_id\<rparr>"

datatype mutation_error =
    Mutation_Collision_Revision collision_revision_error
  | Local_Coordinates_Out_Of_Bounds nat nat nat
  | Layer_Out_Of_Bounds nat usize

definition validate :: "block_update \<Rightarrow> mutation_error + unit" where
  "validate u =
     (if upd_x u \<ge> 16 \<or> upd_y u \<ge> 16 \<or> upd_z u \<ge> 16
      then Inl (Local_Coordinates_Out_Of_Bounds (upd_x u) (upd_y u) (upd_z u))
      else if upd_layer u \<ge> MAX_STORAGE_COUNT then Inl (Layer_Out_Of_Bounds (upd_layer u) MAX_STORAGE_COUNT)
      else Inr ())"

fun validate_all :: "block_update list \<Rightarrow> mutation_error + unit" where
  "validate_all [] = Inr ()"
| "validate_all (u # us) = and_then (validate u) (\<lambda>_. validate_all us)"

subsection \<open>Neighbour reach\<close>

record neighbour_reach =
  reach_light :: u32
  reach_mesh :: u32

definition REACH_ALL :: neighbour_reach where
  "REACH_ALL = \<lparr>reach_light = push_bit 27 1 - 1, reach_mesh = push_bit 27 1 - 1\<rparr>"

definition axis_reach :: "nat \<Rightarrow> nat \<Rightarrow> bool list" where
  "axis_reach margin c = [c \<le> margin, True, c \<ge> 15 - margin]"

definition offsets_within :: "nat \<times> nat \<times> nat \<Rightarrow> nat \<Rightarrow> u32" where
  "offsets_within cell margin =
     (case cell of (x, y, z) \<Rightarrow>
        let ax = axis_reach margin x; ay = axis_reach margin y; az = axis_reach margin z
        in fold (\<lambda>dx bits. fold (\<lambda>dy bits. fold (\<lambda>dz bits.
             if ax ! dx \<and> ay ! dy \<and> az ! dz then bits OR push_bit (dx * 9 + dy * 3 + dz) 1 else bits)
           [0..<3] bits) [0..<3] bits) [0..<3] 0)"

definition of_cell :: "nat \<Rightarrow> nat \<Rightarrow> nat \<Rightarrow> neighbour_reach" where
  "of_cell x y z = \<lparr>reach_light = offsets_within (x, y, z) 0, reach_mesh = offsets_within (x, y, z) 1\<rparr>"

definition reach_union :: "neighbour_reach \<Rightarrow> neighbour_reach \<Rightarrow> neighbour_reach" where
  "reach_union a b = \<lparr>reach_light = reach_light a OR reach_light b, reach_mesh = reach_mesh a OR reach_mesh b\<rparr>"

definition of_updates :: "block_update list \<Rightarrow> neighbour_reach" where
  "of_updates updates =
     fold (\<lambda>u reach. reach_union reach (of_cell (upd_x u) (upd_y u) (upd_z u))) updates
       \<lparr>reach_light = 0, reach_mesh = 0\<rparr>"

definition offset_bit :: "u32 \<Rightarrow> int \<times> int \<times> int \<Rightarrow> bool" where
  "offset_bit bits offset =
     (case offset of (dx, dy, dz) \<Rightarrow>
        if dx < -1 \<or> dx > 1 \<or> dy < -1 \<or> dy > 1 \<or> dz < -1 \<or> dz > 1 then True
        else let b = (dx + 1) * 9 + (dy + 1) * 3 + (dz + 1) in bits AND push_bit (nat b) 1 \<noteq> 0)"

definition light_reaches :: "neighbour_reach \<Rightarrow> int \<times> int \<times> int \<Rightarrow> bool" where
  "light_reaches reach offset = offset_bit (reach_light reach) offset"

definition mesh_reaches :: "neighbour_reach \<Rightarrow> int \<times> int \<times> int \<Rightarrow> bool" where
  "mesh_reaches reach offset = offset_bit (reach_mesh reach) offset"

subsection \<open>What is admitted\<close>

definition valid_update :: "block_update \<Rightarrow> bool" where
  "valid_update u \<longleftrightarrow> upd_x u < 16 \<and> upd_y u < 16 \<and> upd_z u < 16 \<and> upd_layer u < 16"

lemma validate_iff [result_simps]: "validate u = Inr v \<longleftrightarrow> valid_update u"
  by (auto simp: validate_def valid_update_def MAX_STORAGE_COUNT_def)

lemma validate_all_iff [result_simps]: "validate_all us = Inr v \<longleftrightarrow> list_all valid_update us"
  by (induction us) (auto simp: result_simps)

subsection \<open>The reach is the geometric one\<close>

lemma test_bit_one: "(w :: u32) AND 2 ^ n \<noteq> 0 \<longleftrightarrow> bit w n"
proof
  assume "w AND 2 ^ n \<noteq> 0"
  then obtain m where "bit (w AND 2 ^ n) m" by (auto simp: bit_eq_iff)
  then have "bit w m" "m = n" by (auto simp: bit_simps)
  then show "bit w n" by simp
next
  assume "bit w n"
  then have "bit (w AND 2 ^ n) n" by (auto simp: bit_simps dest: bit_imp_le_length)
  then show "w AND 2 ^ n \<noteq> 0" by auto
qed

lemma offset_bit_iff:
  "offset_bit bits (dx, dy, dz) \<longleftrightarrow> dx < -1 \<or> dx > 1 \<or> dy < -1 \<or> dy > 1 \<or> dz < -1 \<or> dz > 1 \<or>
     bit bits (nat ((dx + 1) * 9 + (dy + 1) * 3 + (dz + 1)))"
  using test_bit_one [of bits "nat ((dx + 1) * 9 + (dy + 1) * 3 + (dz + 1))"]
  by (simp add: offset_bit_def Let_def)

lemma bit_fold_or:
  fixes w :: u32
  assumes "\<And>p. p \<in> set ps \<Longrightarrow> f p < 32"
  shows "bit (fold (\<lambda>p b. if P p then b OR push_bit (f p) 1 else b) ps w) n \<longleftrightarrow>
    bit w n \<or> (\<exists>p\<in>set ps. P p \<and> f p = n)"
  using assms by (induction ps arbitrary: w) (auto simp: bit_simps)

lemma fold_product:
  "fold (\<lambda>x b. fold (\<lambda>y b. h (x, y) b) ys b) xs b = fold h (List.product xs ys) b"
  by (induction xs arbitrary: b) (auto simp: fold_map comp_def)

lemma fold_nested:
  "fold (\<lambda>x b. fold (\<lambda>y b. fold (\<lambda>z b. g (x, y, z) b) zs b) ys b) xs b =
   fold g (List.product xs (List.product ys zs)) b"
  using fold_product [of "\<lambda>p. g (_, p)" zs ys] by (simp add: fold_product)

lemma offset_code_inj:
  fixes a b c d e f :: nat
  assumes "b < 3" "c < 3" "e < 3" "f < 3" "a * 9 + b * 3 + c = d * 9 + e * 3 + f"
  shows "a = d \<and> b = e \<and> c = f"
proof -
  have "a * 9 + u = d * 9 + v \<Longrightarrow> u < 9 \<Longrightarrow> v < 9 \<Longrightarrow> u = v" for u v :: nat by presburger
  then have "b * 3 + c = e * 3 + f" using assms by (simp add: add.assoc)
  then have "b = e \<and> c = f" using assms(2,4) by presburger
  then show ?thesis using assms(5) by simp
qed

lemma bit_offsets_within:
  assumes "dx < 3" "dy < 3" "dz < 3"
  shows "bit (offsets_within (x, y, z) m) (dx * 9 + dy * 3 + dz) \<longleftrightarrow>
    axis_reach m x ! dx \<and> axis_reach m y ! dy \<and> axis_reach m z ! dz"
proof -
  let ?ps = "List.product [0..<3] (List.product [0..<3] [0..<3]) :: (nat \<times> nat \<times> nat) list"
  let ?P = "\<lambda>(a, b, c). axis_reach m x ! a \<and> axis_reach m y ! b \<and> axis_reach m z ! c"
  let ?f = "\<lambda>(a, b, c). a * 9 + b * 3 + c :: nat"
  have "offsets_within (x, y, z) m = fold (\<lambda>p b. if ?P p then b OR push_bit (?f p) 1 else b) ?ps 0"
    unfolding fold_nested [symmetric] prod.case by (simp add: offsets_within_def Let_def del: upt_rec_numeral)
  moreover have "?f p < 32" if "p \<in> set ?ps" for p using that by (auto simp del: upt_rec_numeral)
  ultimately have "bit (offsets_within (x, y, z) m) (dx * 9 + dy * 3 + dz) \<longleftrightarrow>
      (\<exists>p\<in>set ?ps. ?P p \<and> ?f p = dx * 9 + dy * 3 + dz)"
    using bit_fold_or [of ?ps ?f ?P 0] by (simp del: upt_rec_numeral)
  also have "\<dots> \<longleftrightarrow> ?P (dx, dy, dz)"
  proof
    assume "\<exists>p\<in>set ?ps. ?P p \<and> ?f p = dx * 9 + dy * 3 + dz"
    then obtain a b c where "?P (a, b, c)" "a * 9 + b * 3 + c = dx * 9 + dy * 3 + dz" "b < 3" "c < 3"
      by (auto simp del: upt_rec_numeral)
    then show "?P (dx, dy, dz)" using offset_code_inj [of b c dy dz a dx] assms by simp
  next
    assume "?P (dx, dy, dz)"
    then show "\<exists>p\<in>set ?ps. ?P p \<and> ?f p = dx * 9 + dy * 3 + dz"
      using assms by (intro bexI [of _ "(dx, dy, dz)"]) (auto simp del: upt_rec_numeral)
  qed
  finally show ?thesis by simp
qed

text \<open>
  Along one axis, the neighbour at offset \<open>d\<close> has a cell at most \<open>margin + 1\<close> away from cell \<open>c\<close>.
\<close>

definition near_on_axis :: "nat \<Rightarrow> nat \<Rightarrow> int \<Rightarrow> bool" where
  "near_on_axis margin c d \<longleftrightarrow> (\<exists>n. 16 * d \<le> n \<and> n < 16 * d + 16 \<and> \<bar>n - int c\<bar> \<le> int margin + 1)"

lemma near_on_axis_iff:
  assumes "c < 16" "margin < 15"
  shows "near_on_axis margin c (-1) \<longleftrightarrow> c \<le> margin" "near_on_axis margin c 0"
    "near_on_axis margin c 1 \<longleftrightarrow> c \<ge> 15 - margin"
proof -
  show "near_on_axis margin c (-1) \<longleftrightarrow> c \<le> margin"
    unfolding near_on_axis_def by (auto intro!: exI [of _ "-1"])
  show "near_on_axis margin c 0"
    unfolding near_on_axis_def using assms by (intro exI [of _ "int c"]) auto
  show "near_on_axis margin c 1 \<longleftrightarrow> c \<ge> 15 - margin"
    unfolding near_on_axis_def using assms by (auto intro!: exI [of _ 16])
qed

lemma axis_reach_near:
  assumes "c < 16" "margin < 15" "-1 \<le> d" "d \<le> 1"
  shows "axis_reach margin c ! nat (d + 1) \<longleftrightarrow> near_on_axis margin c d"
proof -
  have "d = -1 \<or> d = 0 \<or> d = 1" using assms by auto
  then show ?thesis using near_on_axis_iff [OF assms(1,2)] by (auto simp: axis_reach_def)
qed

lemma offset_bit_within:
  assumes cell: "x < 16" "y < 16" "z < 16" and m: "margin < 15"
    and d: "-1 \<le> dx" "dx \<le> 1" "-1 \<le> dy" "dy \<le> 1" "-1 \<le> dz" "dz \<le> 1"
  shows "offset_bit (offsets_within (x, y, z) margin) (dx, dy, dz) \<longleftrightarrow>
    near_on_axis margin x dx \<and> near_on_axis margin y dy \<and> near_on_axis margin z dz"
proof -
  have "nat ((dx + 1) * 9 + (dy + 1) * 3 + (dz + 1)) = nat (dx + 1) * 9 + nat (dy + 1) * 3 + nat (dz + 1)"
    using d by (simp add: nat_add_distrib nat_mult_distrib)
  moreover have "nat (dx + 1) < 3" "nat (dy + 1) < 3" "nat (dz + 1) < 3" using d by auto
  ultimately show ?thesis
    using d bit_offsets_within [of "nat (dx + 1)" "nat (dy + 1)" "nat (dz + 1)" x y z margin]
      axis_reach_near [OF cell(1) m d(1,2)] axis_reach_near [OF cell(2) m d(3,4)] axis_reach_near [OF cell(3) m d(5,6)]
    by (simp add: offset_bit_iff)
qed

lemma offset_bit_or: "offset_bit (a OR b) off \<longleftrightarrow> offset_bit a off \<or> offset_bit b off"
  by (cases off) (auto simp: offset_bit_iff bit_simps)

lemma offset_bit_zero: "offset_bit 0 (dx, dy, dz) \<longleftrightarrow> dx < -1 \<or> dx > 1 \<or> dy < -1 \<or> dy > 1 \<or> dz < -1 \<or> dz > 1"
  by (simp add: offset_bit_iff)

lemma of_updates_reach:
  "offset_bit (reach_light (of_updates us)) off \<longleftrightarrow> offset_bit 0 off \<or>
     (\<exists>u\<in>set us. offset_bit (offsets_within (upd_x u, upd_y u, upd_z u) 0) off)"
  "offset_bit (reach_mesh (of_updates us)) off \<longleftrightarrow> offset_bit 0 off \<or>
     (\<exists>u\<in>set us. offset_bit (offsets_within (upd_x u, upd_y u, upd_z u) 1) off)"
proof -
  have "offset_bit (reach_light (fold (\<lambda>u reach. reach_union reach (of_cell (upd_x u) (upd_y u) (upd_z u))) us r)) off
      \<longleftrightarrow> offset_bit (reach_light r) off \<or> (\<exists>u\<in>set us. offset_bit (offsets_within (upd_x u, upd_y u, upd_z u) 0) off)"
    "offset_bit (reach_mesh (fold (\<lambda>u reach. reach_union reach (of_cell (upd_x u) (upd_y u) (upd_z u))) us r)) off
      \<longleftrightarrow> offset_bit (reach_mesh r) off \<or> (\<exists>u\<in>set us. offset_bit (offsets_within (upd_x u, upd_y u, upd_z u) 1) off)" for r
    by (induction us arbitrary: r) (auto simp: reach_union_def of_cell_def offset_bit_or)
  then show "offset_bit (reach_light (of_updates us)) off \<longleftrightarrow> offset_bit 0 off \<or>
     (\<exists>u\<in>set us. offset_bit (offsets_within (upd_x u, upd_y u, upd_z u) 0) off)"
    "offset_bit (reach_mesh (of_updates us)) off \<longleftrightarrow> offset_bit 0 off \<or>
     (\<exists>u\<in>set us. offset_bit (offsets_within (upd_x u, upd_y u, upd_z u) 1) off)"
    by (simp_all add: of_updates_def)
qed

text \<open>
  C28.  The reach of a batch of valid updates is exact: the light (the mesh) of the neighbour at an
  offset is reported as affected exactly when that neighbour has a cell within one (two) cells of
  some changed cell on every axis; offsets beyond one sub-chunk always count as reached.
\<close>

theorem update_reach_exact:
  assumes "list_all valid_update us" "-1 \<le> dx" "dx \<le> 1" "-1 \<le> dy" "dy \<le> 1" "-1 \<le> dz" "dz \<le> 1"
  shows "light_reaches (of_updates us) (dx, dy, dz) =
      (\<exists>u\<in>set us. near_on_axis 0 (upd_x u) dx \<and> near_on_axis 0 (upd_y u) dy \<and> near_on_axis 0 (upd_z u) dz)
    \<and> mesh_reaches (of_updates us) (dx, dy, dz) =
      (\<exists>u\<in>set us. near_on_axis 1 (upd_x u) dx \<and> near_on_axis 1 (upd_y u) dy \<and> near_on_axis 1 (upd_z u) dz)"
proof -
  have "offset_bit (offsets_within (upd_x u, upd_y u, upd_z u) m) (dx, dy, dz) \<longleftrightarrow>
      near_on_axis m (upd_x u) dx \<and> near_on_axis m (upd_y u) dy \<and> near_on_axis m (upd_z u) dz"
    if "u \<in> set us" "m < 15" for u m
    using offset_bit_within [OF _ _ _ that(2) assms(2-7)] assms(1) that(1)
    by (simp add: valid_update_def list_all_iff)
  moreover have "\<not> offset_bit 0 (dx, dy, dz)" using assms(2-7) by (simp add: offset_bit_zero)
  ultimately show ?thesis by (simp add: light_reaches_def mesh_reaches_def of_updates_reach)
qed

lemma update_reach_exact_witness:
  "light_reaches (of_updates [new_update 15 3 1 0 7]) (1, 0, 0)
   \<and> \<not> light_reaches (of_updates [new_update 15 3 1 0 7]) (1, 0, -1)
   \<and> mesh_reaches (of_updates [new_update 15 3 1 0 7]) (1, 0, -1)"
proof -
  have v: "list_all valid_update [new_update 15 3 1 0 7]" by (simp add: valid_update_def new_update_def)
  show ?thesis
    using update_reach_exact [OF v, of 1 0 0] update_reach_exact [OF v, of 1 0 "-1"]
    by (simp add: new_update_def near_on_axis_iff)
qed

end
