(* ===== verification/Registry_Ids.thy ===== *)
theory Registry_Ids
  imports Nbt_Tree
begin

section \<open>Session registries\<close>

text \<open>
  \<^verbatim>\<open>DecodeIds\<close> of \<^verbatim>\<open>crates/client-world/src/ingestion/ids.rs\<close>: how a decode job of a session resolves block ids,
  and the identity under which payloads it decoded may be reused.  The registries it reads are shared by
  \<^verbatim>\<open>Arc\<close> and never written after they are published.  An \<^verbatim>\<open>Arc\<close> is the address of its allocation and
  \<open>registry_heap\<close> what is stored there; a \<^verbatim>\<open>Weak\<close> keeps an allocation's address from being given out again,
  so one heap serves a whole run.  The two hash tables of the assets are the maps they hold.  Counting unknown
  ids for diagnostics is left out: it changes no result.
\<close>

datatype network_id_mode = Sequential_Ids | Hashed_Ids

subsection \<open>Session palettes\<close>

record id_segment =
  seg_wire_start :: u32
  seg_len :: u32
  seg_internal_start :: u32
  seg_shifted :: u32

text \<open>\<^verbatim>\<open>SequentialIdRemap\<close>; of the dense palette only the direction a decode reads.\<close>

record id_remap =
  remap_segments :: "id_segment list"
  remap_palette :: "u32 list option"

definition default_remap :: id_remap where
  "default_remap = \<lparr>remap_segments = [], remap_palette = None\<rparr>"

definition saturating_add_u32 :: "u32 \<Rightarrow> u32 \<Rightarrow> u32" where
  "saturating_add_u32 a b = (if unat a + unat b < 2 ^ 32 then a + b else - 1)"

definition palette_internal :: "id_remap \<Rightarrow> u32 \<Rightarrow> u32" where
  "palette_internal remap vanilla =
     (case remap_palette remap of
        None \<Rightarrow> vanilla
      | Some wire_to_internal \<Rightarrow>
          if unat vanilla < length wire_to_internal then wire_to_internal ! unat vanilla else - 1)"

text \<open>\<^verbatim>\<open>partition_point\<close> on the segments, which are sorted by their start; differences wrap, as in a release build.\<close>

definition to_internal :: "id_remap \<Rightarrow> u32 \<Rightarrow> u32" where
  "to_internal remap wire =
     (let after = length (takeWhile (\<lambda>segment. seg_wire_start segment \<le> wire) (remap_segments remap))
      in if after = 0 then palette_internal remap wire
         else let segment = remap_segments remap ! (after - 1);
                  offset = wire - seg_wire_start segment
              in if offset < seg_len segment then saturating_add_u32 (seg_internal_start segment) offset
                 else palette_internal remap (wire - seg_shifted segment))"

subsection \<open>Runtime assets\<close>

text \<open>The part of \<^verbatim>\<open>RuntimeAssets\<close> block resolution reads; \<open>ra_diagnostic\<close> is the test for the zeroed provenance.\<close>

record runtime_assets =
  ra_diagnostic :: bool
  ra_visual_count :: usize
  ra_hashed :: "u32 \<rightharpoonup> u32"

definition sequential_id_for_hash :: "runtime_assets \<Rightarrow> u32 \<Rightarrow> u32 option" where
  "sequential_id_for_hash assets network_hash = ra_hashed assets network_hash"

definition assets_known :: "runtime_assets \<Rightarrow> network_id_mode \<Rightarrow> u32 \<Rightarrow> bool" where
  "assets_known assets mode v =
     (if ra_diagnostic assets then True
      else (case (case mode of Sequential_Ids \<Rightarrow> Some v | Hashed_Ids \<Rightarrow> sequential_id_for_hash assets v) of
          None \<Rightarrow> False
        | Some index \<Rightarrow> unat index < ra_visual_count assets))"

subsection \<open>Hashes of persistent states\<close>

datatype custom_state_value = Custom_String bytes | Custom_Bool bool | Custom_Int int

definition push_string :: "bytes \<Rightarrow> bytes" where
  "push_string text = to_le_bytes 2 (length text mod 2 ^ 16) @ text"

definition state_tag_bytes :: "bytes \<times> custom_state_value \<Rightarrow> bytes" where
  "state_tag_bytes state =
     (case state of (key, v) \<Rightarrow> (case v of
        Custom_String text \<Rightarrow> [8] @ push_string key @ push_string text
      | Custom_Bool flag \<Rightarrow> [1] @ push_string key @ [if flag then 1 else 0]
      | Custom_Int number \<Rightarrow> [3] @ push_string key @ to_le_bytes 4 (unat (word_of_int number :: u32))))"

definition fnv1a_32 :: "bytes \<Rightarrow> u32" where
  "fnv1a_32 data = fold (\<lambda>byte hash. (hash XOR ucast byte) * 0x01000193) data 0x811c9dc5"

definition block_state_network_hash :: "bytes \<Rightarrow> (bytes \<times> custom_state_value) list \<Rightarrow> u32" where
  "block_state_network_hash name states =
     fnv1a_32 ([10, 0, 0] @ [8] @ push_string (str ''name'') @ push_string name @ [10] @ push_string (str ''states'') @
       concat (map state_tag_bytes (sort_key fst states)) @ [0, 0])"

fun custom_state :: "nbt_value \<Rightarrow> custom_state_value option" where
  "custom_state (Nbt_Byte v) = (if v = 0 then Some (Custom_Bool False) else if v = 1 then Some (Custom_Bool True) else None)"
| "custom_state (Nbt_Int v) = Some (Custom_Int (sint v))"
| "custom_state (Nbt_String v) = Some (Custom_String v)"
| "custom_state _ = None"

fun collect_states :: "nbt_compound \<Rightarrow> (bytes \<times> custom_state_value) list option" where
  "collect_states [] = Some []"
| "collect_states ((key, v) # states) =
     (case custom_state v of None \<Rightarrow> None | Some v \<Rightarrow> map_option (Cons (key, v)) (collect_states states))"

definition persistent_hash :: "nbt_compound \<Rightarrow> u32 option" where
  "persistent_hash entry =
     (case nbt_string entry (str ''name'') of
        None \<Rightarrow> None
      | Some name \<Rightarrow>
          let name = (if 58 \<in> set name then name else str ''minecraft:'' @ name) in
          map_option (block_state_network_hash name)
            (case nbt_compound_at entry (str ''states'') of None \<Rightarrow> Some [] | Some states \<Rightarrow> collect_states states))"

subsection \<open>Decode jobs\<close>

type_synonym address = nat

record registry_heap =
  heap_assets :: "address \<Rightarrow> runtime_assets"
  heap_identities :: "address \<Rightarrow> u32 \<rightharpoonup> u32"
  heap_remaps :: "address \<Rightarrow> id_remap"
  pinned_sequential_id :: "u32 \<rightharpoonup> u32"

record decode_ids =
  ids_assets :: address
  ids_custom_blocks :: "u32 \<times> u32"
  ids_custom_identities :: address
  ids_remap :: address
  ids_diagnostics :: address
  ids_session_id :: u64
  ids_mode :: network_id_mode
  ids_air :: u32
  ids_biome_tints :: address
  ids_default_biome :: u32

definition resolve_network :: "registry_heap \<Rightarrow> decode_ids \<Rightarrow> u32 \<Rightarrow> u32" where
  "resolve_network h ids wire_id =
     (let network_id = (if ids_mode ids = Sequential_Ids then to_internal (heap_remaps h (ids_remap ids)) wire_id else wire_id);
          known = assets_known (heap_assets h (ids_assets ids)) (ids_mode ids) network_id \<or>
            (fst (ids_custom_blocks ids) \<le> network_id \<and> network_id < snd (ids_custom_blocks ids)) \<or>
            (ids_mode ids = Hashed_Ids \<and> heap_identities h (ids_custom_identities ids) network_id \<noteq> None)
      in if known then network_id else ids_air ids)"

definition or_else :: "'a option \<Rightarrow> 'a option \<Rightarrow> 'a option" where
  "or_else a b = (case a of None \<Rightarrow> b | Some x \<Rightarrow> Some x)"

definition resolve_state :: "registry_heap \<Rightarrow> decode_ids \<Rightarrow> nbt_compound \<Rightarrow> u32" where
  "resolve_state h ids entry =
     (case persistent_hash entry of
        None \<Rightarrow> ids_air ids
      | Some hash \<Rightarrow>
          let internal_id = (\<lambda>found. case ids_mode ids of Sequential_Ids \<Rightarrow> found | Hashed_Ids \<Rightarrow> hash);
              assets = heap_assets h (ids_assets ids);
              internal = or_else (or_else (map_option internal_id (sequential_id_for_hash assets hash))
                (heap_identities h (ids_custom_identities ids) hash))
                (if ra_diagnostic assets then map_option internal_id (pinned_sequential_id h hash) else None)
          in case internal of None \<Rightarrow> ids_air ids | Some resolved \<Rightarrow> resolved)"

subsection \<open>Identities\<close>

text \<open>\<^verbatim>\<open>InlineRegistryIdentity\<close>: the inputs of block resolution, its \<^verbatim>\<open>PartialEq\<close> comparing the addresses.\<close>

record inline_registry_identity =
  id_assets :: address
  id_custom_blocks :: "u32 \<times> u32"
  id_custom_identities :: address
  id_of_remap :: address
  id_session_id :: u64
  id_mode :: network_id_mode
  id_air :: u32

definition registry_identity :: "decode_ids \<Rightarrow> inline_registry_identity" where
  "registry_identity ids =
     \<lparr>id_assets = ids_assets ids, id_custom_blocks = ids_custom_blocks ids, id_custom_identities = ids_custom_identities ids,
      id_of_remap = ids_remap ids, id_session_id = ids_session_id ids, id_mode = ids_mode ids, id_air = ids_air ids\<rparr>"

text \<open>\<^verbatim>\<open>Arc<dyn Any>\<close> as the program fills it, by the type behind it: a raw decoder or a session's identity.\<close>

datatype cache_context = Raw_Context u32 | Registry_Context inline_registry_identity

lemma same_identity_resolves:
  assumes "registry_identity ids = registry_identity ids'"
  shows "ids_air ids = ids_air ids'" "resolve_network h ids = resolve_network h ids'" "resolve_state h ids = resolve_state h ids'"
proof -
  have eqs: "ids_assets ids = ids_assets ids'" "ids_custom_blocks ids = ids_custom_blocks ids'" "ids_remap ids = ids_remap ids'"
    "ids_custom_identities ids = ids_custom_identities ids'" "ids_mode ids = ids_mode ids'" "ids_air ids = ids_air ids'"
    using assms by (simp_all add: registry_identity_def)
  show "ids_air ids = ids_air ids'" "resolve_network h ids = resolve_network h ids'" "resolve_state h ids = resolve_state h ids'"
    unfolding resolve_network_def [abs_def] resolve_state_def [abs_def] eqs by (rule refl)+
qed

end
