(* ===== verification/Sub_Chunk.thy ===== *)
theory Sub_Chunk
  imports Palette_Spec Block_Entity_Decode Mutation Registry_Ids
begin

section \<open>Sub-chunks\<close>

text \<open>
  \<^verbatim>\<open>crates/world/src/sub_chunk.rs\<close> and \<^verbatim>\<open>sub_chunk/payload.rs\<close>: decoding one 16x16x16 sub-chunk, reusing a
  resident one whose payload is byte-identical, and applying block updates.  A storage or sub-chunk
  that is \<open>None\<close> stands for a panic; decoding is shown never to reach it.
\<close>

definition MAX_PALETTE_ENTRIES :: usize where "MAX_PALETTE_ENTRIES = BLOCKS_PER_SUB_CHUNK"
definition MAX_WIRE_STORAGES :: usize where "MAX_WIRE_STORAGES = 2"
definition LEGACY_PAYLOAD_BYTES :: usize where
  "LEGACY_PAYLOAD_BYTES = BLOCKS_PER_SUB_CHUNK + BLOCKS_PER_SUB_CHUNK div 2"

text \<open>The trait \<^verbatim>\<open>BlockIds\<close>; \<open>'c\<close> is the retained registry context.\<close>

record 'c block_ids =
  inline_cache_context :: "'c option"
  inline_cache_context_matches :: "'c \<Rightarrow> bool"
  air_id :: u32
  resolve :: "u32 \<Rightarrow> u32"
  resolve_persistent :: "nbt_compound \<Rightarrow> u32"

text \<open>
  The two decoders of the program, \<^verbatim>\<open>RawBlockIds\<close>, whose context is the fallback id itself, and \<^verbatim>\<open>DecodeIds\<close>
  of a session.  \<^verbatim>\<open>downcast_ref\<close> of a context the other kind made finds nothing.
\<close>

definition raw_block_ids :: "u32 \<Rightarrow> cache_context block_ids" where
  "raw_block_ids air =
     \<lparr>inline_cache_context = Some (Raw_Context air),
      inline_cache_context_matches = (\<lambda>c. case c of Raw_Context previous \<Rightarrow> previous = air | Registry_Context _ \<Rightarrow> False),
      air_id = air, resolve = (\<lambda>network_id. network_id), resolve_persistent = (\<lambda>_. air)\<rparr>"

definition session_block_ids :: "registry_heap \<Rightarrow> decode_ids \<Rightarrow> cache_context block_ids" where
  "session_block_ids h ids =
     \<lparr>inline_cache_context = Some (Registry_Context (registry_identity ids)),
      inline_cache_context_matches = (\<lambda>c. case c of
         Registry_Context previous \<Rightarrow> previous = registry_identity ids | Raw_Context _ \<Rightarrow> False),
      air_id = ids_air ids, resolve = resolve_network h ids, resolve_persistent = resolve_state h ids\<rparr>"

datatype decoder = Raw_Decoder u32 | Session_Decoder decode_ids

definition block_ids_of :: "registry_heap \<Rightarrow> decoder \<Rightarrow> cache_context block_ids" where
  "block_ids_of h decoder = (case decoder of
     Raw_Decoder air \<Rightarrow> raw_block_ids air | Session_Decoder ids \<Rightarrow> session_block_ids h ids)"

record 'c inline_payload =
  pl_length :: usize
  pl_hash :: bytes
  pl_y_index :: "i32 option"
  pl_context :: 'c

record 'c sub_chunk =
  version :: u8
  y_index :: "i32 option"
  storages :: "paletted_storage list"
  inline_payload :: "'c inline_payload option"

text \<open>\<^verbatim>\<open>PartialEq for SubChunk\<close>: the cache of the wire payload does not count.\<close>

definition sub_chunk_eq :: "'c sub_chunk \<Rightarrow> 'c sub_chunk \<Rightarrow> bool" where
  "sub_chunk_eq a b \<longleftrightarrow>
     version a = version b \<and> y_index a = y_index b \<and> list_all2 storage_eq (storages a) (storages b)"

definition blocks_match :: "'c sub_chunk \<Rightarrow> 'c sub_chunk \<Rightarrow> bool" where
  "blocks_match a b \<longleftrightarrow>
     list_all2 storage_eq (storages a) (storages b) \<or>
     (length (storages a) = length (storages b) \<and>
      list_all (\<lambda>(s, t). list_all (\<lambda>x. list_all (\<lambda>y. list_all (\<lambda>z.
          runtime_id s x y z = runtime_id t x y z) [0..<16]) [0..<16]) [0..<16])
        (zip (storages a) (storages b)))"

definition sub_runtime_id :: "'c sub_chunk \<Rightarrow> usize \<Rightarrow> nat \<Rightarrow> nat \<Rightarrow> nat \<Rightarrow> u32 option" where
  "sub_runtime_id s layer x y z =
     (if layer < length (storages s) then runtime_id (storages s ! layer) x y z else None)"

definition has_no_storages :: "'c sub_chunk \<Rightarrow> bool" where
  "has_no_storages s \<longleftrightarrow> storages s = []"

subsection \<open>Decoding\<close>

text \<open>The palette entry behind a persistent (NBT) palette.\<close>

definition persistent_entry :: "(bytes \<Rightarrow> bytes) \<Rightarrow> 'c block_ids \<Rightarrow> reader \<Rightarrow> u32 \<times> reader" where
  "persistent_entry sha ids r =
     (let bs = remaining r;
          consumed = lenient_nbt_len sha bs;
          (_, r) = take_exact consumed r
      in case (case decode_prefix sha (take consumed bs) of
                 Inl _ \<Rightarrow> None | Inr (nbt, _) \<Rightarrow> nbt_parse (nbt_bytes nbt)) of
           Some entry \<Rightarrow> (resolve_persistent ids entry, r)
         | None \<Rightarrow> (air_id ids, r\<lparr>failed_read := True\<rparr>))"

definition runtime_entry :: "'c block_ids \<Rightarrow> reader \<Rightarrow> u32 \<times> reader" where
  "runtime_entry ids r = (let (v, r) = take_var_i32 r in (resolve ids v, r))"

fun read_entries :: "nat \<Rightarrow> (reader \<Rightarrow> u32 \<times> reader) \<Rightarrow> reader \<Rightarrow> u32 list \<times> reader" where
  "read_entries 0 entry r = ([], r)"
| "read_entries (Suc n) entry r =
     (let (v, r) = entry r; (vs, r) = read_entries n entry r in (v # vs, r))"

text \<open>Whole four-byte chunks, little-endian.\<close>

fun le_words :: "bytes \<Rightarrow> u32 list" where
  "le_words (a # b # c # d # bs) = word_of_nat (from_le_bytes [a, b, c, d]) # le_words bs"
| "le_words _ = []"

text \<open>\<^verbatim>\<open>usize::try_from(..).unwrap_or(0).clamp(1, max)\<close>.\<close>

definition clamped_len :: "32 word \<Rightarrow> usize \<Rightarrow> usize" where
  "clamped_len v most = max 1 (min most (if sint v < 0 then 0 else nat (sint v)))"

definition read_packed_storage ::
  "nat \<Rightarrow> (reader \<Rightarrow> u32 \<times> reader) \<Rightarrow> reader \<Rightarrow> paletted_storage option \<times> reader" where
  "read_packed_storage bits entry r =
     (let count = word_count bits;
          (bs, r) = take_exact (count * 4) r;
          words = (case bs of None \<Rightarrow> replicate count 0 | Some bs \<Rightarrow> le_words bs);
          (v, r) = take_var_i32 r;
          palette_len = clamped_len v (min (2 ^ bits) MAX_PALETTE_ENTRIES);
          (values, r) = read_entries palette_len entry r
      in (zero_indices_at_or_above (new_storage bits words values) palette_len, r))"

definition read_block_storage ::
  "(bytes \<Rightarrow> bytes) \<Rightarrow> 'c block_ids \<Rightarrow> reader \<Rightarrow> paletted_storage option \<times> reader" where
  "read_block_storage sha ids r =
     (let (header, r) = take_u8 r;
          entry = (if header AND 1 = 0 then persistent_entry sha ids else runtime_entry ids);
          bits = unat (drop_bit 1 header)
      in if bits = 0 \<or> bits = 0x7F then (let (v, r) = entry r in (Some (uniform v), r))
         else if bits \<in> set PACKED_BITS then read_packed_storage bits entry r
         else (Some (uniform (air_id ids)), r))"

fun read_layers ::
  "nat \<Rightarrow> (reader \<Rightarrow> paletted_storage option \<times> reader) \<Rightarrow> reader \<Rightarrow> paletted_storage list option \<times> reader" where
  "read_layers 0 f r = (Some [], r)"
| "read_layers (Suc n) f r =
     (let (s, r) = f r; (ss, r) = read_layers n f r
      in (case (s, ss) of (Some s, Some ss) \<Rightarrow> Some (s # ss) | _ \<Rightarrow> None, r))"

definition legacy_version :: "u8 \<Rightarrow> bool" where
  "legacy_version v \<longleftrightarrow> v = 0 \<or> 2 \<le> v \<and> v \<le> 7"

definition read_sub_chunk :: "(bytes \<Rightarrow> bytes) \<Rightarrow> 'c block_ids \<Rightarrow> reader \<Rightarrow> 'c sub_chunk option \<times> reader" where
  "read_sub_chunk sha ids r =
     (let (v, r) = take_u8 r in
      if legacy_version v then
        (let (_, r) = take_exact LEGACY_PAYLOAD_BYTES r in
         (Some \<lparr>version = v, y_index = None, storages = [], inline_payload = None\<rparr>, r))
      else
        (let (count, r) = (if v > 7 then (let (c, r) = take_u8 r in (min (unat c) MAX_WIRE_STORAGES, r)) else (1, r));
             (y, r) = (if v > 8 then (let (b, r) = take_u8 r in (Some (sint b), r)) else (None, r));
             (layers, r) = read_layers count
               (if v > 9 then (\<lambda>r. (Some (uniform (air_id ids)), r)) else read_block_storage sha ids) r
         in (map_option (\<lambda>ls. \<lparr>version = v, y_index = y, storages = ls, inline_payload = None\<rparr>) layers, r)))"

definition decode_sub_chunk_prefix :: "(bytes \<Rightarrow> bytes) \<Rightarrow> 'c block_ids \<Rightarrow> bytes \<Rightarrow> 'c sub_chunk option \<times> usize" where
  "decode_sub_chunk_prefix sha ids bs =
     (let (s, r) = read_sub_chunk sha ids (new_reader bs) in (s, offset r))"

subsection \<open>Reusing a resident sub-chunk\<close>

definition reuse_inline ::
  "(bytes \<Rightarrow> bytes) \<Rightarrow> 'c sub_chunk \<Rightarrow> reader \<Rightarrow> 'c block_ids \<Rightarrow> i32 \<Rightarrow> bool \<times> reader" where
  "reuse_inline sha s r ids slot_y =
     (case inline_payload s of
        None \<Rightarrow> (False, r)
      | Some payload \<Rightarrow>
          if (case pl_y_index payload of Some actual \<Rightarrow> actual \<noteq> slot_y | None \<Rightarrow> False) \<or>
             \<not> inline_cache_context_matches ids (pl_context payload) then (False, r)
          else if length (remaining r) < pl_length payload then (False, r)
          else if sha (take (pl_length payload) (remaining r)) \<noteq> pl_hash payload then (False, r)
          else (True, snd (take_exact (pl_length payload) r)))"

definition retain_inline_identity_from :: "'c sub_chunk \<Rightarrow> 'c sub_chunk \<Rightarrow> 'c sub_chunk" where
  "retain_inline_identity_from resident decoded = resident\<lparr>inline_payload := inline_payload decoded\<rparr>"

definition read_inline ::
  "(bytes \<Rightarrow> bytes) \<Rightarrow> 'c block_ids \<Rightarrow> 'c option \<Rightarrow> reader \<Rightarrow> 'c sub_chunk option \<times> reader" where
  "read_inline sha ids context r =
     (let bs = remaining r; start = offset r;
          (section, r) = read_sub_chunk sha ids r
      in (map_option (\<lambda>s.
            if \<not> failed_read r \<and> \<not> has_no_storages s then
              (case context of
                 Some c \<Rightarrow>
                   (let len = offset r - start in
                    s\<lparr>inline_payload := Some \<lparr>pl_length = len, pl_hash = sha (take len bs), pl_y_index = y_index s,
                        pl_context = c\<rparr>\<rparr>)
               | None \<Rightarrow> s)
            else s) section, r))"

subsection \<open>Block updates\<close>

definition for_block_updates :: "i32 \<Rightarrow> 'c sub_chunk" where
  "for_block_updates y =
     (let yi = (if - 128 \<le> y \<and> y \<le> 127 then Some y else None)
      in \<lparr>version = (if yi \<noteq> None then 9 else 8), y_index = yi, storages = [], inline_payload = None\<rparr>)"

text \<open>The first loop: missing layers are added and the updates sorted by layer, in order.\<close>

definition stage_update ::
  "u32 \<Rightarrow> block_update \<Rightarrow> paletted_storage list \<times> (usize \<times> u32) list list
    \<Rightarrow> (paletted_storage list \<times> (usize \<times> u32) list list) option" where
  "stage_update air u st =
     (case st of (ls, by_layer) \<Rightarrow>
       (let layer = upd_layer u;
            ls = ls @ replicate (layer + 1 - length ls) (uniform air);
            linear = linear_index (upd_x u) (upd_y u) (upd_z u)
        in if layer < MAX_STORAGE_COUNT
           then Some (ls, by_layer[layer := by_layer ! layer @ [(linear, upd_runtime_id u)]]) else None))"

definition update_layer :: "paletted_storage \<Rightarrow> (usize \<times> u32) list \<Rightarrow> (bool \<times> paletted_storage) option" where
  "update_layer s us =
     (case us of
        [] \<Rightarrow> Some (False, s)
      | [(linear, rid)] \<Rightarrow> apply_runtime_update s linear rid
      | us \<Rightarrow> apply_runtime_updates s us)"

definition commit_layer ::
  "nat \<times> (usize \<times> u32) list \<Rightarrow> bool \<times> paletted_storage list \<Rightarrow> (bool \<times> paletted_storage list) option" where
  "commit_layer lu st =
     (case (lu, st) of ((layer, us), (changed, ls)) \<Rightarrow>
       if us = [] then Some (changed, ls)
       else if layer < length ls then
         map_option (\<lambda>(c, s). (changed \<or> c, ls[layer := s])) (update_layer (ls ! layer) us)
       else None)"

text \<open>\<^verbatim>\<open>while storages.last().is_some_and(..) { storages.pop() }\<close>.\<close>

definition drop_air_layers :: "u32 \<Rightarrow> paletted_storage list \<Rightarrow> paletted_storage list" where
  "drop_air_layers air ls = rev (dropWhile (\<lambda>s. contains_only s air) (rev ls))"

definition apply_block_updates :: "'c sub_chunk \<Rightarrow> block_update list \<Rightarrow> u32 \<Rightarrow> (bool \<times> 'c sub_chunk) option" where
  "apply_block_updates s us air = do {
     (ls, by_layer) \<leftarrow> try_fold (stage_update air) us (storages s, replicate MAX_STORAGE_COUNT []);
     (changed, ls) \<leftarrow> try_fold commit_layer (enumerate 0 by_layer) (False, ls);
     let ls = drop_air_layers air ls;
     Some (changed \<or> length ls \<noteq> length (storages s), s\<lparr>storages := ls, inline_payload := None\<rparr>) }"

end
