(* ===== verification/Sub_Chunk_Decode.thy ===== *)
theory Sub_Chunk_Decode
  imports Sub_Chunk
begin

section \<open>Decoding sub-chunks\<close>

text \<open>Decoding is total, well formed and steady: it depends only on the bytes it reads.\<close>

subsection \<open>Totality\<close>

lemma length_read_entries: "length (fst (read_entries n entry r)) = n"
  by (induction n arbitrary: r) (simp_all add: Let_def case_prod_unfold)

lemma length_le_words: "length (le_words bs) = length bs div 4"
  by (induction bs rule: le_words.induct) auto

lemma clamped_len_bounds: "1 \<le> clamped_len v most" "1 \<le> most \<Longrightarrow> clamped_len v most \<le> most"
  by (simp_all add: clamped_len_def)

lemma take_exact_length: "fst (take_exact n r) = Some bs \<Longrightarrow> length bs = n"
  by (auto simp: take_exact_def split: if_splits)

lemma decoded_storage_wf:
  assumes bits: "bits \<in> set PACKED_BITS" and words: "length words = word_count bits"
    and pal: "1 \<le> length vals" "length vals \<le> BLOCKS_PER_SUB_CHUNK"
  shows "\<exists>s. zero_indices_at_or_above (new_storage bits words vals) (length vals) = Some s \<and> storage_wf s"
proof -
  let ?s = "new_storage bits words vals"
  obtain s where s: "zero_indices_at_or_above ?s (length vals) = Some s" "edits s = None" "palette s = palette ?s"
    "physical_bits s = physical_bits ?s" "length (physical_words s) = word_count (physical_bits ?s)"
    "\<forall>l<BLOCKS_PER_SUB_CHUNK. \<exists>i. palette_index ?s l = Some i \<and>
       palette_index s l = Some (if i < length vals then i else 0)"
  proof -
    have "edits ?s = None" "physical_bits ?s \<in> set SUPPORTED_BITS"
      "length (physical_words ?s) = word_count (physical_bits ?s)" "0 < length vals"
      using assms by (auto simp: new_storage_def supported_bits_iff)
    from zero_indices_correct [OF this] show ?thesis using that by blast
  qed
  have "\<exists>i<length (palette s). physical_index s l = Some i" if "l < BLOCKS_PER_SUB_CHUNK" for l
  proof -
    obtain i where "palette_index s l = Some (if i < length vals then i else 0)" using s(6) \<open>l < _\<close> by blast
    moreover have "palette_index s l = physical_index s l"
      using s(2) by (simp add: palette_index_def split: option.split)
    moreover have "palette s = vals" using s(3) by (simp add: new_storage_def)
    ultimately show ?thesis using pal(1) by (cases "i < length vals") auto
  qed
  then have "decoded_wf s"
    using s(3-5) assms by (simp add: decoded_wf_def new_storage_def supported_bits_iff)
  then show ?thesis using s(1,2) by (auto simp: storage_wf_def)
qed

lemma packed_max_len:
  assumes "bits \<in> set PACKED_BITS" shows "1 \<le> min (2 ^ bits) MAX_PALETTE_ENTRIES"
    "min (2 ^ bits) MAX_PALETTE_ENTRIES \<le> BLOCKS_PER_SUB_CHUNK"
  by (simp_all add: MAX_PALETTE_ENTRIES_def bounds_simps)

lemma decoded_packed_total:
  assumes bits: "bits \<in> set PACKED_BITS" shows "\<exists>s. fst (read_packed_storage bits entry r) = Some s \<and> storage_wf s"
proof -
  obtain bs r1 where r1: "take_exact (word_count bits * 4) r = (bs, r1)" by fastforce
  obtain v r2 where r2: "take_var_i32 r1 = (v, r2)" by fastforce
  let ?len = "clamped_len v (min (2 ^ bits) MAX_PALETTE_ENTRIES)"
  obtain vals r3 where r3: "read_entries ?len entry r2 = (vals, r3)" by fastforce
  let ?words = "case bs of None \<Rightarrow> replicate (word_count bits) 0 | Some bs \<Rightarrow> le_words bs"
  have vals: "length vals = ?len" using length_read_entries [of ?len entry r2] r3 by simp
  have "length ?words = word_count bits"
    using take_exact_length [of "word_count bits * 4" r] r1 by (simp add: length_le_words split: option.split)
  moreover have "1 \<le> ?len" "?len \<le> BLOCKS_PER_SUB_CHUNK"
    using clamped_len_bounds(1) clamped_len_bounds(2) [OF packed_max_len(1) [OF bits], of v]
      packed_max_len(2) [OF bits] by (simp, linarith)
  ultimately have "\<exists>s. zero_indices_at_or_above (new_storage bits ?words vals) ?len = Some s \<and> storage_wf s"
    using decoded_storage_wf [OF bits, of ?words vals] unfolding vals by blast
  moreover have "fst (read_packed_storage bits entry r) = zero_indices_at_or_above (new_storage bits ?words vals) ?len"
    using r1 r2 r3 by (simp add: read_packed_storage_def Let_def)
  ultimately show ?thesis by simp
qed

lemma read_block_total: "\<exists>s. fst (read_block_storage sha ids r) = Some s \<and> storage_wf s"
  using decoded_packed_total uniform_wf by (simp add: read_block_storage_def Let_def case_prod_unfold)

lemma read_layers_total:
  assumes "\<And>r. \<exists>s. fst (f r) = Some s \<and> storage_wf s"
  shows "\<exists>ss. fst (read_layers n f r) = Some ss \<and> length ss = n \<and> list_all storage_wf ss"
proof (induction n arbitrary: r)
  case (Suc n)
  obtain s where "fst (f r) = Some s \<and> storage_wf s" using assms by blast
  moreover obtain ss where "fst (read_layers n f (snd (f r))) = Some ss \<and> length ss = n \<and> list_all storage_wf ss"
    using Suc by blast
  ultimately show ?case by (simp add: Let_def case_prod_unfold)
qed simp

text \<open>A well-formed sub-chunk: every layer is.\<close>

definition sub_chunk_wf :: "'c sub_chunk \<Rightarrow> bool" where
  "sub_chunk_wf s \<longleftrightarrow> list_all storage_wf (storages s) \<and> length (storages s) \<le> MAX_STORAGE_COUNT"

lemma read_sub_chunk_total:
  "\<exists>s. fst (read_sub_chunk sha ids r) = Some s \<and> sub_chunk_wf s \<and> length (storages s) \<le> MAX_WIRE_STORAGES \<and>
     inline_payload s = None \<and> (\<forall>y. y_index s = Some y \<longrightarrow> - 128 \<le> y \<and> y \<le> 127)"
proof -
  obtain v r1 where v: "take_u8 r = (v, r1)" by fastforce
  show ?thesis
  proof (cases "legacy_version v")
    case True
    then show ?thesis using v by (simp add: read_sub_chunk_def Let_def case_prod_unfold sub_chunk_wf_def)
  next
    case False
    let ?count = "if v > 7 then (let (c, r) = take_u8 r1 in (min (unat c) MAX_WIRE_STORAGES, r)) else (1, r1)"
    obtain count r2 where c: "?count = (count, r2)" by fastforce
    let ?y = "if v > 8 then (let (b, r) = take_u8 r2 in (Some (sint b), r)) else (None, r2)"
    obtain y r3 where y: "?y = (y, r3)" by fastforce
    let ?f = "if v > 9 then (\<lambda>r. (Some (uniform (air_id ids)), r)) else read_block_storage sha ids"
    obtain layers r4 where l: "read_layers count ?f r3 = (layers, r4)" by fastforce
    have f: "\<exists>s. fst (?f r) = Some s \<and> storage_wf s" for r
      by (cases "v > 9") (simp_all add: read_block_total uniform_wf)
    obtain ls where ls: "layers = Some ls" "length ls = count" "list_all storage_wf ls"
      using read_layers_total [of ?f count r3, OF f] l by auto
    have "count \<le> MAX_WIRE_STORAGES"
      using c by (auto simp: Let_def case_prod_unfold MAX_WIRE_STORAGES_def split: if_splits)
    moreover have "- 128 \<le> z \<and> z \<le> 127" if z: "y = Some z" for z
    proof -
      obtain b :: u8 where "z = sint b" using y z by (auto simp: Let_def case_prod_unfold split: if_splits)
      then show ?thesis using sint_lt [of b] sint_ge [of b] by simp
    qed
    moreover have "fst (read_sub_chunk sha ids r) =
        Some \<lparr>version = v, y_index = y, storages = ls, inline_payload = None\<rparr>"
      by (simp only: read_sub_chunk_def v Let_def prod.case False if_False c [unfolded Let_def] y [unfolded Let_def]
          l ls(1) option.map fst_conv)
    ultimately show ?thesis using ls by (simp add: sub_chunk_wf_def MAX_WIRE_STORAGES_def MAX_STORAGE_COUNT_def)
  qed
qed

subsection \<open>Steadiness\<close>

lemma steady_case [steady_intros]:
  assumes "steady_at f r" "\<And>x r1. inside r1 \<Longrightarrow> f r = (x, r1) \<Longrightarrow> steady_at (g x) r1"
  shows "steady_at (\<lambda>r. case f r of (x, r) \<Rightarrow> g x r) r"
  using steady_bind [of f r g] assms by (simp add: Let_def)

lemma steady_runtime_entry [steady_intros]: "steady_at (runtime_entry ids) r"
  unfolding runtime_entry_def [abs_def] by (intro steady_intros)

lemma lenient_len_le: "lenient_nbt_len sha bs \<le> length bs"
  by (auto simp: lenient_nbt_len_def dest: scan_prefix_Inr(2) split: list.split sum.split)

lemma decoded_root_tag:
  assumes "decode_prefix sha bs = Inr (nbt, k)" shows "bs \<noteq> [] \<and> hd bs = COMPOUND_TAG"
proof -
  obtain st r where scan: "scan_root \<lparr>input = bs, position = 0\<rparr> = Inr (st, r)" "semantic_error st = None"
    using assms by (auto simp: decode_prefix_scan scan_prefix_def result_simps Let_def)
  obtain tag r1 name r2 where s: "read_u8 \<lparr>input = bs, position = 0\<rparr> ''root tag'' = Inr (tag, r1)"
      "read_string r1 ''root name'' = Inr (name, r2)"
    using scan(1) by (auto simp: scan_root_def result_simps)
  have "tag = COMPOUND_TAG"
    using scan s by (auto simp: scan_root_def result_simps defer_error_def split: if_splits)
  moreover have "bs \<noteq> []" "tag = hd bs"
    using s(1) by (auto simp: read_u8_def read_exact_def require_remaining_def rest_def result_simps Let_def
        hd_conv_nth split: if_splits)
  ultimately show ?thesis by simp
qed

lemma steady_persistent [steady_intros]: "steady_at (persistent_entry sha ids) r"
proof (cases "\<exists>root nbt k. decode_prefix sha (take (lenient_nbt_len sha (remaining r)) (remaining r)) = Inr (nbt, k) \<and>
    nbt_parse (nbt_bytes nbt) = Some root")
  case True
  let ?bs = "remaining r" and ?n = "lenient_nbt_len sha (remaining r)"
  obtain root nbt k where d: "decode_prefix sha (take ?n ?bs) = Inr (nbt, k)" "nbt_parse (nbt_bytes nbt) = Some root"
    using True by blast
  have n: "?n \<le> length ?bs" by (rule lenient_len_le)
  have scan: "scan_prefix sha (take ?n ?bs) = Inr (nbt, k, None)" using d(1) by (simp add: decode_prefix_scan)
  have bs: "?bs \<noteq> []" "hd ?bs = COMPOUND_TAG" "?n \<noteq> 0" using decoded_root_tag [OF d(1)] by (auto simp: hd_take)
  have k: "k = ?n"
  proof (cases "scan_prefix sha ?bs")
    case (Inl e)
    then have "?n = length ?bs" using bs by (cases ?bs) (auto simp: lenient_nbt_len_def)
    then show ?thesis using scan Inl by simp
  next
    case (Inr x)
    obtain m u e where x: "x = (m, u, e)" by (cases x)
    then have u: "?n = u" using Inr bs by (cases ?bs) (auto simp: lenient_nbt_len_def)
    then have "scan_prefix sha (take ?n ?bs) = Inr (m, u, e)" using scan_prefix_Inr(4) [of sha ?bs m u e "[]"] Inr x by simp
    then show ?thesis using scan u by simp
  qed
  have result: "persistent_entry sha ids r = (resolve_persistent ids root, forward ?n r)"
    using n d by (simp add: persistent_entry_def take_exact_def Let_def forward_def)
  have "persistent_entry sha ids s = (resolve_persistent ids root, forward ?n s)" if same: "same_upto ?n r s" for s
  proof -
    have len: "?n \<le> length (remaining s)" and t: "take ?n (remaining s) = take ?n ?bs"
      using same by (simp_all add: same_upto_def)
    have rs: "remaining s = take ?n ?bs @ drop ?n (remaining s)" using t by (metis append_take_drop_id)
    have "scan_prefix sha (remaining s) = Inr (nbt, ?n, None)"
      using scan_prefix_Inr(4) [OF scan, of "drop ?n (remaining s)"] k rs by simp
    moreover have "remaining s \<noteq> [] \<and> hd (remaining s) = COMPOUND_TAG"
      using decoded_root_tag [of sha "remaining s" nbt ?n] calculation by (simp add: decode_prefix_scan)
    ultimately have "lenient_nbt_len sha (remaining s) = ?n"
      by (cases "remaining s") (auto simp: lenient_nbt_len_def)
    then show ?thesis using len t d by (simp add: persistent_entry_def take_exact_def Let_def forward_def)
  qed
  then show ?thesis using n result unfolding steady_at_def
    by (intro impI exI [of _ ?n] conjI exI [of _ "failed_read r"]) auto
next
  case False
  let ?bs = "remaining r" and ?n = "lenient_nbt_len sha (remaining r)"
  have n: "?n \<le> length ?bs" by (rule lenient_len_le)
  have "(case decode_prefix sha (take ?n ?bs) of Inl _ \<Rightarrow> None | Inr (nbt, _) \<Rightarrow> nbt_parse (nbt_bytes nbt)) = None"
    using False by (auto split: sum.split)
  then have "snd (persistent_entry sha ids r) = (forward ?n r)\<lparr>failed_read := True\<rparr>"
    using n by (simp add: persistent_entry_def take_exact_def Let_def forward_def)
  then show ?thesis by (rule steady_failing [OF n])
qed

lemma steady_entries [steady_intros]:
  assumes "\<And>r. steady_at entry r" shows "steady_at (read_entries n entry) r"
proof (induction n arbitrary: r)
  case 0
  have "read_entries 0 entry = (\<lambda>r. ([], r))" by (rule ext) simp
  then show ?case by (simp add: steady_return)
next
  case (Suc n)
  have "read_entries (Suc n) entry = (\<lambda>r. case entry r of (v, r) \<Rightarrow> case read_entries n entry r of (vs, r) \<Rightarrow> (v # vs, r))"
    by (rule ext) (simp add: Let_def)
  moreover have "steady_at \<dots> r" for r using assms Suc by (intro steady_intros)
  ultimately show ?case by simp
qed

lemma steady_packed [steady_intros]:
  assumes "\<And>r. steady_at entry r" shows "steady_at (read_packed_storage bits entry) r"
  unfolding read_packed_storage_def [abs_def] Let_def using assms by (intro steady_intros)

lemma steady_block [steady_intros]: "steady_at (read_block_storage sha ids) r"
proof -
  have "steady_at (if (header :: u8) AND 1 = 0 then persistent_entry sha ids else runtime_entry ids) r" for header r
    by (simp add: steady_persistent steady_runtime_entry)
  then show ?thesis unfolding read_block_storage_def [abs_def] Let_def by (intro steady_intros)
qed

lemma steady_layers [steady_intros]:
  assumes "\<And>r. steady_at f r" shows "steady_at (read_layers n f) r"
proof (induction n arbitrary: r)
  case 0
  have "read_layers 0 f = (\<lambda>r. (Some [], r))" by (rule ext) simp
  then show ?case by (simp add: steady_return)
next
  case (Suc n)
  have "read_layers (Suc n) f = (\<lambda>r. case f r of (s, r) \<Rightarrow> case read_layers n f r of (ss, r) \<Rightarrow>
      (case (s, ss) of (Some s, Some ss) \<Rightarrow> Some (s # ss) | _ \<Rightarrow> None, r))"
    by (rule ext) (simp add: Let_def)
  moreover have "steady_at \<dots> r" for r using assms Suc by (intro steady_intros)
  ultimately show ?case by simp
qed

lemma steady_sub_chunk [steady_intros]: "steady_at (read_sub_chunk sha ids) r"
proof -
  have f: "steady_at (if (v :: u8) > 9 then (\<lambda>r. (Some (uniform (air_id ids)), r)) else read_block_storage sha ids) r" for v r
    by (simp add: steady_return steady_block)
  show ?thesis unfolding read_sub_chunk_def [abs_def] Let_def by (intro steady_intros f)
qed

end
