(* ===== verification/Biome.thy ===== *)
theory Biome
  imports Sub_Chunk_Decode
begin

section \<open>Biome columns\<close>

text \<open>
  \<^verbatim>\<open>crates/world/src/biome.rs\<close>: the dense vertical biome column of a chunk, decoded from the bytes after its
  sub-chunks.  A biome storage is a paletted storage, and an \<^verbatim>\<open>Arc\<close> of one is its value.  An outer
  \<open>None\<close> stands for a panic; decoding is shown never to reach it.
\<close>

type_synonym u16 = "16 word"
type_synonym biome_storage = paletted_storage

text \<open>The trait \<^verbatim>\<open>BiomeIds\<close> and \<^verbatim>\<open>RawBiomeIds\<close>.\<close>

record biome_ids =
  default_biome :: u32
  resolve_biome :: "u16 \<Rightarrow> u32"

definition raw_biome_ids :: "u32 \<Rightarrow> biome_ids" where
  "raw_biome_ids fallback = \<lparr>default_biome = fallback, resolve_biome = ucast\<rparr>"

definition biome_id :: "biome_storage \<Rightarrow> nat \<Rightarrow> nat \<Rightarrow> nat \<Rightarrow> u32 option" where
  "biome_id s x y z = runtime_id s x y z"

definition biome_or_default :: "biome_storage \<Rightarrow> nat \<Rightarrow> nat \<Rightarrow> nat \<Rightarrow> u32" where
  "biome_or_default s x y z = (case biome_id s x y z of Some b \<Rightarrow> b | None \<Rightarrow> 0)"

text \<open>The updates that give every cell of a column the top cell's biome.\<close>

definition extrusion :: "biome_storage \<Rightarrow> (usize \<times> u32) list" where
  "extrusion s =
     concat (map (\<lambda>x. concat (map (\<lambda>z. map (\<lambda>y. (linear_index x y z, biome_or_default s x 15 z)) [0..<16])
       [0..<16])) [0..<16])"

definition extruded_top_layer :: "biome_storage \<Rightarrow> biome_storage option" where
  "extruded_top_layer s = map_option snd (apply_runtime_updates (uniform (biome_or_default s 0 15 0)) (extrusion s))"

subsection \<open>Decoding\<close>

definition biome_entry :: "biome_ids \<Rightarrow> reader \<Rightarrow> u32 \<times> reader" where
  "biome_entry ids r = (let (v, r) = take_var_i32 r in (resolve_biome ids (ucast v), r))"

text \<open>One turn of the loop over the slots: the slot's storage, if it has one.\<close>

definition read_biome_slot :: "biome_ids \<Rightarrow> reader \<Rightarrow> biome_storage option option \<times> reader" where
  "read_biome_slot ids r =
     (if is_at_end r then (Some None, r)
      else let (header, r) = take_u8 r; bits = unat (drop_bit 1 header)
           in if bits = 0x7F then (Some None, r)
              else if bits = 0 then (let (v, r) = biome_entry ids r in (Some (Some (uniform v)), r))
              else if bits \<in> set PACKED_BITS then
                (let (s, r) = read_packed_storage bits (biome_entry ids) r in (map_option Some s, r))
              else (Some None, skip_to_end r))"

fun read_biome_slots :: "nat \<Rightarrow> biome_ids \<Rightarrow> reader \<Rightarrow> biome_storage option list option \<times> reader" where
  "read_biome_slots 0 ids r = (Some [], r)"
| "read_biome_slots (Suc n) ids r =
     (let (s, r) = read_biome_slot ids r; (ss, r) = read_biome_slots n ids r
      in (case (s, ss) of (Some s, Some ss) \<Rightarrow> Some (s # ss) | _ \<Rightarrow> None, r))"

record decoded_biome_column =
  base_sub_chunk_y :: i32
  biome_storages :: "biome_storage list"
  biome_bytes_consumed :: usize

text \<open>\<^verbatim>\<open>slots.iter().rposition(Option::is_some).map_or(0, |last| last + 1)\<close>.\<close>

definition filled_count :: "'a option list \<Rightarrow> usize" where
  "filled_count found = length (dropWhile (\<lambda>slot. slot = None) (rev found))"

definition fill_slot ::
  "biome_storage \<Rightarrow> biome_storage option \<Rightarrow> usize \<Rightarrow> usize \<times> biome_storage option \<Rightarrow> biome_storage" where
  "fill_slot fallback extruded count indexed =
     (case indexed of
        (_, Some s) \<Rightarrow> s
      | (index, None) \<Rightarrow> (case extruded of Some a \<Rightarrow> (if index \<ge> count then a else fallback) | None \<Rightarrow> fallback))"

definition decode_biome_column :: "i32 \<Rightarrow> usize \<Rightarrow> bytes \<Rightarrow> biome_ids \<Rightarrow> decoded_biome_column option" where
  "decode_biome_column base storage_count payload ids = do {
     let (found, r) = read_biome_slots storage_count ids (new_reader payload);
     found \<leftarrow> found;
     let fallback = uniform (default_biome ids);
     extruded \<leftarrow> (case dropWhile (\<lambda>slot. slot = None) (rev found) of
                Some last_slot # _ \<Rightarrow> map_option Some (extruded_top_layer last_slot)
              | _ \<Rightarrow> Some None);
     Some \<lparr>base_sub_chunk_y = base,
       biome_storages = map (fill_slot fallback extruded (filled_count found)) (enumerate 0 found),
       biome_bytes_consumed = offset r\<rparr> }"

definition column_storage :: "decoded_biome_column \<Rightarrow> i32 \<Rightarrow> biome_storage option" where
  "column_storage column sub_chunk_y = do {
     offset \<leftarrow> checked_sub_i32 sub_chunk_y (base_sub_chunk_y column);
     (if offset < 0 then None
      else if nat offset < length (biome_storages column) then Some (biome_storages column ! nat offset) else None) }"

text \<open>\<^verbatim>\<open>PartialEq\<close> of columns.\<close>

definition biome_column_eq :: "decoded_biome_column \<Rightarrow> decoded_biome_column \<Rightarrow> bool" where
  "biome_column_eq a b \<longleftrightarrow>
     base_sub_chunk_y a = base_sub_chunk_y b \<and> list_all2 storage_eq (biome_storages a) (biome_storages b) \<and>
     biome_bytes_consumed a = biome_bytes_consumed b"

subsection \<open>Decoding is total\<close>

lemma steady_biome_entry [steady_intros]: "steady_at (biome_entry ids) r"
  unfolding biome_entry_def [abs_def] by (intro steady_intros)

lemma inside_skip_to_end: "inside (skip_to_end r)"
  by (simp add: inside_def skip_to_end_def)

lemma read_biome_slot_total:
  assumes "inside r"
  shows "\<exists>s. fst (read_biome_slot ids r) = Some s \<and> pred_option storage_wf s"
    and "inside (snd (read_biome_slot ids r)) \<and> stream (snd (read_biome_slot ids r)) = stream r"
proof -
  obtain header r1 where h: "take_u8 r = (header, r1)" by fastforce
  have r1: "inside r1" "stream r1 = stream r"
    using steady_inside [OF steady_u8 assms] steady_offset [OF steady_u8 assms] h by simp_all
  let ?bits = "unat (drop_bit 1 header)"
  show "\<exists>s. fst (read_biome_slot ids r) = Some s \<and> pred_option storage_wf s"
    using decoded_packed_total [of ?bits "biome_entry ids" r1] uniform_wf
    by (auto simp: read_biome_slot_def h Let_def case_prod_unfold)
  show "inside (snd (read_biome_slot ids r)) \<and> stream (snd (read_biome_slot ids r)) = stream r"
    using steady_inside [OF steady_biome_entry [of ids] r1(1)] steady_offset [OF steady_biome_entry [of ids] r1(1)]
      steady_inside [OF steady_packed [OF steady_biome_entry, of ?bits ids] r1(1)]
      steady_offset [OF steady_packed [OF steady_biome_entry, of ?bits ids] r1(1)] assms r1
    by (simp add: read_biome_slot_def h Let_def case_prod_unfold inside_skip_to_end) (simp add: skip_to_end_def)
qed

lemma read_biome_slots_total:
  assumes "inside r"
  shows "\<exists>ss. fst (read_biome_slots n ids r) = Some ss \<and> length ss = n \<and> list_all (pred_option storage_wf) ss \<and>
    inside (snd (read_biome_slots n ids r)) \<and> stream (snd (read_biome_slots n ids r)) = stream r"
  using assms
proof (induction n arbitrary: r)
  case (Suc n)
  obtain s r1 where s: "read_biome_slot ids r = (Some s, r1)" "pred_option storage_wf s"
    using read_biome_slot_total(1) [OF Suc.prems, of ids] by (metis prod.collapse)
  have r1: "inside r1" "stream r1 = stream r" using read_biome_slot_total(2) [OF Suc.prems, of ids] s(1) by simp_all
  obtain ss r2 where ss: "read_biome_slots n ids r1 = (Some ss, r2)" "length ss = n" "list_all (pred_option storage_wf) ss"
      "inside r2" "stream r2 = stream r1"
    using Suc.IH [OF r1(1)] by (metis prod.collapse)
  then show ?case using s r1 by simp
qed simp

subsection \<open>The empty slots\<close>

lemma map_of_function:
  assumes "\<forall>(k, v)\<in>set us. v = f k" "k \<in> fst ` set us" shows "map_of us k = Some (f k)"
  using assms by (induction us) auto

lemma biome_cell: "x < 16 \<Longrightarrow> y < 16 \<Longrightarrow> z < 16 \<Longrightarrow> biome_id s x y z = cell_value s (linear_index x y z)"
  by (simp add: biome_id_def runtime_id_def cell_value_def)

lemma set_extrusion:
  "set (extrusion s) = {(linear_index x y z, biome_or_default s x 15 z) |x y z. x < 16 \<and> y < 16 \<and> z < 16}"
proof -
  have "(l, v) \<in> set (extrusion s) \<longleftrightarrow>
      (\<exists>x<16. \<exists>z<16. \<exists>y<16. (l, v) = (linear_index x y z, biome_or_default s x 15 z))" for l v
    unfolding extrusion_def set_concat set_map set_upt UN_iff image_iff atLeastLessThan_iff Bex_def image_image by blast
  then show ?thesis unfolding set_eq_iff mem_Collect_eq split_paired_All by blast
qed

lemma linear_index_coordinates:
  assumes "x < 16" "y < 16" "z < 16"
  shows "linear_index x y z div 256 = x" "linear_index x y z div 16 mod 16 = z" "linear_index x y z mod 16 = y"
proof -
  have l: "linear_index x y z = (16 * x + z) * 16 + y" using assms by (simp add: linear_index_eq)
  have "(w * 16 + y) div 16 = w \<and> (w * 16 + y) mod 16 = y" for w using assms(2) by simp
  then have "linear_index x y z div 16 = 16 * x + z" "linear_index x y z mod 16 = y" unfolding l by blast+
  moreover have "(16 * x + z) div 16 = x" "(16 * x + z) mod 16 = z" using assms(3) by simp_all
  ultimately show "linear_index x y z div 256 = x" "linear_index x y z div 16 mod 16 = z" "linear_index x y z mod 16 = y"
    using div_mult2_eq [of "linear_index x y z" 16 16] by simp_all
qed

lemma extruded_top_layer_correct:
  assumes "storage_wf s"
  shows "\<exists>e. extruded_top_layer s = Some e \<and> storage_wf e \<and>
    (\<forall>x<16. \<forall>y<16. \<forall>z<16. biome_id e x y z = biome_id s x 15 z)"
proof -
  let ?f = "\<lambda>l. biome_or_default s (l div 256) 15 (l div 16 mod 16)"
  let ?from = "uniform (biome_or_default s 0 15 0)"
  have assigned: "\<forall>(k, v)\<in>set (rev (extrusion s)). v = ?f k"
    by (auto simp: set_extrusion linear_index_coordinates)
  have "\<forall>(l, v)\<in>set (extrusion s). l < BLOCKS_PER_SUB_CHUNK" by (auto simp: set_extrusion linear_index_bound)
  then obtain changed e where e: "apply_runtime_updates ?from (extrusion s) = Some (changed, e)" "storage_wf e"
    "\<forall>l<BLOCKS_PER_SUB_CHUNK. cell_value e l =
       (case map_of (rev (extrusion s)) l of Some v \<Rightarrow> Some v | None \<Rightarrow> cell_value ?from l)"
    using batch_edit_total [OF uniform_wf] by blast
  have "biome_id e x y z = biome_id s x 15 z" if xyz: "x < 16" "y < 16" "z < 16" for x y z
  proof -
    let ?l = "linear_index x y z"
    have "?l \<in> fst ` set (rev (extrusion s))" using xyz by (force simp: set_extrusion)
    then have "map_of (rev (extrusion s)) ?l = Some (?f ?l)" by (rule map_of_function [OF assigned])
    then have "biome_id e x y z = Some (biome_or_default s x 15 z)"
      using e(3) xyz linear_index_coordinates [OF xyz] linear_index_bound [OF xyz] by (simp add: biome_cell)
    moreover have "biome_id s x 15 z \<noteq> None"
      using storage_cell_total [OF assms linear_index_bound [of x 15 z]] xyz by (auto simp: biome_cell)
    ultimately show ?thesis by (auto simp: biome_or_default_def)
  qed
  then show ?thesis using e(1,2) by (simp add: extruded_top_layer_def)
qed

lemma uniform_biome: "x < 16 \<Longrightarrow> y < 16 \<Longrightarrow> z < 16 \<Longrightarrow> biome_id (uniform b) x y z = Some b"
  by (simp add: biome_cell uniform_cell linear_index_bound)

text \<open>The last filled slot splits the slots into those below it, itself, and empty ones.\<close>

lemma trailing_slots:
  "(filled_count found = 0 \<and> dropWhile (\<lambda>slot. slot = None) (rev found) = [] \<and> set found \<subseteq> {None}) \<or>
   (\<exists>t s rest. filled_count found = Suc t \<and> t < length found \<and> found ! t = Some s \<and>
      dropWhile (\<lambda>slot. slot = None) (rev found) = Some s # rest \<and> (\<forall>i. t < i \<longrightarrow> i < length found \<longrightarrow> found ! i = None))"
proof (induction found rule: rev_induct)
  case (snoc slot found)
  show ?case
  proof (cases slot)
    case None
    then show ?thesis
      using snoc by (force simp: filled_count_def nth_append less_Suc_eq)
  next
    case (Some s)
    then show ?thesis by (auto simp: filled_count_def)
  qed
qed (simp add: filled_count_def)

text \<open>Which biome a slot's cell shows: its own, the top layer of the last filled slot below it, or the fallback.\<close>

definition slot_biome :: "biome_storage option list \<Rightarrow> u32 \<Rightarrow> usize \<Rightarrow> nat \<Rightarrow> nat \<Rightarrow> nat \<Rightarrow> u32 option" where
  "slot_biome found fallback i x y z =
     (case found ! i of
        Some s \<Rightarrow> biome_id s x y z
      | None \<Rightarrow>
          if filled_count found \<le> i then
            (case found ! (filled_count found - 1) of
               Some s \<Rightarrow> (if filled_count found = 0 then Some fallback else biome_id s x 15 z)
             | None \<Rightarrow> Some fallback)
          else Some fallback)"

lemma decode_biome_column_correct:
  fixes payload :: bytes and ids :: biome_ids and n :: nat
  defines "found \<equiv> the (fst (read_biome_slots n ids (new_reader payload)))"
  shows "\<exists>column. decode_biome_column base n payload ids = Some column \<and>
    base_sub_chunk_y column = base \<and> biome_bytes_consumed column \<le> length payload \<and>
    length (biome_storages column) = n \<and> length found = n \<and> list_all storage_wf (biome_storages column) \<and>
    (\<forall>i<n. \<forall>x<16. \<forall>y<16. \<forall>z<16. biome_id (biome_storages column ! i) x y z = slot_biome found (default_biome ids) i x y z)"
proof -
  let ?r = "new_reader payload" and ?fallback = "uniform (default_biome ids)"
  obtain r' where read: "read_biome_slots n ids ?r = (Some found, r')" and found: "length found = n"
      "list_all (pred_option storage_wf) found" and r': "inside r'" "stream r' = payload"
    using read_biome_slots_total [OF inside_new, of n ids payload] unfolding found_def
    by (metis (no_types, lifting) new_reader_simps(1) option.sel prod.collapse)
  let ?last = "dropWhile (\<lambda>slot. slot = None) (rev found)"
  let ?extruded = "case ?last of Some s # _ \<Rightarrow> map_option Some (extruded_top_layer s) | _ \<Rightarrow> Some None"
  have wf: "storage_wf s" if "i < n" "found ! i = Some s" for i s
    using found that by (auto simp: list_all_length)
  obtain ext where ext: "?extruded = Some ext" "pred_option storage_wf ext"
    and shows_ext: "\<And>t s e. filled_count found = Suc t \<Longrightarrow> found ! t = Some s \<Longrightarrow>
      (\<exists>e. ext = Some e \<and> (\<forall>x<16. \<forall>y<16. \<forall>z<16. biome_id e x y z = biome_id s x 15 z))"
    and no_ext: "filled_count found = 0 \<Longrightarrow> ext = None"
  proof -
    show thesis
    proof (cases "filled_count found")
      case 0
      then have last_slot: "?last = []" using trailing_slots [of found] by auto
      have none: "?extruded = Some None" unfolding last_slot by simp
      show ?thesis by (rule that [OF none]) (use 0 in simp_all)
    next
      case (Suc t)
      then obtain s rest where s: "t < length found" "found ! t = Some s" "?last = Some s # rest"
        using trailing_slots [of found] by auto
      have "storage_wf s" using wf [of t s] s(1,2) found(1) by simp
      from extruded_top_layer_correct [OF this] show ?thesis using that s Suc by fastforce
    qed
  qed
  let ?column = "\<lparr>base_sub_chunk_y = base,
       biome_storages = map (fill_slot ?fallback ext (filled_count found)) (enumerate 0 found),
       biome_bytes_consumed = offset r'\<rparr>"
  have decoded: "decode_biome_column base n payload ids = Some ?column"
    unfolding decode_biome_column_def by (simp add: read ext(1))
  have nth: "biome_storages ?column ! i = fill_slot ?fallback ext (filled_count found) (i, found ! i)" if "i < n" for i
    using that found(1) by (simp add: nth_enumerate_eq)
  have "storage_wf (biome_storages ?column ! i)" if "i < n" for i
    using nth [OF that] wf [OF that] ext(2) uniform_wf by (auto simp: fill_slot_def split: option.split)
  then have all_wf: "list_all storage_wf (biome_storages ?column)" using found(1) by (simp add: list_all_length)
  have "biome_id (biome_storages ?column ! i) x y z = slot_biome found (default_biome ids) i x y z"
    if i: "i < n" and xyz: "x < 16" "y < 16" "z < 16" for i x y z
  proof (cases "found ! i")
    case (Some s)
    then show ?thesis using nth [OF i] by (simp add: fill_slot_def slot_biome_def)
  next
    case None
    show ?thesis
    proof (cases "filled_count found")
      case 0
      then show ?thesis
        using nth [OF i] None no_ext xyz by (simp add: fill_slot_def slot_biome_def uniform_biome split: option.split)
    next
      case (Suc t)
      then obtain s where s: "found ! t = Some s" using trailing_slots [of found] by auto
      then show ?thesis using nth [OF i] None shows_ext [OF Suc s] Suc xyz
        by (auto simp: fill_slot_def slot_biome_def uniform_biome)
    qed
  qed
  then show ?thesis using decoded all_wf found(1) r' by (simp add: inside_def)
qed

subsection \<open>Reading a column\<close>

lemma column_storage_iff:
  "column_storage column y = Some s \<longleftrightarrow>
    (\<exists>i<length (biome_storages column). y = base_sub_chunk_y column + int i \<and> s = biome_storages column ! i \<and> in_i32 (int i))"
  by (auto simp: column_storage_def checked_sub_i32_def result_simps bounds_simps split: if_splits)

end
