(* ===== verification/Sub_Chunk_Updates.thy ===== *)
theory Sub_Chunk_Updates
  imports Sub_Chunk_Decode
begin

section \<open>Applying block updates\<close>

text \<open>
  A sub-chunk as the client sees it is a value for every cell of every layer, air where there is no
  layer; an update batch changes exactly the addressed cells of this view.
\<close>

definition view_cell :: "u32 \<Rightarrow> paletted_storage list \<Rightarrow> usize \<Rightarrow> usize \<Rightarrow> u32 option" where
  "view_cell air ls layer l = (if layer < length ls then cell_value (ls ! layer) l else Some air)"

definition update_cell :: "block_update \<Rightarrow> usize" where
  "update_cell u = linear_index (upd_x u) (upd_y u) (upd_z u)"

definition layer_updates :: "usize \<Rightarrow> block_update list \<Rightarrow> (usize \<times> u32) list" where
  "layer_updates layer us = map (\<lambda>u. (update_cell u, upd_runtime_id u)) (filter (\<lambda>u. upd_layer u = layer) us)"

text \<open>The value the last update of a cell gave it.\<close>

definition overridden :: "(usize \<times> u32) list \<Rightarrow> usize \<Rightarrow> u32 option \<Rightarrow> u32 option" where
  "overridden us l old = (case map_of (rev us) l of Some v \<Rightarrow> Some v | None \<Rightarrow> old)"

lemma update_cell_bound: "valid_update u \<Longrightarrow> update_cell u < BLOCKS_PER_SUB_CHUNK"
  by (simp add: valid_update_def update_cell_def linear_index_bound)

lemma layer_updates_bound:
  "list_all valid_update us \<Longrightarrow> \<forall>(l, v)\<in>set (layer_updates layer us). l < BLOCKS_PER_SUB_CHUNK"
  by (auto simp: layer_updates_def list_all_iff update_cell_bound)

subsection \<open>Staging\<close>

lemma stage_updates:
  assumes "list_all valid_update us" "length bl = MAX_STORAGE_COUNT"
  shows "\<exists>k bl'. try_fold (stage_update air) us (ls, bl) = Some (ls @ replicate k (uniform air), bl') \<and>
    length bl' = MAX_STORAGE_COUNT \<and> (\<forall>i<MAX_STORAGE_COUNT. bl' ! i = bl ! i @ layer_updates i us) \<and>
    (\<forall>u\<in>set us. upd_layer u < length ls + k) \<and> (length ls \<le> MAX_STORAGE_COUNT \<longrightarrow> length ls + k \<le> MAX_STORAGE_COUNT)"
  using assms
proof (induction us arbitrary: ls bl)
  case Nil
  then show ?case by (auto simp: layer_updates_def intro!: exI [of _ "0::nat"])
next
  case (Cons u us ls bl)
  let ?j = "upd_layer u + 1 - length ls"
  let ?ls = "ls @ replicate ?j (uniform air)" and ?bl = "bl[upd_layer u := bl ! upd_layer u @ [(update_cell u, upd_runtime_id u)]]"
  have u: "upd_layer u < MAX_STORAGE_COUNT" using Cons.prems(1) by (simp add: valid_update_def MAX_STORAGE_COUNT_def)
  have step: "stage_update air u (ls, bl) = Some (?ls, ?bl)"
    using u by (simp add: stage_update_def Let_def update_cell_def)
  obtain k bl' where k: "try_fold (stage_update air) us (?ls, ?bl) = Some (?ls @ replicate k (uniform air), bl')"
    "length bl' = MAX_STORAGE_COUNT" "\<forall>i<MAX_STORAGE_COUNT. bl' ! i = ?bl ! i @ layer_updates i us"
    "\<forall>u\<in>set us. upd_layer u < length ?ls + k" "length ?ls \<le> MAX_STORAGE_COUNT \<longrightarrow> length ?ls + k \<le> MAX_STORAGE_COUNT"
    using Cons.IH [of ?bl ?ls] Cons.prems by auto
  have "bl' ! i = bl ! i @ layer_updates i (u # us)" if "i < MAX_STORAGE_COUNT" for i
    using k(3) that Cons.prems(2) by (cases "i = upd_layer u") (auto simp: layer_updates_def)
  moreover have "?ls @ replicate k (uniform air) = ls @ replicate (?j + k) (uniform air)"
    by (simp add: replicate_add)
  moreover have "\<forall>v\<in>set (u # us). upd_layer v < length ls + (?j + k)" using k(4) by auto
  moreover have "length ls \<le> MAX_STORAGE_COUNT \<longrightarrow> length ls + (?j + k) \<le> MAX_STORAGE_COUNT" using k(5) u by auto
  ultimately show ?case using step k(1,2) by (intro exI [of _ "?j + k"] exI [of _ bl']) simp
qed

subsection \<open>Committing the layers\<close>

lemma update_layer_correct:
  assumes wf: "storage_wf s" and us: "\<forall>(l, v)\<in>set us. l < BLOCKS_PER_SUB_CHUNK"
  shows "\<exists>c s'. update_layer s us = Some (c, s') \<and> storage_wf s' \<and>
    (\<forall>l<BLOCKS_PER_SUB_CHUNK. cell_value s' l = overridden us l (cell_value s l)) \<and>
    c = (\<exists>l<BLOCKS_PER_SUB_CHUNK. cell_value s' l \<noteq> cell_value s l)"
proof -
  consider "us = []" | linear rid where "us = [(linear, rid)]" | a b rest where "us = a # b # rest"
    by (metis neq_Nil_conv surj_pair)
  then show ?thesis
  proof cases
    case 1
    then show ?thesis using wf by (simp add: update_layer_def overridden_def exI [of _ False])
  next
    case (2 linear rid)
    have l: "linear < BLOCKS_PER_SUB_CHUNK" using us 2 by simp
    obtain s1 where s1: "apply_runtime_update s linear rid = Some (cell_value s linear \<noteq> Some rid, s1)" "storage_wf s1"
      "\<forall>l'<BLOCKS_PER_SUB_CHUNK. cell_value s1 l' = (if l' = linear then Some rid else cell_value s l')"
      using apply_runtime_update_eq_batch [OF wf l, of rid] by blast
    have "(cell_value s linear \<noteq> Some rid) = (\<exists>l<BLOCKS_PER_SUB_CHUNK. cell_value s1 l \<noteq> cell_value s l)"
    proof
      assume "cell_value s linear \<noteq> Some rid"
      then have "cell_value s1 linear \<noteq> cell_value s linear" using s1(3) l by simp
      then show "\<exists>l<BLOCKS_PER_SUB_CHUNK. cell_value s1 l \<noteq> cell_value s l" using l by blast
    next
      assume "\<exists>l<BLOCKS_PER_SUB_CHUNK. cell_value s1 l \<noteq> cell_value s l"
      then obtain j where j: "j < BLOCKS_PER_SUB_CHUNK" "cell_value s1 j \<noteq> cell_value s j" by blast
      then show "cell_value s linear \<noteq> Some rid" using s1(3) by (cases "j = linear") simp_all
    qed
    moreover have "cell_value s1 l' = overridden us l' (cell_value s l')" if "l' < BLOCKS_PER_SUB_CHUNK" for l'
      using s1(3) that by (simp add: overridden_def 2)
    ultimately show ?thesis using s1 2 by (simp add: update_layer_def)
  next
    case (3 a b rest)
    have "update_layer s us = apply_runtime_updates s us" by (simp add: update_layer_def 3)
    then show ?thesis using batch_edit_total [OF wf us] by (auto simp: overridden_def)
  qed
qed

lemma commit_layer_skip: "commit_layer (i, []) st = Some st"
  by (cases st) (simp add: commit_layer_def)

lemma commit_layer_change:
  "us \<noteq> [] \<Longrightarrow> i < length ls \<Longrightarrow> update_layer (ls ! i) us = Some (d, s) \<Longrightarrow>
    commit_layer (i, us) (c, ls) = Some (c \<or> d, ls[i := s])"
  by (simp add: commit_layer_def)

lemma commit_layers:
  assumes wf: "list_all storage_wf ls"
    and us: "\<And>i. i < n \<Longrightarrow> bl ! i \<noteq> [] \<Longrightarrow> i < length ls"
    and range: "\<And>i. i < n \<Longrightarrow> \<forall>(l, v)\<in>set (bl ! i). l < BLOCKS_PER_SUB_CHUNK"
  shows "\<exists>c ls'. try_fold commit_layer (map (\<lambda>i. (i, bl ! i)) [0..<n]) (False, ls) = Some (c, ls') \<and>
    length ls' = length ls \<and> list_all storage_wf ls' \<and>
    (\<forall>i<length ls. \<forall>l<BLOCKS_PER_SUB_CHUNK.
       cell_value (ls' ! i) l = (if i < n then overridden (bl ! i) l (cell_value (ls ! i) l) else cell_value (ls ! i) l)) \<and>
    c = (\<exists>i<length ls. \<exists>l<BLOCKS_PER_SUB_CHUNK. cell_value (ls' ! i) l \<noteq> cell_value (ls ! i) l)"
  using us range
proof (induction n)
  case 0
  then show ?case using wf by (simp add: exI [of _ False])
next
  case (Suc n)
  obtain c ls1 where ls1: "try_fold commit_layer (map (\<lambda>i. (i, bl ! i)) [0..<n]) (False, ls) = Some (c, ls1)"
    "length ls1 = length ls" "list_all storage_wf ls1"
    "\<forall>i<length ls. \<forall>l<BLOCKS_PER_SUB_CHUNK.
       cell_value (ls1 ! i) l = (if i < n then overridden (bl ! i) l (cell_value (ls ! i) l) else cell_value (ls ! i) l)"
    "c = (\<exists>i<length ls. \<exists>l<BLOCKS_PER_SUB_CHUNK. cell_value (ls1 ! i) l \<noteq> cell_value (ls ! i) l)"
  proof -
    have "\<And>i. i < n \<Longrightarrow> bl ! i \<noteq> [] \<Longrightarrow> i < length ls"
      and "\<And>i. i < n \<Longrightarrow> \<forall>(l, v)\<in>set (bl ! i). l < BLOCKS_PER_SUB_CHUNK"
      using Suc.prems less_SucI by blast+
    from Suc.IH [OF this] show ?thesis using that by blast
  qed
  show ?case
  proof (cases "bl ! n = []")
    case True
    have "cell_value (ls1 ! i) l = (if i < Suc n then overridden (bl ! i) l (cell_value (ls ! i) l) else cell_value (ls ! i) l)"
      if "i < length ls" "l < BLOCKS_PER_SUB_CHUNK" for i l
      using ls1(4) that True by (cases "i = n") (auto simp: overridden_def)
    then show ?thesis using ls1 True
      by (intro exI [of _ c] exI [of _ ls1]) (simp add: try_fold_append commit_layer_skip)
  next
    case False
    have n: "n < length ls" using Suc.prems(1) False by blast
    have "storage_wf (ls1 ! n)" using ls1(2,3) n by (simp add: list_all_length)
    then obtain d s' where s': "update_layer (ls1 ! n) (bl ! n) = Some (d, s')" "storage_wf s'"
      "\<forall>l<BLOCKS_PER_SUB_CHUNK. cell_value s' l = overridden (bl ! n) l (cell_value (ls1 ! n) l)"
      "d = (\<exists>l<BLOCKS_PER_SUB_CHUNK. cell_value s' l \<noteq> cell_value (ls1 ! n) l)"
      using update_layer_correct Suc.prems(2) by blast
    let ?ls = "ls1[n := s']"
    have same: "cell_value (ls1 ! n) l = cell_value (ls ! n) l" if "l < BLOCKS_PER_SUB_CHUNK" for l
      using ls1(4) n that by auto
    have cells: "cell_value (?ls ! i) l = (if i < Suc n then overridden (bl ! i) l (cell_value (ls ! i) l) else cell_value (ls ! i) l)"
      if "i < length ls" "l < BLOCKS_PER_SUB_CHUNK" for i l
      using ls1(2,4) s'(3) same that by (cases "i = n") auto
    have flag: "(c \<or> d) = (\<exists>i<length ls. \<exists>l<BLOCKS_PER_SUB_CHUNK. cell_value (?ls ! i) l \<noteq> cell_value (ls ! i) l)"
    proof -
      have "(\<exists>i<length ls. \<exists>l<BLOCKS_PER_SUB_CHUNK. cell_value (?ls ! i) l \<noteq> cell_value (ls ! i) l) \<longleftrightarrow>
        (\<exists>i<length ls. i \<noteq> n \<and> (\<exists>l<BLOCKS_PER_SUB_CHUNK. cell_value (ls1 ! i) l \<noteq> cell_value (ls ! i) l)) \<or>
        (\<exists>l<BLOCKS_PER_SUB_CHUNK. cell_value s' l \<noteq> cell_value (ls ! n) l)"
        using n ls1(2) by (metis nth_list_update_eq nth_list_update_neq)
      moreover have "c \<longleftrightarrow> (\<exists>i<length ls. i \<noteq> n \<and> (\<exists>l<BLOCKS_PER_SUB_CHUNK. cell_value (ls1 ! i) l \<noteq> cell_value (ls ! i) l))"
        unfolding ls1(5) using same by metis
      moreover have "d \<longleftrightarrow> (\<exists>l<BLOCKS_PER_SUB_CHUNK. cell_value s' l \<noteq> cell_value (ls ! n) l)"
        unfolding s'(4) using same by auto
      ultimately show ?thesis by blast
    qed
    have "list_all storage_wf ?ls" using ls1(3) s'(2) n ls1(2) by (auto simp: list_all_length nth_list_update)
    moreover have "try_fold commit_layer (map (\<lambda>i. (i, bl ! i)) [0..<Suc n]) (False, ls) = Some (c \<or> d, ?ls)"
      using ls1(1,2) n False s'(1) by (simp add: try_fold_append commit_layer_change)
    ultimately show ?thesis using cells flag ls1(2)
      by (intro exI [of _ "c \<or> d"] exI [of _ ?ls]) simp
  qed
qed

subsection \<open>Trailing air\<close>

lemma drop_air_layers_split:
  "\<exists>tail. ls = drop_air_layers air ls @ tail \<and> list_all (\<lambda>s. contains_only s air) tail"
proof -
  have "ls = rev (dropWhile (\<lambda>s. contains_only s air) (rev ls)) @ rev (takeWhile (\<lambda>s. contains_only s air) (rev ls))"
    by (metis rev_append rev_rev_ident takeWhile_dropWhile_id)
  then show ?thesis unfolding drop_air_layers_def list_all_iff by (metis set_rev set_takeWhileD)
qed

lemma drop_air_layers_last: "drop_air_layers air ls = [] \<or> \<not> contains_only (last (drop_air_layers air ls)) air"
  unfolding drop_air_layers_def
  by (metis (no_types, lifting) hd_dropWhile last_rev rev_is_Nil_conv)

lemma drop_air_layers_view:
  assumes wf: "list_all storage_wf ls" and l: "l < BLOCKS_PER_SUB_CHUNK"
  shows "view_cell air (drop_air_layers air ls) layer l = view_cell air ls layer l"
proof -
  obtain tail where tail: "ls = drop_air_layers air ls @ tail" "list_all (\<lambda>s. contains_only s air) tail"
    using drop_air_layers_split by blast
  let ?ds = "drop_air_layers air ls"
  have "cell_value (ls ! layer) l = Some air" if "\<not> layer < length ?ds" "layer < length ls"
  proof -
    have "layer - length ?ds < length tail" using that arg_cong [OF tail(1), of length] by simp
    then have "tail ! (layer - length ?ds) \<in> set tail" by simp
    moreover have "ls ! layer = tail ! (layer - length ?ds)" using that tail(1) by (metis nth_append)
    ultimately have "contains_only (ls ! layer) air" using tail(2) by (simp add: list_all_iff)
    moreover have "ls ! layer \<in> set ls" using that(2) by (rule nth_mem)
    ultimately show ?thesis using contains_only_correct [of "ls ! layer" air] wf l by (simp add: list_all_iff)
  qed
  moreover have "ls ! layer = ?ds ! layer" if "layer < length ?ds" using that tail(1) by (metis nth_append)
  moreover have "length ?ds \<le> length ls" using arg_cong [OF tail(1), of length] by simp
  ultimately show ?thesis by (auto simp: view_cell_def)
qed

lemma drop_air_layers_length: "length (drop_air_layers air ls) \<le> length ls" "set (drop_air_layers air ls) \<subseteq> set ls"
proof -
  obtain tail where "ls = drop_air_layers air ls @ tail" using drop_air_layers_split by blast
  then have "length ls = length (drop_air_layers air ls) + length tail" "set ls = set (drop_air_layers air ls) \<union> set tail"
    by (metis length_append, metis set_append)
  then show "length (drop_air_layers air ls) \<le> length ls" "set (drop_air_layers air ls) \<subseteq> set ls" by auto
qed

subsection \<open>The whole batch\<close>

lemma apply_block_updates_correct:
  assumes wf: "sub_chunk_wf s" and us: "list_all valid_update us"
  shows "\<exists>changed s'. apply_block_updates s us air = Some (changed, s') \<and> sub_chunk_wf s' \<and>
    version s' = version s \<and> y_index s' = y_index s \<and> inline_payload s' = None \<and>
    (\<forall>layer. \<forall>l<BLOCKS_PER_SUB_CHUNK. view_cell air (storages s') layer l =
       overridden (layer_updates layer us) l (view_cell air (storages s) layer l)) \<and>
    (storages s' = [] \<or> \<not> contains_only (last (storages s')) air) \<and>
    changed = (length (storages s') \<noteq> length (storages s) \<or>
       (\<exists>layer. \<exists>l<BLOCKS_PER_SUB_CHUNK. view_cell air (storages s') layer l \<noteq> view_cell air (storages s) layer l))"
proof -
  let ?old = "storages s"
  obtain k bl where st: "try_fold (stage_update air) us (?old, replicate MAX_STORAGE_COUNT []) =
      Some (?old @ replicate k (uniform air), bl)" "length bl = MAX_STORAGE_COUNT"
    "\<forall>i<MAX_STORAGE_COUNT. bl ! i = layer_updates i us" "\<forall>u\<in>set us. upd_layer u < length ?old + k"
    "length ?old + k \<le> MAX_STORAGE_COUNT"
    using stage_updates [OF us, of "replicate MAX_STORAGE_COUNT []" air ?old] wf by (auto simp: sub_chunk_wf_def)
  let ?ls = "?old @ replicate k (uniform air)"
  have ls_wf: "list_all storage_wf ?ls" using wf by (auto simp: sub_chunk_wf_def list_all_iff uniform_wf)
  have enum: "enumerate 0 bl = map (\<lambda>i. (i, bl ! i)) [0..<MAX_STORAGE_COUNT]"
    using st(2) by (intro nth_equalityI) (simp_all add: nth_enumerate_eq)
  have "i < length ?ls" if "i < MAX_STORAGE_COUNT" "bl ! i \<noteq> []" for i
  proof -
    have "layer_updates i us \<noteq> []" using that st(3) by simp
    then obtain u where "u \<in> set us" "upd_layer u = i" by (auto simp: layer_updates_def filter_empty_conv)
    then show ?thesis using st(4) by auto
  qed
  moreover have "\<forall>(l, v)\<in>set (bl ! i). l < BLOCKS_PER_SUB_CHUNK" if "i < MAX_STORAGE_COUNT" for i
    using layer_updates_bound [OF us] st(3) that by simp
  ultimately obtain c ls' where c: "try_fold commit_layer (enumerate 0 bl) (False, ?ls) = Some (c, ls')"
    "length ls' = length ?ls" "list_all storage_wf ls'"
    "\<forall>i<length ?ls. \<forall>l<BLOCKS_PER_SUB_CHUNK. cell_value (ls' ! i) l =
       (if i < MAX_STORAGE_COUNT then overridden (bl ! i) l (cell_value (?ls ! i) l) else cell_value (?ls ! i) l)"
    "c = (\<exists>i<length ?ls. \<exists>l<BLOCKS_PER_SUB_CHUNK. cell_value (ls' ! i) l \<noteq> cell_value (?ls ! i) l)"
    using commit_layers [OF ls_wf, of MAX_STORAGE_COUNT bl] unfolding enum by blast
  let ?new = "drop_air_layers air ls'"
  have applied: "apply_block_updates s us air =
      Some (c \<or> length ?new \<noteq> length ?old, s\<lparr>storages := ?new, inline_payload := None\<rparr>)"
    using st(1) c(1) by (simp add: apply_block_updates_def Let_def)
  have old_view: "view_cell air ?ls layer l = view_cell air ?old layer l" if "l < BLOCKS_PER_SUB_CHUNK" for layer l
    using uniform_cell [OF that] by (auto simp: view_cell_def nth_append)
  have ls'_view: "view_cell air ls' layer l = overridden (layer_updates layer us) l (view_cell air ?old layer l)"
    if l: "l < BLOCKS_PER_SUB_CHUNK" for layer l
  proof (cases "layer < length ?ls")
    case True
    then have "layer < MAX_STORAGE_COUNT" using st(5) by simp
    then show ?thesis using c(2,4) True l st(3) old_view [OF l, of layer] by (simp add: view_cell_def)
  next
    case False
    then have "layer_updates layer us = []" using st(4) by (auto simp: layer_updates_def filter_empty_conv)
    then show ?thesis using False c(2) old_view [OF l, of layer] by (simp add: view_cell_def overridden_def)
  qed
  have view: "view_cell air ?new layer l = overridden (layer_updates layer us) l (view_cell air ?old layer l)"
    if "l < BLOCKS_PER_SUB_CHUNK" for layer l
    using drop_air_layers_view [OF c(3) that] ls'_view [OF that] by simp
  have "c \<longleftrightarrow> (\<exists>layer. \<exists>l<BLOCKS_PER_SUB_CHUNK. view_cell air ?new layer l \<noteq> view_cell air ?old layer l)"
  proof -
    have "view_cell air ?new layer l = (if layer < length ?ls then cell_value (ls' ! layer) l else Some air)"
      "view_cell air ?old layer l = (if layer < length ?ls then cell_value (?ls ! layer) l else Some air)"
      if "l < BLOCKS_PER_SUB_CHUNK" for layer l
      using drop_air_layers_view [OF c(3) that, of air layer] old_view [OF that, of layer] c(2)
      by (simp_all only: view_cell_def [of air ls'] view_cell_def [of air ?ls])
    then show ?thesis unfolding c(5) by (metis (no_types, lifting))
  qed
  moreover have "sub_chunk_wf (s\<lparr>storages := ?new, inline_payload := None\<rparr>)"
    using c(2,3) drop_air_layers_length [of air ls'] st(5) by (auto simp: sub_chunk_wf_def list_all_iff)
  ultimately show ?thesis using applied view drop_air_layers_last
    by (intro exI [of _ "c \<or> length ?new \<noteq> length ?old"] exI [of _ "s\<lparr>storages := ?new, inline_payload := None\<rparr>"])
      (simp; blast)
qed

end
