(* ===== verification/Sub_Chunk_Spec.thy ===== *)
theory Sub_Chunk_Spec
  imports Sub_Chunk_Updates
begin

section \<open>Properties of sub-chunks\<close>

subsection \<open>Registry contexts\<close>

text \<open>
  What \<^verbatim>\<open>BlockIds\<close> promises of its cache contexts: a decoder that matches the context another one handed out
  resolves every id as that one did.  Decoding depends on the decoder only through those answers.
\<close>

definition same_resolution :: "'c block_ids \<Rightarrow> 'c block_ids \<Rightarrow> bool" where
  "same_resolution a b \<longleftrightarrow>
     air_id a = air_id b \<and> resolve a = resolve b \<and> resolve_persistent a = resolve_persistent b"

lemma read_sub_chunk_resolution:
  assumes "same_resolution a b" shows "read_sub_chunk sha a = read_sub_chunk sha b"
proof -
  have eqs: "air_id a = air_id b" "resolve a = resolve b" "resolve_persistent a = resolve_persistent b"
    using assms unfolding same_resolution_def by blast+
  have "runtime_entry a = runtime_entry b" unfolding runtime_entry_def [abs_def] by (simp only: eqs)
  moreover have "persistent_entry sha a = persistent_entry sha b"
    unfolding persistent_entry_def [abs_def] by (simp only: eqs)
  ultimately have "read_block_storage sha a = read_block_storage sha b"
    unfolding read_block_storage_def [abs_def] by (simp only: eqs)
  then show ?thesis unfolding read_sub_chunk_def [abs_def] by (simp only: eqs)
qed

text \<open>What a payload cache remembers: a complete decode of these bytes by that decoder.\<close>

definition remembers :: "(bytes \<Rightarrow> bytes) \<Rightarrow> 'c block_ids \<Rightarrow> bytes \<Rightarrow> 'c sub_chunk \<Rightarrow> bool" where
  "remembers sha ids bs s \<longleftrightarrow>
     (\<exists>p. inline_payload s = Some p \<and> pl_length p = length bs \<and> pl_hash p = sha bs \<and> pl_y_index p = y_index s \<and>
        inline_cache_context ids = Some (pl_context p) \<and>
        (\<forall>r. inside r \<longrightarrow> length bs \<le> length (remaining r) \<longrightarrow> take (length bs) (remaining r) = bs \<longrightarrow>
           read_sub_chunk sha ids r = (Some (s\<lparr>inline_payload := None\<rparr>), forward (length bs) r)))"

lemma read_inline_remembers:
  assumes r: "inside r" and s: "read_inline sha ids (inline_cache_context ids) r = (Some s, r')"
    and cached: "inline_payload s \<noteq> None"
  shows "\<exists>bs. remembers sha ids bs s \<and> bs = take (offset r' - offset r) (remaining r)"
proof -
  obtain t where t: "read_sub_chunk sha ids r = (Some t, r')" and none: "inline_payload t = None"
    using s read_sub_chunk_total [of sha ids r] by (auto simp: read_inline_def Let_def case_prod_unfold prod_eq_iff)
  let ?n = "offset r' - offset r"
  have ok: "\<not> failed_read r'" "\<not> has_no_storages t"
    using s t cached none by (auto simp: read_inline_def Let_def split: if_splits)
  obtain c where c: "inline_cache_context ids = Some c"
    using s t cached none by (cases "inline_cache_context ids") (auto simp: read_inline_def Let_def split: if_splits)
  have s_eq: "s = t\<lparr>inline_payload := Some \<lparr>pl_length = ?n, pl_hash = sha (take ?n (remaining r)),
      pl_y_index = y_index t, pl_context = c\<rparr>\<rparr>"
    using s t ok c by (simp add: read_inline_def Let_def)
  have "fst (read_sub_chunk sha ids r) = Some t" "snd (read_sub_chunk sha ids r) = r'" using t by simp_all
  then obtain n failed where n: "n \<le> length (remaining r)" "r' = (forward n r)\<lparr>failed_read := failed\<rparr>"
    "\<And>u. \<not> failed \<Longrightarrow> same_upto n r u \<Longrightarrow> read_sub_chunk sha ids u = (Some t, forward n u)"
    using steady_atD [OF steady_sub_chunk r, of sha ids] by metis
  have n_eq: "?n = n" using n(2) by simp
  let ?bs = "take n (remaining r)"
  have len: "length ?bs = n" using n(1) by simp
  have "read_sub_chunk sha ids u = (Some (s\<lparr>inline_payload := None\<rparr>), forward (length ?bs) u)"
    if "inside u" "length ?bs \<le> length (remaining u)" "take (length ?bs) (remaining u) = ?bs" for u
  proof -
    have "same_upto n r u" using that unfolding len by (simp add: same_upto_def)
    moreover have "s\<lparr>inline_payload := None\<rparr> = t" using none by (simp add: s_eq)
    ultimately show ?thesis using n(3) n(2) ok(1) len by simp
  qed
  then have "remembers sha ids ?bs s" unfolding remembers_def using c len s_eq n_eq by auto
  then show ?thesis using n_eq by blast
qed

locale inline_contexts =
  fixes ids_of :: "'i \<Rightarrow> 'c block_ids"
  assumes matching: "inline_cache_context (ids_of i) = Some c \<Longrightarrow> inline_cache_context_matches (ids_of j) c \<Longrightarrow>
    same_resolution (ids_of i) (ids_of j)"
begin

lemma reuse_sound:
  assumes s: "remembers sha (ids_of i) bs s" and r: "inside r"
    and reuse: "reuse_inline sha s r (ids_of j) y = (True, r')"
    and digest: "sha (take (length bs) (remaining r)) = sha bs \<Longrightarrow> take (length bs) (remaining r) = bs"
  shows "read_sub_chunk sha (ids_of j) r = (Some (s\<lparr>inline_payload := None\<rparr>), r') \<and>
    (\<forall>actual. y_index s = Some actual \<longrightarrow> actual = y)"
proof -
  obtain p where p: "inline_payload s = Some p" "pl_length p = length bs" "pl_hash p = sha bs" "pl_y_index p = y_index s"
    "inline_cache_context (ids_of i) = Some (pl_context p)"
    and again: "\<And>u. inside u \<Longrightarrow> length bs \<le> length (remaining u) \<Longrightarrow> take (length bs) (remaining u) = bs \<Longrightarrow>
      read_sub_chunk sha (ids_of i) u = (Some (s\<lparr>inline_payload := None\<rparr>), forward (length bs) u)"
    using s unfolding remembers_def by blast
  have checks: "case pl_y_index p of Some actual \<Rightarrow> actual = y | None \<Rightarrow> True"
    "inline_cache_context_matches (ids_of j) (pl_context p)" "length bs \<le> length (remaining r)"
    "sha (take (length bs) (remaining r)) = sha bs" "r' = snd (take_exact (length bs) r)"
    using reuse p(1-3) by (auto simp: reuse_inline_def split: if_splits option.splits)
  have "r' = forward (length bs) r" using checks(3,5) by (simp add: take_exact_def forward_def)
  moreover have "read_sub_chunk sha (ids_of j) = read_sub_chunk sha (ids_of i)"
    using read_sub_chunk_resolution [OF matching [OF p(5) checks(2)]] by simp
  ultimately show ?thesis using again [OF r checks(3) digest [OF checks(4)]] checks(1) p(4) by auto
qed

end

text \<open>
  The program's decoders keep that promise among each other: a context is matched only by the decoder policy
  that made it, down to every registry a session resolves through.
\<close>

interpretation decoders: inline_contexts "block_ids_of h" for h
proof unfold_locales
  fix i j c
  assume "inline_cache_context (block_ids_of h i) = Some c" "inline_cache_context_matches (block_ids_of h j) c"
  then show "same_resolution (block_ids_of h i) (block_ids_of h j)"
    by (cases i; cases j) (auto simp: block_ids_of_def raw_block_ids_def session_block_ids_def same_resolution_def
      dest: same_identity_resolves)
qed

subsection \<open>Properties\<close>

text \<open>
  C23. Decoding a sub-chunk never panics and never reads past its payload, whatever the bytes: the result
  has at most two layers, each a well-formed storage, so every later operation on it is total; and
  a decode that met no failed read depends only on the bytes it consumed.
\<close>

theorem sub_chunk_decode_total:
  "\<exists>s n. decode_sub_chunk_prefix sha ids bs = (Some s, n) \<and> n \<le> length bs \<and> sub_chunk_wf s \<and>
     length (storages s) \<le> 2 \<and>
     (failed_read (snd (read_sub_chunk sha ids (new_reader bs))) \<or>
        decode_sub_chunk_prefix sha ids (take n bs @ ys) = (Some s, n))"
proof -
  obtain s where s: "fst (read_sub_chunk sha ids (new_reader bs)) = Some s" "sub_chunk_wf s"
    "length (storages s) \<le> MAX_WIRE_STORAGES"
    using read_sub_chunk_total [of sha ids "new_reader bs"] by blast
  obtain n failed where n: "n \<le> length bs"
    "snd (read_sub_chunk sha ids (new_reader bs)) = (forward n (new_reader bs))\<lparr>failed_read := failed\<rparr>"
    "\<And>u. \<not> failed \<Longrightarrow> same_upto n (new_reader bs) u \<Longrightarrow> read_sub_chunk sha ids u = (Some s, forward n u)"
    using steady_atD [OF steady_sub_chunk [of sha ids] inside_new [of bs]] s(1) by (metis new_reader_simps(4))
  have "decode_sub_chunk_prefix sha ids bs = (Some s, n)"
    using s(1) n(2) by (simp add: decode_sub_chunk_prefix_def case_prod_unfold prod_eq_iff)
  moreover have "decode_sub_chunk_prefix sha ids (take n bs @ ys) = (Some s, n)" if "\<not> failed"
  proof -
    have "same_upto n (new_reader bs) (new_reader (take n bs @ ys))" using n(1) by (simp add: same_upto_def)
    then show ?thesis using n(3) that by (simp add: decode_sub_chunk_prefix_def)
  qed
  ultimately show ?thesis using s(2,3) n(1,2) by (auto simp: MAX_WIRE_STORAGES_def)
qed

text \<open>
  C19. A batch of valid block updates on a well-formed sub-chunk never panics and does to the client's view
  exactly what it says: each cell of each layer holds the last value the batch gave it, or what it held
  before (air where there was no layer).  No all-air layer is left on top, the payload cache is
  cleared, and a change is reported exactly when a cell or the number of layers changed.
\<close>

theorem block_updates_exact:
  assumes "sub_chunk_wf s" "list_all valid_update us"
  shows "\<exists>changed s'. apply_block_updates s us air = Some (changed, s') \<and> sub_chunk_wf s' \<and>
    version s' = version s \<and> y_index s' = y_index s \<and> inline_payload s' = None \<and>
    (\<forall>layer. \<forall>l<BLOCKS_PER_SUB_CHUNK. view_cell air (storages s') layer l =
       overridden (layer_updates layer us) l (view_cell air (storages s) layer l)) \<and>
    (storages s' = [] \<or> \<not> contains_only (last (storages s')) air) \<and>
    changed = (length (storages s') \<noteq> length (storages s) \<or>
       (\<exists>layer. \<exists>l<BLOCKS_PER_SUB_CHUNK. view_cell air (storages s') layer l \<noteq> view_cell air (storages s) layer l))"
  by (rule apply_block_updates_correct [OF assms])

theorem block_updates_exact_witness:
  "\<exists>changed s'. apply_block_updates (for_block_updates 4 :: cache_context sub_chunk) [new_update 1 2 3 1 9] 0 = Some (changed, s') \<and>
     view_cell 0 (storages s') 1 (linear_index 1 2 3) = Some 9 \<and> view_cell 0 (storages s') 0 5 = Some 0"
proof -
  let ?s = "for_block_updates 4 :: cache_context sub_chunk" and ?us = "[new_update 1 2 3 1 9]"
  have wf: "sub_chunk_wf ?s" "list_all valid_update ?us"
    by (simp_all add: sub_chunk_wf_def for_block_updates_def valid_update_def new_update_def)
  obtain changed s' where "apply_block_updates ?s ?us 0 = Some (changed, s')"
    and view: "\<forall>layer. \<forall>l<BLOCKS_PER_SUB_CHUNK. view_cell 0 (storages s') layer l =
       overridden (layer_updates layer ?us) l (view_cell 0 (storages ?s) layer l)"
    using block_updates_exact [OF wf, of 0] by blast
  moreover have "linear_index 1 2 3 < BLOCKS_PER_SUB_CHUNK" by (simp add: linear_index_bound)
  then have "view_cell 0 (storages s') 1 (linear_index 1 2 3) = Some 9"
    using view by (simp add: layer_updates_def new_update_def update_cell_def overridden_def)
  moreover have "view_cell 0 (storages s') 0 5 = Some 0"
    using view [rule_format, of 5 0]
    by (simp add: layer_updates_def new_update_def overridden_def view_cell_def for_block_updates_def bounds_simps)
  ultimately show ?thesis by blast
qed

text \<open>
  C22. Reusing a resident sub-chunk is sound, whichever decoders of the program are involved: raw ones or those of
  two decode jobs.  When \<^verbatim>\<open>reuse_inline\<close> accepts a sub-chunk for a slot, decoding the payload afresh with
  the present decoder would have given the same version, Y and layers and left the reader at the same byte, and
  an embedded Y is the slot's.  The hypotheses: the resident came from a cached \<^verbatim>\<open>read_inline\<close> of any decoder,
  and SHA-256 does not collide on the two payloads compared.
\<close>

theorem inline_reuse_sound:
  assumes "inside r0" "read_inline sha (block_ids_of h i) (inline_cache_context (block_ids_of h i)) r0 = (Some s, r1)"
    and "inline_payload s \<noteq> None" "inside r" "reuse_inline sha s r (block_ids_of h j) y = (True, r')"
    and "let n = offset r1 - offset r0 in
      sha (take n (remaining r)) = sha (take n (remaining r0)) \<longrightarrow> take n (remaining r) = take n (remaining r0)"
  shows "read_sub_chunk sha (block_ids_of h j) r = (Some (s\<lparr>inline_payload := None\<rparr>), r') \<and>
    (\<forall>actual. y_index s = Some actual \<longrightarrow> actual = y)"
proof -
  obtain bs where bs: "remembers sha (block_ids_of h i) bs s" "bs = take (offset r1 - offset r0) (remaining r0)"
    using read_inline_remembers [OF assms(1,2,3)] by blast
  obtain t where "read_sub_chunk sha (block_ids_of h i) r0 = (Some t, r1)"
    using assms(2) by (auto simp: read_inline_def Let_def case_prod_unfold prod_eq_iff)
  then have "inside r1" "offset r0 \<le> offset r1" "stream r1 = stream r0"
    using steady_inside [OF steady_sub_chunk assms(1)] steady_offset [OF steady_sub_chunk assms(1)] by (metis snd_conv)+
  then have "length bs = offset r1 - offset r0" using bs(2) by (simp add: inside_def)
  then show ?thesis using decoders.reuse_sound [OF bs(1) assms(4,5)] assms(6) bs(2) by (simp add: Let_def)
qed

subsection \<open>A sample\<close>

text \<open>A section of block 7 at height 4, a session that knows it, and a digest of 32 bytes.\<close>

definition sample_section :: bytes where
  "sample_section = [9, 1, 4, 1, 14]"

definition sample_digest :: "bytes \<Rightarrow> bytes" where
  "sample_digest bs = replicate 31 0 @ [sum_list bs]"

definition sample_heap :: registry_heap where
  "sample_heap = \<lparr>heap_assets = (\<lambda>_. \<lparr>ra_diagnostic = True, ra_visual_count = 0, ra_hashed = Map.empty\<rparr>),
     heap_identities = (\<lambda>_. Map.empty), heap_remaps = (\<lambda>_. default_remap), pinned_sequential_id = Map.empty\<rparr>"

definition sample_session :: decode_ids where
  "sample_session = \<lparr>ids_assets = 1, ids_custom_blocks = (0, 0), ids_custom_identities = 2, ids_remap = 3, ids_diagnostics = 4,
     ids_session_id = 5, ids_mode = Sequential_Ids, ids_air = 0, ids_biome_tints = 6, ids_default_biome = 0\<rparr>"

lemma sample_session_resolves: "resolve (block_ids_of sample_heap (Session_Decoder sample_session)) 7 = 7"
  by (simp add: block_ids_of_def session_block_ids_def resolve_network_def sample_session_def sample_heap_def assets_known_def
      to_internal_def default_remap_def palette_internal_def)

lemma sample_section_read:
  assumes "resolve ids 7 = 7"
  shows "read_sub_chunk sha ids (new_reader (sample_section @ ys)) =
    (Some \<lparr>version = 9, y_index = Some 4, storages = [uniform 7], inline_payload = None\<rparr>,
     (new_reader (sample_section @ ys))\<lparr>offset := 5\<rparr>)"
proof -
  let ?at = "\<lambda>n. \<lparr>stream = sample_section @ ys, offset = n, failed_read = False\<rparr>"
  have u8: "take_u8 (?at 0) = (9, ?at (Suc 0))" "take_u8 (?at (Suc 0)) = (1, ?at 2)" "take_u8 (?at 2) = (4, ?at 3)"
    "take_u8 (?at 3) = (1, ?at 4)" "take_u8 (?at 4) = (14, ?at 5)"
    by (simp_all add: take_u8_def sample_section_def)
  have "\<not> is_at_end (?at 4)" by (simp add: is_at_end_def sample_section_def)
  then have var: "take_var_i32 (?at 4) = (7, ?at 5)"
    by (simp add: take_var_i32_def upt_rec [of 0 "5"] u8 unzigzag_def)
  have "runtime_entry ids (?at 4) = (7, ?at 5)"
    using assms by (simp add: runtime_entry_def var)
  then have "read_block_storage sha ids (?at 3) = (Some (uniform 7), ?at 5)"
    by (simp add: read_block_storage_def u8)
  then have "read_layers (Suc 0) (read_block_storage sha ids) (?at 3) = (Some [uniform 7], ?at 5)"
    by simp
  then show ?thesis
    by (simp add: read_sub_chunk_def new_reader_def u8 legacy_version_def MAX_WIRE_STORAGES_def)
qed

definition sample_resident :: "cache_context sub_chunk" where
  "sample_resident = \<lparr>version = 9, y_index = Some 4, storages = [uniform 7],
     inline_payload = Some \<lparr>pl_length = 5, pl_hash = sample_digest sample_section, pl_y_index = Some 4,
       pl_context = Registry_Context (registry_identity sample_session)\<rparr>\<rparr>"

abbreviation "sample_ids \<equiv> block_ids_of sample_heap (Session_Decoder sample_session)"

lemma sample_section_inline:
  "read_inline sample_digest sample_ids (inline_cache_context sample_ids) (new_reader sample_section) =
    (Some sample_resident, (new_reader sample_section)\<lparr>offset := 5\<rparr>)"
proof -
  have "take 5 sample_section = sample_section" by (simp add: sample_section_def)
  moreover have "inline_cache_context sample_ids = Some (Registry_Context (registry_identity sample_session))"
    by (simp add: block_ids_of_def session_block_ids_def)
  ultimately show ?thesis using sample_section_read [OF sample_session_resolves, of sample_digest "[]"]
    by (simp add: read_inline_def has_no_storages_def sample_resident_def)
qed

theorem inline_reuse_sound_witness:
  "\<exists>r'. reuse_inline sample_digest sample_resident (new_reader (sample_section @ [8])) sample_ids 4 = (True, r') \<and>
     read_sub_chunk sample_digest sample_ids (new_reader (sample_section @ [8])) =
       (Some (sample_resident\<lparr>inline_payload := None\<rparr>), r')"
proof -
  let ?second = "new_reader (sample_section @ [8])"
  have len: "take 5 sample_section = sample_section" "length sample_section = 5" by (simp_all add: sample_section_def)
  have reuse: "reuse_inline sample_digest sample_resident ?second sample_ids 4 = (True, snd (take_exact 5 ?second))"
    using len by (simp add: reuse_inline_def block_ids_of_def session_block_ids_def sample_resident_def)
  have "inline_payload sample_resident \<noteq> None" by (simp add: sample_resident_def)
  then have "read_sub_chunk sample_digest sample_ids ?second =
      (Some (sample_resident\<lparr>inline_payload := None\<rparr>), snd (take_exact 5 ?second))"
    using inline_reuse_sound [OF inside_new sample_section_inline _ inside_new reuse] len by simp
  then show ?thesis using reuse by blast
qed

end
