(* ===== verification/Section_Blocks.thy ===== *)
theory Section_Blocks
  imports Sub_Chunk_Spec
begin

section \<open>The blocks of a section\<close>

text \<open>
  Two storages may pack the same blocks differently.  What the rest of the client can tell apart is
  the value of every cell: \<open>same_blocks\<close> is that view, and \<^verbatim>\<open>blocks_match\<close> and \<^verbatim>\<open>PartialEq\<close> are related to it.
\<close>

definition same_cells :: "paletted_storage \<Rightarrow> paletted_storage \<Rightarrow> bool" where
  "same_cells s t \<longleftrightarrow> (\<forall>l<BLOCKS_PER_SUB_CHUNK. cell_value s l = cell_value t l)"

definition same_blocks :: "'c sub_chunk \<Rightarrow> 'c sub_chunk \<Rightarrow> bool" where
  "same_blocks s t \<longleftrightarrow> list_all2 same_cells (storages s) (storages t)"

lemma same_cells_refl [simp]: "same_cells s s"
  by (simp add: same_cells_def)

lemma same_cells_sym: "same_cells s t \<Longrightarrow> same_cells t s"
  by (simp add: same_cells_def)

lemma same_cells_trans: "same_cells s t \<Longrightarrow> same_cells t u \<Longrightarrow> same_cells s u"
  by (simp add: same_cells_def)

lemma same_blocks_refl [simp]: "same_blocks s s"
  by (simp add: same_blocks_def list.rel_refl)

lemma same_blocks_sym: "same_blocks s t \<Longrightarrow> same_blocks t s"
  unfolding same_blocks_def list_all2_conv_all_nth by (auto intro: same_cells_sym)

lemma same_blocks_trans: "same_blocks s t \<Longrightarrow> same_blocks t u \<Longrightarrow> same_blocks s u"
  unfolding same_blocks_def by (rule list_all2_trans [OF same_cells_trans])

lemma same_blocks_payload [simp]:
  "same_blocks (s\<lparr>inline_payload := p\<rparr>) t = same_blocks s t" "same_blocks s (t\<lparr>inline_payload := p\<rparr>) = same_blocks s t"
  by (simp_all add: same_blocks_def)

lemma same_blocks_empty: "same_blocks s t \<Longrightarrow> has_no_storages s = has_no_storages t"
  by (auto simp: same_blocks_def has_no_storages_def)

text \<open>Equal packed representations show equal cells.\<close>

lemma observed_words_index:
  assumes wf: "storage_wf s" and l: "l < BLOCKS_PER_SUB_CHUNK"
  shows "\<exists>ws. observed_words s = Some ws \<and>
    palette_index s l = (if bits_per_index s = 0 then Some 0 else read_packed ws (bits_per_index s) l)"
proof (cases "edits s")
  case None
  then show ?thesis using l
    by (simp add: observed_words_def words_of_def palette_index_def physical_index_def bits_per_index_def
        split: option.split)
next
  case (Some e)
  then have "edited_wf s e" using wf by (simp add: storage_wf_def)
  from observed_words_shows [OF this Some] show ?thesis using l by (auto simp: shows_indices_def)
qed

lemma storage_eq_cells:
  assumes "storage_wf s" "storage_wf t" "storage_eq s t" shows "same_cells s t"
proof -
  have "cell_value s l = cell_value t l" if "l < BLOCKS_PER_SUB_CHUNK" for l
    using observed_words_index [OF assms(1) that] observed_words_index [OF assms(2) that] assms(3)
    by (auto simp: storage_eq_def cell_value_def)
  then show ?thesis by (simp add: same_cells_def)
qed

lemma every_cell:
  assumes "l < BLOCKS_PER_SUB_CHUNK"
  shows "\<exists>x<16. \<exists>y<16. \<exists>z<16. l = linear_index x y z"
proof -
  let ?x = "l div 256" and ?z = "l div 16 mod 16" and ?y = "l mod 16"
  have "?x < 16" "?y < 16" "?z < 16" using assms by (simp_all add: bounds_simps)
  moreover have "l = 16 * (l div 16) + l mod 16" "l div 16 = 16 * (l div 16 div 16) + l div 16 mod 16" by simp_all
  moreover have "l div 16 div 16 = l div 256" by (simp add: div_mult2_eq)
  ultimately have "l = linear_index ?x ?y ?z" using linear_index_eq [of ?y ?z ?x] by linarith
  then show ?thesis using \<open>?x < 16\<close> \<open>?y < 16\<close> \<open>?z < 16\<close> by blast
qed

lemma same_cells_coordinates:
  "same_cells s t \<longleftrightarrow> (\<forall>x<16. \<forall>y<16. \<forall>z<16. runtime_id s x y z = runtime_id t x y z)"
proof -
  have "runtime_id u x y z = cell_value u (linear_index x y z)" if "x < 16" "y < 16" "z < 16" for u x y z
    using that by (simp add: runtime_id_def cell_value_def)
  then have "(\<forall>x<16. \<forall>y<16. \<forall>z<16. runtime_id s x y z = runtime_id t x y z) \<longleftrightarrow>
      (\<forall>x<16. \<forall>y<16. \<forall>z<16. cell_value s (linear_index x y z) = cell_value t (linear_index x y z))" by simp
  also have "\<dots> \<longleftrightarrow> (\<forall>l<BLOCKS_PER_SUB_CHUNK. cell_value s l = cell_value t l)"
  proof safe
    fix l assume grid: "\<forall>x<16. \<forall>y<16. \<forall>z<16. cell_value s (linear_index x y z) = cell_value t (linear_index x y z)"
    assume "l < BLOCKS_PER_SUB_CHUNK"
    from every_cell [OF this] obtain x y z where "x < 16" "y < 16" "z < 16" "l = linear_index x y z" by blast
    then show "cell_value s l = cell_value t l" using grid by simp
  qed (simp add: linear_index_bound)
  finally show ?thesis unfolding same_cells_def by blast
qed

lemma blocks_match_iff:
  assumes "sub_chunk_wf a" "sub_chunk_wf b" shows "blocks_match a b \<longleftrightarrow> same_blocks a b"
proof -
  let ?grid = "\<lambda>s t. list_all (\<lambda>x. list_all (\<lambda>y. list_all (\<lambda>z.
      runtime_id s x y z = runtime_id t x y z) [0..<16]) [0..<16]) [0..<16]"
  have grid: "?grid s t = same_cells s t" for s t
    unfolding same_cells_coordinates list_all_iff by auto
  have "list_all (\<lambda>(s, t). ?grid s t) (zip (storages a) (storages b)) = list_all (\<lambda>(s, t). same_cells s t) (zip (storages a) (storages b))"
    unfolding grid ..
  then have "(length (storages a) = length (storages b) \<and>
      list_all (\<lambda>(s, t). ?grid s t) (zip (storages a) (storages b))) = same_blocks a b"
    by (simp add: same_blocks_def list_all2_iff list_all_iff)
  moreover have "list_all2 same_cells (storages a) (storages b)" if "list_all2 storage_eq (storages a) (storages b)"
    using that assms unfolding list_all2_conv_all_nth sub_chunk_wf_def list_all_length by (simp add: storage_eq_cells)
  ultimately show ?thesis unfolding blocks_match_def same_blocks_def by blast
qed

lemma sub_chunk_eq_blocks:
  assumes "sub_chunk_wf a" "sub_chunk_wf b" "sub_chunk_eq a b" shows "same_blocks a b"
proof -
  have "blocks_match a b" using assms(3) by (simp add: sub_chunk_eq_def blocks_match_def)
  then show ?thesis using blocks_match_iff [OF assms(1,2)] by simp
qed

lemma sub_chunk_eq_refl [simp]: "sub_chunk_eq s s"
  by (simp add: sub_chunk_eq_def list.rel_refl storage_eq_refl)

lemma blocks_match_refl [simp]: "blocks_match s s"
  by (simp add: blocks_match_def list.rel_refl storage_eq_refl)

lemma same_blocks_view:
  assumes "same_blocks s t" shows "\<forall>layer. \<forall>l<BLOCKS_PER_SUB_CHUNK. view_cell air (storages s) layer l = view_cell air (storages t) layer l"
  using assms unfolding same_blocks_def list_all2_conv_all_nth same_cells_def view_cell_def by auto

end
