(* ===== verification/Level_Chunk.thy ===== *)
theory Level_Chunk
  imports Biome Section_Blocks
begin

section \<open>Chunk columns on the wire\<close>

text \<open>
  \<^verbatim>\<open>crates/world/src/store/level_chunk.rs\<close> and \<^verbatim>\<open>DecodedSubChunk\<close> of \<^verbatim>\<open>block_entity.rs\<close>: decoding a whole column,
  its sub-chunks (reusing resident ones), biomes, border blocks and block entities.  \<open>None\<close> stands for
  a panic.
\<close>

definition SLOT_INDEX_MASK :: usize where "SLOT_INDEX_MASK = 0xFF"

record dimension_slots =
  slots_base_y :: i32
  slots_count :: usize

definition slot_y :: "dimension_slots \<Rightarrow> usize \<Rightarrow> i32" where
  "slot_y d slot = saturating_add_i32 (slots_base_y d) (if int slot \<le> 2147483647 then int slot else 2147483647)"

record inline_decode_work =
  decoded_sections :: usize
  reused_sections :: usize

definition no_work :: inline_decode_work where
  "no_work = \<lparr>decoded_sections = 0, reused_sections = 0\<rparr>"

type_synonym 'c sections = "(i32, 'c sub_chunk) btree_map"

record 'c decoded_level_chunk =
  dl_sub_chunks :: "'c sections"
  dl_biomes :: "decoded_biome_column option"
  dl_block_entities :: "decoded_block_entities option"
  dl_block_bytes_consumed :: usize
  dl_bytes_consumed :: usize
  dl_work :: inline_decode_work

subsection \<open>Sub-chunks\<close>

text \<open>At the end of the input every remaining read empties its slot.\<close>

definition clear_remaining :: "dimension_slots \<Rightarrow> usize \<Rightarrow> usize \<Rightarrow> 'c sections \<Rightarrow> 'c sections" where
  "clear_remaining d attempts index m =
     fold (\<lambda>k m. let slot = (index + k) AND SLOT_INDEX_MASK
                 in if slot < slots_count d then bt_remove (slot_y d slot) m else m)
       [0..<min (attempts - index) (SLOT_INDEX_MASK + 1)] m"

definition place_section :: "i32 \<Rightarrow> 'c sub_chunk \<Rightarrow> 'c sections \<Rightarrow> 'c sections" where
  "place_section y s m =
     (if (case y_index s of Some actual \<Rightarrow> actual \<noteq> y | None \<Rightarrow> False) \<or> has_no_storages s
      then bt_remove y m else bt_insert y s m)"

text \<open>The resident of a slot, when its payload is the one ahead; the reader then stands behind it.\<close>

definition try_reuse ::
  "(bytes \<Rightarrow> bytes) \<Rightarrow> 'c block_ids \<Rightarrow> 'c sections option \<Rightarrow> i32 \<Rightarrow> reader \<Rightarrow> ('c sub_chunk \<times> reader) option" where
  "try_reuse sha ids previous y r = do {
     previous \<leftarrow> previous;
     resident \<leftarrow> bt_get previous y;
     (let (hit, r) = reuse_inline sha resident r ids y in if hit then Some (resident, r) else None) }"

text \<open>The reads still to do are counted down; \<open>attempts - Suc k\<close> is the loop's index.\<close>

fun read_sections ::
  "(bytes \<Rightarrow> bytes) \<Rightarrow> 'c block_ids \<Rightarrow> dimension_slots \<Rightarrow> 'c sections option \<Rightarrow> usize \<Rightarrow> nat
    \<Rightarrow> 'c sections \<times> inline_decode_work \<Rightarrow> reader \<Rightarrow> ('c sections \<times> inline_decode_work) option \<times> reader" where
  "read_sections sha ids d previous attempts 0 st r = (Some st, r)"
| "read_sections sha ids d previous attempts (Suc k) (m, work) r =
     (let index = attempts - Suc k; slot = index AND SLOT_INDEX_MASK; y = slot_y d slot in
      if is_at_end r then (Some (clear_remaining d attempts index m, work), r)
      else if slot \<ge> slots_count d then read_sections sha ids d previous attempts k (m, work) r
      else case try_reuse sha ids previous y r of
             Some (resident, r) \<Rightarrow>
               read_sections sha ids d previous attempts k
                 (bt_insert y resident m, work\<lparr>reused_sections := reused_sections work + 1\<rparr>) r
           | None \<Rightarrow>
               (case read_inline sha ids (inline_cache_context ids) r of
                  (None, r) \<Rightarrow> (None, r)
                | (Some s, r) \<Rightarrow>
                    read_sections sha ids d previous attempts k
                      (place_section y s m, work\<lparr>decoded_sections := decoded_sections work + 1\<rparr>) r))"

definition read_sub_chunks ::
  "(bytes \<Rightarrow> bytes) \<Rightarrow> reader \<Rightarrow> dimension_slots \<Rightarrow> usize \<Rightarrow> 'c block_ids \<Rightarrow> 'c sections option
    \<Rightarrow> ('c sections \<times> inline_decode_work) option \<times> reader" where
  "read_sub_chunks sha r d sub_chunk_count ids previous =
     (if slots_count d = 0 then (Some (bt_empty, no_work), r)
      else read_sections sha ids d previous sub_chunk_count sub_chunk_count (bt_empty, no_work) r)"

subsection \<open>Columns\<close>

definition decode_column_tail ::
  "(bytes \<Rightarrow> bytes) \<Rightarrow> chunk_key \<Rightarrow> dimension_slots \<Rightarrow> bytes \<Rightarrow> biome_ids
    \<Rightarrow> (decoded_biome_column \<times> decoded_block_entities) option" where
  "decode_column_tail sha chunk d payload ids = do {
     column \<leftarrow> decode_biome_column (slots_base_y d) (slots_count d) payload ids;
     let low = saturating_mul_i32 (slots_base_y d) 16;
     let high = saturating_mul_i32 (slot_y d (slots_count d)) 16;
     (if biome_bytes_consumed column \<le> length payload
      then Some (column, decode_level_chunk_tail sha chunk low high (drop (biome_bytes_consumed column) payload))
      else None) }"

definition decode_level_chunk ::
  "(bytes \<Rightarrow> bytes) \<Rightarrow> i32 \<Rightarrow> usize \<Rightarrow> bytes \<Rightarrow> 'c block_ids \<Rightarrow> 'c decoded_level_chunk option" where
  "decode_level_chunk sha first_sub_chunk_y sub_chunk_count payload ids = do {
     let d = \<lparr>slots_base_y = first_sub_chunk_y, slots_count = sub_chunk_count\<rparr>;
     let (found, r) = read_sub_chunks sha (new_reader payload) d sub_chunk_count ids None;
     (m, work) \<leftarrow> found;
     Some \<lparr>dl_sub_chunks = m, dl_biomes = None, dl_block_entities = None, dl_block_bytes_consumed = offset r,
       dl_bytes_consumed = offset r, dl_work = work\<rparr> }"

definition decode_inline_reusing ::
  "(bytes \<Rightarrow> bytes) \<Rightarrow> chunk_key \<Rightarrow> dimension_slots \<Rightarrow> usize \<Rightarrow> bytes \<Rightarrow> 'c block_ids \<Rightarrow> biome_ids \<Rightarrow> 'c sections option
    \<Rightarrow> 'c decoded_level_chunk option" where
  "decode_inline_reusing sha chunk d sub_chunk_count payload ids biome_ids previous = do {
     let (found, r) = read_sub_chunks sha (new_reader payload) d sub_chunk_count ids previous;
     (m, work) \<leftarrow> found;
     (column, placed) \<leftarrow> decode_column_tail sha chunk d (remaining r) biome_ids;
     Some \<lparr>dl_sub_chunks = m, dl_biomes = Some column, dl_block_entities = Some placed,
       dl_block_bytes_consumed = offset r, dl_bytes_consumed = length payload, dl_work = work\<rparr> }"

definition decode_inline ::
  "(bytes \<Rightarrow> bytes) \<Rightarrow> chunk_key \<Rightarrow> dimension_slots \<Rightarrow> usize \<Rightarrow> bytes \<Rightarrow> 'c block_ids \<Rightarrow> biome_ids
    \<Rightarrow> 'c decoded_level_chunk option" where
  "decode_inline sha chunk d sub_chunk_count payload ids biome_ids =
     decode_inline_reusing sha chunk d sub_chunk_count payload ids biome_ids None"

subsection \<open>Request-mode sub-chunks\<close>

record 'c decoded_sub_chunk =
  ds_sub_chunk :: "'c sub_chunk"
  ds_block_entities :: decoded_block_entities

definition decode_sub_chunk_entry ::
  "(bytes \<Rightarrow> bytes) \<Rightarrow> sub_chunk_key \<Rightarrow> bytes \<Rightarrow> 'c block_ids \<Rightarrow> 'c decoded_sub_chunk option" where
  "decode_sub_chunk_entry sha key payload ids = do {
     let (s, consumed) = decode_sub_chunk_prefix sha ids payload;
     s \<leftarrow> s;
     (if consumed \<le> length payload
      then Some \<lparr>ds_sub_chunk = s, ds_block_entities = decode_sub_chunk_tail sha key (drop consumed payload)\<rparr>
      else None) }"

subsection \<open>Decoding a column is total\<close>

text \<open>A section fit to be stored, and a column of them.\<close>

definition stored_section :: "'c sub_chunk \<Rightarrow> bool" where
  "stored_section s \<longleftrightarrow> sub_chunk_wf s \<and> \<not> has_no_storages s"

definition sections_wf :: "'c sections \<Rightarrow> bool" where
  "sections_wf m \<longleftrightarrow> bt_invar m \<and> (\<forall>s\<in>set (bt_values m). stored_section s)"

lemma sections_wf_empty [simp]: "sections_wf bt_empty"
  by (simp add: sections_wf_def) (simp add: bt_empty_def bt_values_def)

lemma set_bt_insert: "set (bt_insert k v m) \<subseteq> insert (k, v) (set m)"
  by (induction k v m rule: bt_insert.induct) auto

lemma bt_values_insert: "set (bt_values (bt_insert k v m)) \<subseteq> insert v (set (bt_values m))"
  using set_bt_insert [of k v m] by (fastforce simp: bt_values_def)

lemma bt_values_remove: "set (bt_values (bt_remove k m)) \<subseteq> set (bt_values m)"
  by (auto simp: bt_values_def bt_remove_def)

lemma bt_get_values: "bt_get m k = Some v \<Longrightarrow> v \<in> set (bt_values m)"
  by (force simp: bt_get_def bt_values_def dest!: map_of_SomeD)

lemma sections_wf_remove: "sections_wf m \<Longrightarrow> sections_wf (bt_remove y m)"
  using bt_values_remove [of y m] by (auto simp: sections_wf_def)

lemma sections_wf_insert: "sections_wf m \<Longrightarrow> stored_section s \<Longrightarrow> sections_wf (bt_insert y s m)"
  using bt_values_insert [of y s m] by (auto simp: sections_wf_def)

lemma sections_wf_get: "sections_wf m \<Longrightarrow> bt_get m y = Some s \<Longrightarrow> stored_section s"
  using bt_get_values [of m y s] by (simp add: sections_wf_def)

lemma clear_remaining_keeps:
  assumes "P m" "\<And>y m. P m \<Longrightarrow> P (bt_remove y m)" shows "P (clear_remaining d attempts index m)"
  unfolding clear_remaining_def by (rule fold_invariant) (auto simp: assms Let_def)

lemma read_inline_total:
  "\<exists>s. fst (read_inline sha ids context r) = Some s \<and> sub_chunk_wf s \<and>
    snd (read_inline sha ids context r) = snd (read_sub_chunk sha ids r)"
proof -
  obtain s r1 where s: "read_sub_chunk sha ids r = (Some s, r1)" "sub_chunk_wf s"
    using read_sub_chunk_total [of sha ids r] by (metis prod.collapse)
  then show ?thesis
    by (auto simp: read_inline_def Let_def sub_chunk_wf_def split: option.split)
qed

lemma reuse_inline_reader:
  assumes "inside r" "reuse_inline sha s r ids y = (hit, r')"
  shows "inside r' \<and> stream r' = stream r \<and> offset r \<le> offset r'"
  using assms by (auto simp: reuse_inline_def take_exact_def inside_def split: option.splits if_splits)

lemma try_reuse_Some:
  assumes "try_reuse sha ids previous y r = Some (s, r')"
  obtains m where "previous = Some m" "bt_get m y = Some s" "reuse_inline sha s r ids y = (True, r')"
proof -
  from assms obtain m t where m: "previous = Some m" "bt_get m y = Some t"
    by (auto simp: try_reuse_def result_simps)
  obtain hit r1 where hit: "reuse_inline sha t r ids y = (hit, r1)" by fastforce
  then have "hit \<and> t = s \<and> r1 = r'" using assms m by (simp add: try_reuse_def split: if_splits)
  then show thesis using that m hit by simp
qed

text \<open>What every step of the loop keeps of the reader.\<close>

definition advanced :: "reader \<Rightarrow> reader \<Rightarrow> bool" where
  "advanced r r' \<longleftrightarrow> inside r' \<and> stream r' = stream r \<and> offset r \<le> offset r'"

lemma advanced_trans: "advanced r s \<Longrightarrow> advanced s t \<Longrightarrow> advanced r t"
  by (auto simp: advanced_def)

lemma advanced_steady: "inside r \<Longrightarrow> steady_at f r \<Longrightarrow> advanced r (snd (f r))"
  using steady_inside steady_offset by (auto simp: advanced_def)

text \<open>
  What the loop keeps of the column: it removes slots and stores sections, each fresh from the bytes or a
  resident, under a slot of the dimension.
\<close>

lemma read_sections_invariant:
  fixes m :: "'c sections"
  assumes "inside r" "P m"
    and gone: "\<And>y m. P m \<Longrightarrow> P (bt_remove y m)"
    and fresh: "\<And>slot m s r r'. P m \<Longrightarrow> slot < slots_count d \<Longrightarrow> stored_section s \<Longrightarrow> inside r \<Longrightarrow>
      read_inline sha ids (inline_cache_context ids) r = (Some s, r') \<Longrightarrow> P (bt_insert (slot_y d slot) s m)"
    and resident: "\<And>slot m s p. P m \<Longrightarrow> slot < slots_count d \<Longrightarrow> previous = Some p \<Longrightarrow>
      bt_get p (slot_y d slot) = Some s \<Longrightarrow> P (bt_insert (slot_y d slot) s m)"
  shows "\<exists>m' work'. fst (read_sections sha ids d previous attempts k (m, work) r) = Some (m', work') \<and> P m' \<and>
    advanced r (snd (read_sections sha ids d previous attempts k (m, work) r))"
  using assms(1,2)
proof (induction k arbitrary: m work r)
  case (Suc k)
  let ?index = "attempts - Suc k"
  let ?slot = "?index AND SLOT_INDEX_MASK"
  let ?y = "slot_y d ?slot"
  consider "is_at_end r" | "\<not> is_at_end r" "slots_count d \<le> ?slot" | "\<not> is_at_end r" "\<not> slots_count d \<le> ?slot" by blast
  then show ?case
  proof cases
    case 1
    have "P (clear_remaining d attempts ?index m)" by (rule clear_remaining_keeps) (simp_all add: Suc.prems gone)
    then show ?thesis using 1 Suc.prems(1) by (simp add: Let_def advanced_def)
  next
    case 2
    then show ?thesis using Suc.IH [OF Suc.prems] by (simp add: Let_def)
  next
    case 3
    show ?thesis
    proof (cases "try_reuse sha ids previous ?y r")
      case (Some x)
      obtain s r1 where x: "x = (s, r1)" by fastforce
      obtain p where p: "previous = Some p" "bt_get p ?y = Some s" "reuse_inline sha s r ids ?y = (True, r1)"
        using try_reuse_Some Some x by metis
      have adv: "advanced r r1" using reuse_inline_reader [OF Suc.prems(1) p(3)] by (simp add: advanced_def)
      then have "inside r1" by (simp add: advanced_def)
      moreover have "P (bt_insert ?y s m)" using resident [OF Suc.prems(2) _ p(1,2)] 3 by simp
      ultimately show ?thesis using Suc.IH 3 Some x advanced_trans [OF adv] by (simp add: Let_def) blast
    next
      case None
      obtain s r1 where s: "read_inline sha ids (inline_cache_context ids) r = (Some s, r1)" "sub_chunk_wf s"
          "r1 = snd (read_sub_chunk sha ids r)"
        using read_inline_total [of sha ids "inline_cache_context ids" r] by (metis prod.collapse)
      have adv: "advanced r r1" unfolding s(3) by (rule advanced_steady [OF Suc.prems(1) steady_sub_chunk])
      then have "inside r1" by (simp add: advanced_def)
      moreover have "P (place_section ?y s m)"
        using 3 gone [OF Suc.prems(2)] fresh [OF Suc.prems(2) _ _ Suc.prems(1) s(1)] s(2)
        by (auto simp: place_section_def stored_section_def)
      ultimately show ?thesis using Suc.IH 3 None s(1) advanced_trans [OF adv] by (simp add: Let_def) blast
    qed
  qed
qed (simp add: advanced_def)

text \<open>The sections of a decoded column: each well formed, under a slot of the dimension.\<close>

definition in_slots :: "dimension_slots \<Rightarrow> 'c sections \<Rightarrow> bool" where
  "in_slots d m \<longleftrightarrow> set (bt_keys m) \<subseteq> slot_y d ` {..<slots_count d}"

lemma in_slots_empty [simp]: "in_slots d bt_empty"
  by (simp add: in_slots_def bt_keys_def bt_empty_def)

lemma in_slots_remove: "in_slots d m \<Longrightarrow> in_slots d (bt_remove y m)"
  by (auto simp: in_slots_def bt_keys_def bt_remove_def)

lemma in_slots_insert: "in_slots d m \<Longrightarrow> slot < slots_count d \<Longrightarrow> in_slots d (bt_insert (slot_y d slot) s m)"
  by (auto simp: in_slots_def bt_keys_insert)

lemma read_sub_chunks_invariant:
  assumes "inside r" "P bt_empty" "\<And>y m. P m \<Longrightarrow> P (bt_remove y m)"
    and "\<And>slot m s r r'. P m \<Longrightarrow> slot < slots_count d \<Longrightarrow> stored_section s \<Longrightarrow> inside r \<Longrightarrow>
      read_inline sha ids (inline_cache_context ids) r = (Some s, r') \<Longrightarrow> P (bt_insert (slot_y d slot) s m)"
    and "\<And>slot m s p. P m \<Longrightarrow> slot < slots_count d \<Longrightarrow> previous = Some p \<Longrightarrow>
      bt_get p (slot_y d slot) = Some s \<Longrightarrow> P (bt_insert (slot_y d slot) s m)"
  shows "\<exists>m work. fst (read_sub_chunks sha r d n ids previous) = Some (m, work) \<and> P m \<and>
    advanced r (snd (read_sub_chunks sha r d n ids previous))"
proof -
  have "\<exists>m' work'. fst (read_sections sha ids d previous n n (bt_empty, no_work) r) = Some (m', work') \<and> P m' \<and>
    advanced r (snd (read_sections sha ids d previous n n (bt_empty, no_work) r))"
    by (rule read_sections_invariant [where P = P]; fact assms)
  then show ?thesis using assms(1,2) by (simp add: read_sub_chunks_def advanced_def)
qed

lemma read_sub_chunks_total:
  assumes "inside r" "\<And>p. previous = Some p \<Longrightarrow> sections_wf p"
  shows "\<exists>m work. fst (read_sub_chunks sha r d n ids previous) = Some (m, work) \<and> (sections_wf m \<and> in_slots d m) \<and>
    advanced r (snd (read_sub_chunks sha r d n ids previous))"
  by (rule read_sub_chunks_invariant)
    (auto simp: assms(1) intro: sections_wf_remove in_slots_remove sections_wf_insert in_slots_insert
      sections_wf_get [OF assms(2)])

lemma decode_column_tail_total:
  "\<exists>column placed. decode_column_tail sha chunk d payload ids = Some (column, placed) \<and>
    decode_biome_column (slots_base_y d) (slots_count d) payload ids = Some column \<and>
    placed = decode_level_chunk_tail sha chunk (saturating_mul_i32 (slots_base_y d) 16)
      (saturating_mul_i32 (slot_y d (slots_count d)) 16) (drop (biome_bytes_consumed column) payload)"
  using decode_biome_column_correct [of "slots_base_y d" "slots_count d" payload ids]
  by (auto simp: decode_column_tail_def)

subsection \<open>Reuse is transparent\<close>

text \<open>
  A resident that may stand in for a payload: its cached identity is that of a section decoded from those bytes
  with the same blocks.  \<^verbatim>\<open>read_inline\<close> makes one, and \<^verbatim>\<open>retain_inline_identity_from\<close> keeps it one.
\<close>

definition stands_for :: "(bytes \<Rightarrow> bytes) \<Rightarrow> 'c block_ids \<Rightarrow> bytes \<Rightarrow> 'c sub_chunk \<Rightarrow> bool" where
  "stands_for sha ids bs s \<longleftrightarrow>
     (\<exists>t. remembers sha ids bs t \<and> inline_payload s = inline_payload t \<and> same_blocks s t \<and> \<not> has_no_storages t)"

text \<open>
  The digest tells the payload behind a resident apart from the slices of its length in the column at hand: what
  the code relies on of SHA-256, a statement about the finitely many payloads it may compare.
\<close>

definition digest_separates :: "(bytes \<Rightarrow> bytes) \<Rightarrow> bytes \<Rightarrow> bytes \<Rightarrow> bool" where
  "digest_separates sha payload bs \<longleftrightarrow>
     (\<forall>n. n + length bs \<le> length payload \<longrightarrow>
        sha (take (length bs) (drop n payload)) = sha bs \<longrightarrow> take (length bs) (drop n payload) = bs)"

definition reusable :: "(bytes \<Rightarrow> bytes) \<Rightarrow> ('i \<Rightarrow> 'c block_ids) \<Rightarrow> bytes \<Rightarrow> 'c sub_chunk \<Rightarrow> bool" where
  "reusable sha ids_of payload s \<longleftrightarrow>
     inline_payload s = None \<or> (\<exists>i bs. stands_for sha (ids_of i) bs s \<and> digest_separates sha payload bs)"

lemma reusable_retained:
  assumes "reusable sha ids_of payload decoded" "same_blocks resident decoded"
  shows "reusable sha ids_of payload (retain_inline_identity_from resident decoded)"
  using assms unfolding reusable_def stands_for_def retain_inline_identity_from_def
  by simp (metis same_blocks_trans)

lemma reusable_read_inline:
  assumes "inside r" "read_inline sha (ids_of i) (inline_cache_context (ids_of i)) r = (Some s, r')"
    and "digest_separates sha payload (take (offset r' - offset r) (remaining r))"
  shows "reusable sha ids_of payload s"
proof (cases "inline_payload s")
  case (Some p)
  then have "remembers sha (ids_of i) (take (offset r' - offset r) (remaining r)) s"
    using read_inline_remembers [OF assms(1,2)] by blast
  moreover have "\<not> has_no_storages s"
    using assms(2) Some read_sub_chunk_total [of sha "ids_of i" r]
    by (auto simp: read_inline_def Let_def has_no_storages_def split: prod.splits if_splits option.splits)
  ultimately show ?thesis using assms(3) unfolding reusable_def stands_for_def by (metis same_blocks_refl)
qed (simp add: reusable_def)

text \<open>Two columns of sections with the same slots and blocks.\<close>

definition same_sections :: "'c sections \<Rightarrow> 'c sections \<Rightarrow> bool" where
  "same_sections m n \<longleftrightarrow> list_all2 (\<lambda>(y, s) (y', t). y = y' \<and> same_blocks s t) m n"

lemma same_sections_empty [simp]: "same_sections bt_empty bt_empty"
  by (simp add: same_sections_def bt_empty_def)

lemma same_sections_refl: "same_sections m m"
  by (simp add: same_sections_def list.rel_refl case_prod_unfold)

lemma same_sections_insert:
  assumes "same_sections m n" "same_blocks s t" shows "same_sections (bt_insert y s m) (bt_insert y t n)"
  using assms(1) unfolding same_sections_def
  by (induction m n rule: list_all2_induct) (use assms(2) in auto)

lemma same_sections_remove: "same_sections m n \<Longrightarrow> same_sections (bt_remove y m) (bt_remove y n)"
  unfolding same_sections_def bt_remove_def
  by (induction m n rule: list_all2_induct) auto

lemma same_sections_place:
  assumes "same_sections m n" shows "same_sections (place_section y s m) (place_section y s n)"
  using same_sections_insert [OF assms same_blocks_refl] same_sections_remove [OF assms] by (simp add: place_section_def)

lemma same_sections_clear:
  assumes "same_sections m n" shows "same_sections (clear_remaining d attempts index m) (clear_remaining d attempts index n)"
proof -
  have "same_sections (fold (\<lambda>k m. let slot = (index + k) AND SLOT_INDEX_MASK
          in if slot < slots_count d then bt_remove (slot_y d slot) m else m) ks m)
      (fold (\<lambda>k m. let slot = (index + k) AND SLOT_INDEX_MASK
          in if slot < slots_count d then bt_remove (slot_y d slot) m else m) ks n)" for ks
    using assms by (induction ks arbitrary: m n) (auto simp: Let_def intro: same_sections_remove)
  then show ?thesis unfolding clear_remaining_def .
qed

lemma same_sections_get:
  assumes "same_sections m n" shows "rel_option same_blocks (bt_get m y) (bt_get n y)"
  using assms unfolding same_sections_def bt_get_def by (induction m n rule: list_all2_induct) auto

lemma read_inline_payload:
  assumes "read_sub_chunk sha ids r = (Some (t\<lparr>inline_payload := None\<rparr>), r')"
  shows "\<exists>p. read_inline sha ids registry r = (Some (t\<lparr>inline_payload := p\<rparr>), r')"
proof (cases "failed_read r' \<or> storages t = []")
  case True
  then show ?thesis using assms by (intro exI [of _ None]) (auto simp: read_inline_def has_no_storages_def)
next
  case False
  then show ?thesis using assms
    by (cases registry) (auto simp: read_inline_def has_no_storages_def Let_def)
qed

context inline_contexts
begin

text \<open>A hit leaves the reader where a fresh decode would, and that decode fills the slot with the same blocks.\<close>

lemma reuse_hit:
  assumes s: "reusable sha ids_of (stream r) s" and r: "inside r" and hit: "reuse_inline sha s r (ids_of j) y = (True, r')"
  shows "\<exists>t. read_inline sha (ids_of j) (inline_cache_context (ids_of j)) r = (Some t, r') \<and> same_blocks s t \<and>
    (\<forall>m. place_section y t m = bt_insert y t m)"
proof -
  have "inline_payload s \<noteq> None" using hit by (auto simp: reuse_inline_def split: option.splits)
  then obtain i bs where bs: "stands_for sha (ids_of i) bs s" and digest: "digest_separates sha (stream r) bs"
    using s unfolding reusable_def by (elim disjE exE conjE) (erule notE, assumption, rule that)
  from bs obtain t0 where t0: "remembers sha (ids_of i) bs t0" "inline_payload s = inline_payload t0"
      "same_blocks s t0" "\<not> has_no_storages t0"
    unfolding stands_for_def by (elim exE conjE) (rule that)
  have hit0: "reuse_inline sha t0 r (ids_of j) y = (True, r')" using hit t0(2) by (simp add: reuse_inline_def)
  have "length bs \<le> length (remaining r)"
    using hit0 t0(1) by (auto simp: reuse_inline_def remembers_def split: if_splits)
  then have "offset r + length bs \<le> length (stream r)" using r by (simp add: remaining_def inside_def)
  then have "take (length bs) (remaining r) = bs" if "sha (take (length bs) (remaining r)) = sha bs"
    using digest that unfolding digest_separates_def remaining_def by blast
  from reuse_sound [OF t0(1) r hit0 this]
  have read: "read_sub_chunk sha (ids_of j) r = (Some (t0\<lparr>inline_payload := None\<rparr>), r')"
    and y: "\<And>actual. y_index t0 = Some actual \<Longrightarrow> actual = y" by blast+
  obtain p where t: "read_inline sha (ids_of j) (inline_cache_context (ids_of j)) r = (Some (t0\<lparr>inline_payload := p\<rparr>), r')"
    using read_inline_payload [OF read] by auto
  then show ?thesis using t0(3,4) y
    by (auto simp: place_section_def has_no_storages_def split: option.split)
qed

lemma read_sections_transparent:
  assumes "inside r" "same_sections m n" "stream r = payload"
    and "\<And>p y s. previous = Some p \<Longrightarrow> bt_get p y = Some s \<Longrightarrow> reusable sha ids_of payload s"
  shows "\<exists>r'. rel_option (\<lambda>(m', _) (n', _). same_sections m' n')
      (fst (read_sections sha (ids_of j) d previous attempts k (m, work) r))
      (fst (read_sections sha (ids_of j) d None attempts k (n, work') r)) \<and>
    snd (read_sections sha (ids_of j) d previous attempts k (m, work) r) = r' \<and>
    snd (read_sections sha (ids_of j) d None attempts k (n, work') r) = r'"
  using assms(1-3)
proof (induction k arbitrary: m n work work' r)
  case (Suc k)
  let ?ids = "ids_of j" and ?index = "attempts - Suc k"
  let ?slot = "?index AND SLOT_INDEX_MASK"
  let ?y = "slot_y d ?slot"
  have fresh: "try_reuse sha ?ids None ?y r = None" by (simp add: try_reuse_def)
  consider "is_at_end r" | "\<not> is_at_end r" "slots_count d \<le> ?slot" | "\<not> is_at_end r" "\<not> slots_count d \<le> ?slot" by blast
  then show ?case
  proof cases
    case 1
    then show ?thesis using same_sections_clear [OF Suc.prems(2)] by (simp add: Let_def)
  next
    case 2
    then show ?thesis using Suc.IH [OF Suc.prems] by (simp add: Let_def)
  next
    case 3
    obtain t r1 where t: "read_inline sha ?ids (inline_cache_context ?ids) r = (Some t, r1)"
        "r1 = snd (read_sub_chunk sha ?ids r)"
      using read_inline_total [of sha ?ids "inline_cache_context ?ids" r] by (metis prod.collapse)
    have "advanced r r1" unfolding t(2) by (rule advanced_steady [OF Suc.prems(1) steady_sub_chunk])
    then have r1: "inside r1" "stream r1 = payload" using Suc.prems(3) by (simp_all add: advanced_def)
    show ?thesis
    proof (cases "try_reuse sha ?ids previous ?y r")
      case None
      then show ?thesis
        using 3 t(1) fresh Suc.IH [OF r1(1) same_sections_place [OF Suc.prems(2)] r1(2)] by (simp add: Let_def)
    next
      case (Some x)
      obtain s r2 where x: "x = (s, r2)" by fastforce
      obtain p where p: "previous = Some p" "bt_get p ?y = Some s" "reuse_inline sha s r ?ids ?y = (True, r2)"
        using try_reuse_Some Some x by metis
      from reuse_hit [OF assms(4) [OF p(1,2), folded Suc.prems(3)] Suc.prems(1) p(3)]
      have st: "r2 = r1" "same_blocks s t" "\<And>m. place_section ?y t m = bt_insert ?y t m" using t(1) by auto
      then show ?thesis
        using 3 t(1) fresh Some x p(1) Suc.IH [OF r1(1) same_sections_insert [OF Suc.prems(2) st(2)] r1(2)]
        by (simp add: Let_def)
    qed
  qed
qed simp

end

end
