(* ===== verification/Level_Chunk_Spec.thy ===== *)
theory Level_Chunk_Spec
  imports Level_Chunk
begin

section \<open>Properties of decoded columns\<close>

text \<open>Totality of whole payloads, the transparency of section reuse, and what a biome column shows.\<close>

lemma decode_sub_chunk_entry_total:
  "\<exists>d. decode_sub_chunk_entry sha key payload ids = Some d \<and> sub_chunk_wf (ds_sub_chunk d) \<and>
    inline_payload (ds_sub_chunk d) = None \<and>
    (\<exists>n\<le>length payload. ds_block_entities d = decode_sub_chunk_tail sha key (drop n payload))"
proof -
  obtain s r where s: "read_sub_chunk sha ids (new_reader payload) = (Some s, r)" "sub_chunk_wf s" "inline_payload s = None"
    using read_sub_chunk_total [of sha ids "new_reader payload"] by (metis prod.collapse)
  have "offset r \<le> length payload"
    using advanced_steady [OF inside_new steady_sub_chunk, of payload sha ids] s(1) by (auto simp: advanced_def inside_def)
  then show ?thesis using s by (auto simp: decode_sub_chunk_entry_def decode_sub_chunk_prefix_def)
qed

lemma decode_inline_reusing_eq:
  assumes read: "read_sub_chunks sha (new_reader payload) d n ids previous = (Some (m, work), r)"
    and tail: "decode_column_tail sha chunk d (remaining r) biome_ids = Some (column, placed)"
  shows "decode_inline_reusing sha chunk d n payload ids biome_ids previous =
    Some \<lparr>dl_sub_chunks = m, dl_biomes = Some column, dl_block_entities = Some placed,
       dl_block_bytes_consumed = offset r, dl_bytes_consumed = length payload, dl_work = work\<rparr>"
  using assms by (simp add: decode_inline_reusing_def)

lemma decode_inline_total:
  fixes previous :: "'c sections option"
  assumes "\<And>p. previous = Some p \<Longrightarrow> sections_wf p"
  shows "\<exists>dl column placed. decode_inline_reusing sha chunk d n payload ids biome_ids previous = Some dl \<and>
    sections_wf (dl_sub_chunks dl) \<and> in_slots d (dl_sub_chunks dl) \<and> dl_block_bytes_consumed dl \<le> length payload \<and>
    dl_bytes_consumed dl = length payload \<and> dl_biomes dl = Some column \<and> length (biome_storages column) = slots_count d \<and>
    list_all storage_wf (biome_storages column) \<and> dl_block_entities dl = Some (decode_level_chunk_tail sha chunk
      (saturating_mul_i32 (slots_base_y d) 16) (saturating_mul_i32 (slot_y d (slots_count d)) 16) placed)"
proof -
  obtain m work r where r: "read_sub_chunks sha (new_reader payload) d n ids previous = (Some (m, work), r)"
      "sections_wf m" "in_slots d m" "advanced (new_reader payload) r"
    using read_sub_chunks_total [OF inside_new assms, of previous sha payload d n ids] by (metis prod.collapse)
  obtain column where c: "decode_biome_column (slots_base_y d) (slots_count d) (remaining r) biome_ids = Some column"
      "length (biome_storages column) = slots_count d" "list_all storage_wf (biome_storages column)"
    using decode_biome_column_correct [of "slots_base_y d" "slots_count d" "remaining r" biome_ids] by blast
  obtain placed where t: "decode_column_tail sha chunk d (remaining r) biome_ids = Some (column, placed)"
      "placed = decode_level_chunk_tail sha chunk (saturating_mul_i32 (slots_base_y d) 16)
        (saturating_mul_i32 (slot_y d (slots_count d)) 16) (drop (biome_bytes_consumed column) (remaining r))"
    using decode_column_tail_total [of sha chunk d "remaining r" biome_ids] c(1) by auto
  show ?thesis using decode_inline_reusing_eq [OF r(1) t(1)] r(2-4) c(2,3) t(2)
    by (auto simp: advanced_def inside_def)
qed

text \<open>
  C17. Whatever bytes an inline column holds, decoding it never panics, reads no further than its payload, stores
  well-formed sections only under slots of the dimension, gives one well-formed biome storage per slot,
  and keeps only block entities of this column within the dimension's height.
\<close>

lemma tail_scoped: "scoped_entities sha (Chunk_Scope chunk lo hi) (entities (decode_level_chunk_tail sha chunk lo hi payload))"
  using decode_scoped_entities_inv [of sha "Chunk_Scope chunk lo hi" _ MAX_BLOCK_ENTITIES_PER_CHUNK]
  by (simp add: decode_level_chunk_tail_def case_prod_unfold Let_def)

theorem inline_column_total:
  assumes "\<forall>p. previous = Some p \<longrightarrow> sections_wf p"
  shows "\<exists>dl column placed. decode_inline_reusing sha chunk d n payload ids biome_ids previous = Some dl \<and>
    sections_wf (dl_sub_chunks dl) \<and> in_slots d (dl_sub_chunks dl) \<and> dl_block_bytes_consumed dl \<le> length payload \<and>
    dl_biomes dl = Some column \<and> length (biome_storages column) = slots_count d \<and>
    list_all storage_wf (biome_storages column) \<and> dl_block_entities dl = Some placed \<and>
    scoped_entities sha (Chunk_Scope chunk (saturating_mul_i32 (slots_base_y d) 16)
      (saturating_mul_i32 (slot_y d (slots_count d)) 16)) (entities placed)"
proof -
  obtain dl column bs where dl: "decode_inline_reusing sha chunk d n payload ids biome_ids previous = Some dl"
      "sections_wf (dl_sub_chunks dl)" "in_slots d (dl_sub_chunks dl)" "dl_block_bytes_consumed dl \<le> length payload"
      "dl_biomes dl = Some column" "length (biome_storages column) = slots_count d"
      "list_all storage_wf (biome_storages column)" "dl_block_entities dl = Some (decode_level_chunk_tail sha chunk
        (saturating_mul_i32 (slots_base_y d) 16) (saturating_mul_i32 (slot_y d (slots_count d)) 16) bs)"
    using decode_inline_total [of previous sha chunk d n payload ids biome_ids] assms by auto
  then show ?thesis by (auto simp: tail_scoped)
qed

theorem inline_column_total_witness:
  "\<exists>dl. decode_inline_reusing (\<lambda>b. b) (Chunk_Key 0 0 0) \<lparr>slots_base_y = - 4, slots_count = 24\<rparr> 1 [9, 1, 252, 1, 14]
      (raw_block_ids 0) (raw_biome_ids 1) None = Some dl \<and> sections_wf (dl_sub_chunks dl)"
  using inline_column_total [of None "\<lambda>b. b" "Chunk_Key 0 0 0" "\<lparr>slots_base_y = - 4, slots_count = 24\<rparr>" 1
      "[9, 1, 252, 1, 14]" "raw_block_ids 0" "raw_biome_ids 1"] by auto

text \<open>
  C18. Reusing resident sections changes nothing the client can see: decoding a column against the sections it
  already holds gives the same slots with the same blocks, the same biomes and block entities, and
  consumes the same bytes as decoding it afresh.  This holds for either decoder of the program, the residents
  coming from any others of them.  Each resident is one an earlier decode cached (or whose identity was
  retained for equal blocks), and SHA-256 tells the payload it was decoded from apart from the other slices of that
  length in this column.
\<close>

theorem inline_reuse_transparent:
  assumes residents: "\<forall>p. previous = Some p \<longrightarrow> (\<forall>s\<in>set (bt_values p). reusable sha (block_ids_of h) payload s)"
  shows "\<exists>dl fresh. decode_inline_reusing sha chunk d n payload (block_ids_of h decoder) biome_ids previous = Some dl \<and>
    decode_inline sha chunk d n payload (block_ids_of h decoder) biome_ids = Some fresh \<and>
    same_sections (dl_sub_chunks dl) (dl_sub_chunks fresh) \<and> dl_biomes dl = dl_biomes fresh \<and>
    dl_block_entities dl = dl_block_entities fresh \<and> dl_block_bytes_consumed dl = dl_block_bytes_consumed fresh \<and>
    dl_bytes_consumed dl = dl_bytes_consumed fresh"
proof -
  let ?ids = "block_ids_of h decoder" and ?r = "new_reader payload"
  obtain m0 work0 r where r: "read_sub_chunks sha ?r d n ?ids None = (Some (m0, work0), r)"
    using read_sub_chunks_total [OF inside_new, of None sha payload d n ?ids] by (metis option.distinct(1) prod.collapse)
  have trans: "\<exists>m work. read_sub_chunks sha ?r d n ?ids previous = (Some (m, work), r) \<and> same_sections m m0"
  proof (cases "slots_count d = 0")
    case True
    then show ?thesis using r by (simp add: read_sub_chunks_def)
  next
    case False
    have stream: "stream ?r = payload" by (simp add: new_reader_def)
    have "reusable sha (block_ids_of h) payload s" if "previous = Some p" "bt_get p y = Some s" for p y s
      using residents that bt_get_values by metis
    then have "\<exists>r'. rel_option (\<lambda>(m', _) (n', _). same_sections m' n')
        (fst (read_sections sha ?ids d previous n n (bt_empty, no_work) ?r))
        (fst (read_sections sha ?ids d None n n (bt_empty, no_work) ?r)) \<and>
      snd (read_sections sha ?ids d previous n n (bt_empty, no_work) ?r) = r' \<and>
      snd (read_sections sha ?ids d None n n (bt_empty, no_work) ?r) = r'"
      using stream by (intro decoders.read_sections_transparent [where payload = payload]) auto
    then show ?thesis using r False by (auto simp: read_sub_chunks_def prod_eq_iff option_rel_Some2)
  qed
  obtain m work where m: "read_sub_chunks sha ?r d n ?ids previous = (Some (m, work), r)" "same_sections m m0"
    using trans by blast
  obtain column placed where t: "decode_column_tail sha chunk d (remaining r) biome_ids = Some (column, placed)"
    using decode_column_tail_total [of sha chunk d "remaining r" biome_ids] by blast
  show ?thesis unfolding decode_inline_def
    using decode_inline_reusing_eq [OF r t] decode_inline_reusing_eq [OF m(1) t] m(2) by simp
qed

lemma sample_digest_separates: "digest_separates sample_digest sample_section sample_section"
proof -
  have "take 5 (drop n sample_section) = sample_section" if "sum_list (take 5 (drop n sample_section)) = sum_list sample_section" for n
  proof -
    consider "n = 0" | "n = 1" | "n = 2" | "n = 3" | "n = 4" | "5 \<le> n" by linarith
    then show ?thesis using that by cases (simp_all add: sample_section_def)
  qed
  then show ?thesis by (simp add: digest_separates_def sample_digest_def sample_section_def)
qed

theorem inline_reuse_transparent_witness:
  "\<exists>dl fresh. decode_inline_reusing sample_digest (Chunk_Key 0 0 0) \<lparr>slots_base_y = 4, slots_count = 1\<rparr> 1 sample_section
      sample_ids (raw_biome_ids 1) (Some [(4, sample_resident)]) = Some dl \<and>
    decode_inline sample_digest (Chunk_Key 0 0 0) \<lparr>slots_base_y = 4, slots_count = 1\<rparr> 1 sample_section
      sample_ids (raw_biome_ids 1) = Some fresh \<and> same_sections (dl_sub_chunks dl) (dl_sub_chunks fresh)"
proof -
  have whole: "take (offset (new_reader sample_section\<lparr>offset := 5\<rparr>) - offset (new_reader sample_section)) (remaining (new_reader sample_section)) =
      sample_section" by (simp add: new_reader_def remaining_def sample_section_def)
  have "reusable sample_digest (block_ids_of sample_heap) sample_section sample_resident"
    by (rule reusable_read_inline [where ids_of = "block_ids_of sample_heap", OF inside_new sample_section_inline])
      (simp only: whole sample_digest_separates)
  then have residents: "\<forall>p. Some [(4, sample_resident)] = Some p \<longrightarrow>
      (\<forall>s\<in>set (bt_values p). reusable sample_digest (block_ids_of sample_heap) sample_section s)"
    by (simp add: bt_values_def)
  show ?thesis
    using inline_reuse_transparent [OF residents, where chunk = "Chunk_Key 0 0 0" and n = 1 and decoder = "Session_Decoder sample_session" and
        d = "\<lparr>slots_base_y = 4, slots_count = 1\<rparr>" and biome_ids = "raw_biome_ids 1"]
    by (elim exE conjE) (intro exI conjI)
qed

text \<open>
  C31. What a biome column shows.  Its slot \<open>i\<close> shows the storage read for it; an empty slot above the last filled
  one repeats that storage's top layer at every height; any other empty slot shows the fallback biome.  And
  a look-up by height finds slot \<open>y - base\<close> and nothing else, however extreme the coordinates.
\<close>

theorem biome_column_exact:
  fixes payload :: bytes and ids :: biome_ids and n :: nat
  defines "found \<equiv> the (fst (read_biome_slots n ids (new_reader payload)))"
  shows "\<exists>column. decode_biome_column base n payload ids = Some column \<and> length (biome_storages column) = n \<and>
    biome_bytes_consumed column \<le> length payload \<and>
    (\<forall>i<n. \<forall>x<16. \<forall>y<16. \<forall>z<16.
      biome_id (biome_storages column ! i) x y z = slot_biome found (default_biome ids) i x y z) \<and>
    (column_storage column h = Some s) = (\<exists>i<n. h = base + int i \<and> s = biome_storages column ! i \<and> in_i32 (int i))"
proof -
  obtain column where c: "decode_biome_column base n payload ids = Some column" "base_sub_chunk_y column = base"
      "biome_bytes_consumed column \<le> length payload" "length (biome_storages column) = n"
      "\<forall>i<n. \<forall>x<16. \<forall>y<16. \<forall>z<16. biome_id (biome_storages column ! i) x y z = slot_biome found (default_biome ids) i x y z"
    using decode_biome_column_correct [of base n payload ids] unfolding found_def by blast
  have "(column_storage column h = Some s) = (\<exists>i<n. h = base + int i \<and> s = biome_storages column ! i \<and> in_i32 (int i))"
    using column_storage_iff [of column h s] c(2,4) by simp
  then show ?thesis using c(1,3-5) by auto
qed

theorem biome_column_exact_witness:
  "\<exists>column. decode_biome_column (- 4) 2 [1, 14, 255] (raw_biome_ids 1) = Some column \<and> length (biome_storages column) = 2 \<and>
    biome_id (biome_storages column ! 1) 3 4 5 =
      slot_biome (the (fst (read_biome_slots 2 (raw_biome_ids 1) (new_reader [1, 14, 255])))) 1 1 3 4 5"
proof -
  note exact = biome_column_exact [of "- 4" 2 "[1, 14, 255]" "raw_biome_ids 1" 0 "uniform 0"]
  obtain column where c: "decode_biome_column (- 4) 2 [1, 14, 255] (raw_biome_ids 1) = Some column" "length (biome_storages column) = 2"
      "\<forall>i<2. \<forall>x<16. \<forall>y<16. \<forall>z<16. biome_id (biome_storages column ! i) x y z =
        slot_biome (the (fst (read_biome_slots 2 (raw_biome_ids 1) (new_reader [1, 14, 255])))) (default_biome (raw_biome_ids 1)) i x y z"
    using exact by (elim exE conjE) (rule that)
  have "default_biome (raw_biome_ids 1) = 1" by (simp add: raw_biome_ids_def)
  then show ?thesis using c(1,2) c(3) [rule_format, of 1 3 4 5] by (intro exI conjI) simp_all
qed

end
