(* ===== verification/Store.thy ===== *)
theory Store
  imports Level_Chunk_Spec
begin

section \<open>The chunk store\<close>

text \<open>
  \<^verbatim>\<open>crates/world/src/store.rs\<close> and \<^verbatim>\<open>chunk.rs\<close>: what the store keeps, its queries, the revision plumbing
  and the commits of block data.  A \<^verbatim>\<open>HashMap\<close> is a partial function, since its order is never observed, a \<^verbatim>\<open>BTreeSet\<close>
  of the state a set, and an \<^verbatim>\<open>Arc\<close> the value behind it.  The shared allocator is the field \<open>allocator\<close>, its
  next identity; other stores of the process move it on between two operations.  A fallible operation
  returns its \<^verbatim>\<open>Result\<close> and the store it leaves.
\<close>

record 'c chunk =
  sub_chunks :: "'c sections"
  biomes :: "decoded_biome_column option"
  block_entities :: "(block_entity_key, block_entity_nbt) btree_map"
  block_entity_bytes :: usize

definition empty_chunk :: "'c chunk" where
  "empty_chunk = \<lparr>sub_chunks = bt_empty, biomes = None, block_entities = bt_empty, block_entity_bytes = 0\<rparr>"

record chunk_collision_revision =
  revision_chunk :: chunk_key
  revision_number :: nat

text \<open>\<^verbatim>\<open>collision_snapshot.rs\<close>: the store a snapshot holds, whose chunks carry no biomes.\<close>

record 'c collision_view =
  view_chunks :: "chunk_key \<rightharpoonup> 'c chunk"
  view_loaded_chunks :: "chunk_key set"
  view_authoritative :: "chunk_key \<rightharpoonup> i32 set"
  view_revisions :: "chunk_key \<rightharpoonup> chunk_collision_revision"

record 'c chunk_store =
  chunks :: "chunk_key \<rightharpoonup> 'c chunk"
  loaded_chunks :: "chunk_key set"
  authoritative_sub_chunks :: "chunk_key \<rightharpoonup> i32 set"
  collision_revisions :: "chunk_key \<rightharpoonup> chunk_collision_revision"
  allocator :: nat
  snapshot_cache :: "'c collision_view option"

datatype decode_error =
    Decode_Collision_Revision collision_revision_error
  | Decode_Block_Entity block_entity_error

definition empty_store :: "nat \<Rightarrow> 'c chunk_store" where
  "empty_store next_revision =
     \<lparr>chunks = Map.empty, loaded_chunks = {}, authoritative_sub_chunks = Map.empty, collision_revisions = Map.empty,
      allocator = next_revision, snapshot_cache = None\<rparr>"

text \<open>\<^verbatim>\<open>?\<close> on an operation of the store: an error ends the caller with the store as it then is.\<close>

definition proceed ::
  "('e + 'a) \<times> 's \<Rightarrow> ('a \<Rightarrow> 's \<Rightarrow> ('e + 'b) \<times> 's) \<Rightarrow> ('e + 'b) \<times> 's" where
  "proceed m f = (case m of (Inl e, s) \<Rightarrow> (Inl e, s) | (Inr x, s) \<Rightarrow> f x s)"

definition lift_error :: "('e \<Rightarrow> 'f) \<Rightarrow> ('e + 'a) \<times> 's \<Rightarrow> ('f + 'a) \<times> 's" where
  "lift_error g m = (map_err g (fst m), snd m)"

lemma proceed_simps [simp]:
  "proceed (Inl e, s) f = (Inl e, s)" "proceed (Inr x, s) f = f x s"
  by (simp_all add: proceed_def)

lemma lift_error_simps [simp]:
  "lift_error g (Inl e, s) = (Inl (g e), s)" "lift_error g (Inr x, s) = (Inr x, s)"
  by (simp_all add: lift_error_def)

subsection \<open>Queries\<close>

definition contains_column :: "'c chunk_store \<Rightarrow> chunk_key \<Rightarrow> bool" where
  "contains_column s key \<longleftrightarrow>
     key \<in> loaded_chunks s \<or> chunks s key \<noteq> None \<or> authoritative_sub_chunks s key \<noteq> None"

definition is_chunk_loaded :: "'c chunk_store \<Rightarrow> chunk_key \<Rightarrow> bool" where
  "is_chunk_loaded s key \<longleftrightarrow> key \<in> loaded_chunks s"

definition is_sub_chunk_loaded :: "'c chunk_store \<Rightarrow> sub_chunk_key \<Rightarrow> bool" where
  "is_sub_chunk_loaded s key \<longleftrightarrow>
     sk_chunk key \<in> loaded_chunks s \<or>
     (case authoritative_sub_chunks s (sk_chunk key) of None \<Rightarrow> False | Some ys \<Rightarrow> sk_y key \<in> ys)"

definition collision_revision :: "'c chunk_store \<Rightarrow> chunk_key \<Rightarrow> chunk_collision_revision option" where
  "collision_revision s key = collision_revisions s key"

definition stored_sub_chunk :: "'c chunk_store \<Rightarrow> sub_chunk_key \<Rightarrow> 'c sub_chunk option" where
  "stored_sub_chunk s key = do { c \<leftarrow> chunks s (sk_chunk key); bt_get (sub_chunks c) (sk_y key) }"

definition contains_sub_chunk :: "'c chunk_store \<Rightarrow> sub_chunk_key \<Rightarrow> bool" where
  "contains_sub_chunk s key \<longleftrightarrow> (case chunks s (sk_chunk key) of None \<Rightarrow> False | Some c \<Rightarrow> bt_contains (sub_chunks c) (sk_y key))"

definition stored_biome :: "'c chunk_store \<Rightarrow> sub_chunk_key \<Rightarrow> biome_storage option" where
  "stored_biome s key = do {
     c \<leftarrow> chunks s (sk_chunk key);
     column \<leftarrow> biomes c;
     column_storage column (sk_y key) }"

definition stored_biome_id :: "'c chunk_store \<Rightarrow> sub_chunk_key \<Rightarrow> nat \<Rightarrow> nat \<Rightarrow> nat \<Rightarrow> u32 option" where
  "stored_biome_id s key x y z = do { b \<leftarrow> stored_biome s key; biome_id b x y z }"

definition stored_block_entity :: "'c chunk_store \<Rightarrow> block_entity_key \<Rightarrow> block_entity_nbt option" where
  "stored_block_entity s key = do { c \<leftarrow> chunks s (be_chunk key); bt_get (block_entities c) key }"

subsection \<open>Revisions\<close>

definition invalidate_collision_snapshot :: "'c chunk_store \<Rightarrow> 'c chunk_store" where
  "invalidate_collision_snapshot s = s\<lparr>snapshot_cache := None\<rparr>"

definition set_collision_revision :: "chunk_key \<Rightarrow> nat \<Rightarrow> 'c chunk_store \<Rightarrow> 'c chunk_store" where
  "set_collision_revision key r s =
     (let s = invalidate_collision_snapshot s
      in s\<lparr>collision_revisions := (collision_revisions s)(key \<mapsto> \<lparr>revision_chunk = key, revision_number = r\<rparr>)\<rparr>)"

text \<open>\<^verbatim>\<open>allocate\<close> on the store's allocator.\<close>

definition allocate_revision :: "'c chunk_store \<Rightarrow> (collision_revision_error + nat) \<times> 'c chunk_store" where
  "allocate_revision s = (case take_revision (allocator s) of (res, n) \<Rightarrow> (res, s\<lparr>allocator := n\<rparr>))"

definition reserve_if :: "bool \<Rightarrow> 'c chunk_store \<Rightarrow> (collision_revision_error + nat option) \<times> 'c chunk_store" where
  "reserve_if needed s =
     (if needed then proceed (allocate_revision s) (\<lambda>r s. (Inr (Some r), s)) else (Inr None, s))"

definition reserve_loaded_change ::
  "sub_chunk_key \<Rightarrow> 'c chunk_store \<Rightarrow> (collision_revision_error + nat option) \<times> 'c chunk_store" where
  "reserve_loaded_change key s = reserve_if (is_sub_chunk_loaded s key) s"

definition reserve_actor_change ::
  "chunk_key \<Rightarrow> bool \<Rightarrow> 'c chunk_store \<Rightarrow> (collision_revision_error + nat option) \<times> 'c chunk_store" where
  "reserve_actor_change chunk changed s = reserve_if (changed \<and> collision_revisions s chunk \<noteq> None) s"

definition apply_reserved_revision :: "chunk_key \<Rightarrow> nat option \<Rightarrow> 'c chunk_store \<Rightarrow> 'c chunk_store" where
  "apply_reserved_revision key reserved s =
     (case reserved of
        None \<Rightarrow> s
      | Some r \<Rightarrow>
          set_collision_revision key
            (case collision_revisions s key of None \<Rightarrow> r | Some current \<Rightarrow> max (revision_number current) r) s)"

definition mark_chunk_loaded :: "chunk_key \<Rightarrow> 'c chunk_store \<Rightarrow> (collision_revision_error + bool) \<times> 'c chunk_store" where
  "mark_chunk_loaded key s =
     (if key \<in> loaded_chunks s then (Inr False, s)
      else proceed (allocate_revision s) (\<lambda>r s.
        (Inr True, set_collision_revision key r
          (s\<lparr>loaded_chunks := insert key (loaded_chunks s),
             authoritative_sub_chunks := (authoritative_sub_chunks s)(key := None)\<rparr>))))"

definition mark_sub_chunk_loaded ::
  "sub_chunk_key \<Rightarrow> 'c chunk_store \<Rightarrow> (collision_revision_error + bool) \<times> 'c chunk_store" where
  "mark_sub_chunk_loaded key s =
     (if is_sub_chunk_loaded s key then (Inr False, s)
      else proceed (allocate_revision s) (\<lambda>r s.
        let ys = (case authoritative_sub_chunks s (sk_chunk key) of None \<Rightarrow> {} | Some ys \<Rightarrow> ys)
        in (Inr True, set_collision_revision (sk_chunk key) r
              (s\<lparr>authoritative_sub_chunks :=
                   (authoritative_sub_chunks s)(sk_chunk key \<mapsto> insert (sk_y key) ys)\<rparr>))))"

subsection \<open>Block data\<close>

definition chunk_or_default :: "'c chunk_store \<Rightarrow> chunk_key \<Rightarrow> 'c chunk" where
  "chunk_or_default s key = (case chunks s key of None \<Rightarrow> empty_chunk | Some c \<Rightarrow> c)"

definition put_chunk :: "chunk_key \<Rightarrow> 'c chunk \<Rightarrow> 'c chunk_store \<Rightarrow> 'c chunk_store" where
  "put_chunk key c s = s\<lparr>chunks := (chunks s)(key \<mapsto> c)\<rparr>"

definition is_bare :: "'c chunk \<Rightarrow> bool" where
  "is_bare c \<longleftrightarrow> sub_chunks c = bt_empty \<and> biomes c = None \<and> block_entities c = bt_empty"

text \<open>A column changed in place, which leaves the map when nothing is left of it.\<close>

definition settle_chunk :: "chunk_key \<Rightarrow> 'c chunk \<Rightarrow> 'c chunk_store \<Rightarrow> 'c chunk_store" where
  "settle_chunk key c s = s\<lparr>chunks := (if is_bare c then (chunks s)(key := None) else (chunks s)(key \<mapsto> c))\<rparr>"

definition remove_sub_chunk_without_revision ::
  "sub_chunk_key \<Rightarrow> 'c chunk_store \<Rightarrow> sub_chunk_key option \<times> 'c chunk_store" where
  "remove_sub_chunk_without_revision key s =
     (let s = invalidate_collision_snapshot s in
      case chunks s (sk_chunk key) of
        None \<Rightarrow> (None, s)
      | Some c \<Rightarrow>
          (if bt_contains (sub_chunks c) (sk_y key) then Some key else None,
           settle_chunk (sk_chunk key) (c\<lparr>sub_chunks := bt_remove (sk_y key) (sub_chunks c)\<rparr>) s))"

definition remove_sub_chunk ::
  "sub_chunk_key \<Rightarrow> 'c chunk_store \<Rightarrow> (collision_revision_error + sub_chunk_key option) \<times> 'c chunk_store" where
  "remove_sub_chunk key s =
     (if \<not> contains_sub_chunk s key then (Inr None, s)
      else proceed (reserve_loaded_change key s) (\<lambda>reserved s.
        let (removed, s) = remove_sub_chunk_without_revision key s
        in (Inr removed, apply_reserved_revision (sk_chunk key) reserved s)))"

definition put_sub_chunk :: "sub_chunk_key \<Rightarrow> 'c sub_chunk \<Rightarrow> 'c chunk_store \<Rightarrow> 'c chunk_store" where
  "put_sub_chunk key decoded s =
     (let c = chunk_or_default s (sk_chunk key)
      in put_chunk (sk_chunk key) (c\<lparr>sub_chunks := bt_insert (sk_y key) decoded (sub_chunks c)\<rparr>) s)"

definition commit_sub_chunk ::
  "sub_chunk_key \<Rightarrow> 'c sub_chunk \<Rightarrow> 'c chunk_store \<Rightarrow> (decode_error + sub_chunk_key option) \<times> 'c chunk_store" where
  "commit_sub_chunk key decoded s =
     (if has_no_storages decoded then lift_error Decode_Collision_Revision (remove_sub_chunk key s)
      else if (case stored_sub_chunk s key of None \<Rightarrow> False | Some current \<Rightarrow> sub_chunk_eq current decoded) then (Inr None, s)
      else proceed (lift_error Decode_Collision_Revision (reserve_loaded_change key s)) (\<lambda>reserved s.
        let s = put_sub_chunk key decoded (invalidate_collision_snapshot s)
        in (Inr (Some key), apply_reserved_revision (sk_chunk key) reserved s)))"

definition apply_sub_chunk ::
  "(bytes \<Rightarrow> bytes) \<Rightarrow> sub_chunk_key \<Rightarrow> bytes \<Rightarrow> 'c block_ids \<Rightarrow> 'c chunk_store
    \<Rightarrow> ((decode_error + sub_chunk_key option) \<times> 'c chunk_store) option" where
  "apply_sub_chunk sha key payload ids s =
     map_option (\<lambda>decoded. commit_sub_chunk key decoded s) (fst (decode_sub_chunk_prefix sha ids payload))"

definition apply_request_mode_air ::
  "sub_chunk_key \<Rightarrow> 'c chunk_store \<Rightarrow> (collision_revision_error + sub_chunk_key option) \<times> 'c chunk_store" where
  "apply_request_mode_air key s = remove_sub_chunk key s"

end
