(* ===== verification/Store_Entities.thy ===== *)
theory Store_Entities
  imports Store
begin

section \<open>Block entities in the store\<close>

text \<open>
  The operations of \<^verbatim>\<open>store.rs\<close> and \<^verbatim>\<open>shape_revisions.rs\<close> that replace block entities.  \<open>None\<close> is the panic of
  the \<^verbatim>\<open>expect\<close> on a column's byte total.
\<close>

type_synonym entity_map = "(block_entity_key, block_entity_nbt) btree_map"

text \<open>\<^verbatim>\<open>PartialEq for BlockEntityNbt\<close> compares the bytes.\<close>

definition nbt_eq :: "block_entity_nbt \<Rightarrow> block_entity_nbt \<Rightarrow> bool" where
  "nbt_eq a b \<longleftrightarrow> nbt_bytes a = nbt_bytes b"

definition ensure_chunk_block_entity_bytes :: "usize \<Rightarrow> block_entity_error + unit" where
  "ensure_chunk_block_entity_bytes n =
     (if n > MAX_BLOCK_ENTITY_BYTES_PER_CHUNK then Inl (Chunk_Entity_Bytes_Too_Large n MAX_BLOCK_ENTITY_BYTES_PER_CHUNK)
      else Inr ())"

subsection \<open>Geometry of actors\<close>

text \<open>The actors with geometry, in key order, as the two maps compared are collected.\<close>

definition shape_actors :: "entity_map \<Rightarrow> (block_entity_key \<times> shape_actor) list" where
  "shape_actors es = map (\<lambda>(k, e). (k, nbt_shape e)) (filter (\<lambda>(k, e). nbt_shape e \<noteq> Shape_None) es)"

definition scope_entities :: "sub_chunk_key option \<Rightarrow> entity_map \<Rightarrow> entity_map" where
  "scope_entities scope es =
     bt_retain (\<lambda>k e. case scope of None \<Rightarrow> True | Some key \<Rightarrow> be_sub_chunk k = key) es"

definition reserve_actor_replacement ::
  "chunk_key \<Rightarrow> sub_chunk_key option \<Rightarrow> entity_map \<Rightarrow> 'c chunk_store
    \<Rightarrow> (collision_revision_error + nat option) \<times> 'c chunk_store" where
  "reserve_actor_replacement chunk scope replacement s =
     (let previous = (case chunks s chunk of None \<Rightarrow> bt_empty | Some c \<Rightarrow> scope_entities scope (block_entities c))
      in reserve_actor_change chunk (shape_actors previous \<noteq> shape_actors replacement) s)"

subsection \<open>One sub-chunk's entities\<close>

text \<open>Equal records keep the snapshot the store has.\<close>

definition keep_equal_entities :: "entity_map \<Rightarrow> entity_map \<Rightarrow> entity_map" where
  "keep_equal_entities previous replacement =
     bt_map_values (\<lambda>k e. case bt_get previous k of Some p \<Rightarrow> (if nbt_eq p e then p else e) | None \<Rightarrow> e) replacement"

definition validate_sub_chunk_block_entity_replacement ::
  "sub_chunk_key \<Rightarrow> decoded_block_entities \<Rightarrow> 'c chunk_store \<Rightarrow> (block_entity_error + usize) option" where
  "validate_sub_chunk_block_entity_replacement key replacement s =
     (let c = chunk_or_default s (sk_chunk key);
          removed = scope_entities (Some key) (block_entities c);
          proposed_count = length (block_entities c) - length removed + length (entities replacement)
      in if proposed_count > MAX_BLOCK_ENTITIES_PER_CHUNK then Some (Inl (Too_Many_Entities MAX_BLOCK_ENTITIES_PER_CHUNK))
         else if entity_total removed > block_entity_bytes c then None
         else let proposed = block_entity_bytes c - entity_total removed + entity_total (entities replacement)
              in Some (and_then (ensure_chunk_block_entity_bytes proposed) (\<lambda>_. Inr proposed)))"

definition replace_sub_chunk_block_entities ::
  "sub_chunk_key \<Rightarrow> entity_map \<Rightarrow> usize \<Rightarrow> 'c chunk_store \<Rightarrow> 'c chunk_store" where
  "replace_sub_chunk_block_entities key replacement replacement_bytes s =
     (let c = chunk_or_default s (sk_chunk key);
          replacement = keep_equal_entities (block_entities c) replacement
      in if replacement = bt_empty \<and> scope_entities (Some key) (block_entities c) = bt_empty then s
         else settle_chunk (sk_chunk key)
           (c\<lparr>block_entities := bt_extend (bt_retain (\<lambda>k e. be_sub_chunk k \<noteq> key) (block_entities c)) replacement,
              block_entity_bytes := replacement_bytes\<rparr>) s)"

definition commit_decoded_sub_chunk ::
  "sub_chunk_key \<Rightarrow> 'c decoded_sub_chunk \<Rightarrow> 'c chunk_store
    \<Rightarrow> ((decode_error + sub_chunk_key option) \<times> 'c chunk_store) option" where
  "commit_decoded_sub_chunk key decoded s = do {
     checked \<leftarrow> validate_sub_chunk_block_entity_replacement key (ds_block_entities decoded) s;
     Some (case checked of
       Inl e \<Rightarrow> (Inl (Decode_Block_Entity e), s)
     | Inr replacement_bytes \<Rightarrow>
         proceed (lift_error Decode_Collision_Revision
             (reserve_actor_replacement (sk_chunk key) (Some key) (entities (ds_block_entities decoded)) s)) (\<lambda>actor s.
           proceed (commit_sub_chunk key (ds_sub_chunk decoded) s) (\<lambda>changed s.
             (Inr changed, apply_reserved_revision (sk_chunk key) actor
               (replace_sub_chunk_block_entities key (entities (ds_block_entities decoded)) replacement_bytes s))))) }"

definition clear_sub_chunk_block_entities :: "sub_chunk_key \<Rightarrow> 'c chunk_store \<Rightarrow> 'c chunk_store option" where
  "clear_sub_chunk_block_entities key s =
     (case chunks s (sk_chunk key) of
        None \<Rightarrow> Some s
      | Some c \<Rightarrow>
          (let removed = entity_total (scope_entities (Some key) (block_entities c))
           in if removed > block_entity_bytes c then None
              else Some (settle_chunk (sk_chunk key)
                (c\<lparr>block_entities := bt_retain (\<lambda>k e. be_sub_chunk k \<noteq> key) (block_entities c),
                   block_entity_bytes := block_entity_bytes c - removed\<rparr>) s)))"

definition apply_all_air ::
  "sub_chunk_key \<Rightarrow> 'c chunk_store \<Rightarrow> ((collision_revision_error + sub_chunk_key option) \<times> 'c chunk_store) option" where
  "apply_all_air key s =
     (case reserve_actor_replacement (sk_chunk key) (Some key) bt_empty s of
        (Inl e, s) \<Rightarrow> Some (Inl e, s)
      | (Inr actor, s) \<Rightarrow>
          (case remove_sub_chunk key s of
             (Inl e, s) \<Rightarrow> Some (Inl e, s)
           | (Inr changed, s) \<Rightarrow>
               map_option (\<lambda>s. (Inr changed, apply_reserved_revision (sk_chunk key) actor s))
                 (clear_sub_chunk_block_entities key s)))"

subsection \<open>A live update\<close>

text \<open>After the check of the position.\<close>

definition store_block_entity ::
  "block_entity_key \<Rightarrow> block_entity_nbt \<Rightarrow> 'c chunk_store \<Rightarrow> ((block_entity_error + bool) \<times> 'c chunk_store) option" where
  "store_block_entity key nbt s =
     (let c = chunk_or_default s (be_chunk key);
          replacing = bt_get (block_entities c) key;
          previous_bytes = (case replacing of None \<Rightarrow> 0 | Some p \<Rightarrow> length (nbt_bytes p));
          previous_shape = (case replacing of None \<Rightarrow> Shape_None | Some p \<Rightarrow> nbt_shape p)
      in if (case replacing of None \<Rightarrow> False | Some current \<Rightarrow> nbt_eq current nbt) then Some (Inr False, s)
         else if replacing = None \<and> length (block_entities c) = MAX_BLOCK_ENTITIES_PER_CHUNK
           then Some (Inl (Too_Many_Entities MAX_BLOCK_ENTITIES_PER_CHUNK), s)
         else if previous_bytes > block_entity_bytes c then None
         else let replacement_bytes = block_entity_bytes c - previous_bytes + length (nbt_bytes nbt) in
           Some (case ensure_chunk_block_entity_bytes replacement_bytes of
             Inl e \<Rightarrow> (Inl e, s)
           | Inr _ \<Rightarrow>
               proceed (lift_error Revision_Error (reserve_actor_change (be_chunk key) (previous_shape \<noteq> nbt_shape nbt) s))
                 (\<lambda>actor s. (Inr True, apply_reserved_revision (be_chunk key) actor
                   (put_chunk (be_chunk key)
                     (c\<lparr>block_entities := bt_insert key nbt (block_entities c),
                        block_entity_bytes := replacement_bytes\<rparr>) s)))))"

definition commit_block_entity_update ::
  "block_entity_key \<Rightarrow> block_entity_nbt \<Rightarrow> 'c chunk_store \<Rightarrow> ((block_entity_error + bool) \<times> 'c chunk_store) option" where
  "commit_block_entity_update key nbt s =
     (case embedded_position nbt of
        Some actual \<Rightarrow>
          if actual \<noteq> be_position key then Some (Inl (Position_Mismatch (be_position key) actual), s)
          else store_block_entity key nbt s
      | None \<Rightarrow> store_block_entity key nbt s)"

subsection \<open>A whole column's entities\<close>

definition commit_chunk_block_entities ::
  "chunk_key \<Rightarrow> decoded_block_entities \<Rightarrow> 'c chunk_store \<Rightarrow> (collision_revision_error + unit) \<times> 'c chunk_store" where
  "commit_chunk_block_entities key replacement s =
     proceed (reserve_actor_replacement key None (entities replacement) s) (\<lambda>actor s.
       let c = chunk_or_default s key;
           kept = keep_equal_entities (block_entities c) (entities replacement)
       in if kept = bt_empty \<and> chunks s key = None then (Inr (), s)
          else (Inr (), apply_reserved_revision key actor
            (settle_chunk key (c\<lparr>block_entities := kept, block_entity_bytes := entity_total kept\<rparr>) s)))"

end
