(* ===== verification/Store_Columns.thy ===== *)
theory Store_Columns
  imports Store_Entities Mutation
begin

section \<open>Columns and block updates in the store\<close>

text \<open>
  The operations of \<^verbatim>\<open>store.rs\<close> on prepared block updates, eviction, biomes and whole columns, and
  \<^verbatim>\<open>collision_snapshot.rs\<close>.  \<open>None\<close> is a panic.
\<close>

subsection \<open>Prepared block updates\<close>

record 'c prepared_mutation =
  mutation_key :: sub_chunk_key
  mutation_replacement :: "'c sub_chunk option"
  mutation_changed :: bool
  mutation_reach :: neighbour_reach
  mutation_cells :: "(nat \<times> nat \<times> nat) list"

definition prepare_sub_chunk_blocks ::
  "sub_chunk_key \<Rightarrow> 'c sub_chunk option \<Rightarrow> block_update list \<Rightarrow> u32 \<Rightarrow> (mutation_error + 'c prepared_mutation) option" where
  "prepare_sub_chunk_blocks key previous updates air =
     (case validate_all updates of
        Inl e \<Rightarrow> Some (Inl e)
      | Inr _ \<Rightarrow>
          if updates = [] then
            Some (Inr \<lparr>mutation_key = key, mutation_replacement = previous, mutation_changed = False,
              mutation_reach = of_updates updates, mutation_cells = []\<rparr>)
          else do {
            (changed, edited) \<leftarrow> apply_block_updates
              (case previous of Some p \<Rightarrow> p | None \<Rightarrow> for_block_updates (sk_y key)) updates air;
            let replacement = (if has_no_storages edited then None else Some edited);
            Some (Inr \<lparr>mutation_key = key, mutation_replacement = replacement,
              mutation_changed = (case (previous, replacement) of
                 (Some _, Some _) \<Rightarrow> changed | (None, None) \<Rightarrow> False | _ \<Rightarrow> True),
              mutation_reach = of_updates updates,
              mutation_cells = map (\<lambda>u. (upd_x u, upd_y u, upd_z u)) updates\<rparr>) })"

definition changed_positions :: "'c prepared_mutation \<Rightarrow> (i32 \<times> i32 \<times> i32) list" where
  "changed_positions m =
     (let at = (\<lambda>c n. wrap_i32 (wrap_i32 (c * 16) + int n)) in
      map (\<lambda>(x, y, z). (at (sk_x (mutation_key m)) x, at (sk_y (mutation_key m)) y, at (sk_z (mutation_key m)) z))
        (mutation_cells m))"

text \<open>One turn of the commit loop.\<close>

definition commit_mutation ::
  "'c prepared_mutation \<Rightarrow> sub_chunk_key list \<times> 'c chunk_store \<Rightarrow> sub_chunk_key list \<times> 'c chunk_store" where
  "commit_mutation m st =
     (case st of (changed, s) \<Rightarrow>
       if \<not> mutation_changed m then (changed, s)
       else (changed @ [mutation_key m],
             case mutation_replacement m of
               Some r \<Rightarrow> put_sub_chunk (mutation_key m) r s
             | None \<Rightarrow> snd (remove_sub_chunk_without_revision (mutation_key m) s)))"

definition commit_prepared_block_updates ::
  "'c prepared_mutation list \<Rightarrow> 'c chunk_store \<Rightarrow> (mutation_error + sub_chunk_key list) \<times> 'c chunk_store" where
  "commit_prepared_block_updates prepared s =
     (let columns = bt_set (map (\<lambda>m. sk_chunk (mutation_key m))
            (filter (\<lambda>m. mutation_changed m \<and> is_sub_chunk_loaded s (mutation_key m)) prepared))
      in case allocate_batch (allocator s) (length columns) of
           (Inl e, n) \<Rightarrow> (Inl (Mutation_Collision_Revision e), s\<lparr>allocator := n\<rparr>)
         | (Inr allocated, n) \<Rightarrow>
             (let (changed, s) = fold commit_mutation prepared ([], s\<lparr>allocator := n\<rparr>);
                  s = (if changed \<noteq> [] then invalidate_collision_snapshot s else s)
              in (Inr changed, fold (\<lambda>(chunk, r). set_collision_revision chunk r) (zip columns allocated) s)))"

definition update_sub_chunk_blocks ::
  "sub_chunk_key \<Rightarrow> block_update list \<Rightarrow> u32 \<Rightarrow> 'c chunk_store
    \<Rightarrow> ((mutation_error + sub_chunk_key list) \<times> 'c chunk_store) option" where
  "update_sub_chunk_blocks key updates air s =
     map_option (\<lambda>prepared. case prepared of
         Inl e \<Rightarrow> (Inl e, s)
       | Inr m \<Rightarrow> commit_prepared_block_updates [m] s)
       (prepare_sub_chunk_blocks key (stored_sub_chunk s key) updates air)"

definition update_block ::
  "sub_chunk_key \<Rightarrow> block_update \<Rightarrow> u32 \<Rightarrow> 'c chunk_store
    \<Rightarrow> ((mutation_error + sub_chunk_key option) \<times> 'c chunk_store) option" where
  "update_block key update air s =
     map_option (\<lambda>(res, s). (case res of Inl e \<Rightarrow> Inl e | Inr [] \<Rightarrow> Inr None | Inr (k # _) \<Rightarrow> Inr (Some k), s))
       (update_sub_chunk_blocks key [update] air s)"

subsection \<open>Eviction\<close>

definition detach_chunk ::
  "chunk_key \<Rightarrow> (sub_chunk_key list \<times> 'c chunk list) \<times> 'c chunk_store \<Rightarrow> (sub_chunk_key list \<times> 'c chunk list) \<times> 'c chunk_store" where
  "detach_chunk key st =
     (case st of ((removed, retired), s) \<Rightarrow>
       (case chunks s key of
          None \<Rightarrow> (removed, retired)
        | Some c \<Rightarrow> (removed @ map (from_chunk key) (bt_keys (sub_chunks c)), retired @ [c]),
        s\<lparr>authoritative_sub_chunks := (authoritative_sub_chunks s)(key := None),
          loaded_chunks := loaded_chunks s - {key},
          collision_revisions := (collision_revisions s)(key := None),
          chunks := (chunks s)(key := None)\<rparr>))"

text \<open>The keys come as a sorted set.\<close>

definition detach_chunks ::
  "chunk_key list \<Rightarrow> 'c chunk_store \<Rightarrow> (sub_chunk_key list \<times> 'c chunk list) \<times> 'c chunk_store" where
  "detach_chunks keys s =
     fold detach_chunk keys (([], []), if keys \<noteq> [] then invalidate_collision_snapshot s else s)"

definition evict_chunk :: "chunk_key \<Rightarrow> 'c chunk_store \<Rightarrow> sub_chunk_key list \<times> 'c chunk_store" where
  "evict_chunk key s = (let ((removed, _), s) = detach_chunks [key] s in (removed, s))"

subsection \<open>Biomes\<close>

text \<open>
  \<^verbatim>\<open>reuse_equal_biome_arcs\<close>: equal storages keep the resident value.  After it, two storages of one height share their
  \<^verbatim>\<open>Arc\<close> exactly when they are equal, which is how \<^verbatim>\<open>Arc::ptr_eq\<close> is modelled below.
\<close>

definition reuse_equal_biomes ::
  "decoded_biome_column \<Rightarrow> decoded_biome_column option \<Rightarrow> decoded_biome_column option" where
  "reuse_equal_biomes replacement previous =
     (case previous of
        None \<Rightarrow> Some replacement
      | Some previous \<Rightarrow>
          if length (biome_storages replacement) > 2147483648 then None
          else Some (replacement\<lparr>biome_storages := map (\<lambda>(offset, storage).
            case checked_add_i32 (base_sub_chunk_y replacement) (int offset) of
              None \<Rightarrow> storage
            | Some y \<Rightarrow> (case column_storage previous y of
                None \<Rightarrow> storage
              | Some p \<Rightarrow> (if storage_eq p storage then p else storage)))
            (enumerate 0 (biome_storages replacement))\<rparr>))"

definition column_ys :: "decoded_biome_column option \<Rightarrow> i32 list" where
  "column_ys column =
     (case column of
        None \<Rightarrow> []
      | Some c \<Rightarrow> List.map_filter (\<lambda>offset. do {
          offset \<leftarrow> checked_i32 (int offset);
          checked_add_i32 (base_sub_chunk_y c) offset }) [0..<length (biome_storages c)])"

definition column_at :: "decoded_biome_column option \<Rightarrow> i32 \<Rightarrow> biome_storage option" where
  "column_at column y = do { c \<leftarrow> column; column_storage c y }"

definition changed_biome_ys :: "decoded_biome_column option \<Rightarrow> decoded_biome_column option \<Rightarrow> i32 list" where
  "changed_biome_ys previous replacement =
     bt_set (filter (\<lambda>y. case (column_at previous y, column_at replacement y) of
         (Some before, Some after) \<Rightarrow> \<not> storage_eq before after
       | (None, None) \<Rightarrow> False
       | _ \<Rightarrow> True) (column_ys previous @ column_ys replacement))"

definition commit_biome_column ::
  "chunk_key \<Rightarrow> decoded_biome_column \<Rightarrow> 'c chunk_store \<Rightarrow> (sub_chunk_key list \<times> 'c chunk_store) option" where
  "commit_biome_column key replacement s = do {
     let previous = (chunks s key \<bind> biomes);
     replacement \<leftarrow> reuse_equal_biomes replacement previous;
     let changed = map (from_chunk key) (changed_biome_ys previous (Some replacement));
     Some (expand_biome_mesh_dependents changed,
       put_chunk key (chunk_or_default s key\<lparr>biomes := Some replacement\<rparr>) s) }"

definition biome_column_matches :: "'c chunk_store \<Rightarrow> chunk_key \<Rightarrow> decoded_biome_column \<Rightarrow> bool" where
  "biome_column_matches s key replacement =
     (case chunks s key \<bind> biomes of None \<Rightarrow> False | Some column \<Rightarrow> biome_column_eq column replacement)"

subsection \<open>Whole columns\<close>

record apply_level_chunk_result =
  alc_changed :: "sub_chunk_key list"
  alc_dirty :: "sub_chunk_key list"
  alc_bytes_consumed :: usize
  alc_block_bytes_consumed :: usize

text \<open>
  The first loop: a resident with the same blocks stays, with the payload identity of the new section.  The
  identity is written through the shared \<^verbatim>\<open>Arc\<close>, so the stored column has it as well.
\<close>

definition keep_sections :: "'c sections \<Rightarrow> 'c sections \<Rightarrow> 'c sections" where
  "keep_sections previous replacement =
     bt_map_values (\<lambda>y new. case bt_get previous y of
         Some p \<Rightarrow> (if blocks_match p new then retain_inline_identity_from p new else new)
       | None \<Rightarrow> new) replacement"

definition renew_identities :: "'c sections \<Rightarrow> 'c sections \<Rightarrow> 'c sections" where
  "renew_identities previous replacement =
     bt_map_values (\<lambda>y p. case bt_get replacement y of
         Some new \<Rightarrow> (if blocks_match p new then retain_inline_identity_from p new else p)
       | None \<Rightarrow> p) previous"

text \<open>The heights whose section the column gains, loses or changes.\<close>

definition changed_section_ys :: "'c sections \<Rightarrow> 'c sections \<Rightarrow> i32 list" where
  "changed_section_ys previous replacement =
     bt_set (filter (\<lambda>y. case (bt_get previous y, bt_get replacement y) of
         (Some p, Some new) \<Rightarrow> \<not> blocks_match p new
       | (None, None) \<Rightarrow> False
       | _ \<Rightarrow> True) (bt_keys previous @ bt_keys replacement))"

definition commit_level_chunk ::
  "chunk_key \<Rightarrow> 'c decoded_level_chunk \<Rightarrow> 'c chunk_store
    \<Rightarrow> ((decode_error + apply_level_chunk_result) \<times> 'c chunk_store) option" where
  "commit_level_chunk key decoded s = do {
     let newly_loaded = (key \<notin> loaded_chunks s);
     let old = chunk_or_default s key;
     let kept = keep_sections (sub_chunks old) (dl_sub_chunks decoded);
     let s = (if chunks s key = None then s
              else put_chunk key (old\<lparr>sub_chunks := renew_identities (sub_chunks old) (dl_sub_chunks decoded)\<rparr>) s);
     new_biomes \<leftarrow> (case dl_biomes decoded of
         None \<Rightarrow> Some (biomes old)
       | Some b \<Rightarrow> map_option Some (reuse_equal_biomes b (biomes old)));
     let new_entities = keep_equal_entities (block_entities old)
       (case dl_block_entities decoded of Some es \<Rightarrow> entities es | None \<Rightarrow> block_entities old);
     let block_changed = map (from_chunk key) (changed_section_ys (sub_chunks old) (dl_sub_chunks decoded));
     let biome_changed = map (from_chunk key) (changed_biome_ys (biomes old) new_biomes);
     let collision_changed = (block_changed \<noteq> []);
     Some (proceed (lift_error Decode_Collision_Revision
         (if newly_loaded \<or> collision_changed then reserve_if True s
          else reserve_actor_replacement key None new_entities s)) (\<lambda>reserved s.
       let changed = bt_set (block_changed @ biome_changed);
           dirty = bt_set (expand_mesh_dependents changed @ expand_biome_mesh_dependents biome_changed);
           c = \<lparr>sub_chunks = (if collision_changed \<or> chunks s key = None then kept else sub_chunks (chunk_or_default s key)),
                biomes = new_biomes, block_entities = new_entities, block_entity_bytes = entity_total new_entities\<rparr>;
           bare = (kept = bt_empty \<and> new_biomes = None \<and> new_entities = bt_empty);
           s = s\<lparr>chunks := (if bare then (chunks s)(key := None) else (chunks s)(key \<mapsto> c))\<rparr>;
           s = (if newly_loaded then
                  s\<lparr>loaded_chunks := insert key (loaded_chunks s),
                    authoritative_sub_chunks := (authoritative_sub_chunks s)(key := None)\<rparr> else s)
       in (Inr \<lparr>alc_changed = changed, alc_dirty = dirty, alc_bytes_consumed = dl_bytes_consumed decoded,
              alc_block_bytes_consumed = dl_block_bytes_consumed decoded\<rparr>,
           apply_reserved_revision key reserved s))) }"

definition apply_level_chunk ::
  "(bytes \<Rightarrow> bytes) \<Rightarrow> chunk_key \<Rightarrow> i32 \<Rightarrow> usize \<Rightarrow> bytes \<Rightarrow> 'c block_ids \<Rightarrow> 'c chunk_store
    \<Rightarrow> ((decode_error + apply_level_chunk_result) \<times> 'c chunk_store) option" where
  "apply_level_chunk sha key first_sub_chunk_y sub_chunk_count payload ids s = do {
     decoded \<leftarrow> decode_level_chunk sha first_sub_chunk_y sub_chunk_count payload ids;
     commit_level_chunk key decoded s }"

subsection \<open>Collision snapshots\<close>

definition collision_view_of :: "'c chunk_store \<Rightarrow> 'c collision_view" where
  "collision_view_of s =
     \<lparr>view_chunks = (\<lambda>key. map_option (\<lambda>c. c\<lparr>biomes := None\<rparr>) (chunks s key)), view_loaded_chunks = loaded_chunks s,
      view_authoritative = authoritative_sub_chunks s, view_revisions = collision_revisions s\<rparr>"

text \<open>The cache holds a weak reference: whether a prediction frame still keeps it \<open>alive\<close> is the caller's.\<close>

definition collision_snapshot :: "bool \<Rightarrow> 'c chunk_store \<Rightarrow> 'c collision_view \<times> 'c chunk_store" where
  "collision_snapshot alive s =
     (case (alive, snapshot_cache s) of
        (True, Some view) \<Rightarrow> (view, s)
      | _ \<Rightarrow> (collision_view_of s, s\<lparr>snapshot_cache := Some (collision_view_of s)\<rparr>))"

end
