(* ===== verification/Store_Invariant.thy ===== *)
theory Store_Invariant
  imports Store_Columns
begin

section \<open>The invariant of the store\<close>

text \<open>
  What every operation keeps: well-formed columns with exact byte totals within the limits and none of them
  bare, authority and revisions in step, and every revision distinct and already handed out.
\<close>

subsection \<open>Columns\<close>

definition entities_ok :: "(bytes \<Rightarrow> bytes) \<Rightarrow> chunk_key \<Rightarrow> entity_map \<Rightarrow> usize \<Rightarrow> bool" where
  "entities_ok sha key es n \<longleftrightarrow> bt_invar es \<and> (\<forall>k e. bt_get es k = Some e \<longrightarrow> be_chunk k = key \<and> sound_entity sha e) \<and>
     n = entity_total es \<and> n \<le> MAX_BLOCK_ENTITY_BYTES_PER_CHUNK \<and> length es \<le> MAX_BLOCK_ENTITIES_PER_CHUNK"

definition column_ok :: "(bytes \<Rightarrow> bytes) \<Rightarrow> chunk_key \<Rightarrow> 'c chunk \<Rightarrow> bool" where
  "column_ok sha key c \<longleftrightarrow> sections_wf (sub_chunks c) \<and> entities_ok sha key (block_entities c) (block_entity_bytes c) \<and>
     pred_option (\<lambda>b. list_all storage_wf (biome_storages b)) (biomes c)"

definition columns_wf :: "(bytes \<Rightarrow> bytes) \<Rightarrow> 'c chunk_store \<Rightarrow> bool" where
  "columns_wf sha s \<longleftrightarrow> (\<forall>key c. chunks s key = Some c \<longrightarrow> column_ok sha key c \<and> \<not> is_bare c)"

lemma entity_total_empty [simp]: "entity_total bt_empty = 0"
  by (simp add: entity_total_def bt_values_def bt_empty_def)

lemma column_ok_empty [simp]: "column_ok sha key empty_chunk"
  by (simp add: column_ok_def empty_chunk_def entities_ok_def) (simp add: bt_empty_def)

lemma columns_wf_default: "columns_wf sha s \<Longrightarrow> column_ok sha key (chunk_or_default s key)"
  by (auto simp: columns_wf_def chunk_or_default_def split: option.split)

lemma columns_wf_put: "columns_wf sha s \<Longrightarrow> column_ok sha key c \<Longrightarrow> \<not> is_bare c \<Longrightarrow> columns_wf sha (put_chunk key c s)"
  by (simp add: columns_wf_def put_chunk_def)

lemma columns_wf_settle: "columns_wf sha s \<Longrightarrow> column_ok sha key c \<Longrightarrow> columns_wf sha (settle_chunk key c s)"
  by (simp add: columns_wf_def settle_chunk_def)

lemma columns_wf_cong: "chunks s = chunks t \<Longrightarrow> columns_wf sha s = columns_wf sha t"
  by (simp add: columns_wf_def)

lemma column_ok_sections: "column_ok sha key c \<Longrightarrow> sections_wf m \<Longrightarrow> column_ok sha key (c\<lparr>sub_chunks := m\<rparr>)"
  by (simp add: column_ok_def)

lemma column_ok_entities:
  "column_ok sha key c \<Longrightarrow> entities_ok sha key es n \<Longrightarrow> column_ok sha key (c\<lparr>block_entities := es, block_entity_bytes := n\<rparr>)"
  by (simp add: column_ok_def)

subsection \<open>Authority and revisions\<close>

definition authority_wf :: "'c chunk_store \<Rightarrow> bool" where
  "authority_wf s \<longleftrightarrow>
     dom (collision_revisions s) = loaded_chunks s \<union> dom (authoritative_sub_chunks s) \<and>
     loaded_chunks s \<inter> dom (authoritative_sub_chunks s) = {} \<and> {} \<notin> ran (authoritative_sub_chunks s)"

definition revisions_wf :: "'c chunk_store \<Rightarrow> bool" where
  "revisions_wf s \<longleftrightarrow> allocator s < u64_bound \<and>
     (\<forall>key c. collision_revisions s key = Some c \<longrightarrow>
        revision_chunk c = key \<and> 0 < revision_number c \<and> revision_below (allocator s) (revision_number c)) \<and>
     (\<forall>key key' c c'. collision_revisions s key = Some c \<longrightarrow> collision_revisions s key' = Some c' \<longrightarrow>
        revision_number c = revision_number c' \<longrightarrow> key = key')"

definition store_wf :: "(bytes \<Rightarrow> bytes) \<Rightarrow> 'c chunk_store \<Rightarrow> bool" where
  "store_wf sha s \<longleftrightarrow> columns_wf sha s \<and> authority_wf s \<and> revisions_wf s"

text \<open>Whatever the allocator stood for earlier, it still does.\<close>

definition allocator_grows :: "'c chunk_store \<Rightarrow> 'c chunk_store \<Rightarrow> bool" where
  "allocator_grows s s' \<longleftrightarrow> (\<forall>r. revision_below (allocator s) r \<longrightarrow> revision_below (allocator s') r)"

lemma allocator_grows_refl [simp]: "allocator_grows s s"
  by (simp add: allocator_grows_def)

lemma allocator_grows_trans: "allocator_grows s t \<Longrightarrow> allocator_grows t u \<Longrightarrow> allocator_grows s u"
  by (simp add: allocator_grows_def)

lemma store_wf_allocator:
  assumes "store_wf sha s" "allocator_grows s (s\<lparr>allocator := n\<rparr>)" "n < u64_bound"
  shows "store_wf sha (s\<lparr>allocator := n\<rparr>)"
proof -
  have "revisions_wf (s\<lparr>allocator := n\<rparr>)"
    using assms by (simp add: store_wf_def revisions_wf_def allocator_grows_def)
  then show ?thesis using assms(1) by (simp add: store_wf_def columns_wf_def authority_wf_def)
qed

text \<open>A revision the store may publish: handed out, and no column has it yet.\<close>

definition publishable :: "'c chunk_store \<Rightarrow> nat \<Rightarrow> bool" where
  "publishable s r \<longleftrightarrow> 0 < r \<and> revision_below (allocator s) r \<and> (\<forall>key c. collision_revisions s key = Some c \<longrightarrow> revision_number c \<noteq> r)"

text \<open>What an allocation gives: an error and the store as it was, or a revision above all before it.\<close>

lemma allocate_revision_cases:
  assumes wf: "store_wf sha s" and alloc: "allocate_revision s = (res, s1)"
  obtains (Failed) e where "res = Inl e" "s1 = s"
    | (Allocated) r n where "res = Inr r" "s1 = s\<lparr>allocator := n\<rparr>" "store_wf sha s1" "allocator_grows s s1"
      "publishable s1 r" "\<not> revision_below (allocator s) r" "\<And>x. revision_below (allocator s) x \<Longrightarrow> x < r"
proof (cases "allocator s = 0")
  case True
  then have same: "s\<lparr>allocator := 0\<rparr> = s" by simp
  have "res = Inl Exhausted \<and> s1 = s\<lparr>allocator := 0\<rparr>" using alloc True by (auto simp: allocate_revision_def take_revision_def)
  then have "res = Inl Exhausted" "s1 = s" unfolding same by blast+
  then show ?thesis using that(1) by blast
next
  case False
  let ?n = "if Suc (allocator s) < u64_bound then Suc (allocator s) else 0"
  have bound: "allocator s < u64_bound" using wf by (simp add: store_wf_def revisions_wf_def)
  have res: "res = Inr (allocator s)" "s1 = s\<lparr>allocator := ?n\<rparr>"
    using alloc False by (auto simp: allocate_revision_def take_revision_def)
  have grows: "allocator_grows s s1" using res(2) False by (auto simp: allocator_grows_def revision_below_def)
  have "u64_bound > 0" by (simp add: u64_bound_def)
  then have wf1: "store_wf sha s1" unfolding res(2) by (intro store_wf_allocator [OF wf grows [unfolded res(2)]]) simp
  have below: "x < allocator s" if "revision_below (allocator s) x" for x
    using that False by (simp add: revision_below_def)
  have "revision_number c < allocator s" if "collision_revisions s key = Some c" for key c
    using wf that below unfolding store_wf_def revisions_wf_def by blast
  then have "\<forall>key c. collision_revisions s key = Some c \<longrightarrow> revision_number c \<noteq> allocator s"
    by (metis less_irrefl)
  then have pub: "publishable s1 (allocator s)"
    using False bound unfolding publishable_def res(2) by (auto simp: revision_below_def)
  have "\<not> revision_below (allocator s) (allocator s)" using False by (simp add: revision_below_def)
  from that(2) [OF res wf1 grows pub this below] show ?thesis by blast
qed

lemma reserve_if_cases:
  assumes wf: "store_wf sha s" and reserve: "reserve_if b s = (res, s1)"
  obtains (Failed) e where "b" "res = Inl e" "s1 = s"
    | (Not_Needed) "\<not> b" "res = Inr None" "s1 = s"
    | (Reserved) r n where "b" "res = Inr (Some r)" "s1 = s\<lparr>allocator := n\<rparr>" "store_wf sha s1" "allocator_grows s s1"
      "publishable s1 r" "\<not> revision_below (allocator s) r" "\<And>x. revision_below (allocator s) x \<Longrightarrow> x < r"
proof (cases b)
  case True
  obtain alloc s2 where a: "allocate_revision s = (alloc, s2)" by fastforce
  show ?thesis
  proof (rule allocate_revision_cases [OF wf a])
    fix e assume "alloc = Inl e" "s2 = s"
    then have "res = Inl e" "s1 = s" using reserve a True by (simp_all add: reserve_if_def)
    then show ?thesis using True that(1) by blast
  next
    fix r n assume r: "alloc = Inr r" "s2 = s\<lparr>allocator := n\<rparr>" "store_wf sha s2" "allocator_grows s s2"
      "publishable s2 r" "\<not> revision_below (allocator s) r" "\<And>x. revision_below (allocator s) x \<Longrightarrow> x < r"
    have eqs: "res = Inr (Some r)" "s1 = s2" using reserve a True r(1) by (simp_all add: reserve_if_def)
    show ?thesis by (rule that(3) [OF True]) (use eqs r in simp_all)
  qed
next
  case False
  then show ?thesis using that(2) reserve by (simp add: reserve_if_def)
qed

text \<open>Publishing it.\<close>

lemma apply_reserved_None [simp]: "apply_reserved_revision key None s = s"
  by (simp add: apply_reserved_revision_def)

lemma apply_reserved_fields [simp]:
  "chunks (apply_reserved_revision key r s) = chunks s" "loaded_chunks (apply_reserved_revision key r s) = loaded_chunks s"
  "authoritative_sub_chunks (apply_reserved_revision key r s) = authoritative_sub_chunks s"
  "allocator (apply_reserved_revision key r s) = allocator s"
  by (simp_all add: apply_reserved_revision_def set_collision_revision_def invalidate_collision_snapshot_def Let_def
      split: option.split)

lemma apply_reserved_snapshot: "snapshot_cache (apply_reserved_revision key (Some r) s) = None"
  by (simp add: apply_reserved_revision_def set_collision_revision_def invalidate_collision_snapshot_def)

lemma apply_reserved_other: "key' \<noteq> key \<Longrightarrow> collision_revisions (apply_reserved_revision key r s) key' = collision_revisions s key'"
  by (simp add: apply_reserved_revision_def set_collision_revision_def invalidate_collision_snapshot_def Let_def
      split: option.split)

lemma apply_reserved_own:
  "collision_revisions (apply_reserved_revision key (Some r) s) key = Some \<lparr>revision_chunk = key, revision_number =
     (case collision_revisions s key of None \<Rightarrow> r | Some c \<Rightarrow> max (revision_number c) r)\<rparr>"
  by (simp add: apply_reserved_revision_def set_collision_revision_def invalidate_collision_snapshot_def Let_def)

lemma revisions_wf_apply:
  assumes wf: "revisions_wf s" and r: "publishable s r"
  shows "revisions_wf (apply_reserved_revision key (Some r) s)"
proof -
  let ?s = "apply_reserved_revision key (Some r) s"
  let ?number = "case collision_revisions s key of None \<Rightarrow> r | Some c \<Rightarrow> max (revision_number c) r"
  have number: "?number = r \<or> (\<exists>c. collision_revisions s key = Some c \<and> ?number = revision_number c)"
    by (auto simp: max_def split: option.split)
  have ok: "0 < ?number \<and> revision_below (allocator s) ?number"
    using number r wf by (auto simp: publishable_def revisions_wf_def)
  have apart: "?number \<noteq> revision_number c" if "collision_revisions s key' = Some c" "key' \<noteq> key" for key' c
    using number r wf that unfolding publishable_def revisions_wf_def by metis
  have own: "collision_revisions ?s key = Some \<lparr>revision_chunk = key, revision_number = ?number\<rparr>"
    by (rule apply_reserved_own)
  have each: "revision_chunk c = k \<and> 0 < revision_number c \<and> revision_below (allocator s) (revision_number c)"
    if "collision_revisions ?s k = Some c" for k c
    using that own ok wf apply_reserved_other [of k key "Some r" s] by (cases "k = key") (auto simp: revisions_wf_def)
  moreover have "k = k'" if "collision_revisions ?s k = Some c" "collision_revisions ?s k' = Some c'"
    "revision_number c = revision_number c'" for k k' c c'
  proof -
    have at: "if j = key then revision_number d = ?number else collision_revisions s j = Some d"
      if "collision_revisions ?s j = Some d" for j d
    proof (cases "j = key")
      case True
      then have "d = \<lparr>revision_chunk = key, revision_number = ?number\<rparr>" using that own by simp
      then show ?thesis using True by simp
    next
      case False
      then show ?thesis using that apply_reserved_other [of j key "Some r" s] by simp
    qed
    show ?thesis
    proof (cases "k = key")
      case True
      note k = at [OF that(1), unfolded if_P [OF True]]
      show ?thesis
      proof (cases "k' = key")
        case f: False
        have "?number \<noteq> revision_number c'" by (rule apart [OF at [OF that(2), unfolded if_not_P [OF f]] f])
        then show ?thesis using k that(3) by argo
      qed (use True in simp)
    next
      case False
      note k = at [OF that(1), unfolded if_not_P [OF False]]
      show ?thesis
      proof (cases "k' = key")
        case True
        have "?number \<noteq> revision_number c" by (rule apart [OF k False])
        then show ?thesis using at [OF that(2), unfolded if_P [OF True]] that(3) by argo
      next
        case f: False
        note k' = at [OF that(2), unfolded if_not_P [OF f]]
        show ?thesis using wf k k' that(3) unfolding revisions_wf_def by blast
      qed
    qed
  qed
  ultimately show ?thesis using wf unfolding revisions_wf_def by simp
qed

lemma store_wf_apply:
  assumes "store_wf sha s" "\<And>r. reserved = Some r \<Longrightarrow> publishable s r \<and> collision_revisions s key \<noteq> None"
  shows "store_wf sha (apply_reserved_revision key reserved s)"
proof (cases reserved)
  case (Some r)
  have "dom (collision_revisions (apply_reserved_revision key (Some r) s)) = dom (collision_revisions s)"
    using assms(2) [OF Some] apply_reserved_own [of key r s] apply_reserved_other [of _ key "Some r" s]
    unfolding dom_def set_eq_iff mem_Collect_eq by (metis option.distinct(1))
  then show ?thesis using assms(1) revisions_wf_apply [of s r key] assms(2) [OF Some]
    by (simp add: Some store_wf_def authority_wf_def columns_wf_def)
qed (simp add: assms(1))

text \<open>Changes of the columns alone.\<close>

lemma store_wf_chunks:
  assumes "store_wf sha s" "columns_wf sha t" "loaded_chunks t = loaded_chunks s"
    "authoritative_sub_chunks t = authoritative_sub_chunks s" "collision_revisions t = collision_revisions s"
    "allocator t = allocator s"
  shows "store_wf sha t"
  using assms by (simp add: store_wf_def authority_wf_def revisions_wf_def)

lemma loaded_has_revision: "store_wf sha s \<Longrightarrow> is_sub_chunk_loaded s key \<Longrightarrow> collision_revisions s (sk_chunk key) \<noteq> None"
  unfolding store_wf_def authority_wf_def is_sub_chunk_loaded_def by (auto split: option.splits)

end
