(* ===== verification/Store_Content.thy ===== *)
theory Store_Content
  imports Store_Invariant
begin

section \<open>What a revision stands for\<close>

text \<open>
  The collision content of a column is what collision queries can read of it: its authority, the blocks of
  its authoritative sub-chunks and the geometry of its actors.  A sound step gives a column whose content
  changes a revision never seen before, and drops the cached snapshot when anything in it would be stale.
\<close>

definition block_view :: "'c sub_chunk \<Rightarrow> (usize \<Rightarrow> u32 option) list" where
  "block_view sc = map (\<lambda>st l. if l < BLOCKS_PER_SUB_CHUNK then cell_value st l else None) (storages sc)"

lemma block_view_eq: "block_view a = block_view b \<longleftrightarrow> same_blocks a b"
  unfolding block_view_def same_blocks_def list_eq_iff_nth_eq list_all2_conv_all_nth same_cells_def fun_eq_iff
  by auto

lemma block_view_retain [simp]: "block_view (retain_inline_identity_from p new) = block_view p"
  by (simp add: block_view_def retain_inline_identity_from_def)

type_synonym collision_facts =
  "bool \<times> i32 set option \<times> (i32 \<Rightarrow> (usize \<Rightarrow> u32 option) list option) \<times> (block_entity_key \<times> shape_actor) list"

definition collision_content :: "'c chunk_store \<Rightarrow> chunk_key \<Rightarrow> collision_facts" where
  "collision_content s key =
     (key \<in> loaded_chunks s, authoritative_sub_chunks s key,
      \<lambda>y. if is_sub_chunk_loaded s (from_chunk key y) then map_option block_view (stored_sub_chunk s (from_chunk key y)) else None,
      shape_actors (block_entities (chunk_or_default s key)))"

definition column_step :: "'c chunk_store \<Rightarrow> 'c chunk_store \<Rightarrow> chunk_key \<Rightarrow> bool" where
  "column_step s t key \<longleftrightarrow>
     collision_revisions t key = None \<or>
     collision_revisions t key = collision_revisions s key \<and> collision_content t key = collision_content s key \<or>
     (\<exists>c. collision_revisions t key = Some c \<and> \<not> revision_below (allocator s) (revision_number c))"

definition snapshot_kept :: "'c chunk_store \<Rightarrow> 'c chunk_store \<Rightarrow> bool" where
  "snapshot_kept s t \<longleftrightarrow> snapshot_cache t = None \<or>
     snapshot_cache t = snapshot_cache s \<and> loaded_chunks t = loaded_chunks s \<and>
     authoritative_sub_chunks t = authoritative_sub_chunks s \<and> collision_revisions t = collision_revisions s"

definition sound_step :: "'c chunk_store \<Rightarrow> 'c chunk_store \<Rightarrow> bool" where
  "sound_step s t \<longleftrightarrow> allocator_grows s t \<and> (\<forall>key. column_step s t key) \<and> snapshot_kept s t"

lemma sound_step_refl [simp]: "sound_step s s"
  by (simp add: sound_step_def column_step_def snapshot_kept_def)

lemma column_step_trans:
  assumes "column_step s t key" "column_step t u key" "allocator_grows s t" shows "column_step s u key"
  using assms unfolding column_step_def allocator_grows_def by metis

lemma sound_step_trans: "sound_step s t \<Longrightarrow> sound_step t u \<Longrightarrow> sound_step s u"
  unfolding sound_step_def snapshot_kept_def
  using column_step_trans [of s t _ u] allocator_grows_trans [of s t u] by auto

subsection \<open>Content and the fields it reads\<close>

definition sections_at :: "'c chunk_store \<Rightarrow> chunk_key \<Rightarrow> 'c sections" where
  "sections_at s key = sub_chunks (chunk_or_default s key)"

definition entities_at :: "'c chunk_store \<Rightarrow> chunk_key \<Rightarrow> entity_map" where
  "entities_at s key = block_entities (chunk_or_default s key)"

lemma stored_sub_chunk_at: "stored_sub_chunk s key = bt_get (sections_at s (sk_chunk key)) (sk_y key)"
  by (simp add: stored_sub_chunk_def sections_at_def chunk_or_default_def empty_chunk_def split: option.split)

lemma stored_entity_at: "stored_block_entity s key = bt_get (entities_at s (be_chunk key)) key"
  by (simp add: stored_block_entity_def entities_at_def chunk_or_default_def empty_chunk_def split: option.split)

lemma contains_sub_chunk_at: "contains_sub_chunk s key \<longleftrightarrow> stored_sub_chunk s key \<noteq> None"
  by (simp add: contains_sub_chunk_def stored_sub_chunk_def bt_contains_def split: option.split)

lemma at_put [simp]:
  "sections_at (put_chunk key c s) k = (if k = key then sub_chunks c else sections_at s k)"
  "entities_at (put_chunk key c s) k = (if k = key then block_entities c else entities_at s k)"
  by (simp_all add: sections_at_def entities_at_def chunk_or_default_def put_chunk_def)

lemma at_settle [simp]:
  "sections_at (settle_chunk key c s) k = (if k = key then sub_chunks c else sections_at s k)"
  "entities_at (settle_chunk key c s) k = (if k = key then block_entities c else entities_at s k)"
  by (auto simp: sections_at_def entities_at_def chunk_or_default_def settle_chunk_def is_bare_def empty_chunk_def)

lemma at_cong: "chunks s = chunks t \<Longrightarrow> sections_at s = sections_at t" "chunks s = chunks t \<Longrightarrow> entities_at s = entities_at t"
  by (simp_all add: sections_at_def entities_at_def chunk_or_default_def fun_eq_iff)

lemma put_fields [simp]:
  "loaded_chunks (put_chunk key c s) = loaded_chunks s" "authoritative_sub_chunks (put_chunk key c s) = authoritative_sub_chunks s"
  "collision_revisions (put_chunk key c s) = collision_revisions s" "allocator (put_chunk key c s) = allocator s"
  "snapshot_cache (put_chunk key c s) = snapshot_cache s"
  by (simp_all add: put_chunk_def)

lemma settle_fields [simp]:
  "loaded_chunks (settle_chunk key c s) = loaded_chunks s"
  "authoritative_sub_chunks (settle_chunk key c s) = authoritative_sub_chunks s"
  "collision_revisions (settle_chunk key c s) = collision_revisions s" "allocator (settle_chunk key c s) = allocator s"
  "snapshot_cache (settle_chunk key c s) = snapshot_cache s"
  by (simp_all add: settle_chunk_def)

lemma invalidate_fields [simp]:
  "chunks (invalidate_collision_snapshot s) = chunks s" "loaded_chunks (invalidate_collision_snapshot s) = loaded_chunks s"
  "authoritative_sub_chunks (invalidate_collision_snapshot s) = authoritative_sub_chunks s"
  "collision_revisions (invalidate_collision_snapshot s) = collision_revisions s"
  "allocator (invalidate_collision_snapshot s) = allocator s" "snapshot_cache (invalidate_collision_snapshot s) = None"
  by (simp_all add: invalidate_collision_snapshot_def)

lemma is_loaded_cong:
  "loaded_chunks t = loaded_chunks s \<Longrightarrow> authoritative_sub_chunks t = authoritative_sub_chunks s \<Longrightarrow>
    is_sub_chunk_loaded t = is_sub_chunk_loaded s"
  by (simp add: is_sub_chunk_loaded_def fun_eq_iff)

text \<open>Equal content: the same authority, the same blocks where it reaches, the same actors.\<close>

lemma content_eqI:
  assumes "key \<in> loaded_chunks t \<longleftrightarrow> key \<in> loaded_chunks s"
    and "authoritative_sub_chunks t key = authoritative_sub_chunks s key"
    and "\<And>y. is_sub_chunk_loaded s (from_chunk key y) \<Longrightarrow>
      rel_option same_blocks (bt_get (sections_at t key) y) (bt_get (sections_at s key) y)"
    and "shape_actors (entities_at t key) = shape_actors (entities_at s key)"
  shows "collision_content t key = collision_content s key"
proof -
  have loaded: "is_sub_chunk_loaded t (from_chunk key y) = is_sub_chunk_loaded s (from_chunk key y)" for y
    using assms(1,2) by (simp add: is_sub_chunk_loaded_def)
  have "map_option block_view (stored_sub_chunk t (from_chunk key y)) = map_option block_view (stored_sub_chunk s (from_chunk key y))"
    if "is_sub_chunk_loaded s (from_chunk key y)" for y
    using assms(3) [OF that] by (cases rule: option.rel_cases) (simp_all add: stored_sub_chunk_at block_view_eq)
  then show ?thesis using assms(1,2,4) by (simp add: collision_content_def loaded entities_at_def fun_eq_iff)
qed

lemma content_same_chunks:
  assumes "loaded_chunks t = loaded_chunks s" "authoritative_sub_chunks t = authoritative_sub_chunks s"
    "sections_at t key = sections_at s key" "entities_at t key = entities_at s key"
  shows "collision_content t key = collision_content s key"
  using assms by (intro content_eqI) (auto intro: option.rel_refl)

subsection \<open>Reserve, change one column, publish\<close>

text \<open>
  The shape of almost every commit.  \<open>t\<close> is the store between the change and the publication: only \<open>key\<close>'s
  column differs, and without a reservation nothing that collision reads does.
\<close>

lemma published_change:
  assumes wf: "store_wf sha s" and reserve: "reserve_if b s = (Inr reserved, s1)"
    and t: "columns_wf sha t" "allocator t = allocator s1" "collision_revisions t = collision_revisions s"
    and others: "\<And>k. k \<noteq> key \<Longrightarrow> (k \<in> loaded_chunks t \<longleftrightarrow> k \<in> loaded_chunks s) \<and>
      authoritative_sub_chunks t k = authoritative_sub_chunks s k \<and> sections_at t k = sections_at s k \<and> entities_at t k = entities_at s k"
    and cache: "snapshot_cache t = None \<or> snapshot_cache t = snapshot_cache s"
    and quiet: "reserved = None \<Longrightarrow> loaded_chunks t = loaded_chunks s \<and> authoritative_sub_chunks t = authoritative_sub_chunks s \<and>
      (collision_revisions s key = None \<or> collision_content t key = collision_content s key)"
    and authority: "reserved \<noteq> None \<Longrightarrow> (key \<in> loaded_chunks t \<or> authoritative_sub_chunks t key \<noteq> None) \<and>
      \<not> (key \<in> loaded_chunks t \<and> authoritative_sub_chunks t key \<noteq> None) \<and> authoritative_sub_chunks t key \<noteq> Some {}"
  shows "store_wf sha (apply_reserved_revision key reserved t) \<and> sound_step s (apply_reserved_revision key reserved t)"
proof -
  let ?u = "apply_reserved_revision key reserved t"
  have same: "collision_content t k = collision_content s k" if "k \<noteq> key" for k
    using others [OF that] by (intro content_eqI) (auto intro: option.rel_refl)
  have content_u: "collision_content ?u k = collision_content t k" for k
    by (intro content_same_chunks) (simp_all add: at_cong [of ?u t])
  show ?thesis
  proof (cases rule: reserve_if_cases [OF wf reserve])
    case 1
    then show ?thesis by simp
  next
    case 2
    then have none: "reserved = None" "s1 = s" by simp_all
    have "store_wf sha t" using store_wf_chunks [OF wf t(1)] t(2,3) quiet [OF none(1)] none(2) by simp
    moreover have "column_step s t k" for k
      using same [of k] quiet [OF none(1)] t(3) by (cases "k = key") (auto simp: column_step_def)
    moreover have "snapshot_kept s t" using cache quiet [OF none(1)] t(3) by (auto simp: snapshot_kept_def)
    ultimately show ?thesis using t(2) none by (simp add: sound_step_def allocator_grows_def)
  next
    case (3 r n)
    then have some: "reserved = Some r" by simp
    have pub: "publishable t r" using 3(6) t(2,3) 3(3) by (simp add: publishable_def)
    have rev: "revisions_wf t" using 3(4) t(2,3) 3(3) by (simp add: store_wf_def revisions_wf_def)
    have own: "collision_revisions ?u key = Some \<lparr>revision_chunk = key, revision_number = r\<rparr>"
      using wf t(3) 3(8) unfolding some apply_reserved_own
      by (auto simp: store_wf_def revisions_wf_def max_def split: option.split) (meson less_le_not_le not_le_imp_less)
    have dom: "dom (collision_revisions ?u) = insert key (dom (collision_revisions s))"
    proof (rule set_eqI)
      fix k show "k \<in> dom (collision_revisions ?u) \<longleftrightarrow> k \<in> insert key (dom (collision_revisions s))"
        using own apply_reserved_other [of k key reserved t] t(3) by (cases "k = key") (auto simp: dom_def)
    qed
    have "authority_wf ?u"
    proof -
      have s: "dom (collision_revisions s) = loaded_chunks s \<union> dom (authoritative_sub_chunks s)"
        "loaded_chunks s \<inter> dom (authoritative_sub_chunks s) = {}" "{} \<notin> ran (authoritative_sub_chunks s)"
        using wf by (simp_all add: store_wf_def authority_wf_def)
      have each: "(k \<in> insert key (dom (collision_revisions s)) \<longleftrightarrow> k \<in> loaded_chunks t \<or> authoritative_sub_chunks t k \<noteq> None) \<and>
          \<not> (k \<in> loaded_chunks t \<and> authoritative_sub_chunks t k \<noteq> None) \<and> authoritative_sub_chunks t k \<noteq> Some {}" for k
        using authority some others [of k] s by (cases "k = key") (auto simp: ran_def)
      then show ?thesis unfolding authority_wf_def dom by (auto simp: dom_def ran_def)
    qed
    then have "store_wf sha ?u"
      using revisions_wf_apply [OF rev pub] t(1) columns_wf_cong [of ?u t sha] by (simp add: some store_wf_def)
    moreover have "column_step s ?u k" for k
      using own 3(7) same [of k] content_u [of k] t(3) apply_reserved_other [of k key reserved t]
      by (cases "k = key") (auto simp: column_step_def)
    moreover have "snapshot_kept s ?u" by (simp add: some snapshot_kept_def apply_reserved_snapshot)
    moreover have "allocator_grows s ?u" using 3(3,5) t(2) by (simp add: allocator_grows_def)
    ultimately show ?thesis by (simp add: sound_step_def)
  qed
qed

text \<open>A failed reservation leaves the store as it was.\<close>

lemma reserve_if_error: "store_wf sha s \<Longrightarrow> reserve_if b s = (Inl e, s1) \<Longrightarrow> s1 = s"
  by (erule (1) reserve_if_cases) simp_all

lemma reserve_if_ok:
  assumes "store_wf sha s" "reserve_if b s = (Inr reserved, s1)"
  shows "reserved = None \<longleftrightarrow> \<not> b" "\<exists>n. s1 = s\<lparr>allocator := n\<rparr>"
proof -
  show "reserved = None \<longleftrightarrow> \<not> b" by (rule reserve_if_cases [OF assms]) auto
  have "s = s\<lparr>allocator := allocator s\<rparr>" by simp
  then have same: "\<exists>n. s = s\<lparr>allocator := n\<rparr>" ..
  consider "s1 = s" | n where "s1 = s\<lparr>allocator := n\<rparr>" by (rule reserve_if_cases [OF assms]) blast+
  then show "\<exists>n. s1 = s\<lparr>allocator := n\<rparr>"
  proof cases
    case 1
    show ?thesis unfolding 1 by (rule same)
  qed blast
qed

lemma set_collision_revision_fresh:
  assumes "\<And>c. collision_revisions s key = Some c \<Longrightarrow> revision_number c \<le> r"
  shows "set_collision_revision key r s = apply_reserved_revision key (Some r) s"
  using assms by (cases "collision_revisions s key") (simp_all add: apply_reserved_revision_def max_def)

end
