(* ===== verification/Store_Steps.thy ===== *)
theory Store_Steps
  imports Store_Content
begin

section \<open>Operations keep the invariant\<close>

text \<open>
  Every operation on authority and blocks keeps \<open>store_wf\<close>, is a \<open>sound_step\<close> and cannot panic; those on
  block entities and columns follow in the next theory.
\<close>

definition keeps :: "(bytes \<Rightarrow> bytes) \<Rightarrow> 'c chunk_store \<Rightarrow> 'c chunk_store \<Rightarrow> bool" where
  "keeps sha s t \<longleftrightarrow> store_wf sha t \<and> sound_step s t"

lemma keeps_refl: "store_wf sha s \<Longrightarrow> keeps sha s s"
  by (simp add: keeps_def)

lemma keeps_trans: "keeps sha s t \<Longrightarrow> keeps sha t u \<Longrightarrow> keeps sha s u"
  unfolding keeps_def using sound_step_trans by blast

lemma revision_at_most:
  assumes "store_wf sha s" "\<And>x. revision_below (allocator s) x \<Longrightarrow> x < r" "collision_revisions s key = Some c"
  shows "revision_number c \<le> r"
  using assms unfolding store_wf_def revisions_wf_def by (meson less_imp_le)

subsection \<open>Authority\<close>

lemma published_authority:
  assumes wf: "store_wf sha s" and reserve: "reserve_if True s = (Inr (Some r), s1)"
    and t: "chunks t = chunks s1" "allocator t = allocator s1" "collision_revisions t = collision_revisions s1"
    and others: "\<And>k. k \<noteq> key \<Longrightarrow> (k \<in> loaded_chunks t \<longleftrightarrow> k \<in> loaded_chunks s) \<and>
      authoritative_sub_chunks t k = authoritative_sub_chunks s k"
    and cache: "snapshot_cache t = snapshot_cache s1"
    and authority: "(key \<in> loaded_chunks t \<or> authoritative_sub_chunks t key \<noteq> None) \<and>
      \<not> (key \<in> loaded_chunks t \<and> authoritative_sub_chunks t key \<noteq> None) \<and> authoritative_sub_chunks t key \<noteq> Some {}"
  shows "keeps sha s (set_collision_revision key r t)"
proof -
  obtain n where s1: "s1 = s\<lparr>allocator := n\<rparr>" using reserve_if_ok(2) [OF wf reserve] by blast
  have "columns_wf sha t" using wf t(1) by (simp add: s1 store_wf_def columns_wf_def)
  moreover have "sections_at t = sections_at s" "entities_at t = entities_at s" using t(1) s1 by (auto intro: at_cong)
  ultimately have "store_wf sha (apply_reserved_revision key (Some r) t) \<and> sound_step s (apply_reserved_revision key (Some r) t)"
    by (intro published_change [OF wf reserve]) (use t others cache authority s1 in simp_all)
  moreover have "revision_number c \<le> r" if "collision_revisions t key = Some c" for c
    by (rule reserve_if_cases [OF wf reserve]) (use that t(3) s1 revision_at_most [OF wf] in auto)
  ultimately show ?thesis by (simp add: set_collision_revision_fresh keeps_def)
qed

lemma allocate_as_reserve: "proceed (allocate_revision s) f = proceed (reserve_if True s) (\<lambda>r s. f (the r) s)"
  by (cases "allocate_revision s"; cases "fst (allocate_revision s)") (simp_all add: reserve_if_def)

lemma reserve_if_split:
  assumes wf: "store_wf sha s" and b: "b"
  obtains (Failed) e where "reserve_if b s = (Inl e, s)" | (Reserved) r n where "reserve_if b s = (Inr (Some r), s\<lparr>allocator := n\<rparr>)"
proof -
  obtain res s1 where res: "reserve_if b s = (res, s1)" by fastforce
  from reserve_if_cases [OF wf res] show ?thesis using that res b by metis
qed

lemma mark_chunk_loaded_keeps:
  assumes wf: "store_wf sha s" shows "keeps sha s (snd (mark_chunk_loaded key s))"
proof (cases "key \<in> loaded_chunks s")
  case True
  then show ?thesis using keeps_refl [OF wf] by (simp add: mark_chunk_loaded_def)
next
  case False
  show ?thesis
  proof (rule reserve_if_split [OF wf TrueI])
    fix e assume "reserve_if True s = (Inl e, s)"
    then show ?thesis using False keeps_refl [OF wf] by (simp add: mark_chunk_loaded_def allocate_as_reserve)
  next
    fix r n assume r: "reserve_if True s = (Inr (Some r), s\<lparr>allocator := n\<rparr>)"
    have "keeps sha s (set_collision_revision key r (s\<lparr>allocator := n, loaded_chunks := insert key (loaded_chunks s),
        authoritative_sub_chunks := (authoritative_sub_chunks s)(key := None)\<rparr>))"
      by (rule published_authority [OF wf r]) simp_all
    then show ?thesis using False r by (simp add: mark_chunk_loaded_def allocate_as_reserve)
  qed
qed

lemma mark_sub_chunk_loaded_keeps:
  assumes wf: "store_wf sha s" shows "keeps sha s (snd (mark_sub_chunk_loaded key s))"
proof (cases "is_sub_chunk_loaded s key")
  case True
  then show ?thesis using keeps_refl [OF wf] by (simp add: mark_sub_chunk_loaded_def)
next
  case False
  then have unloaded: "sk_chunk key \<notin> loaded_chunks s" by (simp add: is_sub_chunk_loaded_def)
  let ?ys = "case authoritative_sub_chunks s (sk_chunk key) of None \<Rightarrow> {} | Some ys \<Rightarrow> ys"
  show ?thesis
  proof (rule reserve_if_split [OF wf TrueI])
    fix e assume "reserve_if True s = (Inl e, s)"
    then show ?thesis using False keeps_refl [OF wf] by (simp add: mark_sub_chunk_loaded_def allocate_as_reserve)
  next
    fix r n assume r: "reserve_if True s = (Inr (Some r), s\<lparr>allocator := n\<rparr>)"
    have "keeps sha s (set_collision_revision (sk_chunk key) r (s\<lparr>allocator := n,
        authoritative_sub_chunks := (authoritative_sub_chunks s)(sk_chunk key \<mapsto> insert (sk_y key) ?ys)\<rparr>))"
      by (rule published_authority [OF wf r]) (simp_all add: unloaded)
    then show ?thesis using False r by (simp add: mark_sub_chunk_loaded_def allocate_as_reserve Let_def)
  qed
qed

subsection \<open>Block data\<close>

lemma bt_insert_nonempty [simp]: "bt_insert k v m \<noteq> bt_empty"
  by (induction k v m rule: bt_insert.induct) (simp_all add: bt_empty_def)

lemma bt_remove_empty [simp]: "bt_remove k bt_empty = bt_empty"
  by (simp add: bt_remove_def bt_empty_def)

lemma removed_fields [simp]:
  "loaded_chunks (snd (remove_sub_chunk_without_revision key s)) = loaded_chunks s"
  "authoritative_sub_chunks (snd (remove_sub_chunk_without_revision key s)) = authoritative_sub_chunks s"
  "collision_revisions (snd (remove_sub_chunk_without_revision key s)) = collision_revisions s"
  "allocator (snd (remove_sub_chunk_without_revision key s)) = allocator s"
  "snapshot_cache (snd (remove_sub_chunk_without_revision key s)) = None"
  by (simp_all add: remove_sub_chunk_without_revision_def Let_def split: option.split)

lemma removed_at [simp]:
  "sections_at (snd (remove_sub_chunk_without_revision key s)) k =
    (if k = sk_chunk key then bt_remove (sk_y key) (sections_at s k) else sections_at s k)"
  "entities_at (snd (remove_sub_chunk_without_revision key s)) k = entities_at s k"
  by (auto simp: remove_sub_chunk_without_revision_def Let_def at_cong [of "invalidate_collision_snapshot s" s]
      sections_at_def entities_at_def chunk_or_default_def empty_chunk_def settle_chunk_def is_bare_def split: option.split)

lemma removed_key: "fst (remove_sub_chunk_without_revision key s) = (if contains_sub_chunk s key then Some key else None)"
  by (simp add: remove_sub_chunk_without_revision_def Let_def contains_sub_chunk_def split: option.split)

lemma removed_columns:
  assumes "columns_wf sha s" shows "columns_wf sha (snd (remove_sub_chunk_without_revision key s))"
proof (cases "chunks s (sk_chunk key)")
  case None
  then show ?thesis using assms by (simp add: remove_sub_chunk_without_revision_def columns_wf_def)
next
  case (Some c)
  have "column_ok sha (sk_chunk key) c" using assms Some by (simp add: columns_wf_def)
  then have "column_ok sha (sk_chunk key) (c\<lparr>sub_chunks := bt_remove (sk_y key) (sub_chunks c)\<rparr>)"
    by (intro column_ok_sections) (simp_all add: column_ok_def sections_wf_remove)
  then show ?thesis using assms columns_wf_settle [of sha "invalidate_collision_snapshot s"]
    by (simp add: remove_sub_chunk_without_revision_def Let_def Some columns_wf_def)
qed

lemma put_sub_chunk_fields [simp]:
  "loaded_chunks (put_sub_chunk key d s) = loaded_chunks s"
  "authoritative_sub_chunks (put_sub_chunk key d s) = authoritative_sub_chunks s"
  "collision_revisions (put_sub_chunk key d s) = collision_revisions s" "allocator (put_sub_chunk key d s) = allocator s"
  "snapshot_cache (put_sub_chunk key d s) = snapshot_cache s"
  by (simp_all add: put_sub_chunk_def Let_def)

lemma put_sub_chunk_at [simp]:
  "sections_at (put_sub_chunk key d s) k =
    (if k = sk_chunk key then bt_insert (sk_y key) d (sections_at s k) else sections_at s k)"
  "entities_at (put_sub_chunk key d s) k = entities_at s k"
  by (simp_all add: put_sub_chunk_def Let_def) (simp_all add: sections_at_def entities_at_def)

lemma put_sub_chunk_columns:
  assumes "columns_wf sha s" "stored_section d" shows "columns_wf sha (put_sub_chunk key d s)"
proof -
  have ok: "column_ok sha (sk_chunk key) (chunk_or_default s (sk_chunk key))" by (rule columns_wf_default [OF assms(1)])
  show ?thesis unfolding put_sub_chunk_def Let_def
    by (rule columns_wf_put [OF assms(1)])
      (use ok assms(2) in \<open>simp_all add: column_ok_def sections_wf_insert is_bare_def\<close>)
qed

lemma sections_at_wf: "columns_wf sha s \<Longrightarrow> sections_wf (sections_at s key)"
  using columns_wf_default [of sha s key] by (simp add: sections_at_def column_ok_def)

lemma sections_at_invar: "columns_wf sha s \<Longrightarrow> bt_invar (sections_at s key)"
  using sections_at_wf by (auto simp: sections_wf_def)

text \<open>A change of one sub-chunk outside authority is no change of content.\<close>

lemma content_one_section:
  assumes "loaded_chunks t = loaded_chunks s" "authoritative_sub_chunks t = authoritative_sub_chunks s"
    and "\<And>y. y \<noteq> sk_y key \<Longrightarrow> bt_get (sections_at t (sk_chunk key)) y = bt_get (sections_at s (sk_chunk key)) y"
    and "entities_at t (sk_chunk key) = entities_at s (sk_chunk key)" "\<not> is_sub_chunk_loaded s key"
  shows "collision_content t (sk_chunk key) = collision_content s (sk_chunk key)"
proof -
  have "y \<noteq> sk_y key" if "is_sub_chunk_loaded s (from_chunk (sk_chunk key) y)" for y
    using that assms(5) by auto
  then show ?thesis using assms(1-4) by (intro content_eqI) (auto intro: option.rel_refl)
qed

lemma publish_section:
  assumes wf: "store_wf sha s" and reserve: "reserve_loaded_change key s = (Inr reserved, s1)"
    and t: "columns_wf sha t" "allocator t = allocator s1" "collision_revisions t = collision_revisions s"
      "loaded_chunks t = loaded_chunks s" "authoritative_sub_chunks t = authoritative_sub_chunks s"
      "\<And>k. k \<noteq> sk_chunk key \<Longrightarrow> sections_at t k = sections_at s k" "\<And>k. entities_at t k = entities_at s k"
      "snapshot_cache t = None"
    and one: "\<And>y. y \<noteq> sk_y key \<Longrightarrow> bt_get (sections_at t (sk_chunk key)) y = bt_get (sections_at s (sk_chunk key)) y"
  shows "keeps sha s (apply_reserved_revision (sk_chunk key) reserved t)"
  unfolding keeps_def
proof (rule published_change [OF wf reserve [unfolded reserve_loaded_change_def] t(1-3)])
  have res: "reserved = None \<longleftrightarrow> \<not> is_sub_chunk_loaded s key"
    using reserve_if_ok(1) [OF wf reserve [unfolded reserve_loaded_change_def]] .
  show "loaded_chunks t = loaded_chunks s \<and> authoritative_sub_chunks t = authoritative_sub_chunks s \<and>
      (collision_revisions s (sk_chunk key) = None \<or> collision_content t (sk_chunk key) = collision_content s (sk_chunk key))"
    if "reserved = None"
    using content_one_section [OF t(4,5) one t(7)] that res t(4,5) by simp
  show "(sk_chunk key \<in> loaded_chunks t \<or> authoritative_sub_chunks t (sk_chunk key) \<noteq> None) \<and>
      \<not> (sk_chunk key \<in> loaded_chunks t \<and> authoritative_sub_chunks t (sk_chunk key) \<noteq> None) \<and>
      authoritative_sub_chunks t (sk_chunk key) \<noteq> Some {}" if "reserved \<noteq> None"
    using that res wf t(4,5) unfolding store_wf_def authority_wf_def is_sub_chunk_loaded_def
    by (auto simp: ran_def split: option.splits)
qed (use t in simp_all)

lemma remove_sub_chunk_keeps:
  assumes wf: "store_wf sha s" shows "keeps sha s (snd (remove_sub_chunk key s))"
proof (cases "contains_sub_chunk s key")
  case True
  obtain res s1 where res: "reserve_loaded_change key s = (res, s1)" by fastforce
  show ?thesis
  proof (cases res)
    case (Inl e)
    then have "s1 = s" using reserve_if_error [OF wf] res unfolding reserve_loaded_change_def by blast
    then show ?thesis using True res Inl keeps_refl [OF wf] by (simp add: remove_sub_chunk_def)
  next
    case (Inr reserved)
    obtain n where s1: "s1 = s\<lparr>allocator := n\<rparr>"
      using reserve_if_ok(2) [OF wf] res unfolding Inr reserve_loaded_change_def by blast
    have fields: "loaded_chunks s1 = loaded_chunks s" "authoritative_sub_chunks s1 = authoritative_sub_chunks s"
      "collision_revisions s1 = collision_revisions s" by (simp_all add: s1)
    have at: "sections_at s1 = sections_at s" "entities_at s1 = entities_at s" unfolding s1 by (rule at_cong; simp)+
    have cols: "columns_wf sha s1" using wf by (simp add: s1 store_wf_def columns_wf_def)
    let ?t = "snd (remove_sub_chunk_without_revision key s1)"
    have invar: "bt_invar (sections_at s (sk_chunk key))" using wf sections_at_invar by (auto simp: store_wf_def)
    have "keeps sha s (apply_reserved_revision (sk_chunk key) reserved ?t)"
      by (rule publish_section [OF wf res [unfolded Inr]]) (simp_all add: removed_columns [OF cols] at fields bt.lookup_remove [OF invar])
    then show ?thesis using True res Inr by (simp add: remove_sub_chunk_def case_prod_unfold Let_def)
  qed
next
  case False
  then show ?thesis using keeps_refl [OF wf] by (simp add: remove_sub_chunk_def)
qed

lemma commit_sub_chunk_keeps:
  assumes wf: "store_wf sha s" and d: "sub_chunk_wf d" shows "keeps sha s (snd (commit_sub_chunk key d s))"
proof -
  consider "has_no_storages d" | "\<not> has_no_storages d" "case stored_sub_chunk s key of None \<Rightarrow> False | Some current \<Rightarrow> sub_chunk_eq current d"
    | "\<not> has_no_storages d" "\<not> (case stored_sub_chunk s key of None \<Rightarrow> False | Some current \<Rightarrow> sub_chunk_eq current d)" by blast
  then show ?thesis
  proof cases
    case 1
    then show ?thesis using remove_sub_chunk_keeps [OF wf, of key] by (simp add: commit_sub_chunk_def lift_error_def)
  next
    case 2
    then show ?thesis using keeps_refl [OF wf] by (simp add: commit_sub_chunk_def)
  next
    case 3
    obtain res s1 where res: "reserve_loaded_change key s = (res, s1)" by fastforce
    show ?thesis
    proof (cases res)
      case (Inl e)
      then have "s1 = s" using reserve_if_error [OF wf] res unfolding reserve_loaded_change_def by blast
      then show ?thesis using 3 res Inl keeps_refl [OF wf] by (simp add: commit_sub_chunk_def)
    next
      case (Inr reserved)
      obtain n where s1: "s1 = s\<lparr>allocator := n\<rparr>"
        using reserve_if_ok(2) [OF wf] res unfolding Inr reserve_loaded_change_def by blast
    have fields: "loaded_chunks s1 = loaded_chunks s" "authoritative_sub_chunks s1 = authoritative_sub_chunks s"
      "collision_revisions s1 = collision_revisions s" by (simp_all add: s1)
      let ?s1 = "invalidate_collision_snapshot s1"
      have at: "sections_at ?s1 = sections_at s" "entities_at ?s1 = entities_at s" unfolding s1 by (rule at_cong; simp)+
      have cols: "columns_wf sha ?s1" using wf by (simp add: s1 store_wf_def columns_wf_def)
      have stored: "stored_section d" using d 3 by (simp add: stored_section_def)
      have invar: "bt_invar (sections_at s (sk_chunk key))" using wf sections_at_invar by (auto simp: store_wf_def)
      have "keeps sha s (apply_reserved_revision (sk_chunk key) reserved (put_sub_chunk key d ?s1))"
        by (rule publish_section [OF wf res [unfolded Inr]])
          (simp_all add: put_sub_chunk_columns [OF cols stored] at fields bt.lookup_insert [OF invar])
      then show ?thesis using 3 res Inr by (simp add: commit_sub_chunk_def Let_def)
    qed
  qed
qed

end
