(* ===== verification/Store_Entity_Steps.thy ===== *)
theory Store_Entity_Steps
  imports Store_Steps
begin

section \<open>Block-entity operations keep the invariant\<close>

text \<open>The byte totals stay exact, so no \<^verbatim>\<open>expect\<close> on them fails, and a change of geometry gets a revision.\<close>

subsection \<open>Maps of entities\<close>

lemma entity_total_retain: "entity_total es = entity_total (bt_retain P es) + entity_total (bt_retain (\<lambda>k v. \<not> P k v) es)"
  unfolding entity_total_def by (rule bt_total_retain)

lemma entity_total_insert:
  assumes "bt_invar es"
  shows "entity_total (bt_insert k e es) + (case bt_get es k of None \<Rightarrow> 0 | Some p \<Rightarrow> length (nbt_bytes p)) =
    entity_total es + length (nbt_bytes e)"
  unfolding entity_total_def by (rule bt_total_insert [OF assms])

lemma entity_total_extend:
  assumes "bt_invar m" "bt_invar n" "\<And>k. bt_get n k \<noteq> None \<Longrightarrow> bt_get m k = None"
  shows "entity_total (bt_extend m n) = entity_total m + entity_total n" "length (bt_extend m n) = length m + length n"
proof -
  have "entity_total (bt_extend m n) = entity_total m + entity_total n \<and> length (bt_extend m n) = length m + length n"
    using assms
  proof (induction n arbitrary: m)
    case (Cons x n)
    obtain k e where x: "x = (k, e)" by fastforce
    have n: "bt_invar n" and k: "bt_get n k = None"
      using Cons.prems(2) by (auto simp: x bt_invar_Cons bt_keys_def bt_get_def map_of_eq_None_iff)
    have m: "bt_get m k = None" using Cons.prems(3) [of k] by (simp add: x bt_get_def)
    let ?m = "bt_insert k e m"
    have "bt_get ?m k' = None" if "bt_get n k' \<noteq> None" for k'
      using Cons.prems(3) [of k'] that k bt.lookup_insert [OF Cons.prems(1), of k e k']
      by (cases "k' = k") (simp_all add: x bt_get_def)
    then have "entity_total (bt_extend ?m n) = entity_total ?m + entity_total n \<and> length (bt_extend ?m n) = length ?m + length n"
      using Cons.IH [OF bt_invar_insert [OF Cons.prems(1)] n] by blast
    moreover have "entity_total ?m = entity_total m + length (nbt_bytes e)" using entity_total_insert [OF Cons.prems(1), of k e] m by simp
    moreover have "length ?m = Suc (length m)" using bt_length_insert [OF Cons.prems(1), of k e] m by (simp add: bt_contains_def)
    ultimately show ?case by (simp add: bt_extend_def x entity_total_def bt_values_def)
  qed (simp add: bt_extend_def entity_total_def bt_values_def)
  then show "entity_total (bt_extend m n) = entity_total m + entity_total n" "length (bt_extend m n) = length m + length n" by blast+
qed

text \<open>Equal bytes are equal entities, so keeping the resident one changes nothing.\<close>

lemma keep_equal_id:
  assumes "\<And>k e. bt_get previous k = Some e \<Longrightarrow> sound_entity sha e" "bt_invar replacement"
    "\<And>k e. bt_get replacement k = Some e \<Longrightarrow> sound_entity sha e"
  shows "keep_equal_entities previous replacement = replacement"
proof (rule bt_ext)
  show "bt_get (keep_equal_entities previous replacement) k = bt_get replacement k" for k
  proof (cases "bt_get replacement k")
    case (Some e)
    have "p = e" if "bt_get previous k = Some p" "nbt_eq p e" for p
      using sound_entity_eq [OF assms(1) [OF that(1)] assms(3) [OF Some]] that(2) by (simp add: nbt_eq_def)
    then show ?thesis by (auto simp: keep_equal_entities_def bt_get_map_values Some split: option.split)
  qed (simp add: keep_equal_entities_def bt_get_map_values)
qed (simp_all add: keep_equal_entities_def assms(2))

lemma bt_keys_shape_actors: "bt_keys (shape_actors es) = bt_keys (bt_retain (\<lambda>k e. nbt_shape e \<noteq> Shape_None) es)"
  by (simp add: bt_keys_def shape_actors_def bt_retain_def case_prod_unfold o_def)

lemma bt_get_shape_actors:
  "bt_get (shape_actors es) k = map_option nbt_shape (bt_get (bt_retain (\<lambda>k e. nbt_shape e \<noteq> Shape_None) es) k)"
  by (simp add: bt_get_def shape_actors_def bt_retain_def) (induction es; auto)

lemma bt_invar_shape_actors: "bt_invar es \<Longrightarrow> bt_invar (shape_actors es)"
  unfolding bt_invar_def [of "shape_actors es"] bt_keys_shape_actors using bt_invar_retain by (auto simp: bt_invar_def)

lemma shape_actors_eqI:
  assumes "bt_invar es" "bt_invar fs"
    "\<And>k. map_option nbt_shape (bt_get es k) = map_option nbt_shape (bt_get fs k) \<or>
       (\<forall>e. bt_get es k = Some e \<longrightarrow> nbt_shape e = Shape_None) \<and> (\<forall>e. bt_get fs k = Some e \<longrightarrow> nbt_shape e = Shape_None)"
  shows "shape_actors es = shape_actors fs"
proof (rule bt_ext)
  show "bt_get (shape_actors es) k = bt_get (shape_actors fs) k" for k
    using assms(3) [of k] by (cases "bt_get es k"; cases "bt_get fs k") (auto simp: bt_get_shape_actors bt_get_retain assms(1,2))
qed (simp_all add: assms bt_invar_shape_actors)

lemma shape_actors_get:
  assumes "bt_invar es" "bt_invar fs" "shape_actors es = shape_actors fs"
  shows "map_option nbt_shape (bt_get es k) = map_option nbt_shape (bt_get fs k) \<or>
       (\<forall>e. bt_get es k = Some e \<longrightarrow> nbt_shape e = Shape_None) \<and> (\<forall>e. bt_get fs k = Some e \<longrightarrow> nbt_shape e = Shape_None)"
  using arg_cong [OF assms(3), of "\<lambda>l. bt_get l k"] assms(1,2)
  by (auto simp: bt_get_shape_actors bt_get_retain split: option.splits if_splits)

subsection \<open>A reservation published after a commit in between\<close>

lemma reserve_fields [simp]:
  "chunks (snd (reserve_if b s)) = chunks s" "loaded_chunks (snd (reserve_if b s)) = loaded_chunks s"
  "authoritative_sub_chunks (snd (reserve_if b s)) = authoritative_sub_chunks s"
  "collision_revisions (snd (reserve_if b s)) = collision_revisions s" "snapshot_cache (snd (reserve_if b s)) = snapshot_cache s"
  by (simp_all add: reserve_if_def proceed_def allocate_revision_def case_prod_unfold split: sum.split)

lemma reserve_keeps:
  assumes wf: "store_wf sha s" and res: "reserve_if b s = (res, s1)" shows "keeps sha s s1"
proof (rule reserve_if_cases [OF wf res])
  fix n assume s1: "s1 = s\<lparr>allocator := n\<rparr>" "store_wf sha s1" "allocator_grows s s1"
  have "collision_content s1 k = collision_content s k" for k
    by (rule content_same_chunks) (simp_all add: s1(1) at_cong [of "s\<lparr>allocator := n\<rparr>" s])
  then show ?thesis using s1 by (simp add: keeps_def sound_step_def column_step_def snapshot_kept_def)
qed (use keeps_refl [OF wf] in simp_all)

lemma published_after:
  assumes wf: "store_wf sha s" and reserve: "reserve_if b s = (Inr reserved, s1)" and mid: "keeps sha s1 s2"
    and t: "columns_wf sha t" "allocator t = allocator s2" "collision_revisions t = collision_revisions s2"
      "loaded_chunks t = loaded_chunks s2" "authoritative_sub_chunks t = authoritative_sub_chunks s2"
      "snapshot_cache t = snapshot_cache s2"
    and others: "\<And>k. k \<noteq> key \<Longrightarrow> sections_at t k = sections_at s2 k \<and> entities_at t k = entities_at s2 k"
    and quiet: "reserved = None \<Longrightarrow> collision_revisions s2 key = None \<or> collision_content t key = collision_content s2 key"
    and known: "reserved \<noteq> None \<Longrightarrow> collision_revisions s2 key \<noteq> None"
  shows "keeps sha s (apply_reserved_revision key reserved t)"
proof -
  let ?u = "apply_reserved_revision key reserved t"
  have wf2: "store_wf sha s2" and step2: "sound_step s1 s2" using mid by (simp_all add: keeps_def)
  have step: "keeps sha s s2" by (rule keeps_trans [OF reserve_keeps [OF wf reserve] mid])
  have wft: "store_wf sha t" by (rule store_wf_chunks [OF wf2 t(1)]) (use t in simp_all)
  have same: "collision_content t k = collision_content s2 k" if "k \<noteq> key" for k
    using others [OF that] t(4,5) by (intro content_same_chunks) simp_all
  have content_u: "collision_content ?u k = collision_content t k" for k
    by (intro content_same_chunks) (simp_all add: at_cong [of ?u t])
  show ?thesis
  proof (cases rule: reserve_if_cases [OF wf reserve])
    case 1
    then show ?thesis by simp
  next
    case 2
    then have none: "reserved = None" by simp
    have "column_step s2 t k" for k
      using same [of k] quiet [OF none] t(3) by (cases "k = key") (auto simp: column_step_def)
    then have "sound_step s2 t" using t by (simp add: sound_step_def allocator_grows_def snapshot_kept_def)
    then show ?thesis using keeps_trans [OF step] wft none by (simp add: keeps_def)
  next
    case (3 r n)
    then have some: "reserved = Some r" by simp
    have below_mid: "revision_below (allocator s2) r" using 3(6) step2 by (auto simp: publishable_def sound_step_def allocator_grows_def)
    have "revision_number c \<noteq> r" if rev: "collision_revisions s2 k = Some c" for k c
    proof -
      have "column_step s1 s2 k" using step2 by (simp add: sound_step_def)
      then consider "collision_revisions s1 k = Some c" | "\<not> revision_below (allocator s1) (revision_number c)"
        using rev by (auto simp: column_step_def)
      then show ?thesis using 3(6) by cases (auto simp: publishable_def)
    qed
    then have pub: "publishable t r" using 3(6) below_mid t(2,3) by (simp add: publishable_def)
    have u: "store_wf sha ?u" using store_wf_apply [OF wft, of reserved key] pub known t(3) some by simp
    have "\<not> revision_below (allocator s) (max x r)" for x
      using 3(7,8) by (metis less_irrefl max.cobounded2 not_less)
    then have own: "column_step s ?u key"
      using 3(7) unfolding column_step_def some apply_reserved_own by (auto split: option.split)
    have other: "column_step s ?u k" if "k \<noteq> key" for k
      using step same [OF that] content_u [of k] apply_reserved_other [OF that, of reserved t] t(3)
      by (simp add: keeps_def sound_step_def column_step_def)
    have "allocator_grows s ?u" using step t(2) by (simp add: keeps_def sound_step_def allocator_grows_def)
    moreover have "column_step s ?u k" for k using own other by (cases "k = key") simp_all
    moreover have "snapshot_kept s ?u" by (simp add: some snapshot_kept_def apply_reserved_snapshot)
    ultimately show ?thesis using u by (simp add: keeps_def sound_step_def)
  qed
qed

subsection \<open>One sub-chunk's entities\<close>

lemma entities_at_ok: "columns_wf sha s \<Longrightarrow> entities_ok sha key (entities_at s key) (block_entity_bytes (chunk_or_default s key))"
  using columns_wf_default [of sha s key] by (simp add: column_ok_def entities_at_def)

definition replaced :: "sub_chunk_key \<Rightarrow> entity_map \<Rightarrow> entity_map \<Rightarrow> entity_map" where
  "replaced key replacement es = bt_extend (bt_retain (\<lambda>k e. be_sub_chunk k \<noteq> key) es) replacement"

lemma replaced_get:
  assumes "bt_invar es" "scoped_entities sha (Sub_Chunk_Scope key) replacement"
  shows "bt_get (replaced key replacement es) k = (if be_sub_chunk k = key then bt_get replacement k else bt_get es k)"
proof -
  have "bt_invar replacement" using assms(2) by (simp add: scoped_entities_def)
  then have get: "bt_get (replaced key replacement es) k = (case bt_get replacement k of
      None \<Rightarrow> bt_get (bt_retain (\<lambda>k e. be_sub_chunk k \<noteq> key) es) k | Some e \<Rightarrow> Some e)"
    unfolding replaced_def by (rule bt_get_extend [OF bt_invar_retain [OF assms(1)]])
  have "be_sub_chunk k = key" if "bt_get replacement k = Some e" for e
    using assms(2) that by (auto simp: scoped_entities_def in_scope_def)
  then show ?thesis by (auto simp: get bt_get_retain [OF assms(1)] split: option.splits)
qed

lemma replaced_total:
  assumes "bt_invar es" "scoped_entities sha (Sub_Chunk_Scope key) replacement"
  shows "entity_total (replaced key replacement es) =
      entity_total es - entity_total (scope_entities (Some key) es) + entity_total replacement"
    "length (replaced key replacement es) = length es - length (scope_entities (Some key) es) + length replacement"
    "entity_total (scope_entities (Some key) es) \<le> entity_total es"
proof -
  let ?kept = "bt_retain (\<lambda>k e. be_sub_chunk k \<noteq> key) es"
  have "bt_get ?kept k = None" if "bt_get replacement k \<noteq> None" for k
    using assms(2) that by (auto simp: scoped_entities_def in_scope_def bt_get_retain [OF assms(1)] split: option.splits)
  then have ext: "entity_total (replaced key replacement es) = entity_total ?kept + entity_total replacement"
    "length (replaced key replacement es) = length ?kept + length replacement"
    unfolding replaced_def using entity_total_extend [OF bt_invar_retain [OF assms(1)], of replacement] assms(2)
    by (auto simp: scoped_entities_def)
  have "entity_total es = entity_total (scope_entities (Some key) es) + entity_total ?kept"
    "length es = length (scope_entities (Some key) es) + length ?kept"
    unfolding scope_entities_def using entity_total_retain [of es "\<lambda>k e. be_sub_chunk k = key"]
      bt_length_retain [of es "\<lambda>k e. be_sub_chunk k = key"] by simp_all
  then show "entity_total (replaced key replacement es) =
      entity_total es - entity_total (scope_entities (Some key) es) + entity_total replacement"
    "length (replaced key replacement es) = length es - length (scope_entities (Some key) es) + length replacement"
    "entity_total (scope_entities (Some key) es) \<le> entity_total es"
    using ext by simp_all
qed

lemma validate_cases:
  assumes wf: "columns_wf sha s" and d: "scoped_entities sha (Sub_Chunk_Scope key) (entities d)"
  obtains (Refused) e where "validate_sub_chunk_block_entity_replacement key d s = Some (Inl e)"
  | (Accepted) "validate_sub_chunk_block_entity_replacement key d s =
        Some (Inr (entity_total (replaced key (entities d) (entities_at s (sk_chunk key)))))"
      "entities_ok sha (sk_chunk key) (replaced key (entities d) (entities_at s (sk_chunk key)))
        (entity_total (replaced key (entities d) (entities_at s (sk_chunk key))))"
proof -
  let ?es = "entities_at s (sk_chunk key)"
  let ?new = "replaced key (entities d) ?es"
  have ok: "entities_ok sha (sk_chunk key) ?es (block_entity_bytes (chunk_or_default s (sk_chunk key)))"
    by (rule entities_at_ok [OF wf])
  then have invar: "bt_invar ?es" and total: "block_entity_bytes (chunk_or_default s (sk_chunk key)) = entity_total ?es"
    by (simp_all add: entities_ok_def)
  note t = replaced_total [OF invar d]
  have chunk: "be_chunk k = sk_chunk key" if "be_sub_chunk k = key" for k using key_conversions(4) that by metis
  have "bt_invar ?new" using invar by (simp add: replaced_def)
  moreover have "be_chunk k = sk_chunk key \<and> sound_entity sha e" if "bt_get ?new k = Some e" for k e
    using that ok d chunk
    by (cases "be_sub_chunk k = key") (auto simp: replaced_get [OF invar d] entities_ok_def scoped_entities_def in_scope_def)
  ultimately have new_ok: "entities_ok sha (sk_chunk key) ?new (entity_total ?new)"
    if "length ?new \<le> MAX_BLOCK_ENTITIES_PER_CHUNK" "entity_total ?new \<le> MAX_BLOCK_ENTITY_BYTES_PER_CHUNK"
    using that by (auto simp: entities_ok_def)
  have eq: "validate_sub_chunk_block_entity_replacement key d s =
      Some (if length ?new > MAX_BLOCK_ENTITIES_PER_CHUNK then Inl (Too_Many_Entities MAX_BLOCK_ENTITIES_PER_CHUNK)
        else and_then (ensure_chunk_block_entity_bytes (entity_total ?new)) (\<lambda>_. Inr (entity_total ?new)))"
    using t total by (simp add: validate_sub_chunk_block_entity_replacement_def Let_def entities_at_def)
  show ?thesis
  proof (cases "length ?new > MAX_BLOCK_ENTITIES_PER_CHUNK \<or> entity_total ?new > MAX_BLOCK_ENTITY_BYTES_PER_CHUNK")
    case True
    then have "\<exists>e. validate_sub_chunk_block_entity_replacement key d s = Some (Inl e)"
      unfolding eq by (auto simp: ensure_chunk_block_entity_bytes_def)
    then show ?thesis using that(1) by blast
  next
    case False
    then show ?thesis using that(2) new_ok unfolding eq by (simp add: ensure_chunk_block_entity_bytes_def)
  qed
qed

lemma scope_entities_get:
  "bt_invar es \<Longrightarrow> bt_get (scope_entities (Some key) es) k = (if be_sub_chunk k = key then bt_get es k else None)"
  by (auto simp: scope_entities_def bt_get_retain split: option.split)

lemma replaced_shapes:
  assumes invar: "bt_invar es" and r: "scoped_entities sha (Sub_Chunk_Scope key) replacement"
    and shapes: "shape_actors (scope_entities (Some key) es) = shape_actors replacement"
  shows "shape_actors (replaced key replacement es) = shape_actors es"
proof (rule shape_actors_eqI)
  have "bt_invar (scope_entities (Some key) es)" "bt_invar replacement"
    using invar r by (simp_all add: scope_entities_def scoped_entities_def)
  note same = shape_actors_get [OF this shapes]
  show "map_option nbt_shape (bt_get (replaced key replacement es) k) = map_option nbt_shape (bt_get es k) \<or>
      (\<forall>e. bt_get (replaced key replacement es) k = Some e \<longrightarrow> nbt_shape e = Shape_None) \<and>
      (\<forall>e. bt_get es k = Some e \<longrightarrow> nbt_shape e = Shape_None)" for k
    using same [of k] unfolding replaced_get [OF invar r] scope_entities_get [OF invar] by (cases "be_sub_chunk k = key") auto
qed (use invar in \<open>simp_all add: replaced_def\<close>)

lemma replace_fields [simp]:
  "loaded_chunks (replace_sub_chunk_block_entities key r n s) = loaded_chunks s"
  "authoritative_sub_chunks (replace_sub_chunk_block_entities key r n s) = authoritative_sub_chunks s"
  "collision_revisions (replace_sub_chunk_block_entities key r n s) = collision_revisions s"
  "allocator (replace_sub_chunk_block_entities key r n s) = allocator s"
  "snapshot_cache (replace_sub_chunk_block_entities key r n s) = snapshot_cache s"
  by (simp_all add: replace_sub_chunk_block_entities_def Let_def)

lemma replace_at:
  assumes wf: "columns_wf sha s" and r: "scoped_entities sha (Sub_Chunk_Scope key) replacement"
    and ok: "entities_ok sha (sk_chunk key) (replaced key replacement (entities_at s (sk_chunk key))) n"
  shows "sections_at (replace_sub_chunk_block_entities key replacement n s) k = sections_at s k"
    "entities_at (replace_sub_chunk_block_entities key replacement n s) k =
      (if k = sk_chunk key then replaced key replacement (entities_at s k) else entities_at s k)"
    "columns_wf sha (replace_sub_chunk_block_entities key replacement n s)"
proof -
  let ?c = "chunk_or_default s (sk_chunk key)"
  have es: "entities_ok sha (sk_chunk key) (block_entities ?c) (block_entity_bytes ?c)"
    using entities_at_ok [OF wf] by (simp add: entities_at_def)
  then have invar: "bt_invar (block_entities ?c)" by (simp add: entities_ok_def)
  have id: "keep_equal_entities (block_entities ?c) replacement = replacement"
    by (rule keep_equal_id [where sha = sha]) (use es r in \<open>auto simp: entities_ok_def scoped_entities_def\<close>)
  let ?new = "replaced key replacement (block_entities ?c)"
  have same: "?new = block_entities ?c" if "replacement = bt_empty" "scope_entities (Some key) (block_entities ?c) = bt_empty"
  proof (rule bt_ext)
    show "bt_get ?new k = bt_get (block_entities ?c) k" for k
      unfolding replaced_get [OF invar r] using scope_entities_get [OF invar, of key k] that by auto
  qed (simp_all add: invar replaced_def)
  let ?t = "settle_chunk (sk_chunk key) (?c\<lparr>block_entities := ?new, block_entity_bytes := n\<rparr>) s"
  have eq: "replace_sub_chunk_block_entities key replacement n s =
      (if replacement = bt_empty \<and> scope_entities (Some key) (block_entities ?c) = bt_empty then s else ?t)"
    by (simp add: replace_sub_chunk_block_entities_def Let_def id replaced_def)
  show "sections_at (replace_sub_chunk_block_entities key replacement n s) k = sections_at s k"
    by (simp add: eq) (simp add: sections_at_def)
  show "entities_at (replace_sub_chunk_block_entities key replacement n s) k =
      (if k = sk_chunk key then replaced key replacement (entities_at s k) else entities_at s k)"
    using same by (auto simp: eq) (simp_all add: entities_at_def)
  have "columns_wf sha ?t" using columns_wf_settle [OF wf column_ok_entities [OF columns_wf_default [OF wf]]] ok
    by (simp add: entities_at_def)
  then show "columns_wf sha (replace_sub_chunk_block_entities key replacement n s)" using wf by (simp add: eq)
qed

end
