(* ===== verification/Store_Entity_Keeps.thy ===== *)
theory Store_Entity_Keeps
  imports Store_Entity_Steps
begin

section \<open>Commits of block entities\<close>

text \<open>Each commit of block entities ends without a panic, keeps the invariant and is a sound step.\<close>

lemma reserve_actor_replacement_eq:
  "reserve_actor_replacement chunk scope replacement s =
    reserve_if (shape_actors (scope_entities scope (entities_at s chunk)) \<noteq> shape_actors replacement \<and>
      collision_revisions s chunk \<noteq> None) s"
  by (simp add: reserve_actor_replacement_def reserve_actor_change_def entities_at_def chunk_or_default_def empty_chunk_def
      scope_entities_def bt_retain_def bt_empty_def split: option.split)

lemma remove_sub_chunk_fields [simp]:
  "loaded_chunks (snd (remove_sub_chunk key s)) = loaded_chunks s"
  "authoritative_sub_chunks (snd (remove_sub_chunk key s)) = authoritative_sub_chunks s"
  "entities_at (snd (remove_sub_chunk key s)) = entities_at s"
proof -
  have at: "entities_at (snd (reserve_if b s)) = entities_at s" for b by (rule at_cong) simp
  have "entities_at (apply_reserved_revision k r t) = entities_at t" for k r and t :: "'a chunk_store" by (rule at_cong) simp
  then show "loaded_chunks (snd (remove_sub_chunk key s)) = loaded_chunks s"
    "authoritative_sub_chunks (snd (remove_sub_chunk key s)) = authoritative_sub_chunks s"
    "entities_at (snd (remove_sub_chunk key s)) = entities_at s"
    by (simp_all add: remove_sub_chunk_def proceed_def reserve_loaded_change_def case_prod_unfold Let_def at fun_eq_iff
        split: sum.split)
qed

lemma commit_sub_chunk_fields [simp]:
  "loaded_chunks (snd (commit_sub_chunk key d s)) = loaded_chunks s"
  "authoritative_sub_chunks (snd (commit_sub_chunk key d s)) = authoritative_sub_chunks s"
  "entities_at (snd (commit_sub_chunk key d s)) = entities_at s"
proof -
  have at: "entities_at (snd (reserve_if b s)) = entities_at s" for b by (rule at_cong) simp
  have "entities_at (apply_reserved_revision k r t) = entities_at t"
    "entities_at (invalidate_collision_snapshot t) = entities_at t" for k r and t :: "'a chunk_store" by (rule at_cong; simp)+
  then show "loaded_chunks (snd (commit_sub_chunk key d s)) = loaded_chunks s"
    "authoritative_sub_chunks (snd (commit_sub_chunk key d s)) = authoritative_sub_chunks s"
    "entities_at (snd (commit_sub_chunk key d s)) = entities_at s"
    by (simp_all add: commit_sub_chunk_def proceed_def lift_error_def reserve_loaded_change_def case_prod_unfold Let_def at
        fun_eq_iff map_err_def split: sum.split)
qed

lemma dom_revisions:
  assumes "store_wf sha s" "store_wf sha t" "loaded_chunks t = loaded_chunks s"
    "authoritative_sub_chunks t = authoritative_sub_chunks s"
  shows "collision_revisions t key = None \<longleftrightarrow> collision_revisions s key = None"
proof -
  have "dom (collision_revisions t) = dom (collision_revisions s)" using assms by (simp add: store_wf_def authority_wf_def)
  then show ?thesis unfolding dom_def set_eq_iff mem_Collect_eq by blast
qed

text \<open>
  An actor reservation, a commit of the sub-chunk's blocks, and the change of its entities: without a reservation
  the geometry is as it was, or no revision stands for it.
\<close>

lemma keeps_actor_commit:
  assumes wf: "store_wf sha s" and reserve: "reserve_actor_replacement chunk scope replacement s = (Inr actor, s1)"
    and mid: "keeps sha s1 s2" "loaded_chunks s2 = loaded_chunks s1" "authoritative_sub_chunks s2 = authoritative_sub_chunks s1"
      "entities_at s2 = entities_at s1"
    and t: "columns_wf sha t" "allocator t = allocator s2" "collision_revisions t = collision_revisions s2"
      "loaded_chunks t = loaded_chunks s2" "authoritative_sub_chunks t = authoritative_sub_chunks s2"
      "snapshot_cache t = snapshot_cache s2"
    and at: "\<And>k. sections_at t k = sections_at s2 k" "\<And>k. k \<noteq> chunk \<Longrightarrow> entities_at t k = entities_at s2 k"
    and shapes: "shape_actors (scope_entities scope (entities_at s chunk)) = shape_actors replacement \<Longrightarrow>
      shape_actors (entities_at t chunk) = shape_actors (entities_at s chunk)"
  shows "keeps sha s (apply_reserved_revision chunk actor t)"
proof -
  note res = reserve [unfolded reserve_actor_replacement_eq]
  obtain n where s1: "s1 = s\<lparr>allocator := n\<rparr>" using reserve_if_ok(2) [OF wf res] by blast
  have "entities_at s2 = entities_at s" unfolding mid(4) s1 by (rule at_cong) simp
  moreover have rev: "collision_revisions s2 chunk = None \<longleftrightarrow> collision_revisions s chunk = None"
    by (rule dom_revisions [OF wf]) (use mid s1 in \<open>simp_all add: keeps_def\<close>)
  ultimately show ?thesis
    using reserve_if_ok(1) [OF wf res] shapes
    by (intro published_after [OF wf res mid(1) t]) (auto simp: at t intro!: content_eqI option.rel_refl)
qed

subsection \<open>A request-mode sub-chunk\<close>

lemma commit_decoded_keeps:
  assumes wf: "store_wf sha s" and d: "sub_chunk_wf (ds_sub_chunk d)"
    "scoped_entities sha (Sub_Chunk_Scope key) (entities (ds_block_entities d))"
  shows "\<exists>res t. commit_decoded_sub_chunk key d s = Some (res, t) \<and> keeps sha s t"
proof -
  let ?ck = "sk_chunk key" and ?es = "entities (ds_block_entities d)"
  let ?n = "entity_total (replaced key ?es (entities_at s ?ck))"
  have cols: "columns_wf sha s" using wf by (simp add: store_wf_def)
  show ?thesis
  proof (rule validate_cases [OF cols d(2)])
    fix e assume "validate_sub_chunk_block_entity_replacement key (ds_block_entities d) s = Some (Inl e)"
    then show ?thesis using keeps_refl [OF wf] by (simp add: commit_decoded_sub_chunk_def)
  next
    assume v: "validate_sub_chunk_block_entity_replacement key (ds_block_entities d) s = Some (Inr ?n)"
      and ok: "entities_ok sha ?ck (replaced key ?es (entities_at s ?ck)) ?n"
    obtain res s1 where r: "reserve_actor_replacement ?ck (Some key) ?es s = (res, s1)" by fastforce
    have step1: "keeps sha s s1" using reserve_keeps [OF wf] r unfolding reserve_actor_replacement_eq by blast
    then have wf1: "store_wf sha s1" by (simp add: keeps_def)
    have es1: "entities_at s1 = entities_at s"
      using arg_cong [OF r [unfolded reserve_actor_replacement_eq], of "\<lambda>x. chunks (snd x)"] by (intro at_cong) simp
    obtain changed s2 where c: "commit_sub_chunk key (ds_sub_chunk d) s1 = (changed, s2)" by fastforce
    have step2: "keeps sha s1 s2" using commit_sub_chunk_keeps [OF wf1 d(1), of key] c by simp
    have s2: "loaded_chunks s2 = loaded_chunks s1" "authoritative_sub_chunks s2 = authoritative_sub_chunks s1"
      "entities_at s2 = entities_at s1"
      using commit_sub_chunk_fields [of key "ds_sub_chunk d" s1] c by simp_all
    show ?thesis
    proof (cases res)
      case (Inl e)
      then show ?thesis using v r step1 by (simp add: commit_decoded_sub_chunk_def)
    next
      case (Inr actor)
      show ?thesis
      proof (cases changed)
        case (Inl e)
        then show ?thesis using v r \<open>res = Inr actor\<close> c keeps_trans [OF step1 step2] by (simp add: commit_decoded_sub_chunk_def)
      next
        case (Inr ch)
        let ?t = "replace_sub_chunk_block_entities key ?es ?n s2"
        have cols2: "columns_wf sha s2" using step2 by (simp add: keeps_def store_wf_def)
        have invar: "bt_invar (entities_at s ?ck)" using entities_at_ok [OF cols] by (simp add: entities_ok_def)
        have ok2: "entities_ok sha ?ck (replaced key ?es (entities_at s2 ?ck)) ?n" using ok s2(3) es1 by simp
        note t = replace_at [OF cols2 d(2) ok2]
        have "keeps sha s (apply_reserved_revision ?ck actor ?t)"
          by (rule keeps_actor_commit [OF wf r [unfolded \<open>res = Inr actor\<close>] step2 s2 t(3)])
            (simp_all add: t(1,2) s2(3) es1 replaced_shapes [OF invar d(2)])
        then show ?thesis using v r \<open>res = Inr actor\<close> c Inr by (simp add: commit_decoded_sub_chunk_def)
      qed
    qed
  qed
qed

subsection \<open>All air\<close>

lemma clear_total:
  assumes wf: "columns_wf sha s"
  shows "\<exists>t. clear_sub_chunk_block_entities key s = Some t \<and> columns_wf sha t \<and> loaded_chunks t = loaded_chunks s \<and>
    authoritative_sub_chunks t = authoritative_sub_chunks s \<and> collision_revisions t = collision_revisions s \<and>
    allocator t = allocator s \<and> snapshot_cache t = snapshot_cache s \<and> (\<forall>k. sections_at t k = sections_at s k) \<and>
    (\<forall>k. entities_at t k = (if k = sk_chunk key then replaced key bt_empty (entities_at s k) else entities_at s k))"
proof (cases "chunks s (sk_chunk key)")
  case None
  then have "entities_at s (sk_chunk key) = bt_empty" by (simp add: entities_at_def chunk_or_default_def empty_chunk_def)
  then show ?thesis using None wf
    by (simp add: clear_sub_chunk_block_entities_def replaced_def bt_extend_def bt_retain_def bt_empty_def)
next
  case (Some c)
  let ?es = "block_entities c" and ?gone = "entity_total (scope_entities (Some key) (block_entities c))"
  let ?new = "replaced key bt_empty ?es"
  have c: "chunk_or_default s (sk_chunk key) = c" by (simp add: chunk_or_default_def Some)
  have ok: "entities_ok sha (sk_chunk key) ?es (block_entity_bytes c)"
    using entities_at_ok [OF wf, of "sk_chunk key"] by (simp add: entities_at_def c)
  then have invar: "bt_invar ?es" and total: "block_entity_bytes c = entity_total ?es" by (simp_all add: entities_ok_def)
  have none: "scoped_entities sha (Sub_Chunk_Scope key) bt_empty" by (simp add: scoped_entities_def)
  note t = replaced_total [OF invar none]
  have new: "?new = bt_retain (\<lambda>k e. be_sub_chunk k \<noteq> key) ?es" by (simp add: replaced_def bt_extend_def bt_empty_def)
  have "entities_ok sha (sk_chunk key) ?new (entity_total ?new)"
    unfolding entities_ok_def
  proof (intro conjI allI impI)
    show "bt_invar ?new" using invar by (simp add: new)
    show "be_chunk k = sk_chunk key" "sound_entity sha e" if "bt_get ?new k = Some e" for k e
      using that ok by (auto simp: replaced_get [OF invar none] entities_ok_def split: if_splits)
  next
    have "entity_total ?new \<le> entity_total ?es" using t(1) by simp
    moreover have "length ?new \<le> length ?es" using t(2) by (simp add: bt_empty_def)
    ultimately show "entity_total ?new \<le> MAX_BLOCK_ENTITY_BYTES_PER_CHUNK" "length ?new \<le> MAX_BLOCK_ENTITIES_PER_CHUNK"
      using ok by (auto simp: entities_ok_def)
  qed simp
  then have "columns_wf sha (settle_chunk (sk_chunk key) (c\<lparr>block_entities := ?new, block_entity_bytes := entity_total ?new\<rparr>) s)"
    using columns_wf_settle [OF wf column_ok_entities [OF columns_wf_default [OF wf]]] c by metis
  moreover have "entity_total ?new = block_entity_bytes c - ?gone" using t(1) total by simp
  ultimately show ?thesis using t(3) total
    by (simp add: clear_sub_chunk_block_entities_def Some new Let_def) (simp add: sections_at_def entities_at_def c new)
qed

lemma apply_all_air_keeps:
  assumes wf: "store_wf sha s"
  shows "\<exists>res t. apply_all_air key s = Some (res, t) \<and> keeps sha s t"
proof -
  let ?ck = "sk_chunk key"
  have cols: "columns_wf sha s" using wf by (simp add: store_wf_def)
  obtain res s1 where r: "reserve_actor_replacement ?ck (Some key) bt_empty s = (res, s1)" by fastforce
  have step1: "keeps sha s s1" using reserve_keeps [OF wf] r unfolding reserve_actor_replacement_eq by blast
  then have wf1: "store_wf sha s1" by (simp add: keeps_def)
  have es1: "entities_at s1 = entities_at s"
    using arg_cong [OF r [unfolded reserve_actor_replacement_eq], of "\<lambda>x. chunks (snd x)"] by (intro at_cong) simp
  obtain changed s2 where c: "remove_sub_chunk key s1 = (changed, s2)" by fastforce
  have step2: "keeps sha s1 s2" using remove_sub_chunk_keeps [OF wf1, of key] c by simp
  have s2: "loaded_chunks s2 = loaded_chunks s1" "authoritative_sub_chunks s2 = authoritative_sub_chunks s1"
    "entities_at s2 = entities_at s1"
    using remove_sub_chunk_fields [of key s1] c by simp_all
  show ?thesis
  proof (cases "\<exists>e. res = Inl e \<or> changed = Inl e")
    case True
    then show ?thesis using r c step1 keeps_trans [OF step1 step2] by (cases res; cases changed) (auto simp: apply_all_air_def)
  next
    case False
    then obtain actor ch where ok: "res = Inr actor" "changed = Inr ch" by (cases res; cases changed) auto
    have cols2: "columns_wf sha s2" using step2 by (simp add: keeps_def store_wf_def)
    obtain t where t: "clear_sub_chunk_block_entities key s2 = Some t" "columns_wf sha t" "loaded_chunks t = loaded_chunks s2"
      "authoritative_sub_chunks t = authoritative_sub_chunks s2" "collision_revisions t = collision_revisions s2"
      "allocator t = allocator s2" "snapshot_cache t = snapshot_cache s2" "\<And>k. sections_at t k = sections_at s2 k"
      "\<And>k. entities_at t k = (if k = ?ck then replaced key bt_empty (entities_at s2 k) else entities_at s2 k)"
      using clear_total [OF cols2, of key] by blast
    have invar: "bt_invar (entities_at s ?ck)" using entities_at_ok [OF cols] by (simp add: entities_ok_def)
    have none: "scoped_entities sha (Sub_Chunk_Scope key) bt_empty" by (simp add: scoped_entities_def)
    have "keeps sha s (apply_reserved_revision ?ck actor t)"
      by (rule keeps_actor_commit [OF wf r [unfolded ok(1)] step2 s2 t(2,6,5,3,4,7,8)])
        (simp_all add: t(9) s2(3) es1 replaced_shapes [OF invar none])
    then show ?thesis using r c ok t(1) by (simp add: apply_all_air_def)
  qed
qed

subsection \<open>A live update\<close>

lemma bt_lookup_shape_insert:
  assumes invar: "bt_invar es" and same: "(case bt_get es key of None \<Rightarrow> Shape_None | Some p \<Rightarrow> nbt_shape p) = nbt_shape e"
  shows "shape_actors (bt_insert key e es) = shape_actors es"
proof (rule shape_actors_eqI)
  show "map_option nbt_shape (bt_get (bt_insert key e es) k) = map_option nbt_shape (bt_get es k) \<or>
      (\<forall>f. bt_get (bt_insert key e es) k = Some f \<longrightarrow> nbt_shape f = Shape_None) \<and>
      (\<forall>f. bt_get es k = Some f \<longrightarrow> nbt_shape f = Shape_None)" for k
    using same by (cases "k = key"; cases "bt_get es key") (auto simp: bt.lookup_insert [OF invar])
qed (use invar in simp_all)

lemma keeps_entities:
  assumes wf: "store_wf sha s" and reserve: "reserve_if b s = (Inr actor, s1)"
    and t: "columns_wf sha t" "allocator t = allocator s1" "collision_revisions t = collision_revisions s1"
      "loaded_chunks t = loaded_chunks s1" "authoritative_sub_chunks t = authoritative_sub_chunks s1"
      "snapshot_cache t = snapshot_cache s1"
    and at: "\<And>k. sections_at t k = sections_at s1 k" "\<And>k. k \<noteq> key \<Longrightarrow> entities_at t k = entities_at s1 k"
    and shapes: "\<not> b \<Longrightarrow> collision_revisions s key = None \<or> shape_actors (entities_at t key) = shape_actors (entities_at s key)"
    and known: "b \<Longrightarrow> collision_revisions s key \<noteq> None"
  shows "keeps sha s (apply_reserved_revision key actor t)"
proof -
  obtain n where s1: "s1 = s\<lparr>allocator := n\<rparr>" using reserve_if_ok(2) [OF wf reserve] by blast
  have es: "entities_at s1 = entities_at s" unfolding s1 by (rule at_cong) simp
  have rev: "collision_revisions s1 = collision_revisions s" by (simp add: s1)
  have "store_wf sha s1" using reserve_keeps [OF wf reserve] by (simp add: keeps_def)
  then show ?thesis
    using reserve_if_ok(1) [OF wf reserve] shapes known
    by (intro published_after [OF wf reserve keeps_refl t])
      (auto simp: at es rev t intro!: content_eqI option.rel_refl)
qed

lemma store_block_entity_keeps:
  assumes wf: "store_wf sha s" and nbt: "sound_entity sha nbt"
  shows "\<exists>res t. store_block_entity key nbt s = Some (res, t) \<and> keeps sha s t"
proof -
  let ?c = "chunk_or_default s (be_chunk key)"
  let ?es = "block_entities ?c"
  let ?old = "bt_get ?es key"
  let ?previous = "case ?old of None \<Rightarrow> 0 | Some p \<Rightarrow> length (nbt_bytes p)"
  let ?shape = "case ?old of None \<Rightarrow> Shape_None | Some p \<Rightarrow> nbt_shape p"
  let ?new = "bt_insert key nbt ?es"
  have cols: "columns_wf sha s" using wf by (simp add: store_wf_def)
  have ok: "entities_ok sha (be_chunk key) ?es (block_entity_bytes ?c)"
    using entities_at_ok [OF cols, of "be_chunk key"] by (simp add: entities_at_def)
  then have invar: "bt_invar ?es" and total: "block_entity_bytes ?c = entity_total ?es" by (simp_all add: entities_ok_def)
  have new: "entity_total ?new + ?previous = entity_total ?es + length (nbt_bytes nbt)"
    by (rule entity_total_insert [OF invar])
  have le: "?previous \<le> entity_total ?es"
  proof (cases ?old)
    case (Some p)
    then have "p \<in> set (bt_values ?es)" by (rule bt_get_values)
    then show ?thesis using Some by (simp add: entity_total_def member_le_sum_list)
  qed simp
  then have bytes: "block_entity_bytes ?c - ?previous + length (nbt_bytes nbt) = entity_total ?new" using new total by simp
  let ?refused = "?old = None \<and> length ?es = MAX_BLOCK_ENTITIES_PER_CHUNK"
  let ?same = "case ?old of None \<Rightarrow> False | Some current \<Rightarrow> nbt_eq current nbt"
  have eq: "store_block_entity key nbt s = Some (if ?same then (Inr False, s)
      else if ?refused then (Inl (Too_Many_Entities MAX_BLOCK_ENTITIES_PER_CHUNK), s)
      else case ensure_chunk_block_entity_bytes (entity_total ?new) of
             Inl e \<Rightarrow> (Inl e, s)
           | Inr _ \<Rightarrow> proceed (lift_error Revision_Error (reserve_actor_change (be_chunk key) (?shape \<noteq> nbt_shape nbt) s))
               (\<lambda>actor s. (Inr True, apply_reserved_revision (be_chunk key) actor
                 (put_chunk (be_chunk key) (?c\<lparr>block_entities := ?new, block_entity_bytes := entity_total ?new\<rparr>) s))))"
    using le total bytes by (simp add: store_block_entity_def Let_def)
  show ?thesis
  proof (cases "?same \<or> ?refused \<or> MAX_BLOCK_ENTITY_BYTES_PER_CHUNK < entity_total ?new")
    case True
    then show ?thesis using keeps_refl [OF wf] unfolding eq by (auto simp: ensure_chunk_block_entity_bytes_def)
  next
    case False
    obtain res s1 where r: "reserve_actor_change (be_chunk key) (?shape \<noteq> nbt_shape nbt) s = (res, s1)" by fastforce
    note r' = r [unfolded reserve_actor_change_def]
    let ?c' = "?c\<lparr>block_entities := ?new, block_entity_bytes := entity_total ?new\<rparr>"
    let ?t = "put_chunk (be_chunk key) ?c' s1"
    have step1: "keeps sha s s1" by (rule reserve_keeps [OF wf r'])
    have new_ok: "entities_ok sha (be_chunk key) ?new (entity_total ?new)"
      unfolding entities_ok_def
    proof (intro conjI allI impI)
      show "be_chunk k = be_chunk key" "sound_entity sha e" if "bt_get ?new k = Some e" for k e
        using that ok nbt by (auto simp: bt.lookup_insert [OF invar] entities_ok_def split: if_splits)
      have "length ?es \<le> MAX_BLOCK_ENTITIES_PER_CHUNK" using ok by (simp add: entities_ok_def)
      moreover have "?old = None \<longrightarrow> length ?es \<noteq> MAX_BLOCK_ENTITIES_PER_CHUNK" using False by blast
      ultimately show "length ?new \<le> MAX_BLOCK_ENTITIES_PER_CHUNK"
        using bt_length_insert [OF invar, of key nbt] by (cases ?old) (simp_all add: bt_contains_def)
      show "entity_total ?new \<le> MAX_BLOCK_ENTITY_BYTES_PER_CHUNK" using False by linarith
    qed (simp_all add: invar)
    have cols': "columns_wf sha ?t"
      by (rule columns_wf_put)
        (use step1 column_ok_entities [OF columns_wf_default [OF cols] new_ok] in \<open>simp_all add: keeps_def store_wf_def is_bare_def\<close>)
    have facts: "?same = False" "?refused = False" "ensure_chunk_block_entity_bytes (entity_total ?new) = Inr ()"
      using False by (simp_all add: ensure_chunk_block_entity_bytes_def)
    have result: "store_block_entity key nbt s = Some (case res of Inl e \<Rightarrow> (Inl (Revision_Error e), s1)
        | Inr actor \<Rightarrow> (Inr True, apply_reserved_revision (be_chunk key) actor ?t))"
      unfolding eq facts if_False by (cases res) (simp_all add: r)
    show ?thesis
    proof (cases res)
      case (Inl e)
      then show ?thesis using result step1 by simp
    next
      case (Inr actor)
      have es: "entities_at s1 = entities_at s" "sections_at s1 = sections_at s"
        using arg_cong [OF r', of "\<lambda>x. chunks (snd x)"] by (auto intro: at_cong)
      have at: "sub_chunks ?c = sections_at s (be_chunk key)" "?es = entities_at s (be_chunk key)"
        by (simp_all add: sections_at_def entities_at_def)
      have "keeps sha s (apply_reserved_revision (be_chunk key) actor ?t)"
        by (rule keeps_entities [OF wf r' [unfolded Inr] cols'])
          (use bt_lookup_shape_insert [OF invar] in \<open>auto simp: es at\<close>)
      then show ?thesis using result Inr by simp
    qed
  qed
qed

lemma commit_block_entity_update_keeps:
  assumes "store_wf sha s" "sound_entity sha nbt"
  shows "\<exists>res t. commit_block_entity_update key nbt s = Some (res, t) \<and> keeps sha s t"
  using store_block_entity_keeps [OF assms] keeps_refl [OF assms(1)]
  by (auto simp: commit_block_entity_update_def split: option.split)

subsection \<open>A whole column's entities\<close>

lemma commit_chunk_block_entities_keeps:
  assumes wf: "store_wf sha s" and d: "entities_ok sha key (entities d) (entity_total (entities d))"
  shows "keeps sha s (snd (commit_chunk_block_entities key d s))"
proof -
  let ?es = "entities d"
  have cols: "columns_wf sha s" using wf by (simp add: store_wf_def)
  obtain res s1 where r: "reserve_actor_replacement key None ?es s = (res, s1)" by fastforce
  note r' = r [unfolded reserve_actor_replacement_eq]
  have step1: "keeps sha s s1" by (rule reserve_keeps [OF wf r'])
  have chunks1: "chunks s1 = chunks s" using arg_cong [OF r', of "\<lambda>x. chunks (snd x)"] by simp
  have es: "entities_at s1 = entities_at s" "sections_at s1 = sections_at s" by (rule at_cong; rule chunks1)+
  have c1: "chunk_or_default s1 key = chunk_or_default s key" by (simp add: chunk_or_default_def chunks1)
  have cols1: "columns_wf sha s1" using step1 by (simp add: keeps_def store_wf_def)
  show ?thesis
  proof (cases res)
    case (Inl e)
    then show ?thesis using r step1 by (simp add: commit_chunk_block_entities_def)
  next
    case (Inr actor)
    let ?c = "chunk_or_default s key"
    have ok: "entities_ok sha key (block_entities ?c) (block_entity_bytes ?c)"
      using entities_at_ok [OF cols, of key] by (simp add: entities_at_def)
    have id: "keep_equal_entities (block_entities ?c) ?es = ?es"
      by (rule keep_equal_id [where sha = sha]) (use ok d in \<open>auto simp: entities_ok_def\<close>)
    show ?thesis
    proof (cases "?es = bt_empty \<and> chunks s key = None")
      case True
      then show ?thesis using r Inr step1 id c1 chunks1 by (simp add: commit_chunk_block_entities_def Let_def)
    next
      case False
      let ?t = "settle_chunk key (?c\<lparr>block_entities := ?es, block_entity_bytes := entity_total ?es\<rparr>) s1"
      have cols': "columns_wf sha ?t"
        by (rule columns_wf_settle [OF cols1 column_ok_entities [OF columns_wf_default [OF cols] d]])
      have at: "sub_chunks ?c = sections_at s key" by (simp add: sections_at_def)
      have all: "scope_entities None (entities_at s key) = entities_at s key"
        by (simp add: scope_entities_def bt_retain_def)
      have "keeps sha s (apply_reserved_revision key actor ?t)"
        by (rule keeps_entities [OF wf r' [unfolded Inr] cols']) (auto simp: all es at)
      then show ?thesis using r Inr id c1 chunks1 False by (auto simp: commit_chunk_block_entities_def Let_def)
    qed
  qed
qed

end
