(* ===== verification/Store_Column_Keeps.thy ===== *)
theory Store_Column_Keeps
  imports Store_Entity_Keeps
begin

section \<open>Commits of block updates and columns\<close>

text \<open>Batches of prepared updates, eviction, biomes, whole columns and snapshots keep the invariant.\<close>

subsection \<open>Prepared batches\<close>

definition mutation_ok :: "'c prepared_mutation \<Rightarrow> bool" where
  "mutation_ok m \<longleftrightarrow> (mutation_changed m \<longrightarrow> pred_option stored_section (mutation_replacement m))"

lemma commit_mutation_step:
  assumes wf: "columns_wf sha s" and m: "mutation_ok m"
  shows "\<exists>t. commit_mutation m (acc, s) = (acc @ (if mutation_changed m then [mutation_key m] else []), t) \<and>
    columns_wf sha t \<and> loaded_chunks t = loaded_chunks s \<and> authoritative_sub_chunks t = authoritative_sub_chunks s \<and>
    collision_revisions t = collision_revisions s \<and> allocator t = allocator s \<and> entities_at t = entities_at s \<and>
    (snapshot_cache t = None \<or> snapshot_cache t = snapshot_cache s) \<and> (\<not> mutation_changed m \<longrightarrow> t = s) \<and>
    (\<forall>key. (mutation_changed m \<longrightarrow> mutation_key m \<noteq> key) \<longrightarrow> stored_sub_chunk t key = stored_sub_chunk s key)"
proof (cases "mutation_changed m")
  case True
  let ?key = "mutation_key m"
  have invar: "bt_invar (sections_at s (sk_chunk ?key))" by (rule sections_at_invar [OF wf])
  have key: "sk_y k \<noteq> sk_y ?key" if "k \<noteq> ?key" "sk_chunk k = sk_chunk ?key" for k
    using that by (metis key_conversions(3))
  show ?thesis
  proof (cases "mutation_replacement m")
    case None
    have "stored_sub_chunk (snd (remove_sub_chunk_without_revision ?key s)) k = stored_sub_chunk s k" if "k \<noteq> ?key" for k
      using key [OF that] by (simp add: stored_sub_chunk_at bt.lookup_remove [OF invar])
    then show ?thesis using True None removed_columns [OF wf, of ?key] by (auto simp: commit_mutation_def fun_eq_iff)
  next
    case (Some r)
    have "stored_section r" using m Some True by (simp add: mutation_ok_def)
    moreover have "stored_sub_chunk (put_sub_chunk ?key r s) k = stored_sub_chunk s k" if "k \<noteq> ?key" for k
      using key [OF that] by (simp add: stored_sub_chunk_at bt.lookup_insert [OF invar])
    ultimately show ?thesis using True Some put_sub_chunk_columns [OF wf, of r ?key] by (auto simp: commit_mutation_def fun_eq_iff)
  qed
qed (simp add: commit_mutation_def wf)

lemma commit_mutations:
  assumes "columns_wf sha s" "list_all mutation_ok ms"
  shows "\<exists>t. fold commit_mutation ms (acc, s) = (acc @ map mutation_key (filter mutation_changed ms), t) \<and>
    columns_wf sha t \<and> loaded_chunks t = loaded_chunks s \<and> authoritative_sub_chunks t = authoritative_sub_chunks s \<and>
    collision_revisions t = collision_revisions s \<and> allocator t = allocator s \<and> entities_at t = entities_at s \<and>
    (snapshot_cache t = None \<or> snapshot_cache t = snapshot_cache s) \<and> (filter mutation_changed ms = [] \<longrightarrow> t = s) \<and>
    (\<forall>key. key \<notin> set (map mutation_key (filter mutation_changed ms)) \<longrightarrow> stored_sub_chunk t key = stored_sub_chunk s key)"
  using assms
proof (induction ms arbitrary: acc s)
  case (Cons m ms)
  obtain t where t: "commit_mutation m (acc, s) = (acc @ (if mutation_changed m then [mutation_key m] else []), t)"
    "columns_wf sha t" "loaded_chunks t = loaded_chunks s" "authoritative_sub_chunks t = authoritative_sub_chunks s"
    "collision_revisions t = collision_revisions s" "allocator t = allocator s" "entities_at t = entities_at s"
    "snapshot_cache t = None \<or> snapshot_cache t = snapshot_cache s" "\<not> mutation_changed m \<longrightarrow> t = s"
    "\<forall>key. (mutation_changed m \<longrightarrow> mutation_key m \<noteq> key) \<longrightarrow> stored_sub_chunk t key = stored_sub_chunk s key"
    using commit_mutation_step [OF Cons.prems(1), of m acc] Cons.prems(2) by auto
  have "list_all mutation_ok ms" using Cons.prems(2) by simp
  from Cons.IH [OF t(2) this, of "acc @ (if mutation_changed m then [mutation_key m] else [])"]
  show ?case using t by (auto 0 3)
qed simp

text \<open>The revisions of the batch, one for each column.\<close>

lemma set_revision_fields [simp]:
  "chunks (set_collision_revision k r s) = chunks s" "loaded_chunks (set_collision_revision k r s) = loaded_chunks s"
  "authoritative_sub_chunks (set_collision_revision k r s) = authoritative_sub_chunks s"
  "allocator (set_collision_revision k r s) = allocator s" "snapshot_cache (set_collision_revision k r s) = None"
  "collision_revisions (set_collision_revision k r s) =
    (collision_revisions s)(k \<mapsto> \<lparr>revision_chunk = k, revision_number = r\<rparr>)"
  by (simp_all add: set_collision_revision_def)

lemma set_revisions:
  assumes "distinct (map fst krs)"
  shows "chunks (fold (\<lambda>(k, r). set_collision_revision k r) krs s) = chunks s \<and>
    loaded_chunks (fold (\<lambda>(k, r). set_collision_revision k r) krs s) = loaded_chunks s \<and>
    authoritative_sub_chunks (fold (\<lambda>(k, r). set_collision_revision k r) krs s) = authoritative_sub_chunks s \<and>
    allocator (fold (\<lambda>(k, r). set_collision_revision k r) krs s) = allocator s \<and>
    snapshot_cache (fold (\<lambda>(k, r). set_collision_revision k r) krs s) = (if krs = [] then snapshot_cache s else None) \<and>
    collision_revisions (fold (\<lambda>(k, r). set_collision_revision k r) krs s) =
      (\<lambda>key. case map_of krs key of Some r \<Rightarrow> Some \<lparr>revision_chunk = key, revision_number = r\<rparr>
        | None \<Rightarrow> collision_revisions s key)"
  using assms
proof (induction krs arbitrary: s)
  case (Cons x krs)
  obtain k r where x: "x = (k, r)" by fastforce
  have "map_of krs k = None" using Cons.prems by (simp add: x map_of_eq_None_iff)
  then show ?case using Cons.IH [of "set_collision_revision k r s"] Cons.prems
    by (auto simp: x fun_eq_iff split: option.split)
qed simp

text \<open>Each column of a batch has an identity of its own.\<close>

lemma batch_some: "map_of (zip ks rs) k = Some r \<Longrightarrow> r \<in> set rs"
  by (drule map_of_SomeD) (rule set_zip_rightD)

lemma batch_in: "length rs = length ks \<Longrightarrow> map_of (zip ks rs) k \<noteq> None \<longleftrightarrow> k \<in> set ks"
  using map_of_zip_is_None [of ks rs k] by auto

lemma batch_inj:
  assumes "distinct rs" "map_of (zip ks rs) k = Some r" "map_of (zip ks rs) k' = Some r"
  shows "k = k'"
proof -
  obtain i j where "i < length ks" "i < length rs" "ks ! i = k" "rs ! i = r"
    "j < length ks" "j < length rs" "ks ! j = k'" "rs ! j = r"
    using map_of_SomeD [OF assms(2)] map_of_SomeD [OF assms(3)] by (auto simp: in_set_zip)
  then show ?thesis using assms(1) by (metis nth_eq_iff_index_eq)
qed

lemma in_mapped_set: "m \<in> set ms \<Longrightarrow> f m = k \<Longrightarrow> k \<in> set (bt_set (map f ms))"
  by auto

text \<open>Publishing a batch: a column outside it keeps its content.\<close>

lemma published_batch:
  assumes wf: "store_wf sha s" and alloc: "allocate_batch (allocator s) (length ks) = (Inr rs, n)"
    and ks: "distinct ks" "\<And>k. k \<in> set ks \<Longrightarrow> collision_revisions s k \<noteq> None"
    and t: "columns_wf sha t" "allocator t = n" "loaded_chunks t = loaded_chunks s"
      "authoritative_sub_chunks t = authoritative_sub_chunks s" "collision_revisions t = collision_revisions s"
    and content: "\<And>k. k \<notin> set ks \<Longrightarrow> collision_content t k = collision_content s k"
    and cache: "snapshot_cache t = None \<or> snapshot_cache t = snapshot_cache s"
  shows "keeps sha s (fold (\<lambda>(k, r). set_collision_revision k r) (zip ks rs) t)" (is "keeps sha s ?u")
proof -
  have inv: "revision_invar (allocator s)" using wf by (simp add: revision_invar_def store_wf_def revisions_wf_def)
  have len: "length rs = length ks" "sorted_wrt (<) rs" using revisions.alloc_count [OF inv alloc] by simp_all
  have fresh: "\<not> revision_below (allocator s) r" "revision_below n r" if "r \<in> set rs" for r
    using revisions.alloc_fresh [OF inv alloc that] by simp_all
  have grows: "revision_below n r" if "revision_below (allocator s) r" for r
    using revisions.alloc_mono [OF inv that, of "length ks"] by (simp add: alloc)
  have bound: "n < u64_bound" using revisions.alloc_invar [OF inv, of "length ks"] by (simp add: alloc revision_invar_def)
  have keys: "map fst (zip ks rs) = ks" using len(1) by simp
  have "distinct (map fst (zip ks rs))" by (simp only: keys ks)
  note u = set_revisions [OF this, of t, unfolded t(2-5)]
  have rev_u: "collision_revisions ?u k = (case map_of (zip ks rs) k of
      Some r \<Rightarrow> Some \<lparr>revision_chunk = k, revision_number = r\<rparr> | None \<Rightarrow> collision_revisions s k)" for k
    using u by simp
  have "distinct rs" using len(2) by (simp add: strict_sorted_iff)
  note in_rs = batch_some [of ks rs] and in_ks = batch_in [OF len(1)] and inj = batch_inj [OF \<open>distinct rs\<close>, of ks]
  have old: "revision_chunk c = k \<and> 0 < revision_number c \<and> revision_below (allocator s) (revision_number c)"
    if "collision_revisions s k = Some c" for k c
    using wf that by (simp add: store_wf_def revisions_wf_def)
  have zero: "0 \<notin> set rs" using fresh(1) [of 0] by (auto simp: revision_below_def u64_bound_def)
  have "revisions_wf ?u"
    unfolding revisions_wf_def
  proof (intro conjI allI impI)
    show "allocator ?u < u64_bound" using u bound by simp
    show "revision_chunk c = k" "0 < revision_number c" "revision_below (allocator ?u) (revision_number c)"
      if "collision_revisions ?u k = Some c" for k c
      using that old [of k c] grows fresh(2) in_rs [of k] zero u by (auto simp: rev_u split: option.splits) (metis neq0_conv)
    show "k = k'" if "collision_revisions ?u k = Some c" "collision_revisions ?u k' = Some c'" "revision_number c = revision_number c'"
      for k k' c c'
    proof (cases "map_of (zip ks rs) k"; cases "map_of (zip ks rs) k'")
      assume "map_of (zip ks rs) k = None" "map_of (zip ks rs) k' = None"
      then show ?thesis using that wf unfolding rev_u by (simp add: store_wf_def revisions_wf_def)
    next
      fix r assume "map_of (zip ks rs) k = None" "map_of (zip ks rs) k' = Some r"
      then show ?thesis using that old [of k c] fresh(1) [OF in_rs, of k' r] unfolding rev_u by auto
    next
      fix r assume "map_of (zip ks rs) k = Some r" "map_of (zip ks rs) k' = None"
      then show ?thesis using that old [of k' c'] fresh(1) [OF in_rs, of k r] unfolding rev_u by auto
    next
      fix r r' assume "map_of (zip ks rs) k = Some r" "map_of (zip ks rs) k' = Some r'"
      then show ?thesis using that inj [of k r k'] unfolding rev_u by auto
    qed
  qed
  moreover have "authority_wf ?u"
  proof -
    have "(collision_revisions ?u k = None) = (collision_revisions s k = None)" for k
      using ks(2) [of k] in_ks [of k] unfolding rev_u by (auto split: option.split)
    then have "dom (collision_revisions ?u) = dom (collision_revisions s)" unfolding dom_def by simp
    then show ?thesis using wf u by (simp add: store_wf_def authority_wf_def)
  qed
  moreover have "columns_wf sha ?u" using u t(1) by (simp add: columns_wf_def)
  moreover have "column_step s ?u k" for k
  proof (cases "map_of (zip ks rs) k")
    case (Some r)
    then show ?thesis using fresh(1) [OF in_rs [OF Some]] rev_u [of k] by (auto simp: column_step_def)
  next
    case None
    then have "collision_content t k = collision_content s k" using in_ks content by blast
    moreover have "sections_at ?u = sections_at t" "entities_at ?u = entities_at t" by (rule at_cong; use u in simp)+
    then have "collision_content ?u k = collision_content t k" by (intro content_same_chunks) (use u t in simp_all)
    ultimately show ?thesis using rev_u [of k] None by (simp add: column_step_def)
  qed
  moreover have "snapshot_kept s ?u" using u cache by (auto simp: snapshot_kept_def)
  ultimately show ?thesis using u grows by (simp add: keeps_def sound_step_def store_wf_def allocator_grows_def)
qed

lemma commit_prepared_keeps:
  assumes wf: "store_wf sha s" and ms: "list_all mutation_ok ms"
  shows "keeps sha s (snd (commit_prepared_block_updates ms s))"
proof -
  let ?known = "filter (\<lambda>m. mutation_changed m \<and> is_sub_chunk_loaded s (mutation_key m)) ms"
  let ?cols = "bt_set (map (\<lambda>m. sk_chunk (mutation_key m)) ?known)"
  let ?moved = "map mutation_key (filter mutation_changed ms)"
  have inv: "revision_invar (allocator s)" using wf by (simp add: revision_invar_def store_wf_def revisions_wf_def)
  obtain res n where alloc: "allocate_batch (allocator s) (length ?cols) = (res, n)" by fastforce
  show ?thesis
  proof (cases res)
    case (Inl e)
    then have "n = allocator s" using revisions.alloc_error [OF inv] alloc by simp
    then have "s\<lparr>allocator := n\<rparr> = s" by simp
    then show ?thesis using alloc Inl keeps_refl [OF wf] by (simp add: commit_prepared_block_updates_def Let_def)
  next
    case (Inr rs)
    note alloc = alloc [unfolded Inr]
    let ?s1 = "s\<lparr>allocator := n\<rparr>"
    have cols1: "columns_wf sha ?s1" using wf by (simp add: store_wf_def columns_wf_def)
    obtain t where t: "fold commit_mutation ms ([], ?s1) = (?moved, t)" "columns_wf sha t" "loaded_chunks t = loaded_chunks s"
      "authoritative_sub_chunks t = authoritative_sub_chunks s" "collision_revisions t = collision_revisions s" "allocator t = n"
      "entities_at t = entities_at ?s1" "snapshot_cache t = None \<or> snapshot_cache t = snapshot_cache s"
      "\<And>key. key \<notin> set ?moved \<Longrightarrow> stored_sub_chunk t key = stored_sub_chunk ?s1 key"
      using commit_mutations [OF cols1 ms, of "[]"] by auto
    let ?t = "if ?moved \<noteq> [] then invalidate_collision_snapshot t else t"
    have result: "snd (commit_prepared_block_updates ms s) = fold (\<lambda>(k, r). set_collision_revision k r) (zip ?cols rs) ?t"
      unfolding commit_prepared_block_updates_def Let_def alloc prod.case sum.case t(1) snd_conv ..
    have s1: "entities_at ?s1 = entities_at s" "sections_at ?s1 = sections_at s" by (rule at_cong; simp)+
    have content: "collision_content t k = collision_content s k" if k: "k \<notin> set ?cols" for k
    proof (rule content_eqI)
      fix y assume l: "is_sub_chunk_loaded s (from_chunk k y)"
      have "from_chunk k y \<notin> set ?moved"
      proof
        assume "from_chunk k y \<in> set ?moved"
        then obtain m where m: "m \<in> set ms" "mutation_changed m" "mutation_key m = from_chunk k y" by auto
        then have "m \<in> set ?known" "sk_chunk (mutation_key m) = k" using l by (simp_all add: key_conversions(1))
        then have "k \<in> set ?cols" by (rule in_mapped_set)
        then show False using k by blast
      qed
      then show "rel_option same_blocks (bt_get (sections_at t k) y) (bt_get (sections_at s k) y)"
        using t(9) [of "from_chunk k y"] unfolding stored_sub_chunk_at s1 by (auto intro: option.rel_refl)
    qed (simp_all add: t s1)
    have at: "sections_at ?t = sections_at t" "entities_at ?t = entities_at t" by (rule at_cong; simp)+
    have fields: "loaded_chunks ?t = loaded_chunks t" "authoritative_sub_chunks ?t = authoritative_sub_chunks t" by simp_all
    show ?thesis
      unfolding result
    proof (rule published_batch [OF wf alloc])
      show "collision_revisions s k \<noteq> None" if "k \<in> set ?cols" for k using that loaded_has_revision [OF wf] by auto
      show "collision_content ?t k = collision_content s k" if "k \<notin> set ?cols" for k
      proof -
        have "collision_content ?t k = collision_content t k" by (rule content_same_chunks [OF fields]) (simp_all only: at)
        then show ?thesis using content [OF that] by simp
      qed
    qed (use t in \<open>auto simp: columns_wf_def\<close>)
  qed
qed

subsection \<open>Eviction\<close>

lemma restrict_forget: "m(k := None) |` (- set ks) = m |` (- set (k # ks))"
  by (auto simp: restrict_map_def fun_eq_iff)

lemma detach_fold:
  "snd (fold detach_chunk ks (acc, s)) = s\<lparr>authoritative_sub_chunks := authoritative_sub_chunks s |` (- set ks),
     loaded_chunks := loaded_chunks s - set ks, collision_revisions := collision_revisions s |` (- set ks),
     chunks := chunks s |` (- set ks)\<rparr>"
proof (induction ks arbitrary: acc s)
  case (Cons k ks)
  obtain acc' where "detach_chunk k (acc, s) = (acc', s\<lparr>authoritative_sub_chunks := (authoritative_sub_chunks s)(k := None),
      loaded_chunks := loaded_chunks s - {k}, collision_revisions := (collision_revisions s)(k := None),
      chunks := (chunks s)(k := None)\<rparr>)"
    by (cases acc) (auto simp: detach_chunk_def)
  moreover have "loaded_chunks s - {k} - set ks = loaded_chunks s - set (k # ks)" by auto
  ultimately show ?case using Cons.IH [of acc']
    by (simp add: restrict_forget del: list.set(2) fun_upd_apply restrict_fun_upd)
qed (simp add: restrict_map_def)

lemma detach_chunks_keeps:
  assumes wf: "store_wf sha s" shows "keeps sha s (snd (detach_chunks ks s))"
proof -
  let ?s = "if ks \<noteq> [] then invalidate_collision_snapshot s else s"
  let ?t = "snd (detach_chunks ks s)"
  have t: "loaded_chunks ?t = loaded_chunks s - set ks" "chunks ?t = chunks s |` (- set ks)"
    "authoritative_sub_chunks ?t = authoritative_sub_chunks s |` (- set ks)"
    "collision_revisions ?t = collision_revisions s |` (- set ks)" "allocator ?t = allocator s"
    "snapshot_cache ?t = snapshot_cache ?s"
    by (simp_all add: detach_chunks_def detach_fold)
  have "columns_wf sha ?t" using wf by (simp add: store_wf_def columns_wf_def t restrict_map_def)
  moreover have "authority_wf ?t" using wf unfolding store_wf_def authority_wf_def t
    by (auto simp: restrict_map_def dom_def ran_def split: if_splits)
  moreover have "revisions_wf ?t" using wf unfolding store_wf_def revisions_wf_def t
    by (auto simp: restrict_map_def split: if_splits)
  moreover have "column_step s ?t k" for k
  proof (cases "k \<in> set ks")
    case False
    then have "chunk_or_default ?t k = chunk_or_default s k" by (simp add: chunk_or_default_def t)
    then have "collision_content ?t k = collision_content s k" using False
      by (intro content_eqI) (simp_all add: t sections_at_def entities_at_def option.rel_refl)
    then show ?thesis using False by (simp add: column_step_def t)
  qed (simp add: column_step_def t)
  moreover have "snapshot_kept s ?t"
  proof (cases ks)
    case Nil
    have "?t = s" by (simp add: Nil detach_chunks_def)
    then show ?thesis by (simp add: snapshot_kept_def)
  next
    case (Cons k ks')
    then have "snapshot_cache ?t = None" unfolding t(6) by simp
    then show ?thesis by (simp add: snapshot_kept_def)
  qed
  ultimately show ?thesis by (simp add: keeps_def sound_step_def store_wf_def allocator_grows_def t)
qed

lemma evict_chunk_keeps: "store_wf sha s \<Longrightarrow> keeps sha s (snd (evict_chunk key s))"
  using detach_chunks_keeps [of sha s "[key]"] by (simp add: evict_chunk_def case_prod_unfold Let_def)

subsection \<open>Biomes\<close>

definition biomes_ok :: "decoded_biome_column \<Rightarrow> bool" where
  "biomes_ok b \<longleftrightarrow> list_all storage_wf (biome_storages b) \<and> length (biome_storages b) \<le> 2147483648"

lemma reuse_equal_biomes_wf:
  assumes b: "biomes_ok b" and p: "pred_option (\<lambda>b. list_all storage_wf (biome_storages b)) previous"
  shows "\<exists>c. reuse_equal_biomes b previous = Some c \<and> list_all storage_wf (biome_storages c) \<and>
    base_sub_chunk_y c = base_sub_chunk_y b \<and> length (biome_storages c) = length (biome_storages b)"
proof (cases previous)
  case None
  then show ?thesis using b by (simp add: reuse_equal_biomes_def biomes_ok_def)
next
  case (Some q)
  have stored: "storage_wf st" if "column_storage q y = Some st" for y st
    using that p Some by (auto simp: column_storage_iff list_all_length)
  have fresh: "storage_wf st" if "(i, st) \<in> set (enumerate 0 (biome_storages b))" for i st
    using that b by (auto simp: biomes_ok_def list_all_iff in_set_enumerate_eq)
  have "storage_wf (case checked_add_i32 (base_sub_chunk_y b) (int i) of None \<Rightarrow> st
      | Some y \<Rightarrow> (case column_storage q y of None \<Rightarrow> st | Some p \<Rightarrow> (if storage_eq p st then p else st)))"
    if "(i, st) \<in> set (enumerate 0 (biome_storages b))" for i st
    using fresh [OF that] stored by (auto split: option.split)
  then show ?thesis using b by (simp add: reuse_equal_biomes_def Some biomes_ok_def list_all_iff case_prod_unfold)
qed

lemma commit_biome_column_keeps:
  assumes wf: "store_wf sha s" and b: "biomes_ok b"
  shows "\<exists>dirty t. commit_biome_column key b s = Some (dirty, t) \<and> keeps sha s t"
proof -
  let ?c = "chunk_or_default s key"
  have cols: "columns_wf sha s" using wf by (simp add: store_wf_def)
  have ok: "column_ok sha key ?c" by (rule columns_wf_default [OF cols])
  have previous: "chunks s key \<bind> biomes = biomes ?c" by (simp add: chunk_or_default_def empty_chunk_def split: option.split)
  obtain c where c: "reuse_equal_biomes b (biomes ?c) = Some c" "list_all storage_wf (biome_storages c)"
    using reuse_equal_biomes_wf [OF b, of "biomes ?c"] ok by (auto simp: column_ok_def)
  let ?t = "put_chunk key (?c\<lparr>biomes := Some c\<rparr>) s"
  have t: "columns_wf sha ?t"
    by (rule columns_wf_put [OF cols]) (use ok c(2) in \<open>simp_all add: column_ok_def is_bare_def\<close>)
  have none: "reserve_if False s = (Inr None, s)" by (simp add: reserve_if_def)
  have at: "sub_chunks ?c = sections_at s key" "block_entities ?c = entities_at s key"
    by (simp_all add: sections_at_def entities_at_def)
  have "keeps sha s (apply_reserved_revision key None ?t)"
    by (rule keeps_entities [OF wf none t]) (auto simp: at)
  then show ?thesis using c(1) by (simp add: commit_biome_column_def previous)
qed

subsection \<open>Snapshots\<close>

lemma collision_snapshot_store:
  "snd (collision_snapshot alive s) = s \<or>
    snd (collision_snapshot alive s) = s\<lparr>snapshot_cache := Some (collision_view_of s)\<rparr>"
  by (auto simp: collision_snapshot_def split: bool.split option.split)

lemma collision_snapshot_wf:
  assumes "store_wf sha s" shows "store_wf sha (snd (collision_snapshot alive s))"
  using collision_snapshot_store [of alive s]
proof
  assume "snd (collision_snapshot alive s) = s\<lparr>snapshot_cache := Some (collision_view_of s)\<rparr>"
  then show ?thesis using assms by (simp add: store_wf_def columns_wf_def authority_wf_def revisions_wf_def)
qed (simp add: assms)

end
