(* ===== verification/Store_Level_Keeps.thy ===== *)
theory Store_Level_Keeps
  imports Store_Column_Keeps
begin

section \<open>Commits of whole columns\<close>

text \<open>A decoded column replaces the resident one, keeps the invariant and is a sound step.\<close>

subsection \<open>The sections that stay\<close>

lemma stored_section_retained: "stored_section p \<Longrightarrow> stored_section (retain_inline_identity_from p new)"
  by (simp add: stored_section_def sub_chunk_wf_def has_no_storages_def retain_inline_identity_from_def)

lemma same_blocks_retained [simp]: "same_blocks (retain_inline_identity_from p new) p"
  by (rule block_view_retain [unfolded block_view_eq])

lemma sections_wf_getI:
  assumes "bt_invar m" "\<And>y s. bt_get m y = Some s \<Longrightarrow> stored_section s" shows "sections_wf m"
  unfolding sections_wf_def
proof (intro conjI ballI)
  fix s assume "s \<in> set (bt_values m)"
  then obtain y where "(y, s) \<in> set m" by (auto simp: bt_values_def)
  then show "stored_section s" using assms(2) [of y s] bt_get_in [OF assms(1), of y s] by simp
qed (rule assms(1))

lemma keep_sections_get:
  "bt_get (keep_sections previous replacement) y = map_option (\<lambda>new. case bt_get previous y of
     Some p \<Rightarrow> (if blocks_match p new then retain_inline_identity_from p new else new) | None \<Rightarrow> new) (bt_get replacement y)"
  by (simp add: keep_sections_def bt_get_map_values)

lemma renew_identities_get:
  "bt_get (renew_identities previous replacement) y = map_option (\<lambda>p. case bt_get replacement y of
     Some new \<Rightarrow> (if blocks_match p new then retain_inline_identity_from p new else p) | None \<Rightarrow> p) (bt_get previous y)"
  by (simp add: renew_identities_def bt_get_map_values)

lemma keep_sections_wf:
  assumes "sections_wf previous" "sections_wf replacement" shows "sections_wf (keep_sections previous replacement)"
proof (rule sections_wf_getI)
  show "bt_invar (keep_sections previous replacement)" using assms(2) by (simp add: keep_sections_def sections_wf_def)
  show "stored_section s" if "bt_get (keep_sections previous replacement) y = Some s" for y s
    using that sections_wf_get [OF assms(1), of y] sections_wf_get [OF assms(2), of y]
    by (auto simp: keep_sections_get stored_section_retained split: option.splits)
qed

lemma renew_identities_wf:
  assumes "sections_wf previous" shows "sections_wf (renew_identities previous replacement)"
proof (rule sections_wf_getI)
  show "bt_invar (renew_identities previous replacement)" using assms by (simp add: renew_identities_def sections_wf_def)
  show "stored_section s" if "bt_get (renew_identities previous replacement) y = Some s" for y s
    using that sections_wf_get [OF assms, of y] by (auto simp: renew_identities_get stored_section_retained split: option.splits)
qed

lemma renew_identities_same: "rel_option same_blocks (bt_get (renew_identities previous replacement) y) (bt_get previous y)"
  by (cases "bt_get previous y"; cases "bt_get replacement y") (simp_all add: renew_identities_get)

text \<open>What the column keeps is what the payload says.\<close>

lemma keep_sections_same:
  assumes "sections_wf previous" "sections_wf replacement"
  shows "rel_option same_blocks (bt_get (keep_sections previous replacement) y) (bt_get replacement y)"
proof (cases "bt_get replacement y")
  case (Some new)
  show ?thesis
  proof (cases "bt_get previous y")
    case (Some p)
    have "sub_chunk_wf p" "sub_chunk_wf new"
      using sections_wf_get [OF assms(1) Some] sections_wf_get [OF assms(2) \<open>bt_get replacement y = Some new\<close>]
      by (simp_all add: stored_section_def)
    then have "same_blocks p new" if "blocks_match p new" using that blocks_match_iff by blast
    then show ?thesis using \<open>bt_get replacement y = Some new\<close> Some
      by (auto simp: keep_sections_get intro: same_blocks_trans [OF same_blocks_retained])
  qed (simp add: keep_sections_get Some)
qed (simp add: keep_sections_get)

text \<open>The heights listed are exactly those whose blocks differ.\<close>

lemma changed_section_ys_iff:
  assumes "sections_wf previous" "sections_wf replacement"
  shows "y \<in> set (changed_section_ys previous replacement) \<longleftrightarrow>
    \<not> rel_option same_blocks (bt_get previous y) (bt_get replacement y)"
proof -
  have match: "blocks_match p new \<longleftrightarrow> same_blocks p new" if "bt_get previous y = Some p" "bt_get replacement y = Some new" for p new
    using sections_wf_get [OF assms(1) that(1)] sections_wf_get [OF assms(2) that(2)]
    by (intro blocks_match_iff) (simp_all add: stored_section_def)
  show ?thesis
    using match
    by (cases "bt_get previous y"; cases "bt_get replacement y") (auto simp: changed_section_ys_def bt_get_keys)
qed

lemma unchanged_keys:
  assumes "sections_wf previous" "sections_wf replacement" "changed_section_ys previous replacement = []"
  shows "keep_sections previous replacement = bt_empty \<longleftrightarrow> renew_identities previous replacement = bt_empty"
    "previous = bt_empty \<Longrightarrow> keep_sections previous replacement = bt_empty"
proof -
  have rel: "rel_option same_blocks (bt_get previous y) (bt_get replacement y)" for y
    using changed_section_ys_iff [OF assms(1,2), of y] assms(3) by simp
  have "bt_get previous y = None \<longleftrightarrow> bt_get replacement y = None" for y
    using rel [of y] by (cases rule: option.rel_cases) simp_all
  then have keys: "set (bt_keys previous) = set (bt_keys replacement)" by (auto simp: bt_get_keys)
  have empty: "m = bt_empty \<longleftrightarrow> set (bt_keys m) = {}" for m :: "'a sections" by (simp add: bt_keys_def bt_empty_def)
  show "keep_sections previous replacement = bt_empty \<longleftrightarrow> renew_identities previous replacement = bt_empty"
    "previous = bt_empty \<Longrightarrow> keep_sections previous replacement = bt_empty"
    unfolding empty using keys by (simp_all add: keep_sections_def renew_identities_def)
qed

subsection \<open>The commit\<close>

definition column_decoded_ok :: "(bytes \<Rightarrow> bytes) \<Rightarrow> chunk_key \<Rightarrow> 'c decoded_level_chunk \<Rightarrow> bool" where
  "column_decoded_ok sha key d \<longleftrightarrow> sections_wf (dl_sub_chunks d) \<and> pred_option biomes_ok (dl_biomes d) \<and>
     pred_option (\<lambda>es. entities_ok sha key (entities es) (entity_total (entities es))) (dl_block_entities d)"

text \<open>The identities renewed through the shared \<^verbatim>\<open>Arc\<close>s.\<close>

definition renewed_store :: "chunk_key \<Rightarrow> 'c sections \<Rightarrow> 'c chunk_store \<Rightarrow> 'c chunk_store" where
  "renewed_store key replacement s =
     (case chunks s key of None \<Rightarrow> s | Some old \<Rightarrow>
       put_chunk key (old\<lparr>sub_chunks := renew_identities (sub_chunks old) replacement\<rparr>) s)"

lemma renewed_fields [simp]:
  "loaded_chunks (renewed_store key r s) = loaded_chunks s" "authoritative_sub_chunks (renewed_store key r s) = authoritative_sub_chunks s"
  "collision_revisions (renewed_store key r s) = collision_revisions s" "allocator (renewed_store key r s) = allocator s"
  "snapshot_cache (renewed_store key r s) = snapshot_cache s" "chunks (renewed_store key r s) key = None \<longleftrightarrow> chunks s key = None"
  by (simp_all add: renewed_store_def put_chunk_def split: option.split)

lemma renewed_at:
  "sections_at (renewed_store key r s) k = (if k = key then renew_identities (sections_at s key) r else sections_at s k)"
  "entities_at (renewed_store key r s) k = entities_at s k"
  by (auto simp: renewed_store_def sections_at_def entities_at_def chunk_or_default_def put_chunk_def empty_chunk_def
      renew_identities_def bt_map_values_def bt_empty_def split: option.split)

lemma renewed_keeps:
  assumes wf: "store_wf sha s" shows "keeps sha s (renewed_store key r s)"
proof -
  have cols: "columns_wf sha s" using wf by (simp add: store_wf_def)
  have "columns_wf sha (renewed_store key r s)"
  proof (cases "chunks s key")
    case (Some old)
    have ok: "column_ok sha key old" "\<not> is_bare old" using cols Some by (simp_all add: columns_wf_def)
    have "renew_identities (sub_chunks old) r = bt_empty \<longleftrightarrow> sub_chunks old = bt_empty"
      by (simp add: renew_identities_def bt_map_values_def bt_empty_def)
    then have "\<not> is_bare (old\<lparr>sub_chunks := renew_identities (sub_chunks old) r\<rparr>)" using ok(2) by (simp add: is_bare_def)
    moreover have "column_ok sha key (old\<lparr>sub_chunks := renew_identities (sub_chunks old) r\<rparr>)"
      by (rule column_ok_sections [OF ok(1) renew_identities_wf]) (use ok(1) in \<open>simp add: column_ok_def\<close>)
    ultimately show ?thesis using columns_wf_put [OF cols] by (simp add: renewed_store_def Some)
  qed (simp add: renewed_store_def cols)
  then have "store_wf sha (renewed_store key r s)" by (rule store_wf_chunks [OF wf]) simp_all
  moreover have "collision_content (renewed_store key r s) k = collision_content s k" for k
    by (rule content_eqI) (auto simp: renewed_at renew_identities_same intro: option.rel_refl)
  ultimately show ?thesis
    by (simp add: keeps_def sound_step_def column_step_def snapshot_kept_def allocator_grows_def)
qed

text \<open>The column in its place.\<close>

definition install_column :: "chunk_key \<Rightarrow> 'c chunk \<Rightarrow> 'c chunk_store \<Rightarrow> 'c chunk_store" where
  "install_column key c s =
     (let s' = settle_chunk key c s
      in if key \<in> loaded_chunks s then s'
         else s'\<lparr>loaded_chunks := insert key (loaded_chunks s'),
           authoritative_sub_chunks := (authoritative_sub_chunks s')(key := None)\<rparr>)"

lemma install_fields [simp]:
  "loaded_chunks (install_column key c s) = insert key (loaded_chunks s)"
  "authoritative_sub_chunks (install_column key c s) =
     (if key \<in> loaded_chunks s then authoritative_sub_chunks s else (authoritative_sub_chunks s)(key := None))"
  "collision_revisions (install_column key c s) = collision_revisions s" "allocator (install_column key c s) = allocator s"
  "snapshot_cache (install_column key c s) = snapshot_cache s"
  "chunks (install_column key c s) = chunks (settle_chunk key c s)"
  by (auto simp: install_column_def Let_def)

lemma install_at [simp]:
  "sections_at (install_column key c s) k = (if k = key then sub_chunks c else sections_at s k)"
  "entities_at (install_column key c s) k = (if k = key then block_entities c else entities_at s k)"
  using at_cong [of "install_column key c s" "settle_chunk key c s"] by simp_all

text \<open>What the commit takes over, and its result in these terms.\<close>

definition next_biomes :: "'c decoded_level_chunk \<Rightarrow> 'c chunk \<Rightarrow> decoded_biome_column option option" where
  "next_biomes d old = (case dl_biomes d of None \<Rightarrow> Some (biomes old) | Some b \<Rightarrow> map_option Some (reuse_equal_biomes b (biomes old)))"

definition next_entities :: "'c decoded_level_chunk \<Rightarrow> 'c chunk \<Rightarrow> entity_map" where
  "next_entities d old = (case dl_block_entities d of Some es \<Rightarrow> entities es | None \<Rightarrow> block_entities old)"

lemma next_biomes_ok:
  assumes "column_decoded_ok sha key d" "column_ok sha key old"
  shows "\<exists>nb. next_biomes d old = Some nb \<and> pred_option (\<lambda>b. list_all storage_wf (biome_storages b)) nb"
proof (cases "dl_biomes d")
  case None
  then show ?thesis using assms(2) by (simp add: next_biomes_def column_ok_def)
next
  case (Some b)
  then have "biomes_ok b" using assms(1) by (simp add: column_decoded_ok_def)
  then show ?thesis using reuse_equal_biomes_wf [of b "biomes old"] assms(2) Some
    by (auto simp: next_biomes_def column_ok_def)
qed

lemma next_entities_ok:
  assumes "column_decoded_ok sha key d" "column_ok sha key old"
  shows "entities_ok sha key (next_entities d old) (entity_total (next_entities d old))"
    "keep_equal_entities (block_entities old) (next_entities d old) = next_entities d old"
proof -
  show ok: "entities_ok sha key (next_entities d old) (entity_total (next_entities d old))"
    using assms by (cases "dl_block_entities d") (simp_all add: next_entities_def column_decoded_ok_def column_ok_def entities_ok_def)
  show "keep_equal_entities (block_entities old) (next_entities d old) = next_entities d old"
    by (rule keep_equal_id [where sha = sha]) (use assms(2) ok in \<open>auto simp: column_ok_def entities_ok_def\<close>)
qed

definition level_result :: "chunk_key \<Rightarrow> 'c decoded_level_chunk \<Rightarrow> 'c chunk \<Rightarrow> decoded_biome_column option \<Rightarrow> apply_level_chunk_result" where
  "level_result key d old nb =
     (let blocks = map (from_chunk key) (changed_section_ys (sub_chunks old) (dl_sub_chunks d));
          biomes' = map (from_chunk key) (changed_biome_ys (biomes old) nb);
          changed = bt_set (blocks @ biomes')
      in \<lparr>alc_changed = changed, alc_dirty = bt_set (expand_mesh_dependents changed @ expand_biome_mesh_dependents biomes'),
          alc_bytes_consumed = dl_bytes_consumed d, alc_block_bytes_consumed = dl_block_bytes_consumed d\<rparr>)"

lemma commit_level_chunk_eq:
  fixes s :: "'c chunk_store"
  assumes cols: "columns_wf sha s" and d: "column_decoded_ok sha key d"
  defines "old \<equiv> chunk_or_default s key"
  assumes nb: "next_biomes d old = Some nb"
  defines "ys \<equiv> changed_section_ys (sub_chunks old) (dl_sub_chunks d)"
  defines "c \<equiv> \<lparr>sub_chunks = (if ys \<noteq> [] \<or> chunks s key = None then keep_sections (sub_chunks old) (dl_sub_chunks d)
      else renew_identities (sub_chunks old) (dl_sub_chunks d)), biomes = nb, block_entities = next_entities d old,
      block_entity_bytes = entity_total (next_entities d old)\<rparr>"
  shows "commit_level_chunk key d s = Some (proceed (lift_error Decode_Collision_Revision
      (if key \<notin> loaded_chunks s \<or> ys \<noteq> [] then reserve_if True (renewed_store key (dl_sub_chunks d) s)
       else reserve_actor_replacement key None (next_entities d old) (renewed_store key (dl_sub_chunks d) s)))
      (\<lambda>reserved s. (Inr (level_result key d old nb), apply_reserved_revision key reserved (install_column key c s))))"
proof -
  have old: "column_ok sha key old" unfolding old_def by (rule columns_wf_default [OF cols])
  have secs: "sections_wf (sub_chunks old)" "sections_wf (dl_sub_chunks d)"
    using old d by (simp_all add: column_ok_def column_decoded_ok_def)
  have renewed: "(if chunks s key = None then s
      else put_chunk key (old\<lparr>sub_chunks := renew_identities (sub_chunks old) (dl_sub_chunks d)\<rparr>) s) = renewed_store key (dl_sub_chunks d) s"
    by (auto simp: renewed_store_def old_def chunk_or_default_def split: option.split)
  have none: "sub_chunks old = bt_empty" if "chunks s key = None"
    using that by (simp add: old_def chunk_or_default_def empty_chunk_def)
  have bare: "keep_sections (sub_chunks old) (dl_sub_chunks d) = bt_empty \<and> nb = None \<and> next_entities d old = bt_empty \<longleftrightarrow> is_bare c"
    using unchanged_keys(1) [OF secs] by (auto simp: is_bare_def c_def ys_def)
  let ?s = "renewed_store key (dl_sub_chunks d) s"
  let ?reserve = "if key \<notin> loaded_chunks s \<or> ys \<noteq> [] then reserve_if True ?s
    else reserve_actor_replacement key None (next_entities d old) ?s"
  obtain res t where r: "?reserve = (res, t)" by fastforce
  have t: "chunks t = chunks ?s" "loaded_chunks t = loaded_chunks s" "authoritative_sub_chunks t = authoritative_sub_chunks s"
    using arg_cong [OF r, of "\<lambda>x. chunks (snd x)"] arg_cong [OF r, of "\<lambda>x. loaded_chunks (snd x)"]
      arg_cong [OF r, of "\<lambda>x. authoritative_sub_chunks (snd x)"]
    unfolding reserve_actor_replacement_eq by (simp_all split: if_splits)
  have absent: "chunks t key = None \<longleftrightarrow> chunks s key = None" unfolding t by simp
  have resident: "sub_chunks (chunk_or_default t key) = renew_identities (sub_chunks old) (dl_sub_chunks d)"
    if "chunks s key \<noteq> None"
    using that by (auto simp: chunk_or_default_def t(1) renewed_store_def put_chunk_def old_def)
  have column: "\<lparr>sub_chunks = (if ys \<noteq> [] \<or> chunks t key = None then keep_sections (sub_chunks old) (dl_sub_chunks d)
      else sub_chunks (chunk_or_default t key)), biomes = nb, block_entities = next_entities d old,
      block_entity_bytes = entity_total (next_entities d old)\<rparr> = c"
    using resident unfolding c_def absent by auto
  have nb': "(case dl_biomes d of None \<Rightarrow> Some (biomes old) | Some b \<Rightarrow> map_option Some (reuse_equal_biomes b (biomes old))) = Some nb"
    using nb by (simp add: next_biomes_def)
  have ne: "keep_equal_entities (block_entities old) (case dl_block_entities d of Some es \<Rightarrow> entities es | None \<Rightarrow> block_entities old) = next_entities d old"
    using next_entities_ok(2) [OF d old] by (simp add: next_entities_def)
  have ys: "map (from_chunk key) ys \<noteq> [] \<longleftrightarrow> ys \<noteq> []" by simp
  show ?thesis
    unfolding commit_level_chunk_def Let_def old_def [symmetric] nb' ne renewed ys_def [symmetric] ys r bind.bind_lunit
    using column bare
    by (cases res) (simp_all add: level_result_def Let_def ys_def install_column_def settle_chunk_def t(2))
qed


lemma commit_level_chunk_keeps:
  fixes s :: "'c chunk_store"
  assumes wf: "store_wf sha s" and d: "column_decoded_ok sha key d"
  shows "\<exists>res t. commit_level_chunk key d s = Some (res, t) \<and> keeps sha s t"
proof -
  let ?old = "chunk_or_default s key"
  let ?ys = "changed_section_ys (sub_chunks ?old) (dl_sub_chunks d)"
  let ?s = "renewed_store key (dl_sub_chunks d) s"
  let ?ne = "next_entities d ?old"
  have cols: "columns_wf sha s" using wf by (simp add: store_wf_def)
  have old: "column_ok sha key ?old" by (rule columns_wf_default [OF cols])
  have secs: "sections_wf (sub_chunks ?old)" "sections_wf (dl_sub_chunks d)"
    using old d by (simp_all add: column_ok_def column_decoded_ok_def)
  obtain nb where nb: "next_biomes d ?old = Some nb" "pred_option (\<lambda>b. list_all storage_wf (biome_storages b)) nb"
    using next_biomes_ok [OF d old] by blast
  let ?c = "\<lparr>sub_chunks = (if ?ys \<noteq> [] \<or> chunks s key = None then keep_sections (sub_chunks ?old) (dl_sub_chunks d)
      else renew_identities (sub_chunks ?old) (dl_sub_chunks d)), biomes = nb, block_entities = ?ne,
      block_entity_bytes = entity_total ?ne\<rparr>"
  note eq = commit_level_chunk_eq [OF cols d nb(1)]
  have step: "keeps sha s ?s" by (rule renewed_keeps [OF wf])
  then have wf1: "store_wf sha ?s" by (simp add: keeps_def)
  have ok: "column_ok sha key ?c"
    using keep_sections_wf [OF secs] renew_identities_wf [OF secs(1)] next_entities_ok(1) [OF d old] nb(2)
    by (simp add: column_ok_def)
  have installed: "columns_wf sha (install_column key ?c t)" if "chunks t = chunks ?s" for t :: "'c chunk_store"
  proof -
    have "columns_wf sha t" using wf1 that by (simp add: store_wf_def columns_wf_def)
    then have "columns_wf sha (settle_chunk key ?c t)" by (rule columns_wf_settle [OF _ ok])
    then show ?thesis by (simp add: columns_wf_def)
  qed
  show ?thesis
  proof (cases "key \<notin> loaded_chunks s \<or> ?ys \<noteq> []")
    case True
    obtain res t where r: "reserve_if True ?s = (res, t)" by fastforce
    show ?thesis
    proof (cases res)
      case (Inl e)
      then show ?thesis using keeps_trans [OF step reserve_keeps [OF wf1 r]] True r by (simp add: eq)
    next
      case (Inr reserved)
      obtain n where t: "t = ?s\<lparr>allocator := n\<rparr>" using reserve_if_ok(2) [OF wf1] r Inr by blast
      have at: "sections_at t = sections_at ?s" "entities_at t = entities_at ?s" unfolding t by (rule at_cong; simp)+
      have "reserved \<noteq> None" using reserve_if_ok(1) [OF wf1] r Inr by blast
      moreover have "key \<in> loaded_chunks s \<Longrightarrow> authoritative_sub_chunks s key = None"
        using wf by (auto simp: store_wf_def authority_wf_def)
      ultimately have "keeps sha ?s (apply_reserved_revision key reserved (install_column key ?c t))"
        unfolding keeps_def
        by (intro published_change [OF wf1 r [unfolded Inr]]) (use installed [of t] at t in simp_all)
      then show ?thesis using keeps_trans [OF step] True r Inr by (simp add: eq)
    qed
  next
    case False
    then have loaded: "key \<in> loaded_chunks s" and same: "?ys = []" by simp_all
    obtain res t where r: "reserve_actor_replacement key None ?ne ?s = (res, t)" by fastforce
    note r' = r [unfolded reserve_actor_replacement_eq]
    show ?thesis
    proof (cases res)
      case (Inl e)
      then show ?thesis using keeps_trans [OF step reserve_keeps [OF wf1 r']] False r by (simp add: eq)
    next
      case (Inr reserved)
      obtain n where t: "t = ?s\<lparr>allocator := n\<rparr>" using reserve_if_ok(2) [OF wf1] r' Inr by blast
      have at: "sections_at t = sections_at ?s" "entities_at t = entities_at ?s" unfolding t by (rule at_cong; simp)+
      have all: "scope_entities None (entities_at ?s key) = entities_at ?s key" by (simp add: scope_entities_def bt_retain_def)
      have stay: "sub_chunks ?c = sections_at ?s key"
      proof (cases "chunks s key")
        case None
        then have "sub_chunks ?old = bt_empty" by (simp add: chunk_or_default_def empty_chunk_def)
        moreover have "sections_at ?s key = renew_identities (sub_chunks ?old) (dl_sub_chunks d)"
          by (simp add: renewed_at) (simp add: sections_at_def)
        ultimately show ?thesis using unchanged_keys [OF secs same] None by simp
      next
        case (Some c)
        have "sections_at ?s key = renew_identities (sub_chunks ?old) (dl_sub_chunks d)"
          by (simp add: renewed_at) (simp add: sections_at_def)
        then show ?thesis using Some by (simp add: same)
      qed
      have "keeps sha ?s (apply_reserved_revision key reserved (install_column key ?c t))"
        by (rule keeps_entities [OF wf1 r' [unfolded Inr] installed])
          (use stay loaded at t all in \<open>auto simp: insert_absorb\<close>)
      then show ?thesis using keeps_trans [OF step] False r Inr by (simp add: eq)
    qed
  qed
qed

end
