(* ===== verification/Store_Ops.thy ===== *)
theory Store_Ops
  imports Store_Level_Keeps
begin

section \<open>Histories of a store\<close>

text \<open>
  One constructor for each public operation that changes a store, on the bytes it is called with, and
  \<open>Other_Stores\<close> for the identities other stores of the process take in between.  \<open>run_op\<close> gives whether the
  operation returned \<^verbatim>\<open>Ok\<close> and the store it leaves; \<open>None\<close> is a panic.
\<close>

datatype 'c store_op =
    Mark_Chunk chunk_key
  | Mark_Sub_Chunk sub_chunk_key
  | Apply_Sub_Chunk sub_chunk_key bytes "'c block_ids"
  | Commit_Decoded sub_chunk_key bytes "'c block_ids"
  | Request_Mode_Air sub_chunk_key
  | All_Air sub_chunk_key
  | Update_Blocks sub_chunk_key "block_update list" u32
  | Commit_Prepared "(sub_chunk_key \<times> 'c sub_chunk option \<times> block_update list \<times> u32) list"
  | Detach "chunk_key list"
  | Commit_Biomes chunk_key i32 usize bytes biome_ids
  | Apply_Level_Chunk chunk_key i32 usize bytes "'c block_ids"
  | Commit_Inline chunk_key dimension_slots usize bytes "'c block_ids" biome_ids "'c sections option"
  | Commit_Live_Entity block_entity_key bytes
  | Commit_Column_Entities chunk_key i32 i32 bytes
  | Take_Snapshot bool
  | Other_Stores usize

definition plain :: "('e + 'a) \<times> 's \<Rightarrow> (bool \<times> 's) option" where
  "plain m = Some (\<not> isl (fst m), snd m)"

definition partial :: "(('e + 'a) \<times> 's) option \<Rightarrow> (bool \<times> 's) option" where
  "partial m = map_option (\<lambda>(res, s). (\<not> isl res, s)) m"

text \<open>A batch is prepared outside the store; a refused mutation is left out of it.\<close>

fun prepare_batch ::
  "(sub_chunk_key \<times> 'c sub_chunk option \<times> block_update list \<times> u32) list \<Rightarrow> 'c prepared_mutation list option" where
  "prepare_batch [] = Some []"
| "prepare_batch ((key, previous, updates, air) # batch) = do {
     prepared \<leftarrow> prepare_sub_chunk_blocks key previous updates air;
     ms \<leftarrow> prepare_batch batch;
     Some (case prepared of Inl _ \<Rightarrow> ms | Inr m \<Rightarrow> m # ms) }"

fun run_op :: "(bytes \<Rightarrow> bytes) \<Rightarrow> 'c store_op \<Rightarrow> 'c chunk_store \<Rightarrow> (bool \<times> 'c chunk_store) option" where
  "run_op sha (Mark_Chunk key) s = plain (mark_chunk_loaded key s)"
| "run_op sha (Mark_Sub_Chunk key) s = plain (mark_sub_chunk_loaded key s)"
| "run_op sha (Apply_Sub_Chunk key payload ids) s = partial (apply_sub_chunk sha key payload ids s)"
| "run_op sha (Commit_Decoded key payload ids) s =
     do { d \<leftarrow> decode_sub_chunk_entry sha key payload ids; partial (commit_decoded_sub_chunk key d s) }"
| "run_op sha (Request_Mode_Air key) s = plain (apply_request_mode_air key s)"
| "run_op sha (All_Air key) s = partial (apply_all_air key s)"
| "run_op sha (Update_Blocks key updates air) s = partial (update_sub_chunk_blocks key updates air s)"
| "run_op sha (Commit_Prepared batch) s =
     do { ms \<leftarrow> prepare_batch batch; plain (commit_prepared_block_updates ms s) }"
| "run_op sha (Detach keys) s = Some (True, snd (detach_chunks keys s))"
| "run_op sha (Commit_Biomes key base n payload ids) s = do {
     b \<leftarrow> decode_biome_column base n payload ids;
     (dirty, s) \<leftarrow> commit_biome_column key b s;
     Some (True, s) }"
| "run_op sha (Apply_Level_Chunk key first n payload ids) s = partial (apply_level_chunk sha key first n payload ids s)"
| "run_op sha (Commit_Inline key d n payload ids biome_ids previous) s = do {
     dl \<leftarrow> decode_inline_reusing sha key d n payload ids biome_ids previous;
     partial (commit_level_chunk key dl s) }"
| "run_op sha (Commit_Live_Entity key payload) s =
     (case decode_live sha key payload of
        Inl _ \<Rightarrow> Some (False, s)
      | Inr nbt \<Rightarrow> partial (commit_block_entity_update key nbt s))"
| "run_op sha (Commit_Column_Entities key lo hi payload) s =
     plain (commit_chunk_block_entities key (decode_level_chunk_tail sha key lo hi payload) s)"
| "run_op sha (Take_Snapshot alive) s = Some (True, snd (collision_snapshot alive s))"
| "run_op sha (Other_Stores n) s = Some (True, s\<lparr>allocator := snd (allocate_batch (allocator s) n)\<rparr>)"

text \<open>
  What the caller owes: sections it supplies itself are well formed, and no dimension has more than \<open>2 ^ 31\<close>
  slots, the most that a column of biomes can index.
\<close>

fun valid_op :: "'c store_op \<Rightarrow> bool" where
  "valid_op (Commit_Prepared batch) \<longleftrightarrow> list_all (\<lambda>(_, previous, _). pred_option sub_chunk_wf previous) batch"
| "valid_op (Commit_Biomes _ _ n _ _) \<longleftrightarrow> n \<le> 2147483648"
| "valid_op (Commit_Inline _ d _ _ _ _ previous) \<longleftrightarrow> slots_count d \<le> 2147483648 \<and> pred_option sections_wf previous"
| "valid_op _ \<longleftrightarrow> True"

fun run_ops :: "(bytes \<Rightarrow> bytes) \<Rightarrow> 'c store_op list \<Rightarrow> 'c chunk_store \<Rightarrow> 'c chunk_store option" where
  "run_ops sha [] s = Some s"
| "run_ops sha (op # ops) s = do { (ok, s) \<leftarrow> run_op sha op s; run_ops sha ops s }"

lemma run_ops_append: "run_ops sha (ops @ ops') s = run_ops sha ops s \<bind> run_ops sha ops'"
  by (induction ops arbitrary: s) (auto simp: Option.bind_assoc split: prod.split intro!: Option.bind_cong)

subsection \<open>Every operation keeps the store\<close>

text \<open>What an operation other than a snapshot does; a snapshot only fills the cache.\<close>

definition op_keeps :: "(bytes \<Rightarrow> bytes) \<Rightarrow> 'c store_op \<Rightarrow> 'c chunk_store \<Rightarrow> bool" where
  "op_keeps sha op s \<longleftrightarrow> (\<exists>ok t. run_op sha op s = Some (ok, t) \<and> store_wf sha t \<and>
     (sound_step s t \<or> t = s\<lparr>snapshot_cache := Some (collision_view_of s)\<rparr>))"

lemma op_keeps_done: "run_op sha op s = Some (b, t) \<Longrightarrow> keeps sha s t \<Longrightarrow> op_keeps sha op s"
  unfolding op_keeps_def keeps_def by blast

lemma op_keeps_plain: "run_op sha op s = plain m \<Longrightarrow> keeps sha s (snd m) \<Longrightarrow> op_keeps sha op s"
  by (simp add: op_keeps_def plain_def keeps_def)

lemma op_keeps_partial: "run_op sha op s = partial m \<Longrightarrow> \<exists>res t. m = Some (res, t) \<and> keeps sha s t \<Longrightarrow> op_keeps sha op s"
  by (auto simp: op_keeps_def partial_def keeps_def)

text \<open>Arguments fresh from a decoder are fit for the commit.\<close>

lemma tail_entities_ok:
  "entities_ok sha key (entities (decode_level_chunk_tail sha key lo hi payload))
     (entity_total (entities (decode_level_chunk_tail sha key lo hi payload)))"
  using decode_scoped_entities_inv [of sha "Chunk_Scope key lo hi" _ MAX_BLOCK_ENTITIES_PER_CHUNK]
  by (auto simp: decode_level_chunk_tail_def case_prod_unfold Let_def entities_ok_def scoped_entities_def in_scope_def)

lemma sub_chunk_tail_scoped: "scoped_entities sha (Sub_Chunk_Scope key) (entities (decode_sub_chunk_tail sha key payload))"
  using decode_scoped_entities_inv [of sha "Sub_Chunk_Scope key" payload MAX_BLOCK_ENTITIES_PER_SUB_CHUNK]
  by (simp add: decode_sub_chunk_tail_def)

lemma decode_live_sound:
  assumes "decode_live sha key payload = Inr nbt" shows "sound_entity sha nbt"
proof (cases "scan_prefix sha payload")
  case (Inl e)
  then show ?thesis using assms by (simp add: decode_live_def)
next
  case (Inr x)
  obtain found consumed semantic where x: "x = (found, consumed, semantic)" by (cases x)
  have "found = nbt \<and> semantic = None"
    using assms unfolding decode_live_def Inr x by (simp split: option.splits if_splits)
  then show ?thesis using Inr x scan_prefix_sound [of sha payload nbt consumed] by simp
qed

lemma decode_biome_column_ok:
  assumes "n \<le> 2147483648" shows "\<exists>b. decode_biome_column base n payload ids = Some b \<and> biomes_ok b"
  using decode_biome_column_correct [of base n payload ids] assms by (auto simp: biomes_ok_def)

lemma prepared_ok:
  assumes "pred_option sub_chunk_wf previous"
  shows "\<exists>res. prepare_sub_chunk_blocks key previous updates air = Some res \<and>
    (\<forall>m. res = Inr m \<longrightarrow> mutation_ok m \<and> mutation_key m = key)"
proof (cases "list_all valid_update updates \<and> updates \<noteq> []")
  case True
  let ?p = "case previous of Some p \<Rightarrow> p | None \<Rightarrow> for_block_updates (sk_y key)"
  have "sub_chunk_wf ?p" 
    using assms by (cases previous) (simp_all add: sub_chunk_wf_def for_block_updates_def)
  then obtain c s where "apply_block_updates ?p updates air = Some (c, s)" "sub_chunk_wf s"
    using apply_block_updates_correct True by blast
  moreover have "validate_all updates = Inr ()" using True by (simp add: result_simps)
  ultimately show ?thesis using True
    by (auto simp: prepare_sub_chunk_blocks_def Let_def mutation_ok_def stored_section_def)
next
  case False
  then show ?thesis
    by (cases "validate_all updates") (auto simp: prepare_sub_chunk_blocks_def mutation_ok_def result_simps)
qed

lemma prepare_batch_ok:
  assumes "list_all (\<lambda>(_, previous, _). pred_option sub_chunk_wf previous) batch"
  shows "\<exists>ms. prepare_batch batch = Some ms \<and> list_all mutation_ok ms"
  using assms
proof (induction batch rule: prepare_batch.induct)
  case (2 key previous updates air batch)
  obtain res where res: "prepare_sub_chunk_blocks key previous updates air = Some res" "\<forall>m. res = Inr m \<longrightarrow> mutation_ok m"
    using prepared_ok [of previous key updates air] 2(2) by auto
  obtain ms where "prepare_batch batch = Some ms" "list_all mutation_ok ms" using 2 res(1) by auto
  then show ?case using res by (cases res) simp_all
qed simp

lemma stored_sub_chunk_wf: "store_wf sha s \<Longrightarrow> pred_option sub_chunk_wf (stored_sub_chunk s key)"
  using sections_wf_get [OF sections_at_wf, of sha s "sk_chunk key" "sk_y key"]
  by (cases "stored_sub_chunk s key") (simp_all add: store_wf_def stored_sub_chunk_at stored_section_def)

lemma update_blocks_keeps:
  assumes wf: "store_wf sha s"
  shows "\<exists>res t. update_sub_chunk_blocks key updates air s = Some (res, t) \<and> keeps sha s t"
proof -
  obtain res where res: "prepare_sub_chunk_blocks key (stored_sub_chunk s key) updates air = Some res"
      "\<forall>m. res = Inr m \<longrightarrow> mutation_ok m"
    using prepared_ok [OF stored_sub_chunk_wf [OF wf]] by blast
  show ?thesis
  proof (cases res)
    case (Inr m)
    then have "keeps sha s (snd (commit_prepared_block_updates [m] s))" using res(2) by (intro commit_prepared_keeps [OF wf]) simp
    then show ?thesis using res(1) Inr by (cases "commit_prepared_block_updates [m] s") (simp add: update_sub_chunk_blocks_def)
  qed (use res(1) keeps_refl [OF wf] in \<open>simp add: update_sub_chunk_blocks_def\<close>)
qed

lemma other_stores_keeps:
  assumes wf: "store_wf sha s" shows "keeps sha s (s\<lparr>allocator := snd (allocate_batch (allocator s) n)\<rparr>)" (is "keeps sha s ?t")
proof -
  have inv: "revision_invar (allocator s)" using wf by (simp add: revision_invar_def store_wf_def revisions_wf_def)
  have grows: "allocator_grows s ?t" using revisions.alloc_mono [OF inv] by (simp add: allocator_grows_def)
  have "store_wf sha ?t"
    by (rule store_wf_allocator [OF wf grows]) (use revisions.alloc_invar [OF inv] in \<open>simp add: revision_invar_def\<close>)
  moreover have "sections_at ?t = sections_at s" "entities_at ?t = entities_at s" by (rule at_cong; simp)+
  then have "collision_content ?t k = collision_content s k" for k by (intro content_same_chunks) simp_all
  ultimately show ?thesis using grows by (simp add: keeps_def sound_step_def column_step_def snapshot_kept_def)
qed

lemma commit_decoded_payload_keeps:
  assumes wf: "store_wf sha s"
  shows "\<exists>d res t. decode_sub_chunk_entry sha key payload ids = Some d \<and> commit_decoded_sub_chunk key d s = Some (res, t) \<and> keeps sha s t"
proof -
  obtain d n where d: "decode_sub_chunk_entry sha key payload ids = Some d" "sub_chunk_wf (ds_sub_chunk d)"
      "ds_block_entities d = decode_sub_chunk_tail sha key (drop n payload)"
    using decode_sub_chunk_entry_total [of sha key payload ids] by blast
  then show ?thesis using commit_decoded_keeps [OF wf d(2), of key] sub_chunk_tail_scoped [of sha key] by simp
qed

lemma apply_sub_chunk_keeps:
  assumes wf: "store_wf sha s"
  shows "\<exists>res t. apply_sub_chunk sha key payload ids s = Some (res, t) \<and> keeps sha s t"
proof -
  obtain d r where d: "read_sub_chunk sha ids (new_reader payload) = (Some d, r)" "sub_chunk_wf d"
    using read_sub_chunk_total [of sha ids "new_reader payload"] by (metis prod.collapse)
  then have "fst (decode_sub_chunk_prefix sha ids payload) = Some d" by (simp add: decode_sub_chunk_prefix_def)
  then show ?thesis using commit_sub_chunk_keeps [OF wf d(2), of key]
    by (cases "commit_sub_chunk key d s") (simp add: apply_sub_chunk_def)
qed

lemma inline_decoded_ok:
  assumes "pred_option sections_wf previous" "slots_count d \<le> 2147483648"
  shows "\<exists>dl. decode_inline_reusing sha key d n payload ids biome_ids previous = Some dl \<and> column_decoded_ok sha key dl"
proof -
  have "\<And>p. previous = Some p \<Longrightarrow> sections_wf p" using assms(1) by simp
  from decode_inline_total [OF this, of previous sha key d n payload ids biome_ids] show ?thesis
    using assms(2) tail_entities_ok by (auto simp: column_decoded_ok_def biomes_ok_def)
qed

lemma level_decoded_ok: "\<exists>dl. decode_level_chunk sha first n payload ids = Some dl \<and> column_decoded_ok sha key dl"
proof -
  let ?d = "\<lparr>slots_base_y = first, slots_count = n\<rparr>"
  obtain m work r where "read_sub_chunks sha (new_reader payload) ?d n ids None = (Some (m, work), r)" "sections_wf m"
    using read_sub_chunks_total [OF inside_new, of None sha payload ?d n ids] by (metis option.distinct(1) prod.collapse)
  then show ?thesis by (simp add: decode_level_chunk_def column_decoded_ok_def)
qed

lemma run_op_keeps:
  assumes wf: "store_wf sha s" and ok: "valid_op op" shows "op_keeps sha op s"
proof (cases op)
  case (Take_Snapshot alive)
  have "store_wf sha (snd (collision_snapshot alive s))" by (rule collision_snapshot_wf [OF wf])
  then show ?thesis using collision_snapshot_store [of alive s] sound_step_refl [of s]
    by (auto simp: Take_Snapshot op_keeps_def simp del: sound_step_refl)
next
  case (Commit_Decoded key payload ids)
  obtain d res t where "decode_sub_chunk_entry sha key payload ids = Some d" "commit_decoded_sub_chunk key d s = Some (res, t)" "keeps sha s t"
    using commit_decoded_payload_keeps [OF wf] by blast
  then show ?thesis by (simp add: Commit_Decoded op_keeps_def partial_def keeps_def)
next
  case (Commit_Prepared batch)
  then obtain ms where "prepare_batch batch = Some ms" "list_all mutation_ok ms" using prepare_batch_ok ok by auto
  then show ?thesis using commit_prepared_keeps [OF wf] by (intro op_keeps_plain) (simp_all add: Commit_Prepared)
next
  case (Commit_Biomes key base n payload ids)
  then obtain b where b: "decode_biome_column base n payload ids = Some b" "biomes_ok b"
    using decode_biome_column_ok [of n base payload ids] ok by auto
  then show ?thesis using commit_biome_column_keeps [OF wf b(2), of key] by (auto simp: Commit_Biomes op_keeps_def keeps_def)
next
  case (Apply_Level_Chunk key first n payload ids)
  obtain dl where dl: "decode_level_chunk sha first n payload ids = Some dl" "column_decoded_ok sha key dl"
    using level_decoded_ok by blast
  then show ?thesis using commit_level_chunk_keeps [OF wf dl(2)]
    by (auto simp: Apply_Level_Chunk op_keeps_def apply_level_chunk_def partial_def keeps_def)
next
  case (Commit_Inline key d n payload ids biome_ids previous)
  then obtain dl where dl: "decode_inline_reusing sha key d n payload ids biome_ids previous = Some dl" "column_decoded_ok sha key dl"
    using inline_decoded_ok [of previous d sha key n payload ids biome_ids] ok by auto
  then show ?thesis using commit_level_chunk_keeps [OF wf dl(2)]
    by (auto simp: Commit_Inline op_keeps_def partial_def keeps_def)
next
  case (Commit_Live_Entity key payload)
  show ?thesis
  proof (cases "decode_live sha key payload")
    case (Inl e)
    then have "run_op sha op s = Some (False, s)" by (simp add: Commit_Live_Entity)
    then show ?thesis using keeps_refl [OF wf] by (rule op_keeps_done)
  next
    case (Inr nbt)
    then show ?thesis using commit_block_entity_update_keeps [OF wf decode_live_sound [OF Inr], of key]
      by (auto simp: Commit_Live_Entity op_keeps_def partial_def keeps_def)
  qed
next
  case (Detach keys)
  then show ?thesis using detach_chunks_keeps [OF wf] by (intro op_keeps_done) simp_all
next
  case (Other_Stores n)
  then show ?thesis using other_stores_keeps [OF wf] by (intro op_keeps_done) simp_all
next
  case (Mark_Chunk key)
  then show ?thesis using mark_chunk_loaded_keeps [OF wf] by (intro op_keeps_plain) simp_all
next
  case (Mark_Sub_Chunk key)
  then show ?thesis using mark_sub_chunk_loaded_keeps [OF wf] by (intro op_keeps_plain) simp_all
next
  case (Apply_Sub_Chunk key payload ids)
  then show ?thesis using apply_sub_chunk_keeps [OF wf] by (intro op_keeps_partial) simp_all
next
  case (Request_Mode_Air key)
  then show ?thesis using remove_sub_chunk_keeps [OF wf] by (intro op_keeps_plain) (simp_all add: apply_request_mode_air_def)
next
  case (All_Air key)
  then show ?thesis using apply_all_air_keeps [OF wf] by (intro op_keeps_partial) simp_all
next
  case (Update_Blocks key updates air)
  then show ?thesis using update_blocks_keeps [OF wf] by (intro op_keeps_partial) simp_all
next
  case (Commit_Column_Entities key lo hi payload)
  then show ?thesis using commit_chunk_block_entities_keeps [OF wf tail_entities_ok] by (intro op_keeps_plain) simp_all
qed

end
