(* ===== verification/Store_Spec.thy ===== *)
theory Store_Spec
  imports Store_Ops
begin

section \<open>Properties of the chunk store\<close>

text \<open>Over whole histories: what a store keeps, what its collision revisions and its snapshots stand for.\<close>

subsection \<open>Histories\<close>

lemma empty_store_wf: "n < u64_bound \<Longrightarrow> store_wf sha (empty_store n)"
  by (simp add: store_wf_def columns_wf_def authority_wf_def revisions_wf_def empty_store_def)

lemma run_ops_induct [consumes 2, case_names Nil Cons]:
  assumes "store_wf sha s" "list_all valid_op ops"
    and "\<And>s. store_wf sha s \<Longrightarrow> P s [] s"
    and "\<And>s op ok t ops u. store_wf sha s \<Longrightarrow> run_op sha op s = Some (ok, t) \<Longrightarrow> store_wf sha t \<Longrightarrow>
      sound_step s t \<or> t = s\<lparr>snapshot_cache := Some (collision_view_of s)\<rparr> \<Longrightarrow>
      run_ops sha ops t = Some u \<Longrightarrow> store_wf sha u \<Longrightarrow> P t ops u \<Longrightarrow> P s (op # ops) u"
  shows "\<exists>u. run_ops sha ops s = Some u \<and> store_wf sha u \<and> P s ops u"
  using assms(1,2)
proof (induction ops arbitrary: s)
  case (Cons op ops)
  then have "valid_op op" by simp
  then obtain ok t where t: "run_op sha op s = Some (ok, t)" "store_wf sha t"
      "sound_step s t \<or> t = s\<lparr>snapshot_cache := Some (collision_view_of s)\<rparr>"
    using run_op_keeps [OF Cons.prems(1)] unfolding op_keeps_def by metis
  moreover obtain u where "run_ops sha ops t = Some u" "store_wf sha u" "P t ops u"
    using Cons.IH [OF t(2)] Cons.prems(2) by auto
  ultimately show ?case using assms(4) [OF Cons.prems(1)] by auto
qed (simp add: assms(3))

text \<open>What happens to one column's revision and content over a history.\<close>

definition advances :: "'c chunk_store \<Rightarrow> 'c chunk_store \<Rightarrow> bool" where
  "advances s t \<longleftrightarrow> allocator_grows s t \<and> (\<forall>key. column_step s t key)"

lemma advances_refl: "advances s s"
  by (simp add: advances_def column_step_def)

lemma advances_trans: "advances s t \<Longrightarrow> advances t u \<Longrightarrow> advances s u"
  unfolding advances_def using column_step_trans [of s t _ u] allocator_grows_trans [of s t u] by blast

lemma content_cache [simp]: "collision_content (s\<lparr>snapshot_cache := v\<rparr>) k = collision_content s k"
proof -
  have "sections_at (s\<lparr>snapshot_cache := v\<rparr>) = sections_at s" "entities_at (s\<lparr>snapshot_cache := v\<rparr>) = entities_at s"
    by (rule at_cong; simp)+
  then show ?thesis by (intro content_same_chunks) simp_all
qed

lemma advances_step: "sound_step s t \<or> t = s\<lparr>snapshot_cache := v\<rparr> \<Longrightarrow> advances s t"
  by (auto simp: sound_step_def advances_def column_step_def allocator_grows_def)

lemma run_ops_total:
  assumes "store_wf sha s" "list_all valid_op ops"
  shows "\<exists>t. run_ops sha ops s = Some t \<and> store_wf sha t \<and> advances s t"
  using assms by (rule run_ops_induct) (auto intro: advances_refl advances_trans advances_step)

lemma advances_content:
  assumes wf: "store_wf sha s" and "advances s t"
    and c: "collision_revisions s key = Some c" and d: "collision_revisions t key' = Some d"
    and eq: "revision_number c = revision_number d"
  shows "key = key' \<and> collision_content s key = collision_content t key"
proof -
  have "column_step s t key'" using assms(2) by (simp add: advances_def)
  moreover have "revision_below (allocator s) (revision_number d)"
    using wf c eq unfolding store_wf_def revisions_wf_def by metis
  ultimately have same: "collision_revisions s key' = Some d" "collision_content t key' = collision_content s key'"
    using d by (auto simp: column_step_def)
  have "key = key'" using wf c same(1) eq by (auto simp: store_wf_def revisions_wf_def)
  then show ?thesis using same(2) by simp
qed

subsection \<open>Snapshots\<close>

text \<open>The store a view stands for.\<close>

definition view_store :: "'c collision_view \<Rightarrow> 'c chunk_store" where
  "view_store v = \<lparr>chunks = view_chunks v, loaded_chunks = view_loaded_chunks v,
     authoritative_sub_chunks = view_authoritative v, collision_revisions = view_revisions v, allocator = 0, snapshot_cache = None\<rparr>"

lemma content_view [simp]: "collision_content (view_store (collision_view_of s)) k = collision_content s k"
proof -
  have "chunk_or_default (view_store (collision_view_of s)) k =
      (case chunks s k of None \<Rightarrow> empty_chunk | Some c \<Rightarrow> c\<lparr>biomes := None\<rparr>)"
    by (simp add: chunk_or_default_def view_store_def collision_view_of_def split: option.split)
  then have "sections_at (view_store (collision_view_of s)) k = sections_at s k"
    "entities_at (view_store (collision_view_of s)) k = entities_at s k"
    by (simp_all add: sections_at_def entities_at_def chunk_or_default_def split: option.split)
  then show ?thesis by (intro content_same_chunks) (simp_all add: view_store_def collision_view_of_def)
qed

definition faithful_view :: "'c collision_view \<Rightarrow> 'c chunk_store \<Rightarrow> bool" where
  "faithful_view v s \<longleftrightarrow> view_loaded_chunks v = loaded_chunks s \<and> view_authoritative v = authoritative_sub_chunks s \<and>
     view_revisions v = collision_revisions s \<and>
     (\<forall>key. collision_revisions s key \<noteq> None \<longrightarrow> collision_content (view_store v) key = collision_content s key)"

lemma faithful_view_of: "faithful_view (collision_view_of s) s"
  by (simp add: faithful_view_def collision_view_of_def [of s] content_view [unfolded collision_view_of_def])

definition cache_ok :: "'c chunk_store \<Rightarrow> bool" where
  "cache_ok s \<longleftrightarrow> (\<forall>v. snapshot_cache s = Some v \<longrightarrow> faithful_view v s)"

lemma cache_step:
  assumes wf: "store_wf sha s" and ok: "cache_ok s"
    and step: "sound_step s t \<or> t = s\<lparr>snapshot_cache := Some (collision_view_of s)\<rparr>"
  shows "cache_ok t"
  unfolding cache_ok_def
proof (intro allI impI)
  fix v assume v: "snapshot_cache t = Some v"
  from step show "faithful_view v t"
  proof
    assume "t = s\<lparr>snapshot_cache := Some (collision_view_of s)\<rparr>"
    then show ?thesis using v faithful_view_of [of s] by (auto simp: faithful_view_def)
  next
    assume s: "sound_step s t"
    then have same: "snapshot_cache s = Some v" "loaded_chunks t = loaded_chunks s"
      "authoritative_sub_chunks t = authoritative_sub_chunks s" "collision_revisions t = collision_revisions s"
      using v by (auto simp: sound_step_def snapshot_kept_def)
    have content: "collision_content t key = collision_content s key" if "collision_revisions s key \<noteq> None" for key
      using that advances_content [OF wf advances_step [OF disjI1 [OF s]]] same(4) by auto
    have "faithful_view v s" using ok same(1) by (simp add: cache_ok_def)
    then show ?thesis using content unfolding faithful_view_def same(2-4) by metis
  qed
qed

lemma cache_history:
  assumes "store_wf sha s" "list_all valid_op ops" "cache_ok s"
  shows "\<exists>t. run_ops sha ops s = Some t \<and> store_wf sha t \<and> cache_ok t"
proof -
  have "\<exists>t. run_ops sha ops s = Some t \<and> store_wf sha t \<and> (cache_ok s \<longrightarrow> cache_ok t)"
    using assms(1,2) by (rule run_ops_induct) (use cache_step in blast)+
  then show ?thesis using assms(3) by blast
qed

subsection \<open>The store over a history\<close>

text \<open>
  C1. No history of operations, on whatever bytes, panics, and every store it reaches is well formed: columns
  ordered, their sections decodable and never all absent, block entities in their column with exact byte
  totals within the limits, a revision for exactly the columns with authority, and no revision shared by
  two columns or ahead of the allocator.
\<close>

theorem history_keeps_store:
  assumes "n < u64_bound" "list_all valid_op ops"
  shows "\<exists>s. run_ops sha ops (empty_store n) = Some s \<and> store_wf sha s"
  using run_ops_total [OF empty_store_wf [OF assms(1)] assms(2)] by blast

text \<open>A history of three operations: the column becomes authoritative, other stores take identities, a snapshot is taken.\<close>

definition sample_history :: "cache_context store_op list" where
  "sample_history = [Mark_Chunk (Chunk_Key 0 1 2), Other_Stores 3, Take_Snapshot False]"

lemma sample_valid: "list_all valid_op sample_history"
  by (simp add: sample_history_def)

theorem history_keeps_store_witness:
  "\<exists>s. run_ops (\<lambda>b. b) (sample_history @ [Update_Blocks (Sub_Chunk_Key 0 1 4 2) [new_update 1 2 3 1 9] 0]) (empty_store 1) = Some s \<and>
    store_wf (\<lambda>b. b) s"
  by (rule history_keeps_store) (simp_all add: sample_history_def u64_bound_def)

text \<open>
  C2. A collision revision identifies what collision can read of a column: if two states of a history have
  equal revisions, these are of the same column, and its authority, the blocks of its authoritative sub-chunks
  and the geometry of its block entities are the same in both, whatever operations ran in between.
\<close>

theorem revision_identifies_content:
  assumes "n < u64_bound" "list_all valid_op (ops @ later)"
    and "run_ops sha ops (empty_store n) = Some s" "run_ops sha later s = Some t"
    and "collision_revision s key = Some c" "collision_revision t key' = Some d" "revision_number c = revision_number d"
  shows "key = key' \<and> collision_content s key = collision_content t key"
proof -
  have wf: "store_wf sha s" using run_ops_total [OF empty_store_wf [OF assms(1)], of ops sha] assms(2,3) by auto
  have "advances s t" using run_ops_total [OF wf, of later] assms(2,4) by auto
  from advances_content [OF wf this assms(5-7) [unfolded collision_revision_def]] show ?thesis .
qed

lemma sample_history_run:
  "\<exists>s t. run_ops sha [Mark_Chunk (Chunk_Key 0 1 2)] (empty_store 1) = Some s \<and>
    run_ops sha [Other_Stores 3, Take_Snapshot False] s = Some t \<and>
    collision_revision s (Chunk_Key 0 1 2) = Some \<lparr>revision_chunk = Chunk_Key 0 1 2, revision_number = 1\<rparr> \<and>
    collision_revision t (Chunk_Key 0 1 2) = Some \<lparr>revision_chunk = Chunk_Key 0 1 2, revision_number = 1\<rparr>"
  by (simp add: mark_chunk_loaded_def empty_store_def plain_def allocate_revision_def take_revision_def u64_bound_def
      set_collision_revision_def invalidate_collision_snapshot_def collision_snapshot_def collision_revision_def)

theorem revision_identifies_content_witness:
  "\<exists>s t. run_ops (\<lambda>b. b) [Mark_Chunk (Chunk_Key 0 1 2)] (empty_store 1 :: cache_context chunk_store) = Some s \<and>
    run_ops (\<lambda>b. b) [Other_Stores 3, Take_Snapshot False] s = Some t \<and>
    collision_content s (Chunk_Key 0 1 2) = collision_content t (Chunk_Key 0 1 2)"
proof -
  obtain s t :: "cache_context chunk_store" where s: "run_ops (\<lambda>b. b) [Mark_Chunk (Chunk_Key 0 1 2)] (empty_store 1) = Some s"
      "run_ops (\<lambda>b. b) [Other_Stores 3, Take_Snapshot False] s = Some t"
      "collision_revision s (Chunk_Key 0 1 2) = Some \<lparr>revision_chunk = Chunk_Key 0 1 2, revision_number = 1\<rparr>"
      "collision_revision t (Chunk_Key 0 1 2) = Some \<lparr>revision_chunk = Chunk_Key 0 1 2, revision_number = 1\<rparr>"
    using sample_history_run by blast
  have "1 < u64_bound" "list_all valid_op ([Mark_Chunk (Chunk_Key 0 1 2)] @ [Other_Stores 3, Take_Snapshot False] :: cache_context store_op list)"
    by (simp_all add: u64_bound_def)
  from revision_identifies_content [OF this s] s(1,2) show ?thesis by auto
qed

text \<open>
  C6. A snapshot is never stale: whether it comes from the cache or is built anew, the snapshot a history's
  store gives has exactly the store's authority and revisions, and for every column with a revision the same
  blocks and actor geometry.
\<close>

theorem snapshot_faithful:
  assumes "n < u64_bound" "list_all valid_op ops" "run_ops sha ops (empty_store n) = Some s"
  shows "faithful_view (fst (collision_snapshot alive s)) s"
proof -
  have "cache_ok (empty_store n :: 'a chunk_store)" by (simp add: cache_ok_def empty_store_def)
  then have "cache_ok s" using cache_history [OF empty_store_wf [OF assms(1)] assms(2), of sha] assms(3) by auto
  then show ?thesis using faithful_view_of
    by (auto simp: collision_snapshot_def cache_ok_def split: bool.split option.split)
qed

theorem snapshot_faithful_witness:
  "\<exists>s. run_ops (\<lambda>b. b) sample_history (empty_store 1) = Some s \<and> faithful_view (fst (collision_snapshot True s)) s"
proof -
  have n: "1 < u64_bound" by (simp add: u64_bound_def)
  obtain s where s: "run_ops (\<lambda>b. b) sample_history (empty_store 1) = Some s"
    using run_ops_total [OF empty_store_wf [OF n] sample_valid] by blast
  with snapshot_faithful [OF n sample_valid s] show ?thesis by blast
qed

end
