(* ===== verification/Store_Effects.thy ===== *)
theory Store_Effects
  imports Store_Spec
begin

section \<open>What a commit changes\<close>

text \<open>The effect of whole columns and block updates on what a store holds.\<close>

lemma rel_blocks_cong:
  assumes "rel_option same_blocks b c" shows "rel_option same_blocks a b = rel_option same_blocks a c"
  using assms by (cases a; cases b; cases c) (simp_all, metis same_blocks_trans same_blocks_sym)

subsection \<open>Whole columns\<close>

text \<open>Two biome storages the store does not tell apart.\<close>

definition same_biome :: "biome_storage option \<Rightarrow> biome_storage option \<Rightarrow> bool" where
  "same_biome a b \<longleftrightarrow> rel_option storage_eq a b"

lemma stored_biome_at: "stored_biome s key = column_at (chunks s (sk_chunk key) \<bind> biomes) (sk_y key)"
  by (simp add: stored_biome_def column_at_def split: option.split)

lemma column_ys_iff: "y \<in> set (column_ys column) \<longleftrightarrow> in_i32 y \<and> column_at column y \<noteq> None"
proof (cases column)
  case (Some c)
  have "y \<in> set (column_ys column) \<longleftrightarrow> (\<exists>i<length (biome_storages c). in_i32 (int i) \<and> in_i32 (base_sub_chunk_y c + int i) \<and> y = base_sub_chunk_y c + int i)"
    by (auto simp: column_ys_def Some map_filter_def checked_i32_def checked_add_i32_def result_simps split: if_splits)
  then show ?thesis using column_storage_iff [of c y] by (auto simp: column_at_def Some)
qed (simp add: column_ys_def column_at_def)

lemma changed_biome_ys_iff:
  "y \<in> set (changed_biome_ys previous replacement) \<longleftrightarrow>
    in_i32 y \<and> \<not> same_biome (column_at previous y) (column_at replacement y)"
  by (cases "column_at previous y"; cases "column_at replacement y")
    (auto simp: changed_biome_ys_def same_biome_def column_ys_iff)

lemma reused_biomes_same:
  assumes "reuse_equal_biomes b previous = Some c" shows "same_biome (column_at (Some c) y) (column_at (Some b) y)"
proof -
  have facts: "base_sub_chunk_y c = base_sub_chunk_y b \<and> length (biome_storages c) = length (biome_storages b) \<and>
      (\<forall>i<length (biome_storages b). storage_eq (biome_storages c ! i) (biome_storages b ! i))"
  proof (cases previous)
    case (Some p)
    then show ?thesis using assms
      by (auto simp: reuse_equal_biomes_def nth_enumerate_eq storage_eq_refl split: if_splits option.split)
  qed (use assms in \<open>simp add: reuse_equal_biomes_def storage_eq_refl\<close>)
  show ?thesis
  proof (cases "column_storage b y")
    case None
    then have "column_storage c y = None"
      using facts by (cases "checked_sub_i32 y (base_sub_chunk_y b)") (simp_all add: column_storage_def split: if_splits)
    then show ?thesis using None by (simp add: column_at_def same_biome_def)
  next
    case (Some st)
    then obtain i where i: "i < length (biome_storages b)" "y = base_sub_chunk_y b + int i" "st = biome_storages b ! i" "in_i32 (int i)"
      by (auto simp: column_storage_iff)
    then have "column_storage c y = Some (biome_storages c ! i)" using facts by (auto simp: column_storage_iff)
    then show ?thesis using Some i facts by (simp add: column_at_def same_biome_def)
  qed
qed

lemma installed_biomes:
  "chunks (install_column key c s) k \<bind> biomes = (if k = key then biomes c else chunks s k \<bind> biomes)"
  by (auto simp: settle_chunk_def is_bare_def)

lemma renewed_biomes: "chunks (renewed_store key r s) k \<bind> biomes = chunks s k \<bind> biomes"
  by (auto simp: renewed_store_def put_chunk_def split: option.split)

text \<open>A commit that succeeds, taken apart.\<close>

lemma level_chunk_installed:
  assumes wf: "store_wf sha s" and d: "column_decoded_ok sha key d"
    and commit: "commit_level_chunk key d s = Some (Inr r, t)"
  obtains nb c s1 reserved where "next_biomes d (chunk_or_default s key) = Some nb"
    "r = level_result key d (chunk_or_default s key) nb" "t = apply_reserved_revision key reserved (install_column key c s1)"
    "chunks s1 = chunks (renewed_store key (dl_sub_chunks d) s)" "collision_revisions s1 = collision_revisions s"
    "biomes c = nb" "block_entities c = next_entities d (chunk_or_default s key)"
    "\<And>y. rel_option same_blocks (bt_get (sub_chunks c) y) (bt_get (dl_sub_chunks d) y)"
proof -
  let ?old = "chunk_or_default s key" and ?s = "renewed_store key (dl_sub_chunks d) s"
  let ?ys = "changed_section_ys (sub_chunks ?old) (dl_sub_chunks d)"
  have cols: "columns_wf sha s" using wf by (simp add: store_wf_def)
  have old: "column_ok sha key ?old" by (rule columns_wf_default [OF cols])
  have secs: "sections_wf (sub_chunks ?old)" "sections_wf (dl_sub_chunks d)"
    using old d by (simp_all add: column_ok_def column_decoded_ok_def)
  obtain nb where nb: "next_biomes d ?old = Some nb" using next_biomes_ok [OF d old] by blast
  let ?c = "\<lparr>sub_chunks = (if ?ys \<noteq> [] \<or> chunks s key = None then keep_sections (sub_chunks ?old) (dl_sub_chunks d)
      else renew_identities (sub_chunks ?old) (dl_sub_chunks d)), biomes = nb, block_entities = next_entities d ?old,
      block_entity_bytes = entity_total (next_entities d ?old)\<rparr>"
  let ?reserve = "if key \<notin> loaded_chunks s \<or> ?ys \<noteq> [] then reserve_if True ?s
    else reserve_actor_replacement key None (next_entities d ?old) ?s"
  obtain res s1 where r: "?reserve = (res, s1)" by fastforce
  have chunks: "chunks s1 = chunks ?s" "collision_revisions s1 = collision_revisions s"
    using arg_cong [OF r, of "\<lambda>x. chunks (snd x)"] arg_cong [OF r, of "\<lambda>x. collision_revisions (snd x)"]
    unfolding reserve_actor_replacement_eq by (simp_all split: if_splits)
  have eq: "Some (Inr r, t) = Some (proceed (lift_error Decode_Collision_Revision (res, s1))
      (\<lambda>reserved s. (Inr (level_result key d ?old nb), apply_reserved_revision key reserved (install_column key ?c s))))"
    using commit unfolding commit_level_chunk_eq [OF cols d nb] r by simp
  have same: "rel_option same_blocks (bt_get (sub_chunks ?c) y) (bt_get (dl_sub_chunks d) y)" for y
  proof (cases "?ys \<noteq> [] \<or> chunks s key = None")
    case True
    then show ?thesis using keep_sections_same [OF secs, of y] by simp
  next
    case False
    then have "rel_option same_blocks (bt_get (sub_chunks ?old) y) (bt_get (dl_sub_chunks d) y)"
      using changed_section_ys_iff [OF secs, of y] by simp
    with renew_identities_same [of "sub_chunks ?old" "dl_sub_chunks d" y]
    have "rel_option same_blocks (bt_get (renew_identities (sub_chunks ?old) (dl_sub_chunks d)) y) (bt_get (dl_sub_chunks d) y)"
      by (auto elim!: option.rel_cases intro: same_blocks_trans)
    then show ?thesis using False by auto
  qed
  show thesis
  proof (cases res)
    case (Inl e)
    then show thesis using eq by simp
  next
    case (Inr reserved)
    then have "r = level_result key d ?old nb" "t = apply_reserved_revision key reserved (install_column key ?c s1)"
      using eq by simp_all
    from that [OF nb this chunks _ _ same] show thesis by simp
  qed
qed

text \<open>What the taken-apart commit says of sections, biomes and the two lists.\<close>

lemma level_chunk_effect:
  fixes s t :: "'c chunk_store"
  assumes wf: "store_wf sha s" and d: "column_decoded_ok sha key d"
    and nb: "next_biomes d (chunk_or_default s key) = Some nb"
    and chunks: "chunks t = chunks (settle_chunk key c s1)" "chunks s1 = chunks (renewed_store key (dl_sub_chunks d) s)"
    and c: "biomes c = nb" "block_entities c = next_entities d (chunk_or_default s key)"
      "\<And>y. rel_option same_blocks (bt_get (sub_chunks c) y) (bt_get (dl_sub_chunks d) y)"
  defines "ys \<equiv> changed_section_ys (sub_chunks (chunk_or_default s key)) (dl_sub_chunks d)"
    and "zs \<equiv> changed_biome_ys (biomes (chunk_or_default s key)) nb"
  shows level_sections: "rel_option same_blocks (stored_sub_chunk t (from_chunk key y)) (bt_get (dl_sub_chunks d) y)"
    and level_entities: "entities_at t key = next_entities d (chunk_or_default s key)"
    and level_biomes: "case dl_biomes d of None \<Rightarrow> stored_biome t (from_chunk key y) = stored_biome s (from_chunk key y)
       | Some b \<Rightarrow> same_biome (stored_biome t (from_chunk key y)) (column_storage b y)"
    and level_others: "k \<noteq> key \<Longrightarrow> chunks t k = chunks s k"
    and level_ys: "y \<in> set ys \<longleftrightarrow>
      \<not> rel_option same_blocks (stored_sub_chunk s (from_chunk key y)) (stored_sub_chunk t (from_chunk key y))"
    and level_zs: "y \<in> set zs \<longleftrightarrow> in_i32 y \<and> \<not> same_biome (stored_biome s (from_chunk key y)) (stored_biome t (from_chunk key y))"
proof -
  let ?old = "chunk_or_default s key"
  have cols: "columns_wf sha s" using wf by (simp add: store_wf_def)
  have secs: "sections_wf (sub_chunks ?old)" "sections_wf (dl_sub_chunks d)"
    using columns_wf_default [OF cols, of key] d by (simp_all add: column_ok_def column_decoded_ok_def)
  have at: "sections_at t key = sub_chunks c" "entities_at t key = block_entities c"
    using at_cong [OF chunks(1)] by simp_all
  show sections: "rel_option same_blocks (stored_sub_chunk t (from_chunk key y)) (bt_get (dl_sub_chunks d) y)" for y
    using c(3) by (simp add: stored_sub_chunk_at at)
  show "entities_at t key = next_entities d ?old" by (simp add: at c)
  have before: "stored_sub_chunk s (from_chunk key y) = bt_get (sub_chunks ?old) y"
    by (simp add: stored_sub_chunk_at sections_at_def)
  have old_biomes: "stored_biome s (from_chunk key y) = column_at (biomes ?old) y"
    by (simp add: stored_biome_at chunk_or_default_def empty_chunk_def split: option.split)
  have biomes: "stored_biome t (from_chunk key y) = column_at nb y"
    using installed_biomes [of key c s1 key] by (simp add: stored_biome_at chunks(1) c(1))
  show "case dl_biomes d of None \<Rightarrow> stored_biome t (from_chunk key y) = stored_biome s (from_chunk key y)
     | Some b \<Rightarrow> same_biome (stored_biome t (from_chunk key y)) (column_storage b y)"
  proof (cases "dl_biomes d")
    case None
    then show ?thesis using nb by (simp add: biomes old_biomes next_biomes_def)
  next
    case (Some b)
    then obtain n where "reuse_equal_biomes b (biomes ?old) = Some n" "nb = Some n" using nb by (auto simp: next_biomes_def)
    then show ?thesis using reused_biomes_same [of b "biomes ?old" n y] Some by (simp add: biomes) (simp add: column_at_def)
  qed
  show "chunks t k = chunks s k" if "k \<noteq> key"
    using that by (simp add: chunks settle_chunk_def) (simp add: renewed_store_def put_chunk_def split: option.split)
  show "y \<in> set ys \<longleftrightarrow>
      \<not> rel_option same_blocks (stored_sub_chunk s (from_chunk key y)) (stored_sub_chunk t (from_chunk key y))"
    unfolding ys_def changed_section_ys_iff [OF secs] before using rel_blocks_cong [OF sections [of y]] by simp
  show "y \<in> set zs \<longleftrightarrow> in_i32 y \<and> \<not> same_biome (stored_biome s (from_chunk key y)) (stored_biome t (from_chunk key y))"
    unfolding zs_def changed_biome_ys_iff biomes old_biomes ..
qed

lemma from_chunk_image: "k \<in> from_chunk key ` A \<longleftrightarrow> sk_chunk k = key \<and> sk_y k \<in> A"
proof
  assume "sk_chunk k = key \<and> sk_y k \<in> A"
  then have "k = from_chunk key (sk_y k)" "sk_y k \<in> A" using key_conversions(3) [of k] by simp_all
  then show "k \<in> from_chunk key ` A" by (rule image_eqI)
qed auto

lemma level_result_lists:
  assumes "r = level_result key d old nb"
  defines "ys \<equiv> changed_section_ys (sub_chunks old) (dl_sub_chunks d)" and "zs \<equiv> changed_biome_ys (biomes old) nb"
  shows "k \<in> set (alc_changed r) \<longleftrightarrow> sk_chunk k = key \<and> (sk_y k \<in> set ys \<or> sk_y k \<in> set zs)"
    "set (alc_dirty r) = (\<Union>c\<in>set (alc_changed r). set (mesh_dependents c)) \<union>
      (\<Union>c\<in>{c \<in> set (alc_changed r). sk_y c \<in> set zs}. set (mesh_neighbourhood_dependents c))"
proof -
  show changed: "k \<in> set (alc_changed r) \<longleftrightarrow> sk_chunk k = key \<and> (sk_y k \<in> set ys \<or> sk_y k \<in> set zs)" for k
    unfolding assms by (auto simp: level_result_def Let_def from_chunk_image)
  have "{c \<in> set (alc_changed r). sk_y c \<in> set zs} = set (map (from_chunk key) zs)"
    unfolding set_eq_iff mem_Collect_eq set_map from_chunk_image changed by blast
  note biomes = this
  show "set (alc_dirty r) = (\<Union>c\<in>set (alc_changed r). set (mesh_dependents c)) \<union>
      (\<Union>c\<in>{c \<in> set (alc_changed r). sk_y c \<in> set zs}. set (mesh_neighbourhood_dependents c))"
    unfolding biomes by (simp add: assms(1) level_result_def Let_def expand_mesh_dependents_def expand_biome_mesh_dependents_def
        biome_mesh_dependents_def zs_def)
qed

text \<open>
  C14. A committed column is the payload's.  Every height of it holds exactly the blocks the payload decoded to,
  absent ones included; its biomes and block entities are the payload's where it brought them and the
  old ones otherwise; it is loaded, and no other column changes.  The changed keys reported are, among
  the heights an \<^verbatim>\<open>i32\<close> can name, exactly those of the column whose blocks or biomes differ from before, and the dirty ones the
  meshes that border a changed sub-chunk or blend with a changed biome.
\<close>

theorem level_chunk_commit_exact:
  assumes wf: "store_wf sha s" and d: "column_decoded_ok sha key d"
    and commit: "commit_level_chunk key d s = Some (Inr r, t)"
  shows "rel_option same_blocks (stored_sub_chunk t (from_chunk key y)) (bt_get (dl_sub_chunks d) y) \<and>
    (case dl_biomes d of
       None \<Rightarrow> stored_biome t (from_chunk key y) = stored_biome s (from_chunk key y)
     | Some b \<Rightarrow> same_biome (stored_biome t (from_chunk key y)) (column_storage b y)) \<and>
    entities_at t key = (case dl_block_entities d of None \<Rightarrow> entities_at s key | Some es \<Rightarrow> entities es) \<and>
    is_chunk_loaded t key \<and>
    (k \<noteq> key \<longrightarrow> chunks t k = chunks s k \<and> collision_revision t k = collision_revision s k) \<and>
    (in_i32 y \<longrightarrow> (from_chunk key y \<in> set (alc_changed r) \<longleftrightarrow>
       \<not> rel_option same_blocks (stored_sub_chunk s (from_chunk key y)) (stored_sub_chunk t (from_chunk key y)) \<or>
       \<not> same_biome (stored_biome s (from_chunk key y)) (stored_biome t (from_chunk key y)))) \<and>
    set (alc_dirty r) = (\<Union>c\<in>set (alc_changed r). set (mesh_dependents c)) \<union>
      (\<Union>c\<in>{c \<in> set (alc_changed r). in_i32 (sk_y c) \<and> \<not> same_biome (stored_biome s c) (stored_biome t c)}.
         set (mesh_neighbourhood_dependents c)) \<and>
    (\<forall>c\<in>set (alc_changed r). sk_chunk c = key)"
proof -
  let ?old = "chunk_or_default s key"
  obtain nb reserved c s1 where facts: "next_biomes d ?old = Some nb" "r = level_result key d ?old nb"
    "t = apply_reserved_revision key reserved (install_column key c s1)"
    "chunks s1 = chunks (renewed_store key (dl_sub_chunks d) s)" "collision_revisions s1 = collision_revisions s"
    "biomes c = nb" "block_entities c = next_entities d ?old"
    "\<And>y. rel_option same_blocks (bt_get (sub_chunks c) y) (bt_get (dl_sub_chunks d) y)"
    by (rule level_chunk_installed [OF assms]) (rule that)
  have chunks: "chunks t = chunks (settle_chunk key c s1)" by (simp add: facts(3))
  note effect = level_chunk_effect [OF wf d facts(1) chunks facts(4,6-8)]
  note lists = level_result_lists [OF facts(2)]
  have "entities_at t key = (case dl_block_entities d of None \<Rightarrow> entities_at s key | Some es \<Rightarrow> entities es)"
    unfolding effect(2) by (simp add: next_entities_def entities_at_def split: option.split)
  moreover have "k \<noteq> key \<longrightarrow> chunks t k = chunks s k \<and> collision_revision t k = collision_revision s k"
    using effect(4) by (auto simp: collision_revision_def facts(3,5) apply_reserved_other)
  moreover have "in_i32 y \<longrightarrow> (from_chunk key y \<in> set (alc_changed r) \<longleftrightarrow>
       \<not> rel_option same_blocks (stored_sub_chunk s (from_chunk key y)) (stored_sub_chunk t (from_chunk key y)) \<or>
       \<not> same_biome (stored_biome s (from_chunk key y)) (stored_biome t (from_chunk key y)))"
    using effect(5,6) [of y] by (simp add: lists(1))
  moreover have "{c \<in> set (alc_changed r). in_i32 (sk_y c) \<and> \<not> same_biome (stored_biome s c) (stored_biome t c)} =
      {c \<in> set (alc_changed r). sk_y c \<in> set (changed_biome_ys (biomes ?old) nb)}"
    unfolding effect(6) lists(1) by (metis (no_types, lifting) key_conversions(3))
  moreover have "\<forall>c\<in>set (alc_changed r). sk_chunk c = key" using lists(1) by blast
  moreover have "is_chunk_loaded t key" by (simp add: is_chunk_loaded_def facts(3))
  ultimately show ?thesis using effect(1,3) lists(2) by simp
qed

definition sample_column :: "cache_context decoded_level_chunk" where
  "sample_column = \<lparr>dl_sub_chunks = [(4, sample_resident)], dl_biomes = None, dl_block_entities = None,
     dl_block_bytes_consumed = 5, dl_bytes_consumed = 5, dl_work = no_work\<rparr>"

lemma sample_column_ok: "column_decoded_ok sha key sample_column"
  by (simp add: column_decoded_ok_def sample_column_def sections_wf_def bt_values_def bt_invar_def bt_keys_def
      stored_section_def sub_chunk_wf_def sample_resident_def has_no_storages_def uniform_wf MAX_STORAGE_COUNT_def)

lemma sample_column_commits: "\<exists>r t. commit_level_chunk key sample_column (empty_store 1) = Some (Inr r, t)"
proof -
  have s: "chunk_or_default (empty_store 1) key = empty_chunk" "renewed_store key x (empty_store 1) = empty_store 1" for x :: "cache_context sections"
    by (simp_all add: chunk_or_default_def empty_store_def renewed_store_def)
  have nb: "next_biomes sample_column (chunk_or_default (empty_store 1) key) = Some None"
    unfolding s by (simp add: next_biomes_def sample_column_def empty_chunk_def)
  have wf: "columns_wf sha (empty_store 1)" for sha by (simp add: columns_wf_def empty_store_def)
  show ?thesis unfolding commit_level_chunk_eq [OF wf sample_column_ok nb] s
    by (simp add: empty_store_def reserve_if_def allocate_revision_def take_revision_def)
qed

theorem level_chunk_commit_exact_witness:
  "\<exists>r t. commit_level_chunk (Chunk_Key 0 1 2) sample_column (empty_store 1) = Some (Inr r, t) \<and>
    is_chunk_loaded t (Chunk_Key 0 1 2) \<and>
    rel_option same_blocks (stored_sub_chunk t (Sub_Chunk_Key 0 1 4 2)) (Some sample_resident)"
proof -
  obtain r t where c: "commit_level_chunk (Chunk_Key 0 1 2) sample_column (empty_store 1) = Some (Inr r, t)"
    using sample_column_commits by blast
  have wf: "store_wf (\<lambda>b. b) (empty_store 1)" by (simp add: empty_store_wf u64_bound_def)
  have key: "from_chunk (Chunk_Key 0 1 2) 4 = Sub_Chunk_Key 0 1 4 2" by (simp add: from_chunk_def)
  have "bt_get (dl_sub_chunks sample_column) 4 = Some sample_resident" by (simp add: sample_column_def bt_get_def)
  then show ?thesis using level_chunk_commit_exact [OF wf sample_column_ok c, of 4 "Chunk_Key 0 1 2"] c key by auto
qed

subsection \<open>Block updates\<close>

definition stored_storages :: "'c chunk_store \<Rightarrow> sub_chunk_key \<Rightarrow> paletted_storage list" where
  "stored_storages s key = (case stored_sub_chunk s key of None \<Rightarrow> [] | Some c \<Rightarrow> storages c)"

lemma commit_one:
  assumes wf: "store_wf sha s" and run: "commit_prepared_block_updates [m] s = (Inr ks, t)"
  shows "ks = (if mutation_changed m then [mutation_key m] else [])"
    "\<not> mutation_changed m \<Longrightarrow> t = s"
    "mutation_changed m \<Longrightarrow> \<exists>n. t = (if is_sub_chunk_loaded s (mutation_key m)
       then set_collision_revision (sk_chunk (mutation_key m)) (allocator s) else id)
         (invalidate_collision_snapshot (snd (commit_mutation m ([], s\<lparr>allocator := n\<rparr>))))"
proof -
  let ?cols = "bt_set (map (\<lambda>m. sk_chunk (mutation_key m)) (filter (\<lambda>m. mutation_changed m \<and> is_sub_chunk_loaded s (mutation_key m)) [m]))"
  have cols: "?cols = (if mutation_changed m \<and> is_sub_chunk_loaded s (mutation_key m) then [sk_chunk (mutation_key m)] else [])"
    by (simp add: bt_set_def)
  have invar: "revision_invar (allocator s)" using wf by (simp add: store_wf_def revisions_wf_def revision_invar_def)
  obtain res n where a: "allocate_batch (allocator s) (length ?cols) = (res, n)" by fastforce
  then obtain rs where rs: "res = Inr rs"
    using run unfolding commit_prepared_block_updates_def Let_def by (cases res) simp_all
  have batch: "rs = (if ?cols = [] then [] else [allocator s])"
    using allocate_batch_Inr(1) [OF a [unfolded rs] invar] unfolding cols by simp
  have n: "?cols = [] \<Longrightarrow> n = allocator s" using a by (simp add: allocate_batch_def)
  obtain changed u where u: "commit_mutation m ([], s\<lparr>allocator := n\<rparr>) = (changed, u)" by fastforce
  have changed: "changed = (if mutation_changed m then [mutation_key m] else [])"
    using u by (auto simp: commit_mutation_def split: if_splits)
  have "commit_prepared_block_updates [m] s = (Inr changed, fold (\<lambda>(k, r). set_collision_revision k r) (zip ?cols rs)
      (if changed \<noteq> [] then invalidate_collision_snapshot u else u))"
    unfolding commit_prepared_block_updates_def Let_def a rs prod.case sum.case fold.simps comp_apply id_apply u ..
  then have result: "ks = changed" "t = fold (\<lambda>(k, r). set_collision_revision k r) (zip ?cols rs)
      (if changed \<noteq> [] then invalidate_collision_snapshot u else u)"
    unfolding run prod.inject sum.inject by blast+
  show "ks = (if mutation_changed m then [mutation_key m] else [])" using result(1) changed by simp
  show "t = s" if "\<not> mutation_changed m"
  proof -
    have "?cols = []" using that by (simp add: cols)
    then have "n = allocator s" "rs = []" using n batch by simp_all
    then show ?thesis using result(2) changed that u by (simp add: commit_mutation_def)
  qed
  show "\<exists>n. t = (if is_sub_chunk_loaded s (mutation_key m)
       then set_collision_revision (sk_chunk (mutation_key m)) (allocator s) else id)
         (invalidate_collision_snapshot (snd (commit_mutation m ([], s\<lparr>allocator := n\<rparr>))))" if m: "mutation_changed m"
  proof (intro exI [of _ n])
    have "zip ?cols rs = (if is_sub_chunk_loaded s (mutation_key m) then [(sk_chunk (mutation_key m), allocator s)] else [])"
      unfolding batch unfolding cols using m by simp
    then show "t = (if is_sub_chunk_loaded s (mutation_key m)
       then set_collision_revision (sk_chunk (mutation_key m)) (allocator s) else id)
         (invalidate_collision_snapshot (snd (commit_mutation m ([], s\<lparr>allocator := n\<rparr>))))"
      using result(2) changed m by (simp add: u)
  qed
qed

definition biomes_at :: "'c chunk_store \<Rightarrow> chunk_key \<Rightarrow> decoded_biome_column option" where
  "biomes_at s key = biomes (chunk_or_default s key)"

lemma stored_biome_of: "stored_biome s key = column_at (biomes_at s (sk_chunk key)) (sk_y key)"
  by (simp add: stored_biome_at biomes_at_def chunk_or_default_def empty_chunk_def split: option.split)

lemma biomes_at_changed [simp]:
  "biomes_at (put_chunk key c s) k = (if k = key then biomes c else biomes_at s k)"
  "biomes_at (settle_chunk key c s) k = (if k = key then biomes c else biomes_at s k)"
  by (auto simp: biomes_at_def chunk_or_default_def put_chunk_def settle_chunk_def is_bare_def empty_chunk_def)

lemma biomes_at_cong: "chunks s = chunks t \<Longrightarrow> biomes_at s = biomes_at t"
  by (simp add: biomes_at_def chunk_or_default_def fun_eq_iff)

lemma commit_mutation_frame:
  "biomes_at (snd (commit_mutation m (acc, s))) = biomes_at s"
  "loaded_chunks (snd (commit_mutation m (acc, s))) = loaded_chunks s"
  "authoritative_sub_chunks (snd (commit_mutation m (acc, s))) = authoritative_sub_chunks s"
  "collision_revisions (snd (commit_mutation m (acc, s))) = collision_revisions s"
proof -
  show "biomes_at (snd (commit_mutation m (acc, s))) = biomes_at s"
    by (auto simp: commit_mutation_def put_sub_chunk_def remove_sub_chunk_without_revision_def fun_eq_iff Let_def
        split: option.split) (simp_all add: biomes_at_def chunk_or_default_def)
qed (simp_all add: commit_mutation_def put_sub_chunk_def remove_sub_chunk_without_revision_def Let_def split: option.split)

lemma commit_mutation_stored:
  assumes cols: "columns_wf sha s" and m: "mutation_changed m"
  shows "stored_sub_chunk (snd (commit_mutation m (acc, s))) k =
      (if k = mutation_key m then mutation_replacement m else stored_sub_chunk s k)"
    "entities_at (snd (commit_mutation m (acc, s))) = entities_at s"
proof -
  let ?key = "mutation_key m"
  have invar: "bt_invar (sections_at s (sk_chunk ?key))" by (rule sections_at_invar [OF cols])
  have key: "k = ?key \<longleftrightarrow> sk_chunk k = sk_chunk ?key \<and> sk_y k = sk_y ?key" by (metis key_conversions(3))
  show "stored_sub_chunk (snd (commit_mutation m (acc, s))) k =
      (if k = mutation_key m then mutation_replacement m else stored_sub_chunk s k)"
    unfolding stored_sub_chunk_at key using m
    by (cases "mutation_replacement m") (simp_all add: commit_mutation_def bt.lookup_remove [OF invar] bt.lookup_insert [OF invar])
  show "entities_at (snd (commit_mutation m (acc, s))) = entities_at s"
    using m by (cases "mutation_replacement m") (simp_all add: commit_mutation_def fun_eq_iff)
qed

lemma view_nothing [simp]: "view_cell air [] layer l = Some air"
  by (simp add: view_cell_def)

lemma prepared_view:
  assumes wf: "pred_option sub_chunk_wf previous" and us: "list_all valid_update us"
    and prepared: "prepare_sub_chunk_blocks key previous us air = Some (Inr m)" and l: "l < BLOCKS_PER_SUB_CHUNK"
  shows "mutation_key m = key \<and> view_cell air (case (if mutation_changed m then mutation_replacement m else previous) of
      None \<Rightarrow> [] | Some c \<Rightarrow> storages c) layer l =
    overridden (layer_updates layer us) l (view_cell air (case previous of None \<Rightarrow> [] | Some c \<Rightarrow> storages c) layer l)"
proof -
  have valid: "validate_all us = Inr ()" using us by (simp add: result_simps)
  show ?thesis
  proof (cases "us = []")
    case True
    then show ?thesis
      using prepared by (auto simp: prepare_sub_chunk_blocks_def layer_updates_def overridden_def)
  next
    case False
    let ?p = "case previous of Some p \<Rightarrow> p | None \<Rightarrow> for_block_updates (sk_y key)"
    have "sub_chunk_wf ?p" using wf by (cases previous) (simp_all add: sub_chunk_wf_def for_block_updates_def)
    then obtain c p where p: "apply_block_updates ?p us air = Some (c, p)"
      "\<forall>layer. \<forall>l<BLOCKS_PER_SUB_CHUNK. view_cell air (storages p) layer l =
         overridden (layer_updates layer us) l (view_cell air (storages ?p) layer l)"
      "c = (length (storages p) \<noteq> length (storages ?p) \<or>
         (\<exists>layer. \<exists>l<BLOCKS_PER_SUB_CHUNK. view_cell air (storages p) layer l \<noteq> view_cell air (storages ?p) layer l))"
      using apply_block_updates_correct us by blast
    have old: "storages ?p = (case previous of None \<Rightarrow> [] | Some c \<Rightarrow> storages c)"
      by (simp add: for_block_updates_def split: option.split)
    have new: "view_cell air (case (if has_no_storages p then None else Some p) of None \<Rightarrow> [] | Some c \<Rightarrow> storages c) layer l =
        view_cell air (storages p) layer l" by (simp add: has_no_storages_def)
    have m: "mutation_key m = key" "mutation_replacement m = (if has_no_storages p then None else Some p)"
      "mutation_changed m = (case (previous, if has_no_storages p then None else Some p) of
         (Some _, Some _) \<Rightarrow> c | (None, None) \<Rightarrow> False | _ \<Rightarrow> True)"
      using prepared False valid p(1) by (cases previous; cases "has_no_storages p"; force simp: prepare_sub_chunk_blocks_def Let_def)+
    have "view_cell air (case previous of None \<Rightarrow> [] | Some c \<Rightarrow> storages c) layer l = view_cell air (storages p) layer l"
      if "\<not> mutation_changed m"
      using that p(3) l unfolding m(3) old by (cases previous; cases "has_no_storages p") (auto simp: has_no_storages_def)
    then show ?thesis using p(2) l m(1) new unfolding old m(2) by (cases "mutation_changed m") simp_all
  qed
qed

text \<open>
  C15. A batch of block updates does to the store what it says, and nothing else.  Where it is valid and
  revisions are left, the cell of every layer of the sub-chunk shows the last value the batch gave it, and
  otherwise what it showed (air where nothing is stored).  Every other sub-chunk, all block entities, all
  biomes, the loaded columns and the authoritative sub-chunks stay.  The batch either reports no key and leaves
  the whole store as it was, or reports the key, drops the cached snapshot and, where the sub-chunk is loaded,
  gives its column, and no other, the next revision.
\<close>

theorem update_sub_chunk_blocks_exact:
  assumes wf: "store_wf sha s" and us: "list_all valid_update us"
    and update: "update_sub_chunk_blocks key us air s = Some (Inr ks, t)" and l: "l < BLOCKS_PER_SUB_CHUNK"
  shows "view_cell air (stored_storages t key) layer l =
      overridden (layer_updates layer us) l (view_cell air (stored_storages s key) layer l) \<and>
    (k \<noteq> key \<longrightarrow> stored_sub_chunk t k = stored_sub_chunk s k) \<and>
    stored_block_entity t = stored_block_entity s \<and> stored_biome t = stored_biome s \<and>
    loaded_chunks t = loaded_chunks s \<and> authoritative_sub_chunks t = authoritative_sub_chunks s \<and>
    (ks = [] \<and> t = s \<or>
     ks = [key] \<and> snapshot_cache t = None \<and>
     collision_revisions t = (if is_sub_chunk_loaded s key
       then (collision_revisions s)(sk_chunk key \<mapsto> \<lparr>revision_chunk = sk_chunk key, revision_number = allocator s\<rparr>)
       else collision_revisions s))"
proof -
  have cols: "columns_wf sha (s\<lparr>allocator := n\<rparr>)" for n using wf by (simp add: store_wf_def columns_wf_def)
  obtain m where m: "prepare_sub_chunk_blocks key (stored_sub_chunk s key) us air = Some (Inr m)"
      "commit_prepared_block_updates [m] s = (Inr ks, t)"
  proof (cases "prepare_sub_chunk_blocks key (stored_sub_chunk s key) us air")
    case (Some res)
    then show ?thesis using that update by (cases res) (simp_all add: update_sub_chunk_blocks_def)
  qed (use update in \<open>simp add: update_sub_chunk_blocks_def\<close>)
  note view = conjunct1 [OF prepared_view [OF stored_sub_chunk_wf [OF wf] us m(1) l]]
    conjunct2 [OF prepared_view [OF stored_sub_chunk_wf [OF wf] us m(1) l]]
  note one = commit_one [OF wf m(2), unfolded view(1)]
  show ?thesis
  proof (cases "mutation_changed m")
    case True
    obtain n where t: "t = (if is_sub_chunk_loaded s key then set_collision_revision (sk_chunk key) (allocator s) else id)
        (invalidate_collision_snapshot (snd (commit_mutation m ([], s\<lparr>allocator := n\<rparr>))))" using one(3) [OF True] by blast
    have n: "chunks t = chunks (snd (commit_mutation m ([], s\<lparr>allocator := n\<rparr>)))" by (simp add: t)
    have s: "stored_sub_chunk (s\<lparr>allocator := n\<rparr>) = stored_sub_chunk s" "entities_at (s\<lparr>allocator := n\<rparr>) = entities_at s"
      "biomes_at (s\<lparr>allocator := n\<rparr>) = biomes_at s"
      by (simp add: stored_sub_chunk_def fun_eq_iff, (rule at_cong biomes_at_cong, simp)+)
    have stored: "stored_sub_chunk t k = (if k = key then mutation_replacement m else stored_sub_chunk s k)" for k
      using commit_mutation_stored(1) [OF cols True, of "[]" n k] n s(1) by (simp add: stored_sub_chunk_def view(1))
    have "entities_at t = entities_at s"
      using commit_mutation_stored(2) [OF cols True, of "[]" n] at_cong(2) [OF n] s(2) by simp
    then have entities: "stored_block_entity t = stored_block_entity s" by (simp add: stored_entity_at fun_eq_iff)
    have "biomes_at t = biomes_at s" using biomes_at_cong [OF n] s(3) by (simp add: commit_mutation_frame(1))
    then have biome: "stored_biome t = stored_biome s" by (simp add: stored_biome_of fun_eq_iff)
    have fields: "loaded_chunks t = loaded_chunks s" "authoritative_sub_chunks t = authoritative_sub_chunks s" "snapshot_cache t = None"
      "collision_revisions t = (if is_sub_chunk_loaded s key
         then (collision_revisions s)(sk_chunk key \<mapsto> \<lparr>revision_chunk = sk_chunk key, revision_number = allocator s\<rparr>)
         else collision_revisions s)" by (simp_all add: t commit_mutation_frame)
    show ?thesis using view True one(1) stored entities biome fields by (simp add: stored_storages_def)
  next
    case False
    then show ?thesis using view(2) one by (simp add: stored_storages_def)
  qed
qed

lemma unloaded_batch:
  assumes "\<not> is_sub_chunk_loaded s (mutation_key m)" shows "\<exists>ks t. commit_prepared_block_updates [m] s = (Inr ks, t)"
  using assms by (auto simp: commit_prepared_block_updates_def Let_def bt_set_def allocate_batch_def split: prod.split)

theorem update_sub_chunk_blocks_exact_witness:
  "\<exists>ks t. update_sub_chunk_blocks (Sub_Chunk_Key 0 1 4 2) [new_update 1 2 3 1 9] 0 (empty_store 1 :: cache_context chunk_store) = Some (Inr ks, t) \<and>
    view_cell 0 (stored_storages t (Sub_Chunk_Key 0 1 4 2)) 1 (linear_index 1 2 3) = Some 9"
proof -
  let ?s = "empty_store 1 :: cache_context chunk_store" and ?key = "Sub_Chunk_Key 0 1 4 2" and ?us = "[new_update 1 2 3 1 9]"
  have wf: "store_wf (\<lambda>b. b) ?s" by (simp add: empty_store_wf u64_bound_def)
  have us: "list_all valid_update ?us" by (simp add: valid_update_def new_update_def)
  obtain res where res: "prepare_sub_chunk_blocks ?key (stored_sub_chunk ?s ?key) ?us 0 = Some res"
      "\<forall>m. res = Inr m \<longrightarrow> mutation_key m = ?key"
    using prepared_ok [OF stored_sub_chunk_wf [OF wf]] by blast
  obtain m where m: "res = Inr m"
    using res(1) us by (cases res) (auto simp: prepare_sub_chunk_blocks_def result_simps validate_def valid_update_def MAX_STORAGE_COUNT_def Let_def)
  have "\<not> is_sub_chunk_loaded ?s (mutation_key m)" by (simp add: is_sub_chunk_loaded_def empty_store_def)
  then obtain ks t where "commit_prepared_block_updates [m] ?s = (Inr ks, t)" using unloaded_batch by blast
  then have c: "update_sub_chunk_blocks ?key ?us 0 ?s = Some (Inr ks, t)"
    using res(1) m by (simp add: update_sub_chunk_blocks_def)
  have l: "linear_index 1 2 3 < BLOCKS_PER_SUB_CHUNK" by (rule linear_index_bound) simp_all
  have "overridden (layer_updates 1 ?us) (linear_index 1 2 3) x = Some 9" for x
    by (simp add: layer_updates_def overridden_def update_cell_def new_update_def)
  then show ?thesis using update_sub_chunk_blocks_exact [OF wf us c l, where layer = 1] c by auto
qed

end
