(* ===== verification/Store_Failures.thy ===== *)
theory Store_Failures
  imports Store_Effects
begin

section \<open>Refused operations\<close>

text \<open>An operation that returns an error has no effect on what a store holds.\<close>

text \<open>Two stores that differ at most in allocated identities and in payload identities of equal sections.\<close>

definition untouched :: "'c chunk_store \<Rightarrow> 'c chunk_store \<Rightarrow> bool" where
  "untouched s t \<longleftrightarrow> loaded_chunks t = loaded_chunks s \<and> authoritative_sub_chunks t = authoritative_sub_chunks s \<and>
     collision_revisions t = collision_revisions s \<and> snapshot_cache t = snapshot_cache s \<and>
     (\<forall>key. rel_option same_blocks (stored_sub_chunk t key) (stored_sub_chunk s key)) \<and>
     stored_block_entity t = stored_block_entity s \<and> stored_biome t = stored_biome s"

lemma untouched_refl [simp]: "untouched s s"
  by (simp add: untouched_def option.rel_refl)

lemma untouched_allocator:
  assumes "untouched s t" "chunks u = chunks t" "loaded_chunks u = loaded_chunks t"
    "authoritative_sub_chunks u = authoritative_sub_chunks t" "collision_revisions u = collision_revisions t"
    "snapshot_cache u = snapshot_cache t"
  shows "untouched s u"
proof -
  have "stored_sub_chunk u = stored_sub_chunk t" "stored_block_entity u = stored_block_entity t" "stored_biome u = stored_biome t"
    by (simp_all add: stored_sub_chunk_def stored_block_entity_def stored_biome_def assms(2) fun_eq_iff)
  then show ?thesis using assms(1,3-) by (simp add: untouched_def)
qed

lemma untouched_reserve: "reserve_if b s = (res, t) \<Longrightarrow> untouched s t"
  by (metis reserve_fields snd_conv untouched_allocator untouched_refl)

lemma untouched_renewed: "untouched s (renewed_store key r s)"
  unfolding untouched_def
proof (intro conjI allI)
  show "rel_option same_blocks (stored_sub_chunk (renewed_store key r s) k) (stored_sub_chunk s k)" for k
    by (simp add: stored_sub_chunk_at renewed_at renew_identities_same option.rel_refl)
  show "stored_block_entity (renewed_store key r s) = stored_block_entity s"
    by (simp add: stored_entity_at renewed_at fun_eq_iff)
  show "stored_biome (renewed_store key r s) = stored_biome s"
    by (simp add: stored_biome_at renewed_biomes fun_eq_iff)
qed simp_all

lemma untouched_trans: "untouched s t \<Longrightarrow> untouched t u \<Longrightarrow> untouched s u"
  unfolding untouched_def by (metis rel_blocks_cong)

text \<open>What each operation leaves when it fails.\<close>

lemma allocate_error: "allocate_revision s = (Inl e, t) \<Longrightarrow> t = s"
  by (auto simp: allocate_revision_def take_revision_def split: if_splits)

lemma mark_error: "mark_chunk_loaded k s = (Inl e, t) \<Longrightarrow> t = s" "mark_sub_chunk_loaded k' s = (Inl e, t) \<Longrightarrow> t = s"
  using allocate_error
  by (auto simp: mark_chunk_loaded_def mark_sub_chunk_loaded_def proceed_def Let_def split: if_splits prod.splits sum.splits)

lemma reserve_error: "reserve_if b s = (Inl e, t) \<Longrightarrow> t = s"
  using allocate_error by (auto simp: reserve_if_def proceed_def split: if_splits prod.splits sum.splits)

lemma remove_error: "remove_sub_chunk key s = (Inl e, t) \<Longrightarrow> t = s"
  using reserve_error by (auto simp: remove_sub_chunk_def reserve_loaded_change_def proceed_def split: if_splits prod.splits sum.splits)

lemma snd_errors:
  "fst (reserve_if b s) = Inl e \<Longrightarrow> snd (reserve_if b s) = s"
  "fst (remove_sub_chunk key s) = Inl e \<Longrightarrow> snd (remove_sub_chunk key s) = s"
  by (metis prod.collapse reserve_error, metis prod.collapse remove_error)

lemma commit_sub_chunk_error: "commit_sub_chunk key d s = (Inl e, t) \<Longrightarrow> t = s"
  by (auto simp: snd_errors commit_sub_chunk_def reserve_loaded_change_def lift_error_def map_err_def proceed_def Let_def
      split: if_splits prod.splits sum.splits)

lemma apply_sub_chunk_error:
  assumes "apply_sub_chunk sha key payload ids s = Some (Inl e, t)" shows "t = s"
proof (cases "fst (decode_sub_chunk_prefix sha ids payload)")
  case (Some d)
  then have "commit_sub_chunk key d s = (Inl e, t)" using assms by (simp add: apply_sub_chunk_def)
  then show ?thesis by (rule commit_sub_chunk_error)
qed (use assms in \<open>simp add: apply_sub_chunk_def\<close>)

lemma batch_error: "commit_prepared_block_updates ms s = (Inl e, t) \<Longrightarrow> t = s"
  by (auto simp: commit_prepared_block_updates_def Let_def allocate_batch_def split: if_splits prod.splits sum.splits)

lemma update_blocks_error:
  assumes "update_sub_chunk_blocks key us air s = Some (Inl e, t)" shows "t = s"
proof (cases "prepare_sub_chunk_blocks key (stored_sub_chunk s key) us air")
  case (Some res)
  then show ?thesis using assms batch_error by (cases res) (simp_all add: update_sub_chunk_blocks_def)
qed (use assms in \<open>simp add: update_sub_chunk_blocks_def\<close>)

lemma decoded_error:
  assumes "commit_decoded_sub_chunk key d s = Some (Inl e, t)" shows "untouched s t"
proof -
  obtain actor s1 where r: "reserve_actor_replacement (sk_chunk key) (Some key) (entities (ds_block_entities d)) s = (actor, s1)"
    by fastforce
  have s1: "untouched s s1" using r unfolding reserve_actor_replacement_eq by (rule untouched_reserve)
  obtain changed s2 where c: "commit_sub_chunk key (ds_sub_chunk d) s1 = (changed, s2)" by fastforce
  obtain checked where v: "validate_sub_chunk_block_entity_replacement key (ds_block_entities d) s = Some checked"
    using assms by (cases "validate_sub_chunk_block_entity_replacement key (ds_block_entities d) s") (simp_all add: commit_decoded_sub_chunk_def)
  show ?thesis using assms r c s1 v commit_sub_chunk_error [of key "ds_sub_chunk d" s1]
    by (cases checked; cases actor; cases changed) (auto simp: commit_decoded_sub_chunk_def)
qed

lemma all_air_error:
  assumes "apply_all_air key s = Some (Inl e, t)" shows "untouched s t"
proof -
  obtain actor s1 where r: "reserve_actor_replacement (sk_chunk key) (Some key) bt_empty s = (actor, s1)"
    by fastforce
  have s1: "untouched s s1" using r unfolding reserve_actor_replacement_eq by (rule untouched_reserve)
  obtain changed s2 where c: "remove_sub_chunk key s1 = (changed, s2)" by fastforce
  show ?thesis using assms r c s1 remove_error [of key s1]
    by (cases actor; cases changed) (auto simp: apply_all_air_def)
qed

lemma live_error: "commit_block_entity_update key nbt s = Some (Inl e, t) \<Longrightarrow> t = s"
  by (auto simp: snd_errors commit_block_entity_update_def store_block_entity_def reserve_actor_change_def Let_def proceed_def
      lift_error_def map_err_def split: if_splits option.splits sum.splits prod.splits)

lemma column_entities_error: "commit_chunk_block_entities key d s = (Inl e, t) \<Longrightarrow> t = s"
  using reserve_error
  by (auto simp: commit_chunk_block_entities_def reserve_actor_replacement_eq proceed_def Let_def
      split: if_splits sum.splits prod.splits)

lemma level_error:
  assumes wf: "store_wf sha s" and d: "column_decoded_ok sha key d" and c: "commit_level_chunk key d s = Some (Inl e, t)"
  shows "untouched s t"
proof -
  let ?old = "chunk_or_default s key" and ?s = "renewed_store key (dl_sub_chunks d) s"
  have cols: "columns_wf sha s" using wf by (simp add: store_wf_def)
  obtain nb where nb: "next_biomes d ?old = Some nb" using next_biomes_ok [OF d columns_wf_default [OF cols]] by blast
  let ?reserve = "if key \<notin> loaded_chunks s \<or> changed_section_ys (sub_chunks ?old) (dl_sub_chunks d) \<noteq> [] then reserve_if True ?s
    else reserve_actor_replacement key None (next_entities d ?old) ?s"
  obtain res s1 where r: "?reserve = (res, s1)" by fastforce
  then have s1: "untouched ?s s1" unfolding reserve_actor_replacement_eq by (auto intro: untouched_reserve split: if_splits)
  have "t = s1" using c unfolding commit_level_chunk_eq [OF cols d nb] r by (cases res) simp_all
  then show ?thesis using untouched_trans [OF untouched_renewed s1] by simp
qed

text \<open>An operation that fails did so in its own commit.\<close>

lemma plain_error: "plain m = Some (False, t) \<Longrightarrow> \<exists>e. m = (Inl e, t)"
  by (cases m; cases "fst m") (auto simp: plain_def)

lemma partial_error: "partial m = Some (False, t) \<Longrightarrow> \<exists>e. m = Some (Inl e, t)"
  by (cases m) (auto simp: partial_def isl_def)

text \<open>
  C16. A failed operation is no operation.  Whatever the store and the bytes, an operation that returns an error
  leaves authority, revisions, the cached snapshot, every block, block entity and biome as they were; at most
  identities of the process are used up and an inline payload's cached identity is renewed.
\<close>

theorem failed_operation_untouched:
  assumes wf: "store_wf sha s" and ok: "valid_op op" and failed: "run_op sha op s = Some (False, t)"
  shows "untouched s t"
proof (cases op)
  case (Mark_Chunk key)
  then have "plain (mark_chunk_loaded key s) = Some (False, t)" using failed by simp
  from plain_error [OF this] have "t = s" by (elim exE) (rule mark_error(1))
  then show ?thesis by simp
next
  case (Mark_Sub_Chunk key)
  then have "plain (mark_sub_chunk_loaded key s) = Some (False, t)" using failed by simp
  from plain_error [OF this] have "t = s" by (elim exE) (rule mark_error(2))
  then show ?thesis by simp
next
  case (Apply_Sub_Chunk key payload ids)
  then have "partial (apply_sub_chunk sha key payload ids s) = Some (False, t)" using failed by simp
  from partial_error [OF this] obtain e where "apply_sub_chunk sha key payload ids s = Some (Inl e, t)" ..
  then have "t = s" by (rule apply_sub_chunk_error)
  then show ?thesis by simp
next
  case (Commit_Decoded key payload ids)
  then obtain d where "partial (commit_decoded_sub_chunk key d s) = Some (False, t)"
    using failed by (cases "decode_sub_chunk_entry sha key payload ids") auto
  from partial_error [OF this] show ?thesis by (elim exE) (rule decoded_error)
next
  case (Request_Mode_Air key)
  then have "plain (remove_sub_chunk key s) = Some (False, t)" using failed by (simp add: apply_request_mode_air_def)
  from plain_error [OF this] have "t = s" by (elim exE) (rule remove_error)
  then show ?thesis by simp
next
  case (All_Air key)
  then have "partial (apply_all_air key s) = Some (False, t)" using failed by simp
  from partial_error [OF this] show ?thesis by (elim exE) (rule all_air_error)
next
  case (Update_Blocks key updates air)
  then have "partial (update_sub_chunk_blocks key updates air s) = Some (False, t)" using failed by simp
  from partial_error [OF this] obtain e where "update_sub_chunk_blocks key updates air s = Some (Inl e, t)" ..
  then have "t = s" by (rule update_blocks_error)
  then show ?thesis by simp
next
  case (Commit_Prepared batch)
  then obtain ms where "plain (commit_prepared_block_updates ms s) = Some (False, t)"
    using failed by (cases "prepare_batch batch") auto
  from plain_error [OF this] have "t = s" by (elim exE) (rule batch_error)
  then show ?thesis by simp
next
  case (Commit_Biomes key base n payload ids)
  then show ?thesis using failed by (auto simp: result_simps split: prod.splits)
next
  case (Apply_Level_Chunk key first n payload ids)
  obtain dl where dl: "decode_level_chunk sha first n payload ids = Some dl" "column_decoded_ok sha key dl"
    using level_decoded_ok by blast
  then have "partial (commit_level_chunk key dl s) = Some (False, t)" using failed by (simp add: Apply_Level_Chunk apply_level_chunk_def)
  from partial_error [OF this] show ?thesis by (elim exE) (rule level_error [OF wf dl(2)])
next
  case (Commit_Inline key d n payload ids biome_ids previous)
  obtain dl where dl: "decode_inline_reusing sha key d n payload ids biome_ids previous = Some dl" "column_decoded_ok sha key dl"
    using inline_decoded_ok [of previous d sha key n payload ids biome_ids] ok Commit_Inline by auto
  then have "partial (commit_level_chunk key dl s) = Some (False, t)" using failed by (simp add: Commit_Inline)
  from partial_error [OF this] show ?thesis by (elim exE) (rule level_error [OF wf dl(2)])
next
  case (Commit_Live_Entity key payload)
  show ?thesis
  proof (cases "decode_live sha key payload")
    case (Inl e)
    then show ?thesis using failed by (simp add: Commit_Live_Entity)
  next
    case (Inr nbt)
    then have "partial (commit_block_entity_update key nbt s) = Some (False, t)" using failed by (simp add: Commit_Live_Entity)
    from partial_error [OF this] have "t = s" by (elim exE) (rule live_error)
    then show ?thesis by simp
  qed
next
  case (Commit_Column_Entities key lo hi payload)
  then have "plain (commit_chunk_block_entities key (decode_level_chunk_tail sha key lo hi payload) s) = Some (False, t)" using failed by simp
  from plain_error [OF this] have "t = s" by (elim exE) (rule column_entities_error)
  then show ?thesis by simp
qed (use failed in simp_all)

text \<open>With the last identity taken, the column cannot be marked again.\<close>

theorem failed_operation_untouched_witness:
  "run_op (\<lambda>b. b) (Mark_Chunk (Chunk_Key 0 1 2)) (empty_store 0 :: cache_context chunk_store) = Some (False, empty_store 0) \<and>
    untouched (empty_store 0 :: cache_context chunk_store) (empty_store 0)"
proof -
  let ?s = "empty_store 0 :: cache_context chunk_store"
  have run: "run_op (\<lambda>b. b) (Mark_Chunk (Chunk_Key 0 1 2)) ?s = Some (False, ?s)"
    by (simp add: empty_store_def mark_chunk_loaded_def allocate_revision_def take_revision_def plain_def)
  have wf: "store_wf (\<lambda>b. b) ?s" by (simp add: empty_store_wf u64_bound_def)
  from failed_operation_untouched [OF wf _ run] run show ?thesis by simp
qed

end
