(* ===== verification/Nbt_Round.thy ===== *)
theory Nbt_Round
  imports Nbt_Tree
begin

section \<open>Encoded trees parse back\<close>

declare parse_value.simps [simp] parse_members.simps [simp]

text \<open>
  The contract between the encoder and the parser of \<^verbatim>\<open>nbt_tree.rs\<close>: whatever the encoder accepts
  is read back as the same tree, and the reader stops right behind it.
\<close>

text \<open>The trees of the source: text is UTF-8, lengths fit an \<^verbatim>\<open>i32\<close>, a compound is an ordered map.\<close>

definition short_length :: "'a list \<Rightarrow> bool" where
  "short_length xs \<longleftrightarrow> length xs < 2 ^ 31"

definition wf_text :: "bytes \<Rightarrow> bool" where
  "wf_text text \<longleftrightarrow> valid_utf8 text \<and> short_length text"

fun wf_value :: "nbt_value \<Rightarrow> bool"
  and wf_values :: "nbt_value list \<Rightarrow> bool"
  and wf_members :: "(bytes \<times> nbt_value) list \<Rightarrow> bool"
where
  "wf_value v =
     (case v of
        Nbt_Byte_Array bs \<Rightarrow> short_length bs
      | Nbt_String text \<Rightarrow> wf_text text
      | Nbt_List items \<Rightarrow> short_length items \<and> wf_values items
      | Nbt_Compound members \<Rightarrow> bt_invar members \<and> wf_members members
      | Nbt_Int_Array items \<Rightarrow> short_length items
      | Nbt_Long_Array items \<Rightarrow> short_length items
      | _ \<Rightarrow> True)"
| "wf_values [] = True"
| "wf_values (v # vs) = (wf_value v \<and> wf_values vs)"
| "wf_members [] = True"
| "wf_members ((name, v) # ms) = (wf_text name \<and> wf_value v \<and> wf_members ms)"

subsection \<open>What a reader finds\<close>

text \<open>\<open>reads f x bs\<close>: in front of any bytes, the reader \<open>f\<close> takes exactly \<open>bs\<close> and returns \<open>x\<close>.\<close>

definition reads :: "(cursor \<Rightarrow> ('a \<times> cursor) option) \<Rightarrow> 'a \<Rightarrow> bytes \<Rightarrow> bool" where
  "reads f x bs \<longleftrightarrow> (\<forall>r ys. rest r = bs @ ys \<longrightarrow> f r = Some (x, advance r (length bs)))"

named_theorems reads_intros \<open>rules that compose what readers find\<close>

lemma readsD: "reads f x bs \<Longrightarrow> rest r = bs @ ys \<Longrightarrow> f r = Some (x, advance r (length bs))"
  by (simp add: reads_def)

lemma reads_bind:
  assumes "reads f x bs" "reads (g x) y cs"
  shows "reads (\<lambda>r. f r \<bind> (\<lambda>(x, r). g x r)) y (bs @ cs)"
  unfolding reads_def
proof (intro allI impI)
  fix r ys assume r: "rest r = (bs @ cs) @ ys"
  have "f r = Some (x, advance r (length bs))" using readsD [OF assms(1)] r by simp
  moreover have "g x (advance r (length bs)) = Some (y, advance (advance r (length bs)) (length cs))"
    using r by (intro readsD [OF assms(2), of _ ys]) simp
  ultimately show "f r \<bind> (\<lambda>(x, r). g x r) = Some (y, advance r (length (bs @ cs)))" by simp
qed

lemma reads_return [reads_intros]: "reads (\<lambda>r. Some (x, r)) x []"
  by (simp add: reads_def)

lemma reads_map:
  assumes "reads f x bs" shows "reads (\<lambda>r. f r \<bind> (\<lambda>(x, r). Some (h x, r))) (h x) bs"
  using reads_bind [OF assms reads_return] by simp

lemma reads_take: "reads (\<lambda>r. cur_take r (length bs)) bs bs"
  unfolding reads_def cur_take_def
proof (intro allI impI)
  fix r ys assume r: "rest r = bs @ ys"
  then have "length (rest r) = length bs + length ys" by simp
  then show "(if length bs \<le> length (rest r) then Some (take (length bs) (rest r), advance r (length bs)) else None) =
      Some (bs, advance r (length bs))" using r by simp
qed

lemma reads_byte: "reads cur_byte b [b]"
proof -
  have "reads (\<lambda>r. cur_take r 1 \<bind> (\<lambda>(bs, r). Some (hd bs, r))) (hd [b]) [b]"
    using reads_take [of "[b]"] by (intro reads_map) simp
  then show ?thesis by (simp add: cur_byte_def [abs_def])
qed

subsection \<open>Integers\<close>

lemma low_bits: "n < 256 \<Longrightarrow> (ucast ((word_of_nat n :: u8) AND 0x7F) :: 64 word) = word_of_nat (n mod 128)"
proof (rule word_unat_eq_iff [THEN iffD2])
  assume "n < 256"
  have "(word_of_nat n :: u8) AND 0x7F = take_bit 7 (word_of_nat n)"
    unfolding take_bit_eq_mask by (simp add: mask_eq_exp_minus_1)
  then have "unat ((word_of_nat n :: u8) AND 0x7F) = take_bit 7 (unat (word_of_nat n :: u8))"
    by (simp only: unsigned_take_bit_eq)
  also have "\<dots> = n mod 128"
    using \<open>n < 256\<close> by (simp add: unsigned_of_nat take_bit_nat_eq_self take_bit_eq_mod)
  finally have "unat ((word_of_nat n :: u8) AND 0x7F) = n mod 128" .
  then show "unat (ucast ((word_of_nat n :: u8) AND 0x7F) :: 64 word) = unat (word_of_nat (n mod 128) :: 64 word)"
    by (simp add: unsigned_ucast_eq unsigned_of_nat take_bit_nat_eq_self take_bit_word_eq_self)
qed

lemma high_bit: "n < 256 \<Longrightarrow> (word_of_nat n :: u8) AND 0x80 = 0 \<longleftrightarrow> n < 128"
proof -
  assume n: "n < 256"
  have "(word_of_nat n :: u8) AND 0x80 = 0 \<longleftrightarrow> \<not> bit (word_of_nat n :: u8) 7"
    using and_exp_eq_0_iff_not_bit [of "word_of_nat n :: u8" 7] by simp
  moreover have "bit (word_of_nat n :: u8) 7 \<longleftrightarrow> odd (n div 128)"
    unfolding bit_of_nat_iff unfolding bit_iff_odd by simp
  moreover have "odd (n div 128) \<longleftrightarrow> \<not> n < 128"
  proof -
    have "n div 128 = 0 \<or> n div 128 = 1" using n by auto
    then show ?thesis by (auto simp: div_eq_0_iff)
  qed
  ultimately show ?thesis by simp
qed

lemma word_split_7: "(word_of_nat (v mod 128) :: 64 word) OR push_bit 7 (word_of_nat (v div 128)) = word_of_nat v"
proof (rule bit_word_eqI)
  fix k :: nat assume "k < LENGTH(64)"
  then show "bit ((word_of_nat (v mod 128) :: 64 word) OR push_bit 7 (word_of_nat (v div 128))) k = bit (word_of_nat v :: 64 word) k"
    using bit_take_bit_iff [of 7 v k] bit_drop_bit_eq [of 7 v]
    by (auto simp: bit_or_iff bit_push_bit_iff bit_of_nat_iff take_bit_eq_mod drop_bit_eq_div comp_def)
qed

lemma reads_var_loop:
  "length (write_var v) \<le> m - i \<Longrightarrow>
    reads (var_u64_loop [i..<m] acc) (acc OR push_bit (i * 7) (word_of_nat v)) (write_var v)"
proof (induction v arbitrary: i acc rule: write_var.induct)
  case (1 v)
  have "0 < length (write_var v)" by simp
  then have i: "[i..<m] = i # [Suc i..<m]" using 1(2) by (metis diff_is_0_eq le_zero_eq linorder_not_less upt_conv_Cons)
  let ?b = "if v div 128 = 0 then word_of_nat (v mod 128) else word_of_nat (v mod 128 + 128) :: u8"
  have low: "(ucast (?b AND 0x7F) :: 64 word) = word_of_nat (v mod 128)"
    using low_bits [of "v mod 128"] low_bits [of "v mod 128 + 128"] by (auto simp: add.commute)
  have high: "?b AND 0x80 = 0 \<longleftrightarrow> v div 128 = 0"
    using high_bit [of "v mod 128"] high_bit [of "v mod 128 + 128"] by auto
  have loop: "var_u64_loop [i..<m] acc = (\<lambda>r. cur_byte r \<bind> (\<lambda>(byte, r).
      if byte AND 0x80 = 0 then Some (acc OR push_bit (i * 7) (ucast (byte AND 0x7F)), r)
      else var_u64_loop [Suc i..<m] (acc OR push_bit (i * 7) (ucast (byte AND 0x7F))) r))"
    unfolding i by (rule ext) (simp add: Let_def)
  show ?case
  proof (cases "v div 128 = 0")
    case True
    then have "write_var v = [?b]" "v mod 128 = v" by (subst write_var.simps, simp, simp add: div_eq_0_iff)
    have "reads (\<lambda>r. cur_byte r \<bind> (\<lambda>(byte, r).
      if byte AND 0x80 = 0 then Some (acc OR push_bit (i * 7) (ucast (byte AND 0x7F)), r)
      else var_u64_loop [Suc i..<m] (acc OR push_bit (i * 7) (ucast (byte AND 0x7F))) r))
      (acc OR push_bit (i * 7) (word_of_nat v)) ([?b] @ [])"
      using low high True \<open>v mod 128 = v\<close> by (intro reads_bind [OF reads_byte]) (simp add: reads_return)
    then show ?thesis unfolding loop using \<open>write_var v = [?b]\<close> by simp
  next
    case False
    then have w: "write_var v = ?b # write_var (v div 128)" by (subst write_var.simps) simp
    let ?acc = "acc OR push_bit (i * 7) (word_of_nat (v mod 128))"
    have "reads (var_u64_loop [Suc i..<m] ?acc) (?acc OR push_bit (Suc i * 7) (word_of_nat (v div 128)))
        (write_var (v div 128))"
      using False 1(2) unfolding w by (intro 1(1)) auto
    moreover have "?acc OR push_bit (Suc i * 7) (word_of_nat (v div 128)) = acc OR push_bit (i * 7) (word_of_nat v)"
      using arg_cong [OF word_split_7 [of v], of "push_bit (i * 7)"]
      by (simp add: push_bit_or or.assoc add.commute)
    ultimately have "reads (\<lambda>r. cur_byte r \<bind> (\<lambda>(byte, r).
      if byte AND 0x80 = 0 then Some (acc OR push_bit (i * 7) (ucast (byte AND 0x7F)), r)
      else var_u64_loop [Suc i..<m] (acc OR push_bit (i * 7) (ucast (byte AND 0x7F))) r))
      (acc OR push_bit (i * 7) (word_of_nat v)) ([?b] @ write_var (v div 128))"
      using low high False by (intro reads_bind [OF reads_byte]) simp
    then show ?thesis unfolding loop w by simp
  qed
qed

lemma reads_var: "length (write_var v) \<le> m \<Longrightarrow> reads (var_u64 m) (word_of_nat v) (write_var v)"
  using reads_var_loop [of v m 0 0] by (simp add: var_u64_def [abs_def])

lemma reads_zigzag_i32 [reads_intros]: "reads cur_zigzag_i32 v (write_int v)"
proof -
  have "unat (zigzag v) < 128 ^ 5" using unsigned_less [of "zigzag v", where 'a = nat] by simp
  then have "length (write_int v) \<le> 5" unfolding write_int_def by (rule length_write_var) simp
  then have "reads (\<lambda>r. var_u64 5 r \<bind> (\<lambda>(w, r). Some (unzigzag (ucast w :: 32 word), r)))
      (unzigzag (ucast (word_of_nat (unat (zigzag v)) :: 64 word))) (write_int v)"
    unfolding write_int_def by (intro reads_map [OF reads_var])
  moreover have "(ucast (word_of_nat (unat (zigzag v)) :: 64 word) :: 32 word) = zigzag v"
    using unsigned_less [of "zigzag v", where 'a = nat]
    by (intro word_unat_eq_iff [THEN iffD2])
      (simp add: unsigned_ucast_eq unsigned_of_nat take_bit_nat_eq_self take_bit_word_eq_self)
  ultimately show ?thesis by (simp add: cur_zigzag_i32_def [abs_def] zigzag_roundtrip)
qed

lemma reads_zigzag_i64 [reads_intros]: "reads cur_zigzag_i64 v (write_long v)"
proof -
  have "unat (zigzag v) < 128 ^ 10" using unsigned_less [of "zigzag v", where 'a = nat] by simp
  then have "length (write_long v) \<le> 10" unfolding write_long_def by (rule length_write_var) simp
  then have "reads (\<lambda>r. var_u64 10 r \<bind> (\<lambda>(w, r). Some (unzigzag w, r)))
      (unzigzag (word_of_nat (unat (zigzag v)) :: 64 word)) (write_long v)"
    unfolding write_long_def by (intro reads_map [OF reads_var])
  then show ?thesis by (simp add: cur_zigzag_i64_def [abs_def] zigzag_roundtrip)
qed


lemma reads_length:
  assumes "n < 2 ^ 31" shows "reads cur_length n (write_length n)"
proof -
  let ?w = "word_of_nat n :: 32 word"
  have "sint ?w = int n"
    using assms by (simp add: signed_of_nat signed_take_bit_int_eq_self)
  then have "reads (\<lambda>r. cur_zigzag_i32 r \<bind> (\<lambda>(v, r). if sint v < 0 then None else Some (nat (sint v), r))) n
      (write_int ?w @ [])"
    by (intro reads_bind [OF reads_zigzag_i32]) (simp add: reads_return)
  then show ?thesis by (simp add: cur_length_def [abs_def] write_length_def write_int_def)
qed

lemma reads_string [reads_intros]: "wf_text text \<Longrightarrow> reads cur_string text (write_string text)"
proof -
  assume utf: "wf_text text"
  then have "length text < 128 ^ 5" by (simp add: wf_text_def short_length_def)
  then have "length (write_var (length text)) \<le> 5" by (rule length_write_var) simp
  then have len: "reads (var_u64 5) (word_of_nat (length text)) (write_var (length text))" by (rule reads_var)
  have n: "unat (word_of_nat (length text) :: 64 word) = length text"
    using utf by (simp add: wf_text_def short_length_def unsigned_of_nat take_bit_nat_eq_self)
  have "reads (\<lambda>r. cur_take r (unat (word_of_nat (length text) :: 64 word)) \<bind>
      (\<lambda>(bs, r). if valid_utf8 bs then Some (bs, r) else None)) text (text @ [])"
    unfolding n using utf by (intro reads_bind [OF reads_take]) (simp add: wf_text_def reads_return)
  then show ?thesis
    using reads_bind [OF len, of "\<lambda>v r. cur_take r (unat v) \<bind> (\<lambda>(bs, r). if valid_utf8 bs then Some (bs, r) else None)"]
    by (simp add: cur_string_def [abs_def] write_string_def)
qed

lemma reads_repeat:
  assumes "\<And>x. x \<in> set xs \<Longrightarrow> reads f x (enc x)"
  shows "reads (cur_repeat (length xs) f) xs (concat (map enc xs))"
  using assms
proof (induction xs)
  case Nil
  have "cur_repeat 0 f = (\<lambda>r. Some ([], r))" by (rule ext) simp
  then show ?case by (simp add: reads_return)
next
  case (Cons x xs)
  have "cur_repeat (Suc (length xs)) f =
      (\<lambda>r. f r \<bind> (\<lambda>(x, r). cur_repeat (length xs) f r \<bind> (\<lambda>(xs, r). Some (x # xs, r))))"
    by (rule ext) simp
  then show ?case using Cons by (auto intro!: reads_bind reads_map)
qed

text \<open>A length guarded by the size of the input: the elements are all there, one byte each at least.\<close>

lemma reads_guarded:
  assumes "reads f x bs" "n \<le> length bs"
  shows "reads (\<lambda>r. if n > length (input r) then None else f r) x bs"
  unfolding reads_def
proof (intro allI impI)
  fix r ys assume r: "rest r = bs @ ys"
  then have "length (rest r) = length bs + length ys" by simp
  then have "\<not> n > length (input r)" using assms(2) by simp
  then show "(if n > length (input r) then None else f r) = Some (x, advance r (length bs))"
    using readsD [OF assms(1) r] by simp
qed

lemma length_concat_encoded:
  assumes "\<And>x. enc x \<noteq> []" shows "length xs \<le> length (concat (map enc xs))"
proof (induction xs)
  case (Cons x xs)
  then show ?case using assms [of x] by (cases "enc x") auto
qed simp

subsection \<open>Whole values\<close>

lemma reads_le:
  fixes v :: "'a::len word"
  assumes "LENGTH('a) = 8 * k"
  shows "reads (\<lambda>r. cur_take r k \<bind> (\<lambda>(bs, r). Some (h (word_of_nat (from_le_bytes bs) :: 'a word), r))) (h v)
      (to_le_bytes k (unat v))"
proof -
  have "unat v < 256 ^ k"
    using unsigned_less [of v, where 'a = nat] by (simp add: assms power_mult)
  then have "word_of_nat (from_le_bytes (to_le_bytes k (unat v))) = v" by (simp add: from_to_le_bytes)
  then show ?thesis
    using reads_map [OF reads_take [of "to_le_bytes k (unat v)"], of "\<lambda>bs. h (word_of_nat (from_le_bytes bs) :: 'a word)"]
    by simp
qed

lemma to_le_bytes_Nil: "to_le_bytes k n = [] \<longleftrightarrow> k = 0"
  by (cases k) auto

lemma write_payload_nonempty: "write_payload v \<noteq> []"
proof (cases v)
  case (Nbt_Compound ms)
  then show ?thesis by (cases ms) auto
qed (auto simp: write_int_def write_long_def write_length_def write_string_def to_le_bytes_Nil)

lemma length_write_items: "length vs \<le> length (write_items vs)"
proof (induction vs)
  case (Cons v vs)
  then show ?case using write_payload_nonempty [of v] by (cases "write_payload v") auto
qed simp

lemma bt_insert_extend: "bt_extend m ((k, v) # kvs) = bt_extend (bt_insert k v m) kvs"
  by (simp add: bt_extend_def)

lemma bt_extend_empty: "bt_invar m \<Longrightarrow> bt_extend bt_empty m = m"
  by (rule bt_ext) (auto simp: bt_get_extend split: option.split)

lemma reads_scalar:
  assumes "nbt_tag v \<noteq> 9" "nbt_tag v \<noteq> 10" "wf_value v"
  shows "reads (parse_scalar (nbt_tag v)) v (write_payload v)"
proof (cases v)
  case (Nbt_Byte b)
  show ?thesis using reads_map [OF reads_byte, of Nbt_Byte b]
    by (simp add: Nbt_Byte nbt_tag_def parse_scalar_def [abs_def])
next
  case (Nbt_Short w)
  show ?thesis using reads_le [of 2 Nbt_Short w] by (simp add: Nbt_Short nbt_tag_def parse_scalar_def [abs_def])
next
  case (Nbt_Int w)
  show ?thesis using reads_map [OF reads_zigzag_i32, of Nbt_Int w]
    by (simp add: Nbt_Int nbt_tag_def parse_scalar_def [abs_def])
next
  case (Nbt_Long w)
  show ?thesis using reads_map [OF reads_zigzag_i64, of Nbt_Long w]
    by (simp add: Nbt_Long nbt_tag_def parse_scalar_def [abs_def])
next
  case (Nbt_Float w)
  show ?thesis using reads_le [of 4 Nbt_Float w] by (simp add: Nbt_Float nbt_tag_def parse_scalar_def [abs_def])
next
  case (Nbt_Double w)
  show ?thesis using reads_le [of 8 Nbt_Double w] by (simp add: Nbt_Double nbt_tag_def parse_scalar_def [abs_def])
next
  case (Nbt_Byte_Array bs)
  have "reads (\<lambda>r. cur_length r \<bind> (\<lambda>(n, r). cur_take r n \<bind> (\<lambda>(bs, r). Some (Nbt_Byte_Array bs, r))))
      (Nbt_Byte_Array bs) (write_length (length bs) @ bs)"
    using assms(3) by (intro reads_bind [OF reads_length] reads_map [OF reads_take])
      (simp add: Nbt_Byte_Array short_length_def)
  then show ?thesis by (simp add: Nbt_Byte_Array nbt_tag_def parse_scalar_def [abs_def])
next
  case (Nbt_String utf)
  show ?thesis using reads_map [OF reads_string, of utf Nbt_String] assms(3)
    by (simp add: Nbt_String nbt_tag_def parse_scalar_def [abs_def])
next
  case (Nbt_Int_Array items)
  have "reads (\<lambda>r. cur_length r \<bind> (\<lambda>(n, r). if n > length (input r) then None
      else cur_repeat n cur_zigzag_i32 r \<bind> (\<lambda>(items, r). Some (Nbt_Int_Array items, r))))
      (Nbt_Int_Array items) (write_length (length items) @ concat (map write_int items))"
    using assms(3) by (intro reads_bind [OF reads_length] reads_guarded reads_map [OF reads_repeat] reads_zigzag_i32)
      (auto simp: Nbt_Int_Array short_length_def write_int_def intro!: length_concat_encoded)
  then show ?thesis by (simp add: Nbt_Int_Array nbt_tag_def parse_scalar_def [abs_def])
next
  case (Nbt_Long_Array items)
  have "reads (\<lambda>r. cur_length r \<bind> (\<lambda>(n, r). if n > length (input r) then None
      else cur_repeat n cur_zigzag_i64 r \<bind> (\<lambda>(items, r). Some (Nbt_Long_Array items, r))))
      (Nbt_Long_Array items) (write_length (length items) @ concat (map write_long items))"
    using assms(3) by (intro reads_bind [OF reads_length] reads_guarded reads_map [OF reads_repeat] reads_zigzag_i64)
      (auto simp: Nbt_Long_Array short_length_def write_long_def intro!: length_concat_encoded)
  then show ?thesis by (simp add: Nbt_Long_Array nbt_tag_def parse_scalar_def [abs_def])
qed (use assms in \<open>simp_all add: nbt_tag_def\<close>)

lemma parse_value_scalar: "tag \<noteq> 9 \<Longrightarrow> tag \<noteq> 10 \<Longrightarrow> parse_value tag depth = parse_scalar tag"
  by (rule ext) simp

lemma tag_9_10: "nbt_tag v = 9 \<longleftrightarrow> (\<exists>items. v = Nbt_List items)" "nbt_tag v = 10 \<longleftrightarrow> (\<exists>ms. v = Nbt_Compound ms)"
  by (cases v; simp add: nbt_tag_def)+

lemma parse_items_Suc:
  "parse_items (Suc n) tag depth = (\<lambda>r. parse_value tag depth r \<bind> (\<lambda>(v, r).
     parse_items n tag depth r \<bind> (\<lambda>(vs, r). Some (v # vs, r))))"
  by (rule ext) simp

lemma parse_members_unfold:
  "parse_members depth entries = (\<lambda>r. cur_byte r \<bind> (\<lambda>(tag, r).
     if tag = 0 then Some (entries, r)
     else cur_string r \<bind> (\<lambda>(name, r). parse_value tag depth r \<bind> (\<lambda>(v, r).
       parse_members depth (bt_insert name v entries) r))))"
  by (rule ext) simp

lemma nbt_tag_nonzero: "nbt_tag v \<noteq> 0"
  by (cases v) (simp_all add: nbt_tag_def)

lemma reads_list:
  assumes items: "reads (parse_items (length items) tag (d + 1)) items (write_items items)"
    and ok: "d + 1 \<le> MAX_NBT_DEPTH" "length items < 2 ^ 31"
  shows "reads (parse_value 9 d) (Nbt_List items) (tag # write_length (length items) @ write_items items)"
proof -
  have "reads (\<lambda>r. if d + 1 > MAX_NBT_DEPTH \<or> length items > length (input r) then None
      else parse_items (length items) tag (d + 1) r \<bind> (\<lambda>(items, r). Some (Nbt_List items, r)))
      (Nbt_List items) (write_items items)"
    using reads_guarded [OF reads_map [OF items, of Nbt_List] length_write_items] ok(1) by simp
  then have "reads (\<lambda>r. cur_byte r \<bind> (\<lambda>(element, r). cur_length r \<bind> (\<lambda>(n, r).
        if d + 1 > MAX_NBT_DEPTH \<or> n > length (input r) then None
        else parse_items n element (d + 1) r \<bind> (\<lambda>(items, r). Some (Nbt_List items, r)))))
      (Nbt_List items) ([tag] @ write_length (length items) @ write_items items)"
    using ok(2) by (intro reads_bind [OF reads_byte] reads_bind [OF reads_length])
  moreover have "parse_value 9 d = (\<lambda>r. cur_byte r \<bind> (\<lambda>(element, r). cur_length r \<bind> (\<lambda>(n, r).
        if d + 1 > MAX_NBT_DEPTH \<or> n > length (input r) then None
        else parse_items n element (d + 1) r \<bind> (\<lambda>(items, r). Some (Nbt_List items, r)))))"
    by (rule ext) simp
  ultimately show ?thesis by simp
qed

lemma reads_compound:
  assumes "reads (parse_members (d + 1) bt_empty) ms bs" "d + 1 \<le> MAX_NBT_DEPTH"
  shows "reads (parse_value 10 d) (Nbt_Compound ms) bs"
proof -
  have "parse_value 10 d = (\<lambda>r. parse_members (d + 1) bt_empty r \<bind> (\<lambda>(members, r). Some (Nbt_Compound members, r)))"
    using assms(2) by (intro ext) simp
  then show ?thesis using reads_map [OF assms(1), of Nbt_Compound] by simp
qed

declare parse_value.simps [simp del] parse_members.simps [simp del]

lemma reads_member:
  assumes "wf_text name" "reads (parse_value (nbt_tag v) d) v (write_payload v)"
    "reads (parse_members d (bt_insert name v entries)) x bs"
  shows "reads (parse_members d entries) x (nbt_tag v # write_string name @ write_payload v @ bs)"
proof -
  have "reads (\<lambda>r. cur_string r \<bind> (\<lambda>(name, r). parse_value (nbt_tag v) d r \<bind> (\<lambda>(v, r).
       parse_members d (bt_insert name v entries) r))) x (write_string name @ write_payload v @ bs)"
    using assms by (intro reads_bind [OF reads_string] reads_bind)
  then have "reads (\<lambda>r. cur_byte r \<bind> (\<lambda>(tag, r). if tag = 0 then Some (entries, r)
     else cur_string r \<bind> (\<lambda>(name, r). parse_value tag d r \<bind> (\<lambda>(v, r).
       parse_members d (bt_insert name v entries) r)))) x ([nbt_tag v] @ write_string name @ write_payload v @ bs)"
    using nbt_tag_nonzero [of v] by (intro reads_bind [OF reads_byte]) simp
  then show ?thesis unfolding parse_members_unfold [of d entries] by simp
qed

lemma validate_list_Inr:
  "validate_value depth (Nbt_List items) = Inr () \<longleftrightarrow>
     depth < MAX_NBT_DEPTH \<and> (\<forall>item\<in>set items. nbt_tag item = nbt_tag (hd items)) \<and>
     validate_values (depth + 1) items = Inr ()"
proof -
  have "nbt_tag (Nbt_List items) = 9" by (simp add: nbt_tag_def)
  moreover have "(items \<noteq> [] \<and> (\<exists>item\<in>set items. nbt_tag item \<noteq> nbt_tag (hd items))) \<longleftrightarrow>
      \<not> (\<forall>item\<in>set items. nbt_tag item = nbt_tag (hd items))" by (cases items) simp_all
  ultimately show ?thesis
    unfolding validate_value.simps [of depth "Nbt_List items"] nbt_value.case
    by (cases "\<forall>item\<in>set items. nbt_tag item = nbt_tag (hd items)"; cases "depth < MAX_NBT_DEPTH") simp_all
qed

lemma validate_compound_Inr:
  "validate_value depth (Nbt_Compound ms) = Inr () \<longleftrightarrow>
     depth < MAX_NBT_DEPTH \<and> validate_members (depth + 1) ms = Inr ()"
proof -
  have "nbt_tag (Nbt_Compound ms) = 10" by (simp add: nbt_tag_def)
  then show ?thesis
    unfolding validate_value.simps [of depth "Nbt_Compound ms"] nbt_value.case
    by (cases "depth < MAX_NBT_DEPTH") auto
qed

declare validate_values.simps [simp del] validate_members.simps [simp del]

declare validate_value.simps [simp del] wf_value.simps [simp del]

lemma wf_containers:
  "wf_value (Nbt_List items) \<longleftrightarrow> short_length items \<and> wf_values items"
  "wf_value (Nbt_Compound ms) \<longleftrightarrow> bt_invar ms \<and> wf_members ms"
  by (simp_all add: wf_value.simps)

lemma reads_value:
  "validate_value depth v = Inr () \<Longrightarrow> depth = Suc d \<Longrightarrow> wf_value v \<Longrightarrow>
     reads (parse_value (nbt_tag v) d) v (write_payload v)"
  "validate_values depth vs = Inr () \<Longrightarrow> depth = Suc d \<Longrightarrow> wf_values vs \<Longrightarrow> (\<forall>v\<in>set vs. nbt_tag v = tag) \<Longrightarrow>
     reads (parse_items (length vs) tag d) vs (write_items vs)"
  "validate_members depth ms = Inr () \<Longrightarrow> depth = Suc d \<Longrightarrow> wf_members ms \<Longrightarrow>
     reads (parse_members d entries) (bt_extend entries ms) (write_members ms)"
proof (induction depth v and depth vs and depth ms arbitrary: d and d tag and d entries
    rule: validate_value_validate_values_validate_members.induct)
  case (1 depth v)
  consider items where "v = Nbt_List items" | ms where "v = Nbt_Compound ms" | "nbt_tag v \<noteq> 9" "nbt_tag v \<noteq> 10"
    using tag_9_10 by blast
  then show ?case
  proof cases
    case (1 items)
    let ?tag = "case items of [] \<Rightarrow> 0 | item # _ \<Rightarrow> nbt_tag item"
    have ok: "depth < MAX_NBT_DEPTH" "d + 1 \<le> MAX_NBT_DEPTH" "\<forall>item\<in>set items. nbt_tag item = nbt_tag (hd items)"
      "validate_values (Suc (d + 1)) items = Inr ()" "short_length items" "wf_values items"
      using "1.prems" unfolding 1 validate_list_Inr wf_containers by auto
    have same: "\<forall>item\<in>set items. nbt_tag item = ?tag" using ok(3) by (cases items) auto
    have "reads (parse_items (length items) ?tag (d + 1)) items (write_items items)"
    proof (rule "1.IH"(1) [OF _ 1])
      show "\<not> (MAX_NBT_DEPTH < depth \<or> MAX_NBT_DEPTH \<le> depth \<and> (nbt_tag v = 9 \<or> nbt_tag v = 10))"
        using ok(1) by linarith
      show "\<not> (items \<noteq> [] \<and> (\<exists>item\<in>set items. nbt_tag item \<noteq> nbt_tag (hd items)))" using ok(3) by blast
      show "validate_values (depth + 1) items = Inr ()" "depth + 1 = Suc (d + 1)"
        using "1.prems"(2) ok(4) by simp_all
    qed (fact ok(6), fact same)
    then show ?thesis using reads_list [OF _ ok(2)] ok(5) by (simp add: 1 short_length_def nbt_tag_def)
  next
    case (2 ms)
    have ok: "depth < MAX_NBT_DEPTH" "d + 1 \<le> MAX_NBT_DEPTH" "validate_members (Suc (d + 1)) ms = Inr ()" "bt_invar ms" "wf_members ms"
      using "1.prems" unfolding 2 validate_compound_Inr wf_containers by auto
    have "reads (parse_members (d + 1) bt_empty) (bt_extend bt_empty ms) (write_members ms)"
    proof (rule "1.IH"(2) [OF _ 2])
      show "\<not> (MAX_NBT_DEPTH < depth \<or> MAX_NBT_DEPTH \<le> depth \<and> (nbt_tag v = 9 \<or> nbt_tag v = 10))"
        using ok(1) by linarith
      show "validate_members (depth + 1) ms = Inr ()" "depth + 1 = Suc (d + 1)"
        using "1.prems"(2) ok(3) by simp_all
    qed (fact ok(5))
    then show ?thesis using reads_compound [OF _ ok(2)] ok(4) by (simp add: 2 bt_extend_empty nbt_tag_def)
  next
    case 3
    then show ?thesis using reads_scalar "1.prems"(3) parse_value_scalar by simp
  qed
next
  case (2 depth)
  have "parse_items 0 tag d = (\<lambda>r. Some ([], r))" by (rule ext) simp
  then show ?case by (simp add: reads_return)
next
  case (3 depth v vs)
  have ok: "validate_value depth v = Inr ()" "validate_values depth vs = Inr ()"
    using 3(3) by (auto simp: validate_values.simps and_then_Inr_iff)
  have "reads (parse_value tag d) v (write_payload v)" using 3(1) [OF ok(1)] 3(4-6) by simp
  moreover have "reads (parse_items (length vs) tag d) vs (write_items vs)"
    using 3(2) [OF ok(1) ok(2)] 3(4-6) by simp
  ultimately show ?case by (simp add: parse_items_Suc reads_bind reads_map)
next
  case (4 depth)
  have "reads (\<lambda>r. cur_byte r \<bind> (\<lambda>(tag, r). if tag = 0 then Some (entries, r)
     else cur_string r \<bind> (\<lambda>(name, r). parse_value tag d r \<bind> (\<lambda>(v, r).
       parse_members d (bt_insert name v entries) r)))) entries ([0] @ [])"
    by (intro reads_bind [OF reads_byte]) (simp add: reads_return)
  then show ?case unfolding parse_members_unfold [of d entries] by (simp add: bt_extend_def)
next
  case (5 depth name v ms)
  have "reads (parse_value (nbt_tag v) d) v (write_payload v)"
    "reads (parse_members d (bt_insert name v entries)) (bt_extend (bt_insert name v entries) ms) (write_members ms)"
    using 5 by (auto simp: validate_members.simps and_then_Inr_iff)
  then show ?case using reads_member 5(5) by (simp add: bt_insert_extend)
qed


subsection \<open>Whole documents\<close>

lemma nbt_parse_encoded:
  assumes "encode_root c = Inr bs" "bt_invar c" "wf_members c"
  shows "nbt_parse (bs @ ys) = Some c"
proof -
  have bs: "bs = [10] @ write_string [] @ write_members c @ []" and ok: "validate_members 1 c = Inr ()"
    using assms(1) by (auto simp: encode_root_def and_then_Inr_iff)
  have "reads (parse_members 0 bt_empty) c (write_members c)"
    using reads_value(3) [OF ok, of 0 bt_empty] assms(2,3) by (simp add: bt_extend_empty)
  moreover have "wf_text []" by (simp add: wf_text_def short_length_def)
  ultimately have "reads (\<lambda>r. cur_byte r \<bind> (\<lambda>(tag, r). if tag \<noteq> 10 then None
      else cur_string r \<bind> (\<lambda>(name, r). parse_members 0 bt_empty r \<bind> (\<lambda>(root, r). Some (root, r))))) c bs"
    unfolding bs by (intro reads_bind [OF reads_byte]) (auto intro!: reads_bind reads_string reads_return)
  moreover have "rest \<lparr>input = bs @ ys, position = 0\<rparr> = bs @ ys" by (simp add: rest_def)
  ultimately have r: "cur_byte \<lparr>input = bs @ ys, position = 0\<rparr> \<bind> (\<lambda>(tag, r). if tag \<noteq> 10 then None
      else cur_string r \<bind> (\<lambda>(name, r). parse_members 0 bt_empty r \<bind> (\<lambda>(root, r). Some (root, r)))) =
    Some (c, advance \<lparr>input = bs @ ys, position = 0\<rparr> (length bs))" by (rule readsD)
  then show ?thesis by (auto simp: nbt_parse_def bind_Some_iff split: if_splits) 
qed

text \<open>
  C25. Saving and reading an NBT tree loses nothing: whenever \<^verbatim>\<open>encode_root\<close> accepts a compound (no mixed
  list, no nesting past the depth bound), \<^verbatim>\<open>BlockEntityNbt::parse\<close> of the bytes it writes, with anything
  behind them, returns exactly that compound.  The hypotheses are the invariants of the Rust types:
  text is UTF-8 of fewer than \<open>2\<^sup>3\<^sup>1\<close> bytes, arrays and lists are shorter than that, maps are ordered.
\<close>

theorem nbt_encode_parse_roundtrip:
  assumes "bt_invar c" "wf_members c" "encode_root c = Inr bs"
  shows "nbt_parse (bs @ ys) = Some c"
  using nbt_parse_encoded assms by blast

definition sample_tree :: nbt_compound where
  "sample_tree = [(str ''big'', Nbt_Long (- 5000000000)), (str ''flag'', Nbt_Byte 1),
     (str ''front'', Nbt_Compound [(str ''Text'', Nbt_String (str ''hi''))]),
     (str ''list'', Nbt_List [Nbt_Int 3, Nbt_Int (- 4)]), (str ''ratio'', Nbt_Float 0x3F000000)]"


theorem nbt_encode_parse_roundtrip_witness:
  "\<exists>bs. encode_root sample_tree = Inr bs \<and> nbt_parse (bs @ [7, 7]) = Some sample_tree"
proof -
  have c: "bt_invar sample_tree" by (simp add: bt_invar_def bt_keys_def str_def sample_tree_def)
  have wf: "wf_members sample_tree"
    by (simp add: sample_tree_def wf_value.simps wf_text_def str_def byte_in_def short_length_def bt_invar_def bt_keys_def)
  have "validate_members 1 sample_tree = Inr ()"
    by (simp add: sample_tree_def validate_value.simps validate_values.simps validate_members.simps nbt_tag_def
        MAX_NBT_DEPTH_def)
  then obtain bs where bs: "encode_root sample_tree = Inr bs" by (auto simp: encode_root_def)
  show ?thesis using nbt_encode_parse_roundtrip [OF c wf bs] bs by blast
qed

end
