(* ===== verification/Nbt_Agree.thy ===== *)
theory Nbt_Agree
  imports Nbt_Tree
begin

section \<open>The scanner and the parser agree\<close>

text \<open>
  The strict scanner and the lenient parser of \<^verbatim>\<open>nbt_tree.rs\<close> are separate code over the same bytes.  Where
  the scanner succeeds the parser does, and both stop at the same byte: a block entity that was admitted
  always has a tree.
\<close>

lemma cursor_u8:
  "read_u8 r ctx = Inr (b, r') \<Longrightarrow> cur_byte r = Some (b, r') \<and> r' = advance r 1 \<and> position r < length (input r)"
  by (auto simp: read_u8_def read_exact_def require_remaining_def result_simps cur_byte_def cur_take_def Let_def
      split: if_splits)

lemma cursor_exact:
  "read_exact r n ctx = Inr (bs, r') \<Longrightarrow> cur_take r n = Some (bs, r') \<and> r' = advance r n \<and> position r' \<le> max (position r) (length (input r))"
  by (auto simp: read_exact_def require_remaining_def result_simps cur_take_def Let_def split: if_splits)

text \<open>\<open>ahead r r'\<close>: the cursor has moved on inside the same input.\<close>

definition ahead :: "nat \<Rightarrow> cursor \<Rightarrow> cursor \<Rightarrow> bool" where
  "ahead n r r' \<longleftrightarrow> input r' = input r \<and> position r + n \<le> position r' \<and> position r' \<le> length (input r)"

definition in_input :: "cursor \<Rightarrow> bool" where
  "in_input r \<longleftrightarrow> position r \<le> length (input r)"

lemma ahead_trans: "ahead n r s \<Longrightarrow> ahead m s t \<Longrightarrow> ahead (n + m) r t"
  by (auto simp: ahead_def)

lemma ahead_weaken: "ahead n r s \<Longrightarrow> m \<le> n \<Longrightarrow> ahead m r s"
  by (auto simp: ahead_def)

lemma ahead_in_input: "ahead n r s \<Longrightarrow> in_input s"
  by (auto simp: ahead_def in_input_def)

text \<open>\<open>agrees f g r\<close>: where the strict read \<open>f\<close> succeeds, the lenient \<open>g\<close> returns a value and the same cursor.\<close>

definition agrees :: "nat \<Rightarrow> (cursor \<Rightarrow> 'e + ('a \<times> cursor)) \<Rightarrow> (cursor \<Rightarrow> ('b \<times> cursor) option) \<Rightarrow> cursor \<Rightarrow> bool" where
  "agrees n f g r \<longleftrightarrow> (in_input r \<longrightarrow> (\<forall>x r'. f r = Inr (x, r') \<longrightarrow> ahead n r r' \<and> (\<exists>y. g r = Some (y, r'))))"

lemma agreesD:
  assumes "agrees n f g r" "in_input r" "f r = Inr (x, r')"
  obtains y where "g r = Some (y, r')" "ahead n r r'"
  using assms by (auto simp: agrees_def)


subsection \<open>Integers and strings\<close>

lemma push_ucast:
  assumes "\<And>m. bit x m \<Longrightarrow> m + k < 32"
  shows "(ucast (push_bit k (ucast (x :: u8) :: u32)) :: 64 word) = push_bit k (ucast x)"
proof (rule bit_word_eqI)
  fix n assume n: "n < LENGTH(64)"
  have "bit x (n - k) \<Longrightarrow> n - k < 8" using bit_imp_le_length [of x "n - k"] by simp
  then show "bit (ucast (push_bit k (ucast x :: u32)) :: 64 word) n = bit (push_bit k (ucast x) :: 64 word) n"
    using n assms [of "n - k"] by (auto simp: bit_ucast_iff bit_push_bit_iff)
qed

lemma ucast_or: "(ucast (a OR b :: u32) :: 64 word) = ucast a OR ucast b"
  by (rule bit_word_eqI) (auto simp: bit_ucast_iff bit_or_iff)

lemma low7_bit: "bit ((b :: u8) AND 0x7F) m \<Longrightarrow> m < 7"
proof -
  assume "bit (b AND 0x7F) m"
  moreover have "(0x7F :: u8) = mask 7" by (simp add: mask_eq_exp_minus_1)
  ultimately show ?thesis by (simp add: bit_and_iff bit_mask_iff)
qed

lemma low4_bit:
  assumes "(b :: u8) AND 0x70 = 0" "bit (b AND 0x7F) m" shows "m < 4"
proof (rule ccontr)
  assume "\<not> m < 4"
  then have "m = 4 \<or> m = 5 \<or> m = 6" using low7_bit [OF assms(2)] by linarith
  moreover have "bit (0x70 :: u8) 4" "bit (0x70 :: u8) 5" "bit (0x70 :: u8) 6" by code_simp+
  moreover have "bit b m" using assms(2) by (simp add: bit_and_iff)
  ultimately have "bit (b AND 0x70) m" by (auto simp: bit_and_iff)
  then show False using assms(1) by simp
qed

lemma var_loop_agrees:
  assumes "\<forall>i\<in>set is. i \<le> 4" "in_input r" "var_u32_loop is acc r ctx = Inr (v, r')"
  shows "var_u64_loop is (ucast acc) r = Some (ucast v, r') \<and> ahead 1 r r'"
  using assms
proof (induction "is" arbitrary: acc r)
  case (Cons i "is" acc r)
  obtain byte r1 where b: "read_u8 r ctx = Inr (byte, r1)"
    using Cons.prems(3) by (auto simp: result_simps)
  have c: "cur_byte r = Some (byte, r1)" "ahead 1 r r1"
    using cursor_u8 [OF b] by (auto simp: ahead_def)
  let ?acc = "acc OR push_bit (i * 7) (ucast (byte AND 0x7F))"
  have ok: "\<not> (i = 4 \<and> byte AND 0x80 \<noteq> 0)" "\<not> (i = 4 \<and> byte AND 0x70 \<noteq> 0)"
    and rest: "(if byte AND 0x80 = 0 then Inr (?acc, r1) else var_u32_loop is ?acc r1 ctx) = Inr (v, r')"
    using Cons.prems(3) b by (auto simp: Let_def split: if_splits)
  have acc: "ucast acc OR push_bit (i * 7) (ucast (byte AND 0x7F)) = (ucast ?acc :: 64 word)"
  proof -
    have "m + i * 7 < 32" if "bit (byte AND 0x7F) m" for m
    proof (cases "i = 4")
      case True
      then have "byte AND 0x70 = 0" using ok(2) by blast
      then show ?thesis using low4_bit [OF _ that] True by simp
    next
      case False
      then have "i \<le> 3" using Cons.prems(1) by simp
      then show ?thesis using low7_bit [OF that] by linarith
    qed
    then show ?thesis by (simp add: ucast_or push_ucast)
  qed
  show ?case
  proof (cases "byte AND 0x80 = 0")
    case True
    then show ?thesis using c rest acc by (simp add: Let_def)
  next
    case False
    have "var_u64_loop is (ucast ?acc) r1 = Some (ucast v, r') \<and> ahead 1 r1 r'"
      using Cons.IH [of r1 ?acc] Cons.prems(1) ahead_in_input [OF c(2)] rest False by simp
    then show ?thesis using c acc False ahead_weaken [OF ahead_trans [OF c(2)], of 1 r' 1] by (simp add: Let_def)
  qed
qed simp

lemma var_agrees:
  assumes "in_input r" "read_var_u32 r ctx = Inr (v, r')"
  shows "var_u64 5 r = Some (ucast v, r') \<and> ahead 1 r r'"
  using var_loop_agrees [of "[0..<5]" r 0 ctx v r'] assms by (simp add: read_var_u32_def var_u64_def)

lemma zigzag_agrees:
  assumes "in_input r" "read_zigzag_i32 r ctx = Inr (v, r')"
  shows "\<exists>w. cur_zigzag_i32 r = Some (w, r') \<and> sint w = v" "ahead 1 r r'"
proof -
  obtain u where u: "read_var_u32 r ctx = Inr (u, r')" "v = zigzag_decode u"
    using assms(2) by (auto simp: read_zigzag_i32_def result_simps)
  have "(ucast (ucast u :: 64 word) :: 32 word) = u"
    by (rule bit_word_eqI) (simp add: bit_ucast_iff)
  then have "cur_zigzag_i32 r = Some (unzigzag u, r')"
    using var_agrees [OF assms(1) u(1)] by (simp add: cur_zigzag_i32_def)
  then show "\<exists>w. cur_zigzag_i32 r = Some (w, r') \<and> sint w = v" using u(2) by (simp add: zigzag_decode_def)
  show "ahead 1 r r'" using var_agrees [OF assms(1) u(1)] by simp
qed

lemma length_agrees:
  assumes "in_input r" "read_collection_length r ctx = Inr (n, r')"
  shows "cur_length r = Some (n, r')" "ahead 1 r r'"
proof -
  obtain v where v: "read_zigzag_i32 r ctx = Inr (v, r')" "\<not> v < 0" "n = nat v"
    using assms(2) by (auto simp: read_collection_length_def result_simps split: if_splits)
  show "cur_length r = Some (n, r')" "ahead 1 r r'"
    using zigzag_agrees [OF assms(1) v(1)] v(2,3) by (auto simp: cur_length_def)
qed

lemma string_agrees:
  assumes "in_input r" "read_string r ctx = Inr (bs, r')"
  shows "cur_string r = Some (bs, r')" "ahead 1 r r'"
proof -
  obtain v r1 where v: "read_var_u32 r ctx = Inr (v, r1)" "read_exact r1 (unat v) ctx = Inr (bs, r')" "valid_utf8 bs"
    using assms(2) by (auto simp: read_string_def result_simps Let_def split: if_splits)
  have n: "unat (ucast v :: 64 word) = unat v"
    using unsigned_less [of v, where 'a = nat] by (simp add: unsigned_ucast_eq take_bit_nat_eq_self)
  have a: "var_u64 5 r = Some (ucast v, r1)" "ahead 1 r r1" using var_agrees [OF assms(1) v(1)] by auto
  have e: "cur_take r1 (unat v) = Some (bs, r')" "r' = advance r1 (unat v)"
      "position r' \<le> max (position r1) (length (input r1))"
    using cursor_exact [OF v(2)] by auto
  show "cur_string r = Some (bs, r')" using a(1) e(1) v(3) n by (simp add: cur_string_def)
  have "ahead 0 r1 r'" using e(2,3) a(2) by (auto simp: ahead_def)
  then show "ahead 1 r r'" using ahead_trans [OF a(2)] by fastforce
qed

lemma exact_ahead:
  assumes "in_input r" "read_exact r n ctx = Inr (bs, r')" shows "cur_take r n = Some (bs, r')" "ahead n r r'"
  using cursor_exact [OF assms(2)] assms(1) by (auto simp: ahead_def in_input_def)

lemma skip_ahead:
  assumes "in_input r" "skip r n ctx = Inr (x, r')"
  shows "\<exists>bs. cur_take r n = Some (bs, r')" "ahead n r r'"
  using assms exact_ahead by (auto simp: skip_def result_simps)

lemma i64_loop_agrees:
  "in_input r \<Longrightarrow> skip_i64_loop is r ctx = Inr (x, r') \<Longrightarrow>
    (\<exists>v. var_u64_loop is acc r = Some (v, r')) \<and> ahead 1 r r'"
proof (induction "is" arbitrary: r acc)
  case (Cons i "is" r acc)
  obtain byte r1 where b: "read_u8 r ctx = Inr (byte, r1)"
    using Cons.prems(2) by (auto simp: result_simps)
  have c: "cur_byte r = Some (byte, r1)" "ahead 1 r r1"
    using cursor_u8 [OF b] by (auto simp: ahead_def)
  show ?case
  proof (cases "byte AND 0x80 = 0")
    case True
    then show ?thesis using c Cons.prems(2) b by (auto simp: Let_def split: if_splits)
  next
    case False
    then have "skip_i64_loop is r1 ctx = Inr (x, r')" using Cons.prems(2) b by (simp split: if_splits)
    then show ?thesis using Cons.IH [OF ahead_in_input [OF c(2)]] c False ahead_weaken [OF ahead_trans [OF c(2)], of 1 r' 1]
      by (simp add: Let_def)
  qed
qed simp

lemma i64_agrees:
  "in_input r \<Longrightarrow> skip_zigzag_i64 r ctx = Inr (x, r') \<Longrightarrow> (\<exists>v. cur_zigzag_i64 r = Some (v, r')) \<and> ahead 1 r r'"
  using i64_loop_agrees [of r "[0..<10]" ctx x r' 0]
  by (auto simp: skip_zigzag_i64_def cur_zigzag_i64_def var_u64_def)

lemma skip_zigzag_agrees:
  "in_input r \<Longrightarrow> skip_zigzag_i32 r ctx = Inr (x, r') \<Longrightarrow> (\<exists>v. cur_zigzag_i32 r = Some (v, r')) \<and> ahead 1 r r'"
proof -
  assume r: "in_input r" "skip_zigzag_i32 r ctx = Inr (x, r')"
  then obtain v where "read_zigzag_i32 r ctx = Inr (v, r')" by (auto simp: skip_zigzag_i32_def result_simps)
  then show ?thesis using zigzag_agrees [OF r(1)] by blast
qed

lemma repeat_agrees:
  assumes "\<And>r r'. in_input r \<Longrightarrow> f r = Inr ((), r') \<Longrightarrow> (\<exists>v. g r = Some (v, r')) \<and> ahead 1 r r'"
  shows "in_input r \<Longrightarrow> repeat_skip n f r = Inr (x, r') \<Longrightarrow> (\<exists>vs. cur_repeat n g r = Some (vs, r')) \<and> ahead n r r'"
proof (induction n arbitrary: r)
  case 0
  then show ?case by (auto simp: ahead_def in_input_def)
next
  case (Suc n)
  obtain r1 where r1: "f r = Inr ((), r1)" "repeat_skip n f r1 = Inr (x, r')"
    using Suc.prems(2) by (auto simp: result_simps)
  obtain v where v: "g r = Some (v, r1)" "ahead 1 r r1" using assms [OF Suc.prems(1) r1(1)] by auto
  obtain vs where vs: "cur_repeat n g r1 = Some (vs, r')" "ahead n r1 r'"
    using Suc.IH [OF ahead_in_input [OF v(2)] r1(2)] by auto
  show ?case using v(1) vs(1) ahead_trans [OF v(2) vs(2)] by simp
qed

subsection \<open>Whole values\<close>

lemma scalar_agrees:
  assumes "in_input r" "scan_scalar tag r = Some (Inr ((), r'))"
  shows "tag \<noteq> 9 \<and> tag \<noteq> 10 \<and> (\<exists>v. parse_scalar tag r = Some (v, r')) \<and> ahead 1 r r'"
proof -
  consider "tag = 1" | "tag = 2" | "tag = 3" | "tag = 4" | "tag = 5" | "tag = 6" | "tag = 7" | "tag = 8"
    | "tag = 11" | "tag = 12"
    using assms by (auto simp: scan_scalar_def split: if_splits)
  then show ?thesis
  proof cases
    case 1
    then have "skip r 1 ''byte'' = Inr ((), r')" using assms(2) by (simp add: scan_scalar_def)
    then obtain bs where "cur_take r 1 = Some (bs, r')" "ahead 1 r r'" using skip_ahead assms(1) by blast
    then show ?thesis using 1 by (simp add: parse_scalar_def cur_byte_def)
  next
    case 2
    then have "skip r 2 ''short'' = Inr ((), r')" using assms(2) by (simp add: scan_scalar_def)
    then obtain bs where "cur_take r 2 = Some (bs, r')" "ahead 2 r r'" using skip_ahead assms(1) by blast
    then show ?thesis using 2 ahead_weaken [of 2 r r' 1] by (simp add: parse_scalar_def)
  next
    case 3
    then have "skip_zigzag_i32 r ''int'' = Inr ((), r')" using assms(2) by (simp add: scan_scalar_def)
    then show ?thesis using 3 skip_zigzag_agrees assms(1) by (fastforce simp: parse_scalar_def)
  next
    case 4
    then have "skip_zigzag_i64 r ''long'' = Inr ((), r')" using assms(2) by (simp add: scan_scalar_def)
    then show ?thesis using 4 i64_agrees assms(1) by (fastforce simp: parse_scalar_def)
  next
    case 5
    then have "skip r 4 ''float'' = Inr ((), r')" using assms(2) by (simp add: scan_scalar_def)
    then obtain bs where "cur_take r 4 = Some (bs, r')" "ahead 4 r r'" using skip_ahead assms(1) by blast
    then show ?thesis using 5 ahead_weaken [of 4 r r' 1] by (simp add: parse_scalar_def)
  next
    case 6
    then have "skip r 8 ''double'' = Inr ((), r')" using assms(2) by (simp add: scan_scalar_def)
    then obtain bs where "cur_take r 8 = Some (bs, r')" "ahead 8 r r'" using skip_ahead assms(1) by blast
    then show ?thesis using 6 ahead_weaken [of 8 r r' 1] by (simp add: parse_scalar_def)
  next
    case 7
    then obtain n r1 where n: "read_collection_length r ''byte array'' = Inr (n, r1)" "skip r1 n ''byte array'' = Inr ((), r')"
      using assms(2) by (auto simp: scan_scalar_def result_simps)
    note l = length_agrees [OF assms(1) n(1)]
    obtain bs where bs: "cur_take r1 n = Some (bs, r')" "ahead n r1 r'"
      using skip_ahead [OF ahead_in_input [OF l(2)] n(2)] by auto
    show ?thesis using 7 l(1) bs(1) ahead_weaken [OF ahead_trans [OF l(2) bs(2)], of 1] by (simp add: parse_scalar_def)
  next
    case 8
    then obtain bs where "read_string r ''string'' = Inr (bs, r')"
      using assms(2) by (auto simp: scan_scalar_def result_simps)
    then show ?thesis using 8 string_agrees [OF assms(1)] by (simp add: parse_scalar_def)
  next
    case 9
    then obtain n r1 where n: "read_collection_length r ''int array'' = Inr (n, r1)"
        "repeat_skip n (\<lambda>r. skip_zigzag_i32 r ''int array element'') r1 = Inr ((), r')"
      using assms(2) by (auto simp: scan_scalar_def result_simps)
    note l = length_agrees [OF assms(1) n(1)]
    obtain vs where vs: "cur_repeat n cur_zigzag_i32 r1 = Some (vs, r')" "ahead n r1 r'"
      using repeat_agrees [OF _ ahead_in_input [OF l(2)] n(2), of cur_zigzag_i32] skip_zigzag_agrees by blast
    have "\<not> n > length (input r1)" using vs(2) by (auto simp: ahead_def)
    then show ?thesis using 9 l(1) vs(1) ahead_weaken [OF ahead_trans [OF l(2) vs(2)], of 1] by (simp add: parse_scalar_def)
  next
    case 10
    then obtain n r1 where n: "read_collection_length r ''long array'' = Inr (n, r1)"
        "repeat_skip n (\<lambda>r. skip_zigzag_i64 r ''long array element'') r1 = Inr ((), r')"
      using assms(2) by (auto simp: scan_scalar_def result_simps)
    note l = length_agrees [OF assms(1) n(1)]
    obtain vs where vs: "cur_repeat n cur_zigzag_i64 r1 = Some (vs, r')" "ahead n r1 r'"
      using repeat_agrees [OF _ ahead_in_input [OF l(2)] n(2), of cur_zigzag_i64] i64_agrees by blast
    have "\<not> n > length (input r1)" using vs(2) by (auto simp: ahead_def)
    then show ?thesis using 10 l(1) vs(1) ahead_weaken [OF ahead_trans [OF l(2) vs(2)], of 1] by (simp add: parse_scalar_def)
  qed
qed

text \<open>What the parser does on the input of a scan task, one level of depth behind the scanner.\<close>

fun parses_too :: "scan_task \<Rightarrow> usize \<Rightarrow> cursor \<Rightarrow> cursor \<Rightarrow> bool" where
  "parses_too (Payload tag) d r r' \<longleftrightarrow> (\<exists>v. parse_value tag d r = Some (v, r')) \<and> ahead 1 r r'"
| "parses_too (Elements n tag) d r r' \<longleftrightarrow> (\<exists>vs. parse_items n tag d r = Some (vs, r')) \<and> ahead n r r'"
| "parses_too Members d r r' \<longleftrightarrow> (\<forall>es. \<exists>ms. parse_members d es r = Some (ms, r')) \<and> ahead 1 r r'"

lemma list_agrees:
  assumes r: "in_input r" and d: "d + 1 \<le> MAX_NBT_DEPTH"
    and s: "read_u8 r ctx = Inr (element, r1)" "read_collection_length r1 ctx2 = Inr (n, r2)"
    and items: "in_input r2 \<Longrightarrow> parses_too (Elements n element) (d + 1) r2 r'"
  shows "parses_too (Payload 9) d r r'"
proof -
  have b: "cur_byte r = Some (element, r1)" "ahead 1 r r1" using cursor_u8 [OF s(1)] by (auto simp: ahead_def)
  note l = length_agrees [OF ahead_in_input [OF b(2)] s(2)]
  obtain vs where vs: "parse_items n element (d + 1) r2 = Some (vs, r')" "ahead n r2 r'"
    using items [OF ahead_in_input [OF l(2)]] by auto
  have "\<not> n > length (input r2)" using vs(2) by (auto simp: ahead_def)
  then have "parse_value 9 d r = Some (Nbt_List vs, r')"
    using b(1) l(1) vs(1) d by (subst parse_value.simps) simp
  then show ?thesis using ahead_weaken [OF ahead_trans [OF b(2) ahead_trans [OF l(2) vs(2)]], of 1] by auto
qed

lemma member_agrees:
  assumes r: "in_input r" and s: "read_u8 r ctx = Inr (tag, r1)" "tag \<noteq> 0" "read_string r1 ctx2 = Inr (name, r2)"
    and v: "in_input r2 \<Longrightarrow> parses_too (Payload tag) d r2 r3" and ms: "in_input r3 \<Longrightarrow> parses_too Members d r3 r'"
  shows "parses_too Members d r r'"
proof -
  have b: "cur_byte r = Some (tag, r1)" "ahead 1 r r1" using cursor_u8 [OF s(1)] by (auto simp: ahead_def)
  note n = string_agrees [OF ahead_in_input [OF b(2)] s(3)]
  obtain x where x: "parse_value tag d r2 = Some (x, r3)" "ahead 1 r2 r3" using v [OF ahead_in_input [OF n(2)]] by auto
  have m: "parses_too Members d r3 r'" by (rule ms [OF ahead_in_input [OF x(2)]])
  have "\<exists>ms. parse_members d es r = Some (ms, r')" for es
  proof -
    obtain ms where "parse_members d (bt_insert name x es) r3 = Some (ms, r')" using m by auto
    then show ?thesis using b(1) n(1) x(1) s(2) by (subst parse_members.simps) simp
  qed
  then show ?thesis
    using m ahead_weaken [OF ahead_trans [OF b(2) ahead_trans [OF n(2) ahead_trans [OF x(2)]]], of 1 r' 1] by auto
qed

lemma scan_agrees:
  "scan task depth (tags, r) = Inr (tags', r') \<Longrightarrow> depth = Suc d \<Longrightarrow> in_input r \<Longrightarrow> parses_too task d r r'"
proof (induction task depth "(tags, r)" arbitrary: tags r tags' r' d rule: scan.induct)
  case (1 tag depth tags r)
  show ?case
  proof (cases "scan_scalar tag r")
    case (Some res)
    then have "res = Inr ((), r')" using 1(3) by (subst (asm) scan.simps) (auto simp: result_simps)
    then show ?thesis using scalar_agrees [OF 1(5)] Some by (auto simp: parse_value.simps [of tag])
  next
    case None
    show ?thesis
    proof (cases "tag = 9")
      case True
      obtain nested element r1 len r2 where s: "enter_container depth = Inr nested"
          "read_u8 r ''list element tag'' = Inr (element, r1)"
          "read_collection_length r1 ''list'' = Inr (len, r2)" "\<not> (element = 0 \<and> len \<noteq> 0)"
          "(if len \<noteq> 0 then and_then (minimum_payload_size element) (\<lambda>size.
              check_collection_limit r2 len size ''list elements'') else Inr ()) = Inr ()"
        and rec: "scan (Elements len element) nested (tags, r2) = Inr (tags', r')"
        using 1(3) None True by (subst (asm) scan.simps) (auto simp: and_then_Inr_iff split: if_splits)
      have nested: "nested = Suc (d + 1)" "d + 1 \<le> MAX_NBT_DEPTH" using s(1) 1(4) by (auto simp: enter_container_Inr)
      have "parses_too (Elements len element) (d + 1) r2 r'" if "in_input r2"
        using 1(1) [OF None True s(1,2) refl s(3) refl s(4,5)] rec nested(1) that by blast
      then show ?thesis using list_agrees [OF 1(5) nested(2) s(2,3)] True by blast
    next
      case False
      then obtain nested where s: "tag = 10" "enter_container depth = Inr nested"
        and rec: "scan Members nested (tags, r) = Inr (tags', r')"
        using 1(3) None by (subst (asm) scan.simps) (auto simp: and_then_Inr_iff split: if_splits)
      have nested: "nested = Suc (d + 1)" "d + 1 \<le> MAX_NBT_DEPTH" using s(2) 1(4) by (auto simp: enter_container_Inr)
      have m: "parses_too Members (d + 1) r r'" using 1(2) [OF None False s] rec nested(1) 1(5) by blast
      then obtain ms where "parse_members (d + 1) bt_empty r = Some (ms, r')" by auto
      then have "parse_value 10 d r = Some (Nbt_Compound ms, r')"
        using nested(2) by (subst parse_value.simps) simp
      then show ?thesis using m s(1) by auto
    qed
  qed
next
  case (2 tag depth tags r)
  then show ?case by (auto simp: scan.simps ahead_def in_input_def)
next
  case (3 n tag depth tags r)
  obtain t tags1 r1 where s: "visit_tag tags = Inr t" "scan (Payload tag) depth (t, r) = Inr (tags1, r1)"
    "scan (Elements n tag) depth (tags1, r1) = Inr (tags', r')"
    using 3(3) by (subst (asm) scan.simps) (auto simp: and_then_Inr_iff)
  have p: "parses_too (Payload tag) d r r1" using 3(1) [OF s(1,2)] 3(4,5) by blast
  have "in_input r1" using p ahead_in_input by auto
  then have e: "parses_too (Elements n tag) d r1 r'" using 3(2) [OF s(1,2) refl s(3)] 3(4) by blast
  show ?case using p e ahead_trans [of 1 r r1 n r'] by auto
next
  case (4 depth tags r)
  obtain child r1 where c: "read_u8 r ''compound tag'' = Inr (child, r1)"
    using 4(3) by (subst (asm) scan.simps) (auto simp: and_then_Inr_iff)
  show ?case
  proof (cases "child = 0")
    case True
    then have "r' = r1" using 4(3) c by (subst (asm) scan.simps) simp
    moreover have "parse_members d es r = Some (es, r1)" for es
      using cursor_u8 [OF c] True by (subst parse_members.simps) simp
    ultimately show ?thesis using cursor_u8 [OF c] by (auto simp: ahead_def)
  next
    case False
    obtain t name r2 tags3 r3 where s: "visit_tag tags = Inr t" "read_string r1 ''tag name'' = Inr (name, r2)"
      "scan (Payload child) depth (t, r2) = Inr (tags3, r3)" "scan Members depth (tags3, r3) = Inr (tags', r')"
      using 4(3) c False by (subst (asm) scan.simps) (auto simp: and_then_Inr_iff)
    have "parses_too (Payload child) d r2 r3" if "in_input r2"
      using 4(1) [OF c refl False s(1,2) refl s(3)] 4(4) that by blast
    moreover have "parses_too Members d r3 r'" if "in_input r3"
      using 4(2) [OF c refl False s(1,2) refl s(3) refl s(4)] 4(4) that by blast
    ultimately show ?thesis using member_agrees [OF 4(5) c False s(2)] by blast
  qed
qed

end
