(* ===== verification/Block_Entity_Spec.thy ===== *)
theory Block_Entity_Spec
  imports Block_Entity_Decode Nbt_Agree
begin

section \<open>Properties of block entities\<close>

subsection \<open>The root's fields agree with the parser\<close>

declare parses_too.simps [simp del]

lemma payload_agrees: "scan (Payload tag) 1 (tags, r) = Inr (tags', r') \<Longrightarrow> in_input r \<Longrightarrow> parses_too (Payload tag) 0 r r'"
  by (rule scan_agrees) simp_all

lemma skip_field_agrees:
  "skip_field tag st tags r = Inr ((st', tags'), r') \<Longrightarrow> in_input r \<Longrightarrow> parses_too (Payload tag) 0 r r'"
  by (auto simp: skip_field_def result_simps intro: payload_agrees [unfolded One_nat_def])

lemma id_field_agrees:
  assumes "id_field tag st tags r = Inr ((st', tags'), r')" "in_input r" shows "parses_too (Payload tag) 0 r r'"
proof (cases "tag = 8")
  case True
  then obtain v where "read_string r ''id value'' = Inr (v, r')" using assms(1) by (auto simp: id_field_def result_simps)
  then show ?thesis using string_agrees [OF assms(2)] True by (simp add: parses_too.simps parse_value.simps parse_scalar_def)
qed (use assms in \<open>auto simp: id_field_def intro: skip_field_agrees\<close>)

lemma coordinate_field_agrees:
  assumes "coordinate_field f g s tag st tags r = Inr ((st', tags'), r')" "in_input r"
  shows "parses_too (Payload tag) 0 r r'"
proof (cases "tag = 3")
  case True
  then obtain v where v: "read_zigzag_i32 r ''position'' = Inr (v, r')"
    using assms(1) by (auto simp: coordinate_field_def result_simps)
  then show ?thesis using zigzag_agrees [OF assms(2) v] True by (auto simp: parses_too.simps parse_value.simps parse_scalar_def)
qed (use assms in \<open>auto simp: coordinate_field_def intro: skip_field_agrees\<close>)

lemma root_byte_field_agrees:
  assumes "root_byte_field g s tag st tags r = Inr ((st', tags'), r')" "in_input r"
  shows "parses_too (Payload tag) 0 r r'"
proof (cases "tag = 1")
  case True
  then obtain v where v: "read_u8 r ''root byte candidate'' = Inr (v, r')"
    using assms(1) by (auto simp: root_byte_field_def scan_root_byte_candidate_def result_simps)
  then show ?thesis using cursor_u8 [OF v] True by (auto simp: parses_too.simps parse_value.simps parse_scalar_def ahead_def)
next
  case False
  then obtain t where "scan (Payload tag) 1 (tags, r) = Inr (t, r')"
    using assms(1) by (auto simp: root_byte_field_def scan_root_byte_candidate_def result_simps)
  then show ?thesis using payload_agrees assms(2) by blast
qed

lemma root_field_agrees:
  assumes "root_field name tag st tags r = Inr ((st', tags'), r')" "in_input r"
  shows "parses_too (Payload tag) 0 r r'"
  using assms skip_field_agrees [of tag st tags r] id_field_agrees [of tag st tags r]
    coordinate_field_agrees [of _ _ _ tag st tags r] root_byte_field_agrees [of _ _ tag st tags r]
  unfolding root_field_def by (auto split: if_split_asm)

lemma root_fields_agrees:
  "root_fields st tags r = Inr (st', r') \<Longrightarrow> in_input r \<Longrightarrow> parses_too Members 0 r r'"
proof (induction st tags r rule: root_fields.induct)
  case (1 st tags r)
  obtain tag r1 where tag: "read_u8 r ''compound tag'' = Inr (tag, r1)"
    using 1(2) by (subst (asm) root_fields.simps) (auto simp: result_simps)
  show ?case
  proof (cases "tag = 0")
    case True
    then have "r' = r1" using 1(2) tag by (subst (asm) root_fields.simps) simp
    moreover have "parse_members 0 es r = Some (es, r1)" for es
      using cursor_u8 [OF tag] True by (subst parse_members.simps) simp
    ultimately show ?thesis using cursor_u8 [OF tag] by (auto simp: parses_too.simps ahead_def)
  next
    case False
    obtain tags1 name r2 st3 tags3 r3 where s: "visit_tag tags = Inr tags1" "read_string r1 ''tag name'' = Inr (name, r2)"
      "root_field name tag st tags1 r2 = Inr ((st3, tags3), r3)" "root_fields st3 tags3 r3 = Inr (st', r')"
      using 1(2) tag False by (subst (asm) root_fields.simps) (auto simp: result_simps)
    have "parses_too Members 0 r3 r'" if "in_input r3"
      using 1(1) [of "(tag, r1)" tag r1 tags1 "(name, r2)" name r2 "((st3, tags3), r3)" "(st3, tags3)" r3 st3 tags3]
        s(4) that by (simp add: tag s(1-3) False)
    moreover have "parses_too (Payload tag) 0 r2 r3" if "in_input r2"
      using root_field_agrees [OF s(3) that] .
    ultimately show ?thesis using member_agrees [OF 1(3) tag False s(2)] by blast
  qed
qed

lemma scan_root_parses:
  assumes "scan_root r = Inr (st, r')" "semantic_error st = None" "in_input r" "position r = 0"
  shows "\<exists>root. nbt_parse (input r) = Some root"
proof -
  obtain tag r1 name r2 where s: "read_u8 r ''root tag'' = Inr (tag, r1)" "read_string r1 ''root name'' = Inr (name, r2)"
    using assms(1) by (auto simp: scan_root_def result_simps)
  have tag: "tag = 10"
    using assms(1,2) s by (auto simp: scan_root_def result_simps defer_error_def COMPOUND_TAG_def split: if_splits)
  obtain st2 tags where f: "root_fields empty_root_scan tags r2 = Inr (st2, r')"
    using assms(1) s tag by (auto simp: scan_root_def result_simps COMPOUND_TAG_def split: if_splits)
  have b: "cur_byte r = Some (tag, r1)" "in_input r1" using cursor_u8 [OF s(1)] by (auto simp: in_input_def)
  note n = string_agrees [OF b(2) s(2)]
  obtain ms where "parse_members 0 bt_empty r2 = Some (ms, r')"
    using root_fields_agrees [OF f ahead_in_input [OF n(2)]] by (auto simp: parses_too.simps)
  moreover have "r = \<lparr>input = input r, position = 0\<rparr>" using assms(4) by (cases r) simp
  ultimately show ?thesis using b(1) n(1) tag by (simp add: nbt_parse_def)
qed

lemma sound_entity_parses:
  assumes "sound_entity sha nbt" shows "\<exists>root. nbt_parse (nbt_bytes nbt) = Some root"
proof -
  obtain st r where "scan_root \<lparr>input = nbt_bytes nbt, position = 0\<rparr> = Inr (st, r)" "semantic_error st = None"
    using assms by (auto simp: sound_entity_def decode_prefix_scan scan_prefix_def result_simps Let_def)
  then show ?thesis using scan_root_parses [of _ st r] by (fastforce simp: in_input_def)
qed

subsection \<open>A sample\<close>

text \<open>A root compound at block (1, 2, 3).\<close>

definition sample_entity :: bytes where
  "sample_entity = [10, 0, 3, 1, 120, 2, 3, 1, 121, 4, 3, 1, 122, 6, 0]"

lemma and_then_weak: "m = m' \<Longrightarrow> and_then m f = and_then m' f"
  by simp

lemmas sample_eval = read_u8_def read_exact_def require_remaining_def rest_def advance_def Let_def
  read_string_def read_var_u32_def upt_rec [of 0 "5"] read_zigzag_i32_def zigzag_decode_def unzigzag_def visit_tag_def
  byte_in_def MAX_BLOCK_ENTITY_NBT_BYTES_def MAX_NBT_STRING_BYTES_def MAX_NBT_TAGS_def MAX_NBT_DEPTH_def
  enter_container_def COMPOUND_TAG_def str_def root_field_def coordinate_field_def empty_root_scan_def finish_position_def

lemma sample_scan:
  "scan_root \<lparr>input = sample_entity, position = 0\<rparr> =
     Inr (empty_root_scan\<lparr>rs_x := Some 1, rs_y := Some 2, rs_z := Some 3\<rparr>, \<lparr>input = sample_entity, position = 15\<rparr>)"
  by (simp add: scan_root_def sample_entity_def sample_eval root_fields.simps cong: and_then_weak)

lemma sample_decode:
  "\<exists>nbt. decode_prefix sha (sample_entity @ ys) = Inr (nbt, 15) \<and> nbt_bytes nbt = sample_entity \<and>
     embedded_position nbt = Some (1, 2, 3)"
proof -
  have "take 15 sample_entity = sample_entity" by (simp add: sample_entity_def)
  then have "\<exists>nbt. scan_prefix sha sample_entity = Inr (nbt, 15, None) \<and> nbt_bytes nbt = sample_entity \<and>
     embedded_position nbt = Some (1, 2, 3)"
    by (simp add: scan_prefix_def sample_scan Let_def empty_root_scan_def root_position_def)
  then show ?thesis
    using scan_prefix_Inr(4) [of sha sample_entity _ 15 None ys] \<open>take 15 sample_entity = sample_entity\<close>
    by (auto simp: decode_prefix_scan)
qed

subsection \<open>Live updates\<close>

lemma scan_prefix_whole:
  "scan_prefix sha bs = Inr (nbt, used, semantic) \<longleftrightarrow>
    (\<exists>rest. bs = nbt_bytes nbt @ rest \<and> used = length (nbt_bytes nbt) \<and>
      scan_prefix sha (nbt_bytes nbt) = Inr (nbt, length (nbt_bytes nbt), semantic))"
proof
  assume scan: "scan_prefix sha bs = Inr (nbt, used, semantic)"
  note p = scan_prefix_Inr [OF scan]
  have used: "length (nbt_bytes nbt) = used" using p(2,3) by simp
  have "bs = nbt_bytes nbt @ drop used bs" using p(3) by simp
  moreover have "scan_prefix sha (nbt_bytes nbt) = Inr (nbt, used, semantic)" using p(3) p(4) [of "[]"] by simp
  ultimately show "\<exists>rest. bs = nbt_bytes nbt @ rest \<and> used = length (nbt_bytes nbt) \<and>
      scan_prefix sha (nbt_bytes nbt) = Inr (nbt, length (nbt_bytes nbt), semantic)" using used by auto
next
  assume "\<exists>rest. bs = nbt_bytes nbt @ rest \<and> used = length (nbt_bytes nbt) \<and>
      scan_prefix sha (nbt_bytes nbt) = Inr (nbt, length (nbt_bytes nbt), semantic)"
  then obtain rest where "bs = nbt_bytes nbt @ rest" "used = length (nbt_bytes nbt)"
    "scan_prefix sha (nbt_bytes nbt) = Inr (nbt, length (nbt_bytes nbt), semantic)" by blast
  then show "scan_prefix sha bs = Inr (nbt, used, semantic)"
    using scan_prefix_Inr(4) [of sha "nbt_bytes nbt" nbt "length (nbt_bytes nbt)" semantic rest] by simp
qed

lemma sound_entity_scan:
  "sound_entity sha nbt \<and> nbt_bytes nbt = bs \<longleftrightarrow> scan_prefix sha bs = Inr (nbt, length bs, None)"
proof
  assume "scan_prefix sha bs = Inr (nbt, length bs, None)"
  then show "sound_entity sha nbt \<and> nbt_bytes nbt = bs"
    using scan_prefix_sound scan_prefix_Inr(3) by fastforce
qed (auto simp: sound_entity_def decode_prefix_scan)

lemma trailing_scan:
  "(\<exists>root rest other semantic. payload = root @ rest \<and> rest \<noteq> [] \<and> length rest = n \<and>
      scan_prefix sha root = Inr (other, length root, semantic)) \<longleftrightarrow>
    (\<exists>other used semantic. scan_prefix sha payload = Inr (other, used, semantic) \<and> used \<noteq> length payload \<and>
      n = length payload - used)" (is "?parts \<longleftrightarrow> ?scan")
proof
  assume ?parts
  then obtain root rest other semantic where p: "payload = root @ rest" "rest \<noteq> []" "length rest = n"
    and scan: "scan_prefix sha root = Inr (other, length root, semantic)" by blast
  have "scan_prefix sha payload = Inr (other, length root, semantic)"
    using scan_prefix_Inr(4) [OF scan, of rest] p(1) by simp
  then show ?scan using p by force
next
  assume ?scan
  then obtain other used semantic where scan: "scan_prefix sha payload = Inr (other, used, semantic)"
    and used: "used \<noteq> length payload" "n = length payload - used" by blast
  from scan [unfolded scan_prefix_whole [of sha payload]] obtain rest where rest: "payload = nbt_bytes other @ rest"
    "used = length (nbt_bytes other)" "scan_prefix sha (nbt_bytes other) = Inr (other, length (nbt_bytes other), semantic)"
    by blast
  then have "rest \<noteq> []" "length rest = n" using used by auto
  then show ?parts using rest by blast
qed

lemma live_cases:
  "decode_live sha key payload =
    (case scan_prefix sha payload of
       Inl e \<Rightarrow> Inl (Nbt_Error e)
     | Inr (nbt, used, semantic) \<Rightarrow>
         if used \<noteq> length payload then Inl (Trailing_Bytes (length payload - used))
         else (case (semantic, embedded_position nbt) of
             (Some e, _) \<Rightarrow> Inl (Nbt_Error e)
           | (None, None) \<Rightarrow> Inr nbt
           | (None, Some actual) \<Rightarrow>
               if actual = be_position key then Inr nbt else Inl (Position_Mismatch (be_position key) actual)))"
  by (simp add: decode_live_def split: sum.split option.split)

subsection \<open>Properties\<close>

text \<open>
  C24. A block entity is determined by its bytes: an accepted root is a non-empty prefix of the input of at
  most a mebibyte, decoding those bytes again gives the same entity whatever follows them, and any
  two accepted entities with equal bytes agree in every derived field, so comparing bytes
  (\<^verbatim>\<open>PartialEq for BlockEntityNbt\<close>) is equality.
\<close>

theorem entity_is_its_bytes:
  assumes "decode_prefix sha bs = Inr (m, k)"
  shows "nbt_bytes m = take k bs \<and> 0 < k \<and> k \<le> length bs \<and> k \<le> MAX_BLOCK_ENTITY_NBT_BYTES \<and>
    decode_prefix sha (nbt_bytes m @ ys) = Inr (m, k) \<and>
    (\<forall>cs n l. decode_prefix sha cs = Inr (n, l) \<and> nbt_bytes n = nbt_bytes m \<longrightarrow> n = m)"
proof -
  have scan: "scan_prefix sha bs = Inr (m, k, None)" using assms by (simp add: decode_prefix_scan)
  note p = scan_prefix_Inr(1-3) [OF scan] scan_prefix_Inr(4) [OF scan, of ys]
  have "sound_entity sha m" by (rule scan_prefix_sound [OF scan])
  then have limit: "k \<le> MAX_BLOCK_ENTITY_NBT_BYTES" using p(2,3) by (simp add: sound_entity_def)
  have again: "decode_prefix sha (nbt_bytes m @ ys) = Inr (m, k)" using p(3,4) by (simp add: decode_prefix_scan)
  have "n = m" if "decode_prefix sha cs = Inr (n, l)" "nbt_bytes n = nbt_bytes m" for cs n l
    using that sound_entity_eq [OF _ \<open>sound_entity sha m\<close>] scan_prefix_sound by (simp add: decode_prefix_scan)
  then show ?thesis using p(1-3) limit again by blast
qed

theorem entity_is_its_bytes_witness:
  "\<exists>m. decode_prefix (\<lambda>_. []) (sample_entity @ [7]) = Inr (m, 15) \<and> nbt_bytes m = sample_entity \<and>
     decode_prefix (\<lambda>_. []) (nbt_bytes m @ [1, 2]) = Inr (m, 15)"
proof -
  obtain m where "decode_prefix (\<lambda>_. []) (sample_entity @ [7]) = Inr (m, 15)" "nbt_bytes m = sample_entity"
    using sample_decode by blast
  then show ?thesis using entity_is_its_bytes [of "\<lambda>_. []" "sample_entity @ [7]" m 15 "[1, 2]"] by blast
qed

text \<open>
  C26. Every admitted block entity has a tree: the strict scanner of \<^verbatim>\<open>block_entity.rs\<close> and the lenient
  parser of \<^verbatim>\<open>nbt_tree.rs\<close> are separate code, and \<^verbatim>\<open>parse\<close> of the bytes a decode retains never
  returns \<^verbatim>\<open>None\<close>.
\<close>

theorem admitted_entities_parse:
  assumes "decode_prefix sha bs = Inr (nbt, used)" shows "\<exists>root. nbt_parse (nbt_bytes nbt) = Some root"
proof -
  have "sound_entity sha nbt" using assms scan_prefix_sound by (simp add: decode_prefix_scan)
  then show ?thesis by (rule sound_entity_parses)
qed

theorem admitted_entities_parse_witness: "\<exists>root. nbt_parse sample_entity = Some root"
  using admitted_entities_parse [of "\<lambda>_. []" "sample_entity @ []"] sample_decode [of "\<lambda>_. []" "[]"] by auto

text \<open>
  C30. Whatever bytes a chunk or sub-chunk tail holds, decoding it ends with an ordered map of sound entities
  inside the scope, each stored under its embedded position, within the limits on their number and
  on their total bytes.
\<close>

theorem decoded_tails_bounded:
  "scoped_entities sha (Chunk_Scope chunk lo hi) (entities (decode_level_chunk_tail sha chunk lo hi payload)) \<and>
   entity_total (entities (decode_level_chunk_tail sha chunk lo hi payload)) \<le> 8 * 1024 * 1024 \<and>
   length (entities (decode_level_chunk_tail sha chunk lo hi payload)) \<le> 16384 \<and>
   scoped_entities sha (Sub_Chunk_Scope key) (entities (decode_sub_chunk_tail sha key payload)) \<and>
   entity_total (entities (decode_sub_chunk_tail sha key payload)) \<le> 8 * 1024 * 1024 \<and>
   length (entities (decode_sub_chunk_tail sha key payload)) \<le> 4096"
  using decode_scoped_entities_inv [of sha "Chunk_Scope chunk lo hi" _ MAX_BLOCK_ENTITIES_PER_CHUNK]
    decode_scoped_entities_inv [of sha "Sub_Chunk_Scope key" payload MAX_BLOCK_ENTITIES_PER_SUB_CHUNK]
  by (simp add: decode_level_chunk_tail_def decode_sub_chunk_tail_def case_prod_unfold Let_def
      MAX_BLOCK_ENTITY_BYTES_PER_CHUNK_def MAX_BLOCK_ENTITY_TAIL_BYTES_def MAX_BLOCK_ENTITIES_PER_CHUNK_def
      MAX_BLOCK_ENTITIES_PER_SUB_CHUNK_def)

text \<open>
  C29. Every outcome of a live update, and when it arises.  A payload is accepted exactly when it is the bytes of a sound
  entity whose embedded position, if it has one, is the packet's; the same bytes with another position are a
  mismatch.  A payload that goes on after a complete root is trailing bytes, by their number, whatever else is wrong
  with that root.  An NBT error is the scanner's own, or the deferred one of a root that is the whole payload.  No
  other error is returned.
\<close>

theorem live_update_exact:
  "(decode_live sha key payload = Inr nbt \<longleftrightarrow>
     sound_entity sha nbt \<and> nbt_bytes nbt = payload \<and> embedded_position nbt \<in> {None, Some (be_position key)}) \<and>
   (decode_live sha key payload = Inl (Position_Mismatch expected actual) \<longleftrightarrow>
     expected = be_position key \<and> actual \<noteq> expected \<and>
     (\<exists>other. sound_entity sha other \<and> nbt_bytes other = payload \<and> embedded_position other = Some actual)) \<and>
   (decode_live sha key payload = Inl (Trailing_Bytes n) \<longleftrightarrow>
     (\<exists>root rest other semantic. payload = root @ rest \<and> rest \<noteq> [] \<and> length rest = n \<and>
        scan_prefix sha root = Inr (other, length root, semantic))) \<and>
   (decode_live sha key payload = Inl (Nbt_Error e) \<longleftrightarrow>
     scan_prefix sha payload = Inl e \<or> (\<exists>other. scan_prefix sha payload = Inr (other, length payload, Some e))) \<and>
   decode_live sha key payload \<notin>
     {Inl (Revision_Error r), Inl (Too_Many_Entities count), Inl (Chunk_Entity_Bytes_Too_Large m limit)}"
proof -
  have sound: "sound_entity sha m \<and> nbt_bytes m = payload \<and> Q \<longleftrightarrow> scan_prefix sha payload = Inr (m, length payload, None) \<and> Q"
    for m Q using sound_entity_scan [of sha m payload] by blast
  show ?thesis
    unfolding trailing_scan sound live_cases
    by (intro conjI; cases "scan_prefix sha payload") (auto split: option.splits if_splits)
qed

end
