(* ===== verification/Light_Storage.thy ===== *)
theory Light_Storage
  imports Prelude
begin

section \<open>Nibble light storage\<close>

text \<open>
  \<^verbatim>\<open>crates/world/src/light.rs\<close>: one light channel of a sub-chunk, uniform or packed two samples to
  a byte, and the pair of channels a solve produces.  A packed payload behind an \<^verbatim>\<open>Arc\<close> is copied
  before it is written (\<^verbatim>\<open>Arc::make_mut\<close>), so it is modelled as a value; whether two handles share
  it (\<^verbatim>\<open>shares_packed_bytes_with\<close>) is not modelled.
\<close>

definition LIGHT_SAMPLES_PER_SUB_CHUNK :: usize where
  "LIGHT_SAMPLES_PER_SUB_CHUNK = 16 * 16 * 16"

definition PACKED_LIGHT_BYTES :: usize where
  "PACKED_LIGHT_BYTES = LIGHT_SAMPLES_PER_SUB_CHUNK div 2"

datatype light_storage_error = Value_Out_Of_Range u8 | Index_Out_Of_Range usize

datatype light_nibbles = Light_Uniform u8 | Light_Packed "u8 list"

definition validate_light :: "u8 \<Rightarrow> light_storage_error + unit" where
  "validate_light v = (if v \<le> 15 then Inr () else Inl (Value_Out_Of_Range v))"

definition light_from_packed :: "u8 list \<Rightarrow> light_nibbles" where
  "light_from_packed bytes =
     (let first = bytes ! 0 AND 0x0f; repeated = first OR push_bit 4 first
      in if list_all (\<lambda>byte. byte = repeated) bytes then Light_Uniform first else Light_Packed bytes)"

definition light_uniform :: "u8 \<Rightarrow> light_storage_error + light_nibbles" where
  "light_uniform v = and_then (validate_light v) (\<lambda>_. Inr (Light_Uniform v))"

definition light_get :: "light_nibbles \<Rightarrow> usize \<Rightarrow> u8 option" where
  "light_get s index =
     (if index \<ge> LIGHT_SAMPLES_PER_SUB_CHUNK then None
      else case s of
        Light_Uniform v \<Rightarrow> Some v
      | Light_Packed bytes \<Rightarrow>
          let byte = bytes ! (index div 2)
          in Some (if index mod 2 = 0 then byte AND 0x0f else drop_bit 4 byte))"

definition light_promote :: "light_nibbles \<Rightarrow> u8 list" where
  "light_promote s = (case s of
     Light_Uniform v \<Rightarrow> replicate PACKED_LIGHT_BYTES (v OR push_bit 4 v)
   | Light_Packed bytes \<Rightarrow> bytes)"

definition light_set_without_collapse ::
    "light_nibbles \<Rightarrow> usize \<Rightarrow> u8 \<Rightarrow> light_storage_error + light_nibbles \<times> bool" where
  "light_set_without_collapse s index v =
     and_then (validate_light v) (\<lambda>_.
       if index \<ge> LIGHT_SAMPLES_PER_SUB_CHUNK then Inl (Index_Out_Of_Range index)
       else if light_get s index = Some v then Inr (s, False)
       else
         let bytes = light_promote s; slot = bytes ! (index div 2)
         in Inr (Light_Packed (bytes[index div 2 :=
              (if index mod 2 = 0 then (slot AND 0xf0) OR v
               else (slot AND 0x0f) OR push_bit 4 v)]), True))"

definition light_collapse_if_uniform :: "light_nibbles \<Rightarrow> light_nibbles" where
  "light_collapse_if_uniform s = (case s of
     Light_Uniform v \<Rightarrow> s
   | Light_Packed bytes \<Rightarrow>
       let first = bytes ! 0 AND 0x0f; repeated = first OR push_bit 4 first
       in if list_all (\<lambda>byte. byte = repeated) bytes then Light_Uniform first else s)"

definition light_set :: "light_nibbles \<Rightarrow> usize \<Rightarrow> u8 \<Rightarrow> light_storage_error + light_nibbles \<times> bool" where
  "light_set s index v =
     and_then (light_set_without_collapse s index v) (\<lambda>(s', changed).
       Inr (if changed then light_collapse_if_uniform s' else s', changed))"

definition light_fill :: "light_nibbles \<Rightarrow> u8 \<Rightarrow> light_storage_error + light_nibbles" where
  "light_fill s v = and_then (validate_light v) (\<lambda>_. Inr (Light_Uniform v))"

definition light_is_uniform :: "light_nibbles \<Rightarrow> bool" where
  "light_is_uniform s = (case s of Light_Uniform _ \<Rightarrow> True | Light_Packed _ \<Rightarrow> False)"

definition light_allocated_bytes :: "light_nibbles \<Rightarrow> usize" where
  "light_allocated_bytes s = (case s of Light_Uniform _ \<Rightarrow> 0 | Light_Packed _ \<Rightarrow> PACKED_LIGHT_BYTES)"

subsection \<open>Two samples to a byte\<close>

text \<open>The well-formed channels: nibbles in range, a full payload, and no payload of one nibble only.\<close>

definition light_wf :: "light_nibbles \<Rightarrow> bool" where
  "light_wf s = (case s of
     Light_Uniform v \<Rightarrow> v \<le> 15
   | Light_Packed bytes \<Rightarrow>
       length bytes = PACKED_LIGHT_BYTES \<and>
       \<not> list_all (\<lambda>byte. byte = (bytes ! 0 AND 0x0f) OR push_bit 4 (bytes ! 0 AND 0x0f)) bytes)"

definition nibble :: "u8 list \<Rightarrow> nat \<Rightarrow> u8" where
  "nibble bytes i = (if i mod 2 = 0 then bytes ! (i div 2) AND 15 else drop_bit 4 (bytes ! (i div 2)))"

lemma sizes [simp]: "LIGHT_SAMPLES_PER_SUB_CHUNK = 4096" "PACKED_LIGHT_BYTES = 2048"
  by (simp_all add: LIGHT_SAMPLES_PER_SUB_CHUNK_def PACKED_LIGHT_BYTES_def)

lemma bit_15: "bit (15::u8) n \<longleftrightarrow> n < 4"
proof -
  have "(15::u8) = mask 4" by (simp add: mask_eq_exp_minus_1)
  then show ?thesis by (auto simp only: bit_mask_iff) simp_all
qed

lemma bit_240: "bit (240::u8) n \<longleftrightarrow> 4 \<le> n \<and> n < 8"
proof -
  have "(240::u8) = push_bit 4 (mask 4)" by (simp add: mask_eq_exp_minus_1 push_bit_eq_mult)
  then show ?thesis by (auto simp only: bit_push_bit_iff bit_mask_iff) simp_all
qed

lemma bit_15_int [simp]: "bit (15::int) n \<longleftrightarrow> n < 4"
proof -
  have "(15::int) = mask 4" by (simp add: mask_eq_exp_minus_1)
  then show ?thesis by (simp only: bit_mask_iff) simp
qed

lemma bit_240_int [simp]: "bit (240::int) n \<longleftrightarrow> 4 \<le> n \<and> n < 8"
proof -
  have "(240::int) = push_bit 4 (mask 4)" by (simp add: mask_eq_exp_minus_1 push_bit_eq_mult)
  then show ?thesis by (simp only: bit_push_bit_iff bit_mask_iff) auto
qed

lemma le_15_iff: "(v::u8) \<le> 15 \<longleftrightarrow> v AND 15 = v"
proof
  assume "v \<le> 15"
  then have "unat v < 2 ^ 4" by (simp add: word_le_nat_alt)
  then have "take_bit 4 v = v"
    by (metis take_bit_nat_eq_self unsigned_take_bit_eq unsigned_word_eqI) 
  then show "v AND 15 = v" by (simp add: take_bit_eq_mask mask_eq_exp_minus_1)
next
  assume "v AND 15 = v"
  then show "v \<le> 15" by (metis word_and_le2 and.commute word_and_le1)
qed

lemma bit_le_15: "(v::u8) \<le> 15 \<Longrightarrow> bit v n \<Longrightarrow> n < 4"
  by (metis bit_15 bit_and_iff le_15_iff)

lemma no_high_bit: "(v::u8) \<le> 15 \<Longrightarrow> \<not> bit v (4 + n)"
  by (auto dest: bit_le_15)

lemma low_le [simp]: "(b::u8) AND 15 \<le> 15"
  by (simp add: word_and_le1)

lemma high_le [simp]: "drop_bit 4 (b::u8) \<le> 15"
  unfolding le_15_iff by (rule bit_word_eqI) (auto simp: bit_simps bit_15 dest: bit_imp_le_length)

lemma drop_nibble [simp]: "(v::u8) \<le> 15 \<Longrightarrow> drop_bit 4 v = 0"
  by (rule bit_word_eqI) (simp add: bit_simps no_high_bit)

lemma drop_push_nibble [simp]: "(v::u8) \<le> 15 \<Longrightarrow> drop_bit 4 (push_bit 4 v) = v"
  by (rule bit_word_eqI) (auto simp: bit_simps dest: bit_le_15)

lemma push_nibble_low [simp]: "push_bit 4 (v::u8) AND 15 = 0"
  by (rule bit_word_eqI) (auto simp: bit_simps)

lemma nibble_and [simp]: "(v::u8) \<le> 15 \<Longrightarrow> v AND 15 = v"
  by (simp add: le_15_iff)

lemma write_low:
  assumes "(v::u8) \<le> 15"
  shows "((b AND 240) OR v) AND 15 = v" "drop_bit 4 ((b AND 240) OR v) = drop_bit 4 b"
  using assms by (simp_all add: bit.conj_disj_distrib2 and.assoc)

lemma write_high:
  assumes "(v::u8) \<le> 15"
  shows "((b AND 15) OR push_bit 4 v) AND 15 = b AND 15" "drop_bit 4 ((b AND 15) OR push_bit 4 v) = v"
  using assms by (simp_all add: bit.conj_disj_distrib2 and.assoc)

lemma byte_ext: "(b::u8) AND 15 = c AND 15 \<Longrightarrow> drop_bit 4 b = drop_bit 4 c \<Longrightarrow> b = c"
proof (rule bit_word_eqI)
  fix n assume e: "b AND 15 = c AND 15" "drop_bit 4 b = drop_bit 4 c" and n: "n < LENGTH(8)"
  show "bit b n \<longleftrightarrow> bit c n"
  proof (cases "n < 4")
    case True
    then show ?thesis using arg_cong [OF e(1), of "\<lambda>w. bit w n"] by (simp add: bit_and_iff bit_15)
  next
    case False
    then obtain m where "n = 4 + m" using le_Suc_ex by (metis not_less)
    then show ?thesis using arg_cong [OF e(2), of "\<lambda>w. bit w m"] by (simp add: bit_drop_bit_eq)
  qed
qed

lemma repeated:
  assumes "(v::u8) \<le> 15"
  shows "(v OR push_bit 4 v) AND 15 = v" "drop_bit 4 (v OR push_bit 4 v) = v"
  using assms by (simp_all add: bit.conj_disj_distrib2)


lemma all_repeated_iff:
  assumes "length bytes = PACKED_LIGHT_BYTES" and "(v::u8) \<le> 15"
  shows "list_all (\<lambda>byte. byte = v OR push_bit 4 v) bytes \<longleftrightarrow>
    (\<forall>i<LIGHT_SAMPLES_PER_SUB_CHUNK. nibble bytes i = v)"
proof
  assume l: "list_all (\<lambda>byte. byte = v OR push_bit 4 v) bytes"
  show "\<forall>i<LIGHT_SAMPLES_PER_SUB_CHUNK. nibble bytes i = v"
  proof (intro allI impI)
    fix i assume "i < LIGHT_SAMPLES_PER_SUB_CHUNK"
    then have "bytes ! (i div 2) = v OR push_bit 4 v" using l assms(1) by (simp add: list_all_length)
    then show "nibble bytes i = v" using repeated [OF assms(2)] by (simp add: nibble_def del: drop_bit_or)
  qed
next
  assume r: "\<forall>i<LIGHT_SAMPLES_PER_SUB_CHUNK. nibble bytes i = v"
  show "list_all (\<lambda>byte. byte = v OR push_bit 4 v) bytes"
  proof (unfold list_all_length, intro allI impI)
    fix k assume "k < length bytes"
    then have "nibble bytes (2 * k) = v" "nibble bytes (2 * k + 1) = v" using r assms(1) by auto
    then show "bytes ! k = v OR push_bit 4 v"
      using repeated [OF assms(2)]
      by (intro byte_ext [of "bytes ! k"]) (simp_all add: nibble_def del: drop_bit_or)
  qed
qed

lemma light_get_eq:
  "light_get s i = (if i < LIGHT_SAMPLES_PER_SUB_CHUNK
     then Some (case s of Light_Uniform v \<Rightarrow> v | Light_Packed bytes \<Rightarrow> nibble bytes i) else None)"
  by (simp add: light_get_def nibble_def Let_def split: light_nibbles.split)

lemma nibble_le [simp]: "nibble bytes i \<le> 15"
  by (simp add: nibble_def)

lemma light_get_le: "light_wf s \<Longrightarrow> light_get s i = Some v \<Longrightarrow> v \<le> 15"
  by (auto simp: light_get_eq light_wf_def split: if_splits light_nibbles.splits)

text \<open>A well-formed channel is its samples.\<close>

lemma light_ext:
  assumes s: "light_wf s" and t: "light_wf t"
    and same: "\<And>i. i < LIGHT_SAMPLES_PER_SUB_CHUNK \<Longrightarrow> light_get s i = light_get t i"
  shows "s = t"
proof -
  have not_equal: False
    if "light_wf (Light_Packed bytes)" "\<forall>i<LIGHT_SAMPLES_PER_SUB_CHUNK. nibble bytes i = v" for bytes v
  proof -
    have "nibble bytes 0 = bytes ! 0 AND 15" by (simp add: nibble_def)
    then have v: "v = bytes ! 0 AND 15" using that(2) by auto
    show False using that all_repeated_iff [of bytes v] by (simp add: light_wf_def v)
  qed
  have bytes_eq: "bs = cs"
    if "light_wf (Light_Packed bs)" "light_wf (Light_Packed cs)"
      "\<forall>i<LIGHT_SAMPLES_PER_SUB_CHUNK. nibble bs i = nibble cs i" for bs cs
  proof (rule nth_equalityI)
    show "length bs = length cs" using that(1,2) by (simp add: light_wf_def)
    fix k assume "k < length bs"
    then have k: "2 * k + 1 < 4096" using that(1) by (simp add: light_wf_def)
    then have "nibble bs (2 * k) = nibble cs (2 * k)" "nibble bs (2 * k + 1) = nibble cs (2 * k + 1)"
      using that(3) [rule_format, of "2 * k"] that(3) [rule_format, of "2 * k + 1"] by simp_all
    then show "bs ! k = cs ! k" by (intro byte_ext [of "bs ! k" "cs ! k"]) (simp_all add: nibble_def)
  qed
  show ?thesis
  proof (cases s; cases t)
    fix u v assume "s = Light_Uniform u" "t = Light_Uniform v"
    then show ?thesis using same [of 0] by (simp add: light_get_eq)
  next
    fix u bs assume e: "s = Light_Uniform u" "t = Light_Packed bs"
    then have "\<forall>i<LIGHT_SAMPLES_PER_SUB_CHUNK. nibble bs i = u" using same by (simp add: light_get_eq)
    then show ?thesis using not_equal t e(2) by blast
  next
    fix u bs assume e: "s = Light_Packed bs" "t = Light_Uniform u"
    then have "\<forall>i<LIGHT_SAMPLES_PER_SUB_CHUNK. nibble bs i = u" using same by (simp add: light_get_eq)
    then show ?thesis using not_equal s e(1) by blast
  next
    fix bs cs assume e: "s = Light_Packed bs" "t = Light_Packed cs"
    then have "\<forall>i<LIGHT_SAMPLES_PER_SUB_CHUNK. nibble bs i = nibble cs i"
      using same by (simp add: light_get_eq)
    then show ?thesis using bytes_eq s t e by simp
  qed
qed

subsection \<open>Every operation on a channel\<close>

lemma wf_from_packed:
  assumes "length bytes = PACKED_LIGHT_BYTES"
  shows "light_wf (light_from_packed bytes)"
    and "i < LIGHT_SAMPLES_PER_SUB_CHUNK \<Longrightarrow> light_get (light_from_packed bytes) i = Some (nibble bytes i)"
  using assms all_repeated_iff [OF assms, of "bytes ! 0 AND 15"]
  by (auto simp: light_from_packed_def light_wf_def Let_def light_get_eq)

lemma collapse_is_from_packed:
  "light_collapse_if_uniform (Light_Packed bytes) = light_from_packed bytes"
  by (simp add: light_collapse_if_uniform_def light_from_packed_def)

lemma promote_nibbles:
  assumes "light_wf s"
  shows "length (light_promote s) = PACKED_LIGHT_BYTES"
    and "i < LIGHT_SAMPLES_PER_SUB_CHUNK \<Longrightarrow> light_get s i = Some (nibble (light_promote s) i)"
  using assms by (auto simp: light_promote_def light_wf_def light_get_eq nibble_def repeated split: light_nibbles.splits)

lemma nibble_write:
  assumes "i div 2 < length bytes" and "v \<le> 15"
  shows "nibble (bytes[i div 2 := (if i mod 2 = 0 then (bytes ! (i div 2) AND 0xf0) OR v
           else (bytes ! (i div 2) AND 0x0f) OR push_bit 4 v)]) j = (if j = i then v else nibble bytes j)"
proof (cases "j div 2 = i div 2")
  case True
  have "j = i \<longleftrightarrow> j mod 2 = i mod 2" using True by (metis mult_div_mod_eq)
  then show ?thesis
    using True assms by (auto simp: nibble_def write_low write_high)
next
  case False
  then show ?thesis using assms(1) by (auto simp: nibble_def)
qed

definition light_set_result :: "light_nibbles \<Rightarrow> usize \<Rightarrow> u8 \<Rightarrow> light_nibbles \<Rightarrow> bool" where
  "light_set_result s i v s' \<longleftrightarrow> light_wf s' \<and>
     (\<forall>j<LIGHT_SAMPLES_PER_SUB_CHUNK. light_get s' j = (if j = i then Some v else light_get s j))"

lemma light_set_in_range:
  assumes wf: "light_wf s" and i: "i < LIGHT_SAMPLES_PER_SUB_CHUNK" and v: "v \<le> 15"
  obtains s' where "light_set s i v = Inr (s', light_get s i \<noteq> Some v)" "light_set_result s i v s'"
proof (cases "light_get s i = Some v")
  case True
  then have "light_set s i v = Inr (s, False)"
    using i v by (simp add: light_set_def light_set_without_collapse_def validate_light_def)
  with True wf that show ?thesis by (auto simp: light_set_result_def)
next
  case False
  define bytes where "bytes = light_promote s"
  define out where "out = bytes[i div 2 := (if i mod 2 = 0 then (bytes ! (i div 2) AND 0xf0) OR v
           else (bytes ! (i div 2) AND 0x0f) OR push_bit 4 v)]"
  note p = promote_nibbles [OF wf, folded bytes_def]
  have len: "length out = PACKED_LIGHT_BYTES" using p(1) by (simp add: out_def)
  have nib: "nibble out j = (if j = i then v else nibble bytes j)" for j
    unfolding out_def by (rule nibble_write) (use i p(1) v in auto)
  have "light_set s i v = Inr (light_from_packed out, True)"
    using i v False
    by (simp add: light_set_def light_set_without_collapse_def validate_light_def Let_def
        flip: collapse_is_from_packed bytes_def out_def)
  moreover have "light_set_result s i v (light_from_packed out)"
    using wf_from_packed [OF len] p(2) nib by (simp add: light_set_result_def)
  ultimately show ?thesis using False that by simp
qed


subsection \<open>A channel behind its interface\<close>

text \<open>
  A channel is written and read one sample at a time.  Writing samples one after another, in any
  order that reaches every cell, gives the one channel with those samples.
\<close>

locale sample_channel =
  fixes cells :: nat
    and fits :: "'v \<Rightarrow> bool"
    and sample :: "'c \<Rightarrow> nat \<Rightarrow> 'v option"
    and put :: "'c \<Rightarrow> nat \<Rightarrow> 'v \<Rightarrow> 'e + 'c \<times> bool"
    and wf :: "'c \<Rightarrow> bool"
  assumes write_read: "wf c \<Longrightarrow> i < cells \<Longrightarrow> fits v \<Longrightarrow>
      \<exists>d. put c i v = Inr (d, sample c i \<noteq> Some v) \<and> wf d \<and>
        (\<forall>j<cells. sample d j = (if j = i then Some v else sample c j))"
    and read_ext: "wf c \<Longrightarrow> wf d \<Longrightarrow> (\<And>i. i < cells \<Longrightarrow> sample c i = sample d i) \<Longrightarrow> c = d"
begin

text \<open>The loop \<^verbatim>\<open>for (i, v) in samples { channel.set(i, v)?; }\<close>.\<close>

fun write_all :: "(nat \<times> 'v) list \<Rightarrow> 'c \<Rightarrow> 'e + 'c" where
  "write_all [] c = Inr c"
| "write_all ((i, v) # ws) c = and_then (put c i v) (\<lambda>(d, _). write_all ws d)"

lemma write_all_read:
  assumes "wf c" and "\<And>i v. (i, v) \<in> set ws \<Longrightarrow> i < cells \<and> fits v"
  obtains d where "write_all ws c = Inr d" "wf d"
    "\<And>j. j < cells \<Longrightarrow> sample d j = (case map_of (rev ws) j of None \<Rightarrow> sample c j | Some v \<Rightarrow> Some v)"
  using assms
proof (induction ws arbitrary: c thesis)
  case Nil
  then show ?case by simp
next
  case (Cons w ws)
  obtain i v where w: "w = (i, v)" by fastforce
  have iv: "i < cells" "fits v" using Cons.prems(3) [of i v] by (simp_all add: w)
  obtain d where d: "put c i v = Inr (d, sample c i \<noteq> Some v)" "wf d"
    "\<forall>j<cells. sample d j = (if j = i then Some v else sample c j)"
    using write_read [OF Cons.prems(2) iv] by (elim exE conjE) (rule that)
  have ws: "\<And>i v. (i, v) \<in> set ws \<Longrightarrow> i < cells \<and> fits v" by (rule Cons.prems(3)) simp
  obtain e where e: "write_all ws d = Inr e" "wf e"
    "\<And>j. j < cells \<Longrightarrow> sample e j = (case map_of (rev ws) j of None \<Rightarrow> sample d j | Some v \<Rightarrow> Some v)"
    using Cons.IH [OF _ d(2) ws] by metis
  show ?case
  proof (rule Cons.prems(1))
    show "write_all (w # ws) c = Inr e" by (simp add: w d(1) e(1))
    fix j assume j: "j < cells"
    show "sample e j = (case map_of (rev (w # ws)) j of None \<Rightarrow> sample c j | Some v \<Rightarrow> Some v)"
      using e(3) [OF j] d(3) j by (auto simp: w map_add_def split: option.splits)
  qed (rule e(2))
qed

text \<open>Every channel with the samples that were written is the written channel.\<close>

lemma write_all_unique:
  assumes c: "wf c" and t: "wf t" and distinct: "distinct (map fst ws)" and all: "fst ` set ws = {..<cells}"
    and ws: "\<And>i v. (i, v) \<in> set ws \<Longrightarrow> fits v \<and> sample t i = Some v"
  shows "write_all ws c = Inr t"
proof -
  have "\<And>i v. (i, v) \<in> set ws \<Longrightarrow> i < cells \<and> fits v" using ws all by force
  then obtain d where d: "write_all ws c = Inr d" "wf d"
    "\<And>j. j < cells \<Longrightarrow> sample d j = (case map_of (rev ws) j of None \<Rightarrow> sample c j | Some v \<Rightarrow> Some v)"
    using write_all_read [OF c] by metis
  have "d = t"
  proof (rule read_ext [OF d(2) t])
    fix j assume j: "j < cells"
    then have "j \<in> fst ` set ws" by (simp add: all)
    then obtain v where v: "(j, v) \<in> set ws" by force
    then have "map_of (rev ws) j = Some v"
      using distinct by (intro map_of_is_SomeI) (simp_all add: rev_map [symmetric])
    then show "sample d j = sample t j" using d(3) [OF j] ws [OF v] by simp
  qed
  then show ?thesis by (simp add: d(1))
qed

end

interpretation nibbles: sample_channel LIGHT_SAMPLES_PER_SUB_CHUNK "\<lambda>v. v \<le> 15" light_get light_set light_wf
proof
  fix c i and v :: u8
  assume "light_wf c" "i < LIGHT_SAMPLES_PER_SUB_CHUNK" "v \<le> 15"
  then obtain d where "light_set c i v = Inr (d, light_get c i \<noteq> Some v)" "light_set_result c i v d"
    by (rule light_set_in_range)
  then show "\<exists>d. light_set c i v = Inr (d, light_get c i \<noteq> Some v) \<and> light_wf d \<and>
        (\<forall>j<LIGHT_SAMPLES_PER_SUB_CHUNK. light_get d j = (if j = i then Some v else light_get c j))"
    by (auto simp: light_set_result_def)
qed (rule light_ext)

subsection \<open>Two channels of a sub-chunk\<close>

datatype light_channel = Channel_Block | Channel_Sky

record sub_chunk_light =
  sl_block :: light_nibbles
  sl_sky :: light_nibbles
  sl_generation :: u64

definition sub_light_from_packed :: "u8 list \<Rightarrow> u8 list \<Rightarrow> u64 \<Rightarrow> sub_chunk_light" where
  "sub_light_from_packed block sky generation =
     \<lparr>sl_block = light_from_packed block, sl_sky = light_from_packed sky, sl_generation = generation\<rparr>"

definition sub_light_uniform :: "u8 \<Rightarrow> u8 \<Rightarrow> u64 \<Rightarrow> light_storage_error + sub_chunk_light" where
  "sub_light_uniform block sky generation =
     and_then (light_uniform block) (\<lambda>b. and_then (light_uniform sky) (\<lambda>s.
       Inr \<lparr>sl_block = b, sl_sky = s, sl_generation = generation\<rparr>))"

definition sub_light_dark :: "u64 \<Rightarrow> sub_chunk_light" where
  "sub_light_dark generation =
     \<lparr>sl_block = Light_Uniform 0, sl_sky = Light_Uniform 0, sl_generation = generation\<rparr>"

definition with_generation :: "sub_chunk_light \<Rightarrow> u64 \<Rightarrow> sub_chunk_light" where
  "with_generation light generation = light\<lparr>sl_generation := generation\<rparr>"

definition sub_light_channel :: "sub_chunk_light \<Rightarrow> light_channel \<Rightarrow> light_nibbles" where
  "sub_light_channel light c = (case c of Channel_Block \<Rightarrow> sl_block light | Channel_Sky \<Rightarrow> sl_sky light)"

definition set_sub_light_channel ::
    "sub_chunk_light \<Rightarrow> light_channel \<Rightarrow> light_nibbles \<Rightarrow> sub_chunk_light" where
  "set_sub_light_channel light c s = (case c of
     Channel_Block \<Rightarrow> light\<lparr>sl_block := s\<rparr> | Channel_Sky \<Rightarrow> light\<lparr>sl_sky := s\<rparr>)"

text \<open>\<^verbatim>\<open>local_index\<close>, on coordinates that are bytes.\<close>

definition light_local_index :: "nat \<Rightarrow> nat \<Rightarrow> nat \<Rightarrow> usize option" where
  "light_local_index x y z =
     (if x \<ge> 16 \<or> y \<ge> 16 \<or> z \<ge> 16 then None else Some ((push_bit 8 x OR push_bit 4 z) OR y))"

definition sub_light_get :: "sub_chunk_light \<Rightarrow> light_channel \<Rightarrow> nat \<Rightarrow> nat \<Rightarrow> nat \<Rightarrow> u8 option" where
  "sub_light_get light c x y z =
     (case light_local_index x y z of None \<Rightarrow> None | Some index \<Rightarrow> light_get (sub_light_channel light c) index)"

definition sub_light_set :: "sub_chunk_light \<Rightarrow> light_channel \<Rightarrow> nat \<Rightarrow> nat \<Rightarrow> nat \<Rightarrow> u8 \<Rightarrow>
    light_storage_error + sub_chunk_light \<times> bool" where
  "sub_light_set light c x y z v =
     (case light_local_index x y z of
       None \<Rightarrow> Inl (Index_Out_Of_Range LIGHT_SAMPLES_PER_SUB_CHUNK)
     | Some index \<Rightarrow>
         and_then (light_set (sub_light_channel light c) index v) (\<lambda>(s, changed).
           Inr (set_sub_light_channel light c s, changed)))"

lemma push_or_nat: "(y::nat) < 2 ^ k \<Longrightarrow> push_bit k z OR y = z * 2 ^ k + y"
proof -
  assume "y < 2 ^ k"
  then have "take_bit k y = y" by (simp add: take_bit_nat_eq_self)
  then have "bit y n \<Longrightarrow> n < k" for n by (metis bit_take_bit_iff)
  then have "push_bit k z AND y = 0" by (auto intro!: bit_eqI simp: bit_simps) (metis not_less)
  then show ?thesis by (simp add: push_bit_eq_mult flip: disjunctive_add_eq_or)
qed

lemma light_local_index_eq:
  "light_local_index x y z = (if x < 16 \<and> y < 16 \<and> z < 16 then Some (256 * x + 16 * z + y) else None)"
proof (cases "x < 16 \<and> y < 16 \<and> z < 16")
  case True
  have "push_bit 8 x OR push_bit 4 z = push_bit 4 (push_bit 4 x OR z)" by (simp add: push_bit_or)
  then have "(push_bit 8 x OR push_bit 4 z) OR y = 256 * x + 16 * z + y"
    using True push_or_nat [of y 4 "push_bit 4 x OR z"] push_or_nat [of z 4 x] by simp
  then show ?thesis using True by (simp add: light_local_index_def)
qed (auto simp: light_local_index_def)


lemma digit16_inj:
  assumes "(y'::nat) < 16" and "y < 16"
  shows "16 * a' + y' = 16 * a + y \<longleftrightarrow> a' = a \<and> y' = y"
proof
  assume eq: "16 * a' + y' = 16 * a + y"
  have "(16 * a' + y') div 16 = a'" "(16 * a + y) div 16 = a" using assms by simp_all
  then have "a' = a" unfolding eq by simp
  then show "a' = a \<and> y' = y" using eq by simp
qed simp

lemma local_index_inj:
  "(y'::nat) < 16 \<Longrightarrow> y < 16 \<Longrightarrow> z' < 16 \<Longrightarrow> z < 16 \<Longrightarrow>
    256 * x' + 16 * z' + y' = 256 * x + 16 * z + y \<longleftrightarrow> (x', y', z') = (x, y, z)"
  using digit16_inj [of y' y "16 * x' + z'" "16 * x + z"] digit16_inj [of z' z x' x] by auto

lemma sub_light_get_set:
  assumes s: "sub_light_set light c x y z v = Inr (light', changed)"
    and wf: "light_wf (sub_light_channel light c)"
  shows "light_wf (sub_light_channel light' c)"
    and "sub_light_get light' c' x' y' z' =
      (if c' = c \<and> (x', y', z') = (x, y, z) then Some v else sub_light_get light c' x' y' z')"
proof -
  from s obtain s' where xyz: "x < 16" "y < 16" "z < 16"
    and r: "light_set (sub_light_channel light c) (256 * x + 16 * z + y) v = Inr (s', changed)"
    and l: "light' = set_sub_light_channel light c s'"
    by (auto simp: sub_light_set_def light_local_index_eq result_simps split: if_splits)
  have v: "v \<le> 15"
    using r by (auto simp: light_set_def light_set_without_collapse_def validate_light_def split: if_splits)
  have i: "256 * x + 16 * z + y < LIGHT_SAMPLES_PER_SUB_CHUNK" using xyz by simp
  have res: "light_set_result (sub_light_channel light c) (256 * x + 16 * z + y) v s'"
    using light_set_in_range [OF wf i v] r by (metis Inr_inject prod.inject)
  have s'c: "sub_light_channel light' c = s'"
    "c' \<noteq> c \<Longrightarrow> sub_light_channel light' c' = sub_light_channel light c'"
    unfolding l by (cases c; cases c'; simp add: sub_light_channel_def set_sub_light_channel_def)+
  show "light_wf (sub_light_channel light' c)" using res s'c(1) by (simp add: light_set_result_def)
  show "sub_light_get light' c' x' y' z' =
      (if c' = c \<and> (x', y', z') = (x, y, z) then Some v else sub_light_get light c' x' y' z')"
  proof (cases "c' = c \<and> x' < 16 \<and> y' < 16 \<and> z' < 16")
    case True
    have "256 * x' + 16 * z' + y' = 256 * x + 16 * z + y \<longleftrightarrow> (x', y', z') = (x, y, z)"
      using True xyz local_index_inj [of y' y z' z x' x] by blast
    then show ?thesis using True res s'c(1) by (simp add: sub_light_get_def light_local_index_eq light_set_result_def)
  next
    case False
    then show ?thesis using s'c(2) xyz by (auto simp: sub_light_get_def light_local_index_eq)
  qed
qed


subsection \<open>The properties of light storage\<close>

text \<open>
  C37. A write reports what it did and changes one sample: out of range values and cells are refused
  with the source's error (the value first), a write of the sample already there reports no change,
  and every other write leaves a well-formed channel whose samples are the old ones but for the one
  written.
\<close>

theorem light_write_exact:
  assumes "light_wf s"
  shows "case light_set s i v of
      Inl e \<Rightarrow> (e = Value_Out_Of_Range v \<and> v > 15) \<or>
        (e = Index_Out_Of_Range i \<and> v \<le> 15 \<and> i \<ge> LIGHT_SAMPLES_PER_SUB_CHUNK)
    | Inr (s', changed) \<Rightarrow> light_wf s' \<and> v \<le> 15 \<and> i < LIGHT_SAMPLES_PER_SUB_CHUNK \<and>
        (changed \<longleftrightarrow> light_get s i \<noteq> Some v) \<and> (\<not> changed \<longrightarrow> s' = s) \<and>
        light_get s' = (light_get s)(i := Some v)"
proof (cases "v \<le> 15 \<and> i < LIGHT_SAMPLES_PER_SUB_CHUNK")
  case True
  then obtain s' where s': "light_set s i v = Inr (s', light_get s i \<noteq> Some v)" "light_set_result s i v s'"
    using light_set_in_range [OF assms] by blast
  have "light_get s' = (light_get s)(i := Some v)"
  proof
    fix j show "light_get s' j = ((light_get s)(i := Some v)) j"
      using s'(2) True by (cases "j < LIGHT_SAMPLES_PER_SUB_CHUNK") (auto simp: light_set_result_def light_get_eq)
  qed
  moreover have "s' = s" if "light_get s i = Some v"
    using light_ext [of s' s] s'(2) assms that by (auto simp: light_set_result_def)
  ultimately show ?thesis using s' True by (auto simp: light_set_result_def)
next
  case False
  then show ?thesis
    by (auto simp: light_set_def light_set_without_collapse_def validate_light_def not_le)
qed

theorem light_write_exact_witness:
  "light_get (fst (projr (light_set (Light_Uniform 3) 7 9))) 7 = Some 9 \<and>
   light_get (fst (projr (light_set (Light_Uniform 3) 7 9))) 6 = Some 3"
proof -
  have wf: "light_wf (Light_Uniform 3)" by (simp add: light_wf_def)
  obtain s' c where s': "light_set (Light_Uniform 3) 7 9 = Inr (s', c)"
    by (rule light_set_in_range [OF wf, of 7 9]) simp_all
  have "light_get s' = (light_get (Light_Uniform 3))(7 := Some 9)"
    using light_write_exact [OF wf, of 9 7] by (simp add: s')
  then show ?thesis by (simp add: s' light_get_def)
qed

text \<open>
  C32. The whole-payload constructor of the solver and the public scalar writes build the same
  channel: writing the payload's 4096 samples one by one, in any order, into any well-formed channel
  gives exactly what the constructor builds, uniform or packed alike.
\<close>

theorem packed_light_is_scalar_writes:
  assumes "length bytes = PACKED_LIGHT_BYTES" and "light_wf s"
    and "distinct cells" and "set cells = {..<LIGHT_SAMPLES_PER_SUB_CHUNK}"
  shows "nibbles.write_all (map (\<lambda>i. (i, nibble bytes i)) cells) s = Inr (light_from_packed bytes)"
  by (rule nibbles.write_all_unique [OF assms(2) wf_from_packed(1) [OF assms(1)]])
    (use assms(3,4) wf_from_packed(2) [OF assms(1)] in \<open>simp_all add: comp_def image_image, auto\<close>)

theorem packed_light_is_scalar_writes_witness:
  "nibbles.write_all (map (\<lambda>i. (i, nibble (replicate PACKED_LIGHT_BYTES 0x3A) i)) [0..<4096]) (Light_Uniform 5) =
     Inr (light_from_packed (replicate PACKED_LIGHT_BYTES 0x3A))"
  by (rule packed_light_is_scalar_writes) (auto simp: light_wf_def)

end
