(* ===== verification/Section_Snapshot.thy ===== *)
theory Section_Snapshot
  imports Keys
begin

section \<open>Section snapshots\<close>

text \<open>
  \<^verbatim>\<open>crates/world/src/section_snapshot.rs\<close>: a small map from sections to handles that keeps seven
  entries inline and spills to a hash table.  A \<^verbatim>\<open>HashMap\<close> is modelled by the ordered listing of
  its entries: every reader below either looks a key up or treats the entries as a set.
\<close>

definition INLINE_SECTIONS :: usize where
  "INLINE_SECTIONS = 7"

record 'v section_snapshot =
  ss_inline :: "(sub_chunk_key \<times> 'v) option list"
  ss_overflow :: "(sub_chunk_key, 'v) btree_map option"

definition empty_snapshot :: "'v section_snapshot" where
  "empty_snapshot = \<lparr>ss_inline = replicate INLINE_SECTIONS None, ss_overflow = None\<rparr>"

text \<open>The first inline slot that is free or already holds the key takes the entry.\<close>

fun put_inline :: "sub_chunk_key \<Rightarrow> 'v \<Rightarrow> (sub_chunk_key \<times> 'v) option list \<Rightarrow>
    (sub_chunk_key \<times> 'v) option list option" where
  "put_inline k v [] = None"
| "put_inline k v (None # es) = Some (Some (k, v) # es)"
| "put_inline k v (Some (k', v') # es) =
     (if k' = k then Some (Some (k, v) # es) else map_option ((#) (Some (k', v'))) (put_inline k v es))"

definition snapshot_insert :: "sub_chunk_key \<Rightarrow> 'v \<Rightarrow> 'v section_snapshot \<Rightarrow> 'v section_snapshot" where
  "snapshot_insert k v s = (case ss_overflow s of
     Some m \<Rightarrow> s\<lparr>ss_overflow := Some (bt_insert k v m)\<rparr>
   | None \<Rightarrow> (case put_inline k v (ss_inline s) of
       Some es \<Rightarrow> s\<lparr>ss_inline := es\<rparr>
     | None \<Rightarrow> \<lparr>ss_inline = map (\<lambda>_. None) (ss_inline s),
                ss_overflow = Some (bt_insert k v (bt_extend bt_empty (flatten (ss_inline s))))\<rparr>))"

fun inline_position :: "sub_chunk_key \<Rightarrow> (sub_chunk_key \<times> 'v) option list \<Rightarrow> usize option" where
  "inline_position k [] = None"
| "inline_position k (e # es) =
     (if (case e of None \<Rightarrow> False | Some (old, _) \<Rightarrow> old = k) then Some 0
      else map_option Suc (inline_position k es))"

definition snapshot_remove :: "sub_chunk_key \<Rightarrow> 'v section_snapshot \<Rightarrow> 'v section_snapshot \<times> 'v option" where
  "snapshot_remove k s = (case ss_overflow s of
     Some m \<Rightarrow> (s\<lparr>ss_overflow := Some (bt_remove k m)\<rparr>, bt_get m k)
   | None \<Rightarrow> (case inline_position k (ss_inline s) of
       None \<Rightarrow> (s, None)
     | Some index \<Rightarrow> (case ss_inline s ! index of
         None \<Rightarrow> (s, None)
       | Some (_, v) \<Rightarrow>
           let taken = (ss_inline s)[index := None]
           in (s\<lparr>ss_inline := take index taken @ rotate1 (drop index taken)\<rparr>, Some v))))"

definition snapshot_get :: "'v section_snapshot \<Rightarrow> sub_chunk_key \<Rightarrow> 'v option" where
  "snapshot_get s k = (case ss_overflow s of
     Some m \<Rightarrow> bt_get m k
   | None \<Rightarrow> map_option snd (find (\<lambda>(old, _). old = k) (flatten (ss_inline s))))"

text \<open>Writing through \<^verbatim>\<open>get_mut\<close>: the entry of the key, if any, gets the new value.\<close>

definition set_entry :: "sub_chunk_key \<Rightarrow> 'v \<Rightarrow> (sub_chunk_key \<times> 'v) option \<Rightarrow> (sub_chunk_key \<times> 'v) option" where
  "set_entry k v e = map_option (\<lambda>(old, u). (old, if old = k then v else u)) e"

definition snapshot_replace :: "sub_chunk_key \<Rightarrow> 'v \<Rightarrow> 'v section_snapshot \<Rightarrow> 'v section_snapshot option" where
  "snapshot_replace k v s = (case ss_overflow s of
     Some m \<Rightarrow> (if bt_contains m k then Some (s\<lparr>ss_overflow := Some (bt_insert k v m)\<rparr>) else None)
   | None \<Rightarrow> (case inline_position k (ss_inline s) of
       None \<Rightarrow> None
     | Some index \<Rightarrow> Some (s\<lparr>ss_inline := (ss_inline s)[index := set_entry k v (ss_inline s ! index)]\<rparr>)))"

definition snapshot_contains_key :: "'v section_snapshot \<Rightarrow> sub_chunk_key \<Rightarrow> bool" where
  "snapshot_contains_key s k \<longleftrightarrow> snapshot_get s k \<noteq> None"

definition snapshot_iter :: "'v section_snapshot \<Rightarrow> (sub_chunk_key \<times> 'v) list" where
  "snapshot_iter s = flatten (ss_inline s) @ (case ss_overflow s of None \<Rightarrow> [] | Some m \<Rightarrow> m)"

definition snapshot_values :: "'v section_snapshot \<Rightarrow> 'v list" where
  "snapshot_values s = map snd (snapshot_iter s)"

definition snapshot_extend :: "'v section_snapshot \<Rightarrow> (sub_chunk_key \<times> 'v) list \<Rightarrow> 'v section_snapshot" where
  "snapshot_extend s entries = fold (\<lambda>(k, v). snapshot_insert k v) entries s"

definition snapshot_collect :: "(sub_chunk_key \<times> 'v) list \<Rightarrow> 'v section_snapshot" where
  "snapshot_collect entries = snapshot_extend empty_snapshot entries"

subsection \<open>It is a map\<close>

text \<open>The entries of a snapshot: the filled inline slots come first and have distinct keys, or the
  inline slots are empty and the table holds them.\<close>

definition packed_slots :: "(sub_chunk_key \<times> 'v) list \<Rightarrow> (sub_chunk_key \<times> 'v) option list" where
  "packed_slots kvs = map Some kvs @ replicate (INLINE_SECTIONS - length kvs) None"

definition snapshot_wf :: "'v section_snapshot \<Rightarrow> bool" where
  "snapshot_wf s \<longleftrightarrow> (case ss_overflow s of
     Some m \<Rightarrow> ss_inline s = replicate INLINE_SECTIONS None \<and> bt_invar m
   | None \<Rightarrow> \<exists>kvs. length kvs \<le> INLINE_SECTIONS \<and> distinct (map fst kvs) \<and> ss_inline s = packed_slots kvs)"

lemma flatten_simps [simp]:
  "flatten [] = []" "flatten (None # es) = flatten es" "flatten (Some x # es) = x # flatten es"
  by (simp_all add: flatten_def)

lemma flatten_append [simp]: "flatten (xs @ ys) = flatten xs @ flatten ys"
  by (induction xs) (simp_all add: flatten_def List.map_filter_def)

lemma flatten_none [simp]: "flatten (replicate n None) = []"
  by (induction n) simp_all

lemma flatten_some [simp]: "flatten (map Some xs) = xs"
  by (induction xs) simp_all

lemma flatten_packed [simp]: "flatten (packed_slots kvs) = kvs"
  by (simp add: packed_slots_def)

lemma find_map_of: "map_option snd (find (\<lambda>(old, _). old = k) kvs) = map_of kvs k"
  by (induction kvs) auto

text \<open>Replacing the value of a key that is present, or adding it last.\<close>

definition put_last :: "'k \<Rightarrow> 'v \<Rightarrow> ('k \<times> 'v) list \<Rightarrow> ('k \<times> 'v) list" where
  "put_last k v kvs =
     (if k \<in> fst ` set kvs then map (\<lambda>(old, u). (old, if old = k then v else u)) kvs else kvs @ [(k, v)])"

lemma put_last_keys: "map fst (put_last k v kvs) = (if k \<in> fst ` set kvs then map fst kvs else map fst kvs @ [k])"
  by (auto simp: put_last_def comp_def)

lemma put_last_distinct: "distinct (map fst kvs) \<Longrightarrow> distinct (map fst (put_last k v kvs))"
  by (auto simp: put_last_keys)

lemma map_of_put_last: "map_of (put_last k v kvs) = (map_of kvs)(k \<mapsto> v)"
proof (cases "k \<in> fst ` set kvs")
  case True
  have "map_of (map (\<lambda>(old, u). (old, if old = k then v else u)) kvs) j =
      (if j = k then map_option (\<lambda>_. v) (map_of kvs j) else map_of kvs j)" for j
    by (induction kvs) auto
  moreover obtain u where "map_of kvs k = Some u" using True by (metis map_of_eq_None_iff option.exhaust)
  ultimately show ?thesis using True by (auto simp: put_last_def)
next
  case False
  then have "map_of kvs k = None" by (simp add: map_of_eq_None_iff)
  then show ?thesis using False by (auto simp: put_last_def map_add_def split: option.splits)
qed

lemma put_inline_filled:
  "distinct (map fst kvs) \<Longrightarrow>
    put_inline k v (map Some kvs @ es) =
      (if k \<in> fst ` set kvs then Some (map Some (put_last k v kvs) @ es)
       else map_option ((@) (map Some kvs)) (put_inline k v es))"
proof (induction kvs)
  case (Cons x kvs)
  obtain k' v' where x: "x = (k', v')" by fastforce
  have nochange: "map (\<lambda>(old, u). (old, if old = k then v else u)) kvs = kvs" if "k \<notin> fst ` set kvs"
    using that by (intro map_idI) force
  show ?case
  proof (cases "k' = k")
    case True
    then show ?thesis using Cons.prems nochange by (simp add: x put_last_def comp_def)
  next
    case False
    then show ?thesis using Cons
      by (auto simp: x put_last_def option.map_comp comp_def)
  qed
next
  case Nil
  show ?case by (cases "put_inline k v es") simp_all
qed

lemma put_inline_packed:
  assumes "distinct (map fst kvs)" and "length kvs \<le> INLINE_SECTIONS"
  shows "put_inline k v (packed_slots kvs) =
    (if length (put_last k v kvs) \<le> INLINE_SECTIONS then Some (packed_slots (put_last k v kvs)) else None)"
proof (cases "k \<in> fst ` set kvs")
  case True
  then show ?thesis using assms by (simp add: packed_slots_def put_inline_filled put_last_def)
next
  case False
  show ?thesis
  proof (cases "length kvs = INLINE_SECTIONS")
    case True
    then show ?thesis
      using False assms(1) put_inline_filled [of kvs k v "[]"] by (simp add: packed_slots_def put_last_def)
  next
    case free: False
    then obtain m where "INLINE_SECTIONS - length kvs = Suc m" using assms(2) by (metis diff_diff_cancel diff_zero not0_implies_Suc)
    then show ?thesis using False assms free
      by (simp add: packed_slots_def put_inline_filled put_last_def)
  qed
qed


text \<open>The shapes of a well-formed snapshot.\<close>

lemma snapshot_cases:
  assumes "snapshot_wf s"
  obtains (inline) kvs where "s = \<lparr>ss_inline = packed_slots kvs, ss_overflow = None\<rparr>"
      "length kvs \<le> INLINE_SECTIONS" "distinct (map fst kvs)" "snapshot_get s = map_of kvs"
      "snapshot_iter s = kvs"
    | (table) m where "s = \<lparr>ss_inline = replicate INLINE_SECTIONS None, ss_overflow = Some m\<rparr>"
      "bt_invar m" "snapshot_get s = bt_get m" "snapshot_iter s = m"
proof (cases "ss_overflow s")
  case None
  then obtain kvs where kvs: "length kvs \<le> INLINE_SECTIONS" "distinct (map fst kvs)" "ss_inline s = packed_slots kvs"
    using assms by (auto simp: snapshot_wf_def)
  have "snapshot_get s = map_of kvs"
    by (rule ext) (simp add: snapshot_get_def None kvs(3) find_map_of)
  then show ?thesis using inline [of kvs] kvs None by (simp add: snapshot_iter_def)
next
  case (Some m)
  then have m: "ss_inline s = replicate INLINE_SECTIONS None" "bt_invar m" using assms by (simp_all add: snapshot_wf_def)
  have "snapshot_get s = bt_get m" by (rule ext) (simp add: snapshot_get_def Some)
  then show ?thesis using table [of m] m Some by (simp add: snapshot_iter_def)
qed

lemma wf_inline:
  assumes "length kvs \<le> INLINE_SECTIONS" and "distinct (map fst kvs)"
  shows "snapshot_wf \<lparr>ss_inline = packed_slots kvs, ss_overflow = None\<rparr>"
    and "snapshot_get \<lparr>ss_inline = packed_slots kvs, ss_overflow = None\<rparr> = map_of kvs"
  using assms by (auto simp: snapshot_wf_def snapshot_get_def find_map_of)

lemma wf_table:
  assumes "bt_invar m"
  shows "snapshot_wf \<lparr>ss_inline = replicate INLINE_SECTIONS None, ss_overflow = Some m\<rparr>"
    and "snapshot_get \<lparr>ss_inline = replicate INLINE_SECTIONS None, ss_overflow = Some m\<rparr> = bt_get m"
  using assms by (auto simp: snapshot_wf_def snapshot_get_def)

lemma bt_get_extend_distinct:
  "bt_invar m \<Longrightarrow> distinct (map fst kvs) \<Longrightarrow>
    bt_get (bt_extend m kvs) k = (case map_of kvs k of None \<Rightarrow> bt_get m k | Some v \<Rightarrow> Some v)"
proof (induction kvs arbitrary: m)
  case (Cons x kvs)
  obtain k' v' where x: "x = (k', v')" by fastforce
  have "bt_extend m (x # kvs) = bt_extend (bt_insert k' v' m) kvs" by (simp add: bt_extend_def x)
  then show ?case
    using Cons.IH [OF bt_invar_insert [OF Cons.prems(1)], of k' v'] Cons.prems(2)
      bt_get_insert [OF Cons.prems(1), of k' v' k] map_of_eq_None_iff [of kvs k']
    by (auto simp: x split: option.splits)
qed (simp add: bt_extend_def)

lemma snapshot_insert_spec:
  assumes "snapshot_wf s"
  shows "snapshot_wf (snapshot_insert k v s)" "snapshot_get (snapshot_insert k v s) = (snapshot_get s)(k \<mapsto> v)"
proof -
  have "snapshot_wf (snapshot_insert k v s) \<and> snapshot_get (snapshot_insert k v s) = (snapshot_get s)(k \<mapsto> v)"
    using assms
  proof (cases rule: snapshot_cases)
    case (table m)
    have "snapshot_insert k v s = \<lparr>ss_inline = replicate INLINE_SECTIONS None, ss_overflow = Some (bt_insert k v m)\<rparr>"
      by (simp add: snapshot_insert_def table(1))
    moreover have "bt_get (bt_insert k v m) = (bt_get m)(k \<mapsto> v)"
      by (rule ext) (simp add: bt_get_insert [OF table(2)])
    ultimately show ?thesis using wf_table [OF bt_invar_insert [OF table(2)], of k v] table(3) by simp
  next
    case (inline kvs)
    note put = put_inline_packed [OF inline(3,2), of k v]
    show ?thesis
    proof (cases "length (put_last k v kvs) \<le> INLINE_SECTIONS")
      case True
      then have "snapshot_insert k v s = \<lparr>ss_inline = packed_slots (put_last k v kvs), ss_overflow = None\<rparr>"
        using put by (simp add: snapshot_insert_def inline(1))
      then show ?thesis
        using wf_inline [OF True put_last_distinct [OF inline(3)]] inline(4) by (simp add: map_of_put_last)
    next
      case False
      define m where "m = bt_insert k v (bt_extend bt_empty kvs)"
      have len: "map (\<lambda>_. None) (packed_slots kvs) = replicate INLINE_SECTIONS None"
        using inline(2) by (simp add: packed_slots_def map_replicate_const flip: replicate_add)
      have s': "snapshot_insert k v s = \<lparr>ss_inline = replicate INLINE_SECTIONS None, ss_overflow = Some m\<rparr>"
        using False put by (simp add: snapshot_insert_def inline(1) m_def len)
      have inv: "bt_invar (bt_extend bt_empty kvs)" by simp
      have "bt_get m j = ((map_of kvs)(k \<mapsto> v)) j" for j
        unfolding m_def bt_get_insert [OF inv]
        using bt_get_extend_distinct [OF bt.invar_empty inline(3), of j] by (auto split: option.splits)
      then have "bt_get m = (map_of kvs)(k \<mapsto> v)" by (rule ext)
      then show ?thesis using s' wf_table [of m] inv inline(4) by (simp add: m_def)
    qed
  qed
  then show "snapshot_wf (snapshot_insert k v s)" "snapshot_get (snapshot_insert k v s) = (snapshot_get s)(k \<mapsto> v)"
    by simp_all
qed


lemma inline_position_absent:
  "k \<notin> fst ` set kvs \<Longrightarrow> inline_position k (packed_slots kvs) = None"
proof -
  have "inline_position k (replicate n None) = None" for n by (induction n) auto
  then have "k \<notin> fst ` set kvs \<Longrightarrow> inline_position k (map Some kvs @ replicate n None) = None" for n
    by (induction kvs) auto
  then show "k \<notin> fst ` set kvs \<Longrightarrow> inline_position k (packed_slots kvs) = None" by (simp add: packed_slots_def)
qed

lemma inline_position_present:
  "k \<notin> fst ` set xs \<Longrightarrow> inline_position k (packed_slots (xs @ (k, v) # ys)) = Some (length xs)"
proof -
  have "k \<notin> fst ` set xs \<Longrightarrow> inline_position k (map Some xs @ Some (k, v) # es) = Some (length xs)" for es
    by (induction xs) auto
  then show "k \<notin> fst ` set xs \<Longrightarrow> inline_position k (packed_slots (xs @ (k, v) # ys)) = Some (length xs)"
    by (simp add: packed_slots_def)
qed

lemma packed_slots_split:
  assumes "length (xs @ (k, v) # ys) \<le> INLINE_SECTIONS"
  shows "packed_slots (xs @ (k, v) # ys) =
      map Some xs @ Some (k, v) # map Some ys @ replicate (INLINE_SECTIONS - length (xs @ (k, v) # ys)) None"
    and "map Some xs @ map Some ys @ replicate (INLINE_SECTIONS - length (xs @ (k, v) # ys)) None @ [None] =
      packed_slots (xs @ ys)"
proof -
  define n where "n = INLINE_SECTIONS - length (xs @ (k, v) # ys)"
  have "INLINE_SECTIONS - length (xs @ ys) = Suc n" using assms by (simp add: n_def)
  then have "packed_slots (xs @ ys) = map Some xs @ map Some ys @ replicate (Suc n) None"
    by (simp add: packed_slots_def)
  also have "replicate (Suc n) None = replicate n None @ [None]" by (simp add: replicate_append_same)
  finally show "map Some xs @ map Some ys @ replicate (INLINE_SECTIONS - length (xs @ (k, v) # ys)) None @ [None] =
      packed_slots (xs @ ys)"
    by (simp only: n_def)
qed (simp add: packed_slots_def)

lemma key_split:
  assumes "k \<in> fst ` set kvs"
  obtains xs v ys where "kvs = xs @ (k, v) # ys" "k \<notin> fst ` set xs"
proof -
  obtain x where "x \<in> set kvs" "fst x = k" using assms by force
  then obtain ys zs y where "kvs = ys @ y # zs" "fst y = k" "\<forall>z\<in>set ys. fst z \<noteq> k"
    using split_list_first_prop [of kvs "\<lambda>x. fst x = k"] by blast
  then show ?thesis using that [of ys "snd y" zs] by (cases y) auto
qed

lemma snapshot_remove_spec:
  assumes "snapshot_wf s"
  shows "snapshot_wf (fst (snapshot_remove k s))" "snapshot_get (fst (snapshot_remove k s)) = (snapshot_get s)(k := None)"
    "snd (snapshot_remove k s) = snapshot_get s k"
proof -
  have "snapshot_wf (fst (snapshot_remove k s)) \<and>
      snapshot_get (fst (snapshot_remove k s)) = (snapshot_get s)(k := None) \<and>
      snd (snapshot_remove k s) = snapshot_get s k"
    using assms
  proof (cases rule: snapshot_cases)
    case (table m)
    have "snapshot_remove k s =
        (\<lparr>ss_inline = replicate INLINE_SECTIONS None, ss_overflow = Some (bt_remove k m)\<rparr>, bt_get m k)"
      by (simp add: snapshot_remove_def table(1))
    moreover have "bt_get (bt_remove k m) = (bt_get m)(k := None)"
      by (rule ext) (simp add: bt.lookup_remove [OF table(2)])
    ultimately show ?thesis using wf_table [OF bt.invar_remove [OF table(2)], of k] table(3) by simp
  next
    case (inline kvs)
    show ?thesis
    proof (cases "k \<in> fst ` set kvs")
      case False
      then have "snapshot_remove k s = (s, None)"
        by (simp add: snapshot_remove_def inline(1) inline_position_absent)
      moreover have "map_of kvs k = None" using False by (simp add: map_of_eq_None_iff)
      ultimately show ?thesis using assms inline(4) by (auto simp: fun_upd_idem)
    next
      case True
      then obtain xs v ys where kvs: "kvs = xs @ (k, v) # ys" "k \<notin> fst ` set xs" by (rule key_split)
      note split = packed_slots_split [OF inline(2) [unfolded kvs(1)]]
      have ys: "k \<notin> fst ` set ys" and dist: "distinct (map fst (xs @ ys))" using inline(3) by (auto simp: kvs(1))
      have "snapshot_remove k s = (\<lparr>ss_inline = packed_slots (xs @ ys), ss_overflow = None\<rparr>, Some v)"
        using inline_position_present [OF kvs(2), of v ys] split
        by (simp add: snapshot_remove_def inline(1) kvs(1) nth_append Let_def list_update_append)
      moreover have "map_of xs k = None" "map_of ys k = None" using kvs(2) ys by (simp_all add: map_of_eq_None_iff)
      then have "map_of (xs @ ys) = (map_of kvs)(k := None)" "map_of kvs k = Some v"
        by (auto simp: kvs(1) fun_eq_iff map_add_def split: option.splits)
      ultimately show ?thesis
        using wf_inline [OF _ dist] inline(2,4) by (simp add: kvs(1))
    qed
  qed
  then show "snapshot_wf (fst (snapshot_remove k s))" "snapshot_get (fst (snapshot_remove k s)) = (snapshot_get s)(k := None)"
    "snd (snapshot_remove k s) = snapshot_get s k"
    by simp_all
qed

lemma snapshot_replace_spec:
  assumes "snapshot_wf s"
  shows "case snapshot_replace k v s of
      None \<Rightarrow> snapshot_get s k = None
    | Some s' \<Rightarrow> snapshot_get s k \<noteq> None \<and> snapshot_wf s' \<and> snapshot_get s' = (snapshot_get s)(k \<mapsto> v)"
  using assms
proof (cases rule: snapshot_cases)
  case (table m)
  have "bt_get (bt_insert k v m) = (bt_get m)(k \<mapsto> v)"
    by (rule ext) (simp add: bt_get_insert [OF table(2)])
  then show ?thesis
    using wf_table [OF bt_invar_insert [OF table(2)], of k v] table(3)
    by (simp add: snapshot_replace_def table(1) bt_contains_def)
next
  case (inline kvs)
  show ?thesis
  proof (cases "k \<in> fst ` set kvs")
    case False
    then show ?thesis
      by (simp add: snapshot_replace_def inline(1) inline_position_absent wf_inline inline(2,3) map_of_eq_None_iff)
  next
    case True
    then obtain xs u ys where kvs: "kvs = xs @ (k, u) # ys" "k \<notin> fst ` set xs" by (rule key_split)
    note split = packed_slots_split [OF inline(2) [unfolded kvs(1)]]
    have len: "length (xs @ (k, v) # ys) \<le> INLINE_SECTIONS" using inline(2) by (simp add: kvs(1))
    have dist: "distinct (map fst (xs @ (k, v) # ys))" using inline(3) by (simp add: kvs(1))
    have "snapshot_replace k v s = Some \<lparr>ss_inline = packed_slots (xs @ (k, v) # ys), ss_overflow = None\<rparr>"
      using inline_position_present [OF kvs(2), of u ys] split packed_slots_split(1) [OF len]
      by (simp add: snapshot_replace_def inline(1) kvs(1) nth_append list_update_append set_entry_def)
    moreover have "map_of xs k = None" "map_of ys k = None" using inline(3) by (auto simp: kvs(1) map_of_eq_None_iff)
    then have "map_of (xs @ (k, v) # ys) = (map_of kvs)(k \<mapsto> v)" "map_of kvs k = Some u"
      by (auto simp: kvs(1) fun_eq_iff map_add_def split: option.splits)
    ultimately show ?thesis using wf_inline [OF len dist] inline(4) by simp
  qed
qed

lemma snapshot_iter_spec:
  assumes "snapshot_wf s"
  shows "distinct (map fst (snapshot_iter s))" "map_of (snapshot_iter s) = snapshot_get s"
  using assms
  by (cases rule: snapshot_cases; auto simp: bt_invar_def bt_keys_def strict_sorted_iff bt_get_def fun_eq_iff)+

lemma empty_snapshot_spec [simp]: "snapshot_wf empty_snapshot" "snapshot_get empty_snapshot = Map.empty"
  using wf_inline [of "[]"] by (simp_all add: packed_slots_def empty_snapshot_def)

lemma snapshot_extend_spec:
  assumes "snapshot_wf s"
  shows "snapshot_wf (snapshot_extend s kvs)" "snapshot_get (snapshot_extend s kvs) = snapshot_get s ++ map_of (rev kvs)"
proof -
  have "snapshot_wf (snapshot_extend s kvs) \<and> snapshot_get (snapshot_extend s kvs) = snapshot_get s ++ map_of (rev kvs)"
    using assms
  proof (induction kvs arbitrary: s)
    case (Cons x kvs)
    obtain k v where x: "x = (k, v)" by fastforce
    have "snapshot_extend s (x # kvs) = snapshot_extend (snapshot_insert k v s) kvs"
      by (simp add: snapshot_extend_def x)
    then show ?case using Cons.IH [OF snapshot_insert_spec(1) [OF Cons.prems, of k v]]
      by (simp add: snapshot_insert_spec(2) [OF Cons.prems] x map_add_upd_left flip: map_add_upd) (auto simp: fun_eq_iff map_add_def split: option.splits)
  qed (simp add: snapshot_extend_def)
  then show "snapshot_wf (snapshot_extend s kvs)" "snapshot_get (snapshot_extend s kvs) = snapshot_get s ++ map_of (rev kvs)"
    by simp_all
qed

end
