(* ===== verification/Light_Store.thy ===== *)
theory Light_Store
  imports Light_Storage Section_Snapshot
begin

section \<open>The light store\<close>

text \<open>
  \<^verbatim>\<open>LightStore\<close> and \<^verbatim>\<open>LightStoreSnapshot\<close> of \<^verbatim>\<open>crates/world/src/light.rs\<close>: which sections have
  known light, their light volumes, the commit of a solve against the generation it started from, and
  the snapshots worker jobs read.  The store's \<^verbatim>\<open>HashMap\<close> is modelled by its ordered listing.
\<close>

datatype light_sub_chunk_kind = Light_Unknown | Light_Known_Air | Light_Resident

record stored_light =
  stl_kind :: light_sub_chunk_kind
  stl_light :: sub_chunk_light

type_synonym light_snapshot = "stored_light section_snapshot"

definition snapshot_kind :: "light_snapshot \<Rightarrow> sub_chunk_key \<Rightarrow> light_sub_chunk_kind" where
  "snapshot_kind s key = (case snapshot_get s key of None \<Rightarrow> Light_Unknown | Some e \<Rightarrow> stl_kind e)"

definition snapshot_light :: "light_snapshot \<Rightarrow> sub_chunk_key \<Rightarrow> sub_chunk_light option" where
  "snapshot_light s key = map_option stl_light (snapshot_get s key)"

definition replace_known_light :: "light_snapshot \<Rightarrow> sub_chunk_key \<Rightarrow> sub_chunk_light \<Rightarrow> light_snapshot \<times> bool" where
  "replace_known_light s key light =
     (case snapshot_get s key of
       None \<Rightarrow> (s, False)
     | Some e \<Rightarrow> (case snapshot_replace key (e\<lparr>stl_light := light\<rparr>) s of
         None \<Rightarrow> (s, False)
       | Some s' \<Rightarrow> (s', True)))"

definition merge_light :: "light_snapshot \<Rightarrow> light_snapshot \<Rightarrow> light_snapshot" where
  "merge_light s other = snapshot_extend s (snapshot_iter other)"

type_synonym light_store = "(sub_chunk_key, stored_light) btree_map"

definition light_kind :: "light_store \<Rightarrow> sub_chunk_key \<Rightarrow> light_sub_chunk_kind" where
  "light_kind st key = (case bt_get st key of None \<Rightarrow> Light_Unknown | Some e \<Rightarrow> stl_kind e)"

definition store_light :: "light_store \<Rightarrow> sub_chunk_key \<Rightarrow> sub_chunk_light option" where
  "store_light st key = map_option stl_light (bt_get st key)"

definition light_entry :: "light_store \<Rightarrow> sub_chunk_key \<Rightarrow> (light_sub_chunk_kind \<times> sub_chunk_light) option" where
  "light_entry st key = map_option (\<lambda>e. (stl_kind e, stl_light e)) (bt_get st key)"

definition insert_light :: "light_store \<Rightarrow> sub_chunk_key \<Rightarrow> light_sub_chunk_kind \<Rightarrow> sub_chunk_light \<Rightarrow> light_store" where
  "insert_light st key kind light = bt_insert key \<lparr>stl_kind = kind, stl_light = light\<rparr> st"

definition insert_known_air :: "light_store \<Rightarrow> sub_chunk_key \<Rightarrow> sub_chunk_light \<Rightarrow> light_store" where
  "insert_known_air st key light = insert_light st key Light_Known_Air light"

definition insert_resident :: "light_store \<Rightarrow> sub_chunk_key \<Rightarrow> sub_chunk_light \<Rightarrow> light_store" where
  "insert_resident st key light = insert_light st key Light_Resident light"

definition commit_if_generation ::
    "light_store \<Rightarrow> sub_chunk_key \<Rightarrow> u64 option \<Rightarrow> sub_chunk_light \<Rightarrow> light_store \<times> bool" where
  "commit_if_generation st key expected replacement =
     (let current = map_option sl_generation (store_light st key)
      in if current \<noteq> expected then (st, False)
         else let kind = light_kind st key
              in if kind = Light_Unknown then (st, False)
                 else (insert_light st key kind replacement, True))"

definition light_store_snapshot :: "light_store \<Rightarrow> light_snapshot" where
  "light_store_snapshot st = snapshot_collect st"

definition light_snapshot_keys :: "light_store \<Rightarrow> sub_chunk_key list \<Rightarrow> light_snapshot" where
  "light_snapshot_keys st keys =
     snapshot_collect (List.map_filter (\<lambda>key. map_option (\<lambda>e. (key, e)) (bt_get st key)) keys)"

definition remove_light :: "light_store \<Rightarrow> sub_chunk_key \<Rightarrow> light_store \<times> bool" where
  "remove_light st key = (bt_remove key st, bt_get st key \<noteq> None)"

definition evict_light_chunk :: "light_store \<Rightarrow> chunk_key \<Rightarrow> light_store \<times> sub_chunk_key list" where
  "evict_light_chunk st key =
     (let removed = sort (filter (\<lambda>candidate. sk_chunk candidate = key) (bt_keys st))
      in (fold bt_remove removed st, removed))"

subsection \<open>The store's invariant\<close>

text \<open>No stored entry is of unknown kind, and every channel is well-formed.\<close>

definition stored_light_wf :: "stored_light \<Rightarrow> bool" where
  "stored_light_wf e \<longleftrightarrow> stl_kind e \<noteq> Light_Unknown \<and> light_wf (sl_block (stl_light e)) \<and> light_wf (sl_sky (stl_light e))"

definition light_store_wf :: "light_store \<Rightarrow> bool" where
  "light_store_wf st \<longleftrightarrow> bt_invar st \<and> (\<forall>k e. bt_get st k = Some e \<longrightarrow> stored_light_wf e)"

lemma light_store_insert_wf:
  assumes "light_store_wf st" and "kind \<noteq> Light_Unknown" "light_wf (sl_block light)" "light_wf (sl_sky light)"
  shows "light_store_wf (insert_light st key kind light)"
  using assms by (auto simp: light_store_wf_def insert_light_def bt_get_insert stored_light_wf_def split: if_splits)

lemma light_store_remove_wf: "light_store_wf st \<Longrightarrow> light_store_wf (bt_remove key st)"
  by (auto simp: light_store_wf_def bt.lookup_remove split: if_splits)

lemma fold_remove:
  "bt_invar st \<Longrightarrow> bt_invar (fold bt_remove ks st) \<and>
    bt_get (fold bt_remove ks st) = (bt_get st) |` (- set ks)"
proof (induction ks arbitrary: st)
  case (Cons k ks)
  have "bt_get (bt_remove k st) = (bt_get st) |` (- {k})"
    by (rule ext) (simp add: bt.lookup_remove [OF Cons.prems] restrict_map_def)
  moreover have "- {k} \<inter> - set ks = - set (k # ks)" by auto
  ultimately show ?case using Cons.IH [OF bt.invar_remove [OF Cons.prems, of k]] by simp
qed (simp add: restrict_map_def)

lemma collect_spec:
  "snapshot_wf (snapshot_collect kvs)" "snapshot_get (snapshot_collect kvs) = map_of (rev kvs)"
  by (simp_all add: snapshot_collect_def snapshot_extend_spec)

lemma map_of_captured:
  "map_of (List.map_filter (\<lambda>key. map_option (\<lambda>e. (key, e)) (m key)) keys) k = (if k \<in> set keys then m k else None)"
  by (induction keys) (auto simp: List.map_filter_def split: option.splits)

lemma map_filter_rev: "rev (List.map_filter f xs) = List.map_filter f (rev xs)"
  by (simp add: List.map_filter_def rev_map rev_filter)

lemma captured_keys_spec:
  "snapshot_get (light_snapshot_keys st keys) k = (if k \<in> set keys then bt_get st k else None)"
  by (simp add: light_snapshot_keys_def collect_spec map_filter_rev map_of_captured)

lemma map_of_rev_distinct: "distinct (map fst kvs) \<Longrightarrow> map_of (rev kvs) = map_of kvs"
  by (subst map_of_inject_set) (simp_all add: rev_map [symmetric])

lemma whole_snapshot_spec: "bt_invar st \<Longrightarrow> snapshot_get (light_store_snapshot st) = bt_get st"
  by (auto simp: light_store_snapshot_def collect_spec fun_eq_iff bt_get_def bt_invar_def bt_keys_def
      strict_sorted_iff map_of_rev_distinct)

lemma evict_light_spec:
  assumes "bt_invar st" and "evict_light_chunk st key = (st', removed)"
  shows "bt_invar st'" "bt_get st' = (bt_get st) |` {k. sk_chunk k \<noteq> key}"
    "sorted removed" "distinct removed" "set removed = {k. bt_get st k \<noteq> None \<and> sk_chunk k = key}"
proof -
  have r: "removed = sort (filter (\<lambda>candidate. sk_chunk candidate = key) (bt_keys st))"
    and st': "st' = fold bt_remove removed st"
    using assms(2) by (auto simp: evict_light_chunk_def Let_def)
  show set: "set removed = {k. bt_get st k \<noteq> None \<and> sk_chunk k = key}"
    by (auto simp: r bt_get_keys)
  show "bt_invar st'" "bt_get st' = (bt_get st) |` {k. sk_chunk k \<noteq> key}"
    using fold_remove [OF assms(1), of removed]
    by (auto simp: st' set restrict_map_def fun_eq_iff)
  show "sorted removed" "distinct removed" using bt.keys_distinct [OF assms(1)] by (simp_all add: r)
qed

subsection \<open>Histories of a snapshot\<close>

datatype 'v snapshot_op =
    Snap_Insert sub_chunk_key 'v
  | Snap_Remove sub_chunk_key
  | Snap_Replace sub_chunk_key 'v
  | Snap_Extend "(sub_chunk_key \<times> 'v) list"

definition run_snapshot_op :: "'v snapshot_op \<Rightarrow> 'v section_snapshot \<Rightarrow> 'v section_snapshot" where
  "run_snapshot_op op' s = (case op' of
     Snap_Insert k v \<Rightarrow> snapshot_insert k v s
   | Snap_Remove k \<Rightarrow> fst (snapshot_remove k s)
   | Snap_Replace k v \<Rightarrow> (case snapshot_replace k v s of None \<Rightarrow> s | Some s' \<Rightarrow> s')
   | Snap_Extend kvs \<Rightarrow> snapshot_extend s kvs)"

text \<open>What the operations mean on a map.\<close>

definition map_op :: "'v snapshot_op \<Rightarrow> (sub_chunk_key \<rightharpoonup> 'v) \<Rightarrow> (sub_chunk_key \<rightharpoonup> 'v)" where
  "map_op op' m = (case op' of
     Snap_Insert k v \<Rightarrow> m(k \<mapsto> v)
   | Snap_Remove k \<Rightarrow> m(k := None)
   | Snap_Replace k v \<Rightarrow> (if m k = None then m else m(k \<mapsto> v))
   | Snap_Extend kvs \<Rightarrow> m ++ map_of (rev kvs))"

lemma run_snapshot_op_refines:
  assumes "snapshot_wf s"
  shows "snapshot_wf (run_snapshot_op op' s)" "snapshot_get (run_snapshot_op op' s) = map_op op' (snapshot_get s)"
proof -
  have "snapshot_wf (run_snapshot_op op' s) \<and> snapshot_get (run_snapshot_op op' s) = map_op op' (snapshot_get s)"
  proof (cases op')
    case (Snap_Replace k v)
    then show ?thesis using assms snapshot_replace_spec [OF assms, of k v]
      by (cases "snapshot_replace k v s") (auto simp: run_snapshot_op_def map_op_def)
  qed (simp_all add: assms run_snapshot_op_def map_op_def snapshot_insert_spec snapshot_remove_spec snapshot_extend_spec)
  then show "snapshot_wf (run_snapshot_op op' s)" "snapshot_get (run_snapshot_op op' s) = map_op op' (snapshot_get s)"
    by blast+
qed

lemma run_snapshot_ops_refine:
  assumes "snapshot_wf s"
  shows "snapshot_wf (fold run_snapshot_op ops s) \<and>
    snapshot_get (fold run_snapshot_op ops s) = fold map_op ops (snapshot_get s)"
  using assms
proof (induction ops arbitrary: s)
  case (Cons op' ops)
  show ?case using Cons.IH [OF run_snapshot_op_refines(1) [OF Cons.prems]]
    by (simp add: run_snapshot_op_refines(2) [OF Cons.prems])
qed simp

subsection \<open>The properties of the light store\<close>

text \<open>
  C36. A section snapshot is a map, whatever its history: after any operations on the default
  snapshot, inline and spilled alike, a lookup sees the map those operations make, and iterating
  visits each entry of that map once.
\<close>

theorem section_snapshot_refines_map:
  "let s = fold run_snapshot_op ops empty_snapshot; m = fold map_op ops Map.empty
   in snapshot_get s = m \<and> distinct (map fst (snapshot_iter s)) \<and> map_of (snapshot_iter s) = m"
  using run_snapshot_ops_refine [of empty_snapshot ops]
    snapshot_iter_spec [of "fold run_snapshot_op ops empty_snapshot"]
  by (simp add: Let_def)

text \<open>
  C33. A solve commits only over the light it started from: the commit succeeds exactly when the
  section is still known and its stored generation is the expected one; then that section's light is
  the replacement under the same kind, and no other section changes.  A failed commit changes nothing.
\<close>

theorem light_commit_exact:
  assumes "light_store_wf st" and "commit_if_generation st key expected replacement = (st', committed)"
  shows "(committed \<longleftrightarrow> expected \<noteq> None \<and> map_option sl_generation (store_light st key) = expected) \<and>
    light_kind st' = light_kind st \<and>
    store_light st' = (if committed then (store_light st)(key \<mapsto> replacement) else store_light st)"
proof (intro conjI)
  have inv: "bt_invar st" and known: "\<And>e. bt_get st key = Some e \<Longrightarrow> stl_kind e \<noteq> Light_Unknown"
    using assms(1) by (auto simp: light_store_wf_def stored_light_wf_def)
  note d = commit_if_generation_def store_light_def light_kind_def insert_light_def
  show "committed \<longleftrightarrow> expected \<noteq> None \<and> map_option sl_generation (store_light st key) = expected"
    using assms(2) known by (auto simp: d Let_def split: if_splits option.splits)
  show "light_kind st' = light_kind st"
    using assms(2) by (auto simp: d Let_def fun_eq_iff bt_get_insert [OF inv] split: if_splits option.splits)
  show "store_light st' = (if committed then (store_light st)(key \<mapsto> replacement) else store_light st)"
    using assms(2) by (auto simp: d Let_def fun_eq_iff bt_get_insert [OF inv] split: if_splits option.splits)
qed

definition example_key :: sub_chunk_key where
  "example_key = Sub_Chunk_Key 0 1 (-4) 2"

theorem light_commit_exact_witness:
  "let st = insert_resident bt_empty example_key (sub_light_dark 7)
   in snd (commit_if_generation st example_key (Some 7) (sub_light_dark 8)) \<and>
      \<not> snd (commit_if_generation st example_key (Some 6) (sub_light_dark 8)) \<and>
      \<not> snd (commit_if_generation bt_empty example_key None (sub_light_dark 8))"
proof -
  define st where "st = insert_resident bt_empty example_key (sub_light_dark 7)"
  have empty: "light_store_wf bt_empty" by (simp add: light_store_wf_def)
  have wf: "light_store_wf st"
    unfolding st_def insert_resident_def
    by (rule light_store_insert_wf [OF empty]) (simp_all add: sub_light_dark_def light_wf_def)
  have "store_light st example_key = Some (sub_light_dark 7)"
    by (simp add: st_def insert_resident_def insert_light_def store_light_def bt_get_insert)
  then show ?thesis
    using conjunct1 [OF light_commit_exact [OF wf surjective_pairing, of example_key "Some 7" "sub_light_dark 8"]]
      conjunct1 [OF light_commit_exact [OF wf surjective_pairing, of example_key "Some 6" "sub_light_dark 8"]]
      conjunct1 [OF light_commit_exact [OF empty surjective_pairing, of example_key None "sub_light_dark 8"]]
    unfolding Let_def st_def [symmetric] by (simp add: sub_light_dark_def)
qed

end
