(* ===== verification/Light_Types.thy ===== *)
theory Light_Types
  imports Light_Store
begin

section \<open>The inputs of a light solve\<close>

text \<open>
  \<^verbatim>\<open>crates/world/src/light_solver/types.rs\<close>: block positions, the samples a solve reads, its bounds
  and the walk over them, limits and errors.  Light levels are \<^verbatim>\<open>u8\<close> values that the solver only
  compares, subtracts with saturation and joins by maximum, so they are natural numbers here.
\<close>

datatype block_pos = Block_Pos (bp_x: i32) (bp_y: i32) (bp_z: i32)

definition checked_offset :: "block_pos \<Rightarrow> i32 \<times> i32 \<times> i32 \<Rightarrow> block_pos option" where
  "checked_offset p offset = (case offset of (dx, dy, dz) \<Rightarrow> do {
     x \<leftarrow> checked_add_i32 (bp_x p) dx;
     y \<leftarrow> checked_add_i32 (bp_y p) dy;
     z \<leftarrow> checked_add_i32 (bp_z p) dz;
     Some (Block_Pos x y z) })"

record light_properties =
  lp_emission :: nat
  lp_filter :: nat

definition new_light_properties :: "nat \<Rightarrow> nat \<Rightarrow> light_storage_error + light_properties" where
  "new_light_properties emission filter' =
     (if emission > 15 then Inl (Value_Out_Of_Range (word_of_nat emission))
      else if filter' > 15 then Inl (Value_Out_Of_Range (word_of_nat filter'))
      else Inr \<lparr>lp_emission = emission, lp_filter = filter'\<rparr>)"

datatype light_block_sample = Sample_Unknown | Sample_Known_Air | Sample_Resident light_properties

definition sample_filter :: "light_block_sample \<Rightarrow> nat option" where
  "sample_filter s = (case s of
     Sample_Unknown \<Rightarrow> None | Sample_Known_Air \<Rightarrow> Some 0 | Sample_Resident p \<Rightarrow> Some (lp_filter p))"

definition sample_emission :: "light_block_sample \<Rightarrow> nat" where
  "sample_emission s = (case s of Sample_Resident p \<Rightarrow> lp_emission p | _ \<Rightarrow> 0)"

text \<open>\<^verbatim>\<open>LightBlockAccess\<close>: the block source of a solve.  A whole-section read is given a buffer of one
  section's samples and returns whether it filled it, and the buffer.  The last definitions are the
  trait's own methods, for a source that brings only its samples.\<close>

record light_block_access =
  ba_sample :: "block_pos \<Rightarrow> light_block_sample"
  ba_is_known :: "block_pos \<Rightarrow> bool"
  ba_sky_seed :: "block_pos \<Rightarrow> nat"
  ba_sample_section :: "sub_chunk_key \<Rightarrow> light_block_sample list \<Rightarrow> bool \<times> light_block_sample list"

definition default_is_known :: "(block_pos \<Rightarrow> light_block_sample) \<Rightarrow> block_pos \<Rightarrow> bool" where
  "default_is_known sample p \<longleftrightarrow> sample p \<noteq> Sample_Unknown"

definition default_sky_seed :: "block_pos \<Rightarrow> nat" where
  "default_sky_seed p = 0"

definition default_sample_section :: "sub_chunk_key \<Rightarrow> light_block_sample list \<Rightarrow> bool \<times> light_block_sample list" where
  "default_sample_section key out = (False, out)"

datatype light_profile = Overworld (direct_down_flag: bool) | Nether | The_End

definition allows_sky :: "light_profile \<Rightarrow> bool" where
  "allows_sky profile = (case profile of Overworld _ \<Rightarrow> True | _ \<Rightarrow> False)"

definition direct_sky_down :: "light_profile \<Rightarrow> bool" where
  "direct_sky_down profile = (case profile of Overworld b \<Rightarrow> b | _ \<Rightarrow> False)"

datatype light_solve_error =
    Invalid_Bounds
  | Voxel_Limit_Exceeded usize usize
  | Queue_Limit_Exceeded usize
  | Light_Value_Out_Of_Range nat

record light_bounds =
  lb_dimension :: i32
  lb_min :: block_pos
  lb_max :: block_pos

definition new_light_bounds :: "i32 \<Rightarrow> block_pos \<Rightarrow> block_pos \<Rightarrow> light_solve_error + light_bounds" where
  "new_light_bounds dimension mn mx =
     (if bp_x mn > bp_x mx \<or> bp_y mn > bp_y mx \<or> bp_z mn > bp_z mx then Inl Invalid_Bounds
      else Inr \<lparr>lb_dimension = dimension, lb_min = mn, lb_max = mx\<rparr>)"

definition bounds_contain :: "light_bounds \<Rightarrow> block_pos \<Rightarrow> bool" where
  "bounds_contain b p \<longleftrightarrow>
     bp_x p \<ge> bp_x (lb_min b) \<and> bp_x p \<le> bp_x (lb_max b) \<and>
     bp_y p \<ge> bp_y (lb_min b) \<and> bp_y p \<le> bp_y (lb_max b) \<and>
     bp_z p \<ge> bp_z (lb_min b) \<and> bp_z p \<le> bp_z (lb_max b)"

definition USIZE_MAX :: usize where
  "USIZE_MAX = 2 ^ 64 - 1"

definition checked_mul_i64 :: "int \<Rightarrow> int \<Rightarrow> int option" where
  "checked_mul_i64 a b =
     (if - (2 ^ 63) \<le> a * b \<and> a * b < 2 ^ 63 then Some (a * b) else None)"

definition bounds_volume :: "light_bounds \<Rightarrow> usize option" where
  "bounds_volume b =
     (let x = bp_x (lb_max b) - bp_x (lb_min b) + 1;
          y = bp_y (lb_max b) - bp_y (lb_min b) + 1;
          z = bp_z (lb_max b) - bp_z (lb_min b) + 1
      in do {
        xy \<leftarrow> checked_mul_i64 x y;
        xyz \<leftarrow> checked_mul_i64 xy z;
        (if 0 \<le> xyz then Some (nat xyz) else None) })"

subsection \<open>The walk over the bounds\<close>

record positions =
  ps_bounds :: light_bounds
  ps_next :: "block_pos option"
  ps_surface_only :: bool

definition positions_after :: "light_bounds \<Rightarrow> bool \<Rightarrow> block_pos \<Rightarrow> block_pos option" where
  "positions_after b surface_only current =
     (let mn = lb_min b; mx = lb_max b;
          interior_row = (surface_only \<and> bp_x current \<noteq> bp_x mn \<and> bp_x current \<noteq> bp_x mx \<and>
            bp_y current \<noteq> bp_y mn \<and> bp_y current \<noteq> bp_y mx)
      in if bp_z current < bp_z mx
         then Some (Block_Pos (bp_x current) (bp_y current) (if interior_row then bp_z mx else bp_z current + 1))
         else if bp_y current < bp_y mx then Some (Block_Pos (bp_x current) (bp_y current + 1) (bp_z mn))
         else if bp_x current < bp_x mx then Some (Block_Pos (bp_x current + 1) (bp_y mn) (bp_z mn))
         else None)"

definition positions_next :: "positions \<Rightarrow> (block_pos \<times> positions) option" where
  "positions_next it = (case ps_next it of
     None \<Rightarrow> None
   | Some current \<Rightarrow>
       Some (current, it\<lparr>ps_next := positions_after (ps_bounds it) (ps_surface_only it) current\<rparr>))"

definition bounds_positions :: "light_bounds \<Rightarrow> positions" where
  "bounds_positions b = \<lparr>ps_bounds = b, ps_next = Some (lb_min b), ps_surface_only = False\<rparr>"

definition bounds_surface_positions :: "light_bounds \<Rightarrow> positions" where
  "bounds_surface_positions b = \<lparr>ps_bounds = b, ps_next = Some (lb_min b), ps_surface_only = True\<rparr>"

text \<open>What a \<^verbatim>\<open>for\<close> loop over the iterator visits.  The walk always ends: each step raises \<open>x\<close>, or
  keeps it and raises \<open>y\<close>, or keeps both and raises \<open>z\<close>, below the bounds' maximum.\<close>

function collect_positions :: "positions \<Rightarrow> block_pos list" where
  "collect_positions it = (case positions_next it of
     None \<Rightarrow> []
   | Some (p, it') \<Rightarrow> p # collect_positions it')"
  by auto

definition positions_measure :: "positions \<Rightarrow> (nat \<times> nat \<times> nat) option" where
  "positions_measure it = map_option (\<lambda>p. (nat (bp_x (lb_max (ps_bounds it)) - bp_x p),
     nat (bp_y (lb_max (ps_bounds it)) - bp_y p), nat (bp_z (lb_max (ps_bounds it)) - bp_z p))) (ps_next it)"

definition positions_left :: "((nat \<times> nat \<times> nat) option) rel" where
  "positions_left = {(None, Some m) | m. True} \<union>
     {(Some m, Some n) | m n. (m, n) \<in> less_than <*lex*> less_than <*lex*> less_than}"

lemma wf_positions_left: "wf positions_left"
proof -
  let ?r = "less_than <*lex*> less_than <*lex*> (less_than :: nat rel)"
  have "wf (less_than <*lex*> ?r)" by (intro wf_lex_prod wf_less_than)
  then have "wf (inv_image (less_than <*lex*> ?r)
      (\<lambda>m. case m of None \<Rightarrow> (0::nat, 0, 0, 0) | Some n \<Rightarrow> (1, n)))" by (rule wf_inv_image)
  then show ?thesis by (rule wf_subset) (auto simp: positions_left_def inv_image_def)
qed

termination collect_positions
proof (relation "inv_image positions_left positions_measure", goal_cases)
  case 1
  show ?case by (rule wf_inv_image) (rule wf_positions_left)
next
  case (2 it x p it')
  then obtain current where c: "ps_next it = Some current"
    and it': "it' = it\<lparr>ps_next := positions_after (ps_bounds it) (ps_surface_only it) current\<rparr>"
    by (auto simp: positions_next_def split: option.splits)
  show ?case
    by (auto simp: inv_image_def positions_measure_def c it' positions_left_def positions_after_def Let_def)
qed


declare collect_positions.simps [simp del]

subsection \<open>What the walk visits\<close>

definition walk :: "light_bounds \<Rightarrow> bool \<Rightarrow> block_pos option \<Rightarrow> block_pos list" where
  "walk b surface_only p = collect_positions \<lparr>ps_bounds = b, ps_next = p, ps_surface_only = surface_only\<rparr>"

lemma walk_None [simp]: "walk b s None = []"
  by (simp add: walk_def collect_positions.simps positions_next_def)

lemma walk_step: "walk b s (Some p) = p # walk b s (positions_after b s p)"
  by (simp add: walk_def collect_positions.simps [of "\<lparr>ps_bounds = b, ps_next = Some p, ps_surface_only = s\<rparr>"]
      positions_next_def)

text \<open>The cells of the bounds, \<open>x\<close> outermost, and whether a cell is on one of the six faces.\<close>

definition dense_cells :: "light_bounds \<Rightarrow> block_pos list" where
  "dense_cells b = concat (map (\<lambda>x. concat (map (\<lambda>y. map (Block_Pos x y)
     [bp_z (lb_min b)..bp_z (lb_max b)]) [bp_y (lb_min b)..bp_y (lb_max b)])) [bp_x (lb_min b)..bp_x (lb_max b)])"

definition on_face :: "light_bounds \<Rightarrow> block_pos \<Rightarrow> bool" where
  "on_face b p \<longleftrightarrow> bp_x p = bp_x (lb_min b) \<or> bp_x p = bp_x (lb_max b) \<or>
     bp_y p = bp_y (lb_min b) \<or> bp_y p = bp_y (lb_max b) \<or> bp_z p = bp_z (lb_min b) \<or> bp_z p = bp_z (lb_max b)"

definition valid_bounds :: "light_bounds \<Rightarrow> bool" where
  "valid_bounds b \<longleftrightarrow> bp_x (lb_min b) \<le> bp_x (lb_max b) \<and> bp_y (lb_min b) \<le> bp_y (lb_max b) \<and>
     bp_z (lb_min b) \<le> bp_z (lb_max b) \<and>
     in_i32 (bp_x (lb_min b)) \<and> in_i32 (bp_y (lb_min b)) \<and> in_i32 (bp_z (lb_min b)) \<and>
     in_i32 (bp_x (lb_max b)) \<and> in_i32 (bp_y (lb_max b)) \<and> in_i32 (bp_z (lb_max b))"

definition kept_cells :: "bool \<Rightarrow> light_bounds \<Rightarrow> block_pos list \<Rightarrow> block_pos list" where
  "kept_cells s b ps = (if s then filter (on_face b) ps else ps)"

lemma kept_cells_append [simp]: "kept_cells s b (xs @ ys) = kept_cells s b xs @ kept_cells s b ys"
  by (simp add: kept_cells_def)

lemma kept_cells_nil [simp]: "kept_cells s b [] = []"
  by (simp add: kept_cells_def)

definition row_end :: "light_bounds \<Rightarrow> bool \<Rightarrow> int \<Rightarrow> int \<Rightarrow> block_pos list" where
  "row_end b s x y = walk b s
     (if y < bp_y (lb_max b) then Some (Block_Pos x (y + 1) (bp_z (lb_min b)))
      else if x < bp_x (lb_max b) then Some (Block_Pos (x + 1) (bp_y (lb_min b)) (bp_z (lb_min b)))
      else None)"

abbreviation interior_row :: "light_bounds \<Rightarrow> bool \<Rightarrow> int \<Rightarrow> int \<Rightarrow> bool" where
  "interior_row b s x y \<equiv> s \<and> x \<noteq> bp_x (lb_min b) \<and> x \<noteq> bp_x (lb_max b) \<and>
     y \<noteq> bp_y (lb_min b) \<and> y \<noteq> bp_y (lb_max b)"

lemma after_in_row:
  "z < bp_z (lb_max b) \<Longrightarrow> positions_after b s (Block_Pos x y z) =
    Some (Block_Pos x y (if interior_row b s x y then bp_z (lb_max b) else z + 1))"
  by (simp add: positions_after_def Let_def)

lemma after_row:
  "z = bp_z (lb_max b) \<Longrightarrow> walk b s (positions_after b s (Block_Pos x y z)) = row_end b s x y"
  by (simp add: positions_after_def row_end_def Let_def)

lemma walk_full_row:
  assumes "\<not> interior_row b s x y" and "z \<le> bp_z (lb_max b)"
  shows "walk b s (Some (Block_Pos x y z)) = map (Block_Pos x y) [z..bp_z (lb_max b)] @ row_end b s x y"
  using assms
proof (induction "nat (bp_z (lb_max b) - z)" arbitrary: z)
  case 0
  then show ?case by (simp add: walk_step [of b s "Block_Pos x y z"] after_row)
next
  case (Suc n)
  then have lt: "z < bp_z (lb_max b)" by simp
  then have "positions_after b s (Block_Pos x y z) = Some (Block_Pos x y (z + 1))"
    using Suc.prems(1) by (auto simp: after_in_row)
  moreover have "walk b s (Some (Block_Pos x y (z + 1))) =
      map (Block_Pos x y) [z + 1..bp_z (lb_max b)] @ row_end b s x y"
    using Suc.hyps(2) Suc.prems lt by (intro Suc.hyps(1)) auto
  ultimately show ?case
    using lt by (simp add: walk_step [of b s "Block_Pos x y z"] upto_rec1 [of z "bp_z (lb_max b)"])
qed

lemma walk_row:
  assumes "bp_z (lb_min b) \<le> bp_z (lb_max b)"
  shows "walk b s (Some (Block_Pos x y (bp_z (lb_min b)))) =
    kept_cells s b (map (Block_Pos x y) [bp_z (lb_min b)..bp_z (lb_max b)]) @ row_end b s x y"
proof (cases "interior_row b s x y")
  case False
  have "kept_cells s b (map (Block_Pos x y) zs) = map (Block_Pos x y) zs" for zs
    using False by (auto simp: kept_cells_def on_face_def filter_id_conv)
  then show ?thesis using walk_full_row [OF False assms] by simp
next
  case True
  have in_row: "filter (on_face b) (map (Block_Pos x y) zs) =
      map (Block_Pos x y) (filter (\<lambda>z. z = bp_z (lb_min b) \<or> z = bp_z (lb_max b)) zs)" for zs
    using True by (induction zs) (auto simp: on_face_def)
  show ?thesis
  proof (cases "bp_z (lb_min b) = bp_z (lb_max b)")
    case True
    then show ?thesis
      by (simp add: walk_step [of b s "Block_Pos x y (bp_z (lb_max b))"] after_row kept_cells_def on_face_def)
  next
    case False
    then have lt: "bp_z (lb_min b) < bp_z (lb_max b)" using assms by simp
    have "filter (\<lambda>z. z = bp_z (lb_min b) \<or> z = bp_z (lb_max b)) [bp_z (lb_min b)..bp_z (lb_max b)] =
        [bp_z (lb_min b), bp_z (lb_max b)]"
    proof -
      have "[bp_z (lb_min b)..bp_z (lb_max b)] =
          bp_z (lb_min b) # [bp_z (lb_min b) + 1..bp_z (lb_max b) - 1] @ [bp_z (lb_max b)]"
        using lt by (metis upto_rec1 upto_rec2 append_Cons less_imp_le add1_zle_eq)
      moreover have "filter (\<lambda>z. z = bp_z (lb_min b) \<or> z = bp_z (lb_max b))
          [bp_z (lb_min b) + 1..bp_z (lb_max b) - 1] = []"
        by (auto simp: filter_empty_conv)
      ultimately show ?thesis by simp
    qed
    moreover have "walk b s (Some (Block_Pos x y (bp_z (lb_min b)))) =
        [Block_Pos x y (bp_z (lb_min b)), Block_Pos x y (bp_z (lb_max b))] @ row_end b s x y"
      using lt True by (simp add: walk_step [of b _ "Block_Pos x y z" for z] after_in_row after_row)
    ultimately show ?thesis using True in_row by (simp add: kept_cells_def)
  qed
qed

lemma walk_rows:
  assumes "bp_z (lb_min b) \<le> bp_z (lb_max b)" and "y \<le> bp_y (lb_max b)"
  shows "walk b s (Some (Block_Pos x y (bp_z (lb_min b)))) =
    kept_cells s b (concat (map (\<lambda>y. map (Block_Pos x y) [bp_z (lb_min b)..bp_z (lb_max b)]) [y..bp_y (lb_max b)])) @
    walk b s (if x < bp_x (lb_max b) then Some (Block_Pos (x + 1) (bp_y (lb_min b)) (bp_z (lb_min b))) else None)"
  using assms(2)
proof (induction "nat (bp_y (lb_max b) - y)" arbitrary: y)
  case 0
  then show ?case using walk_row [OF assms(1), of s x y] by (simp add: row_end_def)
next
  case (Suc n)
  then have lt: "y < bp_y (lb_max b)" by simp
  have "walk b s (Some (Block_Pos x (y + 1) (bp_z (lb_min b)))) =
    kept_cells s b (concat (map (\<lambda>y. map (Block_Pos x y) [bp_z (lb_min b)..bp_z (lb_max b)]) [y + 1..bp_y (lb_max b)])) @
    walk b s (if x < bp_x (lb_max b) then Some (Block_Pos (x + 1) (bp_y (lb_min b)) (bp_z (lb_min b))) else None)"
    using Suc.hyps(2) lt by (intro Suc.hyps(1)) auto
  then show ?case using walk_row [OF assms(1), of s x y] lt
    by (simp add: row_end_def upto_rec1 [of y "bp_y (lb_max b)"])
qed

lemma walk_all:
  assumes "valid_bounds b" and "x \<le> bp_x (lb_max b)"
  shows "walk b s (Some (Block_Pos x (bp_y (lb_min b)) (bp_z (lb_min b)))) =
    kept_cells s b (concat (map (\<lambda>x. concat (map (\<lambda>y. map (Block_Pos x y)
     [bp_z (lb_min b)..bp_z (lb_max b)]) [bp_y (lb_min b)..bp_y (lb_max b)])) [x..bp_x (lb_max b)]))"
  using assms(2)
proof (induction "nat (bp_x (lb_max b) - x)" arbitrary: x)
  case 0
  then show ?case using walk_rows [of b "bp_y (lb_min b)" s x] assms(1) by (simp add: valid_bounds_def)
next
  case (Suc n)
  then have lt: "x < bp_x (lb_max b)" by simp
  have "walk b s (Some (Block_Pos (x + 1) (bp_y (lb_min b)) (bp_z (lb_min b)))) =
    kept_cells s b (concat (map (\<lambda>x. concat (map (\<lambda>y. map (Block_Pos x y)
     [bp_z (lb_min b)..bp_z (lb_max b)]) [bp_y (lb_min b)..bp_y (lb_max b)])) [x + 1..bp_x (lb_max b)]))"
    using Suc.hyps(2) lt by (intro Suc.hyps(1)) auto
  then show ?case
    using walk_rows [of b "bp_y (lb_min b)" s x] assms(1) lt
    by (simp add: valid_bounds_def upto_rec1 [of x "bp_x (lb_max b)"])
qed

lemma all_positions_eq: "valid_bounds b \<Longrightarrow> collect_positions (bounds_positions b) = dense_cells b"
  using walk_all [of b "bp_x (lb_min b)" False]
  by (cases "lb_min b") (simp add: valid_bounds_def bounds_positions_def walk_def [symmetric] dense_cells_def kept_cells_def)

lemma surface_positions_eq:
  "valid_bounds b \<Longrightarrow> collect_positions (bounds_surface_positions b) = filter (on_face b) (dense_cells b)"
  using walk_all [of b "bp_x (lb_min b)" True]
  by (cases "lb_min b") (simp add: valid_bounds_def bounds_surface_positions_def walk_def [symmetric] dense_cells_def
      kept_cells_def)

end
