(* ===== verification/Light_Grid.thy ===== *)
theory Light_Grid
  imports Light_Types
begin

section \<open>Dense cells of a solve\<close>

text \<open>
  The dense indices of \<^verbatim>\<open>light_solver/types.rs\<close> and the neighbour steps of
  \<^verbatim>\<open>light_solver/output.rs\<close>: a cell of the bounds is its position or its rank in the walk over them.
\<close>

definition checked_usize :: "nat \<Rightarrow> usize option" where
  "checked_usize n = (if n \<le> USIZE_MAX then Some n else None)"

definition light_axis_len :: "i32 \<Rightarrow> i32 \<Rightarrow> usize" where
  "light_axis_len mn mx = nat (mx - mn + 1)"

definition y_len :: "light_bounds \<Rightarrow> usize" where
  "y_len b = light_axis_len (bp_y (lb_min b)) (bp_y (lb_max b))"

definition z_len :: "light_bounds \<Rightarrow> usize" where
  "z_len b = light_axis_len (bp_z (lb_min b)) (bp_z (lb_max b))"

definition light_dense_index :: "light_bounds \<Rightarrow> usize \<Rightarrow> usize \<Rightarrow> block_pos \<Rightarrow> usize option" where
  "light_dense_index b ylen zlen p =
     (if \<not> bounds_contain b p then None
      else let x = nat (bp_x p - bp_x (lb_min b));
               y = nat (bp_y p - bp_y (lb_min b));
               z = nat (bp_z p - bp_z (lb_min b))
           in do {
             xs \<leftarrow> checked_usize (x * ylen);
             xy \<leftarrow> checked_usize (xs + y);
             row \<leftarrow> checked_usize (xy * zlen);
             checked_usize (row + z) })"

definition NEIGHBOURS :: "(i32 \<times> i32 \<times> i32) list" where
  "NEIGHBOURS = [(-1, 0, 0), (1, 0, 0), (0, -1, 0), (0, 1, 0), (0, 0, -1), (0, 0, 1)]"

definition light_neighbour :: "light_bounds \<Rightarrow> block_pos \<Rightarrow> usize \<Rightarrow> nat \<Rightarrow> (block_pos \<times> usize) option" where
  "light_neighbour b p index direction =
     (let mn = lb_min b; mx = lb_max b; x = bp_x p; y = bp_y p; z = bp_z p; x_stride = y_len b * z_len b
      in if direction = 0 then (if x > bp_x mn then Some (Block_Pos (x - 1) y z, index - x_stride) else None)
         else if direction = 1 then (if x < bp_x mx then Some (Block_Pos (x + 1) y z, index + x_stride) else None)
         else if direction = 2 then (if y > bp_y mn then Some (Block_Pos x (y - 1) z, index - z_len b) else None)
         else if direction = 3 then (if y < bp_y mx then Some (Block_Pos x (y + 1) z, index + z_len b) else None)
         else if direction = 4 then (if z > bp_z mn then Some (Block_Pos x y (z - 1), index - 1) else None)
         else (if z < bp_z mx then Some (Block_Pos x y (z + 1), index + 1) else None))"

subsection \<open>Ranks\<close>

definition rank :: "light_bounds \<Rightarrow> block_pos \<Rightarrow> nat" where
  "rank b p = (nat (bp_x p - bp_x (lb_min b)) * y_len b + nat (bp_y p - bp_y (lb_min b))) * z_len b +
     nat (bp_z p - bp_z (lb_min b))"

text \<open>The step without its bounds.\<close>

definition step :: "block_pos \<Rightarrow> i32 \<times> i32 \<times> i32 \<Rightarrow> block_pos" where
  "step p offset = (case offset of (dx, dy, dz) \<Rightarrow> Block_Pos (bp_x p + dx) (bp_y p + dy) (bp_z p + dz))"

lemma volume_eq:
  assumes "valid_bounds b" and "bounds_volume b = Some V"
  shows "V = light_axis_len (bp_x (lb_min b)) (bp_x (lb_max b)) * y_len b * z_len b" "V \<le> USIZE_MAX" "0 < V"
proof -
  have "nat (bp_x (lb_max b) - bp_x (lb_min b) + 1) > 0" "y_len b > 0" "z_len b > 0"
    using assms(1) by (auto simp: valid_bounds_def y_len_def z_len_def light_axis_len_def)
  moreover show "V = light_axis_len (bp_x (lb_min b)) (bp_x (lb_max b)) * y_len b * z_len b"
    using assms by (auto simp: valid_bounds_def bounds_volume_def checked_mul_i64_def result_simps Let_def
        y_len_def z_len_def light_axis_len_def nat_mult_distrib split: if_splits)
  ultimately show "0 < V" by (simp add: light_axis_len_def)
  show "V \<le> USIZE_MAX"
    using assms by (auto simp: bounds_volume_def checked_mul_i64_def result_simps Let_def USIZE_MAX_def split: if_splits)
qed

lemma two_digits:
  assumes "a < m" "(c::nat) < n" shows "a * n + c < m * n"
proof -
  have "a * n + c < a * n + n" using assms(2) by simp
  also have "\<dots> = Suc a * n" by simp
  also have "\<dots> \<le> m * n" using assms(1) by (simp add: Suc_leI del: mult_Suc)
  finally show ?thesis .
qed

lemma rank_less:
  assumes "bounds_contain b p" and "bounds_volume b = Some V" and "valid_bounds b"
  shows "rank b p < V"
proof -
  have "nat (bp_x p - bp_x (lb_min b)) < light_axis_len (bp_x (lb_min b)) (bp_x (lb_max b))"
    "nat (bp_y p - bp_y (lb_min b)) < y_len b" "nat (bp_z p - bp_z (lb_min b)) < z_len b"
    using assms(1) by (auto simp: bounds_contain_def light_axis_len_def y_len_def z_len_def)
  then show ?thesis unfolding rank_def volume_eq(1) [OF assms(3,2)] by (intro two_digits)
qed

lemma dense_index_eq:
  assumes "valid_bounds b" and "bounds_volume b = Some V"
  shows "light_dense_index b (y_len b) (z_len b) p = (if bounds_contain b p then Some (rank b p) else None)"
proof (cases "bounds_contain b p")
  case True
  have r: "rank b p \<le> USIZE_MAX" using rank_less [OF True assms(2,1)] volume_eq(2) [OF assms] by simp
  define x where "x = nat (bp_x p - bp_x (lb_min b))"
  define y where "y = nat (bp_y p - bp_y (lb_min b))"
  define z where "z = nat (bp_z p - bp_z (lb_min b))"
  have rank: "rank b p = (x * y_len b + y) * z_len b + z" by (simp add: rank_def x_def y_def z_def)
  have z0: "z_len b > 0" using True by (simp add: bounds_contain_def z_len_def light_axis_len_def)
  have "x * y_len b + y \<le> (x * y_len b + y) * z_len b" using z0 by simp
  then have "x * y_len b + y \<le> USIZE_MAX" "(x * y_len b + y) * z_len b \<le> USIZE_MAX" "x * y_len b \<le> USIZE_MAX"
    using r unfolding rank by linarith+
  then show ?thesis
    using True r unfolding rank
    by (simp add: light_dense_index_def Let_def checked_usize_def flip: x_def y_def z_def)
qed (simp add: light_dense_index_def)

lemma upto_as_upt: "[a..c] = map (\<lambda>i. a + int i) [0..<nat (c - a + 1)]"
proof (rule nth_equalityI)
  show "length [a..c] = length (map (\<lambda>i. a + int i) [0..<nat (c - a + 1)])" by simp
  fix i assume "i < length [a..c]"
  then show "[a..c] ! i = map (\<lambda>i. a + int i) [0..<nat (c - a + 1)] ! i" by simp
qed

lemma concat_blocks:
  "concat (map (\<lambda>a. map (\<lambda>j. a * n + j) [0..<n]) [0..<m]) = [0..<m * n]"
proof (induction m)
  case (Suc m)
  have "map (\<lambda>j. m * n + j) [0..<n] = [m * n..<m * n + n]" by (rule nth_equalityI) simp_all
  moreover have "[0..<m * n + n] = [0..<m * n] @ [m * n..<m * n + n]" by (rule upt_add_eq_append) simp
  ultimately show ?case using Suc by (simp add: add.commute [of n])
qed simp

lemma concat_map_concat: "concat (map (\<lambda>i. concat (f i)) xs) = concat (concat (map f xs))"
  by (induction xs) simp_all

text \<open>The walk lists the cells by rank.\<close>

lemma ranks_of_dense_cells:
  assumes "valid_bounds b" and "bounds_volume b = Some V"
  shows "map (rank b) (dense_cells b) = [0..<V]"
proof -
  let ?x = "bp_x (lb_min b)" and ?y = "bp_y (lb_min b)" and ?z = "bp_z (lb_min b)"
  let ?m = "light_axis_len ?x (bp_x (lb_max b))"
  have xs: "[?x..bp_x (lb_max b)] = map (\<lambda>i. ?x + int i) [0..<?m]"
    and ys: "[?y..bp_y (lb_max b)] = map (\<lambda>i. ?y + int i) [0..<y_len b]"
    and zs: "[?z..bp_z (lb_max b)] = map (\<lambda>i. ?z + int i) [0..<z_len b]"
    by (simp_all add: upto_as_upt light_axis_len_def y_len_def z_len_def)
  have "map (rank b) (dense_cells b) =
      concat (map (\<lambda>i. concat (map (\<lambda>j. map (\<lambda>k. (i * y_len b + j) * z_len b + k) [0..<z_len b])
        [0..<y_len b])) [0..<?m])"
    unfolding dense_cells_def xs ys zs by (simp add: map_concat comp_def rank_def)
  also have "\<dots> = concat (concat (map (\<lambda>i. map ((\<lambda>a. map (\<lambda>k. a * z_len b + k) [0..<z_len b]) \<circ> (\<lambda>j. i * y_len b + j))
        [0..<y_len b]) [0..<?m]))"
    by (simp add: comp_def concat_map_concat)
  also have "\<dots> = concat (map (\<lambda>a. map (\<lambda>k. a * z_len b + k) [0..<z_len b])
      (concat (map (\<lambda>i. map (\<lambda>j. i * y_len b + j) [0..<y_len b]) [0..<?m])))"
    by (simp add: map_concat comp_def)
  also have "\<dots> = [0..<V]"
    unfolding concat_blocks volume_eq(1) [OF assms] ..
  finally show ?thesis .
qed


lemma set_dense_cells: "set (dense_cells b) = {p. bounds_contain b p}"
proof -
  have "p \<in> set (dense_cells b) \<longleftrightarrow> bounds_contain b p" for p
    by (cases p) (auto simp: dense_cells_def bounds_contain_def image_iff)
  then show ?thesis by auto
qed

text \<open>A region whose volume is known: what the solver's loops run over.\<close>

definition region :: "light_bounds \<Rightarrow> nat \<Rightarrow> bool" where
  "region b V \<longleftrightarrow> valid_bounds b \<and> bounds_volume b = Some V"

lemma region_facts:
  assumes "region b V"
  shows "length (dense_cells b) = V" "distinct (dense_cells b)"
    "map (rank b) (dense_cells b) = [0..<V]"
    "bounds_contain b p \<Longrightarrow> rank b p < V"
    "bounds_contain b p \<Longrightarrow> dense_cells b ! rank b p = p"
    "collect_positions (bounds_positions b) = dense_cells b"
    "i < V \<Longrightarrow> rank b (dense_cells b ! i) = i" "i < V \<Longrightarrow> bounds_contain b (dense_cells b ! i)"
proof -
  have v: "valid_bounds b" and V: "bounds_volume b = Some V" using assms by (simp_all add: region_def)
  show r: "map (rank b) (dense_cells b) = [0..<V]" by (rule ranks_of_dense_cells [OF v V])
  from arg_cong [OF r, of length] show len: "length (dense_cells b) = V" by simp
  show "distinct (dense_cells b)" using r by (metis distinct_map distinct_upt)
  show nth: "rank b (dense_cells b ! i) = i" if "i < V" for i
    using that arg_cong [OF r, of "\<lambda>l. l ! i"] by (simp add: len)
  show "bounds_contain b p \<Longrightarrow> rank b p < V" by (rule rank_less [OF _ V v])
  show "bounds_contain b p \<Longrightarrow> dense_cells b ! rank b p = p"
  proof -
    assume "bounds_contain b p"
    then have "p \<in> set (dense_cells b)" by (simp add: set_dense_cells)
    then obtain i where "i < V" "dense_cells b ! i = p" by (metis in_set_conv_nth len)
    then show ?thesis using nth by metis
  qed
  show "collect_positions (bounds_positions b) = dense_cells b" by (rule all_positions_eq [OF v])
  show "i < V \<Longrightarrow> bounds_contain b (dense_cells b ! i)"
    using set_dense_cells [of b] nth_mem [of i "dense_cells b"] by (simp add: len)
qed

lemma rank_inj:
  assumes "region b V" "bounds_contain b p" "bounds_contain b q"
  shows "rank b p = rank b q \<longleftrightarrow> p = q"
  using region_facts(5) [OF assms(1,2)] region_facts(5) [OF assms(1,3)] by metis

lemma enumerate_cells:
  assumes "region b V"
  shows "enumerate 0 (collect_positions (bounds_positions b)) = map (\<lambda>p. (rank b p, p)) (dense_cells b)"
proof -
  have "enumerate 0 (dense_cells b) = zip [0..<V] (dense_cells b)"
    by (simp add: enumerate_eq_zip region_facts(1) [OF assms])
  also have "\<dots> = zip (map (rank b) (dense_cells b)) (map id (dense_cells b))"
    by (simp only: region_facts(3) [OF assms] list.map_id)
  also have "\<dots> = map (\<lambda>p. (rank b p, p)) (dense_cells b)"
    by (simp only: zip_map_map zip_same_conv_map map_map comp_def prod.case id_apply) 
  finally show ?thesis by (simp add: region_facts(6) [OF assms])
qed

subsection \<open>Neighbour steps\<close>

lemma rank_step:
  assumes "bounds_contain b p" and "bounds_contain b q"
  shows "q = Block_Pos (bp_x p - 1) (bp_y p) (bp_z p) \<Longrightarrow> rank b q = rank b p - y_len b * z_len b"
    and "q = Block_Pos (bp_x p + 1) (bp_y p) (bp_z p) \<Longrightarrow> rank b q = rank b p + y_len b * z_len b"
    and "q = Block_Pos (bp_x p) (bp_y p - 1) (bp_z p) \<Longrightarrow> rank b q = rank b p - z_len b"
    and "q = Block_Pos (bp_x p) (bp_y p + 1) (bp_z p) \<Longrightarrow> rank b q = rank b p + z_len b"
    and "q = Block_Pos (bp_x p) (bp_y p) (bp_z p - 1) \<Longrightarrow> rank b q = rank b p - 1"
    and "q = Block_Pos (bp_x p) (bp_y p) (bp_z p + 1) \<Longrightarrow> rank b q = rank b p + 1"
proof -
  define x y z where "x = nat (bp_x q - bp_x (lb_min b))" and "y = nat (bp_y q - bp_y (lb_min b))"
    and "z = nat (bp_z q - bp_z (lb_min b))"
  define x' y' z' where "x' = nat (bp_x p - bp_x (lb_min b))" and "y' = nat (bp_y p - bp_y (lb_min b))"
    and "z' = nat (bp_z p - bp_z (lb_min b))"
  note d = x_def y_def z_def x'_def y'_def z'_def
  have r: "rank b q = (x * y_len b + y) * z_len b + z" "rank b p = (x' * y_len b + y') * z_len b + z'"
    by (simp_all add: rank_def d)
  have ge: "bp_x q \<ge> bp_x (lb_min b)" "bp_y q \<ge> bp_y (lb_min b)" "bp_z q \<ge> bp_z (lb_min b)"
    "bp_x p \<ge> bp_x (lb_min b)" "bp_y p \<ge> bp_y (lb_min b)" "bp_z p \<ge> bp_z (lb_min b)"
    using assms by (auto simp: bounds_contain_def)
  show "q = Block_Pos (bp_x p - 1) (bp_y p) (bp_z p) \<Longrightarrow> rank b q = rank b p - y_len b * z_len b"
  proof -
    assume "q = Block_Pos (bp_x p - 1) (bp_y p) (bp_z p)"
    then have "x' = Suc x" "y' = y" "z' = z" using ge by (auto simp: d)
    then show ?thesis by (simp add: r algebra_simps)
  qed
  show "q = Block_Pos (bp_x p + 1) (bp_y p) (bp_z p) \<Longrightarrow> rank b q = rank b p + y_len b * z_len b"
  proof -
    assume "q = Block_Pos (bp_x p + 1) (bp_y p) (bp_z p)"
    then have "x = Suc x'" "y' = y" "z' = z" using ge by (auto simp: d)
    then show ?thesis by (simp add: r algebra_simps)
  qed
  show "q = Block_Pos (bp_x p) (bp_y p - 1) (bp_z p) \<Longrightarrow> rank b q = rank b p - z_len b"
  proof -
    assume "q = Block_Pos (bp_x p) (bp_y p - 1) (bp_z p)"
    then have "x' = x" "y' = Suc y" "z' = z" using ge by (auto simp: d)
    then show ?thesis by (simp add: r algebra_simps)
  qed
  show "q = Block_Pos (bp_x p) (bp_y p + 1) (bp_z p) \<Longrightarrow> rank b q = rank b p + z_len b"
  proof -
    assume "q = Block_Pos (bp_x p) (bp_y p + 1) (bp_z p)"
    then have "x' = x" "y = Suc y'" "z' = z" using ge by (auto simp: d)
    then show ?thesis by (simp add: r algebra_simps)
  qed
  show "q = Block_Pos (bp_x p) (bp_y p) (bp_z p - 1) \<Longrightarrow> rank b q = rank b p - 1"
  proof -
    assume "q = Block_Pos (bp_x p) (bp_y p) (bp_z p - 1)"
    then have "x' = x" "y = y'" "z' = Suc z" using ge by (auto simp: d)
    then show ?thesis by (simp add: r)
  qed
  show "q = Block_Pos (bp_x p) (bp_y p) (bp_z p + 1) \<Longrightarrow> rank b q = rank b p + 1"
  proof -
    assume "q = Block_Pos (bp_x p) (bp_y p) (bp_z p + 1)"
    then have "x' = x" "y = y'" "z = Suc z'" using ge by (auto simp: d)
    then show ?thesis by (simp add: r)
  qed
qed

lemma neighbour_eq:
  assumes "bounds_contain b p" and "direction < 6"
  shows "light_neighbour b p (rank b p) direction =
    (let q = step p (NEIGHBOURS ! direction) in if bounds_contain b q then Some (q, rank b q) else None)"
proof -
  have in_iff: "bounds_contain b (Block_Pos (bp_x p - 1) (bp_y p) (bp_z p)) \<longleftrightarrow> bp_x p > bp_x (lb_min b)"
    "bounds_contain b (Block_Pos (bp_x p + 1) (bp_y p) (bp_z p)) \<longleftrightarrow> bp_x p < bp_x (lb_max b)"
    "bounds_contain b (Block_Pos (bp_x p) (bp_y p - 1) (bp_z p)) \<longleftrightarrow> bp_y p > bp_y (lb_min b)"
    "bounds_contain b (Block_Pos (bp_x p) (bp_y p + 1) (bp_z p)) \<longleftrightarrow> bp_y p < bp_y (lb_max b)"
    "bounds_contain b (Block_Pos (bp_x p) (bp_y p) (bp_z p - 1)) \<longleftrightarrow> bp_z p > bp_z (lb_min b)"
    "bounds_contain b (Block_Pos (bp_x p) (bp_y p) (bp_z p + 1)) \<longleftrightarrow> bp_z p < bp_z (lb_max b)"
    using assms(1) by (auto simp: bounds_contain_def)
  note rs = rank_step [OF assms(1) _ refl]
  consider "direction = 0" | "direction = 1" | "direction = 2" | "direction = 3" | "direction = 4" | "direction = 5"
    using assms(2) by linarith
  then show ?thesis
    by cases (simp_all add: light_neighbour_def NEIGHBOURS_def step_def Let_def in_iff rs)
qed

subsection \<open>The property of the walk\<close>

text \<open>
  C35. The solver's walk over its bounds ends, visits every cell once in the order of the dense
  indices, so that a loop's counter is the index of its position; and the walk over the surface
  visits the cells of the six faces in that same order.
\<close>

theorem walk_is_dense_order:
  assumes "new_light_bounds dimension mn mx = Inr b" and "valid_bounds b" and "bounds_volume b = Some V"
  shows "map (light_dense_index b (y_len b) (z_len b)) (collect_positions (bounds_positions b)) = map Some [0..<V] \<and>
    set (collect_positions (bounds_positions b)) = {p. bounds_contain b p} \<and>
    collect_positions (bounds_surface_positions b) = filter (on_face b) (collect_positions (bounds_positions b))"
proof (intro conjI)
  have r: "region b V" using assms by (simp add: region_def)
  have "map (light_dense_index b (y_len b) (z_len b)) (dense_cells b) = map Some (map (rank b) (dense_cells b))"
    using set_dense_cells [of b] by (simp add: dense_index_eq [OF assms(2,3)])
  then show "map (light_dense_index b (y_len b) (z_len b)) (collect_positions (bounds_positions b)) = map Some [0..<V]"
    by (simp only: region_facts(3,6) [OF r])
  show "set (collect_positions (bounds_positions b)) = {p. bounds_contain b p}"
    by (simp add: region_facts(6) [OF r] set_dense_cells)
  show "collect_positions (bounds_surface_positions b) = filter (on_face b) (collect_positions (bounds_positions b))"
    by (simp add: region_facts(6) [OF r] surface_positions_eq [OF assms(2)])
qed

definition example_bounds :: light_bounds where
  "example_bounds = \<lparr>lb_dimension = 0, lb_min = Block_Pos (-1) 60 (-17), lb_max = Block_Pos 1 62 (-15)\<rparr>"

lemma example_region: "region example_bounds 27"
  by (simp add: region_def example_bounds_def valid_bounds_def bounds_volume_def checked_mul_i64_def in_i32_def)

theorem walk_is_dense_order_witness:
  "map (light_dense_index example_bounds 3 3) (collect_positions (bounds_positions example_bounds)) = map Some [0..<27]"
proof -
  have "new_light_bounds 0 (Block_Pos (-1) 60 (-17)) (Block_Pos 1 62 (-15)) = Inr example_bounds"
    by (simp add: new_light_bounds_def example_bounds_def)
  moreover have "y_len example_bounds = 3" "z_len example_bounds = 3"
    by (simp_all add: example_bounds_def y_len_def z_len_def light_axis_len_def)
  ultimately show ?thesis
    using walk_is_dense_order [of 0 "Block_Pos (-1) 60 (-17)" "Block_Pos 1 62 (-15)" example_bounds 27]
      example_region by (simp add: region_def)
qed

end
