(* ===== verification/Light_Cells.thy ===== *)
theory Light_Cells
  imports Light_Grid
begin

section \<open>What a light solve reads and writes\<close>

text \<open>
  \<^verbatim>\<open>light_solver/queue.rs\<close>, \<^verbatim>\<open>light_solver/cache.rs\<close>, the buffers of \<^verbatim>\<open>light_solver/output.rs\<close> and
  the prior-light contract of \<^verbatim>\<open>light_solver/types.rs\<close>.  The cache of prior light memoises reads of
  a source that cannot change during a solve, so a cached read is the read.
\<close>

subsection \<open>Prior light\<close>

datatype boundary_sample = Boundary_Unknown | Boundary_Untrusted | Boundary_Trusted nat bool

definition boundary_trusted :: "nat \<Rightarrow> bool \<Rightarrow> light_storage_error + boundary_sample" where
  "boundary_trusted level direct =
     (if level > 15 then Inl (Value_Out_Of_Range (word_of_nat level)) else Inr (Boundary_Trusted level direct))"

definition trusted_parts :: "boundary_sample \<Rightarrow> (nat \<times> bool) option" where
  "trusted_parts s = (case s of Boundary_Trusted level direct \<Rightarrow> Some (level, direct) | _ \<Rightarrow> None)"

text \<open>\<^verbatim>\<open>LightReadAccess\<close>: light already there, by dimension and position.\<close>

record light_read_access =
  ra_read_light :: "i32 \<Rightarrow> block_pos \<Rightarrow> light_channel \<Rightarrow> nat"
  ra_direct :: "i32 \<Rightarrow> block_pos \<Rightarrow> bool"
  ra_boundary :: "i32 \<Rightarrow> block_pos \<Rightarrow> light_channel \<Rightarrow> boundary_sample"

definition empty_light :: light_read_access where
  "empty_light = \<lparr>ra_read_light = (\<lambda>_ _ _. 0), ra_direct = (\<lambda>_ _. False), ra_boundary = (\<lambda>_ _ _. Boundary_Unknown)\<rparr>"

text \<open>Euclidean division by 16 is HOL's \<open>div\<close> and \<open>mod\<close>, as the divisor is positive.\<close>

definition split_position :: "i32 \<Rightarrow> block_pos \<Rightarrow> sub_chunk_key \<times> nat \<times> nat \<times> nat" where
  "split_position dimension p =
     (Sub_Chunk_Key dimension (bp_x p div 16) (bp_y p div 16) (bp_z p div 16),
      nat (bp_x p mod 16), nat (bp_y p mod 16), nat (bp_z p mod 16))"

definition snapshot_read_light :: "light_snapshot \<Rightarrow> i32 \<Rightarrow> block_pos \<Rightarrow> light_channel \<Rightarrow> nat" where
  "snapshot_read_light s dimension p c = (case split_position dimension p of (key, x, y, z) \<Rightarrow>
     (case snapshot_light s key of
       None \<Rightarrow> 0
     | Some light \<Rightarrow> (case sub_light_get light c x y z of None \<Rightarrow> 0 | Some v \<Rightarrow> unat v)))"

definition snapshot_access :: "light_snapshot \<Rightarrow> light_read_access" where
  "snapshot_access s = \<lparr>ra_read_light = snapshot_read_light s, ra_direct = (\<lambda>_ _. False),
     ra_boundary = (\<lambda>_ _ _. Boundary_Unknown)\<rparr>"

subsection \<open>The block cache\<close>

record cached_blocks =
  cb_source :: light_block_access
  cb_bounds :: light_bounds
  cb_samples :: "light_block_sample list"
  cb_sky_seeds :: "nat list"

definition new_cached_blocks :: "light_block_access \<Rightarrow> light_bounds \<Rightarrow> cached_blocks" where
  "new_cached_blocks source b =
     (let ps = collect_positions (bounds_positions b)
      in \<lparr>cb_source = source, cb_bounds = b, cb_samples = map (ba_sample source) ps,
          cb_sky_seeds = map (ba_sky_seed source) ps\<rparr>)"

definition cb_index :: "cached_blocks \<Rightarrow> block_pos \<Rightarrow> usize option" where
  "cb_index cb p = light_dense_index (cb_bounds cb) (y_len (cb_bounds cb)) (z_len (cb_bounds cb)) p"

definition sample_at_index :: "cached_blocks \<Rightarrow> usize \<Rightarrow> light_block_sample" where
  "sample_at_index cb index = cb_samples cb ! index"

definition sky_seed_at_index :: "cached_blocks \<Rightarrow> usize \<Rightarrow> nat" where
  "sky_seed_at_index cb index = cb_sky_seeds cb ! index"

definition cached_sample :: "cached_blocks \<Rightarrow> block_pos \<Rightarrow> light_block_sample" where
  "cached_sample cb p = (case cb_index cb p of
     None \<Rightarrow> ba_sample (cb_source cb) p | Some index \<Rightarrow> cb_samples cb ! index)"

definition cached_sky_seed :: "cached_blocks \<Rightarrow> block_pos \<Rightarrow> nat" where
  "cached_sky_seed cb p = (case cb_index cb p of
     None \<Rightarrow> ba_sky_seed (cb_source cb) p | Some index \<Rightarrow> cb_sky_seeds cb ! index)"

subsection \<open>Dense sets\<close>

record dense_set =
  ds_bounds :: light_bounds
  ds_present :: "bool list"

definition new_dense_set :: "light_bounds \<Rightarrow> usize \<Rightarrow> dense_set" where
  "new_dense_set b volume = \<lparr>ds_bounds = b, ds_present = replicate volume False\<rparr>"

definition contains_at_index :: "dense_set \<Rightarrow> usize \<Rightarrow> bool" where
  "contains_at_index s index = ds_present s ! index"

definition insert_at_index :: "dense_set \<Rightarrow> usize \<Rightarrow> dense_set" where
  "insert_at_index s index = s\<lparr>ds_present := (ds_present s)[index := True]\<rparr>"

definition ds_contains :: "dense_set \<Rightarrow> block_pos \<Rightarrow> bool" where
  "ds_contains s p = (case light_dense_index (ds_bounds s) (y_len (ds_bounds s)) (z_len (ds_bounds s)) p of
     None \<Rightarrow> False | Some index \<Rightarrow> contains_at_index s index)"

subsection \<open>The output buffers\<close>

record mutable_output =
  mo_bounds :: light_bounds
  mo_generation :: u64
  mo_values :: "(nat \<times> nat) list"
  mo_known :: "bool list"

definition new_mutable_output :: "light_bounds \<Rightarrow> u64 \<Rightarrow> usize \<Rightarrow> mutable_output" where
  "new_mutable_output b generation volume =
     \<lparr>mo_bounds = b, mo_generation = generation, mo_values = replicate volume (0, 0),
      mo_known = replicate volume False\<rparr>"

definition mo_index :: "mutable_output \<Rightarrow> block_pos \<Rightarrow> usize option" where
  "mo_index out p = light_dense_index (mo_bounds out) (y_len (mo_bounds out)) (z_len (mo_bounds out)) p"

definition pick :: "light_channel \<Rightarrow> nat \<times> nat \<Rightarrow> nat" where
  "pick c v = (case c of Channel_Block \<Rightarrow> fst v | Channel_Sky \<Rightarrow> snd v)"

definition put :: "light_channel \<Rightarrow> nat \<Rightarrow> nat \<times> nat \<Rightarrow> nat \<times> nat" where
  "put c level v = (case c of Channel_Block \<Rightarrow> (level, snd v) | Channel_Sky \<Rightarrow> (fst v, level))"

definition get_at_index :: "mutable_output \<Rightarrow> usize \<Rightarrow> light_channel \<Rightarrow> nat" where
  "get_at_index out index c = pick c (mo_values out ! index)"

definition set_at_index :: "mutable_output \<Rightarrow> usize \<Rightarrow> light_channel \<Rightarrow> nat \<Rightarrow> mutable_output" where
  "set_at_index out index c level =
     out\<lparr>mo_values := (mo_values out)[index := put c level (mo_values out ! index)],
         mo_known := (mo_known out)[index := True]\<rparr>"

subsection \<open>The increase queue\<close>

text \<open>A pending cell has bit 0 set, and bit 1 when it carries direct sky.\<close>

definition PENDING :: nat where "PENDING = 1"
definition DIRECT_SKY :: nat where "DIRECT_SKY = 2"

record increase_entry =
  ie_position :: block_pos
  ie_index :: usize
  ie_direct :: bool

record increase_queue =
  iq_entries :: "(block_pos \<times> usize) list"
  iq_pending :: "nat list"

definition empty_queue :: increase_queue where
  "empty_queue = \<lparr>iq_entries = [], iq_pending = []\<rparr>"

definition enqueue_counted :: "usize \<Rightarrow> usize \<Rightarrow> usize \<Rightarrow> light_solve_error + usize" where
  "enqueue_counted count amount mx =
     (let count' = min (count + amount) USIZE_MAX
      in if count' > mx then Inl (Queue_Limit_Exceeded mx) else Inr count')"

definition queue_pop_front :: "increase_queue \<Rightarrow> (increase_entry \<times> increase_queue) option" where
  "queue_pop_front q = (case iq_entries q of
     [] \<Rightarrow> None
   | (p, index) # entries \<Rightarrow>
       Some (\<lparr>ie_position = p, ie_index = index, ie_direct = (iq_pending q ! index) AND DIRECT_SKY \<noteq> 0\<rparr>,
             \<lparr>iq_entries = entries, iq_pending = (iq_pending q)[index := 0]\<rparr>))"

definition queue_clear :: "increase_queue \<Rightarrow> increase_queue" where
  "queue_clear q = \<lparr>iq_entries = [], iq_pending = fold (\<lambda>(_, index) pending. pending[index := 0]) (iq_entries q) (iq_pending q)\<rparr>"

definition U32_MAX :: nat where "U32_MAX = 4294967295"

text \<open>A volume beyond the \<^verbatim>\<open>u32\<close> indices panics; a resize keeps the slots that stay.\<close>

definition queue_reset :: "increase_queue \<Rightarrow> usize \<Rightarrow> increase_queue option" where
  "queue_reset q volume =
     (if volume > U32_MAX then None
      else let q = queue_clear q
           in Some (q\<lparr>iq_pending := take volume (iq_pending q) @ replicate (volume - length (iq_pending q)) 0\<rparr>))"

definition queue_push_back ::
    "increase_queue \<Rightarrow> increase_entry \<Rightarrow> usize \<Rightarrow> usize \<Rightarrow> light_solve_error + increase_queue \<times> usize" where
  "queue_push_back q entry count mx =
     (let index = ie_index entry; mark = PENDING OR (if ie_direct entry then DIRECT_SKY else 0)
      in and_then
           (if iq_pending q ! index = 0
            then and_then (enqueue_counted count 1 mx) (\<lambda>count.
              Inr (q\<lparr>iq_entries := iq_entries q @ [(ie_position entry, index mod 2 ^ 32)]\<rparr>, count))
            else Inr (q, count))
           (\<lambda>(q, count). Inr (q\<lparr>iq_pending := (iq_pending q)[index := iq_pending q ! index OR mark]\<rparr>, count)))"

definition queue_len :: "increase_queue \<Rightarrow> usize" where
  "queue_len q = length (iq_entries q)"

end
