(* ===== verification/Light_Solve.thy ===== *)
theory Light_Solve
  imports Light_Cells
begin

section \<open>The light solver\<close>

text \<open>
  \<^verbatim>\<open>light_solver/solve.rs\<close>: a bounded solve loads the previous light, darkens what lost its support,
  raises every cell to its own source, and spreads light from what is left and from the trusted
  one-cell halo.  A step gives \<open>None\<close> when the source panics or does not return, otherwise an error
  or the new state; the two worklist loops are partial functions, proved to return later.
\<close>

type_synonym 's outcome = "(light_solve_error + 's) option"

definition then_do :: "('e + 'a) option \<Rightarrow> ('a \<Rightarrow> ('e + 'b) option) \<Rightarrow> ('e + 'b) option" where
  "then_do m f = (case m of None \<Rightarrow> None | Some r \<Rightarrow> (case r of Inl e \<Rightarrow> Some (Inl e) | Inr x \<Rightarrow> f x))"

text \<open>A \<^verbatim>\<open>for\<close> loop whose body may fail.\<close>

fun for_each :: "('a \<Rightarrow> 's \<Rightarrow> ('e + 's) option) \<Rightarrow> 'a list \<Rightarrow> 's \<Rightarrow> ('e + 's) option" where
  "for_each f [] s = Some (Inr s)"
| "for_each f (x # xs) s = then_do (f x s) (for_each f xs)"

record darken_entry =
  de_position :: block_pos
  de_channel :: light_channel
  de_old_level :: nat
  de_direct :: bool

record solver_limits =
  sl_max_voxels :: usize
  sl_max_queue_entries :: usize

record light_solve_stats =
  st_darken_seeded :: usize
  st_darken_dequeued :: usize
  st_increase_dequeued :: usize
  st_queue_peak :: usize

definition no_stats :: light_solve_stats where
  "no_stats = \<lparr>st_darken_seeded = 0, st_darken_dequeued = 0, st_increase_dequeued = 0, st_queue_peak = 0\<rparr>"

definition raise_peak :: "usize \<Rightarrow> light_solve_stats \<Rightarrow> light_solve_stats" where
  "raise_peak n stats = stats\<lparr>st_queue_peak := max (st_queue_peak stats) n\<rparr>"

text \<open>What every step of one solve reads: the cached blocks, the prior light, the bounds, the
  dimension profile and the limits.\<close>

record solve_input =
  si_blocks :: cached_blocks
  si_prior :: light_read_access
  si_bounds :: light_bounds
  si_profile :: light_profile
  si_limits :: solver_limits

abbreviation filter_at :: "solve_input \<Rightarrow> usize \<Rightarrow> nat option" where
  "filter_at si index \<equiv> sample_filter (sample_at_index (si_blocks si) index)"

abbreviation prior_direct_at :: "solve_input \<Rightarrow> block_pos \<Rightarrow> bool" where
  "prior_direct_at si p \<equiv> ra_direct (si_prior si) (lb_dimension (si_bounds si)) p"

abbreviation max_entries :: "solve_input \<Rightarrow> usize" where
  "max_entries si \<equiv> sl_max_queue_entries (si_limits si)"

definition read_prior :: "solve_input \<Rightarrow> block_pos \<Rightarrow> light_channel \<Rightarrow> light_solve_error + nat" where
  "read_prior si p c =
     (let v = ra_read_light (si_prior si) (lb_dimension (si_bounds si)) p c
      in if v > 15 then Inl (Light_Value_Out_Of_Range v) else Inr v)"

definition local_base :: "solve_input \<Rightarrow> usize \<Rightarrow> light_channel \<Rightarrow> light_solve_error + nat" where
  "local_base si index c =
     (case filter_at si index of
       None \<Rightarrow> Inr 0
     | Some f \<Rightarrow> (case c of
         Channel_Block \<Rightarrow> Inr (sample_emission (sample_at_index (si_blocks si) index))
       | Channel_Sky \<Rightarrow>
           let seed = sky_seed_at_index (si_blocks si) index
           in if seed > 15 then Inl (Light_Value_Out_Of_Range seed)
              else Inr (if allows_sky (si_profile si) then seed - f else 0)))"

definition incoming_level :: "nat \<Rightarrow> nat \<Rightarrow> light_channel \<Rightarrow> light_profile \<Rightarrow> i32 \<times> i32 \<times> i32 \<Rightarrow> bool \<Rightarrow> nat" where
  "incoming_level source destination_filter c profile destination_to_source source_is_direct =
     (if c = Channel_Sky \<and> direct_sky_down profile \<and> destination_to_source = (0, 1, 0) \<and> source = 15 \<and>
         source_is_direct \<and> destination_filter = 0
      then 15 else source - max destination_filter 1)"

text \<open>What a neighbour offers: nothing when it is unknown or not trusted, else its level and whether it
  carries direct sky.\<close>

definition neighbour_light ::
    "solve_input \<Rightarrow> light_channel \<Rightarrow> block_pos \<Rightarrow> light_solve_error + (nat \<times> bool) option" where
  "neighbour_light si c n =
     (case cb_index (si_blocks si) n of
       Some index \<Rightarrow>
         (if filter_at si index = None then Inr None
          else and_then (read_prior si n c) (\<lambda>level.
            Inr (Some (level, c = Channel_Sky \<and> prior_direct_at si n))))
     | None \<Rightarrow>
         (if sample_filter (cached_sample (si_blocks si) n) = None then Inr None
          else Inr (trusted_parts (ra_boundary (si_prior si) (lb_dimension (si_bounds si)) n c))))"

fun supported_by :: "solve_input \<Rightarrow> block_pos \<Rightarrow> nat \<Rightarrow> light_channel \<Rightarrow> nat \<Rightarrow> (i32 \<times> i32 \<times> i32) list \<Rightarrow>
    light_solve_error + bool" where
  "supported_by si p f c required [] = Inr False"
| "supported_by si p f c required (offset # offsets) =
     (case checked_offset p offset of
       None \<Rightarrow> supported_by si p f c required offsets
     | Some n \<Rightarrow> and_then (neighbour_light si c n) (\<lambda>offered. case offered of
         None \<Rightarrow> supported_by si p f c required offsets
       | Some (level, direct) \<Rightarrow>
           (if incoming_level level f c (si_profile si) offset direct \<ge> required then Inr True
            else supported_by si p f c required offsets)))"

definition prior_supports_level ::
    "solve_input \<Rightarrow> block_pos \<Rightarrow> usize \<Rightarrow> light_channel \<Rightarrow> nat \<Rightarrow> light_solve_error + bool" where
  "prior_supports_level si p index c required =
     (case filter_at si index of
       None \<Rightarrow> Inr False
     | Some f \<Rightarrow> and_then (local_base si index c) (\<lambda>base.
         if base \<ge> required then Inr True
         else if c = Channel_Sky \<and> \<not> allows_sky (si_profile si) then Inr False
         else
           let neighbours = (if c = Channel_Sky
                 then [NEIGHBOURS ! 3, NEIGHBOURS ! 0, NEIGHBOURS ! 1, NEIGHBOURS ! 2, NEIGHBOURS ! 4, NEIGHBOURS ! 5]
                 else NEIGHBOURS)
           in supported_by si p f c required neighbours))"

subsection \<open>Loading and darkening\<close>

definition both_channels :: "light_channel list" where
  "both_channels = [Channel_Block, Channel_Sky]"

definition load_cell :: "solve_input \<Rightarrow> usize \<times> block_pos \<Rightarrow> mutable_output \<Rightarrow> mutable_output outcome" where
  "load_cell si cell out = (case cell of (index, p) \<Rightarrow>
     (if filter_at si index = None then Some (Inr out)
      else for_each (\<lambda>c out. Some (and_then (read_prior si p c) (\<lambda>old. Inr (set_at_index out index c old))))
        both_channels out))"

record darken_state =
  dk_output :: mutable_output
  dk_queue :: "darken_entry list"
  dk_total :: usize
  dk_stats :: light_solve_stats

definition darken_push :: "solve_input \<Rightarrow> block_pos \<Rightarrow> usize \<Rightarrow> light_channel \<Rightarrow> nat \<Rightarrow> nat \<Rightarrow>
    darken_state \<Rightarrow> light_solve_error + darken_state" where
  "darken_push si p index c base old st =
     and_then (enqueue_counted (dk_total st) 1 (max_entries si)) (\<lambda>count.
       Inr (st\<lparr>dk_output := set_at_index (dk_output st) index c base,
               dk_queue := dk_queue st @ [\<lparr>de_position = p, de_channel = c, de_old_level = old,
                  de_direct = (c = Channel_Sky \<and> prior_direct_at si p)\<rparr>],
               dk_total := count\<rparr>))"

definition seed_darken_cell :: "solve_input \<Rightarrow> usize \<times> block_pos \<Rightarrow> darken_state \<Rightarrow> darken_state outcome" where
  "seed_darken_cell si cell st = (case cell of (index, p) \<Rightarrow>
     (if filter_at si index = None then Some (Inr st)
      else for_each (\<lambda>c st. Some (
          let old = get_at_index (dk_output st) index c
          in and_then (local_base si index c) (\<lambda>base.
               and_then (if old = 0 then Inr True else prior_supports_level si p index c old) (\<lambda>keep.
                 if keep then Inr st
                 else and_then (darken_push si p index c base old st) (\<lambda>st.
                   Inr (st\<lparr>dk_stats := (dk_stats st)\<lparr>st_darken_seeded := st_darken_seeded (dk_stats st) + 1\<rparr>\<rparr>))))))
        both_channels st))"

definition depended_on_removed :: "solve_input \<Rightarrow> darken_entry \<Rightarrow> i32 \<times> i32 \<times> i32 \<Rightarrow> nat \<Rightarrow> bool" where
  "depended_on_removed si entry offset current \<longleftrightarrow>
     current < de_old_level entry \<or>
     (de_channel entry = Channel_Sky \<and> direct_sky_down (si_profile si) \<and> de_direct entry \<and>
      offset = (0, -1, 0) \<and> current = 15 \<and> de_old_level entry = 15)"

definition darken_visit :: "solve_input \<Rightarrow> darken_entry \<Rightarrow> usize \<Rightarrow> nat \<times> (i32 \<times> i32 \<times> i32) \<Rightarrow>
    darken_state \<Rightarrow> darken_state outcome" where
  "darken_visit si entry entry_index step' st = (case step' of (direction, offset) \<Rightarrow>
     (case light_neighbour (si_bounds si) (de_position entry) entry_index direction of
       None \<Rightarrow> Some (Inr st)
     | Some (next', index) \<Rightarrow>
         (if filter_at si index = None then Some (Inr st)
          else
            let current = get_at_index (dk_output st) index (de_channel entry)
            in Some (and_then (local_base si index (de_channel entry)) (\<lambda>base.
                 if current > base \<and> depended_on_removed si entry offset current
                 then and_then (darken_push si next' index (de_channel entry) base current st) (\<lambda>st.
                   Inr (st\<lparr>dk_stats := raise_peak (length (dk_queue st)) (dk_stats st)\<rparr>))
                 else Inr st)))))"

definition darken_one :: "solve_input \<Rightarrow> darken_entry \<Rightarrow> darken_state \<Rightarrow> darken_state outcome" where
  "darken_one si entry st =
     (let st = st\<lparr>dk_stats := (dk_stats st)\<lparr>st_darken_dequeued := st_darken_dequeued (dk_stats st) + 1\<rparr>\<rparr>
      in case mo_index (dk_output st) (de_position entry) of
           None \<Rightarrow> None
         | Some entry_index \<Rightarrow> for_each (darken_visit si entry entry_index) (enumerate 0 NEIGHBOURS) st)"

partial_function (option) darken_loop :: "solve_input \<Rightarrow> darken_state \<Rightarrow> darken_state outcome" where
  "darken_loop si st = (case dk_queue st of
     [] \<Rightarrow> Some (Inr st)
   | entry # queue \<Rightarrow> (case darken_one si entry (st\<lparr>dk_queue := queue\<rparr>) of
       None \<Rightarrow> None
     | Some r \<Rightarrow> (case r of Inl e \<Rightarrow> Some (Inl e) | Inr st' \<Rightarrow> darken_loop si st')))"

subsection \<open>Raising and spreading\<close>

definition raise_cell :: "solve_input \<Rightarrow> usize \<Rightarrow> mutable_output \<Rightarrow> mutable_output outcome" where
  "raise_cell si index out =
     (if filter_at si index = None then Some (Inr out)
      else for_each (\<lambda>c out. Some (and_then (local_base si index c) (\<lambda>base.
          Inr (if base > get_at_index out index c then set_at_index out index c base else out))))
        both_channels out)"

record spread_state =
  sp_output :: mutable_output
  sp_queue :: increase_queue
  sp_direct :: dense_set
  sp_total :: usize
  sp_stats :: light_solve_stats

definition spread_push :: "solve_input \<Rightarrow> increase_entry \<Rightarrow> spread_state \<Rightarrow> light_solve_error + spread_state" where
  "spread_push si entry st =
     and_then (queue_push_back (sp_queue st) entry (sp_total st) (max_entries si)) (\<lambda>(q, count).
       Inr (st\<lparr>sp_queue := q, sp_total := count\<rparr>))"

text \<open>The queues of both channels while the loop over the cells fills them.\<close>

record fill_state =
  fl_block :: increase_queue
  fl_sky :: increase_queue
  fl_direct :: dense_set
  fl_total :: usize

definition fill_queue :: "fill_state \<Rightarrow> light_channel \<Rightarrow> increase_queue" where
  "fill_queue st c = (case c of Channel_Block \<Rightarrow> fl_block st | Channel_Sky \<Rightarrow> fl_sky st)"

definition set_fill_queue :: "fill_state \<Rightarrow> light_channel \<Rightarrow> increase_queue \<Rightarrow> fill_state" where
  "set_fill_queue st c q = (case c of Channel_Block \<Rightarrow> st\<lparr>fl_block := q\<rparr> | Channel_Sky \<Rightarrow> st\<lparr>fl_sky := q\<rparr>)"

definition starts_direct ::
    "solve_input \<Rightarrow> usize \<Rightarrow> block_pos \<Rightarrow> light_channel \<Rightarrow> nat \<Rightarrow> nat \<Rightarrow> light_solve_error + bool" where
  "starts_direct si index p c level f =
     (if c = Channel_Sky \<and> direct_sky_down (si_profile si) \<and> level = 15 \<and> f = 0
      then and_then (local_base si index c) (\<lambda>base. Inr (base = 15 \<or> prior_direct_at si p))
      else Inr False)"

definition fill_cell :: "solve_input \<Rightarrow> mutable_output \<Rightarrow> usize \<times> block_pos \<Rightarrow> fill_state \<Rightarrow> fill_state outcome" where
  "fill_cell si out cell st = (case cell of (index, p) \<Rightarrow>
     (case filter_at si index of
       None \<Rightarrow> Some (Inr st)
     | Some f \<Rightarrow> for_each (\<lambda>c st. Some (
         let level = get_at_index out index c
         in if level = 0 then Inr st
            else and_then (starts_direct si index p c level f) (\<lambda>is_direct.
              let direct = (if is_direct then insert_at_index (fl_direct st) index else fl_direct st)
              in and_then (queue_push_back (fill_queue st c)
                    \<lparr>ie_position = p, ie_index = index, ie_direct = is_direct\<rparr> (fl_total st) (max_entries si))
                   (\<lambda>(q, count). Inr ((set_fill_queue st c q)\<lparr>fl_direct := direct, fl_total := count\<rparr>)))))
       both_channels st))"

text \<open>The strongest light a surface cell receives from the halo.\<close>

primrec halo_candidate :: "solve_input \<Rightarrow> block_pos \<Rightarrow> nat \<Rightarrow> light_channel \<Rightarrow> (i32 \<times> i32 \<times> i32) list \<Rightarrow>
    nat \<times> bool \<Rightarrow> nat \<times> bool" where
  "halo_candidate si p f c [] best = best"
| "halo_candidate si p f c (offset # offsets) best =
     (case checked_offset p offset of
       None \<Rightarrow> halo_candidate si p f c offsets best
     | Some n \<Rightarrow>
         (if bounds_contain (si_bounds si) n \<or> sample_filter (cached_sample (si_blocks si) n) = None
          then halo_candidate si p f c offsets best
          else case trusted_parts (ra_boundary (si_prior si) (lb_dimension (si_bounds si)) n c) of
            None \<Rightarrow> halo_candidate si p f c offsets best
          | Some (prior_level, boundary_is_direct) \<Rightarrow>
              (if prior_level = 0 then halo_candidate si p f c offsets best
               else
                 let direct = (c = Channel_Sky \<and> direct_sky_down (si_profile si) \<and> offset = (0, 1, 0) \<and>
                       prior_level = 15 \<and> boundary_is_direct \<and> f = 0);
                     incoming = (if direct then 15 else prior_level - max f 1)
                 in halo_candidate si p f c offsets
                      (if incoming > fst best \<or> incoming = fst best \<and> direct then (incoming, direct) else best))))"

text \<open>Raising a cell to a candidate level, with or without direct sky, and queueing it if that changed
  something.\<close>

definition offer :: "solve_input \<Rightarrow> light_channel \<Rightarrow> block_pos \<Rightarrow> usize \<Rightarrow> nat \<Rightarrow> bool \<Rightarrow> spread_state \<Rightarrow>
    light_solve_error + spread_state" where
  "offer si c p index candidate direct st =
     (let current = get_at_index (sp_output st) index c;
          st = (if candidate > current then st\<lparr>sp_output := set_at_index (sp_output st) index c candidate\<rparr> else st);
          st = (if direct then st\<lparr>sp_direct := insert_at_index (sp_direct st) index\<rparr> else st)
      in spread_push si \<lparr>ie_position = p, ie_index = index, ie_direct = direct\<rparr> st)"

definition seed_halo_cell :: "solve_input \<Rightarrow> light_channel \<Rightarrow> block_pos \<Rightarrow> spread_state \<Rightarrow> spread_state outcome" where
  "seed_halo_cell si c p st =
     (case sample_filter (cached_sample (si_blocks si) p) of
       None \<Rightarrow> Some (Inr st)
     | Some f \<Rightarrow>
         (case halo_candidate si p f c NEIGHBOURS (0, False) of (candidate, direct) \<Rightarrow>
           (case mo_index (sp_output st) p of
             None \<Rightarrow> None
           | Some index \<Rightarrow>
               let current = get_at_index (sp_output st) index c;
                   gains_direct = (direct \<and> \<not> ds_contains (sp_direct st) p)
               in Some (if candidate > current \<or> candidate = current \<and> candidate \<noteq> 0 \<and> gains_direct
                        then offer si c p index candidate direct st else Inr st))))"

definition seed_boundary_from_halo :: "solve_input \<Rightarrow> light_channel \<Rightarrow> spread_state \<Rightarrow> spread_state outcome" where
  "seed_boundary_from_halo si c st =
     (if c = Channel_Sky \<and> \<not> allows_sky (si_profile si) then Some (Inr st)
      else for_each (seed_halo_cell si c) (collect_positions (bounds_surface_positions (si_bounds si))) st)"

definition spread_visit :: "solve_input \<Rightarrow> light_channel \<Rightarrow> increase_entry \<Rightarrow> nat \<Rightarrow>
    nat \<times> (i32 \<times> i32 \<times> i32) \<Rightarrow> spread_state \<Rightarrow> spread_state outcome" where
  "spread_visit si c entry source step' st = (case step' of (direction, offset) \<Rightarrow>
     (case light_neighbour (si_bounds si) (ie_position entry) (ie_index entry) direction of
       None \<Rightarrow> Some (Inr st)
     | Some (next', index) \<Rightarrow>
         (case filter_at si index of
           None \<Rightarrow> Some (Inr st)
         | Some f \<Rightarrow>
             let continues_direct = (c = Channel_Sky \<and> direct_sky_down (si_profile si) \<and> ie_direct entry \<and>
                   offset = (0, -1, 0) \<and> source = 15 \<and> f = 0);
                 candidate = (if continues_direct then 15 else source - max f 1);
                 current = get_at_index (sp_output st) index c;
                 gains_direct = (continues_direct \<and> \<not> contains_at_index (sp_direct st) index)
             in if candidate > current \<or> candidate = current \<and> gains_direct
                then Some (and_then (offer si c next' index candidate continues_direct st) (\<lambda>st.
                  Inr (st\<lparr>sp_stats := raise_peak (queue_len (sp_queue st)) (sp_stats st)\<rparr>)))
                else Some (Inr st))))"

definition spread_one :: "solve_input \<Rightarrow> light_channel \<Rightarrow> increase_entry \<Rightarrow> spread_state \<Rightarrow> spread_state outcome" where
  "spread_one si c entry st =
     (let st = st\<lparr>sp_stats := (sp_stats st)\<lparr>st_increase_dequeued := st_increase_dequeued (sp_stats st) + 1\<rparr>\<rparr>;
          source = get_at_index (sp_output st) (ie_index entry) c
      in for_each (spread_visit si c entry source) (enumerate 0 NEIGHBOURS) st)"

partial_function (option) spread_loop :: "solve_input \<Rightarrow> light_channel \<Rightarrow> spread_state \<Rightarrow> spread_state outcome" where
  "spread_loop si c st = (case queue_pop_front (sp_queue st) of
     None \<Rightarrow> Some (Inr st)
   | Some (entry, queue) \<Rightarrow> (case spread_one si c entry (st\<lparr>sp_queue := queue\<rparr>) of
       None \<Rightarrow> None
     | Some r \<Rightarrow> (case r of Inl e \<Rightarrow> Some (Inl e) | Inr st' \<Rightarrow> spread_loop si c st')))"

definition propagate :: "solve_input \<Rightarrow> light_channel \<Rightarrow> spread_state \<Rightarrow> spread_state outcome" where
  "propagate si c st =
     then_do (seed_boundary_from_halo si c st) (\<lambda>st.
       spread_loop si c (st\<lparr>sp_stats := raise_peak (queue_len (sp_queue st)) (sp_stats st)\<rparr>))"

subsection \<open>A whole solve\<close>

definition load_and_darken :: "solve_input \<Rightarrow> u64 \<Rightarrow> usize \<Rightarrow> darken_state outcome" where
  "load_and_darken si generation volume =
     (let cells = enumerate 0 (collect_positions (bounds_positions (si_bounds si)))
      in then_do (for_each (load_cell si) cells (new_mutable_output (si_bounds si) generation volume)) (\<lambda>out.
           then_do (for_each (seed_darken_cell si) cells
               \<lparr>dk_output = out, dk_queue = [], dk_total = 0, dk_stats = no_stats\<rparr>) (\<lambda>st.
             darken_loop si (st\<lparr>dk_stats := raise_peak (length (dk_queue st)) (dk_stats st)\<rparr>))))"

definition solve_cells :: "solve_input \<Rightarrow> u64 \<Rightarrow> usize \<Rightarrow> increase_queue \<Rightarrow> increase_queue \<Rightarrow>
    (mutable_output \<times> dense_set \<times> light_solve_stats) outcome" where
  "solve_cells si generation volume block_increase sky_increase =
     then_do (load_and_darken si generation volume) (\<lambda>dark.
     then_do (for_each (raise_cell si) [0..<volume] (dk_output dark)) (\<lambda>out.
     then_do (for_each (fill_cell si out) (enumerate 0 (collect_positions (bounds_positions (si_bounds si))))
         \<lparr>fl_block = block_increase, fl_sky = sky_increase, fl_direct = new_dense_set (si_bounds si) volume,
          fl_total = dk_total dark\<rparr>) (\<lambda>fill.
     then_do (propagate si Channel_Block \<lparr>sp_output = out, sp_queue = fl_block fill, sp_direct = fl_direct fill,
         sp_total = fl_total fill, sp_stats = dk_stats dark\<rparr>) (\<lambda>st.
     then_do (propagate si Channel_Sky (st\<lparr>sp_queue := fl_sky fill\<rparr>)) (\<lambda>st.
       Some (Inr (sp_output st, sp_direct st, sp_stats st)))))))"

end
