(* ===== verification/Light_Field.thy ===== *)
theory Light_Field
  imports Light_Solve
begin

section \<open>The light field\<close>

text \<open>
  The field a solve computes, as an inductive definition: a cell is lit by its own source, by the
  trusted halo around the bounds, and by a lit neighbour, each step into a cell costing that cell's
  filter and at least one level, except direct sky, which falls through open cells undiminished.
  Then the rules for steps that may fail, and the view of the dense buffers as fields.
\<close>

subsection \<open>What a solve is given\<close>

abbreviation filt :: "solve_input \<Rightarrow> block_pos \<Rightarrow> nat option" where
  "filt si p \<equiv> sample_filter (ba_sample (cb_source (si_blocks si)) p)"

definition base_level :: "solve_input \<Rightarrow> light_channel \<Rightarrow> block_pos \<Rightarrow> nat" where
  "base_level si c p = (case filt si p of
     None \<Rightarrow> 0
   | Some f \<Rightarrow> (case c of
       Channel_Block \<Rightarrow> sample_emission (ba_sample (cb_source (si_blocks si)) p)
     | Channel_Sky \<Rightarrow> if allows_sky (si_profile si) then ba_sky_seed (cb_source (si_blocks si)) p - f else 0))"

definition halo_light :: "solve_input \<Rightarrow> light_channel \<Rightarrow> block_pos \<Rightarrow> (nat \<times> bool) option" where
  "halo_light si c n =
     (if bounds_contain (si_bounds si) n \<or> filt si n = None \<or> (c = Channel_Sky \<and> \<not> allows_sky (si_profile si))
      then None else trusted_parts (ra_boundary (si_prior si) (lb_dimension (si_bounds si)) n c))"

text \<open>Whether light stays direct sky on its way into a cell of filter \<open>f\<close>.\<close>

definition stays_direct :: "solve_input \<Rightarrow> light_channel \<Rightarrow> nat \<Rightarrow> i32 \<times> i32 \<times> i32 \<Rightarrow> nat \<Rightarrow> bool \<Rightarrow> bool" where
  "stays_direct si c f offset l d \<longleftrightarrow>
     c = Channel_Sky \<and> direct_sky_down (si_profile si) \<and> offset = (0, 1, 0) \<and> l = 15 \<and> d \<and> f = 0"

inductive lit :: "solve_input \<Rightarrow> light_channel \<Rightarrow> block_pos \<Rightarrow> nat \<Rightarrow> bool \<Rightarrow> bool" for si c where
  source: "bounds_contain (si_bounds si) p \<Longrightarrow> filt si p = Some f \<Longrightarrow>
    lit si c p (base_level si c p)
      (c = Channel_Sky \<and> direct_sky_down (si_profile si) \<and> base_level si c p = 15 \<and> f = 0)"
| halo: "bounds_contain (si_bounds si) p \<Longrightarrow> filt si p = Some f \<Longrightarrow> offset \<in> set NEIGHBOURS \<Longrightarrow>
    checked_offset p offset = Some n \<Longrightarrow> halo_light si c n = Some (l, d) \<Longrightarrow>
    lit si c p (incoming_level l f c (si_profile si) offset d) (stays_direct si c f offset l d)"
| step: "lit si c (step p offset) l d \<Longrightarrow> bounds_contain (si_bounds si) p \<Longrightarrow> filt si p = Some f \<Longrightarrow>
    offset \<in> set NEIGHBOURS \<Longrightarrow>
    lit si c p (incoming_level l f c (si_profile si) offset d) (stays_direct si c f offset l d)"

text \<open>The inputs a solve accepts: samples and trusted light of nibbles, as their constructors ensure,
  a region whose indices fit, and the cache of this source over these bounds.\<close>

definition nibble_sample :: "light_block_sample \<Rightarrow> bool" where
  "nibble_sample s \<longleftrightarrow> sample_emission s \<le> 15 \<and> (\<forall>f. sample_filter s = Some f \<longrightarrow> f \<le> 15)"

definition solve_ok :: "solve_input \<Rightarrow> nat \<Rightarrow> bool" where
  "solve_ok si V \<longleftrightarrow> region (si_bounds si) V \<and> V \<le> U32_MAX \<and>
     si_blocks si = new_cached_blocks (cb_source (si_blocks si)) (si_bounds si) \<and>
     (\<forall>p. nibble_sample (ba_sample (cb_source (si_blocks si)) p)) \<and>
     (\<forall>dim p c l d. ra_boundary (si_prior si) dim p c = Boundary_Trusted l d \<longrightarrow> l \<le> 15)"

definition seeds_ok :: "solve_input \<Rightarrow> bool" where
  "seeds_ok si \<longleftrightarrow> (\<forall>p. bounds_contain (si_bounds si) p \<and> filt si p \<noteq> None \<longrightarrow>
     ba_sky_seed (cb_source (si_blocks si)) p \<le> 15)"

definition prior_ok :: "solve_input \<Rightarrow> bool" where
  "prior_ok si \<longleftrightarrow> (\<forall>p c. bounds_contain (si_bounds si) p \<and> filt si p \<noteq> None \<longrightarrow>
     ra_read_light (si_prior si) (lb_dimension (si_bounds si)) p c \<le> 15)"

lemma direct_needs_overworld: "direct_sky_down profile \<Longrightarrow> allows_sky profile"
  by (cases profile) (simp_all add: direct_sky_down_def allows_sky_def)

lemma incoming_eq:
  "incoming_level l f c (si_profile si) offset d =
    (if stays_direct si c f offset l d then 15 else l - max f 1)"
  by (auto simp: incoming_level_def stays_direct_def)

lemma incoming_le: "l \<le> 15 \<Longrightarrow> incoming_level l f c profile offset d \<le> 15"
  unfolding incoming_level_def by (simp add: le_trans [OF diff_le_self])

lemma cached_index:
  assumes "solve_ok si V"
  shows "cb_index (si_blocks si) p = (if bounds_contain (si_bounds si) p then Some (rank (si_bounds si) p) else None)"
proof -
  have "cb_bounds (si_blocks si) = si_bounds si"
    using assms by (metis (no_types, lifting) solve_ok_def new_cached_blocks_def cached_blocks.select_convs(2))
  then show ?thesis using assms by (simp add: cb_index_def dense_index_eq [of _ V] solve_ok_def region_def)
qed

lemma cached_reads:
  assumes ok: "solve_ok si V" and p: "bounds_contain (si_bounds si) p"
  shows "sample_at_index (si_blocks si) (rank (si_bounds si) p) = ba_sample (cb_source (si_blocks si)) p"
    and "sky_seed_at_index (si_blocks si) (rank (si_bounds si) p) = ba_sky_seed (cb_source (si_blocks si)) p"
proof -
  have r: "region (si_bounds si) V" and
    c: "si_blocks si = new_cached_blocks (cb_source (si_blocks si)) (si_bounds si)"
    using ok by (simp_all add: solve_ok_def)
  have s: "cb_samples (si_blocks si) = map (ba_sample (cb_source (si_blocks si))) (dense_cells (si_bounds si))"
    "cb_sky_seeds (si_blocks si) = map (ba_sky_seed (cb_source (si_blocks si))) (dense_cells (si_bounds si))"
    using arg_cong [OF c, of cb_samples] arg_cong [OF c, of cb_sky_seeds]
    by (simp_all add: new_cached_blocks_def Let_def region_facts(6) [OF r])
  show "sample_at_index (si_blocks si) (rank (si_bounds si) p) = ba_sample (cb_source (si_blocks si)) p"
    "sky_seed_at_index (si_blocks si) (rank (si_bounds si) p) = ba_sky_seed (cb_source (si_blocks si)) p"
    using region_facts(1,4,5) [OF r] p by (simp_all add: sample_at_index_def sky_seed_at_index_def s)
qed

lemma cached_sample_eq:
  assumes "solve_ok si V"
  shows "cached_sample (si_blocks si) p = ba_sample (cb_source (si_blocks si)) p"
  using cached_reads(1) [OF assms]
  by (simp add: cached_sample_def cached_index [OF assms] sample_at_index_def)

lemma local_base_eq:
  assumes "solve_ok si V" and "bounds_contain (si_bounds si) p"
  shows "local_base si (rank (si_bounds si) p) c =
    (if c = Channel_Sky \<and> filt si p \<noteq> None \<and> ba_sky_seed (cb_source (si_blocks si)) p > 15
     then Inl (Light_Value_Out_Of_Range (ba_sky_seed (cb_source (si_blocks si)) p))
     else Inr (base_level si c p))"
  by (simp add: local_base_def base_level_def cached_reads [OF assms] split: option.split light_channel.split)

lemma base_le:
  assumes "solve_ok si V" and "seeds_ok si" and "bounds_contain (si_bounds si) p"
  shows "base_level si c p \<le> 15"
proof (cases "filt si p")
  case (Some f)
  have "nibble_sample (ba_sample (cb_source (si_blocks si)) p)" using assms(1) by (simp add: solve_ok_def)
  moreover have "ba_sky_seed (cb_source (si_blocks si)) p \<le> 15" using assms(2,3) Some by (simp add: seeds_ok_def)
  ultimately show ?thesis by (cases c) (auto simp: base_level_def Some nibble_sample_def)
qed (simp add: base_level_def)

lemma halo_le: "solve_ok si V \<Longrightarrow> halo_light si c n = Some (l, d) \<Longrightarrow> l \<le> 15"
proof -
  assume ok: "solve_ok si V" and "halo_light si c n = Some (l, d)"
  then have "ra_boundary (si_prior si) (lb_dimension (si_bounds si)) n c = Boundary_Trusted l d"
    by (auto simp: halo_light_def trusted_parts_def split: if_splits boundary_sample.splits)
  then show "l \<le> 15" using ok unfolding solve_ok_def by blast
qed

subsection \<open>Lit cells\<close>

lemma lit_cell: "lit si c p l d \<Longrightarrow> bounds_contain (si_bounds si) p \<and> filt si p \<noteq> None"
  by (induction rule: lit.induct) simp_all

lemma lit_le:
  assumes "solve_ok si V" "seeds_ok si"
  shows "lit si c p l d \<Longrightarrow> l \<le> 15"
proof (induction rule: lit.induct)
  case (source p f)
  then show ?case using base_le [OF assms] by simp
next
  case (halo p f offset n l d)
  then show ?case using halo_le [OF assms(1)] incoming_le by blast
next
  case (step p offset l d f)
  then show ?case using incoming_le by blast
qed

lemma lit_direct:
  "lit si c p l d \<Longrightarrow> d \<Longrightarrow> l = 15 \<and> c = Channel_Sky \<and> direct_sky_down (si_profile si) \<and> filt si p = Some 0"
  by (induction rule: lit.induct) (auto simp: incoming_eq stays_direct_def)

text \<open>Full sky light in an open cell is direct, when sky falls directly at all.\<close>

lemma lit_full_sky:
  assumes ok: "solve_ok si V" "seeds_ok si"
    and lit: "lit si Channel_Sky p 15 d" and down: "direct_sky_down (si_profile si)"
  shows "filt si p = Some 0 \<and> lit si Channel_Sky p 15 True"
  using lit
proof (cases rule: lit.cases)
  case (source f)
  have base: "base_level si Channel_Sky p = 15" using source by simp
  have "ba_sky_seed (cb_source (si_blocks si)) p \<le> 15" using ok(2) source by (simp add: seeds_ok_def)
  then have "f = 0" using base source direct_needs_overworld [OF down] by (simp add: base_level_def)
  moreover have "bounds_contain (si_bounds si) p" "filt si p = Some f" using source by blast+
  ultimately show ?thesis using lit.source [of si p f Channel_Sky] base down by simp
next
  case (halo f offset n l d')
  have "l \<le> 15" by (rule halo_le [OF ok(1)]) (rule halo)
  then have d: "stays_direct si Channel_Sky f offset l d'" using halo(1) by (auto simp: incoming_eq split: if_splits)
  have "lit si Channel_Sky p (incoming_level l f Channel_Sky (si_profile si) offset d')
      (stays_direct si Channel_Sky f offset l d')" by (rule lit.halo) (use halo in blast)+
  then show ?thesis using d halo(4) by (simp add: incoming_eq) (simp add: stays_direct_def)
next
  case (step offset l d' f)
  have "l \<le> 15" by (rule lit_le [OF ok]) (rule step)
  then have d: "stays_direct si Channel_Sky f offset l d'" using step(1) by (auto simp: incoming_eq split: if_splits)
  have "lit si Channel_Sky p (incoming_level l f Channel_Sky (si_profile si) offset d')
      (stays_direct si Channel_Sky f offset l d')" by (rule lit.step) (use step in blast)+
  then show ?thesis using d step(5) by (simp add: incoming_eq) (simp add: stays_direct_def)
qed

text \<open>Without sky there is no sky light.\<close>

lemma dark_sky:
  assumes "\<not> allows_sky (si_profile si)"
  shows "lit si Channel_Sky p l d \<Longrightarrow> l = 0"
proof (induction rule: lit.induct)
  case (source p f)
  then show ?case using assms by (simp add: base_level_def)
next
  case (halo p f offset n l d)
  then show ?case using assms by (simp add: halo_light_def split: if_splits)
next
  case (step p offset l d f)
  then show ?case using assms direct_needs_overworld by (auto simp: incoming_level_def)
qed

text \<open>The level of the field: the brightest light that reaches a cell.\<close>

definition field_level :: "solve_input \<Rightarrow> light_channel \<Rightarrow> block_pos \<Rightarrow> nat \<Rightarrow> bool" where
  "field_level si c p l \<longleftrightarrow> (\<forall>l' d. lit si c p l' d \<longrightarrow> l' \<le> l) \<and> (l = 0 \<or> (\<exists>d. lit si c p l d))"

lemma field_level_unique: "field_level si c p l \<Longrightarrow> field_level si c p l' \<Longrightarrow> l = l'"
  unfolding field_level_def by (metis le_antisym le_zero_eq)

end
