(* ===== verification/Light_Rules.thy ===== *)
theory Light_Rules
  imports Light_Field
begin

section \<open>Rules for the steps of a solve\<close>

text \<open>
  A step satisfies \<open>wp E Q\<close> when it returns, with an error in \<open>E\<close> or a state in \<open>Q\<close>: total
  correctness with an error postcondition.  The rules for sequences, loops over a list and worklist
  loops follow, and the view of the dense buffers as functions of a channel and a position.
\<close>

definition wp :: "('e \<Rightarrow> bool) \<Rightarrow> ('s \<Rightarrow> bool) \<Rightarrow> ('e + 's) option \<Rightarrow> bool" where
  "wp E Q m \<longleftrightarrow> (case m of None \<Rightarrow> False | Some r \<Rightarrow> (case r of Inl e \<Rightarrow> E e | Inr s \<Rightarrow> Q s))"

lemma wp_simps [simp]:
  "wp E Q (Some (Inr s)) = Q s" "wp E Q (Some (Inl e)) = E e" "wp E Q None = False"
  by (simp_all add: wp_def)

lemma wp_mono: "wp E Q m \<Longrightarrow> (\<And>s. Q s \<Longrightarrow> R s) \<Longrightarrow> wp E R m"
  by (auto simp: wp_def split: option.splits sum.splits)

lemma wp_then_do: "wp E (\<lambda>s. wp E Q (f s)) m \<Longrightarrow> wp E Q (then_do m f)"
  by (auto simp: wp_def then_do_def split: option.splits sum.splits)

lemma wp_seq: "wp E R m \<Longrightarrow> (\<And>s. R s \<Longrightarrow> wp E Q (f s)) \<Longrightarrow> wp E Q (then_do m f)"
  by (rule wp_then_do) (rule wp_mono)

lemma wp_and_then: "wp E (\<lambda>s. wp E Q (Some (f s))) (Some m) \<Longrightarrow> wp E Q (Some (and_then m f))"
  by (cases m) simp_all

lemma wp_seq_res: "wp E R (Some m) \<Longrightarrow> (\<And>s. R s \<Longrightarrow> wp E Q (Some (f s))) \<Longrightarrow> wp E Q (Some (and_then m f))"
  by (cases m) simp_all

lemma wp_inr: "m = Inr x \<Longrightarrow> wp E Q (Some (f x)) \<Longrightarrow> wp E Q (Some (and_then m f))"
  by simp

lemma wp_for_each_from:
  assumes "\<And>done x todo s. xs = done @ x # todo \<Longrightarrow> I done s \<Longrightarrow> wp E (I (done @ [x])) (f x s)"
    and "xs = ys @ zs" and "I ys s"
  shows "wp E (I xs) (for_each f zs s)"
  using assms(2,3)
proof (induction zs arbitrary: ys s)
  case (Cons z zs)
  show ?case
    unfolding for_each.simps
    by (rule wp_seq [OF assms(1) [OF Cons.prems]], rule Cons.IH) (simp_all add: Cons.prems(1))
qed simp

text \<open>The rule of a loop over a list: the invariant speaks of the elements already visited.\<close>

lemma wp_for_each:
  assumes "I [] s" and "\<And>done x todo s. xs = done @ x # todo \<Longrightarrow> I done s \<Longrightarrow> wp E (I (done @ [x])) (f x s)"
  shows "wp E (I xs) (for_each f xs s)"
  using wp_for_each_from [where I = I and xs = xs and ys = "[]" and zs = xs and f = f] assms by simp

lemma wp_for_each_keep:
  assumes "I s" and "\<And>x s. x \<in> set xs \<Longrightarrow> I s \<Longrightarrow> wp E I (f x s)"
  shows "wp E I (for_each f xs s)"
  by (rule wp_for_each [where I = "\<lambda>_. I"]) (simp_all add: assms)

lemma wp_both_channels:
  assumes "wp E R (f Channel_Block s)" and "\<And>s. R s \<Longrightarrow> wp E Q (f Channel_Sky s)"
  shows "wp E Q (for_each f both_channels s)"
  unfolding both_channels_def for_each.simps
  by (rule wp_seq [OF assms(1)], rule wp_seq [OF assms(2)]) simp_all

text \<open>The rules of the two worklist loops: a step keeps the invariant and makes the state smaller.\<close>

lemma darken_loop_step:
  "dk_queue st = entry # queue \<Longrightarrow> darken_loop si st =
    then_do (darken_one si entry (st\<lparr>dk_queue := queue\<rparr>)) (darken_loop si)"
  by (subst darken_loop.simps) (simp add: then_do_def)

lemma spread_loop_step:
  "queue_pop_front (sp_queue st) = Some (entry, queue) \<Longrightarrow> spread_loop si c st =
    then_do (spread_one si c entry (st\<lparr>sp_queue := queue\<rparr>)) (spread_loop si c)"
  by (subst spread_loop.simps) (simp add: then_do_def)

lemma wp_darken_loop:
  assumes wf: "wf r" and inv: "I st"
    and one: "\<And>st entry queue. I st \<Longrightarrow> dk_queue st = entry # queue \<Longrightarrow>
      wp E (\<lambda>st'. I st' \<and> (st', st) \<in> r) (darken_one si entry (st\<lparr>dk_queue := queue\<rparr>))"
  shows "wp E (\<lambda>st'. I st' \<and> dk_queue st' = []) (darken_loop si st)"
  using wf inv
proof (induction st rule: wf_induct_rule)
  case (less st)
  show ?case
  proof (cases "dk_queue st")
    case Nil
    then show ?thesis using less.prems by (subst darken_loop.simps) simp
  next
    case (Cons entry queue)
    show ?thesis
      unfolding darken_loop_step [OF Cons]
      by (rule wp_seq [OF one [OF less.prems Cons]]) (blast intro: less.IH)
  qed
qed

lemma wp_spread_loop:
  assumes wf: "wf r" and inv: "I st"
    and one: "\<And>st entry queue. I st \<Longrightarrow> queue_pop_front (sp_queue st) = Some (entry, queue) \<Longrightarrow>
      wp E (\<lambda>st'. I st' \<and> (st', st) \<in> r) (spread_one si c entry (st\<lparr>sp_queue := queue\<rparr>))"
  shows "wp E (\<lambda>st'. I st' \<and> queue_pop_front (sp_queue st') = None) (spread_loop si c st)"
  using wf inv
proof (induction st rule: wf_induct_rule)
  case (less st)
  show ?case
  proof (cases "queue_pop_front (sp_queue st)")
    case None
    then show ?thesis using less.prems by (subst spread_loop.simps) simp
  next
    case (Some popped)
    obtain entry queue where popped: "popped = (entry, queue)" by fastforce
    note pop = Some [unfolded popped]
    show ?thesis
      unfolding spread_loop_step [OF pop]
      by (rule wp_seq [OF one [OF less.prems pop]]) (blast intro: less.IH)
  qed
qed

subsection \<open>Buffers as fields\<close>

definition lev :: "mutable_output \<Rightarrow> light_channel \<Rightarrow> block_pos \<Rightarrow> nat" where
  "lev out c p = get_at_index out (rank (mo_bounds out) p) c"

definition out_ok :: "solve_input \<Rightarrow> nat \<Rightarrow> mutable_output \<Rightarrow> bool" where
  "out_ok si V out \<longleftrightarrow> mo_bounds out = si_bounds si \<and> length (mo_values out) = V \<and> length (mo_known out) = V"

definition in_set :: "dense_set \<Rightarrow> block_pos \<Rightarrow> bool" where
  "in_set s p \<longleftrightarrow> contains_at_index s (rank (ds_bounds s) p)"

definition set_ok :: "solve_input \<Rightarrow> nat \<Rightarrow> dense_set \<Rightarrow> bool" where
  "set_ok si V s \<longleftrightarrow> ds_bounds s = si_bounds si \<and> length (ds_present s) = V"

text \<open>The cells a solve lights.\<close>

definition open_cells :: "solve_input \<Rightarrow> block_pos set" where
  "open_cells si = {p. bounds_contain (si_bounds si) p \<and> filt si p \<noteq> None}"

lemma pick_put [simp]: "pick c' (put c v x) = (if c' = c then v else pick c' x)"
  by (cases c; cases c'; simp add: pick_def put_def)

lemma region_of_ok: "solve_ok si V \<Longrightarrow> region (si_bounds si) V"
  by (simp add: solve_ok_def)

lemma set_level_ok [simp]: "out_ok si V (set_at_index out i c v) = out_ok si V out"
  by (simp add: out_ok_def set_at_index_def)

lemma lev_set:
  assumes ok: "solve_ok si V" and out: "out_ok si V out"
    and p: "bounds_contain (si_bounds si) p" and q: "bounds_contain (si_bounds si) q"
  shows "lev (set_at_index out (rank (si_bounds si) p) c v) c' q = (if c' = c \<and> q = p then v else lev out c' q)"
proof -
  have "rank (si_bounds si) p < length (mo_values out)"
    using region_facts(4) [OF region_of_ok [OF ok] p] out by (simp add: out_ok_def)
  then show ?thesis
    using rank_inj [OF region_of_ok [OF ok] p q] out
    by (auto simp: lev_def get_at_index_def set_at_index_def out_ok_def nth_list_update)
qed

lemma set_insert_ok [simp]: "set_ok si V (insert_at_index s i) = set_ok si V s"
  by (simp add: set_ok_def insert_at_index_def)

lemma in_set_insert:
  assumes ok: "solve_ok si V" and s: "set_ok si V s"
    and p: "bounds_contain (si_bounds si) p" and q: "bounds_contain (si_bounds si) q"
  shows "in_set (insert_at_index s (rank (si_bounds si) p)) q \<longleftrightarrow> q = p \<or> in_set s q"
proof -
  have "rank (si_bounds si) p < length (ds_present s)"
    using region_facts(4) [OF region_of_ok [OF ok] p] s by (simp add: set_ok_def)
  then show ?thesis
    using rank_inj [OF region_of_ok [OF ok] p q] s
    by (auto simp: in_set_def contains_at_index_def insert_at_index_def set_ok_def nth_list_update)
qed

lemma ds_contains_eq:
  assumes "solve_ok si V" "set_ok si V s" "bounds_contain (si_bounds si) p"
  shows "ds_contains s p = in_set s p"
  using assms by (simp add: ds_contains_def in_set_def set_ok_def dense_index_eq [of _ V] solve_ok_def region_def)

lemma mo_index_eq:
  assumes "solve_ok si V" "out_ok si V out"
  shows "mo_index out p = (if bounds_contain (si_bounds si) p then Some (rank (si_bounds si) p) else None)"
  using assms by (simp add: mo_index_def out_ok_def dense_index_eq [of _ V] solve_ok_def region_def)

lemma get_is_lev: "out_ok si V out \<Longrightarrow> get_at_index out (rank (si_bounds si) p) c = lev out c p"
  by (simp add: lev_def out_ok_def)

lemma cells_card: "solve_ok si V \<Longrightarrow> finite {p. bounds_contain (si_bounds si) p} \<and> card {p. bounds_contain (si_bounds si) p} = V"
  using region_facts(1,2) [OF region_of_ok, of si V] set_dense_cells [of "si_bounds si"]
  by (metis List.finite_set distinct_card)

lemma finite_open_cells: "solve_ok si V \<Longrightarrow> finite (open_cells si)"
  using cells_card by (auto simp: open_cells_def)

lemma card_open_cells: "solve_ok si V \<Longrightarrow> card (open_cells si) \<le> V"
  using cells_card [of si V] by (metis (mono_tags, lifting) card_mono mem_Collect_eq open_cells_def subsetI)

lemma cell_loop:
  "solve_ok si V \<Longrightarrow> enumerate 0 (collect_positions (bounds_positions (si_bounds si))) =
     map (\<lambda>p. (rank (si_bounds si) p, p)) (dense_cells (si_bounds si))"
  by (rule enumerate_cells [OF region_of_ok])

lemma in_dense_cells: "p \<in> set (dense_cells b) \<longleftrightarrow> bounds_contain b p"
  by (simp add: set_dense_cells)

lemma open_cell_iff: "p \<in> open_cells si \<longleftrightarrow> bounds_contain (si_bounds si) p \<and> filt si p \<noteq> None"
  by (simp add: open_cells_def)

text \<open>Loops over the cells, by position.\<close>

lemma wp_each_cell:
  assumes ok: "solve_ok si V" and init: "I [] s"
    and body: "\<And>done p todo s. dense_cells (si_bounds si) = done @ p # todo \<Longrightarrow> bounds_contain (si_bounds si) p \<Longrightarrow>
      I done s \<Longrightarrow> wp E (I (done @ [p])) (f (rank (si_bounds si) p, p) s)"
  shows "wp E (I (dense_cells (si_bounds si)))
    (for_each f (enumerate 0 (collect_positions (bounds_positions (si_bounds si)))) s)"
proof -
  let ?cell = "\<lambda>p. (rank (si_bounds si) p, p)"
  have eq: "for_each f (map ?cell ps) s = for_each (\<lambda>p. f (?cell p)) ps s" for ps s
    by (induction ps arbitrary: s) (auto simp: then_do_def split: option.splits sum.splits)
  show ?thesis
    unfolding cell_loop [OF ok] eq
  proof (rule wp_for_each [where I = I])
    show "I [] s" by (rule init)
  next
    fix done' p todo s
    assume d: "dense_cells (si_bounds si) = done' @ p # todo" and I: "I done' s"
    from d have "bounds_contain (si_bounds si) p" by (simp flip: in_dense_cells)
    then show "wp E (I (done' @ [p])) (f (?cell p) s)" by (rule body [OF d _ I])
  qed
qed

text \<open>What an enqueue may fail with, and that it stays within its budget.\<close>

definition solve_error :: "solve_input \<Rightarrow> nat \<Rightarrow> light_solve_error \<Rightarrow> bool" where
  "solve_error si budget e = (case e of
     Queue_Limit_Exceeded m \<Rightarrow> m = max_entries si \<and> m < budget
   | Light_Value_Out_Of_Range v \<Rightarrow> v > 15 \<and> \<not> (seeds_ok si \<and> prior_ok si)
   | _ \<Rightarrow> False)"

lemma wp_enqueue:
  assumes "count + 1 \<le> budget" and "\<And>count'. count' \<le> count + 1 \<Longrightarrow> Q count'"
  shows "wp (solve_error si budget) Q (Some (enqueue_counted count 1 (max_entries si)))"
  using assms by (auto simp: enqueue_counted_def Let_def solve_error_def)

lemma wp_local_base:
  assumes ok: "solve_ok si V" and p: "p \<in> open_cells si"
    and "(c = Channel_Sky \<longrightarrow> ba_sky_seed (cb_source (si_blocks si)) p \<le> 15) \<Longrightarrow> Q (base_level si c p)"
  shows "wp (solve_error si budget) Q (Some (local_base si (rank (si_bounds si) p) c))"
proof -
  have b: "bounds_contain (si_bounds si) p" and f: "filt si p \<noteq> None" using p by (simp_all add: open_cell_iff)
  show ?thesis
    using assms(3) b f by (auto simp: local_base_eq [OF ok b] solve_error_def seeds_ok_def not_le)
qed

lemma filter_at_eq:
  "solve_ok si V \<Longrightarrow> bounds_contain (si_bounds si) p \<Longrightarrow> filter_at si (rank (si_bounds si) p) = filt si p"
  by (simp add: cached_reads)

end
