(* ===== verification/Light_Darken.thy ===== *)
theory Light_Darken
  imports Light_Rules
begin

section \<open>Loading and darkening\<close>

text \<open>
  What the first half of a solve establishes: after the previous light is loaded and everything that
  lost its support is removed, no cell is brighter than the field, whatever the previous light was.
\<close>

abbreviation prior_level :: "solve_input \<Rightarrow> light_channel \<Rightarrow> block_pos \<Rightarrow> nat" where
  "prior_level si c p \<equiv> ra_read_light (si_prior si) (lb_dimension (si_bounds si)) p c"

subsection \<open>The loaded buffers\<close>

text \<open>Open cells are the known ones; the others stay dark.\<close>

definition shape :: "solve_input \<Rightarrow> nat \<Rightarrow> mutable_output \<Rightarrow> bool" where
  "shape si V out \<longleftrightarrow> out_ok si V out \<and>
     (\<forall>p. bounds_contain (si_bounds si) p \<longrightarrow> mo_known out ! rank (si_bounds si) p = (filt si p \<noteq> None)) \<and>
     (\<forall>c p. bounds_contain (si_bounds si) p \<and> filt si p = None \<longrightarrow> lev out c p = 0)"

lemma shape_out_ok: "shape si V out \<Longrightarrow> out_ok si V out"
  by (simp add: shape_def)

lemma known_set:
  assumes "solve_ok si V" "out_ok si V out" "bounds_contain (si_bounds si) p" "bounds_contain (si_bounds si) q"
  shows "mo_known (set_at_index out (rank (si_bounds si) p) c v) ! rank (si_bounds si) q =
    (q = p \<or> mo_known out ! rank (si_bounds si) q)"
proof -
  have "rank (si_bounds si) p < length (mo_known out)"
    using region_facts(4) [OF region_of_ok [OF assms(1)] assms(3)] assms(2) by (simp add: out_ok_def)
  then show ?thesis
    using rank_inj [OF region_of_ok [OF assms(1)] assms(3,4)] by (auto simp: set_at_index_def nth_list_update)
qed

lemma shape_set:
  assumes ok: "solve_ok si V" and out: "shape si V out" and p: "p \<in> open_cells si"
  shows "shape si V (set_at_index out (rank (si_bounds si) p) c v)"
  using out p
  by (auto simp: shape_def open_cell_iff lev_set [OF ok] known_set [OF ok])

lemma lev_set_open:
  "solve_ok si V \<Longrightarrow> shape si V out \<Longrightarrow> p \<in> open_cells si \<Longrightarrow> q \<in> open_cells si \<Longrightarrow>
    lev (set_at_index out (rank (si_bounds si) p) c v) c' q = (if c' = c \<and> q = p then v else lev out c' q)"
  by (simp add: lev_set shape_out_ok open_cell_iff)

definition loaded :: "solve_input \<Rightarrow> nat \<Rightarrow> block_pos set \<Rightarrow> mutable_output \<Rightarrow> bool" where
  "loaded si V cells out \<longleftrightarrow> out_ok si V out \<and>
     (\<forall>p. bounds_contain (si_bounds si) p \<longrightarrow>
        mo_known out ! rank (si_bounds si) p = (p \<in> cells \<and> filt si p \<noteq> None) \<and>
        (\<forall>c. if p \<in> cells \<and> filt si p \<noteq> None
             then lev out c p = prior_level si c p \<and> prior_level si c p \<le> 15 else lev out c p = 0))"

lemma load_channel:
  assumes "\<And>v. v = prior_level si c p \<Longrightarrow> v \<le> 15 \<Longrightarrow> Q (set_at_index out (rank (si_bounds si) p) c v)"
    and "p \<in> open_cells si"
  shows "wp (solve_error si budget) Q (Some (and_then (read_prior si p c) (\<lambda>old.
    Inr (set_at_index out (rank (si_bounds si) p) c old))))"
proof (cases "prior_level si c p \<le> 15")
  case True
  then show ?thesis using assms(1) by (simp add: read_prior_def)
next
  case False
  then have "\<not> prior_ok si" using assms(2) unfolding prior_ok_def open_cell_iff by blast
  then show ?thesis using False by (simp add: read_prior_def solve_error_def)
qed

lemma load_all:
  assumes ok: "solve_ok si V"
  shows "wp (solve_error si budget) (\<lambda>out. shape si V out \<and> prior_ok si \<and>
      (\<forall>p\<in>open_cells si. \<forall>c. lev out c p = prior_level si c p))
    (for_each (load_cell si) (enumerate 0 (collect_positions (bounds_positions (si_bounds si))))
      (new_mutable_output (si_bounds si) generation V))"
proof -
  have "wp (solve_error si budget) (loaded si V (set (dense_cells (si_bounds si))))
    (for_each (load_cell si) (enumerate 0 (collect_positions (bounds_positions (si_bounds si))))
      (new_mutable_output (si_bounds si) generation V))"
  proof (rule wp_each_cell [where I = "\<lambda>done. loaded si V (set done)", OF ok])
    show "loaded si V (set []) (new_mutable_output (si_bounds si) generation V)"
      using region_facts(4) [OF region_of_ok [OF ok]]
      by (simp add: loaded_def out_ok_def new_mutable_output_def lev_def get_at_index_def pick_def split: light_channel.split)
  next
    fix done' p todo out
    assume cells: "dense_cells (si_bounds si) = done' @ p # todo" and p: "bounds_contain (si_bounds si) p"
      and I: "loaded si V (set done') out"
    have new: "p \<notin> set done'" using region_facts(2) [OF region_of_ok [OF ok]] by (simp add: cells)
    show "wp (solve_error si budget) (loaded si V (set (done' @ [p]))) (load_cell si (rank (si_bounds si) p, p) out)"
    proof (cases "filt si p = None")
      case True
      have "loaded si V (set (done' @ [p])) out" using I True new by (auto simp: loaded_def)
      then show ?thesis by (simp add: load_cell_def filter_at_eq [OF ok p] True)
    next
      case False
      have o: "p \<in> open_cells si" using False p by (simp add: open_cell_iff)
      have out: "out_ok si V out" using I by (simp add: loaded_def)
      show ?thesis
        unfolding load_cell_def prod.case filter_at_eq [OF ok p] if_not_P [OF False]
      proof (rule wp_both_channels [where R = "\<lambda>out1. prior_level si Channel_Block p \<le> 15 \<and>
            out1 = set_at_index out (rank (si_bounds si) p) Channel_Block (prior_level si Channel_Block p)"])
        show "wp (solve_error si budget) (\<lambda>out1. prior_level si Channel_Block p \<le> 15 \<and>
            out1 = set_at_index out (rank (si_bounds si) p) Channel_Block (prior_level si Channel_Block p))
          (Some (and_then (read_prior si p Channel_Block) (\<lambda>old. Inr (set_at_index out (rank (si_bounds si) p) Channel_Block old))))"
          by (rule load_channel [OF _ o]) simp
      next
        fix out1
        assume out1: "prior_level si Channel_Block p \<le> 15 \<and>
            out1 = set_at_index out (rank (si_bounds si) p) Channel_Block (prior_level si Channel_Block p)"
        show "wp (solve_error si budget) (loaded si V (set (done' @ [p])))
          (Some (and_then (read_prior si p Channel_Sky) (\<lambda>old. Inr (set_at_index out1 (rank (si_bounds si) p) Channel_Sky old))))"
        proof (rule load_channel [OF _ o])
          fix v assume v: "v = prior_level si Channel_Sky p" "v \<le> 15"
          have all: "prior_level si c p \<le> 15" for c using out1 v by (cases c) simp_all
          show "loaded si V (set (done' @ [p])) (set_at_index out1 (rank (si_bounds si) p) Channel_Sky v)"
            unfolding loaded_def
          proof (intro conjI allI impI)
            show "out_ok si V (set_at_index out1 (rank (si_bounds si) p) Channel_Sky v)"
              using out1 out by simp
          next
            fix q assume q: "bounds_contain (si_bounds si) q"
            show "mo_known (set_at_index out1 (rank (si_bounds si) p) Channel_Sky v) ! rank (si_bounds si) q =
                (q \<in> set (done' @ [p]) \<and> filt si q \<noteq> None)"
              using I q False out1 out by (auto simp: loaded_def known_set [OF ok _ p q])
          next
            fix q c assume q: "bounds_contain (si_bounds si) q"
            have "lev (set_at_index out1 (rank (si_bounds si) p) Channel_Sky v) c q =
                (if q = p then prior_level si c p else lev out c q)"
              using out1 out v by (cases c) (auto simp: lev_set [OF ok _ p q])
            then show "if q \<in> set (done' @ [p]) \<and> filt si q \<noteq> None
              then lev (set_at_index out1 (rank (si_bounds si) p) Channel_Sky v) c q = prior_level si c q \<and>
                prior_level si c q \<le> 15
              else lev (set_at_index out1 (rank (si_bounds si) p) Channel_Sky v) c q = 0"
              using I q False all by (auto simp: loaded_def)
          qed
        qed
      qed
    qed
  qed
  then show ?thesis
    by (rule wp_mono) (auto simp: loaded_def shape_def prior_ok_def open_cell_iff set_dense_cells)
qed


subsection \<open>What keeps a cell lit\<close>

lemma checked_offset_step: "checked_offset p offset = Some n \<Longrightarrow> n = step p offset"
  by (cases offset) (auto simp: checked_offset_def step_def checked_add_i32_def checked_i32_Some_iff result_simps)

lemma checked_offset_inside:
  assumes "solve_ok si V" and "bounds_contain (si_bounds si) (step p offset)"
  shows "checked_offset p offset = Some (step p offset)"
  using assms
  by (cases offset) (auto simp: checked_offset_def step_def checked_add_i32_def checked_i32_def solve_ok_def region_def
      valid_bounds_def bounds_contain_def in_i32_def)

text \<open>A cell's neighbour offers its own previous light inside the bounds and the halo's outside.\<close>

definition offered :: "solve_input \<Rightarrow> light_channel \<Rightarrow> block_pos \<Rightarrow> (nat \<times> bool) option" where
  "offered si c n =
     (if n \<in> open_cells si then Some (prior_level si c n, c = Channel_Sky \<and> prior_direct_at si n)
      else if bounds_contain (si_bounds si) n then None
      else if filt si n = None then None
      else trusted_parts (ra_boundary (si_prior si) (lb_dimension (si_bounds si)) n c))"

lemma neighbour_light_eq:
  assumes "solve_ok si V" and "prior_ok si"
  shows "neighbour_light si c n = Inr (offered si c n)"
proof (cases "bounds_contain (si_bounds si) n")
  case True
  have "filt si n \<noteq> None \<Longrightarrow> prior_level si c n \<le> 15" using assms(2) True unfolding prior_ok_def by blast
  then show ?thesis
    using True filter_at_eq [OF assms(1) True]
    by (cases "filt si n") (auto simp: neighbour_light_def cached_index [OF assms(1)] offered_def open_cell_iff
        read_prior_def Let_def not_less)
next
  case False
  then show ?thesis
    by (simp add: neighbour_light_def cached_index [OF assms(1)] cached_sample_eq [OF assms(1)] offered_def open_cell_iff)
qed

lemma supported_by_eq:
  assumes "solve_ok si V" and "prior_ok si"
  shows "supported_by si p f c required offsets = Inr (\<exists>offset\<in>set offsets. \<exists>n l d.
    checked_offset p offset = Some n \<and> offered si c n = Some (l, d) \<and>
    required \<le> incoming_level l f c (si_profile si) offset d)"
proof (induction offsets)
  case (Cons offset offsets)
  then show ?case
    by (cases "checked_offset p offset"; cases "offered si c (the (checked_offset p offset))")
      (auto simp: neighbour_light_eq [OF assms] split: prod.splits)
qed simp

definition supported :: "solve_input \<Rightarrow> light_channel \<Rightarrow> block_pos \<Rightarrow> bool" where
  "supported si c p \<longleftrightarrow> prior_level si c p \<le> base_level si c p \<or>
     ((c = Channel_Sky \<longrightarrow> allows_sky (si_profile si)) \<and>
      (\<exists>offset\<in>set NEIGHBOURS. \<exists>n l d. checked_offset p offset = Some n \<and> offered si c n = Some (l, d) \<and>
         prior_level si c p \<le> incoming_level l (the (filt si p)) c (si_profile si) offset d))"

lemma sky_order:
  "set [NEIGHBOURS ! 3, NEIGHBOURS ! 0, NEIGHBOURS ! 1, NEIGHBOURS ! 2, NEIGHBOURS ! 4, NEIGHBOURS ! 5] = set NEIGHBOURS"
  by (auto simp: NEIGHBOURS_def)

lemma prior_supports_eq:
  assumes ok: "solve_ok si V" "prior_ok si" and p: "p \<in> open_cells si"
    and seed: "c = Channel_Sky \<Longrightarrow> ba_sky_seed (cb_source (si_blocks si)) p \<le> 15"
  shows "prior_supports_level si p (rank (si_bounds si) p) c (prior_level si c p) = Inr (supported si c p)"
proof -
  have b: "bounds_contain (si_bounds si) p" using p by (simp add: open_cell_iff)
  obtain f where f: "filt si p = Some f" using p by (auto simp: open_cell_iff)
  have base: "local_base si (rank (si_bounds si) p) c = Inr (base_level si c p)"
    using seed by (auto simp: local_base_eq [OF ok(1) b])
  have order: "set (if c = Channel_Sky
       then [NEIGHBOURS ! 3, NEIGHBOURS ! 0, NEIGHBOURS ! 1, NEIGHBOURS ! 2, NEIGHBOURS ! 4, NEIGHBOURS ! 5]
       else NEIGHBOURS) = set NEIGHBOURS"
    using sky_order by simp
  show ?thesis
    unfolding prior_supports_level_def filter_at_eq [OF ok(1) b] f option.case base and_then_simps Let_def
      supported_by_eq [OF ok] order supported_def option.sel
    by auto
qed

subsection \<open>The invariant of darkening\<close>

definition entry_of :: "solve_input \<Rightarrow> light_channel \<Rightarrow> block_pos \<Rightarrow> darken_entry" where
  "entry_of si c p = \<lparr>de_position = p, de_channel = c, de_old_level = prior_level si c p,
     de_direct = (c = Channel_Sky \<and> prior_direct_at si p)\<rparr>"

text \<open>The neighbour of a darkened cell keeps nothing that could have come from it.\<close>

definition handled :: "solve_input \<Rightarrow> mutable_output \<Rightarrow> light_channel \<Rightarrow> block_pos \<Rightarrow> i32 \<times> i32 \<times> i32 \<Rightarrow> bool" where
  "handled si out c p offset \<longleftrightarrow> (step p offset \<in> open_cells si \<longrightarrow>
     \<not> (lev out c (step p offset) > base_level si c (step p offset) \<and>
        depended_on_removed si (entry_of si c p) offset (lev out c (step p offset))))"

definition bright :: "solve_input \<Rightarrow> mutable_output \<Rightarrow> (light_channel \<times> block_pos) set" where
  "bright si out = {(c, p). p \<in> open_cells si \<and> base_level si c p < lev out c p}"

definition dark_inv :: "solve_input \<Rightarrow> nat \<Rightarrow> (light_channel \<times> block_pos \<times> i32 \<times> i32 \<times> i32) set \<Rightarrow>
    (light_channel \<times> block_pos) set \<Rightarrow> darken_state \<Rightarrow> bool" where
  "dark_inv si V todo seen st \<longleftrightarrow> shape si V (dk_output st) \<and> prior_ok si \<and>
     (\<forall>p\<in>open_cells si. \<forall>c. lev (dk_output st) c p = prior_level si c p \<or>
        lev (dk_output st) c p = base_level si c p \<and> base_level si c p < prior_level si c p) \<and>
     (\<forall>p\<in>open_cells si. \<forall>c. (c, p) \<notin> seen \<longrightarrow> lev (dk_output st) c p = prior_level si c p) \<and>
     (\<forall>p\<in>open_cells si. \<forall>c. (c, p) \<in> seen \<longrightarrow>
        (c = Channel_Sky \<longrightarrow> ba_sky_seed (cb_source (si_blocks si)) p \<le> 15) \<and>
        (lev (dk_output st) c p = prior_level si c p \<longrightarrow> prior_level si c p = 0 \<or> supported si c p)) \<and>
     (\<forall>e\<in>set (dk_queue st). \<exists>p\<in>open_cells si. \<exists>c. e = entry_of si c p) \<and>
     (\<forall>p\<in>open_cells si. \<forall>c. lev (dk_output st) c p \<noteq> prior_level si c p \<longrightarrow>
        entry_of si c p \<in> set (dk_queue st) \<or>
        (\<forall>offset\<in>set NEIGHBOURS. (c, p, offset) \<in> todo \<or> handled si (dk_output st) c p offset)) \<and>
     dk_total st + card (bright si (dk_output st)) \<le> 2 * V"

lemma dark_inv_stats [simp]: "dark_inv si V todo seen (st\<lparr>dk_stats := stats\<rparr>) = dark_inv si V todo seen st"
  by (simp add: dark_inv_def)

lemma dark_kept:
  "dark_inv si V todo seen st \<Longrightarrow> p \<in> open_cells si \<Longrightarrow> (c, p) \<in> seen \<Longrightarrow>
    lev (dk_output st) c p = prior_level si c p \<Longrightarrow> prior_level si c p = 0 \<or> supported si c p"
  by (simp add: dark_inv_def)

lemma dark_handled:
  "dark_inv si V {} seen st \<Longrightarrow> dk_queue st = [] \<Longrightarrow> p \<in> open_cells si \<Longrightarrow> offset \<in> set NEIGHBOURS \<Longrightarrow>
    lev (dk_output st) c p \<noteq> prior_level si c p \<Longrightarrow> handled si (dk_output st) c p offset"
  by (simp add: dark_inv_def)

lemma finite_channel_cells:
  assumes "solve_ok si V"
  shows "finite {(c::light_channel, p). p \<in> open_cells si}" "card {(c::light_channel, p). p \<in> open_cells si} \<le> 2 * V"
proof -
  have eq: "{(c::light_channel, p). p \<in> open_cells si} = {Channel_Block, Channel_Sky} \<times> open_cells si"
    using light_channel.exhaust by auto
  show "finite {(c::light_channel, p). p \<in> open_cells si}" using finite_open_cells [OF assms] by (simp add: eq)
  show "card {(c::light_channel, p). p \<in> open_cells si} \<le> 2 * V"
    using card_open_cells [OF assms] by (simp add: eq card_cartesian_product)
qed

lemma finite_bright: "solve_ok si V \<Longrightarrow> finite (bright si out)"
  by (rule finite_subset [OF _ finite_channel_cells(1)]) (auto simp: bright_def)

lemma bright_le: "solve_ok si V \<Longrightarrow> card (bright si out) \<le> 2 * V"
  by (rule order_trans [OF card_mono finite_channel_cells(2)]) (auto simp: bright_def finite_channel_cells(1))

lemma bright_set:
  assumes "solve_ok si V" "shape si V out" "p \<in> open_cells si" "base_level si c p < lev out c p"
  shows "card (bright si out) = Suc (card (bright si (set_at_index out (rank (si_bounds si) p) c (base_level si c p))))"
proof -
  have "bright si (set_at_index out (rank (si_bounds si) p) c (base_level si c p)) = bright si out - {(c, p)}"
    using assms by (auto simp: bright_def lev_set_open split: if_splits)
  moreover have "(c, p) \<in> bright si out" using assms by (simp add: bright_def)
  ultimately show ?thesis using card.remove [OF finite_bright [OF assms(1)], of "(c, p)" out] by simp
qed

lemma handled_set:
  assumes "solve_ok si V" "shape si V out" "p \<in> open_cells si" "handled si out c' q offset"
  shows "handled si (set_at_index out (rank (si_bounds si) p) c (base_level si c p)) c' q offset"
  using assms(4) by (auto simp: handled_def lev_set_open [OF assms(1-3)])

text \<open>Darkening one cell.\<close>

lemma darken_push_keeps:
  assumes ok: "solve_ok si V" and inv: "dark_inv si V todo seen st" and p: "p \<in> open_cells si"
    and lev: "lev (dk_output st) c p = prior_level si c p" and above: "base_level si c p < prior_level si c p"
    and seed: "c = Channel_Sky \<Longrightarrow> ba_sky_seed (cb_source (si_blocks si)) p \<le> 15"
    and B: "2 * V \<le> B"
  shows "wp (solve_error si B) (\<lambda>st'. dark_inv si V todo (insert (c, p) seen) st' \<and>
      card (bright si (dk_output st')) < card (bright si (dk_output st)) \<and>
      lev (dk_output st') c p = base_level si c p \<and>
      (\<forall>c' q offset. handled si (dk_output st) c' q offset \<longrightarrow> handled si (dk_output st') c' q offset))
    (Some (darken_push si p (rank (si_bounds si) p) c (base_level si c p) (prior_level si c p) st))"
proof -
  let ?out = "set_at_index (dk_output st) (rank (si_bounds si) p) c (base_level si c p)"
  have shape: "shape si V (dk_output st)" using inv by (simp add: dark_inv_def)
  have bright: "card (bright si (dk_output st)) = Suc (card (bright si ?out))"
    by (rule bright_set [OF ok shape p]) (simp add: lev above)
  note levs = lev_set_open [OF ok shape p, of _ c "base_level si c p"]
  note hs = handled_set [OF ok shape p, of _ _ _ c]
  have count: "dk_total st + Suc (card (bright si ?out)) \<le> 2 * V" using inv bright by (simp add: dark_inv_def)
  show ?thesis
    unfolding darken_push_def
  proof (rule wp_seq_res [OF wp_enqueue [where Q = "\<lambda>count'. count' \<le> dk_total st + 1"]])
    show "dk_total st + 1 \<le> B" using count B by simp
  next
    fix count' assume count': "count' \<le> dk_total st + 1"
    let ?st = "st\<lparr>dk_output := ?out, dk_queue := dk_queue st @ [entry_of si c p], dk_total := count'\<rparr>"
    have "dark_inv si V todo (insert (c, p) seen) ?st"
      unfolding dark_inv_def
    proof (intro conjI)
      show "shape si V (dk_output ?st)" using shape_set [OF ok shape p] by simp
      show "prior_ok si" using inv by (simp add: dark_inv_def)
      show "\<forall>q\<in>open_cells si. \<forall>c'. lev (dk_output ?st) c' q = prior_level si c' q \<or>
          lev (dk_output ?st) c' q = base_level si c' q \<and> base_level si c' q < prior_level si c' q"
        using inv above by (auto simp: dark_inv_def levs)
      show "\<forall>q\<in>open_cells si. \<forall>c'. (c', q) \<notin> insert (c, p) seen \<longrightarrow>
          lev (dk_output ?st) c' q = prior_level si c' q"
        using inv by (auto simp: dark_inv_def levs)
      show "\<forall>q\<in>open_cells si. \<forall>c'. (c', q) \<in> insert (c, p) seen \<longrightarrow>
          (c' = Channel_Sky \<longrightarrow> ba_sky_seed (cb_source (si_blocks si)) q \<le> 15) \<and>
          (lev (dk_output ?st) c' q = prior_level si c' q \<longrightarrow> prior_level si c' q = 0 \<or> supported si c' q)"
        using inv above seed by (auto simp: dark_inv_def levs)
      show "\<forall>e\<in>set (dk_queue ?st). \<exists>p\<in>open_cells si. \<exists>c. e = entry_of si c p"
        using inv p by (auto simp: dark_inv_def)
      show "\<forall>q\<in>open_cells si. \<forall>c'. lev (dk_output ?st) c' q \<noteq> prior_level si c' q \<longrightarrow>
          entry_of si c' q \<in> set (dk_queue ?st) \<or>
          (\<forall>offset\<in>set NEIGHBOURS. (c', q, offset) \<in> todo \<or> handled si (dk_output ?st) c' q offset)"
      proof (intro ballI allI impI)
        fix q c' assume q: "q \<in> open_cells si" and ne: "lev (dk_output ?st) c' q \<noteq> prior_level si c' q"
        show "entry_of si c' q \<in> set (dk_queue ?st) \<or>
          (\<forall>offset\<in>set NEIGHBOURS. (c', q, offset) \<in> todo \<or> handled si (dk_output ?st) c' q offset)"
        proof (cases "c' = c \<and> q = p")
          case False
          then have "lev (dk_output st) c' q \<noteq> prior_level si c' q" using ne by (auto simp: levs [OF q])
          then have "entry_of si c' q \<in> set (dk_queue st) \<or>
              (\<forall>offset\<in>set NEIGHBOURS. (c', q, offset) \<in> todo \<or> handled si (dk_output st) c' q offset)"
            using inv q by (simp add: dark_inv_def)
          then show ?thesis using hs by auto
        qed simp
      qed
      show "dk_total ?st + card (bright si (dk_output ?st)) \<le> 2 * V" using count count' by simp
    qed
    moreover have "lev ?out c p = base_level si c p" using levs [OF p] by simp
    ultimately show "wp (solve_error si B) (\<lambda>st'. dark_inv si V todo (insert (c, p) seen) st' \<and>
        card (bright si (dk_output st')) < card (bright si (dk_output st)) \<and>
        lev (dk_output st') c p = base_level si c p \<and>
        (\<forall>c' q offset. handled si (dk_output st) c' q offset \<longrightarrow> handled si (dk_output st') c' q offset))
      (Some (Inr (st\<lparr>dk_output := ?out, dk_queue := dk_queue st @ [\<lparr>de_position = p, de_channel = c,
          de_old_level = prior_level si c p, de_direct = (c = Channel_Sky \<and> prior_direct_at si p)\<rparr>],
          dk_total := count'\<rparr>)))"
      using hs bright by (simp add: entry_of_def)
  qed simp
qed


subsection \<open>Seeding\<close>

lemma seed_channel:
  assumes ok: "solve_ok si V" and B: "2 * V \<le> B" and p: "p \<in> open_cells si" and new: "(c, p) \<notin> seen"
    and inv: "dark_inv si V {} seen st"
  shows "wp (solve_error si B) (dark_inv si V {} (insert (c, p) seen)) (Some (
          let old = get_at_index (dk_output st) (rank (si_bounds si) p) c
          in and_then (local_base si (rank (si_bounds si) p) c) (\<lambda>base.
               and_then (if old = 0 then Inr True else prior_supports_level si p (rank (si_bounds si) p) c old) (\<lambda>keep.
                 if keep then Inr st
                 else and_then (darken_push si p (rank (si_bounds si) p) c base old st) (\<lambda>st.
                   Inr (st\<lparr>dk_stats := (dk_stats st)\<lparr>st_darken_seeded := st_darken_seeded (dk_stats st) + 1\<rparr>\<rparr>))))))"
proof -
  let ?old = "prior_level si c p" and ?base = "base_level si c p"
  have shape: "shape si V (dk_output st)" and prior: "prior_ok si" using inv by (simp_all add: dark_inv_def)
  have lev: "lev (dk_output st) c p = ?old" using inv new p by (simp add: dark_inv_def)
  have old: "get_at_index (dk_output st) (rank (si_bounds si) p) c = ?old"
    using lev by (simp add: get_is_lev [OF shape_out_ok [OF shape]])
  show ?thesis
    unfolding Let_def old
  proof (rule wp_seq_res [where R = "\<lambda>base. base = ?base \<and>
        (c = Channel_Sky \<longrightarrow> ba_sky_seed (cb_source (si_blocks si)) p \<le> 15)"])
    show "wp (solve_error si B) (\<lambda>base. base = ?base \<and>
        (c = Channel_Sky \<longrightarrow> ba_sky_seed (cb_source (si_blocks si)) p \<le> 15))
      (Some (local_base si (rank (si_bounds si) p) c))"
      by (rule wp_local_base [OF ok p]) simp
  next
    fix base assume base: "base = ?base \<and> (c = Channel_Sky \<longrightarrow> ba_sky_seed (cb_source (si_blocks si)) p \<le> 15)"
    then have seed: "c = Channel_Sky \<Longrightarrow> ba_sky_seed (cb_source (si_blocks si)) p \<le> 15" by simp
    show "wp (solve_error si B) (dark_inv si V {} (insert (c, p) seen)) (Some (
        and_then (if ?old = 0 then Inr True else prior_supports_level si p (rank (si_bounds si) p) c ?old) (\<lambda>keep.
          if keep then Inr st
          else and_then (darken_push si p (rank (si_bounds si) p) c base ?old st) (\<lambda>st.
            Inr (st\<lparr>dk_stats := (dk_stats st)\<lparr>st_darken_seeded := st_darken_seeded (dk_stats st) + 1\<rparr>\<rparr>)))))"
    proof (cases "?old = 0 \<or> supported si c p")
      case True
      then have keep: "(if ?old = 0 then Inr True else prior_supports_level si p (rank (si_bounds si) p) c ?old) = Inr True"
        by (auto simp: prior_supports_eq [OF ok prior p seed])
      have "dark_inv si V {} (insert (c, p) seen) st"
        using inv True seed by (auto simp: dark_inv_def)
      then show ?thesis unfolding keep by simp
    next
      case False
      then have keep: "(if ?old = 0 then Inr True else prior_supports_level si p (rank (si_bounds si) p) c ?old) = Inr False"
        by (simp add: prior_supports_eq [OF ok prior p seed])
      have above: "?base < ?old" using False by (simp add: supported_def)
      have b: "base = ?base" using base by simp
      show ?thesis
        unfolding keep and_then_simps if_False b
        by (rule wp_seq_res [OF darken_push_keeps [OF ok inv p lev above seed B]]) simp_all
    qed
  qed
qed

lemma seed_cell:
  assumes ok: "solve_ok si V" and B: "2 * V \<le> B" and p: "bounds_contain (si_bounds si) p" and new: "p \<notin> cells"
    and inv: "dark_inv si V {} (UNIV \<times> cells) st"
  shows "wp (solve_error si B) (dark_inv si V {} (UNIV \<times> (insert p cells)))
    (seed_darken_cell si (rank (si_bounds si) p, p) st)"
proof (cases "filt si p = None")
  case True
  have "dark_inv si V {} (UNIV \<times> (insert p cells)) st"
    using inv True by (auto simp: dark_inv_def open_cell_iff)
  then show ?thesis by (simp add: seed_darken_cell_def filter_at_eq [OF ok p] True)
next
  case False
  have o: "p \<in> open_cells si" using False p by (simp add: open_cell_iff)
  have two: "insert (Channel_Sky, p) (insert (Channel_Block, p) (UNIV \<times> cells)) = UNIV \<times> (insert p cells)"
    using light_channel.exhaust by auto
  show ?thesis
    unfolding seed_darken_cell_def prod.case filter_at_eq [OF ok p] if_not_P [OF False]
  proof (rule wp_both_channels)
    show "wp (solve_error si B) (dark_inv si V {} (insert (Channel_Block, p) (UNIV \<times> cells))) (Some (
          let old = get_at_index (dk_output st) (rank (si_bounds si) p) Channel_Block
          in and_then (local_base si (rank (si_bounds si) p) Channel_Block) (\<lambda>base.
               and_then (if old = 0 then Inr True else prior_supports_level si p (rank (si_bounds si) p) Channel_Block old) (\<lambda>keep.
                 if keep then Inr st
                 else and_then (darken_push si p (rank (si_bounds si) p) Channel_Block base old st) (\<lambda>st.
                   Inr (st\<lparr>dk_stats := (dk_stats st)\<lparr>st_darken_seeded := st_darken_seeded (dk_stats st) + 1\<rparr>\<rparr>))))))"
      by (rule seed_channel [OF ok B o _ inv]) (simp add: new)
  next
    fix st assume inv: "dark_inv si V {} (insert (Channel_Block, p) (UNIV \<times> cells)) st"
    show "wp (solve_error si B) (dark_inv si V {} (UNIV \<times> (insert p cells))) (Some (
          let old = get_at_index (dk_output st) (rank (si_bounds si) p) Channel_Sky
          in and_then (local_base si (rank (si_bounds si) p) Channel_Sky) (\<lambda>base.
               and_then (if old = 0 then Inr True else prior_supports_level si p (rank (si_bounds si) p) Channel_Sky old) (\<lambda>keep.
                 if keep then Inr st
                 else and_then (darken_push si p (rank (si_bounds si) p) Channel_Sky base old st) (\<lambda>st.
                   Inr (st\<lparr>dk_stats := (dk_stats st)\<lparr>st_darken_seeded := st_darken_seeded (dk_stats st) + 1\<rparr>\<rparr>))))))"
      unfolding two [symmetric] by (rule seed_channel [OF ok B o _ inv]) (simp add: new)
  qed
qed

lemma seed_all:
  assumes ok: "solve_ok si V" and B: "2 * V \<le> B" and shape: "shape si V out" and prior: "prior_ok si"
    and levs: "\<forall>p\<in>open_cells si. \<forall>c. lev out c p = prior_level si c p"
  shows "wp (solve_error si B) (dark_inv si V {} (UNIV \<times> set (dense_cells (si_bounds si))))
    (for_each (seed_darken_cell si) (enumerate 0 (collect_positions (bounds_positions (si_bounds si))))
      \<lparr>dk_output = out, dk_queue = [], dk_total = 0, dk_stats = no_stats\<rparr>)"
proof (rule wp_each_cell [where I = "\<lambda>done. dark_inv si V {} (UNIV \<times> set done)", OF ok])
  show "dark_inv si V {} (UNIV \<times> set []) \<lparr>dk_output = out, dk_queue = [], dk_total = 0, dk_stats = no_stats\<rparr>"
    using shape prior levs bright_le [OF ok, of out] by (simp add: dark_inv_def)
next
  fix done' p todo st
  assume cells: "dense_cells (si_bounds si) = done' @ p # todo" and p: "bounds_contain (si_bounds si) p"
    and inv: "dark_inv si V {} (UNIV \<times> set done') st"
  have new: "p \<notin> set done'" using region_facts(2) [OF region_of_ok [OF ok]] by (simp add: cells)
  have "set (done' @ [p]) = insert p (set done')" by simp
  then show "wp (solve_error si B) (dark_inv si V {} (UNIV \<times> set (done' @ [p])))
      (seed_darken_cell si (rank (si_bounds si) p, p) st)"
    using seed_cell [OF ok B p new inv] by simp
qed


subsection \<open>The darkening loop\<close>

lemma step_neighbour:
  assumes ok: "solve_ok si V" and p: "bounds_contain (si_bounds si) p" and d: "(direction, offset) \<in> set (enumerate 0 NEIGHBOURS)"
  shows "light_neighbour (si_bounds si) p (rank (si_bounds si) p) direction =
    (if bounds_contain (si_bounds si) (step p offset) then Some (step p offset, rank (si_bounds si) (step p offset)) else None)"
proof -
  have "direction < length NEIGHBOURS" "offset = NEIGHBOURS ! direction" using d by (auto simp: in_set_enumerate_eq)
  then show ?thesis using neighbour_eq [OF p, of direction] by (simp add: NEIGHBOURS_def Let_def)
qed

lemma darken_visit_keeps:
  assumes ok: "solve_ok si V" and B: "2 * V \<le> B" and p: "p \<in> open_cells si"
    and d: "(direction, offset) \<in> set (enumerate 0 NEIGHBOURS)"
    and inv: "dark_inv si V todo UNIV st"
  shows "wp (solve_error si B) (\<lambda>st'. dark_inv si V todo UNIV st' \<and>
      handled si (dk_output st') c p offset \<and>
      (\<forall>c' q offset. handled si (dk_output st) c' q offset \<longrightarrow> handled si (dk_output st') c' q offset) \<and>
      (card (bright si (dk_output st')) < card (bright si (dk_output st)) \<or> st' = st))
    (darken_visit si (entry_of si c p) (rank (si_bounds si) p) (direction, offset) st)"
proof -
  let ?q = "step p offset"
  have pb: "bounds_contain (si_bounds si) p" using p by (simp add: open_cell_iff)
  have entry: "de_position (entry_of si c p) = p" "de_channel (entry_of si c p) = c" by (simp_all add: entry_of_def)
  note nb = step_neighbour [OF ok pb d]
  show ?thesis
  proof (cases "?q \<in> open_cells si")
    case False
    have "darken_visit si (entry_of si c p) (rank (si_bounds si) p) (direction, offset) st = Some (Inr st)"
      using False by (auto simp: darken_visit_def entry nb open_cell_iff filter_at_eq [OF ok])
    then show ?thesis using inv False by (simp add: handled_def)
  next
    case q: True
    then have qb: "bounds_contain (si_bounds si) ?q" and qf: "(filt si ?q = None) = False" by (simp_all add: open_cell_iff)
    have shape: "shape si V (dk_output st)" using inv by (simp add: dark_inv_def)
    have seed: "c = Channel_Sky \<Longrightarrow> ba_sky_seed (cb_source (si_blocks si)) ?q \<le> 15" using inv q by (simp add: dark_inv_def)
    have base: "local_base si (rank (si_bounds si) ?q) c = Inr (base_level si c ?q)"
      using seed by (auto simp: local_base_eq [OF ok qb])
    define current where "current = lev (dk_output st) c ?q"
    define hit where "hit \<longleftrightarrow> current > base_level si c ?q \<and> depended_on_removed si (entry_of si c p) offset current"
    have visit: "darken_visit si (entry_of si c p) (rank (si_bounds si) p) (direction, offset) st =
      Some (if hit then and_then (darken_push si ?q (rank (si_bounds si) ?q) c (base_level si c ?q) current st) (\<lambda>st.
                   Inr (st\<lparr>dk_stats := raise_peak (length (dk_queue st)) (dk_stats st)\<rparr>))
            else Inr st)"
      unfolding darken_visit_def prod.case entry nb if_P [OF qb] option.case filter_at_eq [OF ok qb] qf if_False base
        and_then_simps Let_def get_is_lev [OF shape_out_ok [OF shape]] hit_def current_def
      by (rule refl)
    show ?thesis
    proof (cases hit)
      case False
      then have "handled si (dk_output st) c p offset" by (simp add: handled_def hit_def current_def)
      then show ?thesis using False inv by (simp add: visit)
    next
      case True
      then have above: "current > base_level si c ?q" by (simp add: hit_def)
      have "current = prior_level si c ?q \<or> current = base_level si c ?q"
        using inv q unfolding dark_inv_def current_def by blast
      with above have lev: "current = prior_level si c ?q" by linarith
      have push: "wp (solve_error si B) (\<lambda>st'. dark_inv si V todo (insert (c, ?q) UNIV) st' \<and>
        card (bright si (dk_output st')) < card (bright si (dk_output st)) \<and>
        lev (dk_output st') c ?q = base_level si c ?q \<and>
        (\<forall>c' q offset. handled si (dk_output st) c' q offset \<longrightarrow> handled si (dk_output st') c' q offset))
        (Some (darken_push si ?q (rank (si_bounds si) ?q) c (base_level si c ?q) (prior_level si c ?q) st))"
        by (rule darken_push_keeps [OF ok inv q _ _ seed B]) (use lev above in \<open>simp_all add: current_def\<close>)
      show ?thesis
        unfolding visit if_P [OF True] lev
        by (rule wp_seq_res [OF push]) (simp add: handled_def)
    qed
  qed
qed

lemma wf_dark: "wf (inv_image (less_than <*lex*> less_than) (\<lambda>st. (card (bright si (dk_output st)), length (dk_queue st))))"
  by (intro wf_inv_image wf_lex_prod wf_less_than)

lemma todo_mono: "dark_inv si V todo seen st \<Longrightarrow> todo \<subseteq> todo' \<Longrightarrow> dark_inv si V todo' seen st"
  unfolding dark_inv_def by blast

lemma entry_of_inj: "entry_of si c p = entry_of si c' p' \<longleftrightarrow> c = c' \<and> p = p'"
  by (auto simp: entry_of_def)

lemma pop_keeps:
  assumes inv: "dark_inv si V {} UNIV st" and queue: "dk_queue st = entry_of si c p # queue"
  shows "dark_inv si V {(c, p, offset) | offset. offset \<in> set NEIGHBOURS} UNIV (st\<lparr>dk_queue := queue\<rparr>)"
proof -
  have "entry_of si c' q \<in> set queue \<or> (\<forall>offset\<in>set NEIGHBOURS.
      (c', q, offset) \<in> {(c, p, offset) | offset. offset \<in> set NEIGHBOURS} \<or> handled si (dk_output st) c' q offset)"
    if "q \<in> open_cells si" "lev (dk_output st) c' q \<noteq> prior_level si c' q" for q c'
  proof -
    have "entry_of si c' q \<in> set (dk_queue st) \<or> (\<forall>offset\<in>set NEIGHBOURS. handled si (dk_output st) c' q offset)"
      using inv that by (auto simp: dark_inv_def)
    then show ?thesis by (auto simp: queue entry_of_inj)
  qed
  then show ?thesis using inv by (simp add: dark_inv_def queue)
qed

lemma done_keeps:
  assumes "dark_inv si V {(c, p, offset) | offset. offset \<in> set NEIGHBOURS} seen st"
    and "\<And>offset. offset \<in> set NEIGHBOURS \<Longrightarrow> handled si (dk_output st) c p offset"
  shows "dark_inv si V {} seen st"
proof -
  have eq: "(c', q, offset) \<in> {(c, p, offset) | offset. offset \<in> set NEIGHBOURS} \<or> handled si (dk_output st) c' q offset
      \<longleftrightarrow> (c', q, offset) \<in> {} \<or> handled si (dk_output st) c' q offset" for c' q offset
    using assms(2) by auto
  show ?thesis using assms(1) unfolding dark_inv_def eq .
qed

lemma enumerated_neighbour: "offset \<in> set NEIGHBOURS \<Longrightarrow> \<exists>d. (d, offset) \<in> set (enumerate 0 NEIGHBOURS)"
  unfolding in_set_conv_nth [of offset] by (auto simp: in_set_enumerate_eq)

lemma darken_one_keeps:
  assumes ok: "solve_ok si V" and B: "2 * V \<le> B" and inv: "dark_inv si V {} UNIV st"
    and queue: "dk_queue st = entry # queue"
  shows "wp (solve_error si B) (\<lambda>st'. dark_inv si V {} UNIV st' \<and>
      (st', st) \<in> inv_image (less_than <*lex*> less_than) (\<lambda>st. (card (bright si (dk_output st)), length (dk_queue st))))
    (darken_one si entry (st\<lparr>dk_queue := queue\<rparr>))"
proof -
  obtain c p where p: "p \<in> open_cells si" and entry: "entry = entry_of si c p"
    using inv queue by (auto simp: dark_inv_def)
  have pb: "bounds_contain (si_bounds si) p" using p by (simp add: open_cell_iff)
  let ?st = "st\<lparr>dk_queue := queue, dk_stats := (dk_stats st)\<lparr>st_darken_dequeued := st_darken_dequeued (dk_stats st) + 1\<rparr>\<rparr>"
  have start: "dark_inv si V {(c, p, offset) | offset. offset \<in> set NEIGHBOURS} UNIV ?st"
    unfolding dark_inv_stats by (rule pop_keeps [OF inv queue [unfolded entry]])
  have out: "out_ok si V (dk_output st)" using inv by (simp add: dark_inv_def shape_def)
  have one: "darken_one si entry (st\<lparr>dk_queue := queue\<rparr>) =
      for_each (darken_visit si (entry_of si c p) (rank (si_bounds si) p)) (enumerate 0 NEIGHBOURS) ?st"
    by (simp add: darken_one_def entry mo_index_eq [OF ok] out entry_of_def pb)
  have "wp (solve_error si B) (\<lambda>st'. dark_inv si V {(c, p, offset) | offset. offset \<in> set NEIGHBOURS} UNIV st' \<and>
      (\<forall>(direction, offset)\<in>set (enumerate 0 NEIGHBOURS). handled si (dk_output st') c p offset) \<and>
      (card (bright si (dk_output st')) < card (bright si (dk_output ?st)) \<or> st' = ?st))
    (for_each (darken_visit si (entry_of si c p) (rank (si_bounds si) p)) (enumerate 0 NEIGHBOURS) ?st)"
  proof (rule wp_for_each [where I = "\<lambda>done st'. dark_inv si V {(c, p, offset) | offset. offset \<in> set NEIGHBOURS} UNIV st' \<and>
      (\<forall>(direction, offset)\<in>set done. handled si (dk_output st') c p offset) \<and>
      (card (bright si (dk_output st')) < card (bright si (dk_output ?st)) \<or> st' = ?st)"])
    show "dark_inv si V {(c, p, offset) | offset. offset \<in> set NEIGHBOURS} UNIV ?st \<and>
      (\<forall>(direction, offset)\<in>set []. handled si (dk_output ?st) c p offset) \<and>
      (card (bright si (dk_output ?st)) < card (bright si (dk_output ?st)) \<or> ?st = ?st)"
      using start by simp
  next
    fix done' x todo st'
    assume xs: "enumerate 0 NEIGHBOURS = done' @ x # todo"
      and I: "dark_inv si V {(c, p, offset) | offset. offset \<in> set NEIGHBOURS} UNIV st' \<and>
      (\<forall>(direction, offset)\<in>set done'. handled si (dk_output st') c p offset) \<and>
      (card (bright si (dk_output st')) < card (bright si (dk_output ?st)) \<or> st' = ?st)"
    obtain direction offset where x: "x = (direction, offset)" by (rule prod.exhaust)
    have d: "(direction, offset) \<in> set (enumerate 0 NEIGHBOURS)" by (simp add: xs x)
    show "wp (solve_error si B) (\<lambda>st''. dark_inv si V {(c, p, offset) | offset. offset \<in> set NEIGHBOURS} UNIV st'' \<and>
      (\<forall>(direction, offset)\<in>set (done' @ [x]). handled si (dk_output st'') c p offset) \<and>
      (card (bright si (dk_output st'')) < card (bright si (dk_output ?st)) \<or> st'' = ?st))
      (darken_visit si (entry_of si c p) (rank (si_bounds si) p) x st')"
      unfolding x by (rule wp_mono [OF darken_visit_keeps [OF ok B p d conjunct1 [OF I], of c]]) (use I in auto)
  qed
  then show ?thesis
    unfolding one
  proof (rule wp_mono)
    fix st'
    assume st': "dark_inv si V {(c, p, offset) | offset. offset \<in> set NEIGHBOURS} UNIV st' \<and>
      (\<forall>(direction, offset)\<in>set (enumerate 0 NEIGHBOURS). handled si (dk_output st') c p offset) \<and>
      (card (bright si (dk_output st')) < card (bright si (dk_output ?st)) \<or> st' = ?st)"
    have "handled si (dk_output st') c p offset" if "offset \<in> set NEIGHBOURS" for offset
      using enumerated_neighbour [OF that] st' by blast
    then have "dark_inv si V {} UNIV st'" by (rule done_keeps [OF conjunct1 [OF st']])
    moreover have "(st', st) \<in> inv_image (less_than <*lex*> less_than)
        (\<lambda>st. (card (bright si (dk_output st)), length (dk_queue st)))"
      using st' queue by auto
    ultimately show "dark_inv si V {} UNIV st' \<and> (st', st) \<in> inv_image (less_than <*lex*> less_than)
        (\<lambda>st. (card (bright si (dk_output st)), length (dk_queue st)))" ..
  qed
qed


lemma darken_all:
  assumes ok: "solve_ok si V" and B: "2 * V \<le> B" and inv: "dark_inv si V {} UNIV st"
  shows "wp (solve_error si B) (\<lambda>st'. dark_inv si V {} UNIV st' \<and> dk_queue st' = []) (darken_loop si st)"
  by (rule wp_darken_loop [OF wf_dark, where I = "dark_inv si V {} UNIV"])
    (use inv darken_one_keeps [OF ok B] in blast)+

subsection \<open>Nothing is too bright\<close>

text \<open>A field that no cell exceeds: every cell's level is reached by light.\<close>

definition within_field :: "solve_input \<Rightarrow> light_channel \<Rightarrow> block_pos \<Rightarrow> nat \<Rightarrow> bool" where
  "within_field si c p l \<longleftrightarrow> l = 0 \<or> (\<exists>l' d. l \<le> l' \<and> lit si c p l' d)"

definition mirror :: "i32 \<times> i32 \<times> i32 \<Rightarrow> i32 \<times> i32 \<times> i32" where
  "mirror offset = (case offset of (dx, dy, dz) \<Rightarrow> (- dx, - dy, - dz))"

lemma step_mirror [simp]: "step (step p offset) (mirror offset) = p"
  by (cases offset; cases p) (simp add: step_def mirror_def)

lemma mirror_neighbour [simp]: "mirror offset \<in> set NEIGHBOURS \<longleftrightarrow> offset \<in> set NEIGHBOURS"
  by (cases offset) (auto simp: mirror_def NEIGHBOURS_def)

lemma mirror_down [simp]: "mirror offset = (0, -1, 0) \<longleftrightarrow> offset = (0, 1, 0)" "mirror offset = (0, 1, 0) \<longleftrightarrow> offset = (0, -1, 0)"
  by (cases offset; auto simp: mirror_def)+

lemma mirror_mirror [simp]: "mirror (mirror offset) = offset"
  by (cases offset) (simp add: mirror_def)

text \<open>A cell that kept its level is lit at least that brightly: its support kept its own level, and is
  brighter, or directly above with direct sky.\<close>

lemma kept_is_lit:
  assumes ok: "solve_ok si V" and inv: "dark_inv si V {} UNIV st" and queue: "dk_queue st = []"
    and seeds: "seeds_ok si"
    and p: "p \<in> open_cells si" and kept: "lev (dk_output st) c p = prior_level si c p"
  shows "within_field si c p (prior_level si c p)"
  using p kept
proof (induction p rule: wf_induct_rule [OF wf_inv_image [OF wf_lex_prod [OF wf_less_than wf_less_than]],
    of "\<lambda>p. (15 - prior_level si c p, nat (bp_y (lb_max (si_bounds si)) - bp_y p))"])
  case (1 p)
  have pb: "bounds_contain (si_bounds si) p" using 1(2) by (simp add: open_cell_iff)
  obtain f where f: "filt si p = Some f" using 1(2) by (auto simp: open_cell_iff)
  have prior: "prior_ok si" using inv by (simp add: dark_inv_def)
  have le15: "prior_level si c q \<le> 15" if "q \<in> open_cells si" for q
    using prior that by (simp add: prior_ok_def open_cell_iff)
  show ?case
  proof (cases "prior_level si c p \<le> base_level si c p")
    case True
    then show ?thesis using lit.source [OF pb f] by (auto simp: within_field_def)
  next
    case above: False
    then have "supported si c p" using dark_kept [OF inv 1(2) UNIV_I 1(3)] by simp
    then obtain offset n l d where sky: "c = Channel_Sky \<longrightarrow> allows_sky (si_profile si)"
      and offset: "offset \<in> set NEIGHBOURS" and n: "checked_offset p offset = Some n"
      and offer: "offered si c n = Some (l, d)"
      and enough: "prior_level si c p \<le> incoming_level l f c (si_profile si) offset d"
      using above by (auto simp: supported_def f)
    have nq: "n = step p offset" by (rule checked_offset_step [OF n])
    show ?thesis
    proof (cases "n \<in> open_cells si")
      case False
      then have "halo_light si c n = Some (l, d)"
        using offer sky by (auto simp: offered_def halo_light_def split: if_splits)
      from lit.halo [OF pb f offset n this] show ?thesis using enough unfolding within_field_def by blast
    next
      case q: True
      then have l: "l = prior_level si c n" and d: "d = (c = Channel_Sky \<and> prior_direct_at si n)"
        using offer by (auto simp: offered_def)
      have smaller: "l > prior_level si c p \<or> stays_direct si c f offset l d"
        using enough above by (auto simp: incoming_eq split: if_splits)
      have kept_n: "lev (dk_output st) c n = prior_level si c n"
      proof (rule ccontr)
        assume "lev (dk_output st) c n \<noteq> prior_level si c n"
        then have "handled si (dk_output st) c n (mirror offset)"
          by (intro dark_handled [OF inv queue q]) (simp_all add: offset)
        then have "\<not> depended_on_removed si (entry_of si c n) (mirror offset) (prior_level si c p)"
          using 1(2,3) above by (simp add: handled_def nq)
        then show False
          using smaller le15 [OF 1(2)] by (auto simp: depended_on_removed_def entry_of_def stays_direct_def l d)
      qed
      have "((15 - prior_level si c n, nat (bp_y (lb_max (si_bounds si)) - bp_y n)),
          (15 - prior_level si c p, nat (bp_y (lb_max (si_bounds si)) - bp_y p))) \<in> less_than <*lex*> less_than"
        using smaller le15 [OF q] le15 [OF 1(2)] q 1(2)
        by (auto simp: l stays_direct_def nq step_def open_cell_iff bounds_contain_def)
      then have "within_field si c n (prior_level si c n)"
        by (intro 1(1)) (use q kept_n in simp_all)
      then obtain l' d' where l': "l \<le> l'" "lit si c n l' d'"
        using smaller by (auto simp: within_field_def l stays_direct_def)
      note stepped = lit.step [OF l'(2) [unfolded nq] pb f offset]
      show ?thesis
      proof (cases "stays_direct si c f offset l d")
        case True
        then have "l' = 15" "c = Channel_Sky" "direct_sky_down (si_profile si)"
          using l' lit_le [OF ok seeds l'(2)] by (auto simp: stays_direct_def)
        then have "lit si c n 15 True" using lit_full_sky [OF ok seeds] l'(2) by auto
        from lit.step [OF this [unfolded nq] pb f offset] show ?thesis
          using True le15 [OF 1(2)] by (auto simp: within_field_def incoming_eq stays_direct_def)
      next
        case False
        then have "prior_level si c p \<le> l - max f 1" using enough by (simp add: incoming_eq)
        also have "\<dots> \<le> incoming_level l' f c (si_profile si) offset d'"
          using l'(1) lit_le [OF ok seeds l'(2)] diff_le_self [of l "max f 1"] diff_le_mono [of l l' "max f 1"]
          le_trans [OF diff_le_self l'(1)]
          unfolding incoming_eq by (auto intro: le_trans)
        finally show ?thesis using stepped by (auto simp: within_field_def)
      qed
    qed
  qed
qed


subsection \<open>Raising every cell to its source\<close>

definition raised :: "solve_input \<Rightarrow> nat \<Rightarrow> mutable_output \<Rightarrow> bool" where
  "raised si V out \<longleftrightarrow> shape si V out \<and>
     (\<forall>p\<in>open_cells si. \<forall>c. base_level si c p \<le> lev out c p \<and> within_field si c p (lev out c p))"

lemma dark_facts:
  assumes ok: "solve_ok si V" and inv: "dark_inv si V {} UNIV st" and queue: "dk_queue st = []"
  shows "seeds_ok si" "prior_ok si" "shape si V (dk_output st)"
    "p \<in> open_cells si \<Longrightarrow> within_field si c p (lev (dk_output st) c p)" "dk_total st \<le> 2 * V"
proof -
  show seeds: "seeds_ok si" using inv by (simp add: dark_inv_def seeds_ok_def open_cell_iff)
  show "prior_ok si" "shape si V (dk_output st)" "dk_total st \<le> 2 * V" using inv by (simp_all add: dark_inv_def)
  show "within_field si c p (lev (dk_output st) c p)" if p: "p \<in> open_cells si"
  proof (cases "lev (dk_output st) c p = prior_level si c p")
    case True
    then show ?thesis using kept_is_lit [OF ok inv queue seeds p True] by simp
  next
    case False
    then have "lev (dk_output st) c p = base_level si c p" using inv p by (auto simp: dark_inv_def)
    moreover obtain f where "filt si p = Some f" "bounds_contain (si_bounds si) p" using p by (auto simp: open_cell_iff)
    ultimately show ?thesis using lit.source [of si p f c] by (auto simp: within_field_def)
  qed
qed

lemma raise_channel:
  assumes ok: "solve_ok si V" and seeds: "seeds_ok si" and p: "p \<in> open_cells si" and out: "shape si V out"
  shows "\<exists>out'. (and_then (local_base si (rank (si_bounds si) p) c) (\<lambda>base.
          Inr (if base > get_at_index out (rank (si_bounds si) p) c
               then set_at_index out (rank (si_bounds si) p) c base else out))) = (Inr out' :: light_solve_error + mutable_output) \<and>
      shape si V out' \<and> (\<forall>q\<in>open_cells si. \<forall>c'. lev out' c' q =
        (if c' = c \<and> q = p then max (lev out c q) (base_level si c q) else lev out c' q))"
proof -
  have pb: "bounds_contain (si_bounds si) p" using p by (simp add: open_cell_iff)
  have seed: "ba_sky_seed (cb_source (si_blocks si)) p \<le> 15"
    using seeds p by (simp add: seeds_ok_def open_cell_iff)
  then have base: "local_base si (rank (si_bounds si) p) c = Inr (base_level si c p)" by (simp add: local_base_eq [OF ok pb])
  show ?thesis
    unfolding base and_then_simps get_is_lev [OF shape_out_ok [OF out]]
    by (rule exI, rule conjI, rule refl) (use shape_set [OF ok out p] out in \<open>auto simp: lev_set_open [OF ok out p]\<close>)
qed

lemma raise_one:
  assumes ok: "solve_ok si V" and seeds: "seeds_ok si" and pb: "bounds_contain (si_bounds si) p" and out: "shape si V out"
  shows "\<exists>out'. raise_cell si (rank (si_bounds si) p) out = Some (Inr out') \<and> shape si V out' \<and>
    (\<forall>q\<in>open_cells si. \<forall>c. lev out' c q = (if q = p then max (lev out c q) (base_level si c q) else lev out c q))"
proof (cases "filt si p = None")
  case True
  then show ?thesis using filter_at_eq [OF ok pb] out by (auto simp: raise_cell_def open_cell_iff)
next
  case False
  then have o: "p \<in> open_cells si" using pb by (simp add: open_cell_iff)
  let ?i = "rank (si_bounds si) p"
  obtain out2 where out2: "and_then (local_base si ?i Channel_Block) (\<lambda>base.
      Inr (if base > get_at_index out ?i Channel_Block then set_at_index out ?i Channel_Block base else out)) =
        (Inr out2 :: light_solve_error + mutable_output)"
    "shape si V out2" "\<And>q c'. q \<in> open_cells si \<Longrightarrow> lev out2 c' q =
      (if c' = Channel_Block \<and> q = p then max (lev out Channel_Block q) (base_level si Channel_Block q) else lev out c' q)"
    using raise_channel [OF ok seeds o out, of Channel_Block] by blast
  obtain out3 where out3: "and_then (local_base si ?i Channel_Sky) (\<lambda>base.
      Inr (if base > get_at_index out2 ?i Channel_Sky then set_at_index out2 ?i Channel_Sky base else out2)) =
        (Inr out3 :: light_solve_error + mutable_output)"
    "shape si V out3" "\<And>q c'. q \<in> open_cells si \<Longrightarrow> lev out3 c' q =
      (if c' = Channel_Sky \<and> q = p then max (lev out2 Channel_Sky q) (base_level si Channel_Sky q) else lev out2 c' q)"
    using raise_channel [OF ok seeds o out2(2), of Channel_Sky] by blast
  have cell: "raise_cell si ?i out = Some (Inr out3)"
    using filter_at_eq [OF ok pb] False out2(1) out3(1)
    by (cases "filt si p") (simp_all add: raise_cell_def both_channels_def then_do_def)
  have "lev out3 c q = (if q = p then max (lev out c q) (base_level si c q) else lev out c q)"
    if "q \<in> open_cells si" for q c
    using out2(3) [OF that] out3(3) [OF that] by (cases c) auto
  then show ?thesis using out3(2) cell by blast
qed

text \<open>Raising the cells of a list, in any order and any number of times.\<close>

lemma raise_listed:
  assumes ok: "solve_ok si V" and seeds: "seeds_ok si" and shape: "shape si V out"
    and cells: "\<And>p. p \<in> set ps \<Longrightarrow> bounds_contain (si_bounds si) p"
  shows "wp (solve_error si B) (\<lambda>out'. shape si V out' \<and> (\<forall>p\<in>open_cells si. \<forall>c. lev out' c p =
      (if p \<in> set ps then max (lev out c p) (base_level si c p) else lev out c p)))
    (for_each (raise_cell si) (map (rank (si_bounds si)) ps) out)"
  using shape cells
proof (induction ps arbitrary: out)
  case (Cons p ps)
  obtain out1 where out1: "raise_cell si (rank (si_bounds si) p) out = Some (Inr out1)" "shape si V out1"
    "\<And>q c. q \<in> open_cells si \<Longrightarrow> lev out1 c q = (if q = p then max (lev out c q) (base_level si c q) else lev out c q)"
    using raise_one [OF ok seeds Cons.prems(2) [of p] Cons.prems(1)] by auto
  have "wp (solve_error si B) (\<lambda>out'. shape si V out' \<and> (\<forall>q\<in>open_cells si. \<forall>c. lev out' c q =
      (if q \<in> set ps then max (lev out1 c q) (base_level si c q) else lev out1 c q)))
    (for_each (raise_cell si) (map (rank (si_bounds si)) ps) out1)"
    by (rule Cons.IH [OF out1(2)]) (simp add: Cons.prems(2))
  then show ?case
    by (simp add: out1(1) then_do_def) (erule wp_mono, auto simp: out1(3))
qed simp

lemma raise_is_raised:
  assumes "shape si V out'" and within: "\<And>p c. p \<in> open_cells si \<Longrightarrow> within_field si c p (lev out c p)"
    and levs: "\<And>p c. p \<in> open_cells si \<Longrightarrow> lev out' c p = max (lev out c p) (base_level si c p)"
  shows "raised si V out'"
proof -
  have "within_field si c p (base_level si c p)" if "p \<in> open_cells si" for p c
    using lit.source [of si p _ c] that by (auto simp: within_field_def open_cell_iff)
  then show ?thesis using assms(1) within by (simp add: raised_def levs max_def)
qed

lemma raise_all:
  assumes ok: "solve_ok si V" and seeds: "seeds_ok si" and shape: "shape si V out"
    and within: "\<And>p c. p \<in> open_cells si \<Longrightarrow> within_field si c p (lev out c p)"
  shows "wp (solve_error si B) (raised si V) (for_each (raise_cell si) [0..<V] out)"
proof -
  have r: "region (si_bounds si) V" by (rule region_of_ok [OF ok])
  have all: "[0..<V] = map (rank (si_bounds si)) (dense_cells (si_bounds si))"
    using region_facts(1,7) [OF r] by (intro nth_equalityI) simp_all
  show ?thesis
    unfolding all
  proof (rule wp_mono [OF raise_listed [OF ok seeds shape]])
    fix out' assume out': "shape si V out' \<and> (\<forall>p\<in>open_cells si. \<forall>c. lev out' c p =
      (if p \<in> set (dense_cells (si_bounds si)) then max (lev out c p) (base_level si c p) else lev out c p))"
    show "raised si V out'"
      by (rule raise_is_raised [OF _ within]) (use out' in \<open>auto simp: in_dense_cells open_cell_iff\<close>)
  qed (simp add: in_dense_cells)
qed

end
