(* ===== verification/Light_Queue.thy ===== *)
theory Light_Queue
  imports Light_Darken
begin

section \<open>The increase queue\<close>

text \<open>
  The queue as the set of cells that wait, each once, with the direct-sky mark merged into a waiting
  cell; what a push, a pop and a reset do to it.
\<close>

definition waits :: "increase_queue \<Rightarrow> block_pos \<Rightarrow> bool" where
  "waits q p \<longleftrightarrow> p \<in> fst ` set (iq_entries q)"

definition waits_direct :: "solve_input \<Rightarrow> increase_queue \<Rightarrow> block_pos \<Rightarrow> bool" where
  "waits_direct si q p \<longleftrightarrow> (iq_pending q ! rank (si_bounds si) p) AND DIRECT_SKY \<noteq> 0"

definition queue_ok :: "solve_input \<Rightarrow> nat \<Rightarrow> increase_queue \<Rightarrow> bool" where
  "queue_ok si V q \<longleftrightarrow> length (iq_pending q) = V \<and> distinct (map fst (iq_entries q)) \<and>
     (\<forall>(p, i)\<in>set (iq_entries q). p \<in> open_cells si \<and> i = rank (si_bounds si) p) \<and>
     (\<forall>p. bounds_contain (si_bounds si) p \<longrightarrow>
        (if waits q p then iq_pending q ! rank (si_bounds si) p \<in> {1, 3} else iq_pending q ! rank (si_bounds si) p = 0))"

lemma waits_pending [simp]: "waits (q\<lparr>iq_pending := x\<rparr>) = waits q"
  by (simp add: fun_eq_iff waits_def)

lemma marks: "PENDING OR 0 = 1" "PENDING OR DIRECT_SKY = 3" "(1::nat) OR 1 = 1" "(1::nat) OR 3 = 3" "(3::nat) OR 1 = 3"
  "(3::nat) OR 3 = 3" "(1::nat) AND DIRECT_SKY = 0" "(3::nat) AND DIRECT_SKY = 2" "(0::nat) AND DIRECT_SKY = 0"
  by (simp_all add: PENDING_def DIRECT_SKY_def)

lemma waits_direct_waits:
  "queue_ok si V q \<Longrightarrow> p \<in> open_cells si \<Longrightarrow> waits_direct si q p \<Longrightarrow> waits q p"
  by (auto simp: queue_ok_def waits_direct_def open_cell_iff marks split: if_splits)

lemma queue_pending:
  assumes "queue_ok si V q" and "bounds_contain (si_bounds si) p"
  shows "waits q p \<Longrightarrow> iq_pending q ! rank (si_bounds si) p = 1 \<or> iq_pending q ! rank (si_bounds si) p = 3"
    and "\<not> waits q p \<Longrightarrow> iq_pending q ! rank (si_bounds si) p = 0"
proof -
  have "if waits q p then iq_pending q ! rank (si_bounds si) p \<in> {1, 3} else iq_pending q ! rank (si_bounds si) p = 0"
    using assms unfolding queue_ok_def by blast
  then show "waits q p \<Longrightarrow> iq_pending q ! rank (si_bounds si) p = 1 \<or> iq_pending q ! rank (si_bounds si) p = 3"
    and "\<not> waits q p \<Longrightarrow> iq_pending q ! rank (si_bounds si) p = 0" by simp_all
qed

text \<open>The cells and marks after a push.\<close>

definition pushed :: "solve_input \<Rightarrow> nat \<Rightarrow> increase_queue \<Rightarrow> block_pos \<Rightarrow> bool \<Rightarrow> increase_queue \<Rightarrow> bool" where
  "pushed si V q p direct q' \<longleftrightarrow> queue_ok si V q' \<and> length (iq_entries q') \<le> Suc (length (iq_entries q)) \<and>
     (\<forall>r\<in>open_cells si. waits q' r \<longleftrightarrow> waits q r \<or> r = p) \<and>
     (\<forall>r\<in>open_cells si. waits_direct si q' r \<longleftrightarrow> waits_direct si q r \<or> r = p \<and> direct)"

lemma mark_pending:
  assumes ok: "solve_ok si V" and p: "p \<in> open_cells si" and len: "length pending = V"
    and r: "bounds_contain (si_bounds si) r"
  shows "pending[rank (si_bounds si) p := x] ! rank (si_bounds si) r =
    (if r = p then x else pending ! rank (si_bounds si) r)"
proof -
  have pb: "bounds_contain (si_bounds si) p" using p by (simp add: open_cell_iff)
  show ?thesis
    using region_facts(4) [OF region_of_ok [OF ok] pb] rank_inj [OF region_of_ok [OF ok] pb r]
    by (auto simp: nth_list_update len)
qed

lemma push_waiting:
  assumes ok: "solve_ok si V" and q: "queue_ok si V q" and p: "p \<in> open_cells si" and w: "waits q p"
  shows "pushed si V q p direct (q\<lparr>iq_pending := (iq_pending q)[rank (si_bounds si) p :=
    iq_pending q ! rank (si_bounds si) p OR (PENDING OR (if direct then DIRECT_SKY else 0))]\<rparr>)"
proof -
  let ?i = "rank (si_bounds si) p"
  let ?q = "q\<lparr>iq_pending := (iq_pending q)[?i := iq_pending q ! ?i OR (PENDING OR (if direct then DIRECT_SKY else 0))]\<rparr>"
  have pb: "bounds_contain (si_bounds si) p" using p by (simp add: open_cell_iff)
  have old: "iq_pending q ! ?i = 1 \<or> iq_pending q ! ?i = 3" using queue_pending(1) [OF q pb w] .
  have new: "iq_pending q ! ?i OR (PENDING OR (if direct then DIRECT_SKY else 0)) =
      (if direct \<or> iq_pending q ! ?i = 3 then 3 else 1)"
    using old by (cases direct) (auto simp: PENDING_def DIRECT_SKY_def)
  have len: "length (iq_pending q) = V" using q by (simp add: queue_ok_def)
  note at = mark_pending [OF ok p len]
  have same: "waits ?q = waits q" by simp
  have "queue_ok si V ?q"
    unfolding queue_ok_def
  proof (intro conjI)
    show "length (iq_pending ?q) = V" by (simp add: len)
    show "distinct (map fst (iq_entries ?q))" "\<forall>(p, i)\<in>set (iq_entries ?q). p \<in> open_cells si \<and> i = rank (si_bounds si) p"
      using q by (simp_all add: queue_ok_def)
    show "\<forall>r. bounds_contain (si_bounds si) r \<longrightarrow>
        (if waits ?q r then iq_pending ?q ! rank (si_bounds si) r \<in> {1, 3} else iq_pending ?q ! rank (si_bounds si) r = 0)"
    proof (intro allI impI)
      fix r assume r: "bounds_contain (si_bounds si) r"
      show "if waits ?q r then iq_pending ?q ! rank (si_bounds si) r \<in> {1, 3} else iq_pending ?q ! rank (si_bounds si) r = 0"
        using queue_pending [OF q r] w unfolding same by (auto simp: new at [OF r])
    qed
  qed
  moreover have "waits_direct si ?q r \<longleftrightarrow> waits_direct si q r \<or> r = p \<and> direct" if "r \<in> open_cells si" for r
    using old that unfolding waits_direct_def new by (auto simp: at marks open_cell_iff DIRECT_SKY_def)
  ultimately show ?thesis using same w by (auto simp: pushed_def)
qed

lemma push_new:
  assumes ok: "solve_ok si V" and q: "queue_ok si V q" and p: "p \<in> open_cells si" and w: "\<not> waits q p"
  shows "pushed si V q p direct \<lparr>iq_entries = iq_entries q @ [(p, rank (si_bounds si) p)],
    iq_pending = (iq_pending q)[rank (si_bounds si) p :=
      iq_pending q ! rank (si_bounds si) p OR (PENDING OR (if direct then DIRECT_SKY else 0))]\<rparr>"
    (is "pushed si V q p direct ?q")
proof -
  let ?i = "rank (si_bounds si) p"
  have pb: "bounds_contain (si_bounds si) p" using p by (simp add: open_cell_iff)
  have old: "iq_pending q ! ?i = 0" using queue_pending(2) [OF q pb w] .
  have new: "iq_pending q ! ?i OR (PENDING OR (if direct then DIRECT_SKY else 0)) = (if direct then 3 else 1)"
    unfolding old by (simp add: marks PENDING_def DIRECT_SKY_def)
  have len: "length (iq_pending q) = V" using q by (simp add: queue_ok_def)
  note at = mark_pending [OF ok p len]
  have same: "waits ?q r \<longleftrightarrow> waits q r \<or> r = p" for r by (auto simp: waits_def)
  have "queue_ok si V ?q"
    unfolding queue_ok_def
  proof (intro conjI)
    show "length (iq_pending ?q) = V" by (simp add: len)
    show "distinct (map fst (iq_entries ?q))" using q w by (auto simp: queue_ok_def waits_def)
    show "\<forall>(p, i)\<in>set (iq_entries ?q). p \<in> open_cells si \<and> i = rank (si_bounds si) p"
      using q p by (auto simp: queue_ok_def)
    show "\<forall>r. bounds_contain (si_bounds si) r \<longrightarrow>
        (if waits ?q r then iq_pending ?q ! rank (si_bounds si) r \<in> {1, 3} else iq_pending ?q ! rank (si_bounds si) r = 0)"
    proof (intro allI impI)
      fix r assume r: "bounds_contain (si_bounds si) r"
      show "if waits ?q r then iq_pending ?q ! rank (si_bounds si) r \<in> {1, 3} else iq_pending ?q ! rank (si_bounds si) r = 0"
        using queue_pending [OF q r] unfolding same by (auto simp: new at [OF r])
    qed
  qed
  moreover have "waits_direct si ?q r \<longleftrightarrow> waits_direct si q r \<or> r = p \<and> direct" if "r \<in> open_cells si" for r
    using old that unfolding waits_direct_def new by (auto simp: at marks open_cell_iff DIRECT_SKY_def)
  ultimately show ?thesis using same by (auto simp: pushed_def)
qed

lemma wp_push:
  assumes ok: "solve_ok si V" and q: "queue_ok si V q" and p: "p \<in> open_cells si" and room: "count + 1 \<le> B"
    and Q: "\<And>q' count'. pushed si V q p direct q' \<Longrightarrow> count' \<le> count + 1 \<Longrightarrow> Q (q', count')"
  shows "wp (solve_error si B) Q (Some (queue_push_back q
    \<lparr>ie_position = p, ie_index = rank (si_bounds si) p, ie_direct = direct\<rparr> count (max_entries si)))"
proof -
  have pb: "bounds_contain (si_bounds si) p" using p by (simp add: open_cell_iff)
  have "rank (si_bounds si) p < 2 ^ 32"
    using region_facts(4) [OF region_of_ok [OF ok] pb] ok by (simp add: solve_ok_def U32_MAX_def)
  then have small: "rank (si_bounds si) p mod 2 ^ 32 = rank (si_bounds si) p" by simp
  have pend: "iq_pending q ! rank (si_bounds si) p = 0 \<longleftrightarrow> \<not> waits q p"
    using q pb by (auto simp: queue_ok_def split: if_splits)
  show ?thesis
  proof (cases "waits q p")
    case True
    then show ?thesis
      using Q [OF push_waiting [OF ok q p True, of direct], of count] by (simp add: queue_push_back_def Let_def pend)
  next
    case False
    have eq: "queue_push_back q \<lparr>ie_position = p, ie_index = rank (si_bounds si) p, ie_direct = direct\<rparr> count (max_entries si) =
      and_then (enqueue_counted count 1 (max_entries si)) (\<lambda>count'.
        Inr (\<lparr>iq_entries = iq_entries q @ [(p, rank (si_bounds si) p)],
          iq_pending = (iq_pending q)[rank (si_bounds si) p :=
            iq_pending q ! rank (si_bounds si) p OR (PENDING OR (if direct then DIRECT_SKY else 0))]\<rparr>, count'))"
      using False small
      by (cases "enqueue_counted count 1 (max_entries si)") (simp_all add: queue_push_back_def Let_def pend)
    show ?thesis
      unfolding eq
      by (rule wp_seq_res [OF wp_enqueue [OF room, where Q = "\<lambda>count'. count' \<le> count + 1"]])
        (use Q [OF push_new [OF ok q p False, of direct]] in simp_all)
  qed
qed

lemma pop_front:
  assumes ok: "solve_ok si V" and q: "queue_ok si V q" and pop: "queue_pop_front q = Some (entry, q')"
  obtains p where "p \<in> open_cells si" "waits q p"
    "entry = \<lparr>ie_position = p, ie_index = rank (si_bounds si) p, ie_direct = waits_direct si q p\<rparr>"
    "queue_ok si V q'" "length (iq_entries q') < length (iq_entries q)"
    "\<And>r. r \<in> open_cells si \<Longrightarrow> waits q' r \<longleftrightarrow> waits q r \<and> r \<noteq> p"
    "\<And>r. r \<in> open_cells si \<Longrightarrow> waits_direct si q' r \<longleftrightarrow> waits_direct si q r \<and> r \<noteq> p"
proof -
  obtain p i entries where e: "iq_entries q = (p, i) # entries"
    using pop by (cases "iq_entries q") (auto simp: queue_pop_front_def)
  have p: "p \<in> open_cells si" and i: "i = rank (si_bounds si) p" using q by (auto simp: queue_ok_def e)
  have q': "q' = \<lparr>iq_entries = entries, iq_pending = (iq_pending q)[rank (si_bounds si) p := 0]\<rparr>"
    and entry: "entry = \<lparr>ie_position = p, ie_index = rank (si_bounds si) p, ie_direct = waits_direct si q p\<rparr>"
    using pop by (simp_all add: queue_pop_front_def e i waits_direct_def)
  have len: "length (iq_pending q) = V" using q by (simp add: queue_ok_def)
  note at = mark_pending [OF ok p len]
  have other: "p \<notin> fst ` set entries" using q by (auto simp: queue_ok_def e)
  then have w: "waits q' r \<longleftrightarrow> waits q r \<and> r \<noteq> p" for r by (auto simp: waits_def e q')
  have "queue_ok si V q'"
    using q other unfolding queue_ok_def w by (auto simp: q' at e)
  moreover have "waits_direct si q' r \<longleftrightarrow> waits_direct si q r \<and> r \<noteq> p" if "r \<in> open_cells si" for r
    using that by (auto simp: waits_direct_def q' at open_cell_iff marks)
  moreover have "waits q p" by (simp add: waits_def e)
  moreover have "length (iq_entries q') < length (iq_entries q)" by (simp add: q' e)
  ultimately show ?thesis using that p entry w by blast
qed

lemma pop_none: "queue_pop_front q = None \<Longrightarrow> \<not> waits q p"
  by (auto simp: queue_pop_front_def waits_def split: list.splits)

subsection \<open>Reset\<close>

text \<open>A queue left by an earlier solve, finished or failed: only queued cells are marked.\<close>

definition scratch_ok :: "increase_queue \<Rightarrow> bool" where
  "scratch_ok q \<longleftrightarrow> (\<forall>i<length (iq_pending q). iq_pending q ! i \<noteq> 0 \<longrightarrow> i \<in> snd ` set (iq_entries q))"

lemma cleared:
  "length (fold (\<lambda>(_, i) pending. pending[i := 0]) es pending) = length (pending :: nat list) \<and>
   (\<forall>i<length pending. fold (\<lambda>(_, i) pending. pending[i := 0]) es pending ! i =
      (if i \<in> snd ` set es then 0 else pending ! i))"
proof (induction es arbitrary: pending)
  case (Cons e es)
  then show ?case by (cases e) (auto simp: nth_list_update)
qed simp

lemma queue_reset_clean:
  assumes "scratch_ok q" and "V \<le> U32_MAX"
  shows "queue_reset q V = Some \<lparr>iq_entries = [], iq_pending = replicate V 0\<rparr>"
proof -
  let ?clear = "iq_pending (queue_clear q)"
  have len: "length ?clear = length (iq_pending q)" using cleared [of "iq_entries q" "iq_pending q"] by (simp add: queue_clear_def)
  have zero: "?clear ! i = 0" if "i < length ?clear" for i
    using cleared [of "iq_entries q" "iq_pending q"] assms(1) that unfolding len
    by (auto simp: queue_clear_def scratch_ok_def)
  have "take V ?clear @ replicate (V - length ?clear) 0 = replicate V 0"
    by (rule nth_equalityI) (auto simp: nth_append zero)
  moreover have "iq_entries (queue_clear q) = []" by (simp add: queue_clear_def)
  ultimately show ?thesis using assms(2) by (simp add: queue_reset_def Let_def)
qed

lemma clean_queue_ok: "solve_ok si V \<Longrightarrow> queue_ok si V \<lparr>iq_entries = [], iq_pending = replicate V 0\<rparr>"
  using region_facts(4) [OF region_of_ok] by (auto simp: queue_ok_def waits_def)

end
