(* ===== verification/Light_Spread.thy ===== *)
theory Light_Spread
  imports Light_Queue
begin

section \<open>Spreading light\<close>

text \<open>
  The worklist of the second half of a solve.  Its invariant: no cell exceeds the field, and every cell
  either waits or has given its neighbours all the light it can; each offer that changes something
  uses up some of a finite potential, so the loop ends, and with the queue it has built the field.
\<close>

definition down :: "i32 \<times> i32 \<times> i32" where
  "down = (0, -1, 0)"

subsection \<open>Closure\<close>

text \<open>The light of a cell has reached the neighbour at an offset.\<close>

definition reached :: "solve_input \<Rightarrow> mutable_output \<Rightarrow> light_channel \<Rightarrow> block_pos \<Rightarrow> i32 \<times> i32 \<times> i32 \<Rightarrow> bool" where
  "reached si out c p offset \<longleftrightarrow> (step p offset \<in> open_cells si \<longrightarrow>
     lev out c p - max (the (filt si (step p offset))) 1 \<le> lev out c (step p offset))"

definition falls :: "solve_input \<Rightarrow> dense_set \<Rightarrow> block_pos \<Rightarrow> bool" where
  "falls si D p \<longleftrightarrow> (step p down \<in> open_cells si \<and> filt si (step p down) = Some 0 \<longrightarrow> in_set D (step p down))"

definition halo_closed :: "solve_input \<Rightarrow> mutable_output \<Rightarrow> dense_set \<Rightarrow> light_channel \<Rightarrow> block_pos \<Rightarrow> bool" where
  "halo_closed si out D c p \<longleftrightarrow> (\<forall>offset\<in>set NEIGHBOURS. \<forall>n l d. checked_offset p offset = Some n \<and> halo_light si c n = Some (l, d) \<longrightarrow>
     incoming_level l (the (filt si p)) c (si_profile si) offset d \<le> lev out c p \<and>
     (stays_direct si c (the (filt si p)) offset l d \<longrightarrow> in_set D p))"

definition direct_sound :: "solve_input \<Rightarrow> nat \<Rightarrow> mutable_output \<Rightarrow> dense_set \<Rightarrow> bool" where
  "direct_sound si V out D \<longleftrightarrow> set_ok si V D \<and>
     (\<forall>p. bounds_contain (si_bounds si) p \<and> in_set D p \<longrightarrow> lit si Channel_Sky p 15 True \<and> lev out Channel_Sky p = 15) \<and>
     (\<forall>p\<in>open_cells si. direct_sky_down (si_profile si) \<and> base_level si Channel_Sky p = 15 \<and> filt si p = Some 0 \<longrightarrow> in_set D p)"

text \<open>How much the cells can still rise.\<close>

definition potential :: "solve_input \<Rightarrow> mutable_output \<Rightarrow> dense_set \<Rightarrow> nat" where
  "potential si out D = (\<Sum>p\<in>open_cells si. (15 - lev out Channel_Block p) + (15 - lev out Channel_Sky p) +
     (if in_set D p then 0 else 1))"

lemma potential_le: "solve_ok si V \<Longrightarrow> potential si out D \<le> 31 * V"
proof -
  assume ok: "solve_ok si V"
  have "potential si out D \<le> (\<Sum>p\<in>open_cells si. 31)" unfolding potential_def
  proof (rule sum_mono)
    fix p
    have "15 - a + (15 - b) \<le> (30::nat)" for a b :: nat by linarith
    from this [of "lev out Channel_Block p" "lev out Channel_Sky p"]
    show "15 - lev out Channel_Block p + (15 - lev out Channel_Sky p) + (if in_set D p then 0 else 1) \<le> 31" by simp
  qed
  also have "\<dots> \<le> 31 * V" using card_open_cells [OF ok] by simp
  finally show ?thesis .
qed

text \<open>A later state: no cell dimmer, no direct sky lost.\<close>

definition brighter :: "solve_input \<Rightarrow> mutable_output \<times> dense_set \<Rightarrow> mutable_output \<times> dense_set \<Rightarrow> bool" where
  "brighter si a b \<longleftrightarrow> (\<forall>p\<in>open_cells si. (\<forall>c. lev (fst a) c p \<le> lev (fst b) c p) \<and> (in_set (snd a) p \<longrightarrow> in_set (snd b) p))"

lemma brighter_refl [simp]: "brighter si a a"
  by (simp add: brighter_def)

lemma brighter_trans: "brighter si a b \<Longrightarrow> brighter si b c \<Longrightarrow> brighter si a c"
  unfolding brighter_def by (meson le_trans)

lemma halo_closed_mono:
  assumes "brighter si (out, D) (out', D')" "p \<in> open_cells si" "halo_closed si out D c p"
  shows "halo_closed si out' D' c p"
  using assms unfolding halo_closed_def brighter_def by (fastforce intro: le_trans)

lemma reached_mono:
  assumes "brighter si (out, D) (out', D')" "lev out' c p = lev out c p" "reached si out c p offset"
  shows "reached si out' c p offset"
  using assms unfolding reached_def brighter_def by (auto intro: le_trans)

lemma falls_mono:
  assumes "brighter si (out, D) (out', D')" "falls si D p"
  shows "falls si D' p"
  using assms unfolding falls_def brighter_def by auto

text \<open>What spreading one channel leaves alone: the levels of the other, and, for block light, the direct sky.\<close>

definition untouched :: "solve_input \<Rightarrow> light_channel \<Rightarrow> mutable_output \<times> dense_set \<Rightarrow> mutable_output \<times> dense_set \<Rightarrow> bool" where
  "untouched si c start now \<longleftrightarrow> (\<forall>p\<in>open_cells si. (\<forall>c'. c' \<noteq> c \<longrightarrow> lev (fst now) c' p = lev (fst start) c' p) \<and>
     (c \<noteq> Channel_Sky \<longrightarrow> (in_set (snd now) p \<longleftrightarrow> in_set (snd start) p)))"

definition spread_inv :: "solve_input \<Rightarrow> nat \<Rightarrow> nat \<Rightarrow> light_channel \<Rightarrow> mutable_output \<times> dense_set \<Rightarrow>
    (block_pos \<times> i32 \<times> i32 \<times> i32) set \<Rightarrow> block_pos set \<Rightarrow> spread_state \<Rightarrow> bool" where
  "spread_inv si V B c start0 todo falling st \<longleftrightarrow>
     raised si V (sp_output st) \<and> queue_ok si V (sp_queue st) \<and> direct_sound si V (sp_output st) (sp_direct st) \<and>
     (\<forall>p\<in>open_cells si. waits_direct si (sp_queue st) p \<longrightarrow> c = Channel_Sky \<longrightarrow> in_set (sp_direct st) p) \<and>
     (\<forall>p\<in>open_cells si. waits (sp_queue st) p \<or>
        (\<forall>offset\<in>set NEIGHBOURS. (p, offset) \<in> todo \<or> reached si (sp_output st) c p offset)) \<and>
     (c = Channel_Sky \<longrightarrow> (\<forall>p\<in>open_cells si. in_set (sp_direct st) p \<longrightarrow>
        waits_direct si (sp_queue st) p \<or> p \<in> falling \<or> falls si (sp_direct st) p)) \<and>
     untouched si c start0 (sp_output st, sp_direct st) \<and>
     sp_total st + potential si (sp_output st) (sp_direct st) \<le> B"

lemma spread_inv_stats [simp]:
  "spread_inv si V B c start0 todo falling (st\<lparr>sp_stats := stats\<rparr>) = spread_inv si V B c start0 todo falling st"
  by (simp add: spread_inv_def)

lemma inv_closed:
  "spread_inv si V B c start0 todo falling st \<Longrightarrow> x \<in> open_cells si \<Longrightarrow> \<not> waits (sp_queue st) x \<Longrightarrow>
    offset \<in> set NEIGHBOURS \<Longrightarrow> (x, offset) \<in> todo \<or> reached si (sp_output st) c x offset"
  unfolding spread_inv_def by blast

lemma inv_falls:
  "spread_inv si V B c start0 todo falling st \<Longrightarrow> c = Channel_Sky \<Longrightarrow> x \<in> open_cells si \<Longrightarrow>
    in_set (sp_direct st) x \<Longrightarrow> \<not> waits_direct si (sp_queue st) x \<Longrightarrow> x \<in> falling \<or> falls si (sp_direct st) x"
  unfolding spread_inv_def by blast

lemma within_le:
  "solve_ok si V \<Longrightarrow> seeds_ok si \<Longrightarrow> within_field si c p l \<Longrightarrow> l \<le> 15"
  using lit_le unfolding within_field_def by (metis le_trans zero_le)

lemma within_step:
  assumes ok: "solve_ok si V" and seeds: "seeds_ok si" and p: "p \<in> open_cells si" and offset: "offset \<in> set NEIGHBOURS"
    and w: "within_field si c (step p offset) l"
  shows "within_field si c p (l - max (the (filt si p)) 1)"
proof (cases "l = 0")
  case False
  obtain f where f: "filt si p = Some f" "bounds_contain (si_bounds si) p" using p by (auto simp: open_cell_iff)
  obtain l' d where l': "l \<le> l'" "lit si c (step p offset) l' d" using w False by (auto simp: within_field_def)
  have "l - max f 1 \<le> incoming_level l' f c (si_profile si) offset d"
    using l'(1) lit_le [OF ok seeds l'(2)] diff_le_mono [of l l' "max f 1"] le_trans [OF diff_le_self l'(1)]
    unfolding incoming_eq by (auto intro: le_trans)
  with lit.step [OF l'(2) f(2,1) offset] show ?thesis unfolding f within_field_def option.sel by blast
qed (simp add: within_field_def)

lemma direct_step:
  assumes "lit si Channel_Sky p 15 True" and "step p offset \<in> open_cells si" and "filt si (step p offset) = Some 0"
    and "offset = down"
  shows "lit si Channel_Sky (step p offset) 15 True"
proof -
  have d: "direct_sky_down (si_profile si)" using lit_direct [OF assms(1)] by simp
  have m: "mirror offset = (0, 1, 0)" using assms(4) by (simp add: down_def)
  have "lit si Channel_Sky (step (step p offset) (mirror offset)) 15 True" using assms(1) by simp
  from lit.step [OF this, of 0] show ?thesis
    using assms(2,3) d by (simp add: m open_cell_iff NEIGHBOURS_def incoming_eq stays_direct_def)
qed

lemma raised_set:
  assumes ok: "solve_ok si V" and out: "raised si V out" and p: "p \<in> open_cells si"
    and w: "within_field si c p v" and up: "lev out c p \<le> v"
  shows "raised si V (set_at_index out (rank (si_bounds si) p) c v)"
proof -
  have shape: "shape si V out" using out by (simp add: raised_def)
  show ?thesis
    unfolding raised_def
  proof (intro conjI ballI allI)
    show "shape si V (set_at_index out (rank (si_bounds si) p) c v)" by (rule shape_set [OF ok shape p])
  next
    fix q c' assume q: "q \<in> open_cells si"
    note l = lev_set_open [OF ok shape p q, of c v c']
    have "base_level si c' q \<le> lev out c' q" "within_field si c' q (lev out c' q)" using out q by (auto simp: raised_def)
    then show "base_level si c' q \<le> lev (set_at_index out (rank (si_bounds si) p) c v) c' q"
      "within_field si c' q (lev (set_at_index out (rank (si_bounds si) p) c v) c' q)"
      unfolding l using w up by auto
  qed
qed

subsection \<open>One offer\<close>

lemma sum_less_one:
  fixes f g :: "'a \<Rightarrow> nat"
  assumes "finite A" and "p \<in> A" and "\<And>q. q \<in> A \<Longrightarrow> g q \<le> f q" and "g p < f p"
  shows "sum g A < sum f A"
  using assms by (intro sum_strict_mono_ex1) auto

text \<open>The state in which an offer has been made but its cell is not queued yet.\<close>

definition offered_state :: "solve_input \<Rightarrow> light_channel \<Rightarrow> block_pos \<Rightarrow> nat \<Rightarrow> bool \<Rightarrow> spread_state \<Rightarrow> spread_state" where
  "offered_state si c p candidate direct st =
     (let i = rank (si_bounds si) p;
          st = (if candidate > lev (sp_output st) c p then st\<lparr>sp_output := set_at_index (sp_output st) i c candidate\<rparr> else st)
      in (if direct then st\<lparr>sp_direct := insert_at_index (sp_direct st) i\<rparr> else st))"

lemma offer_eq:
  assumes "out_ok si V (sp_output st)"
  shows "offer si c p (rank (si_bounds si) p) candidate direct st =
    spread_push si \<lparr>ie_position = p, ie_index = rank (si_bounds si) p, ie_direct = direct\<rparr> (offered_state si c p candidate direct st)"
  by (simp add: offer_def offered_state_def Let_def get_is_lev [OF assms])

lemma offered_facts:
  assumes ok: "solve_ok si V" and seeds: "seeds_ok si" and p: "p \<in> open_cells si"
    and out: "raised si V (sp_output st)" and D: "direct_sound si V (sp_output st) (sp_direct st)"
    and w: "within_field si c p candidate"
    and direct: "direct \<Longrightarrow> c = Channel_Sky \<and> candidate = 15 \<and> lit si Channel_Sky p 15 True"
    and change: "candidate > lev (sp_output st) c p \<or> direct \<and> \<not> in_set (sp_direct st) p"
  defines "st' \<equiv> offered_state si c p candidate direct st"
  shows "raised si V (sp_output st')" "direct_sound si V (sp_output st') (sp_direct st')"
    "brighter si (sp_output st, sp_direct st) (sp_output st', sp_direct st')"
    "candidate \<le> lev (sp_output st') c p" "direct \<Longrightarrow> in_set (sp_direct st') p"
    "\<And>q c'. q \<in> open_cells si \<Longrightarrow> c' \<noteq> c \<or> q \<noteq> p \<Longrightarrow> lev (sp_output st') c' q = lev (sp_output st) c' q"
    "\<And>q. bounds_contain (si_bounds si) q \<Longrightarrow> in_set (sp_direct st') q \<longleftrightarrow> in_set (sp_direct st) q \<or> q = p \<and> direct"
    "potential si (sp_output st') (sp_direct st') < potential si (sp_output st) (sp_direct st)"
    "sp_queue st' = sp_queue st" "sp_total st' = sp_total st"
proof -
  have pb: "bounds_contain (si_bounds si) p" using p by (simp add: open_cell_iff)
  have shape: "shape si V (sp_output st)" using out by (simp add: raised_def)
  have Dok: "set_ok si V (sp_direct st)" using D by (simp add: direct_sound_def)
  have w15: "candidate \<le> 15" by (rule within_le [OF ok seeds w])
  have out': "sp_output st' = (if candidate > lev (sp_output st) c p
      then set_at_index (sp_output st) (rank (si_bounds si) p) c candidate else sp_output st)"
    and D': "sp_direct st' = (if direct then insert_at_index (sp_direct st) (rank (si_bounds si) p) else sp_direct st)"
    by (simp_all add: st'_def offered_state_def Let_def)
  show q: "sp_queue st' = sp_queue st" "sp_total st' = sp_total st" by (simp_all add: st'_def offered_state_def Let_def)
  have lev': "lev (sp_output st') c' q = (if c' = c \<and> q = p then max candidate (lev (sp_output st) c p) else lev (sp_output st) c' q)"
    if "q \<in> open_cells si" for c' q
    by (auto simp: out' lev_set_open [OF ok shape p that] lev_set_open [OF ok shape p p])
  show inD: "in_set (sp_direct st') q \<longleftrightarrow> in_set (sp_direct st) q \<or> q = p \<and> direct" if "bounds_contain (si_bounds si) q" for q
    by (auto simp: D' in_set_insert [OF ok Dok pb that])
  show r: "raised si V (sp_output st')" using raised_set [OF ok out p w] out by (simp add: out')
  show br: "brighter si (sp_output st, sp_direct st) (sp_output st', sp_direct st')"
    by (auto simp: brighter_def lev' inD open_cell_iff)
  show cand: "candidate \<le> lev (sp_output st') c p" by (simp add: lev' [OF p])
  show dD: "direct \<Longrightarrow> in_set (sp_direct st') p" by (simp add: inD [OF pb])
  show "\<And>q c'. q \<in> open_cells si \<Longrightarrow> c' \<noteq> c \<or> q \<noteq> p \<Longrightarrow> lev (sp_output st') c' q = lev (sp_output st) c' q"
    by (auto simp: lev')
  have old15: "lev (sp_output st) c' q \<le> 15" if "q \<in> open_cells si" for c' q
    using out that by (intro within_le [OF ok seeds, of c' q]) (simp add: raised_def)
  show "direct_sound si V (sp_output st') (sp_direct st')"
    unfolding direct_sound_def
  proof (intro conjI allI impI ballI)
    show "set_ok si V (sp_direct st')" using Dok by (simp add: D')
  next
    fix q assume q: "bounds_contain (si_bounds si) q \<and> in_set (sp_direct st') q"
    then have "lit si Channel_Sky q 15 True \<and> (in_set (sp_direct st) q \<longrightarrow> lev (sp_output st) Channel_Sky q = 15)"
      using D direct by (auto simp: inD direct_sound_def)
    moreover from this have o: "q \<in> open_cells si" using lit_cell by (auto simp: open_cell_iff)
    moreover have "lev (sp_output st') Channel_Sky q = 15"
      using q inD [of q] calculation direct w15 old15 [OF o] by (auto simp: lev' [OF o] max_def intro: le_antisym)
    ultimately show "lit si Channel_Sky q 15 True" "lev (sp_output st') Channel_Sky q = 15" by simp_all
  next
    fix q assume "q \<in> open_cells si" "direct_sky_down (si_profile si) \<and> base_level si Channel_Sky q = 15 \<and> filt si q = Some 0"
    then show "in_set (sp_direct st') q" using D by (auto simp: direct_sound_def inD open_cell_iff)
  qed
  show "potential si (sp_output st') (sp_direct st') < potential si (sp_output st) (sp_direct st)"
    unfolding potential_def
  proof (rule sum_less_one [OF finite_open_cells [OF ok] p])
    fix q assume "q \<in> open_cells si"
    then show "15 - lev (sp_output st') Channel_Block q + (15 - lev (sp_output st') Channel_Sky q) + (if in_set (sp_direct st') q then 0 else 1)
        \<le> 15 - lev (sp_output st) Channel_Block q + (15 - lev (sp_output st) Channel_Sky q) + (if in_set (sp_direct st) q then 0 else 1)"
      using br by (intro add_mono) (auto simp: brighter_def intro!: diff_le_mono2)
  next
    have le: "15 - lev (sp_output st') c' p \<le> 15 - lev (sp_output st) c' p" for c'
      using br p by (simp add: brighter_def diff_le_mono2)
    have leD: "(if in_set (sp_direct st') p then 0 else 1) \<le> (if in_set (sp_direct st) p then 0 else (1::nat))"
      using br p by (auto simp: brighter_def)
    show "15 - lev (sp_output st') Channel_Block p + (15 - lev (sp_output st') Channel_Sky p) + (if in_set (sp_direct st') p then 0 else 1)
        < 15 - lev (sp_output st) Channel_Block p + (15 - lev (sp_output st) Channel_Sky p) + (if in_set (sp_direct st) p then 0 else 1)"
    proof (cases "candidate > lev (sp_output st) c p")
      case True
      then have "15 - lev (sp_output st') c p < 15 - lev (sp_output st) c p" using w15 cand by linarith
      then have "15 - lev (sp_output st') Channel_Block p < 15 - lev (sp_output st) Channel_Block p \<or>
          15 - lev (sp_output st') Channel_Sky p < 15 - lev (sp_output st) Channel_Sky p" by (cases c) simp_all
      then show ?thesis using le [of Channel_Block] le [of Channel_Sky] leD by linarith
    next
      case False
      then have "(if in_set (sp_direct st') p then 0 else 1) < (if in_set (sp_direct st) p then 0 else (1::nat))"
        using change dD by auto
      then show ?thesis using le [of Channel_Block] le [of Channel_Sky] by linarith
    qed
  qed
qed


text \<open>What an offer keeps, by the facts of the state in which it is made.\<close>

definition offer_post :: "solve_input \<Rightarrow> light_channel \<Rightarrow> block_pos \<Rightarrow> nat \<Rightarrow> bool \<Rightarrow> spread_state \<Rightarrow> spread_state \<Rightarrow> bool" where
  "offer_post si c p candidate direct st st' \<longleftrightarrow>
     brighter si (sp_output st, sp_direct st) (sp_output st', sp_direct st') \<and>
     candidate \<le> lev (sp_output st') c p \<and> (direct \<longrightarrow> in_set (sp_direct st') p) \<and>
     (\<forall>q\<in>open_cells si. q \<noteq> p \<longrightarrow> lev (sp_output st') c q = lev (sp_output st) c q) \<and>
     potential si (sp_output st') (sp_direct st') < potential si (sp_output st) (sp_direct st)"

lemma offer_keeps:
  assumes ok: "solve_ok si V" and seeds: "seeds_ok si" and p: "p \<in> open_cells si"
    and inv: "spread_inv si V B c start0 todo falling st"
    and w: "within_field si c p candidate"
    and direct: "direct \<Longrightarrow> c = Channel_Sky \<and> candidate = 15 \<and> lit si Channel_Sky p 15 True"
    and change: "candidate > lev (sp_output st) c p \<or> direct \<and> \<not> in_set (sp_direct st) p"
  shows "wp (solve_error si B) (\<lambda>st'. spread_inv si V B c start0 todo falling st' \<and> offer_post si c p candidate direct st st')
    (Some (offer si c p (rank (si_bounds si) p) candidate direct st))"
proof -
  let ?st = "offered_state si c p candidate direct st"
  have pb: "bounds_contain (si_bounds si) p" using p by (simp add: open_cell_iff)
  have r: "raised si V (sp_output st)" and D: "direct_sound si V (sp_output st) (sp_direct st)"
    and q: "queue_ok si V (sp_queue st)" using inv by (simp_all add: spread_inv_def)
  note facts = offered_facts [OF ok seeds p r D w direct change, simplified]
  have budget: "sp_total st + potential si (sp_output st) (sp_direct st) \<le> B" using inv by (simp add: spread_inv_def)
  have room: "sp_total st + 1 \<le> B" using budget facts(8) by linarith
  have out: "out_ok si V (sp_output st)" using r by (simp add: raised_def shape_def)
  show ?thesis
    unfolding offer_eq [OF out] spread_push_def facts(9,10)
  proof (rule wp_seq_res [OF wp_push [OF ok q p room, where Q = "\<lambda>r. pushed si V (sp_queue st) p direct (fst r) \<and> snd r \<le> sp_total st + 1"]])
    fix q' count' assume "pushed si V (sp_queue st) p direct q'" "count' \<le> sp_total st + 1"
    then show "pushed si V (sp_queue st) p direct (fst (q', count')) \<and> snd (q', count') \<le> sp_total st + 1" by simp
  next
    fix r assume r': "pushed si V (sp_queue st) p direct (fst r) \<and> snd r \<le> sp_total st + 1"
    obtain q' count' where rq: "r = (q', count')" by (rule prod.exhaust)
    have push: "pushed si V (sp_queue st) p direct q'" and count: "count' \<le> sp_total st + 1" using r' by (simp_all add: rq)
    let ?st' = "?st\<lparr>sp_queue := q', sp_total := count'\<rparr>"
    have waits: "waits q' x \<longleftrightarrow> waits (sp_queue st) x \<or> x = p" if "x \<in> open_cells si" for x using push that by (simp add: pushed_def)
    have marks: "waits_direct si q' x \<longleftrightarrow> waits_direct si (sp_queue st) x \<or> x = p \<and> direct" if "x \<in> open_cells si" for x
      using push that by (simp add: pushed_def)
    have inD: "in_set (sp_direct ?st) x \<longleftrightarrow> in_set (sp_direct st) x \<or> x = p \<and> direct" if "x \<in> open_cells si" for x
      using facts(7) that by (simp add: open_cell_iff)
    have e: "sp_output ?st' = sp_output ?st" "sp_direct ?st' = sp_direct ?st" "sp_queue ?st' = q'" "sp_total ?st' = count'"
      by simp_all
    have "spread_inv si V B c start0 todo falling ?st'"
      unfolding spread_inv_def e
    proof (intro conjI ballI allI impI)
      show "raised si V (sp_output ?st)" by (rule facts(1))
      show "queue_ok si V q'" using push by (simp add: pushed_def)
      show "direct_sound si V (sp_output ?st) (sp_direct ?st)" by (rule facts(2))
    next
      fix x assume x: "x \<in> open_cells si" "waits_direct si q' x" "c = Channel_Sky"
      have "waits_direct si (sp_queue st) x \<longrightarrow> in_set (sp_direct st) x" using inv x by (simp add: spread_inv_def)
      then show "in_set (sp_direct ?st) x" using x(2) inD [OF x(1)] marks [OF x(1)] by blast
    next
      fix x assume x: "x \<in> open_cells si"
      show "waits q' x \<or> (\<forall>offset\<in>set NEIGHBOURS. (x, offset) \<in> todo \<or> reached si (sp_output ?st) c x offset)"
      proof (cases "x = p \<or> waits (sp_queue st) x")
        case True
        then show ?thesis using waits [OF x] by blast
      next
        case False
        then have "\<forall>offset\<in>set NEIGHBOURS. (x, offset) \<in> todo \<or> reached si (sp_output st) c x offset"
          using inv_closed [OF inv x] by blast
        then show ?thesis using reached_mono [OF facts(3), of c x] facts(6) [OF x] False by blast
      qed
    next
      fix x assume x: "c = Channel_Sky" "x \<in> open_cells si" "in_set (sp_direct ?st) x"
      show "waits_direct si q' x \<or> x \<in> falling \<or> falls si (sp_direct ?st) x"
      proof (cases "in_set (sp_direct st) x")
        case True
        then have "waits_direct si (sp_queue st) x \<or> x \<in> falling \<or> falls si (sp_direct st) x"
          using inv x by (simp add: spread_inv_def)
        then show ?thesis using falls_mono [OF facts(3)] by (auto simp: marks [OF x(2)])
      next
        case False
        then show ?thesis using x(3) inD [OF x(2)] marks [OF x(2)] by blast
      qed
    next
      have "untouched si c start0 (sp_output st, sp_direct st)" using inv by (simp add: spread_inv_def)
      then show "untouched si c start0 (sp_output ?st, sp_direct ?st)" using facts(6) inD direct unfolding untouched_def by auto
    next
      show "count' + potential si (sp_output ?st) (sp_direct ?st) \<le> B" using budget count facts(8) by linarith
    qed
    moreover have "offer_post si c p candidate direct st ?st'"
      using facts(3-6,8) by (simp add: offer_post_def)
    ultimately show "wp (solve_error si B) (\<lambda>st'. spread_inv si V B c start0 todo falling st' \<and> offer_post si c p candidate direct st st')
        (Some (case r of (q, count) \<Rightarrow> Inr (?st\<lparr>sp_queue := q, sp_total := count\<rparr>)))"
      by (simp add: rq)
  qed
qed


subsection \<open>Visiting the neighbours of a cell\<close>

text \<open>What a visit achieves towards the neighbour at an offset.\<close>

definition visited :: "solve_input \<Rightarrow> light_channel \<Rightarrow> block_pos \<Rightarrow> bool \<Rightarrow> i32 \<times> i32 \<times> i32 \<Rightarrow> spread_state \<Rightarrow> bool" where
  "visited si c p direct offset st \<longleftrightarrow> reached si (sp_output st) c p offset \<and>
     (c = Channel_Sky \<and> direct \<and> offset = down \<longrightarrow> falls si (sp_direct st) p)"

lemma step_not_self: "offset \<in> set NEIGHBOURS \<Longrightarrow> step p offset \<noteq> p"
  by (cases p) (auto simp: NEIGHBOURS_def step_def)

lemma spread_visit_keeps:
  assumes ok: "solve_ok si V" and seeds: "seeds_ok si" and p: "p \<in> open_cells si"
    and d: "(direction, offset) \<in> set (enumerate 0 NEIGHBOURS)"
    and inv: "spread_inv si V B c start0 todo falling st"
    and direct: "c = Channel_Sky \<Longrightarrow> direct \<Longrightarrow> in_set (sp_direct st) p"
    and source: "source = lev (sp_output st) c p"
  shows "wp (solve_error si B) (\<lambda>st'. spread_inv si V B c start0 todo falling st' \<and> visited si c p direct offset st' \<and>
      brighter si (sp_output st, sp_direct st) (sp_output st', sp_direct st') \<and>
      lev (sp_output st') c p = lev (sp_output st) c p \<and>
      (potential si (sp_output st') (sp_direct st') < potential si (sp_output st) (sp_direct st) \<or> st' = st))
    (spread_visit si c \<lparr>ie_position = p, ie_index = rank (si_bounds si) p, ie_direct = direct\<rparr> source (direction, offset) st)"
proof -
  let ?q = "step p offset"
  have pb: "bounds_contain (si_bounds si) p" using p by (simp add: open_cell_iff)
  have offset: "offset \<in> set NEIGHBOURS" using d by (auto simp: in_set_enumerate_eq)
  note nb = step_neighbour [OF ok pb d]
  have r: "raised si V (sp_output st)" and D: "direct_sound si V (sp_output st) (sp_direct st)"
    using inv by (simp_all add: spread_inv_def)
  have out: "out_ok si V (sp_output st)" using r by (simp add: raised_def shape_def)
  show ?thesis
  proof (cases "?q \<in> open_cells si")
    case False
    have "spread_visit si c \<lparr>ie_position = p, ie_index = rank (si_bounds si) p, ie_direct = direct\<rparr> source (direction, offset) st =
        Some (Inr st)"
      using False by (auto simp: spread_visit_def nb open_cell_iff filter_at_eq [OF ok])
    moreover have "visited si c p direct offset st" using False by (auto simp: visited_def reached_def falls_def)
    ultimately show ?thesis using inv by simp
  next
    case q: True
    then obtain f where qb: "bounds_contain (si_bounds si) ?q" and f: "filt si ?q = Some f" by (auto simp: open_cell_iff)
    define straight where "straight \<longleftrightarrow> c = Channel_Sky \<and> direct_sky_down (si_profile si) \<and> direct \<and>
        offset = (0, -1, 0) \<and> source = 15 \<and> f = 0"
    define candidate where "candidate = (if straight then 15 else source - max f 1)"
    define change where "change \<longleftrightarrow> candidate > lev (sp_output st) c ?q \<or>
        candidate = lev (sp_output st) c ?q \<and> straight \<and> \<not> in_set (sp_direct st) ?q"
    have Dset: "contains_at_index (sp_direct st) (rank (si_bounds si) ?q) = in_set (sp_direct st) ?q"
      using D by (simp add: in_set_def direct_sound_def set_ok_def)
    have visit: "spread_visit si c \<lparr>ie_position = p, ie_index = rank (si_bounds si) p, ie_direct = direct\<rparr> source (direction, offset) st =
        (if change then Some (and_then (offer si c ?q (rank (si_bounds si) ?q) candidate straight st) (\<lambda>st.
            Inr (st\<lparr>sp_stats := raise_peak (queue_len (sp_queue st)) (sp_stats st)\<rparr>)))
         else Some (Inr st))"
      unfolding spread_visit_def prod.case increase_entry.simps nb if_P [OF qb] option.case filter_at_eq [OF ok qb] f
        Let_def get_is_lev [OF out] Dset change_def candidate_def straight_def
      by (rule refl)
    have straightD: "lit si Channel_Sky ?q 15 True" if straight
    proof -
      have "in_set (sp_direct st) p" using that direct by (simp add: straight_def)
      then have "lit si Channel_Sky p 15 True" using D pb by (simp add: direct_sound_def)
      then show ?thesis using direct_step [OF _ q] that f by (simp add: straight_def down_def)
    qed
    have source_w: "within_field si c p source" using r p by (simp add: raised_def source)
    have w: "within_field si c ?q candidate"
    proof (cases straight)
      case True
      then show ?thesis using straightD by (auto simp: within_field_def candidate_def straight_def)
    next
      case False
      have "within_field si c (step ?q (mirror offset)) source" using source_w by simp
      from within_step [OF ok seeds q _ this] show ?thesis using False offset by (simp add: candidate_def f)
    qed
    have reach: "reached si (sp_output st') c p offset"
      if "candidate \<le> lev (sp_output st') c ?q" "lev (sp_output st') c p = lev (sp_output st) c p" for st'
    proof -
      have "source - max f 1 \<le> candidate" using within_le [OF ok seeds source_w] by (auto simp: candidate_def)
      then show ?thesis using that by (simp add: reached_def f source)
    qed
    have fall: "falls si (sp_direct st') p"
      if "straight \<longrightarrow> in_set (sp_direct st') ?q" "c = Channel_Sky" direct "offset = down" for st'
    proof -
      have "in_set (sp_direct st) p" using direct that by simp
      then have "lit si Channel_Sky p 15 True" "lev (sp_output st) Channel_Sky p = 15" using D pb by (simp_all add: direct_sound_def)
      then have "straight \<longleftrightarrow> f = 0" using that lit_direct [of si Channel_Sky p 15 True] by (simp add: straight_def source down_def)
      then show ?thesis using that f by (simp add: falls_def)
    qed
    show ?thesis
    proof (cases change)
      case False
      have low: "candidate \<le> lev (sp_output st) c ?q" using False by (auto simp: change_def)
      have straight_in: "straight \<longrightarrow> in_set (sp_direct st) ?q"
      proof
        assume straight
        then have "candidate = 15" "lev (sp_output st) c ?q \<le> 15"
          using within_le [OF ok seeds, of c ?q] r q by (simp_all add: candidate_def raised_def)
        then show "in_set (sp_direct st) ?q" using False \<open>straight\<close> low by (auto simp: change_def)
      qed
      have "visited si c p direct offset st"
        unfolding visited_def using reach [OF low refl] fall [OF straight_in] by blast
      then show ?thesis using inv False by (simp add: visit)
    next
      case True
      have offer: "wp (solve_error si B) (\<lambda>st'. spread_inv si V B c start0 todo falling st' \<and> offer_post si c ?q candidate straight st st')
        (Some (offer si c ?q (rank (si_bounds si) ?q) candidate straight st))"
        by (rule offer_keeps [OF ok seeds q inv w])
          (use True straightD in \<open>auto simp: change_def straight_def candidate_def\<close>)
      show ?thesis
        unfolding visit if_P [OF True]
      proof (rule wp_seq_res [OF offer])
        fix st' assume st': "spread_inv si V B c start0 todo falling st' \<and> offer_post si c ?q candidate straight st st'"
        then have same: "lev (sp_output st') c p = lev (sp_output st) c p"
          using p step_not_self [OF offset, of p] by (auto simp: offer_post_def)
        have "visited si c p direct offset st'"
          unfolding visited_def using st' reach [OF _ same] fall [of st'] unfolding offer_post_def by blast
        then have "visited si c p direct offset (st'\<lparr>sp_stats := raise_peak (queue_len (sp_queue st')) (sp_stats st')\<rparr>)"
          by (simp add: visited_def)
        then show "wp (solve_error si B) (\<lambda>st'. spread_inv si V B c start0 todo falling st' \<and> visited si c p direct offset st' \<and>
          brighter si (sp_output st, sp_direct st) (sp_output st', sp_direct st') \<and>
          lev (sp_output st') c p = lev (sp_output st) c p \<and>
          (potential si (sp_output st') (sp_direct st') < potential si (sp_output st) (sp_direct st) \<or> st' = st))
          (Some (Inr (st'\<lparr>sp_stats := raise_peak (queue_len (sp_queue st')) (sp_stats st')\<rparr>)))"
          using st' same by (simp add: offer_post_def)
      qed
    qed
  qed
qed

end
