(* ===== verification/Light_Propagate.thy ===== *)
theory Light_Propagate
  imports Light_Spread
begin

section \<open>Propagation\<close>

text \<open>
  The worklist loop and the seeding from the halo: whatever the state they start in, they return, and
  then every cell's light and direct sky have reached everything they can.
\<close>

subsection \<open>The loop\<close>

definition spread_order :: "solve_input \<Rightarrow> spread_state rel" where
  "spread_order si = inv_image (less_than <*lex*> less_than)
     (\<lambda>st. (potential si (sp_output st) (sp_direct st), length (iq_entries (sp_queue st))))"

lemma wf_spread_order: "wf (spread_order si)"
  unfolding spread_order_def by (intro wf_inv_image wf_lex_prod wf_less_than)

lemma pop_spread:
  assumes inv: "spread_inv si V B c start0 {} {} st" and p: "p \<in> open_cells si"
    and q: "queue_ok si V q"
    and waits: "\<And>r. r \<in> open_cells si \<Longrightarrow> waits q r \<longleftrightarrow> waits (sp_queue st) r \<and> r \<noteq> p"
    and marks: "\<And>r. r \<in> open_cells si \<Longrightarrow> waits_direct si q r \<longleftrightarrow> waits_direct si (sp_queue st) r \<and> r \<noteq> p"
  shows "spread_inv si V B c start0 {(p, offset) | offset. offset \<in> set NEIGHBOURS}
    (if waits_direct si (sp_queue st) p then {p} else {}) (st\<lparr>sp_queue := q\<rparr>)"
proof -
  have e: "sp_output (st\<lparr>sp_queue := q\<rparr>) = sp_output st" "sp_direct (st\<lparr>sp_queue := q\<rparr>) = sp_direct st"
    "sp_queue (st\<lparr>sp_queue := q\<rparr>) = q" "sp_total (st\<lparr>sp_queue := q\<rparr>) = sp_total st"
    by simp_all
  show ?thesis
    unfolding spread_inv_def e
  proof (intro conjI ballI allI impI)
    show "raised si V (sp_output st)" "direct_sound si V (sp_output st) (sp_direct st)"
      "sp_total st + potential si (sp_output st) (sp_direct st) \<le> B"
      using inv by (simp_all add: spread_inv_def)
    show "queue_ok si V q" by (rule q)
  next
    fix x assume x: "x \<in> open_cells si" "waits_direct si q x" "c = Channel_Sky"
    then show "in_set (sp_direct st) x" using inv marks by (simp add: spread_inv_def)
  next
    fix x assume x: "x \<in> open_cells si"
    show "waits q x \<or> (\<forall>offset\<in>set NEIGHBOURS. (x, offset) \<in> {(p, offset) | offset. offset \<in> set NEIGHBOURS} \<or>
        reached si (sp_output st) c x offset)"
      using inv_closed [OF inv x] waits [OF x] by blast
  next
    fix x assume x: "c = Channel_Sky" "x \<in> open_cells si" "in_set (sp_direct st) x"
    show "waits_direct si q x \<or> x \<in> (if waits_direct si (sp_queue st) p then {p} else {}) \<or> falls si (sp_direct st) x"
      using inv_falls [OF inv x] marks [OF x(2)] by auto
  next
    show "untouched si c start0 (sp_output st, sp_direct st)" using inv by (simp add: spread_inv_def)
  qed
qed

lemma visited_mono:
  assumes "visited si c p direct offset st"
    and "brighter si (sp_output st, sp_direct st) (sp_output st', sp_direct st')"
    and "lev (sp_output st') c p = lev (sp_output st) c p"
  shows "visited si c p direct offset st'"
  using assms reached_mono [OF assms(2,3)] falls_mono [OF assms(2)] by (auto simp: visited_def)

lemma all_visited:
  assumes inv: "spread_inv si V B c start0 {(p, offset) | offset. offset \<in> set NEIGHBOURS} (if direct then {p} else {}) st"
    and visited: "\<And>offset. offset \<in> set NEIGHBOURS \<Longrightarrow> visited si c p direct offset st"
  shows "spread_inv si V B c start0 {} {} st"
  unfolding spread_inv_def
proof (intro conjI ballI allI impI)
  show "raised si V (sp_output st)" "direct_sound si V (sp_output st) (sp_direct st)"
    "sp_total st + potential si (sp_output st) (sp_direct st) \<le> B" "queue_ok si V (sp_queue st)"
    using inv by (simp_all add: spread_inv_def)
next
  fix x assume "x \<in> open_cells si" "waits_direct si (sp_queue st) x" "c = Channel_Sky"
  then show "in_set (sp_direct st) x" using inv by (simp add: spread_inv_def)
next
  fix x assume x: "x \<in> open_cells si"
  have p: "reached si (sp_output st) c p offset" if "offset \<in> set NEIGHBOURS" for offset
    using visited [OF that] by (simp add: visited_def)
  show "waits (sp_queue st) x \<or> (\<forall>offset\<in>set NEIGHBOURS. (x, offset) \<in> {} \<or> reached si (sp_output st) c x offset)"
    using inv_closed [OF inv x] p by blast
next
  fix x assume x: "c = Channel_Sky" "x \<in> open_cells si" "in_set (sp_direct st) x"
  have "down \<in> set NEIGHBOURS" by (simp add: down_def NEIGHBOURS_def)
  from visited [OF this] have p: "direct \<longrightarrow> falls si (sp_direct st) p" using x(1) by (simp add: visited_def)
  show "waits_direct si (sp_queue st) x \<or> x \<in> {} \<or> falls si (sp_direct st) x"
    using inv_falls [OF inv x] p by (cases "waits_direct si (sp_queue st) x"; cases direct) auto
next
  show "untouched si c start0 (sp_output st, sp_direct st)" using inv by (simp add: spread_inv_def)
qed

lemma spread_one_keeps:
  assumes ok: "solve_ok si V" and seeds: "seeds_ok si" and inv: "spread_inv si V B c start0 {} {} st"
    and pop: "queue_pop_front (sp_queue st) = Some (entry, queue)"
    and start: "brighter si (out1, D1) (sp_output st, sp_direct st)"
  shows "wp (solve_error si B) (\<lambda>st'. (spread_inv si V B c start0 {} {} st' \<and>
      brighter si (out1, D1) (sp_output st', sp_direct st')) \<and> (st', st) \<in> spread_order si)
    (spread_one si c entry (st\<lparr>sp_queue := queue\<rparr>))"
proof -
  have q: "queue_ok si V (sp_queue st)" and r: "raised si V (sp_output st)" using inv by (simp_all add: spread_inv_def)
  obtain p where p: "p \<in> open_cells si" "waits (sp_queue st) p"
    and entry: "entry = \<lparr>ie_position = p, ie_index = rank (si_bounds si) p, ie_direct = waits_direct si (sp_queue st) p\<rparr>"
    and queue: "queue_ok si V queue" "length (iq_entries queue) < length (iq_entries (sp_queue st))"
    and waits: "\<And>r. r \<in> open_cells si \<Longrightarrow> waits queue r \<longleftrightarrow> waits (sp_queue st) r \<and> r \<noteq> p"
    and marks: "\<And>r. r \<in> open_cells si \<Longrightarrow> waits_direct si queue r \<longleftrightarrow> waits_direct si (sp_queue st) r \<and> r \<noteq> p"
    by (rule pop_front [OF ok q pop]) (rule that)
  define direct where "direct = waits_direct si (sp_queue st) p"
  define todo where "todo = {(p, offset) | offset. offset \<in> set NEIGHBOURS}"
  define falling where "falling = (if direct then {p} else {})"
  define source where "source = lev (sp_output st) c p"
  let ?st = "st\<lparr>sp_queue := queue, sp_stats := (sp_stats st)\<lparr>st_increase_dequeued := st_increase_dequeued (sp_stats st) + 1\<rparr>\<rparr>"
  have inD: "c = Channel_Sky \<Longrightarrow> direct \<Longrightarrow> in_set (sp_direct st) p"
    using inv p by (simp add: spread_inv_def direct_def)
  have out: "out_ok si V (sp_output st)" using r by (simp add: raised_def shape_def)
  have one: "spread_one si c entry (st\<lparr>sp_queue := queue\<rparr>) =
      for_each (spread_visit si c \<lparr>ie_position = p, ie_index = rank (si_bounds si) p, ie_direct = direct\<rparr> source)
        (enumerate 0 NEIGHBOURS) ?st"
    by (simp add: spread_one_def Let_def entry direct_def source_def get_is_lev [OF out])
  have popped: "spread_inv si V B c start0 todo falling ?st"
    unfolding spread_inv_stats todo_def falling_def direct_def by (rule pop_spread [OF inv p(1) queue(1) waits marks])
  define I where "I seen st' \<longleftrightarrow> spread_inv si V B c start0 todo falling st' \<and>
      brighter si (sp_output st, sp_direct st) (sp_output st', sp_direct st') \<and>
      lev (sp_output st') c p = source \<and>
      (\<forall>(i, offset)\<in>set seen. visited si c p direct offset st') \<and>
      (potential si (sp_output st') (sp_direct st') < potential si (sp_output st) (sp_direct st) \<or> st' = ?st)"
    for seen :: "(nat \<times> i32 \<times> i32 \<times> i32) list" and st'
  have "wp (solve_error si B) (I (enumerate 0 NEIGHBOURS))
    (for_each (spread_visit si c \<lparr>ie_position = p, ie_index = rank (si_bounds si) p, ie_direct = direct\<rparr> source)
      (enumerate 0 NEIGHBOURS) ?st)"
  proof (rule wp_for_each)
    show "I [] ?st" using popped by (simp add: I_def source_def)
  next
    fix done' x rest st1
    assume xs: "enumerate 0 NEIGHBOURS = done' @ x # rest" and I: "I done' st1"
    obtain i offset where x: "x = (i, offset)" by (rule prod.exhaust)
    have d: "(i, offset) \<in> set (enumerate 0 NEIGHBOURS)" by (simp add: xs x)
    have inv1: "spread_inv si V B c start0 todo falling st1" and src: "source = lev (sp_output st1) c p"
      and br: "brighter si (sp_output st, sp_direct st) (sp_output st1, sp_direct st1)" using I by (simp_all add: I_def)
    have inD1: "c = Channel_Sky \<Longrightarrow> direct \<Longrightarrow> in_set (sp_direct st1) p"
      using inD br p(1) by (simp add: brighter_def)
    show "wp (solve_error si B) (I (done' @ [x]))
      (spread_visit si c \<lparr>ie_position = p, ie_index = rank (si_bounds si) p, ie_direct = direct\<rparr> source x st1)"
      unfolding x
    proof (rule wp_mono [OF spread_visit_keeps [OF ok seeds p(1) d inv1 inD1 src]])
      fix st2
      assume st2: "spread_inv si V B c start0 todo falling st2 \<and> visited si c p direct offset st2 \<and>
        brighter si (sp_output st1, sp_direct st1) (sp_output st2, sp_direct st2) \<and>
        lev (sp_output st2) c p = lev (sp_output st1) c p \<and>
        (potential si (sp_output st2) (sp_direct st2) < potential si (sp_output st1) (sp_direct st1) \<or> st2 = st1)"
      have old: "\<forall>(j, o')\<in>set done'. visited si c p direct o' st1" using I by (simp add: I_def)
      have "visited si c p direct o' st2" if "(j, o') \<in> set done'" for j o'
        by (rule visited_mono [of si c p direct o' st1]) (use old that st2 in blast)+
      then have "\<forall>(j, o')\<in>set (done' @ [(i, offset)]). visited si c p direct o' st2" using st2 by auto
      moreover have "potential si (sp_output st2) (sp_direct st2) < potential si (sp_output st) (sp_direct st) \<or> st2 = ?st"
        using st2 I unfolding I_def by auto
      moreover have "brighter si (sp_output st, sp_direct st) (sp_output st2, sp_direct st2)"
        using st2 brighter_trans [OF br] by blast
      ultimately show "I (done' @ [(i, offset)]) st2" using st2 src unfolding I_def by simp
    qed simp_all
  qed
  then show ?thesis
    unfolding one
  proof (rule wp_mono)
    fix st' assume I: "I (enumerate 0 NEIGHBOURS) st'"
    have "visited si c p direct offset st'" if "offset \<in> set NEIGHBOURS" for offset
      using enumerated_neighbour [OF that] I by (auto simp: I_def)
    then have "spread_inv si V B c start0 {} {} st'"
      using I unfolding I_def todo_def falling_def by (intro all_visited) blast+
    moreover have "(st', st) \<in> spread_order si"
      using I queue(2) by (auto simp: I_def spread_order_def)
    moreover have "brighter si (out1, D1) (sp_output st', sp_direct st')"
      using brighter_trans [OF start] I by (simp add: I_def)
    ultimately show "(spread_inv si V B c start0 {} {} st' \<and>
      brighter si (out1, D1) (sp_output st', sp_direct st')) \<and> (st', st) \<in> spread_order si" by blast
  qed
qed

lemma spread_all:
  assumes ok: "solve_ok si V" and seeds: "seeds_ok si" and inv: "spread_inv si V B c start0 {} {} st"
  shows "wp (solve_error si B) (\<lambda>st'. (spread_inv si V B c start0 {} {} st' \<and>
      brighter si (sp_output st, sp_direct st) (sp_output st', sp_direct st')) \<and>
      queue_pop_front (sp_queue st') = None) (spread_loop si c st)"
proof (rule wp_spread_loop [OF wf_spread_order])
  show "spread_inv si V B c start0 {} {} st \<and> brighter si (sp_output st, sp_direct st) (sp_output st, sp_direct st)"
    using inv by simp
next
  fix st1 entry queue
  assume "spread_inv si V B c start0 {} {} st1 \<and> brighter si (sp_output st, sp_direct st) (sp_output st1, sp_direct st1)"
    and pop: "queue_pop_front (sp_queue st1) = Some (entry, queue)"
  then show "wp (solve_error si B) (\<lambda>st'. (spread_inv si V B c start0 {} {} st' \<and>
      brighter si (sp_output st, sp_direct st) (sp_output st', sp_direct st')) \<and> (st', st1) \<in> spread_order si)
    (spread_one si c entry (st1\<lparr>sp_queue := queue\<rparr>))"
    by (intro spread_one_keeps [OF ok seeds _ pop]) simp_all
qed


subsection \<open>The halo\<close>

definition candidate_ok :: "solve_input \<Rightarrow> light_channel \<Rightarrow> block_pos \<Rightarrow> nat \<times> bool \<Rightarrow> bool" where
  "candidate_ok si c p best \<longleftrightarrow> within_field si c p (fst best) \<and>
     (snd best \<longrightarrow> c = Channel_Sky \<and> fst best = 15 \<and> lit si Channel_Sky p 15 True)"

lemma halo_offer:
  assumes allowed: "c = Channel_Sky \<longrightarrow> allows_sky (si_profile si)" and ok: "solve_ok si V"
  shows "halo_candidate si p f c (offset # offsets) best =
    (case checked_offset p offset of
       None \<Rightarrow> halo_candidate si p f c offsets best
     | Some n \<Rightarrow> (case halo_light si c n of
         None \<Rightarrow> halo_candidate si p f c offsets best
       | Some (l, d) \<Rightarrow>
           (let incoming = incoming_level l f c (si_profile si) offset d; direct = stays_direct si c f offset l d
            in halo_candidate si p f c offsets
                 (if l \<noteq> 0 \<and> (incoming > fst best \<or> incoming = fst best \<and> direct) then (incoming, direct) else best))))"
proof (cases "checked_offset p offset")
  case (Some n)
  note cs = cached_sample_eq [OF ok]
  show ?thesis
  proof (cases "halo_light si c n")
    case None
    then have "bounds_contain (si_bounds si) n \<or> filt si n = None \<or>
        trusted_parts (ra_boundary (si_prior si) (lb_dimension (si_bounds si)) n c) = None"
      using allowed by (auto simp: halo_light_def split: if_splits)
    then show ?thesis using Some None by (auto simp: cs split: option.splits)
  next
    case (Some ld)
    obtain l d where ld: "ld = (l, d)" by (rule prod.exhaust)
    have n: "\<not> (bounds_contain (si_bounds si) n \<or> filt si n = None)"
      "trusted_parts (ra_boundary (si_prior si) (lb_dimension (si_bounds si)) n c) = Some (l, d)"
      using Some by (auto simp: halo_light_def ld split: if_splits)
    show ?thesis
      unfolding halo_candidate.simps \<open>checked_offset p offset = Some n\<close> Some ld option.case prod.case cs if_not_P [OF n(1)] n(2)
        Let_def incoming_eq stays_direct_def
      by simp
  qed
qed simp

lemma halo_best:
  assumes ok: "solve_ok si V" and seeds: "seeds_ok si" and p: "p \<in> open_cells si" and f: "filt si p = Some f"
    and allowed: "c = Channel_Sky \<longrightarrow> allows_sky (si_profile si)"
  shows "set offsets \<subseteq> set NEIGHBOURS \<Longrightarrow> candidate_ok si c p best \<Longrightarrow>
    candidate_ok si c p (halo_candidate si p f c offsets best) \<and>
    fst best \<le> fst (halo_candidate si p f c offsets best) \<and> (snd best \<longrightarrow> snd (halo_candidate si p f c offsets best)) \<and>
    (\<forall>offset\<in>set offsets. \<forall>n l d. checked_offset p offset = Some n \<and> halo_light si c n = Some (l, d) \<longrightarrow>
       incoming_level l f c (si_profile si) offset d \<le> fst (halo_candidate si p f c offsets best) \<and>
       (stays_direct si c f offset l d \<longrightarrow> snd (halo_candidate si p f c offsets best)))"
proof (induction offsets arbitrary: best)
  case (Cons offset offsets)
  have pb: "bounds_contain (si_bounds si) p" using p by (simp add: open_cell_iff)
  note unfold = halo_offer [OF allowed ok, of p f offset offsets best]
  have sub: "set offsets \<subseteq> set NEIGHBOURS" "offset \<in> set NEIGHBOURS" using Cons.prems(1) by auto
  show ?case
  proof (cases "checked_offset p offset")
    case None
    then have u: "halo_candidate si p f c (offset # offsets) best = halo_candidate si p f c offsets best"
      using unfold by simp
    show ?thesis unfolding u using Cons.IH [OF sub(1) Cons.prems(2)] None by auto
  next
    case n: (Some n)
    show ?thesis
    proof (cases "halo_light si c n")
      case None
      then have u: "halo_candidate si p f c (offset # offsets) best = halo_candidate si p f c offsets best"
        using unfold n by simp
      show ?thesis unfolding u using Cons.IH [OF sub(1) Cons.prems(2)] None n by auto
    next
      case (Some ld)
      obtain l d where ld: "ld = (l, d)" by (rule prod.exhaust)
      define incoming where "incoming = incoming_level l f c (si_profile si) offset d"
      define direct where "direct = stays_direct si c f offset l d"
      define best' where "best' = (if l \<noteq> 0 \<and> (incoming > fst best \<or> incoming = fst best \<and> direct) then (incoming, direct) else best)"
      have u: "halo_candidate si p f c (offset # offsets) best = halo_candidate si p f c offsets best'"
        unfolding unfold n Some ld option.case prod.case Let_def incoming_def direct_def best'_def by (rule refl)
      have lit: "lit si c p incoming direct"
        unfolding incoming_def direct_def by (rule lit.halo [OF pb f sub(2) n]) (simp add: Some ld)
      have new: "candidate_ok si c p (incoming, direct)"
        using lit lit_direct [OF lit] by (auto simp: candidate_ok_def within_field_def)
      have i15: "incoming \<le> 15" by (rule lit_le [OF ok seeds lit])
      have b15: "snd best \<Longrightarrow> fst best = 15" using Cons.prems(2) by (simp add: candidate_ok_def)
      have d15: "direct \<Longrightarrow> incoming = 15" using lit_direct [OF lit] by simp
      have zero: "l = 0 \<Longrightarrow> incoming = 0 \<and> \<not> direct" by (auto simp: incoming_def direct_def incoming_eq stays_direct_def)
      have "candidate_ok si c p best'" using new Cons.prems(2) by (simp add: best'_def)
      note IH = Cons.IH [OF sub(1) this]
      have le: "fst best \<le> fst best'" "incoming \<le> fst best'" "snd best \<Longrightarrow> snd best'"
        using zero i15 b15 d15 by (auto simp: best'_def)
      have dir: "direct \<Longrightarrow> snd best'"
      proof -
        assume direct
        then have "incoming = 15" "l \<noteq> 0" "fst best \<le> 15"
          using d15 zero within_le [OF ok seeds] Cons.prems(2) by (auto simp: candidate_ok_def)
        then show "snd best'" using \<open>direct\<close> by (auto simp: best'_def)
      qed
      have here: "incoming_level l' f c (si_profile si) offset d' \<le> fst (halo_candidate si p f c offsets best') \<and>
          (stays_direct si c f offset l' d' \<longrightarrow> snd (halo_candidate si p f c offsets best'))"
        if "checked_offset p offset = Some n'" "halo_light si c n' = Some (l', d')" for n' l' d'
        using that n Some ld IH le(2) dir unfolding incoming_def direct_def by (auto intro: le_trans)
      show ?thesis
        unfolding u using IH le here by (auto intro: le_trans)
    qed
  qed
qed simp

lemma seed_halo_cell_keeps:
  assumes ok: "solve_ok si V" and seeds: "seeds_ok si" and pb: "bounds_contain (si_bounds si) p"
    and allowed: "c = Channel_Sky \<longrightarrow> allows_sky (si_profile si)"
    and inv: "spread_inv si V B c start0 {} {} st"
  shows "wp (solve_error si B) (\<lambda>st'. spread_inv si V B c start0 {} {} st' \<and>
      brighter si (sp_output st, sp_direct st) (sp_output st', sp_direct st') \<and>
      (p \<in> open_cells si \<longrightarrow> halo_closed si (sp_output st') (sp_direct st') c p)) (seed_halo_cell si c p st)"
proof (cases "filt si p")
  case None
  then show ?thesis using inv by (simp add: seed_halo_cell_def cached_sample_eq [OF ok] open_cell_iff)
next
  case (Some f)
  have p: "p \<in> open_cells si" using pb Some by (simp add: open_cell_iff)
  have r: "raised si V (sp_output st)" and D: "direct_sound si V (sp_output st) (sp_direct st)"
    using inv by (simp_all add: spread_inv_def)
  have out: "out_ok si V (sp_output st)" using r by (simp add: raised_def shape_def)
  have Dok: "set_ok si V (sp_direct st)" using D by (simp add: direct_sound_def)
  obtain candidate direct where best: "halo_candidate si p f c NEIGHBOURS (0, False) = (candidate, direct)"
    by (rule prod.exhaust)
  have start: "candidate_ok si c p (0, False)" by (simp add: candidate_ok_def within_field_def)
  note spec = halo_best [OF ok seeds p Some allowed subset_refl start, unfolded best fst_conv snd_conv]
  have w: "within_field si c p candidate" and dir: "direct \<Longrightarrow> c = Channel_Sky \<and> candidate = 15 \<and> lit si Channel_Sky p 15 True"
    using spec by (simp_all add: candidate_ok_def)
  have closed: "halo_closed si (sp_output st') (sp_direct st') c p"
    if "candidate \<le> lev (sp_output st') c p" "direct \<longrightarrow> in_set (sp_direct st') p" for st'
    unfolding halo_closed_def Some option.sel using spec that by (blast intro: le_trans)
  define change where "change \<longleftrightarrow> candidate > lev (sp_output st) c p \<or>
      candidate = lev (sp_output st) c p \<and> candidate \<noteq> 0 \<and> direct \<and> \<not> in_set (sp_direct st) p"
  have cell: "seed_halo_cell si c p st =
      Some (if change then offer si c p (rank (si_bounds si) p) candidate direct st else Inr st)"
    unfolding seed_halo_cell_def cached_sample_eq [OF ok] Some option.case best prod.case mo_index_eq [OF ok out] if_P [OF pb]
      Let_def get_is_lev [OF out] ds_contains_eq [OF ok Dok pb] change_def
    by (rule refl)
  show ?thesis
  proof (cases change)
    case True
    have "wp (solve_error si B) (\<lambda>st'. spread_inv si V B c start0 {} {} st' \<and> offer_post si c p candidate direct st st')
        (Some (offer si c p (rank (si_bounds si) p) candidate direct st))"
      by (rule offer_keeps [OF ok seeds p inv w dir]) (use True in \<open>auto simp: change_def\<close>)
    then show ?thesis
      unfolding cell if_P [OF True]
      by (rule wp_mono) (use closed in \<open>auto simp: offer_post_def\<close>)
  next
    case False
    have low: "candidate \<le> lev (sp_output st) c p" using False by (auto simp: change_def)
    have "lev (sp_output st) c p \<le> 15" using r p by (intro within_le [OF ok seeds, of c p]) (simp add: raised_def)
    then have "direct \<longrightarrow> in_set (sp_direct st) p" using False dir low by (auto simp: change_def)
    then show ?thesis using inv closed [OF low] False by (simp add: cell)
  qed
qed

lemma inner_no_halo:
  assumes "bounds_contain (si_bounds si) p" and "\<not> on_face (si_bounds si) p"
  shows "halo_closed si out D c p"
proof -
  have "bounds_contain (si_bounds si) n" if "offset \<in> set NEIGHBOURS" "checked_offset p offset = Some n" for offset n
    using assms that checked_offset_step [OF that(2)]
    by (cases p) (auto simp: NEIGHBOURS_def step_def bounds_contain_def on_face_def)
  then show ?thesis by (auto simp: halo_closed_def halo_light_def)
qed

lemma seed_boundary_keeps:
  assumes ok: "solve_ok si V" and seeds: "seeds_ok si" and inv: "spread_inv si V B c start0 {} {} st"
  shows "wp (solve_error si B) (\<lambda>st'. spread_inv si V B c start0 {} {} st' \<and>
      brighter si (sp_output st, sp_direct st) (sp_output st', sp_direct st') \<and>
      (\<forall>p\<in>open_cells si. halo_closed si (sp_output st') (sp_direct st') c p)) (seed_boundary_from_halo si c st)"
proof (cases "c = Channel_Sky \<and> \<not> allows_sky (si_profile si)")
  case True
  then have "halo_closed si out D c p" for out D p by (simp add: halo_closed_def halo_light_def)
  then show ?thesis using inv True by (simp add: seed_boundary_from_halo_def)
next
  case False
  have v: "valid_bounds (si_bounds si)" using ok by (simp add: solve_ok_def region_def)
  define I where "I seen st' \<longleftrightarrow> spread_inv si V B c start0 {} {} st' \<and>
      brighter si (sp_output st, sp_direct st) (sp_output st', sp_direct st') \<and>
      (\<forall>p\<in>set seen \<inter> open_cells si. halo_closed si (sp_output st') (sp_direct st') c p)" for seen st'
  have "wp (solve_error si B) (I (filter (on_face (si_bounds si)) (dense_cells (si_bounds si))))
    (for_each (seed_halo_cell si c) (filter (on_face (si_bounds si)) (dense_cells (si_bounds si))) st)"
  proof (rule wp_for_each)
    show "I [] st" using inv by (simp add: I_def)
  next
    fix seen p rest st1
    assume xs: "filter (on_face (si_bounds si)) (dense_cells (si_bounds si)) = seen @ p # rest" and I: "I seen st1"
    have "p \<in> set (filter (on_face (si_bounds si)) (dense_cells (si_bounds si)))" by (simp add: xs)
    then have pb: "bounds_contain (si_bounds si) p" by (simp add: in_dense_cells)
    have inv1: "spread_inv si V B c start0 {} {} st1" using I by (simp add: I_def)
    show "wp (solve_error si B) (I (seen @ [p])) (seed_halo_cell si c p st1)"
    proof (rule wp_mono [OF seed_halo_cell_keeps [OF ok seeds pb _ inv1]])
      show "c = Channel_Sky \<longrightarrow> allows_sky (si_profile si)" using False by blast
    next
      fix st2 assume st2: "spread_inv si V B c start0 {} {} st2 \<and>
        brighter si (sp_output st1, sp_direct st1) (sp_output st2, sp_direct st2) \<and>
        (p \<in> open_cells si \<longrightarrow> halo_closed si (sp_output st2) (sp_direct st2) c p)"
      then have "halo_closed si (sp_output st2) (sp_direct st2) c q" if "q \<in> set seen" "q \<in> open_cells si" for q
        using I that halo_closed_mono by (auto simp: I_def)
      moreover have "brighter si (sp_output st, sp_direct st) (sp_output st2, sp_direct st2)"
        using st2 I brighter_trans unfolding I_def by blast
      ultimately show "I (seen @ [p]) st2" using st2 unfolding I_def by auto
    qed
  qed
  then show ?thesis
    unfolding seed_boundary_from_halo_def if_not_P [OF False] surface_positions_eq [OF v]
  proof (rule wp_mono)
    fix st' assume I: "I (filter (on_face (si_bounds si)) (dense_cells (si_bounds si))) st'"
    have "halo_closed si (sp_output st') (sp_direct st') c p" if "p \<in> open_cells si" for p
    proof (cases "on_face (si_bounds si) p")
      case True
      then show ?thesis using I that by (simp add: I_def in_dense_cells open_cell_iff)
    next
      case False
      then show ?thesis using that inner_no_halo by (simp add: open_cell_iff)
    qed
    then show "spread_inv si V B c start0 {} {} st' \<and>
      brighter si (sp_output st, sp_direct st) (sp_output st', sp_direct st') \<and>
      (\<forall>p\<in>open_cells si. halo_closed si (sp_output st') (sp_direct st') c p)" using I by (simp add: I_def)
  qed
qed

end
