(* ===== verification/Light_Fill.thy ===== *)
theory Light_Fill
  imports Light_Propagate
begin

section \<open>Filling the queues and building the field\<close>

text \<open>
  Every lit cell is queued once before light spreads; when both queues have run dry the buffers hold
  the light field, and the set of direct cells is exactly where direct sky falls.
\<close>

subsection \<open>Filling\<close>

definition fill_inv :: "solve_input \<Rightarrow> nat \<Rightarrow> mutable_output \<Rightarrow> (light_channel \<times> block_pos) set \<Rightarrow> fill_state \<Rightarrow> bool" where
  "fill_inv si V out seen st \<longleftrightarrow> (\<forall>c. queue_ok si V (fill_queue st c)) \<and> set_ok si V (fl_direct st) \<and>
     (\<forall>p\<in>open_cells si. \<forall>c. (c, p) \<in> seen \<and> lev out c p \<noteq> 0 \<longrightarrow> waits (fill_queue st c) p) \<and>
     (\<forall>p. bounds_contain (si_bounds si) p \<and> in_set (fl_direct st) p \<longrightarrow>
        p \<in> open_cells si \<and> lev out Channel_Sky p = 15 \<and> direct_sky_down (si_profile si)) \<and>
     (\<forall>p\<in>open_cells si. (Channel_Sky, p) \<in> seen \<and> direct_sky_down (si_profile si) \<and>
        base_level si Channel_Sky p = 15 \<and> filt si p = Some 0 \<longrightarrow> in_set (fl_direct st) p) \<and>
     (\<forall>p\<in>open_cells si. waits_direct si (fl_sky st) p \<longleftrightarrow> in_set (fl_direct st) p)"

lemma fill_queue_simps [simp]:
  "fill_queue (set_fill_queue st c q) c' = (if c' = c then q else fill_queue st c')"
  "fl_direct (set_fill_queue st c q) = fl_direct st" "fl_total (set_fill_queue st c q) = fl_total st"
  "fill_queue (st\<lparr>fl_direct := D\<rparr>) c' = fill_queue st c'" "fill_queue (st\<lparr>fl_total := n\<rparr>) c' = fill_queue st c'"
  by (cases c; cases c'; simp add: fill_queue_def set_fill_queue_def)+

lemma fl_sky_queue: "fl_sky st = fill_queue st Channel_Sky" "fl_block st = fill_queue st Channel_Block"
  by (simp_all add: fill_queue_def)

lemma fill_invD:
  assumes "fill_inv si V out seen st"
  shows "queue_ok si V (fill_queue st c)" "set_ok si V (fl_direct st)"
    and "p \<in> open_cells si \<Longrightarrow> (c, p) \<in> seen \<Longrightarrow> lev out c p \<noteq> 0 \<Longrightarrow> waits (fill_queue st c) p"
    and "p \<in> open_cells si \<Longrightarrow> waits_direct si (fl_sky st) p \<longleftrightarrow> in_set (fl_direct st) p"
  using assms unfolding fill_inv_def by blast+

text \<open>Only the open cells that are seen matter, and a dark one needs no entry.\<close>

lemma fill_inv_more:
  assumes "fill_inv si V out seen st"
    and "\<And>c p. p \<in> open_cells si \<Longrightarrow> (c, p) \<in> seen' \<Longrightarrow> (c, p) \<in> seen \<or> lev out c p = 0"
    and "\<And>p. p \<in> open_cells si \<Longrightarrow> base_level si Channel_Sky p \<le> lev out Channel_Sky p"
  shows "fill_inv si V out seen' st"
proof -
  have "(Channel_Sky, p) \<in> seen" if "p \<in> open_cells si" "(Channel_Sky, p) \<in> seen'" "base_level si Channel_Sky p = 15" for p
    using assms(2) [OF that(1,2)] assms(3) [OF that(1)] that(3) by auto
  moreover have "(c, p) \<in> seen" if "p \<in> open_cells si" "(c, p) \<in> seen' \<and> lev out c p \<noteq> 0" for c p
    using assms(2) [of p c] that by auto
  ultimately show ?thesis using assms(1) unfolding fill_inv_def by blast
qed

text \<open>Queueing a lit cell, direct or not.\<close>

lemma fill_pushed:
  assumes ok: "solve_ok si V" and inv: "fill_inv si V out seen st" and p: "p \<in> open_cells si"
    and push: "pushed si V (fill_queue st c) p is_direct q"
    and direct: "is_direct \<Longrightarrow> c = Channel_Sky \<and> lev out Channel_Sky p = 15 \<and> direct_sky_down (si_profile si)"
    and full: "c = Channel_Sky \<Longrightarrow> direct_sky_down (si_profile si) \<Longrightarrow> base_level si Channel_Sky p = 15 \<Longrightarrow>
      filt si p = Some 0 \<Longrightarrow> is_direct"
  shows "fill_inv si V out (insert (c, p) seen) ((set_fill_queue st c q)\<lparr>fl_direct :=
      (if is_direct then insert_at_index (fl_direct st) (rank (si_bounds si) p) else fl_direct st), fl_total := count\<rparr>)"
    (is "fill_inv si V out _ ?st")
proof -
  have pb: "bounds_contain (si_bounds si) p" using p by (simp add: open_cell_iff)
  have D: "set_ok si V (fl_direct st)" using inv by (simp add: fill_inv_def)
  have inD: "in_set (fl_direct ?st) r \<longleftrightarrow> in_set (fl_direct st) r \<or> r = p \<and> is_direct"
    if "bounds_contain (si_bounds si) r" for r
    by (auto simp: in_set_insert [OF ok D pb that])
  have waits: "waits (fill_queue ?st c') r \<longleftrightarrow> waits (fill_queue st c') r \<or> c' = c \<and> r = p"
    if "r \<in> open_cells si" for r c'
    using push that by (auto simp: pushed_def)
  have marks: "waits_direct si (fl_sky ?st) r \<longleftrightarrow> waits_direct si (fl_sky st) r \<or> r = p \<and> is_direct"
    if "r \<in> open_cells si" for r
    using push that direct by (auto simp: pushed_def fl_sky_queue)
  show ?thesis
    unfolding fill_inv_def
  proof (intro conjI allI ballI impI)
    fix c' show "queue_ok si V (fill_queue ?st c')" using inv push by (simp add: fill_inv_def pushed_def)
  next
    show "set_ok si V (fl_direct ?st)" using D by simp
  next
    fix r c' assume "r \<in> open_cells si" "(c', r) \<in> insert (c, p) seen \<and> lev out c' r \<noteq> 0"
    then show "waits (fill_queue ?st c') r" using fill_invD(3) [OF inv] waits by blast
  next
    fix r assume r: "bounds_contain (si_bounds si) r \<and> in_set (fl_direct ?st) r"
    then have "in_set (fl_direct st) r \<or> r = p \<and> is_direct" using inD by blast
    then have "r \<in> open_cells si \<and> lev out Channel_Sky r = 15 \<and> direct_sky_down (si_profile si)"
      using inv r p direct unfolding fill_inv_def by blast
    then show "r \<in> open_cells si" "lev out Channel_Sky r = 15" "direct_sky_down (si_profile si)" by simp_all
  next
    fix r assume r: "r \<in> open_cells si" "(Channel_Sky, r) \<in> insert (c, p) seen \<and> direct_sky_down (si_profile si) \<and>
        base_level si Channel_Sky r = 15 \<and> filt si r = Some 0"
    then have "in_set (fl_direct st) r \<or> r = p \<and> is_direct" using inv full unfolding fill_inv_def by blast
    then show "in_set (fl_direct ?st) r" using inD r(1) by (simp add: open_cell_iff)
  next
    fix r assume r: "r \<in> open_cells si"
    then have "waits_direct si (fl_sky st) r \<longleftrightarrow> in_set (fl_direct st) r" by (rule fill_invD(4) [OF inv])
    then show "waits_direct si (fl_sky ?st) r \<longleftrightarrow> in_set (fl_direct ?st) r"
      using marks [OF r] inD r by (simp add: open_cell_iff)
  qed
qed

lemma fill_channel:
  assumes ok: "solve_ok si V" and seeds: "seeds_ok si" and out: "raised si V out" and p: "p \<in> open_cells si"
    and f: "filt si p = Some f" and inv: "fill_inv si V out seen st" and room: "fl_total st + 1 \<le> B"
  shows "wp (solve_error si B) (\<lambda>st'. fill_inv si V out (insert (c, p) seen) st' \<and> fl_total st' \<le> fl_total st + 1) (Some (
         let level = get_at_index out (rank (si_bounds si) p) c
         in if level = 0 then Inr st
            else and_then (starts_direct si (rank (si_bounds si) p) p c level f) (\<lambda>is_direct.
              let direct = (if is_direct then insert_at_index (fl_direct st) (rank (si_bounds si) p) else fl_direct st)
              in and_then (queue_push_back (fill_queue st c)
                    \<lparr>ie_position = p, ie_index = rank (si_bounds si) p, ie_direct = is_direct\<rparr> (fl_total st) (max_entries si))
                   (\<lambda>(q, count). Inr ((set_fill_queue st c q)\<lparr>fl_direct := direct, fl_total := count\<rparr>)))))"
proof -
  have pb: "bounds_contain (si_bounds si) p" using p by (simp add: open_cell_iff)
  have out_ok: "out_ok si V out" using out by (simp add: raised_def shape_def)
  have q: "queue_ok si V (fill_queue st c)" using inv by (simp add: fill_inv_def)
  have base: "base_level si c p \<le> lev out c p" "lev out c p \<le> 15"
    using out p within_le [OF ok seeds, of c p] by (simp_all add: raised_def)
  have lb: "local_base si (rank (si_bounds si) p) c = Inr (base_level si c p)"
    using seeds p by (auto simp: local_base_eq [OF ok pb] seeds_ok_def open_cell_iff)
  define is_direct where "is_direct \<longleftrightarrow> c = Channel_Sky \<and> direct_sky_down (si_profile si) \<and> lev out c p = 15 \<and> f = 0 \<and>
      (base_level si c p = 15 \<or> prior_direct_at si p)"
  have starts: "starts_direct si (rank (si_bounds si) p) p c (lev out c p) f = Inr is_direct"
    unfolding starts_direct_def is_direct_def lb and_then_simps by (cases c) auto
  show ?thesis
  proof (cases "lev out c p = 0")
    case True
    have "fill_inv si V out (insert (c, p) seen) st" using True out by (intro fill_inv_more [OF inv]) (auto simp: raised_def)
    then show ?thesis using True by (simp add: Let_def get_is_lev [OF out_ok])
  next
    case False
    let ?post = "\<lambda>st'. fill_inv si V out (insert (c, p) seen) st' \<and> fl_total st' \<le> fl_total st + 1"
    show ?thesis
      unfolding Let_def get_is_lev [OF out_ok] if_not_P [OF False] starts and_then_simps
    proof (rule wp_seq_res [OF wp_push [OF ok q p room, where
          Q = "\<lambda>r. pushed si V (fill_queue st c) p is_direct (fst r) \<and> snd r \<le> fl_total st + 1"]])
      fix q' count' assume "pushed si V (fill_queue st c) p is_direct q'" "count' \<le> fl_total st + 1"
      then show "pushed si V (fill_queue st c) p is_direct (fst (q', count')) \<and> snd (q', count') \<le> fl_total st + 1" by simp
    next
      fix r assume r: "pushed si V (fill_queue st c) p is_direct (fst r) \<and> snd r \<le> fl_total st + 1"
      obtain q' count' where rq: "r = (q', count')" by (rule prod.exhaust)
      have "fill_inv si V out (insert (c, p) seen) ((set_fill_queue st c q')\<lparr>fl_direct :=
          (if is_direct then insert_at_index (fl_direct st) (rank (si_bounds si) p) else fl_direct st), fl_total := count'\<rparr>)"
        by (rule fill_pushed [OF ok inv p]) (use r rq base f in \<open>auto simp: is_direct_def\<close>)
      then show "wp (solve_error si B) ?post (Some (case r of (q, count) \<Rightarrow>
          Inr ((set_fill_queue st c q)\<lparr>fl_direct := (if is_direct then insert_at_index (fl_direct st) (rank (si_bounds si) p)
            else fl_direct st), fl_total := count\<rparr>)))"
        using r by (simp add: rq)
    qed
  qed
qed

lemma fill_cell_keeps:
  assumes ok: "solve_ok si V" and seeds: "seeds_ok si" and out: "raised si V out" and pb: "bounds_contain (si_bounds si) p"
    and inv: "fill_inv si V out (UNIV \<times> cells) st" and room: "fl_total st + 2 \<le> B"
  shows "wp (solve_error si B) (\<lambda>st'. fill_inv si V out (UNIV \<times> insert p cells) st' \<and> fl_total st' \<le> fl_total st + 2)
    (fill_cell si out (rank (si_bounds si) p, p) st)"
proof (cases "filt si p")
  case None
  have "fill_inv si V out (UNIV \<times> insert p cells) st"
    using None out by (intro fill_inv_more [OF inv]) (auto simp: raised_def open_cell_iff)
  then show ?thesis by (simp add: fill_cell_def filter_at_eq [OF ok pb] None)
next
  case (Some f)
  have p: "p \<in> open_cells si" using pb Some by (simp add: open_cell_iff)
  have two: "insert (Channel_Sky, p) (insert (Channel_Block, p) (UNIV \<times> cells)) = UNIV \<times> insert p cells"
    using light_channel.exhaust by auto
  show ?thesis
    unfolding fill_cell_def prod.case filter_at_eq [OF ok pb] Some option.case
  proof (rule wp_both_channels, rule fill_channel [OF ok seeds out p Some inv])
    show "fl_total st + 1 \<le> B" using room by simp
  next
    fix st1 assume st1: "fill_inv si V out (insert (Channel_Block, p) (UNIV \<times> cells)) st1 \<and> fl_total st1 \<le> fl_total st + 1"
    show "wp (solve_error si B) (\<lambda>st'. fill_inv si V out (UNIV \<times> insert p cells) st' \<and> fl_total st' \<le> fl_total st + 2) (Some (
         let level = get_at_index out (rank (si_bounds si) p) Channel_Sky
         in if level = 0 then Inr st1
            else and_then (starts_direct si (rank (si_bounds si) p) p Channel_Sky level f) (\<lambda>is_direct.
              let direct = (if is_direct then insert_at_index (fl_direct st1) (rank (si_bounds si) p) else fl_direct st1)
              in and_then (queue_push_back (fill_queue st1 Channel_Sky)
                    \<lparr>ie_position = p, ie_index = rank (si_bounds si) p, ie_direct = is_direct\<rparr> (fl_total st1) (max_entries si))
                   (\<lambda>(q, count). Inr ((set_fill_queue st1 Channel_Sky q)\<lparr>fl_direct := direct, fl_total := count\<rparr>)))))"
      unfolding two [symmetric]
      by (rule wp_mono [OF fill_channel [OF ok seeds out p Some conjunct1 [OF st1]]]) (use st1 room in auto)
  qed
qed

lemma fill_all:
  assumes ok: "solve_ok si V" and seeds: "seeds_ok si" and out: "raised si V out" and room: "count + 2 * V \<le> B"
  defines "clean \<equiv> \<lparr>iq_entries = [], iq_pending = replicate V 0\<rparr>"
  shows "wp (solve_error si B) (\<lambda>st. fill_inv si V out UNIV st \<and> fl_total st \<le> count + 2 * V)
    (for_each (fill_cell si out) (enumerate 0 (collect_positions (bounds_positions (si_bounds si))))
      \<lparr>fl_block = clean, fl_sky = clean, fl_direct = new_dense_set (si_bounds si) V, fl_total = count\<rparr>)"
proof -
  let ?cells = "dense_cells (si_bounds si)"
  have len: "length ?cells = V" by (rule region_facts(1) [OF region_of_ok [OF ok]])
  have "wp (solve_error si B) (\<lambda>st. fill_inv si V out (UNIV \<times> set ?cells) st \<and> fl_total st \<le> count + 2 * length ?cells)
    (for_each (fill_cell si out) (enumerate 0 (collect_positions (bounds_positions (si_bounds si))))
      \<lparr>fl_block = clean, fl_sky = clean, fl_direct = new_dense_set (si_bounds si) V, fl_total = count\<rparr>)"
  proof (rule wp_each_cell [where I = "\<lambda>seen st. fill_inv si V out (UNIV \<times> set seen) st \<and> fl_total st \<le> count + 2 * length seen", OF ok])
    have "queue_ok si V clean" unfolding clean_def by (rule clean_queue_ok [OF ok])
    moreover have "\<not> in_set (new_dense_set (si_bounds si) V) p" if "bounds_contain (si_bounds si) p" for p
      using region_facts(4) [OF region_of_ok [OF ok] that] by (simp add: in_set_def contains_at_index_def new_dense_set_def)
    moreover have "\<not> waits_direct si clean p" if "p \<in> open_cells si" for p
      using region_facts(4) [OF region_of_ok [OF ok], of p] that by (simp add: waits_direct_def clean_def open_cell_iff)
    ultimately show "fill_inv si V out (UNIV \<times> set [])
        \<lparr>fl_block = clean, fl_sky = clean, fl_direct = new_dense_set (si_bounds si) V, fl_total = count\<rparr> \<and>
      fl_total \<lparr>fl_block = clean, fl_sky = clean, fl_direct = new_dense_set (si_bounds si) V, fl_total = count\<rparr> \<le> count + 2 * length []"
      by (auto simp: fill_inv_def fill_queue_def set_ok_def new_dense_set_def open_cell_iff split: light_channel.split)
  next
    fix seen p rest st
    assume cells: "?cells = seen @ p # rest" and pb: "bounds_contain (si_bounds si) p"
      and I: "fill_inv si V out (UNIV \<times> set seen) st \<and> fl_total st \<le> count + 2 * length seen"
    have "length seen + 1 \<le> V" using len by (simp add: cells)
    then have "fl_total st + 2 \<le> B" using I room by linarith
    from fill_cell_keeps [OF ok seeds out pb conjunct1 [OF I] this]
    show "wp (solve_error si B) (\<lambda>st. fill_inv si V out (UNIV \<times> set (seen @ [p])) st \<and> fl_total st \<le> count + 2 * length (seen @ [p]))
      (fill_cell si out (rank (si_bounds si) p, p) st)"
      by (rule wp_mono) (use I in auto)
  qed
  then show ?thesis
  proof (rule wp_mono)
    fix st assume st: "fill_inv si V out (UNIV \<times> set ?cells) st \<and> fl_total st \<le> count + 2 * length ?cells"
    have "fill_inv si V out UNIV st"
      by (rule fill_inv_more [OF conjunct1 [OF st]]) (use out in \<open>auto simp: raised_def open_cell_iff set_dense_cells\<close>)
    then show "fill_inv si V out UNIV st \<and> fl_total st \<le> count + 2 * V" using st by (simp add: len)
  qed
qed

end
