(* ===== verification/Light_Spec.thy ===== *)
theory Light_Spec
  imports Light_Fill
begin

section \<open>A solve computes the light field\<close>

text \<open>
  When no cell waits any more, the buffers hold at every cell the brightest light that reaches it, and
  the direct cells are those on which direct sky falls.  A solve from clean queues always returns, and
  its answer depends neither on the light the cells had before nor on the order of the work.
\<close>

subsection \<open>Nothing is missing\<close>

lemma closed_is_complete:
  assumes ok: "solve_ok si V" and seeds: "seeds_ok si" and out: "raised si V out" and D: "direct_sound si V out D"
    and reached: "\<And>p offset. p \<in> open_cells si \<Longrightarrow> offset \<in> set NEIGHBOURS \<Longrightarrow> reached si out c p offset"
    and falls: "\<And>p. c = Channel_Sky \<Longrightarrow> p \<in> open_cells si \<Longrightarrow> in_set D p \<Longrightarrow> falls si D p"
    and halo: "\<And>p. p \<in> open_cells si \<Longrightarrow> halo_closed si out D c p"
  shows "lit si c p l d \<Longrightarrow> l \<le> lev out c p \<and> (d \<longrightarrow> in_set D p)"
proof (induction rule: lit.induct)
  case (source p f)
  then have p: "p \<in> open_cells si" by (simp add: open_cell_iff)
  have "base_level si c p \<le> lev out c p" using out p by (simp add: raised_def)
  moreover have "c = Channel_Sky \<and> direct_sky_down (si_profile si) \<and> base_level si c p = 15 \<and> f = 0 \<longrightarrow> in_set D p"
    using D p source(2) unfolding direct_sound_def by auto
  ultimately show ?case by blast
next
  case (halo p f offset n l d)
  then have "halo_closed si out D c p" by (simp add: open_cell_iff assms(7))
  then show ?case using halo(2-5) unfolding halo_closed_def by auto
next
  case (step p offset l d f)
  let ?q = "step p offset"
  have p: "p \<in> open_cells si" using step by (simp add: open_cell_iff)
  have q: "?q \<in> open_cells si" using lit_cell [OF step(1)] by (simp add: open_cell_iff)
  have m: "mirror offset \<in> set NEIGHBOURS" using step(4) by simp
  have dim: "lev out c ?q - max f 1 \<le> lev out c p"
    using reached [OF q m] p step(3) by (simp add: reached_def)
  have "stays_direct si c f offset l d \<longrightarrow> in_set D p"
  proof
    assume s: "stays_direct si c f offset l d"
    then have d: "c = Channel_Sky" "mirror offset = down" "in_set D ?q" "filt si p = Some 0"
      using step by (auto simp: stays_direct_def down_def)
    have "falls si D ?q" by (rule falls [OF d(1) q d(3)])
    then show "in_set D p" using p d(4) by (simp add: falls_def flip: d(2))
  qed
  moreover have "stays_direct si c f offset l d \<longrightarrow> lev out c p = 15"
    using calculation D p by (auto simp: direct_sound_def stays_direct_def open_cell_iff)
  moreover have "l - max f 1 \<le> lev out c p" using step.IH dim diff_le_mono [of l "lev out c ?q" "max f 1"] by linarith
  ultimately show ?case by (simp add: incoming_eq)
qed

text \<open>The levels are then the field.\<close>

lemma complete_is_field:
  assumes "raised si V out" and "p \<in> open_cells si" and "\<And>l d. lit si c p l d \<Longrightarrow> l \<le> lev out c p"
  shows "field_level si c p (lev out c p)"
proof -
  have "within_field si c p (lev out c p)" using assms(1,2) by (simp add: raised_def)
  then have "lev out c p = 0 \<or> (\<exists>d. lit si c p (lev out c p) d)"
    unfolding within_field_def using assms(3) by (metis le_antisym)
  then show ?thesis using assms(3) by (auto simp: field_level_def)
qed

text \<open>After a channel has propagated: nothing waits, and the halo is taken in.\<close>

lemma propagate_channel:
  assumes ok: "solve_ok si V" and seeds: "seeds_ok si" and inv: "spread_inv si V B c start {} {} st"
  shows "wp (solve_error si B) (\<lambda>st'. spread_inv si V B c start {} {} st' \<and>
      (\<forall>p\<in>open_cells si. \<forall>l d. lit si c p l d \<longrightarrow> l \<le> lev (sp_output st') c p \<and> (d \<longrightarrow> in_set (sp_direct st') p)))
    (propagate si c st)"
  unfolding propagate_def
proof (rule wp_seq [OF seed_boundary_keeps [OF ok seeds inv]])
  fix st1
  assume st1: "spread_inv si V B c start {} {} st1 \<and>
      brighter si (sp_output st, sp_direct st) (sp_output st1, sp_direct st1) \<and>
      (\<forall>p\<in>open_cells si. halo_closed si (sp_output st1) (sp_direct st1) c p)"
  let ?st1 = "st1\<lparr>sp_stats := raise_peak (queue_len (sp_queue st1)) (sp_stats st1)\<rparr>"
  have inv1: "spread_inv si V B c start {} {} ?st1" using st1 by simp
  show "wp (solve_error si B) (\<lambda>st'. spread_inv si V B c start {} {} st' \<and>
      (\<forall>p\<in>open_cells si. \<forall>l d. lit si c p l d \<longrightarrow> l \<le> lev (sp_output st') c p \<and> (d \<longrightarrow> in_set (sp_direct st') p)))
    (spread_loop si c ?st1)"
  proof (rule wp_mono [OF spread_all [OF ok seeds inv1]])
    fix st2
    assume st2: "(spread_inv si V B c start {} {} st2 \<and>
      brighter si (sp_output ?st1, sp_direct ?st1) (sp_output st2, sp_direct st2)) \<and> queue_pop_front (sp_queue st2) = None"
    then have inv2: "spread_inv si V B c start {} {} st2" by blast
    have idle: "\<not> waits (sp_queue st2) p" for p by (rule pop_none) (use st2 in blast)
    have marks: "\<not> waits_direct si (sp_queue st2) p" if "p \<in> open_cells si" for p
      using waits_direct_waits [OF _ that] idle inv2 unfolding spread_inv_def by blast
    have facts: "raised si V (sp_output st2)" "direct_sound si V (sp_output st2) (sp_direct st2)"
      using inv2 by (simp_all add: spread_inv_def)
    have br: "brighter si (sp_output st1, sp_direct st1) (sp_output st2, sp_direct st2)" using st2 by simp
    have "l \<le> lev (sp_output st2) c p \<and> (d \<longrightarrow> in_set (sp_direct st2) p)" if "lit si c p l d" for p l d
    proof (rule closed_is_complete [OF ok seeds facts _ _ _ that])
      show "reached si (sp_output st2) c p offset" if "p \<in> open_cells si" "offset \<in> set NEIGHBOURS" for p offset
        using inv_closed [OF inv2 that(1) idle that(2)] by simp
      show "falls si (sp_direct st2) p" if "c = Channel_Sky" "p \<in> open_cells si" "in_set (sp_direct st2) p" for p
        using inv_falls [OF inv2 that marks [OF that(2)]] by simp
      show "halo_closed si (sp_output st2) (sp_direct st2) c p" if "p \<in> open_cells si" for p
        using halo_closed_mono [OF br that] st1 that by blast
    qed
    then show "spread_inv si V B c start {} {} st2 \<and>
      (\<forall>p\<in>open_cells si. \<forall>l d. lit si c p l d \<longrightarrow> l \<le> lev (sp_output st2) c p \<and> (d \<longrightarrow> in_set (sp_direct st2) p))"
      using inv2 by blast
  qed
qed

subsection \<open>Ready to spread\<close>

text \<open>What a queue must hold before its channel spreads: every cell that has more to give waits, and
  so does every direct cell whose direct sky has further to fall.\<close>

definition primed :: "solve_input \<Rightarrow> nat \<Rightarrow> light_channel \<Rightarrow> mutable_output \<Rightarrow> dense_set \<Rightarrow> increase_queue \<Rightarrow> bool" where
  "primed si V c out D q \<longleftrightarrow> queue_ok si V q \<and>
     (\<forall>p\<in>open_cells si. waits q p \<or> (\<forall>offset\<in>set NEIGHBOURS. reached si out c p offset)) \<and>
     (c = Channel_Sky \<longrightarrow> (\<forall>p\<in>open_cells si. (waits_direct si q p \<longrightarrow> in_set D p) \<and>
        (in_set D p \<longrightarrow> waits_direct si q p \<or> falls si D p)))"

lemma block_start:
  assumes ok: "solve_ok si V" and out: "raised si V out" and D: "direct_sound si V out D"
    and primed: "primed si V Channel_Block out D q" and room: "sp_total st + 31 * V \<le> B"
    and st: "sp_output st = out" "sp_queue st = q" "sp_direct st = D"
  shows "spread_inv si V B Channel_Block (out, D) {} {} st"
  using out D primed potential_le [OF ok, of out D] room
  by (simp add: spread_inv_def st primed_def untouched_def)

text \<open>When block light has spread, the sky levels and the direct sky are still those the sky queue was filled from.\<close>

lemma sky_start:
  assumes inv: "spread_inv si V B Channel_Block (out, D) {} {} st" and primed: "primed si V Channel_Sky out D q"
  shows "spread_inv si V B Channel_Sky (sp_output st, sp_direct st) {} {} (st\<lparr>sp_queue := q\<rparr>)"
proof -
  have e: "sp_output (st\<lparr>sp_queue := q\<rparr>) = sp_output st" "sp_queue (st\<lparr>sp_queue := q\<rparr>) = q"
    "sp_direct (st\<lparr>sp_queue := q\<rparr>) = sp_direct st" "sp_total (st\<lparr>sp_queue := q\<rparr>) = sp_total st"
    by simp_all
  have "untouched si Channel_Block (out, D) (sp_output st, sp_direct st)" using inv by (simp add: spread_inv_def)
  then have same: "lev (sp_output st) Channel_Sky p = lev out Channel_Sky p" "in_set (sp_direct st) p = in_set D p"
    if "p \<in> open_cells si" for p using that by (simp_all add: untouched_def)
  have reached: "reached si (sp_output st) Channel_Sky p offset = reached si out Channel_Sky p offset"
    if "p \<in> open_cells si" for p offset using that by (auto simp: reached_def same)
  have falls: "falls si (sp_direct st) p = falls si D p" for p by (auto simp: falls_def same)
  show ?thesis
    using inv primed unfolding spread_inv_def e primed_def
    by (simp add: same reached falls untouched_def)
qed

lemma direct_soundI:
  assumes ok: "solve_ok si V" and seeds: "seeds_ok si" and out: "raised si V out" and D: "set_ok si V D"
    and marked: "\<And>p. bounds_contain (si_bounds si) p \<Longrightarrow> in_set D p \<Longrightarrow>
      p \<in> open_cells si \<and> lev out Channel_Sky p = 15 \<and> direct_sky_down (si_profile si)"
    and full: "\<And>p. p \<in> open_cells si \<Longrightarrow> direct_sky_down (si_profile si) \<Longrightarrow> base_level si Channel_Sky p = 15 \<Longrightarrow>
      filt si p = Some 0 \<Longrightarrow> in_set D p"
  shows "direct_sound si V out D"
  unfolding direct_sound_def
proof (intro conjI allI ballI impI)
  fix p assume "bounds_contain (si_bounds si) p \<and> in_set D p"
  then have p: "p \<in> open_cells si" "lev out Channel_Sky p = 15" "direct_sky_down (si_profile si)"
    using marked by blast+
  have "within_field si Channel_Sky p (lev out Channel_Sky p)" using out p(1) by (simp add: raised_def)
  then obtain l d where l: "15 \<le> l" "lit si Channel_Sky p l d" by (auto simp: within_field_def p(2))
  then have "l = 15" using lit_le [OF ok seeds l(2)] by simp
  then show "lit si Channel_Sky p 15 True" "lev out Channel_Sky p = 15"
    using lit_full_sky [OF ok seeds] l(2) p(2,3) by blast+
qed (use D full in blast)+

text \<open>From queues that hold every lit cell.\<close>

lemma fill_direct_sound:
  assumes ok: "solve_ok si V" and seeds: "seeds_ok si" and out: "raised si V out" and fill: "fill_inv si V out UNIV st"
  shows "direct_sound si V out (fl_direct st)"
  by (rule direct_soundI [OF ok seeds out fill_invD(2) [OF fill]]) (use fill in \<open>unfold fill_inv_def, blast+\<close>)

lemma lit_waits_reached:
  assumes "lev out c p \<noteq> 0 \<Longrightarrow> waits q p"
  shows "waits q p \<or> reached si out c p offset"
  using assms by (cases "lev out c p = 0") (auto simp: reached_def)

lemma filled_primed:
  assumes fill: "fill_inv si V out UNIV st"
  shows "primed si V c out (fl_direct st) (fill_queue st c)"
proof -
  have "waits (fill_queue st c) p \<or> reached si out c p offset" if "p \<in> open_cells si" for p offset
    by (rule lit_waits_reached) (use fill_invD(3) [OF fill that] in simp)
  then show ?thesis
    using fill_invD(1,4) [OF fill] by (auto simp: primed_def fl_sky_queue)
qed

subsection \<open>A whole solve\<close>

text \<open>What the buffers hold: the field at every cell of the bounds, in both channels.\<close>

definition holds_field :: "solve_input \<Rightarrow> nat \<Rightarrow> mutable_output \<Rightarrow> dense_set \<Rightarrow> bool" where
  "holds_field si V out D \<longleftrightarrow> out_ok si V out \<and> set_ok si V D \<and>
     (\<forall>p. bounds_contain (si_bounds si) p \<longrightarrow>
        mo_known out ! rank (si_bounds si) p = (filt si p \<noteq> None) \<and>
        (\<forall>c. field_level si c p (get_at_index out (rank (si_bounds si) p) c)) \<and>
        (contains_at_index D (rank (si_bounds si) p) \<longleftrightarrow> lit si Channel_Sky p 15 True))"

lemma solved_field:
  assumes ok: "solve_ok si V" and block: "spread_inv si V B Channel_Block start {} {} st1"
    and block_lit: "\<forall>p\<in>open_cells si. \<forall>l d. lit si Channel_Block p l d \<longrightarrow> l \<le> lev (sp_output st1) Channel_Block p"
    and sky: "spread_inv si V B Channel_Sky (sp_output st1, sp_direct st1) {} {} st2"
    and sky_lit: "\<forall>p\<in>open_cells si. \<forall>l d. lit si Channel_Sky p l d \<longrightarrow> l \<le> lev (sp_output st2) Channel_Sky p \<and>
      (d \<longrightarrow> in_set (sp_direct st2) p)"
  shows "holds_field si V (sp_output st2) (sp_direct st2)"
proof -
  have r: "raised si V (sp_output st2)" and D: "direct_sound si V (sp_output st2) (sp_direct st2)"
    and u: "untouched si Channel_Sky (sp_output st1, sp_direct st1) (sp_output st2, sp_direct st2)"
    using sky by (simp_all add: spread_inv_def)
  have shape: "shape si V (sp_output st2)" using r by (simp add: raised_def)
  have out: "out_ok si V (sp_output st2)" and Dok: "set_ok si V (sp_direct st2)"
    using shape D by (simp_all add: shape_def direct_sound_def)
  have block2: "lev (sp_output st2) Channel_Block p = lev (sp_output st1) Channel_Block p" if "p \<in> open_cells si" for p
    using u that by (simp add: untouched_def)
  have at: "contains_at_index (sp_direct st2) (rank (si_bounds si) p) = in_set (sp_direct st2) p" for p
    using Dok by (simp add: in_set_def set_ok_def)
  show ?thesis
    unfolding holds_field_def get_is_lev [OF out] at
  proof (intro conjI allI impI)
    fix p assume pb: "bounds_contain (si_bounds si) p"
    show "mo_known (sp_output st2) ! rank (si_bounds si) p = (filt si p \<noteq> None)" using shape pb by (simp add: shape_def)
    show "in_set (sp_direct st2) p \<longleftrightarrow> lit si Channel_Sky p 15 True"
    proof
      show "lit si Channel_Sky p 15 True" if "in_set (sp_direct st2) p" using D pb that unfolding direct_sound_def by blast
      show "in_set (sp_direct st2) p" if l: "lit si Channel_Sky p 15 True"
      proof -
        have "p \<in> open_cells si" using lit_cell [OF l] by (simp add: open_cell_iff)
        then show ?thesis using sky_lit l by blast
      qed
    qed
    fix c
    show "field_level si c p (lev (sp_output st2) c p)"
    proof (cases "p \<in> open_cells si")
      case True
      have "lit si c p l d \<Longrightarrow> l \<le> lev (sp_output st2) c p" for l d
        using block_lit sky_lit block2 True by (cases c) auto
      then show ?thesis by (rule complete_is_field [OF r True])
    next
      case False
      then have "filt si p = None" using pb by (simp add: open_cell_iff)
      then show ?thesis using shape pb lit_cell [of si c p] by (auto simp: shape_def field_level_def)
    qed
  qed (rule out Dok)+
qed

lemma dark_inv_all:
  assumes "dark_inv si V todo seen st" and "\<And>p c. p \<in> open_cells si \<Longrightarrow> (c, p) \<in> seen"
  shows "dark_inv si V todo UNIV st"
proof -
  have "dark_inv si V todo UNIV st = dark_inv si V todo seen st"
    unfolding dark_inv_def
    by (intro arg_cong2 [where f = "(\<and>)"] ball_cong refl all_cong) (use assms(2) in simp_all)
  then show ?thesis using assms(1) by simp
qed

lemma load_and_darken_keeps:
  assumes ok: "solve_ok si V" and B: "2 * V \<le> B"
  shows "wp (solve_error si B) (\<lambda>dark. dark_inv si V {} UNIV dark \<and> dk_queue dark = []) (load_and_darken si generation V)"
  unfolding load_and_darken_def Let_def
proof (rule wp_seq [OF load_all [OF ok]], rule wp_seq)
  fix out assume out: "shape si V out \<and> prior_ok si \<and> (\<forall>p\<in>open_cells si. \<forall>c. lev out c p = prior_level si c p)"
  show "wp (solve_error si B) (dark_inv si V {} (UNIV \<times> set (dense_cells (si_bounds si))))
    (for_each (seed_darken_cell si) (enumerate 0 (collect_positions (bounds_positions (si_bounds si))))
      \<lparr>dk_output = out, dk_queue = [], dk_total = 0, dk_stats = no_stats\<rparr>)"
    by (rule seed_all [OF ok B]) (use out in blast)+
  fix st assume st: "dark_inv si V {} (UNIV \<times> set (dense_cells (si_bounds si))) st"
  have "(c, p) \<in> UNIV \<times> set (dense_cells (si_bounds si))" if "p \<in> open_cells si" for c p
    using that by (simp add: in_dense_cells open_cell_iff)
  with st have "dark_inv si V {} UNIV st" by (rule dark_inv_all)
  then show "wp (solve_error si B) (\<lambda>dark. dark_inv si V {} UNIV dark \<and> dk_queue dark = [])
    (darken_loop si (st\<lparr>dk_stats := raise_peak (length (dk_queue st)) (dk_stats st)\<rparr>))"
    by (intro darken_all [OF ok B]) simp
qed

text \<open>The second half of a solve, from any buffers and queues that are ready.\<close>

lemma spread_both:
  assumes ok: "solve_ok si V" and seeds: "seeds_ok si" and out: "raised si V out" and D: "direct_sound si V out D"
    and block: "primed si V Channel_Block out D bq" and sky: "primed si V Channel_Sky out D sq"
    and room: "count + 31 * V \<le> B"
  shows "wp (solve_error si B) (\<lambda>(out, D, _). seeds_ok si \<and> holds_field si V out D)
    (then_do (propagate si Channel_Block \<lparr>sp_output = out, sp_queue = bq, sp_direct = D, sp_total = count, sp_stats = stats\<rparr>) (\<lambda>st.
     then_do (propagate si Channel_Sky (st\<lparr>sp_queue := sq\<rparr>)) (\<lambda>st.
       Some (Inr (sp_output st, sp_direct st, sp_stats st)))))"
proof -
  have start: "spread_inv si V B Channel_Block (out, D) {} {}
      \<lparr>sp_output = out, sp_queue = bq, sp_direct = D, sp_total = count, sp_stats = stats\<rparr>"
    by (rule block_start [OF ok out D block]) (simp_all add: room)
  show ?thesis
  proof (rule wp_seq [OF propagate_channel [OF ok seeds start]])
    fix st1
    assume st1: "spread_inv si V B Channel_Block (out, D) {} {} st1 \<and>
      (\<forall>p\<in>open_cells si. \<forall>l d. lit si Channel_Block p l d \<longrightarrow> l \<le> lev (sp_output st1) Channel_Block p \<and>
        (d \<longrightarrow> in_set (sp_direct st1) p))"
    show "wp (solve_error si B) (\<lambda>(out, D, _). seeds_ok si \<and> holds_field si V out D)
      (then_do (propagate si Channel_Sky (st1\<lparr>sp_queue := sq\<rparr>)) (\<lambda>st.
         Some (Inr (sp_output st, sp_direct st, sp_stats st))))"
    proof (rule wp_seq [OF propagate_channel [OF ok seeds sky_start [OF conjunct1 [OF st1] sky]]])
      fix st2
      assume st2: "spread_inv si V B Channel_Sky (sp_output st1, sp_direct st1) {} {} st2 \<and>
        (\<forall>p\<in>open_cells si. \<forall>l d. lit si Channel_Sky p l d \<longrightarrow> l \<le> lev (sp_output st2) Channel_Sky p \<and>
          (d \<longrightarrow> in_set (sp_direct st2) p))"
      have "holds_field si V (sp_output st2) (sp_direct st2)"
        by (rule solved_field [OF ok conjunct1 [OF st1] _ conjunct1 [OF st2] conjunct2 [OF st2]]) (use st1 in blast)
      then show "wp (solve_error si B) (\<lambda>(out, D, _). seeds_ok si \<and> holds_field si V out D)
        (Some (Inr (sp_output st2, sp_direct st2, sp_stats st2)))" using seeds by simp
    qed
  qed
qed

lemma solve_cells_wp:
  assumes ok: "solve_ok si V" and clean: "clean = \<lparr>iq_entries = [], iq_pending = replicate V 0\<rparr>"
  shows "wp (solve_error si (35 * V)) (\<lambda>(out, D, _). seeds_ok si \<and> holds_field si V out D) (solve_cells si generation V clean clean)"
  unfolding solve_cells_def
proof (rule wp_seq)
  show "wp (solve_error si (35 * V)) (\<lambda>dark. dark_inv si V {} UNIV dark \<and> dk_queue dark = []) (load_and_darken si generation V)"
    by (rule load_and_darken_keeps [OF ok]) simp
next
  fix dark assume dark: "dark_inv si V {} UNIV dark \<and> dk_queue dark = []"
  note facts = dark_facts [OF ok conjunct1 [OF dark] conjunct2 [OF dark]]
  note seeds = facts(1)
  show "wp (solve_error si (35 * V)) (\<lambda>(out, D, _). seeds_ok si \<and> holds_field si V out D)
    (then_do (for_each (raise_cell si) [0..<V] (dk_output dark)) (\<lambda>out.
     then_do (for_each (fill_cell si out) (enumerate 0 (collect_positions (bounds_positions (si_bounds si))))
         \<lparr>fl_block = clean, fl_sky = clean, fl_direct = new_dense_set (si_bounds si) V, fl_total = dk_total dark\<rparr>) (\<lambda>fill.
     then_do (propagate si Channel_Block \<lparr>sp_output = out, sp_queue = fl_block fill, sp_direct = fl_direct fill,
         sp_total = fl_total fill, sp_stats = dk_stats dark\<rparr>) (\<lambda>st.
     then_do (propagate si Channel_Sky (st\<lparr>sp_queue := fl_sky fill\<rparr>)) (\<lambda>st.
       Some (Inr (sp_output st, sp_direct st, sp_stats st)))))))"
  proof (rule wp_seq [OF raise_all [OF ok seeds facts(3,4)]], assumption, rule wp_seq)
    fix out assume out: "raised si V out"
    show "wp (solve_error si (35 * V)) (\<lambda>fs. fill_inv si V out UNIV fs \<and> fl_total fs \<le> dk_total dark + 2 * V)
      (for_each (fill_cell si out) (enumerate 0 (collect_positions (bounds_positions (si_bounds si))))
         \<lparr>fl_block = clean, fl_sky = clean, fl_direct = new_dense_set (si_bounds si) V, fl_total = dk_total dark\<rparr>)"
      unfolding clean by (rule fill_all [OF ok seeds out]) (use facts(5) in linarith)
    fix fs assume fs: "fill_inv si V out UNIV fs \<and> fl_total fs \<le> dk_total dark + 2 * V"
    then have fill: "fill_inv si V out UNIV fs" and room: "fl_total fs + 31 * V \<le> 35 * V" using facts(5) by auto
    note ready = filled_primed [OF fill, of Channel_Block, folded fl_sky_queue] filled_primed [OF fill, of Channel_Sky, folded fl_sky_queue]
    show "wp (solve_error si (35 * V)) (\<lambda>(out, D, _). seeds_ok si \<and> holds_field si V out D)
      (then_do (propagate si Channel_Block \<lparr>sp_output = out, sp_queue = fl_block fs, sp_direct = fl_direct fs,
         sp_total = fl_total fs, sp_stats = dk_stats dark\<rparr>) (\<lambda>st.
       then_do (propagate si Channel_Sky (st\<lparr>sp_queue := fl_sky fs\<rparr>)) (\<lambda>st.
         Some (Inr (sp_output st, sp_direct st, sp_stats st)))))"
      by (rule spread_both [OF ok seeds out fill_direct_sound [OF ok seeds out fill] ready room])
  qed
qed

end
