(* ===== verification/Light_Output.thy ===== *)
theory Light_Output
  imports Light_Spec
begin

section \<open>The result of a solve\<close>

text \<open>
  \<^verbatim>\<open>light_solver/output.rs\<close> and the entry points of \<^verbatim>\<open>solve.rs\<close>: the finished buffers are packed,
  section by section, into light volumes of two samples to a byte; the result answers reads by
  position.  A row of a section is a run of consecutive dense indices.
\<close>

record light_solve_output =
  so_dimension :: i32
  so_bounds :: light_bounds
  so_sub_chunks :: "(sub_chunk_key, sub_chunk_light) btree_map"
  so_direct :: dense_set
  so_stats :: light_solve_stats

subsection \<open>Packing a section\<close>

record pack_state =
  pk_block :: "u8 list"
  pk_sky :: "u8 list"
  pk_known :: bool

definition section_origin :: "sub_chunk_key \<Rightarrow> block_pos" where
  "section_origin key = Block_Pos (sk_x key * 16) (sk_y key * 16) (sk_z key * 16)"

text \<open>The part of the bounds inside a section.\<close>

definition section_clip :: "light_bounds \<Rightarrow> sub_chunk_key \<Rightarrow> light_bounds" where
  "section_clip b key =
     (let origin = section_origin key
      in \<lparr>lb_dimension = lb_dimension b,
          lb_min = Block_Pos (max (bp_x (lb_min b)) (bp_x origin)) (max (bp_y (lb_min b)) (bp_y origin))
            (max (bp_z (lb_min b)) (bp_z origin)),
          lb_max = Block_Pos (min (bp_x (lb_max b)) (bp_x origin + 15)) (min (bp_y (lb_max b)) (bp_y origin + 15))
            (min (bp_z (lb_max b)) (bp_z origin + 15))\<rparr>)"

definition or_nibble :: "usize \<Rightarrow> nat \<Rightarrow> nat \<Rightarrow> u8 list \<Rightarrow> u8 list" where
  "or_nibble i shift v bytes = bytes[i := bytes ! i OR push_bit shift (word_of_nat v)]"

definition pack_cell :: "mutable_output \<Rightarrow> usize \<Rightarrow> nat \<Rightarrow> usize \<Rightarrow> nat \<Rightarrow> pack_state \<Rightarrow> pack_state" where
  "pack_cell out row shift index local_z st =
     (if \<not> mo_known out ! index then st
      else let i = row OR push_bit 3 local_z; (block_value, sky_value) = mo_values out ! index
           in \<lparr>pk_block = or_nibble i shift block_value (pk_block st),
               pk_sky = or_nibble i shift sky_value (pk_sky st), pk_known = True\<rparr>)"

definition pack_row :: "mutable_output \<Rightarrow> sub_chunk_key \<Rightarrow> light_bounds \<Rightarrow> int \<Rightarrow> int \<Rightarrow> pack_state \<Rightarrow> pack_state option" where
  "pack_row out key clip x y st =
     (case mo_index out (Block_Pos x y (bp_z (lb_min clip))) of
       None \<Rightarrow> None
     | Some start \<Rightarrow>
         let origin = section_origin key;
             local_y = nat (y - bp_y origin);
             row = push_bit 7 (nat (x - bp_x origin)) OR drop_bit 1 local_y;
             shift = (local_y AND 1) * 4
         in Some (fold (\<lambda>(offset, z). pack_cell out row shift (start + offset) (nat (z - bp_z origin)))
              (enumerate 0 [bp_z (lb_min clip)..bp_z (lb_max clip)]) st))"

definition pack_section :: "mutable_output \<Rightarrow> sub_chunk_key \<Rightarrow> sub_chunk_light option option" where
  "pack_section out key =
     (let clip = section_clip (mo_bounds out) key
      in map_option (\<lambda>st. if pk_known st then Some (sub_light_from_packed (pk_block st) (pk_sky st) (mo_generation out)) else None)
        (try_fold (\<lambda>x. try_fold (\<lambda>y. pack_row out key clip x y) [bp_y (lb_min clip)..bp_y (lb_max clip)])
          [bp_x (lb_min clip)..bp_x (lb_max clip)]
          \<lparr>pk_block = replicate PACKED_LIGHT_BYTES 0, pk_sky = replicate PACKED_LIGHT_BYTES 0, pk_known = False\<rparr>))"

definition section_keys :: "light_bounds \<Rightarrow> sub_chunk_key list" where
  "section_keys b =
     (let mn = fst (split_position (lb_dimension b) (lb_min b)); mx = fst (split_position (lb_dimension b) (lb_max b))
      in concat (map (\<lambda>x. concat (map (\<lambda>y. map (Sub_Chunk_Key (lb_dimension b) x y) [sk_z mn..sk_z mx])
           [sk_y mn..sk_y mx])) [sk_x mn..sk_x mx]))"

definition freeze :: "mutable_output \<Rightarrow> dense_set \<Rightarrow> light_solve_stats \<Rightarrow> light_solve_output option" where
  "freeze out direct stats =
     map_option (\<lambda>sub_chunks. \<lparr>so_dimension = lb_dimension (mo_bounds out), so_bounds = mo_bounds out,
         so_sub_chunks = sub_chunks, so_direct = direct, so_stats = stats\<rparr>)
       (try_fold (\<lambda>key m. map_option (\<lambda>light. case light of None \<Rightarrow> m | Some l \<Rightarrow> bt_insert key l m) (pack_section out key))
         (section_keys (mo_bounds out)) bt_empty)"

subsection \<open>Reading a result\<close>

definition output_read_light :: "light_solve_output \<Rightarrow> i32 \<Rightarrow> block_pos \<Rightarrow> light_channel \<Rightarrow> nat" where
  "output_read_light out dimension p c =
     (if dimension \<noteq> so_dimension out \<or> \<not> bounds_contain (so_bounds out) p then 0
      else case split_position dimension p of (key, x, y, z) \<Rightarrow>
        (case bt_get (so_sub_chunks out) key of
          None \<Rightarrow> 0
        | Some light \<Rightarrow> (case sub_light_get light c x y z of None \<Rightarrow> 0 | Some v \<Rightarrow> unat v)))"

definition light_at :: "light_solve_output \<Rightarrow> block_pos \<Rightarrow> light_channel \<Rightarrow> nat" where
  "light_at out p c = output_read_light out (so_dimension out) p c"

definition output_has_direct :: "light_solve_output \<Rightarrow> i32 \<Rightarrow> block_pos \<Rightarrow> bool" where
  "output_has_direct out dimension p \<longleftrightarrow>
     dimension = so_dimension out \<and> bounds_contain (so_bounds out) p \<and> ds_contains (so_direct out) p"

definition output_boundary_light :: "light_solve_output \<Rightarrow> i32 \<Rightarrow> block_pos \<Rightarrow> light_channel \<Rightarrow> boundary_sample" where
  "output_boundary_light out dimension p c =
     (if dimension \<noteq> so_dimension out \<or> \<not> bounds_contain (so_bounds out) p then Boundary_Unknown
      else if output_read_light out dimension p c = 0 then Boundary_Unknown else Boundary_Untrusted)"

definition output_access :: "light_solve_output \<Rightarrow> light_read_access" where
  "output_access out = \<lparr>ra_read_light = output_read_light out, ra_direct = output_has_direct out,
     ra_boundary = output_boundary_light out\<rparr>"

text \<open>\<^verbatim>\<open>DensePositionSet::for_each_within\<close>: the positions visited, in order.\<close>

definition visit_within :: "dense_set \<Rightarrow> block_pos \<Rightarrow> block_pos \<Rightarrow> block_pos list" where
  "visit_within s mn mx =
     (let low = lb_min (ds_bounds s); high = lb_max (ds_bounds s);
          from_x = max (bp_x mn) (bp_x low); to_x = min (bp_x mx) (bp_x high);
          from_y = max (bp_y mn) (bp_y low); to_y = min (bp_y mx) (bp_y high);
          from_z = max (bp_z mn) (bp_z low); to_z = min (bp_z mx) (bp_z high)
      in concat (map (\<lambda>x. concat (map (\<lambda>y.
           (let row = (nat (x - bp_x low) * y_len (ds_bounds s) + nat (y - bp_y low)) * z_len (ds_bounds s)
            in map (Block_Pos x y) (filter (\<lambda>z. ds_present s ! (row + nat (z - bp_z low))) [from_z..to_z])))
           [from_y..to_y])) [from_x..to_x]))"

definition direct_sky_in :: "light_solve_output \<Rightarrow> sub_chunk_key \<Rightarrow> (nat \<times> nat \<times> nat) list" where
  "direct_sky_in out key =
     (if sk_dimension key \<noteq> so_dimension out then []
      else let origin = section_origin key
           in map (\<lambda>p. snd (split_position (so_dimension out) p))
             (visit_within (so_direct out) origin (Block_Pos (bp_x origin + 15) (bp_y origin + 15) (bp_z origin + 15))))"

subsection \<open>The entry points\<close>

text \<open>What of the scratch buffers outlives a solve: every other buffer is refilled before it is read.\<close>

record light_solver_scratch =
  sc_block_increase :: increase_queue
  sc_sky_increase :: increase_queue

definition default_scratch :: light_solver_scratch where
  "default_scratch = \<lparr>sc_block_increase = empty_queue, sc_sky_increase = empty_queue\<rparr>"

definition bounded_volume :: "light_bounds \<Rightarrow> solver_limits \<Rightarrow> light_solve_error + usize" where
  "bounded_volume b limits = (case bounds_volume b of
     None \<Rightarrow> Inl (Voxel_Limit_Exceeded USIZE_MAX (sl_max_voxels limits))
   | Some volume \<Rightarrow>
       (if volume > sl_max_voxels limits then Inl (Voxel_Limit_Exceeded volume (sl_max_voxels limits)) else Inr volume))"

definition solve_input_of ::
    "light_block_access \<Rightarrow> light_read_access \<Rightarrow> light_bounds \<Rightarrow> light_profile \<Rightarrow> solver_limits \<Rightarrow> solve_input" where
  "solve_input_of blocks prior b profile limits =
     \<lparr>si_blocks = new_cached_blocks blocks b, si_prior = prior, si_bounds = b, si_profile = profile, si_limits = limits\<rparr>"

definition solve_light_with_scratch ::
    "light_block_access \<Rightarrow> light_read_access \<Rightarrow> light_bounds \<Rightarrow> u64 \<Rightarrow> light_profile \<Rightarrow> solver_limits \<Rightarrow>
     light_solver_scratch \<Rightarrow> light_solve_output outcome" where
  "solve_light_with_scratch blocks prior b generation profile limits scratch =
     (case bounded_volume b limits of
       Inl e \<Rightarrow> Some (Inl e)
     | Inr volume \<Rightarrow>
         (case queue_reset (sc_block_increase scratch) volume of
           None \<Rightarrow> None
         | Some block_increase \<Rightarrow>
             (case queue_reset (sc_sky_increase scratch) volume of
               None \<Rightarrow> None
             | Some sky_increase \<Rightarrow>
                 then_do (solve_cells (solve_input_of blocks prior b profile limits) generation volume
                     block_increase sky_increase)
                   (\<lambda>(out, direct, stats). map_option Inr (freeze out direct stats)))))"

definition solve_light ::
    "light_block_access \<Rightarrow> light_read_access \<Rightarrow> light_bounds \<Rightarrow> u64 \<Rightarrow> light_profile \<Rightarrow> solver_limits \<Rightarrow>
     light_solve_output outcome" where
  "solve_light blocks prior b generation profile limits =
     solve_light_with_scratch blocks prior b generation profile limits default_scratch"

end
