(* ===== verification/Light_Freeze.thy ===== *)
theory Light_Freeze
  imports Light_Output
begin

section \<open>Packing the finished buffers\<close>

text \<open>
  Every cell of a section has its own nibble; a packed section holds the levels of the known cells
  inside the bounds and zero elsewhere, so a read of the result is a read of the buffers.
\<close>

subsection \<open>One nibble\<close>

lemma or_nibble:
  assumes "j div 2 < length bytes" and "v \<le> 15" and "nibble bytes j = 0"
  shows "nibble (or_nibble (j div 2) (j mod 2 * 4) v bytes) k = (if k = j then word_of_nat v else nibble bytes k)"
proof -
  let ?b = "bytes ! (j div 2)"
  have "(word_of_nat v :: u8) \<le> word_of_nat 15" using assms(2) by (simp add: word_le_nat_alt unat_of_nat)
  then have v: "(word_of_nat v :: u8) \<le> 15" by simp
  have "?b OR push_bit (j mod 2 * 4) (word_of_nat v) =
      (if j mod 2 = 0 then (?b AND 0xf0) OR word_of_nat v else (?b AND 0x0f) OR push_bit 4 (word_of_nat v))"
  proof (cases "j mod 2 = 0")
    case True
    then have "?b AND 15 = 0" using assms(3) by (simp add: nibble_def)
    then have "?b OR word_of_nat v = (?b AND 0xf0) OR word_of_nat v"
      by (intro byte_ext [of "?b OR word_of_nat v"]) (simp_all add: write_low [OF v] bit.conj_disj_distrib2 v and.assoc)
    then show ?thesis using True by simp
  next
    case False
    then have "drop_bit 4 ?b = 0" using assms(3) by (simp add: nibble_def)
    then have "?b OR push_bit 4 (word_of_nat v) = (?b AND 0x0f) OR push_bit 4 (word_of_nat v)"
      by (intro byte_ext [of "?b OR push_bit 4 (word_of_nat v)"]) (simp_all add: write_high [OF v] bit.conj_disj_distrib2 v and.assoc)
    then show ?thesis using False by simp
  qed
  then show ?thesis using nibble_write [OF assms(1) v, of k] by (simp add: or_nibble_def)
qed

subsection \<open>The cells of a section\<close>

abbreviation section_of :: "i32 \<Rightarrow> block_pos \<Rightarrow> sub_chunk_key" where
  "section_of dimension p \<equiv> fst (split_position dimension p)"

definition cell_slot :: "block_pos \<Rightarrow> nat" where
  "cell_slot p = 256 * nat (bp_x p mod 16) + 16 * nat (bp_z p mod 16) + nat (bp_y p mod 16)"

lemma local_less [simp]: "nat (n mod 16) < 16"
  using pos_mod_bound [of 16 n] by linarith

lemma clip_iff:
  "sk_dimension key = lb_dimension b \<Longrightarrow>
    bounds_contain (section_clip b key) p \<longleftrightarrow> bounds_contain b p \<and> section_of (lb_dimension b) p = key"
  by (cases key) (auto simp: section_clip_def section_origin_def bounds_contain_def split_position_def Let_def)

lemma cell_slot_bound: "cell_slot p < 4096"
proof -
  have "nat (bp_x p mod 16) < 16" "nat (bp_y p mod 16) < 16" "nat (bp_z p mod 16) < 16" by simp_all
  then show ?thesis unfolding cell_slot_def by linarith
qed

lemma slot_byte [simp]: "cell_slot p div 2 < 2048"
  using cell_slot_bound [of p] by simp

lemma local_index_slot:
  "light_local_index (nat (bp_x p mod 16)) (nat (bp_y p mod 16)) (nat (bp_z p mod 16)) = Some (cell_slot p)"
  by (simp add: light_local_index_eq cell_slot_def)

lemma cell_slot_inj:
  assumes "section_of d p = section_of d q" and "cell_slot p = cell_slot q"
  shows "p = q"
proof -
  have "(nat (bp_x p mod 16), nat (bp_y p mod 16), nat (bp_z p mod 16)) =
      (nat (bp_x q mod 16), nat (bp_y q mod 16), nat (bp_z q mod 16))"
    using assms(2) by (subst local_index_inj [symmetric]) (simp_all add: cell_slot_def)
  then have "bp_x p mod 16 = bp_x q mod 16" "bp_y p mod 16 = bp_y q mod 16" "bp_z p mod 16 = bp_z q mod 16"
    by (simp_all add: eq_nat_nat_iff)
  moreover have "bp_x p div 16 = bp_x q div 16" "bp_y p div 16 = bp_y q div 16" "bp_z p div 16 = bp_z q div 16"
    using assms(1) by (simp_all add: split_position_def)
  ultimately have "bp_x p = bp_x q" "bp_y p = bp_y q" "bp_z p = bp_z q"
    by (metis mult_div_mod_eq)+
  then show ?thesis by (cases p; cases q) simp
qed

text \<open>A cell's byte and shift, as the packing loops compute them.\<close>

lemma local_coordinates:
  assumes "section_of d p = key"
  shows "bp_x p - bp_x (section_origin key) = bp_x p mod 16" "bp_y p - bp_y (section_origin key) = bp_y p mod 16"
    "bp_z p - bp_z (section_origin key) = bp_z p mod 16"
  using assms by (auto simp: section_origin_def split_position_def minus_div_mult_eq_mod)

lemma packed_slot:
  assumes "y < 16" and "z < 16"
  shows "(push_bit 7 x OR drop_bit 1 y) OR push_bit 3 z = (256 * x + 16 * z + y) div (2 :: nat)"
proof -
  have "push_bit 7 x OR push_bit 3 z = push_bit 3 (push_bit 4 x OR z)" by (simp add: push_bit_or)
  moreover have "y div 2 < 2 ^ 3" using assms(1) by simp
  ultimately have "(push_bit 7 x OR push_bit 3 z) OR y div 2 = (x * 16 + z) * 8 + y div 2"
    using assms(2) push_or_nat [of "y div 2" 3 "push_bit 4 x OR z"] push_or_nat [of z 4 x] by simp
  moreover have "(256 * x + 16 * z + y) div 2 = (x * 16 + z) * 8 + y div 2" by simp
  moreover have "drop_bit 1 y = y div 2" by (simp add: drop_bit_eq_div)
  then have "(push_bit 7 x OR drop_bit 1 y) OR push_bit 3 z = (push_bit 7 x OR push_bit 3 z) OR y div 2"
    by (simp only: ac_simps)
  ultimately show ?thesis by simp
qed

definition pack_at :: "mutable_output \<Rightarrow> block_pos \<Rightarrow> pack_state \<Rightarrow> pack_state" where
  "pack_at out p st =
     (let i = rank (mo_bounds out) p
      in if \<not> mo_known out ! i then st
         else \<lparr>pk_block = or_nibble (cell_slot p div 2) (cell_slot p mod 2 * 4) (fst (mo_values out ! i)) (pk_block st),
               pk_sky = or_nibble (cell_slot p div 2) (cell_slot p mod 2 * 4) (snd (mo_values out ! i)) (pk_sky st),
               pk_known = True\<rparr>)"

lemma pack_cell_at:
  assumes "section_of d p = key"
  shows "pack_cell out (push_bit 7 (nat (bp_x p - bp_x (section_origin key))) OR
      drop_bit 1 (nat (bp_y p - bp_y (section_origin key)))) ((nat (bp_y p - bp_y (section_origin key)) AND 1) * 4)
      (rank (mo_bounds out) p) (nat (bp_z p - bp_z (section_origin key))) = pack_at out p"
proof -
  note s = packed_slot [of "nat (bp_y p mod 16)" "nat (bp_z p mod 16)" "nat (bp_x p mod 16)"]
  have "(256 * a + 16 * b + c) mod 2 = c mod 2" for a b c :: nat by presburger
  then have m: "nat (bp_y p mod 16) AND 1 = cell_slot p mod 2" by (simp add: cell_slot_def and_one_eq)
  have i: "(push_bit 7 (nat (bp_x p mod 16)) OR drop_bit 1 (nat (bp_y p mod 16))) OR push_bit 3 (nat (bp_z p mod 16)) =
      cell_slot p div 2"
    using s by (simp add: cell_slot_def)
  show ?thesis
    unfolding local_coordinates [OF assms] m
    by (simp add: fun_eq_iff pack_cell_def pack_at_def i [unfolded One_nat_def] Let_def case_prod_unfold)
qed

subsection \<open>The loops of a section\<close>

lemma fold_concat_map: "fold (\<lambda>x. fold f (g x)) xs = fold f (concat (map g xs))"
  by (induction xs) (simp_all add: fun_eq_iff)

lemma rank_in_row:
  assumes "bp_z (lb_min b) \<le> z"
  shows "rank b (Block_Pos x y (z + int k)) = rank b (Block_Pos x y z) + k"
proof -
  have "nat (z + int k - bp_z (lb_min b)) = nat (z - bp_z (lb_min b)) + k" using assms by linarith
  then show ?thesis by (simp add: rank_def)
qed

lemma pack_row_eq:
  assumes ok: "solve_ok si V" and out: "out_ok si V out"
    and dim: "sk_dimension key = lb_dimension (si_bounds si)" and clip: "clip = section_clip (si_bounds si) key"
    and row: "bounds_contain clip (Block_Pos x y (bp_z (lb_min clip)))"
  shows "pack_row out key clip x y st =
    Some (fold (pack_at out) (map (Block_Pos x y) [bp_z (lb_min clip)..bp_z (lb_max clip)]) st)"
proof -
  let ?zs = "[bp_z (lb_min clip)..bp_z (lb_max clip)]"
  let ?p = "Block_Pos x y (bp_z (lb_min clip))"
  have b: "mo_bounds out = si_bounds si" using out by (simp add: out_ok_def)
  have inside: "bounds_contain (si_bounds si) ?p" using row clip_iff [OF dim] by (simp add: clip)
  have low: "bp_z (lb_min (si_bounds si)) \<le> bp_z (lb_min clip)" by (simp add: clip section_clip_def Let_def)
  have cell: "pack_cell out (push_bit 7 (nat (x - bp_x (section_origin key))) OR drop_bit 1 (nat (y - bp_y (section_origin key))))
      ((nat (y - bp_y (section_origin key)) AND 1) * 4) (rank (si_bounds si) ?p + offset) (nat (z - bp_z (section_origin key))) =
      pack_at out (Block_Pos x y z)"
    if "(offset, z) \<in> set (enumerate 0 ?zs)" for offset z
  proof -
    have z: "z = bp_z (lb_min clip) + int offset" and n: "offset < length ?zs"
      using that by (auto simp: in_set_enumerate_eq)
    then have "z \<le> bp_z (lb_max clip)" by simp
    then have "bounds_contain clip (Block_Pos x y z)" using row z by (simp add: bounds_contain_def)
    then have "section_of (lb_dimension (si_bounds si)) (Block_Pos x y z) = key" using clip_iff [OF dim] by (simp add: clip)
    from pack_cell_at [OF this, of out] show ?thesis
      by (simp add: b z rank_in_row [OF low])
  qed
  have "fold (\<lambda>(offset, z). pack_cell out (push_bit 7 (nat (x - bp_x (section_origin key))) OR drop_bit 1 (nat (y - bp_y (section_origin key))))
      ((nat (y - bp_y (section_origin key)) AND 1) * 4) (rank (si_bounds si) ?p + offset) (nat (z - bp_z (section_origin key))))
      (enumerate 0 ?zs) st = fold (\<lambda>(offset, z). pack_at out (Block_Pos x y z)) (enumerate 0 ?zs) st"
    using cell by (intro fold_cong refl) auto
  also have "\<dots> = fold (pack_at out \<circ> Block_Pos x y \<circ> snd) (enumerate 0 ?zs) st"
    by (simp add: case_prod_unfold comp_def)
  also have "\<dots> = fold (pack_at out) (map (Block_Pos x y) ?zs) st"
    by (simp add: fold_map flip: comp_assoc) (metis fold_map map_snd_enumerate)
  finally show ?thesis
    using mo_index_eq [OF ok out, of ?p] inside by (simp add: pack_row_def Let_def)
qed

lemma pack_section_eq:
  assumes ok: "solve_ok si V" and out: "out_ok si V out" and dim: "sk_dimension key = lb_dimension (si_bounds si)"
    and some: "bounds_contain (section_clip (si_bounds si) key) q"
  shows "pack_section out key = Some (let st = fold (pack_at out) (dense_cells (section_clip (si_bounds si) key))
       \<lparr>pk_block = replicate PACKED_LIGHT_BYTES 0, pk_sky = replicate PACKED_LIGHT_BYTES 0, pk_known = False\<rparr>
     in if pk_known st then Some (sub_light_from_packed (pk_block st) (pk_sky st) (mo_generation out)) else None)"
proof -
  define clip where "clip = section_clip (si_bounds si) key"
  have b: "mo_bounds out = si_bounds si" using out by (simp add: out_ok_def)
  have z: "bp_z (lb_min clip) \<le> bp_z (lb_max clip)" using some by (auto simp: bounds_contain_def simp flip: clip_def)
  have row: "pack_row out key clip x y st = Some (fold (pack_at out) (map (Block_Pos x y) [bp_z (lb_min clip)..bp_z (lb_max clip)]) st)"
    if "x \<in> set [bp_x (lb_min clip)..bp_x (lb_max clip)]" "y \<in> set [bp_y (lb_min clip)..bp_y (lb_max clip)]" for x y st
    by (rule pack_row_eq [OF ok out dim clip_def]) (use that z in \<open>simp add: bounds_contain_def\<close>)
  have column: "try_fold (\<lambda>y. pack_row out key clip x y) [bp_y (lb_min clip)..bp_y (lb_max clip)] st =
      Some (fold (\<lambda>y. fold (pack_at out) (map (Block_Pos x y) [bp_z (lb_min clip)..bp_z (lb_max clip)]))
        [bp_y (lb_min clip)..bp_y (lb_max clip)] st)"
    if "x \<in> set [bp_x (lb_min clip)..bp_x (lb_max clip)]" for x st
    by (rule try_fold_total) (rule row [OF that])
  have "try_fold (\<lambda>x. try_fold (\<lambda>y. pack_row out key clip x y) [bp_y (lb_min clip)..bp_y (lb_max clip)])
      [bp_x (lb_min clip)..bp_x (lb_max clip)] st =
      Some (fold (\<lambda>x. fold (\<lambda>y. fold (pack_at out) (map (Block_Pos x y) [bp_z (lb_min clip)..bp_z (lb_max clip)]))
        [bp_y (lb_min clip)..bp_y (lb_max clip)]) [bp_x (lb_min clip)..bp_x (lb_max clip)] st)" for st
    by (rule try_fold_total) (rule column)
  then have "try_fold (\<lambda>x. try_fold (\<lambda>y. pack_row out key clip x y) [bp_y (lb_min clip)..bp_y (lb_max clip)])
      [bp_x (lb_min clip)..bp_x (lb_max clip)] st = Some (fold (pack_at out) (dense_cells clip) st)" for st
    by (simp only: dense_cells_def fold_concat_map)
  then show ?thesis
    by (simp add: pack_section_def Let_def b flip: clip_def)
qed

subsection \<open>What a packed section holds\<close>

definition packed :: "mutable_output \<Rightarrow> light_channel \<Rightarrow> pack_state \<Rightarrow> u8 list" where
  "packed out c st = (case c of Channel_Block \<Rightarrow> pk_block st | Channel_Sky \<Rightarrow> pk_sky st)"

definition level_at :: "mutable_output \<Rightarrow> light_channel \<Rightarrow> block_pos \<Rightarrow> nat" where
  "level_at out c p = (if mo_known out ! rank (mo_bounds out) p then lev out c p else 0)"

definition pack_inv :: "mutable_output \<Rightarrow> light_bounds \<Rightarrow> block_pos list \<Rightarrow> pack_state \<Rightarrow> bool" where
  "pack_inv out clip cells st \<longleftrightarrow>
     (\<forall>c. length (packed out c st) = PACKED_LIGHT_BYTES \<and>
        (\<forall>p. bounds_contain clip p \<longrightarrow>
           nibble (packed out c st) (cell_slot p) = word_of_nat (if p \<in> set cells then level_at out c p else 0))) \<and>
     (pk_known st \<longleftrightarrow> (\<exists>p\<in>set cells. mo_known out ! rank (mo_bounds out) p))"

lemma pack_at_packed:
  "packed out c (pack_at out p st) = (if mo_known out ! rank (mo_bounds out) p
     then or_nibble (cell_slot p div 2) (cell_slot p mod 2 * 4) (lev out c p) (packed out c st) else packed out c st)"
  "pk_known (pack_at out p st) \<longleftrightarrow> pk_known st \<or> mo_known out ! rank (mo_bounds out) p"
  by (cases c; simp add: packed_def pack_at_def Let_def lev_def get_at_index_def pick_def)
    (simp add: pack_at_def Let_def)

lemma pack_at_keeps:
  assumes levels: "\<And>c. lev out c p \<le> 15" and dim: "sk_dimension key = lb_dimension b" and clip: "clip = section_clip b key"
    and p: "bounds_contain clip p" and new: "p \<notin> set cells" and inv: "pack_inv out clip cells st"
  shows "pack_inv out clip (cells @ [p]) (pack_at out p st)"
  unfolding pack_inv_def
proof (intro conjI allI impI)
  fix c
  have len: "length (packed out c st) = PACKED_LIGHT_BYTES" using inv by (simp add: pack_inv_def)
  show "length (packed out c (pack_at out p st)) = PACKED_LIGHT_BYTES"
    using len by (simp add: pack_at_packed or_nibble_def)
  fix q assume q: "bounds_contain clip q"
  have old: "nibble (packed out c st) (cell_slot r) = word_of_nat (if r \<in> set cells then level_at out c r else 0)"
    if "bounds_contain clip r" for r
    using inv that by (simp add: pack_inv_def)
  have same: "cell_slot q = cell_slot p \<longleftrightarrow> q = p"
    using cell_slot_inj [of "lb_dimension b" q p] p q clip_iff [OF dim] by (auto simp: clip)
  have "cell_slot p div 2 < length (packed out c st)" using cell_slot_bound [of p] len by simp
  from or_nibble [OF this levels, of c "cell_slot q"] old [OF p] new
  show "nibble (packed out c (pack_at out p st)) (cell_slot q) =
      word_of_nat (if q \<in> set (cells @ [p]) then level_at out c q else 0)"
    using old [OF q] new by (auto simp: pack_at_packed same level_at_def)
next
  show "pk_known (pack_at out p st) \<longleftrightarrow> (\<exists>p\<in>set (cells @ [p]). mo_known out ! rank (mo_bounds out) p)"
    using inv by (auto simp: pack_inv_def pack_at_packed)
qed

lemma pack_cells:
  assumes levels: "\<And>c p. bounds_contain clip p \<Longrightarrow> lev out c p \<le> 15"
    and dim: "sk_dimension key = lb_dimension b" and clip: "clip = section_clip b key"
    and "distinct (cells @ rest)" and "\<And>p. p \<in> set rest \<Longrightarrow> bounds_contain clip p" and "pack_inv out clip cells st"
  shows "pack_inv out clip (cells @ rest) (fold (pack_at out) rest st)"
  using assms(4-)
proof (induction rest arbitrary: cells st)
  case (Cons p rest)
  have p: "bounds_contain clip p" "p \<notin> set cells" using Cons.prems by auto
  have "pack_inv out clip ((cells @ [p]) @ rest) (fold (pack_at out) rest (pack_at out p st))"
    by (rule Cons.IH) (use Cons.prems pack_at_keeps [OF levels [OF p(1)] dim clip p Cons.prems(3)] in auto)
  then show ?case by simp
qed simp

lemma distinct_dense_cells: "distinct (dense_cells b)"
proof -
  have "concat (map (\<lambda>x. concat (map (\<lambda>y. map (Block_Pos x y) zs) ys)) xs) =
      map (\<lambda>(x, y, z). Block_Pos x y z) (List.product xs (List.product ys zs))" for xs ys zs
    by (simp add: product_concat_map map_concat comp_def)
  then show ?thesis
    unfolding dense_cells_def by (auto simp: distinct_map distinct_product inj_on_def)
qed

lemma pack_section_spec:
  assumes ok: "solve_ok si V" and out: "out_ok si V out" and levels: "\<And>c p. bounds_contain (si_bounds si) p \<Longrightarrow> lev out c p \<le> 15"
    and dim: "sk_dimension key = lb_dimension (si_bounds si)"
    and some: "bounds_contain (section_clip (si_bounds si) key) q"
  obtains light where "pack_section out key = Some light"
    "light = None \<longleftrightarrow> (\<forall>p. bounds_contain (section_clip (si_bounds si) key) p \<longrightarrow> \<not> mo_known out ! rank (si_bounds si) p)"
    "\<And>l p c. light = Some l \<Longrightarrow> bounds_contain (section_clip (si_bounds si) key) p \<Longrightarrow>
      sub_light_get l c (nat (bp_x p mod 16)) (nat (bp_y p mod 16)) (nat (bp_z p mod 16)) = Some (word_of_nat (level_at out c p))"
    "\<And>l. light = Some l \<Longrightarrow> sl_generation l = mo_generation out \<and> light_wf (sl_block l) \<and> light_wf (sl_sky l)"
proof -
  define clip where "clip = section_clip (si_bounds si) key"
  define st where "st = fold (pack_at out) (dense_cells clip)
     \<lparr>pk_block = replicate PACKED_LIGHT_BYTES 0, pk_sky = replicate PACKED_LIGHT_BYTES 0, pk_known = False\<rparr>"
  have b: "mo_bounds out = si_bounds si" using out by (simp add: out_ok_def)
  have "pack_inv out clip ([] @ dense_cells clip) st"
    unfolding st_def
  proof (rule pack_cells [OF _ dim clip_def])
    show "lev out c p \<le> 15" if "bounds_contain clip p" for c p
      by (rule levels) (use that clip_iff [OF dim] in \<open>simp add: clip_def\<close>)
    show "pack_inv out clip [] \<lparr>pk_block = replicate PACKED_LIGHT_BYTES 0, pk_sky = replicate PACKED_LIGHT_BYTES 0, pk_known = False\<rparr>"
      using cell_slot_bound slot_byte by (auto simp: pack_inv_def packed_def nibble_def split: light_channel.split)
  qed (simp_all add: distinct_dense_cells set_dense_cells)
  then have inv: "pack_inv out clip (dense_cells clip) st" by simp
  define light where "light = (if pk_known st then Some (sub_light_from_packed (pk_block st) (pk_sky st) (mo_generation out)) else None)"
  have eq: "pack_section out key = Some light"
    unfolding pack_section_eq [OF ok out dim some] light_def st_def clip_def Let_def by (rule refl)
  show thesis
  proof (rule that [OF eq])
    show "light = None \<longleftrightarrow> (\<forall>p. bounds_contain (section_clip (si_bounds si) key) p \<longrightarrow> \<not> mo_known out ! rank (si_bounds si) p)"
      using inv by (auto simp: light_def pack_inv_def set_dense_cells b simp flip: clip_def)
  next
    fix l p c assume l: "light = Some l" and p: "bounds_contain (section_clip (si_bounds si) key) p"
    have len: "length (packed out c st) = PACKED_LIGHT_BYTES" using inv by (simp add: pack_inv_def)
    have nib: "nibble (packed out c st) (cell_slot p) = word_of_nat (level_at out c p)"
      using inv p by (simp add: pack_inv_def set_dense_cells flip: clip_def)
    have "sub_light_channel l c = light_from_packed (packed out c st)"
      using l by (cases c) (auto simp: light_def packed_def sub_light_channel_def sub_light_from_packed_def split: if_splits)
    then show "sub_light_get l c (nat (bp_x p mod 16)) (nat (bp_y p mod 16)) (nat (bp_z p mod 16)) = Some (word_of_nat (level_at out c p))"
      using wf_from_packed(2) [OF len, of "cell_slot p"] cell_slot_bound [of p] nib by (simp add: sub_light_get_def local_index_slot)
  next
    fix l assume l: "light = Some l"
    have "length (packed out Channel_Block st) = PACKED_LIGHT_BYTES" "length (packed out Channel_Sky st) = PACKED_LIGHT_BYTES"
      using inv by (simp_all add: pack_inv_def)
    then show "sl_generation l = mo_generation out \<and> light_wf (sl_block l) \<and> light_wf (sl_sky l)"
      using l wf_from_packed(1) by (auto simp: light_def packed_def sub_light_from_packed_def split: if_splits)
  qed
qed

end
