(* ===== verification/Light_Result.thy ===== *)
theory Light_Result
  imports Light_Freeze
begin

section \<open>The light of a region\<close>

text \<open>
  The entry points as their callers see them: reads of the result are the light field of the region,
  whatever light the cells had before and whatever an earlier solve left in the scratch queues.
\<close>

subsection \<open>The frozen sections\<close>

lemma section_keys_iff:
  "key \<in> set (section_keys b) \<longleftrightarrow> sk_dimension key = lb_dimension b \<and>
     bp_x (lb_min b) div 16 \<le> sk_x key \<and> sk_x key \<le> bp_x (lb_max b) div 16 \<and>
     bp_y (lb_min b) div 16 \<le> sk_y key \<and> sk_y key \<le> bp_y (lb_max b) div 16 \<and>
     bp_z (lb_min b) div 16 \<le> sk_z key \<and> sk_z key \<le> bp_z (lb_max b) div 16"
  by (cases key) (auto simp: section_keys_def split_position_def Let_def image_iff)

lemma section_of_cell: "bounds_contain b p \<Longrightarrow> section_of (lb_dimension b) p \<in> set (section_keys b)"
  unfolding section_keys_iff by (simp add: split_position_def bounds_contain_def zdiv_mono1)

lemma clip_axis:
  "mn \<le> mx \<Longrightarrow> mn div 16 \<le> k \<Longrightarrow> k \<le> mx div 16 \<Longrightarrow> max mn (k * 16) \<le> min mx (k * 16 + 15)" for mn :: int
  by linarith

lemma section_not_empty:
  assumes "valid_bounds b" and "key \<in> set (section_keys b)"
  shows "bounds_contain (section_clip b key) (lb_min (section_clip b key))"
  using assms unfolding section_keys_iff valid_bounds_def
  by (simp add: bounds_contain_def section_clip_def section_origin_def Let_def del: max.bounded_iff min.bounded_iff)
    (intro conjI clip_axis; simp)

lemma insert_all:
  assumes "bt_invar m"
  shows "bt_invar (fold (\<lambda>key m. case g key of None \<Rightarrow> m | Some l \<Rightarrow> bt_insert key l m) keys m) \<and>
    bt_get (fold (\<lambda>key m. case g key of None \<Rightarrow> m | Some l \<Rightarrow> bt_insert key l m) keys m) k =
      (if k \<in> set keys \<and> g k \<noteq> None then g k else bt_get m k)"
  using assms by (induction keys arbitrary: m) (auto simp: bt_get_insert split: option.split)

lemma freeze_spec:
  assumes ok: "solve_ok si V" and out: "out_ok si V out"
    and levels: "\<And>c p. bounds_contain (si_bounds si) p \<Longrightarrow> lev out c p \<le> 15"
  obtains r where "freeze out D stats = Some r" "so_dimension r = lb_dimension (si_bounds si)" "so_bounds r = si_bounds si"
    "so_direct r = D" "so_stats r = stats"
    "\<And>p c. bounds_contain (si_bounds si) p \<Longrightarrow> light_at r p c = level_at out c p"
    "\<And>key l. bt_get (so_sub_chunks r) key = Some l \<Longrightarrow> sl_generation l = mo_generation out"
proof -
  have b: "mo_bounds out = si_bounds si" using out by (simp add: out_ok_def)
  have v: "valid_bounds (si_bounds si)" using ok by (simp add: solve_ok_def region_def)
  define g where "g key = the (pack_section out key)" for key
  have g: "pack_section out key = Some (g key)" "g key = None \<longleftrightarrow>
      (\<forall>p. bounds_contain (section_clip (si_bounds si) key) p \<longrightarrow> \<not> mo_known out ! rank (si_bounds si) p)"
    "\<And>l p c. g key = Some l \<Longrightarrow> bounds_contain (section_clip (si_bounds si) key) p \<Longrightarrow>
      sub_light_get l c (nat (bp_x p mod 16)) (nat (bp_y p mod 16)) (nat (bp_z p mod 16)) = Some (word_of_nat (level_at out c p))"
    "\<And>l. g key = Some l \<Longrightarrow> sl_generation l = mo_generation out"
    if key: "key \<in> set (section_keys (si_bounds si))" for key
  proof -
    have dim: "sk_dimension key = lb_dimension (si_bounds si)" using key by (simp add: section_keys_iff)
    obtain light where light: "pack_section out key = Some light"
      "light = None \<longleftrightarrow> (\<forall>p. bounds_contain (section_clip (si_bounds si) key) p \<longrightarrow> \<not> mo_known out ! rank (si_bounds si) p)"
      "\<And>l p c. light = Some l \<Longrightarrow> bounds_contain (section_clip (si_bounds si) key) p \<Longrightarrow>
        sub_light_get l c (nat (bp_x p mod 16)) (nat (bp_y p mod 16)) (nat (bp_z p mod 16)) = Some (word_of_nat (level_at out c p))"
      "\<And>l. light = Some l \<Longrightarrow> sl_generation l = mo_generation out \<and> light_wf (sl_block l) \<and> light_wf (sl_sky l)"
      by (rule pack_section_spec [OF ok out levels dim section_not_empty [OF v key]]) (assumption, rule that)
    have "g key = light" by (simp add: g_def light(1))
    then show "pack_section out key = Some (g key)" "g key = None \<longleftrightarrow>
        (\<forall>p. bounds_contain (section_clip (si_bounds si) key) p \<longrightarrow> \<not> mo_known out ! rank (si_bounds si) p)"
      "\<And>l p c. g key = Some l \<Longrightarrow> bounds_contain (section_clip (si_bounds si) key) p \<Longrightarrow>
        sub_light_get l c (nat (bp_x p mod 16)) (nat (bp_y p mod 16)) (nat (bp_z p mod 16)) = Some (word_of_nat (level_at out c p))"
      "\<And>l. g key = Some l \<Longrightarrow> sl_generation l = mo_generation out"
      using light by blast+
  qed
  define m where "m = fold (\<lambda>key m. case g key of None \<Rightarrow> m | Some l \<Rightarrow> bt_insert key l m) (section_keys (si_bounds si)) bt_empty"
  have loop: "try_fold (\<lambda>key m. map_option (\<lambda>light. case light of None \<Rightarrow> m | Some l \<Rightarrow> bt_insert key l m) (pack_section out key))
      (section_keys (si_bounds si)) bt_empty = Some m"
    unfolding m_def by (rule try_fold_total) (simp add: g(1))
  have get: "bt_get m key = (if key \<in> set (section_keys (si_bounds si)) then g key else None)" for key
    using insert_all [of bt_empty g "section_keys (si_bounds si)" key] by (auto simp: m_def)
  define r where "r = \<lparr>so_dimension = lb_dimension (si_bounds si), so_bounds = si_bounds si, so_sub_chunks = m,
    so_direct = D, so_stats = stats\<rparr>"
  show thesis
  proof (rule that)
    show "freeze out D stats = Some r" by (simp add: freeze_def b loop r_def)
    show "so_dimension r = lb_dimension (si_bounds si)" "so_bounds r = si_bounds si" "so_direct r = D" "so_stats r = stats"
      by (simp_all add: r_def)
  next
    fix p c assume p: "bounds_contain (si_bounds si) p"
    define k where "k = section_of (lb_dimension (si_bounds si)) p"
    have key: "k \<in> set (section_keys (si_bounds si))" unfolding k_def by (rule section_of_cell [OF p])
    have "sk_dimension k = lb_dimension (si_bounds si)" by (simp add: k_def split_position_def)
    then have clip: "bounds_contain (section_clip (si_bounds si) k) p" using p clip_iff by (simp add: k_def)
    have split: "split_position (lb_dimension (si_bounds si)) p = (k, nat (bp_x p mod 16), nat (bp_y p mod 16), nat (bp_z p mod 16))"
      by (simp add: k_def split_position_def)
    have small: "unat (word_of_nat (level_at out c p) :: u8) = level_at out c p"
      using levels [OF p, of c] by (simp add: level_at_def unat_of_nat)
    show "light_at r p c = level_at out c p"
    proof (cases "g k")
      case None
      then have "\<not> mo_known out ! rank (si_bounds si) p" using g(2) [OF key] clip by blast
      then show ?thesis
        using p None by (simp add: light_at_def output_read_light_def r_def split get key level_at_def b)
    next
      case (Some l)
      then show ?thesis
        using p g(3) [OF key Some clip, of c] small by (simp add: light_at_def output_read_light_def r_def split get key)
    qed
  next
    fix key l assume "bt_get (so_sub_chunks r) key = Some l"
    then have "key \<in> set (section_keys (si_bounds si))" "g key = Some l"
      by (simp_all add: r_def get split: if_splits)
    then show "sl_generation l = mo_generation out" by (rule g(4))
  qed
qed

subsection \<open>What a solve leaves in its queues\<close>

text \<open>The queues a solve may leave behind, finished or stopped by an error at any point.\<close>

inductive left_queue :: "increase_queue \<Rightarrow> bool" where
  fresh: "left_queue empty_queue"
| reset: "left_queue q \<Longrightarrow> queue_reset q volume = Some q' \<Longrightarrow> left_queue q'"
| push: "left_queue q \<Longrightarrow> ie_index entry \<le> U32_MAX \<Longrightarrow> queue_push_back q entry count mx = Inr (q', count') \<Longrightarrow> left_queue q'"
| pop: "left_queue q \<Longrightarrow> queue_pop_front q = Some (entry, q') \<Longrightarrow> left_queue q'"

lemma scratch_reset:
  assumes "scratch_ok q" "queue_reset q volume = Some q'"
  shows "scratch_ok q'"
proof -
  have "volume \<le> U32_MAX" using assms(2) by (simp add: queue_reset_def split: if_splits)
  from queue_reset_clean [OF assms(1) this] assms(2) show ?thesis by (auto simp: scratch_ok_def)
qed

lemma scratch_push:
  assumes "scratch_ok q" "ie_index entry \<le> U32_MAX" "queue_push_back q entry count mx = Inr (q', count')"
  shows "scratch_ok q'"
proof -
  let ?i = "ie_index entry"
  have small: "?i mod 2 ^ 32 = ?i" using assms(2) by (simp add: U32_MAX_def)
  obtain mark where q': "iq_pending q' = (iq_pending q)[?i := mark]"
    "snd ` set (iq_entries q') = snd ` set (iq_entries q) \<union> (if iq_pending q ! ?i = 0 then {?i} else {})"
    using assms(3) small by (auto simp: queue_push_back_def Let_def result_simps split: if_splits)
  have "i \<in> snd ` set (iq_entries q')" if "i < length (iq_pending q)" "iq_pending q' ! i \<noteq> 0" for i
  proof (cases "i = ?i")
    case True
    then show ?thesis using assms(1) that(1) unfolding scratch_ok_def q'(2) by (cases "iq_pending q ! ?i = 0") auto
  next
    case False
    then show ?thesis using assms(1) that unfolding scratch_ok_def q'(2) by (auto simp: q'(1))
  qed
  then show ?thesis by (simp add: scratch_ok_def q'(1))
qed

lemma scratch_pop:
  assumes "scratch_ok q" "queue_pop_front q = Some (entry, q')"
  shows "scratch_ok q'"
proof -
  obtain p i rest where e: "iq_entries q = (p, i) # rest" and q': "q' = \<lparr>iq_entries = rest, iq_pending = (iq_pending q)[i := 0]\<rparr>"
    using assms(2) by (cases "iq_entries q") (auto simp: queue_pop_front_def)
  show ?thesis
    unfolding scratch_ok_def
  proof (intro allI impI)
    fix j assume j: "j < length (iq_pending q')" "iq_pending q' ! j \<noteq> 0"
    then have "j \<noteq> i" by (auto simp: q')
    then show "j \<in> snd ` set (iq_entries q')" using assms(1) j unfolding scratch_ok_def by (auto simp: e q')
  qed
qed

lemma left_queue_ok: "left_queue q \<Longrightarrow> scratch_ok q"
proof (induction rule: left_queue.induct)
  case fresh
  then show ?case by (simp add: scratch_ok_def empty_queue_def)
qed (blast intro: scratch_reset scratch_push scratch_pop)+

subsection \<open>The entry points\<close>

definition nibble_inputs :: "light_block_access \<Rightarrow> light_read_access \<Rightarrow> bool" where
  "nibble_inputs blocks prior \<longleftrightarrow> (\<forall>p. nibble_sample (ba_sample blocks p)) \<and>
     (\<forall>dim p c l d. ra_boundary prior dim p c = Boundary_Trusted l d \<longrightarrow> l \<le> 15)"

lemma solve_input_simps [simp]:
  "si_bounds (solve_input_of blocks prior b profile limits) = b"
  "si_prior (solve_input_of blocks prior b profile limits) = prior"
  "si_profile (solve_input_of blocks prior b profile limits) = profile"
  "si_limits (solve_input_of blocks prior b profile limits) = limits"
  "cb_source (si_blocks (solve_input_of blocks prior b profile limits)) = blocks"
  by (simp_all add: solve_input_of_def new_cached_blocks_def Let_def)

lemma solve_input_ok:
  assumes "region b V" "V \<le> U32_MAX" "nibble_inputs blocks prior"
  shows "solve_ok (solve_input_of blocks prior b profile limits) V"
  using assms unfolding solve_ok_def nibble_inputs_def by (simp add: solve_input_of_def new_cached_blocks_def Let_def)

text \<open>What a result is for its caller.\<close>

definition shows_field :: "solve_input \<Rightarrow> u64 \<Rightarrow> light_solve_output \<Rightarrow> bool" where
  "shows_field si generation out \<longleftrightarrow> so_dimension out = lb_dimension (si_bounds si) \<and> so_bounds out = si_bounds si \<and>
     (\<forall>p. if bounds_contain (si_bounds si) p
           then (\<forall>c. field_level si c p (light_at out p c)) \<and>
             (output_has_direct out (so_dimension out) p \<longleftrightarrow> lit si Channel_Sky p 15 True)
           else (\<forall>c. light_at out p c = 0) \<and> \<not> output_has_direct out (so_dimension out) p) \<and>
     (\<forall>key l. bt_get (so_sub_chunks out) key = Some l \<longrightarrow> sl_generation l = generation)"

lemma freeze_shows_field:
  assumes ok: "solve_ok si V" and seeds: "seeds_ok si" and holds: "holds_field si V out D"
    and generation: "mo_generation out = generation"
  shows "\<exists>r. freeze out D stats = Some r \<and> shows_field si generation r"
proof -
  have out: "out_ok si V out" and Dok: "set_ok si V D" using holds by (simp_all add: holds_field_def)
  have field: "field_level si c p (lev out c p)" "mo_known out ! rank (si_bounds si) p = (filt si p \<noteq> None)"
    "in_set D p \<longleftrightarrow> lit si Channel_Sky p 15 True" if "bounds_contain (si_bounds si) p" for p c
    using holds that Dok by (simp_all add: holds_field_def get_is_lev [OF out] in_set_def set_ok_def)
  have le: "lev out c p \<le> 15" if "bounds_contain (si_bounds si) p" for c p
    using field(1) [OF that, of c] lit_le [OF ok seeds] unfolding field_level_def by fastforce
  obtain r where r: "freeze out D stats = Some r" "so_dimension r = lb_dimension (si_bounds si)" "so_bounds r = si_bounds si"
    "so_direct r = D" "so_stats r = stats" "\<And>p c. bounds_contain (si_bounds si) p \<Longrightarrow> light_at r p c = level_at out c p"
    "\<And>key l. bt_get (so_sub_chunks r) key = Some l \<Longrightarrow> sl_generation l = mo_generation out"
    by (rule freeze_spec [OF ok out le]) (assumption, rule that)
  have b: "mo_bounds out = si_bounds si" using out by (simp add: out_ok_def)
  have "level_at out c p = lev out c p" if p: "bounds_contain (si_bounds si) p" for c p
  proof (cases "filt si p = None")
    case True
    then have "\<not> lit si c p l d" for l d using lit_cell by blast
    then have "lev out c p = 0" using field(1) [OF p, of c] by (simp add: field_level_def)
    then show ?thesis by (simp add: level_at_def)
  next
    case False
    then show ?thesis using field(2) [OF p] by (simp add: level_at_def b)
  qed
  then have "shows_field si generation r"
    unfolding shows_field_def
    using r(2-4,6,7) field(1,3) generation ds_contains_eq [OF ok Dok]
    by (simp add: output_has_direct_def light_at_def output_read_light_def)
  then show ?thesis using r(1) by blast
qed

section \<open>The generation of a solve\<close>

text \<open>
  No step of a solve changes the generation its buffers were created with.
\<close>

definition keeps :: "('s \<Rightarrow> bool) \<Rightarrow> ('e + 's) option \<Rightarrow> bool" where
  "keeps P m \<longleftrightarrow> (\<forall>s. m = Some (Inr s) \<longrightarrow> P s)"

lemma keeps_simps [simp]: "keeps P None" "keeps P (Some (Inl e))" "keeps P (Some (Inr s)) \<longleftrightarrow> P s"
  by (simp_all add: keeps_def)

lemma keeps_then_do: "keeps Q m \<Longrightarrow> (\<And>s. Q s \<Longrightarrow> keeps P (f s)) \<Longrightarrow> keeps P (then_do m f)"
  by (cases m rule: option.exhaust) (auto simp: keeps_def then_do_def split: sum.splits)

lemma keeps_for_each: "P s \<Longrightarrow> (\<And>x s. P s \<Longrightarrow> keeps P (f x s)) \<Longrightarrow> keeps P (for_each f xs s)"
proof (induction xs arbitrary: s)
  case (Cons x xs)
  show ?case
    unfolding for_each.simps
    by (rule keeps_then_do [OF Cons.prems(2) [OF Cons.prems(1)]]) (rule Cons.IH [OF _ Cons.prems(2)])
qed simp

lemma keeps_and_then: "(\<And>x. m = Inr x \<Longrightarrow> keeps P (Some (f x))) \<Longrightarrow> keeps P (Some (and_then m f))"
  by (cases m) simp_all

lemma generation_set [simp]: "mo_generation (set_at_index out i c v) = mo_generation out"
  by (simp add: set_at_index_def)

lemma keeps_if: "keeps P (Some (if b then x else y)) \<longleftrightarrow> (b \<longrightarrow> keeps P (Some x)) \<and> (\<not> b \<longrightarrow> keeps P (Some y))"
  by simp

text \<open>The loops keep what one round keeps, whether or not they return.\<close>

lemma keeps_darken_loop:
  assumes one: "\<And>st entry queue. P st \<Longrightarrow> keeps P (darken_one si entry (st\<lparr>dk_queue := queue\<rparr>))" and "P st"
  shows "keeps P (darken_loop si st)"
proof -
  have all: "si' = si \<longrightarrow> P st \<longrightarrow> keeps P (Some r)" if loop: "darken_loop si' st = Some r" for r si' st
  proof (rule darken_loop.raw_induct [where P = "\<lambda>si' st r. si' = si \<longrightarrow> P st \<longrightarrow> keeps P (Some r)", OF _ loop], goal_cases)
    case (1 loop si' st r)
    show ?case
    proof (intro impI)
      assume si: "si' = si" and st: "P st"
      show "keeps P (Some r)"
      proof (cases "dk_queue st")
        case Nil
        then show ?thesis using 1(2) st by auto
      next
        case (Cons entry queue)
        have round: "keeps P (darken_one si entry (st\<lparr>dk_queue := queue\<rparr>))" by (rule one [OF st])
        show ?thesis
          using 1 Cons round si by (auto simp: keeps_def split: option.splits sum.splits)
      qed
    qed
  qed
  show ?thesis
  proof (cases "darken_loop si st")
    case None
    then show ?thesis by simp
  next
    case (Some r)
    then show ?thesis using all [OF Some] assms(2) by simp
  qed
qed

lemma keeps_spread_loop:
  assumes one: "\<And>st entry queue. P st \<Longrightarrow> keeps P (spread_one si c entry (st\<lparr>sp_queue := queue\<rparr>))" and "P st"
  shows "keeps P (spread_loop si c st)"
proof -
  have all: "si' = si \<longrightarrow> c' = c \<longrightarrow> P st \<longrightarrow> keeps P (Some r)" if loop: "spread_loop si' c' st = Some r" for r si' c' st
  proof (rule spread_loop.raw_induct [where P = "\<lambda>si' c' st r. si' = si \<longrightarrow> c' = c \<longrightarrow> P st \<longrightarrow> keeps P (Some r)",
        OF _ loop], goal_cases)
    case (1 loop si' c' st r)
    show ?case
    proof (intro impI)
      assume si: "si' = si" and c: "c' = c" and st: "P st"
      show "keeps P (Some r)"
      proof (cases "queue_pop_front (sp_queue st)")
        case None
        then show ?thesis using 1(2) st by auto
      next
        case (Some popped)
        obtain entry queue where popped: "popped = (entry, queue)" by (rule prod.exhaust)
        have round: "keeps P (spread_one si c entry (st\<lparr>sp_queue := queue\<rparr>))" by (rule one [OF st])
        show ?thesis
          using 1 Some round si c by (auto simp: keeps_def popped split: option.splits sum.splits)
      qed
    qed
  qed
  show ?thesis
  proof (cases "spread_loop si c st")
    case None
    then show ?thesis by simp
  next
    case (Some r)
    then show ?thesis using all [OF Some] assms(2) by simp
  qed
qed

abbreviation gen_out :: "u64 \<Rightarrow> mutable_output \<Rightarrow> bool" where
  "gen_out g out \<equiv> mo_generation out = g"

lemma generation_load: "gen_out g out \<Longrightarrow> keeps (gen_out g) (load_cell si cell out)"
  unfolding load_cell_def
  by (auto split: prod.split option.split intro!: keeps_for_each keeps_and_then)

lemma generation_raise: "gen_out g out \<Longrightarrow> keeps (gen_out g) (raise_cell si i out)"
  unfolding raise_cell_def
  by (auto split: prod.split option.split intro!: keeps_for_each keeps_and_then)

lemma generation_push: "darken_push si p i c base old st = Inr st' \<Longrightarrow> mo_generation (dk_output st') = mo_generation (dk_output st)"
  by (auto simp: darken_push_def Let_def result_simps)

lemma generation_seed: "gen_out g (dk_output st) \<Longrightarrow> keeps (\<lambda>st. gen_out g (dk_output st)) (seed_darken_cell si cell st)"
  unfolding seed_darken_cell_def Let_def
  by (auto split: prod.split option.split simp del: if_split simp: keeps_if intro!: keeps_for_each keeps_and_then dest!: generation_push)

lemma generation_visit:
  "gen_out g (dk_output st) \<Longrightarrow> keeps (\<lambda>st. gen_out g (dk_output st)) (darken_visit si entry i d st)"
  unfolding darken_visit_def Let_def
  by (auto split: prod.split option.split simp: keeps_if intro!: keeps_and_then dest!: generation_push)

lemma generation_darken_one:
  "gen_out g (dk_output st) \<Longrightarrow> keeps (\<lambda>st. gen_out g (dk_output st)) (darken_one si entry st)"
  unfolding darken_one_def Let_def
  by (auto split: option.split intro!: keeps_for_each generation_visit)

lemma generation_spread_push: "spread_push si entry st = Inr st' \<Longrightarrow> mo_generation (sp_output st') = mo_generation (sp_output st)"
  by (auto simp: spread_push_def result_simps)

lemma generation_offer: "offer si c p i l d st = Inr st' \<Longrightarrow> mo_generation (sp_output st') = mo_generation (sp_output st)"
  by (auto simp: offer_def Let_def dest!: generation_spread_push split: if_splits)

lemma generation_halo:
  "gen_out g (sp_output st) \<Longrightarrow> keeps (\<lambda>st. gen_out g (sp_output st)) (seed_halo_cell si c p st)"
  unfolding seed_halo_cell_def Let_def
  by (auto split: prod.split option.split simp: keeps_def dest!: generation_offer)

lemma generation_spread_one:
  "gen_out g (sp_output st) \<Longrightarrow> keeps (\<lambda>st. gen_out g (sp_output st)) (spread_one si c entry st)"
  unfolding spread_one_def spread_visit_def Let_def
  by (auto split: prod.split option.split simp: keeps_if intro!: keeps_for_each keeps_and_then dest!: generation_offer)

lemma generation_propagate:
  "gen_out g (sp_output st) \<Longrightarrow> keeps (\<lambda>st. gen_out g (sp_output st)) (propagate si c st)"
  unfolding propagate_def seed_boundary_from_halo_def
  by (rule keeps_then_do [where Q = "\<lambda>st. gen_out g (sp_output st)"])
    (auto intro!: keeps_for_each generation_halo keeps_spread_loop generation_spread_one)

lemma generation_load_and_darken:
  "keeps (\<lambda>st. gen_out g (dk_output st)) (load_and_darken si g volume)"
  unfolding load_and_darken_def Let_def
proof (rule keeps_then_do [where Q = "gen_out g"], goal_cases)
  case 1
  show ?case by (intro keeps_for_each generation_load) (simp add: new_mutable_output_def)
next
  case (2 out)
  show ?case
    by (rule keeps_then_do [where Q = "\<lambda>st. gen_out g (dk_output st)"])
      (use 2 in \<open>auto intro!: keeps_for_each generation_seed keeps_darken_loop generation_darken_one\<close>)
qed

lemma generation_solve_cells: "keeps (\<lambda>(out, _, _). gen_out g out) (solve_cells si g volume bq sq)"
  unfolding solve_cells_def
  by (rule keeps_then_do [OF generation_load_and_darken], rule keeps_then_do [where Q = "gen_out g"],
      intro keeps_for_each generation_raise, assumption, assumption, rule keeps_then_do [where Q = "\<lambda>_. True"],
      simp add: keeps_def, (rule keeps_then_do, rule generation_propagate, simp)+, simp)

end
