(* ===== verification/Light_Solved.thy ===== *)
theory Light_Solved
  imports Light_Result
begin

section \<open>The properties of a solve\<close>

text \<open>
  The solve as its callers use it: it always returns, the errors it may return are named, what it
  returns is the light field of the region, and neither the light the cells had before nor the
  queues an earlier solve left behind can be seen in it.
\<close>

definition fair_scratch :: "light_solver_scratch \<Rightarrow> bool" where
  "fair_scratch scratch \<longleftrightarrow> left_queue (sc_block_increase scratch) \<and> left_queue (sc_sky_increase scratch)"

lemma fair_default [simp]: "fair_scratch default_scratch"
  by (simp add: fair_scratch_def default_scratch_def left_queue.fresh)

lemma solve_light_wp:
  assumes region: "region b V" "V \<le> U32_MAX" and nibbles: "nibble_inputs blocks prior" and scratch: "fair_scratch scratch"
    and si: "si = solve_input_of blocks prior b profile limits"
  shows "wp (\<lambda>e. if sl_max_voxels limits < V then e = Voxel_Limit_Exceeded V (sl_max_voxels limits) else solve_error si (35 * V) e)
    (\<lambda>out. V \<le> sl_max_voxels limits \<and> seeds_ok si \<and> shows_field si generation out)
    (solve_light_with_scratch blocks prior b generation profile limits scratch)"
proof -
  have ok: "solve_ok si V" unfolding si by (rule solve_input_ok [OF region nibbles])
  define clean :: increase_queue where "clean = \<lparr>iq_entries = [], iq_pending = replicate V 0\<rparr>"
  have reset: "queue_reset (sc_block_increase scratch) V = Some clean" "queue_reset (sc_sky_increase scratch) V = Some clean"
    using scratch region(2) unfolding fair_scratch_def clean_def by (blast intro: queue_reset_clean left_queue_ok)+
  have volume: "bounded_volume b limits =
      (if sl_max_voxels limits < V then Inl (Voxel_Limit_Exceeded V (sl_max_voxels limits)) else Inr V)"
    using region(1) by (simp add: bounded_volume_def region_def)
  show ?thesis
  proof (cases "sl_max_voxels limits < V")
    case True
    then show ?thesis by (simp add: solve_light_with_scratch_def volume)
  next
    case False
    then have run: "solve_light_with_scratch blocks prior b generation profile limits scratch =
        then_do (solve_cells si generation V clean clean) (\<lambda>(out, direct, stats). map_option Inr (freeze out direct stats))"
      by (simp add: solve_light_with_scratch_def volume reset si)
    note cells = solve_cells_wp [OF ok clean_def, of generation]
    obtain r where r: "solve_cells si generation V clean clean = Some r" using cells by (auto simp: wp_def split: option.splits)
    show ?thesis
    proof (cases r)
      case (Inl e)
      then show ?thesis using cells False by (simp add: run r then_do_def)
    next
      case (Inr result)
      obtain out D stats where result: "result = (out, D, stats)" by (rule prod_cases3)
      have holds: "seeds_ok si" "holds_field si V out D" using cells by (simp_all add: r Inr result)
      have "mo_generation out = generation"
        using generation_solve_cells [of generation si V clean clean] by (simp add: r Inr result)
      from freeze_shows_field [OF ok holds this] obtain shown where
        "freeze out D stats = Some shown" "shows_field si generation shown" by blast
      then show ?thesis using holds(1) False by (simp add: run r Inr result then_do_def)
    qed
  qed
qed

subsection \<open>The field sees no prior light inside the bounds\<close>

lemma lit_outside:
  assumes same: "si_blocks si' = si_blocks si" "si_bounds si' = si_bounds si" "si_profile si' = si_profile si"
    and halo: "\<And>p c. \<not> bounds_contain (si_bounds si) p \<Longrightarrow>
      ra_boundary (si_prior si') (lb_dimension (si_bounds si)) p c = ra_boundary (si_prior si) (lb_dimension (si_bounds si)) p c"
    and lit: "lit si c p l d"
  shows "lit si' c p l d"
proof -
  have base: "base_level si' c p = base_level si c p" for p
    by (auto simp: base_level_def same split: option.split light_channel.split)
  have halo: "halo_light si' c n = halo_light si c n" for n by (auto simp: halo_light_def same halo)
  have direct: "stays_direct si' c = stays_direct si c" by (intro ext) (simp add: stays_direct_def same)
  from lit show ?thesis
  proof (induction rule: lit.induct)
    case (source p f)
    then show ?case using lit.source [of si' p f c] by (simp add: same base)
  next
    case (halo p f offset n l d)
    then show ?case using lit.halo [of si' p f offset n c l d] by (simp add: same \<open>\<And>n. halo_light si' c n = halo_light si c n\<close> direct)
  next
    case (step p offset l d f)
    then show ?case using lit.step [of si' c p offset l d f] by (simp add: same direct)
  qed
qed

lemma shows_field_inside:
  assumes "shows_field si generation out" and "bounds_contain (si_bounds si) p"
  shows "field_level si c p (light_at out p c)"
    and "output_has_direct out (so_dimension out) p \<longleftrightarrow> lit si Channel_Sky p 15 True"
  using spec [OF conjunct1 [OF conjunct2 [OF conjunct2 [OF assms(1) [unfolded shows_field_def]]]], of p] assms(2)
  by simp_all

definition same_halo :: "light_bounds \<Rightarrow> light_read_access \<Rightarrow> light_read_access \<Rightarrow> bool" where
  "same_halo b prior prior' \<longleftrightarrow> (\<forall>p c. \<not> bounds_contain b p \<longrightarrow>
     ra_boundary prior (lb_dimension b) p c = ra_boundary prior' (lb_dimension b) p c)"

lemma same_field:
  assumes "same_halo b prior prior'"
    and shown: "shows_field (solve_input_of blocks prior b profile limits) generation out"
      "shows_field (solve_input_of blocks prior' b profile limits') generation' out'"
  shows "light_at out p c = light_at out' p c" "output_has_direct out dim p = output_has_direct out' dim p"
proof -
  let ?si = "solve_input_of blocks prior b profile limits" and ?si' = "solve_input_of blocks prior' b profile limits'"
  have blocks: "si_blocks ?si' = si_blocks ?si" by (simp add: solve_input_of_def)
  have there: "lit ?si' c p l d" if "lit ?si c p l d" for c p l d
    by (rule lit_outside [OF blocks _ _ _ that]) (use assms(1) in \<open>simp_all add: same_halo_def\<close>)
  have returns: "lit ?si c p l d" if "lit ?si' c p l d" for c p l d
    by (rule lit_outside [OF blocks [symmetric] _ _ _ that]) (use assms(1) in \<open>simp_all add: same_halo_def\<close>)
  have lit: "lit ?si c p l d = lit ?si' c p l d" for c p l d using there returns by blast
  have field: "field_level ?si c p l = field_level ?si' c p l" for c p l by (simp add: field_level_def lit)
  note shown = shown [unfolded shows_field_def solve_input_simps]
  show "light_at out p c = light_at out' p c"
  proof (cases "bounds_contain b p")
    case True
    then have "field_level ?si c p (light_at out p c)" "field_level ?si' c p (light_at out' p c)" using shown by simp_all
    then show ?thesis using field field_level_unique by blast
  next
    case False
    then show ?thesis using shown by simp
  qed
  have dims: "so_dimension out = lb_dimension b" "so_dimension out' = lb_dimension b" using shown by simp_all
  have "output_has_direct out (lb_dimension b) p \<longleftrightarrow> bounds_contain b p \<and> lit ?si Channel_Sky p 15 True"
    using spec [OF conjunct1 [OF conjunct2 [OF conjunct2 [OF shown(1)]]], of p] by (simp add: dims split: if_splits)
  moreover have "output_has_direct out' (lb_dimension b) p \<longleftrightarrow> bounds_contain b p \<and> lit ?si Channel_Sky p 15 True"
    using spec [OF conjunct1 [OF conjunct2 [OF conjunct2 [OF shown(2)]]], of p] by (simp add: dims lit split: if_splits)
  ultimately have "output_has_direct out (lb_dimension b) p = output_has_direct out' (lb_dimension b) p" by simp
  then show "output_has_direct out dim p = output_has_direct out' dim p"
    by (cases "dim = lb_dimension b") (simp_all add: output_has_direct_def dims)
qed

subsection \<open>An example region\<close>

text \<open>Twenty-seven cells of open air below the sky.\<close>

definition example_air :: light_block_access where
  "example_air = \<lparr>ba_sample = (\<lambda>_. Sample_Known_Air), ba_is_known = default_is_known (\<lambda>_. Sample_Known_Air),
     ba_sky_seed = (\<lambda>p. if bp_y p = 62 then 15 else 0), ba_sample_section = default_sample_section\<rparr>"

definition example_stale :: light_read_access where
  "example_stale = empty_light\<lparr>ra_read_light := (\<lambda>_ p _. if bp_y p = 61 then 9 else 2)\<rparr>"

abbreviation example_limits :: solver_limits where
  "example_limits \<equiv> \<lparr>sl_max_voxels = 27, sl_max_queue_entries = 945\<rparr>"

lemma example_nibbles: "nibble_inputs example_air empty_light" "nibble_inputs example_air example_stale"
  by (simp_all add: nibble_inputs_def nibble_sample_def example_air_def example_stale_def empty_light_def
      sample_emission_def sample_filter_def)

lemma example_stale_small: "ra_read_light example_stale dim p c \<le> 15"
  by (simp add: example_stale_def)

lemma example_small: "27 \<le> U32_MAX"
  by (simp add: U32_MAX_def)

lemmas example_facts = example_region example_small example_nibbles fair_default

lemma example_sky:
  "lit (solve_input_of example_air prior example_bounds (Overworld True) limits) Channel_Sky (Block_Pos 0 60 (-16)) 15 True"
proof -
  let ?si = "solve_input_of example_air prior example_bounds (Overworld True) limits"
  have inside: "bounds_contain (si_bounds ?si) (Block_Pos 0 y (-16))" if "60 \<le> y" "y \<le> 62" for y
    using that by (simp add: bounds_contain_def example_bounds_def)
  have air: "filt ?si p = Some 0" for p by (simp add: example_air_def sample_filter_def)
  have base: "base_level ?si Channel_Sky (Block_Pos 0 62 (-16)) = 15"
    unfolding base_level_def air by (simp add: example_air_def allows_sky_def)
  have "lit ?si Channel_Sky (Block_Pos 0 62 (-16)) 15 True"
    using lit.source [OF inside air, of 62 Channel_Sky] by (simp add: base direct_sky_down_def)
  moreover have fall: "lit ?si Channel_Sky (Block_Pos 0 y (-16)) 15 True"
    if "lit ?si Channel_Sky (Block_Pos 0 (y + 1) (-16)) 15 True" "60 \<le> y" "y \<le> 62" for y
    using lit.step [of ?si Channel_Sky "Block_Pos 0 y (-16)" "(0, 1, 0)" 15 True, OF _ inside air] that
    by (simp add: step_def NEIGHBOURS_def incoming_level_def stays_direct_def direct_sky_down_def)
  ultimately show ?thesis using fall [of 61] fall [of 60] by simp
qed

lemma example_solved:
  assumes "nibble_inputs example_air prior" "\<And>p c. ra_read_light prior 0 p c \<le> 15"
  shows "\<exists>out. solve_light_with_scratch example_air prior example_bounds generation (Overworld True) example_limits default_scratch
    = Some (Inr out)"
proof -
  let ?si = "solve_input_of example_air prior example_bounds (Overworld True) example_limits"
  have "seeds_ok ?si" "prior_ok ?si" using assms(2) by (simp_all add: seeds_ok_def prior_ok_def example_air_def example_bounds_def)
  then have "\<not> solve_error ?si (35 * 27) e" for e by (cases e) (simp_all add: solve_error_def)
  then show ?thesis
    using solve_light_wp [OF example_region example_small assms(1) fair_default refl, of example_limits "Overworld True" generation]
    by (auto simp: wp_def split: option.splits sum.splits)
qed

lemma example_reads:
  assumes "shows_field (solve_input_of example_air prior example_bounds (Overworld True) limits) generation out"
    and "nibble_inputs example_air prior"
  shows "light_at out (Block_Pos 0 60 (-16)) Channel_Sky = 15 \<and> output_has_direct out 0 (Block_Pos 0 60 (-16))"
proof -
  let ?si = "solve_input_of example_air prior example_bounds (Overworld True) limits" and ?p = "Block_Pos 0 60 (-16)"
  have ok: "solve_ok ?si 27" by (rule solve_input_ok [OF example_region example_small assms(2)])
  have seeds: "seeds_ok ?si" by (simp add: seeds_ok_def example_air_def)
  have p: "bounds_contain example_bounds ?p" by (simp add: bounds_contain_def example_bounds_def)
  have "so_dimension out = 0" using assms(1) by (simp add: shows_field_def example_bounds_def)
  moreover from this have "field_level ?si Channel_Sky ?p (light_at out ?p Channel_Sky)" "output_has_direct out 0 ?p"
    using shows_field_inside [OF assms(1), of ?p] p example_sky [of prior limits] by simp_all
  moreover from this(1) have "light_at out ?p Channel_Sky \<le> 15"
    using lit_le [OF ok seeds] unfolding field_level_def by fastforce
  ultimately show ?thesis using example_sky [of prior limits] unfolding field_level_def by (auto intro: antisym)
qed

subsection \<open>The properties\<close>

text \<open>
  C3. A solve that succeeds returns the light field: inside the bounds each channel of each cell reads
  the brightest light that reaches the cell, and direct sky is reported exactly where undimmed sky falls;
  outside, nothing is lit; every section carries the caller's generation.
\<close>
theorem solve_light_is_field:
  assumes "region b V" "V \<le> U32_MAX" "nibble_inputs blocks prior" "fair_scratch scratch"
    and "solve_light_with_scratch blocks prior b generation profile limits scratch = Some (Inr out)"
  shows "shows_field (solve_input_of blocks prior b profile limits) generation out"
  using solve_light_wp [OF assms(1-4) refl, of limits profile generation] by (simp add: assms(5))

theorem solve_light_is_field_witness:
  "\<exists>out. solve_light example_air empty_light example_bounds 7 (Overworld True) example_limits = Some (Inr out) \<and>
     light_at out (Block_Pos 0 60 (-16)) Channel_Sky = 15 \<and> output_has_direct out 0 (Block_Pos 0 60 (-16))"
proof -
  obtain out where out: "solve_light_with_scratch example_air empty_light example_bounds 7 (Overworld True) example_limits
      default_scratch = Some (Inr out)"
    using example_solved [OF example_nibbles(1)] by (auto simp: empty_light_def)
  from solve_light_is_field [OF example_region example_small example_nibbles(1) fair_default this]
  have "shows_field (solve_input_of example_air empty_light example_bounds (Overworld True) example_limits) 7 out" .
  from example_reads [OF this example_nibbles(1)] out show ?thesis by (auto simp: solve_light_def)
qed

text \<open>
  C7. A solve always returns, and a solve that fails says why: the region has more cells than the limit,
  the queues would outgrow a limit below 35 entries a cell, or a block's sky seed or a cell's earlier
  light exceeds 15.  It never panics, never loops, and no other error can come out.  The region has at most
  \<^verbatim>\<open>u32::MAX\<close> cells: beyond that \<^verbatim>\<open>IncreaseQueue::reset\<close> has its documented panic.
\<close>
theorem solve_light_returns:
  assumes "region b V" "V \<le> U32_MAX" "nibble_inputs blocks prior" "fair_scratch scratch"
  shows "\<exists>result. solve_light_with_scratch blocks prior b generation profile limits scratch = Some result \<and>
    (case result of
       Inr _ \<Rightarrow> V \<le> sl_max_voxels limits
     | Inl (Voxel_Limit_Exceeded n m) \<Rightarrow> n = V \<and> m = sl_max_voxels limits \<and> m < V
     | Inl (Queue_Limit_Exceeded m) \<Rightarrow> m = sl_max_queue_entries limits \<and> m < 35 * V
     | Inl (Light_Value_Out_Of_Range v) \<Rightarrow> 15 < v \<and>
         (\<exists>p. bounds_contain b p \<and> sample_filter (ba_sample blocks p) \<noteq> None \<and>
            (15 < ba_sky_seed blocks p \<or> (\<exists>c. 15 < ra_read_light prior (lb_dimension b) p c)))
     | Inl _ \<Rightarrow> False)"
proof -
  let ?si = "solve_input_of blocks prior b profile limits"
  have run: "wp (\<lambda>e. if sl_max_voxels limits < V then e = Voxel_Limit_Exceeded V (sl_max_voxels limits) else solve_error ?si (35 * V) e)
    (\<lambda>out. V \<le> sl_max_voxels limits \<and> seeds_ok ?si \<and> shows_field ?si generation out)
    (solve_light_with_scratch blocks prior b generation profile limits scratch)"
    by (rule solve_light_wp [OF assms refl])
  then obtain result where result: "solve_light_with_scratch blocks prior b generation profile limits scratch = Some result"
    by (auto simp: wp_def split: option.splits)
  have bad: "(\<not> seeds_ok ?si \<or> \<not> prior_ok ?si) \<longleftrightarrow>
      (\<exists>p. bounds_contain b p \<and> sample_filter (ba_sample blocks p) \<noteq> None \<and>
            (15 < ba_sky_seed blocks p \<or> (\<exists>c. 15 < ra_read_light prior (lb_dimension b) p c)))"
    by (simp add: seeds_ok_def prior_ok_def not_le) blast
  show ?thesis
  proof (cases result)
    case (Inl e)
    then show ?thesis
      using run bad
      by (cases e) (auto simp: result solve_error_def split: if_splits)
  next
    case (Inr out)
    then show ?thesis using run by (simp add: result)
  qed
qed

theorem solve_light_returns_witness:
  "solve_light_with_scratch example_air example_stale example_bounds 7 Nether
     \<lparr>sl_max_voxels = 26, sl_max_queue_entries = 945\<rparr> default_scratch = Some (Inl (Voxel_Limit_Exceeded 27 26))"
proof -
  let ?run = "solve_light_with_scratch example_air example_stale example_bounds 7 Nether
     \<lparr>sl_max_voxels = 26, sl_max_queue_entries = 945\<rparr> default_scratch"
  have bright: "\<not> 15 < ba_sky_seed example_air p" "\<not> 15 < ra_read_light example_stale dim p c" for p dim c
    using example_stale_small [of dim p c] by (simp_all add: example_air_def)
  obtain result where result: "?run = Some result" and reason: "case result of
       Inr _ \<Rightarrow> 27 \<le> (26 :: nat)
     | Inl (Voxel_Limit_Exceeded n m) \<Rightarrow> n = 27 \<and> m = 26 \<and> m < 27
     | Inl (Queue_Limit_Exceeded m) \<Rightarrow> m = 945 \<and> m < 35 * 27
     | Inl (Light_Value_Out_Of_Range v) \<Rightarrow> False
     | Inl _ \<Rightarrow> False"
    using solve_light_returns [OF example_region example_small example_nibbles(2) fair_default, of 7 Nether
      "\<lparr>sl_max_voxels = 26, sl_max_queue_entries = 945\<rparr>"]
    by (simp only: bright solver_limits.simps simp_thms ex_simps) blast
  then have "result = Inl (Voxel_Limit_Exceeded 27 26)"
    by (cases result; cases "projl result") auto
  then show ?thesis using result by simp
qed

text \<open>
  C9. Within its limits a solve succeeds: a region no larger than the voxel limit, 35 queue entries for
  each of its cells, sky seeds and earlier light of at most 15.  The region has at most \<^verbatim>\<open>u32::MAX\<close> cells: beyond
  that \<^verbatim>\<open>IncreaseQueue::reset\<close> has its documented panic.
\<close>
theorem solve_light_succeeds:
  assumes "region b V" "V \<le> U32_MAX" "nibble_inputs blocks prior" "fair_scratch scratch"
    and "V \<le> sl_max_voxels limits" "35 * V \<le> sl_max_queue_entries limits"
    and "\<forall>p. bounds_contain b p \<and> sample_filter (ba_sample blocks p) \<noteq> None \<longrightarrow>
      ba_sky_seed blocks p \<le> 15 \<and> (\<forall>c. ra_read_light prior (lb_dimension b) p c \<le> 15)"
  shows "\<exists>out. solve_light_with_scratch blocks prior b generation profile limits scratch = Some (Inr out)"
proof -
  let ?si = "solve_input_of blocks prior b profile limits"
  have seeds: "seeds_ok ?si" "prior_ok ?si" using assms(7) by (simp_all add: seeds_ok_def prior_ok_def)
  have "\<not> solve_error ?si (35 * V) e" for e
    using assms(6) seeds by (cases e) (simp_all add: solve_error_def)
  then show ?thesis
    using solve_light_wp [OF assms(1-4) refl, of limits profile generation] assms(5)
    by (auto simp: wp_def split: option.splits sum.splits)
qed

theorem solve_light_succeeds_witness:
  "\<exists>out. solve_light_with_scratch example_air example_stale example_bounds 7 (Overworld True) example_limits default_scratch
     = Some (Inr out)"
  by (rule solve_light_succeeds [OF example_region example_small example_nibbles(2) fair_default])
    (simp_all add: example_air_def example_stale_def)

text \<open>
  C8. A solve forgets the past: two solves of the same region and blocks with the same trusted light
  around it agree on every reading, whatever light the cells had before, whatever the limits and
  generations, and whatever earlier solves left in the scratch queues.
\<close>
theorem solve_light_history_independent:
  assumes "region b V" "V \<le> U32_MAX"
    and "nibble_inputs blocks prior" "fair_scratch scratch"
    and "nibble_inputs blocks prior'" "fair_scratch scratch'"
    and "same_halo b prior prior'"
    and "solve_light_with_scratch blocks prior b generation profile limits scratch = Some (Inr out)"
    and "solve_light_with_scratch blocks prior' b generation' profile limits' scratch' = Some (Inr out')"
  shows "(\<forall>p c. light_at out p c = light_at out' p c) \<and>
    (\<forall>dim p. output_has_direct out dim p = output_has_direct out' dim p)"
proof -
  have "shows_field (solve_input_of blocks prior b profile limits) generation out"
    "shows_field (solve_input_of blocks prior' b profile limits') generation' out'"
    using solve_light_wp [OF assms(1-4) refl, of limits profile generation] assms(8)
      solve_light_wp [OF assms(1,2,5,6) refl, of limits' profile generation'] assms(9) by simp_all
  from same_field [OF assms(7) this] show ?thesis by blast
qed


theorem solve_light_history_independent_witness:
  "\<exists>out out'. solve_light example_air empty_light example_bounds 7 (Overworld True) example_limits = Some (Inr out) \<and>
     solve_light example_air example_stale example_bounds 8 (Overworld True) example_limits = Some (Inr out') \<and>
     ra_read_light empty_light 0 (Block_Pos 0 61 (-16)) Channel_Block \<noteq> ra_read_light example_stale 0 (Block_Pos 0 61 (-16)) Channel_Block \<and>
     light_at out (Block_Pos 0 61 (-16)) Channel_Block = light_at out' (Block_Pos 0 61 (-16)) Channel_Block"
proof -
  have same: "same_halo example_bounds empty_light example_stale" by (simp add: same_halo_def example_stale_def)
  obtain out where out: "solve_light_with_scratch example_air empty_light example_bounds 7 (Overworld True) example_limits
      default_scratch = Some (Inr out)"
    using example_solved [OF example_nibbles(1)] by (auto simp: empty_light_def)
  obtain out' where out': "solve_light_with_scratch example_air example_stale example_bounds 8 (Overworld True) example_limits
      default_scratch = Some (Inr out')"
    using example_solved [OF example_nibbles(2) example_stale_small] by blast
  from solve_light_history_independent [OF example_region example_small example_nibbles(1) fair_default example_nibbles(2)
      fair_default same out out'] out out'
  show ?thesis by (auto simp: solve_light_def empty_light_def example_stale_def)
qed

end
