(* ===== verification/Light_Full.thy ===== *)
theory Light_Full
  imports Light_Solved Packed_Words
begin

section \<open>The full solve\<close>

text \<open>
  \<^verbatim>\<open>light_solver/full.rs\<close>: light from the blocks, sky seeds and trusted halo alone, without reading the
  light the cells had.  Cells live in a grid padded by one blocked cell on every side; direct sky is one
  pass down each column, the rest of a channel spreads from 15 down through one bucket per level.
  The bytes of the grids are natural numbers: they are only compared, joined by maximum and lowered
  with saturation.
\<close>

definition BLOCKED :: nat where "BLOCKED = 255"
definition LEVELS :: nat where "LEVELS = 16"

record full_input =
  fi_blocks :: light_block_access
  fi_prior :: light_read_access
  fi_bounds :: light_bounds
  fi_profile :: light_profile
  fi_limits :: solver_limits

record full_scratch =
  fs_filter :: "nat list"
  fs_block :: "nat list"
  fs_sky :: "nat list"
  fs_direct :: "bool list"
  fs_direct_above :: "bool list"
  fs_buckets :: "nat list list"
  fs_section :: "light_block_sample list"

definition default_full_scratch :: full_scratch where
  "default_full_scratch = \<lparr>fs_filter = [], fs_block = [], fs_sky = [], fs_direct = [], fs_direct_above = [],
     fs_buckets = replicate LEVELS [], fs_section = []\<rparr>"

subsection \<open>The padded grid\<close>

record light_grid =
  gr_x_len :: usize
  gr_y_len :: usize
  gr_z_len :: usize
  gr_x_step :: usize
  gr_y_step :: usize

definition new_grid :: "light_bounds \<Rightarrow> light_grid" where
  "new_grid b =
     (let x_len = light_axis_len (bp_x (lb_min b)) (bp_x (lb_max b));
          y_len = light_axis_len (bp_y (lb_min b)) (bp_y (lb_max b));
          z_len = light_axis_len (bp_z (lb_min b)) (bp_z (lb_max b));
          y_step = z_len + 2
      in \<lparr>gr_x_len = x_len, gr_y_len = y_len, gr_z_len = z_len, gr_x_step = (y_len + 2) * y_step, gr_y_step = y_step\<rparr>)"

definition grid_volume :: "light_grid \<Rightarrow> usize" where
  "grid_volume g = (gr_x_len g + 2) * gr_x_step g"

definition grid_index :: "light_grid \<Rightarrow> usize \<Rightarrow> usize \<Rightarrow> usize \<Rightarrow> usize" where
  "grid_index g x y z = (x + 1) * gr_x_step g + (y + 1) * gr_y_step g + z + 1"

definition grid_position :: "light_bounds \<Rightarrow> usize \<Rightarrow> usize \<Rightarrow> usize \<Rightarrow> block_pos" where
  "grid_position b x y z = Block_Pos (wrap_i32 (bp_x (lb_min b) + wrap_i32 (int x)))
     (wrap_i32 (bp_y (lb_min b) + wrap_i32 (int y))) (wrap_i32 (bp_z (lb_min b) + wrap_i32 (int z)))"

definition grid_steps :: "light_grid \<Rightarrow> int list" where
  "grid_steps g = [- int (gr_x_step g), int (gr_x_step g), - int (gr_y_step g), int (gr_y_step g), -1, 1]"

text \<open>\<^verbatim>\<open>wrapping_add_signed\<close> on a 64-bit size.\<close>

definition wrapping_step :: "usize \<Rightarrow> int \<Rightarrow> usize" where
  "wrapping_step cell s = nat ((int cell + s) mod 18446744073709551616)"

text \<open>The triples a nest of three loops runs through, outermost index first.\<close>

definition nest :: "'a list \<Rightarrow> 'a list \<Rightarrow> 'a list \<Rightarrow> ('a \<times> 'a \<times> 'a) list" where
  "nest xs ys zs = concat (map (\<lambda>x. concat (map (\<lambda>y. map (\<lambda>z. (x, y, z)) zs) ys)) xs)"

subsection \<open>Reading the blocks\<close>

definition read_cell :: "full_input \<Rightarrow> light_grid \<Rightarrow> sub_chunk_key \<Rightarrow> bool \<Rightarrow> block_pos \<Rightarrow> full_scratch \<Rightarrow> full_scratch outcome" where
  "read_cell fi g key bulk p fs =
     (let origin = section_origin key; mn = lb_min (fi_bounds fi);
          sample = (if bulk
            then fs_section fs ! (push_bit 8 (nat (bp_x p - bp_x origin)) OR push_bit 4 (nat (bp_z p - bp_z origin)) OR
                   nat (bp_y p - bp_y origin))
            else ba_sample (fi_blocks fi) p)
      in case sample_filter sample of
           None \<Rightarrow> Some (Inr fs)
         | Some f \<Rightarrow>
             let cell = grid_index g (nat (bp_x p - bp_x mn)) (nat (bp_y p - bp_y mn)) (nat (bp_z p - bp_z mn));
                 fs = fs\<lparr>fs_filter := (fs_filter fs)[cell := f], fs_block := (fs_block fs)[cell := sample_emission sample]\<rparr>;
                 seed = ba_sky_seed (fi_blocks fi) p
             in if seed > 15 then Some (Inl (Light_Value_Out_Of_Range seed))
                else Some (Inr (if allows_sky (fi_profile fi) then fs\<lparr>fs_sky := (fs_sky fs)[cell := seed - f]\<rparr> else fs)))"

definition read_section :: "full_input \<Rightarrow> light_grid \<Rightarrow> sub_chunk_key \<Rightarrow> full_scratch \<Rightarrow> full_scratch outcome" where
  "read_section fi g key fs =
     (case ba_sample_section (fi_blocks fi) key (fs_section fs) of (bulk, section) \<Rightarrow>
        for_each (read_cell fi g key bulk) (dense_cells (section_clip (fi_bounds fi) key)) (fs\<lparr>fs_section := section\<rparr>))"

definition read_blocks :: "full_input \<Rightarrow> light_grid \<Rightarrow> full_scratch \<Rightarrow> full_scratch outcome" where
  "read_blocks fi g fs = for_each (read_section fi g) (section_keys (fi_bounds fi))
     (fs\<lparr>fs_section := replicate BLOCKS_PER_SUB_CHUNK Sample_Unknown\<rparr>)"

subsection \<open>The halo\<close>

definition halo_channel :: "full_input \<Rightarrow> light_grid \<Rightarrow> nat \<Rightarrow> usize \<times> usize \<Rightarrow> usize \<Rightarrow> nat \<Rightarrow> block_pos \<Rightarrow>
    light_channel \<Rightarrow> full_scratch \<Rightarrow> full_scratch" where
  "halo_channel fi g direction column cell f n c fs =
     (if c = Channel_Sky \<and> \<not> allows_sky (fi_profile fi) then fs
      else case trusted_parts (ra_boundary (fi_prior fi) (lb_dimension (fi_bounds fi)) n c) of
        None \<Rightarrow> fs
      | Some (level, direct) \<Rightarrow>
          if level = 0 then fs
          else let incoming = level - max f 1;
                   fs = (case c of
                     Channel_Block \<Rightarrow> fs\<lparr>fs_block := (fs_block fs)[cell := max (fs_block fs ! cell) incoming]\<rparr>
                   | Channel_Sky \<Rightarrow> fs\<lparr>fs_sky := (fs_sky fs)[cell := max (fs_sky fs ! cell) incoming]\<rparr>)
               in if c = Channel_Sky \<and> direction = 3 \<and> direct_sky_down (fi_profile fi) \<and> level = 15 \<and> direct \<and> f = 0
                  then fs\<lparr>fs_direct_above := (fs_direct_above fs)[fst column * gr_z_len g + snd column := True]\<rparr>
                  else fs)"

definition halo_cell :: "full_input \<Rightarrow> light_grid \<Rightarrow> nat \<Rightarrow> usize \<times> usize \<times> usize \<Rightarrow> full_scratch \<Rightarrow> full_scratch" where
  "halo_cell fi g direction offsets fs =
     (case offsets of (x, y, z) \<Rightarrow>
        let cell = grid_index g x y z; f = fs_filter fs ! cell
        in if f = BLOCKED then fs
           else case checked_offset (grid_position (fi_bounds fi) x y z) (NEIGHBOURS ! direction) of
             None \<Rightarrow> fs
           | Some n \<Rightarrow>
               if \<not> ba_is_known (fi_blocks fi) n then fs
               else fold (halo_channel fi g direction (x, z) cell f n) both_channels fs)"

definition face_cells :: "light_grid \<Rightarrow> nat \<Rightarrow> (usize \<times> usize \<times> usize) list" where
  "face_cells g direction =
     (let xs = [0..<gr_x_len g]; ys = [0..<gr_y_len g]; zs = [0..<gr_z_len g]
      in if direction = 0 then nest [0..<1] ys zs
         else if direction = 1 then nest [gr_x_len g - 1..<gr_x_len g] ys zs
         else if direction = 2 then nest xs [0..<1] zs
         else if direction = 3 then nest xs [gr_y_len g - 1..<gr_y_len g] zs
         else if direction = 4 then nest xs ys [0..<1]
         else nest xs ys [gr_z_len g - 1..<gr_z_len g])"

definition seed_halo :: "full_input \<Rightarrow> light_grid \<Rightarrow> full_scratch \<Rightarrow> full_scratch" where
  "seed_halo fi g fs = fold (\<lambda>direction. fold (halo_cell fi g direction) (face_cells g direction)) [0..<6] fs"

subsection \<open>Direct sky\<close>

definition direct_step_down :: "light_grid \<Rightarrow> usize \<Rightarrow> usize \<Rightarrow> usize \<Rightarrow> bool \<times> full_scratch \<Rightarrow> bool \<times> full_scratch" where
  "direct_step_down g x z y state =
     (case state of (lit_from_above, fs) \<Rightarrow>
        let cell = grid_index g x y z;
            direct = (fs_filter fs ! cell = 0 \<and> (lit_from_above \<or> fs_sky fs ! cell = 15))
        in (direct, if direct then fs\<lparr>fs_sky := (fs_sky fs)[cell := 15], fs_direct := (fs_direct fs)[cell := True]\<rparr> else fs))"

definition fill_column :: "light_grid \<Rightarrow> usize \<Rightarrow> usize \<Rightarrow> full_scratch \<Rightarrow> full_scratch" where
  "fill_column g x z fs =
     snd (fold (direct_step_down g x z) (rev [0..<gr_y_len g]) (fs_direct_above fs ! (x * gr_z_len g + z), fs))"

definition fill_direct_sky :: "light_grid \<Rightarrow> full_scratch \<Rightarrow> full_scratch" where
  "fill_direct_sky g fs = fold (\<lambda>x. fold (fill_column g x) [0..<gr_z_len g]) [0..<gr_x_len g] fs"

subsection \<open>Spreading through buckets\<close>

record bucket_state =
  bk_values :: "nat list"
  bk_buckets :: "nat list list"
  bk_pending :: usize
  bk_total :: usize
  bk_stats :: light_solve_stats

definition can_raise :: "light_grid \<Rightarrow> nat list \<Rightarrow> nat list \<Rightarrow> usize \<Rightarrow> bool" where
  "can_raise g filter' values cell =
     list_ex (\<lambda>s. let next = wrapping_step cell s
       in filter' ! next \<noteq> BLOCKED \<and> values ! cell - max (filter' ! next) 1 > values ! next) (grid_steps g)"

text \<open>A counted push; the cell is cast to \<^verbatim>\<open>u32\<close>.\<close>

definition bucket_push :: "usize \<Rightarrow> nat \<Rightarrow> usize \<Rightarrow> bucket_state \<Rightarrow> light_solve_error + bucket_state" where
  "bucket_push mx level cell st =
     and_then (enqueue_counted (bk_total st) 1 mx) (\<lambda>count.
       Inr (st\<lparr>bk_total := count, bk_buckets := (bk_buckets st)[level := bk_buckets st ! level @ [cell mod 2 ^ 32]],
         bk_pending := bk_pending st + 1\<rparr>))"

definition seed_bucket :: "light_grid \<Rightarrow> nat list \<Rightarrow> usize \<Rightarrow> usize \<Rightarrow> bucket_state \<Rightarrow> bucket_state outcome" where
  "seed_bucket g filter' mx cell st =
     (if bk_values st ! cell > 1 \<and> filter' ! cell \<noteq> BLOCKED \<and> can_raise g filter' (bk_values st) cell
      then Some (bucket_push mx (bk_values st ! cell) cell st) else Some (Inr st))"

definition bucket_peak :: "bucket_state \<Rightarrow> bucket_state" where
  "bucket_peak st = st\<lparr>bk_stats := raise_peak (bk_pending st) (bk_stats st)\<rparr>"

definition spread_into :: "nat list \<Rightarrow> usize \<Rightarrow> nat \<Rightarrow> usize \<Rightarrow> int \<Rightarrow> bucket_state \<Rightarrow> bucket_state outcome" where
  "spread_into filter' mx level cell s st =
     (let next = wrapping_step cell s; next_filter = filter' ! next
      in if next_filter = BLOCKED then Some (Inr st)
         else let candidate = level - max next_filter 1
              in if candidate > bk_values st ! next
                 then let st = st\<lparr>bk_values := (bk_values st)[next := candidate]\<rparr>
                      in if candidate > 1 then Some (and_then (bucket_push mx candidate next st) (\<lambda>st. Inr (bucket_peak st)))
                         else Some (Inr st)
                 else Some (Inr st))"

text \<open>Counting a cell out of an empty count panics.\<close>

definition spread_cell :: "light_grid \<Rightarrow> nat list \<Rightarrow> usize \<Rightarrow> nat \<Rightarrow> usize \<Rightarrow> bucket_state \<Rightarrow> bucket_state outcome" where
  "spread_cell g filter' mx level cell st =
     (if bk_pending st = 0 then None
      else let st = st\<lparr>bk_pending := bk_pending st - 1\<rparr>
      in if bk_values st ! cell \<noteq> level then Some (Inr st)
         else for_each (spread_into filter' mx level cell) (grid_steps g)
                (st\<lparr>bk_stats := (bk_stats st)\<lparr>st_increase_dequeued := st_increase_dequeued (bk_stats st) + 1\<rparr>\<rparr>))"

definition bucket_pop :: "nat \<Rightarrow> bucket_state \<Rightarrow> (usize \<times> bucket_state) option" where
  "bucket_pop level st = (case bk_buckets st ! level of
     [] \<Rightarrow> None
   | bucket \<Rightarrow> Some (last bucket, st\<lparr>bk_buckets := (bk_buckets st)[level := butlast bucket]\<rparr>))"

partial_function (option) drain_bucket ::
    "light_grid \<Rightarrow> nat list \<Rightarrow> usize \<Rightarrow> nat \<Rightarrow> bucket_state \<Rightarrow> bucket_state outcome" where
  "drain_bucket g filter' mx level st = (case bucket_pop level st of
     None \<Rightarrow> Some (Inr st)
   | Some (cell, st) \<Rightarrow> (case spread_cell g filter' mx level cell st of
       None \<Rightarrow> None
     | Some r \<Rightarrow> (case r of Inl e \<Rightarrow> Some (Inl e) | Inr st' \<Rightarrow> drain_bucket g filter' mx level st')))"

definition grid_cells :: "light_grid \<Rightarrow> usize list" where
  "grid_cells g = concat (map (\<lambda>x. concat (map (\<lambda>y.
     (let row = grid_index g x y 0 in [row..<row + gr_z_len g])) [0..<gr_y_len g])) [0..<gr_x_len g])"

definition spread_buckets :: "light_grid \<Rightarrow> nat list \<Rightarrow> usize \<Rightarrow> bucket_state \<Rightarrow> bucket_state outcome" where
  "spread_buckets g filter' mx st =
     then_do (for_each (seed_bucket g filter' mx) (grid_cells g)
         (st\<lparr>bk_pending := 0, bk_buckets := map (\<lambda>_. []) (bk_buckets st)\<rparr>)) (\<lambda>st.
       for_each (drain_bucket g filter' mx) (rev [2..<LEVELS]) (bucket_peak st))"

subsection \<open>A whole solve\<close>

definition reset_full :: "light_grid \<Rightarrow> full_scratch \<Rightarrow> full_scratch" where
  "reset_full g fs = fs\<lparr>fs_filter := replicate (grid_volume g) BLOCKED, fs_block := replicate (grid_volume g) 0,
     fs_sky := replicate (grid_volume g) 0, fs_direct := replicate (grid_volume g) False,
     fs_direct_above := replicate (gr_x_len g * gr_z_len g) False\<rparr>"

definition emit_cell :: "nat list \<Rightarrow> nat list \<Rightarrow> nat list \<Rightarrow> bool list \<Rightarrow> nat \<times> usize \<Rightarrow>
    mutable_output \<times> dense_set \<Rightarrow> mutable_output \<times> dense_set" where
  "emit_cell filter' block sky direct entry state =
     (case entry of (dense, cell) \<Rightarrow> case state of (out, D) \<Rightarrow>
        if filter' ! cell \<noteq> BLOCKED
        then (set_at_index (set_at_index out dense Channel_Block (block ! cell)) dense Channel_Sky (sky ! cell),
              if direct ! cell then insert_at_index D dense else D)
        else (out, D))"

definition prepare_grids :: "full_input \<Rightarrow> light_grid \<Rightarrow> full_scratch \<Rightarrow> full_scratch outcome" where
  "prepare_grids fi g full =
     then_do (read_blocks fi g (reset_full g full)) (\<lambda>fs.
       let fs = seed_halo fi g fs
       in Some (Inr (if direct_sky_down (fi_profile fi) then fill_direct_sky g fs else fs)))"

definition spread_grids ::
    "full_input \<Rightarrow> u64 \<Rightarrow> usize \<Rightarrow> light_grid \<Rightarrow> full_scratch \<Rightarrow> (mutable_output \<times> dense_set \<times> light_solve_stats) outcome" where
  "spread_grids fi generation volume g fs =
     then_do (spread_buckets g (fs_filter fs) (sl_max_queue_entries (fi_limits fi))
         \<lparr>bk_values = fs_block fs, bk_buckets = fs_buckets fs, bk_pending = 0, bk_total = 0, bk_stats = no_stats\<rparr>) (\<lambda>st.
     then_do (if allows_sky (fi_profile fi)
         then spread_buckets g (fs_filter fs) (sl_max_queue_entries (fi_limits fi)) (st\<lparr>bk_values := fs_sky fs\<rparr>)
         else Some (Inr (st\<lparr>bk_values := fs_sky fs\<rparr>))) (\<lambda>st'.
       case fold (emit_cell (fs_filter fs) (bk_values st) (bk_values st') (fs_direct fs)) (enumerate 0 (grid_cells g))
         (new_mutable_output (fi_bounds fi) generation volume, new_dense_set (fi_bounds fi) volume)
       of (out, D) \<Rightarrow> Some (Inr (out, D, bk_stats st'))))"

definition full_cells :: "full_input \<Rightarrow> u64 \<Rightarrow> usize \<Rightarrow> full_scratch \<Rightarrow> (mutable_output \<times> dense_set \<times> light_solve_stats) outcome" where
  "full_cells fi generation volume full =
     (let g = new_grid (fi_bounds fi)
      in then_do (prepare_grids fi g full) (spread_grids fi generation volume g))"

definition solve_light_full_with_scratch ::
    "light_block_access \<Rightarrow> light_read_access \<Rightarrow> light_bounds \<Rightarrow> u64 \<Rightarrow> light_profile \<Rightarrow> solver_limits \<Rightarrow>
     full_scratch \<Rightarrow> light_solve_output outcome" where
  "solve_light_full_with_scratch blocks prior b generation profile limits full =
     (case bounded_volume b limits of
       Inl e \<Rightarrow> Some (Inl e)
     | Inr volume \<Rightarrow>
         then_do (full_cells \<lparr>fi_blocks = blocks, fi_prior = prior, fi_bounds = b, fi_profile = profile, fi_limits = limits\<rparr>
             generation volume full)
           (\<lambda>(out, direct, stats). map_option Inr (freeze out direct stats)))"

end
