(* ===== verification/Full_Grid.thy ===== *)
theory Full_Grid
  imports Light_Full
begin

section \<open>Positions of the padded grid\<close>

text \<open>
  A cell of the padded grid is a position at most one step outside the bounds; the grid's index of it is
  injective, and the six index steps are the six neighbours.
\<close>

definition padded :: "light_bounds \<Rightarrow> block_pos \<Rightarrow> bool" where
  "padded b p \<longleftrightarrow> bp_x (lb_min b) \<le> bp_x p + 1 \<and> bp_x p \<le> bp_x (lb_max b) + 1 \<and>
     bp_y (lb_min b) \<le> bp_y p + 1 \<and> bp_y p \<le> bp_y (lb_max b) + 1 \<and>
     bp_z (lb_min b) \<le> bp_z p + 1 \<and> bp_z p \<le> bp_z (lb_max b) + 1"

definition pad :: "light_bounds \<Rightarrow> block_pos \<Rightarrow> nat" where
  "pad b p = (nat (bp_x p - bp_x (lb_min b) + 1) * (y_len b + 2) + nat (bp_y p - bp_y (lb_min b) + 1)) * (z_len b + 2) +
     nat (bp_z p - bp_z (lb_min b) + 1)"

lemma grid_simps [simp]:
  "gr_x_len (new_grid b) = light_axis_len (bp_x (lb_min b)) (bp_x (lb_max b))"
  "gr_y_len (new_grid b) = y_len b" "gr_z_len (new_grid b) = z_len b"
  "gr_y_step (new_grid b) = z_len b + 2" "gr_x_step (new_grid b) = (y_len b + 2) * (z_len b + 2)"
  by (simp_all add: new_grid_def Let_def y_len_def z_len_def)

lemma padded_contain: "bounds_contain b p \<Longrightarrow> padded b p"
  by (simp add: bounds_contain_def padded_def)

lemma padded_step: "bounds_contain b p \<Longrightarrow> offset \<in> set NEIGHBOURS \<Longrightarrow> padded b (step p offset)"
  by (cases p) (auto simp: bounds_contain_def padded_def NEIGHBOURS_def step_def)

lemma pad_less:
  assumes "valid_bounds b" "padded b p"
  shows "pad b p < grid_volume (new_grid b)"
proof -
  have v: "bp_x (lb_min b) \<le> bp_x (lb_max b)" "bp_y (lb_min b) \<le> bp_y (lb_max b)" "bp_z (lb_min b) \<le> bp_z (lb_max b)"
    using assms(1) by (simp_all add: valid_bounds_def)
  have "nat (bp_x p - bp_x (lb_min b) + 1) < light_axis_len (bp_x (lb_min b)) (bp_x (lb_max b)) + 2"
    "nat (bp_y p - bp_y (lb_min b) + 1) < y_len b + 2" "nat (bp_z p - bp_z (lb_min b) + 1) < z_len b + 2"
    using assms(2) v by (auto simp: padded_def light_axis_len_def y_len_def z_len_def)
  then show ?thesis
    unfolding pad_def grid_volume_def grid_simps mult.assoc [symmetric] by (intro two_digits)
qed

lemma digits_inj:
  assumes "c < n" "c' < n" "a * n + c = a' * n + (c' :: nat)"
  shows "a = a' \<and> c = c'"
proof -
  have "(a * n + c) div n = a" "(a' * n + c') div n = a'" using assms(1,2) by simp_all
  then show ?thesis using assms by simp
qed

lemma pad_inj:
  assumes "valid_bounds b" "padded b p" "padded b q" "pad b p = pad b q"
  shows "p = q"
proof -
  have v: "bp_x (lb_min b) \<le> bp_x (lb_max b)" "bp_y (lb_min b) \<le> bp_y (lb_max b)" "bp_z (lb_min b) \<le> bp_z (lb_max b)"
    using assms(1) by (simp_all add: valid_bounds_def)
  have bound: "nat (bp_y r - bp_y (lb_min b) + 1) < y_len b + 2" "nat (bp_z r - bp_z (lb_min b) + 1) < z_len b + 2"
    if "padded b r" for r
    using that v by (auto simp: padded_def light_axis_len_def y_len_def z_len_def)
  have z: "nat (bp_x p - bp_x (lb_min b) + 1) * (y_len b + 2) + nat (bp_y p - bp_y (lb_min b) + 1) =
      nat (bp_x q - bp_x (lb_min b) + 1) * (y_len b + 2) + nat (bp_y q - bp_y (lb_min b) + 1) \<and>
      nat (bp_z p - bp_z (lb_min b) + 1) = nat (bp_z q - bp_z (lb_min b) + 1)"
    by (rule digits_inj [OF bound(2) bound(2)]) (use assms in \<open>simp_all add: pad_def\<close>)
  have y: "nat (bp_x p - bp_x (lb_min b) + 1) = nat (bp_x q - bp_x (lb_min b) + 1) \<and>
      nat (bp_y p - bp_y (lb_min b) + 1) = nat (bp_y q - bp_y (lb_min b) + 1)"
    by (rule digits_inj [OF bound(1) bound(1)]) (use assms z in simp_all)
  have "bp_x p = bp_x q" "bp_y p = bp_y q" "bp_z p = bp_z q"
    using y z assms(2,3) by (auto simp: padded_def)
  then show ?thesis by (cases p; cases q) simp
qed

lemma pad_eq_iff: "valid_bounds b \<Longrightarrow> padded b p \<Longrightarrow> padded b q \<Longrightarrow> pad b p = pad b q \<longleftrightarrow> p = q"
  using pad_inj by blast

subsection \<open>Offsets\<close>

definition offsets :: "light_bounds \<Rightarrow> block_pos \<Rightarrow> nat \<times> nat \<times> nat" where
  "offsets b p = (nat (bp_x p - bp_x (lb_min b)), nat (bp_y p - bp_y (lb_min b)), nat (bp_z p - bp_z (lb_min b)))"

definition at_offsets :: "light_bounds \<Rightarrow> nat \<times> nat \<times> nat \<Rightarrow> block_pos" where
  "at_offsets b o' = (case o' of (x, y, z) \<Rightarrow>
     Block_Pos (bp_x (lb_min b) + int x) (bp_y (lb_min b) + int y) (bp_z (lb_min b) + int z))"

definition in_grid :: "light_bounds \<Rightarrow> nat \<times> nat \<times> nat \<Rightarrow> bool" where
  "in_grid b o' \<longleftrightarrow> (case o' of (x, y, z) \<Rightarrow>
     x < light_axis_len (bp_x (lb_min b)) (bp_x (lb_max b)) \<and> y < y_len b \<and> z < z_len b)"

lemma at_offsets_contain: "in_grid b o' \<Longrightarrow> bounds_contain b (at_offsets b o')"
  by (auto simp: in_grid_def at_offsets_def bounds_contain_def light_axis_len_def y_len_def z_len_def split: prod.splits)

lemma at_of_offsets: "bounds_contain b p \<Longrightarrow> at_offsets b (offsets b p) = p"
  by (cases p) (simp add: at_offsets_def offsets_def bounds_contain_def)

lemma offsets_in_grid: "bounds_contain b p \<Longrightarrow> in_grid b (offsets b p)"
  by (auto simp: in_grid_def offsets_def bounds_contain_def light_axis_len_def y_len_def z_len_def)

lemma offsets_of_at: "offsets b (at_offsets b o') = o'"
  by (cases o') (simp add: at_offsets_def offsets_def)

lemma grid_index_at: "grid_index (new_grid b) x y z = pad b (at_offsets b (x, y, z))"
  by (simp add: grid_index_def pad_def at_offsets_def nat_add_distrib algebra_simps)

lemma grid_index_offsets:
  "bounds_contain b p \<Longrightarrow> grid_index (new_grid b) (nat (bp_x p - bp_x (lb_min b))) (nat (bp_y p - bp_y (lb_min b)))
     (nat (bp_z p - bp_z (lb_min b))) = pad b p"
  using at_of_offsets [of b p] by (simp add: grid_index_at offsets_def)

lemma wrap_offset:
  assumes "in_i32 m" "in_i32 (m + int x)"
  shows "wrap_i32 (m + wrap_i32 (int x)) = m + int x"
proof -
  have "wrap_i32 (m + wrap_i32 (int x)) = wrap_i32 (m + int x)"
    unfolding wrap_i32_def by (rule arg_cong [where f = "\<lambda>n. n - 2147483648"]) (simp add: mod_simps algebra_simps)
  then show ?thesis using wrap_i32_id [OF assms(2)] by simp
qed

lemma grid_position_at:
  assumes "valid_bounds b" "in_grid b (x, y, z)"
  shows "grid_position b x y z = at_offsets b (x, y, z)"
proof -
  have "in_i32 (bp_x (lb_min b) + int x)" "in_i32 (bp_y (lb_min b) + int y)" "in_i32 (bp_z (lb_min b) + int z)"
    using assms by (auto simp: valid_bounds_def in_grid_def light_axis_len_def y_len_def z_len_def in_i32_def)
  then show ?thesis
    using assms(1) by (simp add: grid_position_def at_offsets_def wrap_offset valid_bounds_def)
qed

lemma grid_cells_eq: "grid_cells (new_grid b) = map (pad b) (dense_cells b)"
proof -
  have shift: "[r..<r + n] = map (\<lambda>z. r + z) [0..<n]" for r n :: nat by (rule nth_equalityI) simp_all
  have next_cell: "pad b (at_offsets b (x, y, 0)) + z = pad b (at_offsets b (x, y, z))" for x y z
    by (simp add: pad_def at_offsets_def nat_add_distrib)
  have row: "[grid_index (new_grid b) x y 0..<grid_index (new_grid b) x y 0 + z_len b] =
      map (\<lambda>z. pad b (at_offsets b (x, y, z))) [0..<z_len b]" for x y
    unfolding grid_index_at by (subst shift) (rule map_cong; simp only: next_cell)
  show ?thesis
    unfolding grid_cells_def Let_def grid_simps row
    by (simp add: dense_cells_def upto_as_upt light_axis_len_def y_len_def z_len_def at_offsets_def map_concat comp_def)
qed

text \<open>The face a direction leaves through.\<close>

lemma set_nest: "set (nest xs ys zs) = set xs \<times> set ys \<times> set zs"
  by (auto simp: nest_def)

lemma face_cells_iff:
  assumes "valid_bounds b" "direction < 6"
  shows "o' \<in> set (face_cells (new_grid b) direction) \<longleftrightarrow>
    in_grid b o' \<and> \<not> bounds_contain b (step (at_offsets b o') (NEIGHBOURS ! direction))"
proof -
  obtain x y z where o': "o' = (x, y, z)" by (rule prod_cases3)
  have v: "bp_x (lb_min b) \<le> bp_x (lb_max b)" "bp_y (lb_min b) \<le> bp_y (lb_max b)" "bp_z (lb_min b) \<le> bp_z (lb_max b)"
    using assms(1) by (simp_all add: valid_bounds_def)
  consider "direction = 0" | "direction = 1" | "direction = 2" | "direction = 3" | "direction = 4" | "direction = 5"
    using assms(2) by linarith
  then show ?thesis
    by cases (use v in \<open>auto simp: o' face_cells_def Let_def set_nest in_grid_def at_offsets_def NEIGHBOURS_def step_def
        bounds_contain_def light_axis_len_def y_len_def z_len_def nth_Cons'\<close>)
qed

subsection \<open>Steps\<close>

lemma wrapping_step_id: "0 \<le> int cell + s \<Longrightarrow> int cell + s < 18446744073709551616 \<Longrightarrow> wrapping_step cell s = nat (int cell + s)"
  by (simp add: wrapping_step_def)

lemma pad_step:
  assumes v: "valid_bounds b" and small: "grid_volume (new_grid b) \<le> 2 ^ 32" and p: "bounds_contain b p"
  shows "map (wrapping_step (pad b p)) (grid_steps (new_grid b)) = map (\<lambda>offset. pad b (step p offset)) NEIGHBOURS"
proof -
  have step: "wrapping_step (pad b p) s = pad b (step p offset)"
    if "offset \<in> set NEIGHBOURS" "int (pad b p) + s = int (pad b (step p offset))" for s offset
  proof -
    have "pad b (step p offset) < 2 ^ 32" using pad_less [OF v padded_step [OF p that(1)]] small by simp
    then show ?thesis using that(2) by (simp add: wrapping_step_def)
  qed
  define X Y Z where "X = bp_x p - bp_x (lb_min b) + 1" and "Y = bp_y p - bp_y (lb_min b) + 1" and "Z = bp_z p - bp_z (lb_min b) + 1"
  have pos: "1 \<le> X" "1 \<le> Y" "1 \<le> Z" using p by (simp_all add: X_def Y_def Z_def bounds_contain_def)
  have pad: "int (pad b (step p (dx, dy, dz))) = ((X + dx) * int (y_len b + 2) + (Y + dy)) * int (z_len b + 2) + (Z + dz)"
    if "-1 \<le> dx" "-1 \<le> dy" "-1 \<le> dz" for dx dy dz
  proof -
    have nonneg: "0 \<le> X + dx" "0 \<le> Y + dy" "0 \<le> Z + dz" using that pos by linarith+
    have "pad b (step p (dx, dy, dz)) = (nat (X + dx) * (y_len b + 2) + nat (Y + dy)) * (z_len b + 2) + nat (Z + dz)"
      by (simp only: pad_def step_def X_def Y_def Z_def prod.case block_pos.sel) (simp add: algebra_simps)
    then show ?thesis by (simp only: of_nat_add of_nat_mult int_nat_eq nonneg if_True)
  qed
  have here: "int (pad b p) = (X * int (y_len b + 2) + Y) * int (z_len b + 2) + Z"
    using pad [of 0 0 0] by (simp add: step_def)
  show ?thesis
    unfolding grid_steps_def NEIGHBOURS_def list.map
    by (intro arg_cong2 [where f = Cons] refl step)
      (simp_all add: NEIGHBOURS_def pad here distrib_right distrib_left left_diff_distrib)
qed

lemma steps_cover:
  assumes "valid_bounds b" "grid_volume (new_grid b) \<le> 2 ^ 32" "bounds_contain b p"
  shows "s \<in> set (grid_steps (new_grid b)) \<Longrightarrow> \<exists>offset\<in>set NEIGHBOURS. wrapping_step (pad b p) s = pad b (step p offset)"
    and "offset \<in> set NEIGHBOURS \<Longrightarrow> \<exists>s\<in>set (grid_steps (new_grid b)). wrapping_step (pad b p) s = pad b (step p offset)"
proof -
  have eq: "wrapping_step (pad b p) ` set (grid_steps (new_grid b)) = (\<lambda>offset. pad b (step p offset)) ` set NEIGHBOURS"
    using arg_cong [OF pad_step [OF assms], of set] by simp
  show "\<exists>offset\<in>set NEIGHBOURS. wrapping_step (pad b p) s = pad b (step p offset)" if "s \<in> set (grid_steps (new_grid b))"
  proof -
    have "wrapping_step (pad b p) s \<in> (\<lambda>offset. pad b (step p offset)) ` set NEIGHBOURS" unfolding eq [symmetric] using that by (rule imageI)
    then show ?thesis by (elim imageE) (rule bexI)
  qed
  show "\<exists>s\<in>set (grid_steps (new_grid b)). wrapping_step (pad b p) s = pad b (step p offset)" if "offset \<in> set NEIGHBOURS"
  proof -
    have "pad b (step p offset) \<in> wrapping_step (pad b p) ` set (grid_steps (new_grid b))" unfolding eq using that by (rule imageI)
    then obtain s where "pad b (step p offset) = wrapping_step (pad b p) s" "s \<in> set (grid_steps (new_grid b))" by (rule imageE)
    then show ?thesis by (intro bexI [of _ s]) (rule sym)
  qed
qed

end
