(* ===== verification/Full_Read.thy ===== *)
theory Full_Read
  imports Full_Grid
begin

section \<open>The blocks in the padded grid\<close>

text \<open>
  What the code asks of its block source: a position is known when its sample is, and a section the source
  fills holds the samples it would return one by one.
\<close>

definition honest_source :: "i32 \<Rightarrow> light_block_access \<Rightarrow> bool" where
  "honest_source dimension blocks \<longleftrightarrow>
     (\<forall>p. ba_is_known blocks p \<longleftrightarrow> ba_sample blocks p \<noteq> Sample_Unknown) \<and>
     (\<forall>key out out'. ba_sample_section blocks key out = (True, out') \<longrightarrow> sk_dimension key = dimension \<longrightarrow>
        (\<forall>p. section_of dimension p = key \<longrightarrow> out' ! cell_slot p = ba_sample blocks p))"

abbreviation full_si :: "full_input \<Rightarrow> solve_input" where
  "full_si fi \<equiv> solve_input_of (fi_blocks fi) (fi_prior fi) (fi_bounds fi) (fi_profile fi) (fi_limits fi)"

definition full_ok :: "full_input \<Rightarrow> nat \<Rightarrow> bool" where
  "full_ok fi V \<longleftrightarrow> solve_ok (full_si fi) V \<and> grid_volume (new_grid (fi_bounds fi)) \<le> 2 ^ 32 \<and>
     honest_source (lb_dimension (fi_bounds fi)) (fi_blocks fi)"

lemma full_ok_facts:
  assumes "full_ok fi V"
  shows "solve_ok (full_si fi) V" "valid_bounds (fi_bounds fi)" "region (fi_bounds fi) V"
    "grid_volume (new_grid (fi_bounds fi)) \<le> 2 ^ 32"
  using assms unfolding full_ok_def solve_ok_def solve_input_simps region_def by blast+

text \<open>The errors of a full solve: seeds beyond a nibble, and a queue limit below its budget.\<close>

definition full_error :: "full_input \<Rightarrow> nat \<Rightarrow> light_solve_error \<Rightarrow> bool" where
  "full_error fi budget e = (case e of
     Queue_Limit_Exceeded m \<Rightarrow> m = sl_max_queue_entries (fi_limits fi) \<and> m < budget
   | Light_Value_Out_Of_Range v \<Rightarrow> v > 15 \<and> \<not> seeds_ok (full_si fi)
   | _ \<Rightarrow> False)"

abbreviation open_at :: "full_input \<Rightarrow> block_pos set" where
  "open_at fi \<equiv> open_cells (full_si fi)"

abbreviation filt_at :: "full_input \<Rightarrow> block_pos \<Rightarrow> nat option" where
  "filt_at fi p \<equiv> sample_filter (ba_sample (fi_blocks fi) p)"

lemma open_at_iff: "p \<in> open_at fi \<longleftrightarrow> bounds_contain (fi_bounds fi) p \<and> filt_at fi p \<noteq> None"
  by (simp add: open_cell_iff)

lemma filt_small: "full_ok fi V \<Longrightarrow> filt_at fi p = Some f \<Longrightarrow> f \<le> 15"
  unfolding full_ok_def solve_ok_def nibble_sample_def solve_input_simps by blast

subsection \<open>Grids as functions of a position\<close>

definition grid_is :: "light_bounds \<Rightarrow> 'a list \<Rightarrow> (block_pos \<Rightarrow> 'a) \<Rightarrow> bool" where
  "grid_is b xs f \<longleftrightarrow> length xs = grid_volume (new_grid b) \<and> (\<forall>p. padded b p \<longrightarrow> xs ! pad b p = f p)"

lemma grid_is_replicate: "valid_bounds b \<Longrightarrow> grid_is b (replicate (grid_volume (new_grid b)) v) (\<lambda>_. v)"
  by (simp add: grid_is_def pad_less)

lemma grid_is_update:
  assumes "valid_bounds b" "padded b p" "grid_is b xs f" "\<And>q. padded b q \<Longrightarrow> g q = (if q = p then v else f q)"
  shows "grid_is b (xs[pad b p := v]) g"
  using assms by (auto simp: grid_is_def nth_list_update pad_less pad_eq_iff)

lemma grid_is_cong: "grid_is b xs f \<Longrightarrow> (\<And>p. padded b p \<Longrightarrow> f p = g p) \<Longrightarrow> grid_is b xs g"
  by (simp add: grid_is_def)

lemma grid_is_nth: "grid_is b xs f \<Longrightarrow> padded b p \<Longrightarrow> xs ! pad b p = f p"
  by (simp add: grid_is_def)

subsection \<open>Reading\<close>

definition read_inv :: "full_input \<Rightarrow> full_scratch \<Rightarrow> block_pos set \<Rightarrow> full_scratch \<Rightarrow> bool" where
  "read_inv fi fs0 seen fs \<longleftrightarrow>
     grid_is (fi_bounds fi) (fs_filter fs) (\<lambda>p. if p \<in> seen \<inter> open_at fi then the (filt_at fi p) else BLOCKED) \<and>
     grid_is (fi_bounds fi) (fs_block fs) (\<lambda>p. if p \<in> seen \<inter> open_at fi then base_level (full_si fi) Channel_Block p else 0) \<and>
     grid_is (fi_bounds fi) (fs_sky fs) (\<lambda>p. if p \<in> seen \<inter> open_at fi then base_level (full_si fi) Channel_Sky p else 0) \<and>
     (\<forall>p\<in>seen \<inter> open_at fi. ba_sky_seed (fi_blocks fi) p \<le> 15) \<and>
     fs_direct fs = fs_direct fs0 \<and> fs_direct_above fs = fs_direct_above fs0 \<and> fs_buckets fs = fs_buckets fs0"

lemma read_inv_section [simp]: "read_inv fi fs0 seen (fs\<lparr>fs_section := section\<rparr>) = read_inv fi fs0 seen fs"
  by (simp add: read_inv_def)

lemma section_index:
  assumes "section_of dimension p = key"
  shows "push_bit 8 (nat (bp_x p - bp_x (section_origin key))) OR push_bit 4 (nat (bp_z p - bp_z (section_origin key))) OR
    nat (bp_y p - bp_y (section_origin key)) = cell_slot p"
proof -
  have local: "bp_x p - bp_x (section_origin key) = bp_x p mod 16" "bp_y p - bp_y (section_origin key) = bp_y p mod 16"
    "bp_z p - bp_z (section_origin key) = bp_z p mod 16"
    using assms by (auto simp: section_origin_def split_position_def minus_div_mult_eq_mod)
  have "push_bit 8 x OR push_bit 4 z OR y = 256 * x + 16 * z + y" if "y < 16" "z < 16" for x y z :: nat
  proof -
    have zy: "push_bit 4 z OR y = z * 16 + y" using push_or_nat [of y 4 z] that(1) by simp
    have "z * 16 + y < 2 ^ 8" using that by simp
    from push_or_nat [OF this, of x] show ?thesis by (simp add: zy or.assoc)
  qed
  then show ?thesis unfolding local cell_slot_def by simp
qed

lemma read_cell_keeps:
  assumes ok: "full_ok fi V" and p: "bounds_contain (fi_bounds fi) p" "section_of (lb_dimension (fi_bounds fi)) p = key"
    and bulk: "bulk \<Longrightarrow> fs_section fs ! cell_slot p = ba_sample (fi_blocks fi) p"
    and inv: "read_inv fi fs0 seen fs"
  shows "wp (full_error fi budget) (\<lambda>fs'. read_inv fi fs0 (insert p seen) fs' \<and> fs_section fs' = fs_section fs)
    (read_cell fi (new_grid (fi_bounds fi)) key bulk p fs)"
proof -
  note v = full_ok_facts(2) [OF ok]
  note pad = padded_contain [OF p(1)]
  have sample: "(if bulk then fs_section fs ! (push_bit 8 (nat (bp_x p - bp_x (section_origin key))) OR
      push_bit 4 (nat (bp_z p - bp_z (section_origin key))) OR nat (bp_y p - bp_y (section_origin key)))
      else ba_sample (fi_blocks fi) p) = ba_sample (fi_blocks fi) p"
    using bulk by (simp add: section_index [OF p(2)])
  show ?thesis
  proof (cases "filt_at fi p")
    case None
    then have "insert p seen \<inter> open_at fi = seen \<inter> open_at fi" by (auto simp: open_at_iff)
    then show ?thesis using inv by (simp only: read_cell_def Let_def sample None) (simp add: read_inv_def)
  next
    case (Some f)
    then have open_p: "p \<in> open_at fi" using p(1) by (simp add: open_at_iff)
    let ?seed = "ba_sky_seed (fi_blocks fi) p"
    have block: "base_level (full_si fi) Channel_Block p = sample_emission (ba_sample (fi_blocks fi) p)"
      and sky: "base_level (full_si fi) Channel_Sky p = (if allows_sky (fi_profile fi) then ?seed - f else 0)"
      by (simp_all add: base_level_def Some)
    show ?thesis
    proof (cases "?seed > 15")
      case True
      then have "\<not> seeds_ok (full_si fi)" using p(1) Some by (auto simp: seeds_ok_def not_le)
      then show ?thesis
        using True by (simp only: read_cell_def Let_def sample Some) (simp add: full_error_def)
    next
      case False
      let ?fs = "fs\<lparr>fs_filter := (fs_filter fs)[pad (fi_bounds fi) p := f],
        fs_block := (fs_block fs)[pad (fi_bounds fi) p := sample_emission (ba_sample (fi_blocks fi) p)]\<rparr>"
      let ?fs' = "if allows_sky (fi_profile fi) then ?fs\<lparr>fs_sky := (fs_sky fs)[pad (fi_bounds fi) p := ?seed - f]\<rparr> else ?fs"
      have run: "read_cell fi (new_grid (fi_bounds fi)) key bulk p fs = Some (Inr ?fs')"
        using False by (simp only: read_cell_def Let_def sample Some grid_index_offsets [OF p(1)]) simp
      have seen: "q \<in> insert p seen \<inter> open_at fi \<longleftrightarrow> q = p \<or> q \<in> seen \<inter> open_at fi" for q using open_p by auto
      note grids = inv [unfolded read_inv_def, THEN conjunct1] inv [unfolded read_inv_def, THEN conjunct2, THEN conjunct1]
        inv [unfolded read_inv_def, THEN conjunct2, THEN conjunct2, THEN conjunct1]
      have "read_inv fi fs0 (insert p seen) ?fs'"
        unfolding read_inv_def
      proof (intro conjI)
        show "grid_is (fi_bounds fi) (fs_filter ?fs')
            (\<lambda>q. if q \<in> insert p seen \<inter> open_at fi then the (filt_at fi q) else BLOCKED)"
          using grid_is_update [OF v pad grids(1)] open_p Some by simp
        show "grid_is (fi_bounds fi) (fs_block ?fs')
            (\<lambda>q. if q \<in> insert p seen \<inter> open_at fi then base_level (full_si fi) Channel_Block q else 0)"
          using grid_is_update [OF v pad grids(2)] open_p block by simp
        show "grid_is (fi_bounds fi) (fs_sky ?fs')
            (\<lambda>q. if q \<in> insert p seen \<inter> open_at fi then base_level (full_si fi) Channel_Sky q else 0)"
        proof (cases "allows_sky (fi_profile fi)")
          case True
          then show ?thesis
            using grid_is_update [OF v pad grids(3)] open_p sky by simp
        next
          case False
          then have dark: "base_level (full_si fi) Channel_Sky q = 0" for q by (simp add: base_level_def split: option.split)
          show ?thesis using grids(3) False by (simp add: dark cong: if_cong)
        qed
        show "\<forall>q\<in>insert p seen \<inter> open_at fi. ba_sky_seed (fi_blocks fi) q \<le> 15"
          using inv False by (auto simp: read_inv_def)
      qed (use inv in \<open>simp_all add: read_inv_def\<close>)
      then show ?thesis unfolding run by simp
    qed
  qed
qed

lemma read_section_keeps:
  assumes ok: "full_ok fi V" and key: "sk_dimension key = lb_dimension (fi_bounds fi)" and inv: "read_inv fi fs0 seen fs"
  shows "wp (full_error fi budget)
    (read_inv fi fs0 (seen \<union> {p. bounds_contain (fi_bounds fi) p \<and> section_of (lb_dimension (fi_bounds fi)) p = key}))
    (read_section fi (new_grid (fi_bounds fi)) key fs)"
proof -
  let ?clip = "section_clip (fi_bounds fi) key" and ?dim = "lb_dimension (fi_bounds fi)"
  obtain bulk samples where read: "ba_sample_section (fi_blocks fi) key (fs_section fs) = (bulk, samples)"
    by (rule prod.exhaust)
  have same: "samples ! cell_slot p = ba_sample (fi_blocks fi) p" if bulk "section_of ?dim p = key" for p
  proof -
    have "ba_sample_section (fi_blocks fi) key (fs_section fs) = (True, samples)" using read that(1) by simp
    then show ?thesis using ok that(2) key unfolding full_ok_def honest_source_def by blast
  qed
  have cells: "set (dense_cells ?clip) = {p. bounds_contain (fi_bounds fi) p \<and> section_of ?dim p = key}"
    by (simp add: set_dense_cells clip_iff [OF key])
  have "wp (full_error fi budget) (\<lambda>fs'. read_inv fi fs0 (seen \<union> set (dense_cells ?clip)) fs' \<and> fs_section fs' = samples)
      (for_each (read_cell fi (new_grid (fi_bounds fi)) key bulk) (dense_cells ?clip) (fs\<lparr>fs_section := samples\<rparr>))"
  proof (rule wp_for_each [where I = "\<lambda>seen' fs'. read_inv fi fs0 (seen \<union> set seen') fs' \<and> fs_section fs' = samples"])
    show "read_inv fi fs0 (seen \<union> set []) (fs\<lparr>fs_section := samples\<rparr>) \<and>
        fs_section (fs\<lparr>fs_section := samples\<rparr>) = samples" using inv by simp
  next
    fix seen' p todo fs'
    assume split: "dense_cells ?clip = seen' @ p # todo" and inv: "read_inv fi fs0 (seen \<union> set seen') fs' \<and> fs_section fs' = samples"
    have "p \<in> set (dense_cells ?clip)" by (simp add: split)
    then have p: "bounds_contain (fi_bounds fi) p" "section_of ?dim p = key" by (simp_all add: cells)
    show "wp (full_error fi budget) (\<lambda>fs'. read_inv fi fs0 (seen \<union> set (seen' @ [p])) fs' \<and> fs_section fs' = samples)
        (read_cell fi (new_grid (fi_bounds fi)) key bulk p fs')"
      using read_cell_keeps [OF ok p _ conjunct1 [OF inv], of bulk] same p(2) inv by simp
  qed
  then show ?thesis unfolding read_section_def read prod.case cells by (rule wp_mono) simp
qed

lemma read_blocks_keeps:
  assumes ok: "full_ok fi V" and inv: "read_inv fi fs0 {} fs"
  shows "wp (full_error fi budget) (read_inv fi fs0 {p. bounds_contain (fi_bounds fi) p})
    (read_blocks fi (new_grid (fi_bounds fi)) fs)"
proof -
  let ?dim = "lb_dimension (fi_bounds fi)" and ?keys = "section_keys (fi_bounds fi)"
  define cells where "cells = (\<lambda>keys. {p. bounds_contain (fi_bounds fi) p \<and> section_of ?dim p \<in> set keys})"
  have "wp (full_error fi budget) (read_inv fi fs0 (cells ?keys)) (read_blocks fi (new_grid (fi_bounds fi)) fs)"
    unfolding read_blocks_def
  proof (rule wp_for_each [where I = "\<lambda>keys. read_inv fi fs0 (cells keys)"])
    show "read_inv fi fs0 (cells []) (fs\<lparr>fs_section := replicate BLOCKS_PER_SUB_CHUNK Sample_Unknown\<rparr>)"
      using inv by (simp add: cells_def)
  next
    fix keys key todo fs'
    assume split: "?keys = keys @ key # todo" and inv: "read_inv fi fs0 (cells keys) fs'"
    have "key \<in> set ?keys" by (simp add: split)
    then have key: "sk_dimension key = ?dim" by (simp add: section_keys_iff)
    have "cells (keys @ [key]) = cells keys \<union> {p. bounds_contain (fi_bounds fi) p \<and> section_of ?dim p = key}"
      by (auto simp: cells_def)
    then show "wp (full_error fi budget) (read_inv fi fs0 (cells (keys @ [key]))) (read_section fi (new_grid (fi_bounds fi)) key fs')"
      using read_section_keeps [OF ok key inv] by simp
  qed
  moreover have "cells ?keys = {p. bounds_contain (fi_bounds fi) p}"
    using section_of_cell [of "fi_bounds fi"] by (auto simp: cells_def)
  ultimately show ?thesis by simp
qed

end
