(* ===== verification/Full_Halo.thy ===== *)
theory Full_Halo
  imports Full_Read
begin

section \<open>The halo and direct sky in the padded grid\<close>

text \<open>
  After the halo every open cell holds at least its own source and all that trusted neighbours outside the
  bounds send in, and no more than the field; after the pass down the columns exactly the cells of direct
  sky are marked.
\<close>

abbreviation channel_grid :: "light_channel \<Rightarrow> full_scratch \<Rightarrow> nat list" where
  "channel_grid c fs \<equiv> (case c of Channel_Block \<Rightarrow> fs_block fs | Channel_Sky \<Rightarrow> fs_sky fs)"

definition value_at :: "full_input \<Rightarrow> light_channel \<Rightarrow> full_scratch \<Rightarrow> block_pos \<Rightarrow> nat" where
  "value_at fi c fs p = channel_grid c fs ! pad (fi_bounds fi) p"

definition filters_read :: "full_input \<Rightarrow> full_scratch \<Rightarrow> bool" where
  "filters_read fi fs \<longleftrightarrow> grid_is (fi_bounds fi) (fs_filter fs) (\<lambda>p. if p \<in> open_at fi then the (filt_at fi p) else BLOCKED)"

definition top_cell :: "light_bounds \<Rightarrow> block_pos \<Rightarrow> bool" where
  "top_cell b p \<longleftrightarrow> bounds_contain b p \<and> bp_y p = bp_y (lb_max b)"

definition column_of :: "light_bounds \<Rightarrow> block_pos \<Rightarrow> nat" where
  "column_of b p = nat (bp_x p - bp_x (lb_min b)) * z_len b + nat (bp_z p - bp_z (lb_min b))"

lemma column_of_less: "bounds_contain b p \<Longrightarrow> column_of b p < light_axis_len (bp_x (lb_min b)) (bp_x (lb_max b)) * z_len b"
  unfolding column_of_def by (rule two_digits) (auto simp: bounds_contain_def light_axis_len_def z_len_def)

lemma column_of_inj:
  assumes "top_cell b p" "top_cell b q" "column_of b p = column_of b q"
  shows "p = q"
proof -
  have "nat (bp_z r - bp_z (lb_min b)) < z_len b" if "top_cell b r" for r
    using that by (auto simp: top_cell_def bounds_contain_def light_axis_len_def z_len_def)
  note z = this [OF assms(1)] this [OF assms(2)]
  from digits_inj [OF z, of "nat (bp_x p - bp_x (lb_min b))" "nat (bp_x q - bp_x (lb_min b))"] assms
  show ?thesis by (cases p; cases q) (auto simp: column_of_def top_cell_def bounds_contain_def)
qed

text \<open>Trusted direct sky enters a cell from above, outside the bounds.\<close>

definition above_lit :: "full_input \<Rightarrow> block_pos \<Rightarrow> bool" where
  "above_lit fi p \<longleftrightarrow> p \<in> open_at fi \<and> (\<exists>n l d. checked_offset p (0, 1, 0) = Some n \<and>
     halo_light (full_si fi) Channel_Sky n = Some (l, d) \<and> stays_direct (full_si fi) Channel_Sky (the (filt_at fi p)) (0, 1, 0) l d)"

definition took_halo :: "full_input \<Rightarrow> light_channel \<Rightarrow> nat \<Rightarrow> block_pos \<Rightarrow> full_scratch \<Rightarrow> bool" where
  "took_halo fi c direction p fs \<longleftrightarrow> (\<forall>n l d. checked_offset p (NEIGHBOURS ! direction) = Some n \<and>
     halo_light (full_si fi) c n = Some (l, d) \<longrightarrow> l - max (the (filt_at fi p)) 1 \<le> value_at fi c fs p)"

definition halo_inv :: "full_input \<Rightarrow> full_scratch \<Rightarrow> (light_channel \<times> nat \<times> block_pos) set \<Rightarrow> full_scratch \<Rightarrow> bool" where
  "halo_inv fi fs0 seen fs \<longleftrightarrow>
     fs_filter fs = fs_filter fs0 \<and> fs_direct fs = fs_direct fs0 \<and> fs_buckets fs = fs_buckets fs0 \<and>
     (\<forall>c. length (channel_grid c fs) = grid_volume (new_grid (fi_bounds fi))) \<and>
     length (fs_direct_above fs) = light_axis_len (bp_x (lb_min (fi_bounds fi))) (bp_x (lb_max (fi_bounds fi))) * z_len (fi_bounds fi) \<and>
     (\<forall>c. \<forall>p\<in>open_at fi. base_level (full_si fi) c p \<le> value_at fi c fs p \<and> within_field (full_si fi) c p (value_at fi c fs p) \<and>
        (value_at fi c fs p = 15 \<longrightarrow> base_level (full_si fi) c p = 15)) \<and>
     (\<forall>(c, direction, p)\<in>seen. p \<in> open_at fi \<longrightarrow> took_halo fi c direction p fs) \<and>
     (\<forall>p. top_cell (fi_bounds fi) p \<longrightarrow>
        fs_direct_above fs ! column_of (fi_bounds fi) p = ((Channel_Sky, 3, p) \<in> seen \<and> above_lit fi p))"

text \<open>Raising one cell of one channel.\<close>

definition raise_grid :: "light_channel \<Rightarrow> usize \<Rightarrow> nat \<Rightarrow> full_scratch \<Rightarrow> full_scratch" where
  "raise_grid c cell v fs = (case c of
     Channel_Block \<Rightarrow> fs\<lparr>fs_block := (fs_block fs)[cell := max (fs_block fs ! cell) v]\<rparr>
   | Channel_Sky \<Rightarrow> fs\<lparr>fs_sky := (fs_sky fs)[cell := max (fs_sky fs ! cell) v]\<rparr>)"

lemma raise_grid_simps [simp]:
  "fs_filter (raise_grid c cell v fs) = fs_filter fs" "fs_direct (raise_grid c cell v fs) = fs_direct fs"
  "fs_buckets (raise_grid c cell v fs) = fs_buckets fs" "fs_direct_above (raise_grid c cell v fs) = fs_direct_above fs"
  "length (channel_grid c' (raise_grid c cell v fs)) = length (channel_grid c' fs)"
  by (cases c; cases c'; simp add: raise_grid_def)+

lemma value_raise:
  assumes "valid_bounds (fi_bounds fi)" "padded (fi_bounds fi) p" "padded (fi_bounds fi) q"
    and "length (channel_grid c fs) = grid_volume (new_grid (fi_bounds fi))"
  shows "value_at fi c' (raise_grid c (pad (fi_bounds fi) p) v fs) q =
    (if c' = c \<and> q = p then max (value_at fi c fs p) v else value_at fi c' fs q)"
  using assms(4) pad_less [OF assms(1,2)] pad_eq_iff [OF assms(1-3)]
  by (cases c; cases c'; auto simp: value_at_def raise_grid_def nth_list_update)

lemma stays_up:
  "stays_direct (full_si fi) c f (0, 1, 0) l d \<longleftrightarrow> c = Channel_Sky \<and> direct_sky_down (fi_profile fi) \<and> l = 15 \<and> d \<and> f = 0"
  by (simp add: stays_direct_def)

lemma halo_channel_eq:
  assumes "\<not> bounds_contain (fi_bounds fi) n" "filt_at fi n \<noteq> None"
  shows "halo_channel fi g direction column cell f n c fs =
    (case halo_light (full_si fi) c n of
       None \<Rightarrow> fs
     | Some (l, d) \<Rightarrow> if l = 0 then fs
         else let fs = raise_grid c cell (l - max f 1) fs
              in if direction = 3 \<and> stays_direct (full_si fi) c f (0, 1, 0) l d
                 then fs\<lparr>fs_direct_above := (fs_direct_above fs)[fst column * gr_z_len g + snd column := True]\<rparr> else fs)"
  using assms
  by (cases c)
    (auto simp: halo_channel_def halo_light_def raise_grid_def stays_direct_def Let_def split: option.split prod.split)

lemma halo_channel_keeps:
  assumes ok: "full_ok fi V" and p: "p \<in> open_at fi" and face: "\<not> bounds_contain (fi_bounds fi) n"
    and n: "checked_offset p (NEIGHBOURS ! direction) = Some n" "filt_at fi n \<noteq> None" and direction: "direction < 6"
    and inv: "halo_inv fi fs0 seen fs"
  shows "halo_inv fi fs0 (insert (c, direction, p) seen)
    (halo_channel fi (new_grid (fi_bounds fi)) direction (nat (bp_x p - bp_x (lb_min (fi_bounds fi))), nat (bp_z p - bp_z (lb_min (fi_bounds fi))))
      (pad (fi_bounds fi) p) (the (filt_at fi p)) n c fs)" (is "halo_inv fi fs0 ?seen ?run")
proof -
  note okf = full_ok_facts [OF ok]
  have b: "bounds_contain (fi_bounds fi) p" using p by (simp add: open_at_iff)
  obtain f where f: "filt_at fi p = Some f" using p by (auto simp: open_at_iff)
  note pad = padded_contain [OF b]
  have "length NEIGHBOURS = 6" by (simp add: NEIGHBOURS_def)
  then have offset: "NEIGHBOURS ! direction \<in> set NEIGHBOURS" using direction nth_mem [of direction NEIGHBOURS] by simp
  have len: "length (channel_grid c fs) = grid_volume (new_grid (fi_bounds fi))" for c using inv by (simp add: halo_inv_def)
  have above: "fs_direct_above fs ! column_of (fi_bounds fi) q = ((Channel_Sky, 3, q) \<in> seen \<and> above_lit fi q)"
    if "top_cell (fi_bounds fi) q" for q using inv that by (simp add: halo_inv_def)
  have cells: "base_level (full_si fi) c' q \<le> value_at fi c' fs q" "within_field (full_si fi) c' q (value_at fi c' fs q)"
    "value_at fi c' fs q = 15 \<Longrightarrow> base_level (full_si fi) c' q = 15" if "q \<in> open_at fi" for c' q
    using inv that by (simp_all add: halo_inv_def)
  have took: "took_halo fi c' d' q fs" if "(c', d', q) \<in> seen" "q \<in> open_at fi" for c' d' q
    using inv that by (auto simp: halo_inv_def)
  have up: "NEIGHBOURS ! 3 = (0, 1, 0)" by (simp add: NEIGHBOURS_def)
  have top: "direction = 3 \<Longrightarrow> top_cell (fi_bounds fi) p"
    using b face checked_offset_step [OF n(1)] by (cases p) (auto simp: top_cell_def bounds_contain_def up step_def)
  show ?thesis
  proof (cases "halo_light (full_si fi) c n")
    case None
    have "took_halo fi c direction p fs" using n(1) None by (simp add: took_halo_def)
    moreover have "\<not> above_lit fi p" if "c = Channel_Sky" "direction = 3" using n(1) None that by (simp add: above_lit_def up)
    ultimately show ?thesis
      using inv unfolding halo_channel_eq [OF face n(2)] None option.case by (auto simp: halo_inv_def)
  next
    case (Some ld)
    obtain l d where ld: "ld = (l, d)" by (rule prod.exhaust)
    note light = Some [unfolded ld]
    have l15: "l \<le> 15" by (rule halo_le [OF okf(1) light])
    have lit: "lit (full_si fi) c p (incoming_level l f c (fi_profile fi) (NEIGHBOURS ! direction) d)
        (stays_direct (full_si fi) c f (NEIGHBOURS ! direction) l d)"
      using lit.halo [of "full_si fi" p f "NEIGHBOURS ! direction" n c l d] b f offset n(1) light by simp
    let ?v = "l - max f 1"
    have small: "?v \<le> 14" using l15 by linarith
    have reach: "?v \<le> incoming_level l f c (fi_profile fi) (NEIGHBOURS ! direction) d"
      using l15 by (auto simp: incoming_level_def)
    have within: "within_field (full_si fi) c p ?v" unfolding within_field_def using lit reach by blast
    let ?direct = "direction = 3 \<and> stays_direct (full_si fi) c f (0, 1, 0) l d"
    have direct: "?direct \<longleftrightarrow> c = Channel_Sky \<and> direction = 3 \<and> above_lit fi p"
    proof -
      have "above_lit fi p \<longleftrightarrow> stays_direct (full_si fi) Channel_Sky f (0, 1, 0) l d" if "c = Channel_Sky" "direction = 3"
        using n(1) light p f that by (simp add: above_lit_def up)
      then show ?thesis by (auto simp: stays_direct_def)
    qed
    define fs1 where "fs1 = raise_grid c (pad (fi_bounds fi) p) ?v fs"
    define fs2 where "fs2 = (if ?direct then fs1\<lparr>fs_direct_above := (fs_direct_above fs1)[column_of (fi_bounds fi) p := True]\<rparr> else fs1)"
    have value1: "value_at fi c' fs1 q = (if c' = c \<and> q = p then max (value_at fi c fs p) ?v else value_at fi c' fs q)"
      if "padded (fi_bounds fi) q" for c' q
      unfolding fs1_def by (rule value_raise [OF okf(2) pad that len])
    have now: "value_at fi c' fs2 q = (if c' = c \<and> q = p then max (value_at fi c fs p) ?v else value_at fi c' fs q)"
      if "q \<in> open_at fi" for c' q
      using value1 [of q c'] that padded_contain [of "fi_bounds fi" q]
      by (cases c') (auto simp: fs2_def value_at_def open_at_iff)
    have le: "value_at fi c' fs q \<le> value_at fi c' fs2 q" if "q \<in> open_at fi" for c' q by (simp add: now [OF that])
    have same: "fs_filter fs2 = fs_filter fs" "fs_direct fs2 = fs_direct fs" "fs_buckets fs2 = fs_buckets fs"
      by (simp_all add: fs2_def fs1_def)
    have same_block: "length (fs_block fs2) = length (fs_block fs)" and same_sky: "length (fs_sky fs2) = length (fs_sky fs)"
      by (simp_all add: fs2_def fs1_def raise_grid_def split: light_channel.split)
    have same_len: "length (channel_grid c' fs2) = length (channel_grid c' fs)" for c'
      using same_block same_sky by (cases c') simp_all
    have same_above: "length (fs_direct_above fs2) = length (fs_direct_above fs)" by (simp add: fs2_def fs1_def)
    note same = same same_len same_above
    have "halo_inv fi fs0 ?seen fs2"
      unfolding halo_inv_def same
    proof (intro conjI allI ballI impI)
      fix c' q assume q: "q \<in> open_at fi"
      show "base_level (full_si fi) c' q \<le> value_at fi c' fs2 q" using cells(1) [OF q] le [OF q] le_trans by blast
      show "within_field (full_si fi) c' q (value_at fi c' fs2 q)"
        unfolding now [OF q] using cells(2) [OF q, of c'] within by (auto simp: max_def)
      show "value_at fi c' fs2 q = 15 \<Longrightarrow> base_level (full_si fi) c' q = 15"
        unfolding now [OF q] using cells(3) [OF q, of c'] small by (auto simp: max_def split: if_splits)
    next
      show "case x of (c', d', q) \<Rightarrow> q \<in> open_at fi \<longrightarrow> took_halo fi c' d' q fs2" if "x \<in> ?seen" for x
      proof (cases "x = (c, direction, p)")
        case True
        have "took_halo fi c direction p fs2"
          unfolding took_halo_def using n(1) light f by (auto simp: now [OF p])
        then show ?thesis by (simp add: True)
      next
        case False
        obtain c' d' q where x: "x = (c', d', q)" by (rule prod_cases3)
        have "took_halo fi c' d' q fs2" if "q \<in> open_at fi"
        proof -
          have "took_halo fi c' d' q fs" using took False \<open>x \<in> ?seen\<close> that by (auto simp: x)
          then show ?thesis using le [OF that, of c'] unfolding took_halo_def by (blast intro: le_trans)
        qed
        then show ?thesis by (simp add: x)
      qed
    next
      fix q assume q: "top_cell (fi_bounds fi) q"
      have len_above: "column_of (fi_bounds fi) p < length (fs_direct_above fs)"
        using column_of_less [OF b] inv by (simp add: halo_inv_def)
      have "fs_direct_above fs2 ! column_of (fi_bounds fi) q = (fs_direct_above fs ! column_of (fi_bounds fi) q \<or> ?direct \<and> q = p)"
      proof (cases ?direct)
        case True
        then have "column_of (fi_bounds fi) p = column_of (fi_bounds fi) q \<longleftrightarrow> q = p" using column_of_inj [OF top q] by auto
        then show ?thesis using True len_above by (simp add: fs2_def fs1_def nth_list_update)
      qed (auto simp: fs2_def fs1_def)
      then show "fs_direct_above fs2 ! column_of (fi_bounds fi) q = ((Channel_Sky, 3, q) \<in> ?seen \<and> above_lit fi q)"
        unfolding above [OF q] direct by auto
    qed (use inv in \<open>simp_all add: halo_inv_def\<close>)
    moreover have "?run = fs2" if "l \<noteq> 0"
      using that unfolding halo_channel_eq [OF face n(2)] light option.case prod.case
      by (simp add: fs2_def fs1_def f column_of_def Let_def)
    moreover have "halo_inv fi fs0 ?seen ?run" if l0: "l = 0"
    proof -
      have run: "?run = fs" unfolding halo_channel_eq [OF face n(2)] light option.case prod.case by (simp add: l0)
      have "took_halo fi c direction p fs" using n(1) light by (simp add: took_halo_def l0)
      moreover have "\<not> ?direct" by (simp add: stays_direct_def l0)
      ultimately show ?thesis using inv direct unfolding run by (auto simp: halo_inv_def)
    qed
    ultimately show ?thesis by (cases "l = 0") simp_all
  qed
qed


lemma filters_value:
  assumes ok: "full_ok fi V" and filters: "filters_read fi fs" and p: "padded (fi_bounds fi) p"
  shows "fs_filter fs ! pad (fi_bounds fi) p = BLOCKED \<longleftrightarrow> p \<notin> open_at fi"
    and "p \<in> open_at fi \<Longrightarrow> fs_filter fs ! pad (fi_bounds fi) p = the (filt_at fi p)"
proof -
  have v: "fs_filter fs ! pad (fi_bounds fi) p = (if p \<in> open_at fi then the (filt_at fi p) else BLOCKED)"
    using filters p by (simp add: filters_read_def grid_is_def)
  show "fs_filter fs ! pad (fi_bounds fi) p = BLOCKED \<longleftrightarrow> p \<notin> open_at fi"
    using filt_small [OF ok, of p] by (auto simp: v BLOCKED_def open_at_iff)
  show "p \<in> open_at fi \<Longrightarrow> fs_filter fs ! pad (fi_bounds fi) p = the (filt_at fi p)" by (simp add: v)
qed

lemma halo_cell_keeps:
  assumes ok: "full_ok fi V" and filters: "filters_read fi fs0" and direction: "direction < 6"
    and face: "o' \<in> set (face_cells (new_grid (fi_bounds fi)) direction)" and inv: "halo_inv fi fs0 seen fs"
  shows "halo_inv fi fs0 (seen \<union> {(c, direction, at_offsets (fi_bounds fi) o') | c. True}) (halo_cell fi (new_grid (fi_bounds fi)) direction o' fs)"
proof -
  note okf = full_ok_facts [OF ok]
  obtain x y z where o': "o' = (x, y, z)" by (rule prod_cases3)
  define p where "p = at_offsets (fi_bounds fi) o'"
  have grid: "in_grid (fi_bounds fi) (x, y, z)" and out: "\<not> bounds_contain (fi_bounds fi) (step p (NEIGHBOURS ! direction))"
    using face face_cells_iff [OF okf(2) direction, of o'] by (simp_all add: o' p_def)
  have b: "bounds_contain (fi_bounds fi) p" using at_offsets_contain [OF grid] by (simp add: p_def o')
  have xz: "x = nat (bp_x p - bp_x (lb_min (fi_bounds fi)))" "z = nat (bp_z p - bp_z (lb_min (fi_bounds fi)))"
    using offsets_of_at [of "fi_bounds fi" o'] by (simp_all add: offsets_def p_def o')
  have same: "fs_filter fs = fs_filter fs0" using inv by (simp add: halo_inv_def)
  have unchanged: "halo_inv fi fs0 (seen \<union> {(c, direction, p) | c. True}) fs"
    if dark: "\<And>n l d c. checked_offset p (NEIGHBOURS ! direction) = Some n \<Longrightarrow> p \<in> open_at fi \<Longrightarrow> halo_light (full_si fi) c n \<noteq> Some (l, d)"
  proof -
    have "took_halo fi c direction p fs" if "p \<in> open_at fi" for c using dark that by (auto simp: took_halo_def)
    moreover have "\<not> above_lit fi p" if "direction = 3"
      using dark that by (auto simp: above_lit_def NEIGHBOURS_def)
    ultimately show ?thesis using inv by (auto simp: halo_inv_def)
  qed
  have run: "halo_cell fi (new_grid (fi_bounds fi)) direction o' fs =
      (if p \<notin> open_at fi then fs
       else case checked_offset p (NEIGHBOURS ! direction) of None \<Rightarrow> fs
         | Some n \<Rightarrow> if \<not> ba_is_known (fi_blocks fi) n then fs
             else fold (halo_channel fi (new_grid (fi_bounds fi)) direction (x, z) (pad (fi_bounds fi) p) (the (filt_at fi p)) n) both_channels fs)"
  proof -
    have p: "at_offsets (fi_bounds fi) (x, y, z) = p" by (simp add: p_def o')
    show ?thesis
      unfolding halo_cell_def o' prod.case Let_def same grid_index_at grid_position_at [OF okf(2) grid] p
      using filters_value [OF ok filters padded_contain [OF b]] by (cases "p \<in> open_at fi") (simp_all cong: option.case_cong if_cong)
  qed
  have "halo_inv fi fs0 (seen \<union> {(c, direction, p) | c. True}) (halo_cell fi (new_grid (fi_bounds fi)) direction o' fs)"
  proof (cases "p \<in> open_at fi")
    case False
    then show ?thesis using unchanged by (simp add: run)
  next
    case open_p: True
    show ?thesis
    proof (cases "checked_offset p (NEIGHBOURS ! direction)")
      case None
      then show ?thesis using unchanged open_p by (simp add: run)
    next
      case (Some n)
      have nq: "n = step p (NEIGHBOURS ! direction)" by (rule checked_offset_step [OF Some])
      have known: "ba_is_known (fi_blocks fi) n \<longleftrightarrow> filt_at fi n \<noteq> None"
        using ok by (auto simp: full_ok_def honest_source_def sample_filter_def split: light_block_sample.split)
      show ?thesis
      proof (cases "filt_at fi n = None")
        case True
        then have "halo_light (full_si fi) c n = None" for c by (simp add: halo_light_def)
        then have "halo_inv fi fs0 (seen \<union> {(c, direction, p) | c. True}) fs" by (intro unchanged) (simp add: Some)
        then show ?thesis using open_p Some True by (simp add: run known)
      next
        case False
        note one = halo_channel_keeps [OF ok open_p out [folded nq] Some False direction, folded xz]
        have "{(c, direction, p) | c. True} = {(Channel_Block, direction, p), (Channel_Sky, direction, p)}"
          by (auto intro: light_channel.exhaust)
        then show ?thesis using one [OF one [OF inv, of Channel_Block], of Channel_Sky] open_p Some False
          by (simp add: run known both_channels_def insert_commute)
      qed
    qed
  qed
  then show ?thesis by (simp add: p_def)
qed

lemma fold_seen:
  assumes "I {} s" and "\<And>x seen s. x \<in> set xs \<Longrightarrow> I seen s \<Longrightarrow> I (insert x seen) (f x s)"
  shows "I (set xs) (fold f xs s)"
proof -
  have "I (seen \<union> set ys) (fold f ys s)" if "set ys \<subseteq> set xs" "I seen s" for ys seen s
    using that
  proof (induction ys arbitrary: seen s)
    case (Cons y ys)
    from Cons.prems have "I (insert y seen) (f y s)" by (intro assms(2)) simp_all
    then have "I (insert y seen \<union> set ys) (fold f ys (f y s))" by (intro Cons.IH) (use Cons.prems in simp_all)
    then show ?case by simp
  qed simp
  from this [of xs "{}" s] show ?thesis using assms(1) by simp
qed

lemma seed_halo_keeps:
  assumes ok: "full_ok fi V" and filters: "filters_read fi fs" and inv: "halo_inv fi fs {} fs"
  shows "halo_inv fi fs {(c, direction, p). direction < 6 \<and> bounds_contain (fi_bounds fi) p \<and>
      \<not> bounds_contain (fi_bounds fi) (step p (NEIGHBOURS ! direction))} (seed_halo fi (new_grid (fi_bounds fi)) fs)"
proof -
  note okf = full_ok_facts [OF ok]
  define marks where "marks = (\<lambda>pairs. {(c :: light_channel, direction :: nat, p). \<exists>o'. (direction, o') \<in> pairs \<and> p = at_offsets (fi_bounds fi) o'})"
  define faces where "faces = (\<lambda>direction. face_cells (new_grid (fi_bounds fi)) direction)"
  have inner: "halo_inv fi fs (seen \<union> marks ({direction} \<times> set (faces direction))) (fold (halo_cell fi (new_grid (fi_bounds fi)) direction) (faces direction) s)"
    if "direction < 6" "halo_inv fi fs seen s" for direction seen s
  proof (rule fold_seen [where I = "\<lambda>os s. halo_inv fi fs (seen \<union> marks ({direction} \<times> os)) s"])
    show "halo_inv fi fs (seen \<union> marks ({direction} \<times> {})) s"
    proof -
      have "marks ({direction} \<times> {}) = {}" by (auto simp: marks_def)
      then show ?thesis using that(2) by simp
    qed
  next
    fix o' os s' assume o': "o' \<in> set (faces direction)" and inv: "halo_inv fi fs (seen \<union> marks ({direction} \<times> os)) s'"
    have "seen \<union> marks ({direction} \<times> insert o' os) =
        seen \<union> marks ({direction} \<times> os) \<union> {(c, direction, at_offsets (fi_bounds fi) o') | c. True}"
      by (cases o') (auto simp: marks_def)
    then show "halo_inv fi fs (seen \<union> marks ({direction} \<times> insert o' os)) (halo_cell fi (new_grid (fi_bounds fi)) direction o' s')"
      using halo_cell_keeps [OF ok filters that(1) o' [unfolded faces_def] inv] by simp
  qed
  have "halo_inv fi fs (marks (Sigma (set [0..<6]) (\<lambda>d. set (faces d)))) (seed_halo fi (new_grid (fi_bounds fi)) fs)"
    unfolding seed_halo_def
  proof (rule fold_seen [where I = "\<lambda>ds s. halo_inv fi fs (marks (Sigma ds (\<lambda>d. set (faces d)))) s"])
    show "halo_inv fi fs (marks (Sigma {} (\<lambda>d. set (faces d)))) fs"
    proof -
      have "marks (Sigma {} (\<lambda>d. set (faces d))) = {}" by (auto simp: marks_def)
      then show ?thesis using inv by simp
    qed
  next
    fix direction ds s assume d: "direction \<in> set [0..<6]" and inv: "halo_inv fi fs (marks (Sigma ds (\<lambda>d. set (faces d)))) s"
    have "marks (Sigma (insert direction ds) (\<lambda>d. set (faces d))) =
        marks (Sigma ds (\<lambda>d. set (faces d))) \<union> marks ({direction} \<times> set (faces direction))" by (auto simp: marks_def)
    then show "halo_inv fi fs (marks (Sigma (insert direction ds) (\<lambda>d. set (faces d))))
        (fold (halo_cell fi (new_grid (fi_bounds fi)) direction) (face_cells (new_grid (fi_bounds fi)) direction) s)"
      using inner [OF _ inv, of direction] d by (simp add: faces_def)
  qed
  moreover have "marks (Sigma (set [0..<6]) (\<lambda>d. set (faces d))) = {(c, direction, p). direction < 6 \<and> bounds_contain (fi_bounds fi) p \<and>
      \<not> bounds_contain (fi_bounds fi) (step p (NEIGHBOURS ! direction))}"
  proof -
    have cell: "(\<exists>o'. o' \<in> set (faces direction) \<and> p = at_offsets (fi_bounds fi) o') \<longleftrightarrow>
        bounds_contain (fi_bounds fi) p \<and> \<not> bounds_contain (fi_bounds fi) (step p (NEIGHBOURS ! direction))"
      if "direction < 6" for direction p
      unfolding faces_def face_cells_iff [OF okf(2) that]
      using at_offsets_contain [of "fi_bounds fi"] at_of_offsets [of "fi_bounds fi" p] offsets_in_grid [of "fi_bounds fi" p]
      by (metis (no_types, lifting))
    have "(c, direction, p) \<in> marks (Sigma (set [0..<6]) (\<lambda>d. set (faces d))) \<longleftrightarrow>
        direction < 6 \<and> (\<exists>o'. o' \<in> set (faces direction) \<and> p = at_offsets (fi_bounds fi) o')" for c direction p
      unfolding marks_def by auto
    then have "(c, direction, p) \<in> marks (Sigma (set [0..<6]) (\<lambda>d. set (faces d))) \<longleftrightarrow> direction < 6 \<and> bounds_contain (fi_bounds fi) p \<and>
        \<not> bounds_contain (fi_bounds fi) (step p (NEIGHBOURS ! direction))" for c direction p
      using cell [of direction p] by (cases "direction < 6") simp_all
    then show ?thesis by auto
  qed
  ultimately show ?thesis by simp
qed

end
