(* ===== verification/Full_Sky.thy ===== *)
theory Full_Sky
  imports Full_Halo
begin

section \<open>Direct sky down the columns\<close>

text \<open>
  A cell carries direct sky when it is open without loss and its own seed is full, trusted direct sky
  enters it from above, or the cell above carries it; one pass from the top of each column finds them all.
\<close>

abbreviation sky_direct :: "full_input \<Rightarrow> block_pos \<Rightarrow> bool" where
  "sky_direct fi p \<equiv> lit (full_si fi) Channel_Sky p 15 True"

definition enters :: "full_input \<Rightarrow> block_pos \<Rightarrow> bool" where
  "enters fi p \<longleftrightarrow> above_lit fi p \<or> sky_direct fi (step p (0, 1, 0))"

lemma up_neighbour [simp]: "(0, 1, 0) \<in> set NEIGHBOURS"
  by (simp add: NEIGHBOURS_def)

lemma sky_direct_iff:
  assumes down: "direct_sky_down (fi_profile fi)"
  shows "sky_direct fi p \<longleftrightarrow> bounds_contain (fi_bounds fi) p \<and> filt_at fi p = Some 0 \<and>
    (base_level (full_si fi) Channel_Sky p = 15 \<or> enters fi p)"
proof
  assume lit: "sky_direct fi p"
  have here: "bounds_contain (fi_bounds fi) p" "filt_at fi p = Some 0"
    using lit_cell [OF lit] lit_direct [OF lit] by simp_all
  from lit have "base_level (full_si fi) Channel_Sky p = 15 \<or> enters fi p"
  proof (cases rule: lit.cases)
    case (source f)
    then show ?thesis by simp
  next
    case (halo f offset n l d)
    then have d: "stays_direct (full_si fi) Channel_Sky f offset l d" by blast
    then have offset: "offset = (0, 1, 0)" by (simp add: stays_direct_def)
    have "above_lit fi p"
      unfolding above_lit_def
    proof (intro conjI exI)
      show "p \<in> open_at fi" using here by (simp add: open_at_iff)
      show "checked_offset p (0, 1, 0) = Some n" using halo offset by simp
      show "halo_light (full_si fi) Channel_Sky n = Some (l, d)" using halo by simp
      show "stays_direct (full_si fi) Channel_Sky (the (filt_at fi p)) (0, 1, 0) l d" using d halo offset by simp
    qed
    then show ?thesis by (simp add: enters_def)
  next
    case (step offset l d f)
    then have d: "stays_direct (full_si fi) Channel_Sky f offset l d" by blast
    have "offset = (0, 1, 0)" "l = 15" "d" using d by (simp_all add: stays_direct_def)
    then show ?thesis using step by (simp add: enters_def)
  qed
  with here show "bounds_contain (fi_bounds fi) p \<and> filt_at fi p = Some 0 \<and>
    (base_level (full_si fi) Channel_Sky p = 15 \<or> enters fi p)" by blast
next
  assume r: "bounds_contain (fi_bounds fi) p \<and> filt_at fi p = Some 0 \<and> (base_level (full_si fi) Channel_Sky p = 15 \<or> enters fi p)"
  then have b: "bounds_contain (fi_bounds fi) p" and f: "filt_at fi p = Some 0" by simp_all
  from r consider "base_level (full_si fi) Channel_Sky p = 15" | "above_lit fi p" | "sky_direct fi (step p (0, 1, 0))"
    by (auto simp: enters_def)
  then show "sky_direct fi p"
  proof cases
    case 1
    then show ?thesis using lit.source [of "full_si fi" p 0 Channel_Sky] b f down by simp
  next
    case 2
    then obtain n l d where n: "checked_offset p (0, 1, 0) = Some n" "halo_light (full_si fi) Channel_Sky n = Some (l, d)"
      and d: "stays_direct (full_si fi) Channel_Sky 0 (0, 1, 0) l d"
      using f by (auto simp: above_lit_def)
    have "incoming_level l 0 Channel_Sky (si_profile (full_si fi)) (0, 1, 0) d = 15" unfolding incoming_eq using d by simp
    then show ?thesis using lit.halo [of "full_si fi" p 0 "(0, 1, 0)" n Channel_Sky l d] b f n d by simp
  next
    case 3
    then show ?thesis
      using lit.step [of "full_si fi" Channel_Sky p "(0, 1, 0)" 15 True 0] b f down
      by (simp add: incoming_level_def stays_direct_def)
  qed
qed

definition sky_inv :: "full_input \<Rightarrow> full_scratch \<Rightarrow> block_pos set \<Rightarrow> full_scratch \<Rightarrow> bool" where
  "sky_inv fi fs1 seen fs \<longleftrightarrow>
     fs_filter fs = fs_filter fs1 \<and> fs_block fs = fs_block fs1 \<and> fs_buckets fs = fs_buckets fs1 \<and>
     fs_direct_above fs = fs_direct_above fs1 \<and>
     grid_is (fi_bounds fi) (fs_direct fs) (\<lambda>p. p \<in> seen \<and> sky_direct fi p) \<and>
     grid_is (fi_bounds fi) (fs_sky fs) (\<lambda>p. if p \<in> seen \<and> sky_direct fi p then 15 else value_at fi Channel_Sky fs1 p)"

lemma step_down_keeps:
  assumes ok: "full_ok fi V" and filters: "filters_read fi fs1" and down: "direct_sky_down (fi_profile fi)"
    and full: "\<And>p. p \<in> open_at fi \<Longrightarrow> value_at fi Channel_Sky fs1 p = 15 \<longleftrightarrow> base_level (full_si fi) Channel_Sky p = 15"
    and grid: "in_grid (fi_bounds fi) (x, y, z)" and p: "p = at_offsets (fi_bounds fi) (x, y, z)"
    and inv: "sky_inv fi fs1 seen fs" and lit: "sun \<longleftrightarrow> enters fi p"
  shows "fst (direct_step_down (new_grid (fi_bounds fi)) x z y (sun, fs)) \<longleftrightarrow> sky_direct fi p"
    and "sky_inv fi fs1 (insert p seen) (snd (direct_step_down (new_grid (fi_bounds fi)) x z y (sun, fs)))"
proof -
  note okf = full_ok_facts [OF ok]
  have b: "bounds_contain (fi_bounds fi) p" unfolding p by (rule at_offsets_contain [OF grid])
  note pad = padded_contain [OF b]
  note grids = inv [unfolded sky_inv_def, THEN conjunct2, THEN conjunct2, THEN conjunct2, THEN conjunct2]
  have same: "fs_filter fs = fs_filter fs1" using inv by (simp add: sky_inv_def)
  have cell: "grid_index (new_grid (fi_bounds fi)) x y z = pad (fi_bounds fi) p" by (simp add: grid_index_at p)
  have zero: "fs_filter fs ! pad (fi_bounds fi) p = 0 \<longleftrightarrow> filt_at fi p = Some 0"
    using filters_value [OF ok filters pad] b by (cases "p \<in> open_at fi") (auto simp: same open_at_iff BLOCKED_def)
  have sky: "fs_sky fs ! pad (fi_bounds fi) p =
      (if p \<in> seen \<and> sky_direct fi p then 15 else value_at fi Channel_Sky fs1 p)"
    by (rule grid_is_nth [OF conjunct2 [OF grids] pad])
  have direct: "(fs_filter fs ! pad (fi_bounds fi) p = 0 \<and> (sun \<or> fs_sky fs ! pad (fi_bounds fi) p = 15)) \<longleftrightarrow> sky_direct fi p"
  proof (cases "filt_at fi p = Some 0")
    case True
    then have "p \<in> open_at fi" using b by (simp add: open_at_iff)
    then show ?thesis unfolding zero sky sky_direct_iff [OF down] lit using True b full by auto
  qed (simp add: zero sky_direct_iff [OF down])
  have run: "direct_step_down (new_grid (fi_bounds fi)) x z y (sun, fs) = (sky_direct fi p,
      if sky_direct fi p then fs\<lparr>fs_sky := (fs_sky fs)[pad (fi_bounds fi) p := 15],
        fs_direct := (fs_direct fs)[pad (fi_bounds fi) p := True]\<rparr> else fs)"
    unfolding direct_step_down_def prod.case Let_def cell direct ..
  show "fst (direct_step_down (new_grid (fi_bounds fi)) x z y (sun, fs)) \<longleftrightarrow> sky_direct fi p"
    by (simp add: run)
  show "sky_inv fi fs1 (insert p seen) (snd (direct_step_down (new_grid (fi_bounds fi)) x z y (sun, fs)))"
  proof (cases "sky_direct fi p")
    case True
    have "grid_is (fi_bounds fi) ((fs_direct fs)[pad (fi_bounds fi) p := True]) (\<lambda>q. q \<in> insert p seen \<and> sky_direct fi q)"
      using grid_is_update [OF okf(2) pad conjunct1 [OF grids]] True by simp
    moreover have "grid_is (fi_bounds fi) ((fs_sky fs)[pad (fi_bounds fi) p := 15])
        (\<lambda>q. if q \<in> insert p seen \<and> sky_direct fi q then 15 else value_at fi Channel_Sky fs1 q)"
      using grid_is_update [OF okf(2) pad conjunct2 [OF grids]] True by simp
    ultimately show ?thesis
      using inv True by (simp add: sky_inv_def run)
  next
    case False
    then have "(q \<in> insert p seen \<and> sky_direct fi q) = (q \<in> seen \<and> sky_direct fi q)" for q by auto
    then show ?thesis
      using inv False by (simp add: sky_inv_def run cong: if_cong)
  qed
qed

lemma column_keeps:
  assumes ok: "full_ok fi V" and filters: "filters_read fi fs1" and down: "direct_sky_down (fi_profile fi)"
    and full: "\<And>p. p \<in> open_at fi \<Longrightarrow> value_at fi Channel_Sky fs1 p = 15 \<longleftrightarrow> base_level (full_si fi) Channel_Sky p = 15"
    and xz: "x < light_axis_len (bp_x (lb_min (fi_bounds fi))) (bp_x (lb_max (fi_bounds fi)))" "z < z_len (fi_bounds fi)"
  shows "n \<le> y_len (fi_bounds fi) \<Longrightarrow> sky_inv fi fs1 seen fs \<Longrightarrow>
    (0 < n \<longrightarrow> (sun \<longleftrightarrow> enters fi (at_offsets (fi_bounds fi) (x, n - 1, z)))) \<Longrightarrow>
    sky_inv fi fs1 (seen \<union> (\<lambda>y. at_offsets (fi_bounds fi) (x, y, z)) ` {..<n})
      (snd (fold (direct_step_down (new_grid (fi_bounds fi)) x z) (rev [0..<n]) (sun, fs)))"
proof (induction n arbitrary: seen fs sun)
  case (Suc n)
  let ?P = "\<lambda>y. at_offsets (fi_bounds fi) (x, y, z)"
  have grid: "in_grid (fi_bounds fi) (x, n, z)" using xz Suc.prems(1) by (simp add: in_grid_def)
  have sun: "sun \<longleftrightarrow> enters fi (?P n)" using Suc.prems(3) by simp
  note stepped = step_down_keeps [OF ok filters down full grid refl Suc.prems(2) sun]
  obtain sun2 fs' where run: "direct_step_down (new_grid (fi_bounds fi)) x z n (sun, fs) = (sun2, fs')" by (rule prod.exhaust)
  have "sun2 \<longleftrightarrow> enters fi (?P (n - 1))" if pos: "0 < n"
  proof -
    obtain m where n: "n = Suc m" using pos by (cases n) simp_all
    have up: "step (?P m) (0, 1, 0) = ?P n" by (simp add: step_def at_offsets_def n)
    have "bounds_contain (fi_bounds fi) (?P n)" by (rule at_offsets_contain [OF grid])
    then have "\<not> above_lit fi (?P m)"
      using checked_offset_step [of "?P m" "(0, 1, 0)"] by (auto simp: above_lit_def halo_light_def up)
    then have "enters fi (?P m) \<longleftrightarrow> sky_direct fi (?P n)" by (simp add: enters_def up)
    then show ?thesis using stepped(1) unfolding run by (simp add: n)
  qed
  then have "sky_inv fi fs1 (insert (?P n) seen \<union> ?P ` {..<n})
      (snd (fold (direct_step_down (new_grid (fi_bounds fi)) x z) (rev [0..<n]) (sun2, fs')))"
    using Suc.prems(1) stepped(2) by (intro Suc.IH) (simp_all add: run)
  moreover have "insert (?P n) seen \<union> ?P ` {..<n} = seen \<union> ?P ` {..<Suc n}" by (auto simp: lessThan_Suc)
  ultimately show ?case by (simp add: run)
qed simp

lemma fill_direct_keeps:
  assumes ok: "full_ok fi V" and filters: "filters_read fi fs1" and down: "direct_sky_down (fi_profile fi)"
    and full: "\<And>p. p \<in> open_at fi \<Longrightarrow> value_at fi Channel_Sky fs1 p = 15 \<longleftrightarrow> base_level (full_si fi) Channel_Sky p = 15"
    and above: "\<And>p. top_cell (fi_bounds fi) p \<Longrightarrow> fs_direct_above fs1 ! column_of (fi_bounds fi) p = above_lit fi p"
    and inv: "sky_inv fi fs1 {} fs1"
  shows "sky_inv fi fs1 {p. bounds_contain (fi_bounds fi) p} (fill_direct_sky (new_grid (fi_bounds fi)) fs1)"
proof -
  note okf = full_ok_facts [OF ok]
  let ?X = "light_axis_len (bp_x (lb_min (fi_bounds fi))) (bp_x (lb_max (fi_bounds fi)))"
    and ?Y = "y_len (fi_bounds fi)" and ?Z = "z_len (fi_bounds fi)" and ?g = "new_grid (fi_bounds fi)"
  have Y: "0 < ?Y" using okf(2) by (simp add: valid_bounds_def y_len_def light_axis_len_def)
  define cells where "cells = (\<lambda>xs zs. {at_offsets (fi_bounds fi) (x, y, z) | x y z. x \<in> xs \<and> y < ?Y \<and> z \<in> zs})"
  have column: "sky_inv fi fs1 (seen \<union> cells {x} {z}) (fill_column ?g x z fs)"
    if "x < ?X" "z < ?Z" "sky_inv fi fs1 seen fs" for x z seen fs
  proof -
    let ?top = "at_offsets (fi_bounds fi) (x, ?Y - 1, z)"
    have grid: "in_grid (fi_bounds fi) (x, ?Y - 1, z)" using that Y by (simp add: in_grid_def)
    have "bp_y ?top = bp_y (lb_max (fi_bounds fi))"
    proof -
      have "bp_y (lb_min (fi_bounds fi)) \<le> bp_y (lb_max (fi_bounds fi))" using okf(2) by (simp add: valid_bounds_def)
      then have "int (?Y - 1) = bp_y (lb_max (fi_bounds fi)) - bp_y (lb_min (fi_bounds fi))"
        unfolding y_len_def light_axis_len_def by linarith
      then show ?thesis by (simp add: at_offsets_def)
    qed
    then have top: "top_cell (fi_bounds fi) ?top" using at_offsets_contain [OF grid] by (simp add: top_cell_def)
    have "\<not> bounds_contain (fi_bounds fi) (step ?top (0, 1, 0))" using top by (simp add: top_cell_def step_def bounds_contain_def)
    then have "\<not> sky_direct fi (step ?top (0, 1, 0))" using lit_cell by fastforce
    moreover have "column_of (fi_bounds fi) ?top = x * ?Z + z" by (simp add: column_of_def at_offsets_def)
    moreover have "fs_direct_above fs = fs_direct_above fs1" using that(3) by (simp add: sky_inv_def)
    ultimately have "fs_direct_above fs ! (x * ?Z + z) \<longleftrightarrow> enters fi ?top" using above [OF top] by (simp add: enters_def)
    then have "sky_inv fi fs1 (seen \<union> (\<lambda>y. at_offsets (fi_bounds fi) (x, y, z)) ` {..<?Y}) (fill_column ?g x z fs)"
      unfolding fill_column_def grid_simps by (intro column_keeps [OF ok filters down full that(1,2) order_refl that(3)]) blast+
    moreover have "(\<lambda>y. at_offsets (fi_bounds fi) (x, y, z)) ` {..<?Y} = cells {x} {z}" by (auto simp: cells_def)
    ultimately show ?thesis by simp
  qed
  have plane: "sky_inv fi fs1 (seen \<union> cells {x} (set [0..<?Z])) (fold (fill_column ?g x) [0..<?Z] fs)"
    if "x < ?X" "sky_inv fi fs1 seen fs" for x seen fs
  proof (rule fold_seen [where I = "\<lambda>zs s. sky_inv fi fs1 (seen \<union> cells {x} zs) s"])
    show "sky_inv fi fs1 (seen \<union> cells {x} {}) fs" using that(2) by (simp add: cells_def)
  next
    fix z zs s assume z: "z \<in> set [0..<?Z]" and inv: "sky_inv fi fs1 (seen \<union> cells {x} zs) s"
    have "seen \<union> cells {x} (insert z zs) = seen \<union> cells {x} zs \<union> cells {x} {z}" by (auto simp: cells_def)
    then show "sky_inv fi fs1 (seen \<union> cells {x} (insert z zs)) (fill_column ?g x z s)"
      using column [OF that(1) _ inv, of z] z by simp
  qed
  have "sky_inv fi fs1 (cells (set [0..<?X]) (set [0..<?Z])) (fill_direct_sky ?g fs1)"
    unfolding fill_direct_sky_def grid_simps
  proof (rule fold_seen [where I = "\<lambda>xs s. sky_inv fi fs1 (cells xs (set [0..<?Z])) s"])
    show "sky_inv fi fs1 (cells {} (set [0..<?Z])) fs1" using inv by (simp add: cells_def)
  next
    fix x xs s assume x: "x \<in> set [0..<?X]" and inv: "sky_inv fi fs1 (cells xs (set [0..<?Z])) s"
    have "cells (insert x xs) (set [0..<?Z]) = cells xs (set [0..<?Z]) \<union> cells {x} (set [0..<?Z])" by (auto simp: cells_def)
    then show "sky_inv fi fs1 (cells (insert x xs) (set [0..<?Z])) (fold (fill_column ?g x) [0..<?Z] s)"
      using plane [OF _ inv, of x] x by simp
  qed
  moreover have "cells (set [0..<?X]) (set [0..<?Z]) = {p. bounds_contain (fi_bounds fi) p}"
  proof -
    have "p \<in> cells (set [0..<?X]) (set [0..<?Z]) \<longleftrightarrow> (\<exists>o'. in_grid (fi_bounds fi) o' \<and> p = at_offsets (fi_bounds fi) o')" for p
      by (auto simp: cells_def in_grid_def)
    moreover have "(\<exists>o'. in_grid (fi_bounds fi) o' \<and> p = at_offsets (fi_bounds fi) o') \<longleftrightarrow> bounds_contain (fi_bounds fi) p" for p
    proof
      show "bounds_contain (fi_bounds fi) p" if "\<exists>o'. in_grid (fi_bounds fi) o' \<and> p = at_offsets (fi_bounds fi) o'"
        using that at_offsets_contain by blast
      show "\<exists>o'. in_grid (fi_bounds fi) o' \<and> p = at_offsets (fi_bounds fi) o'" if "bounds_contain (fi_bounds fi) p"
        using offsets_in_grid [OF that] at_of_offsets [OF that] by (intro exI [of _ "offsets (fi_bounds fi) p"]) simp
    qed
    ultimately show ?thesis by blast
  qed
  ultimately show ?thesis by simp
qed

end
