(* ===== verification/Full_Spread.thy ===== *)
theory Full_Spread
  imports Full_Sky
begin

section \<open>Spreading through buckets\<close>

text \<open>
  Levels are drained from the brightest down.  A cell above the current level has given its neighbours all
  it can; each cell spreads at most once, at its final level; every raise uses up some of the distance
  to 15, which bounds the entries queued.
\<close>

definition bval :: "full_input \<Rightarrow> bucket_state \<Rightarrow> block_pos \<Rightarrow> nat" where
  "bval fi st p = bk_values st ! pad (fi_bounds fi) p"

definition waiting :: "full_input \<Rightarrow> bucket_state \<Rightarrow> block_pos \<Rightarrow> bool" where
  "waiting fi st p \<longleftrightarrow> pad (fi_bounds fi) p \<in> set (bk_buckets st ! bval fi st p)"

definition gives :: "full_input \<Rightarrow> (block_pos \<Rightarrow> nat) \<Rightarrow> block_pos \<Rightarrow> i32 \<times> i32 \<times> i32 \<Rightarrow> bool" where
  "gives fi v p offset \<longleftrightarrow> (step p offset \<in> open_at fi \<longrightarrow> v p - max (the (filt_at fi (step p offset))) 1 \<le> v (step p offset))"

definition settled :: "full_input \<Rightarrow> (block_pos \<Rightarrow> nat) \<Rightarrow> block_pos \<Rightarrow> bool" where
  "settled fi v p \<longleftrightarrow> (\<forall>offset\<in>set NEIGHBOURS. gives fi v p offset)"

definition room :: "full_input \<Rightarrow> (block_pos \<Rightarrow> nat) \<Rightarrow> nat" where
  "room fi v = (\<Sum>p\<in>open_at fi. 15 - v p)"

text \<open>
  The cells spread so far, each with the level it spread at: they differ, they keep that level and they wait no more.
\<close>

definition spread_once :: "full_input \<Rightarrow> nat \<Rightarrow> (block_pos \<times> nat) list \<Rightarrow> bucket_state \<Rightarrow> bool" where
  "spread_once fi level L st \<longleftrightarrow> distinct (map fst L) \<and>
     (\<forall>(p, l)\<in>set L. p \<in> open_at fi \<and> level \<le> l \<and> bval fi st p = l \<and> \<not> waiting fi st p)"

lemma spread_once_kept:
  assumes "spread_once fi level L st"
    and "\<And>p. p \<in> open_at fi \<Longrightarrow> level \<le> bval fi st p \<Longrightarrow> \<not> waiting fi st p \<Longrightarrow>
      bval fi st' p = bval fi st p \<and> \<not> waiting fi st' p"
  shows "spread_once fi level L st'"
  using assms unfolding spread_once_def by (fastforce simp: case_prod_unfold)

lemma spread_once_cong:
  "bval fi st' = bval fi st \<Longrightarrow> waiting fi st' = waiting fi st \<Longrightarrow> spread_once fi level L st' = spread_once fi level L st"
  by (simp add: spread_once_def)

definition bucket_inv :: "full_input \<Rightarrow> light_channel \<Rightarrow> (block_pos \<Rightarrow> nat) \<Rightarrow> nat \<Rightarrow> nat \<Rightarrow> nat \<Rightarrow>
    (block_pos \<times> nat) list \<Rightarrow> block_pos set \<Rightarrow> bucket_state \<Rightarrow> bool" where
  "bucket_inv fi c v0 C d0 level L X st \<longleftrightarrow>
     length (bk_values st) = grid_volume (new_grid (fi_bounds fi)) \<and> length (bk_buckets st) = LEVELS \<and>
     bk_pending st = sum_list (map length (bk_buckets st)) \<and>
     (\<forall>p\<in>open_at fi. v0 p \<le> bval fi st p \<and> within_field (full_si fi) c p (bval fi st p)) \<and>
     (\<forall>k<LEVELS. distinct (bk_buckets st ! k) \<and> (level < k \<longrightarrow> bk_buckets st ! k = []) \<and>
        (\<forall>cell\<in>set (bk_buckets st ! k). \<exists>p\<in>open_at fi. cell = pad (fi_bounds fi) p \<and> k \<le> bval fi st p)) \<and>
     (\<forall>p\<in>open_at fi - X. 1 < bval fi st p \<longrightarrow> waiting fi st p \<or> settled fi (bval fi st) p) \<and>
     spread_once fi level L st \<and>
     st_increase_dequeued (bk_stats st) = d0 + length L \<and>
     bk_total st + room fi (bval fi st) \<le> C"

lemma bucket_inv_peak [simp]: "bucket_inv fi c v0 C d0 level L X (bucket_peak st) = bucket_inv fi c v0 C d0 level L X st"
proof -
  have "bval fi (bucket_peak st) = bval fi st" by (intro ext) (simp add: bval_def bucket_peak_def)
  then show ?thesis by (simp add: bucket_inv_def waiting_def spread_once_def) (simp add: bucket_peak_def raise_peak_def)
qed

lemma bucket_cell:
  "bucket_inv fi c v0 C d0 level L X st \<Longrightarrow> k < LEVELS \<Longrightarrow> cell \<in> set (bk_buckets st ! k) \<Longrightarrow>
    \<exists>r\<in>open_at fi. cell = pad (fi_bounds fi) r \<and> k \<le> bval fi st r"
  unfolding bucket_inv_def by meson

lemma room_le: "full_ok fi V \<Longrightarrow> room fi v \<le> 15 * V"
proof -
  assume ok: "full_ok fi V"
  have "room fi v \<le> (\<Sum>p\<in>open_at fi. 15)" unfolding room_def by (rule sum_mono) simp
  also have "\<dots> \<le> 15 * V" using card_open_cells [OF full_ok_facts(1) [OF ok]] by simp
  finally show ?thesis .
qed

lemma gives_mono:
  assumes "gives fi v p offset" "v' p = v p" "step p offset \<in> open_at fi \<Longrightarrow> v (step p offset) \<le> v' (step p offset)"
  shows "gives fi v' p offset"
  using assms by (auto simp: gives_def intro: le_trans)

lemma wp_bucket_enqueue:
  assumes "count + 1 \<le> budget" and "\<And>count'. count' \<le> count + 1 \<Longrightarrow> Q count'"
  shows "wp (full_error fi budget) Q (Some (enqueue_counted count 1 (sl_max_queue_entries (fi_limits fi))))"
  using assms by (auto simp: enqueue_counted_def Let_def full_error_def)

text \<open>A push at the level a cell has just reached.\<close>

lemma sum_lengths_push:
  "k < length bs \<Longrightarrow> sum_list (map length (bs[k := bs ! k @ [x]])) = Suc (sum_list (map length bs))"
  by (induction bs arbitrary: k) (auto split: nat.split simp: less_Suc_eq_0_disj)

lemma sum_lengths_pop:
  "k < length bs \<Longrightarrow> bs ! k \<noteq> [] \<Longrightarrow> Suc (sum_list (map length (bs[k := butlast (bs ! k)]))) = sum_list (map length bs)"
  by (induction bs arbitrary: k) (auto split: nat.split simp: less_Suc_eq_0_disj)

subsection \<open>Raising one neighbour\<close>

lemma raise_keeps:
  assumes ok: "full_ok fi V" and seeds: "seeds_ok (full_si fi)" and B: "C \<le> B" and level: "level < LEVELS"
    and p: "p \<in> open_at fi" and offset: "offset \<in> set NEIGHBOURS" and q: "q = step p offset" "q \<in> open_at fi"
    and here: "bval fi st p = level" and candidate: "candidate = level - max (the (filt_at fi q)) 1"
    and up: "bval fi st q < candidate" and inv: "bucket_inv fi c v0 C d0 level L {p} st"
  defines "st1 \<equiv> st\<lparr>bk_values := (bk_values st)[pad (fi_bounds fi) q := candidate]\<rparr>"
  shows "\<And>r. r \<in> open_at fi \<Longrightarrow> bval fi st1 r = (if r = q then candidate else bval fi st r)"
    and "candidate \<le> 1 \<Longrightarrow> bucket_inv fi c v0 C d0 level L {p} st1"
    and "1 < candidate \<Longrightarrow> wp (full_error fi B) (\<lambda>st'. bucket_inv fi c v0 C d0 level L {p} st' \<and> bk_values st' = bk_values st1 \<and>
      bk_buckets st' ! level = bk_buckets st ! level)
      (Some (bucket_push (sl_max_queue_entries (fi_limits fi)) candidate (pad (fi_bounds fi) q) st1))"
proof -
  note okf = full_ok_facts [OF ok]
  have inside: "padded (fi_bounds fi) r" if "r \<in> open_at fi" for r
    using that by (simp add: open_at_iff padded_contain)
  have low: "candidate < level" using up candidate by linarith
  have len: "length (bk_values st) = grid_volume (new_grid (fi_bounds fi))" "length (bk_buckets st) = LEVELS"
    using inv by (simp_all add: bucket_inv_def)
  have pq: "pad (fi_bounds fi) r = pad (fi_bounds fi) q \<longleftrightarrow> r = q" if "r \<in> open_at fi" for r
    by (rule pad_eq_iff [OF okf(2) inside [OF that] inside [OF q(2)]])
  have q_less: "pad (fi_bounds fi) q < length (bk_values st)" unfolding len by (rule pad_less [OF okf(2) inside [OF q(2)]])
  show val: "bval fi st1 r = (if r = q then candidate else bval fi st r)" if "r \<in> open_at fi" for r
    using pq [OF that] q_less by (auto simp: bval_def st1_def nth_list_update)
  have le: "bval fi st r \<le> bval fi st1 r" if "r \<in> open_at fi" for r using val [OF that] up by simp
  have "p = q \<Longrightarrow> False" using here up low by simp
  then have other: "q \<noteq> p" by blast
  have within: "within_field (full_si fi) c q candidate"
  proof -
    have m: "step q (mirror offset) = p" by (simp add: q(1))
    have "within_field (full_si fi) c p level" using inv p here by (auto simp: bucket_inv_def)
    with within_step [OF okf(1) seeds q(2), of "mirror offset" c level] offset show ?thesis
      by (simp add: m candidate)
  qed
  have room: "room fi (bval fi st1) < room fi (bval fi st)"
    unfolding room_def
  proof (rule sum_less_one [OF finite_open_cells [OF okf(1)] q(2)])
    show "15 - bval fi st1 r \<le> 15 - bval fi st r" if "r \<in> open_at fi" for r using le [OF that] by simp
    have "candidate \<le> 15" by (rule within_le [OF okf(1) seeds within])
    then show "15 - bval fi st1 q < 15 - bval fi st q" using val [OF q(2)] up by simp
  qed
  have settles: "settled fi (bval fi st1) r" if "r \<in> open_at fi" "r \<noteq> q" "settled fi (bval fi st) r" for r
    using that(3) unfolding settled_def
  proof (intro ballI)
    fix off assume all: "\<forall>off\<in>set NEIGHBOURS. gives fi (bval fi st) r off" and off: "off \<in> set NEIGHBOURS"
    show "gives fi (bval fi st1) r off"
      by (rule gives_mono [OF bspec [OF all off]]) (use val [OF that(1)] that(2) le in auto)
  qed
  define st2 where "st2 count = st1\<lparr>bk_total := count, bk_buckets := (bk_buckets st)[candidate := bk_buckets st ! candidate @ [pad (fi_bounds fi) q]],
      bk_pending := bk_pending st + 1\<rparr>" for count
  have push: "bucket_push (sl_max_queue_entries (fi_limits fi)) candidate (pad (fi_bounds fi) q) st1 =
      and_then (enqueue_counted (bk_total st) 1 (sl_max_queue_entries (fi_limits fi))) (\<lambda>count. Inr (st2 count))"
  proof -
    have "pad (fi_bounds fi) q < 2 ^ 32" using pad_less [OF okf(2) inside [OF q(2)]] okf(4) by linarith
    then show ?thesis by (simp add: bucket_push_def st2_def st1_def)
  qed
  have cells: "\<exists>r\<in>open_at fi. cell = pad (fi_bounds fi) r \<and> k \<le> bval fi st1 r" if there: "k < LEVELS" "cell \<in> set (bk_buckets st ! k)" for k cell
  proof -
    obtain r where r: "r \<in> open_at fi" "cell = pad (fi_bounds fi) r" "k \<le> bval fi st r" using bucket_cell [OF inv there] by blast
    from le_trans [OF r(3) le [OF r(1)]] show ?thesis using r(1,2) by blast
  qed
  have fresh: "pad (fi_bounds fi) q \<notin> set (bk_buckets st ! candidate)"
  proof
    assume "pad (fi_bounds fi) q \<in> set (bk_buckets st ! candidate)"
    moreover have "candidate < LEVELS" using low level by simp
    ultimately obtain r where "r \<in> open_at fi" "pad (fi_bounds fi) q = pad (fi_bounds fi) r" "candidate \<le> bval fi st r"
      using bucket_cell [OF inv] by blast
    then show False using pq [of r] up by auto
  qed
  show "bucket_inv fi c v0 C d0 level L {p} st1" if "candidate \<le> 1"
    unfolding bucket_inv_def
  proof (intro conjI ballI allI impI)
    fix r assume r: "r \<in> open_at fi"
    show "v0 r \<le> bval fi st1 r" using inv r le [OF r] by (auto simp: bucket_inv_def intro: le_trans)
    show "within_field (full_si fi) c r (bval fi st1 r)" using inv r within by (simp add: bucket_inv_def val)
  next
    fix k cell assume k: "k < LEVELS" and "cell \<in> set (bk_buckets st1 ! k)"
    then show "\<exists>p\<in>open_at fi. cell = pad (fi_bounds fi) p \<and> k \<le> bval fi st1 p" using cells [OF k] by (simp add: st1_def)
  next
    fix r assume r: "r \<in> open_at fi - {p}" and lit: "1 < bval fi st1 r"
    then have rq: "r \<noteq> q" using val that by auto
    then have same: "bval fi st1 r = bval fi st r" using val r by simp
    have "waiting fi st r \<or> settled fi (bval fi st) r" using inv r lit same unfolding bucket_inv_def by auto
    then show "waiting fi st1 r \<or> settled fi (bval fi st1) r"
      using settles r rq by (auto simp: waiting_def same) (simp add: st1_def)
  next
    show "spread_once fi level L st1"
    proof (rule spread_once_kept)
      show "spread_once fi level L st" using inv by (simp add: bucket_inv_def)
    next
      fix r assume r: "r \<in> open_at fi" "level \<le> bval fi st r" "\<not> waiting fi st r"
      then have "bval fi st1 r = bval fi st r" using low up val by auto
      then show "bval fi st1 r = bval fi st r \<and> \<not> waiting fi st1 r" using r(3) by (simp add: waiting_def, simp add: st1_def)
    qed
  next
    show "bk_total st1 + room fi (bval fi st1) \<le> C" using room inv by (simp add: st1_def bucket_inv_def)
  qed (use inv in \<open>simp_all add: bucket_inv_def st1_def\<close>)
  show "wp (full_error fi B) (\<lambda>st'. bucket_inv fi c v0 C d0 level L {p} st' \<and> bk_values st' = bk_values st1 \<and>
      bk_buckets st' ! level = bk_buckets st ! level)
      (Some (bucket_push (sl_max_queue_entries (fi_limits fi)) candidate (pad (fi_bounds fi) q) st1))" if "1 < candidate"
    unfolding push
  proof (rule wp_seq_res [OF wp_bucket_enqueue [where Q = "\<lambda>count. count \<le> bk_total st + 1"]])
    show "bk_total st + 1 \<le> B" using room inv B by (simp add: bucket_inv_def)
  next
    fix count assume count: "count \<le> bk_total st + 1"
    have bval2: "bval fi (st2 count) = bval fi st1" by (intro ext) (simp add: bval_def st2_def)
    have bucket: "bk_buckets (st2 count) ! k = (if k = candidate then bk_buckets st ! k @ [pad (fi_bounds fi) q] else bk_buckets st ! k)"
      if "k < LEVELS" for k using that low level len by (simp add: st2_def nth_list_update)
    have "bucket_inv fi c v0 C d0 level L {p} (st2 count)"
      unfolding bucket_inv_def bval2
    proof (intro conjI ballI allI impI)
      fix r assume r: "r \<in> open_at fi"
      show "v0 r \<le> bval fi st1 r" using inv r le [OF r] by (auto simp: bucket_inv_def intro: le_trans)
      show "within_field (full_si fi) c r (bval fi st1 r)" using inv r within by (simp add: bucket_inv_def val)
    next
      fix k assume k: "k < LEVELS"
      show "distinct (bk_buckets (st2 count) ! k)" using inv k fresh by (simp add: bucket bucket_inv_def)
      show "level < k \<Longrightarrow> bk_buckets (st2 count) ! k = []" using inv k low by (simp add: bucket bucket_inv_def)
    next
      fix k cell assume k: "k < LEVELS" and cell: "cell \<in> set (bk_buckets (st2 count) ! k)"
      show "\<exists>p\<in>open_at fi. cell = pad (fi_bounds fi) p \<and> k \<le> bval fi st1 p"
        using cell cells [OF k, of cell] q(2) val [OF q(2)] by (auto simp: bucket [OF k] split: if_splits)
    next
      fix r assume r: "r \<in> open_at fi - {p}" and lit: "1 < bval fi st1 r"
      show "waiting fi (st2 count) r \<or> settled fi (bval fi st1) r"
      proof (cases "r = q")
        case True
        then show ?thesis using low level val [OF q(2)] by (simp add: waiting_def bval2 bucket)
      next
        case False
        then have same: "bval fi st1 r = bval fi st r" using val r by simp
        have "waiting fi st r \<or> settled fi (bval fi st) r" using inv r lit same unfolding bucket_inv_def by auto
        moreover have "bval fi st r < LEVELS"
        proof -
          have "bval fi st r \<le> 15" using inv r by (intro within_le [OF okf(1) seeds, of c r]) (simp add: bucket_inv_def)
          then show ?thesis by (simp add: LEVELS_def)
        qed
        ultimately show ?thesis using settles r False by (auto simp: waiting_def bval2 same bucket)
      qed
    next
      show "spread_once fi level L (st2 count)"
      proof (rule spread_once_kept)
        show "spread_once fi level L st" using inv by (simp add: bucket_inv_def)
      next
        fix r assume r: "r \<in> open_at fi" "level \<le> bval fi st r" "\<not> waiting fi st r"
        then have same: "bval fi st1 r = bval fi st r" and above: "candidate < bval fi st r" using low up val by auto
        have "bval fi st r \<le> 15" using inv r(1) by (intro within_le [OF okf(1) seeds, of c r]) (simp add: bucket_inv_def)
        then have "bval fi st r < LEVELS" by (simp add: LEVELS_def)
        then show "bval fi (st2 count) r = bval fi st r \<and> \<not> waiting fi (st2 count) r"
          using r(3) above by (simp add: waiting_def bval2 same bucket)
      qed
    next
      show "bk_pending (st2 count) = sum_list (map length (bk_buckets (st2 count)))"
        using inv low level len by (simp add: st2_def bucket_inv_def sum_lengths_push)
      show "bk_total (st2 count) + room fi (bval fi st1) \<le> C" using room inv count by (simp add: st2_def bucket_inv_def)
    qed (use inv in \<open>simp_all add: bucket_inv_def st2_def st1_def\<close>)
    then show "wp (full_error fi B) (\<lambda>st'. bucket_inv fi c v0 C d0 level L {p} st' \<and> bk_values st' = bk_values st1 \<and>
        bk_buckets st' ! level = bk_buckets st ! level) (Some (Inr (st2 count)))"
      using bucket [OF level] low by (simp add: st2_def)
  qed simp
qed

section \<open>Draining the buckets\<close>

lemma bval_buckets [simp]: "bval fi (st\<lparr>bk_buckets := bs\<rparr>) = bval fi st" "bval fi (st\<lparr>bk_pending := n\<rparr>) = bval fi st"
  "bval fi (st\<lparr>bk_stats := stats\<rparr>) = bval fi st"
  by (intro ext; simp add: bval_def)+

lemma bval_peak [simp]: "bval fi (bucket_peak st) = bval fi st"
  by (intro ext) (simp add: bval_def bucket_peak_def)

lemma spread_into_keeps:
  assumes ok: "full_ok fi V" and seeds: "seeds_ok (full_si fi)" and B: "C \<le> B" and level: "level < LEVELS"
    and filters: "filters_read fi fs" and p: "p \<in> open_at fi" and offset: "offset \<in> set NEIGHBOURS"
    and s: "wrapping_step (pad (fi_bounds fi) p) s = pad (fi_bounds fi) (step p offset)"
    and here: "bval fi st p = level" and inv: "bucket_inv fi c v0 C d0 level L {p} st"
  shows "wp (full_error fi B) (\<lambda>st'. bucket_inv fi c v0 C d0 level L {p} st' \<and> bval fi st' p = level \<and>
      bk_buckets st' ! level = bk_buckets st ! level \<and> gives fi (bval fi st') p offset \<and>
      (\<forall>off\<in>set NEIGHBOURS. gives fi (bval fi st) p off \<longrightarrow> gives fi (bval fi st') p off))
    (spread_into (fs_filter fs) (sl_max_queue_entries (fi_limits fi)) level (pad (fi_bounds fi) p) s st)"
    (is "wp _ ?Q _")
proof -
  let ?q = "step p offset" and ?mx = "sl_max_queue_entries (fi_limits fi)"
  have b: "bounds_contain (fi_bounds fi) p" using p by (simp add: open_at_iff)
  note q = padded_step [OF b offset]
  show ?thesis
  proof (cases "?q \<in> open_at fi")
    case False
    then have "fs_filter fs ! pad (fi_bounds fi) ?q = BLOCKED" using filters_value(1) [OF ok filters q] by blast
    then show ?thesis using False inv here by (simp add: spread_into_def s gives_def)
  next
    case True
    have f: "fs_filter fs ! pad (fi_bounds fi) ?q = the (filt_at fi ?q)" "the (filt_at fi ?q) \<noteq> BLOCKED"
      using filters_value [OF ok filters q] True by auto
    define candidate where "candidate = level - max (the (filt_at fi ?q)) 1"
    define st1 where "st1 = st\<lparr>bk_values := (bk_values st)[pad (fi_bounds fi) ?q := candidate]\<rparr>"
    have run: "spread_into (fs_filter fs) ?mx level (pad (fi_bounds fi) p) s st =
        (if candidate > bval fi st ?q
         then if candidate > 1 then Some (and_then (bucket_push ?mx candidate (pad (fi_bounds fi) ?q) st1) (\<lambda>st. Inr (bucket_peak st)))
              else Some (Inr st1)
         else Some (Inr st))"
      unfolding spread_into_def Let_def s f(1) if_not_P [OF f(2)] by (simp only: candidate_def bval_def st1_def)
    show ?thesis
    proof (cases "bval fi st ?q < candidate")
      case False
      then have "gives fi (bval fi st) p offset" by (simp add: gives_def here candidate_def)
      then show ?thesis using False inv here by (simp add: run)
    next
      case up: True
      note raised = raise_keeps [OF ok seeds B level p offset refl True here candidate_def up inv, folded st1_def]
      have other: "p \<noteq> ?q" using up here candidate_def by fastforce
      have le: "bval fi st r \<le> bval fi st1 r" if "r \<in> open_at fi" for r using raised(1) [OF that] up by simp
      have here1: "bval fi st1 p = level" using raised(1) [OF p] other here by simp
      have given: "gives fi (bval fi st1) p offset" using here1 raised(1) [OF True] by (simp add: gives_def candidate_def)
      have keep: "\<forall>off\<in>set NEIGHBOURS. gives fi (bval fi st) p off \<longrightarrow> gives fi (bval fi st1) p off"
        using gives_mono [of fi "bval fi st" p] here here1 le by blast
      show ?thesis
      proof (cases "1 < candidate")
        case False
        have "bucket_inv fi c v0 C d0 level L {p} st1" by (rule raised(2)) (use False in simp)
        then show ?thesis using False up here1 given keep by (simp add: run, simp add: st1_def)
      next
        case push: True
        show ?thesis
          unfolding run if_P [OF up] if_P [OF push]
        proof (rule wp_seq_res [OF raised(3) [OF push]])
          fix st' assume st': "bucket_inv fi c v0 C d0 level L {p} st' \<and> bk_values st' = bk_values st1 \<and>
            bk_buckets st' ! level = bk_buckets st ! level"
          then have "bval fi st' = bval fi st1" by (intro ext) (simp add: bval_def)
          then show "wp (full_error fi B) ?Q (Some (Inr (bucket_peak st')))"
            using st' here1 given keep by simp (simp add: bucket_peak_def)
        qed
      qed
    qed
  qed
qed

lemma bucket_inv_settle:
  assumes "bucket_inv fi c v0 C d0 level L {p} st" "settled fi (bval fi st) p"
  shows "bucket_inv fi c v0 C d0 level L {} st"
  using assms unfolding bucket_inv_def by blast

lemma spread_steps_keep:
  assumes ok: "full_ok fi V" and seeds: "seeds_ok (full_si fi)" and B: "C \<le> B" and level: "level < LEVELS"
    and filters: "filters_read fi fs" and p: "p \<in> open_at fi"
    and here: "bval fi st p = level" and inv: "bucket_inv fi c v0 C d0 level L {p} st"
  shows "wp (full_error fi B) (\<lambda>st'. bucket_inv fi c v0 C d0 level L {} st' \<and> bk_buckets st' ! level = bk_buckets st ! level)
    (for_each (spread_into (fs_filter fs) (sl_max_queue_entries (fi_limits fi)) level (pad (fi_bounds fi) p))
      (grid_steps (new_grid (fi_bounds fi))) st)"
proof -
  note okf = full_ok_facts [OF ok]
  have b: "bounds_contain (fi_bounds fi) p" using p by (simp add: open_at_iff)
  note cover = steps_cover [OF okf(2,4) b]
  define I where "I = (\<lambda>steps st'. bucket_inv fi c v0 C d0 level L {p} st' \<and> bval fi st' p = level \<and>
    bk_buckets st' ! level = bk_buckets st ! level \<and>
    (\<forall>s\<in>set steps. \<forall>offset\<in>set NEIGHBOURS. wrapping_step (pad (fi_bounds fi) p) s = pad (fi_bounds fi) (step p offset) \<longrightarrow>
      gives fi (bval fi st') p offset))"
  have "wp (full_error fi B) (I (grid_steps (new_grid (fi_bounds fi))))
    (for_each (spread_into (fs_filter fs) (sl_max_queue_entries (fi_limits fi)) level (pad (fi_bounds fi) p))
      (grid_steps (new_grid (fi_bounds fi))) st)"
  proof (rule wp_for_each [where I = I])
    show "I [] st" using inv here by (simp add: I_def)
  next
    fix steps s todo st'
    assume split: "grid_steps (new_grid (fi_bounds fi)) = steps @ s # todo" and st': "I steps st'"
    have "s \<in> set (grid_steps (new_grid (fi_bounds fi)))" by (simp add: split)
    from cover(1) [OF this] obtain offset where offset: "offset \<in> set NEIGHBOURS"
      and s: "wrapping_step (pad (fi_bounds fi) p) s = pad (fi_bounds fi) (step p offset)" by blast
    have only: "off = offset" if "off \<in> set NEIGHBOURS" "pad (fi_bounds fi) (step p offset) = pad (fi_bounds fi) (step p off)" for off
    proof -
      have "step p offset = step p off"
        using pad_inj [OF okf(2) padded_step [OF b offset] padded_step [OF b that(1)] that(2)] .
      then show ?thesis by (cases off; cases offset) (simp add: step_def)
    qed
    have now: "bucket_inv fi c v0 C d0 level L {p} st'" "bval fi st' p = level" using st' by (simp_all add: I_def)
    show "wp (full_error fi B) (I (steps @ [s]))
        (spread_into (fs_filter fs) (sl_max_queue_entries (fi_limits fi)) level (pad (fi_bounds fi) p) s st')"
    proof (rule wp_mono [OF spread_into_keeps [OF ok seeds B level filters p offset s now(2,1)]])
      fix st'' assume st'': "bucket_inv fi c v0 C d0 level L {p} st'' \<and> bval fi st'' p = level \<and>
        bk_buckets st'' ! level = bk_buckets st' ! level \<and> gives fi (bval fi st'') p offset \<and>
        (\<forall>off\<in>set NEIGHBOURS. gives fi (bval fi st') p off \<longrightarrow> gives fi (bval fi st'') p off)"
      then show "I (steps @ [s]) st''" using st' only unfolding I_def by (auto simp: s)
    qed
  qed
  then show ?thesis
  proof (rule wp_mono)
    fix st' assume st': "I (grid_steps (new_grid (fi_bounds fi))) st'"
    have "settled fi (bval fi st') p"
      unfolding settled_def
    proof
      fix offset assume offset: "offset \<in> set NEIGHBOURS"
      from cover(2) [OF this] st' offset show "gives fi (bval fi st') p offset" unfolding I_def by blast
    qed
    then show "bucket_inv fi c v0 C d0 level L {} st' \<and> bk_buckets st' ! level = bk_buckets st ! level"
      using st' bucket_inv_settle unfolding I_def by blast
  qed
qed

subsection \<open>One entry\<close>

lemma drain_one:
  assumes ok: "full_ok fi V" and seeds: "seeds_ok (full_si fi)" and B: "C \<le> B" and level: "level < LEVELS"
    and filters: "filters_read fi fs" and inv: "bucket_inv fi c v0 C d0 level L {} st"
    and popped: "bucket_pop level st = Some (cell, st1)"
  shows "wp (full_error fi B) (\<lambda>st'. (\<exists>L'. bucket_inv fi c v0 C d0 level (L @ L') {} st' \<and>
        map (apfst (pad (fi_bounds fi))) L' = (if bk_values st1 ! cell = level then [(cell, level)] else [])) \<and>
      length (bk_buckets st' ! level) < length (bk_buckets st ! level))
    (spread_cell (new_grid (fi_bounds fi)) (fs_filter fs) (sl_max_queue_entries (fi_limits fi)) level cell st1)"
proof -
  note okf = full_ok_facts [OF ok]
  let ?bs = "bk_buckets st ! level"
  have bs: "?bs \<noteq> []" and cell: "cell = last ?bs" and st1: "st1 = st\<lparr>bk_buckets := (bk_buckets st)[level := butlast ?bs]\<rparr>"
    using popped by (auto simp: bucket_pop_def split: list.splits)
  have len: "length (bk_buckets st) = LEVELS" using inv by (simp add: bucket_inv_def)
  have sum: "Suc (sum_list (map length ((bk_buckets st)[level := butlast ?bs]))) = bk_pending st"
    using sum_lengths_pop [of level "bk_buckets st"] level len bs inv by (simp add: bucket_inv_def)
  have split: "?bs = butlast ?bs @ [cell]" using bs by (simp add: cell)
  have "cell \<in> set ?bs" using bs by (simp add: cell)
  from bucket_cell [OF inv level this] obtain p where p: "p \<in> open_at fi" and cp: "cell = pad (fi_bounds fi) p"
    and high: "level \<le> bval fi st p" by blast
  have inside: "padded (fi_bounds fi) r" if "r \<in> open_at fi" for r using that by (simp add: open_at_iff padded_contain)
  have pq: "pad (fi_bounds fi) r = cell \<longleftrightarrow> r = p" if "r \<in> open_at fi" for r
    unfolding cp by (rule pad_eq_iff [OF okf(2) inside [OF that] inside [OF p]])
  have dist: "distinct ?bs" using inv level by (simp add: bucket_inv_def)
  then have gone: "cell \<notin> set (butlast ?bs)" using split by (metis distinct_append disjoint_iff list.set_intros(1))
  have mem: "x \<in> set ?bs \<longleftrightarrow> x \<in> set (butlast ?bs) \<or> x = cell" for x using split by (metis Un_iff list.set(1) list.set(2) set_append singletonD insertI1)
  define st2 where "st2 = st1\<lparr>bk_pending := bk_pending st1 - 1\<rparr>"
  have bval2: "bval fi st2 = bval fi st" by (simp add: st2_def st1)
  have bucket: "bk_buckets st2 ! k = (if k = level then butlast ?bs else bk_buckets st ! k)" if "k < LEVELS" for k
    using that len level by (simp add: st2_def st1 nth_list_update)
  have below: "bval fi st r < LEVELS" if "r \<in> open_at fi" for r
  proof -
    have "bval fi st r \<le> 15" using inv that by (intro within_le [OF okf(1) seeds, of c r]) (simp add: bucket_inv_def)
    then show ?thesis by (simp add: LEVELS_def)
  qed
  have waits: "waiting fi st2 r \<longleftrightarrow> waiting fi st r \<and> \<not> (r = p \<and> bval fi st p = level)" if "r \<in> open_at fi" for r
    using pq [OF that] gone mem [of "pad (fi_bounds fi) r"] by (auto simp: waiting_def bval2 bucket [OF below [OF that]])
  have kept: "bucket_inv fi c v0 C d0 level L {r. r = p \<and> bval fi st p = level} st2"
    unfolding bucket_inv_def bval2
  proof (intro conjI ballI allI impI)
    fix r assume r: "r \<in> open_at fi"
    show "v0 r \<le> bval fi st r" "within_field (full_si fi) c r (bval fi st r)" using inv r by (simp_all add: bucket_inv_def)
  next
    fix k assume k: "k < LEVELS"
    show "distinct (bk_buckets st2 ! k)" using inv k dist by (simp add: bucket bucket_inv_def distinct_butlast)
    show "level < k \<Longrightarrow> bk_buckets st2 ! k = []" using inv k by (simp add: bucket bucket_inv_def)
  next
    fix k x assume k: "k < LEVELS" and "x \<in> set (bk_buckets st2 ! k)"
    then have "x \<in> set (bk_buckets st ! k)" using in_set_butlastD by (auto simp: bucket [OF k] split: if_splits)
    from bucket_cell [OF inv k this] show "\<exists>p\<in>open_at fi. x = pad (fi_bounds fi) p \<and> k \<le> bval fi st p" .
  next
    fix r assume "r \<in> open_at fi - {r. r = p \<and> bval fi st p = level}" "1 < bval fi st r"
    then show "waiting fi st2 r \<or> settled fi (bval fi st) r"
      using inv waits [of r] unfolding bucket_inv_def by auto
  next
    show "spread_once fi level L st2"
    proof (rule spread_once_kept)
      show "spread_once fi level L st" using inv by (simp add: bucket_inv_def)
      show "bval fi st2 r = bval fi st r \<and> \<not> waiting fi st2 r" if "r \<in> open_at fi" "\<not> waiting fi st r" for r
        using waits [OF that(1)] that(2) by (simp add: bval2)
    qed
  next
    show "bk_pending st2 = sum_list (map length (bk_buckets st2))" using sum by (simp add: st2_def st1)
  qed (use inv in \<open>simp_all add: bucket_inv_def st2_def st1\<close>)
  have shorter: "length (bk_buckets st2 ! level) < length ?bs" using bs by (simp add: bucket [OF level])
  have pending: "bk_pending st1 \<noteq> 0" using sum by (simp add: st1)
  have level_is: "bk_values st2 ! cell = bval fi st p" by (simp add: bval_def st2_def st1 cp)
  show ?thesis
  proof (cases "bval fi st p = level")
    case False
    then have none: "{r. r = p \<and> bval fi st p = level} = {}" by blast
    have "spread_cell (new_grid (fi_bounds fi)) (fs_filter fs) (sl_max_queue_entries (fi_limits fi)) level cell st1 = Some (Inr st2)"
      using False pending level_is by (simp add: spread_cell_def st2_def)
    moreover have "map (apfst (pad (fi_bounds fi))) [] = (if bk_values st1 ! cell = level then [(cell, level)] else [])"
      using False level_is by (simp add: st2_def)
    ultimately show ?thesis using kept [unfolded none] shorter by (auto intro!: exI [of _ "[]"])
  next
    case here: True
    then have one: "{r. r = p \<and> bval fi st p = level} = {p}" by blast
    define st3 where "st3 = st2\<lparr>bk_stats := (bk_stats st2)\<lparr>st_increase_dequeued := st_increase_dequeued (bk_stats st2) + 1\<rparr>\<rparr>"
    have bval3: "bval fi st3 = bval fi st2" by (simp add: st3_def)
    have waits3: "waiting fi st3 = waiting fi st2" by (intro ext, simp add: waiting_def bval3, simp add: st3_def)
    have "waiting fi st p" using \<open>cell \<in> set ?bs\<close> by (simp add: waiting_def here cp)
    then have new: "p \<notin> fst ` set L" using inv by (auto simp: bucket_inv_def spread_once_def)
    have "\<not> waiting fi st2 p" using waits [OF p] here by simp
    then have inv3: "bucket_inv fi c v0 C d0 level (L @ [(p, level)]) {p} st3"
      using kept [unfolded one] p here new
      unfolding bucket_inv_def bval3 waits3 by (simp add: bval2 spread_once_def bval3 waits3) (auto simp: st3_def)
    have run: "spread_cell (new_grid (fi_bounds fi)) (fs_filter fs) (sl_max_queue_entries (fi_limits fi)) level cell st1 =
        for_each (spread_into (fs_filter fs) (sl_max_queue_entries (fi_limits fi)) level (pad (fi_bounds fi) p))
          (grid_steps (new_grid (fi_bounds fi))) st3"
      using here pending level_is by (simp add: spread_cell_def st2_def st3_def cp)
    have here3: "bval fi st3 p = level" by (simp add: bval3 bval2 here)
    show ?thesis
      unfolding run
    proof (rule wp_mono [OF spread_steps_keep [OF ok seeds B level filters p here3 inv3]])
      fix st' assume "bucket_inv fi c v0 C d0 level (L @ [(p, level)]) {} st' \<and> bk_buckets st' ! level = bk_buckets st3 ! level"
      moreover have "map (apfst (pad (fi_bounds fi))) [(p, level)] = (if bk_values st1 ! cell = level then [(cell, level)] else [])"
        using here level_is by (simp add: st2_def cp)
      ultimately show "(\<exists>L'. bucket_inv fi c v0 C d0 level (L @ L') {} st' \<and>
          map (apfst (pad (fi_bounds fi))) L' = (if bk_values st1 ! cell = level then [(cell, level)] else [])) \<and>
        length (bk_buckets st' ! level) < length ?bs"
        using shorter by (intro conjI exI [of _ "[(p, level)]"]) (simp_all add: st3_def)
    qed
  qed
qed

end
