(* ===== verification/Full_Levels.thy ===== *)
theory Full_Levels
  imports Full_Spread
begin

section \<open>All levels\<close>

text \<open>
  What a drain does, entry by entry: \<open>drain_log\<close> relates the states before and after to the list of the cells it
  spread, each with its level, in the order it spread them.  An entry whose cell has another level by now is popped and
  not spread.
\<close>

inductive drain_log :: "light_grid \<Rightarrow> nat list \<Rightarrow> usize \<Rightarrow> nat \<Rightarrow> bucket_state \<Rightarrow> (usize \<times> nat) list \<Rightarrow> bucket_state \<Rightarrow> bool"
  for g :: light_grid and filter' :: "nat list" and mx :: usize and level :: nat where
  drained: "bucket_pop level st = None \<Longrightarrow> drain_log g filter' mx level st [] st"
| stale: "bucket_pop level st = Some (cell, st1) \<Longrightarrow> bk_values st1 ! cell \<noteq> level \<Longrightarrow>
    spread_cell g filter' mx level cell st1 = Some (Inr st2) \<Longrightarrow> drain_log g filter' mx level st2 entries st3 \<Longrightarrow>
    drain_log g filter' mx level st entries st3"
| spreads: "bucket_pop level st = Some (cell, st1) \<Longrightarrow> bk_values st1 ! cell = level \<Longrightarrow>
    spread_cell g filter' mx level cell st1 = Some (Inr st2) \<Longrightarrow> drain_log g filter' mx level st2 entries st3 \<Longrightarrow>
    drain_log g filter' mx level st ((cell, level) # entries) st3"

inductive levels_log :: "light_grid \<Rightarrow> nat list \<Rightarrow> usize \<Rightarrow> nat list \<Rightarrow> bucket_state \<Rightarrow> (usize \<times> nat) list \<Rightarrow> bucket_state \<Rightarrow> bool"
  for g :: light_grid and filter' :: "nat list" and mx :: usize where
  no_level: "levels_log g filter' mx [] st [] st"
| next_level: "drain_log g filter' mx level st entries st1 \<Longrightarrow> levels_log g filter' mx levels st1 entries' st2 \<Longrightarrow>
    levels_log g filter' mx (level # levels) st (entries @ entries') st2"

definition spread_log :: "light_grid \<Rightarrow> nat list \<Rightarrow> usize \<Rightarrow> bucket_state \<Rightarrow> (usize \<times> nat) list \<Rightarrow> bucket_state \<Rightarrow> bool" where
  "spread_log g filter' mx st entries st' \<longleftrightarrow>
     (\<exists>st1. for_each (seed_bucket g filter' mx) (grid_cells g)
        (st\<lparr>bk_pending := 0, bk_buckets := map (\<lambda>_. []) (bk_buckets st)\<rparr>) = Some (Inr st1) \<and>
      levels_log g filter' mx (rev [2..<LEVELS]) (bucket_peak st1) entries st')"

lemma drain_step:
  "bucket_pop level st = Some (cell, st1) \<Longrightarrow> drain_bucket g filter' mx level st =
    then_do (spread_cell g filter' mx level cell st1) (drain_bucket g filter' mx level)"
  by (subst drain_bucket.simps) (simp add: then_do_def)

text \<open>The logged runs are the runs of the code, and a run has one log.\<close>

lemma drain_log_run: "drain_log g filter' mx level st entries st' \<Longrightarrow> drain_bucket g filter' mx level st = Some (Inr st')"
proof (induction rule: drain_log.induct)
  case (drained st)
  then show ?case by (subst drain_bucket.simps) simp
qed (simp_all add: drain_step then_do_def)

lemma levels_log_run:
  "levels_log g filter' mx levels st entries st' \<Longrightarrow> for_each (drain_bucket g filter' mx) levels st = Some (Inr st')"
  by (induction rule: levels_log.induct) (simp_all add: then_do_def drain_log_run)

lemma spread_log_run: "spread_log g filter' mx st entries st' \<Longrightarrow> spread_buckets g filter' mx st = Some (Inr st')"
  by (auto simp: spread_log_def spread_buckets_def then_do_def dest: levels_log_run)

lemma drain_log_unique:
  "drain_log g filter' mx level st entries st' \<Longrightarrow> drain_log g filter' mx level st entries' st'' \<Longrightarrow> entries' = entries \<and> st'' = st'"
proof (induction arbitrary: entries' st'' rule: drain_log.induct)
  case (drained st)
  from drained.prems drained.hyps show ?case by (cases rule: drain_log.cases) simp_all
next
  case (stale st cell st1 st2 entries st3)
  note first = stale.hyps(1-3) and IH = stale.IH
  from stale.prems show ?case
  proof (cases rule: drain_log.cases)
    case (stale cell' st1' st2')
    then have "st2' = st2" using first by simp
    then show ?thesis using IH stale(4) by blast
  qed (use first in simp_all)
next
  case (spreads st cell st1 st2 entries st3)
  note first = spreads.hyps(1-3) and IH = spreads.IH
  from spreads.prems show ?case
  proof (cases rule: drain_log.cases)
    case (spreads cell' st1' st2' entries2)
    then have "st2' = st2" "cell' = cell" using first by simp_all
    then show ?thesis using IH [OF spreads(5)[unfolded \<open>st2' = st2\<close>]] spreads(1) by simp
  qed (use first in simp_all)
qed

lemma levels_log_unique:
  "levels_log g filter' mx levels st entries st' \<Longrightarrow> levels_log g filter' mx levels st entries' st'' \<Longrightarrow> entries' = entries \<and> st'' = st'"
proof (induction arbitrary: entries' st'' rule: levels_log.induct)
  case (no_level st)
  then show ?case by (auto elim: levels_log.cases)
next
  case (next_level level st entries st1 levels entries2 st2)
  from next_level.prems show ?case
  proof (cases rule: levels_log.cases)
    case (next_level entries0 st0 entries3)
    then show ?thesis using drain_log_unique [OF next_level.hyps(1)] next_level.IH by blast
  qed
qed

lemma spread_log_unique:
  assumes "spread_log g filter' mx st entries st'" "spread_log g filter' mx st entries' st''"
  shows "entries' = entries \<and> st'' = st'"
  using assms levels_log_unique unfolding spread_log_def by fastforce

lemma levels_log_snoc:
  "levels_log g filter' mx levels st entries st1 \<Longrightarrow> drain_log g filter' mx level st1 entries' st2 \<Longrightarrow>
    levels_log g filter' mx (levels @ [level]) st (entries @ entries') st2"
proof (induction rule: levels_log.induct)
  case (no_level st)
  then show ?case using levels_log.next_level [OF _ levels_log.no_level] by fastforce
next
  case (next_level l st entries0 st1 levels entries1 st2)
  then show ?case using levels_log.next_level by fastforce
qed

text \<open>Brighter cells first.\<close>

lemma drain_log_level: "drain_log g filter' mx level st entries st' \<Longrightarrow> (cell, l) \<in> set entries \<Longrightarrow> l = level"
  by (induction rule: drain_log.induct) auto

lemma levels_log_sorted:
  "levels_log g filter' mx levels st entries st' \<Longrightarrow> sorted_wrt (\<ge>) levels \<Longrightarrow>
    sorted_wrt (\<ge>) (map snd entries) \<and> snd ` set entries \<subseteq> set levels"
proof (induction rule: levels_log.induct)
  case (next_level level st entries st1 levels entries' st2)
  have same: "snd e = level" if "e \<in> set entries" for e
    using drain_log_level [OF next_level.hyps(1), of "fst e" "snd e"] that by simp
  then have "sorted_wrt (\<ge>) (map snd entries)" by (simp add: sorted_wrt_iff_nth_less)
  moreover have "l \<le> level" if "l \<in> snd ` set entries'" for l using next_level that by auto
  ultimately show ?case using next_level same by (auto simp: sorted_wrt_append)
qed simp

lemma spread_log_sorted: "spread_log g filter' mx st entries st' \<Longrightarrow> sorted_wrt (\<ge>) (map snd entries)"
proof -
  have "sorted_wrt (\<ge>) (rev [2..<LEVELS])" by (simp add: sorted_wrt_rev)
  then show "spread_log g filter' mx st entries st' \<Longrightarrow> sorted_wrt (\<ge>) (map snd entries)"
    unfolding spread_log_def using levels_log_sorted by blast
qed

lemma wp_result: "wp E Q m \<Longrightarrow> wp E (\<lambda>s. Q s \<and> m = Some (Inr s)) m"
  by (auto simp: wp_def split: option.splits sum.splits)

lemma drain_all:
  assumes ok: "full_ok fi V" and seeds: "seeds_ok (full_si fi)" and B: "C \<le> B" and level: "level < LEVELS"
    and filters: "filters_read fi fs" and inv: "bucket_inv fi c v0 C d0 level L {} st"
  defines "g \<equiv> new_grid (fi_bounds fi)" and "mx \<equiv> sl_max_queue_entries (fi_limits fi)"
  shows "wp (full_error fi B) (\<lambda>st'. (\<exists>L'. bucket_inv fi c v0 C d0 level (L @ L') {} st' \<and>
      drain_log g (fs_filter fs) mx level st (map (apfst (pad (fi_bounds fi))) L') st') \<and> bk_buckets st' ! level = [])
    (drain_bucket g (fs_filter fs) mx level st)"
  using inv
proof (induction "length (bk_buckets st ! level)" arbitrary: st L rule: less_induct)
  case less
  show ?case
  proof (cases "bucket_pop level st")
    case None
    then have "bk_buckets st ! level = []" by (simp add: bucket_pop_def split: list.splits)
    then show ?thesis using None less.prems drain_log.drained [OF None]
      by (subst drain_bucket.simps) (auto intro!: exI [of _ "[]"])
  next
    case (Some popped)
    obtain cell st1 where popped: "popped = (cell, st1)" by (rule prod.exhaust)
    note pop = Some [unfolded popped]
    note one = wp_result [OF drain_one [OF ok seeds B level filters less.prems pop], folded g_def mx_def]
    show ?thesis
      unfolding drain_step [OF pop]
    proof (rule wp_seq [OF one])
      fix st2 assume st2: "((\<exists>L'. bucket_inv fi c v0 C d0 level (L @ L') {} st2 \<and>
          map (apfst (pad (fi_bounds fi))) L' = (if bk_values st1 ! cell = level then [(cell, level)] else [])) \<and>
        length (bk_buckets st2 ! level) < length (bk_buckets st ! level)) \<and>
        spread_cell g (fs_filter fs) mx level cell st1 = Some (Inr st2)"
      then obtain L1 where L1: "bucket_inv fi c v0 C d0 level (L @ L1) {} st2"
        "map (apfst (pad (fi_bounds fi))) L1 = (if bk_values st1 ! cell = level then [(cell, level)] else [])" by blast
      have shorter: "length (bk_buckets st2 ! level) < length (bk_buckets st ! level)" using st2 by blast
      show "wp (full_error fi B) (\<lambda>st'. (\<exists>L'. bucket_inv fi c v0 C d0 level (L @ L') {} st' \<and>
          drain_log g (fs_filter fs) mx level st (map (apfst (pad (fi_bounds fi))) L') st') \<and> bk_buckets st' ! level = [])
        (drain_bucket g (fs_filter fs) mx level st2)"
      proof (rule wp_mono [OF less.hyps [OF shorter L1(1)]], elim conjE exE, intro conjI)
        fix st' L2 assume L2: "bucket_inv fi c v0 C d0 level ((L @ L1) @ L2) {} st'"
          "drain_log g (fs_filter fs) mx level st2 (map (apfst (pad (fi_bounds fi))) L2) st'"
        have "drain_log g (fs_filter fs) mx level st (map (apfst (pad (fi_bounds fi))) (L1 @ L2)) st'"
          using drain_log.stale [OF pop _ _ L2(2)] drain_log.spreads [OF pop _ _ L2(2)] st2
          by (simp only: map_append L1(2) split: if_split) simp
        then show "\<exists>L'. bucket_inv fi c v0 C d0 level (L @ L') {} st' \<and>
            drain_log g (fs_filter fs) mx level st (map (apfst (pad (fi_bounds fi))) L') st'"
          using L2(1) by (intro exI [of _ "L1 @ L2"]) simp
      qed
    qed
  qed
qed

lemma level_down:
  assumes "bucket_inv fi c v0 C d0 (Suc level) L {} st" "bk_buckets st ! Suc level = []"
  shows "bucket_inv fi c v0 C d0 level L {} st"
proof -
  have "k = Suc level \<or> Suc level < k" if "level < k" for k using that by linarith
  moreover have "spread_once fi (Suc level) L st \<Longrightarrow> spread_once fi level L st" unfolding spread_once_def by auto
  ultimately show ?thesis using assms unfolding bucket_inv_def by auto
qed

lemma drain_levels:
  assumes ok: "full_ok fi V" and seeds: "seeds_ok (full_si fi)" and B: "C \<le> B" and filters: "filters_read fi fs"
    and inv: "bucket_inv fi c v0 C d0 15 [] {} st"
  defines "g \<equiv> new_grid (fi_bounds fi)" and "mx \<equiv> sl_max_queue_entries (fi_limits fi)"
  shows "wp (full_error fi B) (\<lambda>st'. \<exists>L. bucket_inv fi c v0 C d0 1 L {} st' \<and>
      levels_log g (fs_filter fs) mx (rev [2..<LEVELS]) st (map (apfst (pad (fi_bounds fi))) L) st')
    (for_each (drain_bucket g (fs_filter fs) mx) (rev [2..<LEVELS]) st)"
proof -
  define I where "I = (\<lambda>levels st'. \<exists>L. bucket_inv fi c v0 C d0 (15 - length levels) L {} st' \<and>
    levels_log g (fs_filter fs) mx levels st (map (apfst (pad (fi_bounds fi))) L) st')"
  have "wp (full_error fi B) (I (rev [2..<LEVELS])) (for_each (drain_bucket g (fs_filter fs) mx) (rev [2..<LEVELS]) st)"
  proof (rule wp_for_each [where I = I])
    show "I [] st" using inv levels_log.no_level by (force simp: I_def)
  next
    fix levels level todo st'
    assume split: "rev [2..<LEVELS] = levels @ level # todo" and st': "I levels st'"
    have len: "length levels < 14" using arg_cong [OF split, of length] by (simp add: LEVELS_def)
    have sixteen: "LEVELS = 16" by (simp add: LEVELS_def)
    have n: "length levels < length [2..<LEVELS]" using len unfolding length_upt sixteen by linarith
    have "level = rev [2..<LEVELS] ! length levels" by (simp add: split)
    also have "\<dots> = [2..<LEVELS] ! (length [2..<LEVELS] - Suc (length levels))" by (rule rev_nth [OF n])
    also have "\<dots> = 2 + (LEVELS - 2 - Suc (length levels))"
      unfolding length_upt by (rule nth_upt) (use len sixteen in linarith)
    finally have level: "level = 15 - length levels" using len sixteen by linarith
    obtain below where below: "level = Suc below" "below = 15 - length (levels @ [level])" using level len by (cases level) auto
    have "level < LEVELS" using level by (simp add: LEVELS_def)
    obtain L where L: "bucket_inv fi c v0 C d0 level L {} st'"
      "levels_log g (fs_filter fs) mx levels st (map (apfst (pad (fi_bounds fi))) L) st'" using st' by (auto simp: I_def level)
    show "wp (full_error fi B) (I (levels @ [level])) (drain_bucket g (fs_filter fs) mx level st')"
    proof (rule wp_mono [OF drain_all [OF ok seeds B \<open>level < LEVELS\<close> filters L(1), folded g_def mx_def]], elim conjE exE)
      fix st'' L' assume L': "bucket_inv fi c v0 C d0 level (L @ L') {} st''" "bk_buckets st'' ! level = []"
        "drain_log g (fs_filter fs) mx level st' (map (apfst (pad (fi_bounds fi))) L') st''"
      show "I (levels @ [level]) st''"
        unfolding I_def below(2) [symmetric]
        using level_down [OF L'(1,2) [unfolded below(1)]] levels_log_snoc [OF L(2) L'(3)] by (intro exI [of _ "L @ L'"]) simp
    qed
  qed
  then show ?thesis by (rule wp_mono) (simp add: I_def LEVELS_def)
qed

subsection \<open>Filling the buckets\<close>

definition seed_inv :: "full_input \<Rightarrow> nat list \<Rightarrow> light_solve_stats \<Rightarrow> nat \<Rightarrow> block_pos list \<Rightarrow> bucket_state \<Rightarrow> bool" where
  "seed_inv fi values stats total0 seen st \<longleftrightarrow>
     bk_values st = values \<and> length (bk_buckets st) = LEVELS \<and> bk_pending st = sum_list (map length (bk_buckets st)) \<and>
     (\<forall>k<LEVELS. distinct (bk_buckets st ! k) \<and>
        (\<forall>cell\<in>set (bk_buckets st ! k). \<exists>p\<in>open_at fi. p \<in> set seen \<and> cell = pad (fi_bounds fi) p \<and> k = bval fi st p)) \<and>
     (\<forall>p\<in>open_at fi. p \<in> set seen \<and> 1 < bval fi st p \<longrightarrow> waiting fi st p \<or> settled fi (bval fi st) p) \<and>
     bk_stats st = stats \<and> bk_total st \<le> total0 + length seen"

lemma can_raise_iff:
  assumes ok: "full_ok fi V" and filters: "filters_read fi fs" and p: "p \<in> open_at fi"
  shows "can_raise (new_grid (fi_bounds fi)) (fs_filter fs) (bk_values st) (pad (fi_bounds fi) p) \<longleftrightarrow>
    \<not> settled fi (bval fi st) p"
proof -
  note okf = full_ok_facts [OF ok]
  have b: "bounds_contain (fi_bounds fi) p" using p by (simp add: open_at_iff)
  note cover = steps_cover [OF okf(2,4) b]
  have one: "(fs_filter fs ! n \<noteq> BLOCKED \<and>
      bk_values st ! pad (fi_bounds fi) p - max (fs_filter fs ! n) 1 > bk_values st ! n) \<longleftrightarrow>
      \<not> gives fi (bval fi st) p offset"
    if "offset \<in> set NEIGHBOURS" "n = pad (fi_bounds fi) (step p offset)" for n offset
    using filters_value [OF ok filters padded_step [OF b that(1)]]
    by (cases "step p offset \<in> open_at fi") (auto simp: that(2) gives_def bval_def not_le)
  show ?thesis
  proof
    assume "can_raise (new_grid (fi_bounds fi)) (fs_filter fs) (bk_values st) (pad (fi_bounds fi) p)"
    then obtain s where s: "s \<in> set (grid_steps (new_grid (fi_bounds fi)))" and
      up: "fs_filter fs ! wrapping_step (pad (fi_bounds fi) p) s \<noteq> BLOCKED \<and>
        bk_values st ! pad (fi_bounds fi) p - max (fs_filter fs ! wrapping_step (pad (fi_bounds fi) p) s) 1 >
        bk_values st ! wrapping_step (pad (fi_bounds fi) p) s"
      by (auto simp: can_raise_def Let_def list_ex_iff)
    from cover(1) [OF s] obtain offset where "offset \<in> set NEIGHBOURS"
      "wrapping_step (pad (fi_bounds fi) p) s = pad (fi_bounds fi) (step p offset)" by blast
    then show "\<not> settled fi (bval fi st) p" using one [of offset] up unfolding settled_def by blast
  next
    assume "\<not> settled fi (bval fi st) p"
    then obtain offset where offset: "offset \<in> set NEIGHBOURS" "\<not> gives fi (bval fi st) p offset" by (auto simp: settled_def)
    from cover(2) [OF offset(1)] obtain s where s: "s \<in> set (grid_steps (new_grid (fi_bounds fi)))"
      "wrapping_step (pad (fi_bounds fi) p) s = pad (fi_bounds fi) (step p offset)" by blast
    show "can_raise (new_grid (fi_bounds fi)) (fs_filter fs) (bk_values st) (pad (fi_bounds fi) p)"
      unfolding can_raise_def Let_def list_ex_iff
      by (rule bexI [OF _ s(1)]) (use one [OF offset(1) refl] offset(2) in \<open>simp add: s(2)\<close>)
  qed
qed

lemma seed_bucket_keeps:
  assumes ok: "full_ok fi V" and filters: "filters_read fi fs" and p: "bounds_contain (fi_bounds fi) p" "p \<notin> set seen"
    and small: "\<And>p. p \<in> open_at fi \<Longrightarrow> values ! pad (fi_bounds fi) p \<le> 15"
    and budget: "total0 + length seen + 1 \<le> B" and inv: "seed_inv fi values stats total0 seen st"
  shows "wp (full_error fi B) (seed_inv fi values stats total0 (seen @ [p]))
    (seed_bucket (new_grid (fi_bounds fi)) (fs_filter fs) (sl_max_queue_entries (fi_limits fi)) (pad (fi_bounds fi) p) st)"
proof -
  note okf = full_ok_facts [OF ok]
  have inside: "padded (fi_bounds fi) r" if "r \<in> open_at fi" for r using that by (simp add: open_at_iff padded_contain)
  note pad = padded_contain [OF p(1)]
  have level: "bval fi st r < LEVELS" if "r \<in> open_at fi" for r
    using small [OF that] inv by (simp add: bval_def seed_inv_def LEVELS_def)
  show ?thesis
  proof (cases "1 < bval fi st p \<and> p \<in> open_at fi \<and> \<not> settled fi (bval fi st) p")
    case False
    have blocked: "fs_filter fs ! pad (fi_bounds fi) p \<noteq> BLOCKED \<longleftrightarrow> p \<in> open_at fi"
      using filters_value(1) [OF ok filters pad] by simp
    have skip: "\<not> (bk_values st ! pad (fi_bounds fi) p > 1 \<and> fs_filter fs ! pad (fi_bounds fi) p \<noteq> BLOCKED \<and>
        can_raise (new_grid (fi_bounds fi)) (fs_filter fs) (bk_values st) (pad (fi_bounds fi) p))"
      using False can_raise_iff [OF ok filters, of p st] blocked by (auto simp: bval_def)
    have "seed_inv fi values stats total0 (seen @ [p]) st"
      unfolding seed_inv_def
    proof (intro conjI ballI allI impI)
      fix k cell assume "k < LEVELS" "cell \<in> set (bk_buckets st ! k)"
      then show "\<exists>r\<in>open_at fi. r \<in> set (seen @ [p]) \<and> cell = pad (fi_bounds fi) r \<and> k = bval fi st r"
        using inv unfolding seed_inv_def by fastforce
    next
      fix r assume r: "r \<in> open_at fi" "r \<in> set (seen @ [p]) \<and> 1 < bval fi st r"
      show "waiting fi st r \<or> settled fi (bval fi st) r"
      proof (cases "r = p")
        case True
        then show ?thesis using False r by blast
      next
        case other: False
        then show ?thesis using inv r by (simp add: seed_inv_def)
      qed
    qed (use inv in \<open>simp_all add: seed_inv_def\<close>)
    then show ?thesis unfolding seed_bucket_def if_not_P [OF skip] by simp
  next
    case push: True
    then have open_p: "p \<in> open_at fi" by blast
    let ?k = "bval fi st p" and ?cell = "pad (fi_bounds fi) p"
    have k: "?k < LEVELS" by (rule level [OF open_p])
    have run: "seed_bucket (new_grid (fi_bounds fi)) (fs_filter fs) (sl_max_queue_entries (fi_limits fi)) ?cell st =
        Some (bucket_push (sl_max_queue_entries (fi_limits fi)) ?k ?cell st)"
      using push filters_value(1) [OF ok filters pad] can_raise_iff [OF ok filters open_p, of st]
      by (simp add: seed_bucket_def bval_def)
    define st2 where "st2 count = st\<lparr>bk_total := count, bk_buckets := (bk_buckets st)[?k := bk_buckets st ! ?k @ [?cell]],
      bk_pending := bk_pending st + 1\<rparr>" for count
    have "?cell < 2 ^ 32" using pad_less [OF okf(2) pad] okf(4) by linarith
    then have go: "bucket_push (sl_max_queue_entries (fi_limits fi)) ?k ?cell st =
        and_then (enqueue_counted (bk_total st) 1 (sl_max_queue_entries (fi_limits fi))) (\<lambda>count. Inr (st2 count))"
      by (simp add: bucket_push_def st2_def)
    have total: "bk_total st \<le> total0 + length seen" using inv by (simp add: seed_inv_def)
    show ?thesis
      unfolding run go
    proof (rule wp_seq_res [OF wp_bucket_enqueue [where Q = "\<lambda>count. count \<le> bk_total st + 1"]])
      show "bk_total st + 1 \<le> B" using total budget by simp
    next
      fix count assume count: "count \<le> bk_total st + 1"
      have bval2: "bval fi (st2 count) = bval fi st" by (intro ext) (simp add: bval_def st2_def)
      have len: "length (bk_buckets st) = LEVELS" using inv by (simp add: seed_inv_def)
      have bucket: "bk_buckets (st2 count) ! j = (if j = ?k then bk_buckets st ! j @ [?cell] else bk_buckets st ! j)"
        if "j < LEVELS" for j using that k len by (simp add: st2_def nth_list_update)
      have fresh: "?cell \<notin> set (bk_buckets st ! j)" if j: "j < LEVELS" for j
      proof
        assume cell: "?cell \<in> set (bk_buckets st ! j)"
        have "\<forall>cell\<in>set (bk_buckets st ! j). \<exists>r\<in>open_at fi. r \<in> set seen \<and> cell = pad (fi_bounds fi) r"
          using inv j unfolding seed_inv_def by blast
        with cell obtain r where r: "r \<in> open_at fi" "r \<in> set seen" "?cell = pad (fi_bounds fi) r" by blast
        from pad_inj [OF okf(2) pad inside [OF r(1)] r(3)] show False using r(2) p(2) by simp
      qed
      have "seed_inv fi values stats total0 (seen @ [p]) (st2 count)"
        unfolding seed_inv_def bval2
      proof (intro conjI ballI allI impI)
        fix j assume j: "j < LEVELS"
        show "distinct (bk_buckets (st2 count) ! j)" using inv j fresh [OF j] by (auto simp: bucket seed_inv_def)
      next
        fix j cell assume j: "j < LEVELS" and cell: "cell \<in> set (bk_buckets (st2 count) ! j)"
        show "\<exists>r\<in>open_at fi. r \<in> set (seen @ [p]) \<and> cell = pad (fi_bounds fi) r \<and> j = bval fi st r"
        proof (cases "cell \<in> set (bk_buckets st ! j)")
          case True
          then show ?thesis using inv j unfolding seed_inv_def by fastforce
        next
          case False
          then have "cell = ?cell" "j = ?k" using cell by (simp_all add: bucket [OF j] split: if_splits)
          then show ?thesis using open_p by auto
        qed
      next
        fix r assume r: "r \<in> open_at fi" "r \<in> set (seen @ [p]) \<and> 1 < bval fi st r"
        show "waiting fi (st2 count) r \<or> settled fi (bval fi st) r"
        proof (cases "r = p")
          case True
          then show ?thesis using k by (simp add: waiting_def bval2 bucket)
        next
          case other: False
          then have "waiting fi st r \<or> settled fi (bval fi st) r" using inv r by (simp add: seed_inv_def)
          then show ?thesis using level [OF r(1)] by (auto simp: waiting_def bval2 bucket)
        qed
      next
        show "bk_pending (st2 count) = sum_list (map length (bk_buckets (st2 count)))"
          using inv k len by (simp add: st2_def seed_inv_def sum_lengths_push)
        show "bk_total (st2 count) \<le> total0 + length (seen @ [p])" using count total by (simp add: st2_def)
      qed (use inv in \<open>simp_all add: seed_inv_def st2_def\<close>)
      then show "wp (full_error fi B) (seed_inv fi values stats total0 (seen @ [p])) (Some (Inr (st2 count)))" by simp
    qed simp
  qed
qed

lemma seed_buckets_keep:
  assumes ok: "full_ok fi V" and filters: "filters_read fi fs"
    and small: "\<And>p. p \<in> open_at fi \<Longrightarrow> values ! pad (fi_bounds fi) p \<le> 15"
    and budget: "total0 + V \<le> B" and inv: "seed_inv fi values stats total0 [] st"
  shows "wp (full_error fi B) (seed_inv fi values stats total0 (dense_cells (fi_bounds fi)))
    (for_each (seed_bucket (new_grid (fi_bounds fi)) (fs_filter fs) (sl_max_queue_entries (fi_limits fi))) (grid_cells (new_grid (fi_bounds fi))) st)"
proof -
  note region = region_facts [OF full_ok_facts(3) [OF ok]]
  have map_loop: "for_each f (map g xs) s = for_each (\<lambda>x. f (g x)) xs s"
    for f :: "nat \<Rightarrow> bucket_state \<Rightarrow> bucket_state outcome" and g :: "block_pos \<Rightarrow> nat" and xs s
    by (induction xs arbitrary: s) (auto simp: then_do_def split: option.splits sum.splits)
  show ?thesis
    unfolding grid_cells_eq map_loop
  proof (rule wp_for_each [where I = "seed_inv fi values stats total0", OF inv])
    fix seen p todo st'
    assume split: "dense_cells (fi_bounds fi) = seen @ p # todo" and st': "seed_inv fi values stats total0 seen st'"
    have "distinct (seen @ p # todo)" using region(2) by (simp add: split)
    then have new: "p \<notin> set seen" by simp
    have "length seen < V" using region(1) by (simp add: split)
    then have "total0 + length seen + 1 \<le> B" using budget by simp
    moreover have "bounds_contain (fi_bounds fi) p" using set_dense_cells [of "fi_bounds fi"] by (auto simp: split)
    ultimately show "wp (full_error fi B) (seed_inv fi values stats total0 (seen @ [p]))
        (seed_bucket (new_grid (fi_bounds fi)) (fs_filter fs) (sl_max_queue_entries (fi_limits fi)) (pad (fi_bounds fi) p) st')"
      by (intro seed_bucket_keeps [OF ok filters _ new small _ st'])
  qed
qed

subsection \<open>A whole spread\<close>

text \<open>The spread of one channel: nothing dimmer than before, nothing beyond the field, every cell's light passed
  on, at most sixteen entries queued and one spread for each cell.\<close>

lemma spread_buckets_keep:
  assumes ok: "full_ok fi V" and seeds: "seeds_ok (full_si fi)" and filters: "filters_read fi fs"
    and len: "length (bk_values st) = grid_volume (new_grid (fi_bounds fi))" "length (bk_buckets st) = LEVELS"
    and within: "\<And>p. p \<in> open_at fi \<Longrightarrow> within_field (full_si fi) c p (bval fi st p)"
    and budget: "bk_total st + 16 * V \<le> B"
  shows "wp (full_error fi B) (\<lambda>st'. length (bk_values st') = grid_volume (new_grid (fi_bounds fi)) \<and> length (bk_buckets st') = LEVELS \<and>
      (\<forall>p\<in>open_at fi. bval fi st p \<le> bval fi st' p \<and> within_field (full_si fi) c p (bval fi st' p) \<and> settled fi (bval fi st') p) \<and>
      bk_total st' \<le> bk_total st + 16 * V \<and>
      (\<exists>L. spread_log (new_grid (fi_bounds fi)) (fs_filter fs) (sl_max_queue_entries (fi_limits fi)) st (map (apfst (pad (fi_bounds fi))) L) st' \<and>
        spread_once fi 1 L st' \<and> st_increase_dequeued (bk_stats st') = st_increase_dequeued (bk_stats st) + length L))
    (spread_buckets (new_grid (fi_bounds fi)) (fs_filter fs) (sl_max_queue_entries (fi_limits fi)) st)"
proof -
  note okf = full_ok_facts [OF ok]
  define st0 where "st0 = st\<lparr>bk_pending := 0, bk_buckets := map (\<lambda>_. []) (bk_buckets st)\<rparr>"
  define C where "C = bk_total st + 16 * V"
  have CB: "C \<le> B" using budget by (simp add: C_def)
  have small: "bk_values st ! pad (fi_bounds fi) p \<le> 15" if "p \<in> open_at fi" for p
    using within_le [OF okf(1) seeds within [OF that]] by (simp add: bval_def)
  have bval0: "bval fi st0 = bval fi st" by (simp add: st0_def)
  have empty: "map (length \<circ> (\<lambda>_. [])) (bk_buckets st) = replicate (length (bk_buckets st)) 0" by (simp add: map_replicate_const comp_def)
  have start: "seed_inv fi (bk_values st) (bk_stats st) (bk_total st) [] st0"
    using len by (simp add: seed_inv_def st0_def empty sum_list_replicate)
  have seeded: "wp (full_error fi B) (seed_inv fi (bk_values st) (bk_stats st) (bk_total st) (dense_cells (fi_bounds fi)))
      (for_each (seed_bucket (new_grid (fi_bounds fi)) (fs_filter fs) (sl_max_queue_entries (fi_limits fi))) (grid_cells (new_grid (fi_bounds fi))) st0)"
  proof -
    have "V \<le> 16 * V" by simp
    then have "bk_total st + V \<le> B" using budget by linarith
    from seed_buckets_keep [OF ok filters small this start] show ?thesis .
  qed
  show ?thesis
    unfolding spread_buckets_def st0_def [symmetric]
  proof (rule wp_seq [OF wp_result [OF seeded]], elim conjE)
    fix st1 assume st1: "seed_inv fi (bk_values st) (bk_stats st) (bk_total st) (dense_cells (fi_bounds fi)) st1"
      and seed_run: "for_each (seed_bucket (new_grid (fi_bounds fi)) (fs_filter fs) (sl_max_queue_entries (fi_limits fi)))
        (grid_cells (new_grid (fi_bounds fi))) st0 = Some (Inr st1)"
    have bval1: "bval fi st1 = bval fi st" using st1 by (intro ext) (simp add: seed_inv_def bval_def)
    have "bucket_inv fi c (bval fi st) C (st_increase_dequeued (bk_stats st)) 15 [] {} st1"
      unfolding bucket_inv_def bval1
    proof (intro conjI ballI allI impI)
      fix k cell assume k: "k < LEVELS" "cell \<in> set (bk_buckets st1 ! k)"
      have "\<exists>p\<in>open_at fi. p \<in> set (dense_cells (fi_bounds fi)) \<and> cell = pad (fi_bounds fi) p \<and> k = bval fi st1 p"
        using st1 k unfolding seed_inv_def by blast
      then show "\<exists>p\<in>open_at fi. cell = pad (fi_bounds fi) p \<and> k \<le> bval fi st p" by (auto simp: bval1)
    next
      fix k assume "k < LEVELS" "15 < k"
      then show "bk_buckets st1 ! k = []" by (simp add: LEVELS_def)
    next
      fix p assume p: "p \<in> open_at fi - {}" "1 < bval fi st p"
      then have "p \<in> set (dense_cells (fi_bounds fi))" by (simp add: set_dense_cells open_at_iff)
      then show "waiting fi st1 p \<or> settled fi (bval fi st) p" using st1 p by (simp add: seed_inv_def bval1)
    next
      show "bk_total st1 + room fi (bval fi st) \<le> C"
        using st1 room_le [OF ok, of "bval fi st"] region_facts(1) [OF okf(3)] by (simp add: seed_inv_def C_def)
    qed (use st1 len within in \<open>simp_all add: seed_inv_def spread_once_def\<close>)
    then have "bucket_inv fi c (bval fi st) C (st_increase_dequeued (bk_stats st)) 15 [] {} (bucket_peak st1)" by simp
    from drain_levels [OF ok seeds CB filters this]
    show "wp (full_error fi B) (\<lambda>st'. length (bk_values st') = grid_volume (new_grid (fi_bounds fi)) \<and> length (bk_buckets st') = LEVELS \<and>
        (\<forall>p\<in>open_at fi. bval fi st p \<le> bval fi st' p \<and> within_field (full_si fi) c p (bval fi st' p) \<and> settled fi (bval fi st') p) \<and>
        bk_total st' \<le> bk_total st + 16 * V \<and>
        (\<exists>L. spread_log (new_grid (fi_bounds fi)) (fs_filter fs) (sl_max_queue_entries (fi_limits fi)) st (map (apfst (pad (fi_bounds fi))) L) st' \<and>
          spread_once fi 1 L st' \<and> st_increase_dequeued (bk_stats st') = st_increase_dequeued (bk_stats st) + length L))
      (for_each (drain_bucket (new_grid (fi_bounds fi)) (fs_filter fs) (sl_max_queue_entries (fi_limits fi))) (rev [2..<LEVELS])
        (bucket_peak st1))"
    proof (rule wp_mono, elim exE conjE)
      fix st' L assume inv: "bucket_inv fi c (bval fi st) C (st_increase_dequeued (bk_stats st)) 1 L {} st'"
        and entries: "levels_log (new_grid (fi_bounds fi)) (fs_filter fs) (sl_max_queue_entries (fi_limits fi)) (rev [2..<LEVELS])
          (bucket_peak st1) (map (apfst (pad (fi_bounds fi))) L) st'"
      have "settled fi (bval fi st') p" if p: "p \<in> open_at fi" for p
      proof (cases "1 < bval fi st' p")
        case True
        have "bval fi st' p \<le> 15" using inv p by (intro within_le [OF okf(1) seeds, of c p]) (simp add: bucket_inv_def)
        then have "bk_buckets st' ! bval fi st' p = []" using inv True by (simp add: bucket_inv_def LEVELS_def)
        then have "\<not> waiting fi st' p" by (simp add: waiting_def)
        then show ?thesis using inv p True unfolding bucket_inv_def by blast
      next
        case False
        then show ?thesis by (simp add: settled_def gives_def)
      qed
      moreover have "spread_log (new_grid (fi_bounds fi)) (fs_filter fs) (sl_max_queue_entries (fi_limits fi)) st
          (map (apfst (pad (fi_bounds fi))) L) st'"
        unfolding spread_log_def using seed_run [unfolded st0_def] entries by blast
      ultimately show "length (bk_values st') = grid_volume (new_grid (fi_bounds fi)) \<and> length (bk_buckets st') = LEVELS \<and>
        (\<forall>p\<in>open_at fi. bval fi st p \<le> bval fi st' p \<and> within_field (full_si fi) c p (bval fi st' p) \<and> settled fi (bval fi st') p) \<and>
        bk_total st' \<le> bk_total st + 16 * V \<and>
        (\<exists>L. spread_log (new_grid (fi_bounds fi)) (fs_filter fs) (sl_max_queue_entries (fi_limits fi)) st (map (apfst (pad (fi_bounds fi))) L) st' \<and>
          spread_once fi 1 L st' \<and> st_increase_dequeued (bk_stats st') = st_increase_dequeued (bk_stats st) + length L)"
        using inv by (auto simp: bucket_inv_def C_def)
    qed
  qed
qed

end
