(* ===== verification/Full_Field.thy ===== *)
theory Full_Field
  imports Full_Levels
begin

section \<open>The field of a full solve\<close>

text \<open>The grids before the light spreads: sources, halo and direct sky are in.\<close>

definition grids_ready :: "full_input \<Rightarrow> full_scratch \<Rightarrow> bool" where
  "grids_ready fi fs \<longleftrightarrow> filters_read fi fs \<and> length (fs_buckets fs) = LEVELS \<and>
     (\<forall>c. length (channel_grid c fs) = grid_volume (new_grid (fi_bounds fi))) \<and>
     (\<forall>c. \<forall>p\<in>open_at fi. base_level (full_si fi) c p \<le> value_at fi c fs p \<and> within_field (full_si fi) c p (value_at fi c fs p) \<and>
        (\<forall>offset\<in>set NEIGHBOURS. \<forall>n l d. checked_offset p offset = Some n \<and> halo_light (full_si fi) c n = Some (l, d) \<longrightarrow>
           l - max (the (filt_at fi p)) 1 \<le> value_at fi c fs p)) \<and>
     (\<forall>p. bounds_contain (fi_bounds fi) p \<longrightarrow>
        fs_direct fs ! pad (fi_bounds fi) p = sky_direct fi p \<and> (sky_direct fi p \<longrightarrow> value_at fi Channel_Sky fs p = 15))"

lemma reset_read:
  assumes "full_ok fi V"
  shows "read_inv fi (reset_full (new_grid (fi_bounds fi)) full) {} (reset_full (new_grid (fi_bounds fi)) full)"
  by (simp add: read_inv_def reset_full_def grid_is_replicate [OF full_ok_facts(2) [OF assms]])

lemma base_within: "p \<in> open_cells si \<Longrightarrow> within_field si c p (base_level si c p)"
  unfolding within_field_def open_cell_iff using lit.source [of si p _ c] by fastforce

lemma halo_start:
  assumes ok: "full_ok fi V" and buckets: "length (fs_buckets full) = LEVELS"
    and read: "read_inv fi (reset_full (new_grid (fi_bounds fi)) full) {p. bounds_contain (fi_bounds fi) p} fs"
  shows "filters_read fi fs" "seeds_ok (full_si fi)" "halo_inv fi fs {} fs"
    "fs_direct fs = replicate (grid_volume (new_grid (fi_bounds fi))) False" "length (fs_buckets fs) = LEVELS"
proof -
  note okf = full_ok_facts [OF ok]
  have seen: "p \<in> {p. bounds_contain (fi_bounds fi) p} \<inter> open_at fi \<longleftrightarrow> p \<in> open_at fi" for p by (auto simp: open_at_iff)
  note read = read [unfolded read_inv_def seen]
  show "filters_read fi fs" using read by (simp add: filters_read_def)
  show "seeds_ok (full_si fi)" using read by (auto simp: seeds_ok_def open_at_iff)
  show "fs_direct fs = replicate (grid_volume (new_grid (fi_bounds fi))) False" "length (fs_buckets fs) = LEVELS"
    using read buckets by (simp_all add: reset_full_def)
  have value_is: "value_at fi c fs p = base_level (full_si fi) c p" if "p \<in> open_at fi" for c p
    using read that by (cases c) (auto simp: value_at_def grid_is_def open_at_iff padded_contain)
  have len: "length (channel_grid c fs) = grid_volume (new_grid (fi_bounds fi))" for c
    using read by (cases c) (simp_all add: grid_is_def)
  have "fs_direct_above fs = replicate (light_axis_len (bp_x (lb_min (fi_bounds fi))) (bp_x (lb_max (fi_bounds fi))) * z_len (fi_bounds fi)) False"
    using read by (simp add: reset_full_def)
  then show "halo_inv fi fs {} fs"
    using value_is base_within [of _ "full_si fi"] len column_of_less [of "fi_bounds fi"]
    by (simp add: halo_inv_def top_cell_def)
qed

lemma halo_ready:
  assumes ok: "full_ok fi V" and filters: "filters_read fi fs0" and buckets: "length (fs_buckets fs0) = LEVELS"
    and direct: "fs_direct fs0 = replicate (grid_volume (new_grid (fi_bounds fi))) False"
    and seeds: "seeds_ok (full_si fi)"
    and inv: "halo_inv fi fs0 {(c, direction, p). direction < 6 \<and> bounds_contain (fi_bounds fi) p \<and>
      \<not> bounds_contain (fi_bounds fi) (step p (NEIGHBOURS ! direction))} fs"
  shows "grids_ready fi (if direct_sky_down (fi_profile fi) then fill_direct_sky (new_grid (fi_bounds fi)) fs else fs)"
proof -
  note okf = full_ok_facts [OF ok]
  have filters1: "filters_read fi fs" using filters inv by (simp add: halo_inv_def filters_read_def)
  have buckets1: "length (fs_buckets fs) = LEVELS" using buckets inv by (simp add: halo_inv_def)
  have direct1: "fs_direct fs = replicate (grid_volume (new_grid (fi_bounds fi))) False" using direct inv by (simp add: halo_inv_def)
  have len: "length (channel_grid c fs) = grid_volume (new_grid (fi_bounds fi))" for c using inv by (simp add: halo_inv_def)
  have cells: "base_level (full_si fi) c p \<le> value_at fi c fs p" "within_field (full_si fi) c p (value_at fi c fs p)"
    "value_at fi c fs p = 15 \<Longrightarrow> base_level (full_si fi) c p = 15" if "p \<in> open_at fi" for c p
    using inv that by (simp_all add: halo_inv_def)
  have halo: "l - max (the (filt_at fi p)) 1 \<le> value_at fi c fs p"
    if p: "p \<in> open_at fi" and offset: "offset \<in> set NEIGHBOURS" and n: "checked_offset p offset = Some n"
      and light: "halo_light (full_si fi) c n = Some (l, d)" for c p offset n l d
  proof -
    obtain direction where d: "direction < length NEIGHBOURS" "NEIGHBOURS ! direction = offset"
      using offset by (auto simp: in_set_conv_nth)
    have "\<not> bounds_contain (fi_bounds fi) n" using light by (auto simp: halo_light_def split: if_splits)
    then have "\<not> bounds_contain (fi_bounds fi) (step p (NEIGHBOURS ! direction))" using checked_offset_step [OF n] d(2) by simp
    moreover have "length NEIGHBOURS = 6" by (simp add: NEIGHBOURS_def)
    ultimately have "took_halo fi c direction p fs"
      using inv p d(1) by (auto simp: halo_inv_def open_at_iff)
    then show ?thesis using n light d(2) by (auto simp: took_halo_def)
  qed
  have full: "value_at fi Channel_Sky fs p = 15 \<longleftrightarrow> base_level (full_si fi) Channel_Sky p = 15" if "p \<in> open_at fi" for p
    using cells(1,3) [OF that, of Channel_Sky] within_le [OF okf(1) seeds cells(2) [OF that, of Channel_Sky]] by auto
  show ?thesis
  proof (cases "direct_sky_down (fi_profile fi)")
    case True
    have sky0: "sky_inv fi fs {} fs"
      using len [of Channel_Sky] direct1 grid_is_replicate [OF okf(2), of False]
      by (simp add: sky_inv_def) (simp add: grid_is_def value_at_def)
    have "fs_direct_above fs ! column_of (fi_bounds fi) p = above_lit fi p" if "top_cell (fi_bounds fi) p" for p
    proof -
      have "\<not> bounds_contain (fi_bounds fi) (step p (NEIGHBOURS ! 3))" using that
        by (simp add: top_cell_def NEIGHBOURS_def step_def bounds_contain_def)
      then show ?thesis using inv that by (simp add: halo_inv_def top_cell_def)
    qed
    note sky = fill_direct_keeps [OF ok filters1 True full this sky0]
    define fs2 where "fs2 = fill_direct_sky (new_grid (fi_bounds fi)) fs"
    note sky = sky [folded fs2_def, unfolded sky_inv_def]
    have value_sky: "value_at fi Channel_Sky fs2 p = (if sky_direct fi p then 15 else value_at fi Channel_Sky fs p)"
      if "bounds_contain (fi_bounds fi) p" for p
      using sky that padded_contain [OF that] by (simp add: grid_is_def value_at_def)
    have value_le: "value_at fi c fs p \<le> value_at fi c fs2 p" if p: "p \<in> open_at fi" for c p
    proof (cases c)
      case Channel_Sky
      then show ?thesis using value_sky [of p] p within_le [OF okf(1) seeds cells(2) [OF p, of Channel_Sky]] by (simp add: open_at_iff)
    qed (use sky in \<open>simp add: value_at_def\<close>)
    have "grids_ready fi fs2"
      unfolding grids_ready_def
    proof (intro conjI allI ballI impI)
      show "filters_read fi fs2" using sky filters1 by (simp add: filters_read_def)
      show "length (fs_buckets fs2) = LEVELS" using sky buckets1 by simp
    next
      fix c show "length (channel_grid c fs2) = grid_volume (new_grid (fi_bounds fi))"
        using sky len [of Channel_Block] by (cases c) (simp_all add: grid_is_def)
    next
      fix c p assume p: "p \<in> open_at fi"
      show "base_level (full_si fi) c p \<le> value_at fi c fs2 p" by (rule le_trans [OF cells(1) [OF p] value_le [OF p]])
      show "within_field (full_si fi) c p (value_at fi c fs2 p)"
      proof (cases c)
        case Channel_Block
        then show ?thesis using cells(2) [OF p, of Channel_Block] sky by (simp add: value_at_def)
      next
        case Channel_Sky
        then show ?thesis
          using value_sky [of p] p cells(2) [OF p, of Channel_Sky] by (auto simp: open_at_iff within_field_def)
      qed
    next
      fix c p offset n l d
      assume "p \<in> open_at fi" "offset \<in> set NEIGHBOURS" "checked_offset p offset = Some n \<and> halo_light (full_si fi) c n = Some (l, d)"
      then show "l - max (the (filt_at fi p)) 1 \<le> value_at fi c fs2 p"
        using halo value_le le_trans by blast
    next
      fix p assume p: "bounds_contain (fi_bounds fi) p"
      show "fs_direct fs2 ! pad (fi_bounds fi) p = sky_direct fi p" using sky p padded_contain [OF p] by (simp add: grid_is_def)
      show "sky_direct fi p \<Longrightarrow> value_at fi Channel_Sky fs2 p = 15" by (simp add: value_sky [OF p])
    qed
    then show ?thesis using True by (simp add: fs2_def)
  next
    case False
    have none: "\<not> sky_direct fi p" for p using lit_direct [of "full_si fi" Channel_Sky p 15 True] False by auto
    have "fs_direct fs ! pad (fi_bounds fi) p = sky_direct fi p" if "bounds_contain (fi_bounds fi) p" for p
      using pad_less [OF okf(2) padded_contain [OF that]] by (simp add: direct1 none)
    then have "grids_ready fi fs"
      unfolding grids_ready_def using filters1 buckets1 len cells(1,2) halo none by blast
    then show ?thesis using False by simp
  qed
qed

subsection \<open>Closed levels are the field\<close>

lemma lit_direct_sky: "lit si c p l d \<Longrightarrow> d \<Longrightarrow> lit si Channel_Sky p 15 True"
  using lit_direct [of si c p l d] by (cases d) auto

lemma incoming_full:
  "incoming_level l f c (fi_profile fi) offset d = (if stays_direct (full_si fi) c f offset l d then 15 else l - max f 1)"
  using incoming_eq [of l f c "full_si fi" offset d] by simp

lemma closed_field:
  assumes base: "\<And>p. p \<in> open_at fi \<Longrightarrow> base_level (full_si fi) c p \<le> v p"
    and halo: "\<And>p offset n l d. p \<in> open_at fi \<Longrightarrow> offset \<in> set NEIGHBOURS \<Longrightarrow> checked_offset p offset = Some n \<Longrightarrow>
      halo_light (full_si fi) c n = Some (l, d) \<Longrightarrow> l - max (the (filt_at fi p)) 1 \<le> v p"
    and closed: "\<And>p. p \<in> open_at fi \<Longrightarrow> settled fi v p"
    and direct: "\<And>p. sky_direct fi p \<Longrightarrow> c = Channel_Sky \<Longrightarrow> 15 \<le> v p"
    and lit: "lit (full_si fi) c p l d"
  shows "l \<le> v p"
  using lit
proof (induction rule: lit.induct)
  case (source p f)
  then show ?case using base [of p] by (simp add: open_at_iff)
next
  case (halo p f offset n l d)
  then have p: "p \<in> open_at fi" by (simp add: open_at_iff)
  have lit: "lit (full_si fi) c p (incoming_level l f c (si_profile (full_si fi)) offset d) (stays_direct (full_si fi) c f offset l d)"
    by (rule lit.halo) (use halo in blast)+
  show ?case
  proof (cases "stays_direct (full_si fi) c f offset l d")
    case True
    then have "c = Channel_Sky" by (simp add: stays_direct_def)
    moreover have "sky_direct fi p" by (rule lit_direct_sky [OF lit True])
    ultimately show ?thesis using direct [of p] True by (simp add: incoming_full)
  next
    case False
    then show ?thesis using assms(2) [OF p halo(3,4,5)] halo(2) by (simp add: incoming_full)
  qed
next
  case (step p offset l d f)
  then have p: "p \<in> open_at fi" by (simp add: open_at_iff)
  have lit: "lit (full_si fi) c p (incoming_level l f c (si_profile (full_si fi)) offset d) (stays_direct (full_si fi) c f offset l d)"
    by (rule lit.step) (use step in blast)+
  show ?case
  proof (cases "stays_direct (full_si fi) c f offset l d")
    case True
    then have "c = Channel_Sky" by (simp add: stays_direct_def)
    moreover have "sky_direct fi p" by (rule lit_direct_sky [OF lit True])
    ultimately show ?thesis using direct [of p] True by (simp add: incoming_full)
  next
    case False
    have from': "step p offset \<in> open_at fi" using lit_cell [OF step(1)] by (simp add: open_at_iff)
    have "gives fi v (step p offset) (mirror offset)" using closed [OF from'] step.hyps(4) by (simp add: settled_def)
    then have "v (step p offset) - max f 1 \<le> v p" using p step.hyps(3) by (simp add: gives_def)
    then show ?thesis using False step.IH by (simp add: incoming_full)
  qed
qed

lemma within_closed_field:
  assumes "within_field si c p v" and "\<And>l d. lit si c p l d \<Longrightarrow> l \<le> v"
  shows "field_level si c p v"
  using assms unfolding within_field_def field_level_def by (metis le_antisym)

end
