(* ===== verification/Full_Solved.thy ===== *)
theory Full_Solved
  imports Full_Field
begin

section \<open>The properties of the full solve\<close>

subsection \<open>Writing the grids out\<close>

lemma enumerate_map: "enumerate n (map f xs) = map (\<lambda>(i, x). (i, f x)) (enumerate n xs)"
  by (induction xs arbitrary: n) simp_all

lemma emit_cells:
  assumes "region b V"
  shows "enumerate 0 (grid_cells (new_grid b)) = map (\<lambda>p. (rank b p, pad b p)) (dense_cells b)"
  using enumerate_cells [OF assms] by (simp add: grid_cells_eq enumerate_map region_facts(6) [OF assms])

definition emit_inv :: "full_input \<Rightarrow> nat \<Rightarrow> u64 \<Rightarrow> nat list \<Rightarrow> nat list \<Rightarrow> bool list \<Rightarrow> block_pos set \<Rightarrow> mutable_output \<times> dense_set \<Rightarrow> bool" where
  "emit_inv fi V generation block sky direct seen state \<longleftrightarrow> (case state of (out, D) \<Rightarrow>
     out_ok (full_si fi) V out \<and> set_ok (full_si fi) V D \<and> mo_generation out = generation \<and>
     (\<forall>p. bounds_contain (fi_bounds fi) p \<longrightarrow>
        mo_known out ! rank (fi_bounds fi) p = (p \<in> seen \<inter> open_at fi) \<and>
        (\<forall>c. lev out c p = (if p \<in> seen \<inter> open_at fi
           then (case c of Channel_Block \<Rightarrow> block | Channel_Sky \<Rightarrow> sky) ! pad (fi_bounds fi) p else 0)) \<and>
        in_set D p = (p \<in> seen \<inter> open_at fi \<and> direct ! pad (fi_bounds fi) p)))"

lemma known_at_set:
  assumes ok: "solve_ok si V" and out: "out_ok si V out" and p: "bounds_contain (si_bounds si) p" and q: "bounds_contain (si_bounds si) q"
  shows "mo_known (set_at_index out (rank (si_bounds si) p) c v) ! rank (si_bounds si) q \<longleftrightarrow> q = p \<or> mo_known out ! rank (si_bounds si) q"
  using rank_inj [OF region_of_ok [OF ok] p q] region_facts(4) [OF region_of_ok [OF ok] p] out
  by (auto simp: set_at_index_def out_ok_def nth_list_update)

lemma emit_keeps:
  assumes ok: "full_ok fi V" and filters: "filters_read fi fs"
  shows "emit_inv fi V generation block sky direct {p. bounds_contain (fi_bounds fi) p}
    (fold (emit_cell (fs_filter fs) block sky direct) (enumerate 0 (grid_cells (new_grid (fi_bounds fi))))
      (new_mutable_output (fi_bounds fi) generation V, new_dense_set (fi_bounds fi) V))"
proof -
  note okf = full_ok_facts [OF ok]
  let ?b = "fi_bounds fi" and ?init = "(new_mutable_output (fi_bounds fi) generation V, new_dense_set (fi_bounds fi) V)"
  have "emit_inv fi V generation block sky direct (set (dense_cells ?b))
      (fold (\<lambda>p. emit_cell (fs_filter fs) block sky direct (rank ?b p, pad ?b p)) (dense_cells ?b) ?init)"
  proof (rule fold_seen [where I = "emit_inv fi V generation block sky direct"])
    show "emit_inv fi V generation block sky direct {} ?init"
      using region_facts(4) [OF okf(3)]
      by (simp add: emit_inv_def out_ok_def set_ok_def new_mutable_output_def new_dense_set_def lev_def in_set_def
          get_at_index_def contains_at_index_def pick_def split: light_channel.split)
  next
    fix p seen state
    assume "p \<in> set (dense_cells ?b)" and inv: "emit_inv fi V generation block sky direct seen state"
    then have p: "bounds_contain ?b p" by (simp add: set_dense_cells)
    obtain out D where state: "state = (out, D)" by (rule prod.exhaust)
    note inv = inv [unfolded state emit_inv_def prod.case]
    have blocked: "fs_filter fs ! pad ?b p \<noteq> BLOCKED \<longleftrightarrow> p \<in> open_at fi"
      using filters_value(1) [OF ok filters padded_contain [OF p]] by simp
    show "emit_inv fi V generation block sky direct (insert p seen)
        (emit_cell (fs_filter fs) block sky direct (rank ?b p, pad ?b p) state)"
    proof (cases "p \<in> open_at fi")
      case False
      then have "insert p seen \<inter> open_at fi = seen \<inter> open_at fi" by blast
      moreover have same: "emit_cell (fs_filter fs) block sky direct (rank ?b p, pad ?b p) state = (out, D)"
        using blocked False by (simp add: emit_cell_def state)
      ultimately show ?thesis using inv unfolding same emit_inv_def prod.case by presburger
    next
      case open_p: True
      define out1 where "out1 = set_at_index out (rank ?b p) Channel_Block (block ! pad ?b p)"
      define out2 where "out2 = set_at_index out1 (rank ?b p) Channel_Sky (sky ! pad ?b p)"
      define D2 where "D2 = (if direct ! pad ?b p then insert_at_index D (rank ?b p) else D)"
      have run: "emit_cell (fs_filter fs) block sky direct (rank ?b p, pad ?b p) state = (out2, D2)"
        using blocked open_p by (simp add: emit_cell_def state out2_def out1_def D2_def)
      have out: "out_ok (full_si fi) V out" "out_ok (full_si fi) V out1" "out_ok (full_si fi) V out2"
        and D: "set_ok (full_si fi) V D" "set_ok (full_si fi) V D2"
        using inv by (simp_all add: out1_def out2_def D2_def)
      note set1 = lev_set [OF okf(1) out(1), of p _ Channel_Block "block ! pad ?b p", unfolded solve_input_simps, folded out1_def]
      note set2 = lev_set [OF okf(1) out(2), of p _ Channel_Sky "sky ! pad ?b p", unfolded solve_input_simps, folded out2_def]
      note known1 = known_at_set [OF okf(1) out(1), of p _ Channel_Block "block ! pad ?b p", unfolded solve_input_simps, folded out1_def]
      note known2 = known_at_set [OF okf(1) out(2), of p _ Channel_Sky "sky ! pad ?b p", unfolded solve_input_simps, folded out2_def]
      have ins: "in_set D2 q \<longleftrightarrow> in_set D q \<or> q = p \<and> direct ! pad ?b p" if "bounds_contain ?b q" for q
        using in_set_insert [OF okf(1) D(1), of p q] p that by (auto simp: D2_def)
      have gen: "mo_generation out2 = generation" using inv by (simp add: out2_def out1_def)
      show ?thesis
        unfolding run emit_inv_def prod.case
      proof (intro conjI allI impI)
        fix q assume q: "bounds_contain ?b q"
        show "mo_known out2 ! rank ?b q = (q \<in> insert p seen \<inter> open_at fi)"
          using known2 [OF p q] known1 [OF p q] inv q open_p by auto
        show "in_set D2 q = (q \<in> insert p seen \<inter> open_at fi \<and> direct ! pad ?b q)"
          using ins [OF q] inv q open_p by auto
        show "lev out2 c q = (if q \<in> insert p seen \<inter> open_at fi
            then (case c of Channel_Block \<Rightarrow> block | Channel_Sky \<Rightarrow> sky) ! pad ?b q else 0)" for c
          using set2 [OF p q, of c] set1 [OF p q, of c] inv q open_p by (cases c; cases "q = p") auto
      qed (use out D gen in simp_all)
    qed
  qed
  then show ?thesis by (simp only: emit_cells [OF okf(3)] fold_map comp_def set_dense_cells)
qed

subsection \<open>A whole full solve\<close>

lemma prepare_keeps:
  assumes ok: "full_ok fi V" and buckets: "length (fs_buckets full) = LEVELS"
  shows "wp (full_error fi budget) (\<lambda>fs. grids_ready fi fs \<and> seeds_ok (full_si fi))
    (prepare_grids fi (new_grid (fi_bounds fi)) full)"
  unfolding prepare_grids_def Let_def
proof (rule wp_seq [OF read_blocks_keeps [OF ok reset_read [OF ok]]])
  fix fs0 assume read: "read_inv fi (reset_full (new_grid (fi_bounds fi)) full) {p. bounds_contain (fi_bounds fi) p} fs0"
  note start = halo_start [OF ok buckets read]
  show "wp (full_error fi budget) (\<lambda>fs. grids_ready fi fs \<and> seeds_ok (full_si fi))
    (Some (Inr (if direct_sky_down (fi_profile fi) then fill_direct_sky (new_grid (fi_bounds fi)) (seed_halo fi (new_grid (fi_bounds fi)) fs0)
      else seed_halo fi (new_grid (fi_bounds fi)) fs0)))"
    using halo_ready [OF ok start(1,5,4,2) seed_halo_keeps [OF ok start(1,3)]] start(2) by simp
qed

subsection \<open>The log of a solve\<close>

text \<open>
  The cells a solve spreads in each channel, in order and with their levels: the logs of its two runs over the
  buckets, the second on the buckets and counts the first leaves.
\<close>

definition grids_log :: "full_input \<Rightarrow> full_scratch \<Rightarrow> (usize \<times> nat) list \<Rightarrow> (usize \<times> nat) list \<Rightarrow> bool" where
  "grids_log fi fs block sky \<longleftrightarrow>
     (\<exists>st. spread_log (new_grid (fi_bounds fi)) (fs_filter fs) (sl_max_queue_entries (fi_limits fi))
        \<lparr>bk_values = fs_block fs, bk_buckets = fs_buckets fs, bk_pending = 0, bk_total = 0, bk_stats = no_stats\<rparr> block st \<and>
      (if allows_sky (fi_profile fi)
       then \<exists>st'. spread_log (new_grid (fi_bounds fi)) (fs_filter fs) (sl_max_queue_entries (fi_limits fi))
         (st\<lparr>bk_values := fs_sky fs\<rparr>) sky st'
       else sky = []))"

definition full_log :: "full_input \<Rightarrow> full_scratch \<Rightarrow> (usize \<times> nat) list \<Rightarrow> (usize \<times> nat) list \<Rightarrow> bool" where
  "full_log fi full block sky \<longleftrightarrow>
     (\<exists>fs. prepare_grids fi (new_grid (fi_bounds fi)) full = Some (Inr fs) \<and> grids_log fi fs block sky)"

lemma grids_log_unique:
  assumes "grids_log fi fs block sky" "grids_log fi fs block' sky'" shows "block' = block \<and> sky' = sky"
proof -
  from assms obtain st where st: "block' = block" "if allows_sky (fi_profile fi)
      then (\<exists>st1. spread_log (new_grid (fi_bounds fi)) (fs_filter fs) (sl_max_queue_entries (fi_limits fi)) (st\<lparr>bk_values := fs_sky fs\<rparr>) sky st1) \<and>
        (\<exists>st1. spread_log (new_grid (fi_bounds fi)) (fs_filter fs) (sl_max_queue_entries (fi_limits fi)) (st\<lparr>bk_values := fs_sky fs\<rparr>) sky' st1)
      else sky = [] \<and> sky' = []"
    unfolding grids_log_def by (metis spread_log_unique)
  then show ?thesis using spread_log_unique by (auto split: if_splits)
qed

lemma full_log_unique: "full_log fi full block sky \<Longrightarrow> full_log fi full block' sky' \<Longrightarrow> block' = block \<and> sky' = sky"
  unfolding full_log_def using grids_log_unique by fastforce

lemma full_log_sorted: "full_log fi full block sky \<Longrightarrow> sorted_wrt (\<ge>) (map snd block) \<and> sorted_wrt (\<ge>) (map snd sky)"
  unfolding full_log_def grids_log_def using spread_log_sorted by (fastforce split: if_splits)

text \<open>A log of distinct open cells at their levels in the field.\<close>

definition field_log :: "full_input \<Rightarrow> light_channel \<Rightarrow> (block_pos \<times> nat) list \<Rightarrow> bool" where
  "field_log fi c L \<longleftrightarrow> distinct (map fst L) \<and> (\<forall>(p, l)\<in>set L. p \<in> open_at fi \<and> field_level (full_si fi) c p l)"

lemma field_logI:
  "spread_once fi level L st \<Longrightarrow> (\<And>p. p \<in> open_at fi \<Longrightarrow> field_level (full_si fi) c p (bval fi st p)) \<Longrightarrow> field_log fi c L"
  unfolding spread_once_def field_log_def by fastforce

lemma field_log_length:
  assumes "full_ok fi V" "field_log fi c L" shows "length L \<le> V"
proof -
  have "length L = card (fst ` set L)" using assms(2) distinct_card [of "map fst L"] by (simp add: field_log_def)
  also have "\<dots> \<le> card (open_at fi)"
    using assms(2) finite_open_cells [OF full_ok_facts(1) [OF assms(1)]] by (intro card_mono) (auto simp: field_log_def)
  also have "\<dots> \<le> V" by (rule card_open_cells [OF full_ok_facts(1) [OF assms(1)]])
  finally show ?thesis .
qed

lemma spread_grids_wp:
  assumes ok: "full_ok fi V" and ready: "grids_ready fi fs" and seeds: "seeds_ok (full_si fi)"
  shows "wp (full_error fi (32 * V)) (\<lambda>(out, D, stats). seeds_ok (full_si fi) \<and> holds_field (full_si fi) V out D \<and>
      mo_generation out = generation \<and> (\<exists>K L. grids_log fi fs (map (apfst (pad (fi_bounds fi))) K) (map (apfst (pad (fi_bounds fi))) L) \<and>
        field_log fi Channel_Block K \<and> field_log fi Channel_Sky L \<and> st_increase_dequeued stats = length K + length L))
    (spread_grids fi generation V (new_grid (fi_bounds fi)) fs)" (is "wp _ ?post _")
proof -
  note okf = full_ok_facts [OF ok]
  let ?b = "fi_bounds fi" and ?g = "new_grid (fi_bounds fi)" and ?mx = "sl_max_queue_entries (fi_limits fi)"
  have filters: "filters_read fi fs" using ready by (simp add: grids_ready_def)
  define st0 where "st0 = \<lparr>bk_values = fs_block fs, bk_buckets = fs_buckets fs, bk_pending = 0, bk_total = 0, bk_stats = no_stats\<rparr>"
  have len: "length (channel_grid c fs) = grid_volume ?g" for c using ready by (simp add: grids_ready_def)
  have val0: "bval fi st0 p = value_at fi Channel_Block fs p" for p by (simp add: bval_def st0_def value_at_def)
  have cells: "base_level (full_si fi) c p \<le> value_at fi c fs p" "within_field (full_si fi) c p (value_at fi c fs p)"
    "\<And>offset n l d. offset \<in> set NEIGHBOURS \<Longrightarrow> checked_offset p offset = Some n \<Longrightarrow>
      halo_light (full_si fi) c n = Some (l, d) \<Longrightarrow> l - max (the (filt_at fi p)) 1 \<le> value_at fi c fs p"
    if "p \<in> open_at fi" for c p
    using ready that unfolding grids_ready_def by blast+
  have direct: "fs_direct fs ! pad ?b p = sky_direct fi p" "sky_direct fi p \<Longrightarrow> value_at fi Channel_Sky fs p = 15"
    if "bounds_contain ?b p" for p using ready that unfolding grids_ready_def by blast+
  have field: "field_level (full_si fi) c p (v p)"
    if p: "p \<in> open_at fi" and v: "\<And>p. p \<in> open_at fi \<Longrightarrow> value_at fi c fs p \<le> v p \<and> within_field (full_si fi) c p (v p) \<and> settled fi v p"
    for c p v
  proof (rule within_closed_field)
    show "within_field (full_si fi) c p (v p)" using v p by blast
    show "l \<le> v p" if "lit (full_si fi) c p l d" for l d
    proof (rule closed_field [OF _ _ _ _ that])
      show "base_level (full_si fi) c q \<le> v q" if "q \<in> open_at fi" for q using cells(1) [OF that] v [OF that] le_trans by blast
      show "l - max (the (filt_at fi q)) 1 \<le> v q" if q: "q \<in> open_at fi" and "offset \<in> set NEIGHBOURS"
        "checked_offset q offset = Some n" "halo_light (full_si fi) c n = Some (l, d)" for q offset n l d
        using cells(3) [OF q that(2-4)] v [OF q] le_trans by blast
      show "settled fi v q" if "q \<in> open_at fi" for q using v that by blast
      show "15 \<le> v q" if "sky_direct fi q" "c = Channel_Sky" for q
      proof -
        have "bounds_contain ?b q" "q \<in> open_at fi" using lit_cell [OF that(1)] by (simp_all add: open_at_iff)
        then show ?thesis using direct(2) [of q] v [of q] that by simp
      qed
    qed
  qed
  have emitted: "seeds_ok (full_si fi) \<and> holds_field (full_si fi) V out D \<and> mo_generation out = generation"
    if block: "\<And>p. p \<in> open_at fi \<Longrightarrow> field_level (full_si fi) Channel_Block p (block ! pad ?b p)"
      and sky: "\<And>p. p \<in> open_at fi \<Longrightarrow> field_level (full_si fi) Channel_Sky p (sky ! pad ?b p)"
      and run: "fold (emit_cell (fs_filter fs) block sky (fs_direct fs)) (enumerate 0 (grid_cells ?g))
        (new_mutable_output ?b generation V, new_dense_set ?b V) = (out, D)" for block sky out D
  proof -
    have inv: "emit_inv fi V generation block sky (fs_direct fs) {p. bounds_contain ?b p} (out, D)"
      using emit_keeps [OF ok filters, of generation block sky "fs_direct fs"] by (simp only: run)
    note inv = inv [unfolded emit_inv_def prod.case]
    have seen: "p \<in> {p. bounds_contain ?b p} \<inter> open_at fi \<longleftrightarrow> p \<in> open_at fi" for p by (auto simp: open_at_iff)
    have out: "out_ok (full_si fi) V out" and Dok: "set_ok (full_si fi) V D" using inv by blast+
    have "holds_field (full_si fi) V out D"
      unfolding holds_field_def solve_input_simps
    proof (intro conjI allI impI)
      fix p assume p: "bounds_contain ?b p"
      show "mo_known out ! rank ?b p = (filt_at fi p \<noteq> None)" using inv p by (simp add: seen open_at_iff)
      show "field_level (full_si fi) c p (get_at_index out (rank ?b p) c)" for c
      proof (cases "p \<in> open_at fi")
        case True
        then have "get_at_index out (rank ?b p) c = (case c of Channel_Block \<Rightarrow> block | Channel_Sky \<Rightarrow> sky) ! pad ?b p"
          using inv p get_is_lev [OF out, of p c] by (simp add: seen)
        then show ?thesis using block [OF True] sky [OF True] by (cases c) simp_all
      next
        case False
        then have "get_at_index out (rank ?b p) c = 0" using inv p get_is_lev [OF out, of p c] by (simp add: seen)
        moreover have "\<not> lit (full_si fi) c p l d" for l d using lit_cell [of "full_si fi" c p l d] False by (auto simp: open_at_iff)
        ultimately show ?thesis by (simp add: field_level_def)
      qed
      have "in_set D p \<longleftrightarrow> sky_direct fi p"
        using inv p direct(1) [OF p] lit_cell [of "full_si fi" Channel_Sky p 15 True] by (auto simp: seen open_at_iff)
      then show "contains_at_index D (rank ?b p) \<longleftrightarrow> lit (full_si fi) Channel_Sky p 15 True"
        using Dok by (simp add: in_set_def set_ok_def)
    qed (use out Dok in simp_all)
    then show ?thesis using seeds inv by blast
  qed
  have stats0: "st_increase_dequeued (bk_stats st0) = 0" "bk_total st0 = 0" by (simp_all add: st0_def no_stats_def)
  have first: "wp (full_error fi (32 * V)) (\<lambda>st'. length (bk_values st') = grid_volume ?g \<and> length (bk_buckets st') = LEVELS \<and>
      (\<forall>p\<in>open_at fi. bval fi st0 p \<le> bval fi st' p \<and> within_field (full_si fi) Channel_Block p (bval fi st' p) \<and> settled fi (bval fi st') p) \<and>
      bk_total st' \<le> bk_total st0 + 16 * V \<and>
      (\<exists>K. spread_log ?g (fs_filter fs) ?mx st0 (map (apfst (pad ?b)) K) st' \<and> spread_once fi 1 K st' \<and>
        st_increase_dequeued (bk_stats st') = st_increase_dequeued (bk_stats st0) + length K))
    (spread_buckets ?g (fs_filter fs) ?mx st0)"
    by (rule spread_buckets_keep [OF ok seeds filters])
      (use len [of Channel_Block] cells(2) [of _ Channel_Block] ready val0 in \<open>simp_all add: st0_def grids_ready_def\<close>)
  show ?thesis
    unfolding spread_grids_def st0_def [symmetric]
  proof (rule wp_seq [OF first])
    fix st assume st: "length (bk_values st) = grid_volume ?g \<and> length (bk_buckets st) = LEVELS \<and>
      (\<forall>p\<in>open_at fi. bval fi st0 p \<le> bval fi st p \<and> within_field (full_si fi) Channel_Block p (bval fi st p) \<and> settled fi (bval fi st) p) \<and>
      bk_total st \<le> bk_total st0 + 16 * V \<and>
      (\<exists>K. spread_log ?g (fs_filter fs) ?mx st0 (map (apfst (pad ?b)) K) st \<and> spread_once fi 1 K st \<and>
        st_increase_dequeued (bk_stats st) = st_increase_dequeued (bk_stats st0) + length K)"
    have block: "field_level (full_si fi) Channel_Block p (bk_values st ! pad ?b p)" if "p \<in> open_at fi" for p
      using field [OF that, of Channel_Block "bval fi st"] st val0 by (simp add: bval_def)
    obtain K where K: "spread_log ?g (fs_filter fs) ?mx st0 (map (apfst (pad ?b)) K) st" "spread_once fi 1 K st"
      "st_increase_dequeued (bk_stats st) = length K" using st stats0 by auto
    have K_field: "field_log fi Channel_Block K" by (rule field_logI [OF K(2)]) (simp add: bval_def block)
    define st1 where "st1 = st\<lparr>bk_values := fs_sky fs\<rparr>"
    have val1: "bval fi st1 p = value_at fi Channel_Sky fs p" for p by (simp add: bval_def st1_def value_at_def)
    have sky_run: "wp (full_error fi (32 * V)) (\<lambda>st'. (\<forall>p\<in>open_at fi. field_level (full_si fi) Channel_Sky p (bk_values st' ! pad ?b p)) \<and>
        (\<exists>L. (if allows_sky (fi_profile fi) then spread_log ?g (fs_filter fs) ?mx st1 (map (apfst (pad ?b)) L) st' else L = []) \<and>
          field_log fi Channel_Sky L \<and> st_increase_dequeued (bk_stats st') = length K + length L))
      (if allows_sky (fi_profile fi) then spread_buckets ?g (fs_filter fs) ?mx st1 else Some (Inr st1))"
    proof (cases "allows_sky (fi_profile fi)")
      case True
      have "wp (full_error fi (32 * V)) (\<lambda>st'. length (bk_values st') = grid_volume ?g \<and> length (bk_buckets st') = LEVELS \<and>
          (\<forall>p\<in>open_at fi. bval fi st1 p \<le> bval fi st' p \<and> within_field (full_si fi) Channel_Sky p (bval fi st' p) \<and> settled fi (bval fi st') p) \<and>
          bk_total st' \<le> bk_total st1 + 16 * V \<and>
          (\<exists>L. spread_log ?g (fs_filter fs) ?mx st1 (map (apfst (pad ?b)) L) st' \<and> spread_once fi 1 L st' \<and>
            st_increase_dequeued (bk_stats st') = st_increase_dequeued (bk_stats st1) + length L))
        (spread_buckets ?g (fs_filter fs) ?mx st1)"
      proof (rule spread_buckets_keep [OF ok seeds filters])
        show "length (bk_values st1) = grid_volume ?g" using len [of Channel_Sky] by (simp add: st1_def)
        show "length (bk_buckets st1) = LEVELS" using st by (simp add: st1_def)
        show "within_field (full_si fi) Channel_Sky p (bval fi st1 p)" if "p \<in> open_at fi" for p using cells(2) [OF that] by (simp add: val1)
        show "bk_total st1 + 16 * V \<le> 32 * V" using st stats0 by (simp add: st1_def)
      qed
      then have "wp (full_error fi (32 * V)) (\<lambda>st'. (\<forall>p\<in>open_at fi. field_level (full_si fi) Channel_Sky p (bk_values st' ! pad ?b p)) \<and>
        (\<exists>L. (if allows_sky (fi_profile fi) then spread_log ?g (fs_filter fs) ?mx st1 (map (apfst (pad ?b)) L) st' else L = []) \<and>
          field_log fi Channel_Sky L \<and> st_increase_dequeued (bk_stats st') = length K + length L)) (spread_buckets ?g (fs_filter fs) ?mx st1)"
      proof (rule wp_mono)
        fix st' assume st': "length (bk_values st') = grid_volume ?g \<and> length (bk_buckets st') = LEVELS \<and>
          (\<forall>p\<in>open_at fi. bval fi st1 p \<le> bval fi st' p \<and> within_field (full_si fi) Channel_Sky p (bval fi st' p) \<and> settled fi (bval fi st') p) \<and>
          bk_total st' \<le> bk_total st1 + 16 * V \<and>
          (\<exists>L. spread_log ?g (fs_filter fs) ?mx st1 (map (apfst (pad ?b)) L) st' \<and> spread_once fi 1 L st' \<and>
            st_increase_dequeued (bk_stats st') = st_increase_dequeued (bk_stats st1) + length L)"
        then obtain L where L: "spread_log ?g (fs_filter fs) ?mx st1 (map (apfst (pad ?b)) L) st'" "spread_once fi 1 L st'"
          "st_increase_dequeued (bk_stats st') = st_increase_dequeued (bk_stats st1) + length L" by blast
        have sky: "field_level (full_si fi) Channel_Sky p (bk_values st' ! pad ?b p)" if "p \<in> open_at fi" for p
          using field [OF that, of Channel_Sky "bval fi st'"] st' val1 by (simp add: bval_def)
        have "field_log fi Channel_Sky L" by (rule field_logI [OF L(2)]) (simp add: bval_def sky)
        then show "(\<forall>p\<in>open_at fi. field_level (full_si fi) Channel_Sky p (bk_values st' ! pad ?b p)) \<and>
          (\<exists>L. (if allows_sky (fi_profile fi) then spread_log ?g (fs_filter fs) ?mx st1 (map (apfst (pad ?b)) L) st' else L = []) \<and>
            field_log fi Channel_Sky L \<and> st_increase_dequeued (bk_stats st') = length K + length L)"
          using sky L(1,3) K(3) True by (intro conjI exI [of _ L]) (simp_all add: st1_def)
      qed
      then show ?thesis using True by simp
    next
      case False
      have "field_level (full_si fi) Channel_Sky p (bk_values st1 ! pad ?b p)" if p: "p \<in> open_at fi" for p
      proof (rule within_closed_field)
        show "within_field (full_si fi) Channel_Sky p (bk_values st1 ! pad ?b p)"
          using cells(2) [OF p, of Channel_Sky] by (simp add: st1_def value_at_def)
        show "l \<le> bk_values st1 ! pad ?b p" if "lit (full_si fi) Channel_Sky p l d" for l d
          using dark_sky [of "full_si fi" p l d] that False by simp
      qed
      moreover have "field_log fi Channel_Sky [] \<and> st_increase_dequeued (bk_stats st1) = length K" using K(3) by (simp add: st1_def field_log_def)
      ultimately show ?thesis using False by simp
    qed
    show "wp (full_error fi (32 * V)) ?post
      (then_do (if allows_sky (fi_profile fi) then spread_buckets ?g (fs_filter fs) ?mx (st\<lparr>bk_values := fs_sky fs\<rparr>)
               else Some (Inr (st\<lparr>bk_values := fs_sky fs\<rparr>))) (\<lambda>st'.
        case fold (emit_cell (fs_filter fs) (bk_values st) (bk_values st') (fs_direct fs)) (enumerate 0 (grid_cells ?g))
          (new_mutable_output ?b generation V, new_dense_set ?b V) of (out, D) \<Rightarrow> Some (Inr (out, D, bk_stats st'))))"
      unfolding st1_def [symmetric]
    proof (rule wp_seq [OF sky_run])
      fix st' assume st': "(\<forall>p\<in>open_at fi. field_level (full_si fi) Channel_Sky p (bk_values st' ! pad ?b p)) \<and>
        (\<exists>L. (if allows_sky (fi_profile fi) then spread_log ?g (fs_filter fs) ?mx st1 (map (apfst (pad ?b)) L) st' else L = []) \<and>
          field_log fi Channel_Sky L \<and> st_increase_dequeued (bk_stats st') = length K + length L)"
      then obtain L where L: "if allows_sky (fi_profile fi) then spread_log ?g (fs_filter fs) ?mx st1 (map (apfst (pad ?b)) L) st' else L = []"
        "field_log fi Channel_Sky L" "st_increase_dequeued (bk_stats st') = length K + length L" by blast
      have "grids_log fi fs (map (apfst (pad ?b)) K) (map (apfst (pad ?b)) L)"
        unfolding grids_log_def st0_def [symmetric] using K(1) L(1) by (auto simp: st1_def split: if_splits)
      with L(2,3) K_field have entries: "\<exists>K L. grids_log fi fs (map (apfst (pad ?b)) K) (map (apfst (pad ?b)) L) \<and>
        field_log fi Channel_Block K \<and> field_log fi Channel_Sky L \<and> st_increase_dequeued (bk_stats st') = length K + length L" by blast
      obtain out D where run: "fold (emit_cell (fs_filter fs) (bk_values st) (bk_values st') (fs_direct fs)) (enumerate 0 (grid_cells ?g))
          (new_mutable_output ?b generation V, new_dense_set ?b V) = (out, D)" by (rule prod.exhaust)
      have "seeds_ok (full_si fi) \<and> holds_field (full_si fi) V out D \<and> mo_generation out = generation"
        by (rule emitted [OF block _ run]) (use st' in simp_all)
      then show "wp (full_error fi (32 * V)) ?post
        (case fold (emit_cell (fs_filter fs) (bk_values st) (bk_values st') (fs_direct fs)) (enumerate 0 (grid_cells ?g))
          (new_mutable_output ?b generation V, new_dense_set ?b V) of (out, D) \<Rightarrow> Some (Inr (out, D, bk_stats st')))"
        using entries unfolding run by simp
    qed
  qed
qed

lemma full_cells_wp:
  assumes ok: "full_ok fi V" and buckets: "length (fs_buckets full) = LEVELS"
  shows "wp (full_error fi (32 * V)) (\<lambda>(out, D, stats). seeds_ok (full_si fi) \<and> holds_field (full_si fi) V out D \<and>
      mo_generation out = generation \<and>
      (\<exists>K L. full_log fi full (map (apfst (pad (fi_bounds fi))) K) (map (apfst (pad (fi_bounds fi))) L) \<and>
        field_log fi Channel_Block K \<and> field_log fi Channel_Sky L \<and> st_increase_dequeued stats = length K + length L))
    (full_cells fi generation V full)"
  unfolding full_cells_def Let_def
proof (rule wp_seq [OF wp_result [OF prepare_keeps [OF ok buckets]]], elim conjE)
  fix fs assume "grids_ready fi fs" "seeds_ok (full_si fi)"
    and run: "prepare_grids fi (new_grid (fi_bounds fi)) full = Some (Inr fs)"
  from spread_grids_wp [OF ok this(1,2)] show "wp (full_error fi (32 * V)) (\<lambda>(out, D, stats). seeds_ok (full_si fi) \<and>
      holds_field (full_si fi) V out D \<and> mo_generation out = generation \<and>
      (\<exists>K L. full_log fi full (map (apfst (pad (fi_bounds fi))) K) (map (apfst (pad (fi_bounds fi))) L) \<and>
        field_log fi Channel_Block K \<and> field_log fi Channel_Sky L \<and> st_increase_dequeued stats = length K + length L))
    (spread_grids fi generation V (new_grid (fi_bounds fi)) fs)"
    by (rule wp_mono) (auto simp: full_log_def run)
qed

end
