(* ===== verification/Full_Spec.thy ===== *)
theory Full_Spec
  imports Full_Solved
begin

section \<open>What a full solve promises\<close>

definition full_input_of ::
    "light_block_access \<Rightarrow> light_read_access \<Rightarrow> light_bounds \<Rightarrow> light_profile \<Rightarrow> solver_limits \<Rightarrow> full_input" where
  "full_input_of blocks prior b profile limits =
     \<lparr>fi_blocks = blocks, fi_prior = prior, fi_bounds = b, fi_profile = profile, fi_limits = limits\<rparr>"

text \<open>A region whose padded grid has at most \<open>2 ^ 32\<close> cells, as the buckets' indices need.\<close>

definition small_region :: "light_bounds \<Rightarrow> nat \<Rightarrow> bool" where
  "small_region b V \<longleftrightarrow> region b V \<and> grid_volume (new_grid b) \<le> 2 ^ 32"

lemma small_volume: "small_region b V \<Longrightarrow> V \<le> U32_MAX"
proof -
  assume small: "small_region b V"
  let ?X = "light_axis_len (bp_x (lb_min b)) (bp_x (lb_max b))"
  have V: "V = ?X * y_len b * z_len b" using small volume_eq(1) by (simp add: small_region_def region_def)
  have "?X * y_len b * z_len b \<le> ?X * (y_len b + 2) * (z_len b + 2)" by (intro mult_le_mono) simp_all
  also have "\<dots> < ?X * (y_len b + 2) * (z_len b + 2) + 2 * ((y_len b + 2) * (z_len b + 2))" by simp
  also have "\<dots> = (?X + 2) * ((y_len b + 2) * (z_len b + 2))" by (simp only: add_mult_distrib mult.assoc)
  finally show ?thesis using small by (simp add: V small_region_def grid_volume_def U32_MAX_def)
qed

lemma full_input_ok:
  assumes "small_region b V" "nibble_inputs blocks prior" "honest_source (lb_dimension b) blocks"
  shows "full_ok (full_input_of blocks prior b profile limits) V"
  using solve_input_ok [OF _ small_volume [OF assms(1)] assms(2), of b profile limits] assms
  by (simp add: full_ok_def full_input_of_def small_region_def)

lemma solve_full_wp:
  assumes small: "small_region b V" and nibbles: "nibble_inputs blocks prior" and honest: "honest_source (lb_dimension b) blocks"
    and buckets: "length (fs_buckets full) = LEVELS" and si: "si = solve_input_of blocks prior b profile limits"
  shows "wp (\<lambda>e. if sl_max_voxels limits < V then e = Voxel_Limit_Exceeded V (sl_max_voxels limits)
      else full_error (full_input_of blocks prior b profile limits) (32 * V) e)
    (\<lambda>out. V \<le> sl_max_voxels limits \<and> seeds_ok si \<and> shows_field si generation out \<and>
      (\<exists>K L. full_log (full_input_of blocks prior b profile limits) full (map (apfst (pad b)) K) (map (apfst (pad b)) L) \<and>
        field_log (full_input_of blocks prior b profile limits) Channel_Block K \<and>
        field_log (full_input_of blocks prior b profile limits) Channel_Sky L \<and>
        st_increase_dequeued (so_stats out) = length K + length L))
    (solve_light_full_with_scratch blocks prior b generation profile limits full)"
proof -
  let ?fi = "full_input_of blocks prior b profile limits"
  have ok: "full_ok ?fi V" by (rule full_input_ok [OF small nibbles honest])
  have si': "full_si ?fi = si" by (simp add: si full_input_of_def)
  have volume: "bounded_volume b limits =
      (if sl_max_voxels limits < V then Inl (Voxel_Limit_Exceeded V (sl_max_voxels limits)) else Inr V)"
    using small by (simp add: bounded_volume_def small_region_def region_def)
  show ?thesis
  proof (cases "sl_max_voxels limits < V")
    case True
    then show ?thesis by (simp add: solve_light_full_with_scratch_def volume)
  next
    case False
    then have run: "solve_light_full_with_scratch blocks prior b generation profile limits full =
        then_do (full_cells ?fi generation V full) (\<lambda>(out, direct, stats). map_option Inr (freeze out direct stats))"
      by (simp add: solve_light_full_with_scratch_def volume full_input_of_def)
    note cells = full_cells_wp [OF ok buckets, of generation, unfolded si']
    obtain r where r: "full_cells ?fi generation V full = Some r" using cells by (auto simp: wp_def split: option.splits)
    show ?thesis
    proof (cases r)
      case (Inl e)
      then show ?thesis using cells False by (simp add: run r then_do_def)
    next
      case (Inr result)
      obtain out D stats where result: "result = (out, D, stats)" by (rule prod_cases3)
      have holds: "seeds_ok si" "holds_field si V out D" "mo_generation out = generation"
        and entries: "\<exists>K L. full_log ?fi full (map (apfst (pad (fi_bounds ?fi))) K) (map (apfst (pad (fi_bounds ?fi))) L) \<and>
          field_log ?fi Channel_Block K \<and> field_log ?fi Channel_Sky L \<and> st_increase_dequeued stats = length K + length L"
        using cells by (simp_all add: r Inr result)
      have oksi: "solve_ok si V" using full_ok_facts(1) [OF ok] by (simp add: si')
      have out: "out_ok si V out" using holds(2) by (simp add: holds_field_def)
      have le: "lev out c p \<le> 15" if "bounds_contain (si_bounds si) p" for c p
      proof -
        have "field_level si c p (lev out c p)" using holds(2) that by (simp add: holds_field_def get_is_lev [OF out])
        then show ?thesis using lit_le [OF oksi holds(1)] unfolding field_level_def by fastforce
      qed
      obtain shown where shown: "freeze out D stats = Some shown" "so_stats shown = stats"
        by (rule freeze_spec [OF oksi out le]) (assumption, rule that)
      moreover obtain shown' where "freeze out D stats = Some shown'" "shows_field si generation shown'"
        using freeze_shows_field [OF oksi holds] by blast
      moreover have "fi_bounds ?fi = b" by (simp add: full_input_of_def)
      ultimately show ?thesis using holds(1) entries False by (simp add: run r Inr result then_do_def)
    qed
  qed
qed

subsection \<open>The log\<close>

text \<open>
  A log spreads the cells of the region once: no cell is in it twice, brighter cells come before dimmer ones, and each
  spreads at the level it has in the end.
\<close>

definition spreads_once :: "light_bounds \<Rightarrow> (block_pos \<Rightarrow> nat) \<Rightarrow> (usize \<times> nat) list \<Rightarrow> bool" where
  "spreads_once b light entries \<longleftrightarrow> distinct (map fst entries) \<and> sorted_wrt (\<ge>) (map snd entries) \<and>
     (\<forall>(cell, level)\<in>set entries. \<exists>p. bounds_contain b p \<and> cell = pad b p \<and> level = light p)"

lemma field_log_spreads:
  assumes ok: "full_ok fi V" and "field_log fi c L" and sorted: "sorted_wrt (\<ge>) (map snd (map (apfst (pad (fi_bounds fi))) L))"
    and shows_it: "shows_field (full_si fi) generation out"
  shows "spreads_once (fi_bounds fi) (\<lambda>p. light_at out p c) (map (apfst (pad (fi_bounds fi))) L)"
proof -
  have L: "distinct (map fst L)" "\<And>p l. (p, l) \<in> set L \<Longrightarrow> p \<in> open_at fi \<and> field_level (full_si fi) c p l"
    using assms(2) by (auto simp: field_log_def)
  have inside: "bounds_contain (fi_bounds fi) p" if "p \<in> set (map fst L)" for p using L(2) that by (force simp: open_at_iff)
  have inj: "inj_on (pad (fi_bounds fi)) (set (map fst L))"
    using pad_inj [OF full_ok_facts(2) [OF ok] padded_contain padded_contain] inside by (meson inj_onI)
  have "map fst (map (apfst (pad (fi_bounds fi))) L) = map (pad (fi_bounds fi)) (map fst L)" by simp
  then have once: "distinct (map fst (map (apfst (pad (fi_bounds fi))) L))" using L(1) inj by (simp only: distinct_map)
  have "\<exists>p. bounds_contain (fi_bounds fi) p \<and> cell = pad (fi_bounds fi) p \<and> level = light_at out p c"
    if entry: "(cell, level) \<in> set (map (apfst (pad (fi_bounds fi))) L)" for cell level
  proof -
    obtain p where p: "(p, level) \<in> set L" "cell = pad (fi_bounds fi) p" using entry by auto
    have b: "bounds_contain (fi_bounds fi) p" using L(2) [OF p(1)] by (simp add: open_at_iff)
    have "field_level (full_si fi) c p (light_at out p c)" using shows_field_inside(1) [OF shows_it] b by simp
    then have "level = light_at out p c" using L(2) [OF p(1)] field_level_unique by blast
    then show ?thesis using b p(2) by blast
  qed
  then show ?thesis using once sorted unfolding spreads_once_def by blast
qed

subsection \<open>The example region\<close>

lemma example_small_region: "small_region example_bounds 27"
  using example_region
  by (simp add: small_region_def grid_volume_def example_bounds_def y_len_def z_len_def light_axis_len_def)

lemma example_honest: "honest_source dimension example_air"
  by (auto simp: honest_source_def example_air_def default_is_known_def default_sample_section_def)

lemma default_buckets [simp]: "length (fs_buckets default_full_scratch) = LEVELS"
  by (simp add: default_full_scratch_def)

lemma example_full_solved:
  assumes "nibble_inputs example_air prior"
  shows "\<exists>out. solve_light_full_with_scratch example_air prior example_bounds generation (Overworld True) example_limits
    default_full_scratch = Some (Inr out)"
proof -
  let ?fi = "full_input_of example_air prior example_bounds (Overworld True) example_limits"
  have "seeds_ok (full_si ?fi)" by (simp add: seeds_ok_def example_air_def full_input_of_def)
  then have "\<not> full_error ?fi (32 * 27) e" for e by (cases e) (simp_all add: full_error_def full_input_of_def)
  then show ?thesis
    using solve_full_wp [OF example_small_region assms example_honest default_buckets refl, of example_limits "Overworld True" generation]
    by (auto simp: wp_def split: option.splits sum.splits)
qed

subsection \<open>The properties\<close>

text \<open>
  C4. The full solve gives the result of the incremental solve: whatever light the incremental solve started
  from and whatever either left in its scratch buffers, every reading of the two results agrees, light and
  direct sky alike, given the same blocks and the same trusted light around the bounds.
\<close>
theorem full_solve_equals_incremental:
  assumes "small_region b V" "honest_source (lb_dimension b) blocks"
    and "nibble_inputs blocks prior" "nibble_inputs blocks prior'" "same_halo b prior prior'"
    and "length (fs_buckets full) = LEVELS" "fair_scratch scratch"
    and "solve_light_full_with_scratch blocks prior b generation profile limits full = Some (Inr out)"
    and "solve_light_with_scratch blocks prior' b generation' profile limits' scratch = Some (Inr out')"
  shows "(\<forall>p c. light_at out p c = light_at out' p c) \<and>
    (\<forall>dim p. output_has_direct out dim p = output_has_direct out' dim p)"
proof -
  have region: "region b V" "V \<le> U32_MAX" using assms(1) small_volume by (simp_all add: small_region_def)
  have "shows_field (solve_input_of blocks prior b profile limits) generation out"
    using solve_full_wp [OF assms(1,3,2,6) refl, of limits profile generation] assms(8) by simp
  moreover have "shows_field (solve_input_of blocks prior' b profile limits') generation' out'"
    using solve_light_wp [OF region assms(4,7) refl, of limits' profile generation'] assms(9) by simp
  ultimately show ?thesis using same_field [OF assms(5)] by blast
qed

theorem full_solve_equals_incremental_witness:
  "\<exists>out out'. solve_light_full_with_scratch example_air empty_light example_bounds 7 (Overworld True) example_limits
       default_full_scratch = Some (Inr out) \<and>
     solve_light example_air example_stale example_bounds 8 (Overworld True) example_limits = Some (Inr out') \<and>
     light_at out (Block_Pos 1 61 (-16)) Channel_Sky = light_at out' (Block_Pos 1 61 (-16)) Channel_Sky"
proof -
  have same: "same_halo example_bounds empty_light example_stale" by (simp add: same_halo_def example_stale_def)
  obtain out where out: "solve_light_full_with_scratch example_air empty_light example_bounds 7 (Overworld True) example_limits
      default_full_scratch = Some (Inr out)" using example_full_solved [OF example_nibbles(1)] by blast
  obtain out' where out': "solve_light_with_scratch example_air example_stale example_bounds 8 (Overworld True) example_limits
      default_scratch = Some (Inr out')" using example_solved [OF example_nibbles(2) example_stale_small] by blast
  from full_solve_equals_incremental [OF example_small_region example_honest example_nibbles same default_buckets fair_default out out']
    out out' show ?thesis by (auto simp: solve_light_def)
qed

text \<open>
  C10. A full solve that succeeds returns the light field, and its work is what the buckets are for: the logs of its two
  runs (\<open>full_log\<close> has one pair for each solve) hold every spread the statistics count, no cell twice in the log of a
  channel, brighter cells first and each cell at the light the result shows there.  So it spreads at most twice for
  each cell.
\<close>
theorem full_solve_is_field:
  assumes "small_region b V" "nibble_inputs blocks prior" "honest_source (lb_dimension b) blocks"
    and "length (fs_buckets full) = LEVELS"
    and "solve_light_full_with_scratch blocks prior b generation profile limits full = Some (Inr out)"
  shows "shows_field (solve_input_of blocks prior b profile limits) generation out \<and>
    (\<exists>block sky. full_log (full_input_of blocks prior b profile limits) full block sky \<and>
       spreads_once b (\<lambda>p. light_at out p Channel_Block) block \<and> spreads_once b (\<lambda>p. light_at out p Channel_Sky) sky \<and>
       st_increase_dequeued (so_stats out) = length block + length sky) \<and>
    st_increase_dequeued (so_stats out) \<le> 2 * V"
proof -
  let ?fi = "full_input_of blocks prior b profile limits"
  have ok: "full_ok ?fi V" by (rule full_input_ok [OF assms(1-3)])
  have fi: "fi_bounds ?fi = b" "full_si ?fi = solve_input_of blocks prior b profile limits" by (simp_all add: full_input_of_def)
  obtain K L where run: "shows_field (full_si ?fi) generation out"
      "full_log ?fi full (map (apfst (pad b)) K) (map (apfst (pad b)) L)" "field_log ?fi Channel_Block K" "field_log ?fi Channel_Sky L"
      "st_increase_dequeued (so_stats out) = length K + length L"
    using solve_full_wp [OF assms(1-4) fi(2), of generation] unfolding assms(5) wp_simps by (elim conjE exE) (rule that)
  have "spreads_once b (\<lambda>p. light_at out p Channel_Block) (map (apfst (pad b)) K)"
    "spreads_once b (\<lambda>p. light_at out p Channel_Sky) (map (apfst (pad b)) L)"
    using field_log_spreads [OF ok run(3) _ run(1)] field_log_spreads [OF ok run(4) _ run(1)] full_log_sorted [OF run(2)]
    by (simp_all add: fi)
  moreover have "length K + length L \<le> 2 * V" using field_log_length [OF ok run(3)] field_log_length [OF ok run(4)] by simp
  ultimately show ?thesis using run(1) [unfolded fi(2)] run(2,5)
    by (intro conjI exI [of _ "map (apfst (pad b)) K"] exI [of _ "map (apfst (pad b)) L"]; simp)
qed

theorem full_solve_is_field_witness:
  "\<exists>out block sky. solve_light_full_with_scratch example_air empty_light example_bounds 7 (Overworld True) example_limits
       default_full_scratch = Some (Inr out) \<and>
     light_at out (Block_Pos 0 60 (-16)) Channel_Sky = 15 \<and> output_has_direct out 0 (Block_Pos 0 60 (-16)) \<and>
     full_log (full_input_of example_air empty_light example_bounds (Overworld True) example_limits) default_full_scratch block sky \<and>
     distinct (map fst sky) \<and> st_increase_dequeued (so_stats out) = length block + length sky \<and>
     st_increase_dequeued (so_stats out) \<le> 54"
proof -
  obtain out where out: "solve_light_full_with_scratch example_air empty_light example_bounds 7 (Overworld True) example_limits
      default_full_scratch = Some (Inr out)" using example_full_solved [OF example_nibbles(1)] by blast
  from full_solve_is_field [OF example_small_region example_nibbles(1) example_honest default_buckets this]
  obtain block sky where run: "shows_field (solve_input_of example_air empty_light example_bounds (Overworld True) example_limits) 7 out"
    "full_log (full_input_of example_air empty_light example_bounds (Overworld True) example_limits) default_full_scratch block sky"
    "distinct (map fst sky)" "st_increase_dequeued (so_stats out) = length block + length sky"
    "st_increase_dequeued (so_stats out) \<le> 54" by (auto simp: spreads_once_def)
  from example_reads [OF run(1) example_nibbles(1)] run(2-) out show ?thesis by blast
qed

text \<open>
  C12. A full solve always returns, and each error has its reason: too many cells, a queue limit below 32
  entries a cell, or a sky seed above 15.  It never reads the light the cells had, so that light cannot
  make it fail; no count underflows and no loop runs on.
\<close>
theorem full_solve_returns:
  assumes "small_region b V" "nibble_inputs blocks prior" "honest_source (lb_dimension b) blocks"
    and "length (fs_buckets full) = LEVELS"
  shows "\<exists>result. solve_light_full_with_scratch blocks prior b generation profile limits full = Some result \<and>
    (case result of
       Inr _ \<Rightarrow> V \<le> sl_max_voxels limits
     | Inl (Voxel_Limit_Exceeded n m) \<Rightarrow> n = V \<and> m = sl_max_voxels limits \<and> m < V
     | Inl (Queue_Limit_Exceeded m) \<Rightarrow> m = sl_max_queue_entries limits \<and> m < 32 * V
     | Inl (Light_Value_Out_Of_Range v) \<Rightarrow> 15 < v \<and>
         (\<exists>p. bounds_contain b p \<and> sample_filter (ba_sample blocks p) \<noteq> None \<and> 15 < ba_sky_seed blocks p)
     | Inl _ \<Rightarrow> False)"
proof -
  let ?si = "solve_input_of blocks prior b profile limits" and ?fi = "full_input_of blocks prior b profile limits"
  have run: "wp (\<lambda>e. if sl_max_voxels limits < V then e = Voxel_Limit_Exceeded V (sl_max_voxels limits) else full_error ?fi (32 * V) e)
    (\<lambda>out. V \<le> sl_max_voxels limits \<and> seeds_ok ?si \<and> shows_field ?si generation out)
    (solve_light_full_with_scratch blocks prior b generation profile limits full)"
    by (rule wp_mono [OF solve_full_wp [OF assms refl]]) blast
  then obtain result where result: "solve_light_full_with_scratch blocks prior b generation profile limits full = Some result"
    by (auto simp: wp_def split: option.splits)
  have bad: "\<not> seeds_ok (full_si ?fi) \<longleftrightarrow>
      (\<exists>p. bounds_contain b p \<and> sample_filter (ba_sample blocks p) \<noteq> None \<and> 15 < ba_sky_seed blocks p)"
    by (auto simp: seeds_ok_def full_input_of_def not_le)
  have limits: "fi_limits ?fi = limits" by (simp add: full_input_of_def)
  show ?thesis
  proof (cases result)
    case (Inl e)
    then show ?thesis
      using run bad by (cases e) (auto simp: result full_error_def limits split: if_splits)
  next
    case (Inr out)
    then show ?thesis using run by (simp add: result)
  qed
qed

theorem full_solve_returns_witness:
  "solve_light_full_with_scratch example_air example_stale example_bounds 7 Nether
     \<lparr>sl_max_voxels = 26, sl_max_queue_entries = 864\<rparr> default_full_scratch = Some (Inl (Voxel_Limit_Exceeded 27 26))"
proof -
  let ?run = "solve_light_full_with_scratch example_air example_stale example_bounds 7 Nether
     \<lparr>sl_max_voxels = 26, sl_max_queue_entries = 864\<rparr> default_full_scratch"
  have bright: "\<not> 15 < ba_sky_seed example_air p" for p by (simp add: example_air_def)
  obtain result where result: "?run = Some result" and reason: "case result of
       Inr _ \<Rightarrow> 27 \<le> (26 :: nat)
     | Inl (Voxel_Limit_Exceeded n m) \<Rightarrow> n = 27 \<and> m = 26 \<and> m < 27
     | Inl (Queue_Limit_Exceeded m) \<Rightarrow> m = 864 \<and> m < 32 * 27
     | Inl (Light_Value_Out_Of_Range v) \<Rightarrow> False
     | Inl _ \<Rightarrow> False"
    using full_solve_returns [OF example_small_region example_nibbles(2) example_honest default_buckets, of 7 Nether
      "\<lparr>sl_max_voxels = 26, sl_max_queue_entries = 864\<rparr>"]
    by (simp only: bright solver_limits.simps simp_thms ex_simps) blast
  then have "result = Inl (Voxel_Limit_Exceeded 27 26)"
    by (cases result; cases "projl result") auto
  then show ?thesis using result by simp
qed

end
