(* ===== verification/Light_Changes.thy ===== *)
theory Light_Changes
  imports Light_Output
begin

section \<open>Relighting changed cells\<close>

text \<open>
  \<^verbatim>\<open>light_solver/changes.rs\<close>: the light of a region that was already solved, after a few cells
  changed.  Only the changed cells and their neighbours are tested for support, only darkened cells
  are raised again, and only the cells around them are queued.
\<close>

subsection \<open>The cells that can change\<close>

text \<open>The changed cells inside the bounds and their neighbours, each once, in the order they are met.\<close>

definition collect_candidate ::
    "mutable_output \<Rightarrow> block_pos \<Rightarrow> i32 \<times> i32 \<times> i32 \<Rightarrow> dense_set \<times> (usize \<times> block_pos) list \<Rightarrow>
     dense_set \<times> (usize \<times> block_pos) list" where
  "collect_candidate out p offset st = (case st of (seen, candidates) \<Rightarrow>
     (case checked_offset p offset of
       None \<Rightarrow> st
     | Some cell \<Rightarrow> (case mo_index out cell of
         None \<Rightarrow> st
       | Some index \<Rightarrow>
           (if contains_at_index seen index then st
            else (insert_at_index seen index, candidates @ [(index, cell)])))))"

definition change_candidates :: "mutable_output \<Rightarrow> light_bounds \<Rightarrow> usize \<Rightarrow> block_pos list \<Rightarrow> (usize \<times> block_pos) list" where
  "change_candidates out b volume changed =
     snd (fold (\<lambda>p. fold (collect_candidate out p) ((0, 0, 0) # NEIGHBOURS)) changed (new_dense_set b volume, []))"

subsection \<open>Darkening, with a record of the cells it darkens\<close>

type_synonym change_state = "darken_state \<times> (usize \<times> block_pos) list"

definition change_push :: "solve_input \<Rightarrow> block_pos \<Rightarrow> usize \<Rightarrow> light_channel \<Rightarrow> nat \<Rightarrow> nat \<Rightarrow>
    change_state \<Rightarrow> light_solve_error + change_state" where
  "change_push si p index c base old st = (case st of (dark, darkened) \<Rightarrow>
     and_then (darken_push si p index c base old dark) (\<lambda>dark. Inr (dark, darkened @ [(index, p)])))"

definition change_seed_cell :: "solve_input \<Rightarrow> usize \<times> block_pos \<Rightarrow> change_state \<Rightarrow> change_state outcome" where
  "change_seed_cell si cell st = (case cell of (index, p) \<Rightarrow>
     (if filter_at si index = None then Some (Inr st)
      else for_each (\<lambda>c st. Some (
          let old = get_at_index (dk_output (fst st)) index c
          in and_then (local_base si index c) (\<lambda>base.
               and_then (if old = 0 then Inr True else prior_supports_level si p index c old) (\<lambda>keep.
                 if keep then Inr st
                 else and_then (change_push si p index c base old st) (\<lambda>(dark, darkened).
                   Inr (dark\<lparr>dk_stats := (dk_stats dark)\<lparr>st_darken_seeded := st_darken_seeded (dk_stats dark) + 1\<rparr>\<rparr>,
                     darkened))))))
        both_channels st))"

definition change_visit :: "solve_input \<Rightarrow> darken_entry \<Rightarrow> usize \<Rightarrow> nat \<times> (i32 \<times> i32 \<times> i32) \<Rightarrow>
    change_state \<Rightarrow> change_state outcome" where
  "change_visit si entry entry_index step' st = (case step' of (direction, offset) \<Rightarrow>
     (case light_neighbour (si_bounds si) (de_position entry) entry_index direction of
       None \<Rightarrow> Some (Inr st)
     | Some (next', index) \<Rightarrow>
         (if filter_at si index = None then Some (Inr st)
          else
            let current = get_at_index (dk_output (fst st)) index (de_channel entry)
            in Some (and_then (local_base si index (de_channel entry)) (\<lambda>base.
                 if current > base \<and> depended_on_removed si entry offset current
                 then and_then (change_push si next' index (de_channel entry) base current st) (\<lambda>(dark, darkened).
                   Inr (dark\<lparr>dk_stats := raise_peak (length (dk_queue dark)) (dk_stats dark)\<rparr>, darkened))
                 else Inr st)))))"

definition change_darken_one :: "solve_input \<Rightarrow> darken_entry \<Rightarrow> change_state \<Rightarrow> change_state outcome" where
  "change_darken_one si entry st = (case st of (dark, darkened) \<Rightarrow>
     (let dark = dark\<lparr>dk_stats := (dk_stats dark)\<lparr>st_darken_dequeued := st_darken_dequeued (dk_stats dark) + 1\<rparr>\<rparr>
      in case mo_index (dk_output dark) (de_position entry) of
           None \<Rightarrow> None
         | Some entry_index \<Rightarrow> for_each (change_visit si entry entry_index) (enumerate 0 NEIGHBOURS) (dark, darkened)))"

partial_function (option) change_loop :: "solve_input \<Rightarrow> change_state \<Rightarrow> change_state outcome" where
  "change_loop si st = (case dk_queue (fst st) of
     [] \<Rightarrow> Some (Inr st)
   | entry # queue \<Rightarrow> (case change_darken_one si entry ((fst st)\<lparr>dk_queue := queue\<rparr>, snd st) of
       None \<Rightarrow> None
     | Some r \<Rightarrow> (case r of Inl e \<Rightarrow> Some (Inl e) | Inr st' \<Rightarrow> change_loop si st')))"

definition change_darken :: "solve_input \<Rightarrow> (usize \<times> block_pos) list \<Rightarrow> mutable_output \<Rightarrow> change_state outcome" where
  "change_darken si candidates out =
     then_do (for_each (change_seed_cell si) candidates
         (\<lparr>dk_output = out, dk_queue = [], dk_total = 0, dk_stats = no_stats\<rparr>, [])) (\<lambda>(dark, darkened).
       change_loop si (dark\<lparr>dk_stats := raise_peak (length (dk_queue dark)) (dk_stats dark)\<rparr>, darkened))"

subsection \<open>Spreading from what changed\<close>

text \<open>The candidates, the darkened cells and the neighbours of the darkened cells.\<close>

definition mark_neighbour :: "mutable_output \<Rightarrow> block_pos \<Rightarrow> i32 \<times> i32 \<times> i32 \<Rightarrow> dense_set \<Rightarrow> dense_set" where
  "mark_neighbour out p offset spreading =
     (case checked_offset p offset of
       None \<Rightarrow> spreading
     | Some cell \<Rightarrow> (case mo_index out cell of None \<Rightarrow> spreading | Some index \<Rightarrow> insert_at_index spreading index))"

definition spreading_cells :: "mutable_output \<Rightarrow> light_bounds \<Rightarrow> usize \<Rightarrow> (usize \<times> block_pos) list \<Rightarrow>
    (usize \<times> block_pos) list \<Rightarrow> dense_set" where
  "spreading_cells out b volume candidates darkened =
     fold (\<lambda>(index, p) spreading. fold (mark_neighbour out p) NEIGHBOURS (insert_at_index spreading index)) darkened
       (fold (\<lambda>(index, _) spreading. insert_at_index spreading index) candidates (new_dense_set b volume))"

text \<open>Direct sky is marked at every cell; only the spreading cells are queued.\<close>

definition change_fill_cell :: "solve_input \<Rightarrow> dense_set \<Rightarrow> mutable_output \<Rightarrow> usize \<times> block_pos \<Rightarrow> fill_state \<Rightarrow> fill_state outcome" where
  "change_fill_cell si spreading out cell st = (case cell of (index, p) \<Rightarrow>
     (case filter_at si index of
       None \<Rightarrow> Some (Inr st)
     | Some f \<Rightarrow> for_each (\<lambda>c st. Some (
         let level = get_at_index out index c
         in if level = 0 then Inr st
            else and_then (starts_direct si index p c level f) (\<lambda>is_direct.
              let st = (if is_direct then st\<lparr>fl_direct := insert_at_index (fl_direct st) index\<rparr> else st)
              in if \<not> contains_at_index spreading index then Inr st
                 else and_then (queue_push_back (fill_queue st c)
                    \<lparr>ie_position = p, ie_index = index, ie_direct = is_direct\<rparr> (fl_total st) (max_entries si))
                   (\<lambda>(q, count). Inr ((set_fill_queue st c q)\<lparr>fl_total := count\<rparr>)))))
       both_channels st))"

subsection \<open>The whole relighting\<close>

definition relight_from ::
    "solve_input \<Rightarrow> usize \<Rightarrow> increase_queue \<Rightarrow> increase_queue \<Rightarrow> (usize \<times> block_pos) list \<Rightarrow> mutable_output \<Rightarrow>
     (mutable_output \<times> dense_set \<times> light_solve_stats) outcome" where
  "relight_from si volume block_increase sky_increase candidates out =
     then_do (change_darken si candidates out) (\<lambda>(dark, darkened).
     then_do (for_each (raise_cell si) (map fst (candidates @ darkened)) (dk_output dark)) (\<lambda>out.
     then_do (for_each (change_fill_cell si (spreading_cells out (si_bounds si) volume candidates darkened) out)
         (enumerate 0 (collect_positions (bounds_positions (si_bounds si))))
         \<lparr>fl_block = block_increase, fl_sky = sky_increase, fl_direct = new_dense_set (si_bounds si) volume,
          fl_total = dk_total dark\<rparr>) (\<lambda>fill.
     then_do (propagate si Channel_Block \<lparr>sp_output = out, sp_queue = fl_block fill, sp_direct = fl_direct fill,
         sp_total = fl_total fill, sp_stats = dk_stats dark\<rparr>) (\<lambda>st.
     then_do (propagate si Channel_Sky (st\<lparr>sp_queue := fl_sky fill\<rparr>)) (\<lambda>st.
       Some (Inr (sp_output st, sp_direct st, sp_stats st)))))))"

text \<open>The queues are reset once the earlier light is loaded.\<close>

definition relight_cells ::
    "solve_input \<Rightarrow> u64 \<Rightarrow> usize \<Rightarrow> light_solver_scratch \<Rightarrow> block_pos list \<Rightarrow>
     (mutable_output \<times> dense_set \<times> light_solve_stats) outcome" where
  "relight_cells si generation volume scratch changed =
     then_do (for_each (load_cell si) (enumerate 0 (collect_positions (bounds_positions (si_bounds si))))
         (new_mutable_output (si_bounds si) generation volume)) (\<lambda>out.
       case queue_reset (sc_block_increase scratch) volume of
         None \<Rightarrow> None
       | Some block_increase \<Rightarrow>
           (case queue_reset (sc_sky_increase scratch) volume of
             None \<Rightarrow> None
           | Some sky_increase \<Rightarrow>
               relight_from si volume block_increase sky_increase
                 (change_candidates out (si_bounds si) volume changed) out))"

definition solve_light_changes_with_scratch ::
    "light_block_access \<Rightarrow> light_read_access \<Rightarrow> light_bounds \<Rightarrow> u64 \<Rightarrow> light_profile \<Rightarrow> solver_limits \<Rightarrow>
     light_solver_scratch \<Rightarrow> block_pos list \<Rightarrow> light_solve_output outcome" where
  "solve_light_changes_with_scratch blocks prior b generation profile limits scratch changed =
     (case bounded_volume b limits of
       Inl e \<Rightarrow> Some (Inl e)
     | Inr volume \<Rightarrow>
         then_do (relight_cells (solve_input_of blocks prior b profile limits) generation volume scratch changed)
           (\<lambda>(out, direct, stats). map_option Inr (freeze out direct stats)))"

end
