(* ===== verification/Changes_Dark.thy ===== *)
theory Changes_Dark
  imports Light_Changes Light_Result
begin

section \<open>Where a change reaches\<close>

text \<open>
  The candidates are exactly the changed cells and their neighbours inside the bounds; the spreading
  cells are the candidates, the darkened cells and the neighbours of those.
\<close>

abbreviation cell_at :: "solve_input \<Rightarrow> block_pos \<Rightarrow> usize \<times> block_pos" where
  "cell_at si p \<equiv> (rank (si_bounds si) p, p)"

definition beside :: "solve_input \<Rightarrow> block_pos \<Rightarrow> i32 \<times> i32 \<times> i32 \<Rightarrow> block_pos set" where
  "beside si p offset = {q. bounds_contain (si_bounds si) q \<and> checked_offset p offset = Some q}"

text \<open>The cells a change can touch at once.\<close>

definition touched :: "solve_input \<Rightarrow> block_pos set \<Rightarrow> block_pos set" where
  "touched si changed = (\<Union>p\<in>changed. \<Union>offset\<in>set ((0, 0, 0) # NEIGHBOURS). beside si p offset)"

subsection \<open>Candidates\<close>

definition collected :: "solve_input \<Rightarrow> nat \<Rightarrow> block_pos list \<Rightarrow> dense_set \<times> (usize \<times> block_pos) list \<Rightarrow> bool" where
  "collected si V ps st \<longleftrightarrow> snd st = map (cell_at si) ps \<and> distinct ps \<and> (\<forall>p\<in>set ps. bounds_contain (si_bounds si) p) \<and>
     set_ok si V (fst st) \<and> (\<forall>q. bounds_contain (si_bounds si) q \<longrightarrow> in_set (fst st) q = (q \<in> set ps))"

lemma new_set_ok: "set_ok si V (new_dense_set (si_bounds si) V)"
  by (simp add: set_ok_def new_dense_set_def)

lemma new_set_empty:
  "solve_ok si V \<Longrightarrow> bounds_contain (si_bounds si) p \<Longrightarrow> \<not> in_set (new_dense_set (si_bounds si) V) p"
  using region_facts(4) [OF region_of_ok] by (simp add: in_set_def contains_at_index_def new_dense_set_def)

lemma at_rank: "set_ok si V D \<Longrightarrow> contains_at_index D (rank (si_bounds si) p) = in_set D p"
  by (simp add: in_set_def set_ok_def)

lemma collect_one:
  assumes ok: "solve_ok si V" and out: "out_ok si V out" and st: "collected si V ps st"
  shows "\<exists>ps'. collected si V ps' (collect_candidate out p offset st) \<and> set ps' = set ps \<union> beside si p offset"
proof -
  obtain seen candidates where s: "st = (seen, candidates)" by (rule prod.exhaust)
  show ?thesis
  proof (cases "\<exists>q. q \<in> beside si p offset \<and> q \<notin> set ps")
    case True
    then obtain q where q: "checked_offset p offset = Some q" "bounds_contain (si_bounds si) q" "q \<notin> set ps"
      by (auto simp: beside_def)
    have seen: "set_ok si V seen" "\<not> in_set seen q" using st q by (simp_all add: collected_def s)
    have "collect_candidate out p offset st =
        (insert_at_index seen (rank (si_bounds si) q), candidates @ [cell_at si q])"
      using q seen by (simp add: collect_candidate_def s mo_index_eq [OF ok out] at_rank)
    moreover have "collected si V (ps @ [q]) (insert_at_index seen (rank (si_bounds si) q), candidates @ [cell_at si q])"
      using st q by (auto simp: collected_def s in_set_insert [OF ok seen(1) q(2)])
    ultimately show ?thesis using q by (intro exI [of _ "ps @ [q]"]) (auto simp: beside_def)
  next
    case False
    then have "collect_candidate out p offset st = st"
      using st by (auto simp: collect_candidate_def s mo_index_eq [OF ok out] collected_def at_rank beside_def split: option.split)
    then show ?thesis using st False by (intro exI [of _ ps]) auto
  qed
qed

lemma collect_offsets:
  assumes ok: "solve_ok si V" and out: "out_ok si V out"
  shows "collected si V ps st \<Longrightarrow> \<exists>ps'. collected si V ps' (fold (collect_candidate out p) offsets st) \<and>
    set ps' = set ps \<union> (\<Union>offset\<in>set offsets. beside si p offset)"
proof (induction offsets arbitrary: ps st)
  case (Cons offset offsets)
  obtain ps1 where ps1: "collected si V ps1 (collect_candidate out p offset st)" "set ps1 = set ps \<union> beside si p offset"
    using collect_one [OF ok out Cons.prems] by blast
  then show ?case using Cons.IH [OF ps1(1)] by (simp add: Un_assoc)
qed auto

lemma collect_changed:
  assumes ok: "solve_ok si V" and out: "out_ok si V out"
  shows "collected si V ps st \<Longrightarrow>
    \<exists>ps'. collected si V ps' (fold (\<lambda>p. fold (collect_candidate out p) offsets) changed st) \<and>
      set ps' = set ps \<union> (\<Union>p\<in>set changed. \<Union>offset\<in>set offsets. beside si p offset)"
proof (induction changed arbitrary: ps st)
  case (Cons p changed)
  obtain ps1 where ps1: "collected si V ps1 (fold (collect_candidate out p) offsets st)"
    "set ps1 = set ps \<union> (\<Union>offset\<in>set offsets. beside si p offset)"
    using collect_offsets [OF ok out Cons.prems] by blast
  then show ?case using Cons.IH [OF ps1(1)] by (simp add: Un_assoc)
qed auto

lemma candidates_spec:
  assumes ok: "solve_ok si V" and out: "out_ok si V out"
  obtains ps where "change_candidates out (si_bounds si) V changed = map (cell_at si) ps" "distinct ps"
    "set ps = touched si (set changed)" "\<And>p. p \<in> set ps \<Longrightarrow> bounds_contain (si_bounds si) p"
proof -
  have "collected si V [] (new_dense_set (si_bounds si) V, [])"
    using new_set_empty [OF ok] by (simp add: collected_def new_set_ok)
  from collect_changed [OF ok out this, of "(0, 0, 0) # NEIGHBOURS" changed, folded touched_def] obtain ps where
    "collected si V ps (fold (\<lambda>p. fold (collect_candidate out p) ((0, 0, 0) # NEIGHBOURS)) changed
      (new_dense_set (si_bounds si) V, []))" "set ps = touched si (set changed)" by auto
  then show thesis by (intro that [of ps]) (simp_all only: collected_def change_candidates_def)
qed

subsection \<open>Spreading cells\<close>

lemma mark_one:
  assumes ok: "solve_ok si V" and out: "out_ok si V out" and s: "set_ok si V s"
  shows "set_ok si V (mark_neighbour out p offset s)"
    and "bounds_contain (si_bounds si) q \<Longrightarrow> in_set (mark_neighbour out p offset s) q \<longleftrightarrow> in_set s q \<or> q \<in> beside si p offset"
  using s by (auto simp: mark_neighbour_def mo_index_eq [OF ok out] beside_def in_set_insert [OF ok s] split: option.split)

lemma mark_offsets:
  assumes ok: "solve_ok si V" and out: "out_ok si V out"
  shows "set_ok si V s \<Longrightarrow> set_ok si V (fold (mark_neighbour out p) offsets s) \<and>
    (\<forall>q. bounds_contain (si_bounds si) q \<longrightarrow> (in_set (fold (mark_neighbour out p) offsets s) q \<longleftrightarrow>
      in_set s q \<or> (\<exists>offset\<in>set offsets. q \<in> beside si p offset)))"
  by (induction offsets arbitrary: s) (simp_all add: mark_one [OF ok out])

lemma mark_listed:
  assumes ok: "solve_ok si V" and ps: "\<And>p. p \<in> set ps \<Longrightarrow> bounds_contain (si_bounds si) p"
  shows "set_ok si V s \<Longrightarrow> set_ok si V (fold (\<lambda>(index, _) s. insert_at_index s index) (map (cell_at si) ps) s) \<and>
    (\<forall>q. bounds_contain (si_bounds si) q \<longrightarrow> (in_set (fold (\<lambda>(index, _) s. insert_at_index s index) (map (cell_at si) ps) s) q \<longleftrightarrow>
      in_set s q \<or> q \<in> set ps))"
  using ps by (induction ps arbitrary: s) (auto simp: in_set_insert [OF ok])

definition spreads :: "solve_input \<Rightarrow> block_pos set \<Rightarrow> block_pos set \<Rightarrow> block_pos set" where
  "spreads si candidates darkened = candidates \<union> darkened \<union>
     (\<Union>p\<in>darkened. \<Union>offset\<in>set NEIGHBOURS. beside si p offset)"

lemma mark_darkened:
  assumes ok: "solve_ok si V" and out: "out_ok si V out" and ds: "\<And>p. p \<in> set ds \<Longrightarrow> bounds_contain (si_bounds si) p"
  defines "mark \<equiv> \<lambda>(index, p) s. fold (mark_neighbour out p) NEIGHBOURS (insert_at_index s index)"
  shows "set_ok si V s \<Longrightarrow> set_ok si V (fold mark (map (cell_at si) ds) s) \<and>
    (\<forall>q. bounds_contain (si_bounds si) q \<longrightarrow> (in_set (fold mark (map (cell_at si) ds) s) q \<longleftrightarrow>
      in_set s q \<or> q \<in> spreads si {} (set ds)))"
  using ds
proof (induction ds arbitrary: s)
  case (Cons d ds)
  have d: "bounds_contain (si_bounds si) d" by (simp add: Cons.prems(2))
  have one: "set_ok si V (mark (cell_at si d) s)"
    "\<And>q. bounds_contain (si_bounds si) q \<Longrightarrow> in_set (mark (cell_at si d) s) q \<longleftrightarrow>
      in_set s q \<or> q = d \<or> (\<exists>offset\<in>set NEIGHBOURS. q \<in> beside si d offset)"
    using mark_offsets [OF ok out, of "insert_at_index s (rank (si_bounds si) d)" d NEIGHBOURS] Cons.prems(1)
    by (auto simp: mark_def in_set_insert [OF ok Cons.prems(1) d])
  have "set_ok si V (fold mark (map (cell_at si) ds) (mark (cell_at si d) s)) \<and>
    (\<forall>q. bounds_contain (si_bounds si) q \<longrightarrow> (in_set (fold mark (map (cell_at si) ds) (mark (cell_at si d) s)) q \<longleftrightarrow>
      in_set (mark (cell_at si d) s) q \<or> q \<in> spreads si {} (set ds)))"
    by (rule Cons.IH [OF one(1)]) (simp add: Cons.prems(2))
  then show ?case using one(2) by (auto simp: spreads_def)
qed (simp add: spreads_def)

lemma spreading_spec:
  assumes ok: "solve_ok si V" and out: "out_ok si V out"
    and ps: "\<And>p. p \<in> set ps \<Longrightarrow> bounds_contain (si_bounds si) p" and ds: "\<And>p. p \<in> set ds \<Longrightarrow> bounds_contain (si_bounds si) p"
  defines "S \<equiv> spreading_cells out (si_bounds si) V (map (cell_at si) ps) (map (cell_at si) ds)"
  shows "set_ok si V S" and "bounds_contain (si_bounds si) q \<Longrightarrow> in_set S q \<longleftrightarrow> q \<in> spreads si (set ps) (set ds)"
proof -
  let ?s = "fold (\<lambda>(index, _) s. insert_at_index s index) (map (cell_at si) ps) (new_dense_set (si_bounds si) V)"
  have s: "set_ok si V ?s" "bounds_contain (si_bounds si) q \<Longrightarrow> in_set ?s q \<longleftrightarrow> q \<in> set ps" for q
    using mark_listed [where ps = ps, OF ok ps new_set_ok] new_set_empty [OF ok] by simp_all
  note marked = mark_darkened [OF ok out ds s(1)]
  show "set_ok si V S" using marked by (simp add: S_def spreading_cells_def)
  show "in_set S q \<longleftrightarrow> q \<in> spreads si (set ps) (set ds)" if "bounds_contain (si_bounds si) q"
    using marked s(2) that by (auto simp: S_def spreading_cells_def spreads_def)
qed

section \<open>Darkening after a change\<close>

text \<open>
  A cell that no change touches has the support it had in the earlier field, so testing the touched
  cells alone finds all that lost theirs: the darkening establishes what that of a whole solve does,
  and the darkened cells are on record.
\<close>

subsection \<open>The earlier field\<close>

definition resumes :: "solve_input \<Rightarrow> solve_input \<Rightarrow> nat \<Rightarrow> block_pos set \<Rightarrow> bool" where
  "resumes si0 si V changed \<longleftrightarrow> solve_ok si0 V \<and> seeds_ok si0 \<and> solve_ok si V \<and>
     si_bounds si0 = si_bounds si \<and> si_profile si0 = si_profile si \<and>
     (\<forall>p c. \<not> bounds_contain (si_bounds si) p \<longrightarrow>
        ra_boundary (si_prior si0) (lb_dimension (si_bounds si)) p c = ra_boundary (si_prior si) (lb_dimension (si_bounds si)) p c) \<and>
     (\<forall>p. p \<notin> changed \<longrightarrow>
        ba_sample (cb_source (si_blocks si0)) p = ba_sample (cb_source (si_blocks si)) p \<and>
        ba_sky_seed (cb_source (si_blocks si0)) p = ba_sky_seed (cb_source (si_blocks si)) p) \<and>
     (\<forall>p. bounds_contain (si_bounds si) p \<longrightarrow> (\<forall>c. field_level si0 c p (prior_level si c p)) \<and>
        (prior_direct_at si p \<longleftrightarrow> lit si0 Channel_Sky p 15 True))"

lemma resumesD:
  assumes "resumes si0 si V changed"
  shows "solve_ok si0 V" "seeds_ok si0" "solve_ok si V" "si_bounds si0 = si_bounds si" "si_profile si0 = si_profile si"
    and "p \<notin> changed \<Longrightarrow> filt si0 p = filt si p"
    and "p \<notin> changed \<Longrightarrow> ba_sky_seed (cb_source (si_blocks si0)) p = ba_sky_seed (cb_source (si_blocks si)) p"
    and "p \<notin> changed \<Longrightarrow> base_level si0 c p = base_level si c p"
    and "p \<notin> changed \<Longrightarrow> halo_light si0 c p = halo_light si c p"
    and "bounds_contain (si_bounds si) p \<Longrightarrow> field_level si0 c p (prior_level si c p)"
    and "bounds_contain (si_bounds si) p \<Longrightarrow> prior_direct_at si p \<longleftrightarrow> lit si0 Channel_Sky p 15 True"
proof -
  note parts = assms [unfolded resumes_def]
  show "solve_ok si0 V" "seeds_ok si0" "solve_ok si V" "si_bounds si0 = si_bounds si" "si_profile si0 = si_profile si"
    using parts by blast+
  note same = this(4,5)
  show "bounds_contain (si_bounds si) p \<Longrightarrow> field_level si0 c p (prior_level si c p)"
    "bounds_contain (si_bounds si) p \<Longrightarrow> prior_direct_at si p \<longleftrightarrow> lit si0 Channel_Sky p 15 True"
    using parts by blast+
  assume "p \<notin> changed"
  then have blocks: "ba_sample (cb_source (si_blocks si0)) p = ba_sample (cb_source (si_blocks si)) p"
    "ba_sky_seed (cb_source (si_blocks si0)) p = ba_sky_seed (cb_source (si_blocks si)) p" using parts by blast+
  then show "filt si0 p = filt si p" "ba_sky_seed (cb_source (si_blocks si0)) p = ba_sky_seed (cb_source (si_blocks si)) p"
    by simp_all
  show "base_level si0 c p = base_level si c p"
    by (simp add: base_level_def blocks same split: option.split light_channel.split)
  have "\<not> bounds_contain (si_bounds si) p \<Longrightarrow> ra_boundary (si_prior si0) (lb_dimension (si_bounds si)) p c =
      ra_boundary (si_prior si) (lb_dimension (si_bounds si)) p c" using parts by blast
  then show "halo_light si0 c p = halo_light si c p" by (auto simp: halo_light_def blocks same)
qed

text \<open>Earlier light is at most what the earlier field holds, and no dimmer.\<close>

lemma prior_facts:
  assumes r: "resumes si0 si V changed" and p: "bounds_contain (si_bounds si) p"
  shows "prior_level si c p \<le> 15" and "lit si0 c p l d \<Longrightarrow> l \<le> prior_level si c p"
    and "prior_level si c p \<noteq> 0 \<Longrightarrow> \<exists>d. lit si0 c p (prior_level si c p) d"
  using resumesD(10) [OF r p, of c] lit_le [OF resumesD(1,2) [OF r], of c p] unfolding field_level_def by auto

lemma prior_ok_resumes: "resumes si0 si V changed \<Longrightarrow> prior_ok si"
  using prior_facts(1) by (simp add: prior_ok_def)

lemma step_nowhere [simp]: "step p (0, 0, 0) = p"
  by (cases p) (simp add: step_def)

lemma untouched_cells:
  assumes ok: "solve_ok si V" and p: "bounds_contain (si_bounds si) p" and far: "p \<notin> touched si changed"
  shows "p \<notin> changed" and "offset \<in> set NEIGHBOURS \<Longrightarrow> checked_offset p offset = Some n \<Longrightarrow> n \<notin> changed"
proof -
  have "checked_offset p (0, 0, 0) = Some p" using checked_offset_inside [OF ok, of p "(0, 0, 0)"] p by simp
  then have "p \<in> beside si p (0, 0, 0)" using p by (simp add: beside_def)
  then show "p \<notin> changed" using far unfolding touched_def by auto
  assume o: "offset \<in> set NEIGHBOURS" "checked_offset p offset = Some n"
  then have n: "step n (mirror offset) = p" using checked_offset_step [OF o(2)] by simp
  then have "checked_offset n (mirror offset) = Some p" using checked_offset_inside [OF ok, of n "mirror offset"] p by simp
  then have "p \<in> beside si n (mirror offset)" using p by (simp add: beside_def)
  moreover have "mirror offset \<in> set ((0, 0, 0) # NEIGHBOURS)" using o(1) by simp
  ultimately show "n \<notin> changed" using far unfolding touched_def by blast
qed

lemma step_checked:
  assumes "solve_ok si V" "bounds_contain (si_bounds si) (step p offset)"
  shows "checked_offset p offset = Some (step p offset)"
  by (rule checked_offset_inside [OF assms])

lemma incoming_mono:
  assumes "l \<le> l'" "l' \<le> 15" "stays_direct si c f offset l d \<Longrightarrow> stays_direct si c f offset l' d'"
  shows "incoming_level l f c (si_profile si) offset d \<le> incoming_level l' f c (si_profile si) offset d'"
  using assms diff_le_mono [OF assms(1), of "max f 1"] le_trans [OF diff_le_self assms(1)]
  unfolding incoming_eq by (auto intro: le_trans)

text \<open>The support of an untouched cell is what lit it in the earlier field.\<close>

lemma old_support:
  assumes r: "resumes si0 si V changed" and p: "p \<in> open_cells si" and far: "p \<notin> touched si changed"
    and lit0: "prior_level si c p \<noteq> 0"
  shows "supported si c p"
proof -
  note ok = resumesD(3) [OF r] and same = resumesD(4,5) [OF r]
  have pb: "bounds_contain (si_bounds si) p" using p by (simp add: open_cell_iff)
  note old = untouched_cells [OF ok pb far]
  obtain d0 where lit: "lit si0 c p (prior_level si c p) d0" using prior_facts(3) [OF r pb lit0] by blast
  have sky: "c = Channel_Sky \<longrightarrow> allows_sky (si_profile si)"
    using lit lit0 dark_sky [of si0 p "prior_level si c p" d0] by (auto simp: same)
  from lit show ?thesis
  proof (cases rule: lit.cases)
    case (source f)
    then show ?thesis using resumesD(8) [OF r old(1), of c] by (simp add: supported_def)
  next
    case (halo f offset n l d)
    have n: "n \<notin> changed" by (rule old(2)) (use halo in blast)+
    have light: "halo_light si c n = Some (l, d)" using halo resumesD(9) [OF r n, of c] by simp
    then have "offered si c n = Some (l, d)"
      using sky by (auto simp: offered_def halo_light_def open_cell_iff split: if_splits)
    moreover have "filt si p = Some f" using halo resumesD(6) [OF r old(1)] by simp
    ultimately show ?thesis using halo(1,5,6) sky by (auto simp: supported_def same)
  next
    case (step offset l d f)
    let ?q = "step p offset"
    have qb: "bounds_contain (si_bounds si) ?q" using lit_cell [OF step(3)] by (simp add: same)
    have n: "checked_offset p offset = Some ?q" by (rule step_checked [OF ok qb])
    have q: "?q \<notin> changed" by (rule old(2) [OF _ n]) (use step in blast)
    have "?q \<in> open_cells si" using lit_cell [OF step(3)] qb resumesD(6) [OF r q] by (simp add: open_cell_iff)
    then have "offered si c ?q = Some (prior_level si c ?q, c = Channel_Sky \<and> prior_direct_at si ?q)"
      by (simp add: offered_def)
    moreover have "filt si p = Some f" using step resumesD(6) [OF r old(1)] by simp
    moreover have "prior_level si c p \<le> incoming_level (prior_level si c ?q) f c (si_profile si) offset
        (c = Channel_Sky \<and> prior_direct_at si ?q)"
      unfolding step(1) same(2)
    proof (rule incoming_mono)
      show "l \<le> prior_level si c ?q" by (rule prior_facts(2) [OF r qb step(3)])
      show "prior_level si c ?q \<le> 15" by (rule prior_facts(1) [OF r qb])
      assume s: "stays_direct si c f offset l d"
      then have "lit si0 Channel_Sky ?q 15 True" "c = Channel_Sky" using step(3) by (auto simp: stays_direct_def)
      then show "stays_direct si c f offset (prior_level si c ?q) (c = Channel_Sky \<and> prior_direct_at si ?q)"
        using s prior_facts(1) [OF r qb, of c] prior_facts(2) [OF r qb step(3)] resumesD(11) [OF r qb]
        by (auto simp: stays_direct_def)
    qed
    moreover have "offset \<in> set NEIGHBOURS" using step by blast
    ultimately show ?thesis using n sky by (auto simp: supported_def)
  qed
qed

lemma seed_unchanged:
  assumes r: "resumes si0 si V changed" and p: "p \<in> open_cells si" and far: "p \<notin> touched si changed"
  shows "ba_sky_seed (cb_source (si_blocks si)) p \<le> 15"
proof -
  have pb: "bounds_contain (si_bounds si) p" using p by (simp add: open_cell_iff)
  have "p \<notin> changed" by (rule untouched_cells [OF resumesD(3) [OF r] pb far])
  note same = resumesD(6,7) [OF r this]
  have "bounds_contain (si_bounds si0) p \<and> filt si0 p \<noteq> None" using p by (simp add: open_cell_iff resumesD(4) [OF r] same(1))
  then have "ba_sky_seed (cb_source (si_blocks si0)) p \<le> 15" using resumesD(2) [OF r] unfolding seeds_ok_def by blast
  then show ?thesis by (simp add: same(2))
qed

lemma dark_start:
  assumes r: "resumes si0 si V changed" and shape: "shape si V out"
    and levs: "\<forall>p\<in>open_cells si. \<forall>c. lev out c p = prior_level si c p"
  shows "dark_inv si V {} (UNIV \<times> (- touched si changed)) \<lparr>dk_output = out, dk_queue = [], dk_total = 0, dk_stats = no_stats\<rparr>"
  using shape levs prior_ok_resumes [OF r] bright_le [OF resumesD(3) [OF r], of out] old_support [OF r] seed_unchanged [OF r]
  unfolding dark_inv_def by auto

subsection \<open>Forgetting the record\<close>

text \<open>Without its record of darkened cells, each step is the step of a whole solve.\<close>

definition forget :: "('e + ('s \<times> 'd)) option \<Rightarrow> ('e + 's) option" where
  "forget = map_option (map_sum id fst)"

lemma forget_simps [simp]: "forget None = None" "forget (Some (Inl e)) = Some (Inl e)" "forget (Some (Inr s)) = Some (Inr (fst s))"
  by (simp_all add: forget_def)

lemma wp_forget: "wp E (\<lambda>s. Q (fst s)) m \<longleftrightarrow> wp E Q (forget m)"
  by (cases m; simp) (rename_tac r, case_tac r; simp)

lemma forget_then_do: "(\<And>s. forget (f s) = g (fst s)) \<Longrightarrow> forget (then_do m f) = then_do (forget m) g"
  by (cases m; simp add: then_do_def) (rename_tac r, case_tac r; simp)

lemma forget_and_then: "(\<And>x. forget (Some (f x)) = Some (g x)) \<Longrightarrow> forget (Some (and_then m f)) = Some (and_then m g)"
  by (cases m) simp_all

lemma forget_for_each: "(\<And>x s. forget (f x s) = g x (fst s)) \<Longrightarrow> forget (for_each f xs s) = for_each g xs (fst s)"
proof (induction xs arbitrary: s)
  case (Cons x xs)
  show ?case
    unfolding for_each.simps Cons.prems [symmetric]
    by (rule forget_then_do) (rule Cons.IH [OF Cons.prems])
qed simp

lemma forget_if: "forget (Some (if b then x else y)) = (if b then forget (Some x) else forget (Some y))"
  by simp

lemma forget_push:
  assumes "\<And>st. forget (Some (f st)) = Some (g (fst st))"
  shows "forget (Some (and_then (change_push si p index c base old st) f)) =
    Some (and_then (darken_push si p index c base old (fst st)) g)"
proof (cases st)
  case (Pair dark darkened)
  then show ?thesis
    using assms by (cases "darken_push si p index c base old dark") (simp_all add: change_push_def)
qed

lemma forget_seed: "forget (change_seed_cell si cell st) = seed_darken_cell si cell (fst st)"
proof -
  obtain index p where cell: "cell = (index, p)" by (rule prod.exhaust)
  show ?thesis
  proof (cases "filter_at si index = None")
    case False
    show ?thesis
      unfolding change_seed_cell_def seed_darken_cell_def cell prod.case if_not_P [OF False] Let_def
      by (rule forget_for_each, rule forget_and_then, rule forget_and_then, rename_tac keep, case_tac keep)
        (auto intro: forget_push)
  qed (simp add: change_seed_cell_def seed_darken_cell_def cell)
qed

lemma forget_visit: "forget (change_visit si entry i x st) = darken_visit si entry i x (fst st)"
proof -
  obtain direction offset where x: "x = (direction, offset)" by (rule prod.exhaust)
  show ?thesis
  proof (cases "light_neighbour (si_bounds si) (de_position entry) i direction")
    case None
    then show ?thesis by (simp add: change_visit_def darken_visit_def x)
  next
    case (Some n)
    obtain q index where n: "n = (q, index)" by (rule prod.exhaust)
    show ?thesis
      unfolding change_visit_def darken_visit_def x n Some prod.case option.case Let_def
      by (cases "filter_at si index = None") (auto intro!: forget_and_then forget_push simp: forget_if split: prod.split)
  qed
qed

lemma forget_one: "forget (change_darken_one si entry st) = darken_one si entry (fst st)"
proof -
  obtain dark darkened where st: "st = (dark, darkened)" by (rule prod.exhaust)
  show ?thesis
    unfolding change_darken_one_def darken_one_def st prod.case fst_conv Let_def
    by (cases "mo_index (dk_output dark) (de_position entry)") (simp_all add: forget_for_each [where g = "darken_visit si entry _", OF forget_visit])
qed

end
