(* ===== verification/Changes_Loop.thy ===== *)
theory Changes_Loop
  imports Changes_Dark
begin

section \<open>The record of darkened cells\<close>

text \<open>
  The darkening of a change ends in the state the darkening of a whole solve ends in, and every cell
  whose level is no longer the earlier one is on the record.
\<close>

definition noted :: "solve_input \<Rightarrow> nat \<Rightarrow> u64 \<Rightarrow> change_state \<Rightarrow> bool" where
  "noted si V g st \<longleftrightarrow> out_ok si V (dk_output (fst st)) \<and> mo_generation (dk_output (fst st)) = g \<and> (\<exists>ds. snd st = map (cell_at si) ds \<and> set ds \<subseteq> open_cells si \<and>
     (\<forall>p\<in>open_cells si. \<forall>c. lev (dk_output (fst st)) c p \<noteq> prior_level si c p \<longrightarrow> p \<in> set ds))"

lemma noted_frame [simp]:
  "noted si V g (dark\<lparr>dk_stats := stats\<rparr>, darkened) = noted si V g (dark, darkened)"
  "noted si V g (dark\<lparr>dk_queue := queue\<rparr>, darkened) = noted si V g (dark, darkened)"
  by (simp_all add: noted_def)

lemma wp_keeps: "wp E Q m \<Longrightarrow> keeps P m \<Longrightarrow> wp E (\<lambda>s. Q s \<and> P s) m"
  by (auto simp: wp_def keeps_def split: option.splits sum.splits)

lemma keeps_push:
  assumes ok: "solve_ok si V" and st: "noted si V g st" and p: "p \<in> open_cells si"
    and f: "\<And>st. noted si V g st \<Longrightarrow> keeps (noted si V g) (Some (f st))"
  shows "keeps (noted si V g) (Some (and_then (change_push si p (rank (si_bounds si) p) c base old st) f))"
proof (rule keeps_and_then)
  fix st' assume push: "change_push si p (rank (si_bounds si) p) c base old st = Inr st'"
  obtain dark darkened where s: "st = (dark, darkened)" by (rule prod.exhaust)
  obtain dark' where dark': "darken_push si p (rank (si_bounds si) p) c base old dark = Inr dark'"
    and st': "st' = (dark', darkened @ [cell_at si p])"
    using push by (cases "darken_push si p (rank (si_bounds si) p) c base old dark") (auto simp: change_push_def s)
  have pb: "bounds_contain (si_bounds si) p" using p by (simp add: open_cell_iff)
  have out: "out_ok si V (dk_output dark)" "mo_generation (dk_output dark) = g" using st by (simp_all add: noted_def s)
  obtain ds where ds: "darkened = map (cell_at si) ds" "set ds \<subseteq> open_cells si"
    "\<forall>p\<in>open_cells si. \<forall>c. lev (dk_output dark) c p \<noteq> prior_level si c p \<longrightarrow> p \<in> set ds"
    using st by (auto simp: noted_def s)
  have new: "dk_output dark' = set_at_index (dk_output dark) (rank (si_bounds si) p) c base"
    using dark' by (cases "enqueue_counted (dk_total dark) 1 (max_entries si)") (auto simp: darken_push_def)
  have "noted si V g st'"
    unfolding noted_def st' fst_conv snd_conv new
  proof (intro conjI exI [of _ "ds @ [p]"] ballI allI impI)
    show "darkened @ [cell_at si p] = map (cell_at si) (ds @ [p])" by (simp add: ds(1))
    fix q c' assume q: "q \<in> open_cells si"
      and ne: "lev (set_at_index (dk_output dark) (rank (si_bounds si) p) c base) c' q \<noteq> prior_level si c' q"
    have "lev (set_at_index (dk_output dark) (rank (si_bounds si) p) c base) c' q = lev (dk_output dark) c' q" if "q \<noteq> p"
      using lev_set [OF ok out(1) pb] q that by (simp add: open_cell_iff)
    then show "q \<in> set (ds @ [p])" using ne ds(3) q by (cases "q = p") auto
  qed (use out ds(2) p in simp_all)
  then show "keeps (noted si V g) (Some (f st'))" by (rule f)
qed

lemma noted_seed:
  assumes ok: "solve_ok si V" and pb: "bounds_contain (si_bounds si) p" and st: "noted si V g st"
  shows "keeps (noted si V g) (change_seed_cell si (cell_at si p) st)"
proof (cases "filt si p = None")
  case True
  then show ?thesis using st by (simp add: change_seed_cell_def filter_at_eq [OF ok pb])
next
  case False
  then have p: "p \<in> open_cells si" using pb by (simp add: open_cell_iff)
  show ?thesis
    unfolding change_seed_cell_def prod.case filter_at_eq [OF ok pb] if_not_P [OF False] Let_def
  proof (rule keeps_for_each, rule st)
    fix c st assume st: "noted si V g st"
    show "keeps (noted si V g) (Some (and_then (local_base si (rank (si_bounds si) p) c) (\<lambda>base.
        and_then (if get_at_index (dk_output (fst st)) (rank (si_bounds si) p) c = 0 then Inr True
          else prior_supports_level si p (rank (si_bounds si) p) c (get_at_index (dk_output (fst st)) (rank (si_bounds si) p) c)) (\<lambda>keep.
        if keep then Inr st
        else and_then (change_push si p (rank (si_bounds si) p) c base (get_at_index (dk_output (fst st)) (rank (si_bounds si) p) c) st)
          (\<lambda>(dark, darkened). Inr (dark\<lparr>dk_stats := (dk_stats dark)\<lparr>st_darken_seeded := st_darken_seeded (dk_stats dark) + 1\<rparr>\<rparr>, darkened))))))"
    proof (rule keeps_and_then, rule keeps_and_then)
      fix base keep
      show "keeps (noted si V g) (Some (if keep then Inr st
        else and_then (change_push si p (rank (si_bounds si) p) c base (get_at_index (dk_output (fst st)) (rank (si_bounds si) p) c) st)
          (\<lambda>(dark, darkened). Inr (dark\<lparr>dk_stats := (dk_stats dark)\<lparr>st_darken_seeded := st_darken_seeded (dk_stats dark) + 1\<rparr>\<rparr>, darkened))))"
        unfolding keeps_if
        by (intro conjI impI keeps_push [OF ok st p]) (auto simp: st)
    qed
  qed
qed

lemma noted_visit:
  assumes ok: "solve_ok si V" and pb: "bounds_contain (si_bounds si) (de_position entry)"
    and x: "x \<in> set (enumerate 0 NEIGHBOURS)" and st: "noted si V g st"
  shows "keeps (noted si V g) (change_visit si entry (rank (si_bounds si) (de_position entry)) x st)"
proof -
  obtain direction offset where xo: "x = (direction, offset)" by (rule prod.exhaust)
  note nb = step_neighbour [OF ok pb x [unfolded xo]]
  let ?q = "step (de_position entry) offset"
  show ?thesis
  proof (cases "?q \<in> open_cells si")
    case False
    have "change_visit si entry (rank (si_bounds si) (de_position entry)) x st = Some (Inr st)"
      using False by (auto simp: change_visit_def xo nb open_cell_iff filter_at_eq [OF ok])
    then show ?thesis using st by simp
  next
    case True
    then have qb: "bounds_contain (si_bounds si) ?q" and qf: "(filt si ?q = None) = False" by (simp_all add: open_cell_iff)
    show ?thesis
      unfolding change_visit_def xo prod.case nb if_P [OF qb] option.case filter_at_eq [OF ok qb] qf if_False Let_def
      by (rule keeps_and_then, unfold keeps_if, intro conjI impI keeps_push [OF ok st True]) (auto simp: st)
  qed
qed

lemma keeps_for_each_in:
  "P s \<Longrightarrow> (\<And>x s. x \<in> set xs \<Longrightarrow> P s \<Longrightarrow> keeps P (f x s)) \<Longrightarrow> keeps P (for_each f xs s)"
proof (induction xs arbitrary: s)
  case (Cons x xs)
  show ?case
    unfolding for_each.simps
    by (rule keeps_then_do [OF Cons.prems(2) [OF _ Cons.prems(1)]]) (auto intro!: Cons.IH Cons.prems(2))
qed simp

lemma noted_one:
  assumes ok: "solve_ok si V" and st: "noted si V g (dark, darkened)"
  shows "keeps (noted si V g) (change_darken_one si entry (dark\<lparr>dk_queue := queue\<rparr>, darkened))"
proof -
  have out: "out_ok si V (dk_output dark)" using st by (simp add: noted_def)
  show ?thesis
  proof (cases "bounds_contain (si_bounds si) (de_position entry)")
    case False
    then show ?thesis by (simp add: change_darken_one_def Let_def mo_index_eq [OF ok out])
  next
    case True
    show ?thesis
      unfolding change_darken_one_def prod.case Let_def
      by (simp add: mo_index_eq [OF ok out] True)
        (rule keeps_for_each_in [OF _ noted_visit [OF ok True]], use st in simp_all)
  qed
qed

subsection \<open>The loop\<close>

lemma change_loop_step:
  "dk_queue (fst st) = entry # queue \<Longrightarrow> change_loop si st =
    then_do (change_darken_one si entry ((fst st)\<lparr>dk_queue := queue\<rparr>, snd st)) (change_loop si)"
  by (subst change_loop.simps) (simp add: then_do_def)

lemma wp_change_loop:
  assumes wf: "wf r" and inv: "I st"
    and one: "\<And>st entry queue. I st \<Longrightarrow> dk_queue (fst st) = entry # queue \<Longrightarrow>
      wp E (\<lambda>st'. I st' \<and> (st', st) \<in> r) (change_darken_one si entry ((fst st)\<lparr>dk_queue := queue\<rparr>, snd st))"
  shows "wp E (\<lambda>st'. I st' \<and> dk_queue (fst st') = []) (change_loop si st)"
  using wf inv
proof (induction st rule: wf_induct_rule)
  case (less st)
  show ?case
  proof (cases "dk_queue (fst st)")
    case Nil
    then show ?thesis using less.prems by (subst change_loop.simps) simp
  next
    case (Cons entry queue)
    show ?thesis
      unfolding change_loop_step [OF Cons]
      by (rule wp_seq [OF one [OF less.prems Cons]]) (blast intro: less.IH)
  qed
qed

definition change_inv :: "solve_input \<Rightarrow> nat \<Rightarrow> u64 \<Rightarrow> block_pos set \<Rightarrow> change_state \<Rightarrow> bool" where
  "change_inv si V g cells st \<longleftrightarrow> dark_inv si V {} (UNIV \<times> cells) (fst st) \<and> noted si V g st"

lemma change_one_keeps:
  assumes ok: "solve_ok si V" and B: "2 * V \<le> B" and inv: "change_inv si V g UNIV st" and queue: "dk_queue (fst st) = entry # queue"
  shows "wp (solve_error si B) (\<lambda>st'. change_inv si V g UNIV st' \<and>
      (st', st) \<in> inv_image (less_than <*lex*> less_than) (\<lambda>st. (card (bright si (dk_output (fst st))), length (dk_queue (fst st)))))
    (change_darken_one si entry ((fst st)\<lparr>dk_queue := queue\<rparr>, snd st))"
proof -
  have dark: "dark_inv si V {} UNIV (fst st)" and n: "noted si V g (fst st, snd st)" using inv by (simp_all add: change_inv_def)
  have "wp (solve_error si B) (\<lambda>st'. dark_inv si V {} UNIV (fst st') \<and> (fst st', fst st) \<in>
      inv_image (less_than <*lex*> less_than) (\<lambda>st. (card (bright si (dk_output st)), length (dk_queue st))))
    (change_darken_one si entry ((fst st)\<lparr>dk_queue := queue\<rparr>, snd st))"
    by (rule wp_forget [where Q = "\<lambda>dark. dark_inv si V {} UNIV dark \<and> (dark, fst st) \<in>
      inv_image (less_than <*lex*> less_than) (\<lambda>st. (card (bright si (dk_output st)), length (dk_queue st)))", THEN iffD2])
      (simp only: forget_one fst_conv darken_one_keeps [OF ok B dark queue])
  from wp_keeps [OF this noted_one [OF ok n]] show ?thesis
    by (rule wp_mono) (simp add: change_inv_def)
qed

lemma change_loop_keeps:
  assumes ok: "solve_ok si V" and B: "2 * V \<le> B" and inv: "change_inv si V g UNIV st"
  shows "wp (solve_error si B) (\<lambda>st'. change_inv si V g UNIV st' \<and> dk_queue (fst st') = []) (change_loop si st)"
  by (rule wp_change_loop [where I = "change_inv si V g UNIV", OF _ inv change_one_keeps [OF ok B]])
    (intro wf_inv_image wf_lex_prod wf_less_than)

lemma change_seeds:
  assumes r: "resumes si0 si V changed" and B: "2 * V \<le> B" and shape: "shape si V out" and gen: "mo_generation out = g"
    and levs: "\<forall>p\<in>open_cells si. \<forall>c. lev out c p = prior_level si c p"
    and ps: "distinct ps" "set ps = touched si changed" "\<And>p. p \<in> set ps \<Longrightarrow> bounds_contain (si_bounds si) p"
  shows "wp (solve_error si B) (change_inv si V g UNIV)
    (for_each (change_seed_cell si) (map (cell_at si) ps)
      (\<lparr>dk_output = out, dk_queue = [], dk_total = 0, dk_stats = no_stats\<rparr>, []))"
proof -
  note ok = resumesD(3) [OF r]
  have each: "for_each f (map g xs) s = for_each (\<lambda>x. f (g x)) xs s" for f :: "usize \<times> block_pos \<Rightarrow> change_state \<Rightarrow> change_state outcome" and g xs s
    by (induction xs arbitrary: s) (auto simp: then_do_def split: option.splits sum.splits)
  have "wp (solve_error si B) (change_inv si V g (- touched si changed \<union> set ps))
    (for_each (\<lambda>p. change_seed_cell si (cell_at si p)) ps
      (\<lparr>dk_output = out, dk_queue = [], dk_total = 0, dk_stats = no_stats\<rparr>, []))"
  proof (rule wp_for_each [where I = "\<lambda>seen. change_inv si V g (- touched si changed \<union> set seen)"])
    show "change_inv si V g (- touched si changed \<union> set [])
        (\<lparr>dk_output = out, dk_queue = [], dk_total = 0, dk_stats = no_stats\<rparr>, [])"
      using dark_start [OF r shape levs] shape gen levs by (simp add: change_inv_def noted_def shape_out_ok)
  next
    fix seen p rest st
    assume xs: "ps = seen @ p # rest" and inv: "change_inv si V g (- touched si changed \<union> set seen) st"
    have pb: "bounds_contain (si_bounds si) p" using ps(3) by (simp add: xs)
    have new: "p \<notin> - touched si changed \<union> set seen" using ps(1,2) by (auto simp: xs)
    have dark: "dark_inv si V {} (UNIV \<times> (- touched si changed \<union> set seen)) (fst st)" and n: "noted si V g st"
      using inv by (simp_all add: change_inv_def)
    have eq: "insert p (- touched si changed \<union> set seen) = - touched si changed \<union> set (seen @ [p])" by auto
    have "wp (solve_error si B) (\<lambda>st'. dark_inv si V {} (UNIV \<times> (insert p (- touched si changed \<union> set seen))) (fst st'))
        (change_seed_cell si (cell_at si p) st)"
      by (rule wp_forget [where Q = "dark_inv si V {} (UNIV \<times> (insert p (- touched si changed \<union> set seen)))", THEN iffD2])
        (simp only: forget_seed seed_cell [OF ok B pb new dark])
    from wp_keeps [OF this [unfolded eq] noted_seed [OF ok pb n]]
    show "wp (solve_error si B) (change_inv si V g (- touched si changed \<union> set (seen @ [p]))) (change_seed_cell si (cell_at si p) st)"
      unfolding change_inv_def .
  qed
  moreover have "- touched si changed \<union> set ps = UNIV" by (auto simp: ps(2))
  ultimately show ?thesis by (simp only: each)
qed

lemma change_darken_keeps:
  assumes r: "resumes si0 si V changed" and B: "2 * V \<le> B" and shape: "shape si V out" and gen: "mo_generation out = g"
    and levs: "\<forall>p\<in>open_cells si. \<forall>c. lev out c p = prior_level si c p"
    and ps: "distinct ps" "set ps = touched si changed" "\<And>p. p \<in> set ps \<Longrightarrow> bounds_contain (si_bounds si) p"
  shows "wp (solve_error si B) (\<lambda>st. change_inv si V g UNIV st \<and> dk_queue (fst st) = [])
    (change_darken si (map (cell_at si) ps) out)"
  unfolding change_darken_def
proof (rule wp_seq [OF change_seeds [OF assms]])
  fix st assume st: "change_inv si V g UNIV st"
  obtain dark darkened where s: "st = (dark, darkened)" by (rule prod.exhaust)
  show "wp (solve_error si B) (\<lambda>st. change_inv si V g UNIV st \<and> dk_queue (fst st) = [])
    (case st of (dark, darkened) \<Rightarrow>
       change_loop si (dark\<lparr>dk_stats := raise_peak (length (dk_queue dark)) (dk_stats dark)\<rparr>, darkened))"
    unfolding s prod.case
    by (rule change_loop_keeps [OF resumesD(3) [OF r] B]) (use st in \<open>simp add: change_inv_def s noted_def\<close>)
qed assumption+

end
