(* ===== verification/Changes_Fill.thy ===== *)
theory Changes_Fill
  imports Changes_Loop
begin

section \<open>Spreading after a change\<close>

text \<open>
  A cell that is not queued has an unchanged level, and neighbours no dimmer than before: in the
  earlier field its light had already reached them.  So the queues are ready for the channels to
  spread, though most cells are in neither.
\<close>

subsection \<open>Raising\<close>

text \<open>The state of the buffers after raising: \<open>ps\<close> are the candidates, \<open>ds\<close> the darkened cells.\<close>

definition relit :: "solve_input \<Rightarrow> nat \<Rightarrow> block_pos set \<Rightarrow> block_pos set \<Rightarrow> mutable_output \<Rightarrow> bool" where
  "relit si V ps ds out \<longleftrightarrow> raised si V out \<and>
     (\<forall>p\<in>open_cells si. \<forall>c. (p \<notin> ds \<longrightarrow> prior_level si c p \<le> lev out c p) \<and>
        (p \<notin> ps \<and> p \<notin> ds \<longrightarrow> lev out c p = prior_level si c p))"

lemma relit_raise:
  assumes r: "resumes si0 si V changed" and inv: "change_inv si V g UNIV st" and queue: "dk_queue (fst st) = []"
    and ps: "set ps = touched si changed" "\<And>p. p \<in> set ps \<Longrightarrow> bounds_contain (si_bounds si) p"
    and ds: "snd st = map (cell_at si) ds" "set ds \<subseteq> open_cells si"
      "\<forall>p\<in>open_cells si. \<forall>c. lev (dk_output (fst st)) c p \<noteq> prior_level si c p \<longrightarrow> p \<in> set ds"
  shows "wp (solve_error si B) (relit si V (set ps) (set ds))
    (for_each (raise_cell si) (map fst (map (cell_at si) ps @ snd st)) (dk_output (fst st)))"
proof -
  note ok = resumesD(3) [OF r]
  have dark: "dark_inv si V {} UNIV (fst st)" using inv by (simp add: change_inv_def)
  note facts = dark_facts [OF ok dark queue]
  have list: "map fst (map (cell_at si) ps @ snd st) = map (rank (si_bounds si)) (ps @ ds)" by (simp add: ds(1))
  have old: "base_level si c p \<le> prior_level si c p" if p: "p \<in> open_cells si" "p \<notin> set ps" for c p
  proof -
    have pb: "bounds_contain (si_bounds si) p" using p by (simp add: open_cell_iff)
    have far: "p \<notin> changed" by (rule untouched_cells [OF ok pb]) (use p ps(1) in simp)
    obtain f where "filt si0 p = Some f" using p(1) resumesD(6) [OF r far] by (auto simp: open_cell_iff)
    then have "lit si0 c p (base_level si0 c p) (c = Channel_Sky \<and> direct_sky_down (si_profile si0) \<and> base_level si0 c p = 15 \<and> f = 0)"
      using lit.source [of si0 p f c] pb resumesD(4) [OF r] by simp
    then show ?thesis using prior_facts(2) [OF r pb] resumesD(8) [OF r far] by simp
  qed
  show ?thesis
    unfolding list
  proof (rule wp_mono [OF raise_listed [OF ok facts(1,3)]])
    fix p assume "p \<in> set (ps @ ds)"
    then show "bounds_contain (si_bounds si) p" using ps(2) ds(2) by (auto simp: open_cell_iff)
  next
    fix out assume out: "shape si V out \<and> (\<forall>p\<in>open_cells si. \<forall>c. lev out c p =
      (if p \<in> set (ps @ ds) then max (lev (dk_output (fst st)) c p) (base_level si c p) else lev (dk_output (fst st)) c p))"
    have kept: "lev (dk_output (fst st)) c p = prior_level si c p" if "p \<in> open_cells si" "p \<notin> set ds" for c p
      using ds(3) that by blast
    have levs: "lev out c p = max (lev (dk_output (fst st)) c p) (base_level si c p)" if p: "p \<in> open_cells si" for c p
    proof (cases "p \<in> set (ps @ ds)")
      case False
      then have "base_level si c p \<le> lev (dk_output (fst st)) c p" using old [OF p, of c] kept [OF p, of c] by simp
      then show ?thesis using out p False by (auto simp: max_def)
    qed (use out p in simp)
    have "raised si V out" by (rule raise_is_raised [OF conjunct1 [OF out] facts(4) levs])
    then show "relit si V (set ps) (set ds) out" using out kept by (simp add: relit_def)
  qed
qed

subsection \<open>Filling\<close>

definition starts :: "solve_input \<Rightarrow> mutable_output \<Rightarrow> block_pos \<Rightarrow> bool" where
  "starts si out p \<longleftrightarrow> direct_sky_down (si_profile si) \<and> lev out Channel_Sky p = 15 \<and> filt si p = Some 0 \<and>
     (base_level si Channel_Sky p = 15 \<or> prior_direct_at si p)"

definition refill_inv :: "solve_input \<Rightarrow> nat \<Rightarrow> mutable_output \<Rightarrow> block_pos set \<Rightarrow> (light_channel \<times> block_pos) set \<Rightarrow>
    fill_state \<Rightarrow> bool" where
  "refill_inv si V out S seen st \<longleftrightarrow> (\<forall>c. queue_ok si V (fill_queue st c)) \<and> set_ok si V (fl_direct st) \<and>
     (\<forall>p\<in>open_cells si. \<forall>c. (c, p) \<in> seen \<and> lev out c p \<noteq> 0 \<and> p \<in> S \<longrightarrow> waits (fill_queue st c) p) \<and>
     (\<forall>p. bounds_contain (si_bounds si) p \<longrightarrow>
        (in_set (fl_direct st) p \<longleftrightarrow> (Channel_Sky, p) \<in> seen \<and> p \<in> open_cells si \<and> starts si out p)) \<and>
     (\<forall>p\<in>open_cells si. waits_direct si (fl_sky st) p \<longleftrightarrow> in_set (fl_direct st) p \<and> p \<in> S)"

lemma refill_invD:
  assumes "refill_inv si V out S seen st"
  shows "queue_ok si V (fill_queue st c)" "set_ok si V (fl_direct st)"
    and "p \<in> open_cells si \<Longrightarrow> (c, p) \<in> seen \<Longrightarrow> lev out c p \<noteq> 0 \<Longrightarrow> p \<in> S \<Longrightarrow> waits (fill_queue st c) p"
    and "bounds_contain (si_bounds si) p \<Longrightarrow>
      in_set (fl_direct st) p \<longleftrightarrow> (Channel_Sky, p) \<in> seen \<and> p \<in> open_cells si \<and> starts si out p"
    and "p \<in> open_cells si \<Longrightarrow> waits_direct si (fl_sky st) p \<longleftrightarrow> in_set (fl_direct st) p \<and> p \<in> S"
  using assms unfolding refill_inv_def by blast+

text \<open>A dark cell adds nothing.\<close>

lemma refill_more:
  assumes "refill_inv si V out S seen st"
    and "\<And>c p. p \<in> open_cells si \<Longrightarrow> (c, p) \<in> seen' \<longleftrightarrow> (c, p) \<in> seen \<or> (c, p) \<in> dark"
    and "\<And>c p. p \<in> open_cells si \<Longrightarrow> (c, p) \<in> dark \<Longrightarrow> lev out c p = 0"
  shows "refill_inv si V out S seen' st"
proof -
  have "\<not> starts si out p" if "p \<in> open_cells si" "(Channel_Sky, p) \<in> dark" for p
    using assms(3) [OF that] by (simp add: starts_def)
  then have "(Channel_Sky, p) \<in> seen' \<and> p \<in> open_cells si \<and> starts si out p \<longleftrightarrow>
      (Channel_Sky, p) \<in> seen \<and> p \<in> open_cells si \<and> starts si out p" for p
    using assms(2) by blast
  moreover have "(c, p) \<in> seen" if "p \<in> open_cells si" "(c, p) \<in> seen' \<and> lev out c p \<noteq> 0 \<and> p \<in> S" for c p
    using assms(2) [OF that(1), of c] assms(3) [OF that(1), of c] that(2) by auto
  ultimately show ?thesis using assms(1) unfolding refill_inv_def by simp
qed

lemma refill_channel:
  assumes ok: "solve_ok si V" and seeds: "seeds_ok si" and out: "raised si V out" and p: "p \<in> open_cells si"
    and f: "filt si p = Some f" and inv: "refill_inv si V out S seen st" and room: "fl_total st + 1 \<le> B"
    and spread: "contains_at_index spreading (rank (si_bounds si) p) = (p \<in> S)" and new: "(c, p) \<notin> seen"
  shows "wp (solve_error si B) (\<lambda>st'. refill_inv si V out S (insert (c, p) seen) st' \<and> fl_total st' \<le> fl_total st + 1) (Some (
         let level = get_at_index out (rank (si_bounds si) p) c
         in if level = 0 then Inr st
            else and_then (starts_direct si (rank (si_bounds si) p) p c level f) (\<lambda>is_direct.
              let st = (if is_direct then st\<lparr>fl_direct := insert_at_index (fl_direct st) (rank (si_bounds si) p)\<rparr> else st)
              in if \<not> contains_at_index spreading (rank (si_bounds si) p) then Inr st
                 else and_then (queue_push_back (fill_queue st c)
                    \<lparr>ie_position = p, ie_index = rank (si_bounds si) p, ie_direct = is_direct\<rparr> (fl_total st) (max_entries si))
                   (\<lambda>(q, count). Inr ((set_fill_queue st c q)\<lparr>fl_total := count\<rparr>)))))"
proof -
  have pb: "bounds_contain (si_bounds si) p" using p by (simp add: open_cell_iff)
  have out_ok: "out_ok si V out" using out by (simp add: raised_def shape_def)
  have lb: "local_base si (rank (si_bounds si) p) c = Inr (base_level si c p)"
    using seeds p by (auto simp: local_base_eq [OF ok pb] seeds_ok_def open_cell_iff)
  define is_direct where "is_direct \<longleftrightarrow> c = Channel_Sky \<and> starts si out p"
  have starts: "starts_direct si (rank (si_bounds si) p) p c (lev out c p) f = Inr is_direct"
    unfolding starts_direct_def is_direct_def starts_def lb and_then_simps f by (cases c) auto
  show ?thesis
  proof (cases "lev out c p = 0")
    case True
    have "refill_inv si V out S (insert (c, p) seen) st"
      by (rule refill_more [OF inv, where dark = "{(c, p)}"]) (use True in auto)
    then show ?thesis using True by (simp add: Let_def get_is_lev [OF out_ok])
  next
    case False
    define st1 where "st1 = (if is_direct then st\<lparr>fl_direct := insert_at_index (fl_direct st) (rank (si_bounds si) p)\<rparr> else st)"
    have q1: "fill_queue st1 c' = fill_queue st c'" "fl_total st1 = fl_total st" "fl_sky st1 = fl_sky st" for c'
      by (simp_all add: st1_def)
    have D: "set_ok si V (fl_direct st)" by (rule refill_invD(2) [OF inv])
    have D1: "set_ok si V (fl_direct st1)" using D by (simp add: st1_def)
    have inD: "in_set (fl_direct st1) r \<longleftrightarrow> (Channel_Sky, r) \<in> insert (c, p) seen \<and> r \<in> open_cells si \<and> starts si out r"
      if "bounds_contain (si_bounds si) r" for r
      using refill_invD(4) [OF inv that] p by (auto simp: st1_def in_set_insert [OF ok D pb that] is_direct_def)
    have inD': "in_set (fl_direct st1) r \<longleftrightarrow> in_set (fl_direct st) r \<or> r = p \<and> is_direct"
      if "bounds_contain (si_bounds si) r" for r
      by (auto simp: st1_def in_set_insert [OF ok D pb that])
    have notD: "c = Channel_Sky \<Longrightarrow> \<not> in_set (fl_direct st) p" using refill_invD(4) [OF inv pb] new by simp
    have run: "(let level = get_at_index out (rank (si_bounds si) p) c
         in if level = 0 then Inr st
            else and_then (starts_direct si (rank (si_bounds si) p) p c level f) (\<lambda>is_direct.
              let st = (if is_direct then st\<lparr>fl_direct := insert_at_index (fl_direct st) (rank (si_bounds si) p)\<rparr> else st)
              in if \<not> contains_at_index spreading (rank (si_bounds si) p) then Inr st
                 else and_then (queue_push_back (fill_queue st c)
                    \<lparr>ie_position = p, ie_index = rank (si_bounds si) p, ie_direct = is_direct\<rparr> (fl_total st) (max_entries si))
                   (\<lambda>(q, count). Inr ((set_fill_queue st c q)\<lparr>fl_total := count\<rparr>)))) =
      (if p \<notin> S then Inr st1
       else and_then (queue_push_back (fill_queue st c)
          \<lparr>ie_position = p, ie_index = rank (si_bounds si) p, ie_direct = is_direct\<rparr> (fl_total st) (max_entries si))
         (\<lambda>(q, count). Inr ((set_fill_queue st1 c q)\<lparr>fl_total := count\<rparr>)))"
      unfolding Let_def get_is_lev [OF out_ok] if_not_P [OF False] starts and_then_simps spread st1_def [symmetric] q1
      by (rule refl)
    show ?thesis
    proof (cases "p \<in> S")
      case out_S: False
      have "refill_inv si V out S (insert (c, p) seen) st1"
        unfolding refill_inv_def q1
      proof (intro conjI allI ballI impI)
        fix r assume r: "r \<in> open_cells si"
        then show "waits_direct si (fl_sky st) r \<longleftrightarrow> in_set (fl_direct st1) r \<and> r \<in> S"
          using refill_invD(5) [OF inv r] inD' [of r] out_S by (auto simp: open_cell_iff)
        show "waits (fill_queue st c') r" if "(c', r) \<in> insert (c, p) seen \<and> lev out c' r \<noteq> 0 \<and> r \<in> S" for c'
          using refill_invD(3) [OF inv r, of c'] that out_S by auto
      qed (use inD D1 refill_invD(1) [OF inv] in blast)+
      then show ?thesis unfolding run using out_S by (simp add: q1)
    next
      case True
      show ?thesis
        unfolding run
      proof (simp only: True not_True_eq_False if_False, rule wp_seq_res [OF wp_push [OF ok refill_invD(1) [OF inv] p room, where
          Q = "\<lambda>r. pushed si V (fill_queue st c) p is_direct (fst r) \<and> snd r \<le> fl_total st + 1"]])
        fix q' count' assume "pushed si V (fill_queue st c) p is_direct q'" "count' \<le> fl_total st + 1"
        then show "pushed si V (fill_queue st c) p is_direct (fst (q', count')) \<and> snd (q', count') \<le> fl_total st + 1" by simp
      next
        fix r assume r: "pushed si V (fill_queue st c) p is_direct (fst r) \<and> snd r \<le> fl_total st + 1"
        obtain q' count' where rq: "r = (q', count')" by (rule prod.exhaust)
        have push: "pushed si V (fill_queue st c) p is_direct q'" using r by (simp add: rq)
        let ?st = "(set_fill_queue st1 c q')\<lparr>fl_total := count'\<rparr>"
        have fq: "fill_queue ?st c' = (if c' = c then q' else fill_queue st c')" "fl_direct ?st = fl_direct st1" for c'
          by (simp_all add: q1)
        have "refill_inv si V out S (insert (c, p) seen) ?st"
          unfolding refill_inv_def fq(2)
        proof (intro conjI allI ballI impI)
          show "queue_ok si V (fill_queue ?st c')" for c'
            using refill_invD(1) [OF inv] push unfolding fq by (simp add: pushed_def)
          fix x assume x: "x \<in> open_cells si"
          show "waits (fill_queue ?st c') x" if "(c', x) \<in> insert (c, p) seen \<and> lev out c' x \<noteq> 0 \<and> x \<in> S" for c'
            using refill_invD(3) [OF inv x, of c'] that push x unfolding fq by (auto simp: pushed_def)
          show "waits_direct si (fl_sky ?st) x \<longleftrightarrow> in_set (fl_direct st1) x \<and> x \<in> S"
            using refill_invD(5) [OF inv x] inD' [of x] x push True
            unfolding fl_sky_queue fq by (cases c) (auto simp: pushed_def open_cell_iff is_direct_def)
        qed (use inD D1 in blast)+
        then show "wp (solve_error si B) (\<lambda>st'. refill_inv si V out S (insert (c, p) seen) st' \<and> fl_total st' \<le> fl_total st + 1)
          (Some (case r of (q, count) \<Rightarrow> Inr ((set_fill_queue st1 c q)\<lparr>fl_total := count\<rparr>)))"
          using r by (simp add: rq)
      qed
    qed
  qed
qed

lemma refill_cell:
  assumes ok: "solve_ok si V" and seeds: "seeds_ok si" and out: "raised si V out" and pb: "bounds_contain (si_bounds si) p"
    and inv: "refill_inv si V out S (UNIV \<times> cells) st" and room: "fl_total st + 2 \<le> B" and new: "p \<notin> cells"
    and spread: "contains_at_index spreading (rank (si_bounds si) p) = (p \<in> S)"
  shows "wp (solve_error si B) (\<lambda>st'. refill_inv si V out S (UNIV \<times> insert p cells) st' \<and> fl_total st' \<le> fl_total st + 2)
    (change_fill_cell si spreading out (rank (si_bounds si) p, p) st)"
proof (cases "filt si p")
  case None
  have "refill_inv si V out S (UNIV \<times> insert p cells) st"
    by (rule refill_more [OF inv, where dark = "{}"]) (use None in \<open>auto simp: open_cell_iff\<close>)
  then show ?thesis by (simp add: change_fill_cell_def filter_at_eq [OF ok pb] None)
next
  case (Some f)
  have p: "p \<in> open_cells si" using pb Some by (simp add: open_cell_iff)
  have two: "insert (Channel_Sky, p) (insert (Channel_Block, p) (UNIV \<times> cells)) = UNIV \<times> insert p cells"
    using light_channel.exhaust by auto
  note channel = refill_channel [OF ok seeds out p Some _ _ spread]
  show ?thesis
    unfolding change_fill_cell_def prod.case filter_at_eq [OF ok pb] Some option.case
  proof (rule wp_both_channels, rule channel [OF inv])
    show "fl_total st + 1 \<le> B" using room by simp
    show "(Channel_Block, p) \<notin> UNIV \<times> cells" using new by simp
  next
    fix st1 assume st1: "refill_inv si V out S (insert (Channel_Block, p) (UNIV \<times> cells)) st1 \<and> fl_total st1 \<le> fl_total st + 1"
    show "wp (solve_error si B) (\<lambda>st'. refill_inv si V out S (UNIV \<times> insert p cells) st' \<and> fl_total st' \<le> fl_total st + 2) (Some (
         let level = get_at_index out (rank (si_bounds si) p) Channel_Sky
         in if level = 0 then Inr st1
            else and_then (starts_direct si (rank (si_bounds si) p) p Channel_Sky level f) (\<lambda>is_direct.
              let st = (if is_direct then st1\<lparr>fl_direct := insert_at_index (fl_direct st1) (rank (si_bounds si) p)\<rparr> else st1)
              in if \<not> contains_at_index spreading (rank (si_bounds si) p) then Inr st
                 else and_then (queue_push_back (fill_queue st Channel_Sky)
                    \<lparr>ie_position = p, ie_index = rank (si_bounds si) p, ie_direct = is_direct\<rparr> (fl_total st) (max_entries si))
                   (\<lambda>(q, count). Inr ((set_fill_queue st Channel_Sky q)\<lparr>fl_total := count\<rparr>)))))"
      unfolding two [symmetric]
      by (rule wp_mono [OF channel [OF conjunct1 [OF st1]]]) (use st1 room new in auto)
  qed
qed

lemma refill_all:
  assumes ok: "solve_ok si V" and seeds: "seeds_ok si" and out: "raised si V out" and room: "count + 2 * V \<le> B"
    and spread: "\<And>p. bounds_contain (si_bounds si) p \<Longrightarrow> contains_at_index spreading (rank (si_bounds si) p) = (p \<in> S)"
  defines "clean \<equiv> \<lparr>iq_entries = [], iq_pending = replicate V 0\<rparr>"
  shows "wp (solve_error si B) (\<lambda>st. refill_inv si V out S UNIV st \<and> fl_total st \<le> count + 2 * V)
    (for_each (change_fill_cell si spreading out) (enumerate 0 (collect_positions (bounds_positions (si_bounds si))))
      \<lparr>fl_block = clean, fl_sky = clean, fl_direct = new_dense_set (si_bounds si) V, fl_total = count\<rparr>)"
proof -
  let ?cells = "dense_cells (si_bounds si)"
  let ?start = "\<lparr>fl_block = clean, fl_sky = clean, fl_direct = new_dense_set (si_bounds si) V, fl_total = count\<rparr>"
  note r = region_of_ok [OF ok]
  have "wp (solve_error si B) (\<lambda>st. refill_inv si V out S (UNIV \<times> set ?cells) st \<and> fl_total st \<le> count + 2 * length ?cells)
    (for_each (change_fill_cell si spreading out) (enumerate 0 (collect_positions (bounds_positions (si_bounds si)))) ?start)"
  proof (rule wp_each_cell [where I = "\<lambda>seen st. refill_inv si V out S (UNIV \<times> set seen) st \<and> fl_total st \<le> count + 2 * length seen", OF ok])
    have "queue_ok si V clean" unfolding clean_def by (rule clean_queue_ok [OF ok])
    moreover have "\<not> waits_direct si clean p" if "p \<in> open_cells si" for p
      using region_facts(4) [OF r, of p] that by (simp add: waits_direct_def clean_def open_cell_iff)
    ultimately show "refill_inv si V out S (UNIV \<times> set []) ?start \<and> fl_total ?start \<le> count + 2 * length []"
      using new_set_empty [OF ok]
      by (auto simp: refill_inv_def fill_queue_def new_set_ok open_cell_iff split: light_channel.split)
  next
    fix seen p rest st
    assume cells: "?cells = seen @ p # rest" and pb: "bounds_contain (si_bounds si) p"
      and I: "refill_inv si V out S (UNIV \<times> set seen) st \<and> fl_total st \<le> count + 2 * length seen"
    have "length seen + 1 \<le> V" using region_facts(1) [OF r] by (simp add: cells)
    then have room1: "fl_total st + 2 \<le> B" using I room by linarith
    have new: "p \<notin> set seen" using region_facts(2) [OF r] by (simp add: cells)
    from refill_cell [OF ok seeds out pb conjunct1 [OF I] room1 new spread [OF pb]]
    show "wp (solve_error si B) (\<lambda>st. refill_inv si V out S (UNIV \<times> set (seen @ [p])) st \<and> fl_total st \<le> count + 2 * length (seen @ [p]))
      (change_fill_cell si spreading out (rank (si_bounds si) p, p) st)"
      by (rule wp_mono) (use I in auto)
  qed
  then show ?thesis
  proof (rule wp_mono)
    fix st assume st: "refill_inv si V out S (UNIV \<times> set ?cells) st \<and> fl_total st \<le> count + 2 * length ?cells"
    have "refill_inv si V out S UNIV st"
      by (rule refill_more [OF conjunct1 [OF st], where dark = "{}"]) (auto simp: open_cell_iff set_dense_cells)
    then show "refill_inv si V out S UNIV st \<and> fl_total st \<le> count + 2 * V" using st by (simp add: region_facts(1) [OF r])
  qed
qed

end
