(* ===== verification/Changes_Solved.thy ===== *)
theory Changes_Solved
  imports Changes_Fill
begin

section \<open>A relighting computes the light field\<close>

text \<open>
  Away from the spreading cells the earlier field is still closed under every step of light, so the
  second half of a solve, started from the spreading cells alone, builds the whole field.
\<close>

subsection \<open>Quiet cells\<close>

lemma quiet_cells:
  assumes r: "resumes si0 si V changed" and out: "relit si V (touched si changed) ds out"
    and p: "p \<in> open_cells si" "p \<notin> spreads si (touched si changed) ds"
    and o: "offset \<in> set NEIGHBOURS" and q: "step p offset \<in> open_cells si"
  shows "p \<notin> changed" "step p offset \<notin> changed" "lev out c p = prior_level si c p"
    "prior_level si c (step p offset) \<le> lev out c (step p offset)"
proof -
  note ok = resumesD(3) [OF r]
  have pb: "bounds_contain (si_bounds si) p" and qb: "bounds_contain (si_bounds si) (step p offset)"
    using p q by (simp_all add: open_cell_iff)
  have far: "p \<notin> touched si changed" "p \<notin> ds" using p(2) by (auto simp: spreads_def)
  show "p \<notin> changed" by (rule untouched_cells [OF ok pb far(1)])
  show "step p offset \<notin> changed" by (rule untouched_cells(2) [OF ok pb far(1) o step_checked [OF ok qb]])
  show "lev out c p = prior_level si c p" using out p(1) far by (simp add: relit_def)
  have "step p offset \<notin> ds"
  proof
    assume d: "step p offset \<in> ds"
    have "checked_offset (step p offset) (mirror offset) = Some p"
      using step_checked [OF ok, of "step p offset" "mirror offset"] pb by simp
    then have "p \<in> beside si (step p offset) (mirror offset)" using pb by (simp add: beside_def)
    moreover have "mirror offset \<in> set NEIGHBOURS" using o by simp
    ultimately show False using d p(2) unfolding spreads_def by blast
  qed
  then show "prior_level si c (step p offset) \<le> lev out c (step p offset)" using out q by (simp add: relit_def)
qed

lemma quiet_reached:
  assumes r: "resumes si0 si V changed" and out: "relit si V (touched si changed) ds out"
    and p: "p \<in> open_cells si" "p \<notin> spreads si (touched si changed) ds" and o: "offset \<in> set NEIGHBOURS"
  shows "reached si out c p offset"
  unfolding reached_def
proof (intro impI)
  let ?q = "step p offset"
  assume q: "?q \<in> open_cells si"
  note quiet = quiet_cells [OF r out p o q]
  have pb: "bounds_contain (si_bounds si) p" and qb: "bounds_contain (si_bounds si) ?q"
    using p q by (simp_all add: open_cell_iff)
  obtain f where f: "filt si ?q = Some f" using q by (auto simp: open_cell_iff)
  have f0: "filt si0 ?q = Some f" using f resumesD(6) [OF r quiet(2)] by simp
  have "prior_level si c p - max f 1 \<le> prior_level si c ?q"
  proof (cases "prior_level si c p = 0")
    case False
    obtain d where "lit si0 c (step ?q (mirror offset)) (prior_level si c p) d" using prior_facts(3) [OF r pb False] by auto
    from lit.step [OF this _ f0] have "lit si0 c ?q (incoming_level (prior_level si c p) f c (si_profile si0) (mirror offset) d)
        (stays_direct si0 c f (mirror offset) (prior_level si c p) d)"
      using qb o resumesD(4) [OF r] by simp
    from prior_facts(2) [OF r qb this] have "incoming_level (prior_level si c p) f c (si_profile si0) (mirror offset) d \<le>
        prior_level si c ?q" .
    moreover have "prior_level si c p - max f 1 \<le> incoming_level (prior_level si c p) f c (si_profile si0) (mirror offset) d"
      unfolding incoming_eq using prior_facts(1) [OF r pb, of c] by (auto intro: le_trans [OF diff_le_self])
    ultimately show ?thesis by simp
  qed simp
  then show "lev out c p - max (the (filt si ?q)) 1 \<le> lev out c ?q"
    using quiet(3) [of c] quiet(4) [of c] by (simp add: f)
qed

text \<open>Direct sky that starts at a quiet cell starts at the open cell below it too.\<close>

lemma quiet_falls:
  assumes r: "resumes si0 si V changed" and seeds: "seeds_ok si" and out: "relit si V (touched si changed) ds out"
    and p: "p \<in> open_cells si" "p \<notin> spreads si (touched si changed) ds" and s: "starts si out p"
    and q: "step p down \<in> open_cells si" "filt si (step p down) = Some 0"
  shows "starts si out (step p down)"
proof -
  let ?q = "step p down"
  have o: "down \<in> set NEIGHBOURS" by (simp add: down_def NEIGHBOURS_def)
  have up: "mirror down = (0, 1, 0)" by (simp add: down_def mirror_def)
  note quiet = quiet_cells [OF r out p o q(1)]
  have pb: "bounds_contain (si_bounds si) p" and qb: "bounds_contain (si_bounds si) ?q"
    using p q by (simp_all add: open_cell_iff)
  have sky: "direct_sky_down (si_profile si)" "filt si p = Some 0" using s by (simp_all add: starts_def)
  have f0: "filt si0 p = Some 0" "filt si0 ?q = Some 0"
    using sky(2) q(2) resumesD(6) [OF r quiet(1)] resumesD(6) [OF r quiet(2)] by simp_all
  have "lit si0 Channel_Sky p 15 True"
  proof (cases "prior_direct_at si p")
    case True
    then show ?thesis using resumesD(11) [OF r pb] by simp
  next
    case False
    then have "base_level si0 Channel_Sky p = 15" using s resumesD(8) [OF r quiet(1)] by (simp add: starts_def)
    then show ?thesis
      using lit.source [OF _ f0(1), of Channel_Sky] pb sky(1) resumesD(4,5) [OF r] by simp
  qed
  then have above: "lit si0 Channel_Sky (step ?q (mirror down)) 15 True" by simp
  have inc: "incoming_level 15 0 Channel_Sky (si_profile si0) (mirror down) True = 15"
    and stays: "stays_direct si0 Channel_Sky 0 (mirror down) 15 True = True"
    using sky(1) resumesD(5) [OF r] by (simp_all add: incoming_level_def stays_direct_def up)
  have "lit si0 Channel_Sky ?q 15 True"
    using lit.step [OF above _ f0(2)] qb o resumesD(4) [OF r] unfolding inc stays by simp
  then have "15 \<le> prior_level si Channel_Sky ?q" "prior_direct_at si ?q"
    using prior_facts(2) [OF r qb] resumesD(11) [OF r qb] by blast+
  moreover have "lev out Channel_Sky ?q \<le> 15"
    using out q(1) within_le [OF resumesD(3) [OF r] seeds, of Channel_Sky ?q] by (simp add: relit_def raised_def)
  ultimately show ?thesis using quiet(4) [of Channel_Sky] sky(1) q(2) by (simp add: starts_def)
qed

subsection \<open>Ready to spread\<close>

lemma refilled_sound:
  assumes ok: "solve_ok si V" and seeds: "seeds_ok si" and out: "raised si V out" and fill: "refill_inv si V out S UNIV st"
  shows "direct_sound si V out (fl_direct st)"
proof (rule direct_soundI [OF ok seeds out refill_invD(2) [OF fill]])
  fix p assume "bounds_contain (si_bounds si) p" "in_set (fl_direct st) p"
  then show "p \<in> open_cells si \<and> lev out Channel_Sky p = 15 \<and> direct_sky_down (si_profile si)"
    using refill_invD(4) [OF fill] by (simp add: starts_def)
next
  fix p assume p: "p \<in> open_cells si" and full: "direct_sky_down (si_profile si)" "base_level si Channel_Sky p = 15" "filt si p = Some 0"
  have "base_level si Channel_Sky p \<le> lev out Channel_Sky p" "lev out Channel_Sky p \<le> 15"
    using out p within_le [OF ok seeds, of Channel_Sky p] by (simp_all add: raised_def)
  then have "starts si out p" using full by (simp add: starts_def)
  then show "in_set (fl_direct st) p" using refill_invD(4) [OF fill, of p] p by (simp add: open_cell_iff)
qed

lemma refilled_primed:
  assumes r: "resumes si0 si V changed" and seeds: "seeds_ok si" and out: "relit si V (touched si changed) ds out"
    and fill: "refill_inv si V out (spreads si (touched si changed) ds) UNIV st"
  shows "primed si V c out (fl_direct st) (fill_queue st c)"
  unfolding primed_def
proof (intro conjI ballI impI)
  show "queue_ok si V (fill_queue st c)" by (rule refill_invD(1) [OF fill])
next
  fix p assume p: "p \<in> open_cells si"
  show "waits (fill_queue st c) p \<or> (\<forall>offset\<in>set NEIGHBOURS. reached si out c p offset)"
  proof (cases "p \<in> spreads si (touched si changed) ds")
    case True
    have "waits (fill_queue st c) p \<or> reached si out c p offset" for offset
      by (rule lit_waits_reached) (use refill_invD(3) [OF fill p] True in simp)
    then show ?thesis by blast
  next
    case False
    then show ?thesis using quiet_reached [OF r out p] by blast
  qed
next
  fix p assume c: "c = Channel_Sky" and p: "p \<in> open_cells si"
  note marks = refill_invD(5) [OF fill p, unfolded fl_sky_queue]
  show "in_set (fl_direct st) p" if "waits_direct si (fill_queue st c) p" using that marks c by simp
  show "waits_direct si (fill_queue st c) p \<or> falls si (fl_direct st) p" if d: "in_set (fl_direct st) p"
  proof (cases "p \<in> spreads si (touched si changed) ds")
    case True
    then show ?thesis using d marks c by simp
  next
    case False
    have "starts si out p" using d refill_invD(4) [OF fill, of p] p by (simp add: open_cell_iff)
    then have "falls si (fl_direct st) p"
      unfolding falls_def using quiet_falls [OF r seeds out p False] refill_invD(4) [OF fill, of "step p down"]
      by (auto simp: open_cell_iff)
    then show ?thesis ..
  qed
qed

subsection \<open>A whole relighting\<close>

lemma relight_from_wp:
  assumes r: "resumes si0 si V (set changed)" and clean: "clean = \<lparr>iq_entries = [], iq_pending = replicate V 0\<rparr>"
    and shape: "shape si V out" and levs: "\<forall>p\<in>open_cells si. \<forall>c. lev out c p = prior_level si c p"
  shows "wp (solve_error si (35 * V)) (\<lambda>(out, D, _). seeds_ok si \<and> holds_field si V out D)
    (relight_from si V clean clean (change_candidates out (si_bounds si) V changed) out)"
proof -
  note ok = resumesD(3) [OF r]
  obtain ps where ps: "change_candidates out (si_bounds si) V changed = map (cell_at si) ps" "distinct ps"
    "set ps = touched si (set changed)" "\<And>p. p \<in> set ps \<Longrightarrow> bounds_contain (si_bounds si) p"
    by (rule candidates_spec [OF ok shape_out_ok [OF shape]]) (rule that)
  show ?thesis
    unfolding relight_from_def ps(1)
  proof (rule wp_seq [OF change_darken_keeps [OF r _ shape refl levs ps(2-4)]])
    fix st assume st: "change_inv si V (mo_generation out) UNIV st \<and> dk_queue (fst st) = []"
    obtain dark darkened where s: "st = (dark, darkened)" by (rule prod.exhaust)
    have dark: "dark_inv si V {} UNIV dark" "dk_queue dark = []" using st by (simp_all add: change_inv_def s)
    note facts = dark_facts [OF ok dark]
    note seeds = facts(1)
    obtain ds where ds: "darkened = map (cell_at si) ds" "set ds \<subseteq> open_cells si"
      "\<forall>p\<in>open_cells si. \<forall>c. lev (dk_output dark) c p \<noteq> prior_level si c p \<longrightarrow> p \<in> set ds"
      using st by (auto simp: change_inv_def noted_def s)
    have dsb: "bounds_contain (si_bounds si) p" if "p \<in> set ds" for p using ds(2) that by (auto simp: open_cell_iff)
    let ?S = "spreads si (set ps) (set ds)"
    show "wp (solve_error si (35 * V)) (\<lambda>(out, D, _). seeds_ok si \<and> holds_field si V out D)
      (case st of (dark, darkened) \<Rightarrow>
       then_do (for_each (raise_cell si) (map fst (map (cell_at si) ps @ darkened)) (dk_output dark)) (\<lambda>out.
       then_do (for_each (change_fill_cell si (spreading_cells out (si_bounds si) V (map (cell_at si) ps) darkened) out)
           (enumerate 0 (collect_positions (bounds_positions (si_bounds si))))
           \<lparr>fl_block = clean, fl_sky = clean, fl_direct = new_dense_set (si_bounds si) V, fl_total = dk_total dark\<rparr>) (\<lambda>fill.
       then_do (propagate si Channel_Block \<lparr>sp_output = out, sp_queue = fl_block fill, sp_direct = fl_direct fill,
           sp_total = fl_total fill, sp_stats = dk_stats dark\<rparr>) (\<lambda>st.
       then_do (propagate si Channel_Sky (st\<lparr>sp_queue := fl_sky fill\<rparr>)) (\<lambda>st.
         Some (Inr (sp_output st, sp_direct st, sp_stats st)))))))"
      unfolding s prod.case
    proof (rule wp_seq)
      show "wp (solve_error si (35 * V)) (relit si V (set ps) (set ds))
        (for_each (raise_cell si) (map fst (map (cell_at si) ps @ darkened)) (dk_output dark))"
        using relit_raise [OF r conjunct1 [OF st] conjunct2 [OF st] ps(3,4), of ds] ds by (simp add: s)
    next
      fix out assume relit: "relit si V (set ps) (set ds) out"
      have raised: "raised si V out" using relit by (simp add: relit_def)
      have out_ok: "out_ok si V out" using raised by (simp add: raised_def shape_def)
      note spreading = spreading_spec [where ps = ps and ds = ds, OF ok out_ok ps(4) dsb, folded ds(1)]
      show "wp (solve_error si (35 * V)) (\<lambda>(out, D, _). seeds_ok si \<and> holds_field si V out D)
        (then_do (for_each (change_fill_cell si (spreading_cells out (si_bounds si) V (map (cell_at si) ps) darkened) out)
           (enumerate 0 (collect_positions (bounds_positions (si_bounds si))))
           \<lparr>fl_block = clean, fl_sky = clean, fl_direct = new_dense_set (si_bounds si) V, fl_total = dk_total dark\<rparr>) (\<lambda>fill.
         then_do (propagate si Channel_Block \<lparr>sp_output = out, sp_queue = fl_block fill, sp_direct = fl_direct fill,
           sp_total = fl_total fill, sp_stats = dk_stats dark\<rparr>) (\<lambda>st.
         then_do (propagate si Channel_Sky (st\<lparr>sp_queue := fl_sky fill\<rparr>)) (\<lambda>st.
           Some (Inr (sp_output st, sp_direct st, sp_stats st))))))"
      proof (rule wp_seq)
        show "wp (solve_error si (35 * V)) (\<lambda>fs. refill_inv si V out ?S UNIV fs \<and> fl_total fs \<le> dk_total dark + 2 * V)
          (for_each (change_fill_cell si (spreading_cells out (si_bounds si) V (map (cell_at si) ps) darkened) out)
            (enumerate 0 (collect_positions (bounds_positions (si_bounds si))))
            \<lparr>fl_block = clean, fl_sky = clean, fl_direct = new_dense_set (si_bounds si) V, fl_total = dk_total dark\<rparr>)"
          unfolding clean
          by (rule refill_all [OF ok seeds raised]) (use facts(5) spreading in \<open>simp_all add: at_rank\<close>)
      next
        fix fs assume fs: "refill_inv si V out ?S UNIV fs \<and> fl_total fs \<le> dk_total dark + 2 * V"
        note ready = refilled_primed [OF r seeds relit [unfolded ps(3)] conjunct1 [OF fs, unfolded ps(3)]]
        show "wp (solve_error si (35 * V)) (\<lambda>(out, D, _). seeds_ok si \<and> holds_field si V out D)
          (then_do (propagate si Channel_Block \<lparr>sp_output = out, sp_queue = fl_block fs, sp_direct = fl_direct fs,
             sp_total = fl_total fs, sp_stats = dk_stats dark\<rparr>) (\<lambda>st.
           then_do (propagate si Channel_Sky (st\<lparr>sp_queue := fl_sky fs\<rparr>)) (\<lambda>st.
             Some (Inr (sp_output st, sp_direct st, sp_stats st)))))"
          by (rule spread_both [OF ok seeds raised refilled_sound [OF ok seeds raised conjunct1 [OF fs]]])
            (use ready [of Channel_Block, folded fl_sky_queue] ready [of Channel_Sky, folded fl_sky_queue] fs facts(5) in \<open>simp_all\<close>)
      qed
    qed
  qed simp
qed

end
