(* ===== verification/Changes_Spec.thy ===== *)
theory Changes_Spec
  imports Changes_Solved Light_Solved
begin

section \<open>Relighting agrees with solving again\<close>

text \<open>
  The contract of \<^verbatim>\<open>light_solver/changes.rs\<close>: from the solved light of the same blocks except at the
  changed cells, around the same boundary light, the relighting gives the light field of the new
  blocks, the result a whole solve gives.  It always returns, and only the changed cells can make it
  refuse a value.
\<close>

subsection \<open>The contract\<close>

text \<open>The prior light a caller passes is an earlier result over the same bounds.\<close>

definition continues :: "light_bounds \<Rightarrow> light_read_access \<Rightarrow> light_solve_output \<Rightarrow> bool" where
  "continues b prior earlier \<longleftrightarrow> (\<forall>p. bounds_contain b p \<longrightarrow>
     (\<forall>c. ra_read_light prior (lb_dimension b) p c = light_at earlier p c) \<and>
     ra_direct prior (lb_dimension b) p = output_has_direct earlier (so_dimension earlier) p)"

definition same_blocks_except :: "block_pos list \<Rightarrow> light_block_access \<Rightarrow> light_block_access \<Rightarrow> bool" where
  "same_blocks_except changed before now \<longleftrightarrow> (\<forall>p. p \<notin> set changed \<longrightarrow>
     ba_sample before p = ba_sample now p \<and> ba_sky_seed before p = ba_sky_seed now p)"

lemma resumes_contract:
  assumes region: "region b V" "V \<le> U32_MAX"
    and nibbles: "nibble_inputs before prior0" "nibble_inputs now prior"
    and earlier: "seeds_ok (solve_input_of before prior0 b profile limits0)"
      "shows_field (solve_input_of before prior0 b profile limits0) generation0 earlier"
    and prior: "continues b prior earlier" "same_halo b prior0 prior" "same_blocks_except changed before now"
  shows "resumes (solve_input_of before prior0 b profile limits0) (solve_input_of now prior b profile limits) V (set changed)"
  unfolding resumes_def solve_input_simps
proof (intro conjI)
  show "solve_ok (solve_input_of before prior0 b profile limits0) V" "solve_ok (solve_input_of now prior b profile limits) V"
    by (rule solve_input_ok [OF region nibbles(1)], rule solve_input_ok [OF region nibbles(2)])
  show "\<forall>p. bounds_contain b p \<longrightarrow>
      (\<forall>c. field_level (solve_input_of before prior0 b profile limits0) c p (ra_read_light prior (lb_dimension b) p c)) \<and>
      ra_direct prior (lb_dimension b) p = lit (solve_input_of before prior0 b profile limits0) Channel_Sky p 15 True"
    using prior(1) shows_field_inside [OF earlier(2)] by (simp add: continues_def)
qed (use earlier(1) prior(2,3) in \<open>simp_all add: same_halo_def same_blocks_except_def\<close>)

subsection \<open>A relighting returns the field\<close>

lemma generation_loaded:
  "keeps (gen_out g) (for_each (load_cell si) cells (new_mutable_output b g volume))"
  by (intro keeps_for_each generation_load) (simp add: new_mutable_output_def)

lemma keeps_of_wp: "wp E Q m \<Longrightarrow> (\<And>s. Q s \<Longrightarrow> P s) \<Longrightarrow> keeps P m"
  by (auto simp: wp_def keeps_def split: option.splits sum.splits)

lemma generation_relight:
  assumes dark: "keeps (\<lambda>st. gen_out g (dk_output (fst st))) (change_darken si candidates out)"
  shows "keeps (\<lambda>(out, _, _). gen_out g out) (relight_from si volume bq sq candidates out)"
proof -
  have step: "keeps (\<lambda>(out, _, _). gen_out g out)
    (then_do (for_each (raise_cell si) cells (dk_output dark)) (\<lambda>out.
     then_do (fill out) (\<lambda>fs.
     then_do (propagate si Channel_Block \<lparr>sp_output = out, sp_queue = fl_block fs, sp_direct = fl_direct fs,
       sp_total = fl_total fs, sp_stats = dk_stats dark\<rparr>) (\<lambda>st.
     then_do (propagate si Channel_Sky (st\<lparr>sp_queue := fl_sky fs\<rparr>)) (\<lambda>st.
       Some (Inr (sp_output st, sp_direct st, sp_stats st)))))))"
    if "gen_out g (dk_output dark)" for dark cells fill
    by (rule keeps_then_do [where Q = "gen_out g"], intro keeps_for_each generation_raise, rule that, assumption,
        rule keeps_then_do [where Q = "\<lambda>_. True"], simp add: keeps_def,
        (rule keeps_then_do, rule generation_propagate, simp)+, simp)
  show ?thesis
    unfolding relight_from_def
    by (rule keeps_then_do, rule dark, unfold case_prod_beta, rule step [unfolded case_prod_beta])
qed

lemma relight_cells_wp:
  assumes r: "resumes si0 si V (set changed)" and scratch: "fair_scratch scratch"
  shows "wp (solve_error si (35 * V)) (\<lambda>(out, D, _). seeds_ok si \<and> holds_field si V out D \<and> mo_generation out = generation)
    (relight_cells si generation V scratch changed)"
proof -
  note ok = resumesD(3) [OF r]
  define clean :: increase_queue where "clean = \<lparr>iq_entries = [], iq_pending = replicate V 0\<rparr>"
  have small: "V \<le> U32_MAX" using ok by (simp add: solve_ok_def)
  have reset: "queue_reset (sc_block_increase scratch) V = Some clean" "queue_reset (sc_sky_increase scratch) V = Some clean"
    using scratch small unfolding fair_scratch_def clean_def by (blast intro: queue_reset_clean left_queue_ok)+
  show ?thesis
    unfolding relight_cells_def reset option.case
  proof (rule wp_seq [OF wp_keeps [OF load_all [OF ok] generation_loaded]])
    fix out assume out: "(shape si V out \<and> prior_ok si \<and> (\<forall>p\<in>open_cells si. \<forall>c. lev out c p = prior_level si c p)) \<and>
      mo_generation out = generation"
    then have shape: "shape si V out" and levs: "\<forall>p\<in>open_cells si. \<forall>c. lev out c p = prior_level si c p"
      and gen: "mo_generation out = generation" by blast+
    obtain ps where ps: "change_candidates out (si_bounds si) V changed = map (cell_at si) ps" "distinct ps"
      "set ps = touched si (set changed)" "\<And>p. p \<in> set ps \<Longrightarrow> bounds_contain (si_bounds si) p"
      by (rule candidates_spec [OF ok shape_out_ok [OF shape]]) (rule that)
    have "keeps (\<lambda>st. gen_out generation (dk_output (fst st))) (change_darken si (map (cell_at si) ps) out)"
      by (rule keeps_of_wp [OF change_darken_keeps [OF r order_refl shape gen levs ps(2-4)]])
        (assumption, simp add: change_inv_def noted_def)
    note generation = generation_relight [OF this, folded ps(1)]
    show "wp (solve_error si (35 * V)) (\<lambda>(out, D, _). seeds_ok si \<and> holds_field si V out D \<and> mo_generation out = generation)
      (relight_from si V clean clean (change_candidates out (si_bounds si) V changed) out)"
      by (rule wp_mono [OF wp_keeps [OF relight_from_wp [OF r clean_def shape levs] generation]]) auto
  qed
qed

lemma relight_wp:
  assumes region: "region b V" and r: "resumes si0 si V (set changed)" and scratch: "fair_scratch scratch"
    and si: "si = solve_input_of now prior b profile limits"
  shows "wp (\<lambda>e. if sl_max_voxels limits < V then e = Voxel_Limit_Exceeded V (sl_max_voxels limits) else solve_error si (35 * V) e)
    (\<lambda>out. V \<le> sl_max_voxels limits \<and> seeds_ok si \<and> shows_field si generation out)
    (solve_light_changes_with_scratch now prior b generation profile limits scratch changed)"
proof -
  note ok = resumesD(3) [OF r]
  have volume: "bounded_volume b limits =
      (if sl_max_voxels limits < V then Inl (Voxel_Limit_Exceeded V (sl_max_voxels limits)) else Inr V)"
    using region by (simp add: bounded_volume_def region_def)
  show ?thesis
  proof (cases "sl_max_voxels limits < V")
    case True
    then show ?thesis by (simp add: solve_light_changes_with_scratch_def volume)
  next
    case False
    then have run: "solve_light_changes_with_scratch now prior b generation profile limits scratch changed =
        then_do (relight_cells si generation V scratch changed) (\<lambda>(out, direct, stats). map_option Inr (freeze out direct stats))"
      by (simp add: solve_light_changes_with_scratch_def volume si)
    show ?thesis
      unfolding run if_not_P [OF False]
    proof (rule wp_seq [OF relight_cells_wp [OF r scratch]])
      fix result :: "mutable_output \<times> dense_set \<times> light_solve_stats"
      assume result: "case result of (out, D, _) \<Rightarrow>
        seeds_ok si \<and> holds_field si V out D \<and> mo_generation out = generation"
      obtain out D stats where result': "result = (out, D, stats)" by (rule prod_cases3)
      have holds: "seeds_ok si" "holds_field si V out D" "mo_generation out = generation" using result by (simp_all add: result')
      from freeze_shows_field [OF ok holds] obtain shown where
        "freeze out D stats = Some shown" "shows_field si generation shown" by blast
      then show "wp (solve_error si (35 * V)) (\<lambda>out. V \<le> sl_max_voxels limits \<and> seeds_ok si \<and> shows_field si generation out)
        (case result of (out, direct, stats) \<Rightarrow> map_option Inr (freeze out direct stats))"
        using False holds(1) by (simp add: result')
    qed
  qed
qed

subsection \<open>An example change\<close>

text \<open>A torch is placed in the middle of open air that was already lit by the sky.\<close>

definition example_torch :: block_pos where
  "example_torch = Block_Pos 0 61 (-16)"

definition example_lit :: light_block_access where
  "example_lit = example_air\<lparr>ba_sample := (ba_sample example_air)(example_torch := Sample_Resident \<lparr>lp_emission = 14, lp_filter = 0\<rparr>)\<rparr>"

lemma example_change: "same_blocks_except [example_torch] example_air example_lit"
  by (simp add: same_blocks_except_def example_lit_def)

lemma example_change_nibbles: "nibble_inputs example_lit (output_access out)" "nibble_inputs example_lit empty_light"
proof -
  have "nibble_sample (ba_sample example_lit p)" for p
    by (simp add: example_lit_def example_air_def nibble_sample_def sample_emission_def sample_filter_def)
  then show "nibble_inputs example_lit (output_access out)" "nibble_inputs example_lit empty_light"
    by (simp_all add: nibble_inputs_def output_access_def output_boundary_light_def empty_light_def)
qed

lemma example_before:
  obtains before where "solve_light_with_scratch example_air empty_light example_bounds 7 (Overworld True) example_limits
      default_scratch = Some (Inr before)"
    "continues example_bounds (output_access before) before" "same_halo example_bounds empty_light (output_access before)"
proof -
  obtain before where before: "solve_light_with_scratch example_air empty_light example_bounds 7 (Overworld True) example_limits
      default_scratch = Some (Inr before)"
    using example_solved [OF example_nibbles(1)] by (auto simp: empty_light_def)
  have dims: "so_dimension before = lb_dimension example_bounds" "so_bounds before = example_bounds"
    using solve_light_wp [OF example_region example_small example_nibbles(1) fair_default refl, of example_limits "Overworld True" 7]
    by (simp_all add: before shows_field_def)
  show thesis
    by (rule that [OF before])
      (simp_all add: continues_def same_halo_def output_access_def light_at_def output_boundary_light_def empty_light_def dims)
qed

lemma example_lit_sky: "ba_sky_seed example_lit p \<le> 15"
  by (simp add: example_lit_def example_air_def)

lemma example_relit:
  assumes before: "solve_light_with_scratch example_air empty_light example_bounds 7 (Overworld True) example_limits
      default_scratch = Some (Inr before)"
    "continues example_bounds (output_access before) before" "same_halo example_bounds empty_light (output_access before)"
  obtains out where "solve_light_changes_with_scratch example_lit (output_access before) example_bounds 8 (Overworld True)
      example_limits default_scratch [example_torch] = Some (Inr out)"
proof -
  let ?new = "solve_input_of example_lit (output_access before) example_bounds (Overworld True) example_limits"
  have old: "seeds_ok (solve_input_of example_air empty_light example_bounds (Overworld True) example_limits)"
    "shows_field (solve_input_of example_air empty_light example_bounds (Overworld True) example_limits) 7 before"
    using solve_light_wp [OF example_region example_small example_nibbles(1) fair_default refl, of example_limits "Overworld True" 7]
    by (simp_all add: before(1))
  note r = resumes_contract [OF example_region example_small example_nibbles(1) example_change_nibbles(1) old before(2,3) example_change,
      of example_limits]
  have "seeds_ok ?new" using example_lit_sky by (simp add: seeds_ok_def)
  then have "\<not> solve_error ?new (35 * 27) e" for e using prior_ok_resumes [OF r] by (cases e) (simp_all add: solve_error_def)
  then show thesis
    using relight_wp [OF example_region r fair_default refl, of 8] that
    by (auto simp: wp_def split: option.splits sum.splits)
qed

lemma example_resolved:
  obtains out where "solve_light_with_scratch example_lit empty_light example_bounds 9 (Overworld True) example_limits
      default_scratch = Some (Inr out)" "14 \<le> light_at out example_torch Channel_Block"
proof -
  let ?new = "solve_input_of example_lit empty_light example_bounds (Overworld True) example_limits"
  have "seeds_ok ?new" "prior_ok ?new" using example_lit_sky by (simp_all add: seeds_ok_def prior_ok_def empty_light_def)
  then have "\<not> solve_error ?new (35 * 27) e" for e by (cases e) (simp_all add: solve_error_def)
  then obtain out where out: "solve_light_with_scratch example_lit empty_light example_bounds 9 (Overworld True) example_limits
      default_scratch = Some (Inr out)" "shows_field ?new 9 out"
    using solve_light_wp [OF example_region example_small example_change_nibbles(2) fair_default refl, of example_limits "Overworld True" 9]
    by (auto simp: wp_def split: option.splits sum.splits)
  have inside: "bounds_contain (si_bounds ?new) example_torch"
    by (simp add: bounds_contain_def example_bounds_def example_torch_def)
  have filt: "filt ?new example_torch = Some 0" by (simp add: example_lit_def sample_filter_def)
  have base: "base_level ?new Channel_Block example_torch = 14"
    unfolding base_level_def filt by (simp add: example_lit_def sample_emission_def)
  have "field_level ?new Channel_Block example_torch (light_at out example_torch Channel_Block)"
    by (rule shows_field_inside [OF out(2) inside])
  then have "14 \<le> light_at out example_torch Channel_Block"
    using lit.source [OF inside filt, of Channel_Block] unfolding base field_level_def by blast
  with out(1) show thesis by (rule that)
qed

subsection \<open>The properties\<close>

text \<open>
  C5. A relighting gives what solving again gives: started from the light an earlier solve gave for the
  same blocks except at the changed cells, around the same boundary light, it agrees with a whole
  solve of the new blocks on every reading, in both channels and in the direct sky, though it visits
  only the changed cells and the light that depended on them.
\<close>
theorem relight_equals_solve:
  assumes "region b V" "V \<le> U32_MAX"
    and "nibble_inputs before prior0" "nibble_inputs now prior" "nibble_inputs now prior'"
    and "fair_scratch scratch0" "fair_scratch scratch" "fair_scratch scratch'"
    and "solve_light_with_scratch before prior0 b generation0 profile limits0 scratch0 = Some (Inr earlier)"
    and "continues b prior earlier" "same_halo b prior0 prior" "same_halo b prior prior'"
    and "same_blocks_except changed before now"
    and "solve_light_changes_with_scratch now prior b generation profile limits scratch changed = Some (Inr out)"
    and "solve_light_with_scratch now prior' b generation' profile limits' scratch' = Some (Inr out')"
  shows "(\<forall>p c. light_at out p c = light_at out' p c) \<and>
    (\<forall>dim p. output_has_direct out dim p = output_has_direct out' dim p)"
proof -
  have old: "seeds_ok (solve_input_of before prior0 b profile limits0)"
    "shows_field (solve_input_of before prior0 b profile limits0) generation0 earlier"
    using solve_light_wp [OF assms(1,2,3,6) refl, of limits0 profile generation0] by (simp_all add: assms(9))
  have "resumes (solve_input_of before prior0 b profile limits0) (solve_input_of now prior b profile limits) V (set changed)"
    by (rule resumes_contract [OF assms(1-4) old assms(10,11,13)])
  from relight_wp [OF assms(1) this assms(7) refl, of generation]
  have "shows_field (solve_input_of now prior b profile limits) generation out" by (simp add: assms(14))
  moreover have "shows_field (solve_input_of now prior' b profile limits') generation' out'"
    using solve_light_wp [OF assms(1,2,5,8) refl, of limits' profile generation'] by (simp add: assms(15))
  ultimately show ?thesis using same_field [OF assms(12)] by blast
qed

theorem relight_equals_solve_witness:
  "\<exists>before out out'.
     solve_light_with_scratch example_air empty_light example_bounds 7 (Overworld True) example_limits default_scratch
       = Some (Inr before) \<and>
     solve_light_changes_with_scratch example_lit (output_access before) example_bounds 8 (Overworld True) example_limits
       default_scratch [example_torch] = Some (Inr out) \<and>
     solve_light_with_scratch example_lit empty_light example_bounds 9 (Overworld True) example_limits default_scratch
       = Some (Inr out') \<and>
     14 \<le> light_at out' example_torch Channel_Block \<and>
     light_at out example_torch Channel_Block = light_at out' example_torch Channel_Block"
proof -
  obtain before where before: "solve_light_with_scratch example_air empty_light example_bounds 7 (Overworld True) example_limits
      default_scratch = Some (Inr before)"
    "continues example_bounds (output_access before) before" "same_halo example_bounds empty_light (output_access before)"
    by (rule example_before)
  obtain out where out: "solve_light_changes_with_scratch example_lit (output_access before) example_bounds 8 (Overworld True)
      example_limits default_scratch [example_torch] = Some (Inr out)"
    by (rule example_relit [OF before])
  obtain out' where out': "solve_light_with_scratch example_lit empty_light example_bounds 9 (Overworld True) example_limits
      default_scratch = Some (Inr out')" "14 \<le> light_at out' example_torch Channel_Block"
    by (rule example_resolved)
  have halo: "same_halo example_bounds (output_access before) empty_light" using before(3) by (simp add: same_halo_def)
  from relight_equals_solve [OF example_region example_small example_nibbles(1) example_change_nibbles
      fair_default fair_default fair_default before halo example_change out out'(1)] before(1) out out'
  show ?thesis by blast
qed

text \<open>
  C11. A relighting returns the light field of the new blocks, from the light of any earlier result that
  is itself the field of the old blocks, so that one relighting can follow another.
\<close>
theorem relight_is_field:
  assumes "region b V" "V \<le> U32_MAX"
    and "nibble_inputs before prior0" "nibble_inputs now prior" "fair_scratch scratch"
    and "seeds_ok (solve_input_of before prior0 b profile limits0)"
    and "shows_field (solve_input_of before prior0 b profile limits0) generation0 earlier"
    and "continues b prior earlier" "same_halo b prior0 prior" "same_blocks_except changed before now"
    and "solve_light_changes_with_scratch now prior b generation profile limits scratch changed = Some (Inr out)"
  shows "seeds_ok (solve_input_of now prior b profile limits) \<and>
    shows_field (solve_input_of now prior b profile limits) generation out"
proof -
  have "resumes (solve_input_of before prior0 b profile limits0) (solve_input_of now prior b profile limits) V (set changed)"
    by (rule resumes_contract [OF assms(1-4) assms(6-10)])
  from relight_wp [OF assms(1) this assms(5) refl, of generation] show ?thesis by (simp add: assms(11))
qed

theorem relight_is_field_witness:
  "\<exists>before out. solve_light_changes_with_scratch example_lit (output_access before) example_bounds 8 (Overworld True)
       example_limits default_scratch [example_torch] = Some (Inr out) \<and>
     seeds_ok (solve_input_of example_lit (output_access before) example_bounds (Overworld True) example_limits) \<and>
     shows_field (solve_input_of example_lit (output_access before) example_bounds (Overworld True) example_limits) 8 out"
proof -
  obtain before where before: "solve_light_with_scratch example_air empty_light example_bounds 7 (Overworld True) example_limits
      default_scratch = Some (Inr before)"
    "continues example_bounds (output_access before) before" "same_halo example_bounds empty_light (output_access before)"
    by (rule example_before)
  have old: "seeds_ok (solve_input_of example_air empty_light example_bounds (Overworld True) example_limits)"
    "shows_field (solve_input_of example_air empty_light example_bounds (Overworld True) example_limits) 7 before"
    using solve_light_wp [OF example_region example_small example_nibbles(1) fair_default refl, of example_limits "Overworld True" 7]
    by (simp_all add: before(1))
  obtain out where out: "solve_light_changes_with_scratch example_lit (output_access before) example_bounds 8 (Overworld True)
      example_limits default_scratch [example_torch] = Some (Inr out)"
    by (rule example_relit [OF before])
  from relight_is_field [OF example_region example_small example_nibbles(1) example_change_nibbles(1) fair_default old
      before(2,3) example_change out] out
  show ?thesis by blast
qed

text \<open>
  C13. A relighting always returns, and a relighting that fails says why: the region has more cells than
  the limit, the queues would outgrow a limit below 35 entries a cell, or a changed cell has a sky seed
  above 15.  It never panics and never loops, and no cell outside the changed ones can make it fail.  The region
  has at most \<^verbatim>\<open>u32::MAX\<close> cells: beyond that \<^verbatim>\<open>IncreaseQueue::reset\<close> has its documented panic.
\<close>
theorem relight_returns:
  assumes "region b V" "V \<le> U32_MAX"
    and "nibble_inputs before prior0" "nibble_inputs now prior" "fair_scratch scratch0" "fair_scratch scratch"
    and "solve_light_with_scratch before prior0 b generation0 profile limits0 scratch0 = Some (Inr earlier)"
    and "continues b prior earlier" "same_halo b prior0 prior" "same_blocks_except changed before now"
  shows "\<exists>result. solve_light_changes_with_scratch now prior b generation profile limits scratch changed = Some result \<and>
    (case result of
       Inr _ \<Rightarrow> V \<le> sl_max_voxels limits
     | Inl (Voxel_Limit_Exceeded n m) \<Rightarrow> n = V \<and> m = sl_max_voxels limits \<and> m < V
     | Inl (Queue_Limit_Exceeded m) \<Rightarrow> m = sl_max_queue_entries limits \<and> m < 35 * V
     | Inl (Light_Value_Out_Of_Range v) \<Rightarrow> 15 < v \<and>
         (\<exists>p\<in>set changed. bounds_contain b p \<and> sample_filter (ba_sample now p) \<noteq> None \<and> 15 < ba_sky_seed now p)
     | Inl _ \<Rightarrow> False)"
proof -
  let ?old = "solve_input_of before prior0 b profile limits0" and ?new = "solve_input_of now prior b profile limits"
  have old: "seeds_ok ?old" "shows_field ?old generation0 earlier"
    using solve_light_wp [OF assms(1,2,3,5) refl, of limits0 profile generation0] by (simp_all add: assms(7))
  have r: "resumes ?old ?new V (set changed)" by (rule resumes_contract [OF assms(1-4) old assms(8-10)])
  have run: "wp (\<lambda>e. if sl_max_voxels limits < V then e = Voxel_Limit_Exceeded V (sl_max_voxels limits) else solve_error ?new (35 * V) e)
    (\<lambda>out. V \<le> sl_max_voxels limits \<and> seeds_ok ?new \<and> shows_field ?new generation out)
    (solve_light_changes_with_scratch now prior b generation profile limits scratch changed)"
    by (rule relight_wp [OF assms(1) r assms(6) refl])
  then obtain result where result: "solve_light_changes_with_scratch now prior b generation profile limits scratch changed = Some result"
    by (auto simp: wp_def split: option.splits)
  have bad: "\<exists>p\<in>set changed. bounds_contain b p \<and> sample_filter (ba_sample now p) \<noteq> None \<and> 15 < ba_sky_seed now p"
    if why: "\<not> (seeds_ok ?new \<and> prior_ok ?new)"
  proof -
    obtain p where p: "bounds_contain b p" "filt ?new p \<noteq> None" "\<not> ba_sky_seed now p \<le> 15"
      using why prior_ok_resumes [OF r] unfolding seeds_ok_def solve_input_simps by blast
    have "p \<in> set changed"
    proof (rule ccontr)
      assume far: "p \<notin> set changed"
      have "bounds_contain (si_bounds ?old) p \<and> filt ?old p \<noteq> None" using p resumesD(6) [OF r far] by simp
      then have "ba_sky_seed before p \<le> 15" using old(1) unfolding seeds_ok_def solve_input_simps by blast
      then show False using p(3) resumesD(7) [OF r far] by simp
    qed
    then show ?thesis using p by auto
  qed
  show ?thesis
  proof (cases result)
    case (Inl e)
    then show ?thesis
      using run bad by (cases e) (auto simp: result solve_error_def split: if_splits)
  next
    case (Inr out)
    then show ?thesis using run by (simp add: result)
  qed
qed

theorem relight_returns_witness:
  "\<exists>before. solve_light_changes_with_scratch example_lit (output_access before) example_bounds 8 (Overworld True)
     \<lparr>sl_max_voxels = 26, sl_max_queue_entries = 945\<rparr> default_scratch [example_torch] = Some (Inl (Voxel_Limit_Exceeded 27 26))"
proof -
  obtain before where before: "solve_light_with_scratch example_air empty_light example_bounds 7 (Overworld True) example_limits
      default_scratch = Some (Inr before)"
    "continues example_bounds (output_access before) before" "same_halo example_bounds empty_light (output_access before)"
    by (rule example_before)
  let ?run = "solve_light_changes_with_scratch example_lit (output_access before) example_bounds 8 (Overworld True)
     \<lparr>sl_max_voxels = 26, sl_max_queue_entries = 945\<rparr> default_scratch [example_torch]"
  have dark: "\<not> 15 < ba_sky_seed example_lit p" for p by (simp add: example_lit_def example_air_def)
  obtain result where result: "?run = Some result" and reason: "case result of
       Inr _ \<Rightarrow> 27 \<le> (26 :: nat)
     | Inl (Voxel_Limit_Exceeded n m) \<Rightarrow> n = 27 \<and> m = 26 \<and> m < 27
     | Inl (Queue_Limit_Exceeded m) \<Rightarrow> m = 945 \<and> m < 35 * 27
     | Inl (Light_Value_Out_Of_Range v) \<Rightarrow> False
     | Inl _ \<Rightarrow> False"
    using relight_returns [OF example_region example_small example_nibbles(1) example_change_nibbles(1) fair_default fair_default
      before example_change, of 8 "\<lparr>sl_max_voxels = 26, sl_max_queue_entries = 945\<rparr>"]
    by (simp only: dark solver_limits.simps simp_thms bex_triv) blast
  then have "result = Inl (Voxel_Limit_Exceeded 27 26)"
    by (cases result; cases "projl result") auto
  then show ?thesis using result by blast
qed

end
