(* ===== verification/Mesh_Neighbourhood.thy ===== *)
theory Mesh_Neighbourhood
  imports Keys Sub_Chunk Palette_Spec
begin

section \<open>The neighbourhood a mesh reads\<close>

text \<open>
  \<^verbatim>\<open>mesh_neighbourhood.rs\<close>: the snapshot of a sub-chunk and its at most 26 neighbours from which a mesh
  is built, and how the streaming client takes it (\<^verbatim>\<open>stream/meshing\<close> of \<^verbatim>\<open>crates/chunk-pipeline\<close>).  A
  reference to a sub-chunk is the sub-chunk; offsets (\<^verbatim>\<open>i8\<close>) are integers.
\<close>

type_synonym coordinate = "i32 \<times> i32 \<times> i32"

datatype mesh_sample = Mesh_Block u32 | Mesh_Open

record mesh_dependency_mask =
  md_diagonal_ao :: bool
  md_liquid :: bool
  md_seasonal_foliage :: bool

definition new_dependency_mask :: "bool \<Rightarrow> bool \<Rightarrow> mesh_dependency_mask" where
  "new_dependency_mask diagonal_ao liquid =
     \<lparr>md_diagonal_ao = diagonal_ao, md_liquid = liquid, md_seasonal_foliage = False\<rparr>"

definition needs_diagonal_samples :: "mesh_dependency_mask \<Rightarrow> bool" where
  "needs_diagonal_samples m \<longleftrightarrow> md_diagonal_ao m \<or> md_liquid m"

definition with_seasonal_foliage :: "bool \<Rightarrow> mesh_dependency_mask \<Rightarrow> mesh_dependency_mask" where
  "with_seasonal_foliage enabled m = m\<lparr>md_seasonal_foliage := enabled\<rparr>"

subsection \<open>Offsets\<close>

definition ADJACENT_OFFSETS :: "coordinate list" where
  "ADJACENT_OFFSETS =
    [(-1, -1, -1), (-1, -1, 0), (-1, -1, 1), (-1, 0, -1), (-1, 0, 0), (-1, 0, 1), (-1, 1, -1), (-1, 1, 0), (-1, 1, 1),
     (0, -1, -1), (0, -1, 0), (0, -1, 1), (0, 0, -1), (0, 0, 1), (0, 1, -1), (0, 1, 0), (0, 1, 1),
     (1, -1, -1), (1, -1, 0), (1, -1, 1), (1, 0, -1), (1, 0, 0), (1, 0, 1), (1, 1, -1), (1, 1, 0), (1, 1, 1)]"

definition entry_index :: "coordinate \<Rightarrow> usize option" where
  "entry_index delta = (case delta of (x, y, z) \<Rightarrow>
     (if \<not> (- 1 \<le> x \<and> x \<le> 1) \<or> \<not> (- 1 \<le> y \<and> y \<le> 1) \<or> \<not> (- 1 \<le> z \<and> z \<le> 1) then None
      else Some ((nat (x + 1) * 3 + nat (y + 1)) * 3 + nat (z + 1))))"

definition is_liquid_sample_offset :: "coordinate \<Rightarrow> bool" where
  "is_liquid_sample_offset delta = (case delta of (x, y, z) \<Rightarrow>
     (y = 0 \<or> y = 1) \<and> x \<ge> - 1 \<and> x \<le> 1 \<and> z \<ge> - 1 \<and> z \<le> 1 \<or>
     y = - 1 \<and> (x = 0 \<and> z = 0 \<or> \<bar>x\<bar> + \<bar>z\<bar> = 1))"

text \<open>Euclidean division and remainder by the positive side are HOL's \<open>div\<close> and \<open>mod\<close>.\<close>

definition split_coordinate :: "coordinate \<Rightarrow> (coordinate \<times> nat \<times> nat \<times> nat) option" where
  "split_coordinate c = (case c of (x, y, z) \<Rightarrow>
     (if \<not> (- 1 \<le> x div 16 \<and> x div 16 \<le> 1) \<or> \<not> (- 1 \<le> y div 16 \<and> y div 16 \<le> 1) \<or> \<not> (- 1 \<le> z div 16 \<and> z div 16 \<le> 1)
      then None
      else Some ((x div 16, y div 16, z div 16), nat (x mod 16), nat (y mod 16), nat (z mod 16))))"

subsection \<open>The snapshot\<close>

record 'c mesh_neighbourhood =
  mn_block_origin :: coordinate
  mn_sub_chunks :: "'c sub_chunk option list"
  mn_column_above :: "(i32 \<times> 'c sub_chunk) list"
  mn_shared_column :: "(i32 \<times> (i32, 'c sub_chunk) btree_map) option"

definition new_neighbourhood :: "'c sub_chunk \<Rightarrow> 'c mesh_neighbourhood" where
  "new_neighbourhood center = \<lparr>mn_block_origin = (0, 0, 0), mn_sub_chunks = (replicate 27 None)[13 := Some center],
     mn_column_above = [], mn_shared_column = None\<rparr>"

definition with_block_origin :: "coordinate \<Rightarrow> 'c mesh_neighbourhood \<Rightarrow> 'c mesh_neighbourhood" where
  "with_block_origin origin m = m\<lparr>mn_block_origin := origin\<rparr>"

definition mesh_insert :: "coordinate \<Rightarrow> 'c sub_chunk \<Rightarrow> 'c mesh_neighbourhood \<Rightarrow> bool \<times> 'c mesh_neighbourhood" where
  "mesh_insert delta sc m =
     (if delta = (0, 0, 0) then (False, m)
      else case entry_index delta of
        None \<Rightarrow> (False, m)
      | Some i \<Rightarrow> (True, m\<lparr>mn_sub_chunks := (mn_sub_chunks m)[i := Some sc]\<rparr>))"

definition mesh_sub_chunk :: "'c mesh_neighbourhood \<Rightarrow> coordinate \<Rightarrow> 'c sub_chunk option" where
  "mesh_sub_chunk m delta = (case entry_index delta of None \<Rightarrow> None | Some i \<Rightarrow> mn_sub_chunks m ! i)"

definition insert_column_above :: "i32 \<Rightarrow> 'c sub_chunk \<Rightarrow> 'c mesh_neighbourhood \<Rightarrow> bool \<times> 'c mesh_neighbourhood" where
  "insert_column_above dy sc m =
     (if dy < 2 \<or> checked_i32 (dy * 16) = None \<or> (\<exists>(existing, _)\<in>set (mn_column_above m). existing = dy) then (False, m)
      else (True, m\<lparr>mn_column_above := mn_column_above m @ [(dy, sc)]\<rparr>))"

definition with_shared_column :: "i32 \<Rightarrow> (i32, 'c sub_chunk) btree_map \<Rightarrow> 'c mesh_neighbourhood \<Rightarrow> 'c mesh_neighbourhood" where
  "with_shared_column center_y column m = m\<lparr>mn_shared_column := Some (center_y, column)\<rparr>"

definition shared_above :: "'c mesh_neighbourhood \<Rightarrow> i32 \<Rightarrow> i32 \<times> 'c sub_chunk \<Rightarrow> (i32 \<times> 'c sub_chunk) option" where
  "shared_above m center entry = (case entry of (y, section) \<Rightarrow>
     (case checked_sub_i32 y center of
        None \<Rightarrow> None
      | Some dy \<Rightarrow>
          (if dy \<ge> 2 \<and> checked_i32 (dy * 16) \<noteq> None \<and> \<not> (\<exists>(explicit, _)\<in>set (mn_column_above m). explicit = dy)
           then Some (dy, section) else None)))"

definition seasonal_column :: "'c mesh_neighbourhood \<Rightarrow> (i32 \<times> 'c sub_chunk) list" where
  "seasonal_column m =
     flatten [map_option (Pair 0) (mesh_sub_chunk m (0, 0, 0)), map_option (Pair 1) (mesh_sub_chunk m (0, 1, 0))] @
     mn_column_above m @
     (case mn_shared_column m of
        None \<Rightarrow> []
      | Some (center, column) \<Rightarrow>
          List.map_filter (shared_above m center) (filter (\<lambda>(y, _). saturating_add_i32 center 2 \<le> y) column))"

definition liquid_sub_chunks :: "'c mesh_neighbourhood \<Rightarrow> (coordinate \<times> 'c sub_chunk option) list" where
  "liquid_sub_chunks m = map (\<lambda>delta. (delta, mesh_sub_chunk m delta)) LIQUID_SAMPLE_OFFSETS"

definition sample_of :: "u32 option \<Rightarrow> mesh_sample" where
  "sample_of found = (case found of None \<Rightarrow> Mesh_Open | Some value \<Rightarrow> Mesh_Block value)"

definition mesh_sample_at :: "'c mesh_neighbourhood \<Rightarrow> usize \<Rightarrow> coordinate \<Rightarrow> mesh_sample" where
  "mesh_sample_at m layer c =
     (case split_coordinate c of
        None \<Rightarrow> Mesh_Open
      | Some (delta, x, y, z) \<Rightarrow>
          sample_of (case mesh_sub_chunk m delta of None \<Rightarrow> None | Some sc \<Rightarrow> sub_runtime_id sc layer x y z))"

definition liquid_sample :: "'c mesh_neighbourhood \<Rightarrow> usize \<Rightarrow> coordinate \<Rightarrow> mesh_sample" where
  "liquid_sample m layer c =
     (case split_coordinate c of
        None \<Rightarrow> Mesh_Open
      | Some (delta, x, y, z) \<Rightarrow>
          (if \<not> is_liquid_sample_offset delta then Mesh_Open
           else sample_of (case mesh_sub_chunk m delta of None \<Rightarrow> None | Some sc \<Rightarrow> sub_runtime_id sc layer x y z)))"

definition block_source :: "'c mesh_neighbourhood \<Rightarrow> coordinate \<Rightarrow> ('c sub_chunk \<times> nat \<times> nat \<times> nat) option" where
  "block_source m c =
     (case split_coordinate c of
        None \<Rightarrow> None
      | Some (delta, local) \<Rightarrow> map_option (\<lambda>sc. (sc, local)) (mesh_sub_chunk m delta))"

definition liquid_block_source :: "'c mesh_neighbourhood \<Rightarrow> coordinate \<Rightarrow> ('c sub_chunk \<times> nat \<times> nat \<times> nat) option" where
  "liquid_block_source m c =
     (case split_coordinate c of
        None \<Rightarrow> None
      | Some (delta, local) \<Rightarrow>
          (case mesh_sub_chunk m delta of
             None \<Rightarrow> None
           | Some sc \<Rightarrow> (if is_liquid_sample_offset delta then Some (sc, local) else None)))"

subsection \<open>Taking a snapshot\<close>

text \<open>The neighbours are looked up in the store by checked key arithmetic, then inserted one by one.\<close>

definition adjacent_sub_chunk :: "(sub_chunk_key \<Rightarrow> 'c sub_chunk option) \<Rightarrow> sub_chunk_key \<Rightarrow> coordinate \<Rightarrow> 'c sub_chunk option" where
  "adjacent_sub_chunk terrain key delta =
     (case shifted_key checked_add_i32 key delta of None \<Rightarrow> None | Some k \<Rightarrow> terrain k)"

definition snapshot_neighbourhood ::
    "sub_chunk_key option \<Rightarrow> sub_chunk_key \<Rightarrow> 'c sub_chunk \<Rightarrow> (coordinate \<Rightarrow> 'c sub_chunk option) \<Rightarrow> (i32, 'c sub_chunk) btree_map option \<Rightarrow>
     'c mesh_neighbourhood" where
  "snapshot_neighbourhood light_center key center adjacent column =
     (let origin = (case light_center of None \<Rightarrow> (0, 0, 0)
            | Some k \<Rightarrow> (wrap_i32 (sk_x k * 16), wrap_i32 (sk_y k * 16), wrap_i32 (sk_z k * 16)));
          m = with_block_origin origin (new_neighbourhood center);
          m = fold (\<lambda>delta m. case adjacent delta of None \<Rightarrow> m | Some sc \<Rightarrow> snd (mesh_insert delta sc m)) ADJACENT_OFFSETS m
      in case column of None \<Rightarrow> m | Some sections \<Rightarrow> with_shared_column (sk_y key) sections m)"

subsection \<open>What the snapshot holds\<close>

lemma cube_iff: "(x, y, z) \<in> cube_offsets \<longleftrightarrow> - 1 \<le> x \<and> x \<le> 1 \<and> - 1 \<le> y \<and> y \<le> 1 \<and> - 1 \<le> z \<and> z \<le> 1"
proof -
  have "n \<in> {-1, 0, 1} \<longleftrightarrow> - 1 \<le> n \<and> n \<le> 1" for n :: int by auto
  then show ?thesis by (simp only: cube_offsets_def mem_Sigma_iff) blast
qed

lemma entry_index_Some:
  "entry_index (x, y, z) = Some i \<longleftrightarrow> (x, y, z) \<in> cube_offsets \<and> i = (nat (x + 1) * 3 + nat (y + 1)) * 3 + nat (z + 1)"
  unfolding entry_index_def cube_iff by auto

lemma entry_index_cube: "entry_index delta \<noteq> None \<longleftrightarrow> delta \<in> cube_offsets"
  by (cases delta) (simp only: not_None_eq entry_index_Some, blast)

lemma entry_index_less: "entry_index delta = Some i \<Longrightarrow> i < 27"
  by (cases delta) (auto simp: entry_index_Some cube_iff)

lemma last_digit: "m * 3 + c = m' * 3 + c' \<Longrightarrow> c \<le> 2 \<Longrightarrow> c' \<le> 2 \<Longrightarrow> m = m' \<and> c = (c' :: nat)"
  by presburger

lemma digits_of_three:
  fixes a b c :: nat
  assumes "(a * 3 + b) * 3 + c = (a' * 3 + b') * 3 + c'" "b \<le> 2" "c \<le> 2" "b' \<le> 2" "c' \<le> 2"
  shows "a = a' \<and> b = b' \<and> c = c'"
  using last_digit [OF assms(1,3,5)] last_digit [of a b a' b'] assms(2,4) by blast

lemma entry_index_inj:
  assumes "entry_index a = Some i" "entry_index b = Some i"
  shows "a = b"
proof -
  obtain x y z x' y' z' where d: "a = (x, y, z)" "b = (x', y', z')" by (metis prod_cases3)
  have cube: "(x, y, z) \<in> cube_offsets" "(x', y', z') \<in> cube_offsets" using assms by (simp_all only: d entry_index_Some)
  have "(nat (x + 1) * 3 + nat (y + 1)) * 3 + nat (z + 1) = (nat (x' + 1) * 3 + nat (y' + 1)) * 3 + nat (z' + 1)"
    using assms by (simp only: d entry_index_Some)
  then have "nat (x + 1) = nat (x' + 1) \<and> nat (y + 1) = nat (y' + 1) \<and> nat (z + 1) = nat (z' + 1)"
    by (rule digits_of_three) (use cube in \<open>simp_all add: cube_iff nat_le_iff\<close>)
  then show ?thesis using cube by (simp add: cube_iff d eq_nat_nat_iff)
qed

lemma adjacent_offsets_iff: "delta \<in> set ADJACENT_OFFSETS \<longleftrightarrow> delta \<in> cube_offsets \<and> delta \<noteq> (0, 0, 0)"
proof -
  have "\<forall>d\<in>set ADJACENT_OFFSETS. d \<in> cube_offsets \<and> d \<noteq> (0, 0, 0)" by (simp add: ADJACENT_OFFSETS_def cube_iff)
  moreover have "\<forall>x\<in>{-1, 0, 1}. \<forall>y\<in>{-1, 0, 1}. \<forall>z\<in>{-1, 0, 1}. (x, y, z) \<noteq> (0, 0, 0) \<longrightarrow> (x, y, z) \<in> set ADJACENT_OFFSETS"
    by (simp add: ADJACENT_OFFSETS_def)
  then have "\<forall>d\<in>cube_offsets. d \<noteq> (0, 0, 0) \<longrightarrow> d \<in> set ADJACENT_OFFSETS" unfolding cube_offsets_def by blast
  ultimately show ?thesis by blast
qed

lemma liquid_offsets_iff: "delta \<in> set LIQUID_SAMPLE_OFFSETS \<longleftrightarrow> is_liquid_sample_offset delta"
proof -
  have "\<forall>d\<in>set LIQUID_SAMPLE_OFFSETS. is_liquid_sample_offset d"
    by (simp add: LIQUID_SAMPLE_OFFSETS_def is_liquid_sample_offset_def)
  moreover have "\<forall>x\<in>{-1, 0, 1}. \<forall>y\<in>{-1, 0, 1}. \<forall>z\<in>{-1, 0, 1}. is_liquid_sample_offset (x, y, z) \<longrightarrow>
      (x, y, z) \<in> set LIQUID_SAMPLE_OFFSETS"
    by (simp add: LIQUID_SAMPLE_OFFSETS_def is_liquid_sample_offset_def)
  then have "\<forall>d\<in>cube_offsets. is_liquid_sample_offset d \<longrightarrow> d \<in> set LIQUID_SAMPLE_OFFSETS" unfolding cube_offsets_def by blast
  moreover have "is_liquid_sample_offset (x, y, z) \<Longrightarrow> (x, y, z) \<in> cube_offsets" for x y z
    unfolding cube_iff is_liquid_sample_offset_def prod.case by linarith
  ultimately show ?thesis by (cases delta) blast
qed

lemma insert_reads:
  assumes "length (mn_sub_chunks m) = 27" "entry_index delta \<noteq> None" "delta \<noteq> (0, 0, 0)"
  shows "mesh_sub_chunk (snd (mesh_insert delta sc m)) d = (if d = delta then Some sc else mesh_sub_chunk m d)"
    and "length (mn_sub_chunks (snd (mesh_insert delta sc m))) = 27"
  using assms entry_index_inj [of d _ delta] entry_index_less [of delta]
  by (auto simp: mesh_insert_def mesh_sub_chunk_def nth_list_update split: option.split)

lemma insert_all_reads:
  assumes "length (mn_sub_chunks m) = 27" "\<And>delta. delta \<in> set offsets \<Longrightarrow> entry_index delta \<noteq> None \<and> delta \<noteq> (0, 0, 0)"
  shows "mesh_sub_chunk (fold (\<lambda>delta m. case adjacent delta of None \<Rightarrow> m | Some sc \<Rightarrow> snd (mesh_insert delta sc m)) offsets m) d =
    (if d \<in> set offsets \<and> adjacent d \<noteq> None then adjacent d else mesh_sub_chunk m d)"
  using assms
proof (induction offsets arbitrary: m)
  case (Cons delta offsets)
  show ?case
  proof (cases "adjacent delta")
    case None
    then show ?thesis using Cons by auto
  next
    case (Some sc)
    note one = insert_reads [OF Cons.prems(1), of delta sc]
    have "entry_index delta \<noteq> None" "delta \<noteq> (0, 0, 0)" using Cons.prems(2) by simp_all
    then show ?thesis using Cons.IH [of "snd (mesh_insert delta sc m)"] Cons.prems(2) one by (auto simp: Some)
  qed
qed simp

lemma neighbourhood_fields [simp]:
  "mesh_sub_chunk (with_shared_column y column m) = mesh_sub_chunk m"
  "mesh_sub_chunk (with_block_origin origin m) = mesh_sub_chunk m"
  "mn_sub_chunks (with_block_origin origin m) = mn_sub_chunks m"
  by (auto simp: fun_eq_iff with_shared_column_def with_block_origin_def mesh_sub_chunk_def split: option.split)

lemma snapshot_reads:
  assumes "terrain key = Some center" "sk_in_i32 key"
  shows "mesh_sub_chunk (snapshot_neighbourhood light_center key center (adjacent_sub_chunk terrain key) column) delta =
    (if delta \<in> cube_offsets then adjacent_sub_chunk terrain key delta else None)"
proof -
  let ?m = "\<lambda>origin. with_block_origin origin (new_neighbourhood center)"
  have centre: "entry_index (0, 0, 0) = Some 13" by (simp add: entry_index_def)
  have start: "mesh_sub_chunk (?m origin) delta = (if delta = (0, 0, 0) then Some center else None)" for origin
  proof (cases "entry_index delta")
    case None
    then show ?thesis using centre by (auto simp: mesh_sub_chunk_def)
  next
    case (Some i)
    have "i = 13 \<Longrightarrow> delta = (0, 0, 0)" by (rule entry_index_inj [OF Some]) (simp add: centre)
    moreover have "delta = (0, 0, 0) \<Longrightarrow> i = 13" using Some centre by simp
    ultimately have "i = 13 \<longleftrightarrow> delta = (0, 0, 0)" by blast
    then show ?thesis using entry_index_less [OF Some] by (simp add: mesh_sub_chunk_def Some new_neighbourhood_def nth_list_update)
  qed
  have all: "mesh_sub_chunk (fold (\<lambda>delta m. case adjacent_sub_chunk terrain key delta of None \<Rightarrow> m
      | Some sc \<Rightarrow> snd (mesh_insert delta sc m)) ADJACENT_OFFSETS (?m origin)) delta =
    (if delta \<in> set ADJACENT_OFFSETS \<and> adjacent_sub_chunk terrain key delta \<noteq> None then adjacent_sub_chunk terrain key delta
     else mesh_sub_chunk (?m origin) delta)" for origin
    by (rule insert_all_reads)
      (auto simp: new_neighbourhood_def adjacent_offsets_iff simp flip: entry_index_cube)
  have own: "adjacent_sub_chunk terrain key (0, 0, 0) = Some center"
  proof -
    have "shifted_key checked_add_i32 key (0, 0, 0) = Some key"
      using assms(2) by (simp add: shifted_add_iff key_offset_def sk_in_i32_def)
    then show ?thesis by (simp add: adjacent_sub_chunk_def assms(1))
  qed
  have snap: "mesh_sub_chunk (snapshot_neighbourhood light_center key center (adjacent_sub_chunk terrain key) column) delta =
    (if delta \<in> set ADJACENT_OFFSETS \<and> adjacent_sub_chunk terrain key delta \<noteq> None then adjacent_sub_chunk terrain key delta
     else if delta = (0, 0, 0) then Some center else None)"
    unfolding snapshot_neighbourhood_def Let_def by (cases column) (simp_all only: option.case neighbourhood_fields(1) all start)
  have "(0, 0, 0) \<in> cube_offsets" by (simp add: cube_iff)
  then show ?thesis unfolding snap adjacent_offsets_iff using own by auto
qed

subsection \<open>The property\<close>

text \<open>Where in the world a coordinate relative to a sub-chunk lies.\<close>

definition world_key :: "sub_chunk_key \<Rightarrow> coordinate \<Rightarrow> sub_chunk_key option" where
  "world_key key c = (case c of (x, y, z) \<Rightarrow> shifted_key checked_add_i32 key (x div 16, y div 16, z div 16))"

definition world_block :: "(sub_chunk_key \<Rightarrow> 'c sub_chunk option) \<Rightarrow> sub_chunk_key \<Rightarrow> usize \<Rightarrow> coordinate \<Rightarrow> u32 option" where
  "world_block terrain key layer c = (case c of (x, y, z) \<Rightarrow>
     (case world_key key c of
        None \<Rightarrow> None
      | Some k \<Rightarrow> (case terrain k of
          None \<Rightarrow> None
        | Some sc \<Rightarrow> sub_runtime_id sc layer (nat (x mod 16)) (nat (y mod 16)) (nat (z mod 16)))))"

definition in_reach :: "coordinate \<Rightarrow> bool" where
  "in_reach c \<longleftrightarrow> (case c of (x, y, z) \<Rightarrow> - 16 \<le> x \<and> x \<le> 31 \<and> - 16 \<le> y \<and> y \<le> 31 \<and> - 16 \<le> z \<and> z \<le> 31)"

lemma split_coordinate_eq:
  "split_coordinate (x, y, z) = (if in_reach (x, y, z)
     then Some ((x div 16, y div 16, z div 16), nat (x mod 16), nat (y mod 16), nat (z mod 16)) else None)"
proof -
  have "- 1 \<le> n div 16 \<and> n div 16 \<le> 1 \<longleftrightarrow> - 16 \<le> n \<and> n \<le> 31" for n :: int by linarith
  then show ?thesis unfolding split_coordinate_def in_reach_def prod.case by auto
qed

lemma reach_cube: "in_reach (x, y, z) \<Longrightarrow> (x div 16, y div 16, z div 16) \<in> cube_offsets"
  unfolding in_reach_def cube_iff prod.case by linarith

text \<open>
  C34. A mesh reads the world around its sub-chunk: a sample of the snapshot at any coordinate within
  one sub-chunk of the centre is the block the store holds there, and open space where the store has
  none or beyond; a liquid sample is that block or open.  And whatever a mesh has read, a change there
  reaches it: the centre is among the mesh dependents of the sub-chunk read, and among its liquid
  dependents when the liquid sampler read it.
\<close>
theorem mesh_reads_world:
  assumes "terrain key = Some center" and "sk_in_i32 key"
    and m_def: "m = snapshot_neighbourhood light_center key center (adjacent_sub_chunk terrain key) column"
  shows "mesh_sample_at m layer c = (if in_reach c then sample_of (world_block terrain key layer c) else Mesh_Open) \<and>
    liquid_sample m layer c \<in> {Mesh_Open, mesh_sample_at m layer c} \<and>
    (\<forall>k. world_key key c = Some k \<longrightarrow>
       (mesh_sample_at m layer c \<noteq> Mesh_Open \<longrightarrow> key \<in> set (mesh_neighbourhood_dependents k)) \<and>
       (liquid_sample m layer c \<noteq> Mesh_Open \<longrightarrow> key \<in> set (liquid_mesh_dependents k)))"
proof -
  obtain x y z where c: "c = (x, y, z)" by (rule prod_cases3)
  let ?d = "(x div 16, y div 16, z div 16)"
  show ?thesis
  proof (cases "in_reach c")
    case True
    then have cube: "?d \<in> cube_offsets" using reach_cube by (simp add: c)
    have read: "mesh_sub_chunk m ?d = adjacent_sub_chunk terrain key ?d"
      unfolding m_def using cube by (simp add: snapshot_reads [where terrain = terrain and key = key, OF assms(1,2)])
    have sample: "mesh_sample_at m layer c = sample_of (world_block terrain key layer c)"
      using True by (simp add: mesh_sample_at_def c split_coordinate_eq read world_block_def world_key_def adjacent_sub_chunk_def
          split: option.split)
    have liquid: "liquid_sample m layer c = (if is_liquid_sample_offset ?d then mesh_sample_at m layer c else Mesh_Open)"
      using True by (simp add: liquid_sample_def mesh_sample_at_def c split_coordinate_eq)
    have reached: "key \<in> set (mesh_neighbourhood_dependents k)"
      "is_liquid_sample_offset ?d \<Longrightarrow> key \<in> set (liquid_mesh_dependents k)" if "world_key key c = Some k" for k
    proof -
      have k: "sk_dimension k = sk_dimension key" "key_offset key k = ?d"
        using that by (simp_all add: world_key_def c shifted_add_iff)
      show "key \<in> set (mesh_neighbourhood_dependents k)"
        using cube k key_offset_minus [of k key] by (simp add: mesh_neighbourhood_dependents_iff [OF assms(2)] cube_iff)
      show "key \<in> set (liquid_mesh_dependents k)" if "is_liquid_sample_offset ?d"
        using that k by (simp add: liquid_mesh_dependents_iff [OF assms(2)] liquid_offsets_iff)
    qed
    show ?thesis using sample liquid reached True by auto
  next
    case False
    then show ?thesis by (simp add: mesh_sample_at_def liquid_sample_def c split_coordinate_eq)
  qed
qed

definition example_terrain :: "sub_chunk_key \<Rightarrow> unit sub_chunk option" where
  "example_terrain k =
     (if sk_dimension k = 0 \<and> sk_y k = 4 \<and> sk_z k = 0 \<and> sk_x k \<in> {-1, 0}
      then Some ((for_block_updates 4)\<lparr>storages := [uniform (if sk_x k = 0 then 7 else 9)]\<rparr>) else None)"

theorem mesh_reads_world_witness:
  "mesh_sample_at (snapshot_neighbourhood None (Sub_Chunk_Key 0 0 4 0)
       ((for_block_updates 4)\<lparr>storages := [uniform 7]\<rparr>) (adjacent_sub_chunk example_terrain (Sub_Chunk_Key 0 0 4 0)) None)
     0 (-1, 3, 2) = Mesh_Block 9 \<and>
   Sub_Chunk_Key 0 0 4 0 \<in> set (mesh_neighbourhood_dependents (Sub_Chunk_Key 0 (-1) 4 0))"
proof -
  have terrain: "example_terrain (Sub_Chunk_Key 0 0 4 0) = Some ((for_block_updates 4)\<lparr>storages := [uniform 7]\<rparr>)"
    by (simp add: example_terrain_def)
  have key: "sk_in_i32 (Sub_Chunk_Key 0 0 4 0)" by (simp add: sk_in_i32_def in_i32_def)
  have wk: "world_key (Sub_Chunk_Key 0 0 4 0) (-1, 3, 2) = Some (Sub_Chunk_Key 0 (-1) 4 0)"
    by (simp add: world_key_def shifted_add_iff key_offset_def in_i32_def)
  have block: "world_block example_terrain (Sub_Chunk_Key 0 0 4 0) 0 (-1, 3, 2) = Some 9"
  proof -
    have "linear_index 15 3 2 < BLOCKS_PER_SUB_CHUNK" by (simp add: linear_index_def BLOCKS_PER_SUB_CHUNK_def SUB_CHUNK_SIDE_def)
    from uniform_cell [OF this, of 9] show ?thesis
      by (simp add: world_block_def wk example_terrain_def sub_runtime_id_def runtime_id_def cell_value_def)
  qed
  show ?thesis
    using mesh_reads_world [where terrain = example_terrain and light_center = None and column = None and layer = 0 and c = "(-1, 3, 2)",
      OF terrain key refl]
    by (simp add: wk block in_reach_def sample_of_def)
qed

end
