(* ===== verification/Spec2Isabelle.thy ===== *)
theory Spec2Isabelle
  imports Store_Failures Nbt_Round Block_Entity_Spec Full_Spec Changes_Spec Mesh_Neighbourhood
begin

text \<open>
  A verification library for the client's world model: the Rust crate \<^verbatim>\<open>crates/world\<close> of cinnabar,
  a client for Minecraft Bedrock.

  The network layer hands the client chunk payloads as bytes.  \<^verbatim>\<open>sub_chunk.rs\<close>, \<^verbatim>\<open>biome.rs\<close> and
  \<^verbatim>\<open>block_entity.rs\<close> decode them into paletted storages and NBT blobs, \<^verbatim>\<open>store.rs\<close> keeps them per
  chunk column with collision revisions, and \<^verbatim>\<open>mutation.rs\<close>/\<^verbatim>\<open>palette.rs\<close> apply later edits.

  Theories and what they model:

  \<^item> \<open>Prelude\<close>: machine integers, fallible operations, loops that may panic.
  \<^item> \<open>Packed_Words\<close>: packed index words (\<^verbatim>\<open>palette.rs\<close>: \<^verbatim>\<open>word_count\<close>, \<^verbatim>\<open>bits_for_palette_len\<close>,
    \<^verbatim>\<open>write_palette_index\<close>, \<^verbatim>\<open>physical_index\<close>), the interface \<open>packed_cells\<close> and its interpretation.
  \<^item> \<open>Palette\<close>: \<^verbatim>\<open>PalettedStorage\<close> and \<^verbatim>\<open>PaletteEdits\<close>, every operation.
  \<^item> \<open>Palette_Slots\<close>, \<open>Palette_Edit\<close>, \<open>Palette_Reads\<close>: its invariant and the lemmas of each operation.
  \<^item> \<open>Palette_Spec\<close>: the properties of paletted storages.
  \<^item> \<open>Revision\<close>: \<^verbatim>\<open>collision_revision.rs\<close>, the allocator and its compare-exchange loop.
  \<^item> \<open>Ordered_Map\<close>: Rust's ordered maps behind the interface \<open>ordered_map\<close>.
  \<^item> \<open>Keys\<close>: column, sub-chunk and block-entity keys and the meshes that depend on them.
  \<^item> \<open>Mutation\<close>: \<^verbatim>\<open>mutation.rs\<close>, block updates and the neighbours they reach.
  \<^item> \<open>Bytes\<close>, \<open>Lenient_Reader\<close>: byte strings, cursors, the reader of \<^verbatim>\<open>sub_chunk.rs\<close>.
  \<^item> \<open>Nbt_Scan\<close>, \<open>Nbt_Tree\<close>, \<open>Nbt_Round\<close>: the NBT scanner of \<^verbatim>\<open>block_entity.rs\<close>, the tree, encoder and parser of
    \<^verbatim>\<open>nbt_tree.rs\<close>, and that encoded trees parse back.
  \<^item> \<open>Nbt_Agree\<close>: whatever the scanner accepts, the tree parser accepts.
  \<^item> \<open>Block_Entity\<close>, \<open>Block_Entity_Decode\<close>, \<open>Block_Entity_Spec\<close>: \<^verbatim>\<open>block_entity.rs\<close> and its shape actors, the root scan
    with deferred errors, the chunk and sub-chunk tails, live updates; the properties of block entities.
  \<^item> \<open>Registry_Ids\<close>: \<^verbatim>\<open>DecodeIds\<close> of \<^verbatim>\<open>crates/client-world/src/ingestion/ids.rs\<close>, how a decode job of a session
    resolves block ids (the palette remap and the lookups of \<^verbatim>\<open>crates/assets/src/runtime\<close>, the state hash of
    \<^verbatim>\<open>crates/protocol/src/world/custom_blocks.rs\<close>) and the identity its payloads are reused under.
  \<^item> \<open>Sub_Chunk\<close>, \<open>Sub_Chunk_Decode\<close>, \<open>Sub_Chunk_Updates\<close>, \<open>Sub_Chunk_Spec\<close>: \<^verbatim>\<open>sub_chunk.rs\<close> and
    \<^verbatim>\<open>sub_chunk/payload.rs\<close>, the decoder over the program's two implementations of \<^verbatim>\<open>BlockIds\<close>, raw and session, the
    reuse of resident sections and block updates.
  \<^item> \<open>Biome\<close>: \<^verbatim>\<open>biome.rs\<close>, biome columns and their empty slots.
  \<^item> \<open>Section_Blocks\<close>: the equalities of sub-chunks, cell by cell.
  \<^item> \<open>Level_Chunk\<close>, \<open>Level_Chunk_Spec\<close>: \<^verbatim>\<open>store/level_chunk.rs\<close>, whole columns and request-mode sub-chunks on the wire.
  \<^item> \<open>Store\<close>, \<open>Store_Entities\<close>, \<open>Store_Columns\<close>: \<^verbatim>\<open>store.rs\<close>, \<^verbatim>\<open>store/helpers.rs\<close>, \<^verbatim>\<open>store/shape_revisions.rs\<close> and
    \<^verbatim>\<open>store/collision_snapshot.rs\<close>: the store's state and every operation on it.
  \<^item> \<open>Store_Invariant\<close>, \<open>Store_Content\<close>: what the store keeps, and what a collision revision stands for.
  \<^item> \<open>Store_Steps\<close>, \<open>Store_Entity_Steps\<close>, \<open>Store_Entity_Keeps\<close>, \<open>Store_Column_Keeps\<close>, \<open>Store_Level_Keeps\<close>: each
    operation keeps both.
  \<^item> \<open>Store_Ops\<close>, \<open>Store_Spec\<close>: histories of operations on wire bytes, and the properties that span them.
  \<^item> \<open>Store_Effects\<close>, \<open>Store_Failures\<close>: the exact effect of column commits and block updates, and that a failed
    operation has none.
  \<^item> \<open>Light_Storage\<close>, \<open>Section_Snapshot\<close>, \<open>Light_Store\<close>: \<^verbatim>\<open>light.rs\<close> and \<^verbatim>\<open>section_snapshot.rs\<close>, the nibble channels
    of a section's light, the small map worker jobs read, and the store a solve commits to.
  \<^item> \<open>Light_Types\<close>, \<open>Light_Grid\<close>, \<open>Light_Cells\<close>: \<^verbatim>\<open>light_solver/types.rs\<close>, \<^verbatim>\<open>queue.rs\<close>, \<^verbatim>\<open>cache.rs\<close> and the buffers of
    \<^verbatim>\<open>output.rs\<close>: bounds and the walks over them, samples, dense sets, the increase queue.
  \<^item> \<open>Light_Solve\<close>: \<^verbatim>\<open>light_solver/solve.rs\<close>, loading, darkening, raising, filling and spreading.
  \<^item> \<open>Light_Field\<close>: the abstract specification, the field of brightest light, as an inductive predicate.
  \<^item> \<open>Light_Rules\<close>: total-correctness rules for steps that may fail and for the worklist loops.
  \<^item> \<open>Light_Darken\<close>, \<open>Light_Queue\<close>, \<open>Light_Spread\<close>, \<open>Light_Propagate\<close>, \<open>Light_Fill\<close>, \<open>Light_Spec\<close>: after darkening no cell
    exceeds the field, the queues hold every lit cell once, spreading closes the field; a solve computes it.
    The worklist loops carry no fuel: they are partial functions proved to return, and a region of \<open>V\<close> cells
    queues at most \<open>35 * V\<close> entries over a whole solve.
  \<^item> \<open>Light_Output\<close>: the results of \<^verbatim>\<open>output.rs\<close> and the entry points \<^verbatim>\<open>solve_light\<close> and
    \<^verbatim>\<open>solve_light_with_scratch\<close>.
  \<^item> \<open>Light_Freeze\<close>, \<open>Light_Result\<close>: packed sections hold what the buffers held; what a solve may
    leave in its scratch queues; the generation is untouched.
  \<^item> \<open>Light_Solved\<close>: the properties of a solve as its callers see it.
  \<^item> \<open>Light_Full\<close>: \<^verbatim>\<open>light_solver/full.rs\<close>, the solve that starts afresh on a padded grid with level buckets.
  \<^item> \<open>Full_Grid\<close>, \<open>Full_Read\<close>, \<open>Full_Halo\<close>, \<open>Full_Sky\<close>: the grid as a function of positions, and that reading, the
    halo and the pass down the columns put in it what the field asks for.
  \<^item> \<open>Full_Spread\<close>, \<open>Full_Levels\<close>, \<open>Full_Field\<close>, \<open>Full_Solved\<close>, \<open>Full_Spec\<close>: the buckets drain level by level
    and close the field; the full solve equals the incremental one.  Its loop carries no fuel either; it queues at most
    \<open>32 * V\<close> entries.  \<open>drain_log\<close>, \<open>levels_log\<close> and \<open>full_log\<close> relate a run to the list of cells it spreads, which
    names a cell at most once in each channel, at its final level.  The regions covered have padded grids of at most \<open>2 ^ 32\<close> cells,
    since the buckets hold 32-bit indices.
  \<^item> \<open>Light_Changes\<close>: \<^verbatim>\<open>light_solver/changes.rs\<close>, the relighting of a region in which a few cells changed.
  \<^item> \<open>Changes_Dark\<close>, \<open>Changes_Loop\<close>, \<open>Changes_Fill\<close>, \<open>Changes_Solved\<close>, \<open>Changes_Spec\<close>: a cell no change touches keeps
    the support it had in the earlier field, and a cell that is not queued has nothing left to give; so the relighting,
    which visits only what changed and what depended on it, agrees with a whole solve.  The budget is again
    \<open>35 * V\<close> entries.
  \<^item> \<open>Mesh_Neighbourhood\<close>: \<^verbatim>\<open>mesh_neighbourhood.rs\<close> and the snapshot a mesh job takes
    (\<^verbatim>\<open>crates/chunk-pipeline/src/stream/meshing\<close>): a mesh reads the world around its sub-chunk, and a change to
    what it read marks it.

  How the parts meet: an update or a column from the wire goes through the decoder into a store history
  (\<open>Store_Ops\<close>); the store names the meshes to rebuild (\<open>Keys\<close>, \<open>Mutation\<close>, \<open>Store_Effects\<close>), whose snapshots read
  it back (\<open>Mesh_Neighbourhood\<close>); light is solved over bounds of the store's blocks by one of three routines
  that compute one field, and committed section by section with its generation (\<open>Light_Store\<close>).

  Parameters of the model: the SHA-256 digest, of which the reuse of payloads asks that it tells apart the few
  payloads compared; the published registries of a session, as a heap of what their addresses hold; the block and
  prior-light sources of a solve.  They are arguments of the definitions; what a property needs
  of them is a hypothesis of it.

  Not modelled: \<^verbatim>\<open>chunk_grid.rs\<close> and \<^verbatim>\<open>weather.rs\<close>, whose results hang on the rounding of \<^verbatim>\<open>f32\<close>;
  \<^verbatim>\<open>block_highlights.rs\<close>, a bounded scan for an overlay over floating-point distances and weak references;
  \<^verbatim>\<open>block_state_identity.rs\<close> and \<^verbatim>\<open>dimension.rs\<close>, a digest call and a constant; heap layout and sharing, beyond
  the identities the store compares; threads, beyond the interleavings of the revision allocator.  The
  other crates (protocol records, scheduling, rendering, user interface, launcher, extensions) are outside the
  library: they call the world model through the operations above.
\<close>

end
